(* ===== verification/Prelude.thy ===== *)
theory Prelude
  imports Main
    "HOL-Library.AList"
    "HOL-Library.Char_ord"
    "HOL-Library.List_Lexorder"
    "HOL-Library.Product_Lexorder"
    "HOL-Library.Signed_Division"
    "HOL-Library.Word"
begin

text \<open>
  What every component of the development shares: Go's 64-bit integers, instants and durations
  of package \<open>time\<close>, Go maps as association lists, and the generic lemmas on them.

  \<^item> An instant (\<open>time.Time\<close>) is the number of nanoseconds since the Unix epoch, an unbounded
    \<open>int\<close>: a Go \<open>time.Time\<close> covers about 292 billion years, and no code here leaves that range.
    The zero value of \<open>time.Time\<close> (January 1 of year 1) is \<open>zeroTime\<close>. Locations only change
    how an instant prints, so \<open>UTC()\<close> is the identity.
  \<^item> A duration and a Go \<open>int\<close> are 64-bit: they are \<open>int\<close> values and every operation that can
    leave the range goes through \<open>wrap64\<close>.
  \<^item> A Go map is an association list with distinct keys; iteration visits the list order, and
    results that must not depend on Go's random order are proved not to.
\<close>

section \<open>Proof collections\<close>

named_theorems time_defs \<open>definitions of the operations of package time\<close>
named_theorems frame_simps \<open>what an operation leaves unchanged\<close>

section \<open>64-bit integers\<close>

definition minInt64 :: int where
  "minInt64 = - (2 ^ 63)"

definition maxInt64 :: int where
  "maxInt64 = 2 ^ 63 - 1"

definition int64 :: "int \<Rightarrow> bool" where
  "int64 x \<longleftrightarrow> minInt64 \<le> x \<and> x \<le> maxInt64"

definition wrap64 :: "int \<Rightarrow> int" where
  "wrap64 x = (x + 2 ^ 63) mod 2 ^ 64 - 2 ^ 63"

lemmas int64_defs = int64_def minInt64_def maxInt64_def

lemma wrap64_int64 [simp]: "int64 (wrap64 x)"
  using pos_mod_bound [of "2 ^ 64" "x + 2 ^ 63"] pos_mod_sign [of "2 ^ 64" "x + 2 ^ 63"]
  by (simp add: int64_defs wrap64_def)

lemma wrap64_id: "int64 x \<Longrightarrow> wrap64 x = x"
  by (simp add: int64_defs wrap64_def)

lemma wrap64_id_iff: "wrap64 x = x \<longleftrightarrow> int64 x"
  by (metis wrap64_id wrap64_int64)

text \<open>\<open>wrap64\<close> is two's complement arithmetic on 64-bit words.\<close>

lemma wrap64_word: "wrap64 x = sint (word_of_int x :: 64 word)"
  by (simp add: wrap64_def sint_sbintrunc' signed_take_bit_eq_take_bit_shift take_bit_eq_mod)

lemma int64_between: "int64 a \<Longrightarrow> int64 c \<Longrightarrow> a \<le> b \<Longrightarrow> b \<le> c \<Longrightarrow> int64 b"
  by (simp add: int64_def)

lemma int64_0 [simp]: "int64 0"
  by (simp add: int64_defs)

lemma sdiv_pos: "0 \<le> (a::int) \<Longrightarrow> 0 < b \<Longrightarrow> a sdiv b = a div b"
  by (cases "a = 0") (simp_all add: signed_divide_int_def)

lemma smod_pos: "0 \<le> (a::int) \<Longrightarrow> 0 < b \<Longrightarrow> a smod b = a mod b"
  by (cases "a = 0") (simp_all add: signed_modulo_int_def)

text \<open>The ceiling of a quotient, computed in Go as a quotient and a test of the remainder.\<close>

definition ceil_div :: "int \<Rightarrow> int \<Rightarrow> int" where
  "ceil_div a b = (a + b - 1) div b"

lemma ceil_div_bounds:
  assumes "0 \<le> a" "0 < b"
  shows "a \<le> ceil_div a b * b" "ceil_div a b * b < a + b" "0 \<le> ceil_div a b"
proof -
  have "(a + b - 1) div b * b + (a + b - 1) mod b = a + b - 1"
    by (rule div_mult_mod_eq)
  moreover have "0 \<le> (a + b - 1) mod b" "(a + b - 1) mod b < b"
    using assms by simp_all
  ultimately show "a \<le> ceil_div a b * b" "ceil_div a b * b < a + b"
    unfolding ceil_div_def by linarith+
  show "0 \<le> ceil_div a b"
    using assms by (simp add: ceil_div_def pos_imp_zdiv_nonneg_iff)
qed

lemma ceil_div_pos:
  assumes "0 < a" "0 < b"
  shows "0 < ceil_div a b"
proof -
  have "0 < ceil_div a b * b" using ceil_div_bounds(1) [of a b] assms by simp
  then show ?thesis using assms by (simp add: zero_less_mult_iff)
qed

lemma ceil_div_eq:
  assumes "0 \<le> a" "0 < b"
  shows "ceil_div a b = (if a mod b \<noteq> 0 then a div b + 1 else a div b)"
proof (cases "a mod b = 0")
  case True
  then have e: "a + b - 1 = (b - 1) + (a div b) * b" using div_mult_mod_eq [of a b] by simp
  have "((b - 1) + (a div b) * b) div b = a div b" using assms by simp
  then show ?thesis using True unfolding ceil_div_def e by simp
next
  case False
  then have "0 < a mod b" "a mod b < b" using assms(2) pos_mod_sign [of b a] by (auto simp: le_less)
  then have "((a mod b - 1) + (a div b + 1) * b) div b = a div b + 1" by simp
  moreover have e: "a + b - 1 = (a mod b - 1) + (a div b + 1) * b"
    using mult_div_mod_eq [of b a] by (simp add: algebra_simps)
  ultimately show ?thesis using False unfolding ceil_div_def e by simp
qed

lemma ceil_div_le: "0 \<le> a \<Longrightarrow> 0 < b \<Longrightarrow> ceil_div a b \<le> a"
proof -
  assume a: "0 \<le> a" "0 < b"
  have "0 \<le> (a - 1) * (b - 1) + (b - 1) \<or> a = 0" using a by (cases "a = 0") auto
  then have "a + b - 1 \<le> a * b + (b - 1)" using a by (auto simp: algebra_simps)
  then have "(a + b - 1) div b \<le> (a * b + (b - 1)) div b"
    using a by (intro zdiv_mono1)
  also have "\<dots> = a" using a by simp
  finally show ?thesis by (simp add: ceil_div_def)
qed

section \<open>Instants and durations\<close>

type_synonym time = int
type_synonym duration = int

definition zeroTime :: time where
  "zeroTime = - 62135596800000000000"

definition isZero :: "time \<Rightarrow> bool" where
  "isZero t \<longleftrightarrow> t = zeroTime"

text \<open>\<open>time.Time.Sub\<close> saturates at the bounds of a duration.\<close>

definition tsub :: "time \<Rightarrow> time \<Rightarrow> duration" where
  "tsub a b = max minInt64 (min maxInt64 (a - b))"

text \<open>\<open>time.Time.UnixNano\<close>: the result is undefined in Go when it does not fit; the runtime
  computes it in 64-bit arithmetic, which wraps.\<close>

definition unixNano :: "time \<Rightarrow> int" where
  "unixNano t = wrap64 t"

definition second :: duration where
  "second = 1000000000"

definition minute :: duration where
  "minute = 60 * second"

definition hour :: duration where
  "hour = 60 * minute"

lemmas duration_defs [time_defs] = second_def minute_def hour_def

lemma tsub_int64: "int64 (tsub a b)"
  by (simp add: tsub_def int64_defs min_def max_def)

lemma tsub_exact: "int64 (a - b) \<Longrightarrow> tsub a b = a - b"
  by (simp add: tsub_def int64_def min_def max_def)

lemma tsub_pos_iff: "0 < tsub a b \<longleftrightarrow> b < a"
  by (simp add: tsub_def minInt64_def maxInt64_def min_def max_def)

lemma unixNano_id_iff: "unixNano t = t \<longleftrightarrow> int64 t"
  by (simp add: unixNano_def wrap64_id_iff)

section \<open>Go maps as association lists\<close>

type_synonym ('k, 'v) gomap = "('k \<times> 'v) list"

abbreviation gokeys :: "('k, 'v) gomap \<Rightarrow> 'k list" where
  "gokeys m \<equiv> map fst m"

abbreviation gomap_wf :: "('k, 'v) gomap \<Rightarrow> bool" where
  "gomap_wf m \<equiv> distinct (map fst m)"

abbreviation goput :: "'k \<Rightarrow> 'v \<Rightarrow> ('k, 'v) gomap \<Rightarrow> ('k, 'v) gomap" where
  "goput \<equiv> AList.update"

abbreviation godel :: "'k \<Rightarrow> ('k, 'v) gomap \<Rightarrow> ('k, 'v) gomap" where
  "godel \<equiv> AList.delete"

lemma map_of_goput [simp]: "map_of (goput k v m) = (map_of m)(k \<mapsto> v)"
  by (rule update_conv')

lemma map_of_godel [simp]: "map_of (godel k m) = (map_of m)(k := None)"
  by (rule delete_conv')

lemma gomap_wf_goput: "gomap_wf m \<Longrightarrow> gomap_wf (goput k v m)"
  by (rule distinct_update)

lemma gomap_wf_godel: "gomap_wf m \<Longrightarrow> gomap_wf (godel k m)"
  by (rule distinct_delete)

lemma map_of_filter_snd:
  "gomap_wf m \<Longrightarrow> map_of (filter (\<lambda>(k, v). P v) m) k =
    (case map_of m k of Some v \<Rightarrow> (if P v then Some v else None) | None \<Rightarrow> None)"
  by (induction m) (auto simp: map_of_eq_None_iff image_iff split: option.splits)

lemma gomap_wf_filter: "gomap_wf m \<Longrightarrow> gomap_wf (filter P m)"
  by (simp add: distinct_map_filter)

lemmas gomap_wf_intros = gomap_wf_goput gomap_wf_godel gomap_wf_filter

lemma map_of_in_set: "gomap_wf m \<Longrightarrow> (k, v) \<in> set m \<longleftrightarrow> map_of m k = Some v"
  by (metis map_of_SomeD map_of_eq_Some_iff)

end
