(* ===== verification/GoText.thy ===== *)
theory GoText
  imports Prelude
begin

text \<open>
  What the components use of Go's \<open>strconv\<close>, \<open>strings\<close> and \<open>encoding/base64\<close>: decimal
  formatting and parsing of 64-bit integers, splitting at the first separator, and the unpadded
  URL alphabet of base64, with their round trips. Strings are lists of bytes.
\<close>

section \<open>Decimal integers\<close>

definition digit_char :: "nat \<Rightarrow> char" where
  "digit_char d = char_of (48 + d)"

definition char_digit :: "char \<Rightarrow> nat option" where
  "char_digit c = (if CHR ''0'' \<le> c \<and> c \<le> CHR ''9'' then Some (of_char c - 48) else None)"

fun nat_digits :: "nat \<Rightarrow> string" where
  "nat_digits n = (if n < 10 then [digit_char n] else nat_digits (n div 10) @ [digit_char (n mod 10)])"

declare nat_digits.simps [simp del]

text \<open>\<open>strconv.FormatInt(n, 10)\<close>.\<close>

definition formatInt :: "int \<Rightarrow> string" where
  "formatInt n = (if n < 0 then CHR ''-'' # nat_digits (nat (- n)) else nat_digits (nat n))"

fun parse_digits :: "nat \<Rightarrow> string \<Rightarrow> nat option" where
  "parse_digits acc [] = Some acc"
| "parse_digits acc (c # cs) =
    (case char_digit c of None \<Rightarrow> None | Some d \<Rightarrow> parse_digits (acc * 10 + d) cs)"

text \<open>\<open>strconv.ParseInt(s, 10, 64)\<close>: an optional sign, at least one digit, in range.\<close>

definition parseInt :: "string \<Rightarrow> int option" where
  "parseInt s =
    (let (neg, ds) = (case s of [] \<Rightarrow> (False, [])
       | c # cs \<Rightarrow> if c = CHR ''-'' then (True, cs) else if c = CHR ''+'' then (False, cs) else (False, s))
     in if ds = [] then None
        else case parse_digits 0 ds of None \<Rightarrow> None
          | Some n \<Rightarrow> (let v = (if neg then - int n else int n) in if int64 v then Some v else None))"

lemma char_digit_char: "d < 10 \<Longrightarrow> char_digit (digit_char d) = Some d"
  by (simp add: char_digit_def digit_char_def less_eq_char_def)

lemma digit_char_not_sign: "d < 10 \<Longrightarrow> digit_char d \<noteq> CHR ''-'' \<and> digit_char d \<noteq> CHR ''+'' \<and> digit_char d \<noteq> CHR '':''"
  using char_digit_char [of d] by (auto simp: char_digit_def less_eq_char_def)

lemma parse_digits_append:
  "parse_digits acc (xs @ ys) = Option.bind (parse_digits acc xs) (\<lambda>a. parse_digits a ys)"
  by (induction acc xs rule: parse_digits.induct) (auto split: option.splits)

lemma nat_digits_nonempty: "nat_digits n \<noteq> []"
  by (subst nat_digits.simps) simp

lemma nat_digits_chars: "c \<in> set (nat_digits n) \<Longrightarrow> \<exists>d < 10. c = digit_char d"
proof (induction n rule: nat_digits.induct)
  case (1 n)
  then show ?case
    by (cases "n < 10") (auto simp: nat_digits.simps [of n] intro: exI [of _ "n mod 10"])
qed

lemma parse_nat_digits: "parse_digits 0 (nat_digits n) = Some n"
proof (induction n rule: nat_digits.induct)
  case (1 n)
  then show ?case
    by (cases "n < 10") (simp_all add: nat_digits.simps [of n] parse_digits_append char_digit_char)
qed

lemma parseInt_formatInt: "int64 n \<Longrightarrow> parseInt (formatInt n) = Some n"
proof (cases "n < 0")
  case True
  then show "int64 n \<Longrightarrow> ?thesis"
    by (simp add: parseInt_def formatInt_def parse_nat_digits nat_digits_nonempty)
next
  case False
  obtain c cs where c: "nat_digits (nat n) = c # cs" using nat_digits_nonempty by (metis neq_Nil_conv)
  then obtain d where "d < 10" "c = digit_char d" using nat_digits_chars [of c "nat n"] by auto
  then have "c \<noteq> CHR ''-''" "c \<noteq> CHR ''+''" using digit_char_not_sign by auto
  then show "int64 n \<Longrightarrow> ?thesis"
    using False c parse_nat_digits [of "nat n"] by (simp add: parseInt_def formatInt_def)
qed

lemma formatInt_no_colon: "CHR '':'' \<notin> set (formatInt n)"
proof
  assume "CHR '':'' \<in> set (formatInt n)"
  then obtain m where "CHR '':'' \<in> set (nat_digits m)" by (auto simp: formatInt_def split: if_splits)
  then obtain d where "d < 10" "CHR '':'' = digit_char d" using nat_digits_chars by blast
  with digit_char_not_sign [of d] show False by simp
qed

section \<open>Splitting\<close>

text \<open>\<open>strings.SplitN(s, ":", 2)\<close> and \<open>strings.Cut\<close>: the parts around the first separator.\<close>

definition cut :: "char \<Rightarrow> string \<Rightarrow> (string \<times> string) option" where
  "cut sep s = (if sep \<in> set s then
     Some (takeWhile (\<lambda>c. c \<noteq> sep) s, tl (dropWhile (\<lambda>c. c \<noteq> sep) s)) else None)"

lemma cut_join: "sep \<notin> set a \<Longrightarrow> cut sep (a @ sep # b) = Some (a, b)"
proof -
  assume a: "sep \<notin> set a"
  then have "takeWhile (\<lambda>c. c \<noteq> sep) a = a" "dropWhile (\<lambda>c. c \<noteq> sep) a = []"
    by (auto simp: takeWhile_eq_all_conv dropWhile_eq_Nil_conv)
  with a show ?thesis by (simp add: cut_def takeWhile_append dropWhile_append)
qed

section \<open>Base64, unpadded URL alphabet\<close>

definition b64_alphabet :: string where
  "b64_alphabet = ''ABCDEFGHIJKLMNOPQRSTUVWXYZabcdefghijklmnopqrstuvwxyz0123456789-_''"

definition b64_char :: "nat \<Rightarrow> char" where
  "b64_char n = b64_alphabet ! n"

definition b64_val :: "char \<Rightarrow> nat option" where
  "b64_val c = map_of (zip b64_alphabet [0..<64]) c"

text \<open>\<open>RawURLEncoding.EncodeToString\<close>: three bytes make four characters; a tail of one byte makes
  two and a tail of two bytes makes three.\<close>

fun b64_encode :: "string \<Rightarrow> string" where
  "b64_encode [] = []"
| "b64_encode [a] = (let n = of_char a * 16 in [b64_char (n div 64), b64_char (n mod 64)])"
| "b64_encode [a, b] = (let n = (of_char a * 256 + of_char b) * 4
     in [b64_char (n div 4096), b64_char (n div 64 mod 64), b64_char (n mod 64)])"
| "b64_encode (a # b # c # rest) = (let n = (of_char a * 256 + of_char b) * 256 + of_char c
     in b64_char (n div 262144) # b64_char (n div 4096 mod 64) # b64_char (n div 64 mod 64) #
        b64_char (n mod 64) # b64_encode rest)"

text \<open>\<open>DecodeString\<close> skips line breaks, refuses every other character outside the alphabet and a
  tail of a single character, and ignores the unused low bits of a tail.\<close>

fun b64_groups :: "nat list \<Rightarrow> string option" where
  "b64_groups [] = Some []"
| "b64_groups [v] = None"
| "b64_groups [v, w] = Some [char_of ((v * 64 + w) div 16)]"
| "b64_groups [v, w, x] = (let n = (v * 64 + w) * 64 + x in Some [char_of (n div 1024), char_of (n div 4 mod 256)])"
| "b64_groups (v # w # x # y # rest) = (let n = ((v * 64 + w) * 64 + x) * 64 + y
     in map_option (\<lambda>bs. char_of (n div 65536) # char_of (n div 256 mod 256) # char_of (n mod 256) # bs)
          (b64_groups rest))"

definition b64_decode :: "string \<Rightarrow> string option" where
  "b64_decode s = Option.bind
    (those (map b64_val (filter (\<lambda>c. c \<noteq> CHR 0x0A \<and> c \<noteq> CHR 0x0D) s))) b64_groups"

lemma b64_val_char: "n < 64 \<Longrightarrow> b64_val (b64_char n) = Some n"
proof -
  have "\<forall>n \<in> set [0..<64]. b64_val (b64_char n) = Some n" by code_simp
  then show "n < 64 \<Longrightarrow> ?thesis" by simp
qed

lemma b64_char_break: "n < 64 \<Longrightarrow> b64_char n \<noteq> CHR 0x0A \<and> b64_char n \<noteq> CHR 0x0D"
proof -
  have "\<forall>n \<in> set [0..<64]. b64_char n \<noteq> CHR 0x0A \<and> b64_char n \<noteq> CHR 0x0D" by code_simp
  then show "n < 64 \<Longrightarrow> ?thesis" by simp
qed

text \<open>The six-bit values of an encoding.\<close>

fun b64_vals :: "string \<Rightarrow> nat list" where
  "b64_vals [] = []"
| "b64_vals [a] = (let n = of_char a * 16 in [n div 64, n mod 64])"
| "b64_vals [a, b] = (let n = (of_char a * 256 + of_char b) * 4 in [n div 4096, n div 64 mod 64, n mod 64])"
| "b64_vals (a # b # c # rest) = (let n = (of_char a * 256 + of_char b) * 256 + of_char c
     in [n div 262144, n div 4096 mod 64, n div 64 mod 64, n mod 64] @ b64_vals rest)"

lemma of_char_less: "(of_char c :: nat) < 256"
  by (metis nat_of_char_less_256)

lemma of_char_le: "(of_char c :: nat) \<le> 255"
proof -
  have "(of_char c :: nat) < Suc 255" by simp
  then show ?thesis by (rule less_Suc_eq_le [THEN iffD1])
qed

lemma byte_sums:
  fixes a b c :: nat
  assumes "a \<le> 255" "b \<le> 255" "c \<le> 255"
  shows "(a * 256 + b) * 4 < 64 * 4096" "(a * 256 + b) * 256 + c < 64 * 262144"
    "((a * 256 + b) * 256 + c) div 65536 = a" "((a * 256 + b) * 256 + c) div 256 mod 256 = b"
    "((a * 256 + b) * 256 + c) mod 256 = c" "(a * 256 + b) div 256 = a" "(a * 256 + b) mod 256 = b"
proof -
  have "(a * 256 + b) * 4 \<le> (255 * 256 + 255) * 4" "(a * 256 + b) * 256 + c \<le> (255 * 256 + 255) * 256 + 255"
    by (intro mult_le_mono add_le_mono assms order_refl)+
  then show "(a * 256 + b) * 4 < 64 * 4096" "(a * 256 + b) * 256 + c < 64 * 262144"
    by (auto elim!: le_less_trans)
  have d: "((a * 256 + b) * 256 + c) div 256 = a * 256 + b" using assms by simp
  have "((a * 256 + b) * 256 + c) div 65536 = ((a * 256 + b) * 256 + c) div 256 div 256"
    by (simp flip: div_mult2_eq)
  then show "((a * 256 + b) * 256 + c) div 65536 = a" using assms unfolding d by simp
  show "((a * 256 + b) * 256 + c) div 256 mod 256 = b" using assms unfolding d by simp
  have "c < 256" "b < 256" using assms by simp_all
  then show "(a * 256 + b) div 256 = a" "(a * 256 + b) mod 256 = b" by simp_all
  show "((a * 256 + b) * 256 + c) mod 256 = c" unfolding mod_mult_self3 using \<open>c < 256\<close> by simp
qed

lemma b64_encode_vals: "b64_encode s = map b64_char (b64_vals s)"
  by (induction s rule: b64_encode.induct) (simp_all add: Let_def)

lemma b64_vals_less: "\<forall>v \<in> set (b64_vals s). v < 64"
proof (induction s rule: b64_vals.induct)
  case (2 a)
  have "(of_char a :: nat) * 16 div 64 < 64"
    using of_char_less [of a] by (intro less_mult_imp_div_less) simp
  then show ?case by (simp add: Let_def)
next
  case (3 a b)
  have "((of_char a :: nat) * 256 + of_char b) * 4 div 4096 < 64"
    using byte_sums(1) [OF of_char_le of_char_le of_char_le] by (intro less_mult_imp_div_less)
  then show ?case by (simp add: Let_def)
next
  case (4 a b c rest)
  have "(((of_char a :: nat) * 256 + of_char b) * 256 + of_char c) div 262144 < 64"
    using byte_sums(2) [OF of_char_le of_char_le of_char_le] by (intro less_mult_imp_div_less)
  with 4 show ?case by (simp add: Let_def)
qed simp

lemma join_sixes:
  fixes n :: nat
  shows "n div 4096 * 64 + n div 64 mod 64 = n div 64" "n div 64 * 64 + n mod 64 = n"
    "n div 262144 * 64 + n div 4096 mod 64 = n div 4096"
proof -
  show "n div 64 * 64 + n mod 64 = n" by (rule div_mult_mod_eq)
  have "n div 4096 = n div 64 div 64" "n div 262144 = n div 4096 div 64"
    by (simp_all flip: div_mult2_eq)
  then show "n div 4096 * 64 + n div 64 mod 64 = n div 64" "n div 262144 * 64 + n div 4096 mod 64 = n div 4096"
    by simp_all
qed

lemma b64_groups_vals: "b64_groups (b64_vals s) = Some s"
proof (induction s rule: b64_vals.induct)
  case (2 a)
  have "(of_char a * 16 div 64 * 64 + of_char a * 16 mod 64) div 16 = (of_char a :: nat)"
    unfolding join_sixes by simp
  then show ?case by (simp add: Let_def)
next
  case (3 a b)
  define m :: nat where "m = of_char a * 256 + of_char b"
  have "(m * 4 div 4096 * 64 + m * 4 div 64 mod 64) * 64 + m * 4 mod 64 = m * 4" unfolding join_sixes ..
  moreover have "m div 256 = of_char a" "m mod 256 = of_char b"
    unfolding m_def using byte_sums(6,7) [OF of_char_le of_char_le of_char_le] by blast+
  moreover have "m * 4 div 1024 = m div 256" "m * 4 div 4 mod 256 = m mod 256" by simp_all
  moreover have "char_of m = b" using \<open>m mod 256 = of_char b\<close> by (metis char_of_mod_256 char_of_char)
  ultimately show ?case by (simp add: Let_def m_def [symmetric])
next
  case (4 a b c rest)
  define n :: nat where "n = (of_char a * 256 + of_char b) * 256 + of_char c"
  have "((n div 262144 * 64 + n div 4096 mod 64) * 64 + n div 64 mod 64) * 64 + n mod 64 = n"
    unfolding join_sixes ..
  moreover have "n div 65536 = of_char a" "n div 256 mod 256 = of_char b" "n mod 256 = of_char c"
    unfolding n_def using byte_sums(3-5) [OF of_char_le of_char_le of_char_le] by blast+
  ultimately show ?case using 4
    by (simp only: b64_vals.simps n_def [symmetric] Let_def append.simps b64_groups.simps) simp
qed simp

lemma those_map_Some: "those (map (\<lambda>x. Some (f x)) xs) = Some (map f xs)"
  by (induction xs) simp_all

lemma b64_round_trip: "b64_decode (b64_encode s) = Some s"
proof -
  have "filter (\<lambda>c. c \<noteq> CHR 0x0A \<and> c \<noteq> CHR 0x0D) (b64_encode s) = b64_encode s"
    using b64_vals_less [of s] b64_char_break by (auto simp: b64_encode_vals filter_id_conv)
  moreover have "map b64_val (b64_encode s) = map (\<lambda>x. Some (id x)) (b64_vals s)"
    using b64_vals_less [of s] b64_val_char by (auto simp: b64_encode_vals)
  ultimately show ?thesis by (simp only: b64_decode_def those_map_Some) (simp add: b64_groups_vals)
qed

lemma b64_encode_Nil_iff: "b64_encode s = [] \<longleftrightarrow> s = []"
  by (cases s rule: b64_encode.cases) (simp_all add: Let_def)

end
