(* ===== verification/Paging.thy ===== *)
theory Paging
  imports Prelude
begin

text \<open>
  Package \<open>paging\<close>: the arithmetic between an untrusted page number, a total count and the
  offset of a store query. The integers are 64-bit; the theorems include that no operation
  wraps.
\<close>

section \<open>Model\<close>

record page =
  Number :: int
  Size :: int
  Total :: int
  Pages :: int

definition paging_Of :: "int \<Rightarrow> int \<Rightarrow> int \<Rightarrow> page" where
  "paging_Of requested size0 total0 =
    (let sz = max size0 1;
         tot = max total0 0;
         pages0 = tot sdiv sz;
         pages = (if tot smod sz \<noteq> 0 then wrap64 (pages0 + 1) else pages0);
         number = (if pages = 0 \<or> requested < 1 then 1
                   else if requested > pages then pages else requested)
     in \<lparr>Number = number, Size = sz, Total = tot, Pages = pages\<rparr>)"

definition page_Limit :: "page \<Rightarrow> int" where
  "page_Limit p = Size p"

definition page_Offset :: "page \<Rightarrow> int" where
  "page_Offset p = wrap64 (wrap64 (Number p - 1) * Size p)"

definition page_Empty :: "page \<Rightarrow> bool" where
  "page_Empty p \<longleftrightarrow> Total p = 0"

definition page_HasPrev :: "page \<Rightarrow> bool" where
  "page_HasPrev p \<longleftrightarrow> Number p > 1"

definition page_HasNext :: "page \<Rightarrow> bool" where
  "page_HasNext p \<longleftrightarrow> Number p < Pages p"

definition page_Prev :: "page \<Rightarrow> int" where
  "page_Prev p = (if page_HasPrev p then wrap64 (Number p - 1) else Number p)"

definition page_Next :: "page \<Rightarrow> int" where
  "page_Next p = (if page_HasNext p then wrap64 (Number p + 1) else Number p)"

definition page_First :: "page \<Rightarrow> int" where
  "page_First p = (if page_Empty p then 0 else wrap64 (page_Offset p + 1))"

definition page_Last :: "page \<Rightarrow> int" where
  "page_Last p =
    (if page_Empty p then 0
     else if wrap64 (Total p - page_Offset p) \<le> Size p then Total p
     else wrap64 (page_Offset p + Size p))"

lemmas page_defs = page_Limit_def page_Empty_def page_HasPrev_def page_HasNext_def
  page_Prev_def page_Next_def page_First_def page_Last_def

section \<open>The page a request lands on\<close>

lemma paging_Of_Pages:
  assumes "int64 tot"
  shows "Pages (paging_Of r s tot) = ceil_div (max tot 0) (max s 1)"
proof -
  let ?t = "max tot 0" and ?s = "max s 1"
  have "0 \<le> ceil_div ?t ?s" "ceil_div ?t ?s \<le> ?t"
    by (simp_all add: ceil_div_bounds ceil_div_le)
  then have "int64 (ceil_div ?t ?s)" using assms by (auto simp: int64_defs)
  then show ?thesis
    by (auto simp: paging_Of_def Let_def sdiv_pos smod_pos ceil_div_eq wrap64_id)
qed

lemma paging_Of_fields [simp]:
  "Size (paging_Of r s t) = max s 1" "Total (paging_Of r s t) = max t 0"
  by (simp_all add: paging_Of_def Let_def)

lemma paging_Of_Number:
  "Number (paging_Of r s t) =
    (let n = Pages (paging_Of r s t) in if n = 0 \<or> r < 1 then 1 else if r > n then n else r)"
  by (simp add: paging_Of_def Let_def)

text \<open>A page number is always a real page: between 1 and the page count, or 1 when nothing
  matched.\<close>

lemma paging_Of_Number_range:
  assumes "int64 t"
  shows "1 \<le> Number (paging_Of r s t)"
    and "0 < t \<Longrightarrow> Number (paging_Of r s t) \<le> Pages (paging_Of r s t)"
proof -
  have p: "0 \<le> Pages (paging_Of r s t)" "0 < t \<Longrightarrow> 0 < Pages (paging_Of r s t)"
    by (simp_all add: paging_Of_Pages [OF assms] ceil_div_bounds(3) ceil_div_pos)
  then show "1 \<le> Number (paging_Of r s t)"
    by (auto simp: paging_Of_Number Let_def)
  show "0 < t \<Longrightarrow> Number (paging_Of r s t) \<le> Pages (paging_Of r s t)"
    using p by (auto simp: paging_Of_Number Let_def)
qed

section \<open>Offsets and positions\<close>

lemma page_offset_below:
  assumes "int64 t" "0 < t"
  shows "(Number (paging_Of r s t) - 1) * max s 1 < t"
proof -
  let ?n = "Number (paging_Of r s t)" and ?s = "max s 1"
  have "?n \<le> ceil_div t ?s"
    using paging_Of_Number_range(2) [OF assms] assms by (simp add: paging_Of_Pages)
  then have "?n * ?s \<le> ceil_div t ?s * ?s" by (rule mult_right_mono) simp
  moreover have "ceil_div t ?s * ?s < t + ?s" using assms by (intro ceil_div_bounds) auto
  ultimately show ?thesis by (simp add: left_diff_distrib)
qed

lemma page_number_int64: "int64 t \<Longrightarrow> int64 (Number (paging_Of r s t) - 1)"
proof -
  assume t: "int64 t"
  have "Number (paging_Of r s t) \<le> max 1 (max t 0)"
  proof -
    have "ceil_div (max t 0) (max s 1) \<le> max t 0" by (rule ceil_div_le) auto
    then show ?thesis
      unfolding paging_Of_Number [of r s t] paging_Of_Pages [OF t] Let_def by (simp split: if_split)
        (auto simp: max_def)
  qed
  with paging_Of_Number_range(1) [OF t, of r s] t show ?thesis
    by (auto simp: int64_defs max_def split: if_splits)
qed

lemma page_Offset_exact:
  assumes "int64 t"
  shows "page_Offset (paging_Of r s t) = (Number (paging_Of r s t) - 1) * max s 1"
proof -
  let ?n = "Number (paging_Of r s t)"
  have "0 \<le> (?n - 1) * max s 1" using paging_Of_Number_range(1) [OF assms, of r s] by simp
  moreover have "(?n - 1) * max s 1 \<le> maxInt64"
  proof (cases "0 < t")
    case True
    with page_offset_below [OF assms, of r s] assms show ?thesis by (simp add: int64_def)
  next
    case False
    then have "?n = 1" by (simp add: paging_Of_Number paging_Of_Pages [OF assms] Let_def ceil_div_def)
    then show ?thesis by (simp add: maxInt64_def)
  qed
  ultimately have "int64 ((?n - 1) * max s 1)" by (simp add: int64_def minInt64_def)
  then show ?thesis
    by (simp add: page_Offset_def wrap64_id page_number_int64 [OF assms])
qed

lemma page_positions:
  assumes "int64 t" "0 < t"
  shows "page_First (paging_Of r s t) = (Number (paging_Of r s t) - 1) * max s 1 + 1"
    and "page_Last (paging_Of r s t) = min t (Number (paging_Of r s t) * max s 1)"
proof -
  let ?p = "paging_Of r s t" and ?o = "(Number (paging_Of r s t) - 1) * max s 1"
  have o: "0 \<le> ?o" "?o < t" "t \<le> maxInt64"
    using paging_Of_Number_range(1) [OF assms(1), of r s] page_offset_below [OF assms, of r s] assms(1)
    by (auto simp: int64_def)
  then have w: "int64 (?o + 1)" "int64 (t - ?o)" by (auto simp: int64_defs)
  show "page_First ?p = ?o + 1"
    using assms w by (simp add: page_defs page_Offset_exact wrap64_id)
  have e: "?o + max s 1 = Number ?p * max s 1" by (simp add: algebra_simps)
  show "page_Last ?p = min t (Number ?p * max s 1)"
  proof (cases "t - ?o \<le> max s 1")
    case True
    then show ?thesis using assms w e by (auto simp: page_defs page_Offset_exact wrap64_id min_def)
  next
    case False
    then have "?o + max s 1 < t" by simp
    with o have "int64 (?o + max s 1)" by (auto simp: int64_defs)
    with False show ?thesis
      using assms w e by (simp add: page_defs page_Offset_exact wrap64_id min_def)
  qed
qed

lemma paging_Of_in_range:
  assumes "int64 t" "1 \<le> n" "n \<le> ceil_div (max t 0) (max s 1)"
  shows "Number (paging_Of n s t) = n"
  using assms by (simp add: paging_Of_Number paging_Of_Pages Let_def)

text \<open>For a non-empty result of any 64-bit size and any page size, the pages partition the
  items: every position from 1 to the total lies between \<open>First\<close> and \<open>Last\<close> of exactly one page
  number between 1 and \<open>Pages\<close>. No overflow breaks it, however large the total or the page
  size.\<close>

theorem pages_partition_items:
  assumes "int64 t" "1 \<le> i" "i \<le> t"
  shows "\<exists>!n. 1 \<le> n \<and> n \<le> Pages (paging_Of n s t) \<and>
    page_First (paging_Of n s t) \<le> i \<and> i \<le> page_Last (paging_Of n s t)"
proof (rule ex1I)
  let ?s = "max s 1"
  have t: "0 < t" "max t 0 = t" using assms by auto
  have first: "page_First (paging_Of n s t) = (n - 1) * ?s + 1"
    and last: "page_Last (paging_Of n s t) = min t (n * ?s)"
    if "1 \<le> n" "n \<le> ceil_div t ?s" for n
    using page_positions [OF assms(1) t(1), of n s] paging_Of_in_range [OF assms(1), of n s] that t
    by simp_all
  let ?n = "ceil_div i ?s"
  have n: "i \<le> ?n * ?s" "?n * ?s < i + ?s" using assms ceil_div_bounds [of i ?s] by auto
  then have "0 < ?n * ?s" using assms by linarith
  then have n1: "1 \<le> ?n" by (simp add: zero_less_mult_iff)
  have n2: "?n \<le> ceil_div t ?s" using assms(3) by (simp add: ceil_div_def zdiv_mono1)
  show "1 \<le> ?n \<and> ?n \<le> Pages (paging_Of ?n s t) \<and>
    page_First (paging_Of ?n s t) \<le> i \<and> i \<le> page_Last (paging_Of ?n s t)"
    using n n1 n2 assms t by (simp add: first last paging_Of_Pages left_diff_distrib)
  fix m
  assume m: "1 \<le> m \<and> m \<le> Pages (paging_Of m s t) \<and>
    page_First (paging_Of m s t) \<le> i \<and> i \<le> page_Last (paging_Of m s t)"
  then have "m \<le> ceil_div t ?s" using assms t by (simp add: paging_Of_Pages)
  with m have "i \<le> m * ?s" "(m - 1) * ?s < i" by (auto simp: first last)
  with n have "(m - 1) * ?s < ?n * ?s" "(?n - 1) * ?s < m * ?s"
    by (simp_all add: left_diff_distrib)
  then have "m - 1 < ?n" "?n - 1 < m" by (simp_all add: mult_less_cancel_right)
  then show "m = ?n" by simp
qed

theorem pages_partition_items_witness:
  "\<exists>!n. 1 \<le> n \<and> n \<le> Pages (paging_Of n 10 25) \<and>
    page_First (paging_Of n 10 25) \<le> 21 \<and> 21 \<le> page_Last (paging_Of n 10 25)"
  by (rule pages_partition_items) (simp_all add: int64_defs)

text \<open>\<open>Of\<close> clamps every 64-bit request onto a real page and the offset handed to the store
  is exact: it neither overflows nor reaches past the last item.\<close>

theorem page_request_clamped:
  assumes "int64 t"
  shows "1 \<le> Number (paging_Of r s t) \<and>
    Number (paging_Of r s t) \<le> max 1 (Pages (paging_Of r s t)) \<and>
    page_Offset (paging_Of r s t) = (Number (paging_Of r s t) - 1) * page_Limit (paging_Of r s t) \<and>
    0 \<le> page_Offset (paging_Of r s t) \<and>
    (page_Offset (paging_Of r s t) < t \<or> page_Empty (paging_Of r s t))"
proof -
  have "1 \<le> Number (paging_Of r s t)" by (rule paging_Of_Number_range(1) [OF assms])
  moreover have "Number (paging_Of r s t) \<le> max 1 (Pages (paging_Of r s t))"
    by (auto simp: paging_Of_Number [of r s t] Let_def)
  moreover have "0 < t \<Longrightarrow> page_Offset (paging_Of r s t) < t"
    using page_offset_below [OF assms, of r s] by (simp add: page_Offset_exact [OF assms])
  ultimately show ?thesis
    by (auto simp: page_Offset_exact [OF assms] page_defs)
qed

theorem page_request_clamped_witness:
  "page_Offset (paging_Of 9223372036854775807 10 25) = 20"
  using page_request_clamped [of 25 9223372036854775807 10]
  by (simp add: int64_defs paging_Of_def page_Offset_def page_defs Let_def wrap64_def sdiv_pos smod_pos)

end
