(* ===== verification/RateLimit.thy ===== *)
theory RateLimit
  imports Prelude
begin

text \<open>
  Package \<open>ratelimit\<close>: the GCRA limiter, its store interface, the in-process store and the HTTP
  middleware.

  \<^item> The store interface (\<open>store.go\<close>) is a record of operations over an abstract store state
    \<open>'s\<close>; its contract is the locale \<open>rl_contract\<close>, interpreted on \<open>MemoryStore\<close> below.
  \<^item> \<open>Limiter.admit\<close> loops until its compare-and-swap wins. Each pass is a \<open>rl_round\<close>: what
    \<open>ctx.Err()\<close> and the clock return in that pass, and what other callers do to the store before
    the read and between the read and the write. The list of rounds bounds the passes considered;
    \<open>None\<close> means that none of them won.
  \<^item> Errors are values of \<open>rl_error\<close>, one constructor per error the code returns.
\<close>

section \<open>Limits (ratelimit.go)\<close>

datatype limit_problem = RateNotPositive | PeriodNotPositive | BurstNegative | RateTooHigh | BurstTooLarge

datatype rl_error =
    ErrInvalidLimit limit_problem
  | NilStore | NilClock | HorizonNotPositive | NamespaceEmpty | NamespaceInvalid
  | NNotPositive | NExceedsCapacity | NotRepresentable | BeyondHorizon
  | RlCtxErr | RlStoreErr string

record limit =
  Rate :: int
  Period :: duration
  Burst :: int

definition PerSecond :: "int \<Rightarrow> limit" where
  "PerSecond n = \<lparr>Rate = n, Period = second, Burst = 0\<rparr>"

definition PerMinute :: "int \<Rightarrow> limit" where
  "PerMinute n = \<lparr>Rate = n, Period = minute, Burst = 0\<rparr>"

definition PerHour :: "int \<Rightarrow> limit" where
  "PerHour n = \<lparr>Rate = n, Period = hour, Burst = 0\<rparr>"

definition WithBurst :: "limit \<Rightarrow> int \<Rightarrow> limit" where
  "WithBurst l b = l\<lparr>Burst := b\<rparr>"

definition capacity :: "limit \<Rightarrow> int" where
  "capacity l = (if Burst l > 0 then Burst l else Rate l)"

definition emission :: "limit \<Rightarrow> duration" where
  "emission l =
    (let interval = Period l sdiv Rate l
     in if Period l smod Rate l \<noteq> 0 then wrap64 (interval + 1) else interval)"

definition Validate :: "limit \<Rightarrow> rl_error option" where
  "Validate l =
    (if Rate l \<le> 0 then Some (ErrInvalidLimit RateNotPositive)
     else if Period l \<le> 0 then Some (ErrInvalidLimit PeriodNotPositive)
     else if Burst l < 0 then Some (ErrInvalidLimit BurstNegative)
     else if emission l \<le> 0 then Some (ErrInvalidLimit RateTooHigh)
     else if emission l > maxInt64 sdiv capacity l then Some (ErrInvalidLimit BurstTooLarge)
     else None)"

section \<open>Limiters\<close>

record limiter =
  lim :: limit
  now_set :: bool
  prefix_ns :: string
  nsSet :: bool
  horizon :: duration

datatype rl_option = WithClock bool | WithNamespace string | WithReservationHorizon duration

fun apply_option :: "rl_option \<Rightarrow> limiter \<Rightarrow> limiter" where
  "apply_option (WithClock nonnil) l = l\<lparr>now_set := nonnil\<rparr>"
| "apply_option (WithNamespace ns) l = l\<lparr>prefix_ns := ns, nsSet := True\<rparr>"
| "apply_option (WithReservationHorizon d) l = l\<lparr>horizon := d\<rparr>"

definition DefaultReservationHorizon :: duration where
  "DefaultReservationHorizon = 24 * hour"

definition ns_byte :: "char \<Rightarrow> bool" where
  "ns_byte b \<longleftrightarrow> CHR ''a'' \<le> b \<and> b \<le> CHR ''z'' \<or> CHR ''0'' \<le> b \<and> b \<le> CHR ''9'' \<or> b = CHR ''-''"

definition validNamespace :: "string \<Rightarrow> rl_error option" where
  "validNamespace ns =
    (if ns = [] then Some NamespaceEmpty
     else if list_all ns_byte ns then None else Some NamespaceInvalid)"

definition rl_New :: "limit \<Rightarrow> bool \<Rightarrow> rl_option list \<Rightarrow> rl_error + limiter" where
  "rl_New lm storeNil opts =
    (case Validate lm of Some e \<Rightarrow> Inl e | None \<Rightarrow>
     if storeNil then Inl NilStore else
     let l = fold apply_option opts
       \<lparr>lim = lm, now_set = True, prefix_ns = [], nsSet = False, horizon = DefaultReservationHorizon\<rparr>
     in if \<not> now_set l then Inl NilClock
        else if horizon l \<le> 0 then Inl HorizonNotPositive
        else if nsSet l then
          (case validNamespace (prefix_ns l) of Some e \<Rightarrow> Inl e
           | None \<Rightarrow> Inr (l\<lparr>prefix_ns := prefix_ns l @ '':''\<rparr>))
        else Inr l)"

section \<open>The store interface (store.go) and admission\<close>

record 's rl_store =
  rl_get :: "string \<Rightarrow> time \<Rightarrow> 's \<Rightarrow> (rl_error + int option) \<times> 's"
  rl_setIfAbsent :: "string \<Rightarrow> int \<Rightarrow> time \<Rightarrow> time \<Rightarrow> 's \<Rightarrow> (rl_error + bool) \<times> 's"
  rl_cas :: "string \<Rightarrow> int \<Rightarrow> int \<Rightarrow> time \<Rightarrow> time \<Rightarrow> 's \<Rightarrow> (rl_error + bool) \<times> 's"

record rl_result =
  Allowed :: bool
  Limit :: int
  Remaining :: int
  RetryAfter :: duration
  ResetAfter :: duration

record 's rl_round =
  round_ctx :: "rl_error option"
  round_now :: time
  round_pre :: "'s \<Rightarrow> 's"
  round_mid :: "'s \<Rightarrow> 's"

definition unitsRemaining :: "duration \<Rightarrow> duration \<Rightarrow> duration \<Rightarrow> int" where
  "unitsRemaining burst fill em =
    (let free = wrap64 (burst - fill) in if free < 0 then 0 else free sdiv em)"

text \<open>The theoretical arrival time read from the store: a stored instant still ahead of now.\<close>

definition tat_of :: "int option \<Rightarrow> time \<Rightarrow> time" where
  "tat_of stored now = (case stored of Some v \<Rightarrow> (if v > now then v else now) | None \<Rightarrow> now)"

fun admit_loop :: "'s rl_store \<Rightarrow> limiter \<Rightarrow> string \<Rightarrow> duration \<Rightarrow> duration \<Rightarrow> duration \<Rightarrow> bool \<Rightarrow>
    's rl_round list \<Rightarrow> 's \<Rightarrow> ((rl_error + rl_result \<times> time) \<times> 's) option" where
  "admit_loop st l key em burst cost reserve [] s = None"
| "admit_loop st l key em burst cost reserve (r # rs) s =
    (case round_ctx r of Some e \<Rightarrow> Some (Inl e, s) | None \<Rightarrow>
     (let now = round_now r in
      case rl_get st key now (round_pre r s) of
        (Inl e, s1) \<Rightarrow> Some (Inl e, s1)
      | (Inr stored, s1) \<Rightarrow>
        (let tat = tat_of stored now;
             newTAT = tat + cost
         in if unixNano newTAT \<noteq> newTAT then Some (Inl NotRepresentable, s1)
         else let allowAt = newTAT - burst;
                  wait = tsub allowAt now
         in if \<not> reserve \<and> wait > 0 then
           Some (Inr (\<lparr>Allowed = False, Limit = capacity (lim l),
                       Remaining = unitsRemaining burst (tsub tat now) em,
                       RetryAfter = wait, ResetAfter = tsub tat now\<rparr>, zeroTime), s1)
         else if reserve \<and> wait > horizon l then Some (Inl BeyondHorizon, s1)
         else
           (case (case stored of
                Some v \<Rightarrow> rl_cas st key v (unixNano newTAT) now newTAT (round_mid r s1)
              | None \<Rightarrow> rl_setIfAbsent st key (unixNano newTAT) now newTAT (round_mid r s1)) of
             (Inl e, s3) \<Rightarrow> Some (Inl e, s3)
           | (Inr ok, s3) \<Rightarrow>
             (if ok then
                Some (Inr (\<lparr>Allowed = True, Limit = capacity (lim l),
                            Remaining = unitsRemaining burst (tsub newTAT now) em,
                            RetryAfter = 0, ResetAfter = tsub newTAT now\<rparr>, allowAt), s3)
              else admit_loop st l key em burst cost reserve rs s3)))))"

definition admit :: "'s rl_store \<Rightarrow> limiter \<Rightarrow> string \<Rightarrow> int \<Rightarrow> bool \<Rightarrow> 's rl_round list \<Rightarrow> 's \<Rightarrow>
    ((rl_error + rl_result \<times> time) \<times> 's) option" where
  "admit st l key n reserve rounds s =
    (if n \<le> 0 then Some (Inl NNotPositive, s)
     else if n > capacity (lim l) then Some (Inl NExceedsCapacity, s)
     else let em = emission (lim l) in
       admit_loop st l (prefix_ns l @ key) em (wrap64 (capacity (lim l) * em)) (wrap64 (n * em))
         reserve rounds s)"

definition AllowN :: "'s rl_store \<Rightarrow> limiter \<Rightarrow> string \<Rightarrow> int \<Rightarrow> 's rl_round list \<Rightarrow> 's \<Rightarrow>
    ((rl_error + rl_result) \<times> 's) option" where
  "AllowN st l key n rounds s =
    map_option (\<lambda>(r, s'). (case r of Inl e \<Rightarrow> Inl e | Inr (res, _) \<Rightarrow> Inr res, s'))
      (admit st l key n False rounds s)"

definition Allow :: "'s rl_store \<Rightarrow> limiter \<Rightarrow> string \<Rightarrow> 's rl_round list \<Rightarrow> 's \<Rightarrow>
    ((rl_error + rl_result) \<times> 's) option" where
  "Allow st l key rounds s = AllowN st l key 1 rounds s"

text \<open>A reservation is its \<open>ReadyAt\<close> instant.\<close>

definition ReserveN :: "'s rl_store \<Rightarrow> limiter \<Rightarrow> string \<Rightarrow> int \<Rightarrow> 's rl_round list \<Rightarrow> 's \<Rightarrow>
    ((rl_error + time) \<times> 's) option" where
  "ReserveN st l key n rounds s =
    map_option (\<lambda>(r, s'). (case r of Inl e \<Rightarrow> Inl e | Inr (_, readyAt) \<Rightarrow> Inr readyAt, s'))
      (admit st l key n True rounds s)"

definition DelayFrom :: "time \<Rightarrow> time \<Rightarrow> duration" where
  "DelayFrom readyAt t = (let d = tsub readyAt t in if d > 0 then d else 0)"

section \<open>MemoryStore (store_memory.go)\<close>

record rl_entry =
  re_value :: int
  re_expiresAt :: time

type_synonym rl_mem = "(string, rl_entry) gomap"

definition rl_mem_Get :: "string \<Rightarrow> time \<Rightarrow> rl_mem \<Rightarrow> (rl_error + int option) \<times> rl_mem" where
  "rl_mem_Get key now m =
    (case map_of m key of
       None \<Rightarrow> (Inr None, m)
     | Some e \<Rightarrow> if \<not> re_expiresAt e > now then (Inr None, godel key m)
               else (Inr (Some (re_value e)), m))"

definition rl_mem_SetIfAbsent :: "string \<Rightarrow> int \<Rightarrow> time \<Rightarrow> time \<Rightarrow> rl_mem \<Rightarrow> (rl_error + bool) \<times> rl_mem" where
  "rl_mem_SetIfAbsent key value now expiresAt m =
    (case map_of m key of
       Some e \<Rightarrow> if re_expiresAt e > now then (Inr False, m)
               else (Inr True, goput key \<lparr>re_value = value, re_expiresAt = expiresAt\<rparr> m)
     | None \<Rightarrow> (Inr True, goput key \<lparr>re_value = value, re_expiresAt = expiresAt\<rparr> m))"

definition rl_mem_CompareAndSwap :: "string \<Rightarrow> int \<Rightarrow> int \<Rightarrow> time \<Rightarrow> time \<Rightarrow> rl_mem \<Rightarrow>
    (rl_error + bool) \<times> rl_mem" where
  "rl_mem_CompareAndSwap key old newValue now expiresAt m =
    (case map_of m key of
       None \<Rightarrow> (Inr False, m)
     | Some e \<Rightarrow> if \<not> re_expiresAt e > now \<or> re_value e \<noteq> old then (Inr False, m)
               else (Inr True, goput key \<lparr>re_value = newValue, re_expiresAt = expiresAt\<rparr> m))"

definition rl_mem_Sweep :: "time \<Rightarrow> rl_mem \<Rightarrow> int \<times> rl_mem" where
  "rl_mem_Sweep now m =
    (let kept = filter (\<lambda>(k, e). re_expiresAt e > now) m
     in (int (length m) - int (length kept), kept))"

definition rl_memory :: "rl_mem rl_store" where
  "rl_memory = \<lparr>rl_get = rl_mem_Get, rl_setIfAbsent = rl_mem_SetIfAbsent, rl_cas = rl_mem_CompareAndSwap\<rparr>"

lemmas rl_mem_defs = rl_mem_Get_def rl_mem_SetIfAbsent_def rl_mem_CompareAndSwap_def

section \<open>HTTP middleware (middleware.go)\<close>

text \<open>What the middleware does with a request: the handler runs with the rate headers, the
  request is denied with status 429, or it is degraded. \<open>secs\<close> is \<open>math.Ceil(d.Seconds())\<close>, a
  floating-point computation of the standard library.\<close>

datatype mw_action =
    MwNext "(string \<times> int) list"
  | MwDenied "(string \<times> int) list"
  | MwUnavailable

definition rl_degraded :: "bool \<Rightarrow> mw_action" where
  "rl_degraded failClosed = (if failClosed then MwUnavailable else MwNext [])"

definition rl_Middleware :: "(duration \<Rightarrow> int) \<Rightarrow> 's rl_store \<Rightarrow> limiter \<Rightarrow> bool \<Rightarrow> string \<Rightarrow>
    's rl_round list \<Rightarrow> 's \<Rightarrow> (mw_action \<times> 's) option" where
  "rl_Middleware secs st l failClosed k rounds s =
    (if k = [] then Some (rl_degraded failClosed, s)
     else map_option (\<lambda>(r, s').
       (case r of Inl e \<Rightarrow> rl_degraded failClosed
        | Inr res \<Rightarrow>
          (let hdr = [(''RateLimit-Limit'', Limit res), (''RateLimit-Remaining'', Remaining res),
                      (''RateLimit-Reset'', secs (ResetAfter res))]
           in if \<not> Allowed res then MwDenied (hdr @ [(''Retry-After'', secs (RetryAfter res))])
              else MwNext hdr), s'))
       (Allow st l k rounds s))"

text \<open>\<open>forced429\<close>: the statuses that reach the underlying writer when a limited handler makes the
  calls in \<open>ops\<close> (\<open>Some c\<close> a \<open>WriteHeader(c)\<close>, \<open>None\<close> a \<open>Write\<close>), followed by the
  middleware's own check of \<open>wrote\<close>.\<close>

fun forced429_call :: "int option \<Rightarrow> bool \<times> int list \<Rightarrow> bool \<times> int list" where
  "forced429_call (Some status) (wrote, out) = (if wrote then (wrote, out) else (True, out @ [429]))"
| "forced429_call None (wrote, out) = (if \<not> wrote then (True, out @ [429]) else (wrote, out))"

definition forced429_serve :: "int option list \<Rightarrow> int list" where
  "forced429_serve ops =
    (let (wrote, out) = fold forced429_call ops (False, [])
     in if \<not> wrote then snd (forced429_call (Some 429) (wrote, out)) else out)"

section \<open>Valid limits\<close>

lemma emission_eq:
  assumes "0 < Rate l" "0 < Period l" "int64 (Period l)"
  shows "emission l = ceil_div (Period l) (Rate l)"
proof -
  have "int64 (ceil_div (Period l) (Rate l))"
    using assms ceil_div_le [of "Period l" "Rate l"] ceil_div_bounds(3) [of "Period l" "Rate l"]
    by (simp add: int64_defs)
  then show ?thesis
    using assms by (auto simp: emission_def Let_def sdiv_pos smod_pos ceil_div_eq wrap64_id)
qed

lemma Validate_None:
  assumes "Validate l = None" "int64 (Period l)"
  shows "0 < emission l" "0 < capacity l" "int64 (capacity l * emission l)"
    "Period l \<le> Rate l * emission l" "0 < Rate l"
proof -
  have v: "0 < Rate l" "0 < Period l" "0 \<le> Burst l" "0 < emission l"
    "emission l \<le> maxInt64 sdiv capacity l"
    using assms(1) by (auto simp: Validate_def split: if_splits)
  then show "0 < Rate l" "0 < emission l" "0 < capacity l" by (auto simp: capacity_def)
  then have "emission l \<le> maxInt64 div capacity l" using v by (simp add: sdiv_pos maxInt64_def)
  then have "capacity l * emission l \<le> capacity l * (maxInt64 div capacity l)"
    using \<open>0 < capacity l\<close> by simp
  also have "\<dots> \<le> maxInt64" using \<open>0 < capacity l\<close> mult_div_mod_eq [of "capacity l" maxInt64]
    pos_mod_sign [of "capacity l" maxInt64] by linarith
  finally have "capacity l * emission l \<le> maxInt64" .
  moreover have "0 < capacity l * emission l" using v \<open>0 < capacity l\<close> by simp
  ultimately show "int64 (capacity l * emission l)" by (simp add: int64_def minInt64_def)
  show "Period l \<le> Rate l * emission l"
    using ceil_div_bounds(1) [of "Period l" "Rate l"] v assms(2) by (simp add: emission_eq mult.commute)
qed

lemma cost_int64:
  assumes "Validate l = None" "int64 (Period l)" "0 < n" "n \<le> capacity l"
  shows "int64 (n * emission l)" "0 < n * emission l" "n * emission l \<le> capacity l * emission l"
proof -
  note v = Validate_None [OF assms(1,2)]
  show le: "n * emission l \<le> capacity l * emission l" using v(1) assms by simp
  show "0 < n * emission l" using v(1) assms by simp
  with le v(3) show "int64 (n * emission l)" by (auto simp: int64_defs)
qed

section \<open>The contract of a store\<close>

text \<open>\<open>live s k t\<close> is the value a reader at instant \<open>t\<close> may see under \<open>k\<close>: the contract of
  \<open>store.go\<close> speaks only about instants at or after the one an operation was given.\<close>

definition same_live :: "('s \<Rightarrow> string \<Rightarrow> time \<Rightarrow> int option) \<Rightarrow> time \<Rightarrow> 's \<Rightarrow> 's \<Rightarrow> bool" where
  "same_live live now s s' \<longleftrightarrow> (\<forall>k t. now \<le> t \<longrightarrow> live s' k t = live s k t)"

definition live_upd :: "('s \<Rightarrow> string \<Rightarrow> time \<Rightarrow> int option) \<Rightarrow> time \<Rightarrow> string \<Rightarrow> int \<Rightarrow> time \<Rightarrow> 's \<Rightarrow> 's \<Rightarrow> bool" where
  "live_upd live now k v expiry s s' \<longleftrightarrow> (\<forall>k' t. now \<le> t \<longrightarrow>
     live s' k' t = (if k' = k then (if t < expiry then Some v else None) else live s k' t))"

definition gcra_step :: "('s \<Rightarrow> string \<Rightarrow> time \<Rightarrow> int option) \<Rightarrow> limiter \<Rightarrow> string \<Rightarrow> duration \<Rightarrow> duration \<Rightarrow>
    duration \<Rightarrow> bool \<Rightarrow> time \<Rightarrow> 's \<Rightarrow> rl_result \<Rightarrow> time \<Rightarrow> 's \<Rightarrow> bool" where
  "gcra_step live l key em burst cost reserve now s res readyAt s' \<longleftrightarrow>
    (let newTAT = tat_of (live s key now) now + cost
     in int64 newTAT \<and> live_upd live now key newTAT newTAT s s' \<and>
        (if reserve then tsub (newTAT - burst) now \<le> horizon l else newTAT - burst \<le> now) \<and>
        readyAt = newTAT - burst \<and>
        res = \<lparr>Allowed = True, Limit = capacity (lim l),
               Remaining = unitsRemaining burst (tsub newTAT now) em,
               RetryAfter = 0, ResetAfter = tsub newTAT now\<rparr>)"

locale rl_contract =
  fixes st :: "'s rl_store"
    and live :: "'s \<Rightarrow> string \<Rightarrow> time \<Rightarrow> int option"
    and inv :: "'s \<Rightarrow> bool"
  assumes get_law: "inv s \<Longrightarrow> rl_get st k now s = (r, s') \<Longrightarrow>
      inv s' \<and> same_live live now s s' \<and> (\<forall>v. r = Inr v \<longrightarrow> v = live s k now)"
    and set_law: "inv s \<Longrightarrow> rl_setIfAbsent st k x now expiry s = (b, s') \<Longrightarrow>
      inv s' \<and> (\<forall>ok. b = Inr ok \<longrightarrow> ok = (live s k now = None) \<and>
        (if ok then live_upd live now k x expiry s s' else same_live live now s s'))"
    and cas_law: "inv s \<Longrightarrow> rl_cas st k old x now expiry s = (b, s') \<Longrightarrow>
      inv s' \<and> (\<forall>ok. b = Inr ok \<longrightarrow> ok = (live s k now = Some old) \<and>
        (if ok then live_upd live now k x expiry s s' else same_live live now s s'))"
begin

text \<open>The write of one pass, whichever of the two operations it uses.\<close>

lemma write_law:
  assumes "inv s"
    "(case stored of Some v \<Rightarrow> rl_cas st key v x now expiry s
      | None \<Rightarrow> rl_setIfAbsent st key x now expiry s) = (b, s')"
  shows "inv s' \<and> (\<forall>ok. b = Inr ok \<longrightarrow> ok = (live s key now = stored) \<and>
    (if ok then live_upd live now key x expiry s s' else same_live live now s s'))"
proof (cases stored)
  case None
  with assms set_law [OF assms(1), of key x now expiry b s'] show ?thesis by simp
next
  case (Some v)
  with assms cas_law [OF assms(1), of key v x now expiry b s'] show ?thesis by simp
qed

text \<open>Whatever other callers do between the read and the write, an admission is one atomic
  GCRA step on the store state its winning write found.\<close>

lemma admit_loop_atomic:
  assumes "admit_loop st l key em burst cost reserve rounds s = Some (Inr (res, readyAt), s')"
    "inv s" "Allowed res"
    "\<forall>r \<in> set rounds. \<forall>x. inv x \<longrightarrow> inv (round_pre r x) \<and> inv (round_mid r x)"
  shows "\<exists>r \<in> set rounds. \<exists>s2. inv s2 \<and>
    gcra_step live l key em burst cost reserve (round_now r) s2 res readyAt s'"
  using assms
proof (induction rounds arbitrary: s)
  case (Cons r rs)
  let ?now = "round_now r"
  have ctx: "round_ctx r = None" using Cons.prems(1) by (auto split: option.splits)
  obtain g s1 where g: "rl_get st key ?now (round_pre r s) = (g, s1)" by fastforce
  then obtain stored where s1: "g = Inr stored" "inv s1"
    using Cons.prems get_law [OF _ g] ctx by (cases g) auto
  let ?newTAT = "tat_of stored ?now + cost"
  obtain b s3 where w: "(case stored of
      Some v \<Rightarrow> rl_cas st key v (unixNano ?newTAT) ?now ?newTAT (round_mid r s1)
    | None \<Rightarrow> rl_setIfAbsent st key (unixNano ?newTAT) ?now ?newTAT (round_mid r s1)) = (b, s3)"
    by (metis surj_pair)
  have i2: "inv (round_mid r s1)" using Cons.prems(4) s1 by simp
  note wl = write_law [OF i2 w]
  have c: "unixNano ?newTAT = ?newTAT" "reserve \<or> \<not> 0 < tsub (?newTAT - burst) ?now"
      "reserve \<longrightarrow> tsub (?newTAT - burst) ?now \<le> horizon l" and b: "\<exists>ok. b = Inr ok"
    using Cons.prems(1,3) ctx g s1 w
    by (auto simp: Let_def split: if_splits sum.splits)
  then obtain ok where ok: "b = Inr ok" by blast
  show ?case
  proof (cases ok)
    case True
    have "int64 ?newTAT" using c(1) by (simp add: unixNano_id_iff)
    with True have "gcra_step live l key em burst cost reserve ?now (round_mid r s1) res readyAt s3" "s3 = s'"
      using Cons.prems(1,3) ctx g s1 w c ok wl [unfolded c(1)]
      by (auto simp: Let_def gcra_step_def tsub_pos_iff split: if_splits)
    with i2 show ?thesis by auto
  next
    case False
    then have "admit_loop st l key em burst cost reserve rs s3 = Some (Inr (res, readyAt), s')"
      using Cons.prems(1,3) ctx g s1 w c ok
      by (auto simp: Let_def split: if_splits)
    with Cons.IH [OF this] Cons.prems wl show ?thesis by auto
  qed
qed simp

end

text \<open>A pass in which no other caller interferes.\<close>

definition quiet :: "time \<Rightarrow> 's rl_round" where
  "quiet t = \<lparr>round_ctx = None, round_now = t, round_pre = id, round_mid = id\<rparr>"

text \<open>A store whose operations do not fail.\<close>

locale rl_reliable = rl_contract +
  assumes get_ok: "\<exists>v. fst (rl_get st k now s) = Inr v"
    and set_ok: "\<exists>v. fst (rl_setIfAbsent st k x now expiry s) = Inr v"
    and cas_ok: "\<exists>v. fst (rl_cas st k old x now expiry s) = Inr v"
begin

lemma admit_loop_quiet:
  fixes t :: time and key :: string and cost :: duration
  assumes "inv s"
  defines "newTAT \<equiv> tat_of (live s key t) t + cost"
  obtains out s' where "admit_loop st l key em burst cost reserve (quiet t # rs) s = Some (out, s')"
    and "inv s'"
    and "\<not> int64 newTAT \<Longrightarrow> out = Inl NotRepresentable \<and> same_live live t s s'"
    and "int64 newTAT \<Longrightarrow> \<not> reserve \<Longrightarrow> newTAT - burst > t \<Longrightarrow>
      out = Inr (\<lparr>Allowed = False, Limit = capacity (lim l),
                  Remaining = unitsRemaining burst (tsub (newTAT - cost) t) em,
                  RetryAfter = tsub (newTAT - burst) t, ResetAfter = tsub (newTAT - cost) t\<rparr>, zeroTime) \<and>
      same_live live t s s'"
    and "int64 newTAT \<Longrightarrow> reserve \<Longrightarrow> tsub (newTAT - burst) t > horizon l \<Longrightarrow>
      out = Inl BeyondHorizon \<and> same_live live t s s'"
    and "int64 newTAT \<Longrightarrow>
      (if reserve then tsub (newTAT - burst) t \<le> horizon l else newTAT - burst \<le> t) \<Longrightarrow>
      \<exists>res. out = Inr (res, newTAT - burst) \<and>
        gcra_step live l key em burst cost reserve t s res (newTAT - burst) s'"
proof -
  obtain stored s1 where g: "rl_get st key t s = (Inr stored, s1)"
    using get_ok [of key t s] by (metis prod.collapse)
  from get_law [OF assms(1) g] have s1: "inv s1" "same_live live t s s1" "stored = live s key t"
    by auto
  then have live1: "live s1 key t = stored" by (auto simp: same_live_def)
  obtain ok s3 where w: "(case stored of
      Some v \<Rightarrow> rl_cas st key v (unixNano newTAT) t newTAT s1
    | None \<Rightarrow> rl_setIfAbsent st key (unixNano newTAT) t newTAT s1) = (Inr ok, s3)"
    using set_ok cas_ok by (cases stored) (auto, (metis prod.collapse)+)
  note wl = write_law [OF s1(1) w]
  then have ok: ok using live1 by simp
  have upd: "live_upd live t key (unixNano newTAT) newTAT s s3"
    using wl ok s1(2) by (auto simp: live_upd_def same_live_def)
  let ?run = "admit_loop st l key em burst cost reserve (quiet t # rs) s"
  consider (repr) "\<not> int64 newTAT"
    | (deny) "int64 newTAT" "\<not> reserve" "newTAT - burst > t"
    | (far) "int64 newTAT" "reserve" "tsub (newTAT - burst) t > horizon l"
    | (win) "int64 newTAT" "if reserve then tsub (newTAT - burst) t \<le> horizon l else newTAT - burst \<le> t"
    by (cases reserve; cases "int64 newTAT"; force)
  then show ?thesis
  proof cases
    case repr
    then have "?run = Some (Inl NotRepresentable, s1)"
      using g s1 by (simp add: quiet_def Let_def unixNano_id_iff newTAT_def)
    with repr s1 show ?thesis by (intro that) auto
  next
    case deny
    then have "?run = Some (Inr (\<lparr>Allowed = False, Limit = capacity (lim l),
        Remaining = unitsRemaining burst (tsub (newTAT - cost) t) em,
        RetryAfter = tsub (newTAT - burst) t, ResetAfter = tsub (newTAT - cost) t\<rparr>, zeroTime), s1)"
      using g s1 by (simp add: quiet_def Let_def unixNano_id_iff newTAT_def tsub_pos_iff)
    with deny s1 show ?thesis by (intro that) (auto simp: newTAT_def)
  next
    case far
    then have "?run = Some (Inl BeyondHorizon, s1)"
      using g s1 by (simp add: quiet_def Let_def unixNano_id_iff newTAT_def)
    with far s1 show ?thesis by (intro that) auto
  next
    case win
    let ?res = "\<lparr>Allowed = True, Limit = capacity (lim l),
       Remaining = unitsRemaining burst (tsub newTAT t) em, RetryAfter = 0, ResetAfter = tsub newTAT t\<rparr>"
    have u: "unixNano newTAT = newTAT" using win by (simp add: unixNano_id_iff)
    have "\<not> (\<not> reserve \<and> tsub (newTAT - burst) t > 0)" "\<not> (reserve \<and> tsub (newTAT - burst) t > horizon l)"
      using win by (auto simp: tsub_pos_iff)
    then have r: "?run = Some (Inr (?res, newTAT - burst), s3)"
      using g w ok u by (cases stored) (simp_all add: quiet_def Let_def newTAT_def s1(3) [symmetric])
    have gs: "gcra_step live l key em burst cost reserve t s ?res (newTAT - burst) s3"
      using win upd u by (simp add: gcra_step_def Let_def newTAT_def [symmetric])
    show ?thesis
      using win gs wl by (intro that [OF r]) (auto split: if_splits)
  qed
qed

end

section \<open>The admission rate\<close>

text \<open>A sequence of calls \<open>AllowN(key, n)\<close> at given instants, and the calls it admits.\<close>

fun allow_run :: "'s rl_store \<Rightarrow> limiter \<Rightarrow> (string \<times> time \<times> int) list \<Rightarrow> 's \<Rightarrow> (string \<times> time \<times> int) list" where
  "allow_run st l [] s = []"
| "allow_run st l ((k, t, n) # evs) s =
    (case AllowN st l k n [quiet t] s of
       Some (Inr res, s') \<Rightarrow> (if Allowed res then [(k, t, n)] else []) @ allow_run st l evs s'
     | Some (Inl e, s') \<Rightarrow> allow_run st l evs s'
     | None \<Rightarrow> allow_run st l evs s)"

definition units_for :: "string \<Rightarrow> (string \<times> time \<times> int) list \<Rightarrow> int" where
  "units_for key adm = (\<Sum>(k, t, n) \<leftarrow> adm. if k = key then n else 0)"

text \<open>The stored state of a key is the arrival time \<open>v\<close>, visible exactly until it is reached.\<close>

definition vtat :: "('s \<Rightarrow> string \<Rightarrow> time \<Rightarrow> int option) \<Rightarrow> time \<Rightarrow> 's \<Rightarrow> string \<Rightarrow> time \<Rightarrow> bool" where
  "vtat live a s k v \<longleftrightarrow> (\<forall>t \<ge> a. live s k t = (if t < v then Some v else None))"

lemma vtat_later: "vtat live a s k v \<Longrightarrow> a \<le> b \<Longrightarrow> vtat live b s k v"
  by (auto simp: vtat_def)

lemma vtat_tat_of: "vtat live a s k v \<Longrightarrow> a \<le> t \<Longrightarrow> tat_of (live s k t) t = max v t"
  by (auto simp: vtat_def tat_of_def)

lemma vtat_same_live: "vtat live a s k v \<Longrightarrow> a \<le> b \<Longrightarrow> same_live live b s s' \<Longrightarrow> vtat live b s' k v"
  by (auto simp: vtat_def same_live_def)

lemma vtat_live_upd:
  assumes "live_upd live b k' v' v' s s'"
  shows "vtat live b s' k' v'"
    and "vtat live a s k v \<Longrightarrow> a \<le> b \<Longrightarrow> k \<noteq> k' \<Longrightarrow> vtat live b s' k v"
  using assms by (auto simp: vtat_def live_upd_def)

lemma units_for_simps [simp]:
  "units_for key [] = 0" "units_for key ((k, t, n) # adm) = (if k = key then n else 0) + units_for key adm"
  by (simp_all add: units_for_def)

context rl_reliable
begin

text \<open>What one uncontended \<open>AllowN\<close> does to the arrival time of every key.\<close>

lemma AllowN_quiet:
  assumes "Validate (lim l) = None" "int64 (Period (lim l))" "inv s"
    and vt: "vtat live a s (prefix_ns l @ key) v" "a \<le> t"
  obtains out s' where "AllowN st l k n [quiet t] s = Some (out, s')" "inv s'"
    and "(\<forall>res. out = Inr res \<longrightarrow> \<not> Allowed res) \<or> k \<noteq> key \<Longrightarrow> vtat live t s' (prefix_ns l @ key) v"
    and "\<And>res. k = key \<Longrightarrow> out = Inr res \<Longrightarrow> Allowed res \<Longrightarrow>
      0 < n \<and> n \<le> capacity (lim l) \<and>
      max v t + n * emission (lim l) \<le> t + capacity (lim l) * emission (lim l) \<and>
      vtat live t s' (prefix_ns l @ key) (max v t + n * emission (lim l))"
proof (cases "0 < n \<and> n \<le> capacity (lim l)")
  case False
  then have "AllowN st l k n [quiet t] s = Some (Inl (if n \<le> 0 then NNotPositive else NExceedsCapacity), s)"
    by (auto simp: AllowN_def admit_def)
  with assms show ?thesis by (intro that) (auto intro: vtat_later)
next
  case True
  let ?em = "emission (lim l)" and ?K = "prefix_ns l @ k"
  let ?burst = "capacity (lim l) * ?em" and ?cost = "n * ?em"
  have w: "wrap64 ?burst = ?burst" "wrap64 ?cost = ?cost"
    using Validate_None [OF assms(1,2)] cost_int64 [OF assms(1,2)] True by (simp_all add: wrap64_id)
  obtain out s' where run: "admit_loop st l ?K ?em ?burst ?cost False [quiet t] s = Some (out, s')"
    and i: "inv s'"
    and nr: "\<not> int64 (tat_of (live s ?K t) t + ?cost) \<Longrightarrow>
        out = Inl NotRepresentable \<and> same_live live t s s'"
    and deny: "int64 (tat_of (live s ?K t) t + ?cost) \<Longrightarrow> tat_of (live s ?K t) t + ?cost - ?burst > t \<Longrightarrow>
        (\<exists>res at. out = Inr (res, at) \<and> \<not> Allowed res) \<and> same_live live t s s'"
    and win: "int64 (tat_of (live s ?K t) t + ?cost) \<Longrightarrow> tat_of (live s ?K t) t + ?cost - ?burst \<le> t \<Longrightarrow>
        \<exists>res at. out = Inr (res, at) \<and> gcra_step live l ?K ?em ?burst ?cost False t s res at s'"
    by (rule admit_loop_quiet [OF assms(3), where key = ?K and t = t and cost = ?cost and l = l and
        em = ?em and burst = ?burst and reserve = False and rs = "[]"]) auto
  have A: "AllowN st l k n [quiet t] s =
      Some (case out of Inl e \<Rightarrow> Inl e | Inr (res, _) \<Rightarrow> Inr res, s')"
    using True run w by (simp add: AllowN_def admit_def Let_def del: admit_loop.simps)
  consider (same) "same_live live t s s'" "\<forall>res at. out = Inr (res, at) \<longrightarrow> \<not> Allowed res"
    | (step) res at where "out = Inr (res, at)" "gcra_step live l ?K ?em ?burst ?cost False t s res at s'"
    using nr deny win by (cases "int64 (tat_of (live s ?K t) t + ?cost)") (force simp: not_less [symmetric])+
  then show ?thesis
  proof cases
    case same
    then have "vtat live t s' (prefix_ns l @ key) v" using vt by (auto intro: vtat_same_live)
    with same i show ?thesis
      by (intro that [OF A]) (auto split: sum.splits prod.splits)
  next
    case step
    let ?new = "tat_of (live s ?K t) t + ?cost"
    have upd: "live_upd live t ?K ?new ?new s s'" "?new - ?burst \<le> t"
      using step(2) by (auto simp: gcra_step_def Let_def)
    have "k = key \<Longrightarrow> tat_of (live s ?K t) t = max v t" using vtat_tat_of [OF vt] by simp
    with upd vt True step i show ?thesis
      by (intro that [OF A]) (auto intro: vtat_live_upd(2) dest: vtat_live_upd(1) simp: gcra_step_def Let_def)
  qed
qed

lemma allow_run_bound:
  assumes v: "Validate (lim l) = None" "int64 (Period (lim l))"
    and "inv s" "vtat live a s (prefix_ns l @ key) v"
    and "sorted (map (\<lambda>(k, t, n). t) evs)" "\<forall>(k, t, n) \<in> set evs. a \<le> t \<and> t \<le> b"
  shows "units_for key (allow_run st l evs s) * emission (lim l) \<le>
    max 0 (b + capacity (lim l) * emission (lim l) - max v a)"
  using assms(3-)
proof (induction evs arbitrary: s a v)
  case (Cons ev evs)
  obtain k t n where ev: "ev = (k, t, n)" by (cases ev)
  have at: "a \<le> t" "t \<le> b" using Cons.prems(4) ev by auto
  have rest: "sorted (map (\<lambda>(k, t, n). t) evs)" "\<forall>(k, t, n) \<in> set evs. t \<le> t \<and> t \<le> b"
    "\<forall>(k', t', n') \<in> set evs. t \<le> t' \<and> t' \<le> b"
    using Cons.prems(3,4) ev by (auto simp: sorted_wrt_map)
  let ?e = "emission (lim l)" and ?c = "capacity (lim l) * emission (lim l)"
  obtain out s' where A: "AllowN st l k n [quiet t] s = Some (out, s')" and i: "inv s'"
    and skip: "(\<forall>res. out = Inr res \<longrightarrow> \<not> Allowed res) \<or> k \<noteq> key \<Longrightarrow> vtat live t s' (prefix_ns l @ key) v"
    and win: "\<And>res. k = key \<Longrightarrow> out = Inr res \<Longrightarrow> Allowed res \<Longrightarrow>
      0 < n \<and> n \<le> capacity (lim l) \<and> max v t + n * ?e \<le> t + ?c \<and>
      vtat live t s' (prefix_ns l @ key) (max v t + n * ?e)"
    by (rule AllowN_quiet [OF v Cons.prems(1,2) at(1), of k n]) blast
  show ?case
  proof (cases "k = key \<and> (\<exists>res. out = Inr res \<and> Allowed res)")
    case True
    then obtain res where res: "out = Inr res" "Allowed res" "k = key" by blast
    from win [OF res(3,1,2)] have w: "max v t + n * ?e \<le> t + ?c"
      "vtat live t s' (prefix_ns l @ key) (max v t + n * ?e)" by auto
    from Cons.IH [OF i w(2) rest(1,3)]
    have "units_for key (allow_run st l evs s') * ?e \<le> max 0 (b + ?c - max (max v t + n * ?e) t)" .
    moreover have "max (max v t + n * ?e) t = max v t + n * ?e"
    proof (rule max_absorb1)
      have "0 < n * ?e" using win [OF res(3,1,2)] Validate_None(1) [OF v] by simp
      then show "t \<le> max v t + n * ?e" by linarith
    qed
    moreover have "0 \<le> b + ?c - (max v t + n * ?e)" using w(1) at by simp
    ultimately have "units_for key (allow_run st l evs s') * ?e \<le> b + ?c - max v t - n * ?e" by simp
    then show ?thesis using A ev res at by (simp add: distrib_right)
  next
    case False
    then have "vtat live t s' (prefix_ns l @ key) v" using skip by auto
    from Cons.IH [OF i this rest(1,3)]
    have "units_for key (allow_run st l evs s') * ?e \<le> max 0 (b + ?c - max v t)" .
    also have "\<dots> \<le> max 0 (b + ?c - max v a)" using at by simp
    finally show ?thesis using A ev False by (cases out) auto
  qed
qed simp

end

section \<open>MemoryStore keeps the contract\<close>

definition rl_mem_live :: "rl_mem \<Rightarrow> string \<Rightarrow> time \<Rightarrow> int option" where
  "rl_mem_live m k t = (case map_of m k of
     Some e \<Rightarrow> if re_expiresAt e > t then Some (re_value e) else None | None \<Rightarrow> None)"

interpretation rlmem: rl_reliable rl_memory rl_mem_live "\<lambda>m. gomap_wf m"
proof (unfold_locales, goal_cases)
  case (1 s k now r s')
  then show ?case
    by (auto simp: rl_memory_def rl_mem_Get_def rl_mem_live_def same_live_def gomap_wf_godel
        split: option.splits if_splits simp del: map_of_eq_Some_iff)
next
  case (2 s k x now expiry b s')
  then show ?case
    by (auto simp: rl_memory_def rl_mem_SetIfAbsent_def rl_mem_live_def same_live_def live_upd_def
        gomap_wf_goput split: option.splits if_splits simp del: map_of_eq_Some_iff)
next
  case (3 s k old x now expiry b s')
  then show ?case
    by (auto simp: rl_memory_def rl_mem_CompareAndSwap_def rl_mem_live_def same_live_def live_upd_def
        gomap_wf_goput split: option.splits if_splits simp del: map_of_eq_Some_iff)
qed (auto simp: rl_memory_def rl_mem_defs split: option.splits)

definition rl_mem_wf :: "rl_mem \<Rightarrow> bool" where
  "rl_mem_wf m \<longleftrightarrow> gomap_wf m \<and> (\<forall>k e. map_of m k = Some e \<longrightarrow> re_value e = re_expiresAt e)"

lemma rl_mem_wf_vtat:
  assumes "rl_mem_wf m"
  obtains v where "vtat rl_mem_live a m k v" "map_of m k = None \<Longrightarrow> v = a"
    "\<And>e. map_of m k = Some e \<Longrightarrow> v = re_expiresAt e"
proof (cases "map_of m k")
  case None
  then show ?thesis by (intro that [of a]) (auto simp: vtat_def rl_mem_live_def)
next
  case (Some e)
  with assms have "re_value e = re_expiresAt e" by (auto simp: rl_mem_wf_def)
  with Some show ?thesis by (intro that [of "re_expiresAt e"]) (auto simp: vtat_def rl_mem_live_def)
qed

lemma rl_mem_ops_wf:
  assumes "rl_mem_wf m"
  shows "rl_mem_Get k now m = (r, m') \<Longrightarrow> rl_mem_wf m'"
    and "rl_mem_SetIfAbsent k x now x m = (b, m') \<Longrightarrow> rl_mem_wf m'"
    and "rl_mem_CompareAndSwap k old x now x m = (b, m') \<Longrightarrow> rl_mem_wf m'"
  using assms
  by (auto simp: rl_mem_wf_def rl_mem_defs gomap_wf_goput gomap_wf_godel split: option.splits if_splits
      simp del: map_of_eq_Some_iff)

lemma rl_mem_Sweep_live:
  "gomap_wf m \<Longrightarrow> same_live rl_mem_live now m (snd (rl_mem_Sweep now m))"
  by (auto simp: same_live_def rl_mem_live_def rl_mem_Sweep_def Let_def map_of_filter_snd
      split: option.splits)

lemma admit_loop_rl_mem_wf:
  assumes "admit_loop rl_memory l key em burst cost reserve rounds m = Some (out, m')" "rl_mem_wf m"
    "\<forall>r \<in> set rounds. \<forall>x. rl_mem_wf x \<longrightarrow> rl_mem_wf (round_pre r x) \<and> rl_mem_wf (round_mid r x)"
  shows "rl_mem_wf m'"
  using assms
proof (induction rounds arbitrary: m)
  case (Cons r rs)
  obtain g m1 where g: "rl_mem_Get key (round_now r) (round_pre r m) = (g, m1)" by fastforce
  have m1: "rl_mem_wf m1" "rl_mem_wf (round_mid r m1)"
    using Cons.prems(2,3) rl_mem_ops_wf(1) [OF _ g] by auto
  note wr = rl_mem_ops_wf(2,3) [OF m1(2)]
  show ?case
    using Cons g m1
    by (auto simp: Let_def rl_memory_def split: if_splits option.splits sum.splits prod.splits
        dest: wr)
qed simp

lemma admit_loop_returns:
  assumes "\<forall>r \<in> set rs. \<forall>x. gomap_wf x \<longrightarrow> gomap_wf (round_pre r x) \<and> gomap_wf (round_mid r x)"
    and "gomap_wf m"
  shows "\<exists>out m'. admit_loop rl_memory l key em burst cost reserve (rs @ [quiet t]) m = Some (out, m')"
  using assms
proof (induction rs arbitrary: m)
  case Nil
  then show ?case
    using rlmem.admit_loop_quiet [of m l key em burst cost reserve t "[]"] by (metis append_Nil)
next
  case (Cons r rs)
  obtain g m1 where g: "rl_get rl_memory key (round_now r) (round_pre r m) = (g, m1)" by fastforce
  have m1: "gomap_wf (round_mid r m1)"
    using Cons.prems rlmem.get_law [OF _ g] by auto
  have wf: "rl_setIfAbsent rl_memory key x now y (round_mid r m1) = (b, m2) \<Longrightarrow> gomap_wf m2"
    "rl_cas rl_memory key old x now y (round_mid r m1) = (b, m2) \<Longrightarrow> gomap_wf m2" for x now y b m2 old
    using rlmem.set_law [OF m1] rlmem.cas_law [OF m1] by blast+
  have IH: "\<exists>out m'. admit_loop rl_memory l key em burst cost rv (rs @ [quiet t]) x = Some (out, m')"
    if "gomap_wf x" "rv = reserve" for x rv using Cons.IH [OF _ that(1)] Cons.prems(1) that by simp
  show ?case
    using g by (auto simp: Let_def split: option.split sum.split prod.split intro!: IH dest: wf)
qed

section \<open>Properties\<close>

text \<open>C4: The limiter never admits more than its limit. Over any sequence of calls made at
  non-decreasing instants within a window from \<open>a\<close> to \<open>b\<close>, on any keys and from any state the
  limiter can have left in the in-process store, the units admitted for one key cost at most
  the burst plus the length of the window.\<close>

theorem rl_rate_bound:
  assumes "Validate (lim l) = None" "int64 (Period (lim l))" "rl_mem_wf m" "a \<le> b"
    and "sorted (map (\<lambda>(k, t, n). t) evs)" "\<forall>(k, t, n) \<in> set evs. a \<le> t \<and> t \<le> b"
  shows "units_for key (allow_run rl_memory l evs m) * emission (lim l) \<le>
    capacity (lim l) * emission (lim l) + (b - a)"
proof -
  obtain v where "vtat rl_mem_live a m (prefix_ns l @ key) v"
    using rl_mem_wf_vtat [OF assms(3)] by blast
  with assms have "units_for key (allow_run rl_memory l evs m) * emission (lim l) \<le>
      max 0 (b + capacity (lim l) * emission (lim l) - max v a)"
    by (intro rlmem.allow_run_bound) (auto simp: rl_mem_wf_def)
  moreover have "0 < capacity (lim l) * emission (lim l)"
    using Validate_None [OF assms(1,2)] by simp
  ultimately show ?thesis using assms(4) by auto
qed

lemma PerSecond_2: "emission (PerSecond 2) = 500000000" "capacity (PerSecond 2) = 2" "Validate (PerSecond 2) = None"
  by (simp_all add: PerSecond_def emission_def capacity_def Validate_def Let_def sdiv_pos smod_pos
      second_def maxInt64_def)

definition demo_limiter :: limiter where
  "demo_limiter = \<lparr>lim = PerSecond 2, now_set = True, prefix_ns = [], nsSet = False,
     horizon = DefaultReservationHorizon\<rparr>"

theorem rl_rate_bound_witness:
  "units_for ''a'' (allow_run rl_memory demo_limiter [(''a'', 0, 1), (''a'', 0, 1), (''a'', 7, 1)] []) *
      500000000 \<le> 2 * 500000000 + (7 - (0::int))"
  using rl_rate_bound [of demo_limiter "[]" 0 7 "[(''a'', 0, 1), (''a'', 0, 1), (''a'', 7, 1)]" "''a''"]
  by (simp add: demo_limiter_def PerSecond_2 rl_mem_wf_def) (simp add: PerSecond_def second_def int64_defs)

text \<open>\<open>RetryAfter\<close> is exact. When a call is denied, the same call repeated at a later instant
  \<open>t\<close> with nothing admitted in between is admitted exactly when \<open>RetryAfter\<close> has passed: not a
  nanosecond sooner, and at once when it has.\<close>

theorem rl_retry_after_exact:
  assumes valid: "Validate (lim l) = None" "int64 (Period (lim l))" and wf: "rl_mem_wf m"
    and deny: "AllowN rl_memory l k n [quiet now] m = Some (Inr res, m')" "\<not> Allowed res"
    and repr: "int64 now" "RetryAfter res < maxInt64"
    and later: "now \<le> t" "int64 (t + capacity (lim l) * emission (lim l))"
  shows "\<exists>res' m''. AllowN rl_memory l k n [quiet t] m' = Some (Inr res', m'') \<and>
    (Allowed res' \<longleftrightarrow> now + RetryAfter res \<le> t)"
proof -
  let ?em = "emission (lim l)" and ?K = "prefix_ns l @ k"
  let ?burst = "capacity (lim l) * ?em" and ?cost = "n * ?em"
  have n: "0 < n" "n \<le> capacity (lim l)" using deny by (auto simp: AllowN_def admit_def split: if_splits)
  note c = cost_int64 [OF valid n] and b = Validate_None [OF valid]
  have AllowN: "AllowN rl_memory l k n [quiet u] x = map_option (\<lambda>(r, s').
      (case r of Inl e \<Rightarrow> Inl e | Inr (res, _) \<Rightarrow> Inr res, s'))
      (admit_loop rl_memory l ?K ?em ?burst ?cost False [quiet u] x)" for u x
    using n c b by (simp add: AllowN_def admit_def Let_def wrap64_id del: admit_loop.simps)
  obtain v where v: "vtat rl_mem_live now m ?K v" using rl_mem_wf_vtat [OF wf] by blast
  have g: "gomap_wf m" using wf by (simp add: rl_mem_wf_def)
  have tat: "tat_of (rl_mem_live m ?K now) now = max v now" using vtat_tat_of [OF v] by simp
  have den: "int64 (max v now + ?cost)" "now < max v now + ?cost - ?burst"
      "RetryAfter res = tsub (max v now + ?cost - ?burst) now" "same_live rl_mem_live now m m'" "gomap_wf m'"
    using deny
    by - (rule rlmem.admit_loop_quiet [OF g, where key = ?K and t = now and cost = ?cost and l = l and
        em = ?em and burst = ?burst and reserve = False and rs = "[]"];
        (cases "int64 (max v now + ?cost)"; cases "now < max v now + ?cost - ?burst";
          force simp: AllowN tat gcra_step_def Let_def simp del: admit_loop.simps))+
  then have vn: "now < v" using c by (simp add: max_def split: if_splits)
  then have ra: "RetryAfter res = v + ?cost - ?burst - now"
    using den repr by (auto simp: tsub_def max_def min_def minInt64_def split: if_splits)
  have v': "vtat rl_mem_live t m' ?K v" 
    by (rule vtat_later [OF vtat_same_live [OF v order_refl den(4)] later(1)])
  then have tat': "tat_of (rl_mem_live m' ?K t) t = max v t" by (rule vtat_tat_of) simp
  have "int64 (t + ?cost)"
    using later(2) c repr(1) later(1) by (auto simp: int64_defs)
  then have i: "int64 (max v t + ?cost)" using den(1) vn by (simp add: max_def)
  have iff: "max v t + ?cost - ?burst \<le> t \<longleftrightarrow> now + RetryAfter res \<le> t" using ra c by auto
  show ?thesis
    by (rule rlmem.admit_loop_quiet [OF den(5), where key = ?K and t = t and cost = ?cost and l = l and
        em = ?em and burst = ?burst and reserve = False and rs = "[]"])
      (cases "t < max v t + ?cost - ?burst";
        use iff i in \<open>force simp: AllowN tat' gcra_step_def Let_def simp del: admit_loop.simps\<close>)
qed

lemma demo_full:
  "AllowN rl_memory demo_limiter ''a'' 1 [quiet 0]
     [(''a'', \<lparr>re_value = 1000000000, re_expiresAt = 1000000000\<rparr>)] =
   Some (Inr \<lparr>Allowed = False, Limit = 2, Remaining = 0, RetryAfter = 500000000, ResetAfter = 1000000000\<rparr>,
     [(''a'', \<lparr>re_value = 1000000000, re_expiresAt = 1000000000\<rparr>)])"
  by (simp add: AllowN_def admit_def demo_limiter_def PerSecond_2 quiet_def rl_memory_def rl_mem_Get_def
      Let_def tat_of_def wrap64_def unixNano_def tsub_def minInt64_def maxInt64_def unitsRemaining_def sdiv_pos)

theorem rl_retry_after_exact_witness:
  "\<exists>res' m''. AllowN rl_memory demo_limiter ''a'' 1 [quiet 499999999]
     [(''a'', \<lparr>re_value = 1000000000, re_expiresAt = 1000000000\<rparr>)] = Some (Inr res', m'') \<and>
    (Allowed res' \<longleftrightarrow> (0::int) + 500000000 \<le> 499999999)"
  using rl_retry_after_exact [OF _ _ _ demo_full, of 499999999]
  by (simp add: demo_limiter_def PerSecond_2 rl_mem_wf_def int64_defs)
    (simp add: PerSecond_def second_def)

text \<open>Admission is atomic under contention. Whatever other callers do to the store between the
  reads and the writes of the retry loop, a call that is admitted performed exactly one GCRA step,
  on the store state its winning write found: the arrival time it saw was the current one, the
  limit was respected there, and no other key changed.\<close>

theorem rl_admission_atomic:
  assumes "admit rl_memory l key n reserve rounds m = Some (Inr (res, readyAt), m')" "Allowed res"
    and "gomap_wf m"
    and "\<forall>r \<in> set rounds. \<forall>x. gomap_wf x \<longrightarrow> gomap_wf (round_pre r x) \<and> gomap_wf (round_mid r x)"
  shows "\<exists>r \<in> set rounds. \<exists>m2. gomap_wf m2 \<and>
    gcra_step rl_mem_live l (prefix_ns l @ key) (emission (lim l))
      (wrap64 (capacity (lim l) * emission (lim l))) (wrap64 (n * emission (lim l)))
      reserve (round_now r) m2 res readyAt m'"
proof -
  have "admit_loop rl_memory l (prefix_ns l @ key) (emission (lim l))
      (wrap64 (capacity (lim l) * emission (lim l))) (wrap64 (n * emission (lim l)))
      reserve rounds m = Some (Inr (res, readyAt), m')"
    using assms(1) by (auto simp: admit_def Let_def split: if_splits)
  then show ?thesis using assms(3,2,4) by (rule rlmem.admit_loop_atomic)
qed

text \<open>A contended run: the first pass loses its write to another caller, the second wins.\<close>

definition demo_rounds :: "rl_mem rl_round list" where
  "demo_rounds = [(quiet 0)\<lparr>round_mid := \<lambda>m. goput ''a'' \<lparr>re_value = 500000000, re_expiresAt = 500000000\<rparr> m\<rparr>,
     quiet 0]"

lemma demo_contended:
  "admit rl_memory demo_limiter ''a'' 1 False demo_rounds [] =
   Some (Inr (\<lparr>Allowed = True, Limit = 2, Remaining = 0, RetryAfter = 0, ResetAfter = 1000000000\<rparr>, 0),
     [(''a'', \<lparr>re_value = 1000000000, re_expiresAt = 1000000000\<rparr>)])"
  by (simp add: admit_def demo_limiter_def demo_rounds_def PerSecond_2 quiet_def rl_memory_def rl_mem_defs
      Let_def tat_of_def wrap64_def unixNano_def tsub_def minInt64_def maxInt64_def unitsRemaining_def sdiv_pos)

theorem rl_admission_atomic_witness:
  "\<exists>r \<in> set demo_rounds. \<exists>m2. gomap_wf m2 \<and>
    gcra_step rl_mem_live demo_limiter (prefix_ns demo_limiter @ ''a'') (emission (lim demo_limiter))
      (wrap64 (capacity (lim demo_limiter) * emission (lim demo_limiter))) (wrap64 (1 * emission (lim demo_limiter)))
      False (round_now r) m2
      \<lparr>Allowed = True, Limit = 2, Remaining = 0, RetryAfter = 0, ResetAfter = 1000000000\<rparr> 0
      [(''a'', \<lparr>re_value = 1000000000, re_expiresAt = 1000000000\<rparr>)]"
  by (rule rl_admission_atomic [OF demo_contended]) (auto simp: demo_rounds_def quiet_def gomap_wf_goput)

text \<open>The retry loop ends: with the in-process store, a call returns after any number of
  contended passes as soon as one pass meets no interference.\<close>

theorem rl_admit_returns:
  assumes "gomap_wf m"
    and "\<forall>r \<in> set rs. \<forall>x. gomap_wf x \<longrightarrow> gomap_wf (round_pre r x) \<and> gomap_wf (round_mid r x)"
  shows "\<exists>out m'. admit rl_memory l key n reserve (rs @ [quiet t]) m = Some (out, m')"
  using admit_loop_returns [OF assms(2,1)] by (simp add: admit_def Let_def)

theorem rl_admit_returns_witness:
  "\<exists>out m'. admit rl_memory demo_limiter ''a'' 1 False
     ([(quiet 0)\<lparr>round_mid := \<lambda>m. goput ''a'' \<lparr>re_value = 5, re_expiresAt = 5\<rparr> m\<rparr>] @ [quiet 0]) [] = Some (out, m')"
  by (rule rl_admit_returns) (auto simp: quiet_def gomap_wf_goput)

text \<open>A limit that \<open>Validate\<close> accepts is safe to compute with: the emission interval is the
  exact ceiling of \<open>Period / Rate\<close>, so the long-run rate never exceeds \<open>Rate\<close> per \<open>Period\<close>, and
  the burst window and the cost of every admissible call fit a 64-bit duration.\<close>

theorem rl_Validate_sound:
  assumes "Validate l = None" "int64 (Period l)" "0 < n" "n \<le> capacity l"
  shows "emission l = ceil_div (Period l) (Rate l) \<and> Period l \<le> Rate l * emission l \<and>
    Rate l * emission l < Period l + Rate l \<and>
    wrap64 (capacity l * emission l) = capacity l * emission l \<and>
    wrap64 (n * emission l) = n * emission l \<and> 0 < n * emission l"
proof -
  have r: "0 < Rate l" "0 < Period l" using assms(1) by (auto simp: Validate_def split: if_splits)
  have "emission l = ceil_div (Period l) (Rate l)" using r assms(2) by (simp add: emission_eq)
  then show ?thesis
    using Validate_None [OF assms(1,2)] cost_int64 [OF assms] ceil_div_bounds(2) [of "Period l" "Rate l"] r
    by (simp add: wrap64_id mult.commute)
qed

theorem rl_Validate_sound_witness:
  "emission (PerSecond 2) = ceil_div second 2 \<and> wrap64 (2 * emission (PerSecond 2)) = 1000000000"
  using rl_Validate_sound [of "PerSecond 2" 2] by (simp add: PerSecond_2)
    (simp add: PerSecond_def second_def int64_defs)

text \<open>Whatever a custom limited handler writes, the client of a denied request receives exactly
  one status line, 429.\<close>

theorem rl_denial_is_429: "forced429_serve ops = [429]"
proof -
  have "fold forced429_call ops (True, out) = (True, out)" for out
    by (induction ops) (auto split: option.splits, metis forced429_call.simps not_Some_eq)
  then show ?thesis
    by (cases ops; cases "hd ops") (auto simp: forced429_serve_def)
qed

end
