(* ===== verification/Cache.thy ===== *)
theory Cache
  imports Prelude
begin

text \<open>
  Package \<open>cache\<close>: the store interface, the in-process LRU store (\<open>store_memory.go\<close>) and the
  typed view with its load path (\<open>cache.go\<close>). The call deduplication of \<open>load.go\<close> is in theory
  \<open>CacheLoad\<close>.

  \<^item> \<open>container/list\<close> is a list of numbered elements, front first; \<open>items\<close> maps a key to the
    number of its element, as the Go map holds the element's pointer.
  \<^item> \<open>ctx.Err()\<close> is an argument of each operation, \<open>None\<close> while the context is live.
  \<^item> The codec is a parameter: JSON by default, code of the standard library.
  \<^item> The mutex makes every store operation one atomic step.
\<close>

section \<open>Errors\<close>

datatype ctx_err = Canceled | DeadlineExceeded

text \<open>\<open>OpErr op key e\<close> is \<open>fmt.Errorf("cache: op key: %w", e)\<close>.\<close>

datatype cache_error =
    CtxErr ctx_err
  | ZeroInstant
  | InstantOutside
  | CodecFault string
  | StoreFault string
  | StoreRequired
  | NilOption string
  | BadNamespace
  | OpErr string string cache_error

fun errors_Is :: "cache_error \<Rightarrow> ctx_err \<Rightarrow> bool" where
  "errors_Is (CtxErr c) t \<longleftrightarrow> c = t"
| "errors_Is (OpErr _ _ e) t \<longleftrightarrow> errors_Is e t"
| "errors_Is _ t \<longleftrightarrow> False"

section \<open>MemoryStore (store_memory.go)\<close>

record cache_entry =
  ce_value :: string
  ce_expires :: time

record cache_item =
  ci_key :: string
  ci_entry :: cache_entry

record cache_mem =
  items :: "(string, nat) gomap"
  lru :: "(nat \<times> cache_item) list"
  nextEl :: nat
  maxEntries :: int

definition NewMemoryStore :: "int \<Rightarrow> cache_mem" where
  "NewMemoryStore cap = \<lparr>items = [], lru = [], nextEl = 0, maxEntries = cap\<rparr>"

definition expired :: "cache_entry \<Rightarrow> time \<Rightarrow> bool" where
  "expired e now \<longleftrightarrow> \<not> isZero (ce_expires e) \<and> \<not> now < ce_expires e"

definition minInstant :: time where
  "minInstant = minInt64"

definition maxInstant :: time where
  "maxInstant = maxInt64"

definition checkNow :: "time \<Rightarrow> cache_error option" where
  "checkNow t = (if t < minInstant \<or> t > maxInstant then Some InstantOutside else None)"

definition checkExpiry :: "time \<Rightarrow> cache_error option" where
  "checkExpiry t = (if isZero t then None else checkNow t)"

definition opCtx :: "ctx_err option \<Rightarrow> string \<Rightarrow> string \<Rightarrow> cache_error option" where
  "opCtx ctx oper key = map_option (\<lambda>c. OpErr oper key (CtxErr c)) ctx"

definition opNow :: "ctx_err option \<Rightarrow> string \<Rightarrow> string \<Rightarrow> time \<Rightarrow> cache_error option" where
  "opNow ctx oper key now =
    (case opCtx ctx oper key of Some e \<Rightarrow> Some e | None \<Rightarrow>
     if isZero now then Some (OpErr oper key ZeroInstant)
     else map_option (OpErr oper key) (checkNow now))"

definition opExpiry :: "ctx_err option \<Rightarrow> string \<Rightarrow> string \<Rightarrow> time \<Rightarrow> cache_error option" where
  "opExpiry ctx oper key expires =
    (case opCtx ctx oper key of Some e \<Rightarrow> Some e | None \<Rightarrow>
     map_option (OpErr oper key) (checkExpiry expires))"

text \<open>\<open>list.MoveToFront\<close>.\<close>

definition moveToFront :: "nat \<Rightarrow> (nat \<times> cache_item) list \<Rightarrow> (nat \<times> cache_item) list" where
  "moveToFront el xs = (case map_of xs el of None \<Rightarrow> xs | Some it \<Rightarrow> (el, it) # godel el xs)"

definition cm_remove :: "nat \<Rightarrow> cache_mem \<Rightarrow> cache_mem" where
  "cm_remove el m =
    (case map_of (lru m) el of None \<Rightarrow> m
     | Some it \<Rightarrow> m\<lparr>lru := godel el (lru m), items := godel (ci_key it) (items m)\<rparr>)"

definition cm_Get :: "ctx_err option \<Rightarrow> string \<Rightarrow> time \<Rightarrow> cache_mem \<Rightarrow>
    (cache_error + cache_entry option) \<times> cache_mem" where
  "cm_Get ctx key now m =
    (case opNow ctx ''get'' key now of Some e \<Rightarrow> (Inl e, m) | None \<Rightarrow>
     (case map_of (items m) key of None \<Rightarrow> (Inr None, m)
      | Some el \<Rightarrow>
        (case map_of (lru m) el of None \<Rightarrow> (Inr None, m)
         | Some it \<Rightarrow>
           (let out = ci_entry it
            in if expired (ci_entry it) now then (Inr (Some out), cm_remove el m)
               else (Inr (Some out), m\<lparr>lru := moveToFront el (lru m)\<rparr>)))))"

definition cm_Set :: "ctx_err option \<Rightarrow> string \<Rightarrow> cache_entry \<Rightarrow> cache_mem \<Rightarrow>
    cache_error option \<times> cache_mem" where
  "cm_Set ctx key e m =
    (case opExpiry ctx ''set'' key (ce_expires e) of Some err \<Rightarrow> (Some err, m) | None \<Rightarrow>
     (case map_of (items m) key of
        Some el \<Rightarrow> (None, m\<lparr>lru := moveToFront el (goput el \<lparr>ci_key = key, ci_entry = e\<rparr> (lru m))\<rparr>)
      | None \<Rightarrow>
        (let el = nextEl m;
             m1 = m\<lparr>lru := (el, \<lparr>ci_key = key, ci_entry = e\<rparr>) # lru m,
                    items := goput key el (items m), nextEl := el + 1\<rparr>
         in if maxEntries m1 > 0 \<and> int (length (lru m1)) > maxEntries m1
            then (None, cm_remove (fst (last (lru m1))) m1)
            else (None, m1))))"

definition cm_Delete :: "ctx_err option \<Rightarrow> string \<Rightarrow> cache_mem \<Rightarrow> cache_error option \<times> cache_mem" where
  "cm_Delete ctx key m =
    (case opCtx ctx ''delete'' key of Some e \<Rightarrow> (Some e, m) | None \<Rightarrow>
     (case map_of (items m) key of Some el \<Rightarrow> (None, cm_remove el m) | None \<Rightarrow> (None, m)))"

text \<open>The loop of \<open>Sweep\<close> walks the elements from the back; removing one leaves the others.\<close>

fun cm_sweep_loop :: "time \<Rightarrow> nat list \<Rightarrow> int \<Rightarrow> cache_mem \<Rightarrow> int \<times> cache_mem" where
  "cm_sweep_loop now [] n m = (n, m)"
| "cm_sweep_loop now (el # els) n m =
    (case map_of (lru m) el of
       Some it \<Rightarrow> if expired (ci_entry it) now then cm_sweep_loop now els (n + 1) (cm_remove el m)
                else cm_sweep_loop now els n m
     | None \<Rightarrow> cm_sweep_loop now els n m)"

definition cm_Sweep :: "ctx_err option \<Rightarrow> time \<Rightarrow> cache_mem \<Rightarrow> (cache_error + int) \<times> cache_mem" where
  "cm_Sweep ctx now m =
    (case opNow ctx ''sweep'' '''' now of Some e \<Rightarrow> (Inl e, m) | None \<Rightarrow>
     (let (n, m') = cm_sweep_loop now (rev (map fst (lru m))) 0 m in (Inr n, m')))"

section \<open>The typed view (cache.go)\<close>

record 's cache_store =
  cs_get :: "ctx_err option \<Rightarrow> string \<Rightarrow> time \<Rightarrow> 's \<Rightarrow> (cache_error + cache_entry option) \<times> 's"
  cs_set :: "ctx_err option \<Rightarrow> string \<Rightarrow> cache_entry \<Rightarrow> 's \<Rightarrow> cache_error option \<times> 's"
  cs_delete :: "ctx_err option \<Rightarrow> string \<Rightarrow> 's \<Rightarrow> cache_error option \<times> 's"

definition cache_memory :: "cache_mem cache_store" where
  "cache_memory = \<lparr>cs_get = cm_Get, cs_set = cm_Set, cs_delete = cm_Delete\<rparr>"

record 'v codec =
  Marshal :: "'v \<Rightarrow> string + string"
  Unmarshal :: "string \<Rightarrow> string + 'v"

record 'v cache =
  cc_codec :: "'v codec"
  cc_namespace :: string

record 'v cache_config =
  cfg_codec :: "'v codec"
  cfg_namespace :: string
  cfg_namespaceSet :: bool
  cfg_nilOption :: string

text \<open>An option's argument is \<open>None\<close> where the Go code may be given nil; a clock and a logger
  have no content in the model (the clock's samples are arguments of the operations).\<close>

datatype 'v cache_option =
    CacheNamespace string
  | CacheCodec "'v codec option"
  | CacheClock "unit option"
  | CacheLogger "unit option"

fun cache_apply :: "'v cache_option \<Rightarrow> 'v cache_config \<Rightarrow> 'v cache_config" where
  "cache_apply (CacheNamespace ns) c = c\<lparr>cfg_namespace := ns, cfg_namespaceSet := True\<rparr>"
| "cache_apply (CacheCodec None) c = c\<lparr>cfg_nilOption := ''WithCodec''\<rparr>"
| "cache_apply (CacheCodec (Some cd)) c = c\<lparr>cfg_codec := cd\<rparr>"
| "cache_apply (CacheClock None) c = c\<lparr>cfg_nilOption := ''WithClock''\<rparr>"
| "cache_apply (CacheClock (Some _)) c = c"
| "cache_apply (CacheLogger None) c = c\<lparr>cfg_nilOption := ''WithLogger''\<rparr>"
| "cache_apply (CacheLogger (Some _)) c = c"

definition namespaceRE :: "string \<Rightarrow> bool" where
  "namespaceRE ns \<longleftrightarrow> ns \<noteq> [] \<and> list_all (\<lambda>b. CHR ''a'' \<le> b \<and> b \<le> CHR ''z'' \<or>
     CHR ''0'' \<le> b \<and> b \<le> CHR ''9'' \<or> b = CHR ''-'') ns"

definition cache_New :: "'v codec \<Rightarrow> bool \<Rightarrow> 'v cache_option list \<Rightarrow> cache_error + 'v cache" where
  "cache_New jsonCodec storeNil opts =
    (if storeNil then Inl StoreRequired else
     let cfg = fold cache_apply opts \<lparr>cfg_codec = jsonCodec, cfg_namespace = [],
                 cfg_namespaceSet = False, cfg_nilOption = []\<rparr>
     in if cfg_nilOption cfg \<noteq> [] then Inl (NilOption (cfg_nilOption cfg))
        else if cfg_namespaceSet cfg \<and> \<not> namespaceRE (cfg_namespace cfg) then Inl BadNamespace
        else Inr \<lparr>cc_codec = cfg_codec cfg, cc_namespace = cfg_namespace cfg\<rparr>)"

definition cache_key :: "'v cache \<Rightarrow> string \<Rightarrow> string" where
  "cache_key c k = (if cc_namespace c = [] then k else cc_namespace c @ '':'' @ k)"

definition cache_lookup :: "'s cache_store \<Rightarrow> 'v cache \<Rightarrow> ctx_err option \<Rightarrow> string \<Rightarrow> time \<Rightarrow> 's \<Rightarrow>
    (cache_error + 'v option) \<times> 's" where
  "cache_lookup st c ctx key now s =
    (case cs_get st ctx (cache_key c key) now s of
       (Inl e, s') \<Rightarrow> (Inl (OpErr ''get'' key e), s')
     | (Inr None, s') \<Rightarrow> (Inr None, s')
     | (Inr (Some e), s') \<Rightarrow>
       (if expired e now then (Inr None, s')
        else case Unmarshal (cc_codec c) (ce_value e) of
          Inl er \<Rightarrow> (Inl (OpErr ''decode'' key (CodecFault er)), s')
        | Inr v \<Rightarrow> (Inr (Some v), s')))"

definition cache_Get :: "'s cache_store \<Rightarrow> 'v cache \<Rightarrow> ctx_err option \<Rightarrow> string \<Rightarrow> time \<Rightarrow> 's \<Rightarrow>
    (cache_error + 'v option) \<times> 's" where
  "cache_Get st c ctx key now s = cache_lookup st c ctx key now s"

definition cache_Set :: "'s cache_store \<Rightarrow> 'v cache \<Rightarrow> ctx_err option \<Rightarrow> string \<Rightarrow> 'v \<Rightarrow> duration \<Rightarrow>
    time \<Rightarrow> 's \<Rightarrow> cache_error option \<times> 's" where
  "cache_Set st c ctx key v ttl now s =
    (case Marshal (cc_codec c) v of Inl er \<Rightarrow> (Some (OpErr ''encode'' key (CodecFault er)), s)
     | Inr data \<Rightarrow>
       (let expires = (if ttl > 0 then now + ttl else zeroTime)
        in case cs_set st ctx (cache_key c key) \<lparr>ce_value = data, ce_expires = expires\<rparr> s of
             (Some e, s') \<Rightarrow> (Some (OpErr ''set'' key e), s')
           | (None, s') \<Rightarrow> (None, s')))"

text \<open>\<open>Delete\<close>: \<open>invalidated\<close> is what \<open>loads.invalidate\<close> returns (theory \<open>CacheLoad\<close>).\<close>

definition cache_Delete :: "'s cache_store \<Rightarrow> 'v cache \<Rightarrow> ctx_err option \<Rightarrow> ctx_err option \<Rightarrow> string \<Rightarrow> 's \<Rightarrow>
    cache_error option \<times> 's" where
  "cache_Delete st c invalidated ctx key s =
    (case invalidated of Some ce \<Rightarrow> (Some (OpErr ''delete'' key (CtxErr ce)), s)
     | None \<Rightarrow>
       (case cs_delete st ctx (cache_key c key) s of
          (Some e, s') \<Rightarrow> (Some (OpErr ''delete'' key e), s')
        | (None, s') \<Rightarrow> (None, s')))"

definition isCtxErr :: "ctx_err option \<Rightarrow> cache_error \<Rightarrow> bool" where
  "isCtxErr ctx e = (case ctx of None \<Rightarrow> False | Some c \<Rightarrow> errors_Is e c)"

text \<open>\<open>ctx1\<close> is \<open>ctx.Err()\<close> during the lookup and \<open>ctx2\<close> after it; \<open>Inl\<close> is the context error
  the caller gets.\<close>

definition lookupOrMiss :: "'s cache_store \<Rightarrow> 'v cache \<Rightarrow> ctx_err option \<Rightarrow> ctx_err option \<Rightarrow> string \<Rightarrow>
    time \<Rightarrow> 's \<Rightarrow> (ctx_err + 'v option) \<times> 's" where
  "lookupOrMiss st c ctx1 ctx2 key now s =
    (case cache_lookup st c ctx1 key now s of
       (Inl e, s') \<Rightarrow> (case ctx2 of Some ce \<Rightarrow> (if isCtxErr ctx2 e then (Inl ce, s') else (Inr None, s'))
                     | None \<Rightarrow> (Inr None, s'))
     | (Inr v, s') \<Rightarrow> (Inr v, s'))"

section \<open>The recency list a MemoryStore implements\<close>

text \<open>The specification: a list of keys with their entries, most recently used first.\<close>

type_synonym lru_spec = "(string \<times> cache_entry) list"

definition spec_get :: "string \<Rightarrow> time \<Rightarrow> lru_spec \<Rightarrow> cache_entry option \<times> lru_spec" where
  "spec_get k now xs =
    (case map_of xs k of None \<Rightarrow> (None, xs)
     | Some e \<Rightarrow> (Some e, if expired e now then godel k xs else (k, e) # godel k xs))"

definition spec_set :: "int \<Rightarrow> string \<Rightarrow> cache_entry \<Rightarrow> lru_spec \<Rightarrow> lru_spec" where
  "spec_set cap k e xs =
    (let ys = (k, e) # godel k xs in if cap > 0 then take (nat cap) ys else ys)"

definition spec_sweep :: "time \<Rightarrow> lru_spec \<Rightarrow> lru_spec" where
  "spec_sweep now xs = filter (\<lambda>(k, e). \<not> expired e now) xs"

definition cm_abs :: "cache_mem \<Rightarrow> lru_spec" where
  "cm_abs m = map (\<lambda>(el, it). (ci_key it, ci_entry it)) (lru m)"

definition cm_index :: "cache_mem \<Rightarrow> (string \<times> nat) list" where
  "cm_index m = map (\<lambda>(el, it). (ci_key it, el)) (lru m)"

definition cm_inv :: "cache_mem \<Rightarrow> bool" where
  "cm_inv m \<longleftrightarrow>
    distinct (map fst (lru m)) \<and>
    (\<forall>el \<in> set (map fst (lru m)). el < nextEl m) \<and>
    distinct (map (\<lambda>(el, it). ci_key it) (lru m)) \<and>
    map_of (items m) = map_of (cm_index m) \<and>
    (maxEntries m > 0 \<longrightarrow> int (length (lru m)) \<le> maxEntries m)"

lemma godel_filter: "godel k xs = filter (\<lambda>p. fst p \<noteq> k) xs"
  by (induction xs) auto

lemma godel_goput: "godel k (goput k v xs) = godel k xs"
  by (induction xs) auto

lemma distinct_map_inj:
  "distinct (map f xs) \<Longrightarrow> x \<in> set xs \<Longrightarrow> y \<in> set xs \<Longrightarrow> f x = f y \<Longrightarrow> x = y"
  by (meson distinct_map inj_onD)

lemma cm_keys:
  "map fst (cm_abs m) = map (\<lambda>(el, it). ci_key it) (lru m)"
  "map fst (cm_index m) = map (\<lambda>(el, it). ci_key it) (lru m)"
  by (simp_all add: cm_abs_def cm_index_def case_prod_unfold)

text \<open>An element of the list is found by its number and by its key alike.\<close>

lemma cm_lookup_Some:
  assumes "cm_inv m" "map_of (items m) k = Some el"
  obtains it where "map_of (lru m) el = Some it" "ci_key it = k" "(el, it) \<in> set (lru m)"
    "map_of (cm_abs m) k = Some (ci_entry it)"
proof -
  have "map_of (cm_index m) k = Some el" using assms by (simp add: cm_inv_def)
  then obtain it where it: "(el, it) \<in> set (lru m)" "ci_key it = k"
    by (auto simp: cm_index_def dest!: map_of_SomeD)
  have "map_of (lru m) el = Some it" using it assms(1) by (simp add: cm_inv_def)
  moreover have "distinct (map fst (cm_abs m))" using assms(1) unfolding cm_keys
    by (simp add: cm_inv_def)
  then have "map_of (cm_abs m) k = Some (ci_entry it)"
    using it by (force simp: cm_abs_def)
  ultimately show ?thesis using it that by blast
qed

lemma cm_lookup_None:
  assumes "cm_inv m" "map_of (items m) k = None"
  shows "map_of (cm_abs m) k = None" "k \<notin> set (map (\<lambda>(el, it). ci_key it) (lru m))"
proof -
  have "map_of (cm_index m) k = None" using assms by (simp add: cm_inv_def)
  then have "k \<notin> set (map fst (cm_index m))" by (simp add: map_of_eq_None_iff)
  then show n: "k \<notin> set (map (\<lambda>(el, it). ci_key it) (lru m))" unfolding cm_keys .
  then have "k \<notin> set (map fst (cm_abs m))" unfolding cm_keys .
  then show "map_of (cm_abs m) k = None" by (simp add: map_of_eq_None_iff)
qed

lemma cm_abs_wf: "cm_inv m \<Longrightarrow> gomap_wf (cm_abs m)"
  unfolding cm_keys by (simp add: cm_inv_def)

text \<open>Removing an element by number removes its key, and nothing else.\<close>

lemma cm_remove_abs:
  assumes "cm_inv m" "(el, it) \<in> set (lru m)"
  shows "cm_inv (cm_remove el m)" "cm_abs (cm_remove el m) = godel (ci_key it) (cm_abs m)"
    "lru (cm_remove el m) = godel el (lru m)" "maxEntries (cm_remove el m) = maxEntries m"
    "cm_index (cm_remove el m) = godel (ci_key it) (cm_index m)"
proof -
  have d: "distinct (map fst (lru m))" "distinct (map (\<lambda>(el, it). ci_key it) (lru m))"
    using assms(1) by (auto simp: cm_inv_def)
  have e: "map_of (lru m) el = Some it" using assms d by simp
  then have r: "cm_remove el m = m\<lparr>lru := godel el (lru m), items := godel (ci_key it) (items m)\<rparr>"
    by (simp add: cm_remove_def)
  then show "lru (cm_remove el m) = godel el (lru m)" "maxEntries (cm_remove el m) = maxEntries m"
    by simp_all
  have key: "fst p \<noteq> el \<longleftrightarrow> ci_key (snd p) \<noteq> ci_key it" if "p \<in> set (lru m)" for p
  proof -
    have "p = (el, it)" if "fst p = el"
      using distinct_map_inj [OF d(1) \<open>p \<in> set (lru m)\<close> assms(2)] that by simp
    moreover have "p = (el, it)" if "ci_key (snd p) = ci_key it"
      using distinct_map_inj [OF d(2) \<open>p \<in> set (lru m)\<close> assms(2)] that by (simp add: case_prod_unfold)
    ultimately show ?thesis by (metis fst_conv snd_conv)
  qed
  have f: "filter (\<lambda>p. fst p \<noteq> el) (lru m) = filter (\<lambda>p. ci_key (snd p) \<noteq> ci_key it) (lru m)"
    using key by (intro filter_cong) auto
  then show "cm_abs (cm_remove el m) = godel (ci_key it) (cm_abs m)"
    by (simp add: r cm_abs_def godel_filter filter_map comp_def case_prod_unfold)
  from f show i: "cm_index (cm_remove el m) = godel (ci_key it) (cm_index m)"
    by (simp add: r cm_index_def godel_filter filter_map comp_def case_prod_unfold)
  have "int (length (filter (\<lambda>p. fst p \<noteq> el) (lru m))) \<le> maxEntries m" if "maxEntries m > 0"
    using assms(1) that length_filter_le [of "\<lambda>p. fst p \<noteq> el" "lru m"]
    unfolding cm_inv_def by linarith
  moreover have "map_of (items (cm_remove el m)) = map_of (cm_index (cm_remove el m))"
    using assms(1) unfolding i by (simp add: r cm_inv_def)
  ultimately show "cm_inv (cm_remove el m)"
    using assms(1) by (auto simp: cm_inv_def r godel_filter distinct_map_filter)
qed

lemma cm_front_abs:
  assumes "cm_inv m" "(el, it) \<in> set (lru m)" "ci_key it' = ci_key it"
  defines "m' \<equiv> m\<lparr>lru := moveToFront el (goput el it' (lru m))\<rparr>"
  shows "cm_inv m'" "cm_abs m' = (ci_key it, ci_entry it') # godel (ci_key it) (cm_abs m)"
proof -
  have l: "lru m' = (el, it') # godel el (lru m)" by (simp add: m'_def moveToFront_def godel_goput)
  note r = cm_remove_abs [OF assms(1,2)]
  show "cm_abs m' = (ci_key it, ci_entry it') # godel (ci_key it) (cm_abs m)"
    using r(2,3) l assms(3) by (simp add: cm_abs_def)
  have ix: "cm_index m' = (ci_key it, el) # godel (ci_key it) (cm_index m)"
    using r(3,5) l assms(3) by (simp add: cm_index_def)
  have "(ci_key it, el) \<in> set (cm_index m)" using assms(2) by (force simp: cm_index_def)
  moreover have wf: "gomap_wf (cm_index m)" using assms(1) unfolding cm_keys by (simp add: cm_inv_def)
  ultimately have "map_of (cm_index m) (ci_key it) = Some el" by simp
  then have "map_of (cm_index m') = map_of (cm_index m)" by (auto simp: ix)
  moreover have "distinct (map fst (cm_index m'))" using distinct_delete [OF wf]
    by (auto simp: ix godel_filter)
  then have "distinct (map (\<lambda>(el, it). ci_key it) (lru m'))" by (simp only: cm_keys)
  moreover have "length (godel el (lru m)) < length (lru m)"
    using assms(2) by (auto simp: godel_filter intro: length_filter_less [of "(el, it)"])
  moreover have "el \<notin> fst ` set (godel el (lru m))" by (auto simp: godel_filter)
  moreover have "el < nextEl m" using assms(1,2) by (force simp: cm_inv_def)
  moreover have "nextEl m' = nextEl m" "maxEntries m' = maxEntries m" "items m' = items m"
    by (simp_all add: m'_def)
  ultimately show "cm_inv m'"
    using r(1) assms(1) by (auto simp: cm_inv_def r(3) l godel_filter distinct_map_filter)
qed

lemma moveToFront_same:
  "map_of xs el = Some it \<Longrightarrow> moveToFront el xs = moveToFront el (goput el it xs)"
  by (simp add: moveToFront_def godel_goput)

lemma cm_push_abs:
  fixes e :: cache_entry
  assumes "cm_inv m" "map_of (items m) k = None"
  defines "m1 \<equiv> m\<lparr>lru := (nextEl m, \<lparr>ci_key = k, ci_entry = e\<rparr>) # lru m,
    items := goput k (nextEl m) (items m), nextEl := nextEl m + 1, maxEntries := 0\<rparr>"
  shows "cm_inv m1" "cm_abs m1 = (k, e) # godel k (cm_abs m)"
proof -
  note n = cm_lookup_None [OF assms(1,2)]
  have "godel k (cm_abs m) = cm_abs m" using n(1)
    by (auto simp: godel_filter map_of_eq_None_iff filter_id_conv)
  then show "cm_abs m1 = (k, e) # godel k (cm_abs m)" by (simp add: m1_def cm_abs_def)
  have "nextEl m \<notin> fst ` set (lru m)" using assms(1) by (auto simp: cm_inv_def)
  moreover have "map_of (items m1) = map_of (cm_index m1)"
    using assms(1) by (simp add: cm_inv_def m1_def cm_index_def)
  ultimately show "cm_inv m1" using assms(1) n(2)
    by (auto simp: cm_inv_def m1_def)
qed

lemma take_last_godel:
  assumes "distinct (map fst xs)" "xs \<noteq> []"
  shows "godel (fst (last xs)) xs = take (length xs - 1) xs"
proof -
  obtain ys y where xs: "xs = ys @ [y]" using assms(2) by (metis append_butlast_last_id)
  then have "fst y \<notin> set (map fst ys)" using assms(1) by simp
  then have "\<forall>p \<in> set ys. fst p \<noteq> fst y" by (metis imageI set_map)
  then show ?thesis by (simp add: xs godel_filter filter_id_conv)
qed

text \<open>Each operation of the store is the operation of the specification.\<close>

lemma cm_Get_refines:
  assumes "cm_inv m" "opNow ctx ''get'' k now = None"
  shows "fst (cm_Get ctx k now m) = Inr (fst (spec_get k now (cm_abs m)))"
    "cm_inv (snd (cm_Get ctx k now m))"
    "cm_abs (snd (cm_Get ctx k now m)) = snd (spec_get k now (cm_abs m))"
    "maxEntries (snd (cm_Get ctx k now m)) = maxEntries m"
proof -
  consider "map_of (items m) k = None" | el where "map_of (items m) k = Some el" by fastforce
  then have "fst (cm_Get ctx k now m) = Inr (fst (spec_get k now (cm_abs m))) \<and>
    cm_inv (snd (cm_Get ctx k now m)) \<and>
    cm_abs (snd (cm_Get ctx k now m)) = snd (spec_get k now (cm_abs m)) \<and>
    maxEntries (snd (cm_Get ctx k now m)) = maxEntries m"
  proof cases
    case 1
    with cm_lookup_None [OF assms(1) 1] show ?thesis
      using assms by (simp add: cm_Get_def spec_get_def)
  next
    case 2
    from cm_lookup_Some [OF assms(1) 2] obtain it where it: "map_of (lru m) el = Some it"
      "ci_key it = k" "(el, it) \<in> set (lru m)" "map_of (cm_abs m) k = Some (ci_entry it)" .
    show ?thesis
      using assms 2 it cm_remove_abs [OF assms(1) it(3)] cm_front_abs [OF assms(1) it(3) refl]
      by (simp add: cm_Get_def spec_get_def Let_def moveToFront_same [OF it(1)])
  qed
  then show "fst (cm_Get ctx k now m) = Inr (fst (spec_get k now (cm_abs m)))"
    "cm_inv (snd (cm_Get ctx k now m))"
    "cm_abs (snd (cm_Get ctx k now m)) = snd (spec_get k now (cm_abs m))"
    "maxEntries (snd (cm_Get ctx k now m)) = maxEntries m" by simp_all
qed

lemma cm_Set_new:
  assumes "cm_inv m" "map_of (items m) k = None" "opExpiry ctx ''set'' k (ce_expires e) = None"
  shows "cm_inv (snd (cm_Set ctx k e m))"
    "cm_abs (snd (cm_Set ctx k e m)) = spec_set (maxEntries m) k e (cm_abs m)"
    "maxEntries (snd (cm_Set ctx k e m)) = maxEntries m"
proof -
  define m1 where "m1 = m\<lparr>lru := (nextEl m, \<lparr>ci_key = k, ci_entry = e\<rparr>) # lru m,
    items := goput k (nextEl m) (items m), nextEl := nextEl m + 1\<rparr>"
  define m0 where "m0 = m1\<lparr>maxEntries := 0\<rparr>"
  have p: "cm_inv m0" "cm_abs m1 = (k, e) # godel k (cm_abs m)" "lru m0 = lru m1"
    using cm_push_abs [OF assms(1,2), of e] by (simp_all add: m1_def m0_def cm_abs_def)
  have len: "length (cm_abs m1) = length (lru m1)" "length (lru m1) = Suc (length (lru m))"
    by (simp_all add: cm_abs_def m1_def)
  have cap: "maxEntries m > 0 \<Longrightarrow> int (length (lru m)) \<le> maxEntries m"
    using assms(1) by (simp add: cm_inv_def)
  show "maxEntries (snd (cm_Set ctx k e m)) = maxEntries m"
    using assms by (simp add: cm_Set_def Let_def cm_remove_def split: option.splits)
  have "cm_inv (snd (cm_Set ctx k e m)) \<and>
    cm_abs (snd (cm_Set ctx k e m)) = spec_set (maxEntries m) k e (cm_abs m)"
  proof (cases "maxEntries m > 0 \<and> int (length (lru m1)) > maxEntries m")
    case True
    then have r: "snd (cm_Set ctx k e m) = cm_remove (fst (last (lru m1))) m1"
      using assms by (simp add: cm_Set_def m1_def Let_def)
    obtain el it where l: "last (lru m1) = (el, it)" by fastforce
    then have el: "(el, it) \<in> set (lru m0)"
      by (metis last_in_set len(2) list.size(3) nat.distinct(1) p(3))
    note rm = cm_remove_abs [OF p(1) el]
    have eq: "cm_remove el m0 = (cm_remove el m1)\<lparr>maxEntries := 0\<rparr>"
      by (simp add: cm_remove_def m0_def split: option.splits)
    have mx: "maxEntries (cm_remove el m1) = maxEntries m"
      by (simp add: cm_remove_def m1_def split: option.splits)
    have k: "ci_key it = fst (last (cm_abs m1))"
      using l by (auto simp: cm_abs_def last_map m1_def split: prod.splits if_splits)
    have "godel (ci_key it) (cm_abs m1) = take (length (lru m)) (cm_abs m1)"
      unfolding k using take_last_godel [of "cm_abs m1"] cm_abs_wf [OF p(1)] len
      by (cases "lru m1 = []") (simp_all add: cm_abs_def m0_def)
    moreover have "nat (maxEntries m) = length (lru m)" using True cap len by linarith
    ultimately have a: "cm_abs (cm_remove el m1) = spec_set (maxEntries m) k e (cm_abs m)"
      using True rm(2) p eq by (simp add: spec_set_def Let_def cm_abs_def)
    have "length (lru (cm_remove el m1)) \<le> nat (maxEntries m)"
      using arg_cong [OF a, of length] True by (simp add: cm_abs_def spec_set_def Let_def)
    with True have "cm_inv (cm_remove el m1)"
      using rm(1) mx unfolding eq by (auto simp: cm_inv_def cm_index_def)
    with a r l show ?thesis by simp
  next
    case False
    then have r: "snd (cm_Set ctx k e m) = m1" using assms by (auto simp: cm_Set_def m1_def Let_def)
    moreover have "cm_inv m1" using p(1) False by (auto simp: cm_inv_def m0_def m1_def cm_index_def)
    moreover have "cm_abs m1 = spec_set (maxEntries m) k e (cm_abs m)"
      using p(2) False len by (auto simp: spec_set_def Let_def)
    ultimately show ?thesis by simp
  qed
  then show "cm_inv (snd (cm_Set ctx k e m))"
    "cm_abs (snd (cm_Set ctx k e m)) = spec_set (maxEntries m) k e (cm_abs m)" by auto
qed

lemma cm_Set_refines:
  assumes "cm_inv m" "opExpiry ctx ''set'' k (ce_expires e) = None"
  shows "cm_inv (snd (cm_Set ctx k e m))"
    "cm_abs (snd (cm_Set ctx k e m)) = spec_set (maxEntries m) k e (cm_abs m)"
    "maxEntries (snd (cm_Set ctx k e m)) = maxEntries m" "fst (cm_Set ctx k e m) = None"
proof -
  show "fst (cm_Set ctx k e m) = None" using assms
    by (simp add: cm_Set_def Let_def split: option.splits)
  have "cm_inv (snd (cm_Set ctx k e m)) \<and> maxEntries (snd (cm_Set ctx k e m)) = maxEntries m \<and>
    cm_abs (snd (cm_Set ctx k e m)) = spec_set (maxEntries m) k e (cm_abs m)"
  proof (cases "map_of (items m) k")
    case None
    with cm_Set_new [OF assms(1) None assms(2)] show ?thesis by simp
  next
    case (Some el)
    from cm_lookup_Some [OF assms(1) Some] obtain it where it: "map_of (lru m) el = Some it"
      "ci_key it = k" "(el, it) \<in> set (lru m)" "map_of (cm_abs m) k = Some (ci_entry it)" .
    let ?it = "\<lparr>ci_key = k, ci_entry = e\<rparr>"
    have m': "cm_Set ctx k e m = (None, m\<lparr>lru := moveToFront el (goput el ?it (lru m))\<rparr>)"
      using assms Some by (simp add: cm_Set_def)
    have f: "cm_inv (snd (cm_Set ctx k e m))" "cm_abs (snd (cm_Set ctx k e m)) = (k, e) # godel k (cm_abs m)"
      using cm_front_abs [OF assms(1) it(3), of ?it] it m' by simp_all
    moreover have "maxEntries m > 0 \<Longrightarrow> length ((k, e) # godel k (cm_abs m)) \<le> nat (maxEntries m)"
      using f(1) arg_cong [OF f(2), of length] 
      by (simp add: cm_inv_def m' cm_abs_def) linarith
    ultimately show ?thesis by (simp add: spec_set_def Let_def m')
  qed
  then show "cm_inv (snd (cm_Set ctx k e m))"
    "cm_abs (snd (cm_Set ctx k e m)) = spec_set (maxEntries m) k e (cm_abs m)"
    "maxEntries (snd (cm_Set ctx k e m)) = maxEntries m" by auto
qed

lemma cm_Delete_refines:
  assumes "cm_inv m" "opCtx ctx ''delete'' k = None"
  shows "cm_inv (snd (cm_Delete ctx k m))" "cm_abs (snd (cm_Delete ctx k m)) = godel k (cm_abs m)"
    "maxEntries (snd (cm_Delete ctx k m)) = maxEntries m" "fst (cm_Delete ctx k m) = None"
proof -
  have "cm_inv (snd (cm_Delete ctx k m)) \<and> cm_abs (snd (cm_Delete ctx k m)) = godel k (cm_abs m) \<and>
    maxEntries (snd (cm_Delete ctx k m)) = maxEntries m \<and> fst (cm_Delete ctx k m) = None"
  proof (cases "map_of (items m) k")
    case None
    then have "godel k (cm_abs m) = cm_abs m" using cm_lookup_None(1) [OF assms(1) None]
      by (auto simp: godel_filter map_of_eq_None_iff filter_id_conv)
    then show ?thesis using assms None by (simp add: cm_Delete_def)
  next
    case (Some el)
    from cm_lookup_Some [OF assms(1) Some] obtain it where "ci_key it = k" "(el, it) \<in> set (lru m)" .
    with cm_remove_abs [OF assms(1) this(2)] Some assms(2) show ?thesis by (simp add: cm_Delete_def)
  qed
  then show "cm_inv (snd (cm_Delete ctx k m))" "cm_abs (snd (cm_Delete ctx k m)) = godel k (cm_abs m)"
    "maxEntries (snd (cm_Delete ctx k m)) = maxEntries m" "fst (cm_Delete ctx k m) = None" by auto
qed

lemma length_godel:
  "gomap_wf xs \<Longrightarrow> map_of xs k = Some v \<Longrightarrow> length xs = Suc (length (godel k xs))"
proof (induction xs)
  case (Cons p xs)
  then show ?case
  proof (cases "fst p = k")
    case True
    then have "k \<notin> fst ` set xs" using Cons.prems by auto
    then have "godel k xs = xs" by (auto simp: godel_filter filter_id_conv)
    then show ?thesis using True by (cases p) simp
  qed (cases p, auto)
qed simp

lemma sweep_loop_filter:
  assumes "cm_inv m" "distinct els" "cm_sweep_loop now els n m = (n', m')"
  shows "cm_inv m' \<and> maxEntries m' = maxEntries m \<and>
    lru m' = filter (\<lambda>(el, it). \<not> (el \<in> set els \<and> expired (ci_entry it) now)) (lru m) \<and>
    n' - n = int (length (lru m)) - int (length (lru m'))"
  using assms
proof (induction els arbitrary: n m)
  case Nil
  then show ?case by (auto simp: filter_id_conv)
next
  case (Cons el els)
  have uniq: "\<And>i j. (el, i) \<in> set (lru m) \<Longrightarrow> map_of (lru m) el = Some j \<Longrightarrow> i = j"
    using Cons.prems(1) by (auto simp: cm_inv_def)
  show ?case
  proof (cases "\<exists>it. map_of (lru m) el = Some it \<and> expired (ci_entry it) now")
    case True
    then obtain it where it: "map_of (lru m) el = Some it" "expired (ci_entry it) now" by blast
    then have mem: "(el, it) \<in> set (lru m)" by (simp add: map_of_SomeD)
    note r = cm_remove_abs [OF Cons.prems(1) mem]
    have len: "length (lru m) = Suc (length (godel el (lru m)))"
      using length_godel [OF _ it(1)] Cons.prems(1) by (simp add: cm_inv_def)
    have "filter (\<lambda>(e, i). \<not> (e \<in> set els \<and> expired (ci_entry i) now)) (godel el (lru m)) =
      filter (\<lambda>(e, i). \<not> (e \<in> set (el # els) \<and> expired (ci_entry i) now)) (lru m)"
      using uniq [OF _ it(1)] it(2) by (auto simp: godel_filter intro!: filter_cong)
    moreover have "cm_sweep_loop now els (n + 1) (cm_remove el m) = (n', m')" "distinct els"
      using Cons.prems it by simp_all
    note ih = Cons.IH [OF r(1) this(2,1), unfolded r(3,4)]
    moreover have "n' - n = int (length (lru m)) - int (length (lru m'))" using ih len by linarith
    ultimately show ?thesis by simp
  next
    case False
    then have "filter (\<lambda>(e, i). \<not> (e \<in> set els \<and> expired (ci_entry i) now)) (lru m) =
      filter (\<lambda>(e, i). \<not> (e \<in> set (el # els) \<and> expired (ci_entry i) now)) (lru m)"
      using Cons.prems(1) by (intro filter_cong) (auto simp: cm_inv_def)
    moreover have "cm_sweep_loop now els n m = (n', m')"
      using False Cons.prems(3) by (auto split: option.splits)
    ultimately show ?thesis using Cons.IH [OF Cons.prems(1)] Cons.prems(2) by simp
  qed
qed

lemma cm_Sweep_refines:
  assumes "cm_inv m" "opNow ctx ''sweep'' '''' now = None"
  shows "cm_inv (snd (cm_Sweep ctx now m))"
    "cm_abs (snd (cm_Sweep ctx now m)) = spec_sweep now (cm_abs m)"
    "maxEntries (snd (cm_Sweep ctx now m)) = maxEntries m"
    "fst (cm_Sweep ctx now m) =
      Inr (int (length (cm_abs m)) - int (length (spec_sweep now (cm_abs m))))"
proof -
  obtain n m' where r: "cm_sweep_loop now (rev (map fst (lru m))) 0 m = (n, m')" by fastforce
  have "distinct (rev (map fst (lru m)))" using assms(1) by (simp add: cm_inv_def)
  note s0 = sweep_loop_filter [OF assms(1) this r]
  have "lru m' = filter (\<lambda>(el, it). \<not> expired (ci_entry it) now) (lru m)"
    using s0 by (auto intro!: filter_cong simp: image_iff)
  with s0 have s: "cm_inv m'" "maxEntries m' = maxEntries m"
    "lru m' = filter (\<lambda>(el, it). \<not> expired (ci_entry it) now) (lru m)"
    "n = int (length (lru m)) - int (length (lru m'))" by simp_all
  have a: "cm_abs m' = spec_sweep now (cm_abs m)"
    by (simp add: cm_abs_def s(3) spec_sweep_def filter_map comp_def case_prod_unfold)
  have l: "length (lru m) = length (cm_abs m)" "length (lru m') = length (cm_abs m')"
    by (simp_all add: cm_abs_def)
  have e: "cm_Sweep ctx now m = (Inr n, m')" using assms(2) r by (simp add: cm_Sweep_def)
  show "cm_inv (snd (cm_Sweep ctx now m))"
    "cm_abs (snd (cm_Sweep ctx now m)) = spec_sweep now (cm_abs m)"
    "maxEntries (snd (cm_Sweep ctx now m)) = maxEntries m"
    "fst (cm_Sweep ctx now m) =
      Inr (int (length (cm_abs m)) - int (length (spec_sweep now (cm_abs m))))"
    using e s a l by simp_all
qed

section \<open>Runs of the store\<close>

datatype cm_op =
    CmGet "ctx_err option" string time
  | CmSet "ctx_err option" string cache_entry
  | CmDelete "ctx_err option" string
  | CmSweep "ctx_err option" time

datatype cm_res = CmErr cache_error | CmFound "cache_entry option" | CmOk | CmCount int

fun cm_step :: "cm_op \<Rightarrow> cache_mem \<Rightarrow> cm_res \<times> cache_mem" where
  "cm_step (CmGet ctx k now) m =
    (case cm_Get ctx k now m of (Inl e, m') \<Rightarrow> (CmErr e, m') | (Inr r, m') \<Rightarrow> (CmFound r, m'))"
| "cm_step (CmSet ctx k e) m =
    (case cm_Set ctx k e m of (Some er, m') \<Rightarrow> (CmErr er, m') | (None, m') \<Rightarrow> (CmOk, m'))"
| "cm_step (CmDelete ctx k) m =
    (case cm_Delete ctx k m of (Some er, m') \<Rightarrow> (CmErr er, m') | (None, m') \<Rightarrow> (CmOk, m'))"
| "cm_step (CmSweep ctx now) m =
    (case cm_Sweep ctx now m of (Inl er, m') \<Rightarrow> (CmErr er, m') | (Inr n, m') \<Rightarrow> (CmCount n, m'))"

fun spec_step :: "int \<Rightarrow> cm_op \<Rightarrow> lru_spec \<Rightarrow> cm_res \<times> lru_spec" where
  "spec_step cap (CmGet ctx k now) xs =
    (case opNow ctx ''get'' k now of Some e \<Rightarrow> (CmErr e, xs)
     | None \<Rightarrow> (let (r, ys) = spec_get k now xs in (CmFound r, ys)))"
| "spec_step cap (CmSet ctx k e) xs =
    (case opExpiry ctx ''set'' k (ce_expires e) of Some er \<Rightarrow> (CmErr er, xs)
     | None \<Rightarrow> (CmOk, spec_set cap k e xs))"
| "spec_step cap (CmDelete ctx k) xs =
    (case opCtx ctx ''delete'' k of Some er \<Rightarrow> (CmErr er, xs) | None \<Rightarrow> (CmOk, godel k xs))"
| "spec_step cap (CmSweep ctx now) xs =
    (case opNow ctx ''sweep'' '''' now of Some er \<Rightarrow> (CmErr er, xs)
     | None \<Rightarrow> (CmCount (int (length xs) - int (length (spec_sweep now xs))), spec_sweep now xs))"

fun run_steps :: "('o \<Rightarrow> 'a \<Rightarrow> 'r \<times> 'a) \<Rightarrow> 'o list \<Rightarrow> 'a \<Rightarrow> 'r list \<times> 'a" where
  "run_steps f [] a = ([], a)"
| "run_steps f (x # xs) a = (let (r, a1) = f x a; (rs, a2) = run_steps f xs a1 in (r # rs, a2))"

lemma cm_errors:
  "opNow ctx ''get'' k now = Some e \<Longrightarrow> cm_Get ctx k now m = (Inl e, m)"
  "opExpiry ctx ''set'' k (ce_expires en) = Some e \<Longrightarrow> cm_Set ctx k en m = (Some e, m)"
  "opCtx ctx ''delete'' k = Some e \<Longrightarrow> cm_Delete ctx k m = (Some e, m)"
  "opNow ctx ''sweep'' [] now = Some e \<Longrightarrow> cm_Sweep ctx now m = (Inl e, m)"
  by (simp_all add: cm_Get_def cm_Set_def cm_Delete_def cm_Sweep_def)

lemma cm_step_refines:
  assumes "cm_inv m" "maxEntries m = cap"
  shows "fst (cm_step oper m) = fst (spec_step cap oper (cm_abs m))"
    "cm_inv (snd (cm_step oper m))" "maxEntries (snd (cm_step oper m)) = cap"
    "cm_abs (snd (cm_step oper m)) = snd (spec_step cap oper (cm_abs m))"
proof -
  have "fst (cm_step oper m) = fst (spec_step cap oper (cm_abs m)) \<and> cm_inv (snd (cm_step oper m)) \<and>
    maxEntries (snd (cm_step oper m)) = cap \<and>
    cm_abs (snd (cm_step oper m)) = snd (spec_step cap oper (cm_abs m))"
  proof (cases oper)
    case (CmGet ctx k now)
    then show ?thesis
      using assms cm_Get_refines [OF assms(1), of ctx k now]
      by (cases "opNow ctx ''get'' k now") (simp_all add: cm_errors case_prod_unfold Let_def)
  next
    case (CmSet ctx k e)
    then show ?thesis
      using assms cm_Set_refines [OF assms(1), of ctx k e]
      by (cases "opExpiry ctx ''set'' k (ce_expires e)") (simp_all add: cm_errors case_prod_unfold)
  next
    case (CmDelete ctx k)
    then show ?thesis
      using assms cm_Delete_refines [OF assms(1), of ctx k]
      by (cases "opCtx ctx ''delete'' k") (simp_all add: cm_errors case_prod_unfold)
  next
    case (CmSweep ctx now)
    then show ?thesis
      using assms cm_Sweep_refines [OF assms(1), of ctx now]
      by (cases "opNow ctx ''sweep'' '''' now") (simp_all add: cm_errors case_prod_unfold)
  qed
  then show "fst (cm_step oper m) = fst (spec_step cap oper (cm_abs m))"
    "cm_inv (snd (cm_step oper m))" "maxEntries (snd (cm_step oper m)) = cap"
    "cm_abs (snd (cm_step oper m)) = snd (spec_step cap oper (cm_abs m))" by auto
qed

lemma cm_run_refines:
  assumes "cm_inv m" "maxEntries m = cap"
  shows "fst (run_steps cm_step ops m) = fst (run_steps (spec_step cap) ops (cm_abs m)) \<and>
    cm_inv (snd (run_steps cm_step ops m)) \<and> maxEntries (snd (run_steps cm_step ops m)) = cap \<and>
    cm_abs (snd (run_steps cm_step ops m)) = snd (run_steps (spec_step cap) ops (cm_abs m))"
  using assms
proof (induction ops arbitrary: m)
  case (Cons oper ops)
  note st = cm_step_refines [OF Cons.prems, of oper]
  from Cons.IH [OF st(2,3)] st(1,4) show ?case
    by (simp add: Let_def case_prod_unfold)
qed simp

lemma cm_inv_New: "cm_inv (NewMemoryStore cap)"
  by (simp add: cm_inv_def NewMemoryStore_def cm_index_def)

text \<open>C6: The in-process store is the recency list of its specification: for any capacity and any
  sequence of gets, sets, deletes and sweeps, with live or canceled contexts and any instants, every
  answer, every error and the final contents in recency order are those of the list, the entry
  count never exceeds a positive capacity, and no key is held twice.\<close>

theorem cache_store_refines_lru:
  "let m = snd (run_steps cm_step ops (NewMemoryStore cap));
       s = snd (run_steps (spec_step cap) ops [])
   in fst (run_steps cm_step ops (NewMemoryStore cap)) = fst (run_steps (spec_step cap) ops []) \<and>
      cm_abs m = s \<and> distinct (map fst s) \<and> map_of (items m) = map_of (cm_index m) \<and>
      (if cap > 0 then int (length (lru m)) \<le> cap else True)"
proof -
  have "cm_abs (NewMemoryStore cap) = []" by (simp add: cm_abs_def NewMemoryStore_def)
  with cm_run_refines [OF cm_inv_New [of cap], of cap ops]
  have r: "fst (run_steps cm_step ops (NewMemoryStore cap)) = fst (run_steps (spec_step cap) ops [])"
    "cm_inv (snd (run_steps cm_step ops (NewMemoryStore cap)))"
    "maxEntries (snd (run_steps cm_step ops (NewMemoryStore cap))) = cap"
    "cm_abs (snd (run_steps cm_step ops (NewMemoryStore cap))) = snd (run_steps (spec_step cap) ops [])"
    by (simp_all add: NewMemoryStore_def)
  from r(1,4) r(2,3) cm_abs_wf [OF r(2)] show ?thesis by (simp add: Let_def cm_inv_def)
qed

section \<open>What the recency order guarantees\<close>

text \<open>The keys an operation uses, and the operations that leave the entry \<open>e\<close> of \<open>k\<close> alone.\<close>

fun used_key :: "cm_op \<Rightarrow> string set" where
  "used_key (CmGet ctx k now) = {k}"
| "used_key (CmSet ctx k e) = {k}"
| "used_key _ = {}"

fun keeps :: "string \<Rightarrow> cache_entry \<Rightarrow> cm_op \<Rightarrow> bool" where
  "keeps k e (CmGet ctx k' now) \<longleftrightarrow> k' \<noteq> k \<or> \<not> expired e now"
| "keeps k e (CmSet ctx k' e') \<longleftrightarrow> k' \<noteq> k"
| "keeps k e (CmDelete ctx k') \<longleftrightarrow> k' \<noteq> k"
| "keeps k e (CmSweep ctx now) \<longleftrightarrow> \<not> expired e now"

text \<open>\<open>k\<close> holds \<open>e\<close>, and only keys of \<open>T\<close> were used more recently.\<close>

definition held :: "string \<Rightarrow> cache_entry \<Rightarrow> string set \<Rightarrow> lru_spec \<Rightarrow> bool" where
  "held k e T xs \<longleftrightarrow> (\<exists>front rear. xs = front @ (k, e) # rear \<and> k \<notin> fst ` set front \<and> fst ` set front \<subseteq> T) \<and>
     distinct (map fst xs)"

lemma heldI:
  assumes "xs = front @ (k, e) # rear" "k \<notin> fst ` set front" "fst ` set front \<subseteq> T" "distinct (map fst xs)"
  shows "held k e T xs"
  using assms unfolding held_def by blast

lemma held_map_of: "held k e T xs \<Longrightarrow> map_of xs k = Some e"
  by (auto simp: held_def)

lemma held_filter:
  assumes "held k e T xs" "P (k, e)"
  shows "held k e T (filter P xs)"
proof -
  from assms(1) obtain front rear where f: "xs = front @ (k, e) # rear" "k \<notin> fst ` set front"
    "fst ` set front \<subseteq> T" "distinct (map fst xs)" by (auto simp: held_def)
  show ?thesis
  proof (rule heldI)
    show "filter P xs = filter P front @ (k, e) # filter P rear" using f(1) assms(2) by simp
    show "k \<notin> fst ` set (filter P front)" using f(2) by auto
    show "fst ` set (filter P front) \<subseteq> T" using f(3) by (meson filter_is_subset image_mono order_trans)
    show "distinct (map fst (filter P xs))" using f(4) by (rule distinct_map_filter)
  qed
qed

lemma held_godel: "held k e T xs \<Longrightarrow> j \<noteq> k \<Longrightarrow> held k e T (godel j xs)"
  by (simp add: godel_filter held_filter)

lemma held_front:
  assumes "held k e T xs" "j \<noteq> k"
  shows "held k e (insert j T) ((j, e') # godel j xs)"
proof -
  from held_godel [OF assms] obtain front rear where
    f: "godel j xs = front @ (k, e) # rear" "k \<notin> fst ` set front" "fst ` set front \<subseteq> T"
    "distinct (map fst (godel j xs))" by (auto simp: held_def)
  have "j \<notin> fst ` set (godel j xs)" by (auto simp: godel_filter)
  with f assms(2) show ?thesis
    by (intro heldI [of _ "(j, e') # front" _ _ rear]) auto
qed

lemma held_take:
  assumes "held k e T xs" "finite T" "k \<notin> T" "card T < n"
  shows "held k e T (take n xs)"
proof -
  from assms(1) obtain front rear where f: "xs = front @ (k, e) # rear" "k \<notin> fst ` set front"
    "fst ` set front \<subseteq> T" "distinct (map fst xs)" by (auto simp: held_def)
  have "length front = card (fst ` set front)" using f
    by (metis distinct_append distinct_card length_map map_append set_map)
  also have "\<dots> \<le> card T" using f(3) assms(2) by (rule card_mono [rotated])
  finally have "take n xs = front @ (k, e) # take (n - length front - 1) rear"
    using assms(4) f(1) by (simp add: take_Cons')
  with f show ?thesis unfolding held_def
    by (metis distinct_take take_map)
qed

lemma held_sweep: "held k e T xs \<Longrightarrow> \<not> expired e now \<Longrightarrow> held k e T (spec_sweep now xs)"
  by (simp add: spec_sweep_def held_filter)

lemma held_touch:
  assumes "held k e T xs" "\<not> expired e now"
  shows "held k e T ((k, e) # godel k xs)"
proof -
  have "k \<notin> fst ` set (godel k xs)" "distinct (map fst (godel k xs))"
    using assms(1) by (auto simp: held_def godel_filter distinct_map_filter)
  then show ?thesis by (intro heldI [of _ "[]"]) auto
qed

lemma held_mono: "held k e T xs \<Longrightarrow> T \<subseteq> T' \<Longrightarrow> held k e T' xs"
  unfolding held_def by blast

lemma held_step:
  assumes "held k e T xs" "keeps k e oper" "finite T"
    "cap > 0 \<longrightarrow> int (card (T \<union> used_key oper - {k})) < cap" "k \<notin> T"
  shows "held k e (T \<union> used_key oper - {k}) (snd (spec_step cap oper xs))"
proof (cases oper)
  case (CmGet ctx j now)
  have m: "held k e (T \<union> {j} - {k}) xs" using assms(5) by (intro held_mono [OF assms(1)]) blast
  show ?thesis
  proof (cases "j = k")
    case True
    then show ?thesis
      using m assms(2) CmGet held_map_of [OF m] held_touch [OF m]
      by (auto simp: spec_get_def Let_def split: option.splits prod.splits)
  next
    case False
    have hf: "held k e (T \<union> {j} - {k}) ((j, e') # godel j xs)" for e'
      using held_front [OF m False] False by (metis DiffI UnI2 insertI1 insert_absorb singletonD)
    show ?thesis
      using m CmGet held_godel [OF m False] hf
      by (simp add: spec_get_def Let_def split: option.split)
  qed
next
  case (CmSet ctx j e')
  let ?T = "T \<union> {j} - {k}"
  have j: "j \<noteq> k" using assms(2) CmSet by simp
  have m: "held k e ?T xs" using assms(5) by (intro held_mono [OF assms(1)]) blast
  have "insert j ?T = ?T" using j by blast
  with held_front [OF m j, of e'] have h: "held k e ?T ((j, e') # godel j xs)" by simp
  have "held k e ?T (take (nat cap) ((j, e') # godel j xs))" if "cap > 0"
    using that assms(3,4) CmSet by (intro held_take [OF h]) auto
  with h m CmSet show ?thesis
    by (auto simp: spec_set_def Let_def split: option.splits)
next
  case (CmDelete ctx j)
  then show ?thesis using assms held_godel [OF assms(1), of j]
    by (auto split: option.splits)
next
  case (CmSweep ctx now)
  then show ?thesis using assms held_sweep [OF assms(1), of now]
    by (auto split: option.splits)
qed

lemma held_run:
  assumes "held k e T xs" "\<forall>oper \<in> set ops. keeps k e oper" "finite T" "k \<notin> T"
    "cap > 0 \<longrightarrow> int (card (T \<union> \<Union> (used_key ` set ops) - {k})) < cap"
  shows "\<exists>T'. held k e T' (snd (run_steps (spec_step cap) ops xs))"
  using assms
proof (induction ops arbitrary: T xs)
  case (Cons oper ops)
  let ?T1 = "T \<union> used_key oper - {k}"
  have fin: "finite (used_key o')" for o' by (cases o') auto
  have U: "?T1 \<union> \<Union> (used_key ` set ops) - {k} = T \<union> \<Union> (used_key ` set (oper # ops)) - {k}" by auto
  have le: "card ?T1 \<le> card (T \<union> \<Union> (used_key ` set (oper # ops)) - {k})"
    using Cons.prems(3) fin by (intro card_mono) auto
  have "held k e ?T1 (snd (spec_step cap oper xs))"
    using Cons.prems le by (intro held_step) auto
  from Cons.IH [OF this] have "\<exists>T'. held k e T' (snd (run_steps (spec_step cap) ops (snd (spec_step cap oper xs))))"
    using Cons.prems fin U by auto
  then show ?case by (simp add: case_prod_unfold Let_def)
qed auto

text \<open>Least recently used eviction keeps what is in use: after a successful \<open>Set\<close> of a key, a
  \<open>Get\<close> of it finds that very entry after any number of operations that neither write nor delete
  the key nor run past its expiry, as long as the other keys they use are fewer than the
  capacity.\<close>

theorem cache_lru_retention:
  assumes "fst (cm_Set ctx k e (snd (run_steps cm_step before (NewMemoryStore cap)))) = None"
    and "\<forall>oper \<in> set ops. keeps k e oper"
    and "cap > 0 \<longrightarrow> int (card (\<Union> (used_key ` set ops) - {k})) < cap"
    and "opNow None ''get'' k now = None"
  shows "fst (cm_Get None k now (snd (run_steps cm_step (before @ CmSet ctx k e # ops) (NewMemoryStore cap)))) =
    Inr (Some e)"
proof -
  have run_app: "snd (run_steps f (xs @ ys) a) = snd (run_steps f ys (snd (run_steps f xs a)))"
    for f :: "cm_op \<Rightarrow> 'a \<Rightarrow> cm_res \<times> 'a" and xs ys a
    by (induction xs arbitrary: a) (simp_all add: Let_def case_prod_unfold)
  let ?m0 = "snd (run_steps cm_step before (NewMemoryStore cap))"
  have i0: "cm_inv ?m0" "maxEntries ?m0 = cap"
    using cm_run_refines [OF cm_inv_New [of cap], of cap before] by (simp_all add: NewMemoryStore_def)
  have ok: "opExpiry ctx ''set'' k (ce_expires e) = None"
    using assms(1) by (cases "opExpiry ctx ''set'' k (ce_expires e)") (simp_all add: cm_errors)
  let ?m1 = "snd (cm_Set ctx k e ?m0)"
  note s = cm_Set_refines [OF i0(1) ok]
  have d: "distinct (map fst (godel k (cm_abs ?m0)))" "k \<notin> fst ` set (godel k (cm_abs ?m0))"
    using cm_abs_wf [OF i0(1)] by (auto simp: godel_filter distinct_map_filter)
  have "held k e {} ((k, e) # godel k (cm_abs ?m0))"
    using d by (intro heldI [of _ "[]"]) auto
  then have "held k e {} (cm_abs ?m1)"
    using s(2) i0(2) held_take [of k e "{}" "(k, e) # godel k (cm_abs ?m0)" "nat cap"]
    by (auto simp: spec_set_def Let_def)
  from held_run [OF this assms(2)] assms(3)
  obtain T where h: "held k e T (snd (run_steps (spec_step cap) ops (cm_abs ?m1)))" by auto
  have st: "snd (cm_step (CmSet ctx k e) ?m0) = ?m1"
    using s(4) by (simp add: case_prod_unfold)
  let ?m2 = "snd (run_steps cm_step (before @ CmSet ctx k e # ops) (NewMemoryStore cap))"
  have m2: "?m2 = snd (run_steps cm_step ops ?m1)"
    using st by (simp add: run_app Let_def case_prod_unfold)
  have r: "cm_inv ?m2" "cm_abs ?m2 = snd (run_steps (spec_step cap) ops (cm_abs ?m1))"
    using cm_run_refines [OF s(1), of cap ops] s(3) i0(2) unfolding m2 by simp_all
  show ?thesis
    using cm_Get_refines(1) [OF r(1) assms(4)] held_map_of [OF h] r(2) by (simp add: spec_get_def)
qed

theorem cache_lru_retention_witness:
  "fst (cm_Get None ''a'' 7 (snd (run_steps cm_step
     ([CmSet None ''z'' \<lparr>ce_value = ''0'', ce_expires = zeroTime\<rparr>] @
      CmSet None ''a'' \<lparr>ce_value = ''1'', ce_expires = 9\<rparr> #
      [CmSet None ''b'' \<lparr>ce_value = ''2'', ce_expires = 4\<rparr>, CmGet None ''b'' 5])
     (NewMemoryStore 2)))) = Inr (Some \<lparr>ce_value = ''1'', ce_expires = 9\<rparr>)"
  by (rule cache_lru_retention)
    (simp_all add: cm_Set_def NewMemoryStore_def opExpiry_def opCtx_def opNow_def checkExpiry_def
      checkNow_def isZero_def zeroTime_def minInstant_def maxInstant_def minInt64_def maxInt64_def expired_def)

section \<open>Typed views over a store\<close>

datatype 'v view_op =
    ViewGet "'v cache" "ctx_err option" string time
  | ViewSet "'v cache" "ctx_err option" string 'v duration time
  | ViewDelete "'v cache" "ctx_err option" "ctx_err option" string

fun view_step :: "'s cache_store \<Rightarrow> 'v view_op \<Rightarrow> 's \<Rightarrow> 's" where
  "view_step st (ViewGet c ctx k now) s = snd (cache_Get st c ctx k now s)"
| "view_step st (ViewSet c ctx k v ttl now) s = snd (cache_Set st c ctx k v ttl now s)"
| "view_step st (ViewDelete c inval ctx k) s = snd (cache_Delete st c inval ctx k s)"

text \<open>Whether an operation, run on \<open>s\<close>, reports that it replaced or removed the store key \<open>K\<close>.\<close>

fun view_overwrites :: "'s cache_store \<Rightarrow> string \<Rightarrow> 'v view_op \<Rightarrow> 's \<Rightarrow> bool" where
  "view_overwrites st K (ViewGet c ctx k now) s \<longleftrightarrow> False"
| "view_overwrites st K (ViewSet c ctx k v ttl now) s \<longleftrightarrow>
    cache_key c k = K \<and> fst (cache_Set st c ctx k v ttl now s) = None"
| "view_overwrites st K (ViewDelete c inval ctx k) s \<longleftrightarrow>
    cache_key c k = K \<and> fst (cache_Delete st c inval ctx k s) = None"

fun overwritten :: "'s cache_store \<Rightarrow> string \<Rightarrow> 'v view_op list \<Rightarrow> 's \<Rightarrow> bool" where
  "overwritten st K [] s \<longleftrightarrow> False"
| "overwritten st K (x # xs) s \<longleftrightarrow> view_overwrites st K x s \<or> overwritten st K xs (view_step st x s)"

definition set_expiry :: "duration \<Rightarrow> time \<Rightarrow> time" where
  "set_expiry ttl now = (if ttl > 0 then now + ttl else zeroTime)"

lemma overwritten_append:
  "overwritten st K (xs @ ys) s \<longleftrightarrow> overwritten st K xs s \<or> overwritten st K ys (fold (view_step st) xs s)"
  by (induction xs arbitrary: s) auto

text \<open>The contract of \<open>store.go\<close>. \<open>holds s k\<close> is the entry the store has under \<open>k\<close>; an operation
  may drop entries (expiry, eviction), a failed write may have happened, and nothing else changes
  an entry.\<close>

locale cache_contract =
  fixes st :: "'s cache_store"
    and holds :: "'s \<Rightarrow> string \<Rightarrow> cache_entry option"
    and inv :: "'s \<Rightarrow> bool"
  assumes get_law: "inv s \<Longrightarrow> cs_get st ctx k now s = (g, s') \<Longrightarrow>
      inv s' \<and> (\<forall>k'. holds s' k' = None \<or> holds s' k' = holds s k') \<and>
      (\<forall>e. g = Inr (Some e) \<longrightarrow> holds s k = Some e)"
    and set_law: "inv s \<Longrightarrow> cs_set st ctx k e s = (r, s') \<Longrightarrow>
      inv s' \<and> (\<forall>k'. k' \<noteq> k \<longrightarrow> holds s' k' = None \<or> holds s' k' = holds s k') \<and>
      (holds s' k = None \<or> holds s' k = Some e \<or> r \<noteq> None \<and> holds s' k = holds s k)"
    and delete_law: "inv s \<Longrightarrow> cs_delete st ctx k s = (r, s') \<Longrightarrow>
      inv s' \<and> (\<forall>k'. holds s' k' = None \<or> holds s' k' = holds s k') \<and>
      (r = None \<longrightarrow> holds s' k = None)"
begin

lemma lookup_sound:
  assumes "inv s" "cache_lookup st c ctx key now s = (r, s')"
  shows "inv s' \<and> (\<forall>k'. holds s' k' = None \<or> holds s' k' = holds s k') \<and>
    (\<forall>v. r = Inr (Some v) \<longrightarrow> (\<exists>e. holds s (cache_key c key) = Some e \<and> \<not> expired e now \<and>
       Unmarshal (cc_codec c) (ce_value e) = Inr v))"
proof -
  obtain g s1 where g: "cs_get st ctx (cache_key c key) now s = (g, s1)" by fastforce
  from get_law [OF assms(1) g] assms(2) g show ?thesis
    by (auto simp: cache_lookup_def split: sum.splits option.splits if_splits)
qed

text \<open>One operation either keeps what a key held, drops it, or is the \<open>Set\<close> that wrote it.\<close>

lemma view_step_holds:
  assumes "inv s" "holds (view_step st x s) K = Some e"
  shows "(holds s K = Some e \<and> \<not> view_overwrites st K x s) \<or>
    (\<exists>c ctx key v ttl now. x = ViewSet c ctx key v ttl now \<and> cache_key c key = K \<and>
       Marshal (cc_codec c) v = Inr (ce_value e) \<and> ce_expires e = set_expiry ttl now)"
proof (cases x)
  case (ViewGet c ctx k now)
  obtain r s' where "cache_lookup st c ctx k now s = (r, s')" by fastforce
  with lookup_sound [OF assms(1) this] ViewGet assms(2) show ?thesis
    by (auto simp: cache_Get_def) (metis option.distinct(1))
next
  case (ViewSet c ctx k v ttl now)
  show ?thesis
  proof (cases "Marshal (cc_codec c) v")
    case (Inl er)
    with ViewSet assms(2) show ?thesis by (simp add: cache_Set_def)
  next
    case (Inr data)
    define en where "en = \<lparr>ce_value = data, ce_expires = set_expiry ttl now\<rparr>"
    obtain r s' where r: "cs_set st ctx (cache_key c k) en s = (r, s')" by fastforce
    have "view_step st x s = s'" "view_overwrites st K x s \<longleftrightarrow> cache_key c k = K \<and> r = None"
      using ViewSet Inr r by (auto simp: cache_Set_def en_def set_expiry_def split: option.splits)
    note st = this
    show ?thesis
    proof (cases "cache_key c k = K")
      case True
      then show ?thesis using set_law [OF assms(1) r] st assms(2) ViewSet Inr by (auto simp: en_def)
    next
      case False
      then have "holds s' K = None \<or> holds s' K = holds s K" using set_law [OF assms(1) r] by metis
      then show ?thesis using False st assms(2) by auto
    qed
  qed
next
  case (ViewDelete c inval ctx k)
  show ?thesis
  proof (cases inval)
    case (Some ce)
    with ViewDelete assms(2) show ?thesis by (simp add: cache_Delete_def)
  next
    case None
    obtain r s' where r: "cs_delete st ctx (cache_key c k) s = (r, s')" by fastforce
    have "view_step st x s = s'" "view_overwrites st K x s \<longleftrightarrow> cache_key c k = K \<and> r = None"
      using ViewDelete None r by (auto simp: cache_Delete_def split: option.splits)
    with delete_law [OF assms(1) r] assms(2) ViewDelete show ?thesis
      by (metis option.distinct(1))
  qed
qed

lemma view_step_inv: "inv s \<Longrightarrow> inv (view_step st x s)"
proof (cases x)
  case (ViewGet c ctx k now)
  then show "inv s \<Longrightarrow> ?thesis" using lookup_sound by (metis cache_Get_def prod.collapse view_step.simps(1))
next
  case (ViewSet c ctx k v ttl now)
  then show "inv s \<Longrightarrow> ?thesis"
    using set_law [of s ctx "cache_key c k"]
    by (auto simp: cache_Set_def Let_def split: sum.splits prod.splits option.splits)
next
  case (ViewDelete c inval ctx k)
  then show "inv s \<Longrightarrow> ?thesis"
    using delete_law [of s ctx "cache_key c k"]
    by (auto simp: cache_Delete_def split: option.splits prod.splits)
qed

lemma view_run_inv: "inv s \<Longrightarrow> inv (fold (view_step st) xs s)"
  by (induction xs arbitrary: s) (auto intro: view_step_inv)

lemma held_was_set:
  assumes "inv s0" "holds s0 K = None" "holds (fold (view_step st) ops s0) K = Some e"
  shows "\<exists>before c ctx key v ttl now rest. ops = before @ ViewSet c ctx key v ttl now # rest \<and>
    cache_key c key = K \<and> Marshal (cc_codec c) v = Inr (ce_value e) \<and> ce_expires e = set_expiry ttl now \<and>
    \<not> overwritten st K rest (fold (view_step st) (before @ [ViewSet c ctx key v ttl now]) s0)"
  using assms(3)
proof (induction ops rule: rev_induct)
  case Nil
  then show ?case using assms(2) by simp
next
  case (snoc x xs)
  let ?s = "fold (view_step st) xs s0"
  have "holds (view_step st x ?s) K = Some e" using snoc.prems by simp
  from view_step_holds [OF view_run_inv [OF assms(1)] this]
  show ?case
  proof (elim disjE conjE exE)
    assume h: "holds ?s K = Some e" "\<not> view_overwrites st K x ?s"
    from snoc.IH [OF h(1)] obtain before c ctx key v ttl now rest where
      i: "xs = before @ ViewSet c ctx key v ttl now # rest" "cache_key c key = K"
      "Marshal (cc_codec c) v = Inr (ce_value e)" "ce_expires e = set_expiry ttl now"
      "\<not> overwritten st K rest (fold (view_step st) (before @ [ViewSet c ctx key v ttl now]) s0)"
      by blast
    have "\<not> overwritten st K (rest @ [x]) (fold (view_step st) (before @ [ViewSet c ctx key v ttl now]) s0)"
      using i(1,5) h(2) by (simp add: overwritten_append)
    with i show ?thesis by (metis append.assoc append_Cons)
  next
    fix c ctx key v ttl now
    assume "x = ViewSet c ctx key v ttl now" "cache_key c key = K"
      "Marshal (cc_codec c) v = Inr (ce_value e)" "ce_expires e = set_expiry ttl now"
    then show ?thesis by (metis overwritten.simps(1))
  qed
qed

end

text \<open>The in-process store satisfies the contract.\<close>

lemma map_of_take_sub: "map_of (take n xs) k = None \<or> map_of (take n xs) k = map_of xs k"
proof (cases "map_of (take n xs) k")
  case (Some v)
  then have "map_of (take n xs @ drop n xs) k = Some v" by (simp del: append_take_drop_id)
  with Some show ?thesis by simp
qed simp

interpretation cmem: cache_contract cache_memory "\<lambda>m. map_of (cm_abs m)" cm_inv
proof unfold_locales
  fix s :: cache_mem and ctx k now g s'
  assume i: "cm_inv s" and g: "cs_get cache_memory ctx k now s = (g, s')"
  show "cm_inv s' \<and> (\<forall>k'. map_of (cm_abs s') k' = None \<or> map_of (cm_abs s') k' = map_of (cm_abs s) k') \<and>
    (\<forall>e. g = Inr (Some e) \<longrightarrow> map_of (cm_abs s) k = Some e)"
  proof (cases "opNow ctx ''get'' k now")
    case None
    have s': "s' = snd (cm_Get ctx k now s)" "g = fst (cm_Get ctx k now s)"
      using g by (simp_all add: cache_memory_def)
    show ?thesis using cm_Get_refines(1-3) [OF i None]
      unfolding s' by (auto simp: spec_get_def split: option.splits)
  next
    case (Some e)
    with i g show ?thesis by (auto simp: cache_memory_def cm_errors)
  qed
next
  fix s :: cache_mem and ctx k e r s'
  assume i: "cm_inv s" and r: "cs_set cache_memory ctx k e s = (r, s')"
  show "cm_inv s' \<and> (\<forall>k'. k' \<noteq> k \<longrightarrow> map_of (cm_abs s') k' = None \<or> map_of (cm_abs s') k' = map_of (cm_abs s) k') \<and>
    (map_of (cm_abs s') k = None \<or> map_of (cm_abs s') k = Some e \<or>
     r \<noteq> None \<and> map_of (cm_abs s') k = map_of (cm_abs s) k)"
  proof (cases "opExpiry ctx ''set'' k (ce_expires e)")
    case None
    let ?ys = "(k, e) # godel k (cm_abs s)"
    have s': "s' = snd (cm_Set ctx k e s)" using r by (simp add: cache_memory_def)
    have "map_of (cm_abs s') k' = None \<or> map_of (cm_abs s') k' = map_of ?ys k'" for k'
      using cm_Set_refines(2) [OF i None] map_of_take_sub [of "nat (maxEntries s)" ?ys k']
      unfolding s' spec_set_def Let_def by auto
    moreover have "cm_inv s'" using cm_Set_refines(1) [OF i None] by (simp add: s')
    ultimately show ?thesis by (metis fun_upd_apply map_of.simps(2) map_of_godel fst_conv snd_conv)
  next
    case (Some er)
    with i r show ?thesis by (auto simp: cache_memory_def cm_errors)
  qed
next
  fix s :: cache_mem and ctx k r s'
  assume i: "cm_inv s" and r: "cs_delete cache_memory ctx k s = (r, s')"
  show "cm_inv s' \<and> (\<forall>k'. map_of (cm_abs s') k' = None \<or> map_of (cm_abs s') k' = map_of (cm_abs s) k') \<and>
    (r = None \<longrightarrow> map_of (cm_abs s') k = None)"
  proof (cases "opCtx ctx ''delete'' k")
    case None
    have s': "s' = snd (cm_Delete ctx k s)" using r by (simp add: cache_memory_def)
    show ?thesis using cm_Delete_refines(1,2) [OF i None] unfolding s' by simp
  next
    case (Some er)
    with i r show ?thesis by (auto simp: cache_memory_def cm_errors)
  qed
qed

text \<open>Keys of validly namespaced views never meet.\<close>

lemma takeWhile_ns:
  assumes "namespaceRE ns"
  shows "takeWhile (\<lambda>b. b \<noteq> CHR '':'') (ns @ '':'' @ k) = ns"
proof -
  have "b \<noteq> CHR '':''" if "b \<in> set ns" for b
    using assms that by (auto simp: namespaceRE_def list_all_iff less_eq_char_def)
  then show ?thesis by (simp add: takeWhile_append2)
qed

lemma cache_key_inj:
  assumes "namespaceRE (cc_namespace c)" "namespaceRE (cc_namespace c')"
    "cache_key c k = cache_key c' k'"
  shows "cc_namespace c = cc_namespace c'" "k = k'"
proof -
  have e: "cc_namespace c @ '':'' @ k = cc_namespace c' @ '':'' @ k'"
    using assms by (auto simp: cache_key_def namespaceRE_def)
  show n: "cc_namespace c = cc_namespace c'"
    using takeWhile_ns [OF assms(1), of k] takeWhile_ns [OF assms(2), of k'] e by simp
  with e show "k = k'" by simp
qed

lemma cache_New_namespace:
  "cache_New json nilStore (CacheNamespace ns # opts) = Inr c \<Longrightarrow> list_all (\<lambda>x. \<forall>n. x \<noteq> CacheNamespace n) opts \<Longrightarrow>
    namespaceRE (cc_namespace c) \<and> cc_namespace c = ns"
proof -
  assume a: "cache_New json nilStore (CacheNamespace ns # opts) = Inr c"
    "list_all (\<lambda>x. \<forall>n. x \<noteq> CacheNamespace n) opts"
  have k: "cfg_namespaceSet (fold cache_apply opts cf) = cfg_namespaceSet cf \<and>
      cfg_namespace (fold cache_apply opts cf) = cfg_namespace cf" for cf :: "'a cache_config"
    using a(2)
  proof (induction opts arbitrary: cf)
    case (Cons x xs)
    have "cfg_namespaceSet (cache_apply x cf) = cfg_namespaceSet cf \<and>
      cfg_namespace (cache_apply x cf) = cfg_namespace cf"
      using Cons.prems by (cases "(x, cf)" rule: cache_apply.cases) auto
    with Cons show ?case by simp
  qed simp
  show ?thesis using a(1) by (auto simp: cache_New_def Let_def k split: if_splits)
qed

text \<open>A cache never serves stale or foreign data: whatever views with valid namespaces do to one
  shared in-process store, a value that \<open>Get\<close> returns was encoded by the \<open>Set\<close> of the same key
  through a view of the same namespace, that \<open>Set\<close>'s expiry lies ahead, and no \<open>Set\<close> or \<open>Delete\<close>
  of the key has succeeded since.\<close>

theorem cache_reads_last_write:
  assumes "fst (cache_Get cache_memory c ctx key now
      (fold (view_step cache_memory) ops (NewMemoryStore cap))) = Inr (Some v)"
    and "namespaceRE (cc_namespace c)"
    and "\<forall>c' ctx' k' v' ttl' now'. ViewSet c' ctx' k' v' ttl' now' \<in> set ops \<longrightarrow>
      namespaceRE (cc_namespace c') \<and> 0 \<le> now'"
  shows "\<exists>before c' ctx' v' ttl now' rest data. ops = before @ ViewSet c' ctx' key v' ttl now' # rest \<and>
    cc_namespace c' = cc_namespace c \<and>
    Marshal (cc_codec c') v' = Inr data \<and> Unmarshal (cc_codec c) data = Inr v \<and>
    (ttl \<le> 0 \<or> now < now' + ttl) \<and>
    \<not> overwritten cache_memory (cache_key c key) rest
        (fold (view_step cache_memory) (before @ [ViewSet c' ctx' key v' ttl now']) (NewMemoryStore cap))"
proof -
  let ?s = "fold (view_step cache_memory) ops (NewMemoryStore cap)"
  obtain r s' where l: "cache_lookup cache_memory c ctx key now ?s = (r, s')" by fastforce
  have i: "cm_inv ?s" by (rule cmem.view_run_inv [OF cm_inv_New])
  from cmem.lookup_sound [OF i l] assms(1) l obtain e where
    e: "map_of (cm_abs ?s) (cache_key c key) = Some e" "\<not> expired e now"
      "Unmarshal (cc_codec c) (ce_value e) = Inr v"
    by (auto simp: cache_Get_def)
  have "map_of (cm_abs (NewMemoryStore cap)) (cache_key c key) = None"
    by (simp add: NewMemoryStore_def cm_abs_def)
  from cmem.held_was_set [OF cm_inv_New this e(1)] obtain before c' ctx' k' v' ttl now' rest where
    w: "ops = before @ ViewSet c' ctx' k' v' ttl now' # rest" "cache_key c' k' = cache_key c key"
      "Marshal (cc_codec c') v' = Inr (ce_value e)" "ce_expires e = set_expiry ttl now'"
      "\<not> overwritten cache_memory (cache_key c key) rest
        (fold (view_step cache_memory) (before @ [ViewSet c' ctx' k' v' ttl now']) (NewMemoryStore cap))"
    by blast
  have "ViewSet c' ctx' k' v' ttl now' \<in> set ops" using w(1) by simp
  with assms(3) have ns: "namespaceRE (cc_namespace c')" "0 \<le> now'" by blast+
  note ki = cache_key_inj [OF ns(1) assms(2) w(2)]
  have "ttl \<le> 0 \<or> now < now' + ttl"
    using e(2) w(4) ns(2) by (auto simp: expired_def set_expiry_def isZero_def zeroTime_def split: if_splits)
  with w ki e(3) show ?thesis by blast
qed

definition plain_codec :: "string codec" where
  "plain_codec = \<lparr>Marshal = Inr, Unmarshal = Inr\<rparr>"

definition users_view :: "string cache" where
  "users_view = \<lparr>cc_codec = plain_codec, cc_namespace = ''users''\<rparr>"

lemmas cache_op_defs = opExpiry_def opCtx_def opNow_def checkExpiry_def checkNow_def isZero_def
  zeroTime_def minInstant_def maxInstant_def minInt64_def maxInt64_def expired_def

theorem cache_reads_last_write_witness:
  "fst (cache_Get cache_memory users_view None ''7'' 8
      (fold (view_step cache_memory) [ViewSet users_view None ''7'' ''ann'' 10 5] (NewMemoryStore 3))) =
      Inr (Some ''ann'') \<and>
   (\<exists>before c' ctx' v' ttl now' rest data.
     [ViewSet users_view None ''7'' ''ann'' 10 5] = before @ ViewSet c' ctx' ''7'' v' ttl now' # rest \<and>
     cc_namespace c' = cc_namespace users_view \<and>
     Marshal (cc_codec c') v' = Inr data \<and> Unmarshal (cc_codec users_view) data = Inr ''ann'' \<and>
     (ttl \<le> 0 \<or> 8 < now' + ttl) \<and>
     \<not> overwritten cache_memory (cache_key users_view ''7'') rest
        (fold (view_step cache_memory) (before @ [ViewSet c' ctx' ''7'' v' ttl now']) (NewMemoryStore 3)))"
proof
  show g: "fst (cache_Get cache_memory users_view None ''7'' 8
      (fold (view_step cache_memory) [ViewSet users_view None ''7'' ''ann'' 10 5] (NewMemoryStore 3))) =
      Inr (Some ''ann'')"
    by (simp add: cache_Get_def cache_lookup_def cache_memory_def cm_Get_def cm_Set_def cache_Set_def
        users_view_def plain_codec_def NewMemoryStore_def cache_key_def cache_op_defs)
  have "namespaceRE (cc_namespace users_view)"
    by (simp add: namespaceRE_def users_view_def less_eq_char_def)
  then show "\<exists>before c' ctx' v' ttl now' rest data.
     [ViewSet users_view None ''7'' ''ann'' 10 5] = before @ ViewSet c' ctx' ''7'' v' ttl now' # rest \<and>
     cc_namespace c' = cc_namespace users_view \<and>
     Marshal (cc_codec c') v' = Inr data \<and> Unmarshal (cc_codec users_view) data = Inr ''ann'' \<and>
     (ttl \<le> 0 \<or> 8 < now' + ttl) \<and>
     \<not> overwritten cache_memory (cache_key users_view ''7'') rest
        (fold (view_step cache_memory) (before @ [ViewSet c' ctx' ''7'' v' ttl now']) (NewMemoryStore 3))"
    by (intro cache_reads_last_write [OF g]) simp_all
qed

end
