(* ===== verification/CacheLoad.thy ===== *)
theory CacheLoad
  imports Cache
begin

text \<open>
  The load path of package \<open>cache\<close>: \<open>GetOrLoad\<close> (\<open>cache.go\<close>) and the keyed call deduplication
  it runs in (\<open>load.go\<close>).

  \<^item> One caller's path is a function: what the context, the clock, the load function and the
    invalidation flag are at each point where the code reads them is a record of samples.
  \<^item> Concurrent callers are a step relation over the group's state. A step is what the code does
    under \<open>g.mu\<close>, under the publish semaphore, or in one store call; between two steps any other
    caller may run. Each load has a number, its pointer in Go, given out in the order of creation.
\<close>

section \<open>One caller's path\<close>

text \<open>\<open>retryable(callErr, runnerCtx, callerCtx)\<close>.\<close>

definition retryable :: "cache_error option \<Rightarrow> ctx_err option \<Rightarrow> ctx_err option \<Rightarrow> bool" where
  "retryable callErr runnerCtx callerCtx =
    (case callErr of None \<Rightarrow> False | Some e \<Rightarrow>
     case runnerCtx of None \<Rightarrow> False | Some rc \<Rightarrow> errors_Is e rc \<and> callerCtx = None)"

text \<open>The outcome of one \<open>once\<close>: a value, an error, a panic of the load, or another turn.\<close>

datatype 'v outcome = Value 'v | Failed cache_error | Panicked string | Again

text \<open>A finished load: its result and the runner's \<open>ctx.Err()\<close> when it ended.\<close>

record 'v finished_load =
  fl_result :: "cache_error + 'v"
  fl_runnerCtx :: "ctx_err option"
  fl_panicked :: "string option"

text \<open>A waiting caller: \<open>ready\<close> tells whether the load finished before the caller's context
  ended; \<open>ctx\<close> is the caller's \<open>ctx.Err()\<close> then.\<close>

definition once_wait :: "bool \<Rightarrow> ctx_err option \<Rightarrow> 'v finished_load \<Rightarrow> 'v outcome" where
  "once_wait ready ctx c =
    (if ready then
       (case fl_panicked c of Some p \<Rightarrow> Panicked p | None \<Rightarrow>
        (case ctx of Some e \<Rightarrow> Failed (CtxErr e) | None \<Rightarrow>
         if retryable (case fl_result c of Inl e \<Rightarrow> Some e | Inr _ \<Rightarrow> None) (fl_runnerCtx c) None then Again
         else (case fl_result c of Inl e \<Rightarrow> Failed e | Inr v \<Rightarrow> Value v)))
     else (case ctx of Some e \<Rightarrow> Failed (CtxErr e) | None \<Rightarrow> Again))"

text \<open>The running caller: the panic, if any, goes on to the caller.\<close>

definition once_run :: "'v finished_load \<Rightarrow> 'v outcome" where
  "once_run c = (case fl_panicked c of Some p \<Rightarrow> Panicked p | None \<Rightarrow>
     (case fl_result c of Inl e \<Rightarrow> Failed e | Inr v \<Rightarrow> Value v))"

text \<open>\<open>Do\<close>: turns until one does not ask for another; \<open>None\<close> when the list of turns runs out.\<close>

datatype 'v turn = Wait bool "ctx_err option" "'v finished_load" | Run "'v finished_load"

fun once_of :: "'v turn \<Rightarrow> 'v outcome" where
  "once_of (Wait ready ctx c) = once_wait ready ctx c"
| "once_of (Run c) = once_run c"

fun Do_turns :: "'v turn list \<Rightarrow> 'v outcome option" where
  "Do_turns [] = None"
| "Do_turns (t # ts) = (case once_of t of Again \<Rightarrow> Do_turns ts | out \<Rightarrow> Some out)"

text \<open>What the code observes outside the store while it runs \<open>GetOrLoad\<close> in one caller.\<close>

record 'v load_samples =
  ls_ctx0 :: "ctx_err option"
  ls_get1 :: "ctx_err option"
  ls_got1 :: "ctx_err option"
  ls_now1 :: time
  ls_get2 :: "ctx_err option"
  ls_got2 :: "ctx_err option"
  ls_now2 :: time
  ls_ctxLoad :: "ctx_err option"
  ls_load :: "cache_error + 'v"
  ls_ctxPub :: "ctx_err option"
  ls_invalidated :: bool
  ls_ctxSet :: "ctx_err option"
  ls_nowSet :: time

text \<open>\<open>publish\<close> with its write: skipped when the load was invalidated. A failed write is
  ignored.\<close>

definition publish_set :: "'s cache_store \<Rightarrow> 'v cache \<Rightarrow> string \<Rightarrow> 'v \<Rightarrow> duration \<Rightarrow> 'v load_samples \<Rightarrow> 's \<Rightarrow> 's" where
  "publish_set st c key v ttl o' s =
    (if ls_invalidated o' then s else snd (cache_Set st c (ls_ctxSet o') key v ttl (ls_nowSet o') s))"

text \<open>The function \<open>GetOrLoad\<close> gives to \<open>Do\<close>. The first component tells whether \<open>load\<close> was
  called.\<close>

definition load_fn :: "'s cache_store \<Rightarrow> 'v cache \<Rightarrow> string \<Rightarrow> duration \<Rightarrow> 'v load_samples \<Rightarrow> 's \<Rightarrow>
    bool \<times> (cache_error + 'v) \<times> 's" where
  "load_fn st c key ttl o' s =
    (case lookupOrMiss st c (ls_get2 o') (ls_got2 o') key (ls_now2 o') s of
       (Inr (Some v), s1) \<Rightarrow> (False, Inr v, s1)
     | (Inl ce, s1) \<Rightarrow> (False, Inl (CtxErr ce), s1)
     | (Inr None, s1) \<Rightarrow>
       (case ls_ctxLoad o' of Some ce \<Rightarrow> (False, Inl (CtxErr ce), s1)
        | None \<Rightarrow>
          (case ls_load o' of Inl e \<Rightarrow> (True, Inl e, s1)
           | Inr loaded \<Rightarrow>
             (True, Inr loaded,
              if ls_ctxPub o' = None then publish_set st c key loaded ttl o' s1 else s1))))"

text \<open>\<open>GetOrLoad\<close> of a caller that finds no active load and runs its own.\<close>

definition GetOrLoad :: "'s cache_store \<Rightarrow> 'v cache \<Rightarrow> string \<Rightarrow> duration \<Rightarrow> 'v load_samples \<Rightarrow> 's \<Rightarrow>
    bool \<times> (cache_error + 'v) \<times> 's" where
  "GetOrLoad st c key ttl o' s =
    (case ls_ctx0 o' of Some ce \<Rightarrow> (False, Inl (CtxErr ce), s) | None \<Rightarrow>
     (case lookupOrMiss st c (ls_get1 o') (ls_got1 o') key (ls_now1 o') s of
        (Inr (Some v), s1) \<Rightarrow> (False, Inr v, s1)
      | (Inl ce, s1) \<Rightarrow> (False, Inl (CtxErr ce), s1)
      | (Inr None, s1) \<Rightarrow> load_fn st c key ttl o' s1))"

section \<open>Concurrent loads and deletions\<close>

record active_load =
  al_key :: string
  al_pubSem :: bool
  al_invalidated :: bool

text \<open>Where a caller that runs a load is: inside the function before publishing, in the store
  write, past publishing, or gone from the group.\<close>

datatype load_phase = Loading | Writing | Published | Gone

text \<open>Where a \<open>Delete\<close> is: it looked up the active load (with the number of loads created so
  far), it has the invalidation behind it, or its store delete is done.\<close>

datatype del_phase = Looked "nat option" nat | Invalidated nat | Deleted nat | GaveUp

record load_group =
  lg_calls :: "(string, nat) gomap"
  lg_loads :: "(nat, active_load \<times> load_phase) gomap"
  lg_next :: nat
  lg_dels :: "(nat, string \<times> del_phase) gomap"
  lg_store :: "string \<rightharpoonup> nat option"

text \<open>The store maps a key to the writer of its value: a load's number, or \<open>None\<close> for a \<open>Set\<close>
  of the application.\<close>

definition newLoadGroup :: load_group where
  "newLoadGroup = \<lparr>lg_calls = [], lg_loads = [], lg_next = 0, lg_dels = [], lg_store = (\<lambda>_. None)\<rparr>"

definition once_start :: "string \<Rightarrow> load_group \<Rightarrow> nat + load_group" where
  "once_start key g =
    (case map_of (lg_calls g) key of Some c \<Rightarrow> Inl c
     | None \<Rightarrow> Inr (g\<lparr>lg_calls := goput key (lg_next g) (lg_calls g),
         lg_loads := goput (lg_next g)
           (\<lparr>al_key = key, al_pubSem = False, al_invalidated = False\<rparr>, Loading) (lg_loads g),
         lg_next := lg_next g + 1\<rparr>))"

text \<open>\<open>publish\<close>: take the semaphore when it is free and test the flag.\<close>

definition publish_acquire :: "nat \<Rightarrow> load_group \<Rightarrow> load_group option" where
  "publish_acquire i g =
    (case map_of (lg_loads g) i of
       Some (c, Loading) \<Rightarrow>
         (if al_pubSem c then None
          else if al_invalidated c then Some (g\<lparr>lg_loads := goput i (c, Published) (lg_loads g)\<rparr>)
          else Some (g\<lparr>lg_loads := goput i (c\<lparr>al_pubSem := True\<rparr>, Writing) (lg_loads g)\<rparr>))
     | _ \<Rightarrow> None)"

text \<open>The store write of \<open>publish\<close>, which may fail (\<open>ok\<close>), and the release.\<close>

definition publish_write :: "bool \<Rightarrow> nat \<Rightarrow> load_group \<Rightarrow> load_group option" where
  "publish_write ok i g =
    (case map_of (lg_loads g) i of
       Some (c, Writing) \<Rightarrow> Some (g\<lparr>lg_loads := goput i (c\<lparr>al_pubSem := False\<rparr>, Published) (lg_loads g),
         lg_store := (if ok then (lg_store g)(al_key c \<mapsto> Some i) else lg_store g)\<rparr>)
     | _ \<Rightarrow> None)"

text \<open>The deferred function of \<open>once\<close>; a load that errs, panics or is canceled ends without
  publishing.\<close>

definition once_finish :: "nat \<Rightarrow> load_group \<Rightarrow> load_group option" where
  "once_finish i g =
    (case map_of (lg_loads g) i of
       Some (c, ph) \<Rightarrow> (if ph = Loading \<or> ph = Published
         then Some (g\<lparr>lg_calls := godel (al_key c) (lg_calls g), lg_loads := goput i (c, Gone) (lg_loads g)\<rparr>)
         else None)
     | None \<Rightarrow> None)"

text \<open>\<open>Delete\<close>: look up the active load, wait for its semaphore and set the flag, or give up when
  the context ends; then delete in the store.\<close>

definition invalidate_lookup :: "nat \<Rightarrow> string \<Rightarrow> load_group \<Rightarrow> load_group option" where
  "invalidate_lookup d key g =
    (case map_of (lg_dels g) d of Some _ \<Rightarrow> None
     | None \<Rightarrow> Some (g\<lparr>lg_dels := goput d (key, Looked (map_of (lg_calls g) key) (lg_next g)) (lg_dels g)\<rparr>))"

definition invalidate_mark :: "nat \<Rightarrow> load_group \<Rightarrow> load_group option" where
  "invalidate_mark d g =
    (case map_of (lg_dels g) d of
       Some (key, Looked None n) \<Rightarrow> Some (g\<lparr>lg_dels := goput d (key, Invalidated n) (lg_dels g)\<rparr>)
     | Some (key, Looked (Some i) n) \<Rightarrow>
       (case map_of (lg_loads g) i of
          Some (c, ph) \<Rightarrow> (if al_pubSem c then None
            else Some (g\<lparr>lg_loads := goput i (c\<lparr>al_invalidated := True\<rparr>, ph) (lg_loads g),
                         lg_dels := goput d (key, Invalidated n) (lg_dels g)\<rparr>))
        | None \<Rightarrow> None)
     | _ \<Rightarrow> None)"

definition invalidate_giveUp :: "nat \<Rightarrow> load_group \<Rightarrow> load_group option" where
  "invalidate_giveUp d g =
    (case map_of (lg_dels g) d of
       Some (key, Looked (Some i) n) \<Rightarrow> Some (g\<lparr>lg_dels := goput d (key, GaveUp) (lg_dels g)\<rparr>)
     | _ \<Rightarrow> None)"

definition delete_store :: "nat \<Rightarrow> load_group \<Rightarrow> load_group option" where
  "delete_store d g =
    (case map_of (lg_dels g) d of
       Some (key, Invalidated n) \<Rightarrow> Some (g\<lparr>lg_dels := goput d (key, Deleted n) (lg_dels g),
         lg_store := (lg_store g)(key := None)\<rparr>)
     | _ \<Rightarrow> None)"

inductive lg_step :: "load_group \<Rightarrow> load_group \<Rightarrow> bool" where
  Start: "once_start key g = Inr g' \<Longrightarrow> lg_step g g'"
| Acquire: "publish_acquire i g = Some g' \<Longrightarrow> lg_step g g'"
| Write: "publish_write ok i g = Some g' \<Longrightarrow> lg_step g g'"
| Finish: "once_finish i g = Some g' \<Longrightarrow> lg_step g g'"
| Lookup: "invalidate_lookup d key g = Some g' \<Longrightarrow> lg_step g g'"
| Mark: "invalidate_mark d g = Some g' \<Longrightarrow> lg_step g g'"
| GiveUp: "invalidate_giveUp d g = Some g' \<Longrightarrow> lg_step g g'"
| Remove: "delete_store d g = Some g' \<Longrightarrow> lg_step g g'"
| AppSet: "lg_step g (g\<lparr>lg_store := (lg_store g)(key \<mapsto> None)\<rparr>)"
| Drop: "lg_step g (g\<lparr>lg_store := (lg_store g)(key := None)\<rparr>)"

inductive lg_reach :: "load_group \<Rightarrow> bool" where
  Init: "lg_reach newLoadGroup"
| Step: "lg_reach g \<Longrightarrow> lg_step g g' \<Longrightarrow> lg_reach g'"

section \<open>Invariant of the group\<close>

definition load_ok :: "load_group \<Rightarrow> nat \<Rightarrow> active_load \<Rightarrow> load_phase \<Rightarrow> bool" where
  "load_ok g i c ph \<longleftrightarrow> i < lg_next g \<and> (al_pubSem c \<longleftrightarrow> ph = Writing) \<and>
    (ph = Writing \<longrightarrow> \<not> al_invalidated c) \<and> (ph \<noteq> Gone \<longrightarrow> map_of (lg_calls g) (al_key c) = Some i)"

definition calls_ok :: "load_group \<Rightarrow> bool" where
  "calls_ok g \<longleftrightarrow> (\<forall>key i. map_of (lg_calls g) key = Some i \<longrightarrow>
    (\<exists>c ph. map_of (lg_loads g) i = Some (c, ph) \<and> al_key c = key \<and> ph \<noteq> Gone))"

text \<open>No load of \<open>key\<close> created before the number \<open>n\<close> can still publish.\<close>

definition quiet_before :: "load_group \<Rightarrow> string \<Rightarrow> nat \<Rightarrow> bool" where
  "quiet_before g key n \<longleftrightarrow> (\<forall>i c ph. map_of (lg_loads g) i = Some (c, ph) \<and> al_key c = key \<and> i < n \<and>
    ph \<noteq> Gone \<longrightarrow> al_invalidated c)"

fun del_ok :: "load_group \<Rightarrow> string \<Rightarrow> del_phase \<Rightarrow> bool" where
  "del_ok g key (Looked found n) \<longleftrightarrow> n \<le> lg_next g \<and>
    (\<forall>i. found = Some i \<longrightarrow> (\<exists>c ph. map_of (lg_loads g) i = Some (c, ph) \<and> al_key c = key)) \<and>
    (\<forall>i c ph. map_of (lg_loads g) i = Some (c, ph) \<and> al_key c = key \<and> i < n \<and> ph \<noteq> Gone \<longrightarrow> found = Some i)"
| "del_ok g key (Invalidated n) \<longleftrightarrow> n \<le> lg_next g \<and> quiet_before g key n"
| "del_ok g key (Deleted n) \<longleftrightarrow> n \<le> lg_next g \<and> quiet_before g key n \<and>
    (\<forall>i. lg_store g key = Some (Some i) \<longrightarrow> n \<le> i)"
| "del_ok g key GaveUp \<longleftrightarrow> True"

definition lg_inv :: "load_group \<Rightarrow> bool" where
  "lg_inv g \<longleftrightarrow> calls_ok g \<and>
    (\<forall>i c ph. map_of (lg_loads g) i = Some (c, ph) \<longrightarrow> load_ok g i c ph) \<and>
    (\<forall>d key ph. map_of (lg_dels g) d = Some (key, ph) \<longrightarrow> del_ok g key ph)"

lemma lg_invI:
  assumes "calls_ok g" "\<And>i c ph. map_of (lg_loads g) i = Some (c, ph) \<Longrightarrow> load_ok g i c ph"
    "\<And>d key ph. map_of (lg_dels g) d = Some (key, ph) \<Longrightarrow> del_ok g key ph"
  shows "lg_inv g"
  using assms by (simp add: lg_inv_def)

lemma lg_invD:
  assumes "lg_inv g"
  shows "calls_ok g" "map_of (lg_loads g) i = Some (c, ph) \<Longrightarrow> load_ok g i c ph"
    "map_of (lg_dels g) d = Some (key, dp) \<Longrightarrow> del_ok g key dp"
  using assms by (auto simp: lg_inv_def)

lemma inv_start:
  assumes "lg_inv g" "once_start key g = Inr g'"
  shows "lg_inv g'"
proof -
  let ?n = "lg_next g"
  have none: "map_of (lg_calls g) key = None"
    and g': "g' = g\<lparr>lg_calls := goput key ?n (lg_calls g),
      lg_loads := goput ?n (\<lparr>al_key = key, al_pubSem = False, al_invalidated = False\<rparr>, Loading) (lg_loads g),
      lg_next := ?n + 1\<rparr>"
    using assms(2) by (auto simp: once_start_def split: option.splits)
  have fresh: "map_of (lg_loads g) ?n = None"
    using lg_invD(2) [OF assms(1)] by (cases "map_of (lg_loads g) ?n") (auto simp: load_ok_def)
  show ?thesis
  proof (rule lg_invI)
    show "calls_ok g'" using lg_invD(1) [OF assms(1)] fresh none
      by (fastforce simp: calls_ok_def g')
  next
    fix i c ph
    assume "map_of (lg_loads g') i = Some (c, ph)"
    then show "load_ok g' i c ph"
      using lg_invD(2) [OF assms(1), of i c ph] none by (auto simp: load_ok_def g' split: if_splits)
  next
    fix d k ph
    assume "map_of (lg_dels g') d = Some (k, ph)"
    then have "del_ok g k ph" using lg_invD(3) [OF assms(1)] by (simp add: g')
    then show "del_ok g' k ph"
      using fresh by (cases ph) (fastforce simp: g' quiet_before_def)+
  qed
qed

text \<open>The other steps change one load or one deletion.\<close>

lemma inv_load:
  assumes "lg_inv g" "map_of (lg_loads g) i = Some (c, ph)" "al_key c' = al_key c"
    "al_pubSem c' \<longleftrightarrow> ph' = Writing" "ph' = Writing \<longrightarrow> \<not> al_invalidated c'" "ph \<noteq> Gone" "ph' \<noteq> Gone"
    "al_invalidated c \<longrightarrow> al_invalidated c'"
  shows "lg_inv (g\<lparr>lg_loads := goput i (c', ph') (lg_loads g)\<rparr>)" (is "lg_inv ?g")
proof (rule lg_invI)
  show "calls_ok ?g" using lg_invD(1) [OF assms(1)] assms(2,3,7)
    by (fastforce simp: calls_ok_def)
next
  fix j cj pj
  assume "map_of (lg_loads ?g) j = Some (cj, pj)"
  then show "load_ok ?g j cj pj"
    using lg_invD(2) [OF assms(1), of j cj pj] lg_invD(2) [OF assms(1,2)] assms(3-6)
    by (cases "j = i") (auto simp: load_ok_def)
next
  fix d k dp
  assume "map_of (lg_dels ?g) d = Some (k, dp)"
  then have "del_ok g k dp" using lg_invD(3) [OF assms(1)] by simp
  then show "del_ok ?g k dp"
    using assms(2,3,6,8) by (cases dp) (auto simp: quiet_before_def split: if_splits)
qed

text \<open>Nothing depends on the deletions or, but for completed ones, on the store.\<close>

lemma inv_dels:
  assumes "lg_inv g" "del_ok g key dp"
  shows "lg_inv (g\<lparr>lg_dels := goput d (key, dp) (lg_dels g)\<rparr>)" (is "lg_inv ?g")
proof (rule lg_invI)
  have e: "del_ok ?g k x = del_ok g k x" for k x by (cases x) (simp_all add: quiet_before_def)
  fix d' k x
  assume "map_of (lg_dels ?g) d' = Some (k, x)"
  then show "del_ok ?g k x" using lg_invD(3) [OF assms(1)] assms(2) e by (auto split: if_splits)
qed (use lg_invD(1,2) [OF assms(1)] in \<open>auto simp: calls_ok_def load_ok_def\<close>)

lemma inv_store:
  assumes "lg_inv g"
    "\<And>d key n i. map_of (lg_dels g) d = Some (key, Deleted n) \<Longrightarrow> S key = Some (Some i) \<Longrightarrow> n \<le> i"
  shows "lg_inv (g\<lparr>lg_store := S\<rparr>)" (is "lg_inv ?g")
proof (rule lg_invI)
  fix d k x
  assume "map_of (lg_dels ?g) d = Some (k, x)"
  then show "del_ok ?g k x" using lg_invD(3) [OF assms(1), of d k x] assms(2)
    by (cases x) (auto simp: quiet_before_def)
qed (use lg_invD(1,2) [OF assms(1)] in \<open>auto simp: calls_ok_def load_ok_def\<close>)

lemma inv_acquire:
  assumes "lg_inv g" "publish_acquire i g = Some g'"
  shows "lg_inv g'"
proof -
  from assms(2) obtain c where c: "map_of (lg_loads g) i = Some (c, Loading)" "\<not> al_pubSem c"
    "g' = (if al_invalidated c then g\<lparr>lg_loads := goput i (c, Published) (lg_loads g)\<rparr>
       else g\<lparr>lg_loads := goput i (c\<lparr>al_pubSem := True\<rparr>, Writing) (lg_loads g)\<rparr>)"
    by (auto simp: publish_acquire_def split: option.splits prod.splits load_phase.splits if_splits)
  show ?thesis unfolding c(3) using c(2) by (auto intro!: inv_load [OF assms(1) c(1)])
qed

lemma inv_write:
  assumes "lg_inv g" "publish_write ok i g = Some g'"
  shows "lg_inv g'"
proof -
  from assms(2) obtain c where c: "map_of (lg_loads g) i = Some (c, Writing)"
    "g' = g\<lparr>lg_loads := goput i (c\<lparr>al_pubSem := False\<rparr>, Published) (lg_loads g),
       lg_store := (if ok then (lg_store g)(al_key c \<mapsto> Some i) else lg_store g)\<rparr>"
    by (auto simp: publish_write_def split: option.splits prod.splits load_phase.splits)
  let ?g1 = "g\<lparr>lg_loads := goput i (c\<lparr>al_pubSem := False\<rparr>, Published) (lg_loads g)\<rparr>"
  have i1: "lg_inv ?g1" by (rule inv_load [OF assms(1) c(1)]) auto
  have live: "\<not> al_invalidated c" using lg_invD(2) [OF assms(1) c(1)] by (simp add: load_ok_def)
  have "n \<le> j" if "map_of (lg_dels ?g1) d = Some (key, Deleted n)"
    "(if ok then (lg_store g)(al_key c \<mapsto> Some i) else lg_store g) key = Some (Some j)" for d key n j
  proof -
    have "map_of (lg_dels g) d = Some (key, Deleted n)" using that(1) by simp
    then have d: "del_ok g key (Deleted n)" by (rule lg_invD(3) [OF assms(1)])
    show ?thesis
    proof (cases "ok \<and> key = al_key c")
      case True
      then have "j = i" using that(2) by simp
      moreover have "\<not> i < n" using d c(1) live True by (auto simp: quiet_before_def)
      ultimately show ?thesis by simp
    next
      case False
      then show ?thesis using d that(2) by (auto split: if_splits)
    qed
  qed
  from inv_store [OF i1 this] show ?thesis by (simp add: c(2))
qed

lemma inv_finish:
  assumes "lg_inv g" "once_finish i g = Some g'"
  shows "lg_inv g'"
proof -
  from assms(2) obtain c ph where c: "map_of (lg_loads g) i = Some (c, ph)" "ph = Loading \<or> ph = Published"
    "g' = g\<lparr>lg_calls := godel (al_key c) (lg_calls g), lg_loads := goput i (c, Gone) (lg_loads g)\<rparr>"
    by (auto simp: once_finish_def split: option.splits if_splits)
  have l: "load_ok g i c ph" by (rule lg_invD(2) [OF assms(1) c(1)])
  then have me: "map_of (lg_calls g) (al_key c) = Some i" using c(2) by (auto simp: load_ok_def)
  show ?thesis
  proof (rule lg_invI)
    show "calls_ok g'" using lg_invD(1) [OF assms(1)] c(1) by (fastforce simp: calls_ok_def c(3))
  next
    fix j cj pj
    assume j: "map_of (lg_loads g') j = Some (cj, pj)"
    show "load_ok g' j cj pj"
    proof (cases "j = i")
      case True
      with j l c(2) show ?thesis by (auto simp: c(3) load_ok_def)
    next
      case False
      with j have "load_ok g j cj pj" using lg_invD(2) [OF assms(1)] by (simp add: c(3))
      with False me show ?thesis by (auto simp: c(3) load_ok_def)
    qed
  next
    fix d k dp
    assume "map_of (lg_dels g') d = Some (k, dp)"
    then have "del_ok g k dp" using lg_invD(3) [OF assms(1)] by (simp add: c(3))
    then show "del_ok g' k dp" using c(1) by (cases dp) (auto simp: c(3) quiet_before_def)
  qed
qed

lemma inv_lookup:
  assumes "lg_inv g" "invalidate_lookup d key g = Some g'"
  shows "lg_inv g'"
proof -
  have g': "g' = g\<lparr>lg_dels := goput d (key, Looked (map_of (lg_calls g) key) (lg_next g)) (lg_dels g)\<rparr>"
    using assms(2) by (auto simp: invalidate_lookup_def split: option.splits)
  have "del_ok g key (Looked (map_of (lg_calls g) key) (lg_next g))"
    using lg_invD(1,2) [OF assms(1)] by (fastforce simp: calls_ok_def load_ok_def)
  from inv_dels [OF assms(1) this] show ?thesis by (simp add: g')
qed

lemma inv_mark:
  assumes "lg_inv g" "invalidate_mark d g = Some g'"
  shows "lg_inv g'"
proof -
  from assms(2) consider
      key n where "map_of (lg_dels g) d = Some (key, Looked None n)"
        "g' = g\<lparr>lg_dels := goput d (key, Invalidated n) (lg_dels g)\<rparr>"
    | key i n c ph where "map_of (lg_dels g) d = Some (key, Looked (Some i) n)"
        "map_of (lg_loads g) i = Some (c, ph)" "\<not> al_pubSem c"
        "g' = g\<lparr>lg_loads := goput i (c\<lparr>al_invalidated := True\<rparr>, ph) (lg_loads g),
               lg_dels := goput d (key, Invalidated n) (lg_dels g)\<rparr>"
    by (auto simp: invalidate_mark_def split: option.splits prod.splits del_phase.splits if_splits)
  then show ?thesis
  proof cases
    case 1
    have "del_ok g key (Invalidated n)"
      using lg_invD(3) [OF assms(1) 1(1)] by (auto simp: quiet_before_def)
    from inv_dels [OF assms(1) this] show ?thesis by (simp add: 1(2))
  next
    case 2
    let ?g1 = "g\<lparr>lg_loads := goput i (c\<lparr>al_invalidated := True\<rparr>, ph) (lg_loads g)\<rparr>"
    have l: "load_ok g i c ph" by (rule lg_invD(2) [OF assms(1) 2(2)])
    have i1: "lg_inv ?g1"
    proof (cases "ph = Gone")
      case False
      then show ?thesis using 2(3) l by (intro inv_load [OF assms(1) 2(2)]) (auto simp: load_ok_def)
    next
      case True
      show ?thesis
      proof (rule lg_invI)
        show "calls_ok ?g1" using lg_invD(1) [OF assms(1)] 2(2) by (fastforce simp: calls_ok_def)
        show "load_ok ?g1 j cj pj" if "map_of (lg_loads ?g1) j = Some (cj, pj)" for j cj pj
          using that lg_invD(2) [OF assms(1), of j cj pj] l True
          by (auto simp: load_ok_def split: if_splits)
        show "del_ok ?g1 k dp" if "map_of (lg_dels ?g1) d' = Some (k, dp)" for d' k dp
          using that lg_invD(3) [OF assms(1), of d' k dp] 2(2) True
          by (cases dp) (auto simp: quiet_before_def)
      qed
    qed
    have "del_ok ?g1 key (Invalidated n)"
      using lg_invD(3) [OF assms(1) 2(1)] by (auto simp: quiet_before_def split: if_splits)
    from inv_dels [OF i1 this] show ?thesis by (simp add: 2(4))
  qed
qed

lemma inv_remove:
  assumes "lg_inv g" "delete_store d g = Some g'"
  shows "lg_inv g'"
proof -
  from assms(2) obtain key n where d: "map_of (lg_dels g) d = Some (key, Invalidated n)"
    "g' = g\<lparr>lg_dels := goput d (key, Deleted n) (lg_dels g), lg_store := (lg_store g)(key := None)\<rparr>"
    by (auto simp: delete_store_def split: option.splits prod.splits del_phase.splits)
  let ?g1 = "g\<lparr>lg_store := (lg_store g)(key := None)\<rparr>"
  have "lg_inv ?g1"
    using lg_invD(3) [OF assms(1)] by (intro inv_store [OF assms(1)]) (fastforce split: if_splits)
  moreover have "del_ok ?g1 key (Deleted n)"
    using lg_invD(3) [OF assms(1) d(1)] by (simp add: quiet_before_def)
  ultimately have "lg_inv (?g1\<lparr>lg_dels := goput d (key, Deleted n) (lg_dels ?g1)\<rparr>)" by (rule inv_dels)
  moreover have "?g1\<lparr>lg_dels := goput d (key, Deleted n) (lg_dels ?g1)\<rparr> = g'" by (simp add: d(2))
  ultimately show ?thesis by (simp only:)
qed

lemma lg_step_inv:
  assumes "lg_step g g'" "lg_inv g"
  shows "lg_inv g'"
  using assms
proof cases
  case (GiveUp d)
  then obtain key where "g' = g\<lparr>lg_dels := goput d (key, GaveUp) (lg_dels g)\<rparr>"
    by (auto simp: invalidate_giveUp_def split: option.splits prod.splits del_phase.splits)
  with inv_dels [OF assms(2), of key GaveUp d] show ?thesis by simp
next
  case (AppSet key)
  with lg_invD(3) [OF assms(2)] show ?thesis
    by (simp, intro inv_store [OF assms(2)]) (fastforce split: if_splits)
next
  case (Drop key)
  with lg_invD(3) [OF assms(2)] show ?thesis
    by (simp, intro inv_store [OF assms(2)]) (fastforce split: if_splits)
qed (use assms(2) in \<open>auto intro: inv_start inv_acquire inv_write inv_finish inv_lookup inv_mark inv_remove\<close>)

lemma lg_reach_inv: "lg_reach g \<Longrightarrow> lg_inv g"
proof (induction rule: lg_reach.induct)
  case Init
  then show ?case by (simp add: lg_inv_def newLoadGroup_def calls_ok_def)
qed (rule lg_step_inv)

section \<open>What callers rely on\<close>

text \<open>C7: A deletion wins over every load that was running when it began: in any interleaving of
  loads, deletions, application writes and evictions, once a \<open>Delete\<close> of a key has returned, a
  value of the key in the store was not written by a load created before that \<open>Delete\<close> looked for
  active loads (\<open>n\<close> loads had been created then), however late those loads finish.\<close>

theorem cache_delete_wins:
  assumes "lg_reach g" "map_of (lg_dels g) d = Some (key, Deleted n)" "lg_store g key = Some (Some i)"
  shows "n \<le> i"
  using lg_invD(3) [OF lg_reach_inv [OF assms(1)] assms(2)] assms(3) by simp

text \<open>A deletion overtakes a running load: the load ends without publishing, a second load writes.\<close>

definition overtaken :: "load_group option" where
  "overtaken =
    (case once_start ''k'' newLoadGroup of Inl _ \<Rightarrow> None | Inr g1 \<Rightarrow>
     Option.bind (invalidate_lookup 0 ''k'' g1) (\<lambda>g2.
     Option.bind (invalidate_mark 0 g2) (\<lambda>g3.
     Option.bind (delete_store 0 g3) (\<lambda>g4.
     Option.bind (publish_acquire 0 g4) (\<lambda>g5.
     Option.bind (once_finish 0 g5) (\<lambda>g6.
     (case once_start ''k'' g6 of Inl _ \<Rightarrow> None | Inr g7 \<Rightarrow>
     Option.bind (publish_acquire 1 g7) (publish_write True 1))))))))"

lemmas lg_op_defs = newLoadGroup_def once_start_def invalidate_lookup_def invalidate_mark_def
  delete_store_def publish_acquire_def publish_write_def once_finish_def

lemma bind_reach:
  assumes "Option.bind x f = Some g'" "\<And>g. x = Some g \<Longrightarrow> lg_reach g"
    "\<And>g. lg_reach g \<Longrightarrow> f g = Some g' \<Longrightarrow> lg_reach g'"
  shows "lg_reach g'"
  using assms by (cases x) auto

lemma start_reach:
  assumes "(case once_start key g of Inl _ \<Rightarrow> None | Inr g1 \<Rightarrow> f g1) = Some g'" "lg_reach g"
    "\<And>g1. lg_reach g1 \<Longrightarrow> f g1 = Some g' \<Longrightarrow> lg_reach g'"
  shows "lg_reach g'"
proof (cases "once_start key g")
  case (Inr g1)
  then show ?thesis using assms Step [OF assms(2) Start [OF Inr]] by simp
qed (use assms(1) in simp)

lemma overtaken_reach: "overtaken = Some g \<Longrightarrow> lg_reach g"
  unfolding overtaken_def
  by (erule start_reach, rule Init, (erule bind_reach, blast intro: Step lg_step.intros)+,
      erule start_reach, assumption, erule bind_reach) (blast intro: Step lg_step.intros)+

theorem cache_delete_wins_witness:
  "\<exists>g. overtaken = Some g \<and> lg_reach g \<and> map_of (lg_dels g) 0 = Some (''k'', Deleted 1) \<and>
    lg_store g ''k'' = Some (Some 1) \<and> (1::nat) \<le> 1"
proof -
  obtain g where g: "overtaken = Some g" "map_of (lg_dels g) 0 = Some (''k'', Deleted 1)"
    "lg_store g ''k'' = Some (Some 1)" unfolding overtaken_def by (simp add: lg_op_defs)
  note r = overtaken_reach [OF g(1)]
  with g cache_delete_wins [OF r g(2,3)] show ?thesis by blast
qed

text \<open>Calls are deduplicated: in any reachable state of the group, two loads of one key that are
  both still running are the same load, and it is the one that \<open>calls\<close> leads new callers to.\<close>

theorem cache_single_flight:
  assumes "lg_reach g" "map_of (lg_loads g) i = Some (ci, pi)" "map_of (lg_loads g) j = Some (cj, pj)"
    "pi \<noteq> Gone" "pj \<noteq> Gone" "al_key ci = al_key cj"
  shows "i = j \<and> once_start (al_key ci) g = Inl i"
  using lg_invD(2) [OF lg_reach_inv [OF assms(1)] assms(2)]
    lg_invD(2) [OF lg_reach_inv [OF assms(1)] assms(3)] assms(4-6)
  by (auto simp: load_ok_def once_start_def)

theorem cache_single_flight_witness:
  "\<exists>g. once_start ''k'' newLoadGroup = Inr g \<and> (0::nat) = 0 \<and> once_start ''k'' g = Inl 0"
proof -
  obtain g where g: "once_start ''k'' newLoadGroup = Inr g"
    "map_of (lg_loads g) 0 = Some (\<lparr>al_key = ''k'', al_pubSem = False, al_invalidated = False\<rparr>, Loading)"
    by (simp add: lg_op_defs)
  have "lg_reach g" using Step [OF Init Start [OF g(1)]] .
  from cache_single_flight [OF this g(2) g(2)] g(1) show ?thesis by simp
qed

text \<open>A caller with a live context that waited for a canceled runner takes another turn; in all other
  cases a turn ends \<open>Do\<close>.\<close>

lemma Do_takes_over:
  assumes "fl_result c = Inl e" "fl_runnerCtx c = Some rc" "errors_Is e rc" "fl_panicked c = None"
  shows "Do_turns (Wait True None c # ts) = Do_turns ts"
  using assms by (simp add: once_wait_def retryable_def)

lemma once_run_ends: "once_run c \<noteq> Again"
  by (simp add: once_run_def split: option.splits sum.splits)

text \<open>\<open>Do\<close> returns for a caller that takes over: after any number of turns spent waiting for
  runners whose own cancellation ended their load, the caller that then runs the load gets that
  load's own value, error or panic.\<close>

theorem cache_takeover_returns:
  assumes "\<forall>t \<in> set waits. \<exists>c e rc. t = Wait True None c \<and> fl_panicked c = None \<and>
      fl_result c = Inl e \<and> fl_runnerCtx c = Some rc \<and> errors_Is e rc"
  shows "Do_turns (waits @ [Run mine]) = Some (once_run mine)"
  using assms
proof (induction waits)
  case Nil
  then show ?case using once_run_ends [of mine] by (cases "once_run mine") auto
next
  case (Cons t ts)
  then show ?case using Do_takes_over by (metis append_Cons list.set_intros)
qed

theorem cache_takeover_returns_witness:
  "Do_turns ([Wait True None \<lparr>fl_result = Inl (OpErr ''get'' ''k'' (CtxErr Canceled)),
       fl_runnerCtx = Some Canceled, fl_panicked = None\<rparr>] @
     [Run \<lparr>fl_result = Inr (5::int), fl_runnerCtx = None, fl_panicked = None\<rparr>]) = Some (Value 5)"
  by (subst cache_takeover_returns) (auto simp: once_run_def)

section \<open>Memoization\<close>

lemma spec_set_head: "map_of (spec_set cap k e xs) k = Some e"
  by (cases "nat cap") (auto simp: spec_set_def Let_def)

lemma cache_Set_holds:
  assumes "cm_inv s" "Marshal (cc_codec c) v = Inr data"
    "checkExpiry (set_expiry ttl now) = None"
  shows "cm_inv (snd (cache_Set cache_memory c None key v ttl now s))"
    "map_of (cm_abs (snd (cache_Set cache_memory c None key v ttl now s))) (cache_key c key) =
      Some \<lparr>ce_value = data, ce_expires = set_expiry ttl now\<rparr>"
proof -
  let ?e = "\<lparr>ce_value = data, ce_expires = set_expiry ttl now\<rparr>"
  have ok: "opExpiry None ''set'' (cache_key c key) (ce_expires ?e) = None"
    using assms(3) by (simp add: opExpiry_def opCtx_def)
  note r = cm_Set_refines [OF assms(1) ok]
  have "snd (cache_Set cache_memory c None key v ttl now s) = snd (cm_Set None (cache_key c key) ?e s)"
    using assms(2) r(4) by (simp add: cache_Set_def cache_memory_def set_expiry_def Let_def case_prod_unfold)
  with r(1,2) spec_set_head show "cm_inv (snd (cache_Set cache_memory c None key v ttl now s))"
    "map_of (cm_abs (snd (cache_Set cache_memory c None key v ttl now s))) (cache_key c key) = Some ?e"
    by simp_all
qed

lemma lookup_holds:
  assumes "cm_inv s" "map_of (cm_abs s) (cache_key c key) = Some e" "\<not> expired e now"
    "Unmarshal (cc_codec c) (ce_value e) = Inr v" "checkNow now = None" "\<not> isZero now"
  shows "fst (cache_lookup cache_memory c None key now s) = Inr (Some v)"
proof -
  have "opNow None ''get'' (cache_key c key) now = None"
    using assms(5,6) by (simp add: opNow_def opCtx_def)
  from cm_Get_refines(1) [OF assms(1) this] assms(2)
  have "fst (cm_Get None (cache_key c key) now s) = Inr (Some e)" by (simp add: spec_get_def)
  then show ?thesis using assms(3,4)
    by (cases "cm_Get None (cache_key c key) now s") (simp add: cache_lookup_def cache_memory_def)
qed

lemma lookupOrMiss_inv: "cm_inv s \<Longrightarrow> cm_inv (snd (lookupOrMiss cache_memory c x y key now s))"
  using cmem.lookup_sound [of s c x key now]
  by (cases "cache_lookup cache_memory c x key now s")
    (auto simp: lookupOrMiss_def split: sum.splits option.splits)

lemma load_fn_called:
  assumes "load_fn st c key ttl o' s = (True, Inr v, s')" "ls_ctxPub o' = None" "\<not> ls_invalidated o'"
  shows "s' = snd (cache_Set st c (ls_ctxSet o') key v ttl (ls_nowSet o')
      (snd (lookupOrMiss st c (ls_get2 o') (ls_got2 o') key (ls_now2 o') s)))"
  using assms by (auto simp: load_fn_def publish_set_def split: prod.splits sum.splits option.splits)

lemma GetOrLoad_called:
  assumes "GetOrLoad st c key ttl o' s = (True, r, s')"
  shows "load_fn st c key ttl o' (snd (lookupOrMiss st c (ls_get1 o') (ls_got1 o') key (ls_now1 o') s)) =
    (True, r, s')"
  using assms by (auto simp: GetOrLoad_def split: prod.splits sum.splits option.splits)

text \<open>\<open>GetOrLoad\<close> memoizes: when it called \<open>load\<close> and its write was neither canceled nor
  invalidated, then until the value's expiry a \<open>Get\<close> returns the loaded value and another
  \<open>GetOrLoad\<close> returns it without calling its own \<open>load\<close>, for every codec that decodes what it
  encodes.\<close>

theorem cache_GetOrLoad_memoizes:
  fixes c :: "'v cache"
  assumes "cm_inv s" "GetOrLoad cache_memory c key ttl run s = (True, Inr v, s')"
    and "ls_ctxPub run = None" "ls_ctxSet run = None" "\<not> ls_invalidated run"
    and "Marshal (cc_codec c) v = Inr data" "Unmarshal (cc_codec c) data = Inr v"
    and "0 < ttl" "0 \<le> now" "now < ls_nowSet run + ttl" "ls_nowSet run + ttl \<le> maxInt64"
    and "ls_ctx0 again = None" "ls_get1 again = None" "ls_now1 again = now"
  shows "fst (cache_Get cache_memory c None key now s') = Inr (Some v) \<and>
    (\<exists>s''. GetOrLoad cache_memory c key ttl again s' = (False, Inr v, s''))"
proof -
  let ?s1 = "snd (lookupOrMiss cache_memory c (ls_get1 run) (ls_got1 run) key (ls_now1 run) s)"
  let ?s2 = "snd (lookupOrMiss cache_memory c (ls_get2 run) (ls_got2 run) key (ls_now2 run) ?s1)"
  have i: "cm_inv ?s2" by (intro lookupOrMiss_inv assms(1))
  have s': "s' = snd (cache_Set cache_memory c None key v ttl (ls_nowSet run) ?s2)"
    using load_fn_called [OF GetOrLoad_called [OF assms(2)] assms(3,5)] assms(4) by simp
  let ?x = "set_expiry ttl (ls_nowSet run)"
  have x: "?x = ls_nowSet run + ttl" using assms(8) by (simp add: set_expiry_def)
  have "checkExpiry ?x = None"
    using assms(9-11) unfolding x by (simp add: cache_op_defs)
  note h = cache_Set_holds [OF i assms(6) this, of key, folded s']
  have l: "fst (cache_lookup cache_memory c None key now s') = Inr (Some v)"
    using assms(7,9,10,11) x
    by (intro lookup_holds [OF h]) (simp_all add: cache_op_defs)
  then have "\<exists>s''. cache_lookup cache_memory c None key now s' = (Inr (Some v), s'')"
    by (metis prod.collapse)
  then show ?thesis using l assms(12-14)
    by (auto simp: cache_Get_def GetOrLoad_def lookupOrMiss_def)
qed

definition steady_samples :: "time \<Rightarrow> cache_error + string \<Rightarrow> string load_samples" where
  "steady_samples t r = \<lparr>ls_ctx0 = None, ls_get1 = None, ls_got1 = None, ls_now1 = t, ls_get2 = None,
    ls_got2 = None, ls_now2 = t, ls_ctxLoad = None, ls_load = r, ls_ctxPub = None,
    ls_invalidated = False, ls_ctxSet = None, ls_nowSet = t\<rparr>"

theorem cache_GetOrLoad_memoizes_witness:
  "\<exists>s'. GetOrLoad cache_memory users_view ''7'' 10 (steady_samples 5 (Inr ''ann'')) (NewMemoryStore 2) =
      (True, Inr ''ann'', s') \<and>
    fst (cache_Get cache_memory users_view None ''7'' 14 s') = Inr (Some ''ann'') \<and>
    (\<exists>s''. GetOrLoad cache_memory users_view ''7'' 10 (steady_samples 14 (Inl ZeroInstant)) s' =
      (False, Inr ''ann'', s''))"
proof -
  obtain s' where g: "GetOrLoad cache_memory users_view ''7'' 10 (steady_samples 5 (Inr ''ann'')) (NewMemoryStore 2) =
      (True, Inr ''ann'', s')"
    by (simp add: GetOrLoad_def load_fn_def publish_set_def lookupOrMiss_def cache_lookup_def steady_samples_def
        cache_memory_def cm_Get_def NewMemoryStore_def cache_op_defs)
  from cache_GetOrLoad_memoizes [OF cm_inv_New g, where data = "''ann''" and now = 14
      and again = "steady_samples 14 (Inl ZeroInstant)"] g
  show ?thesis by (simp add: steady_samples_def users_view_def plain_codec_def maxInt64_def)
qed

end
