(* ===== verification/JobStore.thy ===== *)
theory JobStore
  imports GoText
begin

text \<open>
  Package \<open>jobs\<close>: the vocabulary (\<open>jobs.go\<close>), the rows of the persistence contract
  (\<open>store.go\<close>), the list cursor (\<open>inspect.go\<close>) and the in-process store
  (\<open>store_memory.go\<close>), every method of it.

  \<^item> \<open>NewID\<close> returns a UUID of a third-party package. It is the parameter \<open>nid\<close>, applied to
    the number of identifiers drawn so far (\<open>js_ids\<close>); where uniqueness matters, its injectivity
    is a hypothesis.
  \<^item> \<open>memRow\<close> embeds \<open>Job\<close>: the record \<open>mem_row\<close> extends \<open>job\<close>. A row is changed through
    its pointer in Go, here by writing it back under its id.
  \<^item> \<open>slices.SortFunc\<close> with a comparison that ends on the id is \<open>sort_key\<close> with the tuple of
    compared fields; ids are unique, so the result does not depend on Go's map order.
  \<^item> Attempt counts are unbounded: they grow by one per run.
\<close>

section \<open>Vocabulary (jobs.go)\<close>

datatype state =
    StateAvailable | StatePending | StateRunning
  | StateSucceeded | StateFailed | StateCancelled | StateDiscarded
  | StateOther string

definition Terminal :: "state \<Rightarrow> bool" where
  "Terminal s = (case s of StateSucceeded \<Rightarrow> True | StateFailed \<Rightarrow> True | StateCancelled \<Rightarrow> True
     | StateDiscarded \<Rightarrow> True | _ \<Rightarrow> False)"

text \<open>\<open>AttemptNone\<close> is the empty string, the zero value of \<open>AttemptState\<close>.\<close>

datatype attempt_state = AttemptNone | AttemptSucceeded | AttemptFailed | AttemptTimedOut | AttemptCancelled

datatype on_timeout = TimeoutRetry | TimeoutFail | TimeoutDiscard | TimeoutOther int

datatype catch_up = CatchUpOnce | CatchUpSkip | CatchUpAll | CatchUpOther int

datatype jobs_error =
    ErrPermanent | ErrUnregistered | ErrUnregisteredHandler | ErrDecodePayload
  | ErrBackoffNotSerializable | ErrNotFound | ErrUnsupported | ErrJobRunning | ErrJobTerminal
  | ErrJobNotRetryable | ErrTypeAlreadyRegistered | ErrKindAlreadyRegistered
  | ErrHandlerAlreadyRegistered | ErrScheduleAlreadyDeclared | ErrWorkerAlreadyStarted
  | DuplicateError string string string string
  | IdentEmpty string | IdentTooLong string | IdentByte string char
  | BadOnTimeout int | BadCatchUp int
  | InvalidCursor | MalformedCursor | CursorTimestamp
  | JobsErr string

definition ident_byte :: "char \<Rightarrow> bool" where
  "ident_byte c \<longleftrightarrow> CHR ''A'' \<le> c \<and> c \<le> CHR ''Z'' \<or> CHR ''a'' \<le> c \<and> c \<le> CHR ''z'' \<or>
     CHR ''0'' \<le> c \<and> c \<le> CHR ''9'' \<or> c \<in> {CHR ''.'', CHR ''_'', CHR '':'', CHR ''/'', CHR ''-''}"

definition validIdent :: "string \<Rightarrow> string \<Rightarrow> jobs_error option" where
  "validIdent what s =
    (if s = [] then Some (IdentEmpty what)
     else if length s > 255 then Some (IdentTooLong what)
     else (case find (\<lambda>c. \<not> ident_byte c) s of Some c \<Rightarrow> Some (IdentByte what c) | None \<Rightarrow> None))"

definition validOnTimeout :: "on_timeout \<Rightarrow> jobs_error option" where
  "validOnTimeout t = (case t of TimeoutOther n \<Rightarrow> Some (BadOnTimeout n) | _ \<Rightarrow> None)"

definition validCatchUp :: "catch_up \<Rightarrow> jobs_error option" where
  "validCatchUp c = (case c of CatchUpOther n \<Rightarrow> Some (BadCatchUp n) | _ \<Rightarrow> None)"

section \<open>Rows (store.go)\<close>

record job =
  Kind :: string
  HandlerID :: string
  Payload :: string
  Queue :: string
  Priority :: int
  AvailableAt :: time
  MaxAttempts :: int
  TimeoutMs :: int
  OnTimeout :: on_timeout
  BackoffSpec :: string
  UniqueKey :: string
  ScheduledFor :: time
  ScheduledForSet :: bool

record insert_result =
  ir_ID :: string
  ir_CreatedAt :: time
  ir_Kind :: string
  ir_HandlerID :: string
  ir_ScheduledFor :: time
  ir_Duplicate :: bool

record claim_request =
  cr_WorkerID :: string
  cr_Queues :: "string list"
  cr_Now :: time
  cr_Lease :: duration
  cr_Limit :: int
  cr_QueueLimits :: "(string, int) gomap"
  cr_Handlers :: "(string \<times> string) list"

record claimed_job =
  cj_Job :: job
  cj_ID :: string
  cj_Attempt :: int
  cj_LockedUntil :: time

record job_outcome =
  o_State :: state
  o_Attempt :: int
  o_Error :: string
  o_AvailableAt :: time
  o_AttemptState :: attempt_state
  o_StartedAt :: time
  o_FinishedAt :: time

record list_filter =
  lf_Queues :: "string list"
  lf_Kinds :: "string list"
  lf_States :: "state list"
  lf_Limit :: int
  lf_Cursor :: string

record attempt_row =
  at_ID :: string
  at_JobID :: string
  at_Attempt :: int
  at_WorkerID :: string
  at_State :: attempt_state
  at_Error :: string
  at_StartedAt :: time
  at_FinishedAt :: time

record worker_row =
  wr_ID :: string
  wr_Hostname :: string
  wr_Queues :: "string list"
  wr_StartedAt :: time
  wr_LastSeenAt :: time

record schedule_row =
  sr_Group :: string
  sr_Name :: string
  sr_Kind :: string
  sr_Spec :: string
  sr_Payload :: string
  sr_OptionsJSON :: string
  sr_NextRunAt :: time
  sr_LastRunAt :: time
  sr_LastRunSet :: bool
  sr_UpdatedAt :: time

text \<open>\<open>sql.NullTime\<close> is an option.\<close>

record schedule_fire =
  sf_Group :: string
  sf_Name :: string
  sf_ExpectedLastRun :: "time option"
  sf_NewLastRun :: time
  sf_NewNextRun :: time
  sf_Now :: time
  sf_Jobs :: "job list"

record job_info =
  ji_ID :: string
  ji_Kind :: string
  ji_HandlerID :: string
  ji_Queue :: string
  ji_Priority :: int
  ji_State :: state
  ji_Attempt :: int
  ji_MaxAttempts :: int
  ji_AvailableAt :: time
  ji_Timeout :: duration
  ji_UniqueKey :: string
  ji_Payload :: string
  ji_Error :: string
  ji_CancelRequested :: bool
  ji_ScheduledFor :: time
  ji_ScheduledForSet :: bool
  ji_CreatedAt :: time
  ji_UpdatedAt :: time

section \<open>Cursors (inspect.go)\<close>

definition DefaultListLimit :: int where
  "DefaultListLimit = 100"

definition MaxListLimit :: int where
  "MaxListLimit = 1000"

definition NormalizeLimit :: "int \<Rightarrow> int" where
  "NormalizeLimit lim = (if lim \<le> 0 then DefaultListLimit else if lim > MaxListLimit then MaxListLimit else lim)"

definition EncodeCursor :: "time \<Rightarrow> string \<Rightarrow> string" where
  "EncodeCursor createdAt jid = b64_encode (formatInt (unixNano createdAt) @ '':'' @ jid)"

definition DecodeCursor :: "string \<Rightarrow> jobs_error + time \<times> string" where
  "DecodeCursor c =
    (if c = [] then Inr (zeroTime, [])
     else case b64_decode c of None \<Rightarrow> Inl InvalidCursor
     | Some raw \<Rightarrow>
       (case cut (CHR '':'') raw of None \<Rightarrow> Inl MalformedCursor
        | Some (ts, jid) \<Rightarrow>
          (case parseInt ts of None \<Rightarrow> Inl CursorTimestamp | Some nanos \<Rightarrow> Inr (nanos, jid))))"

section \<open>MemoryStore (store_memory.go)\<close>

record mem_row = job +
  r_id :: string
  r_state :: state
  r_attempt :: int
  r_lockedBy :: string
  r_lockedUntil :: time
  r_cancelRequested :: bool
  r_lastError :: string
  r_createdAt :: time
  r_updatedAt :: time

record js =
  js_rows :: "(string, mem_row) gomap"
  js_uniq :: "(string, string) gomap"
  js_attempts :: "(string, attempt_row list) gomap"
  js_workers :: "(string, worker_row) gomap"
  js_schedules :: "(string, schedule_row) gomap"
  js_ids :: nat

definition js_New :: js where
  "js_New = \<lparr>js_rows = [], js_uniq = [], js_attempts = [], js_workers = [], js_schedules = [], js_ids = 0\<rparr>"

definition uniqKey :: "string \<Rightarrow> string \<Rightarrow> string \<Rightarrow> string" where
  "uniqKey kind handler key = kind @ [CHR 0x00] @ handler @ [CHR 0x00] @ key"

definition schedKey :: "string \<Rightarrow> string \<Rightarrow> string" where
  "schedKey grp name = grp @ [CHR 0x00] @ name"

text \<open>Writing a row back, and \<open>NewID\<close>.\<close>

definition put_row :: "mem_row \<Rightarrow> js \<Rightarrow> js" where
  "put_row r s = s\<lparr>js_rows := goput (r_id r) r (js_rows s)\<rparr>"

definition new_row :: "job \<Rightarrow> string \<Rightarrow> state \<Rightarrow> time \<Rightarrow> mem_row" where
  "new_row j jid st now = job.extend j
    \<lparr>r_id = jid, r_state = st, r_attempt = 0, r_lockedBy = [], r_lockedUntil = zeroTime,
     r_cancelRequested = False, r_lastError = [], r_createdAt = now, r_updatedAt = now\<rparr>"

abbreviation row_key :: "('a job_scheme) \<Rightarrow> string" where
  "row_key j \<equiv> uniqKey (Kind j) (HandlerID j) (UniqueKey j)"

text \<open>The live job that holds the unique key of \<open>j\<close>, if there is one.\<close>

definition live_holder :: "js \<Rightarrow> ('a job_scheme) \<Rightarrow> (string \<times> mem_row) option" where
  "live_holder s j =
    (if UniqueKey j = [] then None
     else case map_of (js_uniq s) (row_key j) of None \<Rightarrow> None
       | Some holder \<Rightarrow> (case map_of (js_rows s) holder of None \<Rightarrow> None
         | Some r \<Rightarrow> if Terminal (r_state r) then None else Some (holder, r)))"

definition insert_one :: "(nat \<Rightarrow> string) \<Rightarrow> time \<Rightarrow> job \<Rightarrow> js \<Rightarrow> insert_result \<times> js" where
  "insert_one nid now j s =
    (case live_holder s j of
       Some (existingID, r) \<Rightarrow> (\<lparr>ir_ID = existingID, ir_CreatedAt = r_createdAt r, ir_Kind = Kind j, ir_HandlerID = HandlerID j,
                  ir_ScheduledFor = zeroTime, ir_Duplicate = True\<rparr>, s)
     | None \<Rightarrow>
       (let jid = nid (js_ids s);
            st = (if AvailableAt j > now then StatePending else StateAvailable);
            s1 = put_row (new_row j jid st now) (s\<lparr>js_ids := js_ids s + 1\<rparr>);
            s2 = (if UniqueKey j \<noteq> [] then s1\<lparr>js_uniq := goput (row_key j) jid (js_uniq s1)\<rparr> else s1)
        in (\<lparr>ir_ID = jid, ir_CreatedAt = now, ir_Kind = Kind j, ir_HandlerID = HandlerID j,
             ir_ScheduledFor = ScheduledFor j, ir_Duplicate = False\<rparr>, s2)))"

fun insertLocked :: "(nat \<Rightarrow> string) \<Rightarrow> time \<Rightarrow> job list \<Rightarrow> js \<Rightarrow> insert_result list \<times> js" where
  "insertLocked nid now [] s = ([], s)"
| "insertLocked nid now (j # js) s =
    (let (r, s1) = insert_one nid now j s; (rs, s2) = insertLocked nid now js s1 in (r # rs, s2))"

definition js_Insert :: "(nat \<Rightarrow> string) \<Rightarrow> time \<Rightarrow> job list \<Rightarrow> js \<Rightarrow> insert_result list \<times> js" where
  "js_Insert nid now jobs s = insertLocked nid now jobs s"

definition claimable :: "claim_request \<Rightarrow> mem_row \<Rightarrow> bool" where
  "claimable req r \<longleftrightarrow>
    \<not> (r_state r \<noteq> StateAvailable \<and> r_state r \<noteq> StatePending) \<and>
    \<not> (\<not> isZero (AvailableAt r) \<and> AvailableAt r > cr_Now req) \<and>
    (cr_Queues req \<noteq> [] \<longrightarrow> Queue r \<in> set (cr_Queues req)) \<and>
    (Kind r, HandlerID r) \<in> set (cr_Handlers req)"

definition claim_order :: "mem_row \<Rightarrow> int \<times> time \<times> string" where
  "claim_order r = (- Priority r, AvailableAt r, r_id r)"

definition queue_full :: "claim_request \<Rightarrow> (string \<Rightarrow> int) \<Rightarrow> mem_row \<Rightarrow> bool" where
  "queue_full req perQueue r =
    (case map_of (cr_QueueLimits req) (Queue r) of None \<Rightarrow> False
     | Some qlim \<Rightarrow> qlim \<ge> 0 \<and> perQueue (Queue r) \<ge> qlim)"

definition lease_row :: "claim_request \<Rightarrow> mem_row \<Rightarrow> mem_row" where
  "lease_row req r = r\<lparr>r_state := StateRunning, r_lockedBy := cr_WorkerID req,
     r_lockedUntil := cr_Now req + cr_Lease req, r_updatedAt := cr_Now req\<rparr>"

definition claimed :: "claim_request \<Rightarrow> mem_row \<Rightarrow> claimed_job" where
  "claimed req r = \<lparr>cj_Job = job.truncate r, cj_ID = r_id r, cj_Attempt = r_attempt r,
     cj_LockedUntil = cr_Now req + cr_Lease req\<rparr>"

fun claim_loop :: "claim_request \<Rightarrow> nat \<Rightarrow> mem_row list \<Rightarrow> (string \<Rightarrow> int) \<Rightarrow> js \<Rightarrow> claimed_job list \<times> js" where
  "claim_loop req room [] perQueue s = ([], s)"
| "claim_loop req room (r # rs) perQueue s =
    (if room = 0 then ([], s)
     else if queue_full req perQueue r then claim_loop req room rs perQueue s
     else (let (out, s') = claim_loop req (room - 1) rs (perQueue (Queue r := perQueue (Queue r) + 1))
             (put_row (lease_row req r) s)
           in (claimed req r # out, s')))"

definition js_Claim :: "claim_request \<Rightarrow> js \<Rightarrow> claimed_job list \<times> js" where
  "js_Claim req s =
    (if cr_WorkerID req = [] \<or> cr_Handlers req = [] then ([], s)
     else (let lim = (if cr_Limit req \<le> 0 then 1 else cr_Limit req);
               cands = sort_key claim_order (filter (claimable req) (map snd (js_rows s)))
           in claim_loop req (nat lim) cands (\<lambda>_. 0) s))"

text \<open>The row of a job while this worker holds its lease.\<close>

definition leased_row :: "string \<Rightarrow> string \<Rightarrow> js \<Rightarrow> mem_row option" where
  "leased_row jobID workerID s =
    (case map_of (js_rows s) jobID of None \<Rightarrow> None
     | Some r \<Rightarrow> if r_state r \<noteq> StateRunning \<or> r_lockedBy r \<noteq> workerID then None else Some r)"

definition js_Heartbeat :: "string \<Rightarrow> string \<Rightarrow> time \<Rightarrow> time \<Rightarrow> js \<Rightarrow> (jobs_error + bool) \<times> js" where
  "js_Heartbeat jobID workerID now until s =
    (case leased_row jobID workerID s of None \<Rightarrow> (Inl ErrNotFound, s)
     | Some r \<Rightarrow> (Inr (r_cancelRequested r), put_row (r\<lparr>r_lockedUntil := until, r_updatedAt := now\<rparr>) s))"

definition freeUniq :: "mem_row \<Rightarrow> js \<Rightarrow> js" where
  "freeUniq r s =
    (if UniqueKey r = [] then s
     else case map_of (js_uniq s) (row_key r) of None \<Rightarrow> s
       | Some holder \<Rightarrow> if holder = r_id r then s\<lparr>js_uniq := godel (row_key r) (js_uniq s)\<rparr> else s)"

text \<open>\<open>append(s.attempts[id], Attempt{ID: NewID(), ...})\<close>.\<close>

definition add_attempt :: "(nat \<Rightarrow> string) \<Rightarrow> string \<Rightarrow> (string \<Rightarrow> attempt_row) \<Rightarrow> js \<Rightarrow> js" where
  "add_attempt nid jobID mk s =
    s\<lparr>js_attempts := goput jobID
        ((case map_of (js_attempts s) jobID of None \<Rightarrow> [] | Some xs \<Rightarrow> xs) @ [mk (nid (js_ids s))])
        (js_attempts s),
      js_ids := js_ids s + 1\<rparr>"

definition js_Complete :: "(nat \<Rightarrow> string) \<Rightarrow> string \<Rightarrow> string \<Rightarrow> time \<Rightarrow> job_outcome \<Rightarrow> js \<Rightarrow>
    (jobs_error + state) \<times> js" where
  "js_Complete nid jobID workerID now o' s =
    (case leased_row jobID workerID s of None \<Rightarrow> (Inl ErrNotFound, s)
     | Some r \<Rightarrow>
       (let applied = (if r_cancelRequested r then StateCancelled else o_State o');
            attemptState = (if r_cancelRequested r then AttemptCancelled else o_AttemptState o');
            record = (o_AttemptState o' \<noteq> AttemptNone \<or> r_cancelRequested r);
            attemptNum = (if r_cancelRequested r \<and> o_AttemptState o' = AttemptNone
                          then r_attempt r + 1 else o_Attempt o');
            s1 = (if record then add_attempt nid jobID (\<lambda>jid. \<lparr>at_ID = jid, at_JobID = jobID,
                    at_Attempt = attemptNum, at_WorkerID = workerID, at_State = attemptState,
                    at_Error = o_Error o', at_StartedAt = o_StartedAt o', at_FinishedAt = o_FinishedAt o'\<rparr>) s
                  else s);
            r1 = (if record then r\<lparr>r_attempt := attemptNum\<rparr> else r);
            r2 = r1\<lparr>r_state := applied, r_lastError := o_Error o'\<rparr>;
            r3 = (if applied = StatePending \<or> applied = StateAvailable
                  then r2\<lparr>AvailableAt := o_AvailableAt o'\<rparr> else r2);
            r4 = r3\<lparr>r_lockedBy := [], r_lockedUntil := zeroTime, r_cancelRequested := False\<rparr>;
            r5 = (if now > r_updatedAt r4 then r4\<lparr>r_updatedAt := now\<rparr> else r4);
            s2 = put_row r5 s1
        in (Inr applied, if Terminal applied then freeUniq r5 s2 else s2)))"

definition lease_expired :: "time \<Rightarrow> mem_row \<Rightarrow> bool" where
  "lease_expired now r \<longleftrightarrow>
    \<not> (r_state r \<noteq> StateRunning \<or> isZero (r_lockedUntil r) \<or> r_lockedUntil r > now)"

definition sweep_row :: "(nat \<Rightarrow> string) \<Rightarrow> time \<Rightarrow> mem_row \<Rightarrow> js \<Rightarrow> js" where
  "sweep_row nid now r s =
    (let attemptNum = r_attempt r + 1;
         s1 = add_attempt nid (r_id r) (\<lambda>jid. \<lparr>at_ID = jid, at_JobID = r_id r, at_Attempt = attemptNum,
                at_WorkerID = r_lockedBy r,
                at_State = (if r_cancelRequested r then AttemptCancelled else AttemptFailed),
                at_Error = (if r_cancelRequested r then ''cancelled after lease expiry'' else ''lease expired''),
                at_StartedAt = r_lockedUntil r, at_FinishedAt = now\<rparr>) s;
         r1 = r\<lparr>r_attempt := attemptNum\<rparr>;
         r2 = (if r_cancelRequested r then r1\<lparr>r_state := StateCancelled, r_lastError := ''cancelled''\<rparr>
               else if attemptNum \<ge> MaxAttempts r
                 then r1\<lparr>r_state := StateDiscarded, r_lastError := ''lease expired''\<rparr>
               else r1\<lparr>r_state := StateAvailable, AvailableAt := now\<rparr>);
         r3 = r2\<lparr>r_lockedBy := [], r_lockedUntil := zeroTime, r_cancelRequested := False, r_updatedAt := now\<rparr>;
         s2 = put_row r3 s1
     in if r_cancelRequested r \<or> attemptNum \<ge> MaxAttempts r then freeUniq r3 s2 else s2)"

fun sweep_loop :: "(nat \<Rightarrow> string) \<Rightarrow> time \<Rightarrow> mem_row list \<Rightarrow> int \<Rightarrow> js \<Rightarrow> int \<times> js" where
  "sweep_loop nid now [] count s = (count, s)"
| "sweep_loop nid now (r # rs) count s =
    (if lease_expired now r then sweep_loop nid now rs (count + 1) (sweep_row nid now r s)
     else sweep_loop nid now rs count s)"

definition js_SweepExpired :: "(nat \<Rightarrow> string) \<Rightarrow> time \<Rightarrow> js \<Rightarrow> int \<times> js" where
  "js_SweepExpired nid now s = sweep_loop nid now (map snd (js_rows s)) 0 s"

definition toInfo :: "mem_row \<Rightarrow> job_info" where
  "toInfo r = \<lparr>ji_ID = r_id r, ji_Kind = Kind r, ji_HandlerID = HandlerID r, ji_Queue = Queue r,
     ji_Priority = Priority r, ji_State = r_state r, ji_Attempt = r_attempt r, ji_MaxAttempts = MaxAttempts r,
     ji_AvailableAt = AvailableAt r, ji_Timeout = wrap64 (TimeoutMs r * 1000000), ji_UniqueKey = UniqueKey r,
     ji_Payload = Payload r, ji_Error = r_lastError r, ji_CancelRequested = r_cancelRequested r,
     ji_ScheduledFor = ScheduledFor r, ji_ScheduledForSet = ScheduledForSet r,
     ji_CreatedAt = r_createdAt r, ji_UpdatedAt = r_updatedAt r\<rparr>"

definition js_Get :: "string \<Rightarrow> js \<Rightarrow> jobs_error + job_info" where
  "js_Get jid s = (case map_of (js_rows s) jid of None \<Rightarrow> Inl ErrNotFound | Some r \<Rightarrow> Inr (toInfo r))"

definition rowMatches :: "mem_row \<Rightarrow> list_filter \<Rightarrow> bool" where
  "rowMatches r f \<longleftrightarrow>
    (lf_Queues f \<noteq> [] \<longrightarrow> Queue r \<in> set (lf_Queues f)) \<and>
    (lf_Kinds f \<noteq> [] \<longrightarrow> Kind r \<in> set (lf_Kinds f)) \<and>
    (lf_States f \<noteq> [] \<longrightarrow> r_state r \<in> set (lf_States f))"

definition before_cursor :: "time \<Rightarrow> string \<Rightarrow> mem_row \<Rightarrow> bool" where
  "before_cursor cursorTime cursorID r \<longleftrightarrow>
    r_createdAt r < cursorTime \<or> r_createdAt r = cursorTime \<and> r_id r \<le> cursorID"

definition list_order :: "mem_row \<Rightarrow> time \<times> string" where
  "list_order r = (r_createdAt r, r_id r)"

definition js_List :: "list_filter \<Rightarrow> js \<Rightarrow> jobs_error + job_info list \<times> string" where
  "js_List f s =
    (case DecodeCursor (lf_Cursor f) of Inl e \<Rightarrow> Inl e
     | Inr (cursorTime, cursorID) \<Rightarrow>
       (let lim = nat (NormalizeLimit (lf_Limit f));
            match = sort_key list_order (filter (\<lambda>r. rowMatches r f \<and>
              \<not> (lf_Cursor f \<noteq> [] \<and> before_cursor cursorTime cursorID r)) (map snd (js_rows s)))
        in if length match > lim
           then (let final = match ! (lim - 1)
                 in Inr (map toInfo (take lim match), EncodeCursor (r_createdAt final) (r_id final)))
           else Inr (map toInfo match, [])))"

fun attempts_loop :: "int \<Rightarrow> int \<Rightarrow> attempt_row list \<Rightarrow> attempt_row list \<Rightarrow> attempt_row list" where
  "attempts_loop after lim [] out = out"
| "attempts_loop after lim (a # as) out =
    (if at_Attempt a \<le> after then attempts_loop after lim as out
     else if lim > 0 \<and> int (length (out @ [a])) \<ge> lim then out @ [a]
     else attempts_loop after lim as (out @ [a]))"

definition js_ListAttempts :: "string \<Rightarrow> int \<Rightarrow> int \<Rightarrow> js \<Rightarrow> attempt_row list" where
  "js_ListAttempts jobID after lim s =
    sort_key at_Attempt (attempts_loop after lim
      (case map_of (js_attempts s) jobID of None \<Rightarrow> [] | Some xs \<Rightarrow> xs) [])"

definition js_Retry :: "string \<Rightarrow> time \<Rightarrow> js \<Rightarrow> jobs_error option \<times> js" where
  "js_Retry jobID now s =
    (case map_of (js_rows s) jobID of None \<Rightarrow> (Some ErrNotFound, s)
     | Some r \<Rightarrow>
       if \<not> Terminal (r_state r) \<or> r_state r = StateSucceeded then (Some ErrJobNotRetryable, s)
       else (case (case live_holder s r of Some (holder, _) \<Rightarrow> if holder \<noteq> r_id r then Some holder else None
                   | None \<Rightarrow> None) of
          Some holder \<Rightarrow> (Some (DuplicateError holder (Kind r) (HandlerID r) (UniqueKey r)), s)
        | None \<Rightarrow>
          (let r1 = (if r_attempt r \<ge> MaxAttempts r then r\<lparr>MaxAttempts := r_attempt r + 1\<rparr> else r);
               r2 = r1\<lparr>r_state := StateAvailable, AvailableAt := now, r_lastError := [], r_lockedBy := [],
                       r_lockedUntil := zeroTime, r_cancelRequested := False, r_updatedAt := now\<rparr>;
               s1 = put_row r2 s
           in (None, if UniqueKey r \<noteq> [] then s1\<lparr>js_uniq := goput (row_key r) (r_id r) (js_uniq s1)\<rparr> else s1))))"

definition js_Cancel :: "string \<Rightarrow> time \<Rightarrow> js \<Rightarrow> (jobs_error + bool) \<times> js" where
  "js_Cancel jobID now s =
    (case map_of (js_rows s) jobID of None \<Rightarrow> (Inl ErrNotFound, s)
     | Some r \<Rightarrow>
       if Terminal (r_state r) then (Inl ErrJobTerminal, s)
       else if r_state r = StateRunning
         then (Inr False, put_row (r\<lparr>r_cancelRequested := True, r_updatedAt := now\<rparr>) s)
       else (let r1 = r\<lparr>r_state := StateCancelled, r_updatedAt := now\<rparr>
             in (Inr True, freeUniq r1 (put_row r1 s))))"

definition js_Delete :: "string \<Rightarrow> js \<Rightarrow> jobs_error option \<times> js" where
  "js_Delete jobID s =
    (case map_of (js_rows s) jobID of None \<Rightarrow> (Some ErrNotFound, s)
     | Some r \<Rightarrow>
       if r_state r = StateRunning then (Some ErrJobRunning, s)
       else (None, freeUniq r (s\<lparr>js_rows := godel jobID (js_rows s), js_attempts := godel jobID (js_attempts s)\<rparr>)))"

definition js_UpsertWorker :: "worker_row \<Rightarrow> js \<Rightarrow> js" where
  "js_UpsertWorker w s =
    (let cp = (case map_of (js_workers s) (wr_ID w) of Some prev \<Rightarrow> w\<lparr>wr_StartedAt := wr_StartedAt prev\<rparr>
               | None \<Rightarrow> w)
     in s\<lparr>js_workers := goput (wr_ID w) cp (js_workers s)\<rparr>)"

definition js_RetireWorker :: "string \<Rightarrow> js \<Rightarrow> js" where
  "js_RetireWorker workerID s = s\<lparr>js_workers := godel workerID (js_workers s)\<rparr>"

definition js_ListWorkers :: "js \<Rightarrow> worker_row list" where
  "js_ListWorkers s = sort_key wr_StartedAt (map snd (js_workers s))"

definition js_SweepStaleWorkers :: "time \<Rightarrow> js \<Rightarrow> int \<times> js" where
  "js_SweepStaleWorkers olderThan s =
    (let kept = filter (\<lambda>(k, w). \<not> (\<not> isZero (wr_LastSeenAt w) \<and> wr_LastSeenAt w < olderThan)) (js_workers s)
     in (int (length (js_workers s)) - int (length kept), s\<lparr>js_workers := kept\<rparr>))"

text \<open>\<open>ListQueues\<close>: a queue's counts, state by state.\<close>

definition state_counts :: "mem_row list \<Rightarrow> state \<Rightarrow> int" where
  "state_counts rs st = int (length (filter (\<lambda>r. r_state r = st) rs))"

definition js_ListQueues :: "js \<Rightarrow> (string \<times> (state \<Rightarrow> int)) list" where
  "js_ListQueues s =
    map (\<lambda>q. (q, state_counts (filter (\<lambda>r. Queue r = q) (map snd (js_rows s)))))
      (sort (remdups (map (\<lambda>p. Queue (snd p)) (js_rows s))))"

definition js_UpsertSchedule :: "schedule_row \<Rightarrow> js \<Rightarrow> js" where
  "js_UpsertSchedule row s =
    (let key = schedKey (sr_Group row) (sr_Name row);
         cp = (case map_of (js_schedules s) key of
                 Some prev \<Rightarrow>
                   (let cp = row\<lparr>sr_LastRunAt := sr_LastRunAt prev, sr_LastRunSet := sr_LastRunSet prev\<rparr>
                    in if sr_Spec prev = sr_Spec row then cp\<lparr>sr_NextRunAt := sr_NextRunAt prev\<rparr> else cp)
               | None \<Rightarrow> row\<lparr>sr_LastRunSet := False\<rparr>)
     in s\<lparr>js_schedules := goput key cp (js_schedules s)\<rparr>)"

definition js_DeleteSchedule :: "string \<Rightarrow> string \<Rightarrow> js \<Rightarrow> js" where
  "js_DeleteSchedule grp name s = s\<lparr>js_schedules := godel (schedKey grp name) (js_schedules s)\<rparr>"

definition js_ListSchedules :: "string \<Rightarrow> js \<Rightarrow> schedule_row list" where
  "js_ListSchedules grp s = sort_key sr_Name (filter (\<lambda>r. sr_Group r = grp) (map snd (js_schedules s)))"

definition js_DueSchedules :: "string \<Rightarrow> time \<Rightarrow> js \<Rightarrow> schedule_row list" where
  "js_DueSchedules grp now s = sort_key sr_Name
    (filter (\<lambda>r. sr_Group r = grp \<and> \<not> isZero (sr_NextRunAt r) \<and> \<not> sr_NextRunAt r > now) (map snd (js_schedules s)))"

definition js_FireSchedule :: "(nat \<Rightarrow> string) \<Rightarrow> schedule_fire \<Rightarrow> js \<Rightarrow>
    (jobs_error + bool \<times> insert_result list) \<times> js" where
  "js_FireSchedule nid f s =
    (let key = schedKey (sf_Group f) (sf_Name f)
     in case map_of (js_schedules s) key of None \<Rightarrow> (Inl ErrNotFound, s)
     | Some sched \<Rightarrow>
       if sr_LastRunSet sched \<noteq> (sf_ExpectedLastRun f \<noteq> None) \<or>
          (case sf_ExpectedLastRun f of Some t \<Rightarrow> sr_LastRunAt sched \<noteq> t | None \<Rightarrow> False)
       then (Inr (False, []), s)
       else (let (results, s1) = insertLocked nid (sf_Now f) (sf_Jobs f) s;
                 sched' = sched\<lparr>sr_LastRunAt := sf_NewLastRun f, sr_LastRunSet := \<not> isZero (sf_NewLastRun f),
                                sr_NextRunAt := sf_NewNextRun f, sr_UpdatedAt := sf_Now f\<rparr>
             in (Inr (True, results), s1\<lparr>js_schedules := goput key sched' (js_schedules s1)\<rparr>)))"

end
