(* ===== verification/JobLife.thy ===== *)
theory JobLife
  imports JobStore
begin

text \<open>
  What the in-process job store guarantees about the life of a job, whatever sequence of
  operations callers run on it: live unique keys, exact claiming, exclusive leases, cancellation,
  terminal states, lease recovery, the attempt ledger and the schedule's compare-and-swap.
\<close>

section \<open>Operations as data\<close>

datatype js_op =
    OInsert time "job list"
  | OClaim claim_request
  | OHeartbeat string string time time
  | OComplete string string time job_outcome
  | OSweepExpired time
  | ORetry string time
  | OCancel string time
  | ODelete string
  | OFireSchedule schedule_fire
  | OUpsertWorker worker_row
  | ORetireWorker string
  | OSweepStaleWorkers time
  | OUpsertSchedule schedule_row
  | ODeleteSchedule string string

fun js_step :: "(nat \<Rightarrow> string) \<Rightarrow> js_op \<Rightarrow> js \<Rightarrow> js" where
  "js_step nid (OInsert now jobs) s = snd (js_Insert nid now jobs s)"
| "js_step nid (OClaim req) s = snd (js_Claim req s)"
| "js_step nid (OHeartbeat j w now until) s = snd (js_Heartbeat j w now until s)"
| "js_step nid (OComplete j w now o') s = snd (js_Complete nid j w now o' s)"
| "js_step nid (OSweepExpired now) s = snd (js_SweepExpired nid now s)"
| "js_step nid (ORetry j now) s = snd (js_Retry j now s)"
| "js_step nid (OCancel j now) s = snd (js_Cancel j now s)"
| "js_step nid (ODelete j) s = snd (js_Delete j s)"
| "js_step nid (OFireSchedule f) s = snd (js_FireSchedule nid f s)"
| "js_step nid (OUpsertWorker w) s = js_UpsertWorker w s"
| "js_step nid (ORetireWorker w) s = js_RetireWorker w s"
| "js_step nid (OSweepStaleWorkers t) s = snd (js_SweepStaleWorkers t s)"
| "js_step nid (OUpsertSchedule r) s = js_UpsertSchedule r s"
| "js_step nid (ODeleteSchedule g n) s = js_DeleteSchedule g n s"

abbreviation js_run :: "(nat \<Rightarrow> string) \<Rightarrow> js_op list \<Rightarrow> js \<Rightarrow> js" where
  "js_run nid ops s \<equiv> fold (js_step nid) ops s"

abbreviation row :: "js \<Rightarrow> string \<Rightarrow> mem_row option" where
  "row s \<equiv> map_of (js_rows s)"

section \<open>What the helpers touch\<close>

lemma freeUniq_frame [frame_simps]:
  "js_rows (freeUniq r s) = js_rows s" "js_attempts (freeUniq r s) = js_attempts s"
  "js_schedules (freeUniq r s) = js_schedules s" "js_ids (freeUniq r s) = js_ids s"
  by (simp_all add: freeUniq_def split: option.splits)

lemma put_row_frame [frame_simps]:
  "row (put_row r s) = (row s)(r_id r \<mapsto> r)" "js_uniq (put_row r s) = js_uniq s"
  "js_attempts (put_row r s) = js_attempts s" "js_schedules (put_row r s) = js_schedules s"
  "js_ids (put_row r s) = js_ids s"
  by (simp_all add: put_row_def)

lemma add_attempt_frame [frame_simps]:
  "js_rows (add_attempt nid j mk s) = js_rows s" "js_uniq (add_attempt nid j mk s) = js_uniq s"
  "js_schedules (add_attempt nid j mk s) = js_schedules s" "js_ids (add_attempt nid j mk s) = js_ids s + 1"
  by (simp_all add: add_attempt_def)

lemma new_row_fields [simp]:
  "r_id (new_row j i st now) = i" "r_state (new_row j i st now) = st" "Kind (new_row j i st now) = Kind j"
  "HandlerID (new_row j i st now) = HandlerID j" "UniqueKey (new_row j i st now) = UniqueKey j"
  "r_attempt (new_row j i st now) = 0" "r_lockedBy (new_row j i st now) = []"
  "r_cancelRequested (new_row j i st now) = False" "r_lockedUntil (new_row j i st now) = zeroTime"
  by (simp_all add: new_row_def job.extend_def)

lemma lease_row_fields [simp]:
  "r_id (lease_row req r) = r_id r" "r_state (lease_row req r) = StateRunning"
  "Kind (lease_row req r) = Kind r" "HandlerID (lease_row req r) = HandlerID r"
  "UniqueKey (lease_row req r) = UniqueKey r" "r_attempt (lease_row req r) = r_attempt r"
  "r_cancelRequested (lease_row req r) = r_cancelRequested r"
  "r_lockedBy (lease_row req r) = cr_WorkerID req"
  "r_lockedUntil (lease_row req r) = cr_Now req + cr_Lease req"
  by (simp_all add: lease_row_def)

lemma Terminal_simps [simp]:
  "\<not> Terminal StateAvailable" "\<not> Terminal StatePending" "\<not> Terminal StateRunning"
  "Terminal StateSucceeded" "Terminal StateFailed" "Terminal StateCancelled" "Terminal StateDiscarded"
  by (simp_all add: Terminal_def)

section \<open>The invariant\<close>

text \<open>Rows are stored under their own id, drawn from \<open>NewID\<close>; the index of unique keys is exactly
  the set of live jobs that have one.\<close>

definition live_keyed :: "mem_row \<Rightarrow> bool" where
  "live_keyed r \<longleftrightarrow> \<not> Terminal (r_state r) \<and> UniqueKey r \<noteq> []"

definition js_inv :: "(nat \<Rightarrow> string) \<Rightarrow> js \<Rightarrow> bool" where
  "js_inv nid s \<longleftrightarrow> gomap_wf (js_rows s) \<and>
    (\<forall>i r. row s i = Some r \<longrightarrow> r_id r = i \<and> (\<exists>n < js_ids s. i = nid n)) \<and>
    (\<forall>i r. row s i = Some r \<longrightarrow> live_keyed r \<longrightarrow> map_of (js_uniq s) (row_key r) = Some i) \<and>
    (\<forall>k i. map_of (js_uniq s) k = Some i \<longrightarrow> (\<exists>r. row s i = Some r \<and> live_keyed r \<and> row_key r = k))"

lemma js_invD:
  assumes "js_inv nid s"
  shows "gomap_wf (js_rows s)"
    "row s i = Some r \<Longrightarrow> r_id r = i" "row s i = Some r \<Longrightarrow> \<exists>n < js_ids s. i = nid n"
    "row s i = Some r \<Longrightarrow> live_keyed r \<Longrightarrow> map_of (js_uniq s) (row_key r) = Some i"
    "map_of (js_uniq s) k = Some i \<Longrightarrow> \<exists>r. row s i = Some r \<and> live_keyed r \<and> row_key r = k"
  using assms unfolding js_inv_def by blast+

lemma js_invI:
  assumes "gomap_wf (js_rows s)"
    "\<And>i r. row s i = Some r \<Longrightarrow> r_id r = i \<and> (\<exists>n < js_ids s. i = nid n)"
    "\<And>i r. row s i = Some r \<Longrightarrow> live_keyed r \<Longrightarrow> map_of (js_uniq s) (row_key r) = Some i"
    "\<And>k i. map_of (js_uniq s) k = Some i \<Longrightarrow> \<exists>r. row s i = Some r \<and> live_keyed r \<and> row_key r = k"
  shows "js_inv nid s"
  using assms unfolding js_inv_def by blast

lemma js_inv_New: "js_inv nid js_New"
  by (simp add: js_inv_def js_New_def)

text \<open>The invariant depends on the rows, the index and a lower bound of the ids drawn.\<close>

lemma js_inv_cong:
  assumes "js_inv nid s" "js_rows s' = js_rows s" "js_uniq s' = js_uniq s" "js_ids s \<le> js_ids s'"
  shows "js_inv nid s'"
proof (rule js_invI)
  show "r_id r = i \<and> (\<exists>n < js_ids s'. i = nid n)" if "row s' i = Some r" for i r
    using that js_invD(2,3) [OF assms(1), of i r] assms(2,4) by (metis less_le_trans)
qed (use js_invD(1,4,5) [OF assms(1)] assms(2,3) in simp_all)

lemma inv_put_same:
  assumes "js_inv nid s" "row s (r_id r') = Some r" "row_key r' = row_key r" "UniqueKey r' = UniqueKey r"
    "Terminal (r_state r') = Terminal (r_state r)"
  shows "js_inv nid (put_row r' s)"
proof -
  have lk: "live_keyed r' = live_keyed r" using assms(4,5) by (simp add: live_keyed_def)
  show ?thesis
  proof (rule js_invI)
    show "gomap_wf (js_rows (put_row r' s))"
      using js_invD(1) [OF assms(1)] by (simp add: put_row_def gomap_wf_intros)
    show "r_id x = i \<and> (\<exists>n < js_ids (put_row r' s). i = nid n)" if "row (put_row r' s) i = Some x" for i x
      using that js_invD(2,3) [OF assms(1), of i] assms(2) by (auto simp: frame_simps split: if_splits)
    show "map_of (js_uniq (put_row r' s)) (row_key x) = Some i"
      if "row (put_row r' s) i = Some x" "live_keyed x" for i x
      using that js_invD(4) [OF assms(1)] assms(2,3) lk by (auto simp: frame_simps split: if_splits)
    show "\<exists>x. row (put_row r' s) i = Some x \<and> live_keyed x \<and> row_key x = k"
      if "map_of (js_uniq (put_row r' s)) k = Some i" for k i
      using js_invD(5) [OF assms(1), of k i] that assms(2,3) lk by (auto simp: frame_simps)
  qed
qed

text \<open>A row that becomes terminal gives its unique key back.\<close>

lemma inv_put_dead:
  assumes "js_inv nid s" "row s (r_id r') = Some r" "row_key r' = row_key r" "UniqueKey r' = UniqueKey r"
    "Terminal (r_state r')"
  shows "js_inv nid (freeUniq r' (put_row r' s))" (is "js_inv nid ?s")
proof -
  have dead: "\<not> live_keyed r'" using assms(5) by (simp add: live_keyed_def)
  have uq: "map_of (js_uniq ?s) k = (if map_of (js_uniq s) k = Some (r_id r') then None else map_of (js_uniq s) k)" for k
  proof (cases "map_of (js_uniq s) k = Some (r_id r')")
    case True
    from js_invD(5) [OF assms(1) True] assms(2) have "live_keyed r" "row_key r = k" by auto
    with True assms(3,4) show ?thesis by (simp add: freeUniq_def frame_simps live_keyed_def)
  next
    case False
    then show ?thesis by (auto simp: freeUniq_def frame_simps split: option.splits)
  qed
  show ?thesis
  proof (rule js_invI)
    show "gomap_wf (js_rows ?s)"
      using js_invD(1) [OF assms(1)] by (simp add: frame_simps put_row_def gomap_wf_intros)
    show "r_id x = i \<and> (\<exists>n < js_ids ?s. i = nid n)" if "row ?s i = Some x" for i x
      using that js_invD(2,3) [OF assms(1), of i] assms(2) by (auto simp: frame_simps split: if_splits)
    show "map_of (js_uniq ?s) (row_key x) = Some i" if "row ?s i = Some x" "live_keyed x" for i x
      using that js_invD(4) [OF assms(1)] dead by (auto simp: frame_simps uq split: if_splits)
    show "\<exists>x. row ?s i = Some x \<and> live_keyed x \<and> row_key x = k" if "map_of (js_uniq ?s) k = Some i" for k i
      using that js_invD(5) [OF assms(1), of k i] by (auto simp: uq frame_simps split: if_splits)
  qed
qed

lemma live_holder_None:
  assumes "js_inv nid s" "live_holder s j = None" "UniqueKey j \<noteq> []"
  shows "map_of (js_uniq s) (row_key j) = None"
proof (rule ccontr)
  assume "\<not> ?thesis"
  then obtain i where i: "map_of (js_uniq s) (row_key j) = Some i" by auto
  from js_invD(5) [OF assms(1) i] obtain r where "row s i = Some r" "live_keyed r" by blast
  with i assms(2,3) show False by (simp add: live_holder_def live_keyed_def)
qed

lemma live_holder_Some:
  assumes "js_inv nid s" "live_holder s j = Some (i, r)"
  shows "row s i = Some r" "live_keyed r" "row_key r = row_key j"
proof -
  have a: "map_of (js_uniq s) (row_key j) = Some i" "row s i = Some r"
    using assms(2) by (auto simp: live_holder_def split: if_splits option.splits)
  with js_invD(5) [OF assms(1) a(1)] show "row s i = Some r" "live_keyed r" "row_key r = row_key j" by auto
qed

text \<open>A live row enters the store under a key nobody holds.\<close>

lemma inv_put_live:
  assumes "js_inv nid s" "\<not> Terminal (r_state r')" "\<exists>n < js_ids s. r_id r' = nid n"
    "UniqueKey r' \<noteq> [] \<Longrightarrow> map_of (js_uniq s) (row_key r') = None"
    "\<And>r. row s (r_id r') = Some r \<Longrightarrow> \<not> live_keyed r"
  shows "js_inv nid (if UniqueKey r' \<noteq> [] then (put_row r' s)\<lparr>js_uniq := goput (row_key r') (r_id r') (js_uniq s)\<rparr>
    else put_row r' s)" (is "js_inv nid ?s")
proof (rule js_invI)
  have r: "js_rows ?s = js_rows (put_row r' s)" "js_ids ?s = js_ids s"
    and u: "map_of (js_uniq ?s) = (if UniqueKey r' \<noteq> [] then (map_of (js_uniq s))(row_key r' \<mapsto> r_id r') else map_of (js_uniq s))"
    by (simp_all add: frame_simps)
  show "gomap_wf (js_rows ?s)" unfolding r
    using js_invD(1) [OF assms(1)] by (simp add: put_row_def gomap_wf_intros)
  show "r_id x = i \<and> (\<exists>n < js_ids ?s. i = nid n)" if "row ?s i = Some x" for i x
    using that js_invD(2,3) [OF assms(1), of i] assms(3) unfolding r by (auto simp: frame_simps split: if_splits)
  show "map_of (js_uniq ?s) (row_key x) = Some i" if "row ?s i = Some x" "live_keyed x" for i x
  proof (cases "i = r_id r'")
    case True
    then have "x = r'" using that(1) unfolding r by (simp add: frame_simps)
    then show ?thesis using True that(2) by (simp add: u live_keyed_def)
  next
    case False
    then have x: "row s i = Some x" using that(1) unfolding r by (simp add: frame_simps)
    from js_invD(4) [OF assms(1) x that(2)] assms(4) show ?thesis by (auto simp: u)
  qed
  show "\<exists>x. row ?s i = Some x \<and> live_keyed x \<and> row_key x = k" if k: "map_of (js_uniq ?s) k = Some i" for k i
  proof (cases "UniqueKey r' \<noteq> [] \<and> k = row_key r'")
    case True
    then show ?thesis using k assms(2) unfolding r by (auto simp: u frame_simps live_keyed_def)
  next
    case False
    then have "map_of (js_uniq s) k = Some i" using k by (auto simp: u split: if_splits)
    from js_invD(5) [OF assms(1) this] assms(5) show ?thesis unfolding r by (auto simp: frame_simps)
  qed
qed

lemma inv_insert_one:
  assumes "js_inv nid s" "inj nid"
  shows "js_inv nid (snd (insert_one nid now j s))"
proof (cases "live_holder s j")
  case (Some p)
  then show ?thesis using assms(1) by (cases p) (simp add: insert_one_def)
next
  case None
  define st where "st = (if AvailableAt j > now then StatePending else StateAvailable)"
  define r where "r = new_row j (nid (js_ids s)) st now"
  define s0 where "s0 = s\<lparr>js_ids := js_ids s + 1\<rparr>"
  have i0: "js_inv nid s0" by (rule js_inv_cong [OF assms(1)]) (simp_all add: s0_def)
  have fresh: "row s (nid (js_ids s)) = None"
  proof (cases "row s (nid (js_ids s))")
    case (Some x)
    with js_invD(3) [OF assms(1) Some] assms(2) show ?thesis by (auto dest: injD)
  qed simp
  have k: "UniqueKey r \<noteq> [] \<Longrightarrow> map_of (js_uniq s0) (row_key r) = None"
    using live_holder_None [OF assms(1) None] by (simp add: r_def s0_def)
  have "js_inv nid (if UniqueKey r \<noteq> [] then (put_row r s0)\<lparr>js_uniq := goput (row_key r) (r_id r) (js_uniq s0)\<rparr>
    else put_row r s0)"
    using fresh by (intro inv_put_live [OF i0 _ _ k]) (auto simp: r_def s0_def st_def)
  moreover have "snd (insert_one nid now j s) =
    (if UniqueKey r \<noteq> [] then (put_row r s0)\<lparr>js_uniq := goput (row_key r) (r_id r) (js_uniq s0)\<rparr> else put_row r s0)"
    using None by (simp add: insert_one_def r_def s0_def st_def Let_def put_row_def)
  ultimately show ?thesis by simp
qed

lemma inv_insertLocked:
  "js_inv nid s \<Longrightarrow> inj nid \<Longrightarrow> js_inv nid (snd (insertLocked nid now jobs s))"
proof (induction jobs arbitrary: s)
  case (Cons j js)
  then show ?case using inv_insert_one [OF Cons.prems, of now j]
    by (simp add: Let_def case_prod_unfold)
qed simp

section \<open>Claiming\<close>

text \<open>The rows a claim takes, in order, separated from what it does to them.\<close>

fun claim_pick :: "claim_request \<Rightarrow> nat \<Rightarrow> mem_row list \<Rightarrow> (string \<Rightarrow> int) \<Rightarrow> mem_row list" where
  "claim_pick req room [] perQueue = []"
| "claim_pick req room (r # rs) perQueue =
    (if room = 0 then []
     else if queue_full req perQueue r then claim_pick req room rs perQueue
     else r # claim_pick req (room - 1) rs (perQueue (Queue r := perQueue (Queue r) + 1)))"

definition candidates :: "claim_request \<Rightarrow> js \<Rightarrow> mem_row list" where
  "candidates req s = sort_key claim_order (filter (claimable req) (map snd (js_rows s)))"

definition claim_room :: "claim_request \<Rightarrow> nat" where
  "claim_room req = nat (if cr_Limit req \<le> 0 then 1 else cr_Limit req)"

definition picked :: "claim_request \<Rightarrow> js \<Rightarrow> mem_row list" where
  "picked req s = (if cr_WorkerID req = [] \<or> cr_Handlers req = [] then []
     else claim_pick req (claim_room req) (candidates req s) (\<lambda>_. 0))"

lemma claim_loop_pick:
  "claim_loop req room rs pq s = (map (claimed req) (claim_pick req room rs pq),
    fold (\<lambda>r. put_row (lease_row req r)) (claim_pick req room rs pq) s)"
  by (induction rs arbitrary: room pq s) (auto simp: Let_def)

lemma js_Claim_picked:
  "js_Claim req s = (map (claimed req) (picked req s), fold (\<lambda>r. put_row (lease_row req r)) (picked req s) s)"
  by (simp add: js_Claim_def picked_def claim_loop_pick candidates_def claim_room_def Let_def)

lemma claim_pick_set: "set (claim_pick req room rs pq) \<subseteq> set rs"
proof (induction rs arbitrary: room pq)
  case (Cons r rs)
  then show ?case by (simp add: subset_insertI2)
qed simp

lemma picked_rows:
  assumes "js_inv nid s" "r \<in> set (picked req s)"
  shows "row s (r_id r) = Some r" "claimable req r" "cr_WorkerID req \<noteq> []"
proof -
  have c: "r \<in> set (candidates req s)" and w: "cr_WorkerID req \<noteq> []"
    using assms(2) claim_pick_set [of req] by (auto simp: picked_def split: if_splits)
  then obtain i where "(i, r) \<in> set (js_rows s)" and cl: "claimable req r" by (auto simp: candidates_def)
  then have i: "row s i = Some r" using js_invD(1) [OF assms(1)] by simp
  with js_invD(2) [OF assms(1) i] show "row s (r_id r) = Some r" by simp
  show "claimable req r" "cr_WorkerID req \<noteq> []" by (rule cl, rule w)
qed

lemma fold_lease_rows:
  "row (fold (\<lambda>r. put_row (lease_row req r)) rs s) i =
    (if i \<in> r_id ` set rs then map_option (lease_row req) (find (\<lambda>r. r_id r = i) (rev rs)) else row s i)"
proof (induction rs arbitrary: s)
  case (Cons r rs)
  show ?case
  proof (cases "i \<in> r_id ` set rs")
    case True
    then have "find (\<lambda>r. r_id r = i) (rev rs @ [r]) = find (\<lambda>r. r_id r = i) (rev rs)"
      by (induction rs rule: rev_induct) auto
    with True Cons show ?thesis by simp
  next
    case False
    then have "find (\<lambda>r. r_id r = i) (rev rs @ [r]) = (if r_id r = i then Some r else None)"
      by (induction rs rule: rev_induct) auto
    with False Cons show ?thesis by (auto simp: frame_simps)
  qed
qed simp

lemma Claim_row:
  assumes "js_inv nid s"
  shows "row (snd (js_Claim req s)) i =
    (if i \<in> r_id ` set (picked req s) then map_option (lease_row req) (row s i) else row s i)"
proof (cases "i \<in> r_id ` set (picked req s)")
  case True
  then obtain r where r: "find (\<lambda>r. r_id r = i) (rev (picked req s)) = Some r"
    by (metis (mono_tags, lifting) find_None_iff image_iff option.exhaust set_rev)
  then have "r \<in> set (rev (picked req s))" "r_id r = i"
    unfolding find_Some_iff by (metis nth_mem)+
  then have "r \<in> set (picked req s)" "r_id r = i" by simp_all
  then have "row s i = Some r" using picked_rows(1) [OF assms] by metis
  with True r show ?thesis by (simp add: js_Claim_picked fold_lease_rows)
next
  case False
  then show ?thesis by (simp add: js_Claim_picked fold_lease_rows)
qed

lemma inv_fold_lease:
  assumes "js_inv nid s" "\<And>r. r \<in> set rs \<Longrightarrow> row s (r_id r) = Some r \<and> \<not> Terminal (r_state r)" "distinct (map r_id rs)"
  shows "js_inv nid (fold (\<lambda>r. put_row (lease_row req r)) rs s)"
  using assms
proof (induction rs arbitrary: s)
  case (Cons r rs)
  have r: "row s (r_id r) = Some r" "\<not> Terminal (r_state r)" using Cons.prems(2) by auto
  have i: "js_inv nid (put_row (lease_row req r) s)"
    using r by (intro inv_put_same [OF Cons.prems(1)]) (auto simp: lease_row_fields)
  have "row (put_row (lease_row req r) s) (r_id x) = Some x \<and> \<not> Terminal (r_state x)" if "x \<in> set rs" for x
  proof -
    have "r_id x \<noteq> r_id r" using Cons.prems(3) that by (metis distinct.simps(2) image_eqI list.simps(9) set_map)
    then show ?thesis using Cons.prems(2) that by (simp add: frame_simps)
  qed
  with Cons.IH [OF i] Cons.prems(3) show ?case by simp
qed simp

lemma candidates_distinct:
  assumes "js_inv nid s"
  shows "distinct (map r_id (candidates req s))"
proof -
  have "r_id (snd p) = fst p" if "p \<in> set (js_rows s)" for p
    using js_invD(2) [OF assms, of "fst p" "snd p"] map_of_in_set [OF js_invD(1) [OF assms], of "fst p" "snd p"] that
    by simp
  then have "map r_id (map snd (js_rows s)) = map fst (js_rows s)" by simp
  then have "distinct (map r_id (map snd (js_rows s)))" using js_invD(1) [OF assms] by (simp only:)
  then have "distinct (map r_id (filter (claimable req) (map snd (js_rows s))))" by (rule distinct_map_filter)
  then show ?thesis by (simp add: candidates_def distinct_map)
qed

lemma claim_pick_subseq: "distinct (map f rs) \<Longrightarrow> distinct (map f (claim_pick req room rs pq))"
proof (induction rs arbitrary: room pq)
  case (Cons r rs)
  let ?pq = "pq (Queue r := pq (Queue r) + 1)"
  have "f r \<notin> f ` set (claim_pick req (room - 1) rs ?pq)"
    using Cons.prems claim_pick_set [of req "room - 1" rs ?pq] by auto
  then show ?case using Cons by simp
qed simp

lemma picked_distinct: "js_inv nid s \<Longrightarrow> distinct (map r_id (picked req s))"
  using candidates_distinct [of nid s req] by (simp add: picked_def claim_pick_subseq)

lemma claimable_not_terminal: "claimable req r \<Longrightarrow> \<not> Terminal (r_state r)"
  by (auto simp: claimable_def)

lemma inv_Claim:
  assumes "js_inv nid s"
  shows "js_inv nid (snd (js_Claim req s))"
  unfolding js_Claim_picked snd_conv
proof (rule inv_fold_lease [OF assms])
  show "row s (r_id r) = Some r \<and> \<not> Terminal (r_state r)" if "r \<in> set (picked req s)" for r
    using picked_rows [OF assms that] claimable_not_terminal by blast
qed (rule picked_distinct [OF assms])

section \<open>The other operations\<close>

lemma leased_row_Some:
  "leased_row j w s = Some r \<longleftrightarrow> row s j = Some r \<and> r_state r = StateRunning \<and> r_lockedBy r = w"
  by (auto simp: leased_row_def split: option.splits if_splits)

lemma inv_Heartbeat: 
  assumes "js_inv nid s"
  shows "js_inv nid (snd (js_Heartbeat j w now until s))"
proof (cases "leased_row j w s")
  case (Some r)
  then have r: "row s j = Some r" "r_id r = j" using js_invD(2) [OF assms] by (auto simp: leased_row_Some)
  show ?thesis using Some r
    by (auto simp: js_Heartbeat_def intro!: inv_put_same [OF assms, of _ r])
qed (simp add: js_Heartbeat_def assms)

text \<open>The row a completion writes.\<close>

definition completed :: "time \<Rightarrow> job_outcome \<Rightarrow> mem_row \<Rightarrow> mem_row" where
  "completed now o' r =
    (let applied = (if r_cancelRequested r then StateCancelled else o_State o');
         record = (o_AttemptState o' \<noteq> AttemptNone \<or> r_cancelRequested r);
         attemptNum = (if r_cancelRequested r \<and> o_AttemptState o' = AttemptNone
                       then r_attempt r + 1 else o_Attempt o')
     in r\<lparr>r_attempt := (if record then attemptNum else r_attempt r), r_state := applied,
          r_lastError := o_Error o',
          AvailableAt := (if applied = StatePending \<or> applied = StateAvailable then o_AvailableAt o' else AvailableAt r),
          r_lockedBy := [], r_lockedUntil := zeroTime, r_cancelRequested := False,
          r_updatedAt := (if now > r_updatedAt r then now else r_updatedAt r)\<rparr>)"

lemma completed_fields [simp]:
  "r_id (completed now o' r) = r_id r" "Kind (completed now o' r) = Kind r"
  "HandlerID (completed now o' r) = HandlerID r" "UniqueKey (completed now o' r) = UniqueKey r"
  "r_state (completed now o' r) = (if r_cancelRequested r then StateCancelled else o_State o')"
  "r_lockedBy (completed now o' r) = []" "r_cancelRequested (completed now o' r) = False"
  "r_lockedUntil (completed now o' r) = zeroTime"
  by (simp_all add: completed_def Let_def)

definition completion_record :: "job_outcome \<Rightarrow> mem_row \<Rightarrow> bool" where
  "completion_record o' r \<longleftrightarrow> o_AttemptState o' \<noteq> AttemptNone \<or> r_cancelRequested r"

definition ledger :: "js \<Rightarrow> string \<Rightarrow> attempt_row list" where
  "ledger s j = (case map_of (js_attempts s) j of None \<Rightarrow> [] | Some xs \<Rightarrow> xs)"

lemma ledger_add [simp]:
  "ledger (add_attempt nid j mk s) i = (if i = j then ledger s j @ [mk (nid (js_ids s))] else ledger s i)"
  by (simp add: ledger_def add_attempt_def)

lemma ledger_frame [frame_simps]:
  "ledger (put_row r s) = ledger s" "ledger (freeUniq r s) = ledger s"
  by (simp_all add: ledger_def frame_simps fun_eq_iff)

definition completed_attempt :: "string \<Rightarrow> time \<Rightarrow> job_outcome \<Rightarrow> mem_row \<Rightarrow> string \<Rightarrow> attempt_row" where
  "completed_attempt w now o' r i = \<lparr>at_ID = i, at_JobID = r_id r,
     at_Attempt = (if r_cancelRequested r \<and> o_AttemptState o' = AttemptNone then r_attempt r + 1 else o_Attempt o'),
     at_WorkerID = w, at_State = (if r_cancelRequested r then AttemptCancelled else o_AttemptState o'),
     at_Error = o_Error o', at_StartedAt = o_StartedAt o', at_FinishedAt = o_FinishedAt o'\<rparr>"

lemma Complete_eq:
  assumes "leased_row j w s = Some r" "r_id r = j"
  shows "js_Complete nid j w now o' s =
    (Inr (r_state (completed now o' r)),
     let s1 = (if completion_record o' r then add_attempt nid j (completed_attempt w now o' r) s else s);
         s2 = put_row (completed now o' r) s1
     in if Terminal (r_state (completed now o' r)) then freeUniq (completed now o' r) s2 else s2)"
  using assms
  by (cases "r_cancelRequested r"; cases "o_AttemptState o' = AttemptNone"; cases "now > r_updatedAt r";
      cases "o_State o' = StatePending \<or> o_State o' = StateAvailable")
    (simp_all add: js_Complete_def Let_def completed_def completion_record_def completed_attempt_def [abs_def])

lemma Complete_frame:
  assumes "leased_row j w s = Some r" "r_id r = j"
  shows "row (snd (js_Complete nid j w now o' s)) = (row s)(j \<mapsto> completed now o' r)"
    "ledger (snd (js_Complete nid j w now o' s)) i = (if i = j \<and> completion_record o' r
       then ledger s i @ [completed_attempt w now o' r (nid (js_ids s))] else ledger s i)"
  using assms(2) by (simp_all add: Complete_eq [OF assms] Let_def frame_simps)

lemma inv_Complete:
  assumes "js_inv nid s"
  shows "js_inv nid (snd (js_Complete nid j w now o' s))"
proof (cases "leased_row j w s")
  case (Some r)
  then have r: "row s j = Some r" "r_id r = j" "\<not> Terminal (r_state r)"
    using js_invD(2) [OF assms] by (auto simp: leased_row_Some)
  define s1 where "s1 = (if completion_record o' r then add_attempt nid j (completed_attempt w now o' r) s else s)"
  have i1: "js_inv nid s1"
    by (rule js_inv_cong [OF assms]) (simp_all add: s1_def frame_simps)
  have r1: "row s1 (r_id (completed now o' r)) = Some r" using r by (simp add: s1_def frame_simps)
  show ?thesis unfolding Complete_eq [OF Some r(2)] snd_conv Let_def s1_def [symmetric]
    using inv_put_same [OF i1 r1] inv_put_dead [OF i1 r1] r(3) by simp
qed (simp add: js_Complete_def assms)

text \<open>The row a sweep writes for an expired lease.\<close>

definition swept :: "time \<Rightarrow> mem_row \<Rightarrow> mem_row" where
  "swept now r =
    (let r1 = r\<lparr>r_attempt := r_attempt r + 1\<rparr>;
         r2 = (if r_cancelRequested r then r1\<lparr>r_state := StateCancelled, r_lastError := ''cancelled''\<rparr>
               else if r_attempt r + 1 \<ge> MaxAttempts r
                 then r1\<lparr>r_state := StateDiscarded, r_lastError := ''lease expired''\<rparr>
               else r1\<lparr>r_state := StateAvailable, AvailableAt := now\<rparr>)
     in r2\<lparr>r_lockedBy := [], r_lockedUntil := zeroTime, r_cancelRequested := False, r_updatedAt := now\<rparr>)"

lemma swept_fields [simp]:
  "r_id (swept now r) = r_id r" "Kind (swept now r) = Kind r" "HandlerID (swept now r) = HandlerID r"
  "UniqueKey (swept now r) = UniqueKey r" "r_attempt (swept now r) = r_attempt r + 1"
  "r_state (swept now r) = (if r_cancelRequested r then StateCancelled
     else if r_attempt r + 1 \<ge> MaxAttempts r then StateDiscarded else StateAvailable)"
  "r_lockedBy (swept now r) = []" "r_cancelRequested (swept now r) = False"
  "r_lockedUntil (swept now r) = zeroTime" "MaxAttempts (swept now r) = MaxAttempts r"
  "Queue (swept now r) = Queue r" "Priority (swept now r) = Priority r"
  by (simp_all add: swept_def Let_def)

definition swept_attempt :: "time \<Rightarrow> mem_row \<Rightarrow> string \<Rightarrow> attempt_row" where
  "swept_attempt now r i = \<lparr>at_ID = i, at_JobID = r_id r, at_Attempt = r_attempt r + 1,
     at_WorkerID = r_lockedBy r,
     at_State = (if r_cancelRequested r then AttemptCancelled else AttemptFailed),
     at_Error = (if r_cancelRequested r then ''cancelled after lease expiry'' else ''lease expired''),
     at_StartedAt = r_lockedUntil r, at_FinishedAt = now\<rparr>"

lemma sweep_row_eq:
  "sweep_row nid now r s =
    (let s2 = put_row (swept now r) (add_attempt nid (r_id r) (swept_attempt now r) s)
     in if Terminal (r_state (swept now r)) then freeUniq (swept now r) s2 else s2)"
  by (simp add: sweep_row_def swept_def Let_def swept_attempt_def [abs_def])

lemma sweep_row_frame [frame_simps]:
  "row (sweep_row nid now r s) = (row s)(r_id r \<mapsto> swept now r)"
  "ledger (sweep_row nid now r s) i =
    (if i = r_id r then ledger s i @ [swept_attempt now r (nid (js_ids s))] else ledger s i)"
  by (simp_all add: sweep_row_eq Let_def frame_simps)

lemma inv_sweep_row:
  assumes "js_inv nid s" "row s (r_id r) = Some r" "\<not> Terminal (r_state r)"
  shows "js_inv nid (sweep_row nid now r s)"
proof -
  define s1 where "s1 = add_attempt nid (r_id r) (swept_attempt now r) s"
  have i1: "js_inv nid s1" by (rule js_inv_cong [OF assms(1)]) (simp_all add: s1_def frame_simps)
  have r1: "row s1 (r_id (swept now r)) = Some r" using assms(2) by (simp add: s1_def frame_simps)
  show ?thesis unfolding sweep_row_eq Let_def s1_def [symmetric]
    using inv_put_same [OF i1 r1] inv_put_dead [OF i1 r1] assms(3) by simp
qed

lemma sweep_loop_spec:
  assumes "js_inv nid s" "\<And>r. r \<in> set rs \<Longrightarrow> row s (r_id r) = Some r" "distinct (map r_id rs)"
  shows "js_inv nid (snd (sweep_loop nid now rs n s)) \<and>
    (\<forall>i. row (snd (sweep_loop nid now rs n s)) i =
      (case row s i of Some r \<Rightarrow> Some (if r \<in> set rs \<and> lease_expired now r then swept now r else r) | None \<Rightarrow> None)) \<and>
    (\<forall>i. \<exists>x. ledger (snd (sweep_loop nid now rs n s)) i =
      (case row s i of Some r \<Rightarrow> if r \<in> set rs \<and> lease_expired now r then ledger s i @ [swept_attempt now r x]
         else ledger s i | None \<Rightarrow> ledger s i)) \<and>
    fst (sweep_loop nid now rs n s) = n + int (length (filter (lease_expired now) rs))"
  using assms
proof (induction rs arbitrary: n s)
  case Nil
  then show ?case by (auto split: option.splits)
next
  case (Cons r rs)
  have r: "row s (r_id r) = Some r" using Cons.prems(2) by simp
  have n: "r_id r \<notin> r_id ` set rs" using Cons.prems(3) by simp
  have notin: "r \<notin> set rs" "\<And>x. x \<in> set rs \<Longrightarrow> r_id x \<noteq> r_id r" using n by (blast, metis imageI)
  have own: "x = r \<longleftrightarrow> i = r_id r" if "row s i = Some x" for i x
  proof
    show "x = r \<Longrightarrow> i = r_id r" using js_invD(2) [OF Cons.prems(1) that] by simp
    show "i = r_id r \<Longrightarrow> x = r" using that r by simp
  qed
  show ?case
  proof (cases "lease_expired now r")
    case True
    let ?s = "sweep_row nid now r s"
    have "\<not> Terminal (r_state r)" using True by (auto simp: lease_expired_def)
    note i = inv_sweep_row [OF Cons.prems(1) r this, of now]
    have rows: "row ?s (r_id x) = Some x" if "x \<in> set rs" for x
      using Cons.prems(2) that notin by (simp add: frame_simps)
    have d: "distinct (map r_id rs)" using Cons.prems(3) by simp
    note IH = Cons.IH [OF i rows d, of "n + 1"]
    have eq: "sweep_loop nid now (r # rs) n s = sweep_loop nid now rs (n + 1) ?s" using True by simp
    have nsw: "swept now r \<notin> set rs" using notin(2) by (metis swept_fields(1))
    show ?thesis unfolding eq
    proof (intro conjI allI)
      fix i
      show "row (snd (sweep_loop nid now rs (n + 1) ?s)) i = (case row s i of
          Some x \<Rightarrow> Some (if x \<in> set (r # rs) \<and> lease_expired now x then swept now x else x) | None \<Rightarrow> None)"
        using conjunct1 [OF conjunct2 [OF IH], rule_format, of i] True r notin nsw own [of i]
        by (cases "i = r_id r") (auto simp: frame_simps split: option.splits)
      from IH obtain x where "ledger (snd (sweep_loop nid now rs (n + 1) ?s)) i =
        (case row ?s i of Some r \<Rightarrow> if r \<in> set rs \<and> lease_expired now r then ledger ?s i @ [swept_attempt now r x]
           else ledger ?s i | None \<Rightarrow> ledger ?s i)" by blast
      then show "\<exists>x. ledger (snd (sweep_loop nid now rs (n + 1) ?s)) i = (case row s i of
          Some y \<Rightarrow> if y \<in> set (r # rs) \<and> lease_expired now y then ledger s i @ [swept_attempt now y x] else ledger s i
        | None \<Rightarrow> ledger s i)"
        using True r notin nsw own [of i]
        by (cases "i = r_id r") (auto simp: frame_simps split: option.splits)
    qed (use IH True in simp_all)
  next
    case False
    have eq: "sweep_loop nid now (r # rs) n s = sweep_loop nid now rs n s"
      "filter (lease_expired now) (r # rs) = filter (lease_expired now) rs" using False by simp_all
    have mem: "(x \<in> set (r # rs) \<and> lease_expired now x) = (x \<in> set rs \<and> lease_expired now x)" for x
      using False by auto
    have "distinct (map r_id rs)" "\<And>x. x \<in> set rs \<Longrightarrow> row s (r_id x) = Some x" using Cons.prems by simp_all
    from Cons.IH [OF Cons.prems(1) this(2,1), of n] show ?thesis unfolding eq mem .
  qed
qed

lemma rows_snd:
  assumes "js_inv nid s"
  shows "r \<in> set (map snd (js_rows s)) \<longleftrightarrow> row s (r_id r) = Some r" "distinct (map r_id (map snd (js_rows s)))"
proof -
  have "r_id (snd p) = fst p" if "p \<in> set (js_rows s)" for p
    using js_invD(2) [OF assms, of "fst p" "snd p"] map_of_in_set [OF js_invD(1) [OF assms], of "fst p" "snd p"] that
    by simp
  then have e: "map r_id (map snd (js_rows s)) = map fst (js_rows s)" by simp
  then show "distinct (map r_id (map snd (js_rows s)))" using js_invD(1) [OF assms] by (simp only:)
  show "r \<in> set (map snd (js_rows s)) \<longleftrightarrow> row s (r_id r) = Some r"
    using js_invD(2) [OF assms] map_of_in_set [OF js_invD(1) [OF assms]] by (auto simp: image_iff) (metis snd_conv)+
qed

lemma SweepExpired_spec:
  assumes "js_inv nid s"
  shows "js_inv nid (snd (js_SweepExpired nid now s))"
    "row (snd (js_SweepExpired nid now s)) i = map_option (\<lambda>r. if lease_expired now r then swept now r else r) (row s i)"
    "\<exists>x. ledger (snd (js_SweepExpired nid now s)) i = (case row s i of
       Some r \<Rightarrow> if lease_expired now r then ledger s i @ [swept_attempt now r x] else ledger s i | None \<Rightarrow> ledger s i)"
    "fst (js_SweepExpired nid now s) = int (length (filter (lease_expired now) (map snd (js_rows s))))"
proof -
  have a: "\<And>r. r \<in> set (map snd (js_rows s)) \<Longrightarrow> row s (r_id r) = Some r" using rows_snd(1) [OF assms] by blast
  have mem: "r \<in> set (map snd (js_rows s))" if "row s i = Some r" for r i
    using that rows_snd(1) [OF assms] js_invD(2) [OF assms] by metis
  note sp = sweep_loop_spec [OF assms a rows_snd(2) [OF assms], of now 0, folded js_SweepExpired_def]
  show "js_inv nid (snd (js_SweepExpired nid now s))" using sp by blast
  show "fst (js_SweepExpired nid now s) = int (length (filter (lease_expired now) (map snd (js_rows s))))" using sp by simp
  show "row (snd (js_SweepExpired nid now s)) i = map_option (\<lambda>r. if lease_expired now r then swept now r else r) (row s i)"
    using sp mem [of i] by (cases "row s i") (simp_all del: set_map)
  show "\<exists>x. ledger (snd (js_SweepExpired nid now s)) i = (case row s i of
       Some r \<Rightarrow> if lease_expired now r then ledger s i @ [swept_attempt now r x] else ledger s i | None \<Rightarrow> ledger s i)"
    using sp [THEN conjunct2, THEN conjunct2, THEN conjunct1, rule_format, of i] mem [of i]
    by (cases "row s i") (simp_all del: set_map)
qed

text \<open>The row a retry writes.\<close>

definition revived :: "time \<Rightarrow> mem_row \<Rightarrow> mem_row" where
  "revived now r = r\<lparr>MaxAttempts := (if r_attempt r \<ge> MaxAttempts r then r_attempt r + 1 else MaxAttempts r),
     r_state := StateAvailable, AvailableAt := now, r_lastError := [], r_lockedBy := [],
     r_lockedUntil := zeroTime, r_cancelRequested := False, r_updatedAt := now\<rparr>"

lemma revived_fields [simp]:
  "r_id (revived now r) = r_id r" "Kind (revived now r) = Kind r" "HandlerID (revived now r) = HandlerID r"
  "UniqueKey (revived now r) = UniqueKey r" "r_state (revived now r) = StateAvailable"
  "r_attempt (revived now r) = r_attempt r" "r_lockedBy (revived now r) = []"
  "r_cancelRequested (revived now r) = False"
  by (simp_all add: revived_def)

lemma Retry_cases:
  assumes "js_inv nid s"
  obtains (Refused) e where "js_Retry j now s = (Some e, s)"
  | (Revived) r where "row s j = Some r" "Terminal (r_state r)" "r_state r \<noteq> StateSucceeded"
      "live_holder s r = None"
      "js_Retry j now s = (None, if UniqueKey r \<noteq> [] then (put_row (revived now r) s)\<lparr>js_uniq := goput (row_key r) j (js_uniq s)\<rparr>
         else put_row (revived now r) s)"
proof (cases "row s j")
  case None
  then show ?thesis using Refused by (simp add: js_Retry_def)
next
  case (Some r)
  have rid: "r_id r = j" using js_invD(2) [OF assms Some] .
  show ?thesis
  proof (cases "\<not> Terminal (r_state r) \<or> r_state r = StateSucceeded")
    case True
    then show ?thesis using Refused Some by (simp add: js_Retry_def)
  next
    case False
    show ?thesis
    proof (cases "live_holder s r")
      case None
      have "js_Retry j now s = (None, if UniqueKey r \<noteq> [] then (put_row (revived now r) s)\<lparr>js_uniq := goput (row_key r) j (js_uniq s)\<rparr>
         else put_row (revived now r) s)"
        using Some False None rid by (simp add: js_Retry_def revived_def Let_def put_row_def)
      then show ?thesis using Revived [OF Some] False None by blast
    next
      case (Some p)
      obtain h x where p: "p = (h, x)" by fastforce
      have "h \<noteq> j" using live_holder_Some [OF assms Some [unfolded p]] \<open>row s j = Some r\<close> False
        by (auto simp: live_keyed_def)
      then show ?thesis using Refused \<open>row s j = Some r\<close> False Some p rid by (simp add: js_Retry_def)
    qed
  qed
qed

lemma inv_Retry:
  assumes "js_inv nid s"
  shows "js_inv nid (snd (js_Retry j now s))"
proof (cases rule: Retry_cases [OF assms, of j now, case_names Refused Revived])
  case (Revived r)
  have rid: "r_id r = j" "\<exists>n < js_ids s. j = nid n" using js_invD(2,3) [OF assms Revived(1)] by auto
  have "js_inv nid (if UniqueKey (revived now r) \<noteq> []
      then (put_row (revived now r) s)\<lparr>js_uniq := goput (row_key (revived now r)) (r_id (revived now r)) (js_uniq s)\<rparr>
      else put_row (revived now r) s)"
    using rid Revived(1,2) live_holder_None [OF assms Revived(4)]
    by (intro inv_put_live [OF assms]) (auto simp: live_keyed_def)
  then show ?thesis unfolding Revived(5) snd_conv revived_fields rid(1) .
qed (use assms in simp)

lemma inv_Cancel:
  assumes "js_inv nid s"
  shows "js_inv nid (snd (js_Cancel j now s))"
proof (cases "row s j")
  case (Some r)
  have rid: "r_id r = j" using js_invD(2) [OF assms Some] .
  consider "Terminal (r_state r)" | "r_state r = StateRunning" | "\<not> Terminal (r_state r)" "r_state r \<noteq> StateRunning" by blast
  then show ?thesis
  proof cases
    case 2
    then show ?thesis using Some rid by (auto simp: js_Cancel_def intro!: inv_put_same [OF assms, of _ r])
  next
    case 3
    let ?r = "r\<lparr>r_state := StateCancelled, r_updatedAt := now\<rparr>"
    have "js_inv nid (freeUniq ?r (put_row ?r s))"
      using Some rid by (intro inv_put_dead [OF assms, of _ r]) simp_all
    then show ?thesis using Some 3 by (simp add: js_Cancel_def Let_def)
  qed (use Some assms in \<open>simp add: js_Cancel_def\<close>)
qed (simp add: js_Cancel_def assms)

lemma inv_Delete:
  assumes "js_inv nid s"
  shows "js_inv nid (snd (js_Delete j s))"
proof (cases "row s j")
  case (Some r)
  have rid: "r_id r = j" using js_invD(2) [OF assms Some] .
  show ?thesis
  proof (cases "r_state r = StateRunning")
    case False
    define s1 where "s1 = s\<lparr>js_rows := godel j (js_rows s), js_attempts := godel j (js_attempts s)\<rparr>"
    have uq: "map_of (js_uniq (freeUniq r s1)) k = (if map_of (js_uniq s) k = Some j then None else map_of (js_uniq s) k)" for k
    proof (cases "map_of (js_uniq s) k = Some j")
      case True
      from js_invD(5) [OF assms True] Some have "live_keyed r" "row_key r = k" by auto
      with True rid show ?thesis by (simp add: freeUniq_def s1_def live_keyed_def)
    next
      case False
      with rid show ?thesis by (auto simp: freeUniq_def s1_def split: option.splits)
    qed
    have rw: "row (freeUniq r s1) = (row s)(j := None)" by (simp add: frame_simps s1_def)
    have "js_inv nid (freeUniq r s1)"
    proof (rule js_invI)
      show "gomap_wf (js_rows (freeUniq r s1))"
        using js_invD(1) [OF assms] by (simp add: frame_simps s1_def gomap_wf_intros)
      show "r_id x = i \<and> (\<exists>n < js_ids (freeUniq r s1). i = nid n)" if "row (freeUniq r s1) i = Some x" for i x
        using that js_invD(2,3) [OF assms, of i x] unfolding rw by (simp add: frame_simps s1_def split: if_splits)
      show "map_of (js_uniq (freeUniq r s1)) (row_key x) = Some i"
        if "row (freeUniq r s1) i = Some x" "live_keyed x" for i x
        using that js_invD(4) [OF assms, of i x] unfolding rw uq by (simp split: if_splits)
      show "\<exists>x. row (freeUniq r s1) i = Some x \<and> live_keyed x \<and> row_key x = k"
        if "map_of (js_uniq (freeUniq r s1)) k = Some i" for k i
        using that js_invD(5) [OF assms, of k i] unfolding rw uq by (auto split: if_splits)
    qed
    then show ?thesis using Some False by (simp add: js_Delete_def s1_def)
  qed (use Some assms in \<open>simp add: js_Delete_def\<close>)
qed (simp add: js_Delete_def assms)

lemma inv_FireSchedule:
  assumes "js_inv nid s" "inj nid"
  shows "js_inv nid (snd (js_FireSchedule nid f s))"
proof -
  let ?s1 = "snd (insertLocked nid (sf_Now f) (sf_Jobs f) s)"
  have "js_inv nid ?s1" using inv_insertLocked [OF assms] .
  then have "js_inv nid (?s1\<lparr>js_schedules := x\<rparr>)" for x by (rule js_inv_cong) simp_all
  with assms(1) show ?thesis
    by (simp add: js_FireSchedule_def Let_def case_prod_unfold split: option.split)
qed

lemma inv_step:
  assumes "js_inv nid s" "inj nid"
  shows "js_inv nid (js_step nid oper s)"
proof (cases oper)
  case (OInsert now jobs)
  then show ?thesis using inv_insertLocked [OF assms] by (simp add: js_Insert_def)
qed (use assms in \<open>auto simp: inv_Claim inv_Heartbeat inv_Complete SweepExpired_spec(1) inv_Retry inv_Cancel inv_Delete
    inv_FireSchedule js_UpsertWorker_def js_RetireWorker_def js_SweepStaleWorkers_def js_UpsertSchedule_def
    js_DeleteSchedule_def Let_def intro!: js_inv_cong [OF assms(1)]\<close>)

lemma inv_run: "js_inv nid s \<Longrightarrow> inj nid \<Longrightarrow> js_inv nid (js_run nid ops s)"
  by (induction ops arbitrary: s) (auto intro: inv_step)

section \<open>Live unique keys\<close>

lemma cut_nul:
  assumes "CHR 0x00 \<notin> set a" "CHR 0x00 \<notin> set b" "a @ CHR 0x00 # x = b @ CHR 0x00 # y"
  shows "a = b \<and> x = y"
  using cut_join [OF assms(1), of x] unfolding assms(3) cut_join [OF assms(2)] by simp

lemma uniqKey_inj:
  assumes "CHR 0x00 \<notin> set k" "CHR 0x00 \<notin> set k'" "CHR 0x00 \<notin> set h" "CHR 0x00 \<notin> set h'"
    "uniqKey k h u = uniqKey k' h' u'"
  shows "k = k' \<and> h = h' \<and> u = u'"
proof -
  have "k @ CHR 0x00 # (h @ CHR 0x00 # u) = k' @ CHR 0x00 # (h' @ CHR 0x00 # u')"
    using assms(5) by (simp add: uniqKey_def)
  from cut_nul [OF assms(1,2) this] have k: "k = k'" "h @ CHR 0x00 # u = h' @ CHR 0x00 # u'" by simp_all
  from cut_nul [OF assms(3,4) k(2)] k(1) show ?thesis by simp
qed

lemma validIdent_no_nul:
  assumes "validIdent w s = None"
  shows "CHR 0x00 \<notin> set s"
proof
  assume n: "CHR 0x00 \<in> set s"
  have "find (\<lambda>c. \<not> ident_byte c) s = None"
    using assms by (auto simp: validIdent_def split: if_splits option.splits)
  with n have "ident_byte (CHR 0x00)" by (auto simp: find_None_iff)
  then show False by (simp add: ident_byte_def less_eq_char_def)
qed

text \<open>C5: A unique key is held by at most one live job, and a caller is told so exactly when it is: in
  every state the operations of the store can reach from an empty one, two live jobs of the same
  kind and handler with the same non-empty unique key are the same job; inserting a job whose key is
  held reports the holder's id and changes nothing; and inserting a job whose key no live job holds
  stores a new live job under a fresh id.\<close>

theorem jobs_unique_key:
  fixes nid :: "nat \<Rightarrow> string"
  assumes "inj nid" "s = js_run nid ops js_New"
    and "validIdent w (Kind j) = None" "validIdent w (HandlerID j) = None" "UniqueKey j \<noteq> []"
    and "\<And>i r. row s i = Some r \<Longrightarrow> validIdent w (Kind r) = None \<and> validIdent w (HandlerID r) = None"
  defines "holds i \<equiv> (\<exists>r. row s i = Some r \<and> \<not> Terminal (r_state r) \<and> Kind r = Kind j \<and>
      HandlerID r = HandlerID j \<and> UniqueKey r = UniqueKey j)"
  shows "(\<forall>i i'. holds i \<longrightarrow> holds i' \<longrightarrow> i = i') \<and>
    (\<forall>i. holds i \<longrightarrow> insert_one nid now j s =
      (\<lparr>ir_ID = i, ir_CreatedAt = r_createdAt (the (row s i)), ir_Kind = Kind j, ir_HandlerID = HandlerID j,
        ir_ScheduledFor = zeroTime, ir_Duplicate = True\<rparr>, s)) \<and>
    ((\<nexists>i. holds i) \<longrightarrow> (let (res, s') = insert_one nid now j s
       in \<not> ir_Duplicate res \<and> row s (ir_ID res) = None \<and>
          (\<exists>r. row s' = (row s)(ir_ID res \<mapsto> r) \<and> \<not> Terminal (r_state r) \<and> job.truncate r = j)))"
proof -
  have inv: "js_inv nid s" using inv_run [OF js_inv_New assms(1)] assms(2) by simp
  have nul: "CHR 0x00 \<notin> set (Kind j)" "CHR 0x00 \<notin> set (HandlerID j)"
    "row s i = Some r \<Longrightarrow> CHR 0x00 \<notin> set (Kind r) \<and> CHR 0x00 \<notin> set (HandlerID r)" for i r
    using assms(3,4,6) validIdent_no_nul by blast+
  have key: "holds i \<longleftrightarrow> (\<exists>r. live_holder s j = Some (i, r))" for i
  proof
    assume "holds i"
    then obtain r where r: "row s i = Some r" "\<not> Terminal (r_state r)" "row_key r = row_key j" "UniqueKey r = UniqueKey j"
      by (auto simp: holds_def)
    then have "map_of (js_uniq s) (row_key j) = Some i"
      using js_invD(4) [OF inv r(1)] assms(5) by (simp add: live_keyed_def)
    with r assms(5) show "\<exists>r. live_holder s j = Some (i, r)" by (simp add: live_holder_def)
  next
    assume "\<exists>r. live_holder s j = Some (i, r)"
    then obtain r where r: "live_holder s j = Some (i, r)" by blast
    note l = live_holder_Some [OF inv r]
    with uniqKey_inj [OF _ nul(1) _ nul(2) l(3)] nul(3) [OF l(1)] show "holds i"
      by (auto simp: holds_def live_keyed_def)
  qed
  have "row s i = Some r" if "live_holder s j = Some (i, r)" for i r using live_holder_Some(1) [OF inv that] .
  then have dup: "\<forall>i. holds i \<longrightarrow> insert_one nid now j s =
      (\<lparr>ir_ID = i, ir_CreatedAt = r_createdAt (the (row s i)), ir_Kind = Kind j, ir_HandlerID = HandlerID j,
        ir_ScheduledFor = zeroTime, ir_Duplicate = True\<rparr>, s)"
    by (auto simp: key insert_one_def)
  have fresh: "row s (nid (js_ids s)) = None"
    using js_invD(3) [OF inv] assms(1) by (cases "row s (nid (js_ids s))") (auto dest: injD)
  have "job.truncate (new_row j i st now) = j" for i st
    by (simp add: new_row_def job.extend_def job.truncate_def)
  then have "(\<nexists>i. holds i) \<longrightarrow> (let (res, s') = insert_one nid now j s
       in \<not> ir_Duplicate res \<and> row s (ir_ID res) = None \<and>
          (\<exists>r. row s' = (row s)(ir_ID res \<mapsto> r) \<and> \<not> Terminal (r_state r) \<and> job.truncate r = j))"
    using fresh by (cases "live_holder s j")
      (auto simp: key insert_one_def Let_def put_row_def intro!: exI [of _ "new_row j (nid (js_ids s)) _ now"])
  with dup key show ?thesis by auto
qed

text \<open>A small store: ids are strings of different lengths.\<close>

definition demo_nid :: "nat \<Rightarrow> string" where
  "demo_nid n = replicate n (CHR ''i'') @ ''d''"

lemma inj_demo_nid: "inj demo_nid"
  by (rule injI) (simp add: demo_nid_def replicate_append_same flip: replicate_Suc)

definition demo_job :: job where
  "demo_job = \<lparr>Kind = ''mail'', HandlerID = ''send'', Payload = ''{}'', Queue = ''default'', Priority = 0,
     AvailableAt = 3, MaxAttempts = 2, TimeoutMs = 0, OnTimeout = TimeoutRetry, BackoffSpec = [],
     UniqueKey = ''u1'', ScheduledFor = zeroTime, ScheduledForSet = False\<rparr>"

definition demo_claim :: "time \<Rightarrow> claim_request" where
  "demo_claim t = \<lparr>cr_WorkerID = ''w'', cr_Queues = [''default''], cr_Now = t, cr_Lease = 10, cr_Limit = 1,
     cr_QueueLimits = [], cr_Handlers = [(''mail'', ''send'')]\<rparr>"

lemmas demo_defs = demo_nid_def demo_job_def demo_claim_def

theorem jobs_unique_key_witness:
  "let s = js_run demo_nid [OInsert 5 [demo_job]] js_New
   in \<exists>i. row s i \<noteq> None \<and> insert_one demo_nid 9 demo_job s =
      (\<lparr>ir_ID = i, ir_CreatedAt = r_createdAt (the (row s i)), ir_Kind = ''mail'', ir_HandlerID = ''send'',
        ir_ScheduledFor = zeroTime, ir_Duplicate = True\<rparr>, s)"
proof -
  define s where "s = js_run demo_nid [OInsert 5 [demo_job]] js_New"
  have rows: "row s = [''d'' \<mapsto> new_row demo_job ''d'' StateAvailable 5]"
    by (simp add: s_def js_Insert_def insert_one_def live_holder_def js_New_def put_row_def demo_nid_def
        demo_job_def Let_def)
  have v: "validIdent [] (Kind demo_job) = None" "validIdent [] (HandlerID demo_job) = None"
    by (simp_all add: validIdent_def ident_byte_def demo_job_def less_eq_char_def)
  have rv: "validIdent [] (Kind r) = None \<and> validIdent [] (HandlerID r) = None" if "row s i = Some r" for i r
    using that v by (auto simp: rows split: if_splits)
  have uk: "UniqueKey demo_job \<noteq> []" by (simp add: demo_job_def)
  note t = jobs_unique_key [OF inj_demo_nid s_def v uk rv, where now = 9]
  have "\<exists>r. row s ''d'' = Some r \<and> \<not> Terminal (r_state r) \<and> Kind r = Kind demo_job \<and>
      HandlerID r = HandlerID demo_job \<and> UniqueKey r = UniqueKey demo_job" by (simp add: rows)
  from t [THEN conjunct2, THEN conjunct1, rule_format, OF _ this] rows
  show ?thesis unfolding s_def [symmetric] Let_def
    by (intro exI [of _ "''d''"]) (simp add: demo_job_def)
qed

section \<open>What a claim takes\<close>

lemma claim_pick_length: "length (claim_pick req room rs pq) \<le> room"
proof (induction rs arbitrary: room pq)
  case (Cons r rs)
  show ?case
  proof (cases "room = 0")
    case False
    have "Suc (length (claim_pick req (room - 1) rs q)) \<le> room" for q
      using Cons [of "room - 1" q] False by simp
    with Cons show ?thesis by simp
  qed simp
qed simp

lemma claim_pick_sorted: "sorted_wrt P rs \<Longrightarrow> sorted_wrt P (claim_pick req room rs pq)"
proof (induction rs arbitrary: room pq)
  case (Cons r rs)
  have "\<forall>x \<in> set (claim_pick req (room - 1) rs q). P r x" for q
    using Cons.prems claim_pick_set [of req "room - 1" rs q] by auto
  with Cons show ?case by simp
qed simp

abbreviation in_queue :: "string \<Rightarrow> mem_row list \<Rightarrow> int" where
  "in_queue q rs \<equiv> int (length (filter (\<lambda>r. Queue r = q) rs))"

lemma claim_pick_budget:
  assumes "map_of (cr_QueueLimits req) q = Some lim" "0 \<le> lim" "pq q \<le> lim"
  shows "pq q + in_queue q (claim_pick req room rs pq) \<le> lim"
  using assms(3)
proof (induction rs arbitrary: room pq)
  case (Cons r rs)
  show ?case
  proof (cases "room = 0 \<or> queue_full req pq r")
    case True
    then show ?thesis using Cons by auto
  next
    case False
    let ?pq = "pq (Queue r := pq (Queue r) + 1)"
    have "?pq q \<le> lim" using False Cons.prems assms(1,2) by (auto simp: queue_full_def)
    then have "?pq q + in_queue q (claim_pick req (room - 1) rs ?pq) \<le> lim" by (rule Cons.IH)
    with False show ?thesis by (simp split: if_splits)
  qed
qed simp

lemma claim_pick_maximal:
  assumes "sorted_wrt (\<lambda>x y. f x < (f y :: 'k :: linorder)) rs" "r \<in> set rs" "r \<notin> set (claim_pick req room rs pq)"
  shows "(length (claim_pick req room rs pq) = room \<and> (\<forall>x \<in> set (claim_pick req room rs pq). f x < f r)) \<or>
    (\<exists>lim. map_of (cr_QueueLimits req) (Queue r) = Some lim \<and> 0 \<le> lim \<and>
       lim \<le> pq (Queue r) + in_queue (Queue r) (filter (\<lambda>x. f x < f r) (claim_pick req room rs pq)))"
  using assms
proof (induction rs arbitrary: room pq)
  case (Cons a rs)
  show ?case
  proof (cases "room = 0")
    case True
    then show ?thesis by simp
  next
    case room: False
    show ?thesis
    proof (cases "queue_full req pq a")
      case True
      then show ?thesis using Cons room by (cases "r = a") (auto simp: queue_full_def split: option.splits)
    next
      case False
      let ?pq = "pq (Queue a := pq (Queue a) + 1)"
      have e: "claim_pick req room (a # rs) pq = a # claim_pick req (room - 1) rs ?pq"
        using room False by simp
      have r: "r \<in> set rs" "r \<notin> set (claim_pick req (room - 1) rs ?pq)" "f a < f r"
        using Cons.prems unfolding e by auto
      have "sorted_wrt (\<lambda>x y. f x < f y) rs" using Cons.prems(1) by simp
      from Cons.IH [OF this r(1,2)] show ?thesis
      proof (elim disjE exE conjE)
        assume "length (claim_pick req (room - 1) rs ?pq) = room - 1"
          "\<forall>x \<in> set (claim_pick req (room - 1) rs ?pq). f x < f r"
        then show ?thesis unfolding e using room r(3) by simp
      next
        fix lim
        assume l: "map_of (cr_QueueLimits req) (Queue r) = Some lim" "0 \<le> lim"
          "lim \<le> ?pq (Queue r) + in_queue (Queue r) (filter (\<lambda>x. f x < f r) (claim_pick req (room - 1) rs ?pq))"
        then have "lim \<le> pq (Queue r) + in_queue (Queue r) (filter (\<lambda>x. f x < f r) (a # claim_pick req (room - 1) rs ?pq))"
          using r(3) by (auto split: if_splits)
        with l show ?thesis unfolding e by blast
      qed
    qed
  qed
qed simp

lemma candidates_sorted:
  assumes "js_inv nid s"
  shows "sorted_wrt (\<lambda>x y. claim_order x < claim_order y) (candidates req s)"
proof -
  have "sorted (map claim_order (candidates req s))" by (simp add: candidates_def)
  moreover have "distinct (map claim_order (candidates req s))"
    using candidates_distinct [OF assms, of req] unfolding distinct_map
    by (auto simp: claim_order_def inj_on_def)
  ultimately have "sorted_wrt (<) (map claim_order (candidates req s))" by (simp add: strict_sorted_iff)
  then show ?thesis by (simp add: sorted_wrt_map)
qed

definition claimed_order :: "claimed_job \<Rightarrow> int \<times> time \<times> string" where
  "claimed_order c = (- Priority (cj_Job c), AvailableAt (cj_Job c), cj_ID c)"

lemma claimed_fields [simp]:
  "cj_ID (claimed req r) = r_id r" "claimed_order (claimed req r) = claim_order r"
  "Queue (cj_Job (claimed req r)) = Queue r" "cj_Attempt (claimed req r) = r_attempt r"
  by (simp_all add: claimed_def claimed_order_def claim_order_def job.truncate_def)

text \<open>A claim takes exactly what the contract says: from any state the store can reach, the
  returned jobs are eligible rows in order of priority, due time and id; at most the limit and, per
  queue, at most that queue's budget; each is now running under the worker's lease and every other
  row is untouched; and an eligible row is passed over only when the limit was used up by rows that
  come before it, or its queue's budget was.\<close>

theorem jobs_claim_exact:
  assumes "inj nid" "s = js_run nid ops js_New" "cr_WorkerID req \<noteq> []" "cr_Handlers req \<noteq> []"
    and "js_Claim req s = (out, s')"
  shows "sorted_wrt (\<lambda>a b. claimed_order a < claimed_order b) out \<and>
    int (length out) \<le> max 1 (cr_Limit req) \<and>
    (\<forall>q lim. map_of (cr_QueueLimits req) q = Some lim \<longrightarrow> 0 \<le> lim \<longrightarrow>
       int (length (filter (\<lambda>c. Queue (cj_Job c) = q) out)) \<le> lim) \<and>
    (\<forall>c \<in> set out. \<exists>r. row s (cj_ID c) = Some r \<and> claimable req r \<and> c = claimed req r \<and>
       row s' (cj_ID c) = Some (lease_row req r)) \<and>
    (\<forall>i. i \<notin> cj_ID ` set out \<longrightarrow> row s' i = row s i) \<and>
    (\<forall>i r. row s i = Some r \<longrightarrow> claimable req r \<longrightarrow> i \<notin> cj_ID ` set out \<longrightarrow>
      (int (length out) = max 1 (cr_Limit req) \<and> (\<forall>c \<in> set out. claimed_order c < claim_order r)) \<or>
      (\<exists>lim. map_of (cr_QueueLimits req) (Queue r) = Some lim \<and> 0 \<le> lim \<and>
         lim \<le> int (length (filter (\<lambda>c. Queue (cj_Job c) = Queue r \<and> claimed_order c < claim_order r) out))))"
proof -
  have inv: "js_inv nid s" using inv_run [OF js_inv_New assms(1)] assms(2) by simp
  let ?p = "picked req s"
  have p: "?p = claim_pick req (claim_room req) (candidates req s) (\<lambda>_. 0)"
    using assms(3,4) by (simp add: picked_def)
  have out: "out = map (claimed req) ?p" and s': "s' = snd (js_Claim req s)"
    using assms(5) by (simp_all add: js_Claim_picked)
  have ids: "cj_ID ` set out = r_id ` set ?p" by (simp add: out image_image)
  have room: "int (claim_room req) = max 1 (cr_Limit req)" by (simp add: claim_room_def)
  have cnt: "length (filter (\<lambda>c. P (Queue (cj_Job c)) (claimed_order c)) out) = length (filter (\<lambda>r. P (Queue r) (claim_order r)) ?p)" for P
    by (simp add: out filter_map comp_def)
  note srt = candidates_sorted [OF inv, of req]
  have "sorted_wrt (\<lambda>a b. claimed_order a < claimed_order b) out"
    using claim_pick_sorted [OF srt] by (simp add: out p sorted_wrt_map)
  moreover have "int (length out) \<le> max 1 (cr_Limit req)"
    using claim_pick_length [of req "claim_room req" "candidates req s" "\<lambda>_. 0"] room by (simp add: out p)
  moreover have "int (length (filter (\<lambda>c. Queue (cj_Job c) = q) out)) \<le> lim"
    if "map_of (cr_QueueLimits req) q = Some lim" "0 \<le> lim" for q lim
    using claim_pick_budget [OF that, of "\<lambda>_. 0" "claim_room req" "candidates req s"] that
      cnt [of "\<lambda>x _. x = q"] by (simp add: p)
  moreover have "\<exists>r. row s (cj_ID c) = Some r \<and> claimable req r \<and> c = claimed req r \<and>
       row s' (cj_ID c) = Some (lease_row req r)" if "c \<in> set out" for c
  proof -
    from that obtain r where r: "r \<in> set ?p" "c = claimed req r" by (auto simp: out)
    note pr = picked_rows [OF inv r(1)]
    with r Claim_row [OF inv, of req "r_id r"] show ?thesis by (auto simp: s')
  qed
  moreover have "row s' i = row s i" if "i \<notin> cj_ID ` set out" for i
    using that Claim_row [OF inv, of req i] by (simp add: s' ids)
  moreover have "(int (length out) = max 1 (cr_Limit req) \<and> (\<forall>c \<in> set out. claimed_order c < claim_order r)) \<or>
      (\<exists>lim. map_of (cr_QueueLimits req) (Queue r) = Some lim \<and> 0 \<le> lim \<and>
         lim \<le> int (length (filter (\<lambda>c. Queue (cj_Job c) = Queue r \<and> claimed_order c < claim_order r) out)))"
    if "row s i = Some r" "claimable req r" "i \<notin> cj_ID ` set out" for i r
  proof -
    have ri: "r_id r = i" using js_invD(2) [OF inv that(1)] .
    have "r \<in> set (map snd (js_rows s))" using rows_snd(1) [OF inv] that(1) ri by blast
    then have c: "r \<in> set (candidates req s)" using that(2) by (simp add: candidates_def)
    have n: "r \<notin> set (claim_pick req (claim_room req) (candidates req s) (\<lambda>_. 0))"
      using that(3) ri unfolding ids p by blast
    have "length (filter (\<lambda>c. Queue (cj_Job c) = Queue r \<and> claimed_order c < claim_order r) out) =
      length (filter (\<lambda>x. Queue x = Queue r) (filter (\<lambda>x. claim_order x < claim_order r) ?p))"
      using cnt [of "\<lambda>x y. x = Queue r \<and> y < claim_order r"] by (simp add: conj_commute)
    with claim_pick_maximal [OF srt c n] room show ?thesis unfolding p [symmetric]
      by (auto simp: out)
  qed
  ultimately show ?thesis by blast
qed

theorem jobs_claim_exact_witness:
  "\<exists>out s'. js_Claim (demo_claim 6) (js_run demo_nid [OInsert 5 [demo_job]] js_New) = (out, s') \<and>
    map cj_ID out = [''d''] \<and> int (length out) \<le> max 1 (cr_Limit (demo_claim 6)) \<and>
    (\<forall>i. i \<notin> cj_ID ` set out \<longrightarrow> row s' i = row (js_run demo_nid [OInsert 5 [demo_job]] js_New) i)"
proof -
  let ?s = "js_run demo_nid [OInsert 5 [demo_job]] js_New"
  obtain out s' where c: "js_Claim (demo_claim 6) ?s = (out, s')" "map cj_ID out = [''d'']"
    by (simp add: js_Claim_def js_Insert_def insert_one_def live_holder_def js_New_def put_row_def
        demo_defs Let_def claimable_def new_row_def job.extend_def queue_full_def claimed_def isZero_def zeroTime_def)
  have "cr_WorkerID (demo_claim 6) \<noteq> []" "cr_Handlers (demo_claim 6) \<noteq> []" by (simp_all add: demo_claim_def)
  note t = jobs_claim_exact [OF inj_demo_nid refl this c(1)]
  note t1 = t [THEN conjunct2, THEN conjunct1]
    and t2 = t [THEN conjunct2, THEN conjunct2, THEN conjunct2, THEN conjunct2, THEN conjunct1]
  show ?thesis by (intro exI conjI) (rule c(1), rule c(2), rule t1, rule t2)
qed

section \<open>How one job changes\<close>

lemma fresh_id: "js_inv nid s \<Longrightarrow> inj nid \<Longrightarrow> row s (nid (js_ids s)) = None"
  using js_invD(3) [of nid s "nid (js_ids s)"] by (cases "row s (nid (js_ids s))") (auto dest: injD)

lemma insert_one_row:
  assumes "js_inv nid s" "inj nid" "row s i \<noteq> None"
  shows "row (snd (insert_one nid now j s)) i = row s i" "ledger (snd (insert_one nid now j s)) i = ledger s i"
  using fresh_id [OF assms(1,2)] assms(3)
  by (auto simp: insert_one_def Let_def frame_simps ledger_def split: option.splits)

lemma insertLocked_row:
  assumes "js_inv nid s" "inj nid" "row s i \<noteq> None"
  shows "row (snd (insertLocked nid now jobs s)) i = row s i \<and>
    ledger (snd (insertLocked nid now jobs s)) i = ledger s i"
  using assms
proof (induction jobs arbitrary: s)
  case (Cons j js)
  note o1 = insert_one_row [OF Cons.prems, of now j]
  have "js_inv nid (snd (insert_one nid now j s))" by (rule inv_insert_one [OF Cons.prems(1,2)])
  from Cons.IH [OF this Cons.prems(2)] o1 Cons.prems(3) show ?case by (simp add: Let_def case_prod_unfold)
qed simp

lemma Fire_row:
  assumes "js_inv nid s" "inj nid" "row s i \<noteq> None"
  shows "row (snd (js_FireSchedule nid f s)) i = row s i" "ledger (snd (js_FireSchedule nid f s)) i = ledger s i"
  using insertLocked_row [OF assms, of "sf_Now f" "sf_Jobs f"]
  by (auto simp: js_FireSchedule_def Let_def case_prod_unfold ledger_def split: option.splits)

text \<open>A running row: only its worker, an expiring sweep and a cancellation change it.\<close>

fun running_after :: "js_op \<Rightarrow> string \<Rightarrow> mem_row \<Rightarrow> mem_row" where
  "running_after (OHeartbeat j w now until) i r =
    (if j = i \<and> w = r_lockedBy r then r\<lparr>r_lockedUntil := until, r_updatedAt := now\<rparr> else r)"
| "running_after (OComplete j w now o') i r = (if j = i \<and> w = r_lockedBy r then completed now o' r else r)"
| "running_after (OSweepExpired now) i r = (if lease_expired now r then swept now r else r)"
| "running_after (OCancel j now) i r =
    (if j = i then r\<lparr>r_cancelRequested := True, r_updatedAt := now\<rparr> else r)"
| "running_after _ i r = r"

lemma other_row:
  assumes "js_inv nid s" "row s j = Some x"
  shows "r_id x = j" by (rule js_invD(2) [OF assms])

lemma Heartbeat_row:
  assumes "js_inv nid s"
  shows "row (snd (js_Heartbeat j w now until s)) i =
    (case row s i of Some r \<Rightarrow> Some (if j = i \<and> r_state r = StateRunning \<and> w = r_lockedBy r
        then r\<lparr>r_lockedUntil := until, r_updatedAt := now\<rparr> else r) | None \<Rightarrow> None)"
  using other_row [OF assms, of j]
  by (cases "row s j") (auto simp: js_Heartbeat_def leased_row_def frame_simps split: option.splits)

lemma Complete_row:
  assumes "js_inv nid s"
  shows "row (snd (js_Complete nid j w now o' s)) i =
    (case row s i of Some r \<Rightarrow> Some (if j = i \<and> r_state r = StateRunning \<and> w = r_lockedBy r
        then completed now o' r else r) | None \<Rightarrow> None)"
proof (cases "leased_row j w s")
  case None
  then show ?thesis by (auto simp: js_Complete_def leased_row_def split: option.splits if_splits)
next
  case (Some r)
  then have r: "row s j = Some r" "r_state r = StateRunning" "r_lockedBy r = w" by (auto simp: leased_row_Some)
  with Complete_frame(1) [OF Some other_row [OF assms r(1)], of nid now o'] show ?thesis
    by (auto split: option.splits)
qed

lemma Cancel_row:
  assumes "js_inv nid s"
  shows "row (snd (js_Cancel j now s)) i =
    (case row s i of Some r \<Rightarrow> Some (if j = i \<and> \<not> Terminal (r_state r) then
        (if r_state r = StateRunning then r\<lparr>r_cancelRequested := True, r_updatedAt := now\<rparr>
         else r\<lparr>r_state := StateCancelled, r_updatedAt := now\<rparr>) else r) | None \<Rightarrow> None)"
  using other_row [OF assms, of j]
  by (cases "row s j") (auto simp: js_Cancel_def Let_def frame_simps split: option.splits)

lemma Retry_row:
  assumes "js_inv nid s" "j \<noteq> i \<or> (\<exists>r. row s i = Some r \<and> \<not> Terminal (r_state r))"
  shows "row (snd (js_Retry j now s)) i = row s i"
proof (cases rule: Retry_cases [OF assms(1), of j now, case_names Refused Revived])
  case (Revived r)
  then show ?thesis using assms(2) other_row [OF assms(1) Revived(1)] by (auto simp: frame_simps)
qed simp

lemma Delete_row:
  assumes "j \<noteq> i \<or> (\<exists>r. row s i = Some r \<and> r_state r = StateRunning)"
  shows "row (snd (js_Delete j s)) i = row s i"
  using assms by (cases "row s j") (auto simp: js_Delete_def frame_simps)

lemma rest_rows:
  "row (js_UpsertWorker w s) = row s" "row (js_RetireWorker x s) = row s"
  "row (snd (js_SweepStaleWorkers t s)) = row s" "row (js_UpsertSchedule sr s) = row s"
  "row (js_DeleteSchedule g n s) = row s"
  by (simp_all add: js_UpsertWorker_def js_RetireWorker_def js_SweepStaleWorkers_def js_UpsertSchedule_def
      js_DeleteSchedule_def Let_def)

lemma not_claimable_not_picked:
  assumes "js_inv nid s" "row s i = Some r" "\<not> claimable req r"
  shows "i \<notin> r_id ` set (picked req s)"
  using picked_rows(1,2) [OF assms(1)] assms(2,3) by force

lemma running_step:
  assumes "js_inv nid s" "inj nid" "row s i = Some r" "r_state r = StateRunning"
  shows "row (js_step nid oper s) i = Some (running_after oper i r)"
proof (cases oper)
  case (OInsert now jobs)
  then show ?thesis using insertLocked_row [OF assms(1,2), of i] assms(3) by (simp add: js_Insert_def)
next
  case (OClaim req)
  have "\<not> claimable req r" using assms(4) by (simp add: claimable_def)
  from not_claimable_not_picked [OF assms(1,3) this] OClaim assms(3) show ?thesis
    by (simp add: Claim_row [OF assms(1)])
next
  case (OSweepExpired now)
  then show ?thesis using assms(3) by (simp add: SweepExpired_spec(2) [OF assms(1)])
qed (use assms in \<open>simp_all add: Heartbeat_row Complete_row Cancel_row Retry_row Delete_row Fire_row rest_rows\<close>)

text \<open>A terminal row: only a retry or a deletion changes it.\<close>

fun touches :: "string \<Rightarrow> js_op \<Rightarrow> bool" where
  "touches i (ORetry j now) \<longleftrightarrow> j = i"
| "touches i (ODelete j) \<longleftrightarrow> j = i"
| "touches i _ \<longleftrightarrow> False"

lemma terminal_step:
  assumes "js_inv nid s" "inj nid" "row s i = Some r" "Terminal (r_state r)" "\<not> touches i oper"
  shows "row (js_step nid oper s) i = Some r"
proof (cases oper)
  case (OInsert now jobs)
  then show ?thesis using insertLocked_row [OF assms(1,2), of i] assms(3) by (simp add: js_Insert_def)
next
  case (OClaim req)
  have "\<not> claimable req r" using assms(4) by (auto simp: claimable_def)
  from not_claimable_not_picked [OF assms(1,3) this] OClaim assms(3) show ?thesis
    by (simp add: Claim_row [OF assms(1)])
next
  case (OSweepExpired now)
  have "\<not> lease_expired now r" using assms(4) by (auto simp: lease_expired_def)
  then show ?thesis using assms(3) OSweepExpired by (simp add: SweepExpired_spec(2) [OF assms(1)])
next
  case (OHeartbeat j w now until)
  then show ?thesis using assms(3,4) by (auto simp: Heartbeat_row [OF assms(1)])
next
  case (OComplete j w now o')
  then show ?thesis using assms(3,4) by (auto simp: Complete_row [OF assms(1)])
qed (use assms in \<open>simp_all add: Cancel_row Retry_row Delete_row Fire_row rest_rows\<close>)

lemma terminal_run:
  assumes "js_inv nid s" "inj nid" "row s i = Some r" "Terminal (r_state r)" "\<forall>oper \<in> set ops. \<not> touches i oper"
  shows "row (js_run nid ops s) i = Some r"
  using assms
proof (induction ops arbitrary: s)
  case (Cons x xs)
  have "js_inv nid (js_step nid x s)" "row (js_step nid x s) i = Some r"
    using Cons.prems inv_step terminal_step by auto
  with Cons show ?case by simp
qed simp

end
