(* ===== verification/JobGuarantees.thy ===== *)
theory JobGuarantees
  imports JobLife "HOL-Library.Multiset"
begin

text \<open>
  The guarantees of the in-process job store that span whole runs of it: exclusive leases,
  cancellation that wins, terminal states that last, recovery of expired leases, the attempt
  ledger, the compare-and-swap of schedules and complete pagination.
\<close>

section \<open>Leases\<close>

definition held_by :: "js \<Rightarrow> string \<Rightarrow> string \<Rightarrow> time \<Rightarrow> bool" where
  "held_by s i w b \<longleftrightarrow> (\<exists>r. row s i = Some r \<and> r_state r = StateRunning \<and> r_lockedBy r = w \<and> b \<le> r_lockedUntil r)"

text \<open>Operations that do not end the lease of \<open>w\<close> on \<open>i\<close> before \<open>b\<close>: the worker does not complete
  the job or shorten its own lease, and no sweep runs at \<open>b\<close> or later.\<close>

fun keeps_lease :: "string \<Rightarrow> string \<Rightarrow> time \<Rightarrow> js_op \<Rightarrow> bool" where
  "keeps_lease i w b (OComplete j x now o') \<longleftrightarrow> \<not> (j = i \<and> x = w)"
| "keeps_lease i w b (OHeartbeat j x now until) \<longleftrightarrow> (j = i \<and> x = w \<longrightarrow> b \<le> until)"
| "keeps_lease i w b (OSweepExpired now) \<longleftrightarrow> now < b"
| "keeps_lease i w b _ \<longleftrightarrow> True"

lemma lease_held_step:
  assumes "js_inv nid s" "inj nid" "held_by s i w b" "keeps_lease i w b oper"
  shows "held_by (js_step nid oper s) i w b"
proof -
  from assms(3) obtain r where r: "row s i = Some r" "r_state r = StateRunning" "r_lockedBy r = w" "b \<le> r_lockedUntil r"
    by (auto simp: held_by_def)
  from running_step [OF assms(1,2) r(1,2), of oper] r assms(4) show ?thesis
    by (cases oper) (auto simp: held_by_def lease_expired_def)
qed

lemma lease_held_run:
  assumes "js_inv nid s" "inj nid" "held_by s i w b" "\<forall>oper \<in> set ops. keeps_lease i w b oper"
  shows "held_by (js_run nid ops s) i w b"
  using assms
proof (induction ops arbitrary: s)
  case (Cons x xs)
  then have "js_inv nid (js_step nid x s)" "held_by (js_step nid x s) i w b"
    by (auto intro: inv_step lease_held_step)
  with Cons show ?case by simp
qed simp

text \<open>C1: A lease is exclusive: when a worker has claimed a job, then through any operations of
  any callers during which the worker neither completes it nor shortens its lease and no sweep
  reaches the lease's end, the job stays running under that worker; no claim returns it, no other
  worker's heartbeat or completion is accepted, and it cannot be deleted.\<close>

theorem jobs_lease_exclusive:
  assumes "inj nid" "s = js_run nid before js_New"
    and "js_Claim req s = (out, s1)" "c \<in> set out"
    and "\<forall>oper \<in> set ops. keeps_lease (cj_ID c) (cr_WorkerID req) (cj_LockedUntil c) oper"
    and "t = js_run nid ops s1"
  shows "(\<exists>r. row t (cj_ID c) = Some r \<and> r_state r = StateRunning \<and> r_lockedBy r = cr_WorkerID req \<and>
       cj_LockedUntil c \<le> r_lockedUntil r) \<and>
    (\<forall>req'. cj_ID c \<notin> cj_ID ` set (fst (js_Claim req' t))) \<and>
    (\<forall>w now until. w \<noteq> cr_WorkerID req \<longrightarrow> js_Heartbeat (cj_ID c) w now until t = (Inl ErrNotFound, t)) \<and>
    (\<forall>w now o'. w \<noteq> cr_WorkerID req \<longrightarrow> js_Complete nid (cj_ID c) w now o' t = (Inl ErrNotFound, t)) \<and>
    js_Delete (cj_ID c) t = (Some ErrJobRunning, t)"
proof -
  have inv: "js_inv nid s" using inv_run [OF js_inv_New assms(1)] assms(2) by simp
  have s1: "js_inv nid s1" using inv_Claim [OF inv, of req] assms(3) by simp
  from assms(3,4) obtain r where r: "r \<in> set (picked req s)" "c = claimed req r"
    by (auto simp: js_Claim_picked)
  have "row s1 (r_id r) = Some (lease_row req r)"
    using Claim_row [OF inv, of req "r_id r"] picked_rows(1) [OF inv r(1)] r(1) assms(3) by simp
  then have "held_by s1 (cj_ID c) (cr_WorkerID req) (cj_LockedUntil c)"
    by (simp add: held_by_def r(2) claimed_def)
  from lease_held_run [OF s1 assms(1) this assms(5)] obtain x where
    x: "row t (cj_ID c) = Some x" "r_state x = StateRunning" "r_lockedBy x = cr_WorkerID req" "cj_LockedUntil c \<le> r_lockedUntil x"
    unfolding assms(6) by (auto simp: held_by_def)
  have t: "js_inv nid t" unfolding assms(6) by (rule inv_run [OF s1 assms(1)])
  have "cj_ID c \<notin> cj_ID ` set (fst (js_Claim req' t))" for req'
  proof -
    have "\<not> claimable req' x" using x(2) by (simp add: claimable_def)
    from not_claimable_not_picked [OF t x(1) this] show ?thesis by (simp add: js_Claim_picked image_image)
  qed
  moreover have "leased_row (cj_ID c) w t = None" if "w \<noteq> cr_WorkerID req" for w
    using x that by (simp add: leased_row_def)
  ultimately show ?thesis
    using x by (simp add: js_Heartbeat_def js_Complete_def js_Delete_def)
qed

definition demo_outcome :: job_outcome where
  "demo_outcome = \<lparr>o_State = StateSucceeded, o_Attempt = 1, o_Error = [], o_AvailableAt = zeroTime,
     o_AttemptState = AttemptSucceeded, o_StartedAt = 7, o_FinishedAt = 8\<rparr>"

definition demo_store :: js where
  "demo_store = js_run demo_nid [OInsert 5 [demo_job]] js_New"

definition demo_row :: mem_row where
  "demo_row = new_row demo_job ''d'' StateAvailable 5"

lemma demo_store_eq:
  "demo_store = \<lparr>js_rows = [(''d'', demo_row)], js_uniq = [(row_key demo_job, ''d'')], js_attempts = [],
    js_workers = [], js_schedules = [], js_ids = 1\<rparr>"
  by (simp add: demo_store_def demo_row_def js_Insert_def insert_one_def live_holder_def js_New_def put_row_def
      demo_nid_def demo_job_def Let_def)

lemma demo_Claim:
  "js_Claim (demo_claim 6) demo_store = ([claimed (demo_claim 6) demo_row],
    demo_store\<lparr>js_rows := [(''d'', lease_row (demo_claim 6) demo_row)]\<rparr>)"
  by (simp add: demo_store_eq js_Claim_def demo_claim_def Let_def claimable_def demo_row_def new_row_def
      job.extend_def demo_job_def queue_full_def isZero_def zeroTime_def put_row_def lease_row_def)

theorem jobs_lease_exclusive_witness:
  "\<exists>s1. js_Claim (demo_claim 6) demo_store = ([claimed (demo_claim 6) demo_row], s1) \<and>
    (\<forall>req'. ''d'' \<notin> cj_ID ` set (fst (js_Claim req' (js_run demo_nid
       [OSweepExpired 7, OClaim (demo_claim 8), OHeartbeat ''d'' ''w'' 9 30, OComplete ''d'' ''x'' 9 demo_outcome] s1))))"
proof -
  let ?ops = "[OSweepExpired 7, OClaim (demo_claim 8), OHeartbeat ''d'' ''w'' 9 30, OComplete ''d'' ''x'' 9 demo_outcome]"
  let ?c = "claimed (demo_claim 6) demo_row"
  have "cj_ID ?c = ''d''" by (simp add: demo_row_def)
  moreover have "\<forall>oper \<in> set ?ops. keeps_lease (cj_ID ?c) (cr_WorkerID (demo_claim 6)) (cj_LockedUntil ?c) oper"
    by (simp add: claimed_def demo_claim_def demo_row_def)
  note jobs_lease_exclusive [OF inj_demo_nid demo_store_def demo_Claim _ this refl]
  ultimately show ?thesis using demo_Claim by auto
qed

section \<open>Cancellation and terminal states\<close>

text \<open>C2: A requested cancellation wins: once \<open>Cancel\<close> has flagged a running job, then through any
  operations of any callers other than an operator's retry or deletion of that job, it is either
  still running with the flag set, or cancelled; in the first case a completion by its worker,
  whatever outcome it reports, applies \<open>cancelled\<close> and records a cancelled attempt.\<close>

theorem jobs_cancel_wins:
  assumes "inj nid" "s = js_run nid before js_New"
    and "js_Cancel j now s = (Inr False, s1)"
    and "\<forall>oper \<in> set ops. \<not> touches j oper" "t = js_run nid ops s1"
  shows "\<exists>r. row t j = Some r \<and>
    (r_state r = StateCancelled \<or>
     r_state r = StateRunning \<and> r_cancelRequested r \<and>
     (\<forall>now' o'. \<exists>a t'. js_Complete nid j (r_lockedBy r) now' o' t = (Inr StateCancelled, t') \<and>
        ledger t' j = ledger t j @ [a] \<and> at_State a = AttemptCancelled))"
proof -
  have inv: "js_inv nid s" using inv_run [OF js_inv_New assms(1)] assms(2) by simp
  have s1: "js_inv nid s1" using inv_Cancel [OF inv, of j now] assms(3) by simp
  let ?P = "\<lambda>u. \<exists>r. row u j = Some r \<and> (r_state r = StateCancelled \<or> r_state r = StateRunning \<and> r_cancelRequested r)"
  have start: "?P s1"
    using assms(3) Cancel_row [OF inv, of j now j]
    by (auto simp: js_Cancel_def Let_def split: option.splits if_splits)
  have run: "?P (js_run nid xs u)" if "js_inv nid u" "?P u" "\<forall>oper \<in> set xs. \<not> touches j oper" for xs u
    using that
  proof (induction xs arbitrary: u)
    case (Cons x xs)
    from Cons.prems(2) obtain r where r: "row u j = Some r" by blast
    have "?P (js_step nid x u)"
    proof (cases "r_state r = StateCancelled")
      case True
      with terminal_step [OF Cons.prems(1) assms(1) r, of x] Cons.prems(3) show ?thesis by simp
    next
      case False
      then have "r_state r = StateRunning" "r_cancelRequested r" using Cons.prems(2) r by auto
      with running_step [OF Cons.prems(1) assms(1) r, of x] show ?thesis by (cases x) auto
    qed
    with Cons inv_step [OF Cons.prems(1) assms(1)] show ?case by simp
  qed simp
  from run [OF s1 start assms(4)] obtain r where
    r: "row t j = Some r" "r_state r = StateCancelled \<or> r_state r = StateRunning \<and> r_cancelRequested r"
    unfolding assms(5) by blast
  have t: "js_inv nid t" unfolding assms(5) by (rule inv_run [OF s1 assms(1)])
  have "\<exists>a t'. js_Complete nid j (r_lockedBy r) now' o' t = (Inr StateCancelled, t') \<and>
        ledger t' j = ledger t j @ [a] \<and> at_State a = AttemptCancelled"
    if run: "r_state r = StateRunning" "r_cancelRequested r" for now' o'
  proof -
    have l: "leased_row j (r_lockedBy r) t = Some r" using r(1) run by (simp add: leased_row_Some)
    have ri: "r_id r = j" by (rule js_invD(2) [OF t r(1)])
    have "fst (js_Complete nid j (r_lockedBy r) now' o' t) = Inr StateCancelled"
      using run by (simp add: Complete_eq [OF l ri])
    moreover have "ledger (snd (js_Complete nid j (r_lockedBy r) now' o' t)) j =
      ledger t j @ [completed_attempt (r_lockedBy r) now' o' r (nid (js_ids t))]"
      using run by (simp add: Complete_frame(2) [OF l ri] completion_record_def)
    moreover have "at_State (completed_attempt (r_lockedBy r) now' o' r (nid (js_ids t))) = AttemptCancelled"
      using run by (simp add: completed_attempt_def)
    ultimately show ?thesis by (metis prod.collapse)
  qed
  with r show ?thesis by blast
qed

definition leased_store :: js where
  "leased_store = js_run demo_nid [OInsert 5 [demo_job], OClaim (demo_claim 6)] js_New"

lemma leased_store_eq: "leased_store = demo_store\<lparr>js_rows := [(''d'', lease_row (demo_claim 6) demo_row)]\<rparr>"
  using demo_Claim by (simp add: leased_store_def demo_store_def)

theorem jobs_cancel_wins_witness:
  "\<exists>s1. js_Cancel ''d'' 7 leased_store = (Inr False, s1) \<and>
    (\<exists>r. row (js_run demo_nid [OSweepExpired 20] s1) ''d'' = Some r \<and>
      (r_state r = StateCancelled \<or> r_state r = StateRunning \<and> r_cancelRequested r))"
proof -
  have "fst (js_Cancel ''d'' 7 leased_store) = Inr False"
    by (simp add: leased_store_eq js_Cancel_def)
  then obtain s1 where c: "js_Cancel ''d'' 7 leased_store = (Inr False, s1)" by (metis prod.collapse)
  have "\<forall>oper \<in> set [OSweepExpired 20]. \<not> touches ''d'' oper" by simp
  from jobs_cancel_wins [OF inj_demo_nid leased_store_def c this refl] c show ?thesis by blast
qed

text \<open>Terminal means terminal: a job that has succeeded, failed, been cancelled or been discarded
  keeps its row through any operations of any callers except a retry or deletion of that very job,
  and no claim, heartbeat, completion or cancellation reaches it; a succeeded job cannot even be
  retried.\<close>

theorem jobs_terminal_stays:
  assumes "inj nid" "s = js_run nid before js_New" "row s j = Some r" "Terminal (r_state r)"
    and "\<forall>oper \<in> set ops. \<not> touches j oper" "t = js_run nid ops s"
  shows "row t j = Some r \<and> (\<forall>req. j \<notin> cj_ID ` set (fst (js_Claim req t))) \<and>
    (\<forall>w now until. js_Heartbeat j w now until t = (Inl ErrNotFound, t)) \<and>
    (\<forall>w now o'. js_Complete nid j w now o' t = (Inl ErrNotFound, t)) \<and>
    (\<forall>now. js_Cancel j now t = (Inl ErrJobTerminal, t)) \<and>
    (r_state r = StateSucceeded \<longrightarrow> (\<forall>now. js_Retry j now t = (Some ErrJobNotRetryable, t)))"
proof -
  have inv: "js_inv nid s" using inv_run [OF js_inv_New assms(1)] assms(2) by simp
  have row: "row t j = Some r"
    unfolding assms(6) by (rule terminal_run [OF inv assms(1,3,4,5)])
  have t: "js_inv nid t" unfolding assms(6) by (rule inv_run [OF inv assms(1)])
  have "\<not> claimable req r" for req using assms(4) by (auto simp: claimable_def)
  then have "j \<notin> cj_ID ` set (fst (js_Claim req t))" for req
    using not_claimable_not_picked [OF t row] by (simp add: js_Claim_picked image_image)
  moreover have "leased_row j w t = None" for w
    using row assms(4) by (auto simp: leased_row_def)
  ultimately show ?thesis
    using row assms(4) by (simp add: js_Heartbeat_def js_Complete_def js_Cancel_def js_Retry_def)
qed

theorem jobs_terminal_stays_witness:
  "\<exists>s r. s = js_run demo_nid [OInsert 5 [demo_job], OCancel ''d'' 6] js_New \<and> row s ''d'' = Some r \<and>
    Terminal (r_state r) \<and> row (js_run demo_nid [OClaim (demo_claim 8), OInsert 9 [demo_job]] s) ''d'' = Some r"
proof -
  define s where "s = js_run demo_nid [OInsert 5 [demo_job], OCancel ''d'' 6] js_New"
  have "s = js_step demo_nid (OCancel ''d'' 6) demo_store" by (simp add: s_def demo_store_def)
  then obtain r where r: "row s ''d'' = Some r" "Terminal (r_state r)"
    by (simp add: demo_store_eq js_Cancel_def demo_row_def frame_simps Let_def)
  have "\<forall>oper \<in> set [OClaim (demo_claim 8), OInsert 9 [demo_job]]. \<not> touches ''d'' oper" by simp
  from jobs_terminal_stays [OF inj_demo_nid s_def r this refl] r s_def show ?thesis by blast
qed

section \<open>Lease recovery\<close>

text \<open>C29: Sweeping recovers every lost lease and touches nothing else: after \<open>SweepExpired\<close> no
  running job has an expired lease; each job that had one gained exactly one attempt in its count
  and its ledger and is cancelled when cancellation was requested, discarded when that was its last
  attempt, and otherwise available at once to any claim for its queue and handler; all other rows
  and ledgers are unchanged, and the count returned is the number of recovered jobs.\<close>

theorem jobs_sweep_recovers:
  assumes "inj nid" "s = js_run nid before js_New" "js_SweepExpired nid now s = (n, t)" "now \<noteq> zeroTime"
  shows "(\<forall>i r. row t i = Some r \<longrightarrow> \<not> lease_expired now r) \<and>
    (\<forall>i r. row s i = Some r \<longrightarrow> lease_expired now r \<longrightarrow>
      (\<exists>r' a. row t i = Some r' \<and> r_attempt r' = r_attempt r + 1 \<and> ledger t i = ledger s i @ [a] \<and>
         at_Attempt a = r_attempt r' \<and> at_WorkerID a = r_lockedBy r \<and>
         (if r_cancelRequested r then r_state r' = StateCancelled
          else if r_attempt r + 1 \<ge> MaxAttempts r then r_state r' = StateDiscarded
          else r_state r' = StateAvailable \<and>
            (\<forall>req. now \<le> cr_Now req \<longrightarrow> (Kind r, HandlerID r) \<in> set (cr_Handlers req) \<longrightarrow>
               Queue r \<in> set (cr_Queues req) \<longrightarrow> claimable req r')))) \<and>
    (\<forall>i. (\<forall>r. row s i = Some r \<longrightarrow> \<not> lease_expired now r) \<longrightarrow> row t i = row s i \<and> ledger t i = ledger s i) \<and>
    n = int (length (filter (lease_expired now) (map snd (js_rows s))))"
proof -
  have inv: "js_inv nid s" using inv_run [OF js_inv_New assms(1)] assms(2) by simp
  have t: "t = snd (js_SweepExpired nid now s)" "n = fst (js_SweepExpired nid now s)" using assms(3) by simp_all
  note sp = SweepExpired_spec [OF inv, of now, folded t]
  have "\<not> lease_expired now (swept now r)" for r by (simp add: lease_expired_def)
  then have "\<forall>i r. row t i = Some r \<longrightarrow> \<not> lease_expired now r"
    using sp(2) by (auto split: if_splits)
  moreover have "\<exists>r' a. row t i = Some r' \<and> r_attempt r' = r_attempt r + 1 \<and> ledger t i = ledger s i @ [a] \<and>
         at_Attempt a = r_attempt r' \<and> at_WorkerID a = r_lockedBy r \<and>
         (if r_cancelRequested r then r_state r' = StateCancelled
          else if r_attempt r + 1 \<ge> MaxAttempts r then r_state r' = StateDiscarded
          else r_state r' = StateAvailable \<and>
            (\<forall>req. now \<le> cr_Now req \<longrightarrow> (Kind r, HandlerID r) \<in> set (cr_Handlers req) \<longrightarrow>
               Queue r \<in> set (cr_Queues req) \<longrightarrow> claimable req r'))"
    if r: "row s i = Some r" "lease_expired now r" for i r
  proof -
    from sp(3) [of i] r obtain x where a: "ledger t i = ledger s i @ [swept_attempt now r x]" by auto
    have "AvailableAt (swept now r) = now" if "\<not> r_cancelRequested r" "\<not> r_attempt r + 1 \<ge> MaxAttempts r"
      using that by (simp add: swept_def)
    then show ?thesis
      using a r sp(2) [of i]
      by (intro exI [of _ "swept now r"] exI [of _ "swept_attempt now r x"])
        (auto simp: swept_attempt_def claimable_def)
  qed
  moreover have "row t i = row s i \<and> ledger t i = ledger s i"
    if "\<forall>r. row s i = Some r \<longrightarrow> \<not> lease_expired now r" for i
    using that sp(2,3) [of i] by (cases "row s i") auto
  ultimately show ?thesis using sp(4) by blast
qed

theorem jobs_sweep_recovers_witness:
  "\<exists>n t. js_SweepExpired demo_nid 16 leased_store = (n, t) \<and>
    (\<forall>i r. row t i = Some r \<longrightarrow> \<not> lease_expired 16 r) \<and> n = 1"
proof -
  obtain n t where e: "js_SweepExpired demo_nid 16 leased_store = (n, t)" by fastforce
  have z: "(16::time) \<noteq> zeroTime" by (simp add: zeroTime_def)
  note th = jobs_sweep_recovers [OF inj_demo_nid leased_store_def e z]
  have "length (filter (lease_expired 16) (map snd (js_rows leased_store))) = 1"
    by (simp add: leased_store_eq lease_expired_def demo_claim_def isZero_def zeroTime_def)
  with th [THEN conjunct2, THEN conjunct2, THEN conjunct2] have "n = 1" by simp
  with e th [THEN conjunct1] show ?thesis by blast
qed

section \<open>The attempt ledger\<close>

text \<open>A completion is numbered when it records the attempt after those the job has had, as the worker
  does.\<close>

fun numbered :: "js \<Rightarrow> js_op \<Rightarrow> bool" where
  "numbered s (OComplete j w now o') \<longleftrightarrow>
    (case leased_row j w s of None \<Rightarrow> True
     | Some r \<Rightarrow> o_AttemptState o' \<noteq> AttemptNone \<longrightarrow> o_Attempt o' = r_attempt r + 1)"
| "numbered s _ \<longleftrightarrow> True"

fun numbered_run :: "(nat \<Rightarrow> string) \<Rightarrow> js_op list \<Rightarrow> js \<Rightarrow> bool" where
  "numbered_run nid [] s \<longleftrightarrow> True"
| "numbered_run nid (x # xs) s \<longleftrightarrow> numbered s x \<and> numbered_run nid xs (js_step nid x s)"

definition counted :: "mem_row \<Rightarrow> attempt_row list \<Rightarrow> bool" where
  "counted r as \<longleftrightarrow> 0 \<le> r_attempt r \<and> map at_Attempt as = [1..r_attempt r]"

definition ledger_ok :: "js \<Rightarrow> bool" where
  "ledger_ok s \<longleftrightarrow> (\<forall>i. case row s i of None \<Rightarrow> ledger s i = [] | Some r \<Rightarrow> counted r (ledger s i))"

lemma counted_next:
  "counted r as \<Longrightarrow> r_attempt r' = r_attempt r + 1 \<Longrightarrow> at_Attempt a = r_attempt r + 1 \<Longrightarrow> counted r' (as @ [a])"
  by (simp add: counted_def upto_rec2)

lemma counted_cong: "counted r as \<Longrightarrow> r_attempt r' = r_attempt r \<Longrightarrow> counted r' as"
  by (simp add: counted_def)

lemma ledger_okI:
  assumes "\<And>i. row s i = None \<Longrightarrow> ledger s i = []" "\<And>i r. row s i = Some r \<Longrightarrow> counted r (ledger s i)"
  shows "ledger_ok s"
  using assms by (auto simp: ledger_ok_def split: option.splits)

lemma ledger_okD:
  assumes "ledger_ok s"
  shows "row s i = None \<Longrightarrow> ledger s i = []" "row s i = Some r \<Longrightarrow> counted r (ledger s i)"
  using assms [unfolded ledger_ok_def, rule_format, of i] by auto

lemma ledger_ok_same:
  assumes "ledger_ok s" "ledger s' = ledger s" "\<And>i. map_option r_attempt (row s' i) = map_option r_attempt (row s i)"
  shows "ledger_ok s'"
proof (rule ledger_okI)
  fix i
  show "row s' i = None \<Longrightarrow> ledger s' i = []" using ledger_okD(1) [OF assms(1), of i] assms(2) assms(3) [of i] by simp
  show "counted r (ledger s' i)" if "row s' i = Some r" for r
    using that ledger_okD(2) [OF assms(1), of i] assms(2) assms(3) [of i]
    by (cases "row s i") (auto intro: counted_cong)
qed

lemma ledger_attempts_cong: "js_attempts s' = js_attempts s \<Longrightarrow> ledger s' = ledger s"
  by (simp add: ledger_def fun_eq_iff)

lemma insert_one_ledger: "ledger_ok s \<Longrightarrow> js_inv nid s \<Longrightarrow> inj nid \<Longrightarrow> ledger_ok (snd (insert_one nid now j s))"
proof -
  assume a: "ledger_ok s" "js_inv nid s" "inj nid"
  show ?thesis
  proof (cases "live_holder s j")
    case None
    have "js_attempts (snd (insert_one nid now j s)) = js_attempts s"
      using None by (simp add: insert_one_def Let_def frame_simps)
    then have l: "ledger (snd (insert_one nid now j s)) = ledger s" by (rule ledger_attempts_cong)
    have "row (snd (insert_one nid now j s)) = (row s)(nid (js_ids s) \<mapsto>
        new_row j (nid (js_ids s)) (if AvailableAt j > now then StatePending else StateAvailable) now)"
      using None by (simp add: insert_one_def Let_def frame_simps)
    note s' = this l
    show ?thesis
    proof (rule ledger_okI)
      fix i
      show "row (snd (insert_one nid now j s)) i = None \<Longrightarrow> ledger (snd (insert_one nid now j s)) i = []"
        using ledger_okD(1) [OF a(1), of i] by (simp add: s' split: if_splits)
      show "counted r (ledger (snd (insert_one nid now j s)) i)" if "row (snd (insert_one nid now j s)) i = Some r" for r
      proof (cases "i = nid (js_ids s)")
        case True
        with that ledger_okD(1) [OF a(1) fresh_id [OF a(2,3)]] show ?thesis by (auto simp: s' counted_def)
      next
        case False
        with that ledger_okD(2) [OF a(1), of i r] show ?thesis by (simp add: s')
      qed
    qed
  qed (use a in \<open>auto simp: insert_one_def\<close>)
qed

lemma insertLocked_ledger:
  "ledger_ok s \<Longrightarrow> js_inv nid s \<Longrightarrow> inj nid \<Longrightarrow> ledger_ok (snd (insertLocked nid now jobs s))"
proof (induction jobs arbitrary: s)
  case (Cons j js)
  then show ?case
    using insert_one_ledger [OF Cons.prems, of now j] inv_insert_one [OF Cons.prems(2,3), of now j]
    by (simp add: Let_def case_prod_unfold)
qed simp



lemma fold_lease_frame:
  "js_attempts (fold (\<lambda>r. put_row (lease_row req r)) rs s) = js_attempts s \<and>
   js_schedules (fold (\<lambda>r. put_row (lease_row req r)) rs s) = js_schedules s"
  by (induction rs arbitrary: s) (simp_all add: frame_simps)

lemma ledger_step:
  assumes "ledger_ok s" "js_inv nid s" "inj nid" "numbered s oper"
  shows "ledger_ok (js_step nid oper s)"
proof (cases oper)
  case (OInsert now jobs)
  then show ?thesis using insertLocked_ledger [OF assms(1-3)] by (simp add: js_Insert_def)
next
  case (OClaim req)
  have l: "ledger (snd (js_Claim req s)) = ledger s"
    using fold_lease_frame by (intro ledger_attempts_cong) (simp add: js_Claim_picked)
  show ?thesis
    by (rule ledger_ok_same [OF assms(1)])
      (simp_all add: OClaim l Claim_row [OF assms(2)] option.map_comp comp_def)
next
  case (OHeartbeat j w now until)
  have "ledger (snd (js_Heartbeat j w now until s)) = ledger s"
    by (auto simp: js_Heartbeat_def frame_simps split: option.splits)
  then show ?thesis
    by (intro ledger_ok_same [OF assms(1)])
      (auto simp: OHeartbeat Heartbeat_row [OF assms(2)] split: option.splits)
next
  case (OComplete j w now o')
  show ?thesis
  proof (cases "leased_row j w s")
    case None
    then show ?thesis using OComplete assms(1) by (simp add: js_Complete_def)
  next
    case (Some r)
    then have r: "row s j = Some r" "r_id r = j" using js_invD(2) [OF assms(2)] by (auto simp: leased_row_Some)
    note f = Complete_frame [OF Some r(2), of nid now o']
    have c: "counted r (ledger s j)" by (rule ledger_okD(2) [OF assms(1) r(1)])
    have "counted (completed now o' r) (ledger (snd (js_Complete nid j w now o' s)) j)"
    proof (cases "completion_record o' r")
      case True
      have "r_attempt (completed now o' r) = r_attempt r + 1"
        "at_Attempt (completed_attempt w now o' r x) = r_attempt r + 1" for x
        using True assms(4) OComplete Some
        by (auto simp: completed_def completed_attempt_def completion_record_def Let_def)
      then show ?thesis using True c by (simp add: f(2) counted_next)
    next
      case False
      then have "r_attempt (completed now o' r) = r_attempt r"
        by (simp add: completed_def completion_record_def Let_def)
      with False c show ?thesis by (simp add: f(2) counted_def)
    qed
    then show ?thesis
      using ledger_okD [OF assms(1)] by (intro ledger_okI) (auto simp: OComplete f split: if_splits)
  qed
next
  case (OSweepExpired now)
  let ?t = "snd (js_SweepExpired nid now s)"
  note sp = SweepExpired_spec [OF assms(2), of now]
  show ?thesis
  proof (rule ledger_okI)
    fix i
    obtain x where x: "ledger ?t i = (case row s i of
       Some r \<Rightarrow> if lease_expired now r then ledger s i @ [swept_attempt now r x] else ledger s i | None \<Rightarrow> ledger s i)"
      using sp(3) by blast
    show "row (js_step nid oper s) i = None \<Longrightarrow> ledger (js_step nid oper s) i = []"
      using ledger_okD(1) [OF assms(1), of i] x sp(2) [of i] by (simp add: OSweepExpired)
    show "counted r (ledger (js_step nid oper s) i)" if "row (js_step nid oper s) i = Some r" for r
    proof (cases "row s i")
      case None
      then show ?thesis using that sp(2) [of i] by (simp add: OSweepExpired)
    next
      case (Some r0)
      have c: "counted r0 (ledger s i)" by (rule ledger_okD(2) [OF assms(1) Some])
      have "at_Attempt (swept_attempt now r0 x) = r_attempt r0 + 1" by (simp add: swept_attempt_def)
      from counted_next [OF c _ this, of "swept now r0"] c x that sp(2) [of i] Some
      show ?thesis by (simp add: OSweepExpired split: if_splits)
    qed
  qed
next
  case (ORetry j now)
  show ?thesis
  proof (cases rule: Retry_cases [OF assms(2), of j now, case_names Refused Revived])
    case (Revived r)
    have "ledger (snd (js_Retry j now s)) = ledger s"
      using Revived(5) by (intro ledger_attempts_cong) (simp add: frame_simps)
    then show ?thesis
      using Revived(1,5) other_row [OF assms(2) Revived(1)]
      by (intro ledger_ok_same [OF assms(1)]) (auto simp: ORetry frame_simps)
  qed (use assms(1) ORetry in simp)
next
  case (OCancel j now)
  have "ledger (snd (js_Cancel j now s)) = ledger s"
    by (auto simp: js_Cancel_def Let_def frame_simps split: option.splits)
  then show ?thesis
    by (intro ledger_ok_same [OF assms(1)]) (auto simp: OCancel Cancel_row [OF assms(2)] split: option.splits)
next
  case (ODelete j)
  have "row (snd (js_Delete j s)) i = row s i \<and> ledger (snd (js_Delete j s)) i = ledger s i \<or>
    row (snd (js_Delete j s)) i = None \<and> ledger (snd (js_Delete j s)) i = []" for i
    by (auto simp: js_Delete_def frame_simps ledger_def split: option.splits)
  then show ?thesis using ledger_okD [OF assms(1)] ODelete
    by (intro ledger_okI) (metis js_step.simps(8) option.distinct(1))+
next
  case (OFireSchedule f)
  have "ledger_ok (snd (insertLocked nid (sf_Now f) (sf_Jobs f) s))" by (rule insertLocked_ledger [OF assms(1-3)])
  then have "ledger_ok ((snd (insertLocked nid (sf_Now f) (sf_Jobs f) s))\<lparr>js_schedules := x\<rparr>)" for x
    by (rule ledger_ok_same) (simp_all add: ledger_def fun_eq_iff)
  with assms(1) OFireSchedule show ?thesis
    by (simp add: js_FireSchedule_def Let_def case_prod_unfold split: option.split)
qed (auto intro!: ledger_ok_same [OF assms(1)] simp: rest_rows ledger_def fun_eq_iff js_UpsertWorker_def
    js_RetireWorker_def js_SweepStaleWorkers_def js_UpsertSchedule_def js_DeleteSchedule_def Let_def)

lemma ledger_run:
  "ledger_ok s \<Longrightarrow> js_inv nid s \<Longrightarrow> inj nid \<Longrightarrow> numbered_run nid ops s \<Longrightarrow> ledger_ok (js_run nid ops s)"
  by (induction ops arbitrary: s) (auto intro: ledger_step inv_step)

lemma attempts_loop_all: "lim \<le> 0 \<Longrightarrow> attempts_loop after lim xs out = out @ filter (\<lambda>a. after < at_Attempt a) xs"
  by (induction xs arbitrary: out) auto

lemma attempts_loop_take:
  "int (length out) < lim \<Longrightarrow>
    attempts_loop after lim xs out = out @ take (nat lim - length out) (filter (\<lambda>a. after < at_Attempt a) xs)"
proof (induction xs arbitrary: out)
  case (Cons a as)
  show ?case
  proof (cases "at_Attempt a \<le> after")
    case False
    show ?thesis
    proof (cases "int (length (out @ [a])) \<ge> lim")
      case True
      then have "nat lim - length out = 1" using Cons.prems by simp
      with True False Cons.prems show ?thesis by simp
    next
      case False2: False
      then have "nat lim - length out = Suc (nat lim - length (out @ [a]))" by simp
      with False2 False Cons show ?thesis by simp
    qed
  qed (use Cons in simp)
qed simp

lemma filter_upto: "filter (\<lambda>x. after < x) [1..n] = [max 1 (after + 1)..n]" for n :: int
proof (rule sorted_distinct_set_unique)
  show "set (filter (\<lambda>x. after < x) [1..n]) = set [max 1 (after + 1)..n]" by auto
qed (simp_all add: sorted_wrt_filter)

text \<open>The ledger is complete and in order: when completions are numbered as the worker numbers
  them, then in every reachable state a job's ledger holds exactly one attempt for each number from 1
  to the job's attempt count, and a page of \<open>ListAttempts\<close> has exactly the attempts after the given
  number, oldest first, up to the limit.\<close>

theorem jobs_attempt_ledger:
  assumes "inj nid" "numbered_run nid ops js_New" "s = js_run nid ops js_New" "row s j = Some r"
  shows "map at_Attempt (ledger s j) = [1..r_attempt r] \<and>
    map at_Attempt (js_ListAttempts j after lim s) =
      (if lim > 0 then take (nat lim) [max 1 (after + 1)..r_attempt r] else [max 1 (after + 1)..r_attempt r]) \<and>
    set (js_ListAttempts j after lim s) \<subseteq> set (ledger s j)"
proof -
  have "ledger_ok js_New" by (simp add: ledger_ok_def js_New_def ledger_def)
  from ledger_run [OF this js_inv_New assms(1,2)] have "ledger_ok s" by (simp add: assms(3))
  then have c: "map at_Attempt (ledger s j) = [1..r_attempt r]"
    using ledger_okD(2) [OF _ assms(4)] by (simp add: counted_def)
  let ?page = "if lim > 0 then take (nat lim) (filter (\<lambda>a. after < at_Attempt a) (ledger s j))
    else filter (\<lambda>a. after < at_Attempt a) (ledger s j)"
  have loop: "attempts_loop after lim (ledger s j) [] = ?page"
    using attempts_loop_take [of "[]" lim after] attempts_loop_all [of lim after] by simp
  have f: "map at_Attempt (filter (\<lambda>a. after < at_Attempt a) (ledger s j)) = [max 1 (after + 1)..r_attempt r]"
    using filter_map [of "\<lambda>x. after < x" at_Attempt "ledger s j"] by (simp add: c filter_upto comp_def)
  then have m: "map at_Attempt ?page =
    (if lim > 0 then take (nat lim) [max 1 (after + 1)..r_attempt r] else [max 1 (after + 1)..r_attempt r])"
    by (simp add: take_map [symmetric])
  have "sorted (map at_Attempt ?page)" unfolding m by (simp add: sorted_wrt_take)
  then have "sort_key at_Attempt ?page = ?page" by (rule sort_key_id_if_sorted)
  then have "js_ListAttempts j after lim s = ?page"
    using loop by (simp add: js_ListAttempts_def ledger_def)
  moreover have "set ?page \<subseteq> set (ledger s j)" by (auto dest: in_set_takeD)
  ultimately show ?thesis using c m by simp
qed

theorem jobs_attempt_ledger_witness:
  "\<exists>ops s r. ops = [OInsert 5 [demo_job], OClaim (demo_claim 6), OSweepExpired 20] \<and>
    s = js_run demo_nid ops js_New \<and> row s ''d'' = Some r \<and> r_attempt r = 1 \<and>
    map at_Attempt (js_ListAttempts ''d'' 0 5 s) = [1]"
proof -
  let ?ops = "[OInsert 5 [demo_job], OClaim (demo_claim 6), OSweepExpired 20]"
  define s where "s = js_run demo_nid ?ops js_New"
  have n: "numbered_run demo_nid ?ops js_New" by simp
  have "s = snd (js_SweepExpired demo_nid 20 leased_store)" by (simp add: s_def leased_store_def)
  moreover have "js_inv demo_nid leased_store"
    unfolding leased_store_def by (rule inv_run [OF js_inv_New inj_demo_nid])
  ultimately obtain r where r: "row s ''d'' = Some r" "r_attempt r = 1"
    by (simp add: SweepExpired_spec(2) leased_store_eq lease_expired_def demo_claim_def isZero_def zeroTime_def demo_row_def)
  from jobs_attempt_ledger [OF inj_demo_nid n s_def r(1), of 0 5] r s_def show ?thesis by auto
qed

section \<open>Schedules\<close>

lemma insertLocked_frame:
  "js_schedules (snd (insertLocked nid now jobs s)) = js_schedules s \<and> js_workers (snd (insertLocked nid now jobs s)) = js_workers s"
proof (induction jobs arbitrary: s)
  case (Cons j js)
  have "js_schedules (snd (insert_one nid now j s)) = js_schedules s \<and> js_workers (snd (insert_one nid now j s)) = js_workers s"
    by (auto simp: insert_one_def Let_def put_row_def split: option.splits)
  with Cons show ?case by (simp add: Let_def case_prod_unfold)
qed simp

lemma sweep_loop_frame: "js_schedules (snd (sweep_loop nid now rs n s)) = js_schedules s"
  by (induction rs arbitrary: n s) (auto simp: sweep_row_eq Let_def frame_simps)

definition last_run :: "js \<Rightarrow> string \<Rightarrow> (bool \<times> time) option" where
  "last_run s k = map_option (\<lambda>r. (sr_LastRunSet r, sr_LastRunAt r)) (map_of (js_schedules s) k)"

fun moves_schedule :: "string \<Rightarrow> js_op \<Rightarrow> bool" where
  "moves_schedule k (OFireSchedule f) \<longleftrightarrow> schedKey (sf_Group f) (sf_Name f) = k"
| "moves_schedule k (ODeleteSchedule g n) \<longleftrightarrow> schedKey g n = k"
| "moves_schedule k _ \<longleftrightarrow> False"

lemma last_run_cong: "js_schedules s' = js_schedules s \<Longrightarrow> last_run s' k = last_run s k"
  by (simp add: last_run_def)

lemma last_run_step:
  assumes "js_inv nid s" "last_run s k \<noteq> None" "\<not> moves_schedule k oper"
  shows "last_run (js_step nid oper s) k = last_run s k"
proof (cases oper)
  case (OInsert now jobs)
  then show ?thesis using insertLocked_frame by (intro last_run_cong) (simp add: js_Insert_def)
next
  case (OClaim req)
  then show ?thesis using fold_lease_frame by (intro last_run_cong) (simp add: js_Claim_picked)
next
  case (OHeartbeat j w now until)
  then show ?thesis by (intro last_run_cong) (simp add: js_Heartbeat_def frame_simps split: option.split)
next
  case (OComplete j w now o')
  show ?thesis
  proof (cases "leased_row j w s")
    case (Some r)
    then have "r_id r = j" using js_invD(2) [OF assms(1)] by (auto simp: leased_row_Some)
    then show ?thesis unfolding OComplete
      by (intro last_run_cong) (simp add: Complete_eq [OF Some] Let_def frame_simps)
  qed (simp add: OComplete js_Complete_def)
next
  case (OSweepExpired now)
  then show ?thesis using sweep_loop_frame by (intro last_run_cong) (simp add: js_SweepExpired_def)
next
  case (ORetry j now)
  show ?thesis
    by (cases rule: Retry_cases [OF assms(1), of j now, case_names Refused Revived])
      (simp_all add: ORetry last_run_def frame_simps)
next
  case (OCancel j now)
  then show ?thesis by (intro last_run_cong) (simp add: js_Cancel_def Let_def frame_simps split: option.split)
next
  case (ODelete j)
  then show ?thesis by (intro last_run_cong) (simp add: js_Delete_def frame_simps split: option.split)
next
  case (OFireSchedule f)
  then have "schedKey (sf_Group f) (sf_Name f) \<noteq> k" using assms(3) by simp
  then show ?thesis using OFireSchedule insertLocked_frame [of nid "sf_Now f" "sf_Jobs f" s]
    by (simp add: last_run_def js_FireSchedule_def Let_def case_prod_unfold split: option.split)
next
  case (OUpsertSchedule r)
  then show ?thesis using assms(2)
    by (auto simp: last_run_def js_UpsertSchedule_def Let_def split: option.splits)
qed (use assms in \<open>auto simp: last_run_def js_UpsertWorker_def js_RetireWorker_def js_SweepStaleWorkers_def
    js_DeleteSchedule_def Let_def\<close>)

lemma last_run_run:
  assumes "js_inv nid s" "inj nid" "last_run s k \<noteq> None" "\<forall>oper \<in> set ops. \<not> moves_schedule k oper"
  shows "last_run (js_run nid ops s) k = last_run s k"
  using assms
proof (induction ops arbitrary: s)
  case (Cons x xs)
  have "last_run (js_step nid x s) k = last_run s k" using last_run_step [OF Cons.prems(1,3)] Cons.prems(4) by simp
  with Cons inv_step [OF Cons.prems(1,2), of x] show ?case by simp
qed simp

text \<open>A tick fires once: when one scheduler has fired a schedule, then another scheduler that had
  read the same last run, whenever it fires after that, loses and inserts no job, whatever the store
  did in between short of firing or deleting the schedule itself; and the winner advanced the schedule
  and inserted its jobs in the same step.\<close>

theorem jobs_fire_once:
  assumes "inj nid" "s = js_run nid before js_New"
    and "js_FireSchedule nid f s = (Inr (True, res), s1)"
    and "sf_NewLastRun f \<noteq> zeroTime" "sf_ExpectedLastRun f \<noteq> Some (sf_NewLastRun f)"
    and "schedKey (sf_Group f) (sf_Name f) = k" "schedKey (sf_Group f') (sf_Name f') = k"
    and "sf_ExpectedLastRun f' = sf_ExpectedLastRun f"
    and "\<forall>oper \<in> set ops. \<not> moves_schedule k oper" "t = js_run nid ops s1"
  shows "js_FireSchedule nid f' t = (Inr (False, []), t) \<and>
    res = fst (insertLocked nid (sf_Now f) (sf_Jobs f) s) \<and>
    js_rows s1 = js_rows (snd (insertLocked nid (sf_Now f) (sf_Jobs f) s)) \<and>
    last_run s1 k = Some (True, sf_NewLastRun f)"
proof -
  have inv: "js_inv nid s" using inv_run [OF js_inv_New assms(1)] assms(2) by simp
  have s1: "js_inv nid s1" using inv_FireSchedule [OF inv assms(1), of f] assms(3) by simp
  have w: "res = fst (insertLocked nid (sf_Now f) (sf_Jobs f) s) \<and>
    js_rows s1 = js_rows (snd (insertLocked nid (sf_Now f) (sf_Jobs f) s)) \<and>
    last_run s1 k = Some (True, sf_NewLastRun f)"
    using assms(3,4,6)
    by (auto simp: js_FireSchedule_def Let_def case_prod_unfold last_run_def isZero_def split: option.splits if_splits)
  then have "last_run t k = Some (True, sf_NewLastRun f)"
    unfolding assms(10) using last_run_run [OF s1 assms(1) _ assms(9)] by simp
  then have "js_FireSchedule nid f' t = (Inr (False, []), t)"
    using assms(5,7,8)
    by (auto simp: js_FireSchedule_def Let_def last_run_def split: option.splits)
  with w show ?thesis by blast
qed

definition demo_schedule :: schedule_row where
  "demo_schedule = \<lparr>sr_Group = ''g'', sr_Name = ''n'', sr_Kind = ''mail'', sr_Spec = ''every:1m0s'', sr_Payload = ''{}'',
     sr_OptionsJSON = ''{}'', sr_NextRunAt = 9, sr_LastRunAt = zeroTime, sr_LastRunSet = False, sr_UpdatedAt = 1\<rparr>"

definition demo_fire :: schedule_fire where
  "demo_fire = \<lparr>sf_Group = ''g'', sf_Name = ''n'', sf_ExpectedLastRun = None, sf_NewLastRun = 9, sf_NewNextRun = 19,
     sf_Now = 10, sf_Jobs = [demo_job]\<rparr>"

theorem jobs_fire_once_witness:
  "\<exists>res s1. js_FireSchedule demo_nid demo_fire (js_run demo_nid [OUpsertSchedule demo_schedule] js_New) = (Inr (True, res), s1) \<and>
    js_FireSchedule demo_nid demo_fire (js_run demo_nid [OUpsertSchedule demo_schedule, OClaim (demo_claim 12)] s1) =
      (Inr (False, []), js_run demo_nid [OUpsertSchedule demo_schedule, OClaim (demo_claim 12)] s1)"
proof -
  let ?s = "js_run demo_nid [OUpsertSchedule demo_schedule] js_New"
  let ?ops = "[OUpsertSchedule demo_schedule, OClaim (demo_claim 12)]"
  have "\<exists>res s1. js_FireSchedule demo_nid demo_fire ?s = (Inr (True, res), s1)"
    by (simp add: js_FireSchedule_def js_UpsertSchedule_def js_New_def demo_schedule_def demo_fire_def Let_def case_prod_unfold)
  then obtain res s1 where f: "js_FireSchedule demo_nid demo_fire ?s = (Inr (True, res), s1)" by blast
  have c: "sf_NewLastRun demo_fire \<noteq> zeroTime" "sf_ExpectedLastRun demo_fire \<noteq> Some (sf_NewLastRun demo_fire)"
    by (simp_all add: demo_fire_def zeroTime_def)
  have m: "\<forall>oper \<in> set ?ops. \<not> moves_schedule (schedKey (sf_Group demo_fire) (sf_Name demo_fire)) oper" by simp
  from jobs_fire_once [OF inj_demo_nid refl f c refl refl refl m refl] f show ?thesis by blast
qed

section \<open>Pagination\<close>

lemma DecodeCursor_EncodeCursor:
  assumes "int64 t"
  shows "DecodeCursor (EncodeCursor t i) = Inr (t, i)" "EncodeCursor t i \<noteq> []"
proof -
  show ne: "EncodeCursor t i \<noteq> []" by (simp add: EncodeCursor_def b64_encode_Nil_iff)
  have u: "unixNano t = t" using assms by (simp add: unixNano_id_iff)
  show "DecodeCursor (EncodeCursor t i) = Inr (t, i)"
    using ne parseInt_formatInt [OF assms] cut_join [OF formatInt_no_colon, of t i]
    unfolding DecodeCursor_def by (simp add: EncodeCursor_def b64_round_trip u)
qed

text \<open>A caller that follows the cursors: at most \<open>n\<close> pages, \<open>None\<close> if they were not enough.\<close>

fun list_pages :: "nat \<Rightarrow> list_filter \<Rightarrow> js \<Rightarrow> job_info list option" where
  "list_pages 0 f s = None"
| "list_pages (Suc n) f s =
    (case js_List f s of Inl e \<Rightarrow> None
     | Inr (rows, nextCursor) \<Rightarrow> if nextCursor = [] then Some rows
        else map_option (\<lambda>rest. rows @ rest) (list_pages n (f\<lparr>lf_Cursor := nextCursor\<rparr>) s))"

definition matching :: "list_filter \<Rightarrow> js \<Rightarrow> mem_row list" where
  "matching f s = sort_key list_order (filter (\<lambda>r. rowMatches r f) (map snd (js_rows s)))"

lemma before_cursor_order: "before_cursor t i r \<longleftrightarrow> list_order r \<le> (t, i)"
  by (auto simp: before_cursor_def list_order_def less_eq_prod_def)

lemma filter_after_nth:
  assumes "sorted_wrt (\<lambda>x y. g x < (g y :: 'k :: linorder)) xs" "k < length xs"
  shows "filter (\<lambda>x. \<not> g x \<le> g (xs ! k)) xs = drop (Suc k) xs"
proof -
  have le: "g x \<le> g (xs ! k)" if x: "x \<in> set (take (Suc k) xs)" for x
  proof -
    from x obtain i where i: "i < Suc k" "i < length xs" "x = xs ! i" by (auto simp: in_set_conv_nth)
    show ?thesis
    proof (cases "i = k")
      case False
      with i assms show ?thesis by (auto simp: sorted_wrt_iff_nth_less intro: less_imp_le)
    qed (simp add: i)
  qed
  have gt: "g (xs ! k) < g x" if x: "x \<in> set (drop (Suc k) xs)" for x
  proof -
    from x obtain i where i: "i < length (drop (Suc k) xs)" "x = drop (Suc k) xs ! i" by (auto simp: in_set_conv_nth)
    then have "Suc k + i < length xs" "x = xs ! (Suc k + i)" by auto
    with assms(1) show ?thesis by (simp add: sorted_wrt_iff_nth_less)
  qed
  have "filter (\<lambda>x. \<not> g x \<le> g (xs ! k)) (take (Suc k) xs) = []" using le by (simp add: filter_empty_conv)
  moreover have "filter (\<lambda>x. \<not> g x \<le> g (xs ! k)) (drop (Suc k) xs) = drop (Suc k) xs"
    using gt by (simp add: filter_id_conv not_le)
  ultimately show ?thesis by (metis append_Nil append_take_drop_id filter_append)
qed

lemma matching_sorted:
  assumes "js_inv nid s"
  shows "sorted_wrt (\<lambda>x y. list_order x < list_order y) (matching f s)"
proof -
  have "distinct (map r_id (filter (\<lambda>r. rowMatches r f) (map snd (js_rows s))))"
    using rows_snd(2) [OF assms] by (rule distinct_map_filter)
  then have "distinct (map list_order (matching f s))"
    by (simp add: matching_def distinct_map inj_on_def list_order_def)
  moreover have "sorted (map list_order (matching f s))" by (simp add: matching_def)
  ultimately show ?thesis using strict_sorted_iff [of "map list_order (matching f s)"] by (simp add: sorted_wrt_map)
qed

lemma js_List_drop:
  assumes "js_inv nid s" "\<And>i r. row s i = Some r \<Longrightarrow> int64 (r_createdAt r)"
    and "lf_Cursor f = [] \<and> k = 0 \<or>
      (\<exists>k'. k = Suc k' \<and> k' < length (matching f s) \<and>
        lf_Cursor f = EncodeCursor (r_createdAt (matching f s ! k')) (r_id (matching f s ! k')))"
  defines "lim \<equiv> nat (NormalizeLimit (lf_Limit f))"
  shows "js_List f s = (if length (drop k (matching f s)) > lim
    then Inr (map toInfo (take lim (drop k (matching f s))),
      EncodeCursor (r_createdAt (matching f s ! (k + lim - 1))) (r_id (matching f s ! (k + lim - 1))))
    else Inr (map toInfo (drop k (matching f s)), []))"
proof -
  let ?A = "matching f s"
  have limpos: "0 < lim" by (simp add: lim_def NormalizeLimit_def DefaultListLimit_def MaxListLimit_def)
  have mem: "int64 (r_createdAt x)" if "x \<in> set ?A" for x
    using that rows_snd(1) [OF assms(1)] assms(2) by (auto simp: matching_def)
  obtain ct ci where c: "DecodeCursor (lf_Cursor f) = Inr (ct, ci)"
    "sort_key list_order (filter (\<lambda>r. rowMatches r f \<and> \<not> (lf_Cursor f \<noteq> [] \<and> before_cursor ct ci r)) (map snd (js_rows s))) =
      drop k ?A"
  proof (cases "lf_Cursor f = []")
    case True
    then have "k = 0" using assms(3) DecodeCursor_EncodeCursor(2) mem by (metis nth_mem)
    with True that show ?thesis by (simp add: DecodeCursor_def matching_def)
  next
    case False
    with assms(3) obtain k' where k: "k = Suc k'" "k' < length ?A"
      "lf_Cursor f = EncodeCursor (r_createdAt (?A ! k')) (r_id (?A ! k'))" by blast
    have "DecodeCursor (lf_Cursor f) = Inr (list_order (?A ! k'))"
      using k(3) DecodeCursor_EncodeCursor(1) [OF mem [OF nth_mem [OF k(2)]]] by (simp add: list_order_def)
    moreover have "filter (\<lambda>r. \<not> list_order r \<le> list_order (?A ! k')) ?A = drop k ?A"
      unfolding k(1) by (rule filter_after_nth [OF matching_sorted [OF assms(1)] k(2)])
    then have "sort_key list_order (filter (\<lambda>r. rowMatches r f \<and> \<not> list_order r \<le> list_order (?A ! k')) (map snd (js_rows s))) = drop k ?A"
      by (simp add: matching_def filter_sort conj_commute)
    ultimately show ?thesis using that False by (cases "list_order (?A ! k')") (simp add: before_cursor_order)
  qed
  show ?thesis using limpos unfolding js_List_def c sum.case prod.case Let_def lim_def [symmetric]
    by (simp add: Nat.add_diff_assoc Suc_leI)
qed

lemma list_pages_drop:
  assumes "js_inv nid s" "\<And>i r. row s i = Some r \<Longrightarrow> int64 (r_createdAt r)"
    and "lf_Cursor f = [] \<and> k = 0 \<or>
      (\<exists>k'. k = Suc k' \<and> k' < length (matching f s) \<and>
        lf_Cursor f = EncodeCursor (r_createdAt (matching f s ! k')) (r_id (matching f s ! k')))"
    and "length (drop k (matching f s)) < n"
  shows "list_pages n f s = Some (map toInfo (drop k (matching f s)))"
  using assms(3,4)
proof (induction n arbitrary: f k)
  case (Suc n)
  let ?A = "matching f s"
  let ?lim = "nat (NormalizeLimit (lf_Limit f))"
  have limpos: "0 < ?lim" by (simp add: NormalizeLimit_def DefaultListLimit_def MaxListLimit_def)
  note L = js_List_drop [OF assms(1,2) Suc.prems(1)]
  show ?case
  proof (cases "length (drop k ?A) > ?lim")
    case False
    then show ?thesis using L by simp
  next
    case True
    let ?k = "k + ?lim - 1"
    let ?c = "EncodeCursor (r_createdAt (?A ! ?k)) (r_id (?A ! ?k))"
    let ?f = "f\<lparr>lf_Cursor := ?c\<rparr>"
    have m: "matching ?f s = ?A" by (simp add: matching_def rowMatches_def)
    have k: "?k < length ?A" "k + ?lim = Suc ?k" using True limpos by auto
    have "?A ! ?k \<in> set ?A" using k(1) by simp
    then have "int64 (r_createdAt (?A ! ?k))"
      using rows_snd(1) [OF assms(1), of "?A ! ?k"] assms(2) by (auto simp: matching_def)
    then have c: "?c \<noteq> []" by (rule DecodeCursor_EncodeCursor(2))
    have "list_pages n ?f s = Some (map toInfo (drop (k + ?lim) (matching ?f s)))"
    proof (rule Suc.IH)
      show "lf_Cursor ?f = [] \<and> k + ?lim = 0 \<or> (\<exists>k'. k + ?lim = Suc k' \<and> k' < length (matching ?f s) \<and>
        lf_Cursor ?f = EncodeCursor (r_createdAt (matching ?f s ! k')) (r_id (matching ?f s ! k')))"
        unfolding m using k by (intro disjI2 exI [of _ ?k]) simp
      show "length (drop (k + ?lim) (matching ?f s)) < n" unfolding m using Suc.prems(2) True limpos by simp
    qed
    then have "list_pages n ?f s = Some (map toInfo (drop ?lim (drop k ?A)))" unfolding m drop_drop add.commute [of ?lim] .
    moreover have "js_List f s = Inr (map toInfo (take ?lim (drop k ?A)), ?c)" using L True by simp
    ultimately have "list_pages (Suc n) f s = Some (map toInfo (take ?lim (drop k ?A)) @ map toInfo (drop ?lim (drop k ?A)))"
      using c by simp
    then show ?thesis by (simp only: map_append [symmetric] append_take_drop_id)
  qed
qed simp

text \<open>Following the cursors visits every matching job exactly once: for any filter and page size,
  on an unchanged store whose creation times fit in 64-bit nanoseconds, the pages are exactly the
  matching rows in order of creation time and id, none repeated and none missing, and the last page is
  reached after at most one request more than there are rows.\<close>

theorem jobs_list_complete:
  assumes "inj nid" "s = js_run nid ops js_New" "\<And>i r. row s i = Some r \<Longrightarrow> int64 (r_createdAt r)"
    and "lf_Cursor f = []" "length (js_rows s) < n"
  shows "\<exists>rs. list_pages n f s = Some (map toInfo rs) \<and> distinct (map r_id rs) \<and>
    sorted (map list_order rs) \<and> set rs = {r. row s (r_id r) = Some r \<and> rowMatches r f}"
proof -
  have inv: "js_inv nid s" using inv_run [OF js_inv_New assms(1)] assms(2) by simp
  have "length (matching f s) \<le> length (js_rows s)" by (simp add: matching_def)
  then have "list_pages n f s = Some (map toInfo (drop 0 (matching f s)))"
    using assms(4,5) by (intro list_pages_drop [OF inv assms(3)]) auto
  moreover have "distinct (map r_id (filter (\<lambda>r. rowMatches r f) (map snd (js_rows s))))"
    using rows_snd(2) [OF inv] by (rule distinct_map_filter)
  then have "distinct (map r_id (matching f s))" by (simp add: matching_def distinct_map)
  moreover have "set (matching f s) = {r. row s (r_id r) = Some r \<and> rowMatches r f}"
    using rows_snd(1) [OF inv] by (auto simp: matching_def)
  moreover have "sorted (map list_order (matching f s))" by (simp add: matching_def)
  ultimately show ?thesis by auto
qed

definition two_jobs :: "js_op list" where
  "two_jobs = [OInsert 5 [demo_job\<lparr>UniqueKey := []\<rparr>], OInsert 6 [demo_job\<lparr>UniqueKey := []\<rparr>]]"

definition page_filter :: list_filter where
  "page_filter = \<lparr>lf_Queues = [''default''], lf_Kinds = [], lf_States = [], lf_Limit = 1, lf_Cursor = []\<rparr>"

theorem jobs_list_complete_witness:
  "\<exists>rs. list_pages 3 page_filter (js_run demo_nid two_jobs js_New) = Some (map toInfo rs) \<and>
    set rs = {r. row (js_run demo_nid two_jobs js_New) (r_id r) = Some r \<and> rowMatches r page_filter} \<and>
    length (js_rows (js_run demo_nid two_jobs js_New)) = 2"
proof -
  define s where "s = js_run demo_nid two_jobs js_New"
  let ?j = "demo_job\<lparr>UniqueKey := []\<rparr>"
  have rows: "js_rows s = [(''d'', new_row ?j ''d'' StateAvailable 5), (''id'', new_row ?j ''id'' StateAvailable 6)]"
    by (simp add: s_def two_jobs_def js_Insert_def insert_one_def live_holder_def js_New_def put_row_def
        demo_nid_def demo_job_def Let_def)
  have "int64 (r_createdAt r)" if "row s i = Some r" for i r
    using that by (auto simp: rows new_row_def job.extend_def int64_defs split: if_splits)
  moreover have "lf_Cursor page_filter = []" by (simp add: page_filter_def)
  moreover have l: "length (js_rows s) = 2" "length (js_rows s) < 3" by (simp_all add: rows)
  ultimately have "\<exists>rs. list_pages 3 page_filter s = Some (map toInfo rs) \<and> distinct (map r_id rs) \<and>
    sorted (map list_order rs) \<and> set rs = {r. row s (r_id r) = Some r \<and> rowMatches r page_filter}"
    by (intro jobs_list_complete [OF inj_demo_nid s_def])
  with l(1) show ?thesis unfolding s_def [symmetric] by blast
qed

section \<open>Claims and Go's map order\<close>

text \<open>A claim does not depend on the order in which Go iterates the map of rows: two stores with
  the same rows in any order hand out the same jobs in the same order.\<close>

theorem jobs_claim_map_order:
  assumes "inj nid" "s = js_run nid ops js_New" "mset (js_rows s') = mset (js_rows s)"
  shows "fst (js_Claim req s') = fst (js_Claim req s)"
proof -
  have inv: "js_inv nid s" using inv_run [OF js_inv_New assms(1)] assms(2) by simp
  let ?F = "\<lambda>x. filter (claimable req) (map snd (js_rows x))"
  have m: "mset (?F s') = mset (?F s)" using assms(3) by (simp only: mset_filter mset_map)
  have "distinct (map r_id (?F s))" using rows_snd(2) [OF inv] by (rule distinct_map_filter)
  then have "inj_on claim_order (set (?F s))" by (simp add: distinct_map inj_on_def claim_order_def)
  then have "candidates req s' = candidates req s"
    unfolding candidates_def using m by (metis sort_key_eq_sort_key)
  then show ?thesis by (simp add: js_Claim_picked picked_def)
qed

theorem jobs_claim_map_order_witness:
  "fst (js_Claim (demo_claim 6) ((js_run demo_nid two_jobs js_New)\<lparr>js_rows := rev (js_rows (js_run demo_nid two_jobs js_New))\<rparr>)) =
   fst (js_Claim (demo_claim 6) (js_run demo_nid two_jobs js_New))"
  by (rule jobs_claim_map_order [OF inj_demo_nid refl]) simp

section \<open>A divergence from the contract\<close>

text \<open>A claim that names no queue takes jobs from every queue: with an empty list of queues the
  eligible rows are those due for one of the request's handlers, whatever their queue. The contract in
  \<open>store.go\<close> says that the queue is one of \<open>req.Queues\<close>, and the SQL stores return nothing then.\<close>

theorem jobs_claim_no_queues:
  assumes "cr_Queues req = []" "cr_Handlers req = [(Kind r, HandlerID r)]" "cr_WorkerID req \<noteq> []"
    and "r_state r = StateAvailable" "AvailableAt r \<le> cr_Now req" "cr_QueueLimits req = []"
    and "js_rows s = [(r_id r, r)]"
  shows "fst (js_Claim req s) = [claimed req r]"
proof -
  have "claimable req r" using assms by (simp add: claimable_def)
  then show ?thesis using assms by (simp add: js_Claim_def queue_full_def)
qed

theorem jobs_claim_no_queues_witness:
  "fst (js_Claim ((demo_claim 6)\<lparr>cr_Queues := []\<rparr>) demo_store) = [claimed ((demo_claim 6)\<lparr>cr_Queues := []\<rparr>) demo_row]"
  by (rule jobs_claim_no_queues)
    (simp_all add: demo_claim_def demo_row_def demo_store_eq demo_job_def new_row_def job.extend_def)

end
