(* ===== verification/JobWorker.thy ===== *)
theory JobWorker
  imports JobGuarantees
begin

text \<open>
  Package \<open>jobs\<close>: retry delays (\<open>backoff.go\<close>) and the worker (\<open>worker.go\<close>).

  \<^item> A backoff's jitter is a float64: its type \<open>'f\<close>, the test \<open>Jitter > 0\<close> and the product
    \<open>time.Duration(float64(d) * Jitter)\<close> are parameters, and so is the random draw.
  \<^item> JSON encoding of the backoff override is a parameter.
  \<^item> The worker's goroutines are atomic steps on the phase of a run; the store calls are those of
    the store interface, given as a function where only their result matters.
\<close>

section \<open>Backoff (backoff.go)\<close>

record 'f exp_backoff =
  bo_Base :: duration
  bo_Max :: duration
  bo_Jitter :: 'f

definition backoff_delay :: "'f exp_backoff \<Rightarrow> int \<Rightarrow> duration" where
  "backoff_delay b attempt0 =
    (let attempt = (if attempt0 < 1 then 1 else attempt0);
         shift = attempt - 1
     in if shift < 63 then
          (let cand = wrap64 (bo_Base b * 2 ^ nat shift)
           in if cand > 0 \<and> cand < bo_Max b then cand else bo_Max b)
        else bo_Max b)"

definition backoff_Next :: "('f \<Rightarrow> bool) \<Rightarrow> (duration \<Rightarrow> 'f \<Rightarrow> duration) \<Rightarrow> (int \<Rightarrow> int) \<Rightarrow> 'f exp_backoff \<Rightarrow> int \<Rightarrow> duration" where
  "backoff_Next jpos fmul rand b attempt =
    (let d = backoff_delay b attempt
     in if jpos (bo_Jitter b) \<and> d > 0 then
          (let span = fmul d (bo_Jitter b)
           in if span > 0 then max (wrap64 (wrap64 (d - span) + rand (wrap64 (wrap64 (2 * span) + 1)))) 0 else d)
        else d)"

datatype 'f backoff = BackoffNil | BackoffExp "'f exp_backoff" | BackoffExpPtr "'f exp_backoff option" | BackoffCustom nat

definition encodeBackoff :: "('f exp_backoff \<Rightarrow> jobs_error + string) \<Rightarrow> 'f backoff \<Rightarrow> jobs_error + string" where
  "encodeBackoff marshal b =
    (case b of BackoffNil \<Rightarrow> Inr [] | BackoffExp e \<Rightarrow> marshal e
     | BackoffExpPtr None \<Rightarrow> Inr [] | BackoffExpPtr (Some e) \<Rightarrow> marshal e
     | BackoffCustom _ \<Rightarrow> Inl ErrBackoffNotSerializable)"

text \<open>\<open>unmarshal\<close> gives the decoded type tag and fields, or nothing.\<close>

definition decodeBackoff :: "(string \<Rightarrow> (string \<times> 'f exp_backoff) option) \<Rightarrow> string \<Rightarrow> 'f exp_backoff option" where
  "decodeBackoff unmarshal data =
    (if data = [] then None
     else case unmarshal data of None \<Rightarrow> None
       | Some (ty, e) \<Rightarrow> if ty = ''exponential'' then Some e else None)"

section \<open>Worker configuration\<close>

record worker_config =
  wc_ID :: string
  wc_Queues :: "string list"
  wc_Concurrency :: int
  wc_PerQueue :: "(string, int) gomap"
  wc_PollInterval :: duration
  wc_LeaseDuration :: duration
  wc_HeartbeatInterval :: duration
  wc_SweepInterval :: duration
  wc_ShutdownTimeout :: duration

definition defaulted :: "string \<Rightarrow> string \<Rightarrow> worker_config \<Rightarrow> worker_config" where
  "defaulted genID defaultQueue cfg =
    (let lease = (if wc_LeaseDuration cfg \<le> 0 then 60 * second else wc_LeaseDuration cfg)
     in \<lparr>wc_ID = (if wc_ID cfg = [] then genID else wc_ID cfg),
         wc_Queues = (if wc_Queues cfg = [] then [defaultQueue] else wc_Queues cfg),
         wc_Concurrency = (if wc_Concurrency cfg \<le> 0 then 1 else wc_Concurrency cfg),
         wc_PerQueue = wc_PerQueue cfg,
         wc_PollInterval = (if wc_PollInterval cfg \<le> 0 then second else wc_PollInterval cfg),
         wc_LeaseDuration = lease,
         wc_HeartbeatInterval = (if wc_HeartbeatInterval cfg \<le> 0 then lease sdiv 3 else wc_HeartbeatInterval cfg),
         wc_SweepInterval = (if wc_SweepInterval cfg \<le> 0 then 30 * second else wc_SweepInterval cfg),
         wc_ShutdownTimeout = (if wc_ShutdownTimeout cfg = 0 then 30 * second else wc_ShutdownTimeout cfg)\<rparr>)"

text \<open>The queues are checked before the later defaults, which do not touch them.\<close>

definition NewWorker :: "string \<Rightarrow> string \<Rightarrow> worker_config \<Rightarrow> jobs_error + worker_config" where
  "NewWorker genID defaultQueue cfg =
    (let c = defaulted genID defaultQueue cfg
     in case find (\<lambda>q. validIdent ''queue'' q \<noteq> None) (wc_Queues c) of
          Some q \<Rightarrow> Inl (the (validIdent ''queue'' q))
        | None \<Rightarrow> if wc_LeaseDuration c < wrap64 (3 * wc_HeartbeatInterval c)
                  then Inl (JobsErr ''LeaseDuration must be at least 3x HeartbeatInterval'')
                  else Inr c)"

section \<open>Claiming work\<close>

record worker =
  w_cfg :: worker_config
  w_handlers :: "(string \<times> string) list"
  w_inFlight :: "string \<Rightarrow> int"
  w_busy :: int

definition eligible_queue :: "worker \<Rightarrow> string \<Rightarrow> bool" where
  "eligible_queue w q =
    (case map_of (wc_PerQueue (w_cfg w)) q of None \<Rightarrow> True
     | Some lim \<Rightarrow> lim \<le> 0 \<or> \<not> lim - w_inFlight w q \<le> 0)"

definition queue_budget :: "worker \<Rightarrow> string \<Rightarrow> (string \<times> int) list" where
  "queue_budget w q =
    (case map_of (wc_PerQueue (w_cfg w)) q of None \<Rightarrow> []
     | Some lim \<Rightarrow> if lim \<le> 0 \<or> lim - w_inFlight w q \<le> 0 then [] else [(q, lim - w_inFlight w q)])"

definition eligibleQueues :: "worker \<Rightarrow> string list \<times> (string, int) gomap" where
  "eligibleQueues w =
    (if wc_PerQueue (w_cfg w) = [] then (wc_Queues (w_cfg w), [])
     else (filter (eligible_queue w) (wc_Queues (w_cfg w)),
           fold (\<lambda>q b. fold (\<lambda>(k, v). goput k v) (queue_budget w q) b) (wc_Queues (w_cfg w)) []))"

definition bumpQueueInFlight :: "string \<Rightarrow> int \<Rightarrow> worker \<Rightarrow> worker" where
  "bumpQueueInFlight q delta w = w\<lparr>w_inFlight := (w_inFlight w)(q := w_inFlight w q + delta)\<rparr>"

text \<open>\<open>claim\<close> is the store's \<open>Claim\<close>; the rows it returns start running.\<close>

definition start_run :: "claimed_job \<Rightarrow> worker \<Rightarrow> worker" where
  "start_run c w = (bumpQueueInFlight (Queue (cj_Job c)) 1 w)\<lparr>w_busy := w_busy w + 1\<rparr>"

definition end_run :: "claimed_job \<Rightarrow> worker \<Rightarrow> worker" where
  "end_run c w = (bumpQueueInFlight (Queue (cj_Job c)) (- 1) w)\<lparr>w_busy := w_busy w - 1\<rparr>"

definition tryClaim :: "(claim_request \<Rightarrow> 's \<Rightarrow> (jobs_error + claimed_job list) \<times> 's) \<Rightarrow> time \<Rightarrow> worker \<Rightarrow> 's \<Rightarrow>
    claimed_job list \<times> worker \<times> 's" where
  "tryClaim claim now w s =
    (let available = wc_Concurrency (w_cfg w) - w_busy w
     in if available \<le> 0 then ([], w, s)
        else let (queues, budget) = eligibleQueues w
        in if queues = [] then ([], w, s)
        else (case claim \<lparr>cr_WorkerID = wc_ID (w_cfg w), cr_Queues = queues, cr_Now = now,
                 cr_Lease = wc_LeaseDuration (w_cfg w), cr_Limit = available, cr_QueueLimits = budget,
                 cr_Handlers = w_handlers w\<rparr> s of
                (Inl e, s') \<Rightarrow> ([], w, s')
              | (Inr rows, s') \<Rightarrow> (rows, fold start_run rows w, s')))"

section \<open>The outcome of a run\<close>

text \<open>What a handler returned, as far as the worker looks: an error is canceled, permanent or
  neither, and has a text.\<close>

record run_error =
  re_text :: string
  re_canceled :: bool
  re_permanent :: bool

text \<open>\<open>nextDelay\<close> is \<open>backoffFor(cj).Next\<close>, and \<open>now\<close> the manager's clock when it is read.\<close>

definition dispatchTimeout :: "(claimed_job \<Rightarrow> int \<Rightarrow> duration) \<Rightarrow> time \<Rightarrow> claimed_job \<Rightarrow> int \<Rightarrow> job_outcome \<Rightarrow> job_outcome" where
  "dispatchTimeout nextDelay now cj attemptNum o' =
    (let o1 = o'\<lparr>o_AttemptState := AttemptTimedOut\<rparr>
     in case OnTimeout (cj_Job cj) of
          TimeoutFail \<Rightarrow> o1\<lparr>o_State := StateFailed\<rparr>
        | TimeoutDiscard \<Rightarrow> o1\<lparr>o_State := StateDiscarded\<rparr>
        | _ \<Rightarrow> if attemptNum \<ge> MaxAttempts (cj_Job cj) then o1\<lparr>o_State := StateDiscarded\<rparr>
              else o1\<lparr>o_State := StatePending, o_AvailableAt := now + nextDelay cj attemptNum\<rparr>)"

definition decideOutcome :: "(claimed_job \<Rightarrow> int \<Rightarrow> duration) \<Rightarrow> bool \<Rightarrow> time \<Rightarrow> claimed_job \<Rightarrow> int \<Rightarrow> run_error option \<Rightarrow>
    bool \<Rightarrow> bool \<Rightarrow> time \<Rightarrow> time \<Rightarrow> job_outcome" where
  "decideOutcome nextDelay draining now cj attemptNum runErr cancelByUser deadlineExceeded started finished =
    (let o' = \<lparr>o_State = StateOther [], o_Attempt = attemptNum,
               o_Error = (case runErr of None \<Rightarrow> [] | Some e \<Rightarrow> re_text e),
               o_AvailableAt = zeroTime, o_AttemptState = AttemptNone, o_StartedAt = started, o_FinishedAt = finished\<rparr>
     in if cancelByUser then o'\<lparr>o_State := StateCancelled, o_AttemptState := AttemptCancelled\<rparr>
        else if deadlineExceeded then dispatchTimeout nextDelay now cj attemptNum o'
        else case runErr of None \<Rightarrow> o'\<lparr>o_State := StateSucceeded, o_AttemptState := AttemptSucceeded\<rparr>
        | Some e \<Rightarrow>
          if draining \<and> re_canceled e
            then o'\<lparr>o_State := StateAvailable, o_Attempt := cj_Attempt cj, o_AttemptState := AttemptNone, o_AvailableAt := now\<rparr>
          else if re_permanent e then o'\<lparr>o_State := StateFailed, o_AttemptState := AttemptFailed\<rparr>
          else if attemptNum \<ge> MaxAttempts (cj_Job cj) then o'\<lparr>o_State := StateDiscarded, o_AttemptState := AttemptFailed\<rparr>
          else o'\<lparr>o_State := StatePending, o_AttemptState := AttemptFailed, o_AvailableAt := now + nextDelay cj attemptNum\<rparr>)"

text \<open>The outcome \<open>park\<close> records for a job that cannot be run.\<close>

definition park_outcome :: "time \<Rightarrow> int \<Rightarrow> string \<Rightarrow> job_outcome" where
  "park_outcome now attemptNum cause = \<lparr>o_State = StateFailed, o_Attempt = attemptNum, o_Error = cause,
     o_AvailableAt = zeroTime, o_AttemptState = AttemptFailed, o_StartedAt = now, o_FinishedAt = now\<rparr>"

text \<open>\<open>complete\<close>: up to five calls; \<open>results\<close> are what the store's \<open>Complete\<close> returns to
  successive calls. The result is the applied state, if one was committed, and the number of calls.\<close>

fun complete_loop :: "nat \<Rightarrow> (jobs_error + state) list \<Rightarrow> (state option \<times> nat) option" where
  "complete_loop attempt [] = None"
| "complete_loop attempt (Inr applied # rs) = Some (Some applied, attempt)"
| "complete_loop attempt (Inl e # rs) =
    (if e = ErrNotFound then Some (None, attempt)
     else if attempt \<ge> 5 then Some (None, attempt)
     else complete_loop (attempt + 1) rs)"

definition complete :: "(jobs_error + state) list \<Rightarrow> (state option \<times> nat) option" where
  "complete results = complete_loop 1 results"

text \<open>One tick of the heartbeat: go on, stop, cancel the run because the lease is lost, or cancel it
  because the operator asked.\<close>

datatype heartbeat_action = HbContinue | HbStop | HbLost | HbCancelled

definition heartbeat_tick :: "bool \<Rightarrow> (jobs_error + bool) \<Rightarrow> heartbeat_action" where
  "heartbeat_tick ctxDone res =
    (case res of Inl e \<Rightarrow> if ctxDone then HbStop else if e = ErrNotFound then HbLost else HbContinue
     | Inr cancelRequested \<Rightarrow> if cancelRequested then HbCancelled else HbContinue)"

section \<open>Runs and the drain deadline\<close>

datatype run_phase = PhaseRegistered | PhaseRunning | PhaseResolving | PhaseAbandoned

text \<open>Where the goroutine of a run is: preparing, in the handler, committing the outcome, or done;
  \<open>rn_invoked\<close> and \<open>rn_committing\<close> count the handler's invocations and the entries into
  \<open>complete\<close>.\<close>

datatype run_at = Preparing | InHandler | Committing | Finished

record run_state =
  rn_phase :: run_phase
  rn_at :: run_at
  rn_invoked :: nat
  rn_committing :: nat
  rn_lease_kept :: bool

definition newRun :: run_state where
  "newRun = \<lparr>rn_phase = PhaseRegistered, rn_at = Preparing, rn_invoked = 0, rn_committing = 0, rn_lease_kept = True\<rparr>"

text \<open>\<open>phase.CompareAndSwap\<close>.\<close>

definition phase_cas :: "run_phase \<Rightarrow> run_phase \<Rightarrow> run_state \<Rightarrow> bool \<times> run_state" where
  "phase_cas old new rs = (if rn_phase rs = old then (True, rs\<lparr>rn_phase := new\<rparr>) else (False, rs))"

definition run_begin :: "run_state \<Rightarrow> run_state" where
  "run_begin rs = (case phase_cas PhaseRegistered PhaseRunning rs of
     (True, rs1) \<Rightarrow> rs1\<lparr>rn_at := InHandler, rn_invoked := rn_invoked rs1 + 1\<rparr>
   | (False, rs1) \<Rightarrow> rs1\<lparr>rn_at := Finished\<rparr>)"

definition run_park :: "run_state \<Rightarrow> run_state" where
  "run_park rs = (case phase_cas PhaseRegistered PhaseResolving rs of
     (True, rs1) \<Rightarrow> rs1\<lparr>rn_at := Committing, rn_committing := rn_committing rs1 + 1\<rparr>
   | (False, rs1) \<Rightarrow> rs1\<lparr>rn_at := Finished\<rparr>)"

definition run_return :: "run_state \<Rightarrow> run_state" where
  "run_return rs = (case phase_cas PhaseRunning PhaseResolving rs of
     (True, rs1) \<Rightarrow> rs1\<lparr>rn_at := Committing, rn_committing := rn_committing rs1 + 1\<rparr>
   | (False, rs1) \<Rightarrow> rs1\<lparr>rn_at := Finished\<rparr>)"

text \<open>\<open>drain\<close> at the deadline: abandoning stops the heartbeat, so the lease is no longer kept.\<close>

definition run_drain :: "run_state \<Rightarrow> run_state" where
  "run_drain rs = (case phase_cas PhaseRegistered PhaseAbandoned rs of
     (True, rs1) \<Rightarrow> rs1\<lparr>rn_lease_kept := False\<rparr>
   | (False, rs1) \<Rightarrow> (case phase_cas PhaseRunning PhaseAbandoned rs1 of
       (True, rs2) \<Rightarrow> rs2\<lparr>rn_lease_kept := False\<rparr>
     | (False, rs2) \<Rightarrow> rs2))"

inductive run_step :: "run_state \<Rightarrow> run_state \<Rightarrow> bool" where
  Begin: "rn_at rs = Preparing \<Longrightarrow> run_step rs (run_begin rs)"
| Park: "rn_at rs = Preparing \<Longrightarrow> run_step rs (run_park rs)"
| Return: "rn_at rs = InHandler \<Longrightarrow> run_step rs (run_return rs)"
| Committed: "rn_at rs = Committing \<Longrightarrow> run_step rs (rs\<lparr>rn_at := Finished\<rparr>)"
| Drain: "run_step rs (run_drain rs)"

inductive run_reach :: "run_state \<Rightarrow> bool" where
  Init: "run_reach newRun"
| Step: "run_reach rs \<Longrightarrow> run_step rs rs' \<Longrightarrow> run_reach rs'"

section \<open>Retry delays\<close>

definition default_backoff :: "'f \<Rightarrow> 'f exp_backoff" where
  "default_backoff j = \<lparr>bo_Base = second, bo_Max = hour, bo_Jitter = j\<rparr>"

lemma default_delay:
  assumes "1 \<le> n"
  shows "backoff_delay (default_backoff j) n = min (second * 2 ^ nat (n - 1)) hour"
proof (cases "n - 1 < 63")
  case True
  have all: "\<forall>k \<in> set [0..<63]. (let cand = wrap64 (1000000000 * 2 ^ k) in if cand > 0 \<and> cand < 3600000000000 then cand else 3600000000000) =
      min (1000000000 * 2 ^ k) (3600000000000 :: int)"
    by code_simp
  have mem: "nat (n - 1) \<in> set [0..<63]" using True assms by auto
  show ?thesis using True assms bspec [OF all mem]
    by (simp add: backoff_delay_def default_backoff_def duration_defs Let_def del: set_upt split: if_splits)
next
  case False
  have "(2 :: int) ^ 63 \<le> 2 ^ nat (n - 1)" using False by (intro power_increasing) auto
  then have "hour \<le> second * 2 ^ nat (n - 1)" by (simp add: duration_defs)
  then show ?thesis using False assms by (simp add: backoff_delay_def default_backoff_def)
qed

text \<open>The default retry delay doubles from one second up to one hour and never overflows: for
  every attempt number from 1 on, however large, the delay before jitter is the smaller of one hour
  and one second times two to the power of the attempts before; jitter moves it by at most its span
  and never below zero.\<close>

theorem jobs_backoff_default:
  assumes "1 \<le> n" "\<And>d. 0 < d \<Longrightarrow> 0 \<le> fmul d j \<and> fmul d j \<le> d" "\<And>k. 0 < k \<Longrightarrow> 0 \<le> rand k \<and> rand k < k"
  shows "let d = min (second * 2 ^ nat (n - 1)) hour;
             b = default_backoff j
         in backoff_delay b n = d \<and> 0 \<le> backoff_Next jpos fmul rand b n \<and>
            d - fmul d j \<le> backoff_Next jpos fmul rand b n \<and> backoff_Next jpos fmul rand b n \<le> d + fmul d j"
proof -
  let ?b = "default_backoff j"
  define d where "d = min (second * 2 ^ nat (n - 1)) hour"
  have e: "backoff_delay ?b n = d" using default_delay [OF assms(1)] by (simp add: d_def)
  have "0 < second * 2 ^ nat (n - 1)" by (simp add: duration_defs)
  then have d: "0 < d" "d \<le> hour" by (simp_all add: d_def duration_defs)
  define sp where "sp = fmul d j"
  have sp: "0 \<le> sp" "sp \<le> d" using assms(2) [OF d(1)] by (simp_all add: sp_def)
  have big: "wrap64 (2 * sp) = 2 * sp" "wrap64 (2 * sp + 1) = 2 * sp + 1" "wrap64 (d - sp) = d - sp"
    using sp d by (simp_all add: wrap64_id_iff int64_defs duration_defs)
  have r: "0 \<le> rand (2 * sp + 1)" "rand (2 * sp + 1) \<le> 2 * sp" using assms(3) [of "2 * sp + 1"] sp by auto
  have w: "wrap64 (d - sp + rand (2 * sp + 1)) = d - sp + rand (2 * sp + 1)"
    using sp d r by (simp add: wrap64_id_iff int64_defs duration_defs)
  have n: "backoff_Next jpos fmul rand ?b n = (if jpos j \<and> 0 < sp then max (d - sp + rand (2 * sp + 1)) 0 else d)"
    using d(1) w big unfolding backoff_Next_def Let_def e sp_def [symmetric]
    by (simp add: default_backoff_def sp_def [symmetric])
  then have "0 \<le> backoff_Next jpos fmul rand ?b n \<and> d - sp \<le> backoff_Next jpos fmul rand ?b n \<and>
    backoff_Next jpos fmul rand ?b n \<le> d + sp" using r sp d(1) by (auto simp: max_def)
  then show ?thesis by (simp add: Let_def e d_def [symmetric] sp_def [symmetric])
qed

theorem jobs_backoff_default_witness:
  "let d = min (second * 2 ^ nat (4 - 1)) hour;
       b = default_backoff (5::int)
   in backoff_delay b 4 = d \<and> 0 \<le> backoff_Next (\<lambda>j. 0 < j) (\<lambda>d j. d div j) (\<lambda>k. k div 2) b 4 \<and>
      d - d div 5 \<le> backoff_Next (\<lambda>j. 0 < j) (\<lambda>d j. d div j) (\<lambda>k. k div 2) b 4 \<and>
      backoff_Next (\<lambda>j. 0 < j) (\<lambda>d j. d div j) (\<lambda>k. k div 2) b 4 \<le> d + d div 5"
proof -
  have a: "\<And>d::int. 0 < d \<Longrightarrow> 0 \<le> d div 5 \<and> d div 5 \<le> d" "\<And>k::int. 0 < k \<Longrightarrow> 0 \<le> k div 2 \<and> k div 2 < k"
    by auto
  show ?thesis using jobs_backoff_default [of 4 "\<lambda>d j. d div j" "5::int" "\<lambda>k. k div 2" "\<lambda>j. 0 < j"] a by simp
qed

text \<open>The exact delay of any exponential backoff without jitter is the doubled base capped at the
  maximum as long as the doubled base fits in 64 bits; beyond that the shift wraps around, and a delay
  far below the maximum can come out although the doubled base is above it: a base of 1.07 seconds
  capped at one hour gives 17 seconds at the 35th attempt.\<close>

theorem jobs_backoff_wraps:
  shows "(1 \<le> n \<and> 0 < bo_Base b \<and> 0 < bo_Max b \<and> nat (n - 1) < 63 \<longrightarrow> bo_Base b * 2 ^ nat (n - 1) \<le> maxInt64 \<longrightarrow>
      backoff_delay b n = min (bo_Base b * 2 ^ nat (n - 1)) (bo_Max b)) \<and>
    backoff_delay \<lparr>bo_Base = 2 ^ 30 + 1, bo_Max = hour, bo_Jitter = j\<rparr> 35 = 2 ^ 34 \<and>
    (2 ^ 34 :: int) < hour \<and> hour < (2 ^ 30 + 1) * 2 ^ (35 - 1)"
proof (intro conjI impI)
  assume a: "1 \<le> n \<and> 0 < bo_Base b \<and> 0 < bo_Max b \<and> nat (n - 1) < 63" "bo_Base b * 2 ^ nat (n - 1) \<le> maxInt64"
  let ?c = "bo_Base b * 2 ^ nat (n - 1)"
  have "0 < ?c" using a by simp
  then have "wrap64 ?c = ?c" using a(2) by (simp add: wrap64_id_iff int64_def minInt64_def)
  then show "backoff_delay b n = min ?c (bo_Max b)" using a \<open>0 < ?c\<close> by (auto simp: backoff_delay_def Let_def)
next
  show "backoff_delay \<lparr>bo_Base = 2 ^ 30 + 1, bo_Max = hour, bo_Jitter = j\<rparr> 35 = 2 ^ 34"
    by (simp add: backoff_delay_def Let_def duration_defs wrap64_def)
qed (simp_all add: duration_defs)

theorem jobs_backoff_wraps_witness:
  "backoff_delay \<lparr>bo_Base = 3, bo_Max = 100, bo_Jitter = ()\<rparr> 4 = min (3 * 2 ^ nat (4 - 1)) 100"
  using jobs_backoff_wraps [where n = 4 and b = "\<lparr>bo_Base = 3, bo_Max = 100, bo_Jitter = ()\<rparr>" and j = "()"]
  by (simp add: maxInt64_def)

section \<open>Configuration\<close>

text \<open>An accepted worker configuration is usable: at least one valid queue, at least one job at a
  time, positive poll, lease and sweep intervals, and a lease of at least three heartbeats when three
  times the heartbeat fits in 64 bits. Two accepted configurations are not: a lease under three
  nanoseconds gets a heartbeat interval of zero, which a ticker refuses with a panic, and a heartbeat so
  long that three times it wraps around passes the check.\<close>

theorem jobs_worker_config:
  shows "(NewWorker genID q cfg = Inr c \<and> validIdent ''queue'' q = None \<and> int64 (wc_LeaseDuration cfg) \<longrightarrow>
      wc_Queues c \<noteq> [] \<and> (\<forall>x \<in> set (wc_Queues c). validIdent ''queue'' x = None) \<and> 1 \<le> wc_Concurrency c \<and>
      0 < wc_PollInterval c \<and> 0 < wc_LeaseDuration c \<and> 0 < wc_SweepInterval c \<and> wc_ShutdownTimeout c \<noteq> 0 \<and>
      0 \<le> wc_HeartbeatInterval c \<and>
      (int64 (3 * wc_HeartbeatInterval c) \<longrightarrow> 3 * wc_HeartbeatInterval c \<le> wc_LeaseDuration c)) \<and>
    (let base = \<lparr>wc_ID = ''w'', wc_Queues = [''a''], wc_Concurrency = 1, wc_PerQueue = [], wc_PollInterval = 1,
       wc_LeaseDuration = 2, wc_HeartbeatInterval = 0, wc_SweepInterval = 1, wc_ShutdownTimeout = 1\<rparr>
     in NewWorker [] q base = Inr base \<and>
        NewWorker [] q (base\<lparr>wc_HeartbeatInterval := 2 ^ 62\<rparr>) = Inr (base\<lparr>wc_HeartbeatInterval := 2 ^ 62\<rparr>))"
proof (rule conjI, rule impI, elim conjE)
  assume a: "NewWorker genID q cfg = Inr c" "validIdent ''queue'' q = None" "int64 (wc_LeaseDuration cfg)"
  have c: "c = defaulted genID q cfg" and f: "find (\<lambda>x. validIdent ''queue'' x \<noteq> None) (wc_Queues c) = None"
    and l: "\<not> wc_LeaseDuration c < wrap64 (3 * wc_HeartbeatInterval c)"
    using a(1) by (auto simp: NewWorker_def Let_def split: option.splits if_splits)
  have h: "0 \<le> wc_HeartbeatInterval c" unfolding c by (auto simp: defaulted_def Let_def duration_defs sdiv_pos pos_imp_zdiv_nonneg_iff)
  have v: "\<forall>x \<in> set (wc_Queues c). validIdent ''queue'' x = None" using f by (auto simp: find_None_iff)
  have t: "int64 (3 * wc_HeartbeatInterval c) \<longrightarrow> 3 * wc_HeartbeatInterval c \<le> wc_LeaseDuration c"
    using l wrap64_id [of "3 * wc_HeartbeatInterval c"] by auto
  show "wc_Queues c \<noteq> [] \<and> (\<forall>x \<in> set (wc_Queues c). validIdent ''queue'' x = None) \<and> 1 \<le> wc_Concurrency c \<and>
      0 < wc_PollInterval c \<and> 0 < wc_LeaseDuration c \<and> 0 < wc_SweepInterval c \<and> wc_ShutdownTimeout c \<noteq> 0 \<and>
      0 \<le> wc_HeartbeatInterval c \<and>
      (int64 (3 * wc_HeartbeatInterval c) \<longrightarrow> 3 * wc_HeartbeatInterval c \<le> wc_LeaseDuration c)"
    using h v t unfolding c by (simp add: defaulted_def Let_def duration_defs)
next
  have v: "validIdent ''queue'' ''a'' = None" by (simp add: validIdent_def ident_byte_def less_eq_char_def)
  have d: "(2::int) sdiv 3 = 0" by (simp add: sdiv_pos)
  show "let base = \<lparr>wc_ID = ''w'', wc_Queues = [''a''], wc_Concurrency = 1, wc_PerQueue = [], wc_PollInterval = 1,
       wc_LeaseDuration = 2, wc_HeartbeatInterval = 0, wc_SweepInterval = 1, wc_ShutdownTimeout = 1\<rparr>
     in NewWorker [] q base = Inr base \<and>
        NewWorker [] q (base\<lparr>wc_HeartbeatInterval := 2 ^ 62\<rparr>) = Inr (base\<lparr>wc_HeartbeatInterval := 2 ^ 62\<rparr>)"
    using v d by (simp add: NewWorker_def defaulted_def Let_def wrap64_def)
qed


theorem jobs_worker_config_witness:
  "\<exists>c. NewWorker ''id'' ''default'' \<lparr>wc_ID = [], wc_Queues = [], wc_Concurrency = 0, wc_PerQueue = [], wc_PollInterval = 0,
       wc_LeaseDuration = 0, wc_HeartbeatInterval = 0, wc_SweepInterval = 0, wc_ShutdownTimeout = 0\<rparr> = Inr c \<and>
    wc_LeaseDuration c = 60 * second \<and> 3 * wc_HeartbeatInterval c \<le> wc_LeaseDuration c"
proof -
  let ?z = "\<lparr>wc_ID = [], wc_Queues = [], wc_Concurrency = 0, wc_PerQueue = [], wc_PollInterval = 0,
       wc_LeaseDuration = 0, wc_HeartbeatInterval = 0, wc_SweepInterval = 0, wc_ShutdownTimeout = 0\<rparr>"
  let ?c = "defaulted ''id'' ''default'' ?z"
  have d: "(60000000000::int) sdiv 3 = 20000000000" by (simp add: sdiv_pos)
  have v: "validIdent ''queue'' ''default'' = None" by (simp add: validIdent_def ident_byte_def less_eq_char_def)
  have n: "NewWorker ''id'' ''default'' ?z = Inr ?c"
    by (simp add: NewWorker_def defaulted_def Let_def v d duration_defs wrap64_def)
  have "int64 (3 * wc_HeartbeatInterval ?c)" by (simp add: defaulted_def Let_def d duration_defs int64_def minInt64_def maxInt64_def)
  moreover have "int64 (wc_LeaseDuration ?z)" by (simp add: int64_def minInt64_def maxInt64_def)
  ultimately have "3 * wc_HeartbeatInterval ?c \<le> wc_LeaseDuration ?c"
    using jobs_worker_config [of "''id''" "''default''" ?z ?c] n v by blast
  then show ?thesis using n by (auto simp: defaulted_def Let_def)
qed


section \<open>Runs against the drain\<close>

lemma run_invariant:
  assumes "run_reach rs"
  shows "(case rn_phase rs of
      PhaseRegistered \<Rightarrow> rn_at rs = Preparing \<and> rn_invoked rs = 0 \<and> rn_committing rs = 0 \<and> rn_lease_kept rs
    | PhaseRunning \<Rightarrow> rn_at rs = InHandler \<and> rn_invoked rs = 1 \<and> rn_committing rs = 0 \<and> rn_lease_kept rs
    | PhaseResolving \<Rightarrow> rn_at rs \<in> {Committing, Finished} \<and> rn_invoked rs \<le> 1 \<and> rn_committing rs = 1 \<and> rn_lease_kept rs
    | PhaseAbandoned \<Rightarrow> rn_at rs \<noteq> Committing \<and> rn_committing rs = 0 \<and> \<not> rn_lease_kept rs \<and>
        rn_invoked rs \<le> 1 \<and> (rn_at rs = Preparing \<longrightarrow> rn_invoked rs = 0))"
  using assms
proof induction
  case Init
  then show ?case by (simp add: newRun_def)
next
  case (Step rs rs')
  from Step.hyps(2) show ?case
    by (cases rule: run_step.cases)
      (use Step.IH in \<open>auto simp: run_begin_def run_park_def run_return_def run_drain_def phase_cas_def split: run_phase.splits\<close>)
qed

text \<open>Shutdown and completion exclude each other: in every interleaving of a run and the drain, the
  handler is invoked at most once and the outcome is committed at most once; an attempt the drain has
  abandoned is never committed, keeps no lease, and its handler is not invoked any more if it was not
  yet; and a run that is committing keeps its lease, whatever the drain does.\<close>

theorem jobs_drain_excludes_commit:
  assumes "run_reach rs"
  shows "rn_invoked rs \<le> 1 \<and> rn_committing rs \<le> 1 \<and>
    (rn_phase rs = PhaseAbandoned \<longrightarrow> rn_committing rs = 0 \<and> \<not> rn_lease_kept rs \<and>
       (\<forall>rs'. run_step rs rs' \<longrightarrow> rn_phase rs' = PhaseAbandoned \<and> rn_invoked rs' = rn_invoked rs)) \<and>
    (rn_at rs = Committing \<longrightarrow> rn_phase rs = PhaseResolving \<and> rn_lease_kept rs \<and> run_drain rs = rs) \<and>
    (rn_phase (run_drain rs) = PhaseAbandoned \<or> rn_phase (run_drain rs) = PhaseResolving)"
proof -
  note inv = run_invariant [OF assms]
  have "rn_phase rs' = PhaseAbandoned \<and> rn_invoked rs' = rn_invoked rs"
    if "rn_phase rs = PhaseAbandoned" "run_step rs rs'" for rs'
    using that(2) that(1)
    by (cases rule: run_step.cases) (auto simp: run_begin_def run_park_def run_return_def run_drain_def phase_cas_def)
  then show ?thesis using inv
    by (auto simp: run_drain_def phase_cas_def split: run_phase.splits)
qed

theorem jobs_drain_excludes_commit_witness:
  "run_reach (run_drain newRun) \<and> rn_phase (run_drain newRun) = PhaseAbandoned \<and> rn_committing (run_drain newRun) = 0 \<and>
    rn_invoked (run_begin (run_drain newRun)) = 0"
proof -
  have r: "run_reach (run_drain newRun)" by (rule run_reach.Step [OF run_reach.Init run_step.Drain])
  have p: "rn_phase (run_drain newRun) = PhaseAbandoned" "rn_at (run_drain newRun) = Preparing" "rn_invoked (run_drain newRun) = 0"
    by (simp_all add: run_drain_def phase_cas_def newRun_def)
  from jobs_drain_excludes_commit [OF r] run_step.Begin [OF p(2)] p r show ?thesis by (metis (no_types, lifting))
qed

lemma complete_loop_spec:
  assumes "attempt \<le> 5" "6 \<le> attempt + length rs"
  shows "\<exists>st n. complete_loop attempt rs = Some (st, n) \<and> attempt \<le> n \<and> n \<le> 5 \<and>
    (\<forall>k < n - attempt. \<exists>e. rs ! k = Inl e \<and> e \<noteq> ErrNotFound) \<and>
    (case st of Some a \<Rightarrow> rs ! (n - attempt) = Inr a
     | None \<Rightarrow> \<exists>e. rs ! (n - attempt) = Inl e \<and> (e = ErrNotFound \<or> n = 5))"
  using assms
proof (induction attempt rs rule: complete_loop.induct)
  case (3 attempt e rs)
  show ?case
  proof (cases "e = ErrNotFound \<or> attempt \<ge> 5")
    case True
    then show ?thesis using 3 by auto
  next
    case False
    with 3 obtain st n where c: "complete_loop (attempt + 1) rs = Some (st, n)" "attempt + 1 \<le> n" "n \<le> 5"
      "\<forall>k < n - (attempt + 1). \<exists>e. rs ! k = Inl e \<and> e \<noteq> ErrNotFound"
      "case st of Some a \<Rightarrow> rs ! (n - (attempt + 1)) = Inr a
       | None \<Rightarrow> \<exists>e. rs ! (n - (attempt + 1)) = Inl e \<and> (e = ErrNotFound \<or> n = 5)" by auto
    have n: "n - attempt = Suc (n - (attempt + 1))" using c(2) by simp
    have "\<exists>x. (Inl e # rs) ! k = Inl x \<and> x \<noteq> ErrNotFound" if "k < n - attempt" for k
      using that c(4) n False by (cases k) auto
    moreover have at: "(Inl e # rs) ! (n - attempt) = rs ! (n - (attempt + 1))" unfolding n by simp
    have "case st of Some a \<Rightarrow> (Inl e # rs) ! (n - attempt) = Inr a
       | None \<Rightarrow> \<exists>x. (Inl e # rs) ! (n - attempt) = Inl x \<and> (x = ErrNotFound \<or> n = 5)"
      using c(5) by (simp only: at)
    moreover have "complete_loop attempt (Inl e # rs) = Some (st, n)" "attempt \<le> n" using c(1,2) False by simp_all
    ultimately show ?thesis using c(3) by blast
  qed
qed auto

text \<open>Committing an outcome always ends: whatever the store answers, \<open>complete\<close> returns after one
  to five calls. It reports a commit exactly when some call before any refusal succeeded, with the
  state that call applied, and it gives up early only on a lost lease.\<close>

theorem jobs_complete_ends:
  assumes "5 \<le> length results"
  shows "\<exists>st n. complete results = Some (st, n) \<and> 1 \<le> n \<and> n \<le> 5 \<and>
    (\<forall>k < n - 1. \<exists>e. results ! k = Inl e \<and> e \<noteq> ErrNotFound) \<and>
    (case st of Some a \<Rightarrow> results ! (n - 1) = Inr a
     | None \<Rightarrow> \<exists>e. results ! (n - 1) = Inl e \<and> (e = ErrNotFound \<or> n = 5))"
  unfolding complete_def using complete_loop_spec [of 1 results] assms by simp

theorem jobs_complete_ends_witness:
  "complete [Inl ErrUnsupported, Inl ErrUnsupported, Inr StateFailed, Inl ErrNotFound, Inl ErrNotFound] = Some (Some StateFailed, 3) \<and>
   (\<exists>st n. complete (replicate 5 (Inl ErrUnsupported)) = Some (st, n) \<and> n \<le> 5)"
  using jobs_complete_ends [of "replicate 5 (Inl ErrUnsupported)"] by (auto simp: complete_def)

end
