(* ===== verification/JobEngine.thy ===== *)
theory JobEngine
  imports JobWorker
begin

text \<open>
  Package \<open>jobs\<close>: workers running against a store. The concurrency limits of a worker rest on an
  interface to the store's \<open>Claim\<close> alone; the budget of attempts and the fencing of completions are
  about workers and the in-process store together.
\<close>

section \<open>One attempt from claim to completion (worker.go, run)\<close>

text \<open>What \<open>run\<close> finds on its way: whether a handler is registered, whether the payload decodes,
  whether the drain abandons the attempt before the handler starts or while it runs, and what the
  handler, the heartbeat and the clocks give.\<close>

record run_env =
  re_handler :: bool
  re_decode :: "string option"
  re_abandonEarly :: bool
  re_abandonLate :: bool
  re_err :: "run_error option"
  re_cancelByUser :: bool
  re_ctxDeadline :: bool
  re_started :: time
  re_finished :: time
  re_draining :: bool
  re_now :: time

definition unregistered_cause :: "claimed_job \<Rightarrow> string" where
  "unregistered_cause cj = ''handler is not registered: '' @ Kind (cj_Job cj) @ ''/'' @ HandlerID (cj_Job cj)"

text \<open>The outcome handed to \<open>complete\<close>, and whether the handler was invoked.\<close>

definition worker_run :: "(claimed_job \<Rightarrow> int \<Rightarrow> duration) \<Rightarrow> run_env \<Rightarrow> claimed_job \<Rightarrow> job_outcome option \<times> bool" where
  "worker_run nextDelay e cj =
    (let attemptNum = cj_Attempt cj + 1
     in if \<not> re_handler e then
          (if re_abandonEarly e then None else Some (park_outcome (re_now e) attemptNum (unregistered_cause cj)), False)
        else case re_decode e of
          Some cause \<Rightarrow> (if re_abandonEarly e then None else Some (park_outcome (re_now e) attemptNum cause), False)
        | None \<Rightarrow>
          if re_abandonEarly e then (None, False)
          else if re_abandonLate e then (None, True)
          else (Some (decideOutcome nextDelay (re_draining e) (re_now e) cj attemptNum (re_err e) (re_cancelByUser e)
                 (TimeoutMs (cj_Job cj) > 0 \<and> re_ctxDeadline e) (re_started e) (re_finished e)), True))"

text \<open>\<open>trySweep\<close>: the expired leases, the stale workers, then the worker's own row.\<close>

definition trySweep :: "(nat \<Rightarrow> string) \<Rightarrow> string \<Rightarrow> time \<Rightarrow> time \<Rightarrow> time \<Rightarrow> worker_config \<Rightarrow> js \<Rightarrow> js" where
  "trySweep nid host now1 now2 now3 c s =
    (let s1 = snd (js_SweepExpired nid now1 s);
         s2 = snd (js_SweepStaleWorkers (now2 + wrap64 (- 5 * wc_LeaseDuration c)) s1)
     in js_UpsertWorker \<lparr>wr_ID = wc_ID c, wr_Hostname = host, wr_Queues = wc_Queues c, wr_StartedAt = now3,
          wr_LastSeenAt = now3\<rparr> s2)"

section \<open>Concurrency limits\<close>

abbreviation in_flight :: "string \<Rightarrow> claimed_job list \<Rightarrow> int" where
  "in_flight q cs \<equiv> int (length (filter (\<lambda>c. Queue (cj_Job c) = q) cs))"

text \<open>What a worker needs of a store's \<open>Claim\<close>.\<close>

locale claim_provider =
  fixes claim :: "claim_request \<Rightarrow> 's \<Rightarrow> (jobs_error + claimed_job list) \<times> 's"
    and inv :: "'s \<Rightarrow> bool"
  assumes claim_inv: "inv s \<Longrightarrow> inv (snd (claim req s))"
    and claim_limit: "inv s \<Longrightarrow> claim req s = (Inr rows, s') \<Longrightarrow> 0 < cr_Limit req \<Longrightarrow> int (length rows) \<le> cr_Limit req"
    and claim_budget: "inv s \<Longrightarrow> claim req s = (Inr rows, s') \<Longrightarrow> map_of (cr_QueueLimits req) q = Some lim \<Longrightarrow>
      0 \<le> lim \<Longrightarrow> in_flight q rows \<le> lim"
    and claim_queues: "inv s \<Longrightarrow> claim req s = (Inr rows, s') \<Longrightarrow> cr_Queues req \<noteq> [] \<Longrightarrow> c \<in> set rows \<Longrightarrow>
      Queue (cj_Job c) \<in> set (cr_Queues req)"

text \<open>A worker's polls and the ends of its runs, in any order, with the other users of the store in
  between; the list holds the runs in flight.\<close>

inductive pool_reach :: "(claim_request \<Rightarrow> 's \<Rightarrow> (jobs_error + claimed_job list) \<times> 's) \<Rightarrow> ('s \<Rightarrow> 's \<Rightarrow> bool) \<Rightarrow>
    worker \<Rightarrow> 's \<Rightarrow> worker \<Rightarrow> claimed_job list \<Rightarrow> 's \<Rightarrow> bool"
  for claim env w0 s0 where
  Start: "pool_reach claim env w0 s0 w0 [] s0"
| Poll: "pool_reach claim env w0 s0 w runs s \<Longrightarrow> tryClaim claim now w s = (rows, w', s') \<Longrightarrow>
    pool_reach claim env w0 s0 w' (runs @ rows) s'"
| Done: "pool_reach claim env w0 s0 w (xs @ c # ys) s \<Longrightarrow> pool_reach claim env w0 s0 (end_run c w) (xs @ ys) s"
| Env: "pool_reach claim env w0 s0 w runs s \<Longrightarrow> env s s' \<Longrightarrow> pool_reach claim env w0 s0 w runs s'"

definition pool_ok :: "worker_config \<Rightarrow> worker \<Rightarrow> claimed_job list \<Rightarrow> bool" where
  "pool_ok cfg w runs \<longleftrightarrow> w_cfg w = cfg \<and> w_busy w = int (length runs) \<and> (\<forall>q. w_inFlight w q = in_flight q runs) \<and>
    int (length runs) \<le> wc_Concurrency cfg \<and>
    (\<forall>q lim. map_of (wc_PerQueue cfg) q = Some lim \<longrightarrow> 0 < lim \<longrightarrow> in_flight q runs \<le> lim)"

lemma start_runs:
  "w_cfg (fold start_run rows w) = w_cfg w"
  "w_busy (fold start_run rows w) = w_busy w + int (length rows)"
  "w_inFlight (fold start_run rows w) q = w_inFlight w q + in_flight q rows"
  by (induction rows arbitrary: w) (auto simp: start_run_def bumpQueueInFlight_def)

lemma fold_budget:
  "map_of (fold (\<lambda>q b. fold (\<lambda>(k, v). goput k v) (queue_budget w q) b) qs b0) q =
    (if q \<in> set qs \<and> queue_budget w q \<noteq> [] then Some (snd (hd (queue_budget w q))) else map_of b0 q)"
proof (induction qs arbitrary: b0)
  case (Cons x xs)
  have "queue_budget w x = [] \<or> (\<exists>v. queue_budget w x = [(x, v)])"
    by (auto simp: queue_budget_def split: option.splits)
  then show ?case using Cons by (auto split: if_splits)
qed simp

lemma eligibleQueues_capped:
  assumes "eligibleQueues w = (qs, b)" "map_of (wc_PerQueue (w_cfg w)) q = Some lim" "0 < lim" "q \<in> set qs"
  shows "map_of b q = Some (lim - w_inFlight w q) \<and> 0 < lim - w_inFlight w q"
proof -
  have n: "wc_PerQueue (w_cfg w) \<noteq> []" using assms(2) by auto
  then have "q \<in> set (wc_Queues (w_cfg w))" "eligible_queue w q" using assms(1,4) by (auto simp: eligibleQueues_def)
  then have "queue_budget w q = [(q, lim - w_inFlight w q)]" "0 < lim - w_inFlight w q"
    using assms(2,3) by (auto simp: queue_budget_def eligible_queue_def)
  with \<open>q \<in> set (wc_Queues (w_cfg w))\<close> n assms(1) show ?thesis by (auto simp: eligibleQueues_def fold_budget)
qed

lemma end_run_ok:
  assumes "pool_ok cfg w (xs @ c # ys)"
  shows "pool_ok cfg (end_run c w) (xs @ ys)"
proof -
  have f: "in_flight q (xs @ c # ys) = in_flight q (xs @ ys) + (if Queue (cj_Job c) = q then 1 else 0)" for q by simp
  have cap: "in_flight q (xs @ ys) \<le> lim" if "map_of (wc_PerQueue cfg) q = Some lim" "0 < lim" for q lim
  proof -
    have "in_flight q (xs @ c # ys) \<le> lim" using assms that unfolding pool_ok_def by blast
    with f [of q] show ?thesis by (simp split: if_splits)
  qed
  have "w_inFlight (end_run c w) q = in_flight q (xs @ ys)" for q
    using assms f [of q] by (auto simp: pool_ok_def end_run_def bumpQueueInFlight_def)
  moreover have "w_cfg (end_run c w) = cfg" "w_busy (end_run c w) = int (length (xs @ ys))"
    "int (length (xs @ ys)) \<le> wc_Concurrency cfg"
    using assms by (auto simp: pool_ok_def end_run_def bumpQueueInFlight_def)
  ultimately show ?thesis using cap unfolding pool_ok_def by blast
qed

context claim_provider
begin

lemma tryClaim_ok:
  assumes "inv s" "pool_ok cfg w runs" "tryClaim claim now w s = (rows, w', s')"
  shows "inv s' \<and> pool_ok cfg w' (runs @ rows)"
proof -
  obtain qs b where e: "eligibleQueues w = (qs, b)" by fastforce
  define req where "req = \<lparr>cr_WorkerID = wc_ID (w_cfg w), cr_Queues = qs, cr_Now = now,
    cr_Lease = wc_LeaseDuration (w_cfg w), cr_Limit = wc_Concurrency (w_cfg w) - w_busy w, cr_QueueLimits = b,
    cr_Handlers = w_handlers w\<rparr>"
  consider "rows = []" "w' = w" "s' = s \<or> s' = snd (claim req s)"
    | "0 < cr_Limit req" "qs \<noteq> []" "claim req s = (Inr rows, s')" "w' = fold start_run rows w"
    using assms(3) e by (auto simp: tryClaim_def Let_def req_def split: if_splits prod.splits sum.splits)
  then show ?thesis
  proof cases
    case 1
    then show ?thesis using assms(1,2) claim_inv by auto
  next
    case 2
    have p: "w_cfg w = cfg" "w_busy w = int (length runs)" "w_inFlight w q = in_flight q runs" for q
      using assms(2) by (auto simp: pool_ok_def)
    have "int (length rows) \<le> wc_Concurrency cfg - int (length runs)"
      using claim_limit [OF assms(1) 2(3,1)] p by (simp add: req_def)
    moreover have "in_flight q runs + in_flight q rows \<le> lim" if "map_of (wc_PerQueue cfg) q = Some lim" "0 < lim" for q lim
    proof (cases "q \<in> set qs")
      case True
      from eligibleQueues_capped [OF e _ that(2) True] that p
      have "map_of (cr_QueueLimits req) q = Some (lim - in_flight q runs)" "0 \<le> lim - in_flight q runs"
        by (auto simp: req_def)
      from claim_budget [OF assms(1) 2(3) this] show ?thesis by simp
    next
      case False
      then have "\<forall>c \<in> set rows. Queue (cj_Job c) \<noteq> q"
        using claim_queues [OF assms(1) 2(3)] 2(2) by (auto simp: req_def)
      then have "filter (\<lambda>c. Queue (cj_Job c) = q) rows = []" by (simp add: filter_empty_conv)
      then show ?thesis using assms(2) that by (simp add: pool_ok_def)
    qed
    moreover have "inv s'" using claim_inv [OF assms(1), of req] 2(3) by simp
    ultimately show ?thesis using p by (auto simp: pool_ok_def 2(4) start_runs)
  qed
qed

lemma pool_invariant:
  assumes "pool_reach claim env w0 s0 w runs s" "inv s0" "\<And>s s'. env s s' \<Longrightarrow> inv s \<Longrightarrow> inv s'"
    and "pool_ok cfg w0 []"
  shows "inv s \<and> pool_ok cfg w runs"
  using assms(1)
  by induction (use assms tryClaim_ok end_run_ok in blast)+

end


text \<open>The in-process store behind the interface.\<close>

abbreviation mem_claim :: "claim_request \<Rightarrow> js \<Rightarrow> (jobs_error + claimed_job list) \<times> js" where
  "mem_claim req s \<equiv> (Inr (fst (js_Claim req s)), snd (js_Claim req s))"

lemma in_flight_claimed: "in_flight q (map (claimed req) rs) = in_queue q rs"
  by (induction rs) (auto simp: claimed_def job.truncate_def)

interpretation mclaim: claim_provider mem_claim "js_inv nid"
proof
  fix s :: js and req rows s' q lim c
  assume inv: "js_inv nid s"
  show "js_inv nid (snd (mem_claim req s))" using inv_Claim [OF inv] by simp
  assume "mem_claim req s = (Inr rows, s')"
  then have rows: "rows = map (claimed req) (picked req s)" by (simp add: js_Claim_picked)
  show "int (length rows) \<le> cr_Limit req" if "0 < cr_Limit req"
    using that claim_pick_length [of req "claim_room req" "candidates req s" "\<lambda>_. 0"]
    by (auto simp: rows picked_def claim_room_def)
  show "in_flight q rows \<le> lim" if "map_of (cr_QueueLimits req) q = Some lim" "0 \<le> lim"
    using claim_pick_budget [OF that, of "\<lambda>_. 0" "claim_room req" "candidates req s"] that(2)
    unfolding rows in_flight_claimed picked_def by (auto simp: picked_def)
  show "Queue (cj_Job c) \<in> set (cr_Queues req)" if "cr_Queues req \<noteq> []" "c \<in> set rows"
    using that picked_rows(2) [OF inv, of _ req] by (auto simp: rows claimable_def claimed_def job.truncate_def)
qed

text \<open>A worker keeps its limits: through any polls, ends of runs and operations of other users of
  the store, the runs in flight are at most \<open>Concurrency\<close> and those of a capped queue at most its
  cap, so handing a claimed job to the semaphore never blocks the poll; and every claimed job is of a
  queue the worker serves.\<close>

theorem jobs_worker_limits:
  assumes "inj nid" "NewWorker genID q0 cfg0 = Inr cfg"
    and "w0 = \<lparr>w_cfg = cfg, w_handlers = hs, w_inFlight = (\<lambda>_. 0), w_busy = 0\<rparr>"
    and "js_inv nid s0" "pool_reach mem_claim (\<lambda>s s'. \<exists>oper. s' = js_step nid oper s) w0 s0 w runs s"
  shows "int (length runs) \<le> wc_Concurrency cfg \<and>
    (\<forall>q lim. map_of (wc_PerQueue cfg) q = Some lim \<and> 0 < lim \<longrightarrow> in_flight q runs \<le> lim) \<and>
    (\<forall>q. w_inFlight w q = in_flight q runs) \<and>
    (\<forall>now rows w' s'. tryClaim mem_claim now w s = (rows, w', s') \<longrightarrow>
       int (length runs + length rows) \<le> wc_Concurrency cfg \<and> (\<forall>c \<in> set rows. Queue (cj_Job c) \<in> set (wc_Queues cfg)))"
proof -
  have "0 \<le> wc_Concurrency cfg"
    using assms(2) by (auto simp: NewWorker_def Let_def defaulted_def split: option.splits if_splits)
  then have ok0: "pool_ok cfg w0 []" by (simp add: pool_ok_def assms(3))
  have "js_inv nid s \<and> pool_ok cfg w runs"
    by (rule mclaim.pool_invariant [OF assms(5,4) _ ok0]) (auto intro: inv_step [OF _ assms(1)])
  then have inv: "js_inv nid s" and ok: "pool_ok cfg w runs" by auto
  have "pool_ok cfg w' (runs @ rows)" "\<forall>c \<in> set rows. Queue (cj_Job c) \<in> set (wc_Queues cfg)"
    if t: "tryClaim mem_claim now w s = (rows, w', s')" for now rows w' s'
  proof -
    show "pool_ok cfg w' (runs @ rows)" using mclaim.tryClaim_ok [OF inv ok t] by blast
    obtain qs b where e: "eligibleQueues w = (qs, b)" by fastforce
    have qs: "set qs \<subseteq> set (wc_Queues cfg)"
      using e ok by (auto simp: eligibleQueues_def pool_ok_def split: if_splits)
    define req where "req = \<lparr>cr_WorkerID = wc_ID (w_cfg w), cr_Queues = qs, cr_Now = now,
      cr_Lease = wc_LeaseDuration (w_cfg w), cr_Limit = wc_Concurrency (w_cfg w) - w_busy w, cr_QueueLimits = b,
      cr_Handlers = w_handlers w\<rparr>"
    have "rows = [] \<or> qs \<noteq> [] \<and> mem_claim req s = (Inr rows, snd (js_Claim req s))"
      using t e by (auto simp: tryClaim_def Let_def req_def split: if_splits)
    then show "\<forall>c \<in> set rows. Queue (cj_Job c) \<in> set (wc_Queues cfg)"
      using mclaim.claim_queues [OF inv, of req rows] qs by (auto simp: req_def)
  qed
  then show ?thesis using ok by (auto simp: pool_ok_def)
qed


definition demo_config :: worker_config where
  "demo_config = \<lparr>wc_ID = ''w'', wc_Queues = [''default''], wc_Concurrency = 2, wc_PerQueue = [(''default'', 1)], wc_PollInterval = 1,
     wc_LeaseDuration = 10, wc_HeartbeatInterval = 3, wc_SweepInterval = 1, wc_ShutdownTimeout = 1\<rparr>"

definition demo_worker :: worker where
  "demo_worker = \<lparr>w_cfg = demo_config, w_handlers = [(''mail'', ''send'')], w_inFlight = (\<lambda>_. 0), w_busy = 0\<rparr>"

definition demo_request :: claim_request where
  "demo_request = (demo_claim 6)\<lparr>cr_Limit := 2, cr_QueueLimits := [(''default'', 1)]\<rparr>"

lemma demo_request_claims: "fst (js_Claim demo_request demo_store) = [claimed demo_request demo_row]"
  by (simp add: demo_store_eq js_Claim_def demo_request_def demo_claim_def Let_def claimable_def demo_row_def new_row_def
      job.extend_def demo_job_def queue_full_def isZero_def zeroTime_def)

lemma demo_tryClaim: "tryClaim mem_claim 6 demo_worker demo_store =
    ([claimed demo_request demo_row], start_run (claimed demo_request demo_row) demo_worker, snd (js_Claim demo_request demo_store))"
proof -
  have "eligibleQueues demo_worker = ([''default''], [(''default'', 1)])"
    by (simp add: eligibleQueues_def demo_worker_def demo_config_def eligible_queue_def queue_budget_def)
  then show ?thesis
    using demo_request_claims
    by (simp add: tryClaim_def Let_def demo_worker_def demo_config_def demo_request_def demo_claim_def)
qed

lemma demo_config_New: "NewWorker [] ''q'' demo_config = Inr demo_config"
  by (simp add: NewWorker_def defaulted_def demo_config_def Let_def validIdent_def ident_byte_def less_eq_char_def wrap64_def)

theorem jobs_worker_limits_witness:
  "\<exists>rows w s. tryClaim mem_claim 6 demo_worker demo_store = (rows, w, s) \<and> length rows = 1 \<and>
    in_flight ''default'' rows \<le> 1 \<and> w_inFlight w ''default'' = in_flight ''default'' rows"
proof -
  let ?rows = "[claimed demo_request demo_row]"
  let ?w = "start_run (claimed demo_request demo_row) demo_worker"
  let ?s = "snd (js_Claim demo_request demo_store)"
  have "pool_reach mem_claim (\<lambda>s s'. \<exists>oper. s' = js_step demo_nid oper s) demo_worker demo_store ?w ([] @ ?rows) ?s"
    by (rule pool_reach.Poll [OF pool_reach.Start demo_tryClaim])
  then have r: "pool_reach mem_claim (\<lambda>s s'. \<exists>oper. s' = js_step demo_nid oper s) demo_worker demo_store ?w ?rows ?s" by simp
  have i: "js_inv demo_nid demo_store" unfolding demo_store_def by (rule inv_run [OF js_inv_New inj_demo_nid])
  have cap: "map_of (wc_PerQueue demo_config) ''default'' = Some 1 \<and> (0::int) < 1" by (simp add: demo_config_def)
  note th = jobs_worker_limits [OF inj_demo_nid demo_config_New demo_worker_def i r]
  have "in_flight ''default'' ?rows \<le> 1"
    by (rule th [THEN conjunct2, THEN conjunct1, rule_format, OF cap])
  moreover have "w_inFlight ?w ''default'' = in_flight ''default'' ?rows"
    by (rule th [THEN conjunct2, THEN conjunct2, THEN conjunct1, rule_format])
  ultimately show ?thesis using demo_tryClaim by (intro exI conjI) auto
qed

section \<open>The budget of attempts\<close>
section \<open>The budget of attempts\<close>

text \<open>Workers and operators on one store. A claim's rows are remembered with the worker that made it,
  and any of them may finish at any later time, also after its lease was swept or after it finished
  before: every interleaving of runs is included. Jobs are inserted with a positive \<open>MaxAttempts\<close>.\<close>

fun operator_op :: "js_op \<Rightarrow> bool" where
  "operator_op (OInsert now jobs) \<longleftrightarrow> (\<forall>j \<in> set jobs. 1 \<le> MaxAttempts j)"
| "operator_op (OFireSchedule f) \<longleftrightarrow> (\<forall>j \<in> set (sf_Jobs f). 1 \<le> MaxAttempts j)"
| "operator_op (OClaim req) \<longleftrightarrow> False"
| "operator_op (OComplete j w now o') \<longleftrightarrow> False"
| "operator_op _ \<longleftrightarrow> True"

inductive engine_reach :: "(nat \<Rightarrow> string) \<Rightarrow> (claimed_job \<Rightarrow> int \<Rightarrow> duration) \<Rightarrow> js \<Rightarrow> (string \<times> claimed_job) set \<Rightarrow> bool"
  for nid nextDelay where
  Empty: "engine_reach nid nextDelay js_New {}"
| Claim: "engine_reach nid nextDelay s C \<Longrightarrow>
    engine_reach nid nextDelay (snd (js_Claim req s)) (C \<union> Pair (cr_WorkerID req) ` set (fst (js_Claim req s)))"
| Finish: "engine_reach nid nextDelay s C \<Longrightarrow> (w, c) \<in> C \<Longrightarrow> fst (worker_run nextDelay e c) = Some o' \<Longrightarrow>
    engine_reach nid nextDelay (snd (js_Complete nid (cj_ID c) w now o' s)) C"
| Operator: "engine_reach nid nextDelay s C \<Longrightarrow> operator_op oper \<Longrightarrow> engine_reach nid nextDelay (js_step nid oper s) C"

definition within_budget :: "mem_row \<Rightarrow> bool" where
  "within_budget r \<longleftrightarrow> 0 \<le> r_attempt r \<and> r_attempt r \<le> MaxAttempts r \<and>
    (\<not> Terminal (r_state r) \<longrightarrow> r_attempt r < MaxAttempts r) \<and> (\<forall>x. r_state r \<noteq> StateOther x)"

text \<open>What is known of a claimed row for as long as its job exists.\<close>

definition claim_ok :: "(nat \<Rightarrow> string) \<Rightarrow> js \<Rightarrow> claimed_job \<Rightarrow> bool" where
  "claim_ok nid s c \<longleftrightarrow> 0 \<le> cj_Attempt c \<and> cj_Attempt c < MaxAttempts (cj_Job c) \<and> (\<exists>n < js_ids s. cj_ID c = nid n) \<and>
    (\<forall>r. row s (cj_ID c) = Some r \<longrightarrow> MaxAttempts (cj_Job c) \<le> MaxAttempts r)"

text \<open>The outcomes of a run stay within the budget it was claimed with.\<close>

lemma worker_run_outcome:
  assumes "fst (worker_run nextDelay e c) = Some o'"
  shows "o_State o' \<noteq> StateRunning \<and> (\<forall>x. o_State o' \<noteq> StateOther x) \<and>
    (o_AttemptState o' = AttemptNone \<longrightarrow> o_State o' = StateAvailable \<and> o_Attempt o' = cj_Attempt c) \<and>
    (o_AttemptState o' \<noteq> AttemptNone \<longrightarrow> o_Attempt o' = cj_Attempt c + 1) \<and>
    (\<not> Terminal (o_State o') \<and> o_AttemptState o' \<noteq> AttemptNone \<longrightarrow> cj_Attempt c + 1 < MaxAttempts (cj_Job c))"
  using assms
  by (auto simp: worker_run_def park_outcome_def decideOutcome_def dispatchTimeout_def Let_def
      split: if_splits option.splits on_timeout.splits)

lemma completed_budget:
  assumes "within_budget r" "r_state r = StateRunning" "fst (worker_run nextDelay e c) = Some o'"
    and "0 \<le> cj_Attempt c" "cj_Attempt c < MaxAttempts (cj_Job c)" "MaxAttempts (cj_Job c) \<le> MaxAttempts r"
  shows "within_budget (completed now o' r)" "MaxAttempts (completed now o' r) = MaxAttempts r"
  using assms worker_run_outcome [OF assms(3)]
  by (auto simp: within_budget_def completed_def Let_def)


text \<open>How the rows of a step relate to those before it.\<close>

definition evolves :: "(nat \<Rightarrow> string) \<Rightarrow> js \<Rightarrow> js \<Rightarrow> bool" where
  "evolves nid s s' \<longleftrightarrow> js_ids s \<le> js_ids s' \<and>
    (\<forall>i r'. row s' i = Some r' \<longrightarrow>
      (\<exists>r. row s i = Some r \<and> MaxAttempts r \<le> MaxAttempts r' \<and> (within_budget r \<longrightarrow> within_budget r')) \<or>
      within_budget r' \<and> (\<exists>n \<ge> js_ids s. i = nid n))"

lemma evolvesI:
  assumes "js_ids s \<le> js_ids s'"
    and "\<And>i r'. row s' i = Some r' \<Longrightarrow>
      \<exists>r. row s i = Some r \<and> MaxAttempts r \<le> MaxAttempts r' \<and> (within_budget r \<longrightarrow> within_budget r')"
  shows "evolves nid s s'"
  using assms unfolding evolves_def by blast

lemma evolves_refl [simp]: "evolves nid s s"
  by (auto simp: evolves_def)

lemma evolves_trans:
  assumes "evolves nid s t" "evolves nid t u"
  shows "evolves nid s u"
  unfolding evolves_def
proof (intro conjI allI impI)
  show "js_ids s \<le> js_ids u" using assms by (auto simp: evolves_def)
  fix i r' assume "row u i = Some r'"
  with assms(2) consider (old) r where "row t i = Some r" "MaxAttempts r \<le> MaxAttempts r'" "within_budget r \<longrightarrow> within_budget r'"
    | (fresh) "within_budget r'" "\<exists>n \<ge> js_ids t. i = nid n" unfolding evolves_def by blast
  then show "(\<exists>r. row s i = Some r \<and> MaxAttempts r \<le> MaxAttempts r' \<and> (within_budget r \<longrightarrow> within_budget r')) \<or>
      within_budget r' \<and> (\<exists>n \<ge> js_ids s. i = nid n)"
  proof cases
    case old
    with assms(1) have "(\<exists>r0. row s i = Some r0 \<and> MaxAttempts r0 \<le> MaxAttempts r \<and> (within_budget r0 \<longrightarrow> within_budget r)) \<or>
      within_budget r \<and> (\<exists>n \<ge> js_ids s. i = nid n)" unfolding evolves_def by blast
    with old show ?thesis by force
  next
    case fresh
    moreover have "js_ids s \<le> js_ids t" using assms(1) by (simp add: evolves_def)
    ultimately show ?thesis using order_trans by blast
  qed
qed

lemma ids_frame [frame_simps]:
  "js_ids (put_row r s) = js_ids s" "js_ids (freeUniq r s) = js_ids s" "js_ids (add_attempt nid j mk s) = js_ids s + 1"
  by (simp_all add: put_row_def freeUniq_def add_attempt_def split: option.split)

lemma insert_one_evolves:
  assumes "1 \<le> MaxAttempts j"
  shows "evolves nid s (snd (insert_one nid now j s))"
proof (cases "live_holder s j")
  case None
  have "within_budget (new_row j i st now)" if "st \<in> {StatePending, StateAvailable}" for i st
    using assms that by (auto simp: within_budget_def new_row_def job.extend_def)
  with None show ?thesis by (auto simp: evolves_def insert_one_def Let_def frame_simps)
qed (auto simp: insert_one_def split: prod.splits)

lemma insertLocked_evolves: "\<forall>j \<in> set jobs. 1 \<le> MaxAttempts j \<Longrightarrow> evolves nid s (snd (insertLocked nid now jobs s))"
proof (induction jobs arbitrary: s)
  case (Cons j jobs)
  then show ?case
    using evolves_trans [OF insert_one_evolves [of j nid s now]] by (simp add: Let_def case_prod_unfold)
qed simp

lemma sweep_ids: "js_ids s \<le> js_ids (snd (sweep_loop nid now rs n s))"
proof (induction rs arbitrary: n s)
  case (Cons r rs)
  have "js_ids (sweep_row nid now r s) = js_ids s + 1" by (simp add: sweep_row_def Let_def frame_simps)
  with Cons [of "sweep_row nid now r s" "n + 1"] Cons [of s n] show ?case by simp
qed simp

lemma Complete_ids: "js_ids s \<le> js_ids (snd (js_Complete nid j w now o' s))"
  by (auto simp: js_Complete_def Let_def frame_simps split: option.splits)

lemma Delete_rows: "row (snd (js_Delete j s)) i = Some r \<Longrightarrow> row s i = Some r"
  by (auto simp: js_Delete_def frame_simps split: option.splits if_splits)


lemma operator_evolves:
  assumes "js_inv nid s" "operator_op oper"
  shows "evolves nid s (js_step nid oper s)"
proof (cases oper)
  case (OInsert now jobs)
  then show ?thesis using insertLocked_evolves assms(2) by (simp add: js_Insert_def)
next
  case (OHeartbeat j w now until)
  show ?thesis
    by (rule evolvesI) (auto simp: OHeartbeat js_Heartbeat_def frame_simps within_budget_def leased_row_def
        other_row [OF assms(1)] split: option.splits if_splits)
next
  case (OSweepExpired now)
  show ?thesis
  proof (rule evolvesI)
    show "js_ids s \<le> js_ids (js_step nid oper s)" by (simp add: OSweepExpired js_SweepExpired_def sweep_ids)
    show "\<exists>r. row s i = Some r \<and> MaxAttempts r \<le> MaxAttempts r' \<and> (within_budget r \<longrightarrow> within_budget r')"
      if "row (js_step nid oper s) i = Some r'" for i r'
      using that SweepExpired_spec(2) [OF assms(1), of now i]
      by (auto simp: OSweepExpired within_budget_def lease_expired_def split: if_splits)
  qed
next
  case (ORetry j now)
  show ?thesis
  proof (cases rule: Retry_cases [OF assms(1), of j now, case_names Refused Revived])
    case (Revived r)
    show ?thesis
      by (rule evolvesI) (use Revived other_row [OF assms(1) Revived(1)] in
        \<open>auto simp: ORetry frame_simps within_budget_def revived_def split: if_splits\<close>)
  qed (simp add: ORetry)
next
  case (OCancel j now)
  have "js_ids (snd (js_Cancel j now s)) = js_ids s"
    by (auto simp: js_Cancel_def Let_def frame_simps split: option.splits)
  then show ?thesis
    by (intro evolvesI) (auto simp: OCancel Cancel_row [OF assms(1)] within_budget_def split: option.splits if_splits)
next
  case (ODelete j)
  have "js_ids (snd (js_Delete j s)) = js_ids s"
    by (auto simp: js_Delete_def frame_simps split: option.splits)
  moreover have "\<exists>r. row s i = Some r \<and> MaxAttempts r \<le> MaxAttempts r' \<and> (within_budget r \<longrightarrow> within_budget r')"
    if "row (snd (js_Delete j s)) i = Some r'" for i r'
    using Delete_rows [OF that] by blast
  ultimately show ?thesis unfolding ODelete js_step.simps by (intro evolvesI) simp_all
next
  case (OFireSchedule f)
  have "evolves nid s (snd (insertLocked nid (sf_Now f) (sf_Jobs f) s))"
    using insertLocked_evolves assms(2) OFireSchedule by simp
  then have "evolves nid s ((snd (insertLocked nid (sf_Now f) (sf_Jobs f) s))\<lparr>js_schedules := x\<rparr>)" for x
    by (simp add: evolves_def)
  then show ?thesis
    by (simp add: OFireSchedule js_FireSchedule_def Let_def case_prod_unfold split: option.split)
qed (use assms(2) in \<open>auto simp: evolves_def rest_rows js_UpsertWorker_def
    js_RetireWorker_def js_SweepStaleWorkers_def js_UpsertSchedule_def js_DeleteSchedule_def Let_def\<close>)

definition engine_ok :: "(nat \<Rightarrow> string) \<Rightarrow> js \<Rightarrow> (string \<times> claimed_job) set \<Rightarrow> bool" where
  "engine_ok nid s C \<longleftrightarrow> js_inv nid s \<and> (\<forall>i r. row s i = Some r \<longrightarrow> within_budget r) \<and> (\<forall>(w, c) \<in> C. claim_ok nid s c)"

lemma evolves_engine_ok:
  assumes "engine_ok nid s C" "evolves nid s s'" "js_inv nid s'" "inj nid"
  shows "engine_ok nid s' C"
proof -
  have "claim_ok nid s' c" if "(w, c) \<in> C" for w c
  proof -
    have c: "claim_ok nid s c" using assms(1) that by (auto simp: engine_ok_def)
    then obtain n where n: "n < js_ids s" "cj_ID c = nid n" by (auto simp: claim_ok_def)
    have "MaxAttempts (cj_Job c) \<le> MaxAttempts r'" if r': "row s' (cj_ID c) = Some r'" for r'
    proof -
      have "\<not> (\<exists>m \<ge> js_ids s. cj_ID c = nid m)" using n assms(4) by (auto dest: injD)
      then obtain r where "row s (cj_ID c) = Some r" "MaxAttempts r \<le> MaxAttempts r'"
        using assms(2) r' unfolding evolves_def by blast
      with c show ?thesis by (auto simp: claim_ok_def)
    qed
    moreover have "\<exists>m < js_ids s'. cj_ID c = nid m" using n assms(2) by (metis evolves_def less_le_trans)
    ultimately show ?thesis using c by (simp add: claim_ok_def)
  qed
  moreover have "within_budget r'" if "row s' i = Some r'" for i r'
    using assms(1,2) that unfolding evolves_def engine_ok_def by metis
  ultimately show ?thesis using assms(3) unfolding engine_ok_def by blast
qed


lemma fold_lease_ids: "js_ids (fold (\<lambda>r. put_row (lease_row req r)) rs s) = js_ids s"
  by (induction rs arbitrary: s) (simp_all add: frame_simps)

lemma engine_invariant:
  assumes "engine_reach nid nextDelay s C" "inj nid"
  shows "engine_ok nid s C"
  using assms(1)
proof induction
  case Empty
  then show ?case using js_inv_New by (simp add: engine_ok_def js_New_def)
next
  case (Claim s C req)
  then have inv: "js_inv nid s" and ok: "engine_ok nid s C" by (auto simp: engine_ok_def)
  note inv' = inv_Claim [OF inv, of req]
  have "js_ids (snd (js_Claim req s)) = js_ids s"
    by (simp add: js_Claim_picked fold_lease_ids)
  moreover have "\<exists>r. row s i = Some r \<and> MaxAttempts r \<le> MaxAttempts r' \<and> (within_budget r \<longrightarrow> within_budget r')"
    if r': "row (snd (js_Claim req s)) i = Some r'" for i r'
  proof (cases "i \<in> r_id ` set (picked req s)")
    case True
    then obtain r where r: "r \<in> set (picked req s)" "r_id r = i" by blast
    have "row s i = Some r" "\<not> Terminal (r_state r)"
      using picked_rows(1,2) [OF inv r(1)] r(2) claimable_not_terminal by blast+
    with r' True show ?thesis by (auto simp: Claim_row [OF inv] within_budget_def lease_row_def)
  next
    case False
    with r' show ?thesis by (simp add: Claim_row [OF inv])
  qed
  ultimately have ev: "evolves nid s (snd (js_Claim req s))" by (intro evolvesI) simp_all
  have "claim_ok nid s c" if c: "c \<in> set (fst (js_Claim req s))" for c
  proof -
    obtain r where r: "r \<in> set (picked req s)" "c = claimed req r" using c by (auto simp: js_Claim_picked)
    have row: "row s (r_id r) = Some r" using picked_rows(1) [OF inv r(1)] .
    have "within_budget r" "\<not> Terminal (r_state r)"
      using ok row picked_rows(2) [OF inv r(1)] claimable_not_terminal by (auto simp: engine_ok_def)
    then show ?thesis using row js_invD(3) [OF inv row]
      by (auto simp: claim_ok_def within_budget_def r(2) claimed_def job.truncate_def)
  qed
  then have "engine_ok nid s (C \<union> Pair (cr_WorkerID req) ` set (fst (js_Claim req s)))"
    using ok by (auto simp: engine_ok_def)
  from evolves_engine_ok [OF this ev inv' assms(2)] show ?case .
next
  case (Finish s C w c e o' now)
  then have inv: "js_inv nid s" and ok: "engine_ok nid s C" and c: "claim_ok nid s c" by (auto simp: engine_ok_def)
  have "evolves nid s (snd (js_Complete nid (cj_ID c) w now o' s))"
  proof (rule evolvesI [OF Complete_ids])
    fix i r' assume r': "row (snd (js_Complete nid (cj_ID c) w now o' s)) i = Some r'"
    then obtain r where r: "row s i = Some r" by (auto simp: Complete_row [OF inv] split: option.splits)
    have "r' = r \<or> i = cj_ID c \<and> r_state r = StateRunning \<and> r' = completed now o' r"
      using r' r by (auto simp: Complete_row [OF inv] split: if_splits)
    moreover have "within_budget (completed now o' r) \<and> MaxAttempts (completed now o' r) = MaxAttempts r"
      if "i = cj_ID c" "r_state r = StateRunning"
      using completed_budget [OF _ that(2) Finish.hyps(3)] ok c r that(1) by (auto simp: engine_ok_def claim_ok_def)
    ultimately show "\<exists>r. row s i = Some r \<and> MaxAttempts r \<le> MaxAttempts r' \<and> (within_budget r \<longrightarrow> within_budget r')"
      using r by auto
  qed
  from evolves_engine_ok [OF ok this inv_Complete [OF inv] assms(2)] show ?case .
next
  case (Operator s C oper)
  then have inv: "js_inv nid s" and ok: "engine_ok nid s C" by (auto simp: engine_ok_def)
  from evolves_engine_ok [OF ok operator_evolves [OF inv Operator.hyps(2)] inv_step [OF inv assms(2)] assms(2)] show ?case .
qed


text \<open>C28: The attempt counter stays within the budget: with jobs inserted with a positive \<open>MaxAttempts\<close>, through any
  interleaving of claims, completions of runs (also late ones, of runs that lost their lease), sweeps and operator
  actions, every job's stored attempt count is at most its \<open>MaxAttempts\<close> and below it as long as the job is not
  finished, every claim is handed out with room for one more attempt, and a job is always in one of the seven states.
  This bounds the counter, not how often the handler is started: a run released by a drain is not counted, and a late
  completion can set the counter back, so that a job runs more often than \<open>MaxAttempts\<close> (\<open>jobs_budget_overrun\<close>).\<close>

theorem jobs_attempt_budget:
  assumes "inj nid" "engine_reach nid nextDelay s C"
  shows "(\<forall>i r. row s i = Some r \<longrightarrow> 0 \<le> r_attempt r \<and> r_attempt r \<le> MaxAttempts r \<and>
      (\<not> Terminal (r_state r) \<longrightarrow> r_attempt r < MaxAttempts r) \<and> (\<forall>x. r_state r \<noteq> StateOther x)) \<and>
    (\<forall>req. \<forall>c \<in> set (fst (js_Claim req s)). 1 \<le> cj_Attempt c + 1 \<and> cj_Attempt c + 1 \<le> MaxAttempts (cj_Job c))"
proof -
  have ok: "engine_ok nid s C" by (rule engine_invariant [OF assms(2,1)])
  have "claim_ok nid (snd (js_Claim req s)) c" if "c \<in> set (fst (js_Claim req s))" for req c
    using engine_invariant [OF engine_reach.Claim [OF assms(2), of req] assms(1)] that by (auto simp: engine_ok_def)
  then have "1 \<le> cj_Attempt c + 1 \<and> cj_Attempt c + 1 \<le> MaxAttempts (cj_Job c)" if "c \<in> set (fst (js_Claim req s))" for req c
    using that by (force simp: claim_ok_def)
  then show ?thesis using ok unfolding engine_ok_def within_budget_def by blast
qed

text \<open>A job with a budget of two is claimed by \<open>w\<close>, loses its lease, is swept and claimed by \<open>w\<close> again; the first run,
  still going, then ends with an error.\<close>

definition budget_job :: job where
  "budget_job = demo_job\<lparr>MaxAttempts := 2\<rparr>"

definition late_failure :: run_env where
  "late_failure = \<lparr>re_handler = True, re_decode = None, re_abandonEarly = False, re_abandonLate = False,
     re_err = Some \<lparr>re_text = ''boom'', re_canceled = False, re_permanent = False\<rparr>,
     re_cancelByUser = False, re_ctxDeadline = False, re_started = 7, re_finished = 22, re_draining = False, re_now = 22\<rparr>"

definition budget_first :: "claimed_job list \<times> js" where
  "budget_first = js_Claim (demo_claim 6) (js_step demo_nid (OInsert 5 [budget_job]) js_New)"

definition budget_second :: "claimed_job list \<times> js" where
  "budget_second = js_Claim (demo_claim 21) (js_step demo_nid (OSweepExpired 20) (snd budget_first))"

definition late_outcome :: job_outcome where
  "late_outcome = \<lparr>o_State = StatePending, o_Attempt = 1, o_Error = ''boom'', o_AvailableAt = 22, o_AttemptState = AttemptFailed,
     o_StartedAt = 7, o_FinishedAt = 22\<rparr>"

definition budget_third :: "claimed_job list \<times> js" where
  "budget_third = js_Claim (demo_claim 30) (snd (js_Complete demo_nid ''d'' ''w'' 22 late_outcome (snd budget_second)))"

lemma budget_claims:
  "map (\<lambda>c. (cj_ID c, cj_Attempt c, MaxAttempts (cj_Job c))) (fst budget_first) = [(''d'', 0, 2)]"
  "map (\<lambda>c. (cj_ID c, cj_Attempt c, MaxAttempts (cj_Job c))) (fst budget_second) = [(''d'', 1, 2)]"
  "map (\<lambda>c. (cj_ID c, cj_Attempt c, MaxAttempts (cj_Job c))) (fst budget_third) = [(''d'', 1, 2)]"
  "fst (worker_run (\<lambda>c n. 0) late_failure (hd (fst budget_first))) = Some late_outcome"
  "map_option (\<lambda>r. (r_state r, MaxAttempts r)) (row (snd budget_third) ''d'') = Some (StateRunning, 2)"
  by code_simp+

lemma budget_reach: "\<exists>C. engine_reach demo_nid (\<lambda>c n. 0) (snd budget_third) C"
proof -
  obtain c where c: "fst budget_first = [c]" "cj_ID c = ''d''" using budget_claims(1) by auto
  have w: "cr_WorkerID (demo_claim t) = ''w''" for t by (simp add: demo_claim_def)
  have o1: "operator_op (OInsert 5 [budget_job])" by (simp add: budget_job_def)
  have "engine_reach demo_nid (\<lambda>c n. 0) (js_step demo_nid (OInsert 5 [budget_job]) js_New) {}" by (rule engine_reach.Operator [OF engine_reach.Empty o1])
  from engine_reach.Claim [OF this, of "demo_claim 6"]
  have 1: "engine_reach demo_nid (\<lambda>c n. 0) (snd budget_first) ({} \<union> Pair ''w'' ` set [c])" unfolding budget_first_def [symmetric] c(1) w .
  have "operator_op (OSweepExpired 20)" by simp
  from engine_reach.Claim [OF engine_reach.Operator [OF 1 this], of "demo_claim 21"]
  have 2: "engine_reach demo_nid (\<lambda>c n. 0) (snd budget_second) ({} \<union> Pair ''w'' ` set [c] \<union> Pair ''w'' ` set (fst budget_second))"
    unfolding budget_second_def [symmetric] w .
  have "fst (worker_run (\<lambda>c n. 0) late_failure c) = Some late_outcome" using budget_claims(4) c by simp
  then have "\<exists>C. engine_reach demo_nid (\<lambda>c n. 0) (snd (js_Complete demo_nid (cj_ID c) ''w'' 22 late_outcome (snd budget_second))) C"
    using engine_reach.Finish [OF 2, of "''w''" c late_failure late_outcome 22] by auto
  then show ?thesis using engine_reach.Claim unfolding c(2) budget_third_def by blast
qed

theorem jobs_attempt_budget_witness:
  "\<exists>C r. engine_reach demo_nid (\<lambda>c n. 0) (snd budget_third) C \<and> row (snd budget_third) ''d'' = Some r \<and> r_state r = StateRunning \<and>
     r_attempt r < MaxAttempts r \<and> MaxAttempts r = 2"
proof -
  obtain C where r: "engine_reach demo_nid (\<lambda>c n. 0) (snd budget_third) C" using budget_reach by blast
  obtain x where x: "row (snd budget_third) ''d'' = Some x" "r_state x = StateRunning" "MaxAttempts x = 2" using budget_claims(5) by auto
  have "\<not> Terminal (r_state x)" using x(2) by simp
  with r x jobs_attempt_budget [OF inj_demo_nid r, THEN conjunct1, rule_format, OF x(1)] show ?thesis by blast
qed

text \<open>\<open>MaxAttempts\<close> does not cap the executions. The run that lost its lease completes the second claim with the attempt
  number of its own claim, and the job with a budget of two is handed to a worker a third time.\<close>

theorem jobs_budget_overrun:
  "map MaxAttempts [cj_Job (hd (fst budget_first)), cj_Job (hd (fst budget_second)), cj_Job (hd (fst budget_third))] = [2, 2, 2] \<and>
   map cj_ID (fst budget_first @ fst budget_second @ fst budget_third) = [''d'', ''d'', ''d''] \<and>
   fst (worker_run (\<lambda>c n. 0) late_failure (hd (fst budget_first))) = Some late_outcome"
  using budget_claims by auto


section \<open>Fencing\<close>

text \<open>A lease is fenced by the worker's name only: when a worker claims a job a second time after
  losing the lease of its first claim, the first run, still going, can complete the second claim. Its
  outcome is applied, the ledger then holds two attempts with the same number, and the completion of
  the second run is refused as if the lease had been lost.\<close>

theorem jobs_stale_run_completes:
  assumes "inj nid" "js_inv nid s" "ledger_ok s" "c2 \<in> set (fst (js_Claim req s))"
    and "row s (cj_ID c2) = Some r" "\<not> r_cancelRequested r"
    and "cj_ID c1 = cj_ID c2" "0 \<le> cj_Attempt c1" "cj_Attempt c1 < cj_Attempt c2"
    and "fst (worker_run nextDelay e c1) = Some o1" "o_AttemptState o1 \<noteq> AttemptNone"
    and "s3 = snd (js_Complete nid (cj_ID c1) (cr_WorkerID req) now o1 (snd (js_Claim req s)))"
  shows "fst (js_Complete nid (cj_ID c1) (cr_WorkerID req) now o1 (snd (js_Claim req s))) = Inr (o_State o1) \<and>
    \<not> distinct (map at_Attempt (ledger s3 (cj_ID c1))) \<and>
    js_Complete nid (cj_ID c2) (cr_WorkerID req) now2 o2 s3 = (Inl ErrNotFound, s3)"
proof -
  let ?s2 = "snd (js_Claim req s)" and ?w = "cr_WorkerID req" and ?j = "cj_ID c2"
  obtain x where x: "x \<in> set (picked req s)" "c2 = claimed req x" using assms(4) by (auto simp: js_Claim_picked)
  have xr: "x = r" "r_id r = ?j" using picked_rows(1) [OF assms(2) x(1)] assms(5) js_invD(2) [OF assms(2,5)] x(2)
    by (auto simp: claimed_def)
  have "row ?s2 ?j = Some (lease_row req r)"
    using x xr assms(5) by (auto simp: Claim_row [OF assms(2)])
  then have l: "leased_row ?j ?w ?s2 = Some (lease_row req r)" by (simp add: leased_row_Some)
  have i: "r_id (lease_row req r) = ?j" using xr by simp
  have nc: "\<not> r_cancelRequested (lease_row req r)" using assms(6) by (simp add: lease_row_def)
  note out = worker_run_outcome [OF assms(10)]
  have row3: "row s3 ?j = Some (completed now o1 (lease_row req r))"
    unfolding assms(12) assms(7) by (simp add: Complete_frame(1) [OF l i])
  have "ledger ?s2 ?j = ledger s ?j"
    using fold_lease_frame by (auto simp: ledger_def js_Claim_picked)
  then have led: "map at_Attempt (ledger s3 ?j) = [1..r_attempt r] @ [cj_Attempt c1 + 1]"
    using Complete_frame(2) [OF l i, of nid now o1 ?j] ledger_okD(2) [OF assms(3,5)] out assms(7,11,12) nc
    by (simp add: completion_record_def completed_attempt_def counted_def)
  have "cj_Attempt c2 = r_attempt r" unfolding x(2) xr(1) by (simp add: claimed_def)
  then have "cj_Attempt c1 + 1 \<in> set [1..r_attempt r]" using assms(8,9) by simp
  with led have "\<not> distinct (map at_Attempt (ledger s3 (cj_ID c1)))" using assms(7) by simp
  moreover have "fst (js_Complete nid (cj_ID c1) ?w now o1 ?s2) = Inr (o_State o1)"
    using nc by (simp add: assms(7) Complete_eq [OF l i])
  moreover have "leased_row ?j ?w s3 = None" using row3 nc out by (simp add: leased_row_def)
  ultimately show ?thesis by (simp add: js_Complete_def)
qed

text \<open>A job claimed at 6, swept at 20 and claimed again at 21 by the same worker.\<close>

definition swept_store :: js where
  "swept_store = js_run demo_nid [OInsert 5 [demo_job], OClaim (demo_claim 6), OSweepExpired 20] js_New"

definition quick_success :: run_env where
  "quick_success = \<lparr>re_handler = True, re_decode = None, re_abandonEarly = False, re_abandonLate = False, re_err = None,
     re_cancelByUser = False, re_ctxDeadline = False, re_started = 7, re_finished = 22, re_draining = False, re_now = 22\<rparr>"

theorem jobs_stale_run_completes_witness:
  "\<exists>r c2 o1. row swept_store ''d'' = Some r \<and> r_attempt r = 1 \<and> c2 \<in> set (fst (js_Claim (demo_claim 21) swept_store)) \<and>
    fst (worker_run (\<lambda>c n. 0) quick_success (claimed (demo_claim 6) demo_row)) = Some o1 \<and>
    \<not> distinct (map at_Attempt (ledger (snd (js_Complete demo_nid ''d'' ''w'' 22 o1 (snd (js_Claim (demo_claim 21) swept_store)))) ''d''))"
proof -
  let ?c1 = "claimed (demo_claim 6) demo_row"
  have inv: "js_inv demo_nid swept_store" unfolding swept_store_def by (rule inv_run [OF js_inv_New inj_demo_nid])
  have "ledger_ok js_New" by (simp add: ledger_ok_def js_New_def ledger_def)
  then have led: "ledger_ok swept_store"
    unfolding swept_store_def by (rule ledger_run [OF _ js_inv_New inj_demo_nid]) simp
  have sw: "swept_store = snd (js_SweepExpired demo_nid 20 leased_store)" by (simp add: swept_store_def leased_store_def)
  have li: "js_inv demo_nid leased_store" unfolding leased_store_def by (rule inv_run [OF js_inv_New inj_demo_nid])
  let ?r = "swept 20 (lease_row (demo_claim 6) demo_row)"
  have r: "row swept_store ''d'' = Some ?r"
    unfolding sw SweepExpired_spec(2) [OF li] by (simp add: leased_store_eq lease_expired_def demo_claim_def isZero_def zeroTime_def demo_row_def)
  have only: "row swept_store i = None" if "i \<noteq> ''d''" for i
    unfolding sw SweepExpired_spec(2) [OF li] using that by (simp add: leased_store_eq)
  have "claimable (demo_claim 21) ?r"
    by (simp add: claimable_def swept_def lease_row_def demo_row_def new_row_def job.extend_def demo_job_def demo_claim_def Let_def)
  with r have "?r \<in> set (candidates (demo_claim 21) swept_store)"
    by (auto simp: candidates_def dest!: map_of_SomeD intro!: image_eqI [of _ snd])
  moreover have "candidates (demo_claim 21) swept_store \<noteq> []" using calculation by auto
  moreover have "y = ?r" if y: "y \<in> set (candidates (demo_claim 21) swept_store)" for y
  proof -
    obtain k where "(k, y) \<in> set (js_rows swept_store)" using y by (auto simp: candidates_def)
    then have k: "row swept_store k = Some y" using map_of_in_set [OF js_invD(1) [OF inv]] by blast
    then have "k = ''d''" using only by fastforce
    with k r show ?thesis by simp
  qed
  ultimately obtain xs where "candidates (demo_claim 21) swept_store = ?r # xs"
    by (metis list.exhaust list.set_intros(1))
  then have p: "?r \<in> set (picked (demo_claim 21) swept_store)"
    by (simp add: picked_def claim_room_def demo_claim_def queue_full_def)
  let ?c2 = "claimed (demo_claim 21) ?r"
  have c2: "?c2 \<in> set (fst (js_Claim (demo_claim 21) swept_store))" using p by (simp add: js_Claim_picked)
  obtain o1 where o1: "fst (worker_run (\<lambda>c n. 0) quick_success ?c1) = Some o1" "o_AttemptState o1 \<noteq> AttemptNone"
    by (simp add: worker_run_def quick_success_def decideOutcome_def claimed_def demo_row_def new_row_def job.extend_def job.truncate_def demo_job_def)
  have ids: "cj_ID ?c1 = ''d''" "cj_ID ?c2 = ''d''" "cj_Attempt ?c1 = 0" "cj_Attempt ?c2 = 1"
    by (simp_all add: claimed_def demo_row_def)
  have "\<not> distinct (map at_Attempt (ledger (snd (js_Complete demo_nid (cj_ID ?c1) (cr_WorkerID (demo_claim 21)) 22 o1
      (snd (js_Claim (demo_claim 21) swept_store)))) (cj_ID ?c1)))"
    using jobs_stale_run_completes [OF inj_demo_nid inv led c2 _ _ _ _ _ o1 refl, of ?r] r ids by simp
  moreover have "cr_WorkerID (demo_claim 21) = ''w''" by (simp add: demo_claim_def)
  moreover have "r_attempt ?r = 1" by (simp add: demo_row_def)
  ultimately show ?thesis using r c2 o1 ids by metis
qed

end
