(* ===== verification/JobManager.thy ===== *)
theory JobManager
  imports JobEngine
begin

text \<open>
  Package \<open>jobs\<close>: the manager (\<open>manager.go\<close>): registration of message types and handlers,
  the options of an enqueue, and enqueueing and publishing against a store.

  \<^item> A Go type is its name and its kind, as far as \<open>reflect\<close> is asked; handlers are values of a type
    parameter.
  \<^item> JSON is a parameter: \<open>enc\<close> encodes a message, \<open>marshal\<close> a backoff. Logger, hooks, location and
    the default backoff do not influence what is modelled; the clock's readings are arguments, one for
    each call of \<open>now\<close>.
  \<^item> The store is reached through its \<open>Insert\<close> only, which is an argument; hooks are the list of
    events they would see.
\<close>

section \<open>The manager and its registry\<close>

record manager_config =
  mc_DefaultQueue :: string
  mc_DefaultMaxAttempts :: int
  mc_SchedulerGroup :: string
  mc_SchedulerInterval :: duration
  mc_StoreTimeout :: duration

datatype rkind = RPointer | RStruct | ROther string

record rtype =
  rt_name :: string
  rt_kind :: rkind

record 'h manager =
  m_config :: manager_config
  m_kindByType :: "(rtype, string) gomap"
  m_typeByKind :: "(string, rtype) gomap"
  m_handlers :: "(string \<times> string, 'h) gomap"
  m_kindHandlers :: "(string, string list) gomap"
  m_declared :: "(string, schedule_row) gomap"

definition mgr_New :: "manager_config \<Rightarrow> jobs_error + 'h manager" where
  "mgr_New cfg =
    (let queue = (if mc_DefaultQueue cfg = [] then ''default'' else mc_DefaultQueue cfg)
     in case validIdent ''DefaultQueue'' queue of Some e \<Rightarrow> Inl e
        | None \<Rightarrow>
          if mc_DefaultMaxAttempts cfg < 0 then Inl (JobsErr ''DefaultMaxAttempts must be >= 0'')
          else Inr \<lparr>m_config = \<lparr>mc_DefaultQueue = queue,
                 mc_DefaultMaxAttempts = (if mc_DefaultMaxAttempts cfg = 0 then 25 else mc_DefaultMaxAttempts cfg),
                 mc_SchedulerGroup = mc_SchedulerGroup cfg, mc_SchedulerInterval = mc_SchedulerInterval cfg,
                 mc_StoreTimeout = (if mc_StoreTimeout cfg = 0 then 30 * second
                                    else if mc_StoreTimeout cfg < 0 then 0 else mc_StoreTimeout cfg)\<rparr>,
               m_kindByType = [], m_typeByKind = [], m_handlers = [], m_kindHandlers = [], m_declared = []\<rparr>)"

definition cronPrefix :: string where
  "cronPrefix = ''cron:''"

definition hasPrefix :: "string \<Rightarrow> string \<Rightarrow> bool" where
  "hasPrefix s p \<longleftrightarrow> take (length p) s = p"

definition Register :: "rtype \<Rightarrow> string \<Rightarrow> 'h manager \<Rightarrow> jobs_error option \<times> 'h manager" where
  "Register typ kind m =
    (case validIdent ''kind'' kind of Some e \<Rightarrow> (Some e, m)
     | None \<Rightarrow>
       if hasPrefix kind cronPrefix then (Some (JobsErr ''reserved prefix''), m)
       else if rt_kind typ = RPointer then (Some (JobsErr ''message type must be a value''), m)
       else if rt_kind typ \<noteq> RStruct then (Some (JobsErr ''message type must be a struct''), m)
       else (case map_of (m_kindByType m) typ of
           Some existing \<Rightarrow> (if existing = kind then None else Some ErrTypeAlreadyRegistered, m)
         | None \<Rightarrow> (case map_of (m_typeByKind m) kind of
             Some boundTo \<Rightarrow> (Some ErrKindAlreadyRegistered, m)
           | None \<Rightarrow> (None, m\<lparr>m_kindByType := goput typ kind (m_kindByType m),
                             m_typeByKind := goput kind typ (m_typeByKind m)\<rparr>))))"

definition ids_of :: "string \<Rightarrow> 'h manager \<Rightarrow> string list" where
  "ids_of kind m = (case map_of (m_kindHandlers m) kind of None \<Rightarrow> [] | Some ids \<Rightarrow> ids)"

definition On :: "rtype \<Rightarrow> string \<Rightarrow> 'h option \<Rightarrow> 'h manager \<Rightarrow> jobs_error option \<times> 'h manager" where
  "On typ handlerID fn m =
    (case fn of None \<Rightarrow> (Some (JobsErr ''nil handler''), m)
     | Some h \<Rightarrow>
       (case validIdent ''handler-id'' handlerID of Some e \<Rightarrow> (Some e, m)
        | None \<Rightarrow>
          (case map_of (m_kindByType m) typ of None \<Rightarrow> (Some (JobsErr ''type is not registered''), m)
           | Some kind \<Rightarrow>
             if map_of (m_handlers m) (kind, handlerID) \<noteq> None then (Some ErrHandlerAlreadyRegistered, m)
             else (None, m\<lparr>m_handlers := goput (kind, handlerID) h (m_handlers m),
                           m_kindHandlers := goput kind (ids_of kind m @ [handlerID]) (m_kindHandlers m)\<rparr>))))"

definition Handle :: "rtype \<Rightarrow> string \<Rightarrow> 'h option \<Rightarrow> 'h manager \<Rightarrow> jobs_error option \<times> 'h manager" where
  "Handle typ kind fn m =
    (case Register typ kind m of (Some e, m1) \<Rightarrow> (Some e, m1) | (None, m1) \<Rightarrow> On typ kind fn m1)"

text \<open>A message with its dynamic type; a nil message has none.\<close>

record 'p message =
  msg_type :: "rtype option"
  msg_val :: 'p

definition resolve :: "'p message \<Rightarrow> 'h manager \<Rightarrow> jobs_error + string \<times> string list" where
  "resolve msg m =
    (case msg_type msg of None \<Rightarrow> Inl (JobsErr ''nil message'')
     | Some t \<Rightarrow>
       if rt_kind t = RPointer then Inl (JobsErr ''message must be a value'')
       else (case map_of (m_kindByType m) t of None \<Rightarrow> Inl ErrUnregistered
             | Some kind \<Rightarrow> Inr (kind, ids_of kind m)))"

definition handlerFor :: "string \<times> string \<Rightarrow> 'h manager \<Rightarrow> 'h option" where
  "handlerFor k m = map_of (m_handlers m) k"

definition handlerSet :: "'h manager \<Rightarrow> (string \<times> string) list" where
  "handlerSet m = map fst (m_handlers m)"

section \<open>Options\<close>

record 'f job_opts =
  jo_queue :: string
  jo_priority :: int
  jo_maxAttempts :: int
  jo_backoff :: "'f backoff"
  jo_timeout :: duration
  jo_onTimeout :: on_timeout
  jo_uniqueKey :: string
  jo_after :: duration
  jo_at :: time

definition zero_opts :: "'f job_opts" where
  "zero_opts = \<lparr>jo_queue = [], jo_priority = 0, jo_maxAttempts = 0, jo_backoff = BackoffNil, jo_timeout = 0,
     jo_onTimeout = TimeoutRetry, jo_uniqueKey = [], jo_after = 0, jo_at = zeroTime\<rparr>"

datatype 'f job_option =
    OptAfter duration | OptAt time | OptQueue string | OptPriority int | OptMaxAttempts int
  | OptBackoff "'f backoff" | OptTimeout duration | OptTimeoutAction on_timeout | OptUniqueKey string

fun apply_opt :: "'f job_option \<Rightarrow> 'f job_opts \<Rightarrow> 'f job_opts" where
  "apply_opt (OptAfter d) o' = o'\<lparr>jo_after := d\<rparr>"
| "apply_opt (OptAt t) o' = o'\<lparr>jo_at := t\<rparr>"
| "apply_opt (OptQueue q) o' = o'\<lparr>jo_queue := q\<rparr>"
| "apply_opt (OptPriority p) o' = o'\<lparr>jo_priority := p\<rparr>"
| "apply_opt (OptMaxAttempts n) o' = o'\<lparr>jo_maxAttempts := n\<rparr>"
| "apply_opt (OptBackoff b) o' = o'\<lparr>jo_backoff := b\<rparr>"
| "apply_opt (OptTimeout d) o' = o'\<lparr>jo_timeout := d\<rparr>"
| "apply_opt (OptTimeoutAction a) o' = o'\<lparr>jo_onTimeout := a\<rparr>"
| "apply_opt (OptUniqueKey k) o' = o'\<lparr>jo_uniqueKey := k\<rparr>"

definition applyOpts :: "'f job_option list \<Rightarrow> 'f job_opts" where
  "applyOpts opts = fold apply_opt opts zero_opts"

definition job_available :: "time \<Rightarrow> 'f job_opts \<Rightarrow> time" where
  "job_available now o' = (if \<not> isZero (jo_at o') then jo_at o' else if jo_after o' > 0 then now + jo_after o' else now)"

definition timeout_ms :: "duration \<Rightarrow> int" where
  "timeout_ms d = (if d > 0 \<and> d sdiv 1000000 = 0 then 1 else d sdiv 1000000)"

text \<open>\<open>payload\<close> is the result of \<open>encodePayload(msg)\<close>.\<close>

definition buildJobs :: "('f exp_backoff \<Rightarrow> jobs_error + string) \<Rightarrow> 'h manager \<Rightarrow> time \<Rightarrow> string \<Rightarrow> string list \<Rightarrow>
    jobs_error + string \<Rightarrow> 'f job_opts \<Rightarrow> time \<Rightarrow> bool \<Rightarrow> jobs_error + job list" where
  "buildJobs marshal m now kind ids payload o' scheduledFor schedSet =
    (case payload of Inl e \<Rightarrow> Inl e
     | Inr pl \<Rightarrow>
       (case encodeBackoff marshal (jo_backoff o') of Inl e \<Rightarrow> Inl e
        | Inr spec \<Rightarrow>
          (let queue = (if jo_queue o' = [] then mc_DefaultQueue (m_config m) else jo_queue o')
           in case validIdent ''queue'' queue of Some e \<Rightarrow> Inl e
              | None \<Rightarrow>
                (let maxAtt = (if jo_maxAttempts o' = 0 then mc_DefaultMaxAttempts (m_config m) else jo_maxAttempts o')
                 in if maxAtt < 0 then Inl (JobsErr ''MaxAttempts must be >= 0'')
                    else if length (jo_uniqueKey o') > 255 then Inl (JobsErr ''UniqueKey exceeds 255 bytes'')
                    else if CHR 0x00 \<in> set (jo_uniqueKey o') then Inl (JobsErr ''UniqueKey must not contain a null byte'')
                    else if jo_timeout o' < 0 then Inl (JobsErr ''Timeout must be >= 0'')
                    else (case validOnTimeout (jo_onTimeout o') of Some e \<Rightarrow> Inl e
                      | None \<Rightarrow> Inr (map (\<lambda>i. \<lparr>Kind = kind, HandlerID = i, Payload = pl, Queue = queue,
                          Priority = jo_priority o', AvailableAt = job_available now o', MaxAttempts = maxAtt,
                          TimeoutMs = timeout_ms (jo_timeout o'), OnTimeout = jo_onTimeout o', BackoffSpec = spec,
                          UniqueKey = jo_uniqueKey o', ScheduledFor = scheduledFor, ScheduledForSet = schedSet\<rparr>) ids))))))"

section \<open>Enqueue and publish\<close>

record enqueue_event =
  ee_JobID :: string
  ee_Kind :: string
  ee_HandlerID :: string
  ee_Transactional :: bool
  ee_ScheduleName :: string
  ee_ScheduledFor :: time

definition fireEnqueueHooks :: "insert_result list \<Rightarrow> string \<Rightarrow> bool \<Rightarrow> string \<Rightarrow> enqueue_event list" where
  "fireEnqueueHooks results kind transactional scheduleName =
    map (\<lambda>r. \<lparr>ee_JobID = ir_ID r, ee_Kind = kind, ee_HandlerID = ir_HandlerID r, ee_Transactional = transactional,
             ee_ScheduleName = scheduleName, ee_ScheduledFor = ir_ScheduledFor r\<rparr>)
      (filter (\<lambda>r. \<not> ir_Duplicate r) results)"

record publish_result =
  pr_HandlerID :: string
  pr_JobID :: string
  pr_Duplicate :: bool

definition toPublishResults :: "insert_result list \<Rightarrow> publish_result list" where
  "toPublishResults results = map (\<lambda>r. \<lparr>pr_HandlerID = ir_HandlerID r, pr_JobID = ir_ID r, pr_Duplicate = ir_Duplicate r\<rparr>) results"

text \<open>An \<open>Insert\<close>, of a store or of a transaction.\<close>

type_synonym 's inserter = "time \<Rightarrow> job list \<Rightarrow> 's \<Rightarrow> (jobs_error + insert_result list) \<times> 's"

definition enqueue_with :: "bool \<Rightarrow> 's inserter \<Rightarrow> ('f exp_backoff \<Rightarrow> jobs_error + string) \<Rightarrow> ('p \<Rightarrow> jobs_error + string) \<Rightarrow>
    time \<Rightarrow> time \<Rightarrow> 'h manager \<Rightarrow> 'p message \<Rightarrow> 'f job_option list \<Rightarrow> 's \<Rightarrow>
    (string \<times> jobs_error option) \<times> enqueue_event list \<times> 's" where
  "enqueue_with tx ins marshal enc now1 now2 m msg opts s =
    (case resolve msg m of Inl e \<Rightarrow> (([], Some e), [], s)
     | Inr (kind, ids) \<Rightarrow>
       if ids = [] then (([], Some (JobsErr ''kind has no handler'')), [], s)
       else if length ids > 1 then (([], Some (JobsErr ''kind has several handlers'')), [], s)
       else (case buildJobs marshal m now1 kind ids (enc (msg_val msg)) (applyOpts opts) zeroTime False of
           Inl e \<Rightarrow> (([], Some e), [], s)
         | Inr rows \<Rightarrow>
           (case ins now2 rows s of (Inl e, s1) \<Rightarrow> (([], Some e), [], s1)
            | (Inr results, s1) \<Rightarrow>
              (let r = hd results
               in if ir_Duplicate r
                  then ((ir_ID r, Some (DuplicateError (ir_ID r) kind (hd ids) (UniqueKey (hd rows)))), [], s1)
                  else ((ir_ID r, None), fireEnqueueHooks results kind tx [], s1)))))"

definition publish_with :: "bool \<Rightarrow> 's inserter \<Rightarrow> ('f exp_backoff \<Rightarrow> jobs_error + string) \<Rightarrow> ('p \<Rightarrow> jobs_error + string) \<Rightarrow>
    time \<Rightarrow> time \<Rightarrow> 'h manager \<Rightarrow> 'p message \<Rightarrow> 'f job_option list \<Rightarrow> 's \<Rightarrow>
    (jobs_error + publish_result list) \<times> enqueue_event list \<times> 's" where
  "publish_with tx ins marshal enc now1 now2 m msg opts s =
    (case resolve msg m of Inl e \<Rightarrow> (Inl e, [], s)
     | Inr (kind, ids) \<Rightarrow>
       if ids = [] then (Inr [], [], s)
       else (case buildJobs marshal m now1 kind ids (enc (msg_val msg)) (applyOpts opts) zeroTime False of
           Inl e \<Rightarrow> (Inl e, [], s)
         | Inr rows \<Rightarrow>
           (case ins now2 rows s of (Inl e, s1) \<Rightarrow> (Inl e, [], s1)
            | (Inr results, s1) \<Rightarrow> (Inr (toPublishResults results), fireEnqueueHooks results kind tx [], s1))))"

definition Enqueue :: "'s inserter \<Rightarrow> ('f exp_backoff \<Rightarrow> jobs_error + string) \<Rightarrow> ('p \<Rightarrow> jobs_error + string) \<Rightarrow>
    time \<Rightarrow> time \<Rightarrow> 'h manager \<Rightarrow> 'p message \<Rightarrow> 'f job_option list \<Rightarrow> 's \<Rightarrow>
    (string \<times> jobs_error option) \<times> enqueue_event list \<times> 's" where
  "Enqueue = enqueue_with False"

definition Publish :: "'s inserter \<Rightarrow> ('f exp_backoff \<Rightarrow> jobs_error + string) \<Rightarrow> ('p \<Rightarrow> jobs_error + string) \<Rightarrow>
    time \<Rightarrow> time \<Rightarrow> 'h manager \<Rightarrow> 'p message \<Rightarrow> 'f job_option list \<Rightarrow> 's \<Rightarrow>
    (jobs_error + publish_result list) \<times> enqueue_event list \<times> 's" where
  "Publish = publish_with False"

text \<open>With a transaction: \<open>txs\<close> is the store's \<open>InsertTx\<close>, if it has one.\<close>

definition EnqueueTx :: "'s inserter option \<Rightarrow> ('f exp_backoff \<Rightarrow> jobs_error + string) \<Rightarrow> ('p \<Rightarrow> jobs_error + string) \<Rightarrow>
    time \<Rightarrow> time \<Rightarrow> 'h manager \<Rightarrow> 'p message \<Rightarrow> 'f job_option list \<Rightarrow> 's \<Rightarrow>
    (string \<times> jobs_error option) \<times> enqueue_event list \<times> 's" where
  "EnqueueTx txs marshal enc now1 now2 m msg opts s =
    (case txs of None \<Rightarrow> (([], Some ErrUnsupported), [], s)
     | Some ins \<Rightarrow> enqueue_with True ins marshal enc now1 now2 m msg opts s)"

definition PublishTx :: "'s inserter option \<Rightarrow> ('f exp_backoff \<Rightarrow> jobs_error + string) \<Rightarrow> ('p \<Rightarrow> jobs_error + string) \<Rightarrow>
    time \<Rightarrow> time \<Rightarrow> 'h manager \<Rightarrow> 'p message \<Rightarrow> 'f job_option list \<Rightarrow> 's \<Rightarrow>
    (jobs_error + publish_result list) \<times> enqueue_event list \<times> 's" where
  "PublishTx txs marshal enc now1 now2 m msg opts s =
    (case txs of None \<Rightarrow> (Inl ErrUnsupported, [], s)
     | Some ins \<Rightarrow> publish_with True ins marshal enc now1 now2 m msg opts s)"


section \<open>What a store's insert promises\<close>

text \<open>The contract of \<open>Insert\<close> as the manager uses it: a result per job, in order; each names a live
  job of the same kind and handler, the new one unless it is reported as a duplicate; jobs that were
  there stay; and a failed insert changes nothing.\<close>

locale insert_provider =
  fixes ins :: "'s inserter" and inv :: "'s \<Rightarrow> bool" and look :: "'s \<Rightarrow> string \<Rightarrow> mem_row option"
  assumes ins_inv: "inv s \<Longrightarrow> inv (snd (ins now jobs s))"
    and ins_results: "inv s \<Longrightarrow> ins now jobs s = (Inr rs, s') \<Longrightarrow> list_all2 (\<lambda>j r. ir_HandlerID r = HandlerID j \<and>
      (\<exists>x. look s' (ir_ID r) = Some x \<and> \<not> Terminal (r_state x) \<and>
        (if ir_Duplicate r then row_key x = row_key j \<and> UniqueKey j \<noteq> []
         else look s (ir_ID r) = None \<and> x = new_row j (ir_ID r) (if AvailableAt j > now then StatePending else StateAvailable) now)))
      jobs rs"
    and ins_keeps: "inv s \<Longrightarrow> look s i = Some x \<Longrightarrow> look (snd (ins now jobs s)) i = Some x"
    and ins_frame: "inv s \<Longrightarrow> ins now jobs s = (Inr rs, s') \<Longrightarrow>
      (\<And>r. r \<in> set rs \<Longrightarrow> \<not> ir_Duplicate r \<Longrightarrow> ir_ID r \<noteq> i) \<Longrightarrow> look s' i = look s i"
    and ins_error: "ins now jobs s = (Inl e, s') \<Longrightarrow> s' = s"

abbreviation mem_insert :: "(nat \<Rightarrow> string) \<Rightarrow> js inserter" where
  "mem_insert nid now jobs s \<equiv> (Inr (fst (js_Insert nid now jobs s)), snd (js_Insert nid now jobs s))"

lemma insert_one_result:
  assumes "js_inv nid s" "inj nid" "insert_one nid now j s = (r, s')"
  shows "ir_HandlerID r = HandlerID j \<and> (\<exists>x. row s' (ir_ID r) = Some x \<and> \<not> Terminal (r_state x) \<and>
    (if ir_Duplicate r then row_key x = row_key j \<and> UniqueKey j \<noteq> []
     else row s (ir_ID r) = None \<and> x = new_row j (ir_ID r) (if AvailableAt j > now then StatePending else StateAvailable) now))"
proof (cases "live_holder s j")
  case None
  with assms(3) fresh_id [OF assms(1,2)] show ?thesis by (auto simp: insert_one_def Let_def frame_simps)
next
  case (Some p)
  obtain i x where p: "p = (i, x)" by fastforce
  have "UniqueKey j \<noteq> []" using Some by (auto simp: live_holder_def split: if_splits)
  with assms(3) Some p live_holder_Some [OF assms(1) Some [unfolded p]] show ?thesis
    by (auto simp: insert_one_def live_keyed_def)
qed

lemma insertLocked_results:
  assumes "js_inv nid s" "inj nid" "insertLocked nid now jobs s = (rs, s')"
  shows "list_all2 (\<lambda>j r. ir_HandlerID r = HandlerID j \<and> (\<exists>x. row s' (ir_ID r) = Some x \<and> \<not> Terminal (r_state x) \<and>
    (if ir_Duplicate r then row_key x = row_key j \<and> UniqueKey j \<noteq> []
     else row s (ir_ID r) = None \<and> x = new_row j (ir_ID r) (if AvailableAt j > now then StatePending else StateAvailable) now)))
    jobs rs"
  using assms
proof (induction jobs arbitrary: s rs s')
  case (Cons j jobs)
  obtain r s1 where o1: "insert_one nid now j s = (r, s1)" by fastforce
  obtain rs1 s2 where o2: "insertLocked nid now jobs s1 = (rs1, s2)" by fastforce
  have eq: "rs = r # rs1" "s' = s2" using Cons.prems(3) o1 o2 by simp_all
  have i1: "js_inv nid s1" using inv_insert_one [OF Cons.prems(1,2), of now j] o1 by simp
  have none: "row s i = None" if "row s1 i = None" for i
    using insert_one_row(1) [OF Cons.prems(1,2), of i now j] that o1 by (cases "row s i") auto
  have "row s2 i = Some x" if "row s1 i = Some x" for i x
    using insertLocked_row [OF i1 Cons.prems(2), of i now jobs] that o2 by simp
  with insert_one_result [OF Cons.prems(1,2) o1] eq(2) have hd: "ir_HandlerID r = HandlerID j \<and>
    (\<exists>x. row s' (ir_ID r) = Some x \<and> \<not> Terminal (r_state x) \<and>
    (if ir_Duplicate r then row_key x = row_key j \<and> UniqueKey j \<noteq> []
     else row s (ir_ID r) = None \<and> x = new_row j (ir_ID r) (if AvailableAt j > now then StatePending else StateAvailable) now))"
    by metis
  show ?case unfolding eq(1) list.rel_inject eq(2)
  proof (intro conjI)
    show "list_all2 (\<lambda>j r. ir_HandlerID r = HandlerID j \<and> (\<exists>x. row s2 (ir_ID r) = Some x \<and> \<not> Terminal (r_state x) \<and>
      (if ir_Duplicate r then row_key x = row_key j \<and> UniqueKey j \<noteq> []
       else row s (ir_ID r) = None \<and> x = new_row j (ir_ID r) (if AvailableAt j > now then StatePending else StateAvailable) now)))
      jobs rs1"
      by (rule list_all2_mono [OF Cons.IH [OF i1 Cons.prems(2) o2]]) (auto dest: none split: if_splits)
  qed (use hd eq(2) in auto)
qed simp

lemma insertLocked_new_only:
  assumes "insertLocked nid now jobs s = (rs, s')" "\<And>r. r \<in> set rs \<Longrightarrow> \<not> ir_Duplicate r \<Longrightarrow> ir_ID r \<noteq> i"
  shows "row s' i = row s i"
  using assms
proof (induction jobs arbitrary: s rs)
  case (Cons j jobs)
  obtain r s1 where o1: "insert_one nid now j s = (r, s1)" by fastforce
  obtain rs1 s2 where o2: "insertLocked nid now jobs s1 = (rs1, s2)" by fastforce
  have eq: "rs = r # rs1" "s' = s2" using Cons.prems(1) o1 o2 by simp_all
  have "row s1 i = row s i"
    using o1 Cons.prems(2) [of r] eq(1) by (auto simp: insert_one_def Let_def frame_simps split: option.splits)
  with Cons.IH [of s1 rs1] o2 eq Cons.prems(2) show ?case by simp
qed simp

text \<open>The in-process store keeps the contract when the identifiers it draws are distinct.\<close>

abbreviation mem_ok :: "(nat \<Rightarrow> string) \<Rightarrow> js \<Rightarrow> bool" where
  "mem_ok nid s \<equiv> js_inv nid s \<and> inj nid"

interpretation minsert: insert_provider "mem_insert nid" "mem_ok nid" row
proof
  fix s s' :: js and now jobs rs i x e
  show "mem_ok nid (snd (mem_insert nid now jobs s))" if "mem_ok nid s"
    using inv_insertLocked [of nid s now jobs] that by (simp add: js_Insert_def)
  show "list_all2 (\<lambda>j r. ir_HandlerID r = HandlerID j \<and> (\<exists>x. row s' (ir_ID r) = Some x \<and> \<not> Terminal (r_state x) \<and>
      (if ir_Duplicate r then row_key x = row_key j \<and> UniqueKey j \<noteq> []
       else row s (ir_ID r) = None \<and> x = new_row j (ir_ID r) (if AvailableAt j > now then StatePending else StateAvailable) now)))
      jobs rs" if "mem_ok nid s" "mem_insert nid now jobs s = (Inr rs, s')"
    using insertLocked_results [of nid s now jobs rs s'] that by (cases "insertLocked nid now jobs s") (simp add: js_Insert_def)
  show "row (snd (mem_insert nid now jobs s)) i = Some x" if "mem_ok nid s" "row s i = Some x"
    using insertLocked_row [of nid s i now jobs] that by (simp add: js_Insert_def)
  show "row s' i = row s i" if "mem_ok nid s" "mem_insert nid now jobs s = (Inr rs, s')"
    "\<And>r. r \<in> set rs \<Longrightarrow> \<not> ir_Duplicate r \<Longrightarrow> ir_ID r \<noteq> i"
    using insertLocked_new_only [of nid now jobs s rs s' i] that
    by (cases "insertLocked nid now jobs s") (simp add: js_Insert_def)
  show "s' = s" if "mem_insert nid now jobs s = (Inl e, s')" using that by simp
qed

section \<open>Building jobs\<close>

lemma validIdent_None:
  "validIdent w s = None \<longleftrightarrow> s \<noteq> [] \<and> length s \<le> 255 \<and> (\<forall>c \<in> set s. ident_byte c)"
  by (auto simp: validIdent_def find_None_iff find_Some_iff split: option.splits)

lemma buildJobs_ok:
  assumes "buildJobs marshal m now kind ids payload o' sf sfs = Inr rows" "1 \<le> mc_DefaultMaxAttempts (m_config m)"
  shows "map HandlerID rows = ids"
    "\<forall>j \<in> set rows. Kind j = kind \<and> Inr (Payload j) = payload \<and> 1 \<le> MaxAttempts j \<and>
       MaxAttempts j = (if jo_maxAttempts o' = 0 then mc_DefaultMaxAttempts (m_config m) else jo_maxAttempts o') \<and>
       Queue j = (if jo_queue o' = [] then mc_DefaultQueue (m_config m) else jo_queue o') \<and>
       validIdent ''queue'' (Queue j) = None \<and> CHR 0x00 \<notin> set (UniqueKey j) \<and> UniqueKey j = jo_uniqueKey o' \<and>
       Priority j = jo_priority o' \<and> AvailableAt j = job_available now o' \<and> OnTimeout j = jo_onTimeout o' \<and>
       0 \<le> TimeoutMs j \<and> (TimeoutMs j = 0 \<longleftrightarrow> jo_timeout o' = 0) \<and> ScheduledFor j = sf \<and> ScheduledForSet j = sfs"
proof -
  have q: "timeout_ms d = 0 \<longleftrightarrow> d = 0" "0 \<le> timeout_ms d" if "0 \<le> d" for d
    using that by (auto simp: timeout_ms_def sdiv_pos pos_imp_zdiv_nonneg_iff)
  show "map HandlerID rows = ids"
    using assms(1) by (auto simp: buildJobs_def Let_def comp_def split: sum.splits option.splits if_splits)
  show "\<forall>j \<in> set rows. Kind j = kind \<and> Inr (Payload j) = payload \<and> 1 \<le> MaxAttempts j \<and>
       MaxAttempts j = (if jo_maxAttempts o' = 0 then mc_DefaultMaxAttempts (m_config m) else jo_maxAttempts o') \<and>
       Queue j = (if jo_queue o' = [] then mc_DefaultQueue (m_config m) else jo_queue o') \<and>
       validIdent ''queue'' (Queue j) = None \<and> CHR 0x00 \<notin> set (UniqueKey j) \<and> UniqueKey j = jo_uniqueKey o' \<and>
       Priority j = jo_priority o' \<and> AvailableAt j = job_available now o' \<and> OnTimeout j = jo_onTimeout o' \<and>
       0 \<le> TimeoutMs j \<and> (TimeoutMs j = 0 \<longleftrightarrow> jo_timeout o' = 0) \<and> ScheduledFor j = sf \<and> ScheduledForSet j = sfs"
    using assms q [of "jo_timeout o'"]
    by (auto simp: buildJobs_def Let_def split: sum.splits option.splits if_splits)
qed


section \<open>Publishing and enqueueing\<close>

text \<open>The job a published message makes for one handler.\<close>

definition requested :: "'h manager \<Rightarrow> time \<Rightarrow> string \<Rightarrow> string \<Rightarrow> string \<Rightarrow> 'f job_opts \<Rightarrow> job \<Rightarrow> bool" where
  "requested m now kind h pl o' j \<longleftrightarrow> Kind j = kind \<and> HandlerID j = h \<and> Payload j = pl \<and>
     Queue j = (if jo_queue o' = [] then mc_DefaultQueue (m_config m) else jo_queue o') \<and>
     MaxAttempts j = (if jo_maxAttempts o' = 0 then mc_DefaultMaxAttempts (m_config m) else jo_maxAttempts o') \<and>
     1 \<le> MaxAttempts j \<and> Priority j = jo_priority o' \<and> AvailableAt j = job_available now o' \<and>
     OnTimeout j = jo_onTimeout o' \<and> UniqueKey j = jo_uniqueKey o' \<and> CHR 0x00 \<notin> set (UniqueKey j) \<and>
     0 \<le> TimeoutMs j \<and> (TimeoutMs j = 0 \<longleftrightarrow> jo_timeout o' = 0) \<and> \<not> ScheduledForSet j"

lemma buildJobs_requested:
  assumes "buildJobs marshal m now kind ids payload o' zeroTime False = Inr rows" "1 \<le> mc_DefaultMaxAttempts (m_config m)"
  shows "\<exists>pl. payload = Inr pl \<and> list_all2 (\<lambda>h j. requested m now kind h pl o' j) ids rows"
proof -
  obtain pl where pl: "payload = Inr pl" using assms(1) by (cases payload) (auto simp: buildJobs_def)
  note b = buildJobs_ok [OF assms]
  have "requested m now kind (ids ! k) pl o' (rows ! k)" if "k < length rows" for k
  proof -
    have "HandlerID (rows ! k) = ids ! k" using b(1) that by auto
    moreover note bspec [OF b(2) nth_mem [OF that]]
    ultimately show ?thesis using pl unfolding requested_def by auto
  qed
  moreover have "length ids = length rows" using b(1) by (metis length_map)
  ultimately show ?thesis using pl by (auto simp: list_all2_conv_all_nth)
qed

text \<open>What one published handler gets: a live job, new and as requested unless reported a duplicate.\<close>

definition published :: "('s \<Rightarrow> string \<Rightarrow> mem_row option) \<Rightarrow> 'h manager \<Rightarrow> time \<Rightarrow> time \<Rightarrow> string \<Rightarrow> string \<Rightarrow> 'f job_opts \<Rightarrow> 's \<Rightarrow> 's \<Rightarrow> string \<Rightarrow> insert_result \<Rightarrow> bool" where
  "published look m now1 now2 kind pl o' s s' h r \<longleftrightarrow> ir_HandlerID r = h \<and>
    (\<exists>j x. requested m now1 kind h pl o' j \<and> look s' (ir_ID r) = Some x \<and> \<not> Terminal (r_state x) \<and>
      (if ir_Duplicate r then row_key x = row_key j \<and> UniqueKey j \<noteq> []
       else look s (ir_ID r) = None \<and> x = new_row j (ir_ID r) (if AvailableAt j > now2 then StatePending else StateAvailable) now2))"

context insert_provider
begin

lemma insert_published:
  assumes "inv s" "1 \<le> mc_DefaultMaxAttempts (m_config m)" "ins now2 rows s = (Inr rs, s')"
    and "buildJobs marshal m now1 kind ids payload o' zeroTime False = Inr rows"
  shows "\<exists>pl. payload = Inr pl \<and> list_all2 (published look m now1 now2 kind pl o' s s') ids rs"
proof -
  from buildJobs_requested [OF assms(4,2)] obtain pl where
    pl: "payload = Inr pl" "list_all2 (\<lambda>h j. requested m now1 kind h pl o' j) ids rows" by blast
  have "list_all2 (published look m now1 now2 kind pl o' s s') ids rs"
  proof (rule list_all2_trans [OF _ pl(2) ins_results [OF assms(1,3)]])
    fix h and j :: job and r :: insert_result
    assume "requested m now1 kind h pl o' j" and "ir_HandlerID r = HandlerID j \<and> (\<exists>x. look s' (ir_ID r) = Some x \<and>
      \<not> Terminal (r_state x) \<and> (if ir_Duplicate r then row_key x = row_key j \<and> UniqueKey j \<noteq> []
       else look s (ir_ID r) = None \<and> x = new_row j (ir_ID r) (if AvailableAt j > now2 then StatePending else StateAvailable) now2))"
    moreover have "HandlerID j = h" using calculation(1) by (simp add: requested_def)
    ultimately show "published look m now1 now2 kind pl o' s s' h r" unfolding published_def by blast
  qed
  with pl(1) show ?thesis by blast
qed

lemma enqueue_cases:
  assumes "inv s" "1 \<le> mc_DefaultMaxAttempts (m_config m)"
    and "enqueue_with tx ins marshal enc now1 now2 m msg opts s = ((jid, err), evs, s')"
  shows "(\<exists>kind h pl r. resolve msg m = Inr (kind, [h]) \<and> enc (msg_val msg) = Inr pl \<and> jid = ir_ID r \<and>
      published look m now1 now2 kind pl (applyOpts opts) s s' h r \<and>
      (if ir_Duplicate r then err = Some (DuplicateError jid kind h (jo_uniqueKey (applyOpts opts))) \<and> evs = []
       else err = None \<and> evs = [\<lparr>ee_JobID = jid, ee_Kind = kind, ee_HandlerID = h, ee_Transactional = tx,
              ee_ScheduleName = [], ee_ScheduledFor = ir_ScheduledFor r\<rparr>]) \<and>
      (\<forall>i. ir_Duplicate r \<or> i \<noteq> jid \<longrightarrow> look s' i = look s i)) \<or>
    (\<exists>e. err = Some e \<and> jid = [] \<and> evs = [] \<and> s' = s)"
proof (cases "resolve msg m")
  case (Inl e)
  with assms(3) show ?thesis by (auto simp: enqueue_with_def)
next
  case (Inr p)
  obtain kind ids where p: "p = (kind, ids)" by fastforce
  consider (none) "length ids \<noteq> 1" | (one) h where "ids = [h]" by (metis One_nat_def length_0_conv length_Suc_conv)
  then show ?thesis
  proof cases
    case none
    then have "ids = [] \<or> 1 < length ids" by (cases ids) auto
    then have "\<exists>e. enqueue_with tx ins marshal enc now1 now2 m msg opts s = (([], Some e), [], s)"
      using Inr p by (auto simp: enqueue_with_def)
    with assms(3) show ?thesis by auto
  next
    case one
    show ?thesis
    proof (cases "buildJobs marshal m now1 kind ids (enc (msg_val msg)) (applyOpts opts) zeroTime False")
      case (Inl e)
      with assms(3) Inr p one show ?thesis by (auto simp: enqueue_with_def)
    next
      case b: (Inr rows)
      obtain res s1 where i: "ins now2 rows s = (res, s1)" by fastforce
      show ?thesis
      proof (cases res)
        case (Inl e)
        with assms(3) Inr p one b i ins_error [of now2 rows s e s1] show ?thesis by (auto simp: enqueue_with_def)
      next
        case r: (Inr rs)
        from insert_published [OF assms(1,2) i [unfolded r] b] obtain pl r1 where
          pl: "enc (msg_val msg) = Inr pl" "rs = [r1]" "published look m now1 now2 kind pl (applyOpts opts) s s1 h r1"
          by (auto simp: one list_all2_Cons1)
        have "UniqueKey (hd rows) = jo_uniqueKey (applyOpts opts)"
          using buildJobs_requested [OF b assms(2)] by (auto simp: one list_all2_Cons1 requested_def)
        moreover have "ir_HandlerID r1 = h" using pl(3) by (simp add: published_def)
        ultimately have "jid = ir_ID r1" "s' = s1"
          "if ir_Duplicate r1 then err = Some (DuplicateError (ir_ID r1) kind h (jo_uniqueKey (applyOpts opts))) \<and> evs = []
           else err = None \<and> evs = [\<lparr>ee_JobID = ir_ID r1, ee_Kind = kind, ee_HandlerID = h, ee_Transactional = tx,
              ee_ScheduleName = [], ee_ScheduledFor = ir_ScheduledFor r1\<rparr>]"
          using assms(3) Inr p one b i r pl(1,2)
          by (auto simp: enqueue_with_def fireEnqueueHooks_def Let_def split: if_splits)
        moreover have "look s1 i = look s i" if "ir_Duplicate r1 \<or> i \<noteq> ir_ID r1" for i
          using ins_frame [OF assms(1) i [unfolded r], of i] that pl(2) by auto
        ultimately show ?thesis using Inr p one pl by blast
      qed
    qed
  qed
qed

end


text \<open>Enqueueing is exact: when \<open>Enqueue\<close> succeeds, the message's type has exactly one handler, and
  the store holds one new job under the returned id, with the encoded message, the requested queue,
  priority, time, attempts (at least one) and timeout, due now or pending; every other job is
  unchanged and the hook sees this one job. When it fails nothing changed: either the id of the live
  job that holds the unique key is returned with a duplicate error, or no id.\<close>

theorem jobs_enqueue_exact:
  assumes "inj nid" "js_inv nid s" "mgr_New cfg = Inr m0" "m_config m = m_config m0"
    and "Enqueue (mem_insert nid) marshal enc now1 now2 m msg opts s = ((jid, err), evs, s')"
  shows "case err of
      None \<Rightarrow> (\<exists>kind h pl j. resolve msg m = Inr (kind, [h]) \<and> enc (msg_val msg) = Inr pl \<and>
        requested m now1 kind h pl (applyOpts opts) j \<and> row s jid = None \<and>
        row s' = (row s)(jid \<mapsto> new_row j jid (if AvailableAt j > now2 then StatePending else StateAvailable) now2) \<and>
        map ee_JobID evs = [jid])
    | Some e \<Rightarrow> evs = [] \<and> row s' = row s \<and>
        (jid = [] \<or> (\<exists>kind h x. resolve msg m = Inr (kind, [h]) \<and>
          e = DuplicateError jid kind h (jo_uniqueKey (applyOpts opts)) \<and> row s jid = Some x \<and> \<not> Terminal (r_state x) \<and>
          row_key x = uniqKey kind h (jo_uniqueKey (applyOpts opts))))"
proof -
  have "1 \<le> mc_DefaultMaxAttempts (m_config m)"
    using assms(3,4) by (auto simp: mgr_New_def Let_def split: option.splits if_splits)
  from minsert.enqueue_cases [of nid s m False marshal enc now1 now2 msg opts jid err evs s'] this assms(1,2,5)
  consider (ran) kind h pl r where "resolve msg m = Inr (kind, [h])" "enc (msg_val msg) = Inr pl" "jid = ir_ID r"
      "published row m now1 now2 kind pl (applyOpts opts) s s' h r"
      "if ir_Duplicate r then err = Some (DuplicateError jid kind h (jo_uniqueKey (applyOpts opts))) \<and> evs = []
       else err = None \<and> evs = [\<lparr>ee_JobID = jid, ee_Kind = kind, ee_HandlerID = h, ee_Transactional = False,
              ee_ScheduleName = [], ee_ScheduledFor = ir_ScheduledFor r\<rparr>]"
      "\<forall>i. ir_Duplicate r \<or> i \<noteq> jid \<longrightarrow> row s' i = row s i"
    | (refused) e where "err = Some e" "jid = []" "evs = []" "s' = s"
    unfolding Enqueue_def by blast
  then show ?thesis
  proof cases
    case ran
    from ran(4) obtain j x where j: "requested m now1 kind h pl (applyOpts opts) j" "row s' jid = Some x"
      "\<not> Terminal (r_state x)" "if ir_Duplicate r then row_key x = row_key j \<and> UniqueKey j \<noteq> []
       else row s jid = None \<and> x = new_row j jid (if AvailableAt j > now2 then StatePending else StateAvailable) now2"
      unfolding published_def ran(3) by blast
    show ?thesis
    proof (cases "ir_Duplicate r")
      case True
      with ran j have "row s' = row s" "err = Some (DuplicateError jid kind h (jo_uniqueKey (applyOpts opts)))" "evs = []" by auto
      moreover have "row_key j = uniqKey kind h (jo_uniqueKey (applyOpts opts))" using j(1) by (simp add: requested_def)
      ultimately show ?thesis using True ran(1) j by auto
    next
      case False
      then have "row s' = (row s)(jid \<mapsto> x)" using ran(6) j(2) by (intro ext) simp
      with False ran j show ?thesis by auto
    qed
  qed simp
qed


text \<open>Publishing fans out: a successful \<open>Publish\<close> gives one result per registered handler of the
  message's kind, in registration order; each result names a live job of that handler, new and as
  requested unless it is reported as the duplicate that holds the unique key; the hook sees exactly the
  new jobs, and no other job changed. A failed one changes nothing.\<close>

theorem jobs_publish_fanout:
  assumes "inj nid" "js_inv nid s" "mgr_New cfg = Inr m0" "m_config m = m_config m0"
    and "Publish (mem_insert nid) marshal enc now1 now2 m msg opts s = (res, evs, s')"
  shows "case res of
      Inl e \<Rightarrow> s' = s \<and> evs = []
    | Inr prs \<Rightarrow> \<exists>kind ids. resolve msg m = Inr (kind, ids) \<and> map pr_HandlerID prs = ids \<and>
        (\<forall>p \<in> set prs. \<exists>x j pl. row s' (pr_JobID p) = Some x \<and> \<not> Terminal (r_state x) \<and> enc (msg_val msg) = Inr pl \<and>
           requested m now1 kind (pr_HandlerID p) pl (applyOpts opts) j \<and>
           (if pr_Duplicate p then row_key x = row_key j \<and> UniqueKey j \<noteq> []
            else row s (pr_JobID p) = None \<and>
              x = new_row j (pr_JobID p) (if AvailableAt j > now2 then StatePending else StateAvailable) now2)) \<and>
        map ee_JobID evs = map pr_JobID (filter (\<lambda>p. \<not> pr_Duplicate p) prs) \<and>
        (\<forall>i. (\<forall>p \<in> set prs. \<not> pr_Duplicate p \<longrightarrow> pr_JobID p \<noteq> i) \<longrightarrow> row s' i = row s i)"
proof -
  have d: "1 \<le> mc_DefaultMaxAttempts (m_config m)"
    using assms(3,4) by (auto simp: mgr_New_def Let_def split: option.splits if_splits)
  have inv: "mem_ok nid s" using assms(1,2) by simp
  show ?thesis
  proof (cases "resolve msg m")
    case (Inl e)
    with assms(5) show ?thesis by (auto simp: Publish_def publish_with_def)
  next
    case (Inr p)
    obtain kind ids where p: "p = (kind, ids)" by fastforce
    show ?thesis
    proof (cases "ids = []")
      case True
      with assms(5) Inr p show ?thesis by (auto simp: Publish_def publish_with_def)
    next
      case ne: False
      show ?thesis
      proof (cases "buildJobs marshal m now1 kind ids (enc (msg_val msg)) (applyOpts opts) zeroTime False")
        case (Inl e)
        with assms(5) Inr p ne show ?thesis by (auto simp: Publish_def publish_with_def)
      next
        case b: (Inr rows)
        let ?rs = "fst (js_Insert nid now2 rows s)" and ?s1 = "snd (js_Insert nid now2 rows s)"
        have out: "res = Inr (toPublishResults ?rs)" "evs = fireEnqueueHooks ?rs kind False []" "s' = ?s1"
          using assms(5) Inr p ne b by (auto simp: Publish_def publish_with_def)
        obtain pl where pl: "enc (msg_val msg) = Inr pl"
          "list_all2 (published row m now1 now2 kind pl (applyOpts opts) s ?s1) ids ?rs"
          using minsert.insert_published [OF inv d refl b] by blast
        have h: "map ir_HandlerID ?rs = ids"
          using pl(2) by (auto simp: list_all2_conv_all_nth published_def intro!: nth_equalityI)
        have each: "\<exists>h. published row m now1 now2 kind pl (applyOpts opts) s ?s1 h r" if "r \<in> set ?rs" for r
          using that pl(2) by (auto simp: list_all2_conv_all_nth in_set_conv_nth)
        have frame: "row ?s1 i = row s i" if "\<And>r. r \<in> set ?rs \<Longrightarrow> \<not> ir_Duplicate r \<Longrightarrow> ir_ID r \<noteq> i" for i
          by (rule minsert.ins_frame [OF inv refl that])
        show ?thesis unfolding out sum.case
        proof (intro exI conjI)
          show "resolve msg m = Inr (kind, ids)" using Inr p by simp
          show "map pr_HandlerID (toPublishResults ?rs) = ids" using h by (simp add: toPublishResults_def comp_def)
          show "\<forall>p \<in> set (toPublishResults ?rs). \<exists>x j pl. row ?s1 (pr_JobID p) = Some x \<and> \<not> Terminal (r_state x) \<and>
             enc (msg_val msg) = Inr pl \<and> requested m now1 kind (pr_HandlerID p) pl (applyOpts opts) j \<and>
             (if pr_Duplicate p then row_key x = row_key j \<and> UniqueKey j \<noteq> []
              else row s (pr_JobID p) = None \<and>
                x = new_row j (pr_JobID p) (if AvailableAt j > now2 then StatePending else StateAvailable) now2)"
            using each pl(1) unfolding toPublishResults_def published_def by fastforce
          show "map ee_JobID (fireEnqueueHooks ?rs kind False []) =
            map pr_JobID (filter (\<lambda>p. \<not> pr_Duplicate p) (toPublishResults ?rs))"
            by (simp add: fireEnqueueHooks_def toPublishResults_def filter_map comp_def)
          show "\<forall>i. (\<forall>p \<in> set (toPublishResults ?rs). \<not> pr_Duplicate p \<longrightarrow> pr_JobID p \<noteq> i) \<longrightarrow> row ?s1 i = row s i"
            using frame by (simp add: toPublishResults_def)
        qed
      qed
    qed
  qed
qed

text \<open>A manager with one command.\<close>

definition demo_manager_config :: manager_config where
  "demo_manager_config = \<lparr>mc_DefaultQueue = [], mc_DefaultMaxAttempts = 0, mc_SchedulerGroup = [],
     mc_SchedulerInterval = 0, mc_StoreTimeout = 0\<rparr>"

definition demo_rtype :: rtype where
  "demo_rtype = \<lparr>rt_name = ''Mail'', rt_kind = RStruct\<rparr>"

definition demo_manager0 :: "unit manager" where
  "demo_manager0 = \<lparr>m_config = \<lparr>mc_DefaultQueue = ''default'', mc_DefaultMaxAttempts = 25, mc_SchedulerGroup = [],
     mc_SchedulerInterval = 0, mc_StoreTimeout = 30 * second\<rparr>,
     m_kindByType = [], m_typeByKind = [], m_handlers = [], m_kindHandlers = [], m_declared = []\<rparr>"

definition demo_manager :: "unit manager" where
  "demo_manager = demo_manager0\<lparr>m_kindByType := [(demo_rtype, ''mail'')], m_typeByKind := [(''mail'', demo_rtype)],
     m_handlers := [((''mail'', ''mail''), ())], m_kindHandlers := [(''mail'', [''mail''])]\<rparr>"

lemma validIdent_mail: "validIdent w ''mail'' = None" "validIdent w ''default'' = None"
  by (simp_all add: validIdent_def ident_byte_def less_eq_char_def)

lemma demo_manager_New: "mgr_New demo_manager_config = Inr demo_manager0"
  by (simp add: mgr_New_def demo_manager_config_def demo_manager0_def validIdent_mail)

lemma demo_manager_Handle: "Handle demo_rtype ''mail'' (Some ()) demo_manager0 = (None, demo_manager)"
  by (simp add: Handle_def Register_def On_def validIdent_mail hasPrefix_def cronPrefix_def demo_manager0_def
      demo_manager_def demo_rtype_def ids_of_def)

definition demo_message :: "unit message" where
  "demo_message = \<lparr>msg_type = Some demo_rtype, msg_val = ()\<rparr>"

lemma demo_resolve: "resolve demo_message demo_manager = Inr (''mail'', [''mail''])"
  by (simp add: resolve_def demo_message_def demo_manager_def demo_rtype_def ids_of_def)

definition demo_marshal :: "nat exp_backoff \<Rightarrow> jobs_error + string" where
  "demo_marshal b = Inr []"

definition demo_enc :: "unit \<Rightarrow> jobs_error + string" where
  "demo_enc u = Inr ''{}''"

lemma demo_build:
  assumes "opts = [OptAfter 10, OptPriority 2] \<or> opts = []"
  shows "\<exists>j. buildJobs demo_marshal demo_manager 3 ''mail'' [''mail''] (demo_enc (msg_val demo_message)) (applyOpts opts) zeroTime False
    = Inr [j] \<and> UniqueKey j = []"
  using assms
  by (auto simp: buildJobs_def demo_enc_def applyOpts_def zero_opts_def encodeBackoff_def demo_manager_def
      demo_manager0_def validIdent_mail validOnTimeout_def)

theorem jobs_enqueue_exact_witness:
  "\<exists>jid evs s' j. Enqueue (mem_insert demo_nid) demo_marshal demo_enc 3 4 demo_manager demo_message [OptAfter 10, OptPriority 2] js_New
      = ((jid, None), evs, s') \<and> map ee_JobID evs = [jid] \<and>
    row s' jid = Some (new_row j jid (if AvailableAt j > 4 then StatePending else StateAvailable) 4)"
proof -
  let ?call = "Enqueue (mem_insert demo_nid) demo_marshal demo_enc 3 4 demo_manager demo_message [OptAfter 10, OptPriority 2] js_New"
  obtain p evs s' where c0: "?call = (p, evs, s')" by (rule prod_cases3)
  obtain jid err where "p = (jid, err)" by (rule prod.exhaust)
  with c0 have c: "?call = ((jid, err), evs, s')" by (simp only:)
  obtain j0 where "buildJobs demo_marshal demo_manager 3 ''mail'' [''mail''] (demo_enc (msg_val demo_message))
      (applyOpts [OptAfter 10, OptPriority 2]) zeroTime False = Inr [j0]" "UniqueKey j0 = []" using demo_build by blast
  then have err: "err = None"
    using c by (simp add: Enqueue_def enqueue_with_def demo_resolve js_Insert_def insert_one_def live_holder_def Let_def)
  have "m_config demo_manager = m_config demo_manager0" by (simp add: demo_manager_def)
  note th = jobs_enqueue_exact [OF inj_demo_nid js_inv_New demo_manager_New this c, unfolded err option.case]
  obtain j where j: "row s' = (row js_New)(jid \<mapsto> new_row j jid (if AvailableAt j > 4 then StatePending else StateAvailable) 4)"
    and e: "map ee_JobID evs = [jid]" using th by (elim exE conjE)
  have "row s' jid = Some (new_row j jid (if AvailableAt j > 4 then StatePending else StateAvailable) 4)"
    by (simp only: j fun_upd_same)
  with c [unfolded err] e show ?thesis by (intro exI conjI)
qed

theorem jobs_publish_fanout_witness:
  "\<exists>prs evs s'. Publish (mem_insert demo_nid) demo_marshal demo_enc 3 4 demo_manager demo_message [] js_New = (Inr prs, evs, s') \<and>
    map pr_HandlerID prs = [''mail'']"
proof -
  let ?call = "Publish (mem_insert demo_nid) demo_marshal demo_enc 3 4 demo_manager demo_message [] js_New"
  obtain res evs s' where c: "?call = (res, evs, s')" by (rule prod_cases3)
  obtain j0 where "buildJobs demo_marshal demo_manager 3 ''mail'' [''mail''] (demo_enc (msg_val demo_message))
      (applyOpts []) zeroTime False = Inr [j0]" using demo_build [of "[]"] by blast
  then have "\<exists>prs. res = Inr prs"
    using c by (auto simp: Publish_def publish_with_def demo_resolve)
  then obtain prs where prs: "res = Inr prs" by blast
  have "m_config demo_manager = m_config demo_manager0" by (simp add: demo_manager_def)
  note th = jobs_publish_fanout [OF inj_demo_nid js_inv_New demo_manager_New this c, unfolded prs sum.case]
  obtain kind ids where r: "resolve demo_message demo_manager = Inr (kind, ids)" "map pr_HandlerID prs = ids"
    using th by blast
  then have "map pr_HandlerID prs = [''mail'']" unfolding demo_resolve by auto
  with c [unfolded prs] show ?thesis by (intro exI conjI)
qed

end
