(* ===== verification/JobSchedule.thy ===== *)
theory JobSchedule
  imports JobManager
begin

text \<open>
  Package \<open>jobs\<close>: recurring schedules (\<open>schedule.go\<close>) and named crons (\<open>cron.go\<close>).

  \<^item> The cron package is third-party code: \<open>cron e\<close> is nothing when \<open>ParseStandard\<close> refuses the
    expression, and otherwise its \<open>Next\<close> in the manager's location.
  \<^item> JSON of the options and of a payload are parameters: \<open>encO\<close>, \<open>decO\<close> and \<open>raw\<close>.
  \<^item> The clock is read once for each tick's jobs (\<open>bnow\<close>) and once when a schedule is advanced
    without firing (\<open>anow\<close>).
\<close>

section \<open>Specs\<close>

definition CatchUpAllMax :: nat where
  "CatchUpAllMax = 1000"

record sched_spec =
  sp_cron :: string
  sp_every :: duration

definition Cron :: "string \<Rightarrow> sched_spec" where
  "Cron expr = \<lparr>sp_cron = expr, sp_every = 0\<rparr>"

definition Every :: "duration \<Rightarrow> sched_spec" where
  "Every d = \<lparr>sp_cron = [], sp_every = d\<rparr>"

definition spec_String :: "sched_spec \<Rightarrow> string" where
  "spec_String s = (if sp_every s > 0 then ''every:'' @ formatInt (sp_every s) else ''cron:'' @ sp_cron s)"

definition cutPrefix :: "string \<Rightarrow> string \<Rightarrow> string option" where
  "cutPrefix s p = (if hasPrefix s p then Some (drop (length p) s) else None)"

definition parseSpec :: "string \<Rightarrow> jobs_error + sched_spec" where
  "parseSpec s =
    (case cutPrefix s ''every:'' of
       Some rest \<Rightarrow> (case parseInt rest of None \<Rightarrow> Inl (JobsErr ''bad every spec'') | Some n \<Rightarrow> Inr \<lparr>sp_cron = [], sp_every = n\<rparr>)
     | None \<Rightarrow> (case cutPrefix s ''cron:'' of
         Some rest \<Rightarrow> Inr \<lparr>sp_cron = rest, sp_every = 0\<rparr>
       | None \<Rightarrow> Inl (JobsErr ''unknown schedule spec'')))"

definition spec_validate :: "(string \<Rightarrow> (time \<Rightarrow> time) option) \<Rightarrow> sched_spec \<Rightarrow> jobs_error option" where
  "spec_validate cron s =
    (if sp_every s > 0 then None
     else if sp_every s < 0 then Some (JobsErr ''Every interval must be positive'')
     else if sp_cron s = [] then Some (JobsErr ''empty schedule spec'')
     else case cron (sp_cron s) of None \<Rightarrow> Some (JobsErr ''bad cron'') | Some _ \<Rightarrow> None)"

definition spec_next :: "(string \<Rightarrow> (time \<Rightarrow> time) option) \<Rightarrow> sched_spec \<Rightarrow> time \<Rightarrow> jobs_error + time" where
  "spec_next cron s t =
    (if sp_every s > 0 then Inr (t + sp_every s)
     else case cron (sp_cron s) of None \<Rightarrow> Inl (JobsErr ''bad cron'') | Some nxt \<Rightarrow> Inr (nxt t))"

section \<open>Declarations\<close>

record schedule_options =
  so_Queue :: string
  so_Priority :: int
  so_MaxAttempts :: int
  so_Timeout :: duration
  so_OnTimeout :: on_timeout
  so_Singleton :: bool
  so_CatchUp :: catch_up

definition zero_schedule_options :: schedule_options where
  "zero_schedule_options = \<lparr>so_Queue = [], so_Priority = 0, so_MaxAttempts = 0, so_Timeout = 0, so_OnTimeout = TimeoutRetry,
     so_Singleton = False, so_CatchUp = CatchUpOnce\<rparr>"

definition buildScheduleRow :: "(string \<Rightarrow> (time \<Rightarrow> time) option) \<Rightarrow> (schedule_options \<Rightarrow> jobs_error + string) \<Rightarrow> time \<Rightarrow>
    'h manager \<Rightarrow> string \<Rightarrow> string \<Rightarrow> string \<Rightarrow> sched_spec \<Rightarrow> schedule_options \<Rightarrow> jobs_error + schedule_row" where
  "buildScheduleRow cron encO now m name kind payload spec opts =
    (case encO opts of Inl e \<Rightarrow> Inl e
     | Inr optsJSON \<Rightarrow>
       (case spec_next cron spec now of Inl e \<Rightarrow> Inl e
        | Inr first \<Rightarrow> Inr \<lparr>sr_Group = mc_SchedulerGroup (m_config m), sr_Name = name, sr_Kind = kind,
            sr_Spec = spec_String spec, sr_Payload = payload, sr_OptionsJSON = optsJSON, sr_NextRunAt = first,
            sr_LastRunAt = zeroTime, sr_LastRunSet = False, sr_UpdatedAt = now\<rparr>))"

definition declare_row :: "schedule_row \<Rightarrow> 'h manager \<Rightarrow> jobs_error option \<times> 'h manager" where
  "declare_row sr m =
    (case map_of (m_declared m) (sr_Name sr) of Some _ \<Rightarrow> (Some ErrScheduleAlreadyDeclared, m)
     | None \<Rightarrow> (None, m\<lparr>m_declared := goput (sr_Name sr) sr (m_declared m)\<rparr>))"

text \<open>The checks of \<open>Schedule\<close> on its options, in order.\<close>

definition options_problem :: "schedule_options \<Rightarrow> jobs_error option" where
  "options_problem opts =
    (case (if so_Queue opts \<noteq> [] then validIdent ''queue'' (so_Queue opts) else None) of Some e \<Rightarrow> Some e
     | None \<Rightarrow>
       if so_MaxAttempts opts < 0 then Some (JobsErr ''MaxAttempts must be >= 0'')
       else if so_Timeout opts < 0 then Some (JobsErr ''Timeout must be >= 0'')
       else (case validOnTimeout (so_OnTimeout opts) of Some e \<Rightarrow> Some e | None \<Rightarrow> validCatchUp (so_CatchUp opts)))"

definition Schedule :: "(string \<Rightarrow> (time \<Rightarrow> time) option) \<Rightarrow> (schedule_options \<Rightarrow> jobs_error + string) \<Rightarrow>
    ('p \<Rightarrow> jobs_error + string) \<Rightarrow> time \<Rightarrow> string \<Rightarrow> sched_spec \<Rightarrow> 'p message \<Rightarrow> schedule_options \<Rightarrow> 'h manager \<Rightarrow>
    jobs_error option \<times> 'h manager" where
  "Schedule cron encO enc now name spec msg opts m =
    (case validIdent ''schedule name'' name of Some e \<Rightarrow> (Some e, m)
     | None \<Rightarrow> (case spec_validate cron spec of Some e \<Rightarrow> (Some e, m)
     | None \<Rightarrow> (case resolve msg m of Inl e \<Rightarrow> (Some e, m)
     | Inr (kind, ids) \<Rightarrow>
       if ids = [] then (Some (JobsErr ''kind has no handler''), m)
       else (case options_problem opts of Some e \<Rightarrow> (Some e, m)
         | None \<Rightarrow> (case enc (msg_val msg) of Inl e \<Rightarrow> (Some e, m)
         | Inr payload \<Rightarrow> (case buildScheduleRow cron encO now m name kind payload spec opts of Inl e \<Rightarrow> (Some e, m)
         | Inr sr \<Rightarrow> declare_row sr m))))))"

definition cronKind :: "string \<Rightarrow> string" where
  "cronKind name = cronPrefix @ name"

definition RegisterCron :: "(string \<Rightarrow> (time \<Rightarrow> time) option) \<Rightarrow> (schedule_options \<Rightarrow> jobs_error + string) \<Rightarrow>
    time \<Rightarrow> string \<Rightarrow> string \<Rightarrow> 'h option \<Rightarrow> 'h manager \<Rightarrow> jobs_error option \<times> 'h manager" where
  "RegisterCron cron encO now name schedule fn m =
    (case fn of None \<Rightarrow> (Some (JobsErr ''nil function''), m)
     | Some h \<Rightarrow> (case validIdent ''cron name'' name of Some e \<Rightarrow> (Some e, m)
     | None \<Rightarrow> (case spec_validate cron (Cron schedule) of Some e \<Rightarrow> (Some e, m)
     | None \<Rightarrow> (case buildScheduleRow cron encO now m name (cronKind name) ''{}'' (Cron schedule)
                  (zero_schedule_options\<lparr>so_Singleton := True\<rparr>) of Inl e \<Rightarrow> (Some e, m)
     | Inr sr \<Rightarrow> (case declare_row sr m of (Some e, m1) \<Rightarrow> (Some e, m1)
       | (None, m1) \<Rightarrow> (None, m1\<lparr>m_handlers := goput (cronKind name, name) h (m_handlers m1),
                                 m_kindHandlers := goput (cronKind name) [name] (m_kindHandlers m1)\<rparr>))))))"

section \<open>Reconciliation\<close>

definition ReconcileSchedules :: "'h manager \<Rightarrow> js \<Rightarrow> js" where
  "ReconcileSchedules m s =
    (let declared = sort_key sr_Name (map snd (m_declared m));
         names = set (map fst (m_declared m));
         s1 = fold js_UpsertSchedule declared s;
         rows = js_ListSchedules (mc_SchedulerGroup (m_config m)) s1
     in fold (\<lambda>r s. if sr_Name r \<in> names then s else js_DeleteSchedule (mc_SchedulerGroup (m_config m)) (sr_Name r) s) rows s1)"

section \<open>Firing\<close>

fun catchUpAll_loop :: "(time \<Rightarrow> jobs_error + time) \<Rightarrow> time \<Rightarrow> nat \<Rightarrow> time \<Rightarrow> time list \<Rightarrow> jobs_error + time list \<times> time \<times> bool" where
  "catchUpAll_loop nxt now room t ticks =
    (if t > now then Inr (ticks, t, False)
     else case room of
       0 \<Rightarrow> (case nxt now of Inl e \<Rightarrow> Inl e | Inr n \<Rightarrow> Inr (ticks, n, True))
     | Suc room' \<Rightarrow> (case nxt t of Inl e \<Rightarrow> Inl e | Inr t' \<Rightarrow> catchUpAll_loop nxt now room' t' (ticks @ [t])))"

declare catchUpAll_loop.simps [simp del]

definition planFires :: "(time \<Rightarrow> jobs_error + time) \<Rightarrow> time \<Rightarrow> time \<Rightarrow> catch_up \<Rightarrow> jobs_error + time list \<times> time \<times> bool" where
  "planFires nxt nextRun now catchUp =
    (case catchUp of
       CatchUpSkip \<Rightarrow> if nextRun > now then Inr ([], nextRun, False)
         else (case nxt now of Inl e \<Rightarrow> Inl e | Inr n \<Rightarrow> Inr ([], n, False))
     | CatchUpAll \<Rightarrow> catchUpAll_loop nxt now CatchUpAllMax nextRun []
     | _ \<Rightarrow> if nextRun > now then Inr ([], nextRun, False)
         else (case nxt now of Inl e \<Rightarrow> Inl e | Inr n \<Rightarrow> Inr ([nextRun], n, False)))"

definition advanceSchedule :: "(nat \<Rightarrow> string) \<Rightarrow> time \<Rightarrow> schedule_row \<Rightarrow> time \<Rightarrow> time option \<Rightarrow> js \<Rightarrow> js" where
  "advanceSchedule nid anow sr nxt expected s =
    snd (js_FireSchedule nid \<lparr>sf_Group = sr_Group sr, sf_Name = sr_Name sr, sf_ExpectedLastRun = expected,
      sf_NewLastRun = (if sr_LastRunSet sr then sr_LastRunAt sr else zeroTime), sf_NewNextRun = nxt, sf_Now = anow, sf_Jobs = []\<rparr> s)"

definition schedule_job_opts :: "schedule_row \<Rightarrow> schedule_options \<Rightarrow> 'f job_opts" where
  "schedule_job_opts sr opts = zero_opts\<lparr>jo_queue := so_Queue opts, jo_priority := so_Priority opts,
     jo_maxAttempts := so_MaxAttempts opts, jo_timeout := so_Timeout opts, jo_onTimeout := so_OnTimeout opts,
     jo_uniqueKey := (if so_Singleton opts then ''schedule:'' @ sr_Group sr @ '':'' @ sr_Name sr else [])\<rparr>"

text \<open>The jobs of all ticks, or the first error.\<close>

fun emit_jobs :: "(time \<Rightarrow> jobs_error + job list) \<Rightarrow> time list \<Rightarrow> job list \<Rightarrow> jobs_error + job list" where
  "emit_jobs build [] emitted = Inr emitted"
| "emit_jobs build (tick # ticks) emitted =
    (case build tick of Inl e \<Rightarrow> Inl e | Inr js \<Rightarrow> emit_jobs build ticks (emitted @ js))"

text \<open>What the scheduler is built over.\<close>

record 'f sched_env =
  se_nid :: "nat \<Rightarrow> string"
  se_cron :: "string \<Rightarrow> (time \<Rightarrow> time) option"
  se_decO :: "string \<Rightarrow> jobs_error + schedule_options"
  se_marshal :: "'f exp_backoff \<Rightarrow> jobs_error + string"
  se_raw :: "string \<Rightarrow> jobs_error + string"
  se_bnow :: "time \<Rightarrow> time"
  se_anow :: time

definition fireSchedule :: "'f sched_env \<Rightarrow> 'h manager \<Rightarrow> time \<Rightarrow> schedule_row \<Rightarrow> js \<Rightarrow> enqueue_event list \<times> js" where
  "fireSchedule e m now sr s =
    (case parseSpec (sr_Spec sr) of Inl _ \<Rightarrow> ([], s)
     | Inr spec \<Rightarrow> (case se_decO e (sr_OptionsJSON sr) of Inl _ \<Rightarrow> ([], s)
     | Inr opts \<Rightarrow> (case planFires (spec_next (se_cron e) spec) (sr_NextRunAt sr) now (so_CatchUp opts) of Inl _ \<Rightarrow> ([], s)
     | Inr (ticks, nxt, capped) \<Rightarrow>
       (let expected = (if sr_LastRunSet sr then Some (sr_LastRunAt sr) else None)
        in if ticks = [] then ([], advanceSchedule (se_nid e) (se_anow e) sr nxt expected s)
           else let handlerIDs = ids_of (sr_Kind sr) m
           in if handlerIDs = [] then ([], s)
           else (case emit_jobs (\<lambda>tick. buildJobs (se_marshal e) m (se_bnow e tick) (sr_Kind sr) handlerIDs (se_raw e (sr_Payload sr))
                    (schedule_job_opts sr opts) tick True) ticks [] of
               Inl _ \<Rightarrow> ([], advanceSchedule (se_nid e) (se_anow e) sr nxt expected s)
             | Inr emitted \<Rightarrow>
               (case js_FireSchedule (se_nid e) \<lparr>sf_Group = sr_Group sr, sf_Name = sr_Name sr, sf_ExpectedLastRun = expected,
                   sf_NewLastRun = now, sf_NewNextRun = nxt, sf_Now = now, sf_Jobs = emitted\<rparr> s of
                  (Inl _, s1) \<Rightarrow> ([], s1)
                | (Inr (won, results), s1) \<Rightarrow>
                  (if won then fireEnqueueHooks results (sr_Kind sr) False (sr_Name sr) else [], s1)))))))"

fun fire_all :: "'f sched_env \<Rightarrow> 'h manager \<Rightarrow> time \<Rightarrow> schedule_row list \<Rightarrow> js \<Rightarrow> enqueue_event list \<times> js" where
  "fire_all e m now [] s = ([], s)"
| "fire_all e m now (sr # srs) s =
    (let (ev, s1) = fireSchedule e m now sr s; (evs, s2) = fire_all e m now srs s1 in (ev @ evs, s2))"

definition schedulerTick :: "'f sched_env \<Rightarrow> 'h manager \<Rightarrow> time \<Rightarrow> js \<Rightarrow> enqueue_event list \<times> js" where
  "schedulerTick e m now s = fire_all e m now (js_DueSchedules (mc_SchedulerGroup (m_config m)) now s) s"


section \<open>Specs survive the store\<close>

lemma hasPrefix_append [simp]: "hasPrefix (p @ s) p"
  by (simp add: hasPrefix_def)

text \<open>A spec survives being stored: reading back the persisted form of any valid interval or of any
  cron expression gives the spec it was made from.\<close>

theorem jobs_spec_roundtrip:
  shows "(0 < d \<and> int64 d \<longrightarrow> parseSpec (spec_String (Every d)) = Inr (Every d)) \<and>
    parseSpec (spec_String (Cron expr)) = Inr (Cron expr)"
proof
  show "0 < d \<and> int64 d \<longrightarrow> parseSpec (spec_String (Every d)) = Inr (Every d)"
    by (simp add: spec_String_def Every_def parseSpec_def cutPrefix_def hasPrefix_def parseInt_formatInt)
  show "parseSpec (spec_String (Cron expr)) = Inr (Cron expr)"
    by (simp add: spec_String_def Cron_def parseSpec_def cutPrefix_def hasPrefix_def)
qed

theorem jobs_spec_roundtrip_witness:
  "spec_String (Every 90) = ''every:90'' \<and> parseSpec ''every:90'' = Inr (Every 90)"
proof -
  have "spec_String (Every 90) = ''every:90''"
    by code_simp
  moreover have "0 < (90 :: int) \<and> int64 90" by (simp add: int64_defs)
  ultimately show ?thesis using jobs_spec_roundtrip [of 90] by auto
qed

section \<open>Which ticks fire\<close>

text \<open>The ticks from \<open>t\<close> on, one after another.\<close>

fun tick_chain :: "(time \<Rightarrow> jobs_error + time) \<Rightarrow> time \<Rightarrow> time list \<Rightarrow> time \<Rightarrow> bool" where
  "tick_chain nxt t [] stop \<longleftrightarrow> t = stop"
| "tick_chain nxt t (x # xs) stop \<longleftrightarrow> x = t \<and> (\<exists>t'. nxt t = Inr t' \<and> tick_chain nxt t' xs stop)"

lemma tick_chain_append:
  "tick_chain nxt t (xs @ ys) stop \<longleftrightarrow> (\<exists>mid. tick_chain nxt t xs mid \<and> tick_chain nxt mid ys stop)"
  by (induction xs arbitrary: t) auto

lemma tick_chain_range:
  assumes "tick_chain nxt t xs stop" "\<And>a b. nxt a = Inr b \<Longrightarrow> a < b"
  shows "sorted_wrt (<) (xs @ [stop])" "\<forall>x \<in> set (xs @ [stop]). t \<le> x"
  using assms(1)
proof (induction xs arbitrary: t)
  case (Cons x xs)
  { case 1
    then obtain t' where t': "x = t" "nxt t = Inr t'" "tick_chain nxt t' xs stop" by auto
    with Cons.IH [OF t'(3)] assms(2) [OF t'(2)] show ?case by force }
  { case 2
    then obtain t' where t': "x = t" "nxt t = Inr t'" "tick_chain nxt t' xs stop" by auto
    with Cons.IH(2) [OF t'(3)] assms(2) [OF t'(2)] show ?case by force }
qed auto

lemma catchUpAll_loop_spec:
  assumes "catchUpAll_loop nxt now room t ticks0 = Inr (ticks, n, capped)" "\<And>a b. nxt a = Inr b \<Longrightarrow> a < b"
  shows "now < n \<and> (\<exists>xs. ticks = ticks0 @ xs \<and> length xs \<le> room \<and> (\<forall>x \<in> set xs. x \<le> now) \<and>
    (if capped then length xs = room \<and> (\<exists>stop \<le> now. tick_chain nxt t xs stop) else tick_chain nxt t xs n))"
  using assms(1)
proof (induction room arbitrary: t ticks0)
  case 0
  then show ?case using assms(2)
    by (auto simp: catchUpAll_loop.simps [of nxt now 0] split: if_splits sum.splits)
next
  case (Suc room)
  show ?case
  proof (cases "t > now")
    case True
    with Suc.prems show ?thesis by (auto simp: catchUpAll_loop.simps [of nxt now "Suc room"])
  next
    case False
    then obtain t' where t': "nxt t = Inr t'" "catchUpAll_loop nxt now room t' (ticks0 @ [t]) = Inr (ticks, n, capped)"
      using Suc.prems by (auto simp: catchUpAll_loop.simps [of nxt now "Suc room"] split: sum.splits)
    from Suc.IH [OF t'(2)] obtain xs where xs: "now < n" "ticks = ticks0 @ t # xs" "length xs \<le> room" "\<forall>x \<in> set xs. x \<le> now"
      "if capped then length xs = room \<and> (\<exists>stop \<le> now. tick_chain nxt t' xs stop) else tick_chain nxt t' xs n" by auto
    have "if capped then length (t # xs) = Suc room \<and> (\<exists>stop \<le> now. tick_chain nxt t (t # xs) stop) else tick_chain nxt t (t # xs) n"
      using xs(5) t'(1) by (simp split: if_splits)
    moreover have "length (t # xs) \<le> Suc room" "\<forall>x \<in> set (t # xs). x \<le> now" using xs(3,4) False by simp_all
    ultimately show ?thesis using xs(1,2) by blast
  qed
qed

lemma planFires_spec:
  assumes "planFires nxt nextRun now c = Inr (ticks, n, capped)" "\<And>a b. nxt a = Inr b \<Longrightarrow> a < b"
  shows "now < n \<and> sorted_wrt (<) ticks \<and> (\<forall>x \<in> set ticks. nextRun \<le> x \<and> x \<le> now) \<and> length ticks \<le> CatchUpAllMax \<and>
    (case c of
       CatchUpSkip \<Rightarrow> ticks = []
     | CatchUpAll \<Rightarrow> (if capped then length ticks = CatchUpAllMax \<and> (\<exists>stop \<le> now. tick_chain nxt nextRun ticks stop)
                     else tick_chain nxt nextRun ticks n)
     | _ \<Rightarrow> ticks = (if nextRun \<le> now then [nextRun] else []))"
proof (cases "c = CatchUpAll")
  case True
  from assms(1) True have l: "catchUpAll_loop nxt now CatchUpAllMax nextRun [] = Inr (ticks, n, capped)"
    by (simp add: planFires_def)
  note sp = catchUpAll_loop_spec [OF l assms(2)]
  obtain stop where ch: "tick_chain nxt nextRun ticks stop" using sp by (auto split: if_splits)
  note r = tick_chain_range [OF ch assms(2)]
  have "sorted_wrt (<) ticks" "\<forall>x \<in> set ticks. nextRun \<le> x" using r by (auto simp: sorted_wrt_append)
  with sp True show ?thesis by auto
next
  case False
  with assms show ?thesis
    by (cases c) (auto simp: planFires_def CatchUpAllMax_def split: if_splits sum.splits)
qed

lemma plan_next:
  assumes "planFires nxt nextRun now c = Inr (ticks, n, capped)" "\<And>a b. nxt a = Inr b \<Longrightarrow> a < b"
  shows "now < n"
  using planFires_spec [OF assms] by blast

text \<open>Catching up is exact: for any spec whose next tick lies after the given instant, a plan never
  leaves a schedule due (the new next run is after now), fires only ticks that were due, in order and
  without repetition, and at most \<open>CatchUpAllMax\<close>. Skipping fires none, catching up once fires the one
  that was due, and catching up all fires every tick from the due one on, each the successor of the
  one before, up to the cap.\<close>

theorem jobs_plan_fires:
  assumes "planFires nxt nextRun now c = Inr (ticks, n, capped)" "\<And>a b. nxt a = Inr b \<Longrightarrow> a < b"
  shows "now < n \<and> sorted_wrt (<) ticks \<and> (\<forall>x \<in> set ticks. nextRun \<le> x \<and> x \<le> now) \<and> length ticks \<le> CatchUpAllMax \<and>
    (case c of
       CatchUpSkip \<Rightarrow> ticks = []
     | CatchUpAll \<Rightarrow> (if capped then length ticks = CatchUpAllMax \<and> (\<exists>stop \<le> now. tick_chain nxt nextRun ticks stop)
                     else tick_chain nxt nextRun ticks n)
     | _ \<Rightarrow> ticks = (if nextRun \<le> now then [nextRun] else []))"
  by (rule planFires_spec [OF assms])

theorem jobs_plan_fires_witness:
  "planFires (spec_next (\<lambda>_. None) (Every 10)) 100 125 CatchUpAll = Inr ([100, 110, 120], 130, False) \<and> (125::int) < 130"
proof -
  let ?n = "spec_next (\<lambda>_. None) (Every 10)"
  have n: "?n t = Inr (t + 10)" for t by (simp add: spec_next_def Every_def)
  have p: "planFires ?n 100 125 CatchUpAll = Inr ([100, 110, 120], 130, False)"
    by (simp add: planFires_def CatchUpAllMax_def catchUpAll_loop.simps n eval_nat_numeral)
  have "\<And>a b. ?n a = Inr b \<Longrightarrow> a < b" by (simp add: n)
  from jobs_plan_fires [OF p this] p show ?thesis by blast
qed


section \<open>The registry\<close>

datatype ('h, 'p) mgr_op =
    MRegister rtype string
  | MOn rtype string "'h option"
  | MHandle rtype string "'h option"
  | MSchedule time string sched_spec "'p message" schedule_options
  | MCron time string string "'h option"

fun mgr_step :: "(string \<Rightarrow> (time \<Rightarrow> time) option) \<Rightarrow> (schedule_options \<Rightarrow> jobs_error + string) \<Rightarrow> ('p \<Rightarrow> jobs_error + string) \<Rightarrow>
    ('h, 'p) mgr_op \<Rightarrow> 'h manager \<Rightarrow> 'h manager" where
  "mgr_step cron encO enc (MRegister t k) m = snd (Register t k m)"
| "mgr_step cron encO enc (MOn t h fn) m = snd (On t h fn m)"
| "mgr_step cron encO enc (MHandle t k fn) m = snd (Handle t k fn m)"
| "mgr_step cron encO enc (MSchedule now n sp msg opts) m = snd (Schedule cron encO enc now n sp msg opts m)"
| "mgr_step cron encO enc (MCron now n sch fn) m = snd (RegisterCron cron encO now n sch fn m)"

definition types_ok :: "'h manager \<Rightarrow> bool" where
  "types_ok m \<longleftrightarrow> (\<forall>t k. map_of (m_kindByType m) t = Some k \<longleftrightarrow> map_of (m_typeByKind m) k = Some t) \<and>
    (\<forall>t k. map_of (m_kindByType m) t = Some k \<longrightarrow>
       validIdent ''kind'' k = None \<and> \<not> hasPrefix k cronPrefix \<and> rt_kind t = RStruct)"

definition handlers_ok :: "'h manager \<Rightarrow> bool" where
  "handlers_ok m \<longleftrightarrow> gomap_wf (m_handlers m) \<and>
    (\<forall>k h. map_of (m_handlers m) (k, h) \<noteq> None \<longleftrightarrow> h \<in> set (ids_of k m)) \<and> (\<forall>k. distinct (ids_of k m)) \<and>
    (\<forall>k h. h \<in> set (ids_of k m) \<longrightarrow>
       (\<exists>t. map_of (m_kindByType m) t = Some k) \<or> (k = cronKind h \<and> map_of (m_declared m) h \<noteq> None))"

definition declared_ok :: "(string \<Rightarrow> (time \<Rightarrow> time) option) \<Rightarrow> 'h manager \<Rightarrow> bool" where
  "declared_ok cron m \<longleftrightarrow> gomap_wf (m_declared m) \<and>
    (\<forall>n r. map_of (m_declared m) n = Some r \<longrightarrow> sr_Name r = n \<and> sr_Group r = mc_SchedulerGroup (m_config m) \<and>
       CHR 0x00 \<notin> set n \<and> ids_of (sr_Kind r) m \<noteq> [] \<and>
       (\<exists>sp. spec_validate cron sp = None \<and> sr_Spec r = spec_String sp))"

definition mgr_inv :: "(string \<Rightarrow> (time \<Rightarrow> time) option) \<Rightarrow> 'h manager \<Rightarrow> bool" where
  "mgr_inv cron m \<longleftrightarrow> types_ok m \<and> handlers_ok m \<and> declared_ok cron m"

lemma types_ok_cong: "types_ok m \<Longrightarrow> m_kindByType m' = m_kindByType m \<Longrightarrow> m_typeByKind m' = m_typeByKind m \<Longrightarrow> types_ok m'"
  by (simp add: types_ok_def)

lemma handlers_ok_mono:
  assumes "handlers_ok m" "m_handlers m' = m_handlers m" "m_kindHandlers m' = m_kindHandlers m"
    and "\<And>t k. map_of (m_kindByType m) t = Some k \<Longrightarrow> map_of (m_kindByType m') t = Some k"
    and "\<And>n. map_of (m_declared m) n \<noteq> None \<Longrightarrow> map_of (m_declared m') n \<noteq> None"
  shows "handlers_ok m'"
proof -
  have ids: "ids_of x m' = ids_of x m" for x using assms(3) by (simp add: ids_of_def)
  have "(\<exists>t. map_of (m_kindByType m') t = Some k) \<or> (k = cronKind h \<and> map_of (m_declared m') h \<noteq> None)"
    if "h \<in> set (ids_of k m)" for k h
    using that assms(1,4,5) unfolding handlers_ok_def by meson
  then show ?thesis using assms(1) unfolding handlers_ok_def ids assms(2) by blast
qed

lemma mgr_inv_New: "mgr_New cfg = Inr m \<Longrightarrow> mgr_inv cron m"
  by (auto simp: mgr_New_def Let_def mgr_inv_def types_ok_def handlers_ok_def declared_ok_def ids_of_def
      split: option.splits if_splits)

lemma Register_cases:
  obtains (Same) e where "Register t k m = (e, m)"
  | (New) "map_of (m_kindByType m) t = None" "map_of (m_typeByKind m) k = None" "validIdent ''kind'' k = None"
      "\<not> hasPrefix k cronPrefix" "rt_kind t = RStruct"
      "Register t k m = (None, m\<lparr>m_kindByType := goput t k (m_kindByType m), m_typeByKind := goput k t (m_typeByKind m)\<rparr>)"
proof -
  have "(\<exists>e. Register t k m = (e, m)) \<or> (map_of (m_kindByType m) t = None \<and> map_of (m_typeByKind m) k = None \<and>
      validIdent ''kind'' k = None \<and> \<not> hasPrefix k cronPrefix \<and> rt_kind t = RStruct \<and>
      Register t k m = (None, m\<lparr>m_kindByType := goput t k (m_kindByType m), m_typeByKind := goput k t (m_typeByKind m)\<rparr>))"
    by (auto simp: Register_def split: option.split)
  then show thesis using Same New by blast
qed

lemma Register_inv:
  assumes "mgr_inv cron m"
  shows "mgr_inv cron (snd (Register t k m))"
proof (cases t k m rule: Register_cases [case_names Same New])
  case New
  have t: "types_ok m" using assms by (simp add: mgr_inv_def)
  have no: "map_of (m_typeByKind m) x \<noteq> Some t" for x using t New(1) unfolding types_ok_def by (metis option.distinct(1))
  have "types_ok (snd (Register t k m))"
    using t no New(1-5) unfolding types_ok_def New(6) by (auto split: if_splits)
  moreover have ids: "ids_of x (snd (Register t k m)) = ids_of x m" for x unfolding New(6) by (simp add: ids_of_def)
  have "handlers_ok (snd (Register t k m))"
    by (rule handlers_ok_mono [of m]) (use assms New(1) in \<open>auto simp: New(6) mgr_inv_def\<close>)
  moreover have "declared_ok cron (snd (Register t k m))"
    using assms unfolding mgr_inv_def declared_ok_def ids unfolding New(6) by simp
  ultimately show ?thesis by (simp add: mgr_inv_def)
qed (simp add: assms)


lemma On_cases:
  obtains (Same) e where "On t h fn m = (Some e, m)"
  | (New) k f where "map_of (m_kindByType m) t = Some k" "map_of (m_handlers m) (k, h) = None"
      "On t h fn m = (None, m\<lparr>m_handlers := goput (k, h) f (m_handlers m),
         m_kindHandlers := goput k (ids_of k m @ [h]) (m_kindHandlers m)\<rparr>)"
proof -
  have "(\<exists>e. On t h fn m = (Some e, m)) \<or> (\<exists>k f. map_of (m_kindByType m) t = Some k \<and> map_of (m_handlers m) (k, h) = None \<and>
      On t h fn m = (None, m\<lparr>m_handlers := goput (k, h) f (m_handlers m),
         m_kindHandlers := goput k (ids_of k m @ [h]) (m_kindHandlers m)\<rparr>))"
    by (auto simp: On_def split: option.split)
  then show thesis using Same New by blast
qed

lemma On_inv:
  assumes "mgr_inv cron m"
  shows "mgr_inv cron (snd (On t h fn m))"
proof (cases t h fn m rule: On_cases [case_names Same New])
  case (New k f)
  let ?m = "snd (On t h fn m)"
  have ids: "ids_of x ?m = (if x = k then ids_of k m @ [h] else ids_of x m)" for x unfolding New(3) by (simp add: ids_of_def)
  have "types_ok ?m" using assms unfolding mgr_inv_def types_ok_def New(3) by simp
  moreover have "handlers_ok ?m"
  proof -
    have H: "gomap_wf (m_handlers m)" "\<And>x y. map_of (m_handlers m) (x, y) \<noteq> None \<longleftrightarrow> y \<in> set (ids_of x m)"
      "\<And>x. distinct (ids_of x m)" "\<And>x y. y \<in> set (ids_of x m) \<Longrightarrow>
       (\<exists>t. map_of (m_kindByType m) t = Some x) \<or> (x = cronKind y \<and> map_of (m_declared m) y \<noteq> None)"
      using assms unfolding mgr_inv_def handlers_ok_def by blast+
    have "h \<notin> set (ids_of k m)" using H(2) [of k h] New(2) by simp
    moreover have "map_of (m_handlers ?m) (x, y) \<noteq> None \<longleftrightarrow> y \<in> set (ids_of x ?m)" for x y
      unfolding ids using H(2) [of x y] by (auto simp: New(3))
    moreover have "gomap_wf (m_handlers ?m)" using H(1) by (simp add: New(3) gomap_wf_goput)
    moreover have "(\<exists>t. map_of (m_kindByType ?m) t = Some x) \<or> (x = cronKind y \<and> map_of (m_declared ?m) y \<noteq> None)"
      if "y \<in> set (ids_of x ?m)" for x y
      using that H(4) [of y x] New(1) unfolding ids by (auto simp: New(3) split: if_splits)
    ultimately show ?thesis using H(3) unfolding handlers_ok_def ids by auto
  qed
  moreover have "declared_ok cron ?m"
    using assms unfolding mgr_inv_def declared_ok_def ids unfolding New(3) by auto
  ultimately show ?thesis by (simp add: mgr_inv_def)
qed (simp add: assms)

lemma Handle_inv: "mgr_inv cron m \<Longrightarrow> mgr_inv cron (snd (Handle t k fn m))"
  using Register_inv [of cron m t k] On_inv [of cron "snd (Register t k m)" t k fn]
  by (cases "Register t k m") (auto simp: Handle_def split: option.splits)

text \<open>A new declaration keeps everything else.\<close>

lemma declare_inv:
  assumes "mgr_inv cron m" "declare_row sr m = (None, m')" "sr_Group sr = mc_SchedulerGroup (m_config m)"
    and "validIdent w (sr_Name sr) = None" "spec_validate cron sp = None" "sr_Spec sr = spec_String sp"
    and "ids_of (sr_Kind sr) m \<noteq> []"
  shows "mgr_inv cron m'"
proof -
  have m': "m' = m\<lparr>m_declared := goput (sr_Name sr) sr (m_declared m)\<rparr>" "map_of (m_declared m) (sr_Name sr) = None"
    using assms(2) by (auto simp: declare_row_def split: option.splits)
  have ids: "ids_of x m' = ids_of x m" for x by (simp add: m'(1) ids_of_def)
  have "types_ok m'" using assms(1) by (auto simp: m'(1) mgr_inv_def intro: types_ok_cong)
  moreover have "handlers_ok m'"
    by (rule handlers_ok_mono [of m]) (use assms(1) in \<open>auto simp: m'(1) mgr_inv_def\<close>)
  moreover have "declared_ok cron m'"
    using assms(1,3-7) validIdent_no_nul [OF assms(4)] unfolding mgr_inv_def declared_ok_def ids
    by (auto simp: m'(1) gomap_wf_goput)
  ultimately show ?thesis by (simp add: mgr_inv_def)
qed

lemma buildScheduleRow_fields:
  assumes "buildScheduleRow cron encO now m name kind payload spec opts = Inr sr"
  shows "sr_Group sr = mc_SchedulerGroup (m_config m) \<and> sr_Name sr = name \<and> sr_Kind sr = kind \<and>
    sr_Spec sr = spec_String spec \<and> sr_Payload sr = payload \<and> encO opts = Inr (sr_OptionsJSON sr) \<and>
    spec_next cron spec now = Inr (sr_NextRunAt sr)"
  using assms by (auto simp: buildScheduleRow_def split: sum.splits)

lemma Schedule_inv:
  assumes "mgr_inv cron m"
  shows "mgr_inv cron (snd (Schedule cron encO enc now name spec msg opts m))"
proof -
  have "snd (Schedule cron encO enc now name spec msg opts m) = m \<or>
    (\<exists>kind ids payload sr. validIdent ''schedule name'' name = None \<and> spec_validate cron spec = None \<and>
      resolve msg m = Inr (kind, ids) \<and> ids \<noteq> [] \<and> buildScheduleRow cron encO now m name kind payload spec opts = Inr sr \<and>
      Schedule cron encO enc now name spec msg opts m = declare_row sr m)"
    by (auto simp: Schedule_def split: option.split sum.split prod.split)
  then show ?thesis
  proof (elim disjE exE conjE)
    fix kind ids payload sr
    assume a: "validIdent ''schedule name'' name = None" "spec_validate cron spec = None" "resolve msg m = Inr (kind, ids)"
      "ids \<noteq> []" "buildScheduleRow cron encO now m name kind payload spec opts = Inr sr"
      "Schedule cron encO enc now name spec msg opts m = declare_row sr m"
    note f = buildScheduleRow_fields [OF a(5)]
    have "ids_of kind m \<noteq> []" using a(3,4) by (auto simp: resolve_def split: option.splits if_splits)
    with f a(1,2) declare_inv [OF assms, of sr _ "''schedule name''" spec] show ?thesis
      unfolding a(6) by (cases "declare_row sr m") (auto simp: assms declare_row_def split: option.splits)
  qed (simp add: assms)
qed


lemma cronKind_prefix: "hasPrefix (cronKind n) cronPrefix"
  by (simp add: cronKind_def)

lemma cronKind_inj: "cronKind a = cronKind b \<Longrightarrow> a = b"
  by (simp add: cronKind_def)

text \<open>A cron's kind has no handler before its name is declared.\<close>

lemma cron_fresh:
  assumes "mgr_inv cron m" "map_of (m_declared m) n = None"
  shows "ids_of (cronKind n) m = []"
proof (rule ccontr)
  assume "ids_of (cronKind n) m \<noteq> []"
  then obtain h where h: "h \<in> set (ids_of (cronKind n) m)" by (metis list.set_intros(1) neq_Nil_conv)
  have "\<not> hasPrefix k cronPrefix" if "map_of (m_kindByType m) t = Some k" for t k
    using assms(1) that unfolding mgr_inv_def types_ok_def by blast
  then have "\<nexists>t. map_of (m_kindByType m) t = Some (cronKind n)" using cronKind_prefix by blast
  then have "cronKind n = cronKind h" "map_of (m_declared m) h \<noteq> None"
    using assms(1) h unfolding mgr_inv_def handlers_ok_def by blast+
  with assms(2) cronKind_inj show False by metis
qed

lemma RegisterCron_inv:
  assumes "mgr_inv cron m"
  shows "mgr_inv cron (snd (RegisterCron cron encO now name schedule fn m))"
proof -
  have "snd (RegisterCron cron encO now name schedule fn m) = m \<or>
    (\<exists>h sr opts. validIdent ''cron name'' name = None \<and> spec_validate cron (Cron schedule) = None \<and>
      buildScheduleRow cron encO now m name (cronKind name) ''{}'' (Cron schedule) opts = Inr sr \<and>
      map_of (m_declared m) (sr_Name sr) = None \<and>
      snd (RegisterCron cron encO now name schedule fn m) = m\<lparr>m_declared := goput (sr_Name sr) sr (m_declared m),
        m_handlers := goput (cronKind name, name) h (m_handlers m), m_kindHandlers := goput (cronKind name) [name] (m_kindHandlers m)\<rparr>)"
    by (auto simp: RegisterCron_def declare_row_def split: option.split sum.split)
  then show ?thesis
  proof (elim disjE exE conjE)
    fix h sr opts
    let ?m = "snd (RegisterCron cron encO now name schedule fn m)"
    assume a: "validIdent ''cron name'' name = None" "spec_validate cron (Cron schedule) = None"
      "buildScheduleRow cron encO now m name (cronKind name) ''{}'' (Cron schedule) opts = Inr sr"
      "map_of (m_declared m) (sr_Name sr) = None" and
      m': "?m = m\<lparr>m_declared := goput (sr_Name sr) sr (m_declared m),
        m_handlers := goput (cronKind name, name) h (m_handlers m), m_kindHandlers := goput (cronKind name) [name] (m_kindHandlers m)\<rparr>"
    note f = buildScheduleRow_fields [OF a(3)]
    have n: "map_of (m_declared m) name = None" using a(4) f by simp
    have empty: "ids_of (cronKind name) m = []" by (rule cron_fresh [OF assms n])
    have ids: "ids_of x ?m = (if x = cronKind name then [name] else ids_of x m)" for x unfolding m' by (simp add: ids_of_def)
    have "types_ok ?m" using assms by (auto simp: m' mgr_inv_def intro: types_ok_cong)
    moreover have "handlers_ok ?m"
    proof -
      have H: "gomap_wf (m_handlers m)" "\<And>x y. map_of (m_handlers m) (x, y) \<noteq> None \<longleftrightarrow> y \<in> set (ids_of x m)"
        "\<And>x. distinct (ids_of x m)" "\<And>x y. y \<in> set (ids_of x m) \<Longrightarrow>
         (\<exists>t. map_of (m_kindByType m) t = Some x) \<or> (x = cronKind y \<and> map_of (m_declared m) y \<noteq> None)"
        using assms unfolding mgr_inv_def handlers_ok_def by blast+
      have "map_of (m_handlers ?m) (x, y) \<noteq> None \<longleftrightarrow> y \<in> set (ids_of x ?m)" for x y
        unfolding ids using H(2) [of x y] empty by (auto simp: m')
      moreover have "gomap_wf (m_handlers ?m)" using H(1) by (simp add: m' gomap_wf_goput)
      moreover have "(\<exists>t. map_of (m_kindByType ?m) t = Some x) \<or> (x = cronKind y \<and> map_of (m_declared ?m) y \<noteq> None)"
        if "y \<in> set (ids_of x ?m)" for x y
        using that H(4) [of y x] f unfolding ids by (auto simp: m' split: if_splits)
      ultimately show ?thesis using H(3) unfolding handlers_ok_def ids by simp
    qed
    moreover have "declared_ok cron ?m"
      using assms f a(2) validIdent_no_nul [OF a(1)] unfolding mgr_inv_def declared_ok_def ids
      by (auto simp: m' gomap_wf_goput)
    ultimately show ?thesis by (simp add: mgr_inv_def)
  qed (simp add: assms)
qed

lemma mgr_run_inv:
  "mgr_inv cron m \<Longrightarrow> mgr_inv cron (fold (mgr_step cron encO enc) ops m)"
proof (induction ops arbitrary: m)
  case (Cons x xs)
  have "mgr_inv cron (mgr_step cron encO enc x m)"
    using Cons.prems by (cases x) (auto intro: Register_inv On_inv Handle_inv Schedule_inv RegisterCron_inv)
  with Cons.IH show ?case by simp
qed simp

text \<open>The registry is consistent: whatever is registered, attached, scheduled or declared as a cron,
  in any order and with any failures, types and kinds correspond one to one, kinds of messages never
  use the reserved prefix, a worker's handler set is exactly the handler ids listed for each kind, each
  listed once, and every declared schedule carries its own name, the manager's group, the stored form of
  a valid spec and a kind that has a handler here.\<close>

theorem jobs_registry:
  assumes "mgr_New cfg = Inr m0" "m = fold (mgr_step cron encO enc) ops m0"
  shows "(\<forall>t k. map_of (m_kindByType m) t = Some k \<longleftrightarrow> map_of (m_typeByKind m) k = Some t) \<and>
    (\<forall>t k. map_of (m_kindByType m) t = Some k \<longrightarrow> \<not> hasPrefix k cronPrefix) \<and>
    (\<forall>k h. (k, h) \<in> set (handlerSet m) \<longleftrightarrow> h \<in> set (ids_of k m)) \<and> (\<forall>k. distinct (ids_of k m)) \<and>
    (\<forall>n r. map_of (m_declared m) n = Some r \<longrightarrow> sr_Name r = n \<and> sr_Group r = mc_SchedulerGroup (m_config m) \<and>
       (\<exists>h. handlerFor (sr_Kind r, h) m \<noteq> None) \<and> (\<exists>sp. spec_validate cron sp = None \<and> sr_Spec r = spec_String sp))"
proof -
  have inv: "mgr_inv cron m" unfolding assms(2) by (rule mgr_run_inv [OF mgr_inv_New [OF assms(1)]])
  have h: "map_of (m_handlers m) (k, h) \<noteq> None \<longleftrightarrow> h \<in> set (ids_of k m)" for k h
    using inv unfolding mgr_inv_def handlers_ok_def by blast
  have "(k, h) \<in> set (handlerSet m) \<longleftrightarrow> map_of (m_handlers m) (k, h) \<noteq> None" for k h
    by (metis handlerSet_def map_of_eq_None_iff set_map)
  moreover have "\<exists>h. handlerFor (k, h) m \<noteq> None" if "ids_of k m \<noteq> []" for k
    using h [of k] that unfolding handlerFor_def by (metis list.set_intros(1) neq_Nil_conv)
  ultimately show ?thesis using inv h unfolding mgr_inv_def types_ok_def handlers_ok_def declared_ok_def by blast
qed

theorem jobs_registry_witness:
  "distinct (ids_of ''mail'' (fold (mgr_step (\<lambda>_. None) (\<lambda>_. Inr []) demo_enc)
     [MHandle demo_rtype ''mail'' (Some ()), MHandle demo_rtype ''mail'' (Some ())] demo_manager0))"
  using jobs_registry [OF demo_manager_New refl] by blast


section \<open>Schedules in the store\<close>

definition sched_ok :: "js \<Rightarrow> bool" where
  "sched_ok s \<longleftrightarrow> gomap_wf (js_schedules s) \<and>
    (\<forall>k r. map_of (js_schedules s) k = Some r \<longrightarrow> k = schedKey (sr_Group r) (sr_Name r) \<and> CHR 0x00 \<notin> set (sr_Name r))"

lemma schedKey_inj:
  assumes "CHR 0x00 \<notin> set n" "CHR 0x00 \<notin> set n'" "schedKey g n = schedKey g' n'"
  shows "g = g' \<and> n = n'"
proof -
  have "rev n @ CHR 0x00 # rev g = rev n' @ CHR 0x00 # rev g'"
    using arg_cong [OF assms(3), of rev] by (simp add: schedKey_def)
  with cut_nul [of "rev n" "rev n'" "rev g" "rev g'"] assms(1,2) show ?thesis by auto
qed

text \<open>A stored schedule after an upsert of \<open>r\<close>.\<close>

definition merged :: "schedule_row option \<Rightarrow> schedule_row \<Rightarrow> schedule_row" where
  "merged prev r = (case prev of None \<Rightarrow> r\<lparr>sr_LastRunSet := False\<rparr>
     | Some p \<Rightarrow> r\<lparr>sr_LastRunAt := sr_LastRunAt p, sr_LastRunSet := sr_LastRunSet p,
         sr_NextRunAt := (if sr_Spec p = sr_Spec r then sr_NextRunAt p else sr_NextRunAt r)\<rparr>)"

lemma merged_fields [simp]:
  "sr_Group (merged p r) = sr_Group r" "sr_Name (merged p r) = sr_Name r" "sr_Spec (merged p r) = sr_Spec r"
  by (simp_all add: merged_def split: option.splits)

lemma Upsert_schedules:
  "js_schedules (js_UpsertSchedule r s) =
    goput (schedKey (sr_Group r) (sr_Name r)) (merged (map_of (js_schedules s) (schedKey (sr_Group r) (sr_Name r))) r) (js_schedules s)"
  by (auto simp: js_UpsertSchedule_def merged_def Let_def split: option.splits)

lemma sched_ok_Upsert: "sched_ok s \<Longrightarrow> CHR 0x00 \<notin> set (sr_Name r) \<Longrightarrow> sched_ok (js_UpsertSchedule r s)"
  by (auto simp: sched_ok_def Upsert_schedules gomap_wf_goput)

lemma Upserts_schedules:
  assumes "distinct (map sr_Name rs)" "\<forall>r \<in> set rs. sr_Group r = g \<and> CHR 0x00 \<notin> set (sr_Name r)" "sched_ok s"
  shows "sched_ok (fold js_UpsertSchedule rs s) \<and>
    (\<forall>k. map_of (js_schedules (fold js_UpsertSchedule rs s)) k =
      (case find (\<lambda>r. schedKey g (sr_Name r) = k) rs of Some r \<Rightarrow> Some (merged (map_of (js_schedules s) k) r)
       | None \<Rightarrow> map_of (js_schedules s) k))"
  using assms
proof (induction rs arbitrary: s)
  case (Cons r rs)
  let ?s = "js_UpsertSchedule r s"
  have g: "sr_Group r = g" "CHR 0x00 \<notin> set (sr_Name r)" using Cons.prems(2) by auto
  have ok: "sched_ok ?s" by (rule sched_ok_Upsert [OF Cons.prems(3) g(2)])
  have IH: "sched_ok (fold js_UpsertSchedule rs ?s)"
    "\<And>k. map_of (js_schedules (fold js_UpsertSchedule rs ?s)) k =
      (case find (\<lambda>r. schedKey g (sr_Name r) = k) rs of Some r \<Rightarrow> Some (merged (map_of (js_schedules ?s) k) r)
       | None \<Rightarrow> map_of (js_schedules ?s) k)"
    using Cons.IH [OF _ _ ok] Cons.prems(1,2) by auto
  have other: "schedKey g (sr_Name x) \<noteq> schedKey g (sr_Name r)" if "x \<in> set rs" for x
  proof
    assume "schedKey g (sr_Name x) = schedKey g (sr_Name r)"
    moreover have "CHR 0x00 \<notin> set (sr_Name x)" using Cons.prems(2) that by simp
    ultimately have "sr_Name x = sr_Name r" using schedKey_inj g(2) by blast
    moreover have "sr_Name r \<notin> sr_Name ` set rs" using Cons.prems(1) by simp
    ultimately show False using that by (metis imageI)
  qed
  have none: "find (\<lambda>x. schedKey g (sr_Name x) = schedKey g (sr_Name r)) rs = None"
    using other by (auto simp: find_None_iff)
  have "map_of (js_schedules (fold js_UpsertSchedule (r # rs) s)) k =
      (case find (\<lambda>r. schedKey g (sr_Name r) = k) (r # rs) of Some r \<Rightarrow> Some (merged (map_of (js_schedules s) k) r)
       | None \<Rightarrow> map_of (js_schedules s) k)" for k
  proof (cases "schedKey g (sr_Name r) = k")
    case True
    then show ?thesis using IH(2) [of k] none by (simp add: Upsert_schedules g(1))
  next
    case False
    then show ?thesis using IH(2) [of k] by (simp add: Upsert_schedules g(1) cong: option.case_cong)
  qed
  with IH(1) show ?case by simp
qed simp

lemma Deletes_schedules:
  "map_of (js_schedules (fold (\<lambda>r s. if sr_Name r \<in> N then s else js_DeleteSchedule g (sr_Name r) s) rs s)) k =
    (if \<exists>r \<in> set rs. sr_Name r \<notin> N \<and> k = schedKey g (sr_Name r) then None else map_of (js_schedules s) k)"
proof (induction rs arbitrary: s)
  case (Cons r rs)
  have "map_of (js_schedules (js_DeleteSchedule g (sr_Name r) s)) k = (if k = schedKey g (sr_Name r) then None else map_of (js_schedules s) k)"
    by (simp add: js_DeleteSchedule_def)
  with Cons show ?case by auto
qed simp

lemma Deletes_frame:
  "js_rows (fold (\<lambda>r s. if sr_Name r \<in> N then s else js_DeleteSchedule g (sr_Name r) s) rs s) = js_rows s"
  "gomap_wf (js_schedules s) \<Longrightarrow>
    gomap_wf (js_schedules (fold (\<lambda>r s. if sr_Name r \<in> N then s else js_DeleteSchedule g (sr_Name r) s) rs s))"
  by (induction rs arbitrary: s) (simp_all add: js_DeleteSchedule_def gomap_wf_godel)

lemma Upserts_rows: "js_rows (fold js_UpsertSchedule rs s) = js_rows s"
  by (induction rs arbitrary: s) (simp_all add: js_UpsertSchedule_def Let_def)

lemma List_set:
  "gomap_wf (js_schedules s) \<Longrightarrow>
    set (js_ListSchedules g s) = {r. sr_Group r = g \<and> (\<exists>k. map_of (js_schedules s) k = Some r)}"
  using map_of_in_set [of "js_schedules s"] by (force simp: js_ListSchedules_def)


lemma group_names_distinct:
  assumes "sched_ok s"
  shows "distinct (map sr_Name (sort_key sr_Name (filter (\<lambda>r. sr_Group r = g \<and> P r) (map snd (js_schedules s)))))"
proof -
  let ?l = "filter (\<lambda>p. sr_Group (snd p) = g \<and> P (snd p)) (js_schedules s)"
  have wf: "gomap_wf (js_schedules s)" using assms by (simp add: sched_ok_def)
  have "fst p = schedKey (sr_Group (snd p)) (sr_Name (snd p))" if "p \<in> set (js_schedules s)" for p
    using assms that map_of_in_set [OF wf, of "fst p" "snd p"] by (auto simp: sched_ok_def)
  then have "p = q" if "p \<in> set ?l" "q \<in> set ?l" "sr_Name (snd p) = sr_Name (snd q)" for p q
    using that wf by (auto simp: distinct_map inj_on_def)
  moreover have "distinct ?l" using wf by (simp add: distinct_map)
  ultimately have "distinct (map (\<lambda>p. sr_Name (snd p)) ?l)" by (auto simp: distinct_map inj_on_def)
  moreover have "mset (map sr_Name (sort_key sr_Name (filter (\<lambda>r. sr_Group r = g \<and> P r) (map snd (js_schedules s))))) =
    mset (map (\<lambda>p. sr_Name (snd p)) ?l)"
    by (simp add: filter_map comp_def image_mset.compositionality)
  ultimately show ?thesis using mset_eq_imp_distinct_iff by blast
qed

lemma List_names:
  assumes "sched_ok s"
  shows "sorted (map sr_Name (js_ListSchedules g s))" "distinct (map sr_Name (js_ListSchedules g s))"
  using group_names_distinct [OF assms, of g "\<lambda>_. True"] by (simp_all add: js_ListSchedules_def)

lemma find_by_name:
  "distinct (map sr_Name rs) \<Longrightarrow> find (\<lambda>r. sr_Name r = n) rs = Some r \<longleftrightarrow> r \<in> set rs \<and> sr_Name r = n"
  by (induction rs) (auto simp: image_iff)

text \<open>The declarations as \<open>ReconcileSchedules\<close> upserts them.\<close>

definition declared_rows :: "'h manager \<Rightarrow> schedule_row list" where
  "declared_rows m = sort_key sr_Name (map snd (m_declared m))"

lemma declared_rows:
  assumes "mgr_inv cron m" "G = mc_SchedulerGroup (m_config m)"
  shows "distinct (map sr_Name (declared_rows m))"
    "\<forall>r \<in> set (declared_rows m). sr_Group r = G \<and> CHR 0x00 \<notin> set (sr_Name r)"
    "map_of (m_declared m) n = Some r \<longleftrightarrow> r \<in> set (declared_rows m) \<and> sr_Name r = n"
proof -
  have dwf: "gomap_wf (m_declared m)"
    and D: "\<And>n r. map_of (m_declared m) n = Some r \<Longrightarrow> sr_Name r = n \<and> sr_Group r = G \<and> CHR 0x00 \<notin> set n"
    using assms unfolding mgr_inv_def declared_ok_def by blast+
  have mem: "r \<in> set (declared_rows m) \<longleftrightarrow> map_of (m_declared m) (sr_Name r) = Some r" for r
    using D map_of_in_set [OF dwf] by (force simp: declared_rows_def image_iff)
  have names: "map sr_Name (map snd (m_declared m)) = map fst (m_declared m)"
    using D map_of_in_set [OF dwf] by (auto intro!: map_cong)
  have "mset (map sr_Name (declared_rows m)) = mset (map fst (m_declared m))"
    unfolding declared_rows_def names [symmetric] by (simp add: image_mset.compositionality)
  then show "distinct (map sr_Name (declared_rows m))" using dwf mset_eq_imp_distinct_iff by blast
  show "\<forall>r \<in> set (declared_rows m). sr_Group r = G \<and> CHR 0x00 \<notin> set (sr_Name r)" using D mem by blast
  show "map_of (m_declared m) n = Some r \<longleftrightarrow> r \<in> set (declared_rows m) \<and> sr_Name r = n" using D mem by blast
qed

text \<open>What the store holds after the upserts and the deletions: under a key of the group, the
  declaration merged with what was there, and nothing else.\<close>

lemma reconciled:
  assumes "mgr_inv cron m" "sched_ok s" "G = mc_SchedulerGroup (m_config m)"
  shows "sched_ok (ReconcileSchedules m s)" "js_rows (ReconcileSchedules m s) = js_rows s"
    "CHR 0x00 \<notin> set n \<Longrightarrow> map_of (js_schedules (ReconcileSchedules m s)) (schedKey g n) =
      (if g = G then map_option (merged (map_of (js_schedules s) (schedKey G n))) (map_of (m_declared m) n)
       else map_of (js_schedules s) (schedKey g n))"
proof -
  note dr = declared_rows [OF assms(1,3)]
  define s1 where "s1 = fold js_UpsertSchedule (declared_rows m) s"
  have up: "sched_ok s1" "\<And>k. map_of (js_schedules s1) k =
      (case find (\<lambda>r. schedKey G (sr_Name r) = k) (declared_rows m) of Some r \<Rightarrow> Some (merged (map_of (js_schedules s) k) r)
       | None \<Rightarrow> map_of (js_schedules s) k)"
    using Upserts_schedules [OF dr(1,2) assms(2)] unfolding s1_def by blast+
  define N where "N = set (map fst (m_declared m))"
  have N: "n \<in> N \<longleftrightarrow> map_of (m_declared m) n \<noteq> None" for n unfolding N_def by (metis map_of_eq_None_iff set_map)
  have s': "ReconcileSchedules m s =
    fold (\<lambda>r s. if sr_Name r \<in> N then s else js_DeleteSchedule G (sr_Name r) s) (js_ListSchedules G s1) s1"
    unfolding ReconcileSchedules_def Let_def s1_def declared_rows_def N_def assms(3) ..
  note del = Deletes_schedules [of N G "js_ListSchedules G s1" s1, folded s']
  have wf': "gomap_wf (js_schedules (ReconcileSchedules m s))"
    using Deletes_frame(2) up(1) unfolding s' sched_ok_def by blast
  show "sched_ok (ReconcileSchedules m s)"
    using wf' up(1) del unfolding sched_ok_def by (metis option.distinct(1))
  show "js_rows (ReconcileSchedules m s) = js_rows s" unfolding s' by (simp add: Deletes_frame(1) s1_def Upserts_rows)
  assume n: "CHR 0x00 \<notin> set n"
  have key: "schedKey G (sr_Name x) = schedKey g n \<longleftrightarrow> g = G \<and> sr_Name x = n" if "CHR 0x00 \<notin> set (sr_Name x)" for x :: schedule_row
    using schedKey_inj [OF that n, of G g] by blast
  have L: "x \<in> set (js_ListSchedules G s1) \<longleftrightarrow> sr_Group x = G \<and> map_of (js_schedules s1) (schedKey G (sr_Name x)) = Some x" for x
    using List_set [of s1 G] up(1) unfolding sched_ok_def by auto
  have nul: "CHR 0x00 \<notin> set (sr_Name x)" if "x \<in> set (js_ListSchedules G s1)" for x
    using that up(1) unfolding L sched_ok_def by blast
  have f0: "find (\<lambda>r. sr_Name r = n) (declared_rows m) = map_of (m_declared m) n"
    using find_by_name [OF dr(1), of n] dr(3) [of n] by (metis not_None_eq)
  have f: "find (\<lambda>r. schedKey G (sr_Name r) = schedKey g n) (declared_rows m) = (if g = G then map_of (m_declared m) n else None)"
    unfolding f0 [symmetric] using key dr(2) by (auto simp: find_None_iff cong: find_cong)
  show "map_of (js_schedules (ReconcileSchedules m s)) (schedKey g n) =
      (if g = G then map_option (merged (map_of (js_schedules s) (schedKey G n))) (map_of (m_declared m) n)
       else map_of (js_schedules s) (schedKey g n))"
  proof (cases "g = G \<and> map_of (m_declared m) n = None")
    case True
    show ?thesis
    proof (cases "map_of (js_schedules s1) (schedKey G n)")
      case None
      then show ?thesis using True del by simp
    next
      case (Some x)
      then have "sr_Group x = G" "sr_Name x = n"
        using up(1) schedKey_inj [OF n, of "sr_Name x" G "sr_Group x"] unfolding sched_ok_def by metis+
      with Some have "x \<in> set (js_ListSchedules G s1)" "sr_Name x \<notin> N" using L N True by simp_all
      then show ?thesis using True del [of "schedKey g n"] \<open>sr_Name x = n\<close> by auto
    qed
  next
    case False
    have "\<not> (\<exists>x \<in> set (js_ListSchedules G s1). sr_Name x \<notin> N \<and> schedKey g n = schedKey G (sr_Name x))"
      using False key nul N by metis
    then show ?thesis using False up(2) [of "schedKey g n"] del [of "schedKey g n"] f by (auto split: option.splits)
  qed
qed

text \<open>C30: Reconciling makes the store agree with the process: for any manager built by its operations,
  after \<open>ReconcileSchedules\<close> the schedules of its group are exactly its declarations, listed by name;
  each carries the declared spec, kind, payload and options, keeps the last run of a schedule that was
  already stored, and keeps its next run unless the spec changed. Schedules of other groups and all
  jobs are untouched.\<close>

theorem jobs_reconcile:
  assumes "mgr_New cfg = Inr m0" "m = fold (mgr_step cron encO enc) ops m0" "sched_ok s"
    and "s' = ReconcileSchedules m s" "G = mc_SchedulerGroup (m_config m)"
  shows "map sr_Name (js_ListSchedules G s') = sort (map fst (m_declared m)) \<and>
    (\<forall>n r. map_of (m_declared m) n = Some r \<longrightarrow> map_of (js_schedules s') (schedKey G n) = Some (merged (map_of (js_schedules s) (schedKey G n)) r)) \<and>
    (\<forall>g n. g \<noteq> G \<and> CHR 0x00 \<notin> set n \<longrightarrow> map_of (js_schedules s') (schedKey g n) = map_of (js_schedules s) (schedKey g n)) \<and>
    js_rows s' = js_rows s \<and> sched_ok s'"
proof -
  have inv: "mgr_inv cron m" unfolding assms(2) by (rule mgr_run_inv [OF mgr_inv_New [OF assms(1)]])
  note dr = declared_rows [OF inv assms(5)]
  note rec = reconciled [OF inv assms(3,5), folded assms(4)]
  have decl: "map_of (js_schedules s') (schedKey G n) = Some (merged (map_of (js_schedules s) (schedKey G n)) r)"
    if "map_of (m_declared m) n = Some r" for n r
    using rec(3) [of n G] dr(2,3) that by auto
  have wf': "gomap_wf (js_schedules s')" using rec(1) by (simp add: sched_ok_def)
  have "n \<in> set (map sr_Name (js_ListSchedules G s')) \<longleftrightarrow> n \<in> set (map fst (m_declared m))" for n
  proof
    assume "n \<in> set (map sr_Name (js_ListSchedules G s'))"
    then obtain x k where x: "map_of (js_schedules s') k = Some x" "sr_Group x = G" "sr_Name x = n"
      using List_set [OF wf', of G] by auto
    then have "k = schedKey G n" "CHR 0x00 \<notin> set n" using rec(1) unfolding sched_ok_def by blast+
    with rec(3) [of n G] x(1) have "map_of (m_declared m) n \<noteq> None" by auto
    then show "n \<in> set (map fst (m_declared m))" by (metis map_of_eq_None_iff set_map)
  next
    assume "n \<in> set (map fst (m_declared m))"
    then obtain r where r: "map_of (m_declared m) n = Some r" by (metis map_of_eq_None_iff not_None_eq set_map)
    then have "merged (map_of (js_schedules s) (schedKey G n)) r \<in> set (js_ListSchedules G s')"
      using decl [OF r] dr(2,3) List_set [OF wf', of G] by auto
    from imageI [OF this, of sr_Name] show "n \<in> set (map sr_Name (js_ListSchedules G s'))" using dr(3) [of n r] r by simp
  qed
  moreover have "gomap_wf (m_declared m)" using inv by (simp add: mgr_inv_def declared_ok_def)
  ultimately have "map sr_Name (js_ListSchedules G s') = sort (map fst (m_declared m))"
    using List_names [OF rec(1), of G] by (intro sorted_distinct_set_unique) auto
  moreover have "map_of (js_schedules s') (schedKey g n) = map_of (js_schedules s) (schedKey g n)"
    if "g \<noteq> G \<and> CHR 0x00 \<notin> set n" for g n using rec(3) [of n g] that by simp
  ultimately show ?thesis using decl rec(1,2) by blast
qed


definition demo_declared :: "unit manager" where
  "demo_declared = snd (Schedule (\<lambda>_. None) (\<lambda>_. Inr []) demo_enc 3 ''nightly'' (Every 60) demo_message zero_schedule_options demo_manager)"

theorem jobs_reconcile_witness:
  "map sr_Name (js_ListSchedules [] (ReconcileSchedules demo_declared js_New)) = [''nightly'']"
proof -
  have v: "validIdent ''schedule name'' ''nightly'' = None" by (simp add: validIdent_def ident_byte_def less_eq_char_def)
  have n: "m_declared demo_manager = []" "mc_SchedulerGroup (m_config demo_manager) = []"
    by (simp_all add: demo_manager_def demo_manager0_def)
  have "Schedule (\<lambda>_. None) (\<lambda>_. Inr []) demo_enc 3 ''nightly'' (Every 60) demo_message zero_schedule_options demo_manager =
    declare_row \<lparr>sr_Group = [], sr_Name = ''nightly'', sr_Kind = ''mail'', sr_Spec = spec_String (Every 60), sr_Payload = ''{}'',
      sr_OptionsJSON = [], sr_NextRunAt = 63, sr_LastRunAt = zeroTime, sr_LastRunSet = False, sr_UpdatedAt = 3\<rparr> demo_manager"
    by (simp add: Schedule_def v spec_validate_def Every_def demo_resolve options_problem_def zero_schedule_options_def
        validOnTimeout_def validCatchUp_def demo_enc_def buildScheduleRow_def spec_next_def n)
  then have d: "map fst (m_declared demo_declared) = [''nightly'']" "mc_SchedulerGroup (m_config demo_declared) = []"
    by (simp_all add: demo_declared_def declare_row_def n)
  have m: "demo_declared = fold (mgr_step (\<lambda>_. None) (\<lambda>_. Inr []) demo_enc)
    [MHandle demo_rtype ''mail'' (Some ()), MSchedule 3 ''nightly'' (Every 60) demo_message zero_schedule_options] demo_manager0"
    by (simp add: demo_declared_def demo_manager_Handle)
  have "sched_ok js_New" by (simp add: sched_ok_def js_New_def)
  from jobs_reconcile [OF demo_manager_New m this refl d(2) [symmetric]] d show ?thesis by simp
qed

section \<open>A tick of the scheduler\<close>

text \<open>What the cron package documents of \<open>Next\<close>: it returns an activation later than the given time.\<close>

definition cron_forward :: "(string \<Rightarrow> (time \<Rightarrow> time) option) \<Rightarrow> bool" where
  "cron_forward cron \<longleftrightarrow> (\<forall>ex nx a. cron ex = Some nx \<longrightarrow> a < nx a)"

lemma spec_next_progress:
  assumes "cron_forward cron" "spec_next cron sp t = Inr t'"
  shows "t < t'"
  using assms by (auto simp: spec_next_def cron_forward_def split: if_splits option.splits)

lemma planFires_defined:
  assumes "sp_every sp > 0 \<or> cron (sp_cron sp) \<noteq> None"
  shows "\<exists>ticks n capped. planFires (spec_next cron sp) nextRun now c = Inr (ticks, n, capped)"
proof -
  have nx: "\<exists>t'. spec_next cron sp t = Inr t'" for t using assms by (auto simp: spec_next_def)
  have loop: "\<exists>ticks n capped. catchUpAll_loop (spec_next cron sp) now room t acc = Inr (ticks, n, capped)" for room t acc
  proof (induction room arbitrary: t acc)
    case 0
    then show ?case using nx [of now] by (auto simp: catchUpAll_loop.simps [of _ _ 0])
  next
    case (Suc room)
    obtain t' where "spec_next cron sp t = Inr t'" using nx by blast
    with Suc [of t' "acc @ [t]"] show ?case by (auto simp: catchUpAll_loop.simps [of _ _ "Suc room"])
  qed
  show ?thesis using nx [of now] loop by (cases c) (auto simp: planFires_def)
qed

text \<open>The effect of firing a schedule on the stored schedules, when the stored row is the one fired.\<close>

lemma Fire_schedules:
  assumes "map_of (js_schedules s) (schedKey (sf_Group f) (sf_Name f)) = Some sr"
    and "sf_ExpectedLastRun f = (if sr_LastRunSet sr then Some (sr_LastRunAt sr) else None)"
  shows "js_schedules (snd (js_FireSchedule nid f s)) = goput (schedKey (sf_Group f) (sf_Name f))
      (sr\<lparr>sr_LastRunAt := sf_NewLastRun f, sr_LastRunSet := \<not> isZero (sf_NewLastRun f), sr_NextRunAt := sf_NewNextRun f,
          sr_UpdatedAt := sf_Now f\<rparr>) (js_schedules s)"
  using assms insertLocked_frame [of nid "sf_Now f" "sf_Jobs f" s]
  by (auto simp: js_FireSchedule_def Let_def case_prod_unfold split: if_splits)

text \<open>A schedule the process can fire.\<close>

definition fireable :: "'f sched_env \<Rightarrow> 'h manager \<Rightarrow> schedule_row \<Rightarrow> bool" where
  "fireable e m sr \<longleftrightarrow> (\<exists>sp opts. parseSpec (sr_Spec sr) = Inr sp \<and> (sp_every sp > 0 \<or> se_cron e (sp_cron sp) \<noteq> None) \<and>
     se_decO e (sr_OptionsJSON sr) = Inr opts) \<and> ids_of (sr_Kind sr) m \<noteq> []"

lemma fireSchedule_advances:
  assumes "fireable e m sr" "map_of (js_schedules s) (schedKey (sr_Group sr) (sr_Name sr)) = Some sr"
    and "cron_forward (se_cron e)"
  shows "\<exists>sr'. js_schedules (snd (fireSchedule e m now sr s)) = goput (schedKey (sr_Group sr) (sr_Name sr)) sr' (js_schedules s) \<and>
    now < sr_NextRunAt sr' \<and> sr_Group sr' = sr_Group sr \<and> sr_Name sr' = sr_Name sr"
proof -
  obtain sp opts where sp: "parseSpec (sr_Spec sr) = Inr sp" "sp_every sp > 0 \<or> se_cron e (sp_cron sp) \<noteq> None"
    "se_decO e (sr_OptionsJSON sr) = Inr opts" "ids_of (sr_Kind sr) m \<noteq> []" using assms(1) unfolding fireable_def by blast
  obtain ticks n capped where pl: "planFires (spec_next (se_cron e) sp) (sr_NextRunAt sr) now (so_CatchUp opts) = Inr (ticks, n, capped)"
    using planFires_defined [of sp "se_cron e"] sp(2) by blast
  have n: "now < n"
    by (rule plan_next [OF pl]) (rule spec_next_progress [OF assms(3)])
  let ?exp = "if sr_LastRunSet sr then Some (sr_LastRunAt sr) else None"
  have adv: "\<exists>sr'. js_schedules (advanceSchedule (se_nid e) (se_anow e) sr n ?exp s) =
      goput (schedKey (sr_Group sr) (sr_Name sr)) sr' (js_schedules s) \<and>
    now < sr_NextRunAt sr' \<and> sr_Group sr' = sr_Group sr \<and> sr_Name sr' = sr_Name sr"
    using n assms(2) by (auto simp: advanceSchedule_def Fire_schedules)
  have fire: "\<exists>sr'. js_schedules (snd (js_FireSchedule (se_nid e) \<lparr>sf_Group = sr_Group sr, sf_Name = sr_Name sr, sf_ExpectedLastRun = ?exp,
      sf_NewLastRun = now, sf_NewNextRun = n, sf_Now = now, sf_Jobs = jobs\<rparr> s)) =
      goput (schedKey (sr_Group sr) (sr_Name sr)) sr' (js_schedules s) \<and>
    now < sr_NextRunAt sr' \<and> sr_Group sr' = sr_Group sr \<and> sr_Name sr' = sr_Name sr" for jobs
    using n assms(2) by (auto simp: Fire_schedules)
  have "snd (fireSchedule e m now sr s) = advanceSchedule (se_nid e) (se_anow e) sr n ?exp s \<or>
    (\<exists>jobs. snd (fireSchedule e m now sr s) = snd (js_FireSchedule (se_nid e) \<lparr>sf_Group = sr_Group sr, sf_Name = sr_Name sr,
      sf_ExpectedLastRun = ?exp, sf_NewLastRun = now, sf_NewNextRun = n, sf_Now = now, sf_Jobs = jobs\<rparr> s))"
    using sp pl by (auto simp: fireSchedule_def Let_def case_prod_unfold split: sum.split)
  then show ?thesis using adv fire by metis
qed


lemma Due_set:
  "gomap_wf (js_schedules s) \<Longrightarrow> set (js_DueSchedules g now s) =
    {r. sr_Group r = g \<and> \<not> isZero (sr_NextRunAt r) \<and> sr_NextRunAt r \<le> now \<and> (\<exists>k. map_of (js_schedules s) k = Some r)}"
  using map_of_in_set [of "js_schedules s"] by (force simp: js_DueSchedules_def)

abbreviation sr_key :: "schedule_row \<Rightarrow> string" where
  "sr_key r \<equiv> schedKey (sr_Group r) (sr_Name r)"

lemma fire_all_advances:
  assumes "\<forall>r \<in> set rs. fireable e m r \<and> map_of (js_schedules s) (sr_key r) = Some r" "distinct (map sr_key rs)"
    and "cron_forward (se_cron e)" "sched_ok s"
  shows "sched_ok (snd (fire_all e m now rs s)) \<and>
    (\<forall>k. if k \<in> sr_key ` set rs then \<exists>r'. map_of (js_schedules (snd (fire_all e m now rs s))) k = Some r' \<and> now < sr_NextRunAt r'
         else map_of (js_schedules (snd (fire_all e m now rs s))) k = map_of (js_schedules s) k)"
  using assms(1,2,4)
proof (induction rs arbitrary: s)
  case (Cons r rs)
  let ?s1 = "snd (fireSchedule e m now r s)"
  obtain r' where r': "js_schedules ?s1 = goput (sr_key r) r' (js_schedules s)" "now < sr_NextRunAt r'"
    "sr_Group r' = sr_Group r" "sr_Name r' = sr_Name r"
    using fireSchedule_advances [of e m r s now] Cons.prems(1) assms(3) by auto
  have ok: "sched_ok ?s1"
    using Cons.prems(1,3) unfolding sched_ok_def by (auto simp: r' gomap_wf_goput)
  have "\<forall>x \<in> set rs. fireable e m x \<and> map_of (js_schedules ?s1) (sr_key x) = Some x"
    using Cons.prems(1,2) by (auto simp: r'(1) image_iff)
  with Cons.IH [OF this _ ok] Cons.prems(2) have IH: "sched_ok (snd (fire_all e m now rs ?s1))"
    "\<And>k. if k \<in> sr_key ` set rs then \<exists>r'. map_of (js_schedules (snd (fire_all e m now rs ?s1))) k = Some r' \<and> now < sr_NextRunAt r'
         else map_of (js_schedules (snd (fire_all e m now rs ?s1))) k = map_of (js_schedules ?s1) k" by auto
  have step: "snd (fire_all e m now (r # rs) s) = snd (fire_all e m now rs ?s1)" by (simp add: case_prod_unfold Let_def)
  have "if k \<in> sr_key ` set (r # rs) then \<exists>r'. map_of (js_schedules (snd (fire_all e m now rs ?s1))) k = Some r' \<and> now < sr_NextRunAt r'
         else map_of (js_schedules (snd (fire_all e m now rs ?s1))) k = map_of (js_schedules s) k" for k
    using IH(2) [of k] r'(1,2) Cons.prems(2) by (cases "k = sr_key r") auto
  then show ?case unfolding step using IH(1) by blast
qed simp

text \<open>A tick of the scheduler leaves nothing due: when every due schedule of the group has a readable
  spec and options and a handler here, and the cron library's next instant lies after the given one,
  then after one tick no schedule of the group is due any more, and schedules that were not due or
  belong to other groups are unchanged. So a schedule cannot fire again before its next run.\<close>

theorem jobs_tick_clears_due:
  assumes "sched_ok s" "G = mc_SchedulerGroup (m_config m)" "s' = snd (schedulerTick e m now s)"
    and "\<forall>r \<in> set (js_DueSchedules G now s). fireable e m r"
    and "cron_forward (se_cron e)"
  shows "js_DueSchedules G now s' = [] \<and>
    (\<forall>k r. map_of (js_schedules s) k = Some r \<and> r \<notin> set (js_DueSchedules G now s) \<longrightarrow> map_of (js_schedules s') k = Some r)"
proof -
  let ?due = "js_DueSchedules G now s"
  have wf: "gomap_wf (js_schedules s)" using assms(1) by (simp add: sched_ok_def)
  have stored: "map_of (js_schedules s) (sr_key r) = Some r" if "r \<in> set ?due" for r
    using that assms(1) unfolding Due_set [OF wf] sched_ok_def by auto
  have grp: "sr_Group r = G \<and> CHR 0x00 \<notin> set (sr_Name r)" if "r \<in> set ?due" for r
    using that assms(1) unfolding Due_set [OF wf] sched_ok_def by auto
  have "distinct (map sr_Name ?due)"
    using group_names_distinct [OF assms(1), of G "\<lambda>r. \<not> isZero (sr_NextRunAt r) \<and> \<not> sr_NextRunAt r > now"]
    by (simp add: js_DueSchedules_def)
  then have "distinct (map sr_key ?due)"
    using grp schedKey_inj by (auto simp: distinct_map inj_on_def)
  from fire_all_advances [OF _ this assms(5,1), of m now] assms(4) stored
  have adv: "sched_ok s'" "\<And>k. if k \<in> sr_key ` set ?due then \<exists>r'. map_of (js_schedules s') k = Some r' \<and> now < sr_NextRunAt r'
         else map_of (js_schedules s') k = map_of (js_schedules s) k"
    unfolding assms(3) schedulerTick_def assms(2) by auto
  have "r \<notin> set (js_DueSchedules G now s')" for r
  proof
    assume "r \<in> set (js_DueSchedules G now s')"
    moreover have "gomap_wf (js_schedules s')" using adv(1) by (simp add: sched_ok_def)
    ultimately obtain k where k: "map_of (js_schedules s') k = Some r" "sr_NextRunAt r \<le> now" "sr_Group r = G" "\<not> isZero (sr_NextRunAt r)"
      using Due_set by auto
    have n: "k \<notin> sr_key ` set ?due" using adv(2) [of k] k(1,2) by auto
    then have "map_of (js_schedules s) k = Some r" using adv(2) [of k] k(1) by simp
    then have "r \<in> set ?due" "k = sr_key r" using k assms(1) unfolding Due_set [OF wf] sched_ok_def by auto
    with n show False by blast
  qed
  moreover have "map_of (js_schedules s') k = Some r" if "map_of (js_schedules s) k = Some r" "r \<notin> set ?due" for k r
  proof -
    have "k \<notin> sr_key ` set ?due"
    proof
      assume "k \<in> sr_key ` set ?due"
      then obtain x where "x \<in> set ?due" "k = sr_key x" by blast
      with stored that show False by auto
    qed
    with adv(2) [of k] that show ?thesis by simp
  qed
  ultimately show ?thesis by (auto simp: list.set_sel intro: ccontr) (metis list.set_intros(1) neq_Nil_conv)
qed


text \<open>An environment without cron support, and one interval schedule stored and due.\<close>

definition demo_env :: "nat sched_env" where
  "demo_env = \<lparr>se_nid = demo_nid, se_cron = (\<lambda>_. None), se_decO = (\<lambda>_. Inr (zero_schedule_options\<lparr>so_Singleton := True\<rparr>)),
     se_marshal = demo_marshal, se_raw = Inr, se_bnow = (\<lambda>t. t), se_anow = 0\<rparr>"

definition due_row :: schedule_row where
  "due_row = \<lparr>sr_Group = [], sr_Name = ''nightly'', sr_Kind = ''mail'', sr_Spec = spec_String (Every 60), sr_Payload = ''{}'',
     sr_OptionsJSON = [], sr_NextRunAt = 63, sr_LastRunAt = zeroTime, sr_LastRunSet = False, sr_UpdatedAt = 3\<rparr>"

lemma due_row_fireable: "fireable demo_env demo_manager due_row"
proof -
  have "parseSpec (spec_String (Every 60)) = Inr (Every 60)" by code_simp
  then show ?thesis
    by (auto simp: fireable_def due_row_def demo_env_def Every_def demo_manager_def ids_of_def)
qed

theorem jobs_tick_clears_due_witness:
  "js_DueSchedules [] 70 (js_UpsertSchedule due_row js_New) = [due_row] \<and>
   js_DueSchedules [] 70 (snd (schedulerTick demo_env demo_manager 70 (js_UpsertSchedule due_row js_New))) = []"
proof -
  let ?s = "js_UpsertSchedule due_row js_New"
  have d: "js_DueSchedules [] 70 ?s = [due_row]"
    by (simp add: js_DueSchedules_def js_UpsertSchedule_def js_New_def due_row_def isZero_def zeroTime_def)
  have ok: "sched_ok ?s" by (rule sched_ok_Upsert) (simp_all add: sched_ok_def js_New_def due_row_def)
  have g: "[] = mc_SchedulerGroup (m_config demo_manager)" by (simp add: demo_manager_def demo_manager0_def)
  have f: "\<forall>r \<in> set (js_DueSchedules [] 70 ?s). fireable demo_env demo_manager r" by (simp add: d due_row_fireable)
  have c: "cron_forward (se_cron demo_env)" by (simp add: cron_forward_def demo_env_def)
  from jobs_tick_clears_due [OF ok g refl f c] d show ?thesis by blast
qed

text \<open>The jobs of a tick are never built when the unique key of a singleton is too long.\<close>

lemma long_key_refused:
  assumes "255 < length (jo_uniqueKey o')"
  shows "\<exists>err. buildJobs marshal m now kind ids payload o' sf sfs = Inl err"
  using assms by (auto simp: buildJobs_def Let_def split: sum.split option.split)

lemma emit_jobs_refused:
  assumes "\<And>t. \<exists>err. build t = Inl err" "ticks \<noteq> []"
  shows "emit_jobs build ticks acc \<noteq> Inr js"
proof -
  obtain t ts where "ticks = t # ts" using assms(2) by (cases ticks) auto
  then show ?thesis using assms(1) [of t] by auto
qed

lemma Fire_no_jobs: "sf_Jobs f = [] \<Longrightarrow> js_rows (snd (js_FireSchedule nid f s)) = js_rows s"
  by (auto simp: js_FireSchedule_def Let_def split: option.splits)

text \<open>A cron with a long name never runs: \<open>RegisterCron\<close> accepts names of up to 255 bytes, but the
  unique key it gives the jobs of the schedule is ten bytes longer than group and name together, and a
  key of more than 255 bytes is refused when the tick's jobs are built. So for such a name the
  declaration succeeds and every fire, at any time, only advances the schedule: no job is ever
  inserted and no hook is called.\<close>

theorem jobs_long_cron_never_runs:
  assumes "RegisterCron cron encO now0 name sch fn m = (None, m')" "map_of (m_declared m') name = Some sr"
    and "\<And>o' js. encO o' = Inr js \<Longrightarrow> se_decO e js = Inr o'"
    and "245 < length (mc_SchedulerGroup (m_config m)) + length name"
    and "sr_Group x = sr_Group sr" "sr_Name x = sr_Name sr" "sr_OptionsJSON x = sr_OptionsJSON sr"
  shows "js_rows (snd (fireSchedule e m2 now x s)) = js_rows s \<and> fst (fireSchedule e m2 now x s) = []"
proof -
  let ?opts = "zero_schedule_options\<lparr>so_Singleton := True\<rparr>"
  obtain sr0 where b: "buildScheduleRow cron encO now0 m name (cronKind name) ''{}'' (Cron sch) ?opts = Inr sr0"
    and d: "declare_row sr0 m = (None, m\<lparr>m_declared := goput (sr_Name sr0) sr0 (m_declared m)\<rparr>)"
    and m': "m_declared m' = goput (sr_Name sr0) sr0 (m_declared m)"
    using assms(1) by (auto simp: RegisterCron_def declare_row_def split: option.splits sum.splits)
  note f = buildScheduleRow_fields [OF b]
  have sr: "sr = sr0" using m' f assms(2) by simp
  have opts: "se_decO e (sr_OptionsJSON x) = Inr ?opts" using f assms(3,7) sr by simp
  have "255 < length (jo_uniqueKey (schedule_job_opts x ?opts))"
    using f assms(4-6) sr by (simp add: schedule_job_opts_def)
  then have "\<exists>err. buildJobs (se_marshal e) m2 (se_bnow e t) (sr_Kind x) ids pl (schedule_job_opts x ?opts) t True = Inl err" for t ids pl
    by (rule long_key_refused)
  then have e: "emit_jobs (\<lambda>tick. buildJobs (se_marshal e) m2 (se_bnow e tick) (sr_Kind x) ids pl (schedule_job_opts x ?opts) tick True)
      ticks [] \<noteq> Inr js" if "ticks \<noteq> []" for ids pl ticks js
    using that by (intro emit_jobs_refused)
  have adv: "js_rows (advanceSchedule nid t sr1 n ex s) = js_rows s" for nid t sr1 n ex
    by (simp add: advanceSchedule_def Fire_no_jobs)
  show ?thesis
    using opts e adv by (auto simp: fireSchedule_def Let_def split: sum.split prod.split)
qed

definition long_name :: string where
  "long_name = replicate 250 (CHR ''a'')"

lemma long_name_ok: "validIdent ''cron name'' long_name = None" "length long_name = 250"
proof -
  show "length long_name = 250" unfolding long_name_def by (rule length_replicate)
  then show "validIdent ''cron name'' long_name = None"
    by (auto simp: validIdent_None long_name_def ident_byte_def less_eq_char_def in_set_replicate)
qed

theorem jobs_long_cron_never_runs_witness:
  "\<exists>m' sr. RegisterCron (\<lambda>_. Some (\<lambda>t. t + 1)) (\<lambda>_. Inr []) 3 long_name ''@hourly'' (Some ()) demo_manager0 = (None, m') \<and>
    map_of (m_declared m') long_name = Some sr \<and> js_rows (snd (fireSchedule demo_env m' 70 sr js_New)) = []"
proof -
  let ?n = long_name and ?enc = "\<lambda>o'. if o' = zero_schedule_options\<lparr>so_Singleton := True\<rparr> then Inr [] else Inl ErrPermanent"
  note v = long_name_ok(1)
  obtain m' where r: "RegisterCron (\<lambda>_. Some (\<lambda>t. t + 1)) (\<lambda>_. Inr []) 3 ?n ''@hourly'' (Some ()) demo_manager0 = (None, m')"
    and r2: "RegisterCron (\<lambda>_. Some (\<lambda>t. t + 1)) ?enc 3 ?n ''@hourly'' (Some ()) demo_manager0 = (None, m')"
    using v by (simp add: RegisterCron_def Cron_def spec_validate_def buildScheduleRow_def spec_next_def declare_row_def demo_manager0_def)
  have "map_of (m_declared m') ?n \<noteq> None"
    using r v by (auto simp: RegisterCron_def Cron_def spec_validate_def buildScheduleRow_def spec_next_def declare_row_def demo_manager0_def)
  then obtain sr where sr: "map_of (m_declared m') ?n = Some sr" by blast
  have "\<And>o' js. ?enc o' = Inr js \<Longrightarrow> se_decO demo_env js = Inr o'" by (simp add: demo_env_def split: if_splits)
  from jobs_long_cron_never_runs [OF r2 sr this _ refl refl refl, of m' 70 js_New] long_name_ok(2) r sr show ?thesis by (auto simp: js_New_def)
qed

end
