(* ===== verification/SessionStore.thy ===== *)
theory SessionStore
  imports GoText
begin

text \<open>
  Package \<open>session\<close>, persistence: the errors (\<open>session.go\<close>), the record and the store contract
  (\<open>store.go\<close>) and the in-process store (\<open>store_memory.go\<close>), every method of it.

  \<^item> An error is what \<open>errors.Is\<close> sees of it (the wrapped sentinel) and its text.
  \<^item> \<open>Version\<close> is a \<open>uint64\<close>: a \<open>64 word\<close>, whose \<open>+\<close> wraps.
  \<^item> A payload is a list of bytes; the code looks only at its length and bytes, so a nil payload
    is the empty one, and copying a payload is the identity.
  \<^item> Each method is one step: it runs under the store's mutex. \<open>Load\<close> looks the record up under
    the read lock and prunes it under the write lock after checking it again; the check again makes
    the pruning step harmless whatever runs in between, so the two are one step here.
  \<^item> The clock reading \<open>s.now()\<close> of a call is the argument \<open>now\<close>, and the context's error, if any,
    the argument \<open>ctx\<close>.
\<close>

section \<open>Errors (session.go)\<close>

datatype sentinel = ErrNotFound | ErrVersionConflict | ErrCapabilityMissing | ErrNoSession | ErrAlreadyCommitted

datatype sess_err = SErr (errIs: "sentinel option") (errText: string)

fun sentinel_text :: "sentinel \<Rightarrow> string" where
  "sentinel_text ErrNotFound = ''session not found''"
| "sentinel_text ErrVersionConflict = ''session version conflict''"
| "sentinel_text ErrCapabilityMissing = ''store capability missing''"
| "sentinel_text ErrNoSession = ''no session attached to context''"
| "sentinel_text ErrAlreadyCommitted = ''session already committed''"

text \<open>\<open>fmt.Errorf("prefix: %w", sentinel)\<close> and a plain \<open>errors.New\<close>.\<close>

definition wrapErr :: "string \<Rightarrow> sentinel \<Rightarrow> sess_err" where
  "wrapErr prefix e = SErr (Some e) (prefix @ sentinel_text e)"

definition newErr :: "string \<Rightarrow> sess_err" where
  "newErr t = SErr None t"

lemma errIs_simps [simp]: "errIs (wrapErr p e) = Some e" "errIs (newErr t) = None"
  by (simp_all add: wrapErr_def newErr_def)

section \<open>Records (store.go)\<close>

type_synonym payload = string

record sess_record =
  rc_SID :: string
  rc_Version :: "64 word"
  rc_UserID :: string
  rc_AbsoluteExpiry :: time
  rc_IdleExpiry :: time
  rc_Payload :: payload

definition zeroRecord :: sess_record where
  "zeroRecord = \<lparr>rc_SID = [], rc_Version = 0, rc_UserID = [], rc_AbsoluteExpiry = zeroTime,
     rc_IdleExpiry = zeroTime, rc_Payload = []\<rparr>"

section \<open>The in-process store (store_memory.go)\<close>

type_synonym sid_set = "(string, unit) gomap"

record sess_mem =
  sm_records :: "(string, sess_record) gomap"
  sm_userIndex :: "(string, sid_set) gomap"

definition sm_NewMemoryStore :: sess_mem where
  "sm_NewMemoryStore = \<lparr>sm_records = [], sm_userIndex = []\<rparr>"

definition sm_expired :: "time \<Rightarrow> sess_record \<Rightarrow> bool" where
  "sm_expired now r \<longleftrightarrow>
     (\<not> isZero (rc_AbsoluteExpiry r) \<and> \<not> now < rc_AbsoluteExpiry r) \<or>
     (\<not> isZero (rc_IdleExpiry r) \<and> \<not> now < rc_IdleExpiry r)"

definition userIndexAddLocked :: "string \<Rightarrow> string \<Rightarrow> (string, sid_set) gomap \<Rightarrow> (string, sid_set) gomap" where
  "userIndexAddLocked u sid idx =
    (let sids = (case map_of idx u of None \<Rightarrow> [] | Some is \<Rightarrow> is) in goput u (goput sid () sids) idx)"

definition userIndexRemoveLocked :: "string \<Rightarrow> string \<Rightarrow> (string, sid_set) gomap \<Rightarrow> (string, sid_set) gomap" where
  "userIndexRemoveLocked u sid idx =
    (case map_of idx u of
       None \<Rightarrow> idx
     | Some sids \<Rightarrow>
         (let sids' = godel sid sids in if length sids' = 0 then godel u idx else goput u sids' idx))"

definition deleteLocked :: "string \<Rightarrow> sess_mem \<Rightarrow> sess_mem" where
  "deleteLocked sid s =
    (case map_of (sm_records s) sid of
       None \<Rightarrow> s
     | Some r \<Rightarrow>
         (let s' = s\<lparr>sm_records := godel sid (sm_records s)\<rparr>
          in if rc_UserID r \<noteq> [] then s'\<lparr>sm_userIndex := userIndexRemoveLocked (rc_UserID r) sid (sm_userIndex s')\<rparr>
             else s'))"

definition sm_Load :: "sess_err option \<Rightarrow> time \<Rightarrow> string \<Rightarrow> sess_mem \<Rightarrow> (sess_err + sess_record) \<times> sess_mem" where
  "sm_Load ctx now sid s =
    (case ctx of
       Some e \<Rightarrow> (Inl e, s)
     | None \<Rightarrow>
         (case map_of (sm_records s) sid of
            None \<Rightarrow> (Inl (wrapErr [] ErrNotFound), s)
          | Some r \<Rightarrow>
              if sm_expired now r then (Inl (wrapErr [] ErrNotFound), deleteLocked sid s)
              else (Inr r, s)))"

definition sm_Save_put :: "sess_record option \<Rightarrow> sess_record \<Rightarrow> sess_mem \<Rightarrow> (sess_err + sess_record) \<times> sess_mem" where
  "sm_Save_put prev r s =
    (let stored = r\<lparr>rc_Version := rc_Version r + 1\<rparr>;
         s1 = s\<lparr>sm_records := goput (rc_SID r) stored (sm_records s)\<rparr>;
         s2 = (case prev of
                 Some p \<Rightarrow>
                   if rc_UserID p \<noteq> [] \<and> rc_UserID p \<noteq> rc_UserID stored
                   then s1\<lparr>sm_userIndex := userIndexRemoveLocked (rc_UserID p) (rc_SID r) (sm_userIndex s1)\<rparr> else s1
               | None \<Rightarrow> s1);
         s3 = (if rc_UserID stored \<noteq> [] \<and> (case prev of None \<Rightarrow> True | Some p \<Rightarrow> rc_UserID p \<noteq> rc_UserID stored)
               then s2\<lparr>sm_userIndex := userIndexAddLocked (rc_UserID stored) (rc_SID r) (sm_userIndex s2)\<rparr> else s2)
     in (Inr stored, s3))"

definition sm_Save :: "sess_err option \<Rightarrow> sess_record \<Rightarrow> sess_mem \<Rightarrow> (sess_err + sess_record) \<times> sess_mem" where
  "sm_Save ctx r s =
    (case ctx of
       Some e \<Rightarrow> (Inl e, s)
     | None \<Rightarrow>
         if rc_SID r = [] then (Inl (newErr ''memorystore: save: empty SID''), s)
         else
           (let prev = map_of (sm_records s) (rc_SID r) in
            case prev of
              Some p \<Rightarrow>
                if rc_Version p \<noteq> rc_Version r then
                  (Inl (wrapErr (''memorystore: loaded='' @ formatInt (uint (rc_Version r)) @ '' stored='' @
                     formatInt (uint (rc_Version p)) @ '': '') ErrVersionConflict), s)
                else sm_Save_put prev r s
            | None \<Rightarrow>
                if rc_Version r \<noteq> 0 then
                  (Inl (wrapErr (''memorystore: loaded='' @ formatInt (uint (rc_Version r)) @
                     '' but no record present: '') ErrVersionConflict), s)
                else sm_Save_put prev r s))"

definition sm_Delete :: "sess_err option \<Rightarrow> string \<Rightarrow> sess_mem \<Rightarrow> sess_err option \<times> sess_mem" where
  "sm_Delete ctx sid s = (case ctx of Some e \<Rightarrow> (Some e, s) | None \<Rightarrow> (None, deleteLocked sid s))"

definition sm_BumpTTL :: "sess_err option \<Rightarrow> time \<Rightarrow> string \<Rightarrow> time \<Rightarrow> sess_mem \<Rightarrow> sess_err option \<times> sess_mem" where
  "sm_BumpTTL ctx now sid until s =
    (case ctx of
       Some e \<Rightarrow> (Some e, s)
     | None \<Rightarrow>
         (case map_of (sm_records s) sid of
            None \<Rightarrow> (Some (wrapErr [] ErrNotFound), s)
          | Some r \<Rightarrow>
              if sm_expired now r then (Some (wrapErr [] ErrNotFound), s)
              else (None, s\<lparr>sm_records := goput sid (r\<lparr>rc_IdleExpiry := until\<rparr>) (sm_records s)\<rparr>)))"

definition sm_ListByUser :: "sess_err option \<Rightarrow> time \<Rightarrow> string \<Rightarrow> sess_mem \<Rightarrow> sess_err + string list" where
  "sm_ListByUser ctx now u s =
    (case ctx of
       Some e \<Rightarrow> Inl e
     | None \<Rightarrow>
         (let sids = (case map_of (sm_userIndex s) u of None \<Rightarrow> [] | Some is \<Rightarrow> is)
          in Inr (filter (\<lambda>sid. case map_of (sm_records s) sid of None \<Rightarrow> False | Some r \<Rightarrow> \<not> sm_expired now r)
               (gokeys sids))))"

fun revoke_loop :: "string list \<Rightarrow> string list \<Rightarrow> nat \<times> sess_mem \<Rightarrow> nat \<times> sess_mem" where
  "revoke_loop keep [] (n, s) = (n, s)"
| "revoke_loop keep (sid # sids) (n, s) =
    (if sid \<in> set keep then revoke_loop keep sids (n, s)
     else revoke_loop keep sids (Suc n, deleteLocked sid s))"

definition sm_RevokeByUser :: "sess_err option \<Rightarrow> string \<Rightarrow> string list \<Rightarrow> sess_mem \<Rightarrow> (sess_err + nat) \<times> sess_mem" where
  "sm_RevokeByUser ctx u except s =
    (case ctx of
       Some e \<Rightarrow> (Inl e, s)
     | None \<Rightarrow>
         (let sids = (case map_of (sm_userIndex s) u of None \<Rightarrow> [] | Some is \<Rightarrow> is);
              (n, s') = revoke_loop except (gokeys sids) (0, s)
          in (Inr n, s')))"

text \<open>\<open>Scan\<close> snapshots the live identifiers and calls \<open>fn\<close> on them, outside the lock, until it
  answers false; the result is the calls made.\<close>

fun scan_calls :: "(string \<Rightarrow> bool) \<Rightarrow> string list \<Rightarrow> string list" where
  "scan_calls fn [] = []"
| "scan_calls fn (sid # sids) = sid # (if fn sid then scan_calls fn sids else [])"

definition sm_Scan :: "sess_err option \<Rightarrow> time \<Rightarrow> (string \<Rightarrow> bool) \<Rightarrow> sess_mem \<Rightarrow> sess_err + string list" where
  "sm_Scan ctx now fn s =
    (case ctx of
       Some e \<Rightarrow> Inl e
     | None \<Rightarrow> Inr (scan_calls fn (map fst (filter (\<lambda>(sid, r). \<not> sm_expired now r) (sm_records s)))))"

definition sm_Sweep :: "sess_err option \<Rightarrow> time \<Rightarrow> sess_mem \<Rightarrow> (sess_err + nat) \<times> sess_mem" where
  "sm_Sweep ctx now s =
    (case ctx of
       Some e \<Rightarrow> (Inl e, s)
     | None \<Rightarrow>
         (let expired = map fst (filter (\<lambda>(sid, r). sm_expired now r) (sm_records s))
          in (Inr (length expired), fold deleteLocked expired s)))"

section \<open>The index agrees with the records\<close>

definition indexed :: "(string, sid_set) gomap \<Rightarrow> string \<Rightarrow> string list" where
  "indexed idx u = (case map_of idx u of None \<Rightarrow> [] | Some sids \<Rightarrow> gokeys sids)"

definition sm_inv :: "sess_mem \<Rightarrow> bool" where
  "sm_inv s \<longleftrightarrow>
     gomap_wf (sm_records s) \<and>
     (\<forall>sid r. map_of (sm_records s) sid = Some r \<longrightarrow> rc_SID r = sid \<and> sid \<noteq> []) \<and>
     (\<forall>u. distinct (indexed (sm_userIndex s) u)) \<and>
     (\<forall>u sid. sid \<in> set (indexed (sm_userIndex s) u) \<longleftrightarrow>
        u \<noteq> [] \<and> (\<exists>r. map_of (sm_records s) sid = Some r \<and> rc_UserID r = u))"

lemma indexed_add:
  "indexed (userIndexAddLocked u sid idx) u' =
    (if u' = u then gokeys (goput sid () (case map_of idx u of None \<Rightarrow> [] | Some is \<Rightarrow> is))
     else indexed idx u')"
  by (simp add: indexed_def userIndexAddLocked_def)

lemma indexed_add_set [simp]:
  "set (indexed (userIndexAddLocked u sid idx) u') =
    (if u' = u then insert sid (set (indexed idx u)) else set (indexed idx u'))"
  unfolding indexed_add by (auto simp: indexed_def dom_update split: option.splits)

lemma indexed_add_distinct [simp]:
  "distinct (indexed idx u') \<Longrightarrow>
   distinct (indexed (userIndexAddLocked u sid idx) u')"
  unfolding indexed_add by (auto simp: indexed_def intro!: gomap_wf_goput split: option.splits)

lemma indexed_remove [simp]:
  "indexed (userIndexRemoveLocked u sid idx) u' =
    (if u' = u then removeAll sid (indexed idx u) else indexed idx u')"
proof (cases "map_of idx u")
  case None
  then show ?thesis by (simp add: indexed_def userIndexRemoveLocked_def)
next
  case (Some sids)
  have "godel sid sids = [] \<Longrightarrow> removeAll sid (gokeys sids) = []"
    using delete_keys [of sid sids] by simp
  then show ?thesis using Some
    by (cases "godel sid sids = []") (simp_all add: indexed_def userIndexRemoveLocked_def Let_def delete_keys)
qed

lemma sm_inv_empty: "sm_inv sm_NewMemoryStore"
  by (simp add: sm_inv_def sm_NewMemoryStore_def indexed_def)

lemma sm_inv_index:
  "sm_inv s \<Longrightarrow> sid \<in> set (indexed (sm_userIndex s) u) \<longleftrightarrow>
     u \<noteq> [] \<and> (\<exists>r. map_of (sm_records s) sid = Some r \<and> rc_UserID r = u)"
  by (simp add: sm_inv_def)

lemma deleteLocked_records [simp]: "map_of (sm_records (deleteLocked sid s)) = (map_of (sm_records s))(sid := None)"
  by (auto simp: deleteLocked_def Let_def split: option.splits)

lemma deleteLocked_indexed:
  assumes "sm_inv s"
  shows "indexed (sm_userIndex (deleteLocked sid s)) u = removeAll sid (indexed (sm_userIndex s) u)"
proof (cases "map_of (sm_records s) sid")
  case None
  then have "sid \<notin> set (indexed (sm_userIndex s) u)" using sm_inv_index [OF assms] by simp
  then show ?thesis using None by (simp add: deleteLocked_def removeAll_id)
next
  case (Some r)
  then have "sid \<notin> set (indexed (sm_userIndex s) u)" if "u \<noteq> rc_UserID r \<or> rc_UserID r = []"
    using sm_inv_index [OF assms] that by auto
  moreover have "indexed (sm_userIndex (deleteLocked sid s)) u =
      (if u = rc_UserID r \<and> u \<noteq> [] then removeAll sid (indexed (sm_userIndex s) u) else indexed (sm_userIndex s) u)"
    using Some by (auto simp: deleteLocked_def Let_def)
  ultimately show ?thesis by (auto simp: removeAll_id)
qed

lemma deleteLocked_wf: "gomap_wf (sm_records s) \<Longrightarrow> gomap_wf (sm_records (deleteLocked sid s))"
  by (auto simp: deleteLocked_def Let_def intro: gomap_wf_godel split: option.splits)

lemma sm_inv_deleteLocked:
  assumes "sm_inv s"
  shows "sm_inv (deleteLocked sid s)"
proof -
  have "gomap_wf (sm_records (deleteLocked sid s))"
    using assms by (auto simp: sm_inv_def intro: deleteLocked_wf)
  moreover have "distinct (indexed (sm_userIndex (deleteLocked sid s)) u)" for u
    using assms by (subst deleteLocked_indexed) (simp_all add: distinct_removeAll sm_inv_def)
  moreover have "x \<in> set (indexed (sm_userIndex (deleteLocked sid s)) u) \<longleftrightarrow>
      u \<noteq> [] \<and> (\<exists>r. map_of (sm_records (deleteLocked sid s)) x = Some r \<and> rc_UserID r = u)" for x u
    using assms by (auto simp: deleteLocked_indexed sm_inv_index)
  moreover have "map_of (sm_records (deleteLocked sid s)) x = Some r \<longrightarrow> rc_SID r = x \<and> x \<noteq> []" for x r
    using assms by (simp add: sm_inv_def)
  ultimately show ?thesis unfolding sm_inv_def by blast
qed

lemma sm_Save_put_records [simp]:
  "sm_records (snd (sm_Save_put prev r s)) =
    goput (rc_SID r) (r\<lparr>rc_Version := rc_Version r + 1\<rparr>) (sm_records s)"
  "fst (sm_Save_put prev r s) = Inr (r\<lparr>rc_Version := rc_Version r + 1\<rparr>)"
  by (auto simp: sm_Save_put_def Let_def split: option.splits)

lemma sm_Save_put_pair:
  "sm_Save_put prev r s = (Inr (r\<lparr>rc_Version := rc_Version r + 1\<rparr>), snd (sm_Save_put prev r s))"
  by (simp add: prod_eq_iff)

lemma sm_Save_put_indexed:
  assumes i: "sm_inv s"
  shows "set (indexed (sm_userIndex (snd (sm_Save_put (map_of (sm_records s) (rc_SID r)) r s))) u) =
      (set (indexed (sm_userIndex s) u) - {rc_SID r}) \<union> (if u = rc_UserID r \<and> u \<noteq> [] then {rc_SID r} else {})"
    "distinct (indexed (sm_userIndex (snd (sm_Save_put (map_of (sm_records s) (rc_SID r)) r s))) u)"
proof -
  let ?p = "map_of (sm_records s) (rc_SID r)"
  let ?s1 = "s\<lparr>sm_records := goput (rc_SID r) (r\<lparr>rc_Version := rc_Version r + 1\<rparr>) (sm_records s)\<rparr>"
  have d: "distinct (indexed (sm_userIndex ?s1) u)" for u using i by (simp add: sm_inv_def)
  have n: "rc_SID r \<in> set (indexed (sm_userIndex s) u) \<longleftrightarrow> u \<noteq> [] \<and> (\<exists>p. ?p = Some p \<and> rc_UserID p = u)" for u
    using i by (rule sm_inv_index)
  show "distinct (indexed (sm_userIndex (snd (sm_Save_put ?p r s))) u)"
    using d by (auto simp: sm_Save_put_def Let_def distinct_removeAll split: option.splits)
  show "set (indexed (sm_userIndex (snd (sm_Save_put ?p r s))) u) =
      (set (indexed (sm_userIndex s) u) - {rc_SID r}) \<union> (if u = rc_UserID r \<and> u \<noteq> [] then {rc_SID r} else {})"
  proof (cases ?p)
    case None
    then show ?thesis using n [of u] by (auto simp: sm_Save_put_def Let_def)
  next
    case (Some p)
    then have "rc_SID r \<in> set (indexed (sm_userIndex s) u) \<longleftrightarrow> u \<noteq> [] \<and> rc_UserID p = u"
      using n [of u] by simp
    then show ?thesis using Some by (auto simp: sm_Save_put_def Let_def)
  qed
qed

lemma sm_inv_put:
  assumes i: "sm_inv s" and n: "rc_SID r \<noteq> []"
  shows "sm_inv (snd (sm_Save_put (map_of (sm_records s) (rc_SID r)) r s))"
proof -
  let ?s = "snd (sm_Save_put (map_of (sm_records s) (rc_SID r)) r s)"
  have "gomap_wf (sm_records ?s)"
    using i by (simp add: sm_inv_def gomap_wf_goput)
  moreover have "x \<in> set (indexed (sm_userIndex ?s) u) \<longleftrightarrow>
      u \<noteq> [] \<and> (\<exists>r. map_of (sm_records ?s) x = Some r \<and> rc_UserID r = u)" for x u
    using i by (auto simp: sm_Save_put_indexed sm_inv_index)
  moreover have "map_of (sm_records ?s) x = Some q \<longrightarrow> rc_SID q = x \<and> x \<noteq> []" for x q
    using i n by (auto simp: sm_inv_def)
  moreover have "distinct (indexed (sm_userIndex ?s) u)" for u
    using i by (rule sm_Save_put_indexed(2))
  ultimately show ?thesis unfolding sm_inv_def by blast
qed

section \<open>What the operations do to the records\<close>

definition save_allowed :: "sess_record \<Rightarrow> sess_mem \<Rightarrow> bool" where
  "save_allowed r s \<longleftrightarrow> rc_SID r \<noteq> [] \<and>
     (case map_of (sm_records s) (rc_SID r) of Some p \<Rightarrow> rc_Version p = rc_Version r | None \<Rightarrow> rc_Version r = 0)"

lemma sm_Save_allowed:
  "save_allowed r s \<Longrightarrow> sm_Save None r s = sm_Save_put (map_of (sm_records s) (rc_SID r)) r s"
  by (auto simp: sm_Save_def save_allowed_def Let_def split: option.splits)

lemma sm_Save_refused:
  "\<not> save_allowed r s \<Longrightarrow> \<exists>e. sm_Save None r s = (Inl e, s) \<and> (rc_SID r \<noteq> [] \<longrightarrow> errIs e = Some ErrVersionConflict)"
  by (auto simp: sm_Save_def save_allowed_def Let_def split: option.splits)

lemma sm_Save_cases:
  obtains (stored) "ctx = None" "save_allowed r s"
      "sm_Save ctx r s = sm_Save_put (map_of (sm_records s) (rc_SID r)) r s"
  | (refused) e where "sm_Save ctx r s = (Inl e, s)"
proof (cases ctx)
  case None
  then show ?thesis using that sm_Save_allowed sm_Save_refused by metis
next
  case (Some e)
  then show ?thesis using that(2) [of e] by (simp add: sm_Save_def)
qed

lemma fold_deleteLocked_records:
  "map_of (sm_records (fold deleteLocked sids s)) = (map_of (sm_records s)) |` (- set sids)"
  by (induction sids arbitrary: s) (auto simp: restrict_map_def)

lemma fold_deleteLocked_inv: "sm_inv s \<Longrightarrow> sm_inv (fold deleteLocked sids s)"
  by (induction sids arbitrary: s) (simp_all add: sm_inv_deleteLocked)

lemma revoke_loop_eq:
  "revoke_loop keep sids (n, s) =
    (n + length (filter (\<lambda>x. x \<notin> set keep) sids), fold deleteLocked (filter (\<lambda>x. x \<notin> set keep) sids) s)"
  by (induction keep sids "(n, s)" arbitrary: n s rule: revoke_loop.induct) simp_all

lemma sm_RevokeByUser_eq:
  "sm_RevokeByUser None u except s =
    (let gone = filter (\<lambda>x. x \<notin> set except) (indexed (sm_userIndex s) u)
     in (Inr (length gone), fold deleteLocked gone s))"
  by (auto simp: sm_RevokeByUser_def revoke_loop_eq indexed_def Let_def split: option.splits)

section \<open>Runs of the store\<close>

datatype sm_op = SLoad string | SSave sess_record | SDelete string | SBumpTTL string time
  | SRevoke string "string list" | SSweep

type_synonym sm_call = "sess_err option \<times> time \<times> sm_op"

fun sm_call :: "sm_call \<Rightarrow> sess_mem \<Rightarrow> sess_mem" where
  "sm_call (ctx, now, SLoad sid) s = snd (sm_Load ctx now sid s)"
| "sm_call (ctx, now, SSave r) s = snd (sm_Save ctx r s)"
| "sm_call (ctx, now, SDelete sid) s = snd (sm_Delete ctx sid s)"
| "sm_call (ctx, now, SBumpTTL sid until) s = snd (sm_BumpTTL ctx now sid until s)"
| "sm_call (ctx, now, SRevoke u except) s = snd (sm_RevokeByUser ctx u except s)"
| "sm_call (ctx, now, SSweep) s = snd (sm_Sweep ctx now s)"

abbreviation sm_run :: "sm_call list \<Rightarrow> sess_mem \<Rightarrow> sess_mem" where
  "sm_run \<equiv> fold sm_call"

text \<open>Every call either stores one record, moves the idle deadline of one record, or removes records.\<close>

lemma sm_call_cases:
  obtains (put) r where "save_allowed r s" "snd (snd c) = SSave r"
      "sm_call c s = snd (sm_Save_put (map_of (sm_records s) (rc_SID r)) r s)"
  | (bump) sid r until where "map_of (sm_records s) sid = Some r"
      "sm_call c s = s\<lparr>sm_records := goput sid (r\<lparr>rc_IdleExpiry := until\<rparr>) (sm_records s)\<rparr>"
  | (drop) sids where "sm_call c s = fold deleteLocked sids s"
proof -
  obtain ctx now op where c: "c = (ctx, now, op)" by (cases c) auto
  have keep: ?thesis if "sm_call c s = s" using drop [of "[]"] that by simp
  show ?thesis
  proof (cases ctx)
    case (Some e)
    then have "sm_call c s = s"
      by (cases op) (simp_all add: c sm_Load_def sm_Save_def sm_Delete_def sm_BumpTTL_def sm_RevokeByUser_def sm_Sweep_def)
    then show ?thesis by (rule keep)
  next
    case None
    show ?thesis
    proof (cases op)
      case (SLoad sid)
      then have "sm_call c s = s \<or> sm_call c s = fold deleteLocked [sid] s"
        by (auto simp: c None sm_Load_def split: option.splits)
      then show ?thesis using keep drop by blast
    next
      case (SSave r)
      then show ?thesis using put [of r] keep by (cases rule: sm_Save_cases [of ctx r s]) (simp_all add: c)
    next
      case (SDelete sid)
      then show ?thesis using drop [of "[sid]"] by (simp add: c None sm_Delete_def)
    next
      case (SBumpTTL sid until)
      then have "sm_call c s = s \<or> (\<exists>r. map_of (sm_records s) sid = Some r \<and>
          sm_call c s = s\<lparr>sm_records := goput sid (r\<lparr>rc_IdleExpiry := until\<rparr>) (sm_records s)\<rparr>)"
        by (auto simp: c None sm_BumpTTL_def split: option.splits)
      then show ?thesis using keep bump by blast
    next
      case (SRevoke u except)
      then show ?thesis using drop by (simp add: c None sm_RevokeByUser_eq Let_def)
    next
      case SSweep
      then show ?thesis using drop by (simp add: c None sm_Sweep_def Let_def)
    qed
  qed
qed

lemma sm_inv_call: "sm_inv s \<Longrightarrow> sm_inv (sm_call c s)"
proof (cases rule: sm_call_cases [of s c])
  case (put r)
  then show "sm_inv s \<Longrightarrow> ?thesis" by (simp add: sm_inv_put save_allowed_def)
next
  case (bump sid r until)
  then show "sm_inv s \<Longrightarrow> ?thesis" by (auto simp: sm_inv_def gomap_wf_goput simp del: map_of_eq_Some_iff)
next
  case (drop sids)
  then show "sm_inv s \<Longrightarrow> ?thesis" by (simp add: fold_deleteLocked_inv)
qed

lemma sm_inv_run: "sm_inv s \<Longrightarrow> sm_inv (sm_run cs s)"
  by (induction cs arbitrary: s) (simp_all add: sm_inv_call)

section \<open>Versions\<close>

text \<open>A stored version is at least one and at most the number of calls made, so it never wraps
  within \<open>2 ^ 64\<close> calls.\<close>

definition versions_upto :: "nat \<Rightarrow> sess_mem \<Rightarrow> bool" where
  "versions_upto n s \<longleftrightarrow> (\<forall>sid r. map_of (sm_records s) sid = Some r \<longrightarrow>
     0 < unat (rc_Version r) \<and> unat (rc_Version r) \<le> n)"

lemma unat_Suc64: "unat (v :: 64 word) < 2 ^ 64 - 1 \<Longrightarrow> unat (v + 1) = Suc (unat v)"
proof -
  assume "unat v < 2 ^ 64 - 1"
  then have "(unat v + unat (1 :: 64 word)) mod 2 ^ LENGTH(64) = Suc (unat v)" by simp
  then show ?thesis by (simp only: unat_word_ariths)
qed

lemma save_allowed_version:
  "save_allowed r s \<Longrightarrow> versions_upto n s \<Longrightarrow> unat (rc_Version r) \<le> n"
  by (auto simp: save_allowed_def versions_upto_def split: option.splits) metis

lemma versions_upto_call:
  assumes v: "versions_upto n s" and n: "n < 2 ^ 64 - 1"
  shows "versions_upto (Suc n) (sm_call c s)"
proof (cases rule: sm_call_cases [of s c])
  case (put r)
  have "unat (rc_Version r) \<le> n" using put(1) v by (rule save_allowed_version)
  then have "unat (rc_Version r + 1) = Suc (unat (rc_Version r))" using n unat_Suc64 [of "rc_Version r"] by simp
  with put \<open>unat (rc_Version r) \<le> n\<close> v show ?thesis by (auto simp: versions_upto_def le_SucI)
next
  case (bump sid r until)
  with v show ?thesis by (auto simp: versions_upto_def le_SucI)
next
  case (drop sids)
  with v show ?thesis by (auto simp: versions_upto_def fold_deleteLocked_records restrict_map_def le_SucI)
qed

lemma versions_upto_run:
  "versions_upto n s \<Longrightarrow> n + length cs < 2 ^ 64 \<Longrightarrow> versions_upto (n + length cs) (sm_run cs s)"
proof (induction cs arbitrary: n s)
  case (Cons c cs)
  then have "versions_upto (Suc n) (sm_call c s)" by (simp add: versions_upto_call)
  with Cons.IH [of "Suc n" "sm_call c s"] Cons.prems show ?case by simp
qed simp

section \<open>Compare-and-swap\<close>

text \<open>A call that inserts: \<open>Save\<close> with version zero. Nothing else creates a record.\<close>

fun inserts :: "string \<Rightarrow> sm_call \<Rightarrow> bool" where
  "inserts sid (ctx, now, SSave r) \<longleftrightarrow> rc_SID r = sid \<and> rc_Version r = 0"
| "inserts sid _ \<longleftrightarrow> False"

text \<open>What a holder of the record \<open>r\<close> may assume of the store: the record under its identifier is
  gone, or has moved to a later version, or is still the one it holds, the idle deadline apart.\<close>

definition overtaken_or_same :: "sess_record \<Rightarrow> sess_mem \<Rightarrow> bool" where
  "overtaken_or_same r s \<longleftrightarrow>
    (case map_of (sm_records s) (rc_SID r) of
       None \<Rightarrow> True
     | Some q \<Rightarrow> unat (rc_Version r) < unat (rc_Version q) \<or> q = r\<lparr>rc_IdleExpiry := rc_IdleExpiry q\<rparr>)"

lemma inserts_put: "snd (snd c) = SSave r \<Longrightarrow> \<not> inserts (rc_SID r) c \<Longrightarrow> rc_Version r \<noteq> 0"
  by (cases c) auto

lemma overtaken_call:
  assumes o: "overtaken_or_same r s" and v: "versions_upto n s" "n < 2 ^ 64 - 1"
    and i: "\<not> inserts (rc_SID r) c"
  shows "overtaken_or_same r (sm_call c s)"
proof (cases rule: sm_call_cases [of s c])
  case (put q)
  show ?thesis
  proof (cases "rc_SID q = rc_SID r")
    case True
    then have "rc_Version q \<noteq> 0" using inserts_put [OF put(2)] i by simp
    then obtain p where p: "map_of (sm_records s) (rc_SID r) = Some p" "rc_Version p = rc_Version q"
      using put(1) True by (auto simp: save_allowed_def split: option.splits)
    have "unat (rc_Version q) < 2 ^ 64 - 1" using save_allowed_version [OF put(1) v(1)] v(2) by simp
    then have "unat (rc_Version q + 1) = Suc (unat (rc_Version q))" by (rule unat_Suc64)
    moreover have "unat (rc_Version r) \<le> unat (rc_Version p)"
      using o p by (auto simp: overtaken_or_same_def) (metis le_refl sess_record.ext_inject sess_record.surjective sess_record.update_convs(5))
    ultimately show ?thesis using p put(3) True by (simp add: overtaken_or_same_def)
  next
    case False
    then show ?thesis using o put(3) by (simp add: overtaken_or_same_def)
  qed
next
  case (bump sid q until)
  then show ?thesis using o by (cases q, cases r) (auto simp: overtaken_or_same_def)
next
  case (drop sids)
  then show ?thesis using o
    by (auto simp: overtaken_or_same_def fold_deleteLocked_records restrict_map_def split: option.splits)
qed

lemma overtaken_run:
  "overtaken_or_same r s \<Longrightarrow> versions_upto n s \<Longrightarrow> n + length cs < 2 ^ 64 \<Longrightarrow>
   list_all (\<lambda>c. \<not> inserts (rc_SID r) c) cs \<Longrightarrow> overtaken_or_same r (sm_run cs s)"
proof (induction cs arbitrary: n s)
  case (Cons c cs)
  then have "versions_upto (Suc n) (sm_call c s)" "overtaken_or_same r (sm_call c s)"
    by (simp_all add: versions_upto_call overtaken_call [where n = n])
  with Cons.IH [of "sm_call c s" "Suc n"] Cons.prems show ?case by simp
qed simp

lemma absent_call:
  assumes "map_of (sm_records s) sid = None" "\<not> inserts sid c"
  shows "map_of (sm_records (sm_call c s)) sid = None"
proof (cases rule: sm_call_cases [of s c])
  case (put r)
  then have "rc_SID r \<noteq> sid" using assms inserts_put [of c r] by (auto simp: save_allowed_def)
  then show ?thesis using assms put by (simp del: map_of_eq_None_iff)
next
  case (bump sid' r until)
  then show ?thesis using assms by (auto simp del: map_of_eq_None_iff)
next
  case (drop sids)
  then show ?thesis using assms by (simp add: fold_deleteLocked_records restrict_map_def del: map_of_eq_None_iff)
qed

lemma absent_run:
  "map_of (sm_records s) sid = None \<Longrightarrow> list_all (\<lambda>c. \<not> inserts sid c) cs \<Longrightarrow>
   map_of (sm_records (sm_run cs s)) sid = None"
  by (induction cs arbitrary: s) (simp_all add: absent_call del: map_of_eq_None_iff)

section \<open>The contract of a session store\<close>

text \<open>
  What the manager relies on (\<open>store.go\<close>): a record can be read back until it is deleted or
  expires; a write with the version that was read succeeds only while the record is still the one
  that was read; deleting twice is deleting once. The laws are stated over \<open>recs\<close>, the records a
  store holds.
\<close>

locale session_store =
  fixes recs :: "'s \<Rightarrow> string \<Rightarrow> sess_record option"
    and ok :: "'s \<Rightarrow> bool"
    and load :: "time \<Rightarrow> string \<Rightarrow> 's \<Rightarrow> (sess_err + sess_record) \<times> 's"
    and save :: "sess_record \<Rightarrow> 's \<Rightarrow> (sess_err + sess_record) \<times> 's"
    and delete :: "string \<Rightarrow> 's \<Rightarrow> sess_err option \<times> 's"
  assumes load_hit: "ok s \<Longrightarrow> recs s sid = Some r \<Longrightarrow> \<not> sm_expired now r \<Longrightarrow> load now sid s = (Inr r, s)"
    and load_miss: "ok s \<Longrightarrow> (\<And>r. recs s sid = Some r \<Longrightarrow> sm_expired now r) \<Longrightarrow>
      \<exists>e s'. load now sid s = (Inl e, s') \<and> errIs e = Some ErrNotFound"
    and save_done: "ok s \<Longrightarrow> save r s = (Inr q, s') \<Longrightarrow>
      ok s' \<and> q = r\<lparr>rc_Version := rc_Version r + 1\<rparr> \<and> recs s' = (recs s)(rc_SID r \<mapsto> q) \<and>
      (case recs s (rc_SID r) of None \<Rightarrow> rc_Version r = 0 | Some p \<Rightarrow> rc_Version p = rc_Version r)"
    and save_free: "ok s \<Longrightarrow> rc_SID r \<noteq> [] \<Longrightarrow> rc_Version r = 0 \<Longrightarrow> recs s (rc_SID r) = None \<Longrightarrow>
      \<exists>q s'. save r s = (Inr q, s')"
    and save_current: "ok s \<Longrightarrow> recs s (rc_SID r) = Some p \<Longrightarrow> rc_Version p = rc_Version r \<Longrightarrow>
      \<exists>q s'. save r s = (Inr q, s')"
    and delete_done: "ok s \<Longrightarrow> \<exists>s'. delete sid s = (None, s') \<and> ok s' \<and> recs s' = (recs s)(sid := None)"
begin

text \<open>A record that was saved is read back as \<open>Save\<close> returned it, until it expires.\<close>

lemma load_after_save:
  assumes "ok s" "save r s = (Inr q, s')" "\<not> sm_expired now q"
  shows "load now (rc_SID r) s' = (Inr q, s')"
  using save_done [OF assms(1,2)] assms(3) by (intro load_hit) auto

text \<open>Two writers that read the same version: the first write makes the second one fail.\<close>

lemma second_save_fails:
  assumes "ok s" "save r s = (Inr q, s')" "rc_SID r2 = rc_SID r" "rc_Version r2 = rc_Version r"
  shows "\<nexists>q2 s2. save r2 s' = (Inr q2, s2)"
proof
  assume "\<exists>q2 s2. save r2 s' = (Inr q2, s2)"
  then obtain q2 s2 where "save r2 s' = (Inr q2, s2)" by blast
  moreover have d: "ok s'" "recs s' (rc_SID r2) = Some q" "rc_Version q = rc_Version r2 + 1"
    using save_done [OF assms(1,2)] assms(3,4) by auto
  ultimately have "rc_Version q = rc_Version r2" using save_done [of s' r2 q2 s2] by simp
  with d(3) show False by simp
qed

text \<open>After a delete, the holder of a version cannot write the record back.\<close>

lemma save_after_delete_fails:
  assumes "ok s" "delete sid s = (e, s')" "rc_SID r = sid" "rc_Version r \<noteq> 0"
  shows "\<nexists>q s2. save r s' = (Inr q, s2)"
proof
  assume "\<exists>q s2. save r s' = (Inr q, s2)"
  then obtain q s2 where w: "save r s' = (Inr q, s2)" by blast
  from delete_done [OF assms(1), of sid] assms(2) have "ok s'" "recs s' sid = None" by auto
  with save_done [OF _ w] assms(3,4) show False by simp
qed

lemma load_after_delete:
  assumes "ok s" "delete sid s = (e, s')"
  shows "\<exists>e2 s2. load now sid s' = (Inl e2, s2) \<and> errIs e2 = Some ErrNotFound"
  using delete_done [OF assms(1), of sid] assms(2) by (intro load_miss) auto

end

interpretation sm: session_store
  "\<lambda>s. map_of (sm_records s)" "\<lambda>s. sm_inv s" "sm_Load None" "sm_Save None" "sm_Delete None"
proof
  fix s :: sess_mem and sid and r :: sess_record and now
  show "map_of (sm_records s) sid = Some r \<Longrightarrow> \<not> sm_expired now r \<Longrightarrow> sm_Load None now sid s = (Inr r, s)"
    by (simp add: sm_Load_def del: map_of_eq_Some_iff)
next
  fix s :: sess_mem and sid now
  assume "\<And>r. map_of (sm_records s) sid = Some r \<Longrightarrow> sm_expired now r"
  then show "\<exists>e s'. sm_Load None now sid s = (Inl e, s') \<and> errIs e = Some ErrNotFound"
    by (cases "map_of (sm_records s) sid") (simp_all add: sm_Load_def)
next
  fix s s' :: sess_mem and r q :: sess_record
  assume i: "sm_inv s" and w: "sm_Save None r s = (Inr q, s')"
  show "sm_inv s' \<and> q = r\<lparr>rc_Version := rc_Version r + 1\<rparr> \<and>
      map_of (sm_records s') = (map_of (sm_records s))(rc_SID r \<mapsto> q) \<and>
      (case map_of (sm_records s) (rc_SID r) of None \<Rightarrow> rc_Version r = 0 | Some p \<Rightarrow> rc_Version p = rc_Version r)"
  proof (cases rule: sm_Save_cases [of None r s])
    case stored
    let ?put = "sm_Save_put (map_of (sm_records s) (rc_SID r)) r s"
    have e: "?put = (Inr q, s')" using stored(3) w by simp
    have "sm_inv (snd ?put)" using i stored(2) by (auto simp: save_allowed_def intro: sm_inv_put)
    then show ?thesis
      using sm_Save_put_records [of "map_of (sm_records s) (rc_SID r)" r s] stored(2)
      unfolding e by (simp add: save_allowed_def)
  next
    case (refused e)
    with w show ?thesis by simp
  qed
next
  fix s :: sess_mem and r :: sess_record
  assume "rc_SID r \<noteq> []" "rc_Version r = 0" "map_of (sm_records s) (rc_SID r) = None"
  then have "save_allowed r s" by (simp add: save_allowed_def)
  then show "\<exists>q s'. sm_Save None r s = (Inr q, s')"
    by (simp add: sm_Save_allowed) (metis sm_Save_put_pair)
next
  fix s :: sess_mem and r p :: sess_record
  assume "sm_inv s" "map_of (sm_records s) (rc_SID r) = Some p" "rc_Version p = rc_Version r"
  then have "save_allowed r s" by (auto simp: save_allowed_def sm_inv_def)
  then show "\<exists>q s'. sm_Save None r s = (Inr q, s')"
    by (simp add: sm_Save_allowed) (metis sm_Save_put_pair)
next
  fix s :: sess_mem and sid
  assume "sm_inv s"
  then show "\<exists>s'. sm_Delete None sid s = (None, s') \<and> sm_inv s' \<and>
      map_of (sm_records s') = (map_of (sm_records s))(sid := None)"
    by (simp add: sm_Delete_def sm_inv_deleteLocked)
qed

section \<open>Properties\<close>

lemma run_inv: "sm_inv (sm_run cs sm_NewMemoryStore)"
  by (simp add: sm_inv_run sm_inv_empty)

text \<open>C8: a revoked session stays revoked. Once a session identifier has been deleted, whatever
  calls run afterwards, as long as none of them mints that identifier anew, it cannot be loaded, no
  write based on an earlier read brings it back (it fails with a version conflict and changes
  nothing), its idle deadline cannot be extended, and its user no longer lists it.\<close>

theorem sess_revoked_stays_revoked:
  assumes "list_all (\<lambda>c. \<not> inserts sid c) after"
    and "s = sm_run after (snd (sm_Delete None sid (sm_run before sm_NewMemoryStore)))"
    and "rc_SID r = sid" "rc_Version r \<noteq> 0" "sid \<noteq> []"
    and "sm_ListByUser None now u s = Inr sids"
  shows "(\<exists>e s'. sm_Load None now sid s = (Inl e, s') \<and> errIs e = Some ErrNotFound) \<and>
    (\<exists>e. sm_Save None r s = (Inl e, s) \<and> errIs e = Some ErrVersionConflict) \<and>
    (\<exists>e. sm_BumpTTL None now sid until s = (Some e, s) \<and> errIs e = Some ErrNotFound) \<and>
    sid \<notin> set sids"
proof (intro conjI)
  have gone: "map_of (sm_records s) sid = None"
    unfolding assms(2) by (rule absent_run [OF _ assms(1)]) (simp add: sm_Delete_def)
  have inv: "sm_inv s"
    unfolding assms(2) by (intro sm_inv_run) (simp add: sm_Delete_def sm_inv_deleteLocked run_inv)
  show "\<exists>e s'. sm_Load None now sid s = (Inl e, s') \<and> errIs e = Some ErrNotFound"
    using gone by (intro sm.load_miss [OF inv]) simp
  show "\<exists>e. sm_BumpTTL None now sid until s = (Some e, s) \<and> errIs e = Some ErrNotFound"
    using gone by (simp add: sm_BumpTTL_def del: map_of_eq_None_iff)
  show "sid \<notin> set sids"
    using gone assms(6) by (auto simp: sm_ListByUser_def Let_def simp del: map_of_eq_None_iff)
  show "\<exists>e. sm_Save None r s = (Inl e, s) \<and> errIs e = Some ErrVersionConflict"
    using gone assms(3-5) sm_Save_refused [of r s] by (auto simp: save_allowed_def simp del: map_of_eq_None_iff)
qed

text \<open>A login, its revocation, and the write of a request that had loaded it before.\<close>

definition demo_rec :: sess_record where
  "demo_rec = \<lparr>rc_SID = ''s1'', rc_Version = 0, rc_UserID = ''ann'', rc_AbsoluteExpiry = 100,
     rc_IdleExpiry = 50, rc_Payload = ''{}''\<rparr>"

lemma sess_revoked_stays_revoked_witness:
  "\<exists>e. sm_Save None (demo_rec\<lparr>rc_Version := 1\<rparr>) (sm_run [(None, 5, SSweep)] (snd (sm_Delete None ''s1''
     (sm_run [(None, 1, SSave demo_rec)] sm_NewMemoryStore)))) = (Inl e, sm_run [(None, 5, SSweep)]
       (snd (sm_Delete None ''s1'' (sm_run [(None, 1, SSave demo_rec)] sm_NewMemoryStore)))) \<and>
     errIs e = Some ErrVersionConflict"
proof -
  let ?s = "sm_run [(None, 5, SSweep)] (snd (sm_Delete None ''s1'' (sm_run [(None, 1, SSave demo_rec)] sm_NewMemoryStore)))"
  have "list_all (\<lambda>c. \<not> inserts ''s1'' c) [(None, 5, SSweep)]" by simp
  moreover have "rc_SID (demo_rec\<lparr>rc_Version := 1\<rparr>) = ''s1''" "rc_Version (demo_rec\<lparr>rc_Version := 1\<rparr>) \<noteq> 0"
    by (simp_all add: demo_rec_def)
  moreover have "sm_ListByUser None 6 ''ann'' ?s = Inr []" by code_simp
  ultimately show ?thesis
    using sess_revoked_stays_revoked [where s = ?s and r = "demo_rec\<lparr>rc_Version := 1\<rparr>"] by blast
qed

text \<open>The user index is exact.\<close>

lemma ListByUser_indexed:
  "sm_ListByUser None now u s = Inr (filter (\<lambda>sid. case map_of (sm_records s) sid of None \<Rightarrow> False
    | Some r \<Rightarrow> \<not> sm_expired now r) (indexed (sm_userIndex s) u))"
  by (auto simp: sm_ListByUser_def indexed_def Let_def split: option.splits)

definition users_sessions :: "(sess_record \<Rightarrow> bool) \<Rightarrow> string \<Rightarrow> sess_mem \<Rightarrow> string set" where
  "users_sessions P u s = {sid. \<exists>r. map_of (sm_records s) sid = Some r \<and> rc_UserID r = u \<and> P r}"

lemma indexed_users_sessions:
  "sm_inv s \<Longrightarrow> u \<noteq> [] \<Longrightarrow> set (indexed (sm_userIndex s) u) = users_sessions (\<lambda>r. True) u s"
  by (auto simp: users_sessions_def sm_inv_index)

text \<open>after any sequence of calls, \<open>ListByUser\<close> returns exactly the live sessions of the user,
  each once, and \<open>RevokeByUser\<close> deletes exactly the sessions of the user, expired ones included,
  other than those excepted, touches no other session, and returns how many it deleted.\<close>

theorem sess_user_index_exact:
  assumes "s = sm_run cs sm_NewMemoryStore" "u \<noteq> []"
  shows "(\<exists>sids. sm_ListByUser None now u s = Inr sids \<and> distinct sids \<and>
      set sids = users_sessions (\<lambda>r. \<not> sm_expired now r) u s) \<and>
    (\<exists>n s'. sm_RevokeByUser None u except s = (Inr n, s') \<and>
      n = card (users_sessions (\<lambda>r. True) u s - set except) \<and>
      map_of (sm_records s') = map_of (sm_records s) |` (- (users_sessions (\<lambda>r. True) u s - set except)))"
proof (rule conjI)
  have inv: "sm_inv s" unfolding assms(1) by (rule run_inv)
  then have d: "distinct (indexed (sm_userIndex s) u)" by (simp add: sm_inv_def)
  show "\<exists>sids. sm_ListByUser None now u s = Inr sids \<and> distinct sids \<and>
      set sids = users_sessions (\<lambda>r. \<not> sm_expired now r) u s"
    unfolding ListByUser_indexed using d indexed_users_sessions [OF inv assms(2)]
    by (auto simp: users_sessions_def split: option.splits)
  let ?gone = "filter (\<lambda>x. x \<notin> set except) (indexed (sm_userIndex s) u)"
  have g: "set ?gone = users_sessions (\<lambda>r. True) u s - set except"
    using indexed_users_sessions [OF inv assms(2)] by auto
  then have "length ?gone = card (users_sessions (\<lambda>r. True) u s - set except)"
    using distinct_card [of ?gone] d by simp
  then show "\<exists>n s'. sm_RevokeByUser None u except s = (Inr n, s') \<and>
      n = card (users_sessions (\<lambda>r. True) u s - set except) \<and>
      map_of (sm_records s') = map_of (sm_records s) |` (- (users_sessions (\<lambda>r. True) u s - set except))"
    unfolding sm_RevokeByUser_eq Let_def using fold_deleteLocked_records [of ?gone s] g by simp
qed

lemma sess_user_index_exact_witness:
  "\<exists>sids. sm_ListByUser None 2 ''ann'' (sm_run [(None, 1, SSave demo_rec)] sm_NewMemoryStore) = Inr sids \<and>
     distinct sids"
  using sess_user_index_exact [where u = "''ann''" and now = 2, OF refl] by blast

end
