(* ===== verification/SessionToken.thy ===== *)
theory SessionToken
  imports SessionStore "HOL-Library.Sublist"
begin

text \<open>
  Package \<open>session\<close>, what travels: the session identifier (\<open>sid.go\<close>), the token transports
  (\<open>cookie.go\<close>, \<open>bearer.go\<close>) and the redaction of identifiers in error text (\<open>commit.go\<close>).

  \<^item> \<open>rand.Read\<close> is the argument: its 32 bytes or its error.
  \<^item> A request is its parsed cookies and its header fields under their canonical names; a response
    is the cookies set and the header fields written. Header values are ASCII.
  \<^item> \<open>int(d.Seconds())\<close> goes through a floating point number; it is the argument \<open>secs\<close>, and
    \<open>time.Now()\<close> the argument \<open>wall\<close>.
\<close>

section \<open>Session identifiers (sid.go)\<close>

definition sidByteLen :: nat where
  "sidByteLen = 32"

definition generateSID :: "sess_err + string \<Rightarrow> sess_err + string" where
  "generateSID rnd = (case rnd of Inl e \<Rightarrow> Inl e | Inr buf \<Rightarrow> Inr (b64_encode buf))"

section \<open>Redaction (commit.go)\<close>

definition sidPlaceholder :: string where
  "sidPlaceholder = ''[redacted]''"

text \<open>\<open>strings.ReplaceAll\<close> for a nonempty pattern: leftmost matches that do not overlap.\<close>

function replaceAll :: "string \<Rightarrow> string \<Rightarrow> string \<Rightarrow> string" where
  "replaceAll old new s =
    (if old = [] \<or> s = [] then s
     else if prefix old s then new @ replaceAll old new (drop (length old) s)
     else hd s # replaceAll old new (tl s))"
  by pat_completeness auto
termination by (relation "measure (\<lambda>(old, new, s). length s)") (auto simp: diff_less)

declare replaceAll.simps [simp del]

definition redactSIDs :: "sess_err \<Rightarrow> string list \<Rightarrow> sess_err" where
  "redactSIDs err sids =
    (let redacted = fold (\<lambda>sid t. if sid = [] then t else replaceAll sid sidPlaceholder t) sids (errText err)
     in if redacted = errText err then err else SErr (errIs err) redacted)"

section \<open>Requests and responses\<close>

record http_req =
  rq_cookies :: "(string \<times> string) list"
  rq_header :: "(string, string list) gomap"

datatype same_site = SameSiteUnset | SameSiteDefault | SameSiteLax | SameSiteStrict | SameSiteNone

record http_cookie =
  hc_Name :: string
  hc_Value :: string
  hc_Path :: string
  hc_Domain :: string
  hc_Secure :: bool
  hc_HttpOnly :: bool
  hc_SameSite :: same_site
  hc_Expires :: time
  hc_MaxAge :: int

record http_resp =
  rp_cookies :: "http_cookie list"
  rp_header :: "(string, string) gomap"

definition lowerASCII :: "char \<Rightarrow> char" where
  "lowerASCII c = (if CHR ''A'' \<le> c \<and> c \<le> CHR ''Z'' then char_of (of_char c + (32 :: nat)) else c)"

definition upperASCII :: "char \<Rightarrow> char" where
  "upperASCII c = (if CHR ''a'' \<le> c \<and> c \<le> CHR ''z'' then char_of (of_char c - (32 :: nat)) else c)"

text \<open>\<open>textproto.CanonicalMIMEHeaderKey\<close>, which \<open>Header.Get\<close> and \<open>Header.Set\<close> apply to the name: the
  first letter and every letter after a hyphen upper case, the others lower case, unless a byte
  cannot stand in a header name.\<close>

definition headerByte :: "char \<Rightarrow> bool" where
  "headerByte c \<longleftrightarrow> CHR ''A'' \<le> c \<and> c \<le> CHR ''Z'' \<or> CHR ''a'' \<le> c \<and> c \<le> CHR ''z'' \<or>
     CHR ''0'' \<le> c \<and> c \<le> CHR ''9'' \<or> c \<in> set ''!#$%&*+-.^_|~'' \<or> c = CHR 0x27 \<or> c = CHR 0x60"

fun canonBytes :: "bool \<Rightarrow> string \<Rightarrow> string" where
  "canonBytes up [] = []"
| "canonBytes up (c # cs) = (if up then upperASCII c else lowerASCII c) # canonBytes (c = CHR ''-'') cs"

definition canonicalKey :: "string \<Rightarrow> string" where
  "canonicalKey k = (if list_all headerByte k then canonBytes True k else k)"

definition headerGet :: "http_req \<Rightarrow> string \<Rightarrow> string" where
  "headerGet r k = (case map_of (rq_header r) (canonicalKey k) of Some (v # vs) \<Rightarrow> v | _ \<Rightarrow> [])"

record token_write_options =
  tw_Expiry :: time
  tw_Now :: time

section \<open>Cookies (cookie.go)\<close>

record cookie =
  ck_Name :: string
  ck_Path :: string
  ck_Domain :: string
  ck_Secure :: bool
  ck_HttpOnly :: bool
  ck_SameSite :: same_site

definition defaultCookieName :: string where
  "defaultCookieName = ''sid''"

definition ck_name :: "cookie \<Rightarrow> string" where
  "ck_name c = (if ck_Name c = [] then defaultCookieName else ck_Name c)"

definition cookiePath :: "cookie \<Rightarrow> string" where
  "cookiePath c = (if ck_Path c = [] then ''/'' else ck_Path c)"

definition ck_Read :: "cookie \<Rightarrow> http_req \<Rightarrow> string option" where
  "ck_Read c r = (case map_of (rq_cookies r) (ck_name c) of None \<Rightarrow> None | Some v \<Rightarrow> if v = [] then None else Some v)"

definition ck_Write :: "(duration \<Rightarrow> int) \<Rightarrow> time \<Rightarrow> cookie \<Rightarrow> string \<Rightarrow> token_write_options \<Rightarrow> http_resp \<Rightarrow> http_resp" where
  "ck_Write secs wall c sid opts w =
    (let ck = \<lparr>hc_Name = ck_name c, hc_Value = sid, hc_Path = cookiePath c, hc_Domain = ck_Domain c,
           hc_Secure = ck_Secure c, hc_HttpOnly = ck_HttpOnly c, hc_SameSite = ck_SameSite c,
           hc_Expires = zeroTime, hc_MaxAge = 0\<rparr>;
         ck' = (if \<not> isZero (tw_Expiry opts) then
                  (let ck1 = ck\<lparr>hc_Expires := tw_Expiry opts\<rparr>;
                       now = (if isZero (tw_Now opts) then wall else tw_Now opts);
                       d = tsub (tw_Expiry opts) now
                   in if d > 0 then ck1\<lparr>hc_MaxAge := secs d\<rparr> else ck1)
                else ck)
     in w\<lparr>rp_cookies := rp_cookies w @ [ck']\<rparr>)"

definition ck_Clear :: "cookie \<Rightarrow> http_resp \<Rightarrow> http_resp" where
  "ck_Clear c w = w\<lparr>rp_cookies := rp_cookies w @
     [\<lparr>hc_Name = ck_name c, hc_Value = [], hc_Path = cookiePath c, hc_Domain = ck_Domain c,
       hc_Secure = ck_Secure c, hc_HttpOnly = ck_HttpOnly c, hc_SameSite = ck_SameSite c,
       hc_Expires = 0, hc_MaxAge = - 1\<rparr>]\<rparr>"

section \<open>Headers (bearer.go)\<close>

record bearer =
  br_ReadHeader :: string
  br_Scheme :: string
  br_WriteHeader :: string

definition br_readHeader :: "bearer \<Rightarrow> string" where
  "br_readHeader b = (if br_ReadHeader b = [] then ''Authorization'' else br_ReadHeader b)"

definition br_scheme :: "bearer \<Rightarrow> string" where
  "br_scheme b = (if br_Scheme b = [] then ''Bearer'' else br_Scheme b)"

definition br_writeHeader :: "bearer \<Rightarrow> string" where
  "br_writeHeader b = (if br_WriteHeader b = [] then ''X-Session-Token'' else br_WriteHeader b)"

text \<open>\<open>strings.Fields\<close> and \<open>strings.EqualFold\<close> on ASCII text.\<close>

definition isSpace :: "char \<Rightarrow> bool" where
  "isSpace c \<longleftrightarrow> c = CHR '' '' \<or> (CHR 0x09 \<le> c \<and> c \<le> CHR 0x0D)"

function fields :: "string \<Rightarrow> string list" where
  "fields s =
    (let t = dropWhile isSpace s in
     if t = [] then [] else takeWhile (\<lambda>c. \<not> isSpace c) t # fields (dropWhile (\<lambda>c. \<not> isSpace c) t))"
  by pat_completeness auto
termination
proof (relation "measure length")
  fix s t :: string
  assume "t = dropWhile isSpace s" "t \<noteq> []"
  then have "\<not> isSpace (hd t)" using hd_dropWhile by blast
  then have "length (dropWhile (\<lambda>c. \<not> isSpace c) t) < length t"
    using \<open>t \<noteq> []\<close> by (cases t) (simp_all add: length_dropWhile_le less_Suc_eq_le)
  also have "\<dots> \<le> length s" using \<open>t = dropWhile isSpace s\<close> by (simp add: length_dropWhile_le)
  finally show "(dropWhile (\<lambda>c. \<not> isSpace c) t, s) \<in> measure length" by simp
qed simp

declare fields.simps [simp del]

definition equalFold :: "string \<Rightarrow> string \<Rightarrow> bool" where
  "equalFold a b \<longleftrightarrow> map lowerASCII a = map lowerASCII b"

definition br_Read :: "bearer \<Rightarrow> http_req \<Rightarrow> string option" where
  "br_Read b r =
    (let raw = headerGet r (br_readHeader b) in
     if raw = [] then None
     else case fields raw of
        [p, sid] \<Rightarrow> if equalFold p (br_scheme b) then Some sid else None
      | _ \<Rightarrow> None)"

definition br_Write :: "bearer \<Rightarrow> string \<Rightarrow> http_resp \<Rightarrow> http_resp" where
  "br_Write b sid w = w\<lparr>rp_header := goput (canonicalKey (br_writeHeader b)) sid (rp_header w)\<rparr>"

definition br_Clear :: "bearer \<Rightarrow> http_resp \<Rightarrow> http_resp" where
  "br_Clear b w = w\<lparr>rp_header := goput (canonicalKey (br_writeHeader b)) [] (rp_header w)\<rparr>"

text \<open>A nil member of \<open>Multi\<close> is \<open>None\<close>.\<close>

datatype token = Cookie cookie | Bearer bearer | Multi "token option list"

fun tok_Validate :: "token \<Rightarrow> sess_err option"
  and multi_Validate :: "nat \<Rightarrow> token option list \<Rightarrow> sess_err option" where
  "tok_Validate (Cookie c) = None"
| "tok_Validate (Bearer b) = None"
| "tok_Validate (Multi ts) =
    (if ts = [] then Some (newErr ''session: Multi token has no members'') else multi_Validate 0 ts)"
| "multi_Validate i [] = None"
| "multi_Validate i (None # ts) =
    Some (newErr (''session: Multi token member '' @ formatInt (int i) @ '' is nil''))"
| "multi_Validate i (Some t # ts) =
    (case tok_Validate t of Some e \<Rightarrow> Some e | None \<Rightarrow> multi_Validate (Suc i) ts)"

text \<open>Calling a method of a nil member panics: the result \<open>None\<close> of \<open>Read\<close>, and no response.\<close>

fun tok_Read :: "token \<Rightarrow> http_req \<Rightarrow> string option option"
  and multi_Read :: "token option list \<Rightarrow> http_req \<Rightarrow> string option option" where
  "tok_Read (Cookie c) r = Some (ck_Read c r)"
| "tok_Read (Bearer b) r = Some (br_Read b r)"
| "tok_Read (Multi ts) r = multi_Read ts r"
| "multi_Read [] r = Some None"
| "multi_Read (None # ts) r = None"
| "multi_Read (Some t # ts) r =
    (case tok_Read t r of None \<Rightarrow> None | Some (Some sid) \<Rightarrow> Some (Some sid) | Some None \<Rightarrow> multi_Read ts r)"

fun tok_Write :: "(duration \<Rightarrow> int) \<Rightarrow> time \<Rightarrow> token \<Rightarrow> string \<Rightarrow> token_write_options \<Rightarrow> http_resp \<Rightarrow> http_resp option"
  and multi_Write :: "(duration \<Rightarrow> int) \<Rightarrow> time \<Rightarrow> token option list \<Rightarrow> string \<Rightarrow> token_write_options \<Rightarrow>
    http_resp \<Rightarrow> http_resp option" where
  "tok_Write secs wall (Cookie c) sid opts w = Some (ck_Write secs wall c sid opts w)"
| "tok_Write secs wall (Bearer b) sid opts w = Some (br_Write b sid w)"
| "tok_Write secs wall (Multi ts) sid opts w = multi_Write secs wall ts sid opts w"
| "multi_Write secs wall [] sid opts w = Some w"
| "multi_Write secs wall (None # ts) sid opts w = None"
| "multi_Write secs wall (Some t # ts) sid opts w =
    (case tok_Write secs wall t sid opts w of None \<Rightarrow> None | Some w' \<Rightarrow> multi_Write secs wall ts sid opts w')"

fun tok_Clear :: "token \<Rightarrow> http_resp \<Rightarrow> http_resp option"
  and multi_Clear :: "token option list \<Rightarrow> http_resp \<Rightarrow> http_resp option" where
  "tok_Clear (Cookie c) w = Some (ck_Clear c w)"
| "tok_Clear (Bearer b) w = Some (br_Clear b w)"
| "tok_Clear (Multi ts) w = multi_Clear ts w"
| "multi_Clear [] w = Some w"
| "multi_Clear (None # ts) w = None"
| "multi_Clear (Some t # ts) w = (case tok_Clear t w of None \<Rightarrow> None | Some w' \<Rightarrow> multi_Clear ts w')"

section \<open>Identifiers never survive redaction\<close>

lemma replaceAll_prefix:
  assumes "CHR ''['' \<notin> set p" "prefix p (replaceAll old sidPlaceholder s)"
  shows "prefix p s"
  using assms
proof (induction old sidPlaceholder s arbitrary: p rule: replaceAll.induct)
  case (1 old s)
  show ?case
  proof (cases "p = [] \<or> old = [] \<or> s = []")
    case True
    then show ?thesis using 1(4) by (auto simp: replaceAll.simps [of old])
  next
    case False
    then obtain c p' where p: "p = c # p'" by (cases p) auto
    show ?thesis
    proof (cases "prefix old s")
      case True
      then have "prefix p (sidPlaceholder @ replaceAll old sidPlaceholder (drop (length old) s))"
        using 1(4) False by (simp add: replaceAll.simps [of old _ s])
      then have "c = CHR ''[''" by (simp add: p sidPlaceholder_def)
      then show ?thesis using 1(3) p by simp
    next
      case no: False
      then have "prefix p (hd s # replaceAll old sidPlaceholder (tl s))"
        using 1(4) False by (simp add: replaceAll.simps [of old _ s])
      then have "c = hd s" "prefix p' (replaceAll old sidPlaceholder (tl s))" by (simp_all add: p)
      moreover have "CHR ''['' \<notin> set p'" using 1(3) p by simp
      ultimately have "prefix p' (tl s)" using 1(2) False no by simp
      then show ?thesis using False \<open>c = hd s\<close> by (cases s) (simp_all add: p)
    qed
  qed
qed

definition sid_like :: "string \<Rightarrow> bool" where
  "sid_like sid \<longleftrightarrow> CHR ''['' \<notin> set sid \<and> CHR '']'' \<notin> set sid \<and> \<not> sublist sid ''redacted''"

lemma sid_like_nonempty: "sid_like sid \<Longrightarrow> sid \<noteq> []"
  by (auto simp: sid_like_def)

lemma sid_not_in_placeholder:
  assumes "sid_like sid"
  shows "\<not> sublist sid sidPlaceholder"
proof
  have e: "sidPlaceholder = ''['' @ ''redacted'' @ '']''" by (simp add: sidPlaceholder_def)
  assume "sublist sid sidPlaceholder"
  then obtain a b where ab: "sidPlaceholder = a @ sid @ b" by (auto simp: sublist_def)
  have "a \<noteq> []" using ab assms sid_like_nonempty [OF assms] by (cases sid) (auto simp: sidPlaceholder_def sid_like_def)
  moreover have "b \<noteq> []"
  proof
    assume "b = []"
    then have "last sid = last sidPlaceholder" unfolding ab using sid_like_nonempty [OF assms] by simp
    then have "CHR '']'' = last sid" by (simp add: sidPlaceholder_def)
    then show False using assms last_in_set [OF sid_like_nonempty [OF assms]] by (simp add: sid_like_def)
  qed
  ultimately have "sublist sid (butlast (tl sidPlaceholder))"
    unfolding ab by (cases a; cases b rule: rev_cases) (auto simp: sublist_def butlast_append)
  then show False using assms by (simp add: sidPlaceholder_def sid_like_def)
qed

lemma replaceAll_removes:
  assumes l: "sid_like sid"
  shows "\<not> sublist sid (replaceAll sid sidPlaceholder s)"
proof (induction s rule: length_induct)
  case (1 s)
  have n: "sid \<noteq> []" using l by (rule sid_like_nonempty)
  show ?case
  proof (cases "s = []")
    case True
    then show ?thesis using n by (simp add: replaceAll.simps [of sid])
  next
    case s: False
    show ?thesis
    proof (cases "prefix sid s")
      case True
      let ?r = "replaceAll sid sidPlaceholder (drop (length sid) s)"
      have "\<not> sublist sid ?r" using 1 s n by simp
      moreover have "x = []" if "sid = x @ y" "suffix x sidPlaceholder" for x y
      proof (rule ccontr)
        assume "x \<noteq> []"
        then have "last x = CHR '']''" using that(2) by (auto simp: suffix_def sidPlaceholder_def dest!: arg_cong [of _ _ last])
        then show False using l that(1) last_in_set [OF \<open>x \<noteq> []\<close>] by (simp add: sid_like_def)
      qed
      ultimately have "\<not> sublist sid (sidPlaceholder @ ?r)"
        using sid_not_in_placeholder [OF l] by (auto simp: sublist_append) (metis append_Nil prefix_imp_sublist)
      then show ?thesis using True s n by (simp add: replaceAll.simps [of sid _ s])
    next
      case False
      let ?r = "replaceAll sid sidPlaceholder (tl s)"
      have "\<not> sublist sid ?r" using 1 s by simp
      moreover have "\<not> prefix sid (hd s # ?r)"
      proof
        assume "prefix sid (hd s # ?r)"
        then have "prefix sid (replaceAll sid sidPlaceholder s)"
          using False s n by (simp add: replaceAll.simps [of sid _ s])
        then show False using False l replaceAll_prefix by (auto simp: sid_like_def)
      qed
      ultimately have "\<not> sublist sid (hd s # ?r)" by (simp add: sublist_Cons_right)
      then show ?thesis using False s n by (simp add: replaceAll.simps [of sid _ s])
    qed
  qed
qed

lemma b64_encode_length: "length (b64_encode s) = (length s * 4 + 2) div 3"
  by (induction s rule: b64_encode.induct) (simp_all add: Let_def)

lemma b64_encode_chars: "set (b64_encode s) \<subseteq> set b64_alphabet"
proof -
  have "length b64_alphabet = 64" by code_simp
  then show ?thesis using b64_vals_less [of s] by (auto simp: b64_encode_vals b64_char_def intro!: nth_mem)
qed

lemma sid_like_generated: "length buf = sidByteLen \<Longrightarrow> sid_like (b64_encode buf)"
proof -
  assume "length buf = sidByteLen"
  then have "length (b64_encode buf) = 43" by (simp add: b64_encode_length sidByteLen_def)
  then have "\<not> sublist (b64_encode buf) ''redacted''" by (auto dest!: sublist_length_le)
  moreover have "CHR ''['' \<notin> set b64_alphabet" "CHR '']'' \<notin> set b64_alphabet"
    by (simp_all add: b64_alphabet_def)
  ultimately show ?thesis using b64_encode_chars [of buf] by (auto simp: sid_like_def)
qed

text \<open>for an identifier made by the built-in generator, whatever bytes the random source gave,
  the error that \<open>redactSIDs\<close> returns does not contain the identifier anywhere in its text, and
  \<open>errors.Is\<close> answers on it as on the original error; the identifier has 43 characters of the URL
  alphabet, and two different draws give different identifiers.\<close>

theorem sess_redaction:
  assumes "length buf = sidByteLen" "generateSID (Inr buf) = Inr sid"
  shows "\<not> sublist sid (errText (redactSIDs err [sid])) \<and> errIs (redactSIDs err [sid]) = errIs err \<and>
    length sid = 43 \<and> set sid \<subseteq> set b64_alphabet \<and>
    (\<forall>buf'. generateSID (Inr buf') = Inr sid \<longleftrightarrow> buf' = buf)"
proof -
  have s: "sid = b64_encode buf" using assms(2) by (simp add: generateSID_def)
  have l: "sid_like sid" unfolding s by (rule sid_like_generated [OF assms(1)])
  have "errText (redactSIDs err [sid]) = replaceAll sid sidPlaceholder (errText err)"
    using sid_like_nonempty [OF l] by (simp add: redactSIDs_def Let_def)
  moreover have "errIs (redactSIDs err [sid]) = errIs err" by (simp add: redactSIDs_def Let_def)
  moreover have "b64_encode buf' = b64_encode buf \<longleftrightarrow> buf' = buf" for buf' by (metis b64_round_trip option.inject)
  ultimately show ?thesis
    using replaceAll_removes [OF l, of "errText err"] b64_encode_chars [of buf] assms(1)
    by (simp add: s generateSID_def b64_encode_length sidByteLen_def)
qed

definition demo_bytes :: string where
  "demo_bytes = replicate 32 CHR ''x''"

lemma sess_redaction_witness:
  "\<not> sublist (b64_encode demo_bytes)
     (errText (redactSIDs (newErr (''delete '' @ b64_encode demo_bytes)) [b64_encode demo_bytes]))"
proof -
  have "length demo_bytes = sidByteLen" by (simp add: demo_bytes_def sidByteLen_def)
  then show ?thesis using sess_redaction [of demo_bytes "b64_encode demo_bytes"] by (simp add: generateSID_def)
qed

end
