(* ===== verification/Session.thy ===== *)
theory Session
  imports SessionToken
begin

text \<open>
  Package \<open>session\<close>, the manager: configuration (\<open>config.go\<close>, \<open>New\<close> of \<open>manager.go\<close>), the state
  of a request (\<open>manager.go\<close>), the payload envelope (\<open>envelope.go\<close>), the cells of a session
  (\<open>bucket.go\<close>, \<open>handle.go\<close>) and the commit at response start (\<open>commit.go\<close>).

  \<^item> The manager calls a store, a clock, an identifier generator and \<open>encoding/json\<close>. They are the
    fields of \<open>sess_env\<close>, state transformers on a world of any type \<open>'s\<close>; what another request or
    another process does to the store between two calls happens inside them. The optional
    interfaces \<open>TTLBumper\<close> and \<open>UserIndexer\<close> are \<open>None\<close> on a store without the capability.
  \<^item> The request state is guarded by its mutex, which an operation holds from start to end, so an
    operation is one step. \<open>Update\<close> alone gives the mutex up, while the caller's closure runs: the
    closure is a transformer of the request state as well, which covers what it does itself and
    what other goroutines of the request do meanwhile.
  \<^item> A loop that retries conflicts recurses on the retries left, \<open>MaxRetries\<close> at the start.
  \<^item> Nil maps are empty ones, except \<open>staged\<close>, where the code distinguishes them: \<open>None\<close> is nil. A
    staged tombstone (a nil value) is \<open>None\<close>.
  \<^item> Log records are not modelled. The calls to the token transport are: the result of \<open>commit\<close>
    says which instruction, if any, it gave.
\<close>

section \<open>Configuration (config.go) and New (manager.go)\<close>

record sess_config =
  cf_HasStore :: bool
  cf_Token :: "token option"
  cf_AbsoluteExpiry :: duration
  cf_IdleExpiry :: duration
  cf_IdleBumpInterval :: duration
  cf_MaxRetries :: int
  cf_CommitTimeout :: duration

definition validate :: "sess_config \<Rightarrow> sess_err list" where
  "validate c =
    (if \<not> cf_HasStore c then [newErr ''session.New: Store is required''] else []) @
    (case cf_Token c of
       None \<Rightarrow> [newErr ''session.New: Token is required'']
     | Some t \<Rightarrow> (case tok_Validate t of None \<Rightarrow> [] | Some e \<Rightarrow> [e])) @
    (if cf_AbsoluteExpiry c \<le> 0 then [newErr ''session.New: AbsoluteExpiry must be > 0''] else []) @
    (if cf_IdleExpiry c < 0 then [newErr ''session.New: IdleExpiry must not be negative''] else []) @
    (if cf_IdleExpiry c > 0 \<and> cf_AbsoluteExpiry c > 0 \<and> cf_IdleExpiry c > cf_AbsoluteExpiry c
     then [newErr ''session.New: IdleExpiry must not exceed AbsoluteExpiry''] else []) @
    (if cf_IdleBumpInterval c < 0 then [newErr ''session.New: IdleBumpInterval must not be negative''] else []) @
    (if cf_IdleBumpInterval c > cf_IdleExpiry c
     then [newErr ''session.New: IdleBumpInterval must not exceed IdleExpiry (0 when idle expiry is disabled)'']
     else [])"

definition defaultMaxRetries :: int where
  "defaultMaxRetries = 3"

text \<open>A cell type is its \<open>reflect.Type\<close>: an identity and whether it is a struct.\<close>

record cell_type =
  ct_name :: string
  ct_struct :: bool

record sess_manager =
  mg_cfg :: sess_config
  mg_maxRetries :: int
  mg_commitTimeout :: duration
  mg_cells :: "(string, cell_type) gomap"
  mg_appT :: "cell_type option"

definition sess_New :: "sess_config \<Rightarrow> sess_err list + sess_manager" where
  "sess_New c =
    (if validate c \<noteq> [] then Inl (validate c)
     else Inr \<lparr>mg_cfg = c,
       mg_maxRetries = (if cf_MaxRetries c < 0 then 0
                        else if cf_MaxRetries c = 0 then defaultMaxRetries else cf_MaxRetries c),
       mg_commitTimeout = (if cf_CommitTimeout c = 0 then 30 * second else cf_CommitTimeout c),
       mg_cells = [], mg_appT = None\<rparr>)"

abbreviation retries :: "sess_manager \<Rightarrow> nat" where
  "retries m \<equiv> nat (mg_maxRetries m)"

definition sess_register :: "string \<Rightarrow> cell_type \<Rightarrow> sess_manager \<Rightarrow> sess_err option \<times> sess_manager" where
  "sess_register key t m =
    (case map_of (mg_cells m) key of
       Some prev \<Rightarrow>
         if prev \<noteq> t then
           (Some (newErr (''session: cell name '' @ key @ '' is already registered with type '' @ ct_name prev @
              '' (this registration: '' @ ct_name t @ '')'')), m)
         else (None, m)
     | None \<Rightarrow> (None, m\<lparr>mg_cells := goput key t (mg_cells m)\<rparr>))"

definition appKey :: string where
  "appKey = ''app''"

definition checkCellType :: "cell_type \<Rightarrow> string \<Rightarrow> sess_err option" where
  "checkCellType t fn =
    (if \<not> ct_struct t then Some (newErr (''session.'' @ fn @ '': cell type '' @ ct_name t @ '' is not a struct'')) else None)"

text \<open>\<open>Use\<close>: a nil \<open>Registry\<close> and one without a manager are \<open>None\<close> and \<open>Some None\<close>. The handle it
  returns is the cell name.\<close>

definition sess_Use :: "sess_manager option option \<Rightarrow> string \<Rightarrow> cell_type \<Rightarrow>
    (sess_err + string) \<times> sess_manager option option" where
  "sess_Use m name t =
    (if name = [] then (Inl (newErr ''session.Use: name is empty''), m)
     else if name = appKey then
       (Inl (newErr ''session.Use: the cell name is reserved for the app session''), m)
     else case checkCellType t ''Use'' of
       Some e \<Rightarrow> (Inl e, m)
     | None \<Rightarrow>
         (case m of
            None \<Rightarrow> (Inl (newErr ''session.Use: nil Registry''), m)
          | Some None \<Rightarrow> (Inl (newErr ''session.Use: Registry carries no session manager (typed nil?)''), m)
          | Some (Some c) \<Rightarrow>
              (case sess_register name t c of
                 (Some e, c') \<Rightarrow> (Inl e, Some (Some c'))
               | (None, c') \<Rightarrow> (Inr name, Some (Some c')))))"

section \<open>Request state (manager.go)\<close>

type_synonym cellRaw = string
type_synonym cells = "(string, cellRaw) gomap"

record sess_state =
  st_arrivedSID :: string
  st_staleToken :: bool
  st_loaded :: bool
  st_exists :: bool
  st_record :: sess_record
  st_cells :: cells
  st_cellsDecoded :: bool
  st_envErr :: "sess_err option"
  st_staged :: "(string, cellRaw option) gomap option"
  st_stagedSeq :: "(string, int) gomap"
  st_destroyed :: bool
  st_destroyedSID :: string
  st_renew :: bool
  st_promote :: bool
  st_promotedID :: string
  st_tokenNeeded :: bool
  st_responseStarted :: bool

definition newState :: "string \<Rightarrow> sess_state" where
  "newState sid = \<lparr>st_arrivedSID = sid, st_staleToken = False, st_loaded = False, st_exists = False,
     st_record = zeroRecord, st_cells = [], st_cellsDecoded = False, st_envErr = None, st_staged = None,
     st_stagedSeq = [], st_destroyed = False, st_destroyedSID = [], st_renew = False, st_promote = False,
     st_promotedID = [], st_tokenNeeded = False, st_responseStarted = False\<rparr>"

definition staged_map :: "sess_state \<Rightarrow> (string, cellRaw option) gomap" where
  "staged_map st = (case st_staged st of None \<Rightarrow> [] | Some m \<Rightarrow> m)"

record 's sess_env =
  ev_now :: "'s \<Rightarrow> time"
  ev_newSID :: "'s \<Rightarrow> (sess_err + string) \<times> 's"
  ev_Load :: "string \<Rightarrow> 's \<Rightarrow> (sess_err + sess_record) \<times> 's"
  ev_Save :: "sess_record \<Rightarrow> 's \<Rightarrow> (sess_err + sess_record) \<times> 's"
  ev_Delete :: "string \<Rightarrow> 's \<Rightarrow> sess_err option \<times> 's"
  ev_TTLBumper :: "(string \<Rightarrow> time \<Rightarrow> 's \<Rightarrow> sess_err option \<times> 's) option"
  ev_ListByUser :: "(string \<Rightarrow> 's \<Rightarrow> (sess_err + string list) \<times> 's) option"
  ev_RevokeByUser :: "(string \<Rightarrow> string list \<Rightarrow> 's \<Rightarrow> (sess_err + nat) \<times> 's) option"
  ev_marshal :: "cells \<Rightarrow> sess_err + payload"
  ev_unmarshal :: "payload \<Rightarrow> sess_err + cells"

definition prefixErr :: "string \<Rightarrow> sess_err \<Rightarrow> sess_err" where
  "prefixErr p e = SErr (errIs e) (p @ errText e)"

section \<open>The payload envelope (envelope.go)\<close>

definition decodeEnvelope :: "('s, 'x) sess_env_scheme \<Rightarrow> payload \<Rightarrow> sess_err + cells" where
  "decodeEnvelope ev p =
    (case ev_unmarshal ev p of
       Inl e \<Rightarrow> Inl (prefixErr ''session: malformed payload envelope: '' e)
     | Inr cells \<Rightarrow> Inr cells)"

definition encodeEnvelope :: "('s, 'x) sess_env_scheme \<Rightarrow> cells \<Rightarrow> sess_err + payload" where
  "encodeEnvelope ev cells =
    (if length cells = 0 then Inr ''{}''
     else case ev_marshal ev cells of
       Inl e \<Rightarrow> Inl (prefixErr ''session: encode payload envelope: '' e)
     | Inr out \<Rightarrow> Inr out)"

fun overlay :: "string \<times> cellRaw option \<Rightarrow> cells \<Rightarrow> cells" where
  "overlay (k, None) out = godel k out"
| "overlay (k, Some v) out = goput k v out"

definition mergedView :: "sess_state \<Rightarrow> cells" where
  "mergedView st = fold overlay (staged_map st) (st_cells st)"

section \<open>Loading (manager.go)\<close>

definition mintSID :: "('s, 'x) sess_env_scheme \<Rightarrow> 's \<Rightarrow> (sess_err + string) \<times> 's" where
  "mintSID ev w =
    (case ev_newSID ev w of
       (Inl e, w') \<Rightarrow> (Inl (prefixErr ''session: generate sid: '' e), w')
     | (Inr sid, w') \<Rightarrow>
         if sid = [] then (Inl (newErr ''session: generate sid: generator returned an empty SID''), w')
         else (Inr sid, w'))"

definition ensureLoaded :: "('s, 'x) sess_env_scheme \<Rightarrow> sess_state \<Rightarrow> 's \<Rightarrow> sess_err option \<times> sess_state \<times> 's" where
  "ensureLoaded ev st w =
    (if st_loaded st then (None, st, w)
     else if st_arrivedSID st = [] then (None, st\<lparr>st_loaded := True\<rparr>, w)
     else case ev_Load ev (st_arrivedSID st) w of
       (Inl e, w') \<Rightarrow>
         if errIs e = Some ErrNotFound
         then (None, st\<lparr>st_staleToken := True, st_arrivedSID := [], st_loaded := True\<rparr>, w')
         else (Some e, st, w')
     | (Inr r, w') \<Rightarrow> (None, st\<lparr>st_record := r, st_exists := True, st_loaded := True\<rparr>, w'))"

definition decodeCells :: "('s, 'x) sess_env_scheme \<Rightarrow> sess_state \<Rightarrow> sess_err option \<times> sess_state" where
  "decodeCells ev st =
    (if st_cellsDecoded st then (st_envErr st, st)
     else
       (let st' = st\<lparr>st_cellsDecoded := True\<rparr> in
        if \<not> st_exists st \<or> length (rc_Payload (st_record st)) = 0 then (None, st'\<lparr>st_cells := []\<rparr>)
        else case decodeEnvelope ev (rc_Payload (st_record st)) of
          Inl e \<Rightarrow> (Some e, st'\<lparr>st_envErr := Some e\<rparr>)
        | Inr cells \<Rightarrow> (None, st'\<lparr>st_cells := cells\<rparr>)))"

definition pendingMint :: "sess_state \<Rightarrow> bool" where
  "pendingMint st \<longleftrightarrow> st_promote st \<or> list_ex (\<lambda>(k, v). v \<noteq> None) (staged_map st)"

text \<open>Request-scoped operations start with \<open>stateFromCtx\<close>: the context carries the state the
  middleware attached, or none.\<close>

definition stateFromCtx :: "string \<Rightarrow> sess_state option \<Rightarrow> sess_err + sess_state" where
  "stateFromCtx op ctx =
    (case ctx of None \<Rightarrow> Inl (wrapErr (''session.'' @ op @ '': '') ErrNoSession) | Some st \<Rightarrow> Inr st)"

definition in_request :: "string \<Rightarrow> (sess_state \<Rightarrow> 's \<Rightarrow> (sess_err + 'a) \<times> sess_state \<times> 's) \<Rightarrow>
    sess_state option \<Rightarrow> 's \<Rightarrow> (sess_err + 'a) \<times> sess_state option \<times> 's" where
  "in_request op f ctx w =
    (case stateFromCtx op ctx of
       Inl e \<Rightarrow> (Inl e, ctx, w)
     | Inr st \<Rightarrow> (case f st w of (res, st', w') \<Rightarrow> (res, Some st', w')))"

definition committed_err :: "string \<Rightarrow> sess_err" where
  "committed_err op = wrapErr (''session.'' @ op @ '': '') ErrAlreadyCommitted"

section \<open>Cells of the request (bucket.go)\<close>

definition checkStageable :: "string \<Rightarrow> sess_state \<Rightarrow> sess_err option" where
  "checkStageable op st = (if st_responseStarted st then Some (committed_err op) else None)"

definition cellGet :: "('s, 'x) sess_env_scheme \<Rightarrow> string \<Rightarrow> sess_state \<Rightarrow> 's \<Rightarrow>
    (sess_err + cellRaw option) \<times> sess_state \<times> 's" where
  "cellGet ev key st w =
    (case ensureLoaded ev st w of
       (Some e, st1, w1) \<Rightarrow> (Inl e, st1, w1)
     | (None, st1, w1) \<Rightarrow>
         (case map_of (staged_map st1) key of
            Some v \<Rightarrow> (Inr v, st1, w1)
          | None \<Rightarrow>
              (case decodeCells ev st1 of
                 (Some e, st2) \<Rightarrow> (Inl e, st2, w1)
               | (None, st2) \<Rightarrow> (Inr (map_of (st_cells st2) key), st2, w1))))"

definition cellHas :: "('s, 'x) sess_env_scheme \<Rightarrow> string \<Rightarrow> sess_state \<Rightarrow> 's \<Rightarrow>
    (sess_err + bool) \<times> sess_state \<times> 's" where
  "cellHas ev key st w =
    (case ensureLoaded ev st w of
       (Some e, st1, w1) \<Rightarrow> (Inl e, st1, w1)
     | (None, st1, w1) \<Rightarrow>
         (case map_of (staged_map st1) key of
            Some v \<Rightarrow> (Inr (v \<noteq> None), st1, w1)
          | None \<Rightarrow>
              (case decodeCells ev st1 of
                 (Some e, st2) \<Rightarrow> (Inl e, st2, w1)
               | (None, st2) \<Rightarrow> (Inr (map_of (st_cells st2) key \<noteq> None), st2, w1))))"

definition seqOf :: "sess_state \<Rightarrow> string \<Rightarrow> int" where
  "seqOf st key = (case map_of (st_stagedSeq st) key of None \<Rightarrow> 0 | Some n \<Rightarrow> n)"

definition stage :: "string \<Rightarrow> cellRaw option \<Rightarrow> sess_state \<Rightarrow> sess_state" where
  "stage key raw st =
    (let st1 = (if st_staged st = None then st\<lparr>st_staged := Some [], st_stagedSeq := []\<rparr> else st)
     in st1\<lparr>st_staged := Some (goput key raw (staged_map st1)),
            st_stagedSeq := goput key (seqOf st1 key + 1) (st_stagedSeq st1)\<rparr>)"

definition decodeIfExists :: "('s, 'x) sess_env_scheme \<Rightarrow> sess_state \<Rightarrow> sess_err option \<times> sess_state" where
  "decodeIfExists ev st = (if st_exists st then decodeCells ev st else (None, st))"

definition cellSave :: "('s, 'x) sess_env_scheme \<Rightarrow> string \<Rightarrow> cellRaw \<Rightarrow> sess_state \<Rightarrow> 's \<Rightarrow>
    (sess_err + unit) \<times> sess_state \<times> 's" where
  "cellSave ev key raw st w =
    (if st_responseStarted st then (Inl (committed_err ''Save''), st, w)
     else case ensureLoaded ev st w of
       (Some e, st1, w1) \<Rightarrow> (Inl e, st1, w1)
     | (None, st1, w1) \<Rightarrow>
         (case decodeIfExists ev st1 of
            (Some e, st2) \<Rightarrow> (Inl e, st2, w1)
          | (None, st2) \<Rightarrow> (Inr (), stage key (Some raw) st2, w1)))"

definition cellClear :: "('s, 'x) sess_env_scheme \<Rightarrow> string \<Rightarrow> sess_state \<Rightarrow> 's \<Rightarrow>
    (sess_err + unit) \<times> sess_state \<times> 's" where
  "cellClear ev key st w =
    (if st_responseStarted st then (Inl (committed_err ''Clear''), st, w)
     else case ensureLoaded ev st w of
       (Some e, st1, w1) \<Rightarrow> (Inl e, st1, w1)
     | (None, st1, w1) \<Rightarrow>
         (case map_of (staged_map st1) key of
            Some v \<Rightarrow> (Inr (), if v \<noteq> None then stage key None st1 else st1, w1)
          | None \<Rightarrow>
              if \<not> st_exists st1 then (Inr (), st1, w1)
              else
                (case decodeCells ev st1 of
                   (Some e, st2) \<Rightarrow> (Inl e, st2, w1)
                 | (None, st2) \<Rightarrow>
                     (Inr (), if map_of (st_cells st2) key \<noteq> None then stage key None st2 else st2, w1))))"

definition freshPayload :: "sess_record \<Rightarrow> payload" where
  "freshPayload r = (if length (rc_Payload r) = 0 then ''{}'' else rc_Payload r)"

definition reloadCells :: "('s, 'x) sess_env_scheme \<Rightarrow> sess_state \<Rightarrow> 's \<Rightarrow> sess_err option \<times> sess_state \<times> 's" where
  "reloadCells ev st w =
    (case ev_Load ev (rc_SID (st_record st)) w of
       (Inl e, w1) \<Rightarrow> (Some e, st, w1)
     | (Inr fresh, w1) \<Rightarrow>
         (case decodeEnvelope ev (freshPayload fresh) of
            Inl e \<Rightarrow> (Some e, st, w1)
          | Inr cells \<Rightarrow> (None, st\<lparr>st_record := fresh, st_cells := cells\<rparr>, w1)))"

definition updateBase :: "('s, 'x) sess_env_scheme \<Rightarrow> string \<Rightarrow> sess_state \<Rightarrow>
    (sess_err + cellRaw option \<times> bool \<times> int) \<times> sess_state" where
  "updateBase ev key st =
    (case map_of (staged_map st) key of
       Some v \<Rightarrow> (Inr (v, True, seqOf st key), st)
     | None \<Rightarrow>
         if st_exists st then
           (case decodeCells ev st of
              (Some e, st1) \<Rightarrow> (Inl e, st1)
            | (None, st1) \<Rightarrow> (Inr (map_of (st_cells st1) key, False, 0), st1))
         else (Inr (None, False, 0), st))"

section \<open>Inserting a session (commit.go)\<close>

fun insertFresh :: "('s, 'x) sess_env_scheme \<Rightarrow> nat \<Rightarrow> sess_record \<Rightarrow> 's \<Rightarrow> (sess_err + sess_record) \<times> 's" where
  "insertFresh ev n r w =
    (case mintSID ev w of
       (Inl e, w1) \<Rightarrow> (Inl e, w1)
     | (Inr sid, w1) \<Rightarrow>
         (case ev_Save ev (r\<lparr>rc_SID := sid, rc_Version := 0\<rparr>) w1 of
            (Inr stored, w2) \<Rightarrow> (Inr stored, w2)
          | (Inl e, w2) \<Rightarrow>
              if errIs e \<noteq> Some ErrVersionConflict \<or> n = 0
              then (Inl (prefixErr ''session: mint: '' (redactSIDs e [sid])), w2)
              else insertFresh ev (n - 1) r w2))"

declare insertFresh.simps [simp del]

definition idleExpiry :: "('s, 'x) sess_env_scheme \<Rightarrow> sess_manager \<Rightarrow> 's \<Rightarrow> sess_record \<Rightarrow> sess_record" where
  "idleExpiry ev m w r =
    (if cf_IdleExpiry (mg_cfg m) > 0 then r\<lparr>rc_IdleExpiry := ev_now ev w + cf_IdleExpiry (mg_cfg m)\<rparr> else r)"

text \<open>The record \<open>mintForUpdate\<close> and \<open>mintAtCommit\<close> build.\<close>

definition mintRecord :: "('s, 'x) sess_env_scheme \<Rightarrow> sess_manager \<Rightarrow> sess_state \<Rightarrow> payload \<Rightarrow> 's \<Rightarrow> sess_record" where
  "mintRecord ev m st payload w =
    idleExpiry ev m w (zeroRecord\<lparr>rc_AbsoluteExpiry := ev_now ev w + cf_AbsoluteExpiry (mg_cfg m),
      rc_Payload := payload, rc_UserID := (if st_promote st then st_promotedID st else [])\<rparr>)"

definition mintForUpdate :: "('s, 'x) sess_env_scheme \<Rightarrow> sess_manager \<Rightarrow> string \<Rightarrow> cellRaw \<Rightarrow> sess_state \<Rightarrow> 's \<Rightarrow>
    sess_err option \<times> sess_state \<times> 's" where
  "mintForUpdate ev m key out st w =
    (let (derr, st1, w1) =
       (if st_destroyed st \<and> st_destroyedSID st \<noteq> [] then
          (case ev_Delete ev (st_destroyedSID st) w of
             (Some e, w1) \<Rightarrow> (Some e, st, w1)
           | (None, w1) \<Rightarrow> (None, st\<lparr>st_destroyed := False, st_destroyedSID := []\<rparr>, w1))
        else (None, st, w))
     in case derr of
       Some e \<Rightarrow> (Some e, st1, w1)
     | None \<Rightarrow>
         (let cells = goput key out (mergedView st1) in
          case encodeEnvelope ev cells of
            Inl e \<Rightarrow> (Some e, st1, w1)
          | Inr payload \<Rightarrow>
              (case insertFresh ev (retries m) (mintRecord ev m st1 payload w1) w1 of
                 (Inl e, w2) \<Rightarrow> (Some e, st1, w2)
               | (Inr stored, w2) \<Rightarrow>
                   (None, st1\<lparr>st_record := stored, st_exists := True, st_cells := cells, st_cellsDecoded := True,
                      st_tokenNeeded := True, st_staged := None\<rparr>, w2))))"

section \<open>Update (bucket.go)\<close>

datatype 's attempt = Finished "sess_err option" sess_state 's | Conflict sess_err sess_state 's

definition cellUpdate_try :: "('s, 'x) sess_env_scheme \<Rightarrow> sess_manager \<Rightarrow> string \<Rightarrow>
    (cellRaw option \<Rightarrow> sess_state \<times> 's \<Rightarrow> (sess_err + cellRaw) \<times> sess_state \<times> 's) \<Rightarrow> sess_state \<Rightarrow> 's \<Rightarrow> 's attempt" where
  "cellUpdate_try ev m key fn st w =
    (case updateBase ev key st of
       (Inl e, st1) \<Rightarrow> Finished (Some e) st1 w
     | (Inr (base, stagedBase, seq), st1) \<Rightarrow>
         (case fn base (st1, w) of
            (Inl e, st2, w2) \<Rightarrow> Finished (Some e) st2 w2
          | (Inr out, st2, w2) \<Rightarrow>
              if \<not> st_exists st2 then
                (case mintForUpdate ev m key out st2 w2 of (e, st3, w3) \<Rightarrow> Finished e st3 w3)
              else
                (let merged = goput key out (st_cells st2) in
                 case encodeEnvelope ev merged of
                   Inl e \<Rightarrow> Finished (Some e) st2 w2
                 | Inr payload \<Rightarrow>
                     (case ev_Save ev (idleExpiry ev m w2 ((st_record st2)\<lparr>rc_Payload := payload\<rparr>)) w2 of
                        (Inr stored, w3) \<Rightarrow>
                          (let st3 = st2\<lparr>st_record := stored, st_cells := merged, st_tokenNeeded := True\<rparr>
                           in Finished None
                             (if stagedBase \<and> seqOf st3 key = seq
                              then st3\<lparr>st_staged := map_option (godel key) (st_staged st3)\<rparr> else st3) w3)
                      | (Inl e, w3) \<Rightarrow>
                          if errIs e \<noteq> Some ErrVersionConflict then Finished (Some e) st2 w3 else Conflict e st2 w3))))"

fun cellUpdate_loop :: "('s, 'x) sess_env_scheme \<Rightarrow> sess_manager \<Rightarrow> string \<Rightarrow>
    (cellRaw option \<Rightarrow> sess_state \<times> 's \<Rightarrow> (sess_err + cellRaw) \<times> sess_state \<times> 's) \<Rightarrow> nat \<Rightarrow> sess_state \<Rightarrow> 's \<Rightarrow>
    sess_err option \<times> sess_state \<times> 's" where
  "cellUpdate_loop ev m key fn n st w =
    (case cellUpdate_try ev m key fn st w of
       Finished e st1 w1 \<Rightarrow> (e, st1, w1)
     | Conflict e st1 w1 \<Rightarrow>
         if n = 0 then (Some e, st1, w1)
         else
           (case reloadCells ev st1 w1 of
              (Some e, st2, w2) \<Rightarrow> (Some e, st2, w2)
            | (None, st2, w2) \<Rightarrow> cellUpdate_loop ev m key fn (n - 1) st2 w2))"

declare cellUpdate_loop.simps [simp del]

definition cellUpdate :: "('s, 'x) sess_env_scheme \<Rightarrow> sess_manager \<Rightarrow> string \<Rightarrow>
    (cellRaw option \<Rightarrow> sess_state \<times> 's \<Rightarrow> (sess_err + cellRaw) \<times> sess_state \<times> 's) \<Rightarrow> sess_state \<Rightarrow> 's \<Rightarrow>
    (sess_err + unit) \<times> sess_state \<times> 's" where
  "cellUpdate ev m key fn st w =
    (case ensureLoaded ev st w of
       (Some e, st1, w1) \<Rightarrow> (Inl e, st1, w1)
     | (None, st1, w1) \<Rightarrow>
         if \<not> st_exists st1 \<and> st_responseStarted st1 then (Inl (committed_err ''Update''), st1, w1)
         else
           (case decodeIfExists ev st1 of
              (Some e, st2) \<Rightarrow> (Inl e, st2, w1)
            | (None, st2) \<Rightarrow>
                (case cellUpdate_loop ev m key fn (retries m) st2 w1 of
                   (Some e, st3, w3) \<Rightarrow> (Inl e, st3, w3)
                 | (None, st3, w3) \<Rightarrow> (Inr (), st3, w3))))"

section \<open>Out of band (bucket.go)\<close>

definition loadCell :: "('s, 'x) sess_env_scheme \<Rightarrow> string \<Rightarrow> string \<Rightarrow> 's \<Rightarrow> (sess_err + cellRaw option) \<times> 's" where
  "loadCell ev sid key w =
    (case ev_Load ev sid w of
       (Inl e, w1) \<Rightarrow> (Inl e, w1)
     | (Inr r, w1) \<Rightarrow>
         (case decodeEnvelope ev (freshPayload r) of
            Inl e \<Rightarrow> (Inl e, w1)
          | Inr cells \<Rightarrow> (Inr (map_of cells key), w1)))"

text \<open>\<open>mutate\<close> changes the decoded map in place and says whether to write it.\<close>

fun mutateCellsSID :: "('s, 'x) sess_env_scheme \<Rightarrow> string \<Rightarrow> (cells \<Rightarrow> 's \<Rightarrow> (sess_err + bool \<times> cells) \<times> 's) \<Rightarrow> nat \<Rightarrow> 's \<Rightarrow>
    sess_err option \<times> 's" where
  "mutateCellsSID ev sid mutate n w =
    (case ev_Load ev sid w of
       (Inl e, w1) \<Rightarrow> (Some e, w1)
     | (Inr r, w1) \<Rightarrow>
         (case decodeEnvelope ev (freshPayload r) of
            Inl e \<Rightarrow> (Some e, w1)
          | Inr cells \<Rightarrow>
              (case mutate cells w1 of
                 (Inl e, w2) \<Rightarrow> (Some e, w2)
               | (Inr (write, cells'), w2) \<Rightarrow>
                   if \<not> write then (None, w2)
                   else
                     (case encodeEnvelope ev cells' of
                        Inl e \<Rightarrow> (Some e, w2)
                      | Inr payload \<Rightarrow>
                          (case ev_Save ev (r\<lparr>rc_Payload := payload\<rparr>) w2 of
                             (Inr _, w3) \<Rightarrow> (None, w3)
                           | (Inl e, w3) \<Rightarrow>
                               if errIs e = Some ErrVersionConflict \<and> n > 0
                               then mutateCellsSID ev sid mutate (n - 1) w3 else (Some e, w3))))))"

declare mutateCellsSID.simps [simp del]

definition updateCellSID :: "('s, 'x) sess_env_scheme \<Rightarrow> sess_manager \<Rightarrow> string \<Rightarrow> string \<Rightarrow>
    (cellRaw option \<Rightarrow> 's \<Rightarrow> (sess_err + cellRaw) \<times> 's) \<Rightarrow> 's \<Rightarrow> sess_err option \<times> 's" where
  "updateCellSID ev m sid key fn w =
    mutateCellsSID ev sid (\<lambda>cells w. case fn (map_of cells key) w of
        (Inl e, w1) \<Rightarrow> (Inl e, w1)
      | (Inr out, w1) \<Rightarrow> (Inr (True, goput key out cells), w1)) (retries m) w"

definition clearCellSID :: "('s, 'x) sess_env_scheme \<Rightarrow> sess_manager \<Rightarrow> string \<Rightarrow> string \<Rightarrow> 's \<Rightarrow> sess_err option \<times> 's" where
  "clearCellSID ev m sid key w =
    mutateCellsSID ev sid (\<lambda>cells w. case map_of cells key of
        None \<Rightarrow> (Inr (False, cells), w)
      | Some _ \<Rightarrow> (Inr (True, godel key cells), w)) (retries m) w"

section \<open>Lifecycle (manager.go)\<close>

definition sess_SID :: "('s, 'x) sess_env_scheme \<Rightarrow> sess_state \<Rightarrow> 's \<Rightarrow> (sess_err + string) \<times> sess_state \<times> 's" where
  "sess_SID ev st w =
    (case ensureLoaded ev st w of
       (Some e, st1, w1) \<Rightarrow> (Inl e, st1, w1)
     | (None, st1, w1) \<Rightarrow> (Inr (st_arrivedSID st1), st1, w1))"

definition sess_UserID :: "('s, 'x) sess_env_scheme \<Rightarrow> sess_state \<Rightarrow> 's \<Rightarrow> (sess_err + string) \<times> sess_state \<times> 's" where
  "sess_UserID ev st w =
    (case ensureLoaded ev st w of
       (Some e, st1, w1) \<Rightarrow> (Inl e, st1, w1)
     | (None, st1, w1) \<Rightarrow>
         (Inr (if st_promote st1 then st_promotedID st1
               else if st_exists st1 then rc_UserID (st_record st1) else []), st1, w1))"

definition Renew :: "('s, 'x) sess_env_scheme \<Rightarrow> sess_state \<Rightarrow> 's \<Rightarrow> (sess_err + unit) \<times> sess_state \<times> 's" where
  "Renew ev st w =
    (if st_responseStarted st then (Inl (committed_err ''Renew''), st, w)
     else case ensureLoaded ev st w of
       (Some e, st1, w1) \<Rightarrow> (Inl e, st1, w1)
     | (None, st1, w1) \<Rightarrow>
         if \<not> st_exists st1 \<and> \<not> pendingMint st1 then (Inl (wrapErr ''session.Renew: '' ErrNotFound), st1, w1)
         else (Inr (), st1\<lparr>st_renew := True\<rparr>, w1))"

definition Promote :: "('s, 'x) sess_env_scheme \<Rightarrow> string \<Rightarrow> sess_state \<Rightarrow> 's \<Rightarrow> (sess_err + unit) \<times> sess_state \<times> 's" where
  "Promote ev u st w =
    (if st_responseStarted st then (Inl (committed_err ''Promote''), st, w)
     else case ensureLoaded ev st w of
       (Some e, st1, w1) \<Rightarrow> (Inl e, st1, w1)
     | (None, st1, w1) \<Rightarrow>
         (let st2 = st1\<lparr>st_promote := True, st_promotedID := u\<rparr>
          in (Inr (), if st_exists st2 then st2\<lparr>st_renew := True\<rparr> else st2, w1)))"

definition destroyState :: "sess_state \<Rightarrow> sess_state" where
  "destroyState st1 =
    (let st2 = (if st_exists st1 then st1\<lparr>st_destroyed := True, st_destroyedSID := rc_SID (st_record st1)\<rparr> else st1)
     in st2\<lparr>st_exists := False, st_record := zeroRecord, st_cells := [], st_cellsDecoded := False,
          st_envErr := None, st_staged := None, st_renew := False, st_promote := False, st_promotedID := [],
          st_tokenNeeded := False\<rparr>)"

definition Destroy :: "('s, 'x) sess_env_scheme \<Rightarrow> sess_state \<Rightarrow> 's \<Rightarrow> (sess_err + unit) \<times> sess_state \<times> 's" where
  "Destroy ev st w =
    (if st_responseStarted st then (Inl (committed_err ''Destroy''), st, w)
     else case ensureLoaded ev st w of
       (Some e, st1, w1) \<Rightarrow> (Inl e, st1, w1)
     | (None, st1, w1) \<Rightarrow> (Inr (), destroyState st1, w1))"

definition sess_Has :: "('s, 'x) sess_env_scheme \<Rightarrow> sess_state \<Rightarrow> 's \<Rightarrow> (sess_err + bool) \<times> sess_state \<times> 's" where
  "sess_Has ev = cellHas ev appKey"

definition sess_Clear :: "('s, 'x) sess_env_scheme \<Rightarrow> sess_state \<Rightarrow> 's \<Rightarrow> (sess_err + unit) \<times> sess_state \<times> 's" where
  "sess_Clear ev = cellClear ev appKey"

definition ClearSID :: "('s, 'x) sess_env_scheme \<Rightarrow> sess_manager \<Rightarrow> string \<Rightarrow> 's \<Rightarrow> sess_err option \<times> 's" where
  "ClearSID ev m sid = clearCellSID ev m sid appKey"

definition DestroySID :: "('s, 'x) sess_env_scheme \<Rightarrow> string \<Rightarrow> 's \<Rightarrow> sess_err option \<times> 's" where
  "DestroySID ev sid w = ev_Delete ev sid w"

definition sess_ListByUser :: "('s, 'x) sess_env_scheme \<Rightarrow> string \<Rightarrow> 's \<Rightarrow> (sess_err + string list) \<times> 's" where
  "sess_ListByUser ev u w =
    (case ev_ListByUser ev of
       None \<Rightarrow> (Inl (wrapErr ''session.ListByUser: '' ErrCapabilityMissing), w)
     | Some f \<Rightarrow> f u w)"

definition sess_RevokeByUser :: "('s, 'x) sess_env_scheme \<Rightarrow> string \<Rightarrow> string list \<Rightarrow> 's \<Rightarrow> (sess_err + nat) \<times> 's" where
  "sess_RevokeByUser ev u except w =
    (case ev_RevokeByUser ev of
       None \<Rightarrow> (Inl (wrapErr ''session.RevokeByUser: '' ErrCapabilityMissing), w)
     | Some f \<Rightarrow> f u except w)"

section \<open>Commit (commit.go)\<close>

definition rotateAtCommit :: "('s, 'x) sess_env_scheme \<Rightarrow> sess_manager \<Rightarrow> sess_state \<Rightarrow> 's \<Rightarrow>
    sess_err option \<times> sess_state \<times> 's" where
  "rotateAtCommit ev m st w =
    (let (derr, st1) = decodeCells ev st;
         (cells, enc) = (case derr of
            Some _ \<Rightarrow> (None, Inr (rc_Payload (st_record st1)))
          | None \<Rightarrow> (Some (mergedView st1), encodeEnvelope ev (mergedView st1)))
     in case enc of
          Inl e \<Rightarrow> (Some e, st1, w)
        | Inr payload \<Rightarrow>
            (let oldSID = rc_SID (st_record st1);
                 r = idleExpiry ev m w (zeroRecord\<lparr>
                   rc_UserID := (if st_promote st1 then st_promotedID st1 else rc_UserID (st_record st1)),
                   rc_AbsoluteExpiry := rc_AbsoluteExpiry (st_record st1), rc_Payload := payload\<rparr>)
             in case insertFresh ev (retries m) r w of
                  (Inl e, w1) \<Rightarrow> (Some e, st1, w1)
                | (Inr stored, w1) \<Rightarrow>
                    (let (_, w2) = ev_Delete ev oldSID w1
                     in (None, st1\<lparr>st_record := stored,
                           st_cells := (case cells of None \<Rightarrow> st_cells st1 | Some cs \<Rightarrow> cs),
                           st_staged := None\<rparr>, w2))))"

definition commitDirty_try :: "('s, 'x) sess_env_scheme \<Rightarrow> sess_manager \<Rightarrow> sess_state \<Rightarrow> 's \<Rightarrow> 's attempt" where
  "commitDirty_try ev m st w =
    (let cells = mergedView st in
     case encodeEnvelope ev cells of
       Inl e \<Rightarrow> Finished (Some e) st w
     | Inr payload \<Rightarrow>
         (let r = idleExpiry ev m w ((st_record st)\<lparr>rc_Payload := payload\<rparr>) in
          case ev_Save ev r w of
            (Inr stored, w1) \<Rightarrow> Finished None (st\<lparr>st_record := stored, st_cells := cells, st_staged := None\<rparr>) w1
          | (Inl e, w1) \<Rightarrow>
              if errIs e \<noteq> Some ErrVersionConflict then Finished (Some (redactSIDs e [rc_SID r])) st w1
              else Conflict (redactSIDs e [rc_SID r]) st w1))"

definition commitDirty_reload :: "('s, 'x) sess_env_scheme \<Rightarrow> sess_state \<Rightarrow> 's \<Rightarrow> sess_err option \<times> sess_state \<times> 's" where
  "commitDirty_reload ev st w =
    (case ev_Load ev (rc_SID (st_record st)) w of
       (Inl e, w1) \<Rightarrow> (Some (redactSIDs e [rc_SID (st_record st)]), st, w1)
     | (Inr fresh, w1) \<Rightarrow>
         (case decodeEnvelope ev (freshPayload fresh) of
            Inl e \<Rightarrow> (Some e, st, w1)
          | Inr cells \<Rightarrow> (None, st\<lparr>st_record := fresh, st_cells := cells\<rparr>, w1)))"

fun commitDirty_loop :: "('s, 'x) sess_env_scheme \<Rightarrow> sess_manager \<Rightarrow> nat \<Rightarrow> sess_state \<Rightarrow> 's \<Rightarrow>
    sess_err option \<times> sess_state \<times> 's" where
  "commitDirty_loop ev m n st w =
    (case commitDirty_try ev m st w of
       Finished e st1 w1 \<Rightarrow> (e, st1, w1)
     | Conflict e st1 w1 \<Rightarrow>
         if n = 0 then (Some e, st1, w1)
         else
           (case commitDirty_reload ev st1 w1 of
              (Some e, st2, w2) \<Rightarrow> (Some e, st2, w2)
            | (None, st2, w2) \<Rightarrow> commitDirty_loop ev m (n - 1) st2 w2))"

declare commitDirty_loop.simps [simp del]

definition commitDirty :: "('s, 'x) sess_env_scheme \<Rightarrow> sess_manager \<Rightarrow> sess_state \<Rightarrow> 's \<Rightarrow>
    sess_err option \<times> sess_state \<times> 's" where
  "commitDirty ev m st w =
    (case decodeCells ev st of
       (Some e, st1) \<Rightarrow> (Some e, st1, w)
     | (None, st1) \<Rightarrow> commitDirty_loop ev m (retries m) st1 w)"

definition mintAtCommit :: "('s, 'x) sess_env_scheme \<Rightarrow> sess_manager \<Rightarrow> sess_state \<Rightarrow> 's \<Rightarrow>
    sess_err option \<times> sess_state \<times> 's" where
  "mintAtCommit ev m st w =
    (let cells = mergedView st in
     case encodeEnvelope ev cells of
       Inl e \<Rightarrow> (Some e, st, w)
     | Inr payload \<Rightarrow>
         (case insertFresh ev (retries m) (mintRecord ev m st payload w) w of
            (Inl e, w1) \<Rightarrow> (Some e, st, w1)
          | (Inr stored, w1) \<Rightarrow>
              (None, st\<lparr>st_record := stored, st_exists := True, st_cells := cells, st_cellsDecoded := True,
                 st_staged := None\<rparr>, w1)))"

definition maybeBumpIdle :: "('s, 'x) sess_env_scheme \<Rightarrow> sess_manager \<Rightarrow> sess_state \<Rightarrow> 's \<Rightarrow> bool \<times> sess_state \<times> 's" where
  "maybeBumpIdle ev m st w =
    (let cfg = mg_cfg m in
     if cf_IdleBumpInterval cfg \<le> 0 \<or> cf_IdleExpiry cfg \<le> 0 then (False, st, w)
     else case ev_TTLBumper ev of
       None \<Rightarrow> (False, st, w)
     | Some bump \<Rightarrow>
         (let now = ev_now ev w;
              remaining = tsub (rc_IdleExpiry (st_record st)) now
          in if remaining > wrap64 (cf_IdleExpiry cfg - cf_IdleBumpInterval cfg) then (False, st, w)
             else
               (let newExpiry = now + cf_IdleExpiry cfg in
                case bump (rc_SID (st_record st)) newExpiry w of
                  (Some e, w1) \<Rightarrow> (False, st, w1)
                | (None, w1) \<Rightarrow> (True, st\<lparr>st_record := (st_record st)\<lparr>rc_IdleExpiry := newExpiry\<rparr>\<rparr>, w1))))"

definition tokenExpiry :: "sess_record \<Rightarrow> time" where
  "tokenExpiry r =
    (let a = rc_AbsoluteExpiry r; i = rc_IdleExpiry r in
     if isZero a then i else if isZero i then a else if i < a then i else a)"

text \<open>The instruction given to the token transport.\<close>

datatype tok_instr = TokWrite string token_write_options | TokClear

definition commit_store :: "('s, 'x) sess_env_scheme \<Rightarrow> sess_manager \<Rightarrow> sess_state \<Rightarrow> 's \<Rightarrow>
    (sess_err + bool) \<times> sess_state \<times> 's" where
  "commit_store ev m st w =
    (if st_exists st \<and> st_renew st then
       (case rotateAtCommit ev m st w of (Some e, st1, w1) \<Rightarrow> (Inl e, st1, w1) | (None, st1, w1) \<Rightarrow> (Inr True, st1, w1))
     else if st_exists st \<and> length (staged_map st) > 0 then
       (case commitDirty ev m st w of (Some e, st1, w1) \<Rightarrow> (Inl e, st1, w1) | (None, st1, w1) \<Rightarrow> (Inr True, st1, w1))
     else if \<not> st_exists st \<and> pendingMint st then
       (case mintAtCommit ev m st w of (Some e, st1, w1) \<Rightarrow> (Inl e, st1, w1) | (None, st1, w1) \<Rightarrow> (Inr True, st1, w1))
     else if st_exists st then
       (case maybeBumpIdle ev m st w of (bumped, st1, w1) \<Rightarrow> (Inr (bumped \<or> st_tokenNeeded st1), st1, w1))
     else (Inr False, st, w))"

definition commit :: "('s, 'x) sess_env_scheme \<Rightarrow> sess_manager \<Rightarrow> sess_state \<Rightarrow> 's \<Rightarrow>
    (sess_err + tok_instr option) \<times> sess_state \<times> 's" where
  "commit ev m st0 w =
    (let st = st0\<lparr>st_responseStarted := True\<rparr>;
         (derr, clearNeeded, st1, w1) =
           (if st_destroyed st \<and> st_destroyedSID st \<noteq> [] then
              (case ev_Delete ev (st_destroyedSID st) w of
                 (Some e, w1) \<Rightarrow> (Some (redactSIDs e [st_destroyedSID st]), st_staleToken st, st, w1)
               | (None, w1) \<Rightarrow> (None, True, st\<lparr>st_destroyed := False, st_destroyedSID := []\<rparr>, w1))
            else (None, st_staleToken st, st, w))
     in case derr of
       Some e \<Rightarrow> (Inl e, st1, w1)
     | None \<Rightarrow>
         (case commit_store ev m st1 w1 of
            (Inl e, st2, w2) \<Rightarrow> (Inl e, st2, w2)
          | (Inr tokenWrite, st2, w2) \<Rightarrow>
              (Inr (if tokenWrite then
                      Some (TokWrite (rc_SID (st_record st2))
                        \<lparr>tw_Expiry = tokenExpiry (st_record st2), tw_Now = ev_now ev w2\<rparr>)
                    else if clearNeeded then Some TokClear else None), st2, w2)))"

section \<open>Typed handles (handle.go)\<close>

text \<open>A handle's type \<open>'t\<close> with its \<open>encoding/json\<close> codec and its zero value.\<close>

record 't handle =
  h_key :: string
  h_enc :: "'t \<Rightarrow> sess_err + cellRaw"
  h_dec :: "cellRaw \<Rightarrow> sess_err + 't"
  h_zero :: 't

definition h_encode :: "'t handle \<Rightarrow> 't \<Rightarrow> sess_err + cellRaw" where
  "h_encode h v = (case h_enc h v of
     Inl e \<Rightarrow> Inl (prefixErr (''session: cell '' @ h_key h @ '': encode: '') e) | Inr raw \<Rightarrow> Inr raw)"

definition h_decode :: "'t handle \<Rightarrow> cellRaw \<Rightarrow> sess_err + 't" where
  "h_decode h raw = (case h_dec h raw of
     Inl e \<Rightarrow> Inl (prefixErr (''session: cell '' @ h_key h @ '': decode: '') e) | Inr v \<Rightarrow> Inr v)"

definition decodePrev :: "'t handle \<Rightarrow> cellRaw option \<Rightarrow> sess_err + 't" where
  "decodePrev h prev = (case prev of None \<Rightarrow> Inr (h_zero h) | Some raw \<Rightarrow> h_decode h raw)"

definition rawFn :: "'t handle \<Rightarrow> ('t \<Rightarrow> 'z \<Rightarrow> (sess_err + 't) \<times> 'z) \<Rightarrow> cellRaw option \<Rightarrow> 'z \<Rightarrow> (sess_err + cellRaw) \<times> 'z" where
  "rawFn h fn prev z =
    (case decodePrev h prev of
       Inl e \<Rightarrow> (Inl e, z)
     | Inr v \<Rightarrow> (case fn v z of (Inl e, z1) \<Rightarrow> (Inl e, z1) | (Inr v', z1) \<Rightarrow> (h_encode h v', z1)))"

definition h_Get :: "('s, 'x) sess_env_scheme \<Rightarrow> 't handle \<Rightarrow> sess_state option \<Rightarrow> 's \<Rightarrow>
    (sess_err + 't) \<times> sess_state option \<times> 's" where
  "h_Get ev h ctx w =
    (case in_request ''Get'' (cellGet ev (h_key h)) ctx w of
       (Inl e, ctx1, w1) \<Rightarrow> (Inl e, ctx1, w1)
     | (Inr None, ctx1, w1) \<Rightarrow> (Inr (h_zero h), ctx1, w1)
     | (Inr (Some raw), ctx1, w1) \<Rightarrow> (h_decode h raw, ctx1, w1))"

definition h_Has :: "('s, 'x) sess_env_scheme \<Rightarrow> 't handle \<Rightarrow> sess_state option \<Rightarrow> 's \<Rightarrow>
    (sess_err + bool) \<times> sess_state option \<times> 's" where
  "h_Has ev h = in_request ''Has'' (cellHas ev (h_key h))"

definition h_Save :: "('s, 'x) sess_env_scheme \<Rightarrow> 't handle \<Rightarrow> 't \<Rightarrow> sess_state option \<Rightarrow> 's \<Rightarrow>
    (sess_err + unit) \<times> sess_state option \<times> 's" where
  "h_Save ev h v =
    in_request ''Save'' (\<lambda>st w.
      case checkStageable ''Save'' st of
        Some e \<Rightarrow> (Inl e, st, w)
      | None \<Rightarrow>
          (case h_encode h v of
             Inl e \<Rightarrow> (Inl e, st, w)
           | Inr raw \<Rightarrow> cellSave ev (h_key h) raw st w))"

definition h_Update :: "('s, 'x) sess_env_scheme \<Rightarrow> sess_manager \<Rightarrow> 't handle \<Rightarrow>
    ('t \<Rightarrow> sess_state \<times> 's \<Rightarrow> (sess_err + 't) \<times> sess_state \<times> 's) \<Rightarrow> sess_state option \<Rightarrow> 's \<Rightarrow>
    (sess_err + unit) \<times> sess_state option \<times> 's" where
  "h_Update ev m h fn = in_request ''Update'' (cellUpdate ev m (h_key h) (rawFn h fn))"

definition h_Clear :: "('s, 'x) sess_env_scheme \<Rightarrow> 't handle \<Rightarrow> sess_state option \<Rightarrow> 's \<Rightarrow>
    (sess_err + unit) \<times> sess_state option \<times> 's" where
  "h_Clear ev h = in_request ''Clear'' (cellClear ev (h_key h))"

definition h_GetSID :: "('s, 'x) sess_env_scheme \<Rightarrow> 't handle \<Rightarrow> string \<Rightarrow> 's \<Rightarrow> (sess_err + 't) \<times> 's" where
  "h_GetSID ev h sid w =
    (case loadCell ev sid (h_key h) w of
       (Inl e, w1) \<Rightarrow> (Inl e, w1)
     | (Inr None, w1) \<Rightarrow> (Inr (h_zero h), w1)
     | (Inr (Some raw), w1) \<Rightarrow> (h_decode h raw, w1))"

definition h_UpdateSID :: "('s, 'x) sess_env_scheme \<Rightarrow> sess_manager \<Rightarrow> 't handle \<Rightarrow> string \<Rightarrow>
    ('t \<Rightarrow> 's \<Rightarrow> (sess_err + 't) \<times> 's) \<Rightarrow> 's \<Rightarrow> sess_err option \<times> 's" where
  "h_UpdateSID ev m h sid fn = updateCellSID ev m sid (h_key h) (rawFn h fn)"

definition h_ClearSID :: "('s, 'x) sess_env_scheme \<Rightarrow> sess_manager \<Rightarrow> 't handle \<Rightarrow> string \<Rightarrow> 's \<Rightarrow> sess_err option \<times> 's" where
  "h_ClearSID ev m h sid = clearCellSID ev m sid (h_key h)"

section \<open>The application's own cell (app.go)\<close>

definition pinApp :: "cell_type \<Rightarrow> sess_manager \<Rightarrow> sess_err option \<times> sess_manager" where
  "pinApp t m =
    (if mg_appT m = Some t then (None, m)
     else case checkCellType t ''app-cell access'' of
       Some e \<Rightarrow> (Some e, m)
     | None \<Rightarrow>
         (case sess_register appKey t m of
            (Some e, m1) \<Rightarrow> (Some e, m1)
          | (None, m1) \<Rightarrow> (None, m1\<lparr>mg_appT := Some t\<rparr>)))"

definition appHandle :: "'t handle \<Rightarrow> 't handle" where
  "appHandle h = h\<lparr>h_key := appKey\<rparr>"

definition app_Get :: "('s, 'x) sess_env_scheme \<Rightarrow> cell_type \<Rightarrow> 't handle \<Rightarrow> sess_manager \<Rightarrow> sess_state option \<Rightarrow> 's \<Rightarrow>
    (sess_err + 't) \<times> sess_manager \<times> sess_state option \<times> 's" where
  "app_Get ev t h m ctx w =
    (case pinApp t m of
       (Some e, m1) \<Rightarrow> (Inl e, m1, ctx, w)
     | (None, m1) \<Rightarrow> (case h_Get ev (appHandle h) ctx w of (r, ctx1, w1) \<Rightarrow> (r, m1, ctx1, w1)))"

definition app_Save :: "('s, 'x) sess_env_scheme \<Rightarrow> cell_type \<Rightarrow> 't handle \<Rightarrow> 't \<Rightarrow> sess_manager \<Rightarrow> sess_state option \<Rightarrow> 's \<Rightarrow>
    (sess_err + unit) \<times> sess_manager \<times> sess_state option \<times> 's" where
  "app_Save ev t h v m ctx w =
    (case pinApp t m of
       (Some e, m1) \<Rightarrow> (Inl e, m1, ctx, w)
     | (None, m1) \<Rightarrow> (case h_Save ev (appHandle h) v ctx w of (r, ctx1, w1) \<Rightarrow> (r, m1, ctx1, w1)))"

definition app_Update :: "('s, 'x) sess_env_scheme \<Rightarrow> cell_type \<Rightarrow> 't handle \<Rightarrow>
    ('t \<Rightarrow> sess_state \<times> 's \<Rightarrow> (sess_err + 't) \<times> sess_state \<times> 's) \<Rightarrow> sess_manager \<Rightarrow> sess_state option \<Rightarrow> 's \<Rightarrow>
    (sess_err + unit) \<times> sess_manager \<times> sess_state option \<times> 's" where
  "app_Update ev t h fn m ctx w =
    (case pinApp t m of
       (Some e, m1) \<Rightarrow> (Inl e, m1, ctx, w)
     | (None, m1) \<Rightarrow> (case h_Update ev m1 (appHandle h) fn ctx w of (r, ctx1, w1) \<Rightarrow> (r, m1, ctx1, w1)))"

definition app_GetSID :: "('s, 'x) sess_env_scheme \<Rightarrow> cell_type \<Rightarrow> 't handle \<Rightarrow> string \<Rightarrow> sess_manager \<Rightarrow> 's \<Rightarrow>
    (sess_err + 't) \<times> sess_manager \<times> 's" where
  "app_GetSID ev t h sid m w =
    (case pinApp t m of
       (Some e, m1) \<Rightarrow> (Inl e, m1, w)
     | (None, m1) \<Rightarrow> (case h_GetSID ev (appHandle h) sid w of (r, w1) \<Rightarrow> (r, m1, w1)))"

definition app_UpdateSID :: "('s, 'x) sess_env_scheme \<Rightarrow> cell_type \<Rightarrow> 't handle \<Rightarrow> string \<Rightarrow>
    ('t \<Rightarrow> 's \<Rightarrow> (sess_err + 't) \<times> 's) \<Rightarrow> sess_manager \<Rightarrow> 's \<Rightarrow> sess_err option \<times> sess_manager \<times> 's" where
  "app_UpdateSID ev t h sid fn m w =
    (case pinApp t m of
       (Some e, m1) \<Rightarrow> (Some e, m1, w)
     | (None, m1) \<Rightarrow> (case h_UpdateSID ev m1 (appHandle h) sid fn w of (r, w1) \<Rightarrow> (r, m1, w1)))"

section \<open>Invariant of the request state\<close>

text \<open>
  Nothing is staged or decoded before the session was looked up; a staged write on an established
  session means its payload decoded; a state without a session has no stored cells.
\<close>

definition st_inv :: "sess_state \<Rightarrow> bool" where
  "st_inv st \<longleftrightarrow>
     gomap_wf (staged_map st) \<and>
     (\<not> st_loaded st \<longrightarrow> \<not> st_exists st \<and> staged_map st = [] \<and> \<not> st_cellsDecoded st) \<and>
     (st_exists st \<and> staged_map st \<noteq> [] \<longrightarrow> st_cellsDecoded st \<and> st_envErr st = None) \<and>
     (\<not> st_exists st \<longrightarrow> st_cells st = [] \<and> st_envErr st = None) \<and>
     (\<not> st_cellsDecoded st \<longrightarrow> st_envErr st = None)"

lemma staged_map_update [simp]:
  "staged_map (st\<lparr>st_staged := None\<rparr>) = []"
  "staged_map (st\<lparr>st_staged := Some xs\<rparr>) = xs"
  "staged_map (st\<lparr>st_arrivedSID := s\<rparr>) = staged_map st"
  "staged_map (st\<lparr>st_staleToken := b\<rparr>) = staged_map st"
  "staged_map (st\<lparr>st_loaded := b\<rparr>) = staged_map st"
  "staged_map (st\<lparr>st_exists := b\<rparr>) = staged_map st"
  "staged_map (st\<lparr>st_record := q\<rparr>) = staged_map st"
  "staged_map (st\<lparr>st_cells := cs\<rparr>) = staged_map st"
  "staged_map (st\<lparr>st_cellsDecoded := b\<rparr>) = staged_map st"
  "staged_map (st\<lparr>st_envErr := e\<rparr>) = staged_map st"
  "staged_map (st\<lparr>st_destroyed := b\<rparr>) = staged_map st"
  "staged_map (st\<lparr>st_destroyedSID := s\<rparr>) = staged_map st"
  "staged_map (st\<lparr>st_renew := b\<rparr>) = staged_map st"
  "staged_map (st\<lparr>st_promote := b\<rparr>) = staged_map st"
  "staged_map (st\<lparr>st_promotedID := s\<rparr>) = staged_map st"
  "staged_map (st\<lparr>st_tokenNeeded := b\<rparr>) = staged_map st"
  "staged_map (st\<lparr>st_responseStarted := b\<rparr>) = staged_map st"
  by (simp_all add: staged_map_def)

lemma staged_map_delete [simp]:
  "staged_map (st\<lparr>st_staged := map_option (godel key) (st_staged st)\<rparr>) = godel key (staged_map st)"
  by (simp add: staged_map_def split: option.splits)

lemma st_inv_new: "st_inv (newState sid)"
  by (simp add: st_inv_def newState_def staged_map_def)

lemma st_inv_ensureLoaded:
  "st_inv st \<Longrightarrow> ensureLoaded ev st w = (e, st1, w1) \<Longrightarrow> st_inv st1 \<and> (e = None \<longrightarrow> st_loaded st1)"
  by (auto simp: ensureLoaded_def st_inv_def split: if_splits prod.splits sum.splits)

lemma st_inv_decodeCells:
  "st_inv st \<Longrightarrow> st_loaded st \<Longrightarrow> decodeCells ev st = (e, st1) \<Longrightarrow>
   st_inv st1 \<and> st_loaded st1 \<and> st_exists st1 = st_exists st \<and> staged_map st1 = staged_map st \<and>
   st_cellsDecoded st1 \<and> st_envErr st1 = e"
  by (auto simp: decodeCells_def st_inv_def Let_def split: if_splits sum.splits)

lemma staged_map_stage [simp]: "staged_map (stage key raw st) = goput key raw (staged_map st)"
  by (auto simp: stage_def staged_map_def Let_def split: option.splits)

lemma stage_simps [simp]:
  "st_loaded (stage key raw st) = st_loaded st" "st_exists (stage key raw st) = st_exists st"
  "st_cells (stage key raw st) = st_cells st" "st_cellsDecoded (stage key raw st) = st_cellsDecoded st"
  "st_envErr (stage key raw st) = st_envErr st" "st_record (stage key raw st) = st_record st"
  "st_responseStarted (stage key raw st) = st_responseStarted st"
  by (simp_all add: stage_def Let_def)

lemma st_inv_stage:
  "st_inv st \<Longrightarrow> st_loaded st \<Longrightarrow> (st_exists st \<Longrightarrow> st_cellsDecoded st \<and> st_envErr st = None) \<Longrightarrow> st_inv (stage key raw st)"
  by (auto simp: st_inv_def intro: gomap_wf_goput)

lemma mergedView_lookup:
  "gomap_wf (staged_map st) \<Longrightarrow> map_of (mergedView st) k =
    (case map_of (staged_map st) k of Some v \<Rightarrow> v | None \<Rightarrow> map_of (st_cells st) k)"
proof -
  have "gomap_wf ss \<Longrightarrow> map_of (fold overlay ss cs) k = (case map_of ss k of Some v \<Rightarrow> v | None \<Rightarrow> map_of cs k)"
    for ss :: "(string, cellRaw option) gomap" and cs
  proof (induction ss arbitrary: cs)
    case (Cons a ss)
    obtain k' v where a: "a = (k', v)" by (cases a)
    have "map_of ss k' = None" using Cons.prems by (simp add: a map_of_eq_None_iff image_iff)
    then show ?case using Cons by (cases v) (auto simp: a split: option.splits simp del: map_of_eq_None_iff)
  qed simp
  then show "gomap_wf (staged_map st) \<Longrightarrow> ?thesis" by (simp add: mergedView_def)
qed

text \<open>The two prologues every operation starts with, as elimination rules.\<close>

lemma loaded_elim:
  assumes "(case ensureLoaded ev st w of (Some e, s1, w1) \<Rightarrow> (Inl e, s1, w1) | (None, s1, w1) \<Rightarrow> G s1 w1) = (r, st', w')"
    and "st_inv st"
    and "\<And>s1 w1. st_inv s1 \<Longrightarrow> st_loaded s1 \<Longrightarrow> ensureLoaded ev st w = (None, s1, w1) \<Longrightarrow> G s1 w1 = (r, st', w') \<Longrightarrow> P"
    and "\<And>e. st_inv st' \<Longrightarrow> ensureLoaded ev st w = (Some e, st', w') \<Longrightarrow> r = Inl e \<Longrightarrow> P"
  shows P
proof -
  obtain e s1 w1 where l: "ensureLoaded ev st w = (e, s1, w1)" by (rule prod_cases3)
  then show P using assms st_inv_ensureLoaded [OF assms(2) l] by (cases e) auto
qed

lemma decode_elim:
  assumes "(case decodeCells ev st of (Some e, s1) \<Rightarrow> (Inl e, s1, w) | (None, s1) \<Rightarrow> G s1) = (r, st', w')"
    and "st_inv st" "st_loaded st"
    and "\<And>s1. st_inv s1 \<Longrightarrow> st_loaded s1 \<Longrightarrow> st_exists s1 = st_exists st \<Longrightarrow> staged_map s1 = staged_map st \<Longrightarrow>
      st_cellsDecoded s1 \<Longrightarrow> st_envErr s1 = None \<Longrightarrow> decodeCells ev st = (None, s1) \<Longrightarrow> G s1 = (r, st', w') \<Longrightarrow> P"
    and "\<And>e. st_inv st' \<Longrightarrow> st_loaded st' \<Longrightarrow> decodeCells ev st = (Some e, st') \<Longrightarrow> r = Inl e \<Longrightarrow> P"
  shows P
proof -
  obtain e s1 where d: "decodeCells ev st = (e, s1)" by (rule prod.exhaust)
  then show P using assms st_inv_decodeCells [OF assms(2,3) d] by (cases e) auto
qed

text \<open>Every operation keeps the invariant.\<close>

lemma st_inv_cellGet: "st_inv st \<Longrightarrow> cellGet ev key st w = (r, st1, w1) \<Longrightarrow> st_inv st1"
  unfolding cellGet_def by (erule (1) loaded_elim) (auto elim!: decode_elim split: option.splits)

lemma st_inv_cellHas: "st_inv st \<Longrightarrow> cellHas ev key st w = (r, st1, w1) \<Longrightarrow> st_inv st1"
  unfolding cellHas_def by (erule (1) loaded_elim) (auto elim!: decode_elim split: option.splits)

lemma decodeIfExists_eq:
  "(case decodeIfExists ev st of (Some e, s1) \<Rightarrow> F e s1 | (None, s1) \<Rightarrow> G s1) =
   (if st_exists st then (case decodeCells ev st of (Some e, s1) \<Rightarrow> F e s1 | (None, s1) \<Rightarrow> G s1) else G st)"
  by (simp add: decodeIfExists_def)

lemma st_inv_cellSave:
  "st_inv st \<Longrightarrow> cellSave ev key raw st w = (r, st1, w1) \<Longrightarrow> st_inv st1"
  unfolding cellSave_def decodeIfExists_eq
  by (cases "st_responseStarted st"; simp; erule (1) loaded_elim)
    (auto elim!: decode_elim intro!: st_inv_stage split: if_splits)

lemma st_inv_staged_decoded:
  "st_inv st \<Longrightarrow> map_of (staged_map st) key = Some v \<Longrightarrow> st_exists st \<Longrightarrow> st_cellsDecoded st \<and> st_envErr st = None"
  by (auto simp: st_inv_def)

lemma st_inv_clear_staged:
  "st_inv st \<Longrightarrow> st_loaded st \<Longrightarrow> map_of (staged_map st) key = Some v \<Longrightarrow> st_inv (stage key None st)"
  by (rule st_inv_stage) (auto dest: st_inv_staged_decoded)

lemma st_inv_cellClear:
  assumes i: "st_inv st" and r: "cellClear ev key st w = (r, st1, w1)"
  shows "st_inv st1"
proof (cases "st_responseStarted st")
  case True
  then show ?thesis using assms by (simp add: cellClear_def)
next
  case False
  obtain e s2 w2 where l: "ensureLoaded ev st w = (e, s2, w2)" by (rule prod_cases3)
  have s2: "st_inv s2" "e = None \<Longrightarrow> st_loaded s2" using st_inv_ensureLoaded [OF i l] by auto
  obtain e3 s3 where d: "decodeCells ev s2 = (e3, s3)" by (rule prod.exhaust)
  show ?thesis
  proof (cases e)
    case (Some x)
    then show ?thesis using r False l s2 by (simp add: cellClear_def)
  next
    case e: None
    note s3 = st_inv_decodeCells [OF s2(1) s2(2) [OF e] d]
    show ?thesis
    proof (cases "map_of (staged_map s2) key")
      case (Some v)
      then show ?thesis using r False l e s2 st_inv_clear_staged [OF s2(1) s2(2) [OF e] Some]
        by (simp add: cellClear_def split: if_splits)
    next
      case None
      show ?thesis
        using r False l e None d s2 s3 st_inv_stage [of s3 key None]
        by (cases e3) (simp_all add: cellClear_def split: if_splits del: map_of_eq_None_iff)
    qed
  qed
qed

lemma st_inv_flags [simp]:
  "st_inv (st\<lparr>st_renew := b\<rparr>) = st_inv st"
  "st_inv (st\<lparr>st_promote := b\<rparr>) = st_inv st"
  "st_inv (st\<lparr>st_promotedID := s\<rparr>) = st_inv st"
  "st_inv (st\<lparr>st_responseStarted := b\<rparr>) = st_inv st"
  "st_inv (st\<lparr>st_destroyed := b\<rparr>) = st_inv st"
  "st_inv (st\<lparr>st_destroyedSID := s\<rparr>) = st_inv st"
  "st_inv (st\<lparr>st_tokenNeeded := b\<rparr>) = st_inv st"
  by (simp_all add: st_inv_def)

lemma st_inv_Renew: "st_inv st \<Longrightarrow> Renew ev st w = (r, st1, w1) \<Longrightarrow> st_inv st1"
  unfolding Renew_def
  by (cases "st_responseStarted st"; simp; erule (1) loaded_elim) (auto split: if_splits)

lemma st_inv_Promote: "st_inv st \<Longrightarrow> Promote ev u st w = (r, st1, w1) \<Longrightarrow> st_inv st1"
  unfolding Promote_def Let_def
  by (cases "st_responseStarted st"; simp; erule (1) loaded_elim) (auto split: if_splits)

lemma st_inv_destroyState: "st_loaded st \<Longrightarrow> st_inv (destroyState st)"
  unfolding destroyState_def Let_def st_inv_def by simp

lemma st_inv_Destroy: "st_inv st \<Longrightarrow> Destroy ev st w = (r, st1, w1) \<Longrightarrow> st_inv st1"
  unfolding Destroy_def
  by (cases "st_responseStarted st"; simp; erule (1) loaded_elim) (auto intro: st_inv_destroyState)

lemma st_inv_SID: "st_inv st \<Longrightarrow> sess_SID ev st w = (r, st1, w1) \<Longrightarrow> st_inv st1"
  unfolding sess_SID_def by (erule (1) loaded_elim) auto

lemma st_inv_UserID: "st_inv st \<Longrightarrow> sess_UserID ev st w = (r, st1, w1) \<Longrightarrow> st_inv st1"
  unfolding sess_UserID_def by (erule (1) loaded_elim) auto

end
