(* ===== verification/SessionCommit.thy ===== *)
theory SessionCommit
  imports Session
begin

text \<open>
  What the session manager guarantees: the cells of a request behave as a map, the commit and the
  out-of-band updates are linearizable against the in-process store whatever else runs between
  their calls, rotation and logout, and the round trip of a saved value through the store into the
  next request. The store is the in-process one; \<open>sess_world\<close> holds it together with a script of
  what other parties do before each call.
\<close>

section \<open>The cells of a request are a map\<close>

abbreviation st_view :: "sess_state \<Rightarrow> string \<rightharpoonup> cellRaw" where
  "st_view st \<equiv> map_of (mergedView st)"

definition settled :: "sess_state \<Rightarrow> bool" where
  "settled st \<longleftrightarrow> st_inv st \<and> st_loaded st \<and> \<not> st_responseStarted st \<and>
     (st_exists st \<longrightarrow> st_cellsDecoded st \<and> st_envErr st = None)"

lemma settled_ensureLoaded: "settled st \<Longrightarrow> ensureLoaded ev st w = (None, st, w)"
  by (simp add: settled_def ensureLoaded_def)

lemma settled_lookup:
  "settled st \<Longrightarrow> st_view st k = (case map_of (staged_map st) k of Some v \<Rightarrow> v | None \<Rightarrow> map_of (st_cells st) k)"
  by (rule mergedView_lookup) (simp add: settled_def st_inv_def)

lemma settled_decode:
  assumes "settled st"
  shows "\<exists>s1. decodeCells ev st = (None, s1) \<and> settled s1 \<and> mergedView s1 = mergedView st \<and> st_cells s1 = st_cells st"
  using assms by (auto simp: settled_def decodeCells_def st_inv_def mergedView_def Let_def)

lemma settled_stage:
  assumes "settled st"
  shows "settled (stage key raw st)" "st_view (stage key raw st) = (st_view st)(key := raw)"
proof -
  show s: "settled (stage key raw st)"
    using assms by (auto simp: settled_def intro!: st_inv_stage)
  show "st_view (stage key raw st) = (st_view st)(key := raw)"
    by (rule ext) (simp add: settled_lookup [OF s] settled_lookup [OF assms] split: option.splits)
qed

datatype cell_op = CGet string | CHas string | CSave string cellRaw | CClear string
datatype cell_res = RVal "cellRaw option" | RBool bool | RUnit

fun cell_call :: "('s, 'x) sess_env_scheme \<Rightarrow> cell_op \<Rightarrow> sess_state \<Rightarrow> 's \<Rightarrow> (sess_err + cell_res) \<times> sess_state \<times> 's" where
  "cell_call ev (CGet k) st w = (case cellGet ev k st w of (r, st1, w1) \<Rightarrow> (map_sum id RVal r, st1, w1))"
| "cell_call ev (CHas k) st w = (case cellHas ev k st w of (r, st1, w1) \<Rightarrow> (map_sum id RBool r, st1, w1))"
| "cell_call ev (CSave k v) st w = (case cellSave ev k v st w of (r, st1, w1) \<Rightarrow> (map_sum id (\<lambda>_. RUnit) r, st1, w1))"
| "cell_call ev (CClear k) st w = (case cellClear ev k st w of (r, st1, w1) \<Rightarrow> (map_sum id (\<lambda>_. RUnit) r, st1, w1))"

fun cell_calls :: "('s, 'x) sess_env_scheme \<Rightarrow> cell_op list \<Rightarrow> sess_state \<Rightarrow> 's \<Rightarrow>
    (sess_err + cell_res) list \<times> sess_state \<times> 's" where
  "cell_calls ev [] st w = ([], st, w)"
| "cell_calls ev (op # ops) st w =
    (case cell_call ev op st w of (r, st1, w1) \<Rightarrow>
       (case cell_calls ev ops st1 w1 of (rs, st2, w2) \<Rightarrow> (r # rs, st2, w2)))"

text \<open>The specification: one map per request.\<close>

fun map_call :: "cell_op \<Rightarrow> (string \<rightharpoonup> cellRaw) \<Rightarrow> cell_res \<times> (string \<rightharpoonup> cellRaw)" where
  "map_call (CGet k) f = (RVal (f k), f)"
| "map_call (CHas k) f = (RBool (f k \<noteq> None), f)"
| "map_call (CSave k v) f = (RUnit, f(k \<mapsto> v))"
| "map_call (CClear k) f = (RUnit, f(k := None))"

fun map_calls :: "cell_op list \<Rightarrow> (string \<rightharpoonup> cellRaw) \<Rightarrow> cell_res list \<times> (string \<rightharpoonup> cellRaw)" where
  "map_calls [] f = ([], f)"
| "map_calls (op # ops) f = (case map_call op f of (r, f1) \<Rightarrow> (case map_calls ops f1 of (rs, f2) \<Rightarrow> (r # rs, f2)))"

lemma cell_call_refines:
  assumes s: "settled st"
  shows "\<exists>st1. cell_call ev op st w = (Inr (fst (map_call op (st_view st))), st1, w) \<and> settled st1 \<and>
    st_view st1 = snd (map_call op (st_view st))"
proof -
  note l = settled_ensureLoaded [OF s, of ev w] and look = settled_lookup [OF s]
  obtain s1 where d: "decodeCells ev st = (None, s1)" "settled s1" "mergedView s1 = mergedView st"
    "st_cells s1 = st_cells st" using settled_decode [OF s, of ev] by blast
  have ns: "\<not> st_responseStarted st" using s by (simp add: settled_def)
  show ?thesis
  proof (cases op)
    case (CGet k)
    then show ?thesis using s d by (cases "map_of (staged_map st) k") (simp_all add: cellGet_def l look)
  next
    case (CHas k)
    then show ?thesis using s d by (cases "map_of (staged_map st) k") (simp_all add: cellHas_def l look)
  next
    case (CSave k v)
    show ?thesis
    proof (cases "st_exists st")
      case True
      then show ?thesis using CSave d ns settled_stage [OF d(2), of k "Some v"]
        by (simp add: cellSave_def l decodeIfExists_def)
    next
      case False
      then show ?thesis using CSave ns settled_stage [OF s, of k "Some v"]
        by (simp add: cellSave_def l decodeIfExists_def)
    qed
  next
    case (CClear k)
    show ?thesis
    proof (cases "map_of (staged_map st) k")
      case (Some v)
      then have "v = None \<Longrightarrow> (st_view st)(k := None) = st_view st" by (auto simp: look)
      then show ?thesis using CClear Some ns s settled_stage [OF s, of k None]
        by (cases v) (simp_all add: cellClear_def l)
    next
      case None
      have keep: "map_of (st_cells st) k = None \<Longrightarrow> (st_view st)(k := None) = st_view st"
        using None by (auto simp: look simp del: map_of_eq_None_iff)
      show ?thesis
      proof (cases "st_exists st")
        case True
        then show ?thesis using CClear None ns d keep settled_stage [OF d(2), of k None]
          by (cases "map_of (st_cells st) k") (simp_all add: cellClear_def l del: map_of_eq_None_iff)
      next
        case False
        then have "st_cells st = []" using s by (simp add: settled_def st_inv_def)
        then show ?thesis using CClear None ns False s keep by (simp add: cellClear_def l del: map_of_eq_None_iff)
      qed
    qed
  qed
qed

lemma cell_calls_refine:
  "settled st \<Longrightarrow> \<exists>st1. cell_calls ev ops st w = (map Inr (fst (map_calls ops (st_view st))), st1, w) \<and> settled st1 \<and>
    st_view st1 = snd (map_calls ops (st_view st))"
proof (induction ops arbitrary: st)
  case (Cons op ops)
  obtain s1 where 1: "cell_call ev op st w = (Inr (fst (map_call op (st_view st))), s1, w)" "settled s1"
    "st_view s1 = snd (map_call op (st_view st))"
    using cell_call_refines [OF Cons.prems, of ev op w] by blast
  obtain s2 where 2: "cell_calls ev ops s1 w = (map Inr (fst (map_calls ops (st_view s1))), s2, w)" "settled s2"
    "st_view s2 = snd (map_calls ops (st_view s1))"
    using Cons.IH [OF 1(2)] by blast
  show ?case using 1 2 by (simp add: case_prod_unfold)
qed simp

lemma settled_first_get:
  assumes "cellGet ev k (newState sid) w0 = (Inr v, st, w)"
  shows "settled st \<and> v = st_view st k"
proof -
  have i: "st_inv (newState sid)" by (rule st_inv_new)
  obtain s1 where l: "ensureLoaded ev (newState sid) w0 = (None, s1, w)" "st_inv s1" "st_loaded s1"
      "staged_map s1 = []" "\<not> st_responseStarted s1"
    and g: "(case decodeCells ev s1 of (Some e, st2) \<Rightarrow> (Inl e, st2, w)
      | (None, st2) \<Rightarrow> (Inr (map_of (st_cells st2) k), st2, w)) = (Inr v, st, w)"
  proof -
    obtain e s1 w1 where l: "ensureLoaded ev (newState sid) w0 = (e, s1, w1)" by (rule prod_cases3)
    have s: "staged_map s1 = []" "\<not> st_responseStarted s1"
      using l by (auto simp: ensureLoaded_def newState_def staged_map_def split: if_splits prod.splits sum.splits)
    have e: "e = None" using assms l by (cases e) (simp_all add: cellGet_def)
    obtain e2 s2 where d: "decodeCells ev s1 = (e2, s2)" by (rule prod.exhaust)
    have w: "w1 = w" using assms l e s d by (cases e2) (simp_all add: cellGet_def)
    show ?thesis
      using that [of s1] assms l s e w st_inv_ensureLoaded [OF i l] by (simp add: cellGet_def)
  qed
  have "\<not> st_responseStarted (snd (decodeCells ev s1))"
    using l(5) by (simp add: decodeCells_def Let_def split: sum.splits)
  with g show ?thesis
    by (elim decode_elim [OF _ l(2,3)]) (use l(4) in \<open>auto simp: settled_def mergedView_lookup\<close>)
qed

lemma first_get_unstaged:
  assumes "cellGet ev k (newState sid) w0 = (Inr v, st, w)"
  shows "staged_map st = []"
proof -
  obtain e s1 w1 where l: "ensureLoaded ev (newState sid) w0 = (e, s1, w1)" by (rule prod_cases3)
  have s: "staged_map s1 = []"
    using l by (auto simp: ensureLoaded_def newState_def staged_map_def split: if_splits prod.splits sum.splits)
  obtain e2 s2 where d: "decodeCells ev s1 = (e2, s2)" by (rule prod.exhaust)
  have "staged_map s2 = []" using d s by (auto simp: decodeCells_def Let_def split: if_splits sum.splits)
  moreover have "st = s2" using assms l s d by (cases e; cases e2) (simp_all add: cellGet_def)
  ultimately show ?thesis by simp
qed

text \<open>The cells that a request presenting \<open>sid\<close> has in the store: those its record's payload encodes, none when there is no
  such session or its payload is empty. There are none to speak of (\<open>None\<close>) when the store or the payload is at fault.\<close>

definition stored_view :: "('s, 'x) sess_env_scheme \<Rightarrow> string \<Rightarrow> 's \<Rightarrow> (string \<rightharpoonup> cellRaw) option" where
  "stored_view ev sid w =
    (if sid = [] then Some Map.empty
     else case fst (ev_Load ev sid w) of
         Inl e \<Rightarrow> if errIs e = Some ErrNotFound then Some Map.empty else None
       | Inr r \<Rightarrow>
           if rc_Payload r = [] then Some Map.empty
           else (case ev_unmarshal ev (rc_Payload r) of Inl e \<Rightarrow> None | Inr cs \<Rightarrow> Some (map_of cs)))"

lemma first_get_view:
  assumes "cellGet ev k (newState sid) w0 = (Inr v, st, w)"
  shows "stored_view ev sid w0 = Some (st_view st)"
proof -
  have "stored_view ev sid w0 = Some (map_of (st_cells st))"
    using assms
    by (auto simp: cellGet_def ensureLoaded_def newState_def staged_map_def decodeCells_def decodeEnvelope_def stored_view_def Let_def
        split: if_splits prod.splits sum.splits)
  moreover have "settled st" using settled_first_get [OF assms] by simp
  then have "st_view st = map_of (st_cells st)" by (intro ext) (simp add: mergedView_lookup first_get_unstaged [OF assms])
  ultimately show ?thesis by simp
qed

text \<open>C31: a request that has read a cell sees its session as a map from then on, and that map is the stored one. The
  request presents \<open>sid\<close>; the map \<open>M\<close> holds the cells that the payload of the record the store has under \<open>sid\<close> encodes, and
  none if there is no such session. The first read answers from \<open>M\<close>, and any sequence of \<open>Get\<close>, \<open>Has\<close>, \<open>Save\<close> and
  \<open>Clear\<close> on any cells after it answers exactly what the same sequence answers on \<open>M\<close>, without a further store access or
  error; what it leaves to be committed is the map that sequence leaves.\<close>

theorem sess_cells_refine_map:
  assumes "cellGet ev k (newState sid) w0 = (Inr v, st, w)"
  shows "\<exists>M st1. stored_view ev sid w0 = Some M \<and> v = M k \<and>
    cell_calls ev ops st w = (map Inr (fst (map_calls ops M)), st1, w) \<and> st_view st1 = snd (map_calls ops M)"
  using first_get_view [OF assms] settled_first_get [OF assms] cell_calls_refine [of st ev ops w] by blast

section \<open>The in-process store among other parties\<close>

text \<open>
  Before each store call of the request, other parties make the calls of the next entry of the
  script; the entry also holds the context's error, if any, and the clock. An exhausted script is a
  quiet store. \<open>sw_sids\<close> is what the identifier generator will return.
\<close>

type_synonym sess_turn = "sm_call list \<times> sess_err option \<times> time"

record sess_world =
  sw_mem :: sess_mem
  sw_turns :: "sess_turn list"
  sw_sids :: "(sess_err + string) list"
  sw_now :: time

definition next_turn :: "sess_world \<Rightarrow> sess_turn \<times> sess_world" where
  "next_turn w = (case sw_turns w of
      [] \<Rightarrow> (([], None, sw_now w), w)
    | (cs, ctx, now) # ts \<Rightarrow> ((cs, ctx, now), w\<lparr>sw_mem := sm_run cs (sw_mem w), sw_turns := ts, sw_now := now\<rparr>))"

definition mem_do :: "(sess_err option \<Rightarrow> time \<Rightarrow> sess_mem \<Rightarrow> 'a \<times> sess_mem) \<Rightarrow> sess_world \<Rightarrow> 'a \<times> sess_world" where
  "mem_do f w =
    (case next_turn w of ((cs, ctx, now), w1) \<Rightarrow>
       (case f ctx now (sw_mem w1) of (r, s) \<Rightarrow> (r, w1\<lparr>sw_mem := s\<rparr>)))"

definition mem_newSID :: "sess_world \<Rightarrow> (sess_err + string) \<times> sess_world" where
  "mem_newSID w = (case sw_sids w of [] \<Rightarrow> (Inl (newErr ''no entropy''), w) | r # rs \<Rightarrow> (r, w\<lparr>sw_sids := rs\<rparr>))"

definition mem_env :: "(cells \<Rightarrow> sess_err + payload) \<Rightarrow> (payload \<Rightarrow> sess_err + cells) \<Rightarrow> sess_world sess_env" where
  "mem_env marshal unmarshal = \<lparr>ev_now = sw_now, ev_newSID = mem_newSID,
     ev_Load = (\<lambda>sid. mem_do (\<lambda>ctx now. sm_Load ctx now sid)),
     ev_Save = (\<lambda>r. mem_do (\<lambda>ctx now. sm_Save ctx r)),
     ev_Delete = (\<lambda>sid. mem_do (\<lambda>ctx now. sm_Delete ctx sid)),
     ev_TTLBumper = Some (\<lambda>sid until. mem_do (\<lambda>ctx now. sm_BumpTTL ctx now sid until)),
     ev_ListByUser = Some (\<lambda>u. mem_do (\<lambda>ctx now s. (sm_ListByUser ctx now u s, s))),
     ev_RevokeByUser = Some (\<lambda>u except. mem_do (\<lambda>ctx now. sm_RevokeByUser ctx u except)),
     ev_marshal = marshal, ev_unmarshal = unmarshal\<rparr>"

lemma mem_env_simps [simp]:
  "ev_now (mem_env mar unm) = sw_now" "ev_newSID (mem_env mar unm) = mem_newSID"
  "ev_Load (mem_env mar unm) = (\<lambda>sid. mem_do (\<lambda>ctx now. sm_Load ctx now sid))"
  "ev_Save (mem_env mar unm) = (\<lambda>r. mem_do (\<lambda>ctx now. sm_Save ctx r))"
  "ev_Delete (mem_env mar unm) = (\<lambda>sid. mem_do (\<lambda>ctx now. sm_Delete ctx sid))"
  "ev_TTLBumper (mem_env mar unm) = Some (\<lambda>sid until. mem_do (\<lambda>ctx now. sm_BumpTTL ctx now sid until))"
  by (simp_all add: mem_env_def)

text \<open>The calls the script still holds, and what a world may be assumed to be: its store well-formed,
  fewer than \<open>2 ^ 64\<close> calls made and to come, and nobody else minting the identifier \<open>sid\<close>.\<close>

definition script :: "sess_world \<Rightarrow> sm_call list" where
  "script w = concat (map fst (sw_turns w))"

definition world_ok :: "string \<Rightarrow> nat \<Rightarrow> sess_world \<Rightarrow> bool" where
  "world_ok sid n w \<longleftrightarrow> sm_inv (sw_mem w) \<and> versions_upto n (sw_mem w) \<and>
     n + length (script w) < 2 ^ 64 - 1 \<and> list_all (\<lambda>c. \<not> inserts sid c) (script w)"

lemma next_turn_step:
  assumes "next_turn w = ((cs, ctx, now), w1)"
  shows "sw_mem w1 = sm_run cs (sw_mem w)" "script w = cs @ script w1" "sw_sids w1 = sw_sids w" "sw_now w1 = now"
  using assms by (auto simp: next_turn_def script_def split: list.splits prod.splits)

lemma next_turn_cases:
  obtains cs ctx now w1 where "next_turn w = ((cs, ctx, now), w1)"
proof -
  obtain t w1 where "next_turn w = (t, w1)" by (rule prod.exhaust)
  moreover obtain cs ctx now where "t = (cs, ctx, now)" by (rule prod_cases3)
  ultimately show ?thesis using that by simp
qed

lemma world_ok_turn:
  assumes "world_ok sid n w" "next_turn w = ((cs, ctx, now), w1)"
  shows "world_ok sid (n + length cs) w1"
  using assms(1) next_turn_step [OF assms(2)] versions_upto_run [of n "sw_mem w" cs]
  by (auto simp: world_ok_def sm_inv_run)

lemma overtaken_turn:
  assumes "world_ok (rc_SID r) n w" "next_turn w = ((cs, ctx, now), w1)" "overtaken_or_same r (sw_mem w)"
  shows "overtaken_or_same r (sw_mem w1)"
  using assms next_turn_step [OF assms(2)] by (auto simp: world_ok_def intro!: overtaken_run [where n = n])

text \<open>\<open>w\<close> evolves into \<open>w'\<close> through calls of the script and loads only.\<close>

definition others_only :: "sm_call list \<Rightarrow> sess_world \<Rightarrow> sess_world \<Rightarrow> bool" where
  "others_only cs w w' \<longleftrightarrow> sw_mem w' = sm_run cs (sw_mem w) \<and> set (script w') \<subseteq> set (script w) \<and>
     (\<forall>(ctx, now, op) \<in> set cs. (ctx, now, op) \<in> set (script w) \<or> (\<exists>sid. op = SLoad sid))"

lemma others_only_turn:
  "next_turn w = ((cs, ctx, now), w1) \<Longrightarrow> others_only cs w w1"
  using next_turn_step [of w cs ctx now w1] by (auto simp: others_only_def)

lemma others_only_trans:
  "others_only cs w w1 \<Longrightarrow> others_only ds w1 w2 \<Longrightarrow> others_only (cs @ ds) w w2"
  by (fastforce simp: others_only_def)

lemma others_only_load:
  "others_only cs w w1 \<Longrightarrow> others_only (cs @ [(ctx, now, SLoad sid)]) w (w1\<lparr>sw_mem := snd (sm_Load ctx now sid (sw_mem w1))\<rparr>)"
  by (auto simp: others_only_def script_def)

lemma versions_upto_load: "versions_upto n s \<Longrightarrow> versions_upto n (snd (sm_Load ctx now sid s))"
  by (auto simp: sm_Load_def versions_upto_def split: option.splits)

lemma sm_inv_load: "sm_inv s \<Longrightarrow> sm_inv (snd (sm_Load ctx now sid s))"
  by (auto simp: sm_Load_def sm_inv_deleteLocked split: option.splits)

text \<open>A conditional write with the version that was read: it succeeds only on the record that was
  read, and a failed one changes nothing.\<close>

lemma mem_save_outcome:
  assumes ok: "world_ok (rc_SID r) n w" and o: "overtaken_or_same r0 (sw_mem w)"
    and r: "rc_SID r = rc_SID r0" "rc_Version r = rc_Version r0" "rc_Version r \<noteq> 0"
    and s: "mem_do (\<lambda>ctx now. sm_Save ctx r) w = (res, w')"
  shows "(\<exists>e cs n'. res = Inl e \<and> others_only cs w w' \<and> world_ok (rc_SID r) n' w') \<or>
    (\<exists>cs w1 p. res = Inr (r\<lparr>rc_Version := rc_Version r + 1\<rparr>) \<and> others_only cs w w1 \<and>
       map_of (sm_records (sw_mem w1)) (rc_SID r) = Some p \<and> p = r0\<lparr>rc_IdleExpiry := rc_IdleExpiry p\<rparr> \<and>
       map_of (sm_records (sw_mem w')) =
         (map_of (sm_records (sw_mem w1)))(rc_SID r \<mapsto> r\<lparr>rc_Version := rc_Version r + 1\<rparr>))"
proof -
  obtain cs ctx now w1 where t: "next_turn w = ((cs, ctx, now), w1)" by (rule next_turn_cases)
  have ok1: "world_ok (rc_SID r) (n + length cs) w1" by (rule world_ok_turn [OF ok t])
  have o1: "overtaken_or_same r0 (sw_mem w1)" using overtaken_turn [OF _ t o] ok r(1) by simp
  show ?thesis
  proof (cases rule: sm_Save_cases [of ctx r "sw_mem w1"])
    case stored
    then obtain p where p: "map_of (sm_records (sw_mem w1)) (rc_SID r) = Some p" "rc_Version p = rc_Version r"
      using r(3) by (auto simp: save_allowed_def split: option.splits)
    then have "p = r0\<lparr>rc_IdleExpiry := rc_IdleExpiry p\<rparr>" using o1 r by (simp add: overtaken_or_same_def)
    moreover have "(res, w') = (Inr (r\<lparr>rc_Version := rc_Version r + 1\<rparr>),
        w1\<lparr>sw_mem := snd (sm_Save_put (map_of (sm_records (sw_mem w1)) (rc_SID r)) r (sw_mem w1))\<rparr>)"
      using s t stored(3) sm_Save_put_pair [of "map_of (sm_records (sw_mem w1)) (rc_SID r)" r "sw_mem w1"]
      by (simp add: mem_do_def case_prod_unfold)
    ultimately show ?thesis using p others_only_turn [OF t] by auto
  next
    case (refused e)
    then have "res = Inl e" "w' = w1" using s t by (simp_all add: mem_do_def)
    then show ?thesis using ok1 others_only_turn [OF t] by blast
  qed
qed

lemma mem_load_outcome:
  assumes ok: "world_ok sid n w" and s: "mem_do (\<lambda>ctx now. sm_Load ctx now sid) w = (res, w')"
  shows "\<exists>cs n'. others_only cs w w' \<and> world_ok sid n' w' \<and>
    (\<forall>r. res = Inr r \<longrightarrow> rc_SID r = sid \<and> rc_Version r \<noteq> 0 \<and> map_of (sm_records (sw_mem w')) sid = Some r)"
proof -
  obtain cs ctx now w1 where t: "next_turn w = ((cs, ctx, now), w1)" by (rule next_turn_cases)
  have ok1: "world_ok sid (n + length cs) w1" by (rule world_ok_turn [OF ok t])
  have w': "res = fst (sm_Load ctx now sid (sw_mem w1))" "w' = w1\<lparr>sw_mem := snd (sm_Load ctx now sid (sw_mem w1))\<rparr>"
    using s t by (simp_all add: mem_do_def case_prod_unfold)
  have "others_only (cs @ [(ctx, now, SLoad sid)]) w w'"
    unfolding w' by (rule others_only_load [OF others_only_turn [OF t]])
  moreover have "world_ok sid (n + length cs) w'"
    using ok1 unfolding w' by (simp add: world_ok_def versions_upto_load sm_inv_load script_def)
  moreover have "rc_SID r = sid \<and> rc_Version r \<noteq> 0 \<and> map_of (sm_records (sw_mem w')) sid = Some r" if "res = Inr r" for r
  proof -
    have m: "map_of (sm_records (sw_mem w1)) sid = Some r" "w' = w1"
      using that unfolding w' by (auto simp: sm_Load_def split: option.splits if_splits)
    moreover have "rc_SID r = sid" "0 < unat (rc_Version r)"
      using ok1 m(1) by (auto simp: world_ok_def sm_inv_def versions_upto_def)
    ultimately show ?thesis by auto
  qed
  ultimately show ?thesis by blast
qed

text \<open>One atomic read-modify-write of the record of \<open>sid\<close>, after calls of other parties.\<close>

definition atomic_update :: "('s, 'x) sess_env_scheme \<Rightarrow> string \<Rightarrow> (cells \<Rightarrow> cells) \<Rightarrow> sess_world \<Rightarrow> sess_world \<Rightarrow> bool" where
  "atomic_update ev sid f w w' \<longleftrightarrow>
    (\<exists>cs w1 p cells payload idle. others_only cs w w1 \<and>
       map_of (sm_records (sw_mem w1)) sid = Some p \<and>
       decodeEnvelope ev (freshPayload p) = Inr cells \<and> encodeEnvelope ev (f cells) = Inr payload \<and>
       map_of (sm_records (sw_mem w')) = (map_of (sm_records (sw_mem w1)))(sid \<mapsto>
         p\<lparr>rc_Version := rc_Version p + 1, rc_IdleExpiry := idle, rc_Payload := payload\<rparr>))"

lemma atomic_updateI:
  assumes "others_only cs w w1" "map_of (sm_records (sw_mem w1)) sid = Some p"
    and "decodeEnvelope ev (freshPayload p) = Inr cells" "encodeEnvelope ev (f cells) = Inr payload"
    and "map_of (sm_records (sw_mem w')) = (map_of (sm_records (sw_mem w1)))(sid \<mapsto>
         p\<lparr>rc_Version := rc_Version p + 1, rc_IdleExpiry := idle, rc_Payload := payload\<rparr>)"
  shows "atomic_update ev sid f w w'"
  unfolding atomic_update_def using assms by (intro exI conjI)

lemma atomic_update_after: "others_only cs w w1 \<Longrightarrow> atomic_update ev sid f w1 w' \<Longrightarrow> atomic_update ev sid f w w'"
  unfolding atomic_update_def by (blast intro: others_only_trans)

text \<open>What a request knows of the store: its record is the stored one or has been overtaken, and its
  cells are the decoded payload.\<close>

definition snapshot :: "('s, 'x) sess_env_scheme \<Rightarrow> sess_record \<Rightarrow> cells \<Rightarrow> sess_world \<Rightarrow> bool" where
  "snapshot ev r cells w \<longleftrightarrow> overtaken_or_same r (sw_mem w) \<and> rc_Version r \<noteq> 0 \<and>
     decodeEnvelope ev (freshPayload r) = Inr cells"

lemma idleExpiry_simps [simp]:
  "rc_SID (idleExpiry ev m w r) = rc_SID r" "rc_Version (idleExpiry ev m w r) = rc_Version r"
  "rc_UserID (idleExpiry ev m w r) = rc_UserID r" "rc_AbsoluteExpiry (idleExpiry ev m w r) = rc_AbsoluteExpiry r"
  "rc_Payload (idleExpiry ev m w r) = rc_Payload r"
  by (simp_all add: idleExpiry_def)

lemma idleExpiry_eq: "\<exists>t. idleExpiry ev m w r = r\<lparr>rc_IdleExpiry := t\<rparr>"
  unfolding idleExpiry_def by (cases r) auto

text \<open>The write of a merged payload over the snapshot, as \<open>commitDirty\<close> and \<open>cellUpdate\<close> do it.\<close>

lemma snapshot_save:
  assumes ok: "world_ok (rc_SID r0) n w" and s: "snapshot ev r0 cells w"
    and e: "encodeEnvelope ev (f cells) = Inr payload"
    and r: "r = r0\<lparr>rc_Payload := payload, rc_IdleExpiry := t\<rparr>"
    and sv: "mem_do (\<lambda>ctx now. sm_Save ctx r) w = (res, w')"
  shows "(\<exists>e cs n'. res = Inl e \<and> others_only cs w w' \<and> world_ok (rc_SID r0) n' w') \<or>
    (\<exists>q. res = Inr q) \<and> atomic_update ev (rc_SID r0) f w w'"
proof -
  have sid: "rc_SID r = rc_SID r0" "rc_Version r = rc_Version r0" by (simp_all add: r)
  consider (no) e cs n' where "res = Inl e" "others_only cs w w'" "world_ok (rc_SID r0) n' w'"
    | (yes) cs w1 p where "res = Inr (r\<lparr>rc_Version := rc_Version r + 1\<rparr>)" "others_only cs w w1"
       "map_of (sm_records (sw_mem w1)) (rc_SID r0) = Some p" "p = r0\<lparr>rc_IdleExpiry := rc_IdleExpiry p\<rparr>"
       "map_of (sm_records (sw_mem w')) =
         (map_of (sm_records (sw_mem w1)))(rc_SID r0 \<mapsto> r\<lparr>rc_Version := rc_Version r + 1\<rparr>)"
    using mem_save_outcome [where r = r and ?r0.0 = r0 and n = n and w = w and res = res and w' = w'] ok s sv sid
    by (auto simp: snapshot_def simp del: fun_upd_apply)
  then show ?thesis
  proof cases
    case no
    then show ?thesis by blast
  next
    case yes
    have "r\<lparr>rc_Version := rc_Version r + 1\<rparr> =
        p\<lparr>rc_Version := rc_Version p + 1, rc_IdleExpiry := t, rc_Payload := payload\<rparr>"
      using yes(4) unfolding r by (cases p; cases r0) auto
    moreover have "freshPayload p = freshPayload r0" by (subst yes(4)) (simp add: freshPayload_def)
    ultimately have "atomic_update ev (rc_SID r0) f w w'"
      using s e yes(5) by (intro atomic_updateI [OF yes(2,3)]) (simp_all add: snapshot_def)
    then show ?thesis using yes(1) by blast
  qed
qed

lemma snapshot_fresh:
  assumes ok: "world_ok sid n w" and l: "mem_do (\<lambda>ctx now. sm_Load ctx now sid) w = (Inr fresh, w2)"
    and d: "decodeEnvelope ev (freshPayload fresh) = Inr cells"
  shows "\<exists>cs n'. others_only cs w w2 \<and> world_ok (rc_SID fresh) n' w2 \<and> snapshot ev fresh cells w2 \<and>
    rc_SID fresh = sid"
proof -
  obtain cs n' where "others_only cs w w2" "world_ok sid n' w2" "rc_SID fresh = sid" "rc_Version fresh \<noteq> 0"
      "map_of (sm_records (sw_mem w2)) sid = Some fresh"
    using mem_load_outcome [OF ok l] by blast
  moreover from this have "overtaken_or_same fresh (sw_mem w2)" by (simp add: overtaken_or_same_def)
  ultimately show ?thesis using d unfolding snapshot_def by blast
qed

lemma commitDirty_reload_snapshot:
  assumes ok: "world_ok (rc_SID (st_record st)) n w"
    and r: "commitDirty_reload (mem_env mar unm) st w = (None, st2, w2)"
  shows "\<exists>cs n'. others_only cs w w2 \<and> world_ok (rc_SID (st_record st2)) n' w2 \<and> snapshot (mem_env mar unm) (st_record st2) (st_cells st2) w2 \<and>
    rc_SID (st_record st2) = rc_SID (st_record st) \<and> staged_map st2 = staged_map st"
proof -
  obtain res w1 where l: "mem_do (\<lambda>ctx now. sm_Load ctx now (rc_SID (st_record st))) w = (res, w1)" by (rule prod.exhaust)
  show ?thesis
  proof (cases res)
    case (Inr fresh)
    show ?thesis
    proof (cases "decodeEnvelope (mem_env mar unm) (freshPayload fresh)")
      case d: (Inr cells)
      have st2: "st2 = st\<lparr>st_record := fresh, st_cells := cells\<rparr>" "w2 = w1"
        using r l Inr d by (auto simp: commitDirty_reload_def)
      then show ?thesis
        using snapshot_fresh [OF ok l [unfolded Inr] d] by auto
    qed (use r l Inr in \<open>simp add: commitDirty_reload_def\<close>)
  qed (use r l in \<open>simp add: commitDirty_reload_def\<close>)
qed

lemma commitDirty_try_outcome:
  assumes ok: "world_ok (rc_SID (st_record st)) n w" and s: "snapshot (mem_env mar unm) (st_record st) (st_cells st) w"
  shows "case commitDirty_try (mem_env mar unm) m st w of
      Finished None st1 w1 \<Rightarrow> atomic_update (mem_env mar unm) (rc_SID (st_record st)) (fold overlay (staged_map st)) w w1
    | Finished (Some e) st1 w1 \<Rightarrow> True
    | Conflict e st1 w1 \<Rightarrow> st1 = st \<and> (\<exists>cs n'. others_only cs w w1 \<and> world_ok (rc_SID (st_record st)) n' w1)"
proof (cases "encodeEnvelope (mem_env mar unm) (mergedView st)")
  case (Inl e)
  then show ?thesis by (simp add: commitDirty_try_def)
next
  case (Inr payload)
  let ?r = "idleExpiry (mem_env mar unm) m w ((st_record st)\<lparr>rc_Payload := payload\<rparr>)"
  obtain res w1 where sv: "mem_do (\<lambda>ctx now. sm_Save ctx ?r) w = (res, w1)" by (rule prod.exhaust)
  have "encodeEnvelope (mem_env mar unm) (fold overlay (staged_map st) (st_cells st)) = Inr payload"
    using Inr by (simp add: mergedView_def)
  moreover obtain t where "?r = (st_record st)\<lparr>rc_Payload := payload, rc_IdleExpiry := t\<rparr>"
    using idleExpiry_eq [of "mem_env mar unm" m w "(st_record st)\<lparr>rc_Payload := payload\<rparr>"] by blast
  ultimately show ?thesis
    using snapshot_save [where f = "fold overlay (staged_map st)", OF ok s _ _ sv] Inr sv by (auto simp: commitDirty_try_def Let_def split: sum.splits)
qed

lemma commitDirty_loop_atomic:
  assumes "world_ok (rc_SID (st_record st)) n w" "snapshot (mem_env mar unm) (st_record st) (st_cells st) w"
    and "commitDirty_loop (mem_env mar unm) m k st w = (None, st', w')"
  shows "atomic_update (mem_env mar unm) (rc_SID (st_record st)) (fold overlay (staged_map st)) w w'"
  using assms
proof (induction k arbitrary: st w n)
  case 0
  note out = commitDirty_try_outcome [OF "0.prems"(1,2), of m]
  show ?case
  proof (cases "commitDirty_try (mem_env mar unm) m st w")
    case (Finished e st1 w1)
    then show ?thesis using out "0.prems"(3) by (cases e) (simp_all add: commitDirty_loop.simps)
  qed (use "0.prems"(3) in \<open>simp add: commitDirty_loop.simps\<close>)
next
  case (Suc k)
  note out = commitDirty_try_outcome [OF Suc.prems(1,2), of m]
  show ?case
  proof (cases "commitDirty_try (mem_env mar unm) m st w")
    case (Finished e st1 w1)
    then show ?thesis using out Suc.prems(3) by (cases e) (simp_all add: commitDirty_loop.simps)
  next
    case (Conflict e st1 w1)
    then obtain cs n1 where w1: "st1 = st" "others_only cs w w1" "world_ok (rc_SID (st_record st)) n1 w1"
      using out by auto
    obtain e2 st2 w2 where r: "commitDirty_reload (mem_env mar unm) st w1 = (e2, st2, w2)" by (rule prod_cases3)
    have "e2 = None" "commitDirty_loop (mem_env mar unm) m k st2 w2 = (None, st', w')"
      using Suc.prems(3) Conflict w1(1) r by (cases e2; simp add: commitDirty_loop.simps [of _ _ "Suc k"])+
    with commitDirty_reload_snapshot [OF w1(3)] r obtain ds n2 where
      "others_only ds w1 w2" "world_ok (rc_SID (st_record st2)) n2 w2" "snapshot (mem_env mar unm) (st_record st2) (st_cells st2) w2"
      "rc_SID (st_record st2) = rc_SID (st_record st)" "staged_map st2 = staged_map st" by blast
    with Suc.IH [OF this(2,3)] \<open>commitDirty_loop _ m k st2 w2 = _\<close> w1(2)
    show ?thesis by (simp add: atomic_update_after [OF others_only_trans])
  qed
qed

section \<open>A commit is one atomic update\<close>

text \<open>A cell operation changes nothing but the staged writes.\<close>

lemma settled_decode_keeps:
  assumes "settled st" "st_exists st"
  shows "decodeCells ev st = (None, st)"
  using assms by (simp add: settled_def decodeCells_def)

definition same_session :: "sess_state \<Rightarrow> sess_state \<Rightarrow> bool" where
  "same_session st st1 \<longleftrightarrow> st_record st1 = st_record st \<and> st_cells st1 = st_cells st \<and> st_exists st1 = st_exists st \<and>
     st_renew st1 = st_renew st \<and> st_destroyed st1 = st_destroyed st"

lemma same_session_stage: "same_session st (stage k raw st)"
  by (simp add: same_session_def stage_def Let_def)

lemma cell_call_same_session:
  assumes s: "settled st" "st_exists st"
  shows "same_session st (fst (snd (cell_call ev op st w)))"
proof -
  have "same_session st st" by (simp add: same_session_def)
  then show ?thesis
    using settled_ensureLoaded [OF s(1), of ev w] settled_decode_keeps [OF s, of ev] s same_session_stage
    by (cases op)
      (auto simp: cellGet_def cellHas_def cellSave_def cellClear_def decodeIfExists_def settled_def
        split: option.splits)
qed

lemma cell_calls_same_session:
  "settled st \<Longrightarrow> st_exists st \<Longrightarrow> same_session st (fst (snd (cell_calls ev ops st w)))"
proof (induction ops arbitrary: st)
  case Nil
  then show ?case by (simp add: same_session_def)
next
  case (Cons op ops)
  obtain s1 where 1: "cell_call ev op st w = (Inr (fst (map_call op (st_view st))), s1, w)" "settled s1"
    using cell_call_refines [OF Cons.prems(1), of ev op w] by blast
  then have "same_session st s1" using cell_call_same_session [OF Cons.prems, of ev op w] by simp
  then show ?case using 1 Cons.IH [of s1] Cons.prems by (simp add: case_prod_unfold same_session_def)
qed

lemma first_get_snapshot:
  assumes ok: "world_ok sid n w0" and g: "cellGet (mem_env mar unm) k (newState sid) w0 = (Inr v, st, w)"
    and x: "st_exists st" and u: "unm ''{}'' = Inr []"
  shows "\<exists>n'. world_ok sid n' w \<and> snapshot (mem_env mar unm) (st_record st) (st_cells st) w \<and> rc_SID (st_record st) = sid \<and>
    \<not> st_renew st \<and> \<not> st_destroyed st"
proof -
  let ?ev = "mem_env mar unm"
  obtain res w1 where l: "mem_do (\<lambda>ctx now. sm_Load ctx now sid) w0 = (res, w1)" by (rule prod.exhaust)
  have sid: "sid \<noteq> []"
    using g x by (auto simp: cellGet_def ensureLoaded_def newState_def staged_map_def decodeCells_def)
  have e: "ensureLoaded ?ev (newState sid) w0 = (case res of
      Inl e \<Rightarrow> if errIs e = Some ErrNotFound
         then (None, (newState sid)\<lparr>st_staleToken := True, st_arrivedSID := [], st_loaded := True\<rparr>, w1)
         else (Some e, newState sid, w1)
    | Inr r \<Rightarrow> (None, (newState sid)\<lparr>st_record := r, st_exists := True, st_loaded := True\<rparr>, w1))"
    using l sid by (cases res) (simp_all add: ensureLoaded_def newState_def)
  show ?thesis
  proof (cases res)
    case (Inl e)
    then show ?thesis using g e x
      by (auto simp: cellGet_def newState_def staged_map_def decodeCells_def split: if_splits)
  next
    case (Inr r)
    let ?s = "(newState sid)\<lparr>st_record := r, st_exists := True, st_loaded := True\<rparr>"
    have u': "decodeEnvelope ?ev ''{}'' = Inr []" using u by (simp add: decodeEnvelope_def mem_env_def)
    obtain e2 s2 where d: "decodeCells ?ev ?s = (e2, s2)" by (rule prod.exhaust)
    have st: "e2 = None" "s2 = st" "w1 = w"
      using g e Inr d by (cases e2; simp add: cellGet_def newState_def staged_map_def)+
    have f: "decodeEnvelope ?ev (freshPayload r) = Inr (st_cells st)" "st_record st = r"
        "\<not> st_renew st" "\<not> st_destroyed st"
      using d st u' by (auto simp: decodeCells_def newState_def freshPayload_def Let_def split: if_splits sum.splits)
    show ?thesis using snapshot_fresh [OF ok l [unfolded Inr] f(1)] st f by auto
  qed
qed

text \<open>C3: no lost updates. A request loads its session, reads and writes cells in any order, and
  commits; meanwhile other parties make any calls on the store, short of minting the same
  identifier. If the commit succeeds, then at one instant the store holds a record of the session,
  whose cells are the current ones whatever version the request had read, and the commit replaces
  them in one step by the same cells with the request's staged writes on top: every other cell,
  the user and the absolute expiry keep the value that record has. The client is told to keep the
  token.\<close>

theorem sess_commit_no_lost_update:
  assumes "world_ok sid n w0" "unm ''{}'' = Inr []"
    and "cellGet (mem_env mar unm) k (newState sid) w0 = (Inr v, st, w)" "st_exists st"
    and "cell_calls (mem_env mar unm) ops st w = (rs, st1, w1)" "staged_map st1 \<noteq> []"
    and "commit (mem_env mar unm) m st1 w1 = (Inr tok, st2, w2)"
  shows "atomic_update (mem_env mar unm) sid (fold overlay (staged_map st1)) w1 w2 \<and>
    (\<exists>opts. tok = Some (TokWrite (rc_SID (st_record st2)) opts))"
proof -
  let ?ev = "mem_env mar unm"
  obtain n' where 0: "world_ok sid n' w" "snapshot ?ev (st_record st) (st_cells st) w" "rc_SID (st_record st) = sid" "\<not> st_renew st" "\<not> st_destroyed st"
    using first_get_snapshot [OF assms(1,3,4,2)] by blast
  have "settled st" using settled_first_get [OF assms(3)] by simp
  then have 1: "same_session st st1" "w1 = w" "settled st1"
    using cell_calls_same_session [OF _ assms(4), of ?ev ops w] cell_calls_refine [of st ?ev ops w] assms(5) by auto
  have sn: "snapshot ?ev (st_record st1) (st_cells st1) w1" "rc_SID (st_record st1) = sid"
    using 0 1 by (simp_all add: snapshot_def same_session_def)
  let ?st = "st1\<lparr>st_responseStarted := True\<rparr>"
  have d: "decodeCells ?ev ?st = (None, ?st)"
    using 1 assms(4) by (simp add: settled_def decodeCells_def same_session_def)
  obtain e st3 w3 where c: "commitDirty_loop ?ev m (retries m) ?st w1 = (e, st3, w3)" by (rule prod_cases3)
  have "e = None" "st3 = st2" "w3 = w2" "\<exists>opts. tok = Some (TokWrite (rc_SID (st_record st2)) opts)"
    using assms(4,6,7) 0 1 d c
    by (auto simp: commit_def commit_store_def commitDirty_def same_session_def split: option.splits)
  then show ?thesis
    using commitDirty_loop_atomic [of ?st n' w1 mar unm m "retries m" st3 w3] c sn 0(1) 1(2)
    by (simp add: snapshot_def)
qed

section \<open>Updates are atomic\<close>

text \<open>A closure that, as the documentation asks, does nothing but compute the new value.\<close>

definition pure_fn :: "(cellRaw option \<Rightarrow> sess_err + cellRaw) \<Rightarrow> cellRaw option \<Rightarrow> 'z \<Rightarrow> (sess_err + cellRaw) \<times> 'z" where
  "pure_fn h base z = (h base, z)"

definition updated :: "string \<Rightarrow> (cellRaw option \<Rightarrow> sess_err + cellRaw) \<Rightarrow> cells \<Rightarrow> cells" where
  "updated key h cells = (case h (map_of cells key) of Inl e \<Rightarrow> cells | Inr out \<Rightarrow> goput key out cells)"

lemma reloadCells_snapshot:
  assumes ok: "world_ok (rc_SID (st_record st)) n w"
    and r: "reloadCells (mem_env mar unm) st w = (None, st2, w2)"
  shows "\<exists>cs n'. others_only cs w w2 \<and> world_ok (rc_SID (st_record st2)) n' w2 \<and>
    snapshot (mem_env mar unm) (st_record st2) (st_cells st2) w2 \<and>
    rc_SID (st_record st2) = rc_SID (st_record st) \<and> st2 = st\<lparr>st_record := st_record st2, st_cells := st_cells st2\<rparr>"
proof -
  obtain res w1 where l: "mem_do (\<lambda>ctx now. sm_Load ctx now (rc_SID (st_record st))) w = (res, w1)" by (rule prod.exhaust)
  show ?thesis
  proof (cases res)
    case (Inr fresh)
    show ?thesis
    proof (cases "decodeEnvelope (mem_env mar unm) (freshPayload fresh)")
      case d: (Inr cells)
      have st2: "st2 = st\<lparr>st_record := fresh, st_cells := cells\<rparr>" "w2 = w1"
        using r l Inr d by (auto simp: reloadCells_def)
      then show ?thesis using snapshot_fresh [OF ok l [unfolded Inr] d] by auto
    qed (use r l Inr in \<open>simp add: reloadCells_def\<close>)
  qed (use r l in \<open>simp add: reloadCells_def\<close>)
qed

text \<open>The request has a session, decoded, and no staged write of the cell.\<close>

definition update_ready :: "string \<Rightarrow> sess_state \<Rightarrow> bool" where
  "update_ready key st \<longleftrightarrow> st_exists st \<and> st_cellsDecoded st \<and> st_envErr st = None \<and> map_of (staged_map st) key = None"

lemma cellUpdate_try_outcome:
  assumes ok: "world_ok (rc_SID (st_record st)) n w"
    and s: "snapshot (mem_env mar unm) (st_record st) (st_cells st) w" and u: "update_ready key st"
  shows "case cellUpdate_try (mem_env mar unm) m key (pure_fn h) st w of
      Finished None st1 w1 \<Rightarrow> atomic_update (mem_env mar unm) (rc_SID (st_record st)) (updated key h) w w1
    | Finished (Some e) st1 w1 \<Rightarrow> True
    | Conflict e st1 w1 \<Rightarrow> st1 = st \<and> (\<exists>cs n'. others_only cs w w1 \<and> world_ok (rc_SID (st_record st)) n' w1)"
proof -
  let ?ev = "mem_env mar unm"
  have b: "updateBase ?ev key st = (Inr (map_of (st_cells st) key, False, 0), st)"
    using u by (simp add: updateBase_def update_ready_def decodeCells_def del: map_of_eq_None_iff)
  show ?thesis
  proof (cases "h (map_of (st_cells st) key)")
    case (Inl e)
    then show ?thesis by (simp add: cellUpdate_try_def b pure_fn_def)
  next
    case out: (Inr out)
    then have up: "goput key out (st_cells st) = updated key h (st_cells st)" by (simp add: updated_def)
    show ?thesis
    proof (cases "encodeEnvelope ?ev (updated key h (st_cells st))")
      case (Inl e)
      then show ?thesis using u by (simp add: cellUpdate_try_def b pure_fn_def out up update_ready_def)
    next
      case (Inr payload)
      let ?r = "idleExpiry ?ev m w ((st_record st)\<lparr>rc_Payload := payload\<rparr>)"
      obtain res w1 where sv: "mem_do (\<lambda>ctx now. sm_Save ctx ?r) w = (res, w1)" by (rule prod.exhaust)
      obtain t where t: "?r = (st_record st)\<lparr>rc_Payload := payload, rc_IdleExpiry := t\<rparr>"
        using idleExpiry_eq [of ?ev m w "(st_record st)\<lparr>rc_Payload := payload\<rparr>"] by blast
      show ?thesis
        using snapshot_save [where f = "updated key h", OF ok s Inr t sv] u sv
        by (auto simp: cellUpdate_try_def b pure_fn_def out up update_ready_def Inr Let_def split: sum.splits)
    qed
  qed
qed

lemma cellUpdate_loop_atomic:
  assumes "world_ok (rc_SID (st_record st)) n w" "snapshot (mem_env mar unm) (st_record st) (st_cells st) w"
    and "update_ready key st" "cellUpdate_loop (mem_env mar unm) m key (pure_fn h) k st w = (None, st', w')"
  shows "atomic_update (mem_env mar unm) (rc_SID (st_record st)) (updated key h) w w'"
  using assms
proof (induction k arbitrary: st w n)
  case 0
  note out = cellUpdate_try_outcome [where m = m and h = h, OF "0.prems"(1-3)]
  show ?case
  proof (cases "cellUpdate_try (mem_env mar unm) m key (pure_fn h) st w")
    case (Finished e st1 w1)
    then show ?thesis using out "0.prems"(4) by (cases e) (simp_all add: cellUpdate_loop.simps)
  qed (use "0.prems"(4) in \<open>simp add: cellUpdate_loop.simps\<close>)
next
  case (Suc k)
  note out = cellUpdate_try_outcome [where m = m and h = h, OF Suc.prems(1-3)]
  show ?case
  proof (cases "cellUpdate_try (mem_env mar unm) m key (pure_fn h) st w")
    case (Finished e st1 w1)
    then show ?thesis using out Suc.prems(4) by (cases e) (simp_all add: cellUpdate_loop.simps)
  next
    case (Conflict e st1 w1)
    then obtain cs n1 where w1: "st1 = st" "others_only cs w w1" "world_ok (rc_SID (st_record st)) n1 w1"
      using out by auto
    obtain e2 st2 w2 where r: "reloadCells (mem_env mar unm) st w1 = (e2, st2, w2)" by (rule prod_cases3)
    have "e2 = None" and l: "cellUpdate_loop (mem_env mar unm) m key (pure_fn h) k st2 w2 = (None, st', w')"
      using Suc.prems(4) Conflict w1(1) r by (cases e2; simp add: cellUpdate_loop.simps [of _ _ _ _ "Suc k"])+
    with reloadCells_snapshot [OF w1(3)] r obtain ds n2 where 2:
      "others_only ds w1 w2" "world_ok (rc_SID (st_record st2)) n2 w2"
      "snapshot (mem_env mar unm) (st_record st2) (st_cells st2) w2"
      "rc_SID (st_record st2) = rc_SID (st_record st)" "st2 = st\<lparr>st_record := st_record st2, st_cells := st_cells st2\<rparr>"
      by blast
    have "update_ready key st2" by (subst 2(5)) (use Suc.prems(3) in \<open>simp add: update_ready_def\<close>)
    from Suc.IH [OF 2(2,3) this l] 2 w1(2) show ?thesis
      by (simp add: atomic_update_after [OF others_only_trans])
  qed
qed

text \<open>\<open>Update\<close> of a cell with no staged write, by a closure without side effects, in a request
  that has a session: if it returns without error, then at one instant the store holds a record of
  the session and the update replaces that record's cell by the closure's value on it, and nothing
  else but the version and the idle deadline. Concurrent updates of the same cell are therefore
  never lost, and the closure's value is computed from the current one, not from the one the
  request loaded.\<close>

theorem sess_update_atomic:
  assumes "world_ok sid n w0" "unm ''{}'' = Inr []"
    and "cellGet (mem_env mar unm) k (newState sid) w0 = (Inr v, st, w)" "st_exists st"
    and "cellUpdate (mem_env mar unm) m key (pure_fn h) st w = (Inr (), st1, w1)"
  shows "atomic_update (mem_env mar unm) sid (updated key h) w w1"
proof -
  let ?ev = "mem_env mar unm"
  obtain n' where 0: "world_ok sid n' w" "snapshot ?ev (st_record st) (st_cells st) w" "rc_SID (st_record st) = sid"
    using first_get_snapshot [OF assms(1,3,4,2)] by blast
  have s: "settled st" using settled_first_get [OF assms(3)] by simp
  have none: "staged_map st = []" using first_get_unstaged [OF assms(3)] .
  have u: "update_ready key st" using s assms(4) none by (simp add: update_ready_def settled_def)
  obtain e st3 w3 where c: "cellUpdate_loop ?ev m key (pure_fn h) (retries m) st w = (e, st3, w3)" by (rule prod_cases3)
  have "e = None" "w3 = w1"
    using assms(4,5) c settled_ensureLoaded [OF s, of ?ev w] settled_decode_keeps [OF s assms(4), of ?ev]
    by (auto simp: cellUpdate_def decodeIfExists_def split: option.splits)
  then show ?thesis
    using cellUpdate_loop_atomic [where st = st and w = w and k = "retries m", OF _ _ u] c 0 by simp
qed

text \<open>One round of the out-of-band loop: load, change, conditional write.\<close>

lemma mutateCellsSID_round:
  assumes ok: "world_ok sid n w" and mu: "\<And>cells w. mutate cells w = (map_sum id (\<lambda>c. (True, c)) (g cells), w)"
    and run: "mutateCellsSID (mem_env mar unm) sid mutate k w = (None, w')"
  shows "atomic_update (mem_env mar unm) sid (\<lambda>cells. case g cells of Inl e \<Rightarrow> cells | Inr c \<Rightarrow> c) w w' \<or>
    (\<exists>cs n2 w2. 0 < k \<and> others_only cs w w2 \<and> world_ok sid n2 w2 \<and>
       mutateCellsSID (mem_env mar unm) sid mutate (k - 1) w2 = (None, w'))"
proof -
  let ?ev = "mem_env mar unm"
  obtain res w1 where l: "mem_do (\<lambda>ctx now. sm_Load ctx now sid) w = (res, w1)" by (rule prod.exhaust)
  obtain r where r: "res = Inr r" using run l by (cases res) (auto simp: mutateCellsSID.simps [of _ _ _ k])
  obtain cells where d: "decodeEnvelope ?ev (freshPayload r) = Inr cells"
    using run l r by (cases "decodeEnvelope ?ev (freshPayload r)") (auto simp: mutateCellsSID.simps [of _ _ _ k])
  obtain cells' where g: "g cells = Inr cells'"
    using run l r d mu by (cases "g cells") (auto simp: mutateCellsSID.simps [of _ _ _ k])
  obtain payload where e: "encodeEnvelope ?ev cells' = Inr payload"
    using run l r d g mu by (cases "encodeEnvelope ?ev cells'") (auto simp: mutateCellsSID.simps [of _ _ _ k])
  obtain cs n1 where 1: "others_only cs w w1" "world_ok (rc_SID r) n1 w1" "snapshot ?ev r cells w1" "rc_SID r = sid"
    using snapshot_fresh [OF ok l [unfolded r] d] by blast
  obtain res2 w2 where sv: "mem_do (\<lambda>ctx now. sm_Save ctx (r\<lparr>rc_Payload := payload\<rparr>)) w1 = (res2, w2)" by (rule prod.exhaust)
  have "encodeEnvelope ?ev ((\<lambda>cells. case g cells of Inl e \<Rightarrow> cells | Inr c \<Rightarrow> c) cells) = Inr payload" using g e by simp
  moreover have "r\<lparr>rc_Payload := payload\<rparr> = r\<lparr>rc_Payload := payload, rc_IdleExpiry := rc_IdleExpiry r\<rparr>" by simp
  ultimately have out: "(\<exists>e cs n'. res2 = Inl e \<and> others_only cs w1 w2 \<and> world_ok (rc_SID r) n' w2) \<or>
      (\<exists>q. res2 = Inr q) \<and> atomic_update ?ev (rc_SID r) (\<lambda>cells. case g cells of Inl e \<Rightarrow> cells | Inr c \<Rightarrow> c) w1 w2"
    using snapshot_save [where f = "\<lambda>cells. case g cells of Inl e \<Rightarrow> cells | Inr c \<Rightarrow> c", OF 1(2,3) _ _ sv] by blast
  have run': "(case res2 of Inr _ \<Rightarrow> (None, w2) | Inl e \<Rightarrow>
      if errIs e = Some ErrVersionConflict \<and> k > 0 then mutateCellsSID ?ev sid mutate (k - 1) w2 else (Some e, w2)) = (None, w')"
    using run l r d g mu e sv by (simp add: mutateCellsSID.simps [of _ _ _ k] split: sum.splits)
  show ?thesis
  proof (cases res2)
    case (Inl x)
    then have k: "k > 0" "mutateCellsSID ?ev sid mutate (k - 1) w2 = (None, w')" using run' by (auto split: if_splits)
    obtain cs2 n2 where "others_only cs2 w1 w2" "world_ok sid n2 w2" using out Inl 1(4) by auto
    then show ?thesis using k others_only_trans [OF 1(1)] by blast
  next
    case (Inr q)
    then show ?thesis using out run' 1(4) atomic_update_after [OF 1(1)] by auto
  qed
qed

lemma mutateCellsSID_atomic:
  assumes mu: "\<And>cells w. mutate cells w = (map_sum id (\<lambda>c. (True, c)) (g cells), w)"
  shows "world_ok sid n w \<Longrightarrow> mutateCellsSID (mem_env mar unm) sid mutate k w = (None, w') \<Longrightarrow>
    atomic_update (mem_env mar unm) sid (\<lambda>cells. case g cells of Inl e \<Rightarrow> cells | Inr c \<Rightarrow> c) w w'"
proof (induction k arbitrary: w n)
  case 0
  then show ?case using mutateCellsSID_round [OF "0.prems"(1) mu "0.prems"(2)] by simp
next
  case (Suc k)
  then show ?case
    using mutateCellsSID_round [OF Suc.prems(1) mu Suc.prems(2)] Suc.IH atomic_update_after by fastforce
qed

text \<open>the same out of band: \<open>UpdateSID\<close> by a closure without side effects, if it returns without
  error, is one atomic read-modify-write of the current record of that identifier; it never creates
  the session.\<close>

theorem sess_updateSID_atomic:
  assumes "world_ok sid n w" "updateCellSID (mem_env mar unm) m sid key (pure_fn h) w = (None, w')"
  shows "atomic_update (mem_env mar unm) sid (updated key h) w w'"
proof -
  let ?g = "\<lambda>cells. map_sum id (\<lambda>out. goput key out cells) (h (map_of cells key))"
  let ?mut = "\<lambda>cells w. case pure_fn h (map_of cells key) w of
        (Inl e, w1) \<Rightarrow> (Inl e, w1)
      | (Inr out, w1) \<Rightarrow> (Inr (True, goput key out cells), w1 :: sess_world)"
  have mu: "?mut cells w = (map_sum id (\<lambda>c. (True, c)) (?g cells), w)" for cells w
    by (cases "h (map_of cells key)") (simp_all add: pure_fn_def)
  have "(\<lambda>cells. case ?g cells of Inl e \<Rightarrow> cells | Inr c \<Rightarrow> c) = updated key h"
    by (rule ext) (simp add: updated_def split: sum.splits)
  then show ?thesis
    using mutateCellsSID_atomic [OF mu assms(1) assms(2) [unfolded updateCellSID_def]] by simp
qed

section \<open>A concrete run\<close>

text \<open>A toy encoding of the cell map for the witnesses: \<open>k=v;\<close> per cell.\<close>

definition toy_marshal :: "cells \<Rightarrow> sess_err + payload" where
  "toy_marshal cells = Inr (concat (map (\<lambda>(k, v). k @ ''='' @ v @ '';'') cells))"

fun toy_parse :: "nat \<Rightarrow> string \<Rightarrow> cells" where
  "toy_parse 0 s = []"
| "toy_parse (Suc n) s =
    (case cut CHR ''='' s of None \<Rightarrow> []
     | Some (k, t) \<Rightarrow> (case cut CHR '';'' t of None \<Rightarrow> [] | Some (v, rest) \<Rightarrow> (k, v) # toy_parse n rest))"

definition toy_unmarshal :: "payload \<Rightarrow> sess_err + cells" where
  "toy_unmarshal p = Inr (toy_parse (length p) p)"

definition toy_env :: "sess_world sess_env" where
  "toy_env = mem_env toy_marshal toy_unmarshal"

definition toy_manager :: sess_manager where
  "toy_manager = \<lparr>mg_cfg = \<lparr>cf_HasStore = True, cf_Token = Some (Bearer \<lparr>br_ReadHeader = [], br_Scheme = [], br_WriteHeader = []\<rparr>),
     cf_AbsoluteExpiry = 100, cf_IdleExpiry = 50, cf_IdleBumpInterval = 10, cf_MaxRetries = 0, cf_CommitTimeout = 0\<rparr>,
     mg_maxRetries = 3, mg_commitTimeout = 30 * second, mg_cells = [], mg_appT = None\<rparr>"

text \<open>A session with the cell \<open>a\<close>; after the request has loaded it, another one adds the cell \<open>b\<close>.\<close>

definition toy_world :: sess_world where
  "toy_world = \<lparr>sw_mem = sm_run [(None, 1, SSave (demo_rec\<lparr>rc_Payload := ''a=1;''\<rparr>))] sm_NewMemoryStore,
     sw_turns = [([], None, 2),
       ([(None, 3, SSave (demo_rec\<lparr>rc_Version := 1, rc_Payload := ''a=1;b=2;''\<rparr>))], None, 3)],
     sw_sids = [], sw_now = 1\<rparr>"

definition toy_get :: "(sess_err + cellRaw option) \<times> sess_state \<times> sess_world" where
  "toy_get = cellGet toy_env ''a'' (newState ''s1'') toy_world"

definition toy_save :: "(sess_err + cell_res) list \<times> sess_state \<times> sess_world" where
  "toy_save = cell_calls toy_env [CSave ''a'' ''9''] (fst (snd toy_get)) (snd (snd toy_get))"

definition toy_commit :: "(sess_err + tok_instr option) \<times> sess_state \<times> sess_world" where
  "toy_commit = commit toy_env toy_manager (fst (snd toy_save)) (snd (snd toy_save))"

lemma toy_world_ok: "world_ok ''s1'' 1 toy_world"
proof -
  have "map_of (sm_records (sw_mem toy_world)) =
      [''s1'' \<mapsto> demo_rec\<lparr>rc_Payload := ''a=1;'', rc_Version := 1\<rparr>]"
    by (simp add: toy_world_def sm_NewMemoryStore_def demo_rec_def sm_Save_def sm_Save_put_def Let_def)
  then have "versions_upto 1 (sw_mem toy_world)"
    by (auto simp: versions_upto_def demo_rec_def split: if_splits)
  moreover have "sm_inv (sw_mem toy_world)"
    unfolding toy_world_def sess_world.simps by (rule run_inv)
  ultimately show ?thesis
    by (simp add: world_ok_def script_def) (simp add: toy_world_def demo_rec_def)
qed

lemma toy_facts:
  "fst toy_get = Inr (Some ''1'')" "st_exists (fst (snd toy_get))" "staged_map (fst (snd toy_save)) = [(''a'', Some ''9'')]"
  "fst toy_commit = Inr (Some (TokWrite ''s1'' \<lparr>tw_Expiry = 53, tw_Now = 3\<rparr>))"
  "toy_unmarshal ''{}'' = Inr []"
  by code_simp+

lemma sess_commit_no_lost_update_witness:
  "atomic_update toy_env ''s1'' (fold overlay [(''a'', Some ''9'')]) (snd (snd toy_save)) (snd (snd toy_commit)) \<and>
   map_option rc_Payload (map_of (sm_records (sw_mem (snd (snd toy_commit)))) ''s1'') = Some ''a=9;b=2;''"
proof (rule conjI)
  have g: "cellGet toy_env ''a'' (newState ''s1'') toy_world = (Inr (Some ''1''), fst (snd toy_get), snd (snd toy_get))"
    using toy_facts(1) by (simp add: toy_get_def prod_eq_iff)
  have c: "cell_calls toy_env [CSave ''a'' ''9''] (fst (snd toy_get)) (snd (snd toy_get)) =
      (fst toy_save, fst (snd toy_save), snd (snd toy_save))" by (simp add: toy_save_def)
  have m: "commit toy_env toy_manager (fst (snd toy_save)) (snd (snd toy_save)) =
      (Inr (Some (TokWrite ''s1'' \<lparr>tw_Expiry = 53, tw_Now = 3\<rparr>)), fst (snd toy_commit), snd (snd toy_commit))"
    using toy_facts(4) by (simp add: toy_commit_def prod_eq_iff)
  have n: "staged_map (fst (snd toy_save)) \<noteq> []" by (simp add: toy_facts)
  show "atomic_update toy_env ''s1'' (fold overlay [(''a'', Some ''9'')]) (snd (snd toy_save)) (snd (snd toy_commit))"
    using sess_commit_no_lost_update
      [OF toy_world_ok toy_facts(5) g [unfolded toy_env_def] toy_facts(2) c [unfolded toy_env_def] n m [unfolded toy_env_def],
        THEN conjunct1]
    by (simp only: toy_facts toy_env_def)
  show "map_option rc_Payload (map_of (sm_records (sw_mem (snd (snd toy_commit)))) ''s1'') = Some ''a=9;b=2;''"
    by code_simp
qed

lemma sess_cells_refine_map_witness:
  "\<exists>M st1. stored_view toy_env ''s1'' toy_world = Some M \<and> M ''a'' = Some ''1'' \<and>
    cell_calls toy_env [CGet ''a'', CSave ''a'' ''9'', CGet ''a'', CClear ''a'', CHas ''a''] (fst (snd toy_get)) (snd (snd toy_get)) =
    ([Inr (RVal (Some ''1'')), Inr RUnit, Inr (RVal (Some ''9'')), Inr RUnit, Inr (RBool False)], st1, snd (snd toy_get))"
proof -
  have g: "cellGet toy_env ''a'' (newState ''s1'') toy_world = (Inr (Some ''1''), fst (snd toy_get), snd (snd toy_get))"
    using toy_facts(1) by (simp add: toy_get_def prod_eq_iff)
  show ?thesis
    using sess_cells_refine_map [OF g, of "[CGet ''a'', CSave ''a'' ''9'', CGet ''a'', CClear ''a'', CHas ''a'']"] by auto
qed

definition toy_fn :: "cellRaw option \<Rightarrow> sess_err + cellRaw" where
  "toy_fn prev = (case prev of None \<Rightarrow> Inr ''1'' | Some v \<Rightarrow> Inr (v @ ''1''))"

definition toy_update :: "(sess_err + unit) \<times> sess_state \<times> sess_world" where
  "toy_update = cellUpdate toy_env toy_manager ''a'' (pure_fn toy_fn) (fst (snd toy_get)) (snd (snd toy_get))"

lemma sess_update_atomic_witness:
  "atomic_update toy_env ''s1'' (updated ''a'' toy_fn) (snd (snd toy_get)) (snd (snd toy_update)) \<and>
   map_option rc_Payload (map_of (sm_records (sw_mem (snd (snd toy_update)))) ''s1'') = Some ''a=11;b=2;''"
proof (rule conjI)
  have g: "cellGet toy_env ''a'' (newState ''s1'') toy_world = (Inr (Some ''1''), fst (snd toy_get), snd (snd toy_get))"
    using toy_facts(1) by (simp add: toy_get_def prod_eq_iff)
  have "fst toy_update = Inr ()" by code_simp
  then have u: "cellUpdate toy_env toy_manager ''a'' (pure_fn toy_fn) (fst (snd toy_get)) (snd (snd toy_get)) =
      (Inr (), fst (snd toy_update), snd (snd toy_update))" by (simp add: toy_update_def prod_eq_iff)
  show "atomic_update toy_env ''s1'' (updated ''a'' toy_fn) (snd (snd toy_get)) (snd (snd toy_update))"
    using sess_update_atomic [OF toy_world_ok toy_facts(5) g [unfolded toy_env_def] toy_facts(2) u [unfolded toy_env_def]]
    by (simp only: toy_env_def)
  show "map_option rc_Payload (map_of (sm_records (sw_mem (snd (snd toy_update)))) ''s1'') = Some ''a=11;b=2;''"
    by code_simp
qed

definition toy_updateSID :: "sess_err option \<times> sess_world" where
  "toy_updateSID = updateCellSID toy_env toy_manager ''s1'' ''a'' (pure_fn toy_fn) toy_world"

lemma sess_updateSID_atomic_witness:
  "atomic_update toy_env ''s1'' (updated ''a'' toy_fn) toy_world (snd toy_updateSID)"
proof -
  have "fst toy_updateSID = None" by code_simp
  then have u: "updateCellSID toy_env toy_manager ''s1'' ''a'' (pure_fn toy_fn) toy_world = (None, snd toy_updateSID)"
    by (simp add: toy_updateSID_def prod_eq_iff)
  show ?thesis
    using sess_updateSID_atomic [OF toy_world_ok u [unfolded toy_env_def]] by (simp only: toy_env_def)
qed

end
