(* ===== verification/SessionLife.thy ===== *)
theory SessionLife
  imports SessionCommit
begin

text \<open>
  The life of a session across requests, on the in-process store: minting, rotation, logout, and
  the round trip of a value saved by one request and read by the next.
\<close>

section \<open>Minting never merges into another session\<close>

definition calls_left :: "nat \<Rightarrow> sess_world \<Rightarrow> bool" where
  "calls_left n w \<longleftrightarrow> sm_inv (sw_mem w) \<and> versions_upto n (sw_mem w) \<and> n + length (script w) < 2 ^ 64 - 1"

lemma calls_left_turn:
  assumes "calls_left n w" "next_turn w = ((cs, ctx, now), w1)"
  shows "calls_left (n + length cs) w1"
  using assms(1) next_turn_step [OF assms(2)] versions_upto_run [of n "sw_mem w" cs]
  by (auto simp: calls_left_def sm_inv_run)

lemma mem_insert_outcome:
  assumes ok: "calls_left n w" and r: "rc_Version r = 0"
    and s: "mem_do (\<lambda>ctx now. sm_Save ctx r) w = (res, w')"
  shows "\<exists>cs w1 n1. others_only cs w w1 \<and> sw_sids w' = sw_sids w \<and>
    ((\<exists>e. res = Inl e) \<and> w' = w1 \<and> calls_left n1 w' \<or>
     res = Inr (r\<lparr>rc_Version := 1\<rparr>) \<and> map_of (sm_records (sw_mem w1)) (rc_SID r) = None \<and> rc_SID r \<noteq> [] \<and>
       map_of (sm_records (sw_mem w')) = (map_of (sm_records (sw_mem w1)))(rc_SID r \<mapsto> r\<lparr>rc_Version := 1\<rparr>))"
proof -
  obtain cs ctx now w1 where t: "next_turn w = ((cs, ctx, now), w1)" by (rule next_turn_cases)
  have ok1: "calls_left (n + length cs) w1" by (rule calls_left_turn [OF ok t])
  show ?thesis
  proof (cases rule: sm_Save_cases [of ctx r "sw_mem w1"])
    case stored
    have "map_of (sm_records (sw_mem w1)) (rc_SID r) = None"
    proof (rule ccontr)
      assume "map_of (sm_records (sw_mem w1)) (rc_SID r) \<noteq> None"
      then obtain p where "map_of (sm_records (sw_mem w1)) (rc_SID r) = Some p" by blast
      moreover from this have "0 < unat (rc_Version p)" using ok1 by (auto simp: calls_left_def versions_upto_def)
      ultimately show False using stored(2) r by (simp add: save_allowed_def)
    qed
    moreover have "(res, w') = (Inr (r\<lparr>rc_Version := 1\<rparr>),
        w1\<lparr>sw_mem := snd (sm_Save_put (map_of (sm_records (sw_mem w1)) (rc_SID r)) r (sw_mem w1))\<rparr>)"
      using s t stored(3) r sm_Save_put_pair [of "map_of (sm_records (sw_mem w1)) (rc_SID r)" r "sw_mem w1"]
      by (simp add: mem_do_def case_prod_unfold)
    moreover have "rc_SID r \<noteq> []" using stored(2) by (simp add: save_allowed_def)
    ultimately show ?thesis using others_only_turn [OF t] next_turn_step(3) [OF t] r by auto
  next
    case (refused e)
    then have "res = Inl e" "w' = w1" using s t by (simp_all add: mem_do_def)
    then show ?thesis using ok1 others_only_turn [OF t] next_turn_step(3) [OF t] by blast
  qed
qed

definition minted :: "sess_record \<Rightarrow> sess_record \<Rightarrow> sess_world \<Rightarrow> sess_world \<Rightarrow> bool" where
  "minted r q w w' \<longleftrightarrow>
    (\<exists>cs w1 sid. others_only cs w w1 \<and> sid \<noteq> [] \<and> Inr sid \<in> set (sw_sids w) \<and> q = r\<lparr>rc_SID := sid, rc_Version := 1\<rparr> \<and>
       map_of (sm_records (sw_mem w1)) sid = None \<and>
       map_of (sm_records (sw_mem w')) = (map_of (sm_records (sw_mem w1)))(sid \<mapsto> q))"

lemma others_only_sids: "others_only cs (w\<lparr>sw_sids := x\<rparr>) w1 \<longleftrightarrow> others_only cs w w1"
  by (simp add: others_only_def script_def)

lemma calls_left_sids: "calls_left n (w\<lparr>sw_sids := x\<rparr>) \<longleftrightarrow> calls_left n w"
  by (simp add: calls_left_def script_def)

lemma insertFresh_round:
  assumes ok: "calls_left n w" and run: "insertFresh (mem_env mar unm) k r w = (Inr q, w')"
  shows "\<exists>x. sw_sids w = x # tl (sw_sids w) \<and>
    (minted r q w w' \<and> sw_sids w' = tl (sw_sids w) \<or>
     (\<exists>cs n2 w2. 0 < k \<and> others_only cs w w2 \<and> calls_left n2 w2 \<and> sw_sids w2 = tl (sw_sids w) \<and>
       insertFresh (mem_env mar unm) (k - 1) r w2 = (Inr q, w')))"
proof -
  let ?ev = "mem_env mar unm"
  obtain sid rest where g: "sw_sids w = Inr sid # rest" "sid \<noteq> []"
    using run by (cases "sw_sids w"; cases "hd (sw_sids w)")
      (auto simp: insertFresh.simps [of _ k] mintSID_def mem_newSID_def split: if_splits)
  let ?w = "w\<lparr>sw_sids := rest\<rparr>"
  let ?r = "r\<lparr>rc_SID := sid, rc_Version := 0\<rparr>"
  obtain res w2 where sv: "mem_do (\<lambda>ctx now. sm_Save ctx ?r) ?w = (res, w2)" by (rule prod.exhaust)
  obtain cs w1 n1 where out: "others_only cs w w1" "sw_sids w2 = rest"
    "(\<exists>e. res = Inl e) \<and> w2 = w1 \<and> calls_left n1 w2 \<or>
     res = Inr (r\<lparr>rc_SID := sid, rc_Version := 1\<rparr>) \<and> map_of (sm_records (sw_mem w1)) sid = None \<and>
       map_of (sm_records (sw_mem w2)) = (map_of (sm_records (sw_mem w1)))(sid \<mapsto> r\<lparr>rc_SID := sid, rc_Version := 1\<rparr>)"
    using mem_insert_outcome [of n ?w ?r res w2] ok sv
    by (auto simp: others_only_sids calls_left_sids simp del: fun_upd_apply map_of_eq_None_iff)
  have step: "(case res of Inr stored \<Rightarrow> (Inr stored, w2) | Inl e \<Rightarrow>
      if errIs e \<noteq> Some ErrVersionConflict \<or> k = 0 then (Inl (prefixErr ''session: mint: '' (redactSIDs e [sid])), w2)
      else insertFresh ?ev (k - 1) r w2) = (Inr q, w')"
    using run g sv by (simp add: insertFresh.simps [of _ k] mintSID_def mem_newSID_def split: sum.splits)
  show ?thesis
  proof (cases res)
    case (Inl e)
    then have "0 < k" "insertFresh ?ev (k - 1) r w2 = (Inr q, w')" using step by (auto split: if_splits)
    then show ?thesis using out Inl g(1) by auto
  next
    case (Inr stored)
    then have "stored = q" "w2 = w'" using step by auto
    then have "minted r q w w'"
      using out Inr g unfolding minted_def by (intro exI [of _ cs] exI [of _ w1] exI [of _ sid]) auto
    then show ?thesis using out(2) \<open>w2 = w'\<close> g(1) by auto
  qed
qed

lemma minted_after:
  "others_only cs w w2 \<Longrightarrow> sw_sids w2 = tl (sw_sids w) \<Longrightarrow> minted r q w2 w' \<Longrightarrow> minted r q w w'"
proof -
  assume o: "others_only cs w w2" and s: "sw_sids w2 = tl (sw_sids w)" and m: "minted r q w2 w'"
  from m obtain ds w1 sid where 1: "others_only ds w2 w1" "sid \<noteq> []" "Inr sid \<in> set (sw_sids w2)"
    "q = r\<lparr>rc_SID := sid, rc_Version := 1\<rparr>" "map_of (sm_records (sw_mem w1)) sid = None"
    "map_of (sm_records (sw_mem w')) = (map_of (sm_records (sw_mem w1)))(sid \<mapsto> q)"
    unfolding minted_def by blast
  have "Inr sid \<in> set (sw_sids w)" using 1(3) s by (cases "sw_sids w") simp_all
  with others_only_trans [OF o 1(1)] 1 show "minted r q w w'" unfolding minted_def by blast
qed

lemma insertFresh_minted:
  "calls_left n w \<Longrightarrow> insertFresh (mem_env mar unm) k r w = (Inr q, w') \<Longrightarrow>
   minted r q w w' \<and> length (sw_sids w) \<le> length (sw_sids w') + Suc k"
proof (induction k arbitrary: w n)
  case 0
  obtain x where x: "sw_sids w = x # tl (sw_sids w)" and c: "minted r q w w'" "sw_sids w' = tl (sw_sids w)"
    using insertFresh_round [OF "0.prems"] by auto
  have "length (sw_sids w) = Suc (length (sw_sids w'))" unfolding c(2) by (subst x) (simp only: list.size)
  then show ?case using c(1) by simp
next
  case (Suc k)
  obtain x where x: "sw_sids w = x # tl (sw_sids w)" and
    c: "minted r q w w' \<and> sw_sids w' = tl (sw_sids w) \<or>
      (\<exists>cs n2 w2. others_only cs w w2 \<and> calls_left n2 w2 \<and> sw_sids w2 = tl (sw_sids w) \<and>
        insertFresh (mem_env mar unm) k r w2 = (Inr q, w'))"
    using insertFresh_round [OF Suc.prems] by auto
  have l: "sw_sids v = tl (sw_sids w) \<Longrightarrow> length (sw_sids w) = Suc (length (sw_sids v))" for v :: sess_world
    by (subst x) (simp only: list.size)
  from c show ?case
  proof
    assume "minted r q w w' \<and> sw_sids w' = tl (sw_sids w)"
    then show ?thesis using l [of w'] by linarith
  next
    assume "\<exists>cs n2 w2. others_only cs w w2 \<and> calls_left n2 w2 \<and> sw_sids w2 = tl (sw_sids w) \<and>
        insertFresh (mem_env mar unm) k r w2 = (Inr q, w')"
    then obtain cs n2 w2 where 2: "others_only cs w w2" "calls_left n2 w2" "sw_sids w2 = tl (sw_sids w)"
      "insertFresh (mem_env mar unm) k r w2 = (Inr q, w')" by blast
    have "minted r q w2 w'" "length (sw_sids w2) \<le> length (sw_sids w') + Suc k" using Suc.IH [OF 2(2,4)] by simp_all
    then show ?thesis using minted_after [OF 2(1,3)] l [OF 2(3)] by simp
  qed
qed

section \<open>Rotation\<close>

text \<open>What rotation stores: the cells with the staged writes when the payload decodes, the payload as
  it is otherwise.\<close>

definition rotated_payload :: "('s, 'x) sess_env_scheme \<Rightarrow> sess_state \<Rightarrow> payload \<Rightarrow> bool" where
  "rotated_payload ev st p \<longleftrightarrow>
    (case decodeCells ev st of
       (Some _, st1) \<Rightarrow> p = rc_Payload (st_record st)
     | (None, st1) \<Rightarrow> encodeEnvelope ev (mergedView st1) = Inr p)"

definition rotated_user :: "sess_state \<Rightarrow> string" where
  "rotated_user st = (if st_promote st then st_promotedID st else rc_UserID (st_record st))"

definition rotated_record :: "sess_state \<Rightarrow> payload \<Rightarrow> time \<Rightarrow> sess_record" where
  "rotated_record st payload t = zeroRecord\<lparr>rc_UserID := rotated_user st,
     rc_AbsoluteExpiry := rc_AbsoluteExpiry (st_record st), rc_Payload := payload, rc_IdleExpiry := t\<rparr>"

lemma rotated_started [simp]:
  "rotated_user (st\<lparr>st_responseStarted := b\<rparr>) = rotated_user st"
  "rotated_record (st\<lparr>st_responseStarted := b\<rparr>) = rotated_record st"
  by (simp_all add: rotated_user_def rotated_record_def [abs_def])

lemma rotated_record_simps [simp]:
  "rc_UserID (rotated_record st p t) = rotated_user st" "rc_Payload (rotated_record st p t) = p"
  "rc_AbsoluteExpiry (rotated_record st p t) = rc_AbsoluteExpiry (st_record st)"
  by (simp_all add: rotated_record_def)

lemma decodeCells_keeps:
  "decodeCells ev st = (e, st1) \<Longrightarrow> st_record st1 = st_record st \<and> st_promote st1 = st_promote st \<and>
     st_promotedID st1 = st_promotedID st \<and> staged_map st1 = staged_map st"
  by (auto simp: decodeCells_def Let_def split: if_splits sum.splits)

lemma rotateAtCommit_minted:
  assumes ok: "calls_left n w" and run: "rotateAtCommit (mem_env mar unm) m st w = (None, st', w')"
  shows "\<exists>w1 payload q t. rotated_payload (mem_env mar unm) st payload \<and>
    minted (rotated_record st payload t) q w w1 \<and>
    st_record st' = q \<and> w' = snd (mem_do (\<lambda>ctx now. sm_Delete ctx (rc_SID (st_record st))) w1)"
proof -
  let ?ev = "mem_env mar unm"
  obtain e st1 where d: "decodeCells ?ev st = (e, st1)" by (rule prod.exhaust)
  note keep = decodeCells_keeps [OF d]
  obtain payload cells where p: "rotated_payload ?ev st payload"
    and enc: "(case e of Some _ \<Rightarrow> (None, Inr (rc_Payload (st_record st1)))
      | None \<Rightarrow> (Some (mergedView st1), encodeEnvelope ?ev (mergedView st1))) = (cells, Inr payload)"
    using run d keep
    by (cases e; cases "encodeEnvelope ?ev (mergedView st1)") (auto simp: rotateAtCommit_def rotated_payload_def)
  let ?z = "zeroRecord\<lparr>rc_UserID := (if st_promote st then st_promotedID st else rc_UserID (st_record st)),
      rc_AbsoluteExpiry := rc_AbsoluteExpiry (st_record st), rc_Payload := payload\<rparr>"
  obtain t where t: "idleExpiry ?ev m w ?z = ?z\<lparr>rc_IdleExpiry := t\<rparr>"
    using idleExpiry_eq [of ?ev m w ?z] by (elim exE)
  obtain res w1 where i: "insertFresh ?ev (retries m) (idleExpiry ?ev m w ?z) w = (res, w1)" by (rule prod.exhaust)
  have e2: "rotateAtCommit ?ev m st w = (case res of Inl e \<Rightarrow> (Some e, st1, w1)
      | Inr stored \<Rightarrow> (None, st1\<lparr>st_record := stored, st_cells := (case cells of None \<Rightarrow> st_cells st1 | Some cs \<Rightarrow> cs),
          st_staged := None\<rparr>, snd (mem_do (\<lambda>ctx now. sm_Delete ctx (rc_SID (st_record st))) w1)))"
    using d enc i keep by (cases e; cases res) (auto simp: rotateAtCommit_def Let_def split: prod.splits)
  show ?thesis
  proof (cases res)
    case (Inl x)
    then show ?thesis using run e2 by simp
  next
    case (Inr q)
    have "?z\<lparr>rc_IdleExpiry := t\<rparr> = rotated_record st payload t" by (simp add: rotated_record_def rotated_user_def)
    then have "minted (rotated_record st payload t) q w w1"
      using insertFresh_minted [OF ok i [unfolded Inr t]] by simp
    moreover have "st_record st' = q" "w' = snd (mem_do (\<lambda>ctx now. sm_Delete ctx (rc_SID (st_record st))) w1)"
      using run e2 Inr by auto
    ultimately show ?thesis using p by blast
  qed
qed

lemma mem_delete_gone:
  assumes "list_all (\<lambda>(cs, ctx, now). ctx = None) (sw_turns w)"
  shows "map_of (sm_records (sw_mem (snd (mem_do (\<lambda>ctx now. sm_Delete ctx sid) w)))) sid = None"
  using assms by (cases "sw_turns w") (auto simp: mem_do_def next_turn_def sm_Delete_def split: prod.splits)

text \<open>C9: rotation. When a commit rotates the session identifier, the new record is stored under an
  identifier the generator produced and the store did not hold, with version one, exactly the
  absolute expiry of the old record, and the user of the old record or, on login, the promoted one.
  Writes staged by the request are all in it. Everything else in the store is untouched by the
  insertion, the token sent names the new record, and at most \<open>MaxRetries\<close> collisions are retried.\<close>

theorem sess_rotation:
  assumes "calls_left n w" "st_inv st" "st_exists st" "st_renew st" "\<not> st_destroyed st"
    and "commit (mem_env mar unm) m st w = (Inr tok, st', w')"
  shows "\<exists>w1 q r opts. minted r q w w1 \<and> st_record st' = q \<and> tok = Some (TokWrite (rc_SID q) opts) \<and>
    rc_AbsoluteExpiry q = rc_AbsoluteExpiry (st_record st) \<and>
    rc_UserID q = rotated_user st \<and>
    rotated_payload (mem_env mar unm) st (rc_Payload q) \<and>
    (staged_map st \<noteq> [] \<longrightarrow> encodeEnvelope (mem_env mar unm) (mergedView st) = Inr (rc_Payload q)) \<and>
    w' = snd (mem_do (\<lambda>ctx now. sm_Delete ctx (rc_SID (st_record st))) w1)"
proof -
  let ?ev = "mem_env mar unm" and ?st = "st\<lparr>st_responseStarted := True\<rparr>"
  obtain e st3 w3 where c: "rotateAtCommit ?ev m ?st w = (e, st3, w3)" by (rule prod_cases3)
  have e: "e = None" "st3 = st'" "w3 = w'" "\<exists>opts. tok = Some (TokWrite (rc_SID (st_record st')) opts)"
    using assms(3-6) c by (auto simp: commit_def commit_store_def split: option.splits)
  have dec: "decodeCells ?ev ?st = (fst (decodeCells ?ev st), (snd (decodeCells ?ev st))\<lparr>st_responseStarted := True\<rparr>)"
    by (simp add: decodeCells_def Let_def split: sum.splits)
  have pay: "rotated_payload ?ev ?st p = rotated_payload ?ev st p" for p
    by (auto simp: rotated_payload_def dec mergedView_def split: prod.splits option.splits)
  have staged: "rotated_payload ?ev st p \<Longrightarrow> staged_map st \<noteq> [] \<Longrightarrow> encodeEnvelope ?ev (mergedView st) = Inr p" for p
    using assms(2,3) by (auto simp: rotated_payload_def st_inv_def decodeCells_def)
  obtain w1 payload q t where r: "rotated_payload ?ev ?st payload"
    "minted (rotated_record st payload t) q w w1"
    "st_record st' = q" "w' = snd (mem_do (\<lambda>ctx now. sm_Delete ctx (rc_SID (st_record st))) w1)"
    using rotateAtCommit_minted [OF assms(1), of mar unm m ?st st' w'] c [unfolded e(1-3)] by auto
  have q: "rc_AbsoluteExpiry q = rc_AbsoluteExpiry (st_record st)" "rc_Payload q = payload"
    "rc_UserID q = rotated_user st"
    using r(2) by (auto simp: minted_def)
  show ?thesis using r q e(4) pay staged by metis
qed

section \<open>Logout\<close>

text \<open>logout. In a request with a session, \<open>Destroy\<close> followed by the commit makes exactly one
  store call, the deletion of that session, whatever was staged before. If the deletion fails, the
  commit fails, with the store's error redacted, and no token instruction is given; if it succeeds,
  the client is told to drop its token.\<close>

theorem sess_logout:
  assumes "st_loaded st" "st_exists st" "\<not> st_responseStarted st" "rc_SID (st_record st) \<noteq> []"
    and "Destroy ev st w = (res, st1, w1)" "commit ev m st1 w1 = (res2, st2, w2)"
    and "ev_Delete ev (rc_SID (st_record st)) w = (derr, w')"
  shows "res = Inr () \<and> w1 = w \<and> w2 = w' \<and>
    res2 = (case derr of Some e \<Rightarrow> Inl (redactSIDs e [rc_SID (st_record st)]) | None \<Rightarrow> Inr (Some TokClear))"
proof -
  have d: "Destroy ev st w = (Inr (), destroyState st, w)"
    using assms(1,3) by (simp add: Destroy_def ensureLoaded_def)
  then have st1: "res = Inr ()" "st1 = destroyState st" "w1 = w" using assms(5) by simp_all
  have f: "st_destroyed st1" "st_destroyedSID st1 = rc_SID (st_record st)" "\<not> st_exists st1" "\<not> st_promote st1"
      "staged_map st1 = []" "\<not> st_renew st1"
    using assms(2) by (simp_all add: st1 destroyState_def)
  then have "\<not> pendingMint st1" by (simp add: pendingMint_def)
  then show ?thesis using assms(4,6,7) f st1(1,3)
    by (cases derr) (auto simp: commit_def commit_store_def pendingMint_def)
qed

section \<open>Rotation and revocation\<close>

text \<open>rotation carries a revoked session on. A request loads its session and asks for a new
  identifier (\<open>Renew\<close>, or \<open>Promote\<close>); before it commits, the session is revoked: the store no
  longer holds it. The commit does not notice: it stores the record of the revoked session under a
  new identifier, with the same user and absolute expiry, and gives the client a token for it.
  Every other write of the manager would fail with a conflict there.\<close>

theorem sess_rotation_revives_revoked:
  assumes "st_exists st" "st_renew st" "\<not> st_promote st" "\<not> st_destroyed st" "staged_map st = []"
    and "st_cellsDecoded st" "st_envErr st = None" "encodeEnvelope (mem_env mar unm) (st_cells st) = Inr payload"
    and "sm_inv (sw_mem w)" "sw_turns w = []" "sw_sids w = Inr sid # rest" "sid \<noteq> []"
    and "map_of (sm_records (sw_mem w)) (rc_SID (st_record st)) = None"
    and "map_of (sm_records (sw_mem w)) sid = None" "sid \<noteq> rc_SID (st_record st)"
  shows "\<exists>opts st' w' q. commit (mem_env mar unm) m st w = (Inr (Some (TokWrite sid opts)), st', w') \<and>
    map_of (sm_records (sw_mem w')) sid = Some q \<and> rc_UserID q = rc_UserID (st_record st) \<and>
    rc_AbsoluteExpiry q = rc_AbsoluteExpiry (st_record st)"
proof -
  let ?ev = "mem_env mar unm" and ?st = "st\<lparr>st_responseStarted := True\<rparr>"
  have d: "decodeCells ?ev ?st = (None, ?st)" using assms(6,7) by (simp add: decodeCells_def)
  have v: "mergedView ?st = st_cells st" using assms(5) by (simp add: mergedView_def)
  define r where "r = idleExpiry ?ev m w (zeroRecord\<lparr>rc_UserID := rc_UserID (st_record st),
      rc_AbsoluteExpiry := rc_AbsoluteExpiry (st_record st), rc_Payload := payload\<rparr>)"
  let ?q = "r\<lparr>rc_SID := sid, rc_Version := 1\<rparr>"
  let ?s1 = "snd (sm_Save_put None (r\<lparr>rc_SID := sid, rc_Version := 0\<rparr>) (sw_mem w))"
  have save: "sm_Save None (r\<lparr>rc_SID := sid, rc_Version := 0\<rparr>) (sw_mem w) = (Inr ?q, ?s1)"
    using assms(12,14) sm_Save_put_pair [of None "r\<lparr>rc_SID := sid, rc_Version := 0\<rparr>" "sw_mem w"]
    by (simp add: sm_Save_allowed save_allowed_def)
  have ins: "insertFresh ?ev (retries m) r w = (Inr ?q, w\<lparr>sw_sids := rest, sw_mem := ?s1\<rparr>)"
    using assms(10-12) save
    by (simp add: insertFresh.simps mintSID_def mem_newSID_def mem_do_def next_turn_def)
  have rot: "\<exists>st' w'. rotateAtCommit ?ev m ?st w = (None, st', w') \<and> st_record st' = ?q \<and>
      sw_mem w' = deleteLocked (rc_SID (st_record st)) ?s1"
    using ins d v assms(3,8,10)
    by (simp add: rotateAtCommit_def r_def mem_do_def next_turn_def sm_Delete_def)
  then obtain st' w' where 1: "rotateAtCommit ?ev m ?st w = (None, st', w')" "st_record st' = ?q"
    "sw_mem w' = deleteLocked (rc_SID (st_record st)) ?s1" by blast
  have "map_of (sm_records (sw_mem w')) sid = Some ?q" using assms(15) by (simp add: 1(3))
  moreover have "\<exists>opts. commit ?ev m st w = (Inr (Some (TokWrite sid opts)), st', w')"
    using assms(1,2,4) 1 by (simp add: commit_def commit_store_def)
  moreover have "rc_UserID ?q = rc_UserID (st_record st)" "rc_AbsoluteExpiry ?q = rc_AbsoluteExpiry (st_record st)"
    by (simp_all add: r_def)
  ultimately show ?thesis by blast
qed

section \<open>From one request to the next\<close>

text \<open>The token expires when the record does.\<close>

lemma tokenExpiry_live: "t < tokenExpiry r \<Longrightarrow> \<not> sm_expired t r"
  by (auto simp: tokenExpiry_def sm_expired_def Let_def split: if_splits)

lemma quiet_insertFresh:
  assumes "sw_turns w = []" "sw_sids w = Inr sid # rest" "sid \<noteq> []" "map_of (sm_records (sw_mem w)) sid = None"
  shows "\<exists>s. insertFresh (mem_env mar unm) k r w = (Inr (r\<lparr>rc_SID := sid, rc_Version := 1\<rparr>), w\<lparr>sw_sids := rest, sw_mem := s\<rparr>) \<and>
    map_of (sm_records s) sid = Some (r\<lparr>rc_SID := sid, rc_Version := 1\<rparr>)"
proof -
  let ?r = "r\<lparr>rc_SID := sid, rc_Version := 0\<rparr>"
  have "sm_Save None ?r (sw_mem w) = (Inr (r\<lparr>rc_SID := sid, rc_Version := 1\<rparr>), snd (sm_Save_put None ?r (sw_mem w)))"
    using assms(3,4) sm_Save_put_pair [of None ?r "sw_mem w"] by (simp add: sm_Save_allowed save_allowed_def)
  then have "insertFresh (mem_env mar unm) k r w = (Inr (r\<lparr>rc_SID := sid, rc_Version := 1\<rparr>),
      w\<lparr>sw_sids := rest, sw_mem := snd (sm_Save_put None ?r (sw_mem w))\<rparr>)"
    using assms(1-3) by (simp add: insertFresh.simps mintSID_def mem_newSID_def mem_do_def next_turn_def)
  moreover have "map_of (sm_records (snd (sm_Save_put None ?r (sw_mem w)))) sid = Some (r\<lparr>rc_SID := sid, rc_Version := 1\<rparr>)"
    by simp
  ultimately show ?thesis by blast
qed

lemma first_save:
  assumes "h_enc h v = Inr raw"
  shows "\<exists>st. h_Save ev h v (Some (newState [])) w = (Inr (), Some st, w) \<and> \<not> st_exists st \<and> \<not> st_destroyed st \<and>
    \<not> st_promote st \<and> staged_map st = [(h_key h, Some raw)] \<and> mergedView st = [(h_key h, raw)]"
  using assms
  by (simp add: h_Save_def in_request_def stateFromCtx_def checkStageable_def newState_def h_encode_def cellSave_def
      ensureLoaded_def decodeIfExists_def stage_def mergedView_def staged_map_def)

text \<open>round trip. A visitor without a session saves a value; the commit mints a session and
  sends its token. The next request that arrives with that token, at any time before the token
  expires, reads the value back. The hypotheses on the codecs are the ones of \<open>encoding/json\<close>: what
  was encoded decodes to the same value.\<close>

theorem sess_value_roundtrip:
  assumes "sw_turns w = []" "sw_sids w = Inr sid # rest" "sid \<noteq> []" "map_of (sm_records (sw_mem w)) sid = None"
    and "h_enc h v = Inr raw" "h_dec h raw = Inr v"
    and "mar [(h_key h, raw)] = Inr p" "p \<noteq> []" "unm p = Inr cs" "map_of cs (h_key h) = Some raw"
  shows "\<exists>st1 opts st2 w2. h_Save (mem_env mar unm) h v (Some (newState [])) w = (Inr (), Some st1, w) \<and>
    commit (mem_env mar unm) m st1 w = (Inr (Some (TokWrite sid opts)), st2, w2) \<and>
    (\<forall>t. t < tw_Expiry opts \<longrightarrow>
      fst (h_Get (mem_env mar unm) h (Some (newState sid)) (w2\<lparr>sw_now := t\<rparr>)) = Inr v)"
proof -
  let ?ev = "mem_env mar unm"
  obtain st where st: "h_Save ?ev h v (Some (newState [])) w = (Inr (), Some st, w)" "\<not> st_exists st" "\<not> st_destroyed st"
      "\<not> st_promote st" "staged_map st = [(h_key h, Some raw)]" "mergedView st = [(h_key h, raw)]"
    using first_save [OF assms(5), of ?ev w] by blast
  let ?st = "st\<lparr>st_responseStarted := True\<rparr>"
  have e: "encodeEnvelope ?ev (mergedView ?st) = Inr p"
    using st(6) assms(7) by (simp add: encodeEnvelope_def mem_env_def mergedView_def)
  define r where "r = mintRecord ?ev m ?st p w"
  obtain s where ins: "insertFresh ?ev (retries m) r w =
      (Inr (r\<lparr>rc_SID := sid, rc_Version := 1\<rparr>), w\<lparr>sw_sids := rest, sw_mem := s\<rparr>)"
    and m: "map_of (sm_records s) sid = Some (r\<lparr>rc_SID := sid, rc_Version := 1\<rparr>)"
    using quiet_insertFresh [OF assms(1-4)] by blast
  let ?q = "r\<lparr>rc_SID := sid, rc_Version := 1\<rparr>" and ?w = "w\<lparr>sw_sids := rest, sw_mem := s\<rparr>"
  have c: "\<exists>st2 n. commit ?ev m st w = (Inr (Some (TokWrite sid \<lparr>tw_Expiry = tokenExpiry ?q, tw_Now = n\<rparr>)), st2, ?w)"
    using st e ins
    by (simp add: commit_def commit_store_def mintAtCommit_def pendingMint_def r_def [symmetric] Let_def)
  have p: "rc_Payload r = p" by (simp add: r_def mintRecord_def)
  have "fst (h_Get ?ev h (Some (newState sid)) (?w\<lparr>sw_now := t\<rparr>)) = Inr v" if "t < tokenExpiry ?q" for t
  proof -
    have "sm_Load None t sid s = (Inr ?q, s)" using m tokenExpiry_live [OF that] by (simp add: sm_Load_def)
    then show ?thesis using assms(1,3,6,8-10) p
      by (simp add: h_Get_def in_request_def stateFromCtx_def cellGet_def ensureLoaded_def newState_def mem_do_def
          next_turn_def staged_map_def decodeCells_def decodeEnvelope_def mem_env_def h_decode_def)
  qed
  then show ?thesis using st(1) c by auto
qed

section \<open>Concrete runs\<close>

definition toy_handle :: "string handle" where
  "toy_handle = \<lparr>h_key = appKey, h_enc = Inr, h_dec = Inr, h_zero = []\<rparr>"

definition toy_empty :: sess_world where
  "toy_empty = \<lparr>sw_mem = sm_NewMemoryStore, sw_turns = [], sw_sids = [Inr ''s9''], sw_now = 1\<rparr>"

definition toy_first :: "(sess_err + unit) \<times> sess_state option \<times> sess_world" where
  "toy_first = h_Save toy_env toy_handle ''hi'' (Some (newState [])) toy_empty"

definition toy_minted :: "(sess_err + tok_instr option) \<times> sess_state \<times> sess_world" where
  "toy_minted = commit toy_env toy_manager (the (fst (snd toy_first))) toy_empty"

lemma sess_value_roundtrip_witness:
  "fst (h_Get toy_env toy_handle (Some (newState ''s9'')) ((snd (snd toy_minted))\<lparr>sw_now := 2\<rparr>)) = Inr ''hi''"
proof -
  have 1: "sw_turns toy_empty = []" "sw_sids toy_empty = Inr ''s9'' # []" "''s9'' \<noteq> []"
      "map_of (sm_records (sw_mem toy_empty)) ''s9'' = None"
      "h_enc toy_handle ''hi'' = Inr ''hi''" "h_dec toy_handle ''hi'' = Inr ''hi''"
    by (simp_all add: toy_empty_def sm_NewMemoryStore_def toy_handle_def)
  have 2: "toy_marshal [(h_key toy_handle, ''hi'')] = Inr ''app=hi;''" "''app=hi;'' \<noteq> []"
      "toy_unmarshal ''app=hi;'' = Inr [(''app'', ''hi'')]" by code_simp+
  have 3: "map_of [(''app'', ''hi'')] (h_key toy_handle) = Some ''hi''" by (simp add: toy_handle_def appKey_def)
  obtain st1 opts st2 w2 where r: "h_Save toy_env toy_handle ''hi'' (Some (newState [])) toy_empty = (Inr (), Some st1, toy_empty)"
      "commit toy_env toy_manager st1 toy_empty = (Inr (Some (TokWrite ''s9'' opts)), st2, w2)"
      "\<And>t. t < tw_Expiry opts \<Longrightarrow>
        fst (h_Get toy_env toy_handle (Some (newState ''s9'')) (w2\<lparr>sw_now := t\<rparr>)) = Inr ''hi''"
    using sess_value_roundtrip [where mar = toy_marshal and unm = toy_unmarshal and m = toy_manager, OF 1 2 3] unfolding toy_env_def by blast
  have c: "toy_minted = (Inr (Some (TokWrite ''s9'' opts)), st2, w2)"
    using r(1,2) by (simp add: toy_minted_def toy_first_def)
  have "fst toy_minted = Inr (Some (TokWrite ''s9'' \<lparr>tw_Expiry = 51, tw_Now = 1\<rparr>))" by code_simp
  then have "opts = \<lparr>tw_Expiry = 51, tw_Now = 1\<rparr>" unfolding c by simp
  then have "2 < tw_Expiry opts" by simp
  from r(3) [OF this] show ?thesis unfolding c by simp
qed

text \<open>A session loaded and marked for rotation, in a quiet store that still holds it, and in one where
  it has been revoked.\<close>

definition toy_quiet :: "sess_mem \<Rightarrow> sess_world" where
  "toy_quiet s = \<lparr>sw_mem = s, sw_turns = [], sw_sids = [Inr ''s9''], sw_now = 2\<rparr>"

definition toy_renewed :: sess_state where
  "toy_renewed = (newState ''s1'')\<lparr>st_loaded := True, st_exists := True, st_renew := True, st_cellsDecoded := True,
     st_record := demo_rec\<lparr>rc_Version := 1, rc_Payload := ''a=1;''\<rparr>, st_cells := [(''a'', ''1'')]\<rparr>"

definition toy_rotation :: "(sess_err + tok_instr option) \<times> sess_state \<times> sess_world" where
  "toy_rotation = commit toy_env toy_manager toy_renewed (toy_quiet (sw_mem toy_world))"

lemma toy_renewed_simps:
  "st_inv toy_renewed" "st_loaded toy_renewed" "st_exists toy_renewed" "st_renew toy_renewed" "\<not> st_destroyed toy_renewed"
  "\<not> st_promote toy_renewed" "staged_map toy_renewed = []" "st_cellsDecoded toy_renewed" "st_envErr toy_renewed = None"
  "\<not> st_responseStarted toy_renewed" "rc_SID (st_record toy_renewed) = ''s1''" "rc_AbsoluteExpiry (st_record toy_renewed) = 100"
  "rc_UserID (st_record toy_renewed) = ''ann''" "st_cells toy_renewed = [(''a'', ''1'')]"
  by (simp_all add: toy_renewed_def newState_def st_inv_def staged_map_def demo_rec_def)

lemma sess_rotation_witness:
  "rc_AbsoluteExpiry (st_record (fst (snd toy_rotation))) = 100 \<and> rc_UserID (st_record (fst (snd toy_rotation))) = ''ann''"
proof -
  have "fst toy_rotation = Inr (Some (TokWrite ''s9'' \<lparr>tw_Expiry = 52, tw_Now = 2\<rparr>))" by code_simp
  then have c: "commit toy_env toy_manager toy_renewed (toy_quiet (sw_mem toy_world)) =
      (Inr (Some (TokWrite ''s9'' \<lparr>tw_Expiry = 52, tw_Now = 2\<rparr>)), fst (snd toy_rotation), snd (snd toy_rotation))"
    by (simp add: toy_rotation_def prod_eq_iff)
  have l: "calls_left 1 (toy_quiet (sw_mem toy_world))"
    using toy_world_ok by (simp add: calls_left_def world_ok_def toy_quiet_def script_def)
  show ?thesis
    using sess_rotation [OF l toy_renewed_simps(1,3,4,5) c [unfolded toy_env_def]]
    by (auto simp: toy_renewed_simps rotated_user_def)
qed

lemma sess_logout_witness:
  "fst (commit toy_env toy_manager (destroyState toy_renewed) (toy_quiet (sw_mem toy_world))) = Inr (Some TokClear)"
proof -
  let ?w = "toy_quiet (sw_mem toy_world)"
  have d: "Destroy toy_env toy_renewed ?w = (Inr (), destroyState toy_renewed, ?w)"
    by (simp add: Destroy_def ensureLoaded_def toy_renewed_simps)
  obtain res2 st2 w2 where c: "commit toy_env toy_manager (destroyState toy_renewed) ?w = (res2, st2, w2)"
    by (rule prod_cases3)
  obtain derr w' where e: "ev_Delete toy_env (rc_SID (st_record toy_renewed)) ?w = (derr, w')" by (rule prod.exhaust)
  have "fst (ev_Delete toy_env (rc_SID (st_record toy_renewed)) ?w) = None" by code_simp
  moreover have "rc_SID (st_record toy_renewed) \<noteq> []" by (simp add: toy_renewed_simps)
  ultimately show ?thesis using sess_logout [OF toy_renewed_simps(2,3,10) _ d c e] c e by simp
qed

lemma sess_rotation_revives_revoked_witness:
  "\<exists>opts st' w' q. commit toy_env toy_manager toy_renewed (toy_quiet sm_NewMemoryStore) =
      (Inr (Some (TokWrite ''s9'' opts)), st', w') \<and>
    map_of (sm_records (sw_mem w')) ''s9'' = Some q \<and> rc_UserID q = ''ann''"
proof -
  have e: "encodeEnvelope (mem_env toy_marshal toy_unmarshal) (st_cells toy_renewed) = Inr ''a=1;''"
    unfolding toy_env_def [symmetric] by code_simp
  have w: "sm_inv (sw_mem (toy_quiet sm_NewMemoryStore))" "sw_turns (toy_quiet sm_NewMemoryStore) = []"
      "sw_sids (toy_quiet sm_NewMemoryStore) = Inr ''s9'' # []" "''s9'' \<noteq> []"
      "map_of (sm_records (sw_mem (toy_quiet sm_NewMemoryStore))) (rc_SID (st_record toy_renewed)) = None"
      "map_of (sm_records (sw_mem (toy_quiet sm_NewMemoryStore))) ''s9'' = None" "''s9'' \<noteq> rc_SID (st_record toy_renewed)"
    by (simp_all add: toy_quiet_def sm_inv_empty) (simp_all add: sm_NewMemoryStore_def toy_renewed_simps)
  show ?thesis
    using sess_rotation_revives_revoked [OF toy_renewed_simps(3,4,6,5,7,8,9) e w, of toy_manager]
    by (auto simp: toy_renewed_simps toy_env_def)
qed

end
