(* ===== verification/SessionHTTP.thy ===== *)
theory SessionHTTP
  imports SessionLife
begin

unbundle bit_operations_syntax

text \<open>
  Package \<open>session\<close>, the middleware (\<open>middleware.go\<close>): the response writer that commits the session
  before the response starts, and the wrappers that expose the optional interfaces of the
  underlying writer.

  \<^item> A handler is the list of what it does in order: calls on the writer and session work in
    between. The calls that reach the underlying writer, the commit and the token instruction are
    recorded in \<open>cw_trace\<close>.
  \<^item> \<open>cw_world\<close> is the request state with the world of the store. The deadline of the commit's context
    is part of that world: a store call may fail with the context's error at any point.
  \<^item> A handler can get at the underlying writer through \<open>Unwrap\<close>, as \<open>http.ResponseController\<close> does. What it then calls
    there goes past the committing writer and is recorded as a \<open>WRaw\<close> event.
  \<^item> A handler that panics stops there, and nothing more runs: the middleware does not recover.
\<close>

section \<open>The committing writer\<close>

record writer_caps =
  cap_Flusher :: bool
  cap_FlushError :: bool
  cap_Hijacker :: bool
  cap_Pusher :: bool
  cap_ReaderFrom :: bool

datatype wr_event = WCommit | WToken tok_instr | WHeader int | WBody string | WFlush | WFlushError
  | WHijack | WReadFrom string | WPush | WRaw wr_event

record 'w cwriter =
  cw_world :: 'w
  cw_trace :: "wr_event list"
  cw_headerWritten :: bool
  cw_committed :: bool
  cw_failed :: bool

definition emit :: "wr_event list \<Rightarrow> 'w cwriter \<Rightarrow> 'w cwriter" where
  "emit evs cw = cw\<lparr>cw_trace := cw_trace cw @ evs\<rparr>"

type_synonym 'w commit_fn = "'w \<Rightarrow> (sess_err + tok_instr option) \<times> 'w"

text \<open>\<open>http.Error\<close> writes the status and the message with a newline.\<close>

definition commitFailed :: string where
  "commitFailed = ''session commit failed'' @ [CHR 0x0A]"

definition runCommit :: "'w commit_fn \<Rightarrow> 'w cwriter \<Rightarrow> 'w cwriter" where
  "runCommit commitFn cw =
    (if cw_committed cw then cw
     else
       (let cw1 = emit [WCommit] (cw\<lparr>cw_committed := True\<rparr>) in
        case commitFn (cw_world cw1) of
          (Inr t, w) \<Rightarrow> emit (case t of None \<Rightarrow> [] | Some i \<Rightarrow> [WToken i]) (cw1\<lparr>cw_world := w\<rparr>)
        | (Inl err, w) \<Rightarrow>
            (emit [WHeader 500, WBody commitFailed] (cw1\<lparr>cw_world := w\<rparr>))\<lparr>cw_headerWritten := True, cw_failed := True\<rparr>))"

definition cw_WriteHeader :: "'w commit_fn \<Rightarrow> int \<Rightarrow> 'w cwriter \<Rightarrow> 'w cwriter" where
  "cw_WriteHeader commitFn status cw =
    (if cw_headerWritten cw then cw
     else
       (let cw1 = runCommit commitFn cw in
        if cw_headerWritten cw1 then cw1
        else emit [WHeader status] (cw1\<lparr>cw_headerWritten := True\<rparr>)))"

definition startResponse :: "'w commit_fn \<Rightarrow> 'w cwriter \<Rightarrow> 'w cwriter" where
  "startResponse commitFn cw =
    (if \<not> cw_headerWritten cw then (runCommit commitFn cw)\<lparr>cw_headerWritten := True\<rparr> else cw)"

definition cw_Write :: "'w commit_fn \<Rightarrow> string \<Rightarrow> 'w cwriter \<Rightarrow> 'w cwriter" where
  "cw_Write commitFn b cw =
    (let cw1 = startResponse commitFn cw in if cw_failed cw1 then cw1 else emit [WBody b] cw1)"

definition cw_flush :: "'w commit_fn \<Rightarrow> writer_caps \<Rightarrow> 'w cwriter \<Rightarrow> 'w cwriter" where
  "cw_flush commitFn caps cw =
    (let cw1 = startResponse commitFn cw in
     if cap_Flusher caps then emit [WFlush] cw1
     else if cap_FlushError caps then emit [WFlushError] cw1 else cw1)"

definition cw_flushError :: "'w commit_fn \<Rightarrow> writer_caps \<Rightarrow> 'w cwriter \<Rightarrow> 'w cwriter" where
  "cw_flushError commitFn caps cw =
    (let cw1 = startResponse commitFn cw in
     if cap_FlushError caps then emit [WFlushError] cw1
     else if cap_Flusher caps then emit [WFlush] cw1 else cw1)"

text \<open>\<open>ok\<close> is whether the underlying \<open>Hijack\<close> succeeds.\<close>

definition cw_hijack :: "'w commit_fn \<Rightarrow> writer_caps \<Rightarrow> bool \<Rightarrow> 'w cwriter \<Rightarrow> 'w cwriter" where
  "cw_hijack commitFn caps ok cw =
    (if \<not> cap_Hijacker caps then cw
     else
       (let cw1 = runCommit commitFn cw in
        if cw_failed cw1 then cw1
        else if ok then emit [WHijack] (cw1\<lparr>cw_headerWritten := True\<rparr>) else emit [WHijack] cw1))"

definition cw_readFrom :: "'w commit_fn \<Rightarrow> writer_caps \<Rightarrow> string \<Rightarrow> 'w cwriter \<Rightarrow> 'w cwriter" where
  "cw_readFrom commitFn caps src cw =
    (let cw1 = startResponse commitFn cw in
     if cw_failed cw1 then cw1
     else if cap_ReaderFrom caps then emit [WReadFrom src] cw1 else emit [WBody src] cw1)"

text \<open>What a handler calls on the writer that \<open>Unwrap\<close> returns.\<close>

definition cw_unwrapped :: "wr_event list \<Rightarrow> 'w cwriter \<Rightarrow> 'w cwriter" where
  "cw_unwrapped evs cw = emit (map WRaw evs) cw"

definition cw_push :: "writer_caps \<Rightarrow> 'w cwriter \<Rightarrow> 'w cwriter" where
  "cw_push caps cw = (if cap_Pusher caps then emit [WPush] cw else cw)"

section \<open>The wrappers\<close>

definition canFlush :: "writer_caps \<Rightarrow> bool" where
  "canFlush caps \<longleftrightarrow> cap_Flusher caps \<or> cap_FlushError caps"

datatype part = FlushPart | HijackPart | PushPart | ReadFromPart

datatype wrapper = CW | wF | wH | wP | wR | wFH | wFP | wFR | wHP | wHR | wPR | wFHP | wFHR | wFPR | wHPR | wFHPR

fun embedded :: "wrapper \<Rightarrow> part list" where
  "embedded CW = []"
| "embedded wF = [FlushPart]"
| "embedded wH = [HijackPart]"
| "embedded wP = [PushPart]"
| "embedded wR = [ReadFromPart]"
| "embedded wFH = [FlushPart, HijackPart]"
| "embedded wFP = [FlushPart, PushPart]"
| "embedded wFR = [FlushPart, ReadFromPart]"
| "embedded wHP = [HijackPart, PushPart]"
| "embedded wHR = [HijackPart, ReadFromPart]"
| "embedded wPR = [PushPart, ReadFromPart]"
| "embedded wFHP = [FlushPart, HijackPart, PushPart]"
| "embedded wFHR = [FlushPart, HijackPart, ReadFromPart]"
| "embedded wFPR = [FlushPart, PushPart, ReadFromPart]"
| "embedded wHPR = [HijackPart, PushPart, ReadFromPart]"
| "embedded wFHPR = [FlushPart, HijackPart, PushPart, ReadFromPart]"

definition wrapWriter :: "writer_caps \<Rightarrow> wrapper" where
  "wrapWriter caps =
    (let mask0 = (0 :: int);
         mask1 = (if canFlush caps then mask0 OR 1 else mask0);
         mask2 = (if cap_Hijacker caps then mask1 OR 2 else mask1);
         mask3 = (if cap_Pusher caps then mask2 OR 4 else mask2);
         mask = (if cap_ReaderFrom caps then mask3 OR 8 else mask3)
     in if mask = 1 then wF else if mask = 2 then wH else if mask = 3 then wFH else if mask = 4 then wP
        else if mask = 5 then wFP else if mask = 6 then wHP else if mask = 7 then wFHP else if mask = 8 then wR
        else if mask = 9 then wFR else if mask = 10 then wHR else if mask = 11 then wFHR else if mask = 12 then wPR
        else if mask = 13 then wFPR else if mask = 14 then wHPR else if mask = 15 then wFHPR else CW)"

section \<open>The middleware\<close>

datatype 'w handler_op = OpWork "'w \<Rightarrow> 'w" | OpWriteHeader int | OpWrite string | OpFlush | OpFlushError
  | OpHijack bool | OpReadFrom string | OpPush | OpUnwrap "wr_event list" | OpPanic

text \<open>A handler reaches an optional method only if the wrapper has it; otherwise the type assertion
  fails and it does nothing.\<close>

fun handler_step :: "'w commit_fn \<Rightarrow> writer_caps \<Rightarrow> 'w handler_op \<Rightarrow> 'w cwriter \<Rightarrow> 'w cwriter" where
  "handler_step c caps (OpWork f) cw = cw\<lparr>cw_world := f (cw_world cw)\<rparr>"
| "handler_step c caps (OpWriteHeader s) cw = cw_WriteHeader c s cw"
| "handler_step c caps (OpWrite b) cw = cw_Write c b cw"
| "handler_step c caps OpFlush cw = (if FlushPart \<in> set (embedded (wrapWriter caps)) then cw_flush c caps cw else cw)"
| "handler_step c caps OpFlushError cw = (if FlushPart \<in> set (embedded (wrapWriter caps)) then cw_flushError c caps cw else cw)"
| "handler_step c caps (OpHijack ok) cw = (if HijackPart \<in> set (embedded (wrapWriter caps)) then cw_hijack c caps ok cw else cw)"
| "handler_step c caps (OpReadFrom src) cw =
    (if ReadFromPart \<in> set (embedded (wrapWriter caps)) then cw_readFrom c caps src cw else cw)"
| "handler_step c caps OpPush cw = (if PushPart \<in> set (embedded (wrapWriter caps)) then cw_push caps cw else cw)"
| "handler_step c caps (OpUnwrap evs) cw = cw_unwrapped evs cw"
| "handler_step c caps OpPanic cw = cw"

definition is_panic :: "'w handler_op \<Rightarrow> bool" where
  "is_panic op = (case op of OpPanic \<Rightarrow> True | _ \<Rightarrow> False)"

definition newWriter :: "'w \<Rightarrow> 'w cwriter" where
  "newWriter w = \<lparr>cw_world = w, cw_trace = [], cw_headerWritten = False, cw_committed = False, cw_failed = False\<rparr>"

definition serve :: "'w commit_fn \<Rightarrow> writer_caps \<Rightarrow> 'w handler_op list \<Rightarrow> 'w \<Rightarrow> 'w cwriter" where
  "serve c caps ops w =
    (let cw = fold (handler_step c caps) (takeWhile (\<lambda>op. \<not> is_panic op) ops) (newWriter w)
     in if list_ex is_panic ops then cw
        else if \<not> cw_headerWritten cw then cw_WriteHeader c 200 cw else cw)"

definition commitFn :: "('s, 'x) sess_env_scheme \<Rightarrow> sess_manager \<Rightarrow> (sess_state \<times> 's) commit_fn" where
  "commitFn ev m = (\<lambda>(st, w). case commit ev m st w of (r, st', w') \<Rightarrow> (r, st', w'))"

text \<open>\<open>Token.Read\<close> panics on a \<open>Multi\<close> with a nil member, which \<open>New\<close> rejects: \<open>None\<close>.\<close>

definition Middleware :: "('s, 'x) sess_env_scheme \<Rightarrow> sess_manager \<Rightarrow> writer_caps \<Rightarrow> http_req \<Rightarrow>
    (sess_state \<times> 's) handler_op list \<Rightarrow> 's \<Rightarrow> (sess_state \<times> 's) cwriter option" where
  "Middleware ev m caps req ops w =
    (case cf_Token (mg_cfg m) of
       None \<Rightarrow> None
     | Some tok \<Rightarrow>
         (case tok_Read tok req of
            None \<Rightarrow> None
          | Some r \<Rightarrow>
              (let sid = (case r of None \<Rightarrow> [] | Some s \<Rightarrow> s)
               in Some (serve (commitFn ev m) caps ops (newState sid, w)))))"

section \<open>The commit runs once, before anything leaves\<close>

fun is_token :: "wr_event \<Rightarrow> bool" where
  "is_token (WToken i) = True"
| "is_token e = False"

fun is_raw :: "wr_event \<Rightarrow> bool" where
  "is_raw (WRaw e) = True"
| "is_raw e = False"

text \<open>What reaches the underlying writer through the committing writer.\<close>

definition managed :: "'w cwriter \<Rightarrow> wr_event list" where
  "managed cw = filter (\<lambda>e. \<not> is_raw e) (cw_trace cw)"

text \<open>What the handler can still cause once the commit has run, and once it has failed.\<close>

definition response_event :: "wr_event \<Rightarrow> bool" where
  "response_event e \<longleftrightarrow> e \<noteq> WCommit \<and> \<not> is_token e"

definition idle_event :: "wr_event \<Rightarrow> bool" where
  "idle_event e \<longleftrightarrow> e \<in> {WFlush, WFlushError, WPush}"

definition after_commit :: "bool \<Rightarrow> wr_event list \<Rightarrow> bool" where
  "after_commit failed evs \<longleftrightarrow>
    (if failed then \<exists>r. evs = [WHeader 500, WBody commitFailed] @ r \<and> list_all idle_event r
     else \<exists>toks r. evs = toks @ r \<and> length toks \<le> 1 \<and> list_all is_token toks \<and> list_all response_event r)"

definition cw_inv :: "'w cwriter \<Rightarrow> bool" where
  "cw_inv cw \<longleftrightarrow>
     (cw_headerWritten cw \<longrightarrow> cw_committed cw) \<and> (cw_failed cw \<longrightarrow> cw_committed cw \<and> cw_headerWritten cw) \<and>
     (if cw_committed cw
      then \<exists>pre evs. managed cw = pre @ WCommit # evs \<and> list_all (\<lambda>e. e = WPush) pre \<and> after_commit (cw_failed cw) evs
      else list_all (\<lambda>e. e = WPush) (managed cw))"

lemma managed_simps [simp]:
  "managed (emit evs cw) = managed cw @ filter (\<lambda>e. \<not> is_raw e) evs" "managed (cw\<lparr>cw_world := v\<rparr>) = managed cw"
  "managed (cw\<lparr>cw_headerWritten := b\<rparr>) = managed cw" "managed (cw\<lparr>cw_committed := b\<rparr>) = managed cw" "managed (cw\<lparr>cw_failed := b\<rparr>) = managed cw"
  by (simp_all add: managed_def emit_def)

lemma emit_simps [simp]:
  "cw_world (emit evs cw) = cw_world cw" "cw_committed (emit evs cw) = cw_committed cw" "cw_headerWritten (emit evs cw) = cw_headerWritten cw"
  "cw_failed (emit evs cw) = cw_failed cw"
  by (simp_all add: emit_def)

lemma cw_inv_new: "cw_inv (newWriter w)"
  by (simp add: cw_inv_def newWriter_def managed_def)

lemma after_commit_snoc:
  "after_commit failed evs \<Longrightarrow> response_event e \<Longrightarrow> (failed \<Longrightarrow> idle_event e) \<Longrightarrow> after_commit failed (evs @ [e])"
  by (cases failed) (fastforce simp: after_commit_def)+

lemma cw_inv_emit:
  assumes "cw_inv cw" "cw_committed cw" "response_event e" "cw_failed cw \<Longrightarrow> idle_event e"
  shows "cw_inv (emit [e] cw)"
proof -
  obtain pre evs where "managed cw = pre @ WCommit # evs" "list_all (\<lambda>e. e = WPush) pre"
    "after_commit (cw_failed cw) evs" using assms(1,2) by (auto simp: cw_inv_def)
  moreover have "after_commit (cw_failed cw) (evs @ [e])"
    using after_commit_snoc [OF calculation(3) assms(3)] assms(4) by simp
  ultimately show ?thesis using assms(1,2) by (cases "is_raw e") (auto simp: cw_inv_def)
qed

lemma cw_inv_runCommit:
  assumes "cw_inv cw"
  shows "cw_inv (runCommit c cw)" "cw_committed (runCommit c cw)"
proof -
  obtain r w where c: "c (cw_world cw) = (r, w)" by (rule prod.exhaust)
  have "cw_inv (runCommit c cw) \<and> cw_committed (runCommit c cw)"
  proof (cases "cw_committed cw")
    case True
    then show ?thesis using assms by (simp add: runCommit_def)
  next
    case False
    then have p: "list_all (\<lambda>e. e = WPush) (managed cw)" "\<not> cw_failed cw" "\<not> cw_headerWritten cw"
      using assms by (auto simp: cw_inv_def)
    show ?thesis
    proof (cases r)
      case (Inl e)
      have "after_commit True [WHeader 500, WBody commitFailed]" by (simp add: after_commit_def)
      then show ?thesis using False p c Inl by (auto simp: runCommit_def cw_inv_def Let_def)
    next
      case (Inr t)
      have "after_commit False (case t of None \<Rightarrow> [] | Some i \<Rightarrow> [WToken i])"
        by (auto simp: after_commit_def intro: exI [of _ "case t of None \<Rightarrow> [] | Some i \<Rightarrow> [WToken i]"] split: option.splits)
      then show ?thesis using False p c Inr by (auto simp: runCommit_def cw_inv_def Let_def split: option.splits)
    qed
  qed
  then show "cw_inv (runCommit c cw)" "cw_committed (runCommit c cw)" by simp_all
qed

lemma cw_inv_started: "cw_inv cw \<Longrightarrow> cw_committed cw \<Longrightarrow> cw_inv (cw\<lparr>cw_headerWritten := True\<rparr>)"
  by (simp add: cw_inv_def)

lemma cw_inv_startResponse:
  "cw_inv cw \<Longrightarrow> cw_inv (startResponse c cw) \<and> cw_committed (startResponse c cw)"
  by (auto simp: startResponse_def cw_inv_runCommit cw_inv_started) (simp add: cw_inv_def)

lemma event_simps [simp]:
  "response_event (WHeader s)" "response_event (WBody b)" "response_event WFlush" "response_event WFlushError"
  "response_event WHijack" "response_event (WReadFrom b)" "response_event WPush"
  "idle_event WFlush" "idle_event WFlushError" "idle_event WPush"
  by (simp_all add: response_event_def idle_event_def)

lemma cw_inv_push: "cw_inv cw \<Longrightarrow> cw_inv (cw_push caps cw)"
  by (cases "cw_committed cw") (auto simp: cw_push_def intro: cw_inv_emit, auto simp: cw_inv_def)

lemma cw_inv_unwrapped: "cw_inv cw \<Longrightarrow> cw_inv (cw_unwrapped evs cw)"
  by (simp add: cw_inv_def cw_unwrapped_def filter_map o_def)

lemma cw_inv_WriteHeader:
  assumes i: "cw_inv cw"
  shows "cw_inv (cw_WriteHeader c s cw) \<and> cw_headerWritten (cw_WriteHeader c s cw)"
proof (cases "cw_headerWritten cw \<or> cw_headerWritten (runCommit c cw)")
  case True
  then show ?thesis using i cw_inv_runCommit [OF i, of c] by (auto simp: cw_WriteHeader_def Let_def)
next
  case False
  note r = cw_inv_runCommit [OF i, of c]
  have "\<not> cw_failed (runCommit c cw)" using r(1) False by (auto simp: cw_inv_def)
  then have "cw_inv (emit [WHeader s] ((runCommit c cw)\<lparr>cw_headerWritten := True\<rparr>))"
    using r by (intro cw_inv_emit cw_inv_started) simp_all
  then show ?thesis using False by (simp add: cw_WriteHeader_def Let_def emit_def)
qed

lemma cw_inv_step: "cw_inv cw \<Longrightarrow> cw_inv (handler_step c caps op cw)"
proof (cases op)
  case (OpHijack ok)
  assume i: "cw_inv cw"
  note r = cw_inv_runCommit [OF i, of c]
  show ?thesis using OpHijack i r
    by (auto simp: cw_hijack_def Let_def intro!: cw_inv_emit cw_inv_started)
next
  case (OpWork f)
  then show "cw_inv cw \<Longrightarrow> ?thesis" by (simp add: cw_inv_def)
qed (auto simp: cw_inv_WriteHeader cw_inv_unwrapped cw_Write_def cw_flush_def cw_flushError_def cw_readFrom_def cw_inv_push Let_def
    dest: cw_inv_startResponse [of _ c] intro!: cw_inv_emit)

lemma cw_inv_steps: "cw_inv cw \<Longrightarrow> cw_inv (fold (handler_step c caps) ops cw)"
  by (induction ops arbitrary: cw) (simp_all add: cw_inv_step)

text \<open>C10: the session is committed once per request and before the response. Whatever a handler does with the response
  writer it was given, writing, flushing, hijacking or nothing at all, what reaches the underlying writer through it has
  the commit exactly once, before any header, body byte, flush or hijack; the token instruction, at most one, comes next,
  ahead of the headers. If the commit fails, the client gets the status 500 and the error message and nothing the
  handler writes through the writer, before or after, goes out. Calls on the writer that \<open>Unwrap\<close> returns are not
  included: they reach the underlying writer at once, without a commit. A handler that panics leaves the same picture if
  it had started the response or hijacked; if not, the session is not committed and nothing has gone out.\<close>

theorem sess_commit_once_first:
  "let cw = serve c caps ops w in
     if list_ex is_panic ops \<and> \<not> cw_committed cw
     then list_all (\<lambda>e. e = WPush) (managed cw) \<and> \<not> cw_headerWritten cw
     else \<exists>pre evs. managed cw = pre @ WCommit # evs \<and> list_all (\<lambda>e. e = WPush) pre \<and>
       after_commit (cw_failed cw) evs \<and> (list_ex is_panic ops \<or> cw_headerWritten cw)"
proof -
  let ?cw = "fold (handler_step c caps) (takeWhile (\<lambda>op. \<not> is_panic op) ops) (newWriter w)"
  have i: "cw_inv ?cw" by (rule cw_inv_steps [OF cw_inv_new])
  show ?thesis
  proof (cases "list_ex is_panic ops")
    case True
    then have "serve c caps ops w = ?cw" by (simp add: serve_def)
    then show ?thesis using i True by (auto simp: cw_inv_def Let_def)
  next
    case False
    then have "cw_inv (serve c caps ops w)" "cw_headerWritten (serve c caps ops w)"
      using i cw_inv_WriteHeader [of ?cw c 200] by (auto simp: serve_def Let_def)
    then show ?thesis using False by (auto simp: cw_inv_def Let_def)
  qed
qed

section \<open>Status codes\<close>

text \<open>a handler that sends an informational status (1xx, for instance 103 Early Hints), then its
  final status: the middleware takes the first call for the start of the response, and the final
  status never reaches the underlying writer, which answers 200 in its place.\<close>

theorem sess_final_status_lost:
  assumes "fst (c w) = Inr t"
  shows "cw_trace (serve c caps [OpWriteHeader 103, OpWriteHeader final] w) =
    WCommit # (case t of None \<Rightarrow> [] | Some i \<Rightarrow> [WToken i]) @ [WHeader 103]"
proof -
  obtain w' where "c w = (Inr t, w')" using assms by (cases "c w") auto
  then show ?thesis
    by (simp add: serve_def is_panic_def newWriter_def cw_WriteHeader_def runCommit_def emit_def split: option.splits)
qed

lemma sess_final_status_lost_witness:
  "cw_trace (serve (\<lambda>u :: unit. (Inr None, u)) \<lparr>cap_Flusher = True, cap_FlushError = False, cap_Hijacker = False,
      cap_Pusher = False, cap_ReaderFrom = False\<rparr> [OpWriteHeader 103, OpWriteHeader 404] ()) = [WCommit, WHeader 103]"
  by (subst sess_final_status_lost [where t = None]) simp_all

text \<open>the wrapper has exactly the optional interfaces the underlying writer has: \<open>Flush\<close> when it
  can flush in either way, \<open>Hijack\<close>, \<open>Push\<close> and \<open>ReadFrom\<close> when it has them.\<close>

theorem sess_wrapWriter_exact:
  "p \<in> set (embedded (wrapWriter caps)) \<longleftrightarrow>
    (case p of FlushPart \<Rightarrow> canFlush caps | HijackPart \<Rightarrow> cap_Hijacker caps | PushPart \<Rightarrow> cap_Pusher caps
       | ReadFromPart \<Rightarrow> cap_ReaderFrom caps)"
  by (cases "canFlush caps"; cases "cap_Hijacker caps"; cases "cap_Pusher caps"; cases "cap_ReaderFrom caps"; cases p)
    (simp_all add: wrapWriter_def Let_def)

end
