(* ===== verification/MwOrder.thy ===== *)
theory MwOrder
  imports GoText "HOL-Library.Multiset"
begin

text \<open>
  Package \<open>router/directive\<close>: the order of the global middleware (\<open>ordering.go\<close>), every function of it.

  \<^item> A node pointer is the record \<open>mw_node\<close>; \<open>nd_id\<close> tells two declarations with the same contents
    apart, as two pointers are.
  \<^item> The flag \<open>used\<close> of a node, which \<open>resolve\<close> sets through the pointer, is the list \<open>mw_used\<close> of the
    directive's state; every other field of a node is final once \<open>Check\<close> has registered it.
  \<^item> A map from nodes to what was appended for them is the filtered list of what was appended; a map
    of counters is a function.
  \<^item> A diagnostic is its kind, with the options, labels and position it reports; severities are fixed
    per kind (\<open>mw_fatal\<close>), the wording is not modelled.
  \<^item> The two depth-first searches (\<open>stuckCycle\<close>, \<open>requiresCycle\<close>) are one function over edges. Its
    path of edges gives the stack of \<open>requiresCycle\<close>: the sources of the path and the current node. The
    recursion depth is bounded by the number of nodes; out of depth is \<open>None\<close>, which is proved not to
    happen.
\<close>

section \<open>Nodes and edges\<close>

type_synonym mw_pos = "string \<times> int"

record mw_ref =
  rf_name :: string
  rf_pos :: mw_pos

record mw_node =
  nd_id :: nat
  nd_pos :: mw_pos
  nd_name :: string
  nd_global :: bool
  nd_requires :: "mw_ref list"
  nd_after :: "mw_ref list"
  nd_before :: "mw_ref list"
  nd_afterAll :: bool
  nd_beforeAll :: bool
  nd_fn :: string
  nd_pkg :: "(string \<times> string) option"

record mw_edge =
  e_from :: mw_node
  e_to :: mw_node
  e_decl :: mw_node
  e_opt :: string
  e_pos :: mw_pos
  e_hard :: bool

datatype mw_diag =
    NotGlobal string mw_pos
  | BandContradiction string string mw_pos
  | OrderingCycle "string list" mw_pos
  | UnknownRequires string mw_pos
  | RequiresNotGlobal string string mw_pos
  | Inert string mw_pos
  | NeverReferenced string mw_pos
  | RequiresCycle "string list" mw_pos
  | DuplicateName string mw_pos mw_pos
  | UnknownMiddleware string mw_pos
  | GlobalInChain string mw_pos
  | ChainMissing string string mw_pos

fun mw_fatal :: "mw_diag \<Rightarrow> bool" where
  "mw_fatal (NeverReferenced n p) = False"
| "mw_fatal d = True"

definition bandOuter :: nat where "bandOuter = 0"
definition bandMiddle :: nat where "bandMiddle = 1"
definition bandInner :: nat where "bandInner = 2"

definition band :: "mw_node \<Rightarrow> nat" where
  "band nd = (if nd_beforeAll nd then bandOuter else if nd_afterAll nd then bandInner else bandMiddle)"

definition declLess :: "mw_node \<Rightarrow> mw_node \<Rightarrow> bool" where
  "declLess a b \<longleftrightarrow>
    (if fst (nd_pos a) \<noteq> fst (nd_pos b) then fst (nd_pos a) < fst (nd_pos b) else snd (nd_pos a) < snd (nd_pos b))"

text \<open>\<open>sort.SliceStable\<close> with \<open>declLess\<close> is the stable sort by position.\<close>

definition declSort :: "mw_node list \<Rightarrow> mw_node list" where
  "declSort nds = sort_key nd_pos nds"

section \<open>Depth-first search for a cycle\<close>

datatype color = White | Gray | Black

text \<open>The result: the path to the edge that closes a cycle and that edge, if one was found, and the
  colors.\<close>

function dfs_node :: "nat \<Rightarrow> ('n \<Rightarrow> 'e list) \<Rightarrow> ('e \<Rightarrow> 'n) \<Rightarrow> 'n \<Rightarrow> 'e list \<Rightarrow> ('n \<Rightarrow> color) \<Rightarrow>
    (('e list \<times> 'e) option \<times> ('n \<Rightarrow> color)) option"
  and dfs_edges :: "nat \<Rightarrow> ('n \<Rightarrow> 'e list) \<Rightarrow> ('e \<Rightarrow> 'n) \<Rightarrow> 'e list \<Rightarrow> 'e list \<Rightarrow> ('n \<Rightarrow> color) \<Rightarrow>
    (('e list \<times> 'e) option \<times> ('n \<Rightarrow> color)) option" where
  "dfs_node n succ dst nd path col =
    (case dfs_edges n succ dst (succ nd) path (col(nd := Gray)) of
       None \<Rightarrow> None
     | Some (Some c, col') \<Rightarrow> Some (Some c, col')
     | Some (None, col') \<Rightarrow> Some (None, col'(nd := Black)))"
| "dfs_edges n succ dst [] path col = Some (None, col)"
| "dfs_edges n succ dst (e # es) path col =
    (case col (dst e) of
       Gray \<Rightarrow> Some (Some (path, e), col)
     | Black \<Rightarrow> dfs_edges n succ dst es path col
     | White \<Rightarrow>
         if n = 0 then None
         else case dfs_node (n - 1) succ dst (dst e) (path @ [e]) col of
           None \<Rightarrow> None
         | Some (Some c, col') \<Rightarrow> Some (Some c, col')
         | Some (None, col') \<Rightarrow> dfs_edges n succ dst es path col')"
  by pat_completeness auto
termination
  by (relation "measures [case_sum (\<lambda>(n, _). n) (\<lambda>(n, _). n), case_sum (\<lambda>_. 1) (\<lambda>_. 0),
      case_sum (\<lambda>_. 0) (\<lambda>(_, _, _, es, _). length es)]") auto

declare dfs_node.simps [simp del] dfs_edges.simps(2) [simp del]

fun dfs_roots :: "nat \<Rightarrow> ('n \<Rightarrow> 'e list) \<Rightarrow> ('e \<Rightarrow> 'n) \<Rightarrow> 'n list \<Rightarrow> ('n \<Rightarrow> color) \<Rightarrow>
    (('e list \<times> 'e) option \<times> ('n \<Rightarrow> color)) option" where
  "dfs_roots n succ dst [] col = Some (None, col)"
| "dfs_roots n succ dst (nd # nds) col =
    (if col nd = White then
       (case dfs_node n succ dst nd [] col of
          None \<Rightarrow> None
        | Some (Some c, col') \<Rightarrow> Some (Some c, col')
        | Some (None, col') \<Rightarrow> dfs_roots n succ dst nds col')
     else dfs_roots n succ dst nds col)"

text \<open>\<open>stuckCycle\<close>: the edges of the stuck subgraph, from the first path edge that leaves the node the
  closing edge enters.\<close>

definition stuckCycle :: "mw_node list \<Rightarrow> mw_edge list \<Rightarrow> mw_edge list option" where
  "stuckCycle stuck graph =
    (let succ = (\<lambda>nd. filter (\<lambda>e. e_from e = nd \<and> e_to e \<in> set stuck) graph) in
     case dfs_roots (length stuck) succ e_to (declSort stuck) (\<lambda>_. White) of
       Some (Some (path, e), _) \<Rightarrow>
         (let p = dropWhile (\<lambda>pe. e_from pe \<noteq> e_to e) path in Some (if p = [] then [e] else p @ [e]))
     | _ \<Rightarrow> None)"

definition requiresCycle :: "mw_node list \<Rightarrow> (string \<rightharpoonup> mw_node) \<Rightarrow> mw_node list option" where
  "requiresCycle decls byName =
    (let succ = (\<lambda>nd. concat (map (\<lambda>r. case byName (rf_name r) of None \<Rightarrow> []
          | Some t \<Rightarrow> if t \<in> set decls then [(nd, t)] else []) (nd_requires nd))) in
     case dfs_roots (length decls) succ snd (declSort decls) (\<lambda>_. White) of
       Some (Some (path, e), _) \<Rightarrow> Some (dropWhile (\<lambda>nd. nd \<noteq> snd e) (map fst path @ [fst e]))
     | _ \<Rightarrow> None)"

section \<open>Collecting edges\<close>

record mw_collect =
  mc_edges :: "mw_edge list"
  mc_inactive :: "(mw_node \<times> string \<times> mw_pos) list"
  mc_diags :: "mw_diag list"

definition requires_edge :: "(string \<rightharpoonup> mw_node) \<Rightarrow> mw_node \<Rightarrow> mw_ref \<Rightarrow> mw_collect \<Rightarrow> mw_collect" where
  "requires_edge byName g r c =
    (case byName (rf_name r) of
       None \<Rightarrow> c
     | Some target \<Rightarrow>
         if \<not> nd_global target then c
         else c\<lparr>mc_edges := mc_edges c @ [\<lparr>e_from = target, e_to = g, e_decl = g,
                e_opt = ''requires='' @ rf_name r, e_pos = rf_pos r, e_hard = True\<rparr>]\<rparr>)"

definition after_edge :: "(string \<rightharpoonup> mw_node) \<Rightarrow> mw_node \<Rightarrow> mw_ref \<Rightarrow> mw_collect \<Rightarrow> mw_collect" where
  "after_edge byName g r c =
    (case byName (rf_name r) of
       None \<Rightarrow> c\<lparr>mc_inactive := mc_inactive c @ [(g, ''after='' @ rf_name r, rf_pos r)]\<rparr>
     | Some target \<Rightarrow>
         if \<not> nd_global target then c\<lparr>mc_diags := mc_diags c @ [NotGlobal (''after='' @ rf_name r) (rf_pos r)]\<rparr>
         else c\<lparr>mc_edges := mc_edges c @ [\<lparr>e_from = target, e_to = g, e_decl = g,
                e_opt = ''after='' @ rf_name r, e_pos = rf_pos r, e_hard = False\<rparr>]\<rparr>)"

definition before_edge :: "(string \<rightharpoonup> mw_node) \<Rightarrow> mw_node \<Rightarrow> mw_ref \<Rightarrow> mw_collect \<Rightarrow> mw_collect" where
  "before_edge byName g r c =
    (case byName (rf_name r) of
       None \<Rightarrow> c\<lparr>mc_inactive := mc_inactive c @ [(g, ''before='' @ rf_name r, rf_pos r)]\<rparr>
     | Some target \<Rightarrow>
         if \<not> nd_global target then c\<lparr>mc_diags := mc_diags c @ [NotGlobal (''before='' @ rf_name r) (rf_pos r)]\<rparr>
         else c\<lparr>mc_edges := mc_edges c @ [\<lparr>e_from = g, e_to = target, e_decl = g,
                e_opt = ''before='' @ rf_name r, e_pos = rf_pos r, e_hard = False\<rparr>]\<rparr>)"

definition collect_node :: "(string \<rightharpoonup> mw_node) \<Rightarrow> mw_node \<Rightarrow> mw_collect \<Rightarrow> mw_collect" where
  "collect_node byName g c =
    fold (before_edge byName g) (nd_before g)
      (fold (after_edge byName g) (nd_after g) (fold (requires_edge byName g) (nd_requires g) c))"

definition collect :: "(string \<rightharpoonup> mw_node) \<Rightarrow> mw_node list \<Rightarrow> mw_collect" where
  "collect byName globals = fold (collect_node byName) globals \<lparr>mc_edges = [], mc_inactive = [], mc_diags = []\<rparr>"

text \<open>Only edges within one band enter the graph; an edge against the band order is an error.\<close>

definition band_errors :: "(mw_node \<Rightarrow> string) \<Rightarrow> mw_edge list \<Rightarrow> mw_diag list" where
  "band_errors labels es =
    map (\<lambda>e. BandContradiction (e_opt e) (labels (e_decl e)) (e_pos e)) (filter (\<lambda>e. band (e_from e) > band (e_to e)) es)"

definition band_graph :: "mw_edge list \<Rightarrow> mw_edge list" where
  "band_graph es = filter (\<lambda>e. band (e_from e) = band (e_to e)) es"

text \<open>\<open>incoming\<close>: for the other end of each accepted edge, how the declaring node stands to it.\<close>

definition incoming :: "(mw_node \<Rightarrow> string) \<Rightarrow> mw_edge list \<Rightarrow> mw_node \<Rightarrow> string list" where
  "incoming labels es nd =
    concat (map (\<lambda>e.
      let other = (if e_decl e = e_from e then e_to e else e_from e);
          rel = (if e_decl e = e_from e then ''after '' @ labels (e_from e) else ''before '' @ labels (e_to e))
      in if other \<noteq> e_decl e \<and> other = nd then [rel] else [])
      (filter (\<lambda>e. band (e_from e) \<le> band (e_to e)) es))"

text \<open>The nodes of every requires cycle, found one by one. The loop removes at least one node per
  round.\<close>

fun condemned :: "nat \<Rightarrow> mw_node list \<Rightarrow> (string \<rightharpoonup> mw_node) \<Rightarrow> mw_node list" where
  "condemned 0 remaining byName = []"
| "condemned (Suc n) remaining byName =
    (case requiresCycle remaining byName of
       None \<Rightarrow> []
     | Some cyc \<Rightarrow> cyc @ condemned n (filter (\<lambda>nd. nd \<notin> set cyc) remaining) byName)"

section \<open>Sorting one band\<close>

definition dec_targets :: "mw_edge list \<Rightarrow> mw_node \<Rightarrow> (mw_node \<Rightarrow> int) \<Rightarrow> mw_node \<Rightarrow> int" where
  "dec_targets graph next deg nd = deg nd - int (length (filter (\<lambda>e. e_from e = next \<and> e_to e = nd) graph))"

function kahn :: "mw_node list \<Rightarrow> mw_edge list \<Rightarrow> (mw_node \<Rightarrow> int) \<Rightarrow> mw_node list \<Rightarrow> mw_node list \<times> (mw_node \<Rightarrow> int)" where
  "kahn members graph deg out =
    (case find (\<lambda>nd. deg nd = 0) members of
       None \<Rightarrow> (out, deg)
     | Some next \<Rightarrow> kahn members graph (dec_targets graph next (deg(next := - 1))) (out @ [next]))"
  by pat_completeness auto
termination
proof (relation "measure (\<lambda>(members, graph, deg, out). length (filter (\<lambda>nd. 0 \<le> deg nd) members))")
  fix members :: "mw_node list" and graph :: "mw_edge list" and deg :: "mw_node \<Rightarrow> int" and out and nx :: mw_node
  assume "find (\<lambda>nd. deg nd = 0) members = Some nx"
  then have n: "nx \<in> set members" "deg nx = 0" by (auto simp: find_Some_iff)
  let ?d = "dec_targets graph nx (deg(nx := - 1))"
  have "filter (\<lambda>nd. 0 \<le> ?d nd) members = filter (\<lambda>nd. 0 \<le> ?d nd) (filter (\<lambda>nd. 0 \<le> deg nd) members)"
    by (auto simp: dec_targets_def filter_eq_Cons_iff intro!: filter_cong split: if_splits)
  also have "length \<dots> < length (filter (\<lambda>nd. 0 \<le> deg nd) members)"
    using n by (intro length_filter_less [of nx]) (auto simp: dec_targets_def)
  finally show "((members, graph, ?d, out @ [nx]), members, graph, deg, out) \<in>
      measure (\<lambda>(members, graph, deg, out). length (filter (\<lambda>nd. 0 \<le> deg nd) members))" by simp
qed simp

declare kahn.simps [simp del]

definition indegree :: "mw_edge list \<Rightarrow> mw_node \<Rightarrow> int" where
  "indegree graph nd = int (length (filter (\<lambda>e. e_to e = nd) graph))"

text \<open>One band: the emitted nodes, then the stuck ones in declaration order, and a cycle to report
  among the stuck nodes not condemned.\<close>

definition sort_band :: "mw_node list \<Rightarrow> mw_edge list \<Rightarrow> mw_node list \<Rightarrow> nat \<Rightarrow>
    mw_node list \<times> mw_edge list option" where
  "sort_band globals graph cond b =
    (let members = declSort (filter (\<lambda>g. band g = b) globals);
         (out, deg) = kahn members graph (indegree graph) [];
         stuck = filter (\<lambda>nd. deg nd > 0) members
     in if length out < length members
        then (out @ stuck, stuckCycle (filter (\<lambda>nd. nd \<notin> set cond) stuck) graph)
        else (out, None))"

section \<open>Labels\<close>

definition displayName :: "mw_node \<Rightarrow> string" where
  "displayName nd = (if nd_name nd \<noteq> [] then nd_name nd
     else case nd_pkg nd of Some (path, name) \<Rightarrow> name @ ''.'' @ nd_fn nd | None \<Rightarrow> nd_fn nd)"

text \<open>\<open>filepath.Base\<close> on a slash-separated path.\<close>

definition filepath_Base :: "string \<Rightarrow> string" where
  "filepath_Base path =
    (let p = rev (dropWhile (\<lambda>c. c = CHR ''/'') (rev path)) in
     if path = [] then ''.'' else if p = [] then ''/'' else rev (takeWhile (\<lambda>c. c \<noteq> CHR ''/'') (rev p)))"

text \<open>\<open>mwLabels\<close>: the display name, with file and line where it is not unique, with the import path
  where that is not unique either.\<close>

definition fileLabel :: "mw_node list \<Rightarrow> mw_node \<Rightarrow> string" where
  "fileLabel decls nd =
    (if length (filter (\<lambda>d. displayName d = displayName nd) decls) \<noteq> 1
     then displayName nd @ '' ('' @ filepath_Base (fst (nd_pos nd)) @ '':'' @ formatInt (snd (nd_pos nd)) @ '')''
     else displayName nd)"

definition mwLabels :: "mw_node list \<Rightarrow> mw_node \<Rightarrow> string" where
  "mwLabels decls nd =
    (if nd \<notin> set decls then []
     else if length (filter (\<lambda>d. fileLabel decls d = fileLabel decls nd) decls) \<noteq> 1
     then (case nd_pkg nd of
         Some (path, name) \<Rightarrow> displayName nd @ '' ('' @ path @ ''/'' @ filepath_Base (fst (nd_pos nd)) @ '':'' @
           formatInt (snd (nd_pos nd)) @ '')''
       | None \<Rightarrow> fileLabel decls nd)
     else fileLabel decls nd)"

definition option_part :: "string list \<Rightarrow> string \<Rightarrow> string" where
  "option_part dead opt = (if opt \<in> set dead then opt @ '' (inactive)'' else opt)"

fun compact :: "string list \<Rightarrow> string list" where
  "compact (x # y # xs) = (if x = y then compact (y # xs) else x # compact (y # xs))"
| "compact xs = xs"

definition joinStrings :: "string \<Rightarrow> string list \<Rightarrow> string" where
  "joinStrings sep xs = (case xs of [] \<Rightarrow> [] | x # r \<Rightarrow> x @ concat (map (\<lambda>s. sep @ s) r))"

definition reasonLabel :: "mw_node \<Rightarrow> string list \<Rightarrow> (mw_node \<times> string \<times> mw_pos) list \<Rightarrow> string" where
  "reasonLabel nd inc inactive =
    (let dead = map (\<lambda>(n, opt, p). opt) (filter (\<lambda>(n, opt, p). n = nd) inactive);
         parts = inc @ (if nd_beforeAll nd then [''before=*''] else []) @ (if nd_afterAll nd then [''after=*''] else []) @
           map (\<lambda>r. ''requires='' @ rf_name r) (nd_requires nd) @
           map (\<lambda>r. option_part dead (''after='' @ rf_name r)) (nd_after nd) @
           map (\<lambda>r. option_part dead (''before='' @ rf_name r)) (nd_before nd)
     in if parts = [] then ''unconstrained (file order)'' else joinStrings ''; '' (compact (sort parts)))"

section \<open>resolveOrder and validateDecls\<close>

record order_result =
  or_stack :: "(mw_node \<times> string) list"
  or_inactive :: "(mw_node \<times> string \<times> mw_pos) list"

fun band_cycles :: "(mw_node \<Rightarrow> string) \<Rightarrow> bool \<Rightarrow> mw_edge list option list \<Rightarrow> mw_diag list" where
  "band_cycles labels reported [] = []"
| "band_cycles labels reported (None # cs) = band_cycles labels reported cs"
| "band_cycles labels reported (Some cyc # cs) =
    (if reported then band_cycles labels reported cs
     else OrderingCycle (map (\<lambda>e. labels (e_from e)) cyc @ [labels (e_from (hd cyc))]) (e_pos (hd cyc)) #
       band_cycles labels True cs)"

definition resolveOrder :: "mw_node list \<Rightarrow> mw_node list \<Rightarrow> (string \<rightharpoonup> mw_node) \<Rightarrow> (mw_node \<Rightarrow> string) \<Rightarrow>
    order_result \<times> mw_diag list" where
  "resolveOrder globals decls byName labels =
    (let c = collect byName globals;
         graph = band_graph (mc_edges c);
         cond = condemned (length decls) decls byName;
         bands = map (sort_band globals graph cond) [bandOuter, bandMiddle, bandInner];
         order = concat (map fst bands)
     in (\<lparr>or_stack = map (\<lambda>nd. (nd, reasonLabel nd (incoming labels (mc_edges c) nd) (mc_inactive c))) order,
          or_inactive = mc_inactive c\<rparr>,
         mc_diags c @ band_errors labels (mc_edges c) @ band_cycles labels False (map snd bands)))"

definition decl_diags :: "(string \<rightharpoonup> mw_node) \<Rightarrow> (mw_node \<Rightarrow> string) \<Rightarrow> mw_node list \<Rightarrow> mw_node \<Rightarrow> mw_diag list" where
  "decl_diags byName labels used nd =
    concat (map (\<lambda>r. case byName (rf_name r) of
        None \<Rightarrow> [UnknownRequires (rf_name r) (rf_pos r)]
      | Some target \<Rightarrow> if nd_global nd \<and> \<not> nd_global target
          then [RequiresNotGlobal (labels nd) (rf_name r) (rf_pos r)] else []) (nd_requires nd)) @
    (if nd_name nd = [] \<and> \<not> nd_global nd then [Inert (labels nd) (nd_pos nd)] else []) @
    (if nd_name nd \<noteq> [] \<and> \<not> nd_global nd \<and> nd \<notin> set used then [NeverReferenced (nd_name nd) (nd_pos nd)] else [])"

definition requires_pos :: "(string \<rightharpoonup> mw_node) \<Rightarrow> mw_node list \<Rightarrow> mw_pos" where
  "requires_pos byName cyc =
    (let nd = hd cyc; next = cyc ! (1 mod length cyc) in
     case find (\<lambda>r. byName (rf_name r) = Some next) (nd_requires nd) of None \<Rightarrow> nd_pos nd | Some r \<Rightarrow> rf_pos r)"

fun requires_diags :: "nat \<Rightarrow> (string \<rightharpoonup> mw_node) \<Rightarrow> (mw_node \<Rightarrow> string) \<Rightarrow> mw_node list \<Rightarrow> mw_diag list" where
  "requires_diags 0 byName labels remaining = []"
| "requires_diags (Suc n) byName labels remaining =
    (case requiresCycle remaining byName of
       None \<Rightarrow> []
     | Some cyc \<Rightarrow> RequiresCycle (map labels cyc @ [labels (hd cyc)]) (requires_pos byName cyc) #
         requires_diags n byName labels (filter (\<lambda>nd. nd \<notin> set cyc) remaining))"

definition validateDecls :: "mw_node list \<Rightarrow> (string \<rightharpoonup> mw_node) \<Rightarrow> (mw_node \<Rightarrow> string) \<Rightarrow> mw_node list \<Rightarrow> mw_diag list" where
  "validateDecls decls byName labels used =
    concat (map (decl_diags byName labels used) decls) @ requires_diags (length decls) byName labels decls"

section \<open>The directive's state\<close>

record middleware =
  mw_byName :: "string \<rightharpoonup> mw_node"
  mw_globals :: "mw_node list"
  mw_decls :: "mw_node list"
  mw_used :: "mw_node list"

definition NewMiddleware :: middleware where
  "NewMiddleware = \<lparr>mw_byName = Map.empty, mw_globals = [], mw_decls = [], mw_used = []\<rparr>"

text \<open>The end of \<open>Check\<close>, for a function with a middleware signature: the declaration is registered
  unless its name is taken.\<close>

definition mw_Check :: "mw_node \<Rightarrow> middleware \<Rightarrow> middleware \<times> mw_diag list" where
  "mw_Check nd m =
    (if nd_name nd \<noteq> [] then
       (case mw_byName m (nd_name nd) of
          Some first \<Rightarrow> (m, [DuplicateName (nd_name nd) (nd_pos nd) (nd_pos first)])
        | None \<Rightarrow> (m\<lparr>mw_byName := (mw_byName m)(nd_name nd \<mapsto> nd), mw_decls := mw_decls m @ [nd]\<rparr>, []))
     else (m\<lparr>mw_decls := mw_decls m @ [nd]\<rparr>, []))"

definition mw_Emit :: "mw_node \<Rightarrow> middleware \<Rightarrow> middleware" where
  "mw_Emit nd m = (if \<not> nd_global nd then m else m\<lparr>mw_globals := mw_globals m @ [nd]\<rparr>)"

text \<open>\<open>resolve\<close>: the chain of one route; a dependency has to be global or earlier in the chain.\<close>

definition chain_requires :: "(string \<rightharpoonup> mw_node) \<Rightarrow> mw_node list \<Rightarrow> mw_ref \<Rightarrow> mw_node \<Rightarrow> mw_diag list" where
  "chain_requires byName out ref nd =
    concat (map (\<lambda>req. case byName (rf_name req) of
        None \<Rightarrow> []
      | Some target \<Rightarrow> if nd_global target then [] else if target \<in> set out then []
          else [ChainMissing (rf_name ref) (rf_name req) (rf_pos ref)]) (nd_requires nd))"

fun mw_resolve :: "(string \<rightharpoonup> mw_node) \<Rightarrow> mw_ref list \<Rightarrow> mw_node list \<Rightarrow> mw_node list \<times> mw_diag list" where
  "mw_resolve byName [] out = (out, [])"
| "mw_resolve byName (ref # refs) out =
    (case byName (rf_name ref) of
       None \<Rightarrow> (let (o2, ds) = mw_resolve byName refs out in (o2, UnknownMiddleware (rf_name ref) (rf_pos ref) # ds))
     | Some nd \<Rightarrow>
         if nd_global nd
         then (let (o2, ds) = mw_resolve byName refs out in (o2, GlobalInChain (rf_name ref) (rf_pos ref) # ds))
         else (let (o2, ds) = mw_resolve byName refs (out @ [nd]) in (o2, chain_requires byName out ref nd @ ds)))"

text \<open>The nodes \<open>resolve\<close> marks as used are those it returns.\<close>

definition resolve :: "mw_ref list \<Rightarrow> middleware \<Rightarrow> middleware \<times> mw_node list \<times> mw_diag list" where
  "resolve refs m =
    (let (out, ds) = mw_resolve (mw_byName m) refs [] in (m\<lparr>mw_used := mw_used m @ out\<rparr>, out, ds))"

definition mw_Validate :: "(mw_node \<Rightarrow> string) \<Rightarrow> middleware \<Rightarrow> mw_diag list" where
  "mw_Validate labels m =
    snd (resolveOrder (mw_globals m) (mw_decls m) (mw_byName m) labels) @
    validateDecls (mw_decls m) (mw_byName m) labels (mw_used m)"

text \<open>What the engine does with the directive's nodes: \<open>Check\<close> each, stop on a diagnostic, then \<open>Emit\<close>
  each; the routes resolve their chains before \<open>Validate\<close>.\<close>

fun mw_checks :: "mw_node list \<Rightarrow> middleware \<Rightarrow> middleware \<times> mw_diag list" where
  "mw_checks [] m = (m, [])"
| "mw_checks (nd # nds) m = (let (m2, d) = mw_Check nd m; (m3, ds) = mw_checks nds m2 in (m3, d @ ds))"

definition mw_load :: "mw_node list \<Rightarrow> middleware option" where
  "mw_load nodes = (let (m, ds) = mw_checks nodes NewMiddleware in if ds \<noteq> [] then None else Some (fold mw_Emit nodes m))"

definition mw_routes :: "mw_ref list list \<Rightarrow> middleware \<Rightarrow> middleware" where
  "mw_routes routes m = fold (\<lambda>refs m. fst (resolve refs m)) routes m"

section \<open>The search finds a cycle if there is one\<close>

lemma acyclic_add_source:
  assumes "acyclic R" "x \<notin> Range R" "x \<notin> T"
  shows "acyclic (R \<union> {x} \<times> T)"
proof -
  have "(a \<noteq> x \<longrightarrow> (a, b) \<in> R\<^sup>+) \<and> b \<noteq> x" if "(a, b) \<in> (R \<union> {x} \<times> T)\<^sup>+" for a b
    using that
  proof induction
    case (base y)
    then show ?case using assms(2,3) by auto
  next
    case (step y z)
    then have "(y, z) \<in> R" by auto
    then show ?case using step assms(2) by (auto intro: trancl_into_trancl)
  qed
  then show ?thesis using assms(1) by (auto simp: acyclic_def)
qed

definition grown :: "('n \<Rightarrow> color) \<Rightarrow> ('n \<Rightarrow> color) \<Rightarrow> bool" where
  "grown col col' \<longleftrightarrow> (\<forall>v. col' v = col v \<or> col v = White \<and> col' v = Black)"

definition black_rel :: "('n \<Rightarrow> 'e list) \<Rightarrow> ('e \<Rightarrow> 'n) \<Rightarrow> ('n \<Rightarrow> color) \<Rightarrow> ('n \<times> 'n) set" where
  "black_rel succ dst col = {(v, dst e) | v e. col v = Black \<and> e \<in> set (succ v)}"

definition dfs_inv :: "('n \<Rightarrow> 'e list) \<Rightarrow> ('e \<Rightarrow> 'n) \<Rightarrow> ('n \<Rightarrow> color) \<Rightarrow> bool" where
  "dfs_inv succ dst col \<longleftrightarrow> (\<forall>v w. (v, w) \<in> black_rel succ dst col \<longrightarrow> col w = Black) \<and> acyclic (black_rel succ dst col)"

lemma grown_refl: "grown col col"
  by (simp add: grown_def)

lemma grown_trans: "grown a b \<Longrightarrow> grown b c \<Longrightarrow> grown a c"
  by (auto simp: grown_def) (metis color.distinct(3))+

lemma grown_black: "grown a b \<Longrightarrow> a v = Black \<Longrightarrow> b v = Black"
  by (auto simp: grown_def) (metis color.distinct(3))

lemma dfs_inv_gray:
  assumes "dfs_inv succ dst col" "col nd = White"
  shows "dfs_inv succ dst (col(nd := Gray))"
proof -
  have "black_rel succ dst (col(nd := Gray)) = black_rel succ dst col"
    using assms(2) unfolding black_rel_def by (metis (lifting) color.distinct(3,5) fun_upd_other fun_upd_same)
  moreover have "col w = Black \<Longrightarrow> (col(nd := Gray)) w = Black" for w using assms(2) by auto
  ultimately show ?thesis using assms(1) by (simp add: dfs_inv_def)
qed

lemma dfs_inv_black:
  assumes i: "dfs_inv succ dst col" and g: "col nd = Gray" and t: "\<forall>e \<in> set (succ nd). col (dst e) = Black"
  shows "dfs_inv succ dst (col(nd := Black))"
proof -
  let ?T = "dst ` set (succ nd)"
  have e: "black_rel succ dst (col(nd := Black)) = black_rel succ dst col \<union> {nd} \<times> ?T"
    using g by (auto simp: black_rel_def split: if_splits)
  have "nd \<notin> Range (black_rel succ dst col)" using i g by (auto simp: dfs_inv_def)
  moreover have "nd \<notin> ?T" using t g by auto
  ultimately have "acyclic (black_rel succ dst (col(nd := Black)))"
    using i unfolding e by (auto simp: dfs_inv_def intro: acyclic_add_source)
  then show ?thesis using i t unfolding dfs_inv_def e by auto
qed

lemma dfs_black:
  "dfs_node n succ dst nd path col = Some (None, col') \<Longrightarrow> col nd = White \<Longrightarrow> dfs_inv succ dst col \<Longrightarrow>
     grown col col' \<and> col' nd = Black \<and> dfs_inv succ dst col'"
  "dfs_edges n succ dst es path col = Some (None, col') \<Longrightarrow> dfs_inv succ dst col \<Longrightarrow>
     grown col col' \<and> (\<forall>e \<in> set es. col' (dst e) = Black) \<and> dfs_inv succ dst col'"
proof (induction n succ dst nd path col and n succ dst es path col arbitrary: col' and col' rule: dfs_node_dfs_edges.induct)
  case (1 n succ dst nd path col)
  obtain col2 where c: "dfs_edges n succ dst (succ nd) path (col(nd := Gray)) = Some (None, col2)" "col' = col2(nd := Black)"
    using "1.prems"(1) by (auto simp: dfs_node.simps split: option.splits)
  note ih = "1.IH" [OF c(1) dfs_inv_gray [OF "1.prems"(3,2)]]
  have "col2 nd = Gray" using ih by (auto simp: grown_def) (metis color.distinct(1) fun_upd_same)
  then have "dfs_inv succ dst col'" unfolding c(2) using ih by (intro dfs_inv_black) auto
  moreover have "grown col col'" using ih "1.prems"(2) by (auto simp: grown_def c(2) split: if_splits)
  moreover have "col' nd = Black" by (simp add: c(2))
  ultimately show ?case by blast
next
  case (2 n succ dst path col)
  then show ?case by (simp add: dfs_edges.simps grown_refl)
next
  case (3 n succ dst e es path col)
  show ?case
  proof (cases "col (dst e)")
    case White
    then obtain col2 where c: "dfs_node (n - 1) succ dst (dst e) (path @ [e]) col = Some (None, col2)" "n \<noteq> 0"
      "dfs_edges n succ dst es path col2 = Some (None, col')"
      using "3.prems"(1) by (auto simp: dfs_edges.simps split: option.splits if_splits)
    have 1: "grown col col2" "col2 (dst e) = Black" "dfs_inv succ dst col2"
      using "3.IH"(1) [OF White c(2) c(1) White "3.prems"(2)] by auto
    have 2: "grown col2 col'" "\<forall>e \<in> set es. col' (dst e) = Black" "dfs_inv succ dst col'"
      using "3.IH"(2) [OF White c(2) c(1) refl refl c(3) 1(3)] by auto
    then show ?thesis using 1 grown_trans [OF 1(1) 2(1)] grown_black [OF 2(1) 1(2)] by auto
  next
    case Gray
    then show ?thesis using "3.prems"(1) by (simp add: dfs_edges.simps)
  next
    case Black
    then have "dfs_edges n succ dst es path col = Some (None, col')" using "3.prems"(1) by (simp add: dfs_edges.simps)
    then have "grown col col'" "\<forall>e \<in> set es. col' (dst e) = Black" "dfs_inv succ dst col'"
      using "3.IH"(3) [OF Black _ "3.prems"(2)] by auto
    then show ?thesis using grown_black [of col col' "dst e"] Black by auto
  qed
qed


lemma dfs_whites:
  "dfs_node n succ dst nd path col = Some (r, col') \<Longrightarrow> col' v = White \<Longrightarrow> (col(nd := Gray)) v = White"
  "dfs_edges n succ dst es path col = Some (r, col') \<Longrightarrow> col' v = White \<Longrightarrow> col v = White"
proof (induction n succ dst nd path col and n succ dst es path col arbitrary: r col' and r col' rule: dfs_node_dfs_edges.induct)
  case (1 n succ dst nd path col)
  obtain r2 col2 where c: "dfs_edges n succ dst (succ nd) path (col(nd := Gray)) = Some (r2, col2)"
    "col' = col2 \<or> col' = col2(nd := Black)"
    using "1.prems"(1) by (auto simp: dfs_node.simps split: option.splits)
  then have "col2 v = White" using "1.prems"(2) by (auto split: if_splits)
  then show ?case by (rule "1.IH" [OF c(1)])
next
  case (2 n succ dst path col)
  then show ?case by simp
next
  case (3 n succ dst e es path col)
  show ?case
  proof (cases "col (dst e)")
    case White
    then obtain r2 col2 where c: "dfs_node (n - 1) succ dst (dst e) (path @ [e]) col = Some (r2, col2)" "n \<noteq> 0"
      "r2 \<noteq> None \<and> col' = col2 \<or> r2 = None \<and> dfs_edges n succ dst es path col2 = Some (r, col')"
      using "3.prems"(1) by (auto simp: dfs_edges.simps split: option.splits if_splits)
    have "col2 v = White" using "3.IH"(2) [OF White c(2) c(1) refl] c(3) "3.prems"(2) by auto
    then have "(col(dst e := Gray)) v = White" by (rule "3.IH"(1) [OF White c(2) c(1)])
    then show ?thesis by (simp split: if_splits)
  next
    case Gray
    then show ?thesis using "3.prems" by (simp add: dfs_edges.simps)
  next
    case Black
    then show ?thesis using "3.prems" "3.IH"(3) [OF Black] by (simp add: dfs_edges.simps)
  qed
qed

lemma dfs_enough:
  "finite V \<Longrightarrow> nd \<in> V \<Longrightarrow> \<forall>v \<in> V. dst ` set (succ v) \<subseteq> V \<Longrightarrow> card {v \<in> V. (col(nd := Gray)) v = White} \<le> n \<Longrightarrow>
     dfs_node n succ dst nd path col \<noteq> None"
  "finite V \<Longrightarrow> dst ` set es \<subseteq> V \<Longrightarrow> \<forall>v \<in> V. dst ` set (succ v) \<subseteq> V \<Longrightarrow> card {v \<in> V. col v = White} \<le> n \<Longrightarrow>
     dfs_edges n succ dst es path col \<noteq> None"
proof (induction n succ dst nd path col and n succ dst es path col rule: dfs_node_dfs_edges.induct)
  case (1 n succ dst nd path col)
  have "dfs_edges n succ dst (succ nd) path (col(nd := Gray)) \<noteq> None"
    using "1.prems" by (intro "1.IH") auto
  then show ?case by (auto simp: dfs_node.simps split: option.splits)
next
  case (2 n succ dst path col)
  then show ?case by simp
next
  case (3 n succ dst e es path col)
  have es: "dst e \<in> V" "dst ` set es \<subseteq> V" using "3.prems"(2) by auto
  show ?case
  proof (cases "col (dst e)")
    case White
    have le: "{v \<in> V. (col(dst e := Gray)) v = White} \<subset> {v \<in> V. col v = White}" using White es by auto
    have lt: "card {v \<in> V. (col(dst e := Gray)) v = White} < card {v \<in> V. col v = White}"
      using psubset_card_mono [OF _ le] "3.prems"(1) by simp
    then have n: "n \<noteq> 0" "card {v \<in> V. (col(dst e := Gray)) v = White} \<le> n - 1" using "3.prems"(4) by linarith+
    have "dfs_node (n - 1) succ dst (dst e) (path @ [e]) col \<noteq> None"
      by (rule "3.IH"(1) [OF White n(1) "3.prems"(1) es(1) "3.prems"(3) n(2)])
    then obtain r2 col2 where c: "dfs_node (n - 1) succ dst (dst e) (path @ [e]) col = Some (r2, col2)" by auto
    have "{v \<in> V. col2 v = White} \<subseteq> {v \<in> V. (col(dst e := Gray)) v = White}" using dfs_whites(1) [OF c] by blast
    then have "card {v \<in> V. col2 v = White} \<le> card {v \<in> V. (col(dst e := Gray)) v = White}"
      using "3.prems"(1) by (intro card_mono) auto
    then have "card {v \<in> V. col2 v = White} \<le> n" using n(2) by linarith
    then have "r2 = None \<Longrightarrow> dfs_edges n succ dst es path col2 \<noteq> None"
      using "3.IH"(2) [OF White n(1) c refl _ "3.prems"(1) es(2) "3.prems"(3)] by blast
    then show ?thesis using c n(1) White by (cases r2) (auto simp: dfs_edges.simps)
  next
    case Gray
    then show ?thesis by (simp add: dfs_edges.simps)
  next
    case Black
    then show ?thesis using "3.prems" "3.IH"(3) [OF Black _ es(2)] by (simp add: dfs_edges.simps)
  qed
qed


text \<open>A found path is a walk, and the closing edge goes back onto it.\<close>

definition dfs_walk :: "('n \<Rightarrow> 'e list) \<Rightarrow> ('e \<Rightarrow> 'n) \<Rightarrow> ('e \<Rightarrow> 'n) \<Rightarrow> 'e list \<Rightarrow> bool" where
  "dfs_walk succ src dst p \<longleftrightarrow> (\<forall>e \<in> set p. e \<in> set (succ (src e))) \<and> successively (\<lambda>a b. dst a = src b) p"

definition dfs_closes :: "('n \<Rightarrow> 'e list) \<Rightarrow> ('e \<Rightarrow> 'n) \<Rightarrow> ('e \<Rightarrow> 'n) \<Rightarrow> 'e list \<Rightarrow> 'e \<Rightarrow> bool" where
  "dfs_closes succ src dst p e \<longleftrightarrow> dfs_walk succ src dst (p @ [e]) \<and> dst e \<in> src ` set (p @ [e])"

definition leads :: "('e \<Rightarrow> 'n) \<Rightarrow> 'e list \<Rightarrow> 'n \<Rightarrow> bool" where
  "leads dst p nd \<longleftrightarrow> (p \<noteq> [] \<longrightarrow> dst (last p) = nd)"

lemma dfs_walk_snoc:
  "dfs_walk succ src dst p \<Longrightarrow> leads dst p (src e) \<Longrightarrow> e \<in> set (succ (src e)) \<Longrightarrow> dfs_walk succ src dst (p @ [e])"
  by (auto simp: dfs_walk_def leads_def successively_append_iff)

lemma grown_gray: "grown a b \<Longrightarrow> {v. b v = Gray} = {v. a v = Gray}"
  by (auto simp: grown_def) (metis color.distinct(1,5))+

lemma dfs_sound:
  "dfs_node n succ dst nd path col = Some (Some (p, e), col') \<Longrightarrow> \<forall>nd. \<forall>e \<in> set (succ nd). src e = nd \<Longrightarrow>
     dfs_inv succ dst col \<Longrightarrow> col nd = White \<Longrightarrow>
     {v. col v = Gray} = src ` set path \<Longrightarrow> dfs_walk succ src dst path \<Longrightarrow> leads dst path nd \<Longrightarrow> dfs_closes succ src dst p e"
  "dfs_edges n succ dst es path col = Some (Some (p, e), col') \<Longrightarrow> \<forall>nd. \<forall>e \<in> set (succ nd). src e = nd \<Longrightarrow>
     dfs_inv succ dst col \<Longrightarrow> set es \<subseteq> set (succ nd0) \<Longrightarrow>
     {v. col v = Gray} = insert nd0 (src ` set path) \<Longrightarrow> dfs_walk succ src dst path \<Longrightarrow> leads dst path nd0 \<Longrightarrow>
     dfs_closes succ src dst p e"
proof (induction n succ dst nd path col and n succ dst es path col arbitrary: col' and col' nd0 rule: dfs_node_dfs_edges.induct)
  case (1 n succ dst nd path col)
  have c: "dfs_edges n succ dst (succ nd) path (col(nd := Gray)) = Some (Some (p, e), col')"
    using "1.prems"(1) by (auto simp: dfs_node.simps split: option.splits)
  have "{v. (col(nd := Gray)) v = Gray} = insert nd (src ` set path)" using "1.prems"(5) by auto
  then show ?case
    using "1.IH" [OF c "1.prems"(2) dfs_inv_gray [OF "1.prems"(3,4)] subset_refl] "1.prems"(6,7) by blast
next
  case (2 n succ dst path col)
  then show ?case by simp
next
  case (3 n succ dst e1 es path col)
  have e1: "src e1 = nd0" "e1 \<in> set (succ (src e1))" "set es \<subseteq> set (succ nd0)" using "3.prems"(2,4) by auto
  have w: "dfs_walk succ src dst (path @ [e1])" using "3.prems"(6,7) e1 by (intro dfs_walk_snoc) auto
  show ?case
  proof (cases "col (dst e1)")
    case White
    consider col2 where "n \<noteq> 0" "dfs_node (n - 1) succ dst (dst e1) (path @ [e1]) col = Some (Some (p, e), col2)"
      | col2 where "n \<noteq> 0" "dfs_node (n - 1) succ dst (dst e1) (path @ [e1]) col = Some (None, col2)"
        "dfs_edges n succ dst es path col2 = Some (Some (p, e), col')"
      using "3.prems"(1) White by (auto simp: dfs_edges.simps split: option.splits if_splits)
    then show ?thesis
    proof cases
      case 1
      have g: "{v. col v = Gray} = src ` set (path @ [e1])" using "3.prems"(5) e1 by auto
      show ?thesis
        by (rule "3.IH"(1) [OF White 1 "3.prems"(2,3) White g w]) (simp add: leads_def)
    next
      case 2
      have b: "grown col col2" "dfs_inv succ dst col2" using dfs_black(1) [OF 2(2) White "3.prems"(3)] by auto
      have g: "{v. col2 v = Gray} = insert nd0 (src ` set path)" using grown_gray [OF b(1)] "3.prems"(5) by simp
      show ?thesis
        by (rule "3.IH"(2) [OF White 2(1,2) refl refl 2(3) "3.prems"(2) b(2) e1(3) g "3.prems"(6,7)])
    qed
  next
    case Gray
    then have "p = path" "e = e1" using "3.prems"(1) by (auto simp: dfs_edges.simps)
    moreover have "dst e1 \<in> src ` set (path @ [e1])" using Gray "3.prems"(5) e1 by auto
    ultimately show ?thesis using w by (simp add: dfs_closes_def)
  next
    case Black
    then have c: "dfs_edges n succ dst es path col = Some (Some (p, e), col')" using "3.prems"(1) by (simp add: dfs_edges.simps)
    show ?thesis by (rule "3.IH"(3) [OF Black c "3.prems"(2,3) e1(3) "3.prems"(5-7)])
  qed
qed

lemma dfs_inv_roots:
  "dfs_roots n succ dst nds col = Some (None, col') \<Longrightarrow> dfs_inv succ dst col \<Longrightarrow> (\<forall>v. col v \<noteq> Gray) \<Longrightarrow>
     (\<forall>nd \<in> set nds. col' nd = Black) \<and> grown col col' \<and> dfs_inv succ dst col'"
proof (induction nds arbitrary: col)
  case (Cons nd nds)
  show ?case
  proof (cases "col nd = White")
    case True
    then obtain col2 where c: "dfs_node n succ dst nd [] col = Some (None, col2)" "dfs_roots n succ dst nds col2 = Some (None, col')"
      using Cons.prems(1) by (auto split: option.splits)
    have b: "grown col col2" "col2 nd = Black" "dfs_inv succ dst col2"
      using dfs_black(1) [OF c(1) True Cons.prems(2)] by auto
    have "\<forall>v. col2 v \<noteq> Gray" using grown_gray [OF b(1)] Cons.prems(3) by auto
    note ih = Cons.IH [OF c(2) b(3) this]
    show ?thesis using ih grown_trans [OF b(1)] grown_black [of col2 col' nd] b(2) by auto
  next
    case False
    then have "col nd = Black" using Cons.prems(3) by (cases "col nd") auto
    moreover have "(\<forall>nd \<in> set nds. col' nd = Black) \<and> grown col col' \<and> dfs_inv succ dst col'"
      using Cons.IH [OF _ Cons.prems(2,3)] Cons.prems(1) False by simp
    ultimately show ?thesis using grown_black [of col col' nd] by auto
  qed
qed (simp add: grown_refl)

lemma dfs_sound_roots:
  "dfs_roots n succ dst nds col = Some (Some (p, e), col') \<Longrightarrow> \<forall>nd. \<forall>e \<in> set (succ nd). src e = nd \<Longrightarrow>
     dfs_inv succ dst col \<Longrightarrow> (\<forall>v. col v \<noteq> Gray) \<Longrightarrow> dfs_closes succ src dst p e"
proof (induction nds arbitrary: col)
  case (Cons nd nds)
  show ?case
  proof (cases "col nd = White")
    case True
    consider col2 where "dfs_node n succ dst nd [] col = Some (Some (p, e), col2)"
      | col2 where "dfs_node n succ dst nd [] col = Some (None, col2)" "dfs_roots n succ dst nds col2 = Some (Some (p, e), col')"
      using Cons.prems(1) True by (auto split: option.splits)
    then show ?thesis
    proof cases
      case 1
      show ?thesis by (rule dfs_sound(1) [OF 1 Cons.prems(2,3) True])
          (use Cons.prems(4) in \<open>auto simp: dfs_walk_def leads_def\<close>)
    next
      case 2
      have b: "grown col col2" "dfs_inv succ dst col2" using dfs_black(1) [OF 2(1) True Cons.prems(3)] by auto
      have "\<forall>v. col2 v \<noteq> Gray" using grown_gray [OF b(1)] Cons.prems(4) by auto
      then show ?thesis by (rule Cons.IH [OF 2(2) Cons.prems(2) b(2)])
    qed
  next
    case False
    then show ?thesis using Cons.IH [OF _ Cons.prems(2-4)] Cons.prems(1) by simp
  qed
qed simp

lemma dfs_enough_roots:
  "finite V \<Longrightarrow> set nds \<subseteq> V \<Longrightarrow> \<forall>v \<in> V. dst ` set (succ v) \<subseteq> V \<Longrightarrow> card V \<le> n \<Longrightarrow> dfs_roots n succ dst nds col \<noteq> None"
proof (induction nds arbitrary: col)
  case (Cons nd nds)
  have "card {v \<in> V. (col(nd := Gray)) v = White} \<le> n"
    using card_mono [of V "{v \<in> V. (col(nd := Gray)) v = White}"] Cons.prems(1,4) by auto
  then have "dfs_node n succ dst nd [] col \<noteq> None" using Cons.prems by (intro dfs_enough(1)) auto
  then show ?case using Cons.IH Cons.prems by (auto split: option.splits)
qed simp

lemma dfs_inv_start: "dfs_inv succ dst (\<lambda>_. White)"
  by (simp add: dfs_inv_def black_rel_def acyclic_def)

lemma dfs_acyclic:
  assumes "dfs_roots n succ dst nds (\<lambda>_. White) = Some (None, col')"
  shows "acyclic {(v, dst e) | v e. v \<in> set nds \<and> e \<in> set (succ v)}"
proof -
  have "\<forall>nd \<in> set nds. col' nd = Black" "dfs_inv succ dst col'"
    using dfs_inv_roots [OF assms dfs_inv_start] by auto
  then have "{(v, dst e) | v e. v \<in> set nds \<and> e \<in> set (succ v)} \<subseteq> black_rel succ dst col'" "acyclic (black_rel succ dst col')"
    by (auto simp: black_rel_def dfs_inv_def)
  then show ?thesis by (rule acyclic_subset [rotated])
qed


section \<open>Kahn's algorithm\<close>

text \<open>The reference: the first member, in declaration order, that is not placed and whose
  predecessors are.\<close>

definition ready :: "mw_edge list \<Rightarrow> mw_node list \<Rightarrow> mw_node \<Rightarrow> bool" where
  "ready graph placed nd \<longleftrightarrow> nd \<notin> set placed \<and> (\<forall>e \<in> set graph. e_to e = nd \<longrightarrow> e_from e \<in> set placed)"

definition pend :: "mw_edge list \<Rightarrow> mw_node list \<Rightarrow> mw_node \<Rightarrow> int" where
  "pend graph placed nd = int (length (filter (\<lambda>e. e_to e = nd \<and> e_from e \<notin> set placed) graph))"

definition kahn_inv :: "mw_node list \<Rightarrow> mw_edge list \<Rightarrow> (mw_node \<Rightarrow> int) \<Rightarrow> mw_node list \<Rightarrow> bool" where
  "kahn_inv members graph deg out \<longleftrightarrow>
    (\<forall>nd \<in> set members. deg nd = pend graph out nd \<and> nd \<notin> set out \<or> deg nd < 0 \<and> nd \<in> set out) \<and>
    distinct out \<and> set out \<subseteq> set members \<and>
    (\<forall>i < length out. find (ready graph (take i out)) members = Some (out ! i))"

lemma pend_0: "pend graph placed nd = 0 \<longleftrightarrow> (\<forall>e \<in> set graph. e_to e = nd \<longrightarrow> e_from e \<in> set placed)"
  by (auto simp: pend_def filter_empty_conv)

lemma pend_snoc:
  "nx \<notin> set placed \<Longrightarrow>
     pend graph (placed @ [nx]) nd = pend graph placed nd - int (length (filter (\<lambda>e. e_from e = nx \<and> e_to e = nd) graph))"
  unfolding pend_def by (induction graph) auto

lemma kahn_inv_find: "kahn_inv members graph deg out \<Longrightarrow> find (\<lambda>nd. deg nd = 0) members = find (ready graph out) members"
  by (rule find_cong [OF refl]) (force simp: kahn_inv_def ready_def pend_0 [symmetric])

lemma kahn_inv_step:
  assumes i: "kahn_inv members graph deg out" and f: "find (\<lambda>nd. deg nd = 0) members = Some nx"
  shows "kahn_inv members graph (dec_targets graph nx (deg(nx := - 1))) (out @ [nx])"
proof -
  let ?d = "dec_targets graph nx (deg(nx := - 1))"
  have fr: "find (ready graph out) members = Some nx" using kahn_inv_find [OF i] f by simp
  have nx: "nx \<in> set members" "nx \<notin> set out" using fr by (auto simp: find_Some_iff ready_def)
  have "?d nd = pend graph (out @ [nx]) nd \<and> nd \<notin> set (out @ [nx]) \<or> ?d nd < 0 \<and> nd \<in> set (out @ [nx])"
    if "nd \<in> set members" for nd
    using i that nx(2) by (cases "nd = nx") (auto simp: kahn_inv_def dec_targets_def pend_snoc)
  moreover have "find (ready graph (take j (out @ [nx]))) members = Some ((out @ [nx]) ! j)" if "j < length (out @ [nx])" for j
    using i fr that by (cases "j = length out") (auto simp: kahn_inv_def nth_append)
  ultimately show ?thesis using i nx by (simp add: kahn_inv_def)
qed

lemma kahn_result:
  "kahn_inv members graph deg out \<Longrightarrow> kahn members graph deg out = (out', deg') \<Longrightarrow>
     kahn_inv members graph deg' out' \<and> find (ready graph out') members = None"
proof (induction members graph deg out rule: kahn.induct)
  case (1 members graph deg out)
  show ?case
  proof (cases "find (\<lambda>nd. deg nd = 0) members")
    case None
    then show ?thesis using "1.prems" kahn_inv_find [OF "1.prems"(1)] by (simp add: kahn.simps)
  next
    case (Some nx)
    then show ?thesis using "1.IH" [OF Some kahn_inv_step [OF "1.prems"(1) Some]] "1.prems"(2) by (simp add: kahn.simps)
  qed
qed

lemma kahn_inv_start: "kahn_inv members graph (indegree graph) []"
  by (simp add: kahn_inv_def indegree_def pend_def)

text \<open>Where two nodes stand in an order.\<close>

definition precedes :: "mw_node list \<Rightarrow> mw_node \<Rightarrow> mw_node \<Rightarrow> bool" where
  "precedes ord a b \<longleftrightarrow> (\<exists>j < length ord. ord ! j = b \<and> a \<in> set (take j ord))"

lemma precedesI: "j < length ord \<Longrightarrow> ord ! j = b \<Longrightarrow> a \<in> set (take j ord) \<Longrightarrow> precedes ord a b"
  by (auto simp: precedes_def)

lemma precedes_append1: "precedes xs a b \<Longrightarrow> precedes (xs @ ys) a b"
  by (auto simp: precedes_def nth_append)

lemma precedes_append2:
  assumes "precedes ys a b"
  shows "precedes (xs @ ys) a b"
proof -
  obtain j where "j < length ys" "ys ! j = b" "a \<in> set (take j ys)" using assms by (auto simp: precedes_def)
  then show ?thesis by (intro precedesI [of "length xs + j"]) (auto simp: nth_append)
qed

lemma precedes_across:
  assumes "a \<in> set xs" "b \<in> set ys"
  shows "precedes (xs @ ys) a b"
proof -
  obtain j where "j < length ys" "ys ! j = b" using assms(2) by (auto simp: in_set_conv_nth)
  then show ?thesis using assms(1) by (intro precedesI [of "length xs + j"]) (auto simp: nth_append)
qed

lemma kahn_inv_precedes:
  assumes "kahn_inv members graph deg out" "e \<in> set graph" "e_to e \<in> set out"
  shows "precedes out (e_from e) (e_to e)"
proof -
  obtain i where i: "i < length out" "out ! i = e_to e" using assms(3) by (auto simp: in_set_conv_nth)
  then have "ready graph (take i out) (e_to e)" using assms(1) by (auto simp: kahn_inv_def find_Some_iff)
  then show ?thesis using i assms(2) by (auto simp: precedes_def ready_def)
qed


section \<open>One band\<close>

lemma declSort_set [simp]: "set (declSort xs) = set xs"
  by (simp add: declSort_def)

lemma declSort_mset [simp]: "mset (declSort xs) = mset xs"
  by (simp add: declSort_def)

lemma declSort_distinct [simp]: "distinct (declSort xs) = distinct xs"
  by (simp add: declSort_def)

definition band_members :: "mw_node list \<Rightarrow> nat \<Rightarrow> mw_node list" where
  "band_members globals b = declSort (filter (\<lambda>g. band g = b) globals)"

definition band_out :: "mw_node list \<Rightarrow> mw_edge list \<Rightarrow> nat \<Rightarrow> mw_node list" where
  "band_out globals graph b = fst (kahn (band_members globals b) graph (indegree graph) [])"

definition band_stuck :: "mw_node list \<Rightarrow> mw_edge list \<Rightarrow> nat \<Rightarrow> mw_node list" where
  "band_stuck globals graph b = filter (\<lambda>nd. nd \<notin> set (band_out globals graph b)) (band_members globals b)"

lemma band_members_set: "set (band_members globals b) = {g \<in> set globals. band g = b}"
  by (auto simp: band_members_def)

lemma kahn_stuck:
  assumes "kahn_inv members graph deg out" "find (ready graph out) members = None" "nd \<in> set members"
  shows "deg nd > 0 \<longleftrightarrow> nd \<notin> set out"
proof -
  have "nd \<notin> set out \<Longrightarrow> pend graph out nd \<noteq> 0" using assms(2,3) by (auto simp: find_None_iff ready_def pend_0)
  moreover have "pend graph out nd \<ge> 0" by (simp add: pend_def)
  ultimately show ?thesis using assms(1,3) by (auto simp: kahn_inv_def)
qed

lemma band_out_props:
  "distinct (band_out globals graph b)" "set (band_out globals graph b) \<subseteq> set (band_members globals b)"
  "find (ready graph (band_out globals graph b)) (band_members globals b) = None"
  "e \<in> set graph \<Longrightarrow> e_to e \<in> set (band_out globals graph b) \<Longrightarrow> precedes (band_out globals graph b) (e_from e) (e_to e)"
proof -
  obtain deg where k: "kahn (band_members globals b) graph (indegree graph) [] = (band_out globals graph b, deg)"
    by (metis band_out_def prod.collapse)
  note r = kahn_result [OF kahn_inv_start k]
  then show "distinct (band_out globals graph b)" "set (band_out globals graph b) \<subseteq> set (band_members globals b)"
    "find (ready graph (band_out globals graph b)) (band_members globals b) = None"
    by (auto simp: kahn_inv_def)
  show "precedes (band_out globals graph b) (e_from e) (e_to e)"
    if "e \<in> set graph" "e_to e \<in> set (band_out globals graph b)" using r that kahn_inv_precedes by blast
qed

lemma sort_band_eq:
  assumes d: "distinct globals"
  shows "sort_band globals graph cond b =
    (band_out globals graph b @ band_stuck globals graph b,
     if band_stuck globals graph b = [] then None
     else stuckCycle (filter (\<lambda>nd. nd \<notin> set cond) (band_stuck globals graph b)) graph)"
proof -
  let ?m = "band_members globals b" and ?o = "band_out globals graph b"
  obtain deg where k: "kahn ?m graph (indegree graph) [] = (?o, deg)" by (metis band_out_def prod.collapse)
  have r: "kahn_inv ?m graph deg ?o" "find (ready graph ?o) ?m = None" using kahn_result [OF kahn_inv_start k] by auto
  have s: "filter (\<lambda>nd. deg nd > 0) ?m = band_stuck globals graph b"
    unfolding band_stuck_def using kahn_stuck [OF r] by (intro filter_cong) auto
  have dm: "distinct ?m" using d by (simp add: band_members_def)
  have "length ?o < length ?m \<longleftrightarrow> band_stuck globals graph b \<noteq> []"
  proof -
    have "band_stuck globals graph b = [] \<longleftrightarrow> set ?m = set ?o"
      using band_out_props(2) [of globals graph b] by (auto simp: band_stuck_def filter_empty_conv)
    also have "\<dots> \<longleftrightarrow> length ?m = length ?o"
      using band_out_props(1,2) [of globals graph b] dm by (metis card_subset_eq distinct_card finite_set)
    finally show ?thesis
      using band_out_props(1,2) [of globals graph b] dm card_mono [of "set ?m" "set ?o"] by (auto simp: distinct_card)
  qed
  then show ?thesis unfolding sort_band_def Let_def band_members_def [symmetric] k by (auto simp: s)
qed

lemma sort_band_mset: "distinct globals \<Longrightarrow> mset (fst (sort_band globals graph cond b)) = mset (filter (\<lambda>g. band g = b) globals)"
proof -
  assume d: "distinct globals"
  have "distinct (fst (sort_band globals graph cond b))"
    using band_out_props(1) [of globals graph b] d by (auto simp: sort_band_eq band_stuck_def band_members_def)
  moreover have "set (fst (sort_band globals graph cond b)) = {g \<in> set globals. band g = b}"
    using band_out_props(2) [of globals graph b] band_members_set [of globals b] by (auto simp: sort_band_eq [OF d] band_stuck_def)
  ultimately show ?thesis using d by (intro set_eq_iff_mset_eq_distinct [THEN iffD1]) auto
qed


section \<open>Cycles\<close>

lemma stuckCycle_None:
  assumes "stuckCycle stuck graph = None"
  shows "acyclic {(e_from e, e_to e) | e. e \<in> set graph \<and> e_from e \<in> set stuck \<and> e_to e \<in> set stuck}"
proof -
  let ?s = "\<lambda>nd. filter (\<lambda>e. e_from e = nd \<and> e_to e \<in> set stuck) graph"
  have "dfs_roots (length stuck) ?s e_to (declSort stuck) (\<lambda>_. White) \<noteq> None"
    by (rule dfs_enough_roots [of "set stuck"]) (auto simp: card_length)
  then obtain col where "dfs_roots (length stuck) ?s e_to (declSort stuck) (\<lambda>_. White) = Some (None, col)"
    using assms by (auto simp: stuckCycle_def Let_def split: option.splits)
  from dfs_acyclic [OF this] show ?thesis by (rule acyclic_subset) auto
qed

definition edge_cycle :: "mw_edge list \<Rightarrow> mw_edge list \<Rightarrow> bool" where
  "edge_cycle graph cyc \<longleftrightarrow> cyc \<noteq> [] \<and> set cyc \<subseteq> set graph \<and> successively (\<lambda>a b. e_to a = e_from b) cyc \<and>
    e_to (last cyc) = e_from (hd cyc)"

lemma stuckCycle_Some:
  assumes "stuckCycle stuck graph = Some cyc"
  shows "edge_cycle graph cyc"
proof -
  let ?s = "\<lambda>nd. filter (\<lambda>e. e_from e = nd \<and> e_to e \<in> set stuck) graph"
  obtain p e col where d: "dfs_roots (length stuck) ?s e_to (declSort stuck) (\<lambda>_. White) = Some (Some (p, e), col)"
    and c: "cyc = dropWhile (\<lambda>pe. e_from pe \<noteq> e_to e) p @ [e]"
    using assms by (auto simp: stuckCycle_def Let_def split: option.splits if_splits)
  have w: "dfs_closes ?s e_from e_to p e"
    by (rule dfs_sound_roots [OF d _ dfs_inv_start]) auto
  let ?q = "dropWhile (\<lambda>pe. e_from pe \<noteq> e_to e) p"
  have s: "successively (\<lambda>a b. e_to a = e_from b) (takeWhile (\<lambda>pe. e_from pe \<noteq> e_to e) p @ (?q @ [e]))"
    using w unfolding append_assoc [symmetric] takeWhile_dropWhile_id by (simp add: dfs_closes_def dfs_walk_def)
  have "e_to e = e_from (hd cyc)"
  proof (cases "?q = []")
    case True
    then have "e_to e \<notin> e_from ` set p" by (auto simp: dropWhile_eq_Nil_conv)
    then have "e_to e = e_from e" using w by (simp add: dfs_closes_def)
    moreover have "cyc = [e]" unfolding c True by simp
    ultimately show ?thesis by simp
  next
    case False
    then show ?thesis using hd_dropWhile [OF False] c by simp
  qed
  moreover have "set cyc \<subseteq> set graph" using w set_dropWhileD [of _ "\<lambda>pe. e_from pe \<noteq> e_to e" p] c
    by (auto simp: dfs_closes_def dfs_walk_def)
  ultimately show ?thesis using s unfolding successively_append_iff [of _ _ "?q @ [e]"] by (simp add: edge_cycle_def c)
qed

text \<open>An order places no edge of a cycle after all the others.\<close>

definition place :: "mw_node list \<Rightarrow> mw_node \<Rightarrow> nat" where
  "place ord a = length (takeWhile (\<lambda>x. x \<noteq> a) ord)"

lemma precedes_place:
  assumes "distinct ord" "precedes ord a b"
  shows "place ord a < place ord b"
proof -
  obtain j where j: "j < length ord" "ord ! j = b" "a \<in> set (take j ord)" using assms(2) by (auto simp: precedes_def)
  obtain i where i: "i < j" "ord ! i = a" using j by (auto simp: in_set_conv_nth)
  have p: "place ord (ord ! k) = k" if "k < length ord" for k
    using that assms(1) takeWhile_eq_take_P_nth [of k ord "\<lambda>x. x \<noteq> ord ! k"] by (simp add: place_def nth_eq_iff_index_eq)
  show ?thesis using p [of i] p [of j] i j by simp
qed

lemma no_edge_cycle:
  assumes "distinct ord" "\<forall>e \<in> set graph. precedes ord (e_from e) (e_to e)"
  shows "\<not> edge_cycle graph cyc"
proof
  assume c: "edge_cycle graph cyc"
  have "place ord (e_from (hd xs)) < place ord (e_to (last xs))"
    if "xs \<noteq> []" "set xs \<subseteq> set graph" "successively (\<lambda>a b. e_to a = e_from b) xs" for xs
    using that
  proof (induction xs rule: induct_list012)
    case (2 x)
    then show ?case using assms precedes_place by auto
  next
    case (3 x y zs)
    then have "place ord (e_from y) < place ord (e_to (last (y # zs)))" by auto
    moreover have "place ord (e_from x) < place ord (e_from y)" using 3 assms precedes_place by force
    ultimately show ?case by auto
  qed simp
  from this [of cyc] c show False by (auto simp: edge_cycle_def)
qed

lemma requiresCycle_first: "requires_diags (length decls) byName labels decls = [] \<Longrightarrow> requiresCycle decls byName = None"
  by (cases decls) (auto simp: requiresCycle_def declSort_def split: option.splits)

lemma condemned_none: "requiresCycle decls byName = None \<Longrightarrow> condemned n decls byName = []"
  by (cases n) auto


text \<open>A reported cycle holds a declaration, so every round removes one and the rounds given are enough.\<close>

lemma requiresCycle_Some:
  assumes "requiresCycle decls byName = Some cyc"
  shows "\<exists>nd. nd \<in> set cyc \<and> nd \<in> set decls"
proof -
  let ?s = "\<lambda>nd. concat (map (\<lambda>r. case byName (rf_name r) of None \<Rightarrow> []
          | Some t \<Rightarrow> if t \<in> set decls then [(nd, t)] else []) (nd_requires nd))"
  obtain p e col where d: "dfs_roots (length decls) ?s snd (declSort decls) (\<lambda>_. White) = Some (Some (p, e), col)"
    and c: "cyc = dropWhile (\<lambda>nd. nd \<noteq> snd e) (map fst p @ [fst e])"
    using assms by (auto simp: requiresCycle_def Let_def split: option.splits)
  have "dfs_closes ?s fst snd p e" by (rule dfs_sound_roots [OF d _ dfs_inv_start]) (auto split: option.splits if_splits)
  then have e: "e \<in> set (?s (fst e))" "snd e \<in> fst ` set (p @ [e])" by (auto simp: dfs_closes_def dfs_walk_def)
  then have m: "snd e \<in> set (map fst p @ [fst e])" by auto
  then have "cyc \<noteq> []" unfolding c by (metis (mono_tags, lifting) dropWhile_eq_Nil_conv)
  moreover have "hd cyc = snd e" using \<open>cyc \<noteq> []\<close> hd_dropWhile [of "\<lambda>nd. nd \<noteq> snd e" "map fst p @ [fst e]"] unfolding c by blast
  ultimately have "snd e \<in> set cyc" by (metis hd_in_set)
  moreover have "snd e \<in> set decls" using e(1) by (cases e rule: prod.exhaust) (auto split: option.splits if_splits)
  ultimately show ?thesis by blast
qed

lemma requiresCycle_shrinks:
  "requiresCycle decls byName = Some cyc \<Longrightarrow> length (filter (\<lambda>nd. nd \<notin> set cyc) decls) < length decls"
  using requiresCycle_Some by (metis (no_types, lifting) length_filter_less)

lemma condemned_enough: "length nds \<le> n \<Longrightarrow> condemned (n + k) nds byName = condemned n nds byName"
proof (induction n arbitrary: nds)
  case 0
  then show ?case by (cases k) (simp_all add: requiresCycle_def declSort_def)
next
  case (Suc n)
  show ?case
  proof (cases "requiresCycle nds byName")
    case (Some cyc)
    then show ?thesis using Suc.IH [of "filter (\<lambda>nd. nd \<notin> set cyc) nds"] requiresCycle_shrinks [OF Some] Suc.prems by simp
  qed simp
qed

lemma requires_diags_enough: "length nds \<le> n \<Longrightarrow> requires_diags (n + k) byName labels nds = requires_diags n byName labels nds"
proof (induction n arbitrary: nds)
  case 0
  then show ?case by (cases k) (simp_all add: requiresCycle_def declSort_def)
next
  case (Suc n)
  show ?case
  proof (cases "requiresCycle nds byName")
    case (Some cyc)
    then show ?thesis using Suc.IH [of "filter (\<lambda>nd. nd \<notin> set cyc) nds"] requiresCycle_shrinks [OF Some] Suc.prems by simp
  qed simp
qed

section \<open>What the edges say\<close>

definition edge_rel :: "mw_edge list \<Rightarrow> (mw_node \<times> mw_node) set" where
  "edge_rel es = (\<lambda>e. (e_from e, e_to e)) ` set es"

definition named :: "(string \<rightharpoonup> mw_node) \<Rightarrow> mw_ref list \<Rightarrow> mw_node set" where
  "named byName rs = {t. \<exists>r \<in> set rs. byName (rf_name r) = Some t}"

lemma named_simps [simp]:
  "named byName [] = {}"
  "named byName (r # rs) = set_option (byName (rf_name r)) \<union> named byName rs"
  by (auto simp: named_def)

lemma edge_rel_simps [simp]:
  "edge_rel [] = {}" "edge_rel (es @ fs) = edge_rel es \<union> edge_rel fs" "edge_rel [e] = {(e_from e, e_to e)}"
  by (auto simp: edge_rel_def)

lemma requires_fold:
  "edge_rel (mc_edges (fold (requires_edge byName g) rs c)) = edge_rel (mc_edges c) \<union> {t \<in> named byName rs. nd_global t} \<times> {g}"
  "mc_diags (fold (requires_edge byName g) rs c) = mc_diags c"
  by (induction rs arbitrary: c) (auto simp: requires_edge_def split: option.splits)

lemma after_fold:
  "edge_rel (mc_edges (fold (after_edge byName g) rs c)) = edge_rel (mc_edges c) \<union> {t \<in> named byName rs. nd_global t} \<times> {g}"
  "mc_diags (fold (after_edge byName g) rs c) = [] \<longleftrightarrow> mc_diags c = [] \<and> (\<forall>t \<in> named byName rs. nd_global t)"
  by (induction rs arbitrary: c) (auto simp: after_edge_def split: option.splits)

lemma before_fold:
  "edge_rel (mc_edges (fold (before_edge byName g) rs c)) = edge_rel (mc_edges c) \<union> {g} \<times> {t \<in> named byName rs. nd_global t}"
  "mc_diags (fold (before_edge byName g) rs c) = [] \<longleftrightarrow> mc_diags c = [] \<and> (\<forall>t \<in> named byName rs. nd_global t)"
  by (induction rs arbitrary: c) (auto simp: before_edge_def split: option.splits)

text \<open>The pairs a global asks for, the earlier node first.\<close>

definition wants :: "(string \<rightharpoonup> mw_node) \<Rightarrow> mw_node \<Rightarrow> (mw_node \<times> mw_node) set" where
  "wants byName g =
    named byName (nd_requires g) \<times> {g} \<union> named byName (nd_after g) \<times> {g} \<union> {g} \<times> named byName (nd_before g)"

definition wants_global :: "(string \<rightharpoonup> mw_node) \<Rightarrow> mw_node \<Rightarrow> (mw_node \<times> mw_node) set" where
  "wants_global byName g =
    {t \<in> named byName (nd_requires g). nd_global t} \<times> {g} \<union> {t \<in> named byName (nd_after g). nd_global t} \<times> {g} \<union>
    {g} \<times> {t \<in> named byName (nd_before g). nd_global t}"

lemma collect_fold:
  "edge_rel (mc_edges (fold (collect_node byName) gs c)) = edge_rel (mc_edges c) \<union> (\<Union>g \<in> set gs. wants_global byName g)"
  "mc_diags (fold (collect_node byName) gs c) = [] \<longleftrightarrow>
     mc_diags c = [] \<and> (\<forall>g \<in> set gs. \<forall>t \<in> named byName (nd_after g) \<union> named byName (nd_before g). nd_global t)"
  by (induction gs arbitrary: c) (auto simp: collect_node_def requires_fold after_fold before_fold wants_global_def)

lemma collect_rel:
  assumes "\<forall>g \<in> set globals. nd_global g"
  shows "edge_rel (mc_edges (collect byName globals)) =
    {(a, b). (\<exists>g \<in> set globals. (a, b) \<in> wants byName g) \<and> nd_global a \<and> nd_global b}"
  unfolding collect_def collect_fold using assms by (auto simp: wants_def wants_global_def)

lemma collect_diags:
  "mc_diags (collect byName globals) = [] \<longleftrightarrow>
    (\<forall>g \<in> set globals. \<forall>t \<in> named byName (nd_after g) \<union> named byName (nd_before g). nd_global t)"
  unfolding collect_def collect_fold by simp


section \<open>The stack respects every constraint\<close>

definition mw_wf :: "middleware \<Rightarrow> bool" where
  "mw_wf m \<longleftrightarrow> distinct (mw_decls m) \<and> mw_globals m = filter nd_global (mw_decls m) \<and> ran (mw_byName m) \<subseteq> set (mw_decls m)"

lemma mw_checks_decls:
  "mw_checks nds m = (m', []) \<Longrightarrow> ran (mw_byName m) \<subseteq> set (mw_decls m) \<Longrightarrow>
     mw_decls m' = mw_decls m @ nds \<and> mw_globals m' = mw_globals m \<and> ran (mw_byName m') \<subseteq> set (mw_decls m')"
proof (induction nds arbitrary: m)
  case (Cons nd nds)
  obtain m2 where c: "mw_Check nd m = (m2, [])" "mw_checks nds m2 = (m', [])"
    using Cons.prems(1) by (auto simp: Let_def split: prod.splits)
  then have m2: "mw_decls m2 = mw_decls m @ [nd]" "mw_globals m2 = mw_globals m" "ran (mw_byName m2) \<subseteq> set (mw_decls m2)"
    using Cons.prems(2) ran_map_upd [of "mw_byName m" "nd_name nd" nd] by (auto simp: mw_Check_def split: if_splits option.splits)
  show ?case using Cons.IH [OF c(2) m2(3)] m2(1,2) by auto
qed simp

lemma mw_Emit_fold:
  "mw_globals (fold mw_Emit nds m) = mw_globals m @ filter nd_global nds \<and>
   mw_decls (fold mw_Emit nds m) = mw_decls m \<and> mw_byName (fold mw_Emit nds m) = mw_byName m"
  by (induction nds arbitrary: m) (auto simp: mw_Emit_def)

lemma mw_routes_frame:
  "mw_globals (mw_routes routes m) = mw_globals m \<and> mw_decls (mw_routes routes m) = mw_decls m \<and>
   mw_byName (mw_routes routes m) = mw_byName m"
  unfolding mw_routes_def by (induction routes arbitrary: m) (auto simp: resolve_def Let_def split: prod.splits)

lemma mw_load_wf:
  assumes "mw_load nodes = Some m" "distinct nodes"
  shows "mw_wf (mw_routes routes m) \<and> mw_globals m = filter nd_global nodes"
proof -
  obtain m1 where c: "mw_checks nodes NewMiddleware = (m1, [])" "m = fold mw_Emit nodes m1"
    using assms(1) by (auto simp: mw_load_def split: prod.splits if_splits)
  from mw_checks_decls [OF c(1)] show ?thesis
    using assms(2) mw_Emit_fold [of nodes m1] by (auto simp: mw_wf_def c(2) mw_routes_frame NewMiddleware_def)
qed

definition mw_order :: "(mw_node \<Rightarrow> string) \<Rightarrow> middleware \<Rightarrow> mw_node list" where
  "mw_order labels m = map fst (or_stack (fst (resolveOrder (mw_globals m) (mw_decls m) (mw_byName m) labels)))"

definition after_named :: "(string \<rightharpoonup> mw_node) \<Rightarrow> mw_node list \<Rightarrow> mw_node \<Rightarrow> mw_ref \<Rightarrow> bool" where
  "after_named byName ord g r \<longleftrightarrow> (case byName (rf_name r) of None \<Rightarrow> True | Some t \<Rightarrow> precedes ord t g)"

definition before_named :: "(string \<rightharpoonup> mw_node) \<Rightarrow> mw_node list \<Rightarrow> mw_node \<Rightarrow> mw_ref \<Rightarrow> bool" where
  "before_named byName ord g r \<longleftrightarrow> (case byName (rf_name r) of None \<Rightarrow> True | Some t \<Rightarrow> precedes ord g t)"

text \<open>An order of the global stack: every dependency exists and runs earlier, every \<open>after=\<close> and
  \<open>before=\<close> that names a declaration holds, and the wildcard bands follow each other.\<close>

definition satisfies :: "mw_node list \<Rightarrow> (string \<rightharpoonup> mw_node) \<Rightarrow> mw_node list \<Rightarrow> bool" where
  "satisfies globals byName ord \<longleftrightarrow>
    (\<forall>g \<in> set globals.
      (\<forall>r \<in> set (nd_requires g). byName (rf_name r) \<noteq> None \<and> after_named byName ord g r) \<and>
      (\<forall>r \<in> set (nd_after g). after_named byName ord g r) \<and>
      (\<forall>r \<in> set (nd_before g). before_named byName ord g r)) \<and>
    (\<forall>a \<in> set globals. \<forall>b \<in> set globals. band a < band b \<longrightarrow> precedes ord a b)"

lemma satisfies_iff:
  "satisfies globals byName ord \<longleftrightarrow>
    (\<forall>g \<in> set globals. (\<forall>r \<in> set (nd_requires g). byName (rf_name r) \<noteq> None) \<and> (\<forall>(a, b) \<in> wants byName g. precedes ord a b)) \<and>
    (\<forall>a \<in> set globals. \<forall>b \<in> set globals. band a < band b \<longrightarrow> precedes ord a b)"
  unfolding satisfies_def wants_def named_def after_named_def before_named_def by (fastforce split: option.splits)

text \<open>The graph of a state and the three sorted bands.\<close>

definition mw_graph :: "middleware \<Rightarrow> mw_edge list" where
  "mw_graph m = band_graph (mc_edges (collect (mw_byName m) (mw_globals m)))"

definition mw_band :: "middleware \<Rightarrow> nat \<Rightarrow> mw_node list \<times> mw_edge list option" where
  "mw_band m b = sort_band (mw_globals m) (mw_graph m) (condemned (length (mw_decls m)) (mw_decls m) (mw_byName m)) b"

lemma mw_order_bands: "mw_order labels m = fst (mw_band m bandOuter) @ fst (mw_band m bandMiddle) @ fst (mw_band m bandInner)"
  by (simp add: mw_order_def resolveOrder_def Let_def mw_band_def mw_graph_def comp_def)

lemma resolve_diags:
  "snd (resolveOrder (mw_globals m) (mw_decls m) (mw_byName m) labels) =
    mc_diags (collect (mw_byName m) (mw_globals m)) @ band_errors labels (mc_edges (collect (mw_byName m) (mw_globals m))) @
    band_cycles labels False [snd (mw_band m bandOuter), snd (mw_band m bandMiddle), snd (mw_band m bandInner)]"
  by (simp add: resolveOrder_def Let_def mw_band_def mw_graph_def)

lemma band_cases: "band g = bandOuter \<or> band g = bandMiddle \<or> band g = bandInner"
  by (simp add: band_def)

lemma mw_band_mset: "distinct (mw_globals m) \<Longrightarrow> mset (fst (mw_band m b)) = mset (filter (\<lambda>g. band g = b) (mw_globals m))"
  unfolding mw_band_def by (rule sort_band_mset)

lemma mw_band_set: "distinct (mw_globals m) \<Longrightarrow> set (fst (mw_band m b)) = {g \<in> set (mw_globals m). band g = b}"
  using mset_eq_setD [OF mw_band_mset [of m b]] by auto

lemma mw_order_mset:
  assumes "distinct (mw_globals m)"
  shows "mset (mw_order labels m) = mset (mw_globals m)"
proof -
  have "mset (filter (\<lambda>g. band g = bandOuter) gs) + mset (filter (\<lambda>g. band g = bandMiddle) gs) +
      mset (filter (\<lambda>g. band g = bandInner) gs) = mset gs" for gs
  proof (induction gs)
    case (Cons g gs)
    then show ?case using band_cases [of g] by (auto simp: bandOuter_def bandMiddle_def bandInner_def)
  qed simp
  then show ?thesis by (simp add: mw_order_bands mw_band_mset [OF assms] add.assoc)
qed

lemma mw_order_across:
  assumes d: "distinct (mw_globals m)" and s: "a \<in> set (mw_globals m)" "b \<in> set (mw_globals m)" and lt: "band a < band b"
  shows "precedes (mw_order labels m) a b"
proof -
  let ?B = "\<lambda>k. fst (mw_band m k)"
  have i: "a \<in> set (?B (band a))" "b \<in> set (?B (band b))" using s by (auto simp: mw_band_set [OF d])
  consider "band a = bandOuter" "band b = bandMiddle \<or> band b = bandInner" | "band a = bandMiddle" "band b = bandInner"
    using lt band_cases [of a] band_cases [of b] by (auto simp: bandOuter_def bandMiddle_def bandInner_def)
  then show ?thesis
  proof cases
    case 1
    then have "a \<in> set (?B bandOuter)" "b \<in> set (?B bandMiddle @ ?B bandInner)" using i by auto
    then show ?thesis unfolding mw_order_bands by (rule precedes_across)
  next
    case 2
    then have "a \<in> set (?B bandMiddle)" "b \<in> set (?B bandInner)" using i by auto
    then show ?thesis unfolding mw_order_bands by (intro precedes_append2 [OF precedes_across])
  qed
qed

lemma mw_order_within: "precedes (fst (mw_band m (band g))) a b \<Longrightarrow> precedes (mw_order labels m) a b"
  using band_cases [of g] precedes_append2 [OF precedes_append1] precedes_append2 [OF precedes_append2]
  unfolding mw_order_bands by (auto intro: precedes_append1)

lemma sort_band_complete:
  assumes d: "distinct globals" and n: "snd (sort_band globals graph [] b) = None"
    and cl: "\<forall>e \<in> set graph. e_from e \<in> set globals \<and> band (e_from e) = band (e_to e)"
  shows "band_stuck globals graph b = []"
proof (rule ccontr)
  assume ne: "band_stuck globals graph b \<noteq> []"
  let ?S = "set (band_stuck globals graph b)"
  let ?R = "{(e_from e, e_to e) | e. e \<in> set graph \<and> e_from e \<in> ?S \<and> e_to e \<in> ?S}"
  have "stuckCycle (band_stuck globals graph b) graph = None" using n ne by (simp add: sort_band_eq [OF d])
  then have "acyclic ?R" by (rule stuckCycle_None)
  moreover have "finite ?R" by (rule finite_subset [of _ "?S \<times> ?S"]) auto
  ultimately have "wf ?R" by (rule finite_acyclic_wf [rotated])
  moreover have "hd (band_stuck globals graph b) \<in> ?S" using ne by simp
  ultimately obtain nd where nd: "nd \<in> ?S" "\<And>y. (y, nd) \<in> ?R \<Longrightarrow> y \<notin> ?S" by (rule wfE_min) blast
  have m: "nd \<in> set (band_members globals b)" "nd \<notin> set (band_out globals graph b)" using nd(1) by (auto simp: band_stuck_def)
  then have "\<not> ready graph (band_out globals graph b) nd" using band_out_props(3) [of graph globals b] by (auto simp: find_None_iff)
  then obtain e where e: "e \<in> set graph" "e_to e = nd" "e_from e \<notin> set (band_out globals graph b)" using m(2) by (auto simp: ready_def)
  then have "e_from e \<in> ?S" using cl m(1) by (auto simp: band_stuck_def band_members_set)
  moreover have "(e_from e, nd) \<in> ?R" using e nd(1) \<open>e_from e \<in> ?S\<close> by auto
  ultimately show False using nd(2) by blast
qed


section \<open>Diagnostics decide\<close>

definition all_fatal :: "mw_diag list \<Rightarrow> bool" where
  "all_fatal ds \<longleftrightarrow> (\<forall>d \<in> set ds. mw_fatal d)"

lemma all_fatal_simps [simp]:
  "all_fatal []" "all_fatal (d # ds) \<longleftrightarrow> mw_fatal d \<and> all_fatal ds" "all_fatal (ds @ es) \<longleftrightarrow> all_fatal ds \<and> all_fatal es"
  by (auto simp: all_fatal_def)

lemma edge_fatal:
  "all_fatal (mc_diags c) \<Longrightarrow> all_fatal (mc_diags (requires_edge byName g r c))"
  "all_fatal (mc_diags c) \<Longrightarrow> all_fatal (mc_diags (after_edge byName g r c))"
  "all_fatal (mc_diags c) \<Longrightarrow> all_fatal (mc_diags (before_edge byName g r c))"
  by (auto simp: requires_edge_def after_edge_def before_edge_def split: option.splits)

lemma fold_fatal:
  assumes "\<And>x c. all_fatal (mc_diags c) \<Longrightarrow> all_fatal (mc_diags (f x c))" "all_fatal (mc_diags c)"
  shows "all_fatal (mc_diags (fold f xs c))"
  using assms(2) by (induction xs arbitrary: c) (auto intro: assms(1))

lemma collect_all_fatal: "all_fatal (mc_diags (collect byName globals))"
  unfolding collect_def by (rule fold_fatal) (auto simp: collect_node_def intro!: fold_fatal edge_fatal)

lemma band_cycles_fatal: "all_fatal (band_cycles labels rep cs)"
  by (induction labels rep cs rule: band_cycles.induct) auto

lemma band_cycles_Nil: "band_cycles labels False cs = [] \<longleftrightarrow> (\<forall>c \<in> set cs. c = None)"
proof (induction cs)
  case (Cons c cs)
  then show ?case by (cases c) auto
qed simp

lemma requires_diags_fatal: "all_fatal (requires_diags n byName labels nds)"
proof (induction n byName labels nds rule: requires_diags.induct)
  case (2 n byName labels remaining)
  then show ?case by (cases "requiresCycle remaining byName") auto
qed simp

lemma no_fatal_Nil: "all_fatal ds \<Longrightarrow> \<forall>d \<in> set ds. \<not> mw_fatal d \<Longrightarrow> ds = []"
  by (cases ds) auto

lemma resolveOrder_fatal: "all_fatal (snd (resolveOrder (mw_globals m) (mw_decls m) (mw_byName m) labels))"
  for m :: middleware
  unfolding resolve_diags using collect_all_fatal band_cycles_fatal by (simp add: band_errors_def) (simp add: all_fatal_def)

lemma resolveOrder_clean_iff:
  assumes "mw_wf m"
  shows "snd (resolveOrder (mw_globals m) (mw_decls m) (mw_byName m) labels) = [] \<longleftrightarrow>
    (\<forall>g \<in> set (mw_globals m). \<forall>t \<in> named (mw_byName m) (nd_after g) \<union> named (mw_byName m) (nd_before g). nd_global t) \<and>
    (\<forall>(a, b) \<in> edge_rel (mc_edges (collect (mw_byName m) (mw_globals m))). band a \<le> band b) \<and>
    (\<forall>b. snd (mw_band m b) = None)"
proof -
  have "snd (mw_band m b) = None" if "b \<noteq> bandOuter" "b \<noteq> bandMiddle" "b \<noteq> bandInner" for b
  proof -
    have "filter (\<lambda>g. band g = b) (mw_globals m) = []" using that band_cases by (auto simp: filter_empty_conv)
    then have "band_stuck (mw_globals m) (mw_graph m) b = []" by (simp add: band_stuck_def band_members_def declSort_def)
    then show ?thesis using assms by (simp add: mw_band_def sort_band_eq mw_wf_def)
  qed
  then have "(\<forall>b. snd (mw_band m b) = None) \<longleftrightarrow>
      snd (mw_band m bandOuter) = None \<and> snd (mw_band m bandMiddle) = None \<and> snd (mw_band m bandInner) = None" by metis
  moreover have "band_errors labels es = [] \<longleftrightarrow> (\<forall>(a, b) \<in> edge_rel es. band a \<le> band b)" for es
    by (auto simp: band_errors_def edge_rel_def filter_empty_conv not_less)
  ultimately show ?thesis unfolding resolve_diags by (simp add: collect_diags band_cycles_Nil del: band_cycles.simps)
qed

lemma wants_mem:
  assumes "mw_wf m" "g \<in> set (mw_globals m)" "(a, b) \<in> wants (mw_byName m) g" "nd_global a" "nd_global b"
  shows "a \<in> set (mw_globals m) \<and> b \<in> set (mw_globals m)"
proof -
  have "t \<in> set (mw_globals m)" if "t \<in> named (mw_byName m) rs" "nd_global t" for t rs
    using assms(1) that by (auto simp: named_def mw_wf_def intro: ranI)
  then show ?thesis using assms by (auto simp: wants_def)
qed

lemma mw_graph_rel:
  assumes "mw_wf m" "e \<in> set (mw_graph m)"
  shows "e_from e \<in> set (mw_globals m) \<and> e_to e \<in> set (mw_globals m) \<and> band (e_from e) = band (e_to e)"
proof -
  have e: "(e_from e, e_to e) \<in> edge_rel (mc_edges (collect (mw_byName m) (mw_globals m)))"
    "band (e_from e) = band (e_to e)"
    using assms(2) by (auto simp: mw_graph_def band_graph_def edge_rel_def)
  have "\<forall>g \<in> set (mw_globals m). nd_global g" using assms(1) by (auto simp: mw_wf_def)
  from e(1) [unfolded collect_rel [OF this]] obtain g where "g \<in> set (mw_globals m)"
    "(e_from e, e_to e) \<in> wants (mw_byName m) g" "nd_global (e_from e)" "nd_global (e_to e)" by auto
  from wants_mem [OF assms(1) this] e(2) show ?thesis by blast
qed

lemma mw_order_sound_wf:
  assumes w: "mw_wf m" and v: "\<forall>d \<in> set (mw_Validate labels m). \<not> mw_fatal d"
  shows "satisfies (mw_globals m) (mw_byName m) (mw_order labels m)"
proof -
  let ?G = "mw_globals m" and ?N = "mw_byName m"
  have d: "distinct ?G" and gl: "\<forall>g \<in> set ?G. nd_global g \<and> g \<in> set (mw_decls m)" using w by (auto simp: mw_wf_def)
  have c: "snd (resolveOrder ?G (mw_decls m) ?N labels) = []" using v by (intro no_fatal_Nil resolveOrder_fatal) (auto simp: mw_Validate_def)
  have nc: "condemned (length (mw_decls m)) (mw_decls m) ?N = []"
  proof -
    have "requires_diags (length (mw_decls m)) ?N labels (mw_decls m) = []"
      using v by (intro no_fatal_Nil requires_diags_fatal) (auto simp: mw_Validate_def validateDecls_def)
    then show ?thesis by (intro condemned_none requiresCycle_first)
  qed
  have r: "?N (rf_name r) \<noteq> None \<and> (\<forall>t. ?N (rf_name r) = Some t \<longrightarrow> nd_global t)" if "g \<in> set ?G" "r \<in> set (nd_requires g)" for g r
  proof -
    have "\<forall>d \<in> set (decl_diags ?N labels (mw_used m) g). \<not> mw_fatal d"
      using v gl that(1) by (auto simp: mw_Validate_def validateDecls_def)
    then show ?thesis using gl that by (auto simp: decl_diags_def split: option.splits if_splits)
  qed
  have "precedes (mw_order labels m) a b" if g: "g \<in> set ?G" and ab: "(a, b) \<in> wants ?N g" for g a b
  proof -
    have "\<forall>t \<in> named ?N (nd_after g) \<union> named ?N (nd_before g). nd_global t"
      using c g unfolding resolveOrder_clean_iff [OF w] by blast
    moreover have "\<forall>t \<in> named ?N (nd_requires g). nd_global t" using r [OF g] by (auto simp: named_def)
    ultimately have "nd_global a \<and> nd_global b" using ab g gl by (auto simp: wants_def)
    then have e: "(a, b) \<in> edge_rel (mc_edges (collect ?N ?G))" using gl g ab by (auto simp: collect_rel)
    have m: "a \<in> set ?G" "b \<in> set ?G" using \<open>nd_global a \<and> nd_global b\<close> wants_mem [OF w g ab] by auto
    have "band a \<le> band b" using e c unfolding resolveOrder_clean_iff [OF w] by auto
    then consider "band a < band b" | "band a = band b" by linarith
    then show ?thesis
    proof cases
      case 2
      then obtain x where x: "x \<in> set (mw_graph m)" "e_from x = a" "e_to x = b"
        using e by (auto simp: mw_graph_def band_graph_def edge_rel_def)
      have "snd (mw_band m (band b)) = None" using c unfolding resolveOrder_clean_iff [OF w] by blast
      then have n: "band_stuck ?G (mw_graph m) (band b) = []"
        using mw_graph_rel [OF w] by (intro sort_band_complete [OF d]) (auto simp: mw_band_def nc)
      have "fst (mw_band m (band b)) = band_out ?G (mw_graph m) (band b)" by (simp add: mw_band_def sort_band_eq [OF d] n)
      moreover have "b \<in> set (fst (mw_band m (band b)))" using m(2) by (simp add: mw_band_set [OF d])
      ultimately have "precedes (fst (mw_band m (band b))) a b" using band_out_props(4) [OF x(1)] x by auto
      then show ?thesis by (rule mw_order_within)
    qed (rule mw_order_across [OF d m])
  qed
  then show ?thesis unfolding satisfies_iff using r mw_order_across [OF d] by blast
qed

lemma mw_order_complete_wf:
  assumes w: "mw_wf m" and o: "mset ord = mset (mw_globals m)" "satisfies (mw_globals m) (mw_byName m) ord"
  shows "snd (resolveOrder (mw_globals m) (mw_decls m) (mw_byName m) labels) = []"
proof -
  let ?G = "mw_globals m" and ?N = "mw_byName m"
  have d: "distinct ?G" "distinct ord" "set ord = set ?G" and gl: "\<forall>g \<in> set ?G. nd_global g"
    using w o(1) mset_eq_imp_distinct_iff [OF o(1)] mset_eq_setD [OF o(1)] by (auto simp: mw_wf_def)
  have p: "precedes ord a b \<Longrightarrow> a \<in> set ?G \<and> b \<in> set ?G" for a b
    unfolding precedes_def d(3) [symmetric] by (auto dest: in_set_takeD)
  have t: "precedes ord a b" if "g \<in> set ?G" "(a, b) \<in> wants ?N g" for g a b using o(2) that by (auto simp: satisfies_iff)
  have er: "precedes ord a b" if "(a, b) \<in> edge_rel (mc_edges (collect ?N ?G))" for a b
    using that t gl by (auto simp: collect_rel)
  have "band a \<le> band b" if "(a, b) \<in> edge_rel (mc_edges (collect ?N ?G))" for a b
  proof (rule ccontr)
    assume "\<not> band a \<le> band b"
    then have "precedes ord b a" using o(2) p [OF er [OF that]] by (auto simp: satisfies_def)
    then show False using precedes_place [OF d(2), of a b] precedes_place [OF d(2), of b a] er [OF that] by simp
  qed
  moreover have "nd_global t" if "g \<in> set ?G" "t \<in> named ?N (nd_after g) \<union> named ?N (nd_before g)" for g t
  proof -
    have "(t, g) \<in> wants ?N g \<or> (g, t) \<in> wants ?N g" using that(2) by (auto simp: wants_def)
    then have "t \<in> set ?G" using t [OF that(1)] p by blast
    then show ?thesis using gl by blast
  qed
  moreover have "snd (mw_band m b) = None" for b
  proof (rule ccontr)
    assume "snd (mw_band m b) \<noteq> None"
    then obtain st cyc where "stuckCycle st (mw_graph m) = Some cyc" by (auto simp: mw_band_def sort_band_eq [OF d(1)] split: if_splits)
    then have "edge_cycle (mw_graph m) cyc" by (rule stuckCycle_Some)
    moreover have "\<forall>e \<in> set (mw_graph m). precedes ord (e_from e) (e_to e)"
      by (auto simp: mw_graph_def band_graph_def edge_rel_def intro!: er)
    ultimately show False using no_edge_cycle [OF d(2)] by blast
  qed
  ultimately show ?thesis unfolding resolveOrder_clean_iff [OF w] by blast
qed


section \<open>Chains of one route\<close>

text \<open>A chain resolved without a diagnostic is the declarations its names stand for, none of them global,
  and what each requires is global or stands earlier in the chain.\<close>

lemma mw_resolve_clean:
  "mw_resolve byName refs out = (out', []) \<Longrightarrow>
     \<exists>nds. out' = out @ nds \<and> map (\<lambda>r. byName (rf_name r)) refs = map Some nds \<and> (\<forall>nd \<in> set nds. \<not> nd_global nd) \<and>
       (\<forall>i < length nds. \<forall>r \<in> set (nd_requires (nds ! i)). \<forall>t.
          byName (rf_name r) = Some t \<longrightarrow> nd_global t \<or> t \<in> set out \<union> set (take i nds))"
proof (induction refs arbitrary: out)
  case (Cons ref refs)
  obtain nd where nd: "byName (rf_name ref) = Some nd" "\<not> nd_global nd" "chain_requires byName out ref nd = []"
    "mw_resolve byName refs (out @ [nd]) = (out', [])"
    using Cons.prems by (auto simp: Let_def split: option.splits if_splits prod.splits)
  from Cons.IH [OF nd(4)] obtain nds where ih: "out' = out @ nd # nds" "map (\<lambda>r. byName (rf_name r)) refs = map Some nds"
    "\<forall>nd \<in> set nds. \<not> nd_global nd"
    "\<forall>i < length nds. \<forall>r \<in> set (nd_requires (nds ! i)). \<forall>t.
       byName (rf_name r) = Some t \<longrightarrow> nd_global t \<or> t \<in> set (out @ [nd]) \<union> set (take i nds)" by auto
  have "\<forall>r \<in> set (nd_requires nd). \<forall>t. byName (rf_name r) = Some t \<longrightarrow> nd_global t \<or> t \<in> set out"
    using nd(3) by (auto simp: chain_requires_def split: if_splits)
  then have "\<forall>i < length (nd # nds). \<forall>r \<in> set (nd_requires ((nd # nds) ! i)). \<forall>t.
       byName (rf_name r) = Some t \<longrightarrow> nd_global t \<or> t \<in> set out \<union> set (take i (nd # nds))"
    using ih(4) by (auto simp: less_Suc_eq_0_disj) blast
  then show ?case using ih nd by (intro exI [of _ "nd # nds"]) auto
qed simp

section \<open>The properties\<close>

text \<open>C19: The global middleware stack. When validation reports no error, the stack the generated code installs
  holds every global declaration exactly once, every middleware named by \<open>requires=\<close> exists, every
  \<open>requires=\<close>, \<open>after=\<close> and \<open>before=\<close> that names a declaration is respected, and the outermost band
  precedes the middle one and the middle one the innermost.\<close>

theorem mw_order_sound:
  assumes "mw_load nodes = Some m0" "distinct nodes" "m = mw_routes routes m0"
    and "\<forall>d \<in> set (mw_Validate (mwLabels nodes) m). \<not> mw_fatal d"
  shows "mset (mw_order (mwLabels nodes) m) = mset (filter nd_global nodes) \<and>
    satisfies (filter nd_global nodes) (mw_byName m) (mw_order (mwLabels nodes) m)"
proof -
  have w: "mw_wf m" "mw_globals m = filter nd_global nodes"
    using mw_load_wf [OF assms(1,2)] assms(3) mw_routes_frame [of routes m0] by auto
  then show ?thesis
    using mw_order_sound_wf [OF w(1) assms(4)] mw_order_mset [of m] assms(2) by simp
qed

definition mw_sample :: "mw_node list" where
  "mw_sample =
    (let r = (\<lambda>n. \<lparr>rf_name = n, rf_pos = (''a.go'', 1)\<rparr>);
         nd = (\<lambda>i l n req aft bef ba. \<lparr>nd_id = i, nd_pos = (''a.go'', l), nd_name = n, nd_global = True, nd_requires = map r req,
           nd_after = map r aft, nd_before = map r bef, nd_afterAll = False, nd_beforeAll = ba, nd_fn = ''F'', nd_pkg = None\<rparr>)
     in [nd 0 10 ''auth'' [''session''] [] [] False, nd 1 20 ''session'' [] [''trace''] [''csrf''] False,
         nd 2 30 ''csrf'' [] [] [''auth''] False, nd 3 40 ''log'' [] [] [] True])"

lemma mw_sample_load: "mw_load mw_sample = Some (the (mw_load mw_sample))"
proof -
  have "\<not> Option.is_none (mw_load mw_sample)" by code_simp
  then show ?thesis by (cases "mw_load mw_sample") auto
qed

theorem mw_order_sound_witness:
  "mset (mw_order (mwLabels mw_sample) (the (mw_load mw_sample))) = mset (filter nd_global mw_sample) \<and>
   satisfies (filter nd_global mw_sample) (mw_byName (the (mw_load mw_sample))) (mw_order (mwLabels mw_sample) (the (mw_load mw_sample)))"
proof -
  have "mw_load mw_sample = Some (the (mw_load mw_sample))" "distinct mw_sample"
    "the (mw_load mw_sample) = mw_routes [] (the (mw_load mw_sample))"
    "list_all (\<lambda>d. \<not> mw_fatal d) (mw_Validate (mwLabels mw_sample) (the (mw_load mw_sample)))"
    subgoal by (rule mw_sample_load)
    subgoal by code_simp
    subgoal by (simp add: mw_routes_def)
    subgoal by code_simp
    done
  then show ?thesis by (intro mw_order_sound) (auto simp: list_all_iff)
qed

text \<open>C20: No false alarm. If the globals can be ordered so that every constraint holds, the resolver reports no
  error: no contradiction of the bands, no ordering cycle and no reference to a middleware that is not
  global.\<close>

theorem mw_order_complete:
  assumes "mw_load nodes = Some m" "distinct nodes"
    and "mset ord = mset (filter nd_global nodes)" "satisfies (filter nd_global nodes) (mw_byName m) ord"
  shows "snd (resolveOrder (mw_globals m) (mw_decls m) (mw_byName m) (mwLabels nodes)) = []"
proof -
  have w: "mw_wf m" "mw_globals m = filter nd_global nodes"
    using mw_load_wf [OF assms(1,2), of "[]"] by (auto simp: mw_routes_def)
  then show ?thesis using mw_order_complete_wf [OF w(1), of ord] assms(3,4) by simp
qed

theorem mw_order_complete_witness:
  "snd (resolveOrder (mw_globals (the (mw_load mw_sample))) (mw_decls (the (mw_load mw_sample)))
     (mw_byName (the (mw_load mw_sample))) (mwLabels mw_sample)) = []"
proof (rule mw_order_complete)
  show "mw_load mw_sample = Some (the (mw_load mw_sample))" by (rule mw_sample_load)
  show "distinct mw_sample" by code_simp
  show "mset [mw_sample ! 3, mw_sample ! 1, mw_sample ! 2, mw_sample ! 0] = mset (filter nd_global mw_sample)" by code_simp
  show "satisfies (filter nd_global mw_sample) (mw_byName (the (mw_load mw_sample)))
    [mw_sample ! 3, mw_sample ! 1, mw_sample ! 2, mw_sample ! 0]" by code_simp
qed

end
