(* ===== verification/CliParse.thy ===== *)
theory CliParse
  imports GoText
begin

text \<open>
  Package \<open>cli\<close>: flags and arguments (\<open>flag.go\<close>, \<open>arg.go\<close>), declarations and the parser (\<open>parse.go\<close>),
  handler composition and exit codes (\<open>exec.go\<close>), the walk of shell completion (\<open>complete.go\<close>).

  \<^item> A pointer to a flag or argument is its record with an identifier; two records with one identifier are
    the same declaration. The type \<open>'v\<close> is the dynamic type \<open>any\<close> of the values; the parsers, validators
    and completers of a declaration are fields. A nil entry of a declaration list is \<open>None\<close>.
  \<^item> \<open>values\<close>, keyed by accessor identity, is a map from accessors.
  \<^item> \<open>'h\<close> is the type of handlers, so a middleware is \<open>'h \<Rightarrow> 'h\<close>.
  \<^item> Errors carry what their message reports; \<open>sentinel\<close> gives the error they wrap.
\<close>

section \<open>Declarations\<close>

type_synonym rune = nat

record 'v flag =
  fl_id :: nat
  fl_name :: string
  fl_short :: rune
  fl_env :: string
  fl_required :: bool
  fl_hidden :: bool
  fl_isBool :: bool
  fl_isSlice :: bool
  fl_default :: "'v option"
  fl_parse :: "string \<Rightarrow> string + 'v"
  fl_appendOne :: "'v \<Rightarrow> string \<Rightarrow> string + 'v"
  fl_validate :: "('v \<Rightarrow> string option) option"
  fl_completer :: "(string \<Rightarrow> string list \<Rightarrow> string list) option"

record 'v arg =
  ar_id :: nat
  ar_name :: string
  ar_required :: bool
  ar_variadic :: bool
  ar_isSlice :: bool
  ar_default :: "'v option"
  ar_parse :: "string \<Rightarrow> string + 'v"
  ar_appendOne :: "'v \<Rightarrow> string \<Rightarrow> string + 'v"
  ar_validate :: "('v \<Rightarrow> string option) option"
  ar_completer :: "(string \<Rightarrow> string list \<Rightarrow> string list) option"

datatype ('v, 'h) command = Command
  (c_Name: string)
  (c_Version: string)
  (c_Aliases: "string list")
  (c_Flags: "'v flag option list")
  (c_Args: "'v arg option list")
  (c_Subcommands: "('v, 'h) command option list")
  (c_Use: "('h \<Rightarrow> 'h) list")
  (c_Run: "'h option")
  (c_Hidden: bool)
  (c_injected: bool)

datatype accessor = KFlag nat | KArg nat

type_synonym 'v cli_values = "accessor \<rightharpoonup> 'v"

datatype cli_error =
    NilFlag string | ReservedHelp string | ReservedShortHelp string | DuplicateFlag string string
  | DuplicateShort string rune | ReservedVersion string | NilArg string | VariadicNotLast string string
  | RequiredAfterOptional string string | SliceNotVariadic string string | VariadicNotSlice string string
  | NilSubcommand string | DuplicateSubcommand string string
  | UnknownFlag string | BareDash | CombinedShort string | UnknownShort rune | MissingValue string
  | BadFlagValue string string string | RequiredFlag string | InvalidFlag string string
  | UnknownSubcommand string "string option" | MissingSubcommand
  | MissingArgument string | UnexpectedArgument string | BadArgValue string string string | InvalidArg string string

datatype sentinel_error = ErrUsage | ErrValidation | ErrUnknownCmd | ErrMissingArg | ErrMissingSubcommand

fun sentinel :: "cli_error \<Rightarrow> sentinel_error option" where
  "sentinel (UnknownFlag n) = Some ErrUsage"
| "sentinel BareDash = Some ErrUsage"
| "sentinel (CombinedShort n) = Some ErrUsage"
| "sentinel (UnknownShort r) = Some ErrUsage"
| "sentinel (MissingValue n) = Some ErrUsage"
| "sentinel (BadFlagValue n s e) = Some ErrUsage"
| "sentinel (RequiredFlag n) = Some ErrUsage"
| "sentinel (InvalidFlag n e) = Some ErrValidation"
| "sentinel (UnknownSubcommand n s) = Some ErrUnknownCmd"
| "sentinel MissingSubcommand = Some ErrMissingSubcommand"
| "sentinel (MissingArgument n) = Some ErrMissingArg"
| "sentinel (UnexpectedArgument n) = Some ErrUsage"
| "sentinel (BadArgValue n s e) = Some ErrUsage"
| "sentinel (InvalidArg n e) = Some ErrValidation"
| "sentinel e = None"

section \<open>Flags and arguments\<close>

definition hasValue :: "'v flag \<Rightarrow> 'v cli_values \<Rightarrow> bool" where
  "hasValue f v \<longleftrightarrow> v (KFlag (fl_id f)) \<noteq> None"

definition flagApplyString :: "'v flag \<Rightarrow> 'v cli_values \<Rightarrow> string \<Rightarrow> cli_error + 'v cli_values" where
  "flagApplyString f v s =
    (case (if fl_isSlice f
           then (case v (KFlag (fl_id f)) of None \<Rightarrow> fl_parse f s | Some prev \<Rightarrow> fl_appendOne f prev s)
           else fl_parse f s) of
       Inl e \<Rightarrow> Inl (BadFlagValue (fl_name f) s e)
     | Inr val \<Rightarrow> Inr (v(KFlag (fl_id f) \<mapsto> val)))"

definition flagApplyEnv :: "(string \<rightharpoonup> string) \<Rightarrow> 'v flag \<Rightarrow> 'v cli_values \<Rightarrow> cli_error + 'v cli_values" where
  "flagApplyEnv env f v =
    (if fl_env f = [] \<or> hasValue f v then Inr v
     else case env (fl_env f) of None \<Rightarrow> Inr v | Some s \<Rightarrow> flagApplyString f v s)"

definition flagValidate :: "'v flag \<Rightarrow> 'v cli_values \<Rightarrow> cli_error option" where
  "flagValidate f v =
    (case fl_validate f of
       None \<Rightarrow> None
     | Some check \<Rightarrow>
         (case (case v (KFlag (fl_id f)) of Some val \<Rightarrow> Some val | None \<Rightarrow> fl_default f) of
            None \<Rightarrow> None
          | Some val \<Rightarrow> (case check val of None \<Rightarrow> None | Some e \<Rightarrow> Some (InvalidFlag (fl_name f) e))))"

text \<open>\<open>Get\<close>, with the zero value of the type, and \<open>Lookup\<close>.\<close>

definition flag_Get :: "'v \<Rightarrow> 'v flag \<Rightarrow> 'v cli_values \<Rightarrow> 'v" where
  "flag_Get zero f v =
    (case v (KFlag (fl_id f)) of Some val \<Rightarrow> val | None \<Rightarrow> (case fl_default f of Some d \<Rightarrow> d | None \<Rightarrow> zero))"

definition argApplyString :: "'v arg \<Rightarrow> 'v cli_values \<Rightarrow> string \<Rightarrow> cli_error + 'v cli_values" where
  "argApplyString a v s =
    (case (if ar_isSlice a
           then (case v (KArg (ar_id a)) of None \<Rightarrow> ar_parse a s | Some prev \<Rightarrow> ar_appendOne a prev s)
           else ar_parse a s) of
       Inl e \<Rightarrow> Inl (BadArgValue (ar_name a) s e)
     | Inr val \<Rightarrow> Inr (v(KArg (ar_id a) \<mapsto> val)))"

definition argValidate :: "'v arg \<Rightarrow> 'v cli_values \<Rightarrow> cli_error option" where
  "argValidate a v =
    (case ar_validate a of
       None \<Rightarrow> None
     | Some check \<Rightarrow>
         (case (case v (KArg (ar_id a)) of Some val \<Rightarrow> Some val | None \<Rightarrow> ar_default a) of
            None \<Rightarrow> None
          | Some val \<Rightarrow> (case check val of None \<Rightarrow> None | Some e \<Rightarrow> Some (InvalidArg (ar_name a) e))))"

definition arg_Get :: "'v \<Rightarrow> 'v arg \<Rightarrow> 'v cli_values \<Rightarrow> 'v" where
  "arg_Get zero a v =
    (case v (KArg (ar_id a)) of Some val \<Rightarrow> val | None \<Rightarrow> (case ar_default a of Some d \<Rightarrow> d | None \<Rightarrow> zero))"

section \<open>Declared constructors\<close>

text \<open>The constructors of \<open>flag.go\<close> whose parsers are exact here; float, duration and time flags parse with
  a library function, which is the argument of \<open>CustomFlag\<close>.\<close>

datatype cli_val = VString string | VInt int | VBool bool | VStrings "string list" | VInts "int list"

definition CustomFlag :: "nat \<Rightarrow> string \<Rightarrow> (string \<Rightarrow> string + 'v) \<Rightarrow> 'v flag" where
  "CustomFlag i name parse = \<lparr>fl_id = i, fl_name = name, fl_short = 0, fl_env = [], fl_required = False, fl_hidden = False,
     fl_isBool = False, fl_isSlice = False, fl_default = None, fl_parse = parse, fl_appendOne = (\<lambda>_. parse),
     fl_validate = None, fl_completer = None\<rparr>"

definition atoi :: "string \<Rightarrow> string + int" where
  "atoi s = (case parseInt s of None \<Rightarrow> Inl ''invalid syntax'' | Some n \<Rightarrow> Inr n)"

definition parseBool :: "string \<Rightarrow> string + bool" where
  "parseBool s =
    (if s \<in> {''1'', ''t'', ''T'', ''TRUE'', ''true'', ''True''} then Inr True
     else if s \<in> {''0'', ''f'', ''F'', ''FALSE'', ''false'', ''False''} then Inr False
     else Inl ''invalid syntax'')"

definition StringFlag :: "nat \<Rightarrow> string \<Rightarrow> cli_val flag" where
  "StringFlag i name = CustomFlag i name (\<lambda>s. Inr (VString s))"

definition IntFlag :: "nat \<Rightarrow> string \<Rightarrow> cli_val flag" where
  "IntFlag i name = CustomFlag i name (\<lambda>s. map_sum (\<lambda>e. e) VInt (atoi s))"

definition BoolFlag :: "nat \<Rightarrow> string \<Rightarrow> cli_val flag" where
  "BoolFlag i name = (CustomFlag i name (\<lambda>s. map_sum (\<lambda>e. e) VBool (parseBool s)))\<lparr>fl_isBool := True\<rparr>"

definition StringSliceFlag :: "nat \<Rightarrow> string \<Rightarrow> cli_val flag" where
  "StringSliceFlag i name = (CustomFlag i name (\<lambda>s. Inr (VStrings [s])))
     \<lparr>fl_isSlice := True, fl_appendOne := \<lambda>prev s. (case prev of VStrings xs \<Rightarrow> Inr (VStrings (xs @ [s])) | _ \<Rightarrow> Inr (VStrings [s]))\<rparr>"

definition IntSliceFlag :: "nat \<Rightarrow> string \<Rightarrow> cli_val flag" where
  "IntSliceFlag i name = (CustomFlag i name (\<lambda>s. map_sum (\<lambda>e. e) (\<lambda>n. VInts [n]) (atoi s)))
     \<lparr>fl_isSlice := True, fl_appendOne := \<lambda>prev s. (case prev of VInts xs \<Rightarrow> map_sum (\<lambda>e. e) (\<lambda>n. VInts (xs @ [n])) (atoi s)
        | _ \<Rightarrow> map_sum (\<lambda>e. e) (\<lambda>n. VInts [n]) (atoi s))\<rparr>"

definition StringArg :: "nat \<Rightarrow> string \<Rightarrow> cli_val arg" where
  "StringArg i name = \<lparr>ar_id = i, ar_name = name, ar_required = False, ar_variadic = False, ar_isSlice = False, ar_default = None,
     ar_parse = (\<lambda>s. Inr (VString s)), ar_appendOne = (\<lambda>_ s. Inr (VString s)), ar_validate = None, ar_completer = None\<rparr>"

definition StringSliceArg :: "nat \<Rightarrow> string \<Rightarrow> cli_val arg" where
  "StringSliceArg i name = \<lparr>ar_id = i, ar_name = name, ar_required = False, ar_variadic = False, ar_isSlice = True, ar_default = None,
     ar_parse = (\<lambda>s. Inr (VStrings [s])),
     ar_appendOne = (\<lambda>prev s. (case prev of VStrings xs \<Rightarrow> Inr (VStrings (xs @ [s])) | _ \<Rightarrow> Inl ''panic'')),
     ar_validate = None, ar_completer = None\<rparr>"


text \<open>\<open>OneOf\<close>: \<open>sprint\<close> is \<open>fmt.Sprint\<close> on the type.\<close>

definition one_of :: "('v \<Rightarrow> string) \<Rightarrow> 'v list \<Rightarrow> 'v \<Rightarrow> string option" where
  "one_of sprint allowed v = (if sprint v \<in> set (map sprint allowed) then None else Some (sprint v))"

definition flag_OneOf :: "('v \<Rightarrow> string) \<Rightarrow> 'v list \<Rightarrow> 'v flag \<Rightarrow> 'v flag" where
  "flag_OneOf sprint allowed f =
    (if allowed = [] then f
     else f\<lparr>fl_validate := Some (one_of sprint allowed), fl_completer := Some (\<lambda>_ _. map sprint allowed)\<rparr>)"

definition arg_OneOf :: "('v \<Rightarrow> string) \<Rightarrow> 'v list \<Rightarrow> 'v arg \<Rightarrow> 'v arg" where
  "arg_OneOf sprint allowed a =
    (if allowed = [] then a
     else a\<lparr>ar_validate := Some (one_of sprint allowed), ar_completer := Some (\<lambda>_ _. map sprint allowed)\<rparr>)"

section \<open>Runes\<close>

text \<open>\<open>[]rune(s)\<close>: UTF-8 decoding; a byte that starts no well-formed sequence is U+FFFD.\<close>

definition cont :: "nat \<Rightarrow> nat \<Rightarrow> char \<Rightarrow> bool" where
  "cont lo hi c \<longleftrightarrow> lo \<le> of_char c \<and> of_char c \<le> hi"

definition rune_len :: "string \<Rightarrow> nat" where
  "rune_len s =
    (case s of [] \<Rightarrow> 0
     | c # r \<Rightarrow>
       (let b = of_char c :: nat; ok = (\<lambda>i lo hi. i < length r \<and> cont lo hi (r ! i)) in
        if b < 128 then 1
        else if 194 \<le> b \<and> b \<le> 223 \<and> ok 0 128 191 then 2
        else if 224 \<le> b \<and> b \<le> 239 \<and> ok 0 (if b = 224 then 160 else 128) (if b = 237 then 159 else 191) \<and> ok 1 128 191 then 3
        else if 240 \<le> b \<and> b \<le> 244 \<and> ok 0 (if b = 240 then 144 else 128) (if b = 244 then 143 else 191) \<and> ok 1 128 191 \<and> ok 2 128 191 then 4
        else 1))"

definition rune_at :: "string \<Rightarrow> rune" where
  "rune_at s =
    (let b = (\<lambda>i. of_char (s ! i) mod 64 :: nat); h = of_char (s ! 0) :: nat in
     case rune_len s of
       (Suc 0) \<Rightarrow> if h < 128 then h else 65533
     | (Suc (Suc 0)) \<Rightarrow> (h mod 32) * 64 + b 1
     | (Suc (Suc (Suc 0))) \<Rightarrow> (h mod 16) * 4096 + b 1 * 64 + b 2
     | _ \<Rightarrow> (h mod 8) * 262144 + b 1 * 4096 + b 2 * 64 + b 3)"

lemma rune_len_pos: "s \<noteq> [] \<Longrightarrow> 0 < rune_len s"
  by (cases s) (auto simp: rune_len_def Let_def)

function runes :: "string \<Rightarrow> rune list" where
  "runes s = (if s = [] then [] else rune_at s # runes (drop (rune_len s) s))"
  by pat_completeness auto
termination
  by (relation "measure length") (use rune_len_pos in \<open>auto simp: length_greater_0_conv\<close>)

declare runes.simps [simp del]

lemma runes_ascii: "of_char c < (128 :: nat) \<Longrightarrow> runes [c] = [of_char c]"
  by (simp add: runes.simps rune_at_def rune_len_def Let_def)

lemma runes_Nil [simp]: "runes [] = []"
  by (simp add: runes.simps)

section \<open>Checking declarations\<close>

definition first_error :: "'e option list \<Rightarrow> 'e option" where
  "first_error es = (case dropWhile (\<lambda>e. e = None) es of [] \<Rightarrow> None | e # _ \<Rightarrow> e)"

fun check_flags :: "string \<Rightarrow> string list \<Rightarrow> rune list \<Rightarrow> 'v flag option list \<Rightarrow> cli_error + string list" where
  "check_flags cmd longSeen shortSeen [] = Inr longSeen"
| "check_flags cmd longSeen shortSeen (None # fs) = Inl (NilFlag cmd)"
| "check_flags cmd longSeen shortSeen (Some f # fs) =
    (if fl_name f = ''help'' then Inl (ReservedHelp cmd)
     else if fl_short f = of_char (CHR ''h'') then Inl (ReservedShortHelp cmd)
     else if fl_name f \<in> set longSeen then Inl (DuplicateFlag cmd (fl_name f))
     else if fl_short f \<noteq> 0 \<and> fl_short f \<in> set shortSeen then Inl (DuplicateShort cmd (fl_short f))
     else check_flags cmd (fl_name f # longSeen) (if fl_short f \<noteq> 0 then fl_short f # shortSeen else shortSeen) fs)"

fun check_args :: "string \<Rightarrow> bool \<Rightarrow> 'v arg option list \<Rightarrow> cli_error option" where
  "check_args cmd seenOptional [] = None"
| "check_args cmd seenOptional (None # as) = Some (NilArg cmd)"
| "check_args cmd seenOptional (Some a # as) =
    (if ar_variadic a \<and> 0 < length as then Some (VariadicNotLast cmd (ar_name a))
     else if ar_required a \<and> seenOptional then Some (RequiredAfterOptional cmd (ar_name a))
     else if ar_isSlice a \<and> \<not> ar_variadic a then Some (SliceNotVariadic cmd (ar_name a))
     else if ar_variadic a \<and> \<not> ar_isSlice a then Some (VariadicNotSlice cmd (ar_name a))
     else check_args cmd (seenOptional \<or> \<not> ar_required a \<and> \<not> ar_variadic a) as)"

fun check_names :: "string \<Rightarrow> string list \<Rightarrow> string list \<Rightarrow> cli_error + string list" where
  "check_names cmd seen [] = Inr seen"
| "check_names cmd seen (n # ns) = (if n \<in> set seen then Inl (DuplicateSubcommand cmd n) else check_names cmd (n # seen) ns)"

fun check_subs :: "string \<Rightarrow> string list \<Rightarrow> ('v, 'h) command option list \<Rightarrow> cli_error option" where
  "check_subs cmd seen [] = None"
| "check_subs cmd seen (None # ss) = Some (NilSubcommand cmd)"
| "check_subs cmd seen (Some s # ss) =
    (case check_names cmd seen (c_Name s # c_Aliases s) of Inl e \<Rightarrow> Some e | Inr seen' \<Rightarrow> check_subs cmd seen' ss)"

text \<open>The command's own declarations, before the recursion into its subcommands.\<close>

definition flags_of :: "('v, 'h) command \<Rightarrow> 'v flag list" where
  "flags_of c = List.map_filter (\<lambda>f. f) (c_Flags c)"

definition args_of :: "('v, 'h) command \<Rightarrow> 'v arg list" where
  "args_of c = List.map_filter (\<lambda>a. a) (c_Args c)"

definition subs_of :: "('v, 'h) command \<Rightarrow> ('v, 'h) command list" where
  "subs_of c = List.map_filter (\<lambda>s. s) (c_Subcommands c)"

definition check_own :: "('v, 'h) command \<Rightarrow> 'v flag list \<Rightarrow> cli_error option" where
  "check_own c inherited =
    (case check_flags (c_Name c) (map fl_name inherited) (filter (\<lambda>r. r \<noteq> 0) (map fl_short inherited)) (c_Flags c) of
       Inl e \<Rightarrow> Some e
     | Inr longSeen \<Rightarrow>
         if c_Version c \<noteq> [] \<and> ''version'' \<in> set longSeen then Some (ReservedVersion (c_Name c))
         else case check_args (c_Name c) False (c_Args c) of
           Some e \<Rightarrow> Some e
         | None \<Rightarrow> check_subs (c_Name c) [] (c_Subcommands c))"

lemma sub_size [termination_simp]: "Some s \<in> set (c_Subcommands c) \<Longrightarrow> size s < size c"
proof (cases c)
  case (Command n v al fl ar su us ru hi ij)
  assume "Some s \<in> set (c_Subcommands c)"
  then have "size_option size (Some s) \<le> size_list (size_option size) su"
    unfolding Command command.sel by (rule size_list_estimation') simp
  then show ?thesis by (simp add: Command)
qed

function validateArgsDecl :: "('v, 'h) command \<Rightarrow> 'v flag list \<Rightarrow> cli_error option" where
  "validateArgsDecl c inherited =
    (case check_own c inherited of
       Some e \<Rightarrow> Some e
     | None \<Rightarrow> first_error (map (\<lambda>s. validateArgsDecl s (inherited @ flags_of c)) (subs_of c)))"
  by pat_completeness auto
termination
proof (relation "measure (\<lambda>(c, _). size c)")
  fix c s :: "('v, 'h) command" and inherited :: "'v flag list"
  assume "s \<in> set (subs_of c)"
  then have "Some s \<in> set (c_Subcommands c)" by (auto simp: subs_of_def map_filter_def)
  then show "((s, inherited @ flags_of c), c, inherited) \<in> measure (\<lambda>(c, _). size c)" by (simp add: sub_size)
qed simp

declare validateArgsDecl.simps [simp del]


section \<open>Tokens\<close>

definition findSub :: "('v, 'h) command \<Rightarrow> string \<Rightarrow> ('v, 'h) command option" where
  "findSub c name = find (\<lambda>s. c_Name s = name \<or> name \<in> set (c_Aliases s)) (subs_of c)"

definition commandHasVariadic :: "('v, 'h) command \<Rightarrow> bool" where
  "commandHasVariadic c = list_ex ar_variadic (args_of c)"

definition findFlagLong :: "'v flag list \<Rightarrow> string \<Rightarrow> 'v flag option" where
  "findFlagLong flags name = find (\<lambda>f. fl_name f = name) flags"

definition findFlagShort :: "'v flag list \<Rightarrow> rune \<Rightarrow> 'v flag option" where
  "findFlagShort flags r = find (\<lambda>f. fl_short f = r \<and> r \<noteq> 0) flags"

definition isFlagToken :: "string \<Rightarrow> bool" where
  "isFlagToken tok \<longleftrightarrow> 2 \<le> length tok \<and> hd tok = CHR ''-'' \<and> tok \<noteq> ''--''"

definition isLong :: "string \<Rightarrow> bool" where
  "isLong tok \<longleftrightarrow> take 2 tok = ''--''"

text \<open>The name and the inline value of a flag token.\<close>

definition flag_parts :: "string \<Rightarrow> string \<times> string option" where
  "flag_parts tok =
    (let body = (if isLong tok then drop 2 tok else drop 1 tok) in
     case cut (CHR ''='') body of None \<Rightarrow> (body, None) | Some (name, v) \<Rightarrow> (name, Some v))"

definition flag_named :: "'v flag list \<Rightarrow> string \<Rightarrow> cli_error + 'v flag" where
  "flag_named flags tok =
    (let name = fst (flag_parts tok) in
     if isLong tok
     then (case findFlagLong flags name of None \<Rightarrow> Inl (UnknownFlag name) | Some f \<Rightarrow> Inr f)
     else if name = [] then Inl BareDash
     else if length (runes name) > 1 then Inl (CombinedShort name)
     else case findFlagShort flags (hd (runes name)) of None \<Rightarrow> Inl (UnknownShort (hd (runes name))) | Some f \<Rightarrow> Inr f)"

definition applyFlagToken :: "string \<Rightarrow> string option \<Rightarrow> 'v flag list \<Rightarrow> 'v cli_values \<Rightarrow> nat \<times> (cli_error + 'v cli_values)" where
  "applyFlagToken tok next flags vs =
    (case flag_named flags tok of
       Inl e \<Rightarrow> (0, Inl e)
     | Inr f \<Rightarrow>
         if fl_isBool f
         then (0, flagApplyString f vs (case snd (flag_parts tok) of None \<Rightarrow> ''true'' | Some v \<Rightarrow> v))
         else case snd (flag_parts tok) of
           Some v \<Rightarrow> (0, flagApplyString f vs v)
         | None \<Rightarrow> (case next of None \<Rightarrow> (0, Inl (MissingValue (fl_name f))) | Some s \<Rightarrow> (1, flagApplyString f vs s)))"

section \<open>Suggestions\<close>

definition min3 :: "nat \<Rightarrow> nat \<Rightarrow> nat \<Rightarrow> nat" where
  "min3 a b c = min c (min b a)"

text \<open>One row of the table: from the previous row, the next one left to right.\<close>

fun lev_row :: "char \<Rightarrow> string \<Rightarrow> nat list \<Rightarrow> nat \<Rightarrow> nat list" where
  "lev_row c (y # ys) (p # q # ps) left =
    (let v = min3 (left + 1) (q + 1) (p + (if c = y then 0 else 1)) in v # lev_row c ys (q # ps) v)"
| "lev_row c ys ps left = []"

fun lev_rows :: "string \<Rightarrow> string \<Rightarrow> nat \<Rightarrow> nat list \<Rightarrow> nat list" where
  "lev_rows [] b i prev = prev"
| "lev_rows (x # xs) b i prev = lev_rows xs b (i + 1) (i # lev_row x b prev i)"

definition levenshtein :: "string \<Rightarrow> string \<Rightarrow> nat" where
  "levenshtein a b =
    (if a = b then 0 else if a = [] then length b else if b = [] then length a
     else lev_rows a b 1 [0..<length b + 1] ! length b)"

definition sub_candidates :: "('v, 'h) command \<Rightarrow> string list" where
  "sub_candidates c = concat (map (\<lambda>s. if c_Hidden s then [] else c_Name s # c_Aliases s) (subs_of c))"

fun closest :: "string \<Rightarrow> string list \<Rightarrow> string option \<Rightarrow> nat \<Rightarrow> string option" where
  "closest attempted [] best bestDist = best"
| "closest attempted (cand # cs) best bestDist =
    (let d = levenshtein attempted cand in
     if d < bestDist then closest attempted cs (Some cand) d else closest attempted cs best bestDist)"

definition suggestSub :: "('v, 'h) command \<Rightarrow> string \<Rightarrow> string option" where
  "suggestSub c attempted = closest attempted (sub_candidates c) None (min (length attempted) 4)"

section \<open>The parser\<close>

record ('v, 'h) parse_state =
  ps_cmd :: "('v, 'h) command"
  ps_path :: "('v, 'h) command list"
  ps_known :: "'v flag list"
  ps_values :: "'v cli_values"
  ps_positional :: "string list"
  ps_started :: bool
  ps_locked :: bool

definition parse_start :: "('v, 'h) command \<Rightarrow> ('v, 'h) parse_state" where
  "parse_start root = \<lparr>ps_cmd = root, ps_path = [root], ps_known = flags_of root, ps_values = Map.empty, ps_positional = [],
     ps_started = False, ps_locked = False\<rparr>"

datatype parse_stop = Tokens_done | Help_asked | Version_asked | Parse_failed cli_error

text \<open>A token that is neither the separator, a built-in nor a flag: descend or take it as a positional.\<close>

definition take_word :: "string \<Rightarrow> ('v, 'h) parse_state \<Rightarrow> cli_error + ('v, 'h) parse_state" where
  "take_word tok st =
    (case (if ps_started st then None else findSub (ps_cmd st) tok) of
       Some sub \<Rightarrow> Inr (st\<lparr>ps_cmd := sub, ps_path := ps_path st @ [sub], ps_known := ps_known st @ flags_of sub\<rparr>)
     | None \<Rightarrow>
         if \<not> ps_started st \<and> c_Run (ps_cmd st) = None \<and> 0 < length (c_Subcommands (ps_cmd st))
         then Inl (UnknownSubcommand tok (suggestSub (ps_cmd st) tok))
         else Inr (st\<lparr>ps_started := True, ps_locked := ps_locked st \<or> commandHasVariadic (ps_cmd st),
                ps_positional := ps_positional st @ [tok]\<rparr>))"

function parse_loop :: "string list \<Rightarrow> ('v, 'h) parse_state \<Rightarrow> parse_stop \<times> ('v, 'h) parse_state" where
  "parse_loop [] st = (Tokens_done, st)"
| "parse_loop (tok # rest) st =
    (if tok = ''--'' then (Tokens_done, st\<lparr>ps_positional := ps_positional st @ rest\<rparr>)
     else if tok = ''--help'' \<or> tok = ''-h'' then (Help_asked, st)
     else if tok = ''--version'' \<and> c_Version (ps_cmd st) \<noteq> [] then (Version_asked, st)
     else if \<not> ps_locked st \<and> isFlagToken tok then
       (case applyFlagToken tok (case rest of [] \<Rightarrow> None | n # _ \<Rightarrow> Some n) (ps_known st) (ps_values st) of
          (consumed, Inl e) \<Rightarrow> (Parse_failed e, st)
        | (consumed, Inr vs) \<Rightarrow> parse_loop (drop consumed rest) (st\<lparr>ps_values := vs\<rparr>))
     else case take_word tok st of Inl e \<Rightarrow> (Parse_failed e, st) | Inr st' \<Rightarrow> parse_loop rest st')"
  by pat_completeness auto
termination
  by (relation "measure (\<lambda>(toks, _). length toks)") auto

fun apply_envs :: "(string \<rightharpoonup> string) \<Rightarrow> 'v flag list \<Rightarrow> 'v cli_values \<Rightarrow> cli_error option \<times> 'v cli_values" where
  "apply_envs env [] v = (None, v)"
| "apply_envs env (f # fs) v =
    (case flagApplyEnv env f v of Inl e \<Rightarrow> (Some e, v) | Inr v' \<Rightarrow> apply_envs env fs v')"

definition check_flag :: "'v cli_values \<Rightarrow> 'v flag \<Rightarrow> cli_error option" where
  "check_flag v f =
    (if fl_required f \<and> \<not> hasValue f v \<and> fl_default f = None then Some (RequiredFlag (fl_name f)) else flagValidate f v)"

fun bind_variadic :: "'v arg \<Rightarrow> string list \<Rightarrow> 'v cli_values \<Rightarrow> cli_error option \<times> 'v cli_values" where
  "bind_variadic a [] v = (None, v)"
| "bind_variadic a (s # ss) v =
    (case argApplyString a v s of Inl e \<Rightarrow> (Some e, v) | Inr v' \<Rightarrow> bind_variadic a ss v')"

fun bindPositionals :: "'v arg list \<Rightarrow> string list \<Rightarrow> 'v cli_values \<Rightarrow> cli_error option \<times> 'v cli_values" where
  "bindPositionals [] [] v = (None, v)"
| "bindPositionals [] (s # ss) v = (Some (UnexpectedArgument s), v)"
| "bindPositionals (a # as) ss v =
    (if ar_variadic a then
       (case bind_variadic a ss v of
          (Some e, v') \<Rightarrow> (Some e, v')
        | (None, v') \<Rightarrow> (if ar_required a \<and> ss = [] then Some (MissingArgument (ar_name a)) else None, v'))
     else case ss of
       [] \<Rightarrow> if ar_required a then (Some (MissingArgument (ar_name a)), v) else bindPositionals as [] v
     | s # ss' \<Rightarrow> (case argApplyString a v s of Inl e \<Rightarrow> (Some e, v) | Inr v' \<Rightarrow> bindPositionals as ss' v'))"

text \<open>What follows the tokens: environment, required flags and validation, then the positionals.\<close>

definition parse_finish :: "(string \<rightharpoonup> string) \<Rightarrow> ('v, 'h) parse_state \<Rightarrow> cli_error option \<times> 'v cli_values" where
  "parse_finish env st =
    (let (e1, v1) = (if c_injected (ps_cmd st) then (None, ps_values st)
        else let (e, v) = apply_envs env (ps_known st) (ps_values st) in
          (case e of Some x \<Rightarrow> Some x | None \<Rightarrow> first_error (map (check_flag v) (ps_known st)), v))
     in if e1 \<noteq> None then (e1, v1)
        else if c_Run (ps_cmd st) = None \<and> 0 < length (c_Subcommands (ps_cmd st)) then (Some MissingSubcommand, v1)
        else case bindPositionals (args_of (ps_cmd st)) (ps_positional st) v1 of
          (Some e, v2) \<Rightarrow> (Some e, v2)
        | (None, v2) \<Rightarrow> (first_error (map (\<lambda>a. argValidate a v2) (args_of (ps_cmd st))), v2))"

record ('v, 'h) parse_result =
  pr_cmd :: "('v, 'h) command"
  pr_path :: "('v, 'h) command list"
  pr_values :: "'v cli_values"
  pr_help :: bool
  pr_version :: bool

definition result_of :: "('v, 'h) parse_state \<Rightarrow> ('v, 'h) parse_result" where
  "result_of st = \<lparr>pr_cmd = ps_cmd st, pr_path = ps_path st, pr_values = ps_values st, pr_help = False, pr_version = False\<rparr>"

definition parseArgs :: "('v, 'h) command \<Rightarrow> string list \<Rightarrow> (string \<rightharpoonup> string) \<Rightarrow>
    ('v, 'h) parse_result \<times> 'v flag list \<times> cli_error option" where
  "parseArgs root tokens env =
    (case validateArgsDecl root [] of
       Some e \<Rightarrow> (result_of (parse_start root), flags_of root, Some e)
     | None \<Rightarrow>
         (case parse_loop tokens (parse_start root) of
            (Help_asked, st) \<Rightarrow> ((result_of st)\<lparr>pr_help := True\<rparr>, ps_known st, None)
          | (Version_asked, st) \<Rightarrow> ((result_of st)\<lparr>pr_version := True\<rparr>, ps_known st, None)
          | (Parse_failed e, st) \<Rightarrow> (result_of st, ps_known st, Some e)
          | (Tokens_done, st) \<Rightarrow>
              (let (e, v) = parse_finish env st in (result_of (st\<lparr>ps_values := v\<rparr>), ps_known st, e))))"


section \<open>Running a command\<close>

text \<open>\<open>composeHandler\<close>: \<open>None\<close> for a command without \<open>Run\<close>, whose handler reports a usage error.\<close>

definition composeHandler :: "('v, 'h) parse_result \<Rightarrow> 'h option" where
  "composeHandler res =
    (case c_Run (pr_cmd res) of
       None \<Rightarrow> None
     | Some run \<Rightarrow>
         if c_injected (pr_cmd res) then Some run
         else Some (fold (\<lambda>c h. fold (\<lambda>m h. m h) (rev (c_Use c)) h) (rev (pr_path res)) run))"

text \<open>An error value: a sentinel or other leaf, an error that wraps one error (or a nil one), a joined
  error.\<close>

datatype leaf_error = Sentinel sentinel_error | Canceled | Other_error string

datatype go_error = Leaf leaf_error | Wraps "go_error option" | Joins "go_error list"

fun errorsIs :: "leaf_error \<Rightarrow> go_error \<Rightarrow> bool" where
  "errorsIs t (Leaf l) \<longleftrightarrow> l = t"
| "errorsIs t (Wraps None) \<longleftrightarrow> False"
| "errorsIs t (Wraps (Some e)) \<longleftrightarrow> errorsIs t e"
| "errorsIs t (Joins es) \<longleftrightarrow> list_ex (errorsIs t) es"

fun onlyCanceled :: "go_error \<Rightarrow> bool" where
  "onlyCanceled (Leaf l) \<longleftrightarrow> errorsIs Canceled (Leaf l)"
| "onlyCanceled (Wraps None) \<longleftrightarrow> errorsIs Canceled (Wraps None)"
| "onlyCanceled (Wraps (Some e)) \<longleftrightarrow> onlyCanceled e"
| "onlyCanceled (Joins es) \<longleftrightarrow> es \<noteq> [] \<and> list_all onlyCanceled es"

text \<open>The exit code of \<open>DefaultOnError\<close>; what it prints is not modelled.\<close>

definition DefaultOnError :: "go_error option \<Rightarrow> nat" where
  "DefaultOnError err =
    (case err of
       None \<Rightarrow> 0
     | Some e \<Rightarrow>
         if onlyCanceled e then 130
         else if errorsIs (Sentinel ErrMissingSubcommand) e then 2
         else if errorsIs (Sentinel ErrUsage) e \<or> errorsIs (Sentinel ErrValidation) e \<or>
           errorsIs (Sentinel ErrUnknownCmd) e \<or> errorsIs (Sentinel ErrMissingArg) e then 2
         else 1)"

definition parse_go_error :: "cli_error \<Rightarrow> go_error" where
  "parse_go_error e = (case sentinel e of
     Some s \<Rightarrow> if s = ErrMissingSubcommand then Leaf (Sentinel s) else Wraps (Some (Leaf (Sentinel s)))
   | None \<Rightarrow> Leaf (Other_error ''declaration''))"

text \<open>\<open>Exec\<close> with the default error renderer, on a root that already holds the completion commands:
  \<open>run\<close> gives a handler the values and the path.\<close>

definition Exec :: "('h \<Rightarrow> ('v, 'h) parse_result \<Rightarrow> go_error option) \<Rightarrow> ('v, 'h) command \<Rightarrow> string list \<Rightarrow> (string \<rightharpoonup> string) \<Rightarrow> nat" where
  "Exec run root args env =
    (case parseArgs root args env of
       (res, known, Some e) \<Rightarrow> DefaultOnError (Some (parse_go_error e))
     | (res, known, None) \<Rightarrow>
         if pr_help res \<or> pr_version res then 0
         else case composeHandler res of
           None \<Rightarrow> DefaultOnError (Some (Wraps (Some (Leaf (Sentinel ErrUsage)))))
         | Some h \<Rightarrow> DefaultOnError (run h res))"

section \<open>Completion\<close>

record ('v, 'h) path_walk =
  wk_cmd :: "('v, 'h) command"
  wk_known :: "'v flag list"
  wk_count :: nat
  wk_pending :: "'v flag option"
  wk_started :: bool
  wk_locked :: bool

definition lookupFlagToken :: "'v flag list \<Rightarrow> string \<Rightarrow> 'v flag option" where
  "lookupFlagToken flags tok =
    (let body0 = dropWhile (\<lambda>c. c = CHR ''-'') tok;
         body = takeWhile (\<lambda>c. c \<noteq> CHR ''='') body0
     in if isLong tok then findFlagLong flags body
        else if length body = 1 then findFlagShort flags (hd (runes body))
        else None)"

definition walk_flag :: "string \<Rightarrow> ('v, 'h) path_walk \<Rightarrow> 'v flag option" where
  "walk_flag tok w =
    (if CHR ''='' \<in> set tok then None
     else case lookupFlagToken (wk_known w) tok of Some f \<Rightarrow> if fl_isBool f then None else Some f | None \<Rightarrow> None)"

definition walk_word :: "string \<Rightarrow> ('v, 'h) path_walk \<Rightarrow> ('v, 'h) path_walk" where
  "walk_word tok w =
    (case (if wk_started w then None else findSub (wk_cmd w) tok) of
       Some sub \<Rightarrow> w\<lparr>wk_cmd := sub, wk_known := wk_known w @ flags_of sub\<rparr>
     | None \<Rightarrow> w\<lparr>wk_started := True, wk_locked := wk_locked w \<or> commandHasVariadic (wk_cmd w), wk_count := wk_count w + 1\<rparr>)"

fun walk_loop :: "string list \<Rightarrow> ('v, 'h) path_walk \<Rightarrow> ('v, 'h) path_walk" where
  "walk_loop [] w = w"
| "walk_loop [tok] w =
    (if tok = ''--'' then w\<lparr>wk_started := True, wk_locked := True\<rparr>
     else if \<not> wk_locked w \<and> isFlagToken tok
     then (case walk_flag tok w of None \<Rightarrow> w | Some f \<Rightarrow> w\<lparr>wk_pending := Some f\<rparr>)
     else walk_word tok w)"
| "walk_loop (tok # n # rest) w =
    (if tok = ''--'' then walk_loop (n # rest) (w\<lparr>wk_started := True, wk_locked := True\<rparr>)
     else if \<not> wk_locked w \<and> isFlagToken tok
     then (case walk_flag tok w of None \<Rightarrow> walk_loop (n # rest) w | Some f \<Rightarrow> walk_loop rest w)
     else walk_loop (n # rest) (walk_word tok w))"

definition walkPath :: "('v, 'h) command \<Rightarrow> string list \<Rightarrow> ('v, 'h) path_walk" where
  "walkPath root tokens = walk_loop tokens
     \<lparr>wk_cmd = root, wk_known = flags_of root, wk_count = 0, wk_pending = None, wk_started = False, wk_locked = False\<rparr>"

definition hasPrefix :: "string \<Rightarrow> string \<Rightarrow> bool" where
  "hasPrefix s p \<longleftrightarrow> take (length p) s = p"

definition candidates :: "string list \<Rightarrow> (string \<Rightarrow> string list \<Rightarrow> string list) option \<Rightarrow> string \<Rightarrow> string \<Rightarrow> string list" where
  "candidates partial fn valPrefix displayPrefix =
    (case fn of None \<Rightarrow> [] | Some g \<Rightarrow> map (\<lambda>c. displayPrefix @ c) (filter (\<lambda>c. hasPrefix c valPrefix) (g valPrefix partial)))"

definition complete_words :: "string list \<Rightarrow> string \<Rightarrow> ('v, 'h) path_walk \<Rightarrow> string list" where
  "complete_words partial cur w =
    (if wk_started w then []
     else concat (map (\<lambda>s. if c_Hidden s then [] else filter (\<lambda>n. hasPrefix n cur) (c_Name s # c_Aliases s)) (subs_of (wk_cmd w)))) @
    (let args = args_of (wk_cmd w) in
     if wk_count w < length args then candidates partial (ar_completer (args ! wk_count w)) cur []
     else if 0 < length args \<and> ar_variadic (last args) then candidates partial (ar_completer (last args)) cur []
     else [])"

definition complete_inline :: "string list \<Rightarrow> string \<Rightarrow> ('v, 'h) path_walk \<Rightarrow> string list option" where
  "complete_inline partial cur w =
    (if isLong cur
     then (case cut (CHR ''='') (drop 2 cur) of
         None \<Rightarrow> None
       | Some (name, valPrefix) \<Rightarrow>
           (case findFlagLong (wk_known w) name of
              None \<Rightarrow> None
            | Some f \<Rightarrow>
                if fl_isBool f
                then Some (map (\<lambda>c. ''--'' @ name @ ''='' @ c) (filter (\<lambda>c. hasPrefix c valPrefix) [''true'', ''false'']))
                else Some (candidates partial (fl_completer f) valPrefix (''--'' @ name @ ''=''))))
     else None)"

text \<open>\<open>runComplete\<close>: the lines it prints, for a writer that does not fail; \<open>encode\<close> is \<open>string(rune)\<close>.\<close>

definition runComplete :: "(rune \<Rightarrow> string) \<Rightarrow> ('v, 'h) command \<Rightarrow> string list \<Rightarrow> string list" where
  "runComplete encode root partial =
    (let cur = (if partial = [] then [] else last partial);
         w = walkPath root (butlast partial);
         visible = filter (\<lambda>f. \<not> fl_hidden f) (wk_known w)
     in if wk_locked w then complete_words partial cur w
        else case complete_inline partial cur w of
          Some out \<Rightarrow> out
        | None \<Rightarrow>
            (case wk_pending w of
               Some f \<Rightarrow> candidates partial (fl_completer f) cur []
             | None \<Rightarrow>
                 if hasPrefix cur ''--''
                 then map (\<lambda>f. ''--'' @ fl_name f) (filter (\<lambda>f. hasPrefix (fl_name f) (drop 2 cur)) visible)
                 else if cur = ''-''
                 then concat (map (\<lambda>f. (if fl_short f \<noteq> 0 then [''-'' @ encode (fl_short f)] else []) @ [''--'' @ fl_name f]) visible)
                 else complete_words partial cur w))"


section \<open>Injected commands\<close>

definition sprint_val :: "cli_val \<Rightarrow> string" where
  "sprint_val v = (case v of VString s \<Rightarrow> s | _ \<Rightarrow> [])"

definition completionCmd :: "nat \<Rightarrow> 'h \<Rightarrow> (cli_val, 'h) command" where
  "completionCmd i run =
    Command ''completion'' [] [] []
      [Some (arg_OneOf sprint_val [VString ''bash'', VString ''zsh'', VString ''fish''] ((StringArg i ''shell'')\<lparr>ar_required := True\<rparr>))]
      [] [] (Some run) True True"

definition completeCmd :: "nat \<Rightarrow> 'h \<Rightarrow> (cli_val, 'h) command" where
  "completeCmd i run =
    Command ''__complete'' [] [] [] [Some ((StringSliceArg i ''words'')\<lparr>ar_variadic := True\<rparr>)] [] [] (Some run) True True"

definition hasSub :: "('v, 'h) command \<Rightarrow> string \<Rightarrow> bool" where
  "hasSub c name = list_ex (\<lambda>s. c_Name s = name) (subs_of c)"

definition with_sub :: "('v, 'h) command \<Rightarrow> ('v, 'h) command \<Rightarrow> ('v, 'h) command" where
  "with_sub s c = (case c of Command n v al fl ar su us ru hi ij \<Rightarrow> Command n v al fl ar (su @ [Some s]) us ru hi ij)"

text \<open>The handlers of the two commands print a script and the candidates of \<open>runComplete\<close>; they are
  arguments.\<close>

definition withInjectedCompletion :: "nat \<Rightarrow> 'h \<Rightarrow> nat \<Rightarrow> 'h \<Rightarrow> (cli_val, 'h) command \<Rightarrow> (cli_val, 'h) command" where
  "withInjectedCompletion i run1 j run2 c =
    (let r1 = (if hasSub c ''completion'' then c else with_sub (completionCmd i run1) c)
     in if hasSub r1 ''__complete'' then r1 else with_sub (completeCmd j run2) r1)"

end
