(* ===== verification/CliGuarantees.thy ===== *)
theory CliGuarantees
  imports CliParse
begin

text \<open>
  What package \<open>cli\<close> guarantees: the suggestion for a mistyped command is the closest one in edit
  distance; a checked command tree is unambiguous, so a printed invocation parses back; values have the
  declared types; the environment fills only what the command line left open; shell completion follows the
  parser.
\<close>

section \<open>Edit distance\<close>

fun ed :: "string \<Rightarrow> string \<Rightarrow> nat" where
  "ed [] ys = length ys"
| "ed xs [] = length xs"
| "ed (x # xs) (y # ys) = min3 (ed (x # xs) ys + 1) (ed xs (y # ys) + 1) (ed xs ys + (if x = y then 0 else 1))"

text \<open>The values of a function on the prefixes of a list, read backwards: one row of the table.\<close>

fun prefixes_of :: "(string \<Rightarrow> nat) \<Rightarrow> string \<Rightarrow> string \<Rightarrow> nat list" where
  "prefixes_of f rz [] = [f rz]"
| "prefixes_of f rz (y # ys) = f rz # prefixes_of f (y # rz) ys"

lemma prefixes_of_tl: "prefixes_of f rz ys = f rz # tl (prefixes_of f rz ys)"
  by (cases ys) auto

lemma length_prefixes_of [simp]: "length (prefixes_of f rz ys) = length ys + 1"
  by (induction ys arbitrary: rz) auto

lemma prefixes_of_last: "prefixes_of f rz ys ! length ys = f (rev ys @ rz)"
  by (induction ys arbitrary: rz) auto

lemma lev_row_prefixes: "lev_row c ys (prefixes_of (ed rp) rz ys) (ed (c # rp) rz) = tl (prefixes_of (ed (c # rp)) rz ys)"
proof (induction ys arbitrary: rz)
  case (Cons y ys)
  have "prefixes_of (ed rp) (y # rz) ys = ed rp (y # rz) # tl (prefixes_of (ed rp) (y # rz) ys)" by (rule prefixes_of_tl)
  then have "lev_row c (y # ys) (ed rp rz # prefixes_of (ed rp) (y # rz) ys) (ed (c # rp) rz) =
      ed (c # rp) (y # rz) # lev_row c ys (prefixes_of (ed rp) (y # rz) ys) (ed (c # rp) (y # rz))"
    by (metis (no_types, lifting) ed.simps(3) lev_row.simps(1))
  then show ?case using Cons.IH [of "y # rz"] prefixes_of_tl [of "ed (c # rp)" "y # rz" ys] by simp
qed simp

lemma lev_rows_prefixes: "lev_rows xs b (length rp + 1) (prefixes_of (ed rp) [] b) = prefixes_of (ed (rev xs @ rp)) [] b"
proof (induction xs arbitrary: rp)
  case (Cons x xs)
  have "(length rp + 1) # lev_row x b (prefixes_of (ed rp) [] b) (length rp + 1) = prefixes_of (ed (x # rp)) [] b"
    using lev_row_prefixes [of x b rp "[]"] prefixes_of_tl [of "ed (x # rp)" "[]" b] by simp
  then show ?case using Cons.IH [of "x # rp"] by simp
qed simp

lemma prefixes_of_Nil: "prefixes_of (ed []) rz ys = [length rz..<length rz + length ys + 1]"
proof (induction ys arbitrary: rz)
  case (Cons y ys)
  have "[length rz..<length rz + length (y # ys) + 1] = length rz # [Suc (length rz)..<length rz + length (y # ys) + 1]"
    by (rule upt_conv_Cons) simp
  then show ?case using Cons.IH [of "y # rz"] by simp
qed simp

lemma ed_refl: "ed xs xs = 0"
  by (induction xs) (auto simp: min3_def)

lemma levenshtein_ed: "levenshtein a b = ed (rev a) (rev b)"
proof -
  have "lev_rows a b 1 [0..<length b + 1] ! length b = ed (rev a) (rev b)"
    using lev_rows_prefixes [of a b "[]"] prefixes_of_Nil [of "[]" b] prefixes_of_last [of "ed (rev a)" "[]" b] by simp
  moreover have "ed xs [] = length xs" for xs by (cases xs) auto
  ultimately show ?thesis by (auto simp: levenshtein_def ed_refl)
qed

text \<open>A single edit inserts, deletes or replaces one character.\<close>

inductive edit1 :: "string \<Rightarrow> string \<Rightarrow> bool" where
  edit_insert: "edit1 (xs @ ys) (xs @ c # ys)"
| edit_delete: "edit1 (xs @ c # ys) (xs @ ys)"
| edit_replace: "edit1 (xs @ c # ys) (xs @ d # ys)"

lemma ed_insert: "ed a (c # ys) \<le> ed a ys + 1"
  by (cases a) (auto simp: min3_def)

lemma ed_insert_left: "ed (y # a) ys \<le> ed a ys + 1"
  by (cases ys) (auto simp: min3_def, cases a, auto)

lemma ed_delete: "ed a ys \<le> ed a (c # ys) + 1"
proof (induction a)
  case (Cons y a)
  then show ?case using ed_insert_left [of y a ys] by (auto simp: min3_def)
qed simp

lemma ed_replace: "ed a (d # ys) \<le> ed a (c # ys) + 1"
  by (induction a) (auto simp: min3_def)

lemma ed_context: "(\<And>a. ed a c \<le> ed a b + 1) \<Longrightarrow> ed a (x # c) \<le> ed a (x # b) + 1"
proof (induction a)
  case Nil
  show ?case using Nil [of "[]"] by simp
next
  case (Cons y a)
  have "ed a (x # c) \<le> ed a (x # b) + 1" by (rule Cons.IH [OF Cons.prems])
  then show ?case using Cons.prems [of "y # a"] Cons.prems [of a] unfolding ed.simps min3_def min_def by (auto split: if_splits)
qed

lemma ed_edit1: "edit1 b c \<Longrightarrow> ed a c \<le> ed a b + 1"
proof (induction arbitrary: a rule: edit1.induct)
  case (edit_insert xs ys c)
  show ?case by (induction xs arbitrary: a) (auto intro: ed_insert [simplified] ed_context [simplified])
next
  case (edit_delete xs c ys)
  show ?case by (induction xs arbitrary: a) (auto intro: ed_delete [simplified] ed_context [simplified])
next
  case (edit_replace xs c ys d)
  show ?case by (induction xs arbitrary: a) (auto intro: ed_replace [simplified] ed_context [simplified])
qed

lemma ed_path_le: "(edit1 ^^ n) a b \<Longrightarrow> ed a b \<le> n"
proof (induction n arbitrary: b)
  case 0
  then show ?case by (simp add: ed_refl)
next
  case (Suc n)
  then obtain c where "(edit1 ^^ n) a c" "edit1 c b" by auto
  then show ?case using Suc.IH ed_edit1 [of c b a] by fastforce
qed

lemma edit1_Cons: "edit1 a b \<Longrightarrow> edit1 (x # a) (x # b)"
  by (induction rule: edit1.induct) (metis append_Cons edit1.intros)+

lemma edit1_path_Cons: "(edit1 ^^ n) a b \<Longrightarrow> (edit1 ^^ n) (x # a) (x # b)"
  by (induction n arbitrary: b) (auto intro: edit1_Cons)

lemma edit1_hd: "edit1 ys (y # ys)" "edit1 (y # ys) ys" "edit1 (x # ys) (y # ys)"
  using edit1.intros [of "[]"] by auto

lemma ed_path: "(edit1 ^^ ed a b) a b"
proof (induction a b rule: ed.induct)
  case (1 ys)
  have "(edit1 ^^ length ys) [] ys" by (induction ys) (auto intro: edit1_hd)
  then show ?case by simp
next
  case (2 x xs)
  have "(edit1 ^^ length xs) xs []" for xs :: string 
  proof (induction xs)
    case (Cons c xs)
    then show ?case using relpowp_Suc_I2 [of edit1 "c # xs" xs "length xs" "[]"] edit1_hd(2) by (simp del: relpowp.simps)
  qed simp
  from this [of "x # xs"] show ?case by (simp only: ed.simps)
next
  case (3 x xs y ys)
  have "min3 a b c = a \<or> min3 a b c = b \<or> min3 a b c = c" for a b c by (auto simp: min3_def min_def)
  then consider "ed (x # xs) (y # ys) = Suc (ed (x # xs) ys)" | "ed (x # xs) (y # ys) = Suc (ed xs (y # ys))"
    | "ed (x # xs) (y # ys) = ed xs ys" "x = y" | "ed (x # xs) (y # ys) = Suc (ed xs ys)"
    unfolding ed.simps Suc_eq_plus1 by (metis add.right_neutral)
  then show ?case
  proof cases
    case 1
    then show ?thesis using 3(1) edit1_hd by (auto simp del: ed.simps)
  next
    case 2
    then show ?thesis using 3(2) edit1_hd by (simp del: ed.simps) (metis relpowp_Suc_I2 relpowp.simps(2))
  next
    case 3
    then show ?thesis using "3.IH"(3) edit1_path_Cons by (simp del: ed.simps)
  next
    case 4
    then show ?thesis using "3.IH"(3) edit1_path_Cons [of "ed xs ys" xs ys x] edit1_hd(3) by (auto simp del: ed.simps)
  qed
qed

lemma edit1_rev: "edit1 a b \<Longrightarrow> edit1 (rev a) (rev b)"
  by (induction rule: edit1.induct) (auto intro: edit1.intros)

lemma edit1_path_rev: "(edit1 ^^ n) a b \<Longrightarrow> (edit1 ^^ n) (rev a) (rev b)"
  by (induction n arbitrary: b) (auto intro: edit1_rev)

definition edit_distance :: "string \<Rightarrow> string \<Rightarrow> nat" where
  "edit_distance a b = (LEAST n. (edit1 ^^ n) a b)"

lemma levenshtein_least: "levenshtein a b = edit_distance a b"
  unfolding edit_distance_def
proof (rule Least_equality [symmetric])
  show "(edit1 ^^ levenshtein a b) a b" using edit1_path_rev [OF ed_path [of "rev a" "rev b"]] by (simp add: levenshtein_ed)
  show "levenshtein a b \<le> n" if "(edit1 ^^ n) a b" for n
    using ed_path_le [OF edit1_path_rev [OF that]] by (simp add: levenshtein_ed)
qed

section \<open>Suggestions\<close>

definition best_of :: "(string \<Rightarrow> nat) \<Rightarrow> nat \<Rightarrow> string list \<Rightarrow> string option" where
  "best_of d lim cs = find (\<lambda>c. d c < lim \<and> list_all (\<lambda>x. d c \<le> d x) cs) cs"

lemma best_of_Cons_less:
  assumes lt: "d c < lim"
  shows "best_of d lim (c # cs) = (case best_of d (d c) cs of None \<Rightarrow> Some c | Some x \<Rightarrow> Some x)"
proof (cases "list_all (\<lambda>x. d c \<le> d x) cs")
  case True
  then have "best_of d (d c) cs = None" by (auto simp: best_of_def find_None_iff list_all_iff)
  then show ?thesis using True lt by (simp add: best_of_def)
next
  case False
  obtain m where m: "m \<in> set cs" "d m < d c" using False by (auto simp: list_all_iff)
  have eq: "find (\<lambda>x. d x < lim \<and> list_all (\<lambda>y. d x \<le> d y) (c # cs)) cs =
      find (\<lambda>x. d x < d c \<and> list_all (\<lambda>y. d x \<le> d y) cs) cs"
  proof (rule find_cong [OF refl])
    fix x assume "x \<in> set cs"
    show "(d x < lim \<and> list_all (\<lambda>y. d x \<le> d y) (c # cs)) = (d x < d c \<and> list_all (\<lambda>y. d x \<le> d y) cs)"
      using m lt by (fastforce simp: list_all_iff)
  qed
  define k where "k = (LEAST n. n \<in> d ` set cs)"
  have "k \<in> d ` set cs" "\<And>x. x \<in> set cs \<Longrightarrow> k \<le> d x" unfolding k_def using m(1) by (auto intro: LeastI Least_le)
  then obtain x where "x \<in> set cs" "d x < d c" "list_all (\<lambda>y. d x \<le> d y) cs"
    using m by (auto simp: list_all_iff) (metis le_less_trans)
  then have "best_of d (d c) cs \<noteq> None" by (auto simp: best_of_def find_None_iff)
  then show ?thesis using False eq by (auto simp: best_of_def)
qed

lemma best_of_Cons_ge: "lim \<le> d c \<Longrightarrow> best_of d lim (c # cs) = best_of d lim cs"
  unfolding best_of_def by (simp add: not_less) (intro find_cong, auto)

lemma closest_Some:
  "closest att cs (Some b) (levenshtein att b) =
    (case best_of (levenshtein att) (levenshtein att b) cs of None \<Rightarrow> Some b | Some c \<Rightarrow> Some c)"
proof (induction cs arbitrary: b)
  case (Cons c cs)
  let ?d = "levenshtein att"
  show ?case
  proof (cases "?d c < ?d b")
    case True
    then show ?thesis using best_of_Cons_less [where d = ?d, OF True] Cons.IH [of c] by (simp add: Let_def split: option.splits)
  next
    case False
    then show ?thesis using best_of_Cons_ge [of "?d b" ?d c cs] Cons.IH [of b] by (simp add: Let_def)
  qed
qed (simp add: best_of_def)

lemma closest_None: "closest att cs None lim = best_of (levenshtein att) lim cs"
proof (induction cs arbitrary: lim)
  case (Cons c cs)
  let ?d = "levenshtein att"
  show ?case
  proof (cases "?d c < lim")
    case True
    have "closest att (c # cs) None lim = (case best_of ?d (?d c) cs of None \<Rightarrow> Some c | Some x \<Rightarrow> Some x)"
      using True closest_Some [of att cs c] by (simp add: Let_def)
    moreover have "best_of ?d lim (c # cs) = (case best_of ?d (?d c) cs of None \<Rightarrow> Some c | Some x \<Rightarrow> Some x)"
      by (rule best_of_Cons_less [where d = ?d, OF True])
    ultimately show ?thesis by simp
  next
    case False
    then show ?thesis using Cons.IH best_of_Cons_ge by (simp add: Let_def not_less)
  qed
qed (simp add: best_of_def)

text \<open>The suggestion for an unknown subcommand is the first visible name or alias at the least edit distance
  (the least number of insertions, deletions and replacements of one character) from what was typed, and
  there is one exactly when some visible name is nearer than four edits and than erasing the word.\<close>

theorem cli_suggestion_closest:
  "suggestSub c attempted =
    find (\<lambda>n. edit_distance attempted n < min (length attempted) 4 \<and>
        list_all (\<lambda>x. edit_distance attempted n \<le> edit_distance attempted x) (sub_candidates c)) (sub_candidates c)"
  unfolding suggestSub_def closest_None best_of_def levenshtein_least by (rule refl)


section \<open>A checked tree is unambiguous\<close>

definition known_ok :: "'v flag list \<Rightarrow> bool" where
  "known_ok fs \<longleftrightarrow> distinct (map fl_name fs) \<and> distinct (filter (\<lambda>r. r \<noteq> 0) (map fl_short fs)) \<and>
    (\<forall>f \<in> set fs. fl_name f \<noteq> ''help'' \<and> fl_short f \<noteq> of_char (CHR ''h''))"

lemma map_filter_id_simps [simp]:
  "List.map_filter (\<lambda>x. x) [] = []" "List.map_filter (\<lambda>x. x) (None # xs) = List.map_filter (\<lambda>x. x) xs"
  "List.map_filter (\<lambda>x. x) (Some y # xs) = y # List.map_filter (\<lambda>x. x) xs"
  by (simp_all add: map_filter_def)

lemma check_flags_ok:
  "check_flags cmd longs shorts fs = Inr longs' \<Longrightarrow>
     distinct (map fl_name (List.map_filter (\<lambda>x. x) fs)) \<and>
     distinct (filter (\<lambda>r. r \<noteq> 0) (map fl_short (List.map_filter (\<lambda>x. x) fs))) \<and>
     (\<forall>f \<in> set (List.map_filter (\<lambda>x. x) fs). fl_name f \<notin> set longs \<and> (fl_short f \<noteq> 0 \<longrightarrow> fl_short f \<notin> set shorts) \<and>
        fl_name f \<noteq> ''help'' \<and> fl_short f \<noteq> of_char (CHR ''h''))"
  by (induction cmd longs shorts fs rule: check_flags.induct) (auto split: if_splits)

lemma validate_own: "validateArgsDecl c inh = None \<Longrightarrow> check_own c inh = None"
  by (auto simp: validateArgsDecl.simps [of c] split: option.splits)

lemma first_error_None: "first_error es = None \<longleftrightarrow> (\<forall>e \<in> set es. e = None)"
proof (induction es)
  case (Cons e es)
  then show ?case by (cases e) (auto simp: first_error_def)
qed (simp add: first_error_def)

lemma validate_sub:
  assumes "validateArgsDecl c inh = None" "s \<in> set (subs_of c)"
  shows "validateArgsDecl s (inh @ flags_of c) = None"
proof -
  have "first_error (map (\<lambda>s. validateArgsDecl s (inh @ flags_of c)) (subs_of c)) = None"
    using assms(1) by (auto simp: validateArgsDecl.simps [of c] split: option.splits)
  then show ?thesis using assms(2) by (auto simp: first_error_None)
qed

lemma validate_known:
  assumes "validateArgsDecl c inh = None" "known_ok inh"
  shows "known_ok (inh @ flags_of c)"
proof -
  obtain l where "check_flags (c_Name c) (map fl_name inh) (filter (\<lambda>r. r \<noteq> 0) (map fl_short inh)) (c_Flags c) = Inr l"
    using validate_own [OF assms(1)] by (auto simp: check_own_def split: sum.splits)
  from check_flags_ok [OF this] show ?thesis
    using assms(2) by (auto simp: known_ok_def flags_of_def) (metis imageI)+
qed

lemma check_names_ok:
  "check_names cmd seen ns = Inr seen' \<Longrightarrow> distinct ns \<and> set ns \<inter> set seen = {} \<and> set seen' = set seen \<union> set ns"
  by (induction cmd seen ns rule: check_names.induct) (auto split: if_splits)

definition all_names :: "('v, 'h) command \<Rightarrow> string list" where
  "all_names s = c_Name s # c_Aliases s"

lemma check_subs_ok:
  "check_subs cmd seen ss = None \<Longrightarrow>
     distinct (concat (map all_names (List.map_filter (\<lambda>x. x) ss))) \<and>
     set (concat (map all_names (List.map_filter (\<lambda>x. x) ss))) \<inter> set seen = {}"
proof (induction cmd seen ss rule: check_subs.induct)
  case (3 cmd seen s ss)
  obtain seen' where n: "check_names cmd seen (all_names s) = Inr seen'" "check_subs cmd seen' ss = None"
    using "3.prems" by (auto simp: all_names_def split: sum.splits simp del: check_names.simps)
  note c = check_names_ok [OF n(1)]
  have "distinct (concat (map all_names (List.map_filter (\<lambda>x. x) ss))) \<and>
     set (concat (map all_names (List.map_filter (\<lambda>x. x) ss))) \<inter> set seen' = {}"
    by (rule "3.IH" [OF n(1) [unfolded all_names_def] n(2)])
  then show ?case using c by auto
qed auto

lemma validate_names: "validateArgsDecl c inh = None \<Longrightarrow> distinct (concat (map all_names (subs_of c)))"
proof -
  assume "validateArgsDecl c inh = None"
  then have "check_subs (c_Name c) [] (c_Subcommands c) = None"
    using validate_own [of c inh] by (auto simp: check_own_def split: sum.splits option.splits if_splits)
  from check_subs_ok [OF this] show ?thesis by (simp add: subs_of_def)
qed

lemma findSub_valid:
  assumes "validateArgsDecl c inh = None" "s \<in> set (subs_of c)" "n \<in> set (all_names s)"
  shows "findSub c n = Some s"
proof -
  have d: "distinct (concat (map all_names (subs_of c)))" by (rule validate_names [OF assms(1)])
  have "find (\<lambda>s. n \<in> set (all_names s)) xs = Some s"
    if "distinct (concat (map all_names xs))" "s \<in> set xs" for xs
    using that assms(3) by (induction xs) auto
  from this [OF d assms(2)] show ?thesis unfolding findSub_def all_names_def by (simp add: eq_commute)
qed

lemma findFlagLong_known: "known_ok fs \<Longrightarrow> f \<in> set fs \<Longrightarrow> findFlagLong fs (fl_name f) = Some f"
proof -
  have "distinct (map fl_name fs) \<Longrightarrow> f \<in> set fs \<Longrightarrow> find (\<lambda>g. fl_name g = fl_name f) fs = Some f"
    by (induction fs) (auto simp: image_iff)
  then show "known_ok fs \<Longrightarrow> f \<in> set fs \<Longrightarrow> ?thesis" by (simp add: known_ok_def findFlagLong_def)
qed


section \<open>A printed invocation parses back\<close>

fun sub_chain :: "('v, 'h) command \<Rightarrow> ('v, 'h) command list \<Rightarrow> bool" where
  "sub_chain c [] \<longleftrightarrow> True"
| "sub_chain c (s # ss) \<longleftrightarrow> s \<in> set (subs_of c) \<and> sub_chain s ss"

fun apply_flags :: "('v flag \<times> string) list \<Rightarrow> 'v cli_values \<Rightarrow> cli_error + 'v cli_values" where
  "apply_flags [] v = Inr v"
| "apply_flags ((f, s) # fs) v = (case flagApplyString f v s of Inl e \<Rightarrow> Inl e | Inr v' \<Rightarrow> apply_flags fs v')"

definition print_flag :: "'v flag \<times> string \<Rightarrow> string" where
  "print_flag fs = ''--'' @ fl_name (fst fs) @ ''='' @ snd fs"

definition print_invocation :: "('v, 'h) command list \<Rightarrow> ('v flag \<times> string) list \<Rightarrow> string list \<Rightarrow> string list" where
  "print_invocation cs fs pos = map c_Name cs @ map print_flag fs @ ''--'' # pos"

definition word_name :: "string \<Rightarrow> bool" where
  "word_name n \<longleftrightarrow> \<not> isFlagToken n \<and> n \<noteq> ''--''"

definition state_valid :: "('v, 'h) parse_state \<Rightarrow> bool" where
  "state_valid st \<longleftrightarrow> (\<exists>inh. ps_known st = inh @ flags_of (ps_cmd st) \<and> validateArgsDecl (ps_cmd st) inh = None \<and> known_ok inh)"

lemma state_valid_start: "validateArgsDecl root [] = None \<Longrightarrow> state_valid (parse_start root)"
  by (auto simp: state_valid_def parse_start_def known_ok_def)

lemma state_valid_known: "state_valid st \<Longrightarrow> known_ok (ps_known st)"
  by (auto simp: state_valid_def intro: validate_known)

lemma not_builtin:
  "\<not> isFlagToken n \<Longrightarrow> n \<noteq> ''--help'' \<and> n \<noteq> ''-h'' \<and> n \<noteq> ''--version''"
  by (auto simp: isFlagToken_def)

lemma parse_names:
  "sub_chain (ps_cmd st) cs \<Longrightarrow> state_valid st \<Longrightarrow> \<not> ps_started st \<Longrightarrow> (\<forall>c \<in> set cs. word_name (c_Name c)) \<Longrightarrow>
     \<exists>st'. parse_loop (map c_Name cs @ rest) st = parse_loop rest st' \<and> state_valid st' \<and>
       st' = st\<lparr>ps_cmd := last (ps_cmd st # cs), ps_path := ps_path st @ cs, ps_known := ps_known st @ concat (map flags_of cs)\<rparr>"
proof (induction cs arbitrary: st)
  case (Cons c cs)
  let ?st = "st\<lparr>ps_cmd := c, ps_path := ps_path st @ [c], ps_known := ps_known st @ flags_of c\<rparr>"
  obtain inh where v: "ps_known st = inh @ flags_of (ps_cmd st)" "validateArgsDecl (ps_cmd st) inh = None" "known_ok inh"
    using Cons.prems(2) by (auto simp: state_valid_def)
  have s: "c \<in> set (subs_of (ps_cmd st))" using Cons.prems(1) by simp
  have "findSub (ps_cmd st) (c_Name c) = Some c" by (rule findSub_valid [OF v(2) s]) (simp add: all_names_def)
  then have "take_word (c_Name c) st = Inr ?st" using Cons.prems(3) by (simp add: take_word_def)
  then have l: "parse_loop (map c_Name (c # cs) @ rest) st = parse_loop (map c_Name cs @ rest) ?st"
    using Cons.prems(4) not_builtin [of "c_Name c"] by (simp add: word_name_def)
  have "state_valid ?st" using validate_sub [OF v(2) s] validate_known [OF v(2,3)] v(1) by (auto simp: state_valid_def)
  moreover have "sub_chain (ps_cmd ?st) cs" "\<not> ps_started ?st" "\<forall>c \<in> set cs. word_name (c_Name c)" using Cons.prems by auto
  ultimately obtain st' where "parse_loop (map c_Name cs @ rest) ?st = parse_loop rest st'" "state_valid st'"
    "st' = ?st\<lparr>ps_cmd := last (ps_cmd ?st # cs), ps_path := ps_path ?st @ cs, ps_known := ps_known ?st @ concat (map flags_of cs)\<rparr>"
    using Cons.IH [of ?st] by blast
  then show ?case using l by (intro exI [of _ st']) simp
qed simp

lemma print_flag_token: "isFlagToken (print_flag fs)" "print_flag fs \<noteq> ''--''" "isLong (print_flag fs)"
  by (auto simp: print_flag_def isFlagToken_def isLong_def)

lemma print_flag_builtin: "print_flag fs \<noteq> ''--help'' \<and> print_flag fs \<noteq> ''-h'' \<and> print_flag fs \<noteq> ''--version''"
proof -
  have "CHR ''='' \<in> set (print_flag fs)" by (simp add: print_flag_def)
  then show ?thesis by auto
qed

lemma print_flag_parts: "CHR ''='' \<notin> set (fl_name f) \<Longrightarrow> flag_parts (print_flag (f, s)) = (fl_name f, Some s)"
  using cut_join [of "CHR ''=''" "fl_name f" s] print_flag_token(3) [of "(f, s)"]
  by (simp add: flag_parts_def) (simp add: print_flag_def)

lemma applyFlagToken_print:
  assumes "known_ok known" "f \<in> set known" "CHR ''='' \<notin> set (fl_name f)"
  shows "applyFlagToken (print_flag (f, s)) nx known v = (0, flagApplyString f v s)"
  using print_flag_parts [OF assms(3), of s] findFlagLong_known [OF assms(1,2)] print_flag_token(3) [of "(f, s)"]
  by (simp add: applyFlagToken_def flag_named_def)

lemma parse_flags:
  "state_valid st \<Longrightarrow> \<not> ps_locked st \<Longrightarrow> (\<forall>(f, s) \<in> set fs. f \<in> set (ps_known st) \<and> CHR ''='' \<notin> set (fl_name f)) \<Longrightarrow>
     apply_flags fs (ps_values st) = Inr v \<Longrightarrow>
     parse_loop (map print_flag fs @ rest) st = parse_loop rest (st\<lparr>ps_values := v\<rparr>)"
proof (induction fs arbitrary: st)
  case (Cons fs1 fs)
  obtain f s where f: "fs1 = (f, s)" by (cases fs1)
  obtain v1 where v1: "flagApplyString f (ps_values st) s = Inr v1" "apply_flags fs v1 = Inr v"
    using Cons.prems(4) f by (auto split: sum.splits)
  have a: "applyFlagToken (print_flag (f, s)) nx (ps_known st) (ps_values st) = (0, Inr v1)" for nx
    using applyFlagToken_print [OF state_valid_known [OF Cons.prems(1)]] Cons.prems(3) f v1(1) by auto
  have "state_valid (st\<lparr>ps_values := v1\<rparr>)" using Cons.prems(1) by (simp add: state_valid_def)
  then have "parse_loop (map print_flag fs @ rest) (st\<lparr>ps_values := v1\<rparr>) = parse_loop rest (st\<lparr>ps_values := v\<rparr>)"
    using Cons.IH [of "st\<lparr>ps_values := v1\<rparr>"] Cons.prems(2,3) v1(2) by auto
  then show ?case
    using a print_flag_token [of "(f, s)"] print_flag_builtin [of "(f, s)"] Cons.prems(2) by (simp add: f)
qed auto

text \<open>C21: Printing and parsing an invocation. In a command tree the parser accepts, writing the names of a chain of
  subcommands, flags of that chain as \<open>--name=value\<close>, the separator and any words parses to that command, with
  exactly these flags applied in order, all flags of the chain known, and the words untouched as
  positionals, whatever they look like.\<close>

theorem cli_print_parse:
  assumes "validateArgsDecl root [] = None" "sub_chain root cs"
    and "\<forall>c \<in> set cs. word_name (c_Name c)"
    and "\<forall>(f, s) \<in> set fs. f \<in> set (concat (map flags_of (root # cs))) \<and> CHR ''='' \<notin> set (fl_name f)"
    and "apply_flags fs Map.empty = Inr v"
  shows "parse_loop (print_invocation cs fs pos) (parse_start root) =
    (Tokens_done, \<lparr>ps_cmd = last (root # cs), ps_path = root # cs, ps_known = concat (map flags_of (root # cs)), ps_values = v,
       ps_positional = pos, ps_started = False, ps_locked = False\<rparr>)"
proof -
  have "sub_chain (ps_cmd (parse_start root)) cs" "\<not> ps_started (parse_start root)"
    using assms(2) by (auto simp: parse_start_def)
  from parse_names [OF this(1) state_valid_start [OF assms(1)] this(2) assms(3), of "map print_flag fs @ ''--'' # pos"]
  obtain st where st: "parse_loop (print_invocation cs fs pos) (parse_start root) = parse_loop (map print_flag fs @ ''--'' # pos) st"
    "state_valid st" "st = \<lparr>ps_cmd = last (root # cs), ps_path = root # cs, ps_known = concat (map flags_of (root # cs)), ps_values = Map.empty,
       ps_positional = [], ps_started = False, ps_locked = False\<rparr>"
    by (auto simp: print_invocation_def parse_start_def)
  have "parse_loop (map print_flag fs @ ''--'' # pos) st = parse_loop (''--'' # pos) (st\<lparr>ps_values := v\<rparr>)"
    by (rule parse_flags [OF st(2)]) (use assms(4,5) st(3) in auto)
  then show ?thesis using st by simp
qed


definition cli_sample :: "(cli_val, nat) command" where
  "cli_sample = Command ''app'' ''1.0'' [] [Some ((BoolFlag 0 ''verbose'')\<lparr>fl_short := of_char (CHR ''v'')\<rparr>)] []
     [Some (Command ''deploy'' [] [''d''] [Some ((IntFlag 1 ''count'')\<lparr>fl_env := ''COUNT''\<rparr>), Some (StringSliceFlag 2 ''tag'')]
        [Some ((StringSliceArg 3 ''hosts'')\<lparr>ar_variadic := True\<rparr>)] [] [] (Some 7) False False)]
     [] None False False"

definition cli_deploy :: "(cli_val, nat) command" where
  "cli_deploy = hd (subs_of cli_sample)"

definition cli_flags :: "(cli_val flag \<times> string) list" where
  "cli_flags = [(hd (flags_of cli_deploy), ''3''), (flags_of cli_deploy ! 1, ''a=b''), (hd (flags_of cli_sample), ''false'')]"

lemma cli_sample_valid: "validateArgsDecl cli_sample [] = None"
  by code_simp

lemma cli_flags_apply:
  "apply_flags cli_flags Map.empty = Inr [KFlag 1 \<mapsto> VInt 3, KFlag 2 \<mapsto> VStrings [''a=b''], KFlag 0 \<mapsto> VBool False]"
  by (simp add: cli_flags_def cli_deploy_def cli_sample_def subs_of_def flags_of_def flagApplyString_def IntFlag_def StringSliceFlag_def
      BoolFlag_def CustomFlag_def atoi_def parseBool_def parseInt_def char_digit_def int64_def minInt64_def maxInt64_def less_eq_char_def)

theorem cli_print_parse_witness:
  "fst (parse_loop (print_invocation [cli_deploy] cli_flags [''-x'', ''--'', ''host'']) (parse_start cli_sample)) = Tokens_done \<and>
   ps_positional (snd (parse_loop (print_invocation [cli_deploy] cli_flags [''-x'', ''--'', ''host'']) (parse_start cli_sample))) = [''-x'', ''--'', ''host''] \<and>
   print_invocation [cli_deploy] cli_flags [''-x'', ''--'', ''host''] =
     [''deploy'', ''--count=3'', ''--tag=a=b'', ''--verbose=false'', ''--'', ''-x'', ''--'', ''host'']"
proof -
  have "sub_chain cli_sample [cli_deploy]" "\<forall>c \<in> set [cli_deploy]. word_name (c_Name c)"
    "\<forall>(f, s) \<in> set cli_flags. f \<in> set (concat (map flags_of (cli_sample # [cli_deploy]))) \<and> CHR ''='' \<notin> set (fl_name f)"
    by (simp_all add: cli_flags_def cli_deploy_def cli_sample_def subs_of_def flags_of_def word_name_def isFlagToken_def
        IntFlag_def StringSliceFlag_def BoolFlag_def CustomFlag_def)
  from cli_print_parse [OF cli_sample_valid this cli_flags_apply, of "[''-x'', ''--'', ''host'']"]
  show ?thesis by (simp add: print_invocation_def print_flag_def cli_flags_def cli_deploy_def cli_sample_def subs_of_def flags_of_def
        IntFlag_def StringSliceFlag_def BoolFlag_def CustomFlag_def)
qed


section \<open>Values have the declared types\<close>

definition flag_typed :: "(accessor \<Rightarrow> 'v set) \<Rightarrow> 'v flag \<Rightarrow> bool" where
  "flag_typed ty f \<longleftrightarrow> (\<forall>s x. fl_parse f s = Inr x \<longrightarrow> x \<in> ty (KFlag (fl_id f))) \<and>
    (\<forall>p s x. p \<in> ty (KFlag (fl_id f)) \<longrightarrow> fl_appendOne f p s = Inr x \<longrightarrow> x \<in> ty (KFlag (fl_id f)))"

definition arg_typed :: "(accessor \<Rightarrow> 'v set) \<Rightarrow> 'v arg \<Rightarrow> bool" where
  "arg_typed ty a \<longleftrightarrow> (\<forall>s x. ar_parse a s = Inr x \<longrightarrow> x \<in> ty (KArg (ar_id a))) \<and>
    (\<forall>p s x. p \<in> ty (KArg (ar_id a)) \<longrightarrow> ar_appendOne a p s = Inr x \<longrightarrow> x \<in> ty (KArg (ar_id a)))"

inductive in_tree :: "('v, 'h) command \<Rightarrow> ('v, 'h) command \<Rightarrow> bool" for root where
  in_tree_root: "in_tree root root"
| in_tree_sub: "in_tree root c \<Longrightarrow> s \<in> set (subs_of c) \<Longrightarrow> in_tree root s"

definition tree_typed :: "(accessor \<Rightarrow> 'v set) \<Rightarrow> ('v, 'h) command \<Rightarrow> bool" where
  "tree_typed ty root \<longleftrightarrow>
    (\<forall>c. in_tree root c \<longrightarrow> (\<forall>f \<in> set (flags_of c). flag_typed ty f) \<and> (\<forall>a \<in> set (args_of c). arg_typed ty a))"

definition values_typed :: "(accessor \<Rightarrow> 'v set) \<Rightarrow> 'v cli_values \<Rightarrow> bool" where
  "values_typed ty v \<longleftrightarrow> (\<forall>k x. v k = Some x \<longrightarrow> x \<in> ty k)"

lemma flagApplyString_typed:
  "flag_typed ty f \<Longrightarrow> values_typed ty v \<Longrightarrow> flagApplyString f v s = Inr v' \<Longrightarrow> values_typed ty v'"
  by (auto simp: flagApplyString_def flag_typed_def values_typed_def split: sum.splits if_splits option.splits) blast

lemma argApplyString_typed:
  "arg_typed ty a \<Longrightarrow> values_typed ty v \<Longrightarrow> argApplyString a v s = Inr v' \<Longrightarrow> values_typed ty v'"
  by (auto simp: argApplyString_def arg_typed_def values_typed_def split: sum.splits if_splits option.splits) blast

lemma flag_named_known: "flag_named flags tok = Inr f \<Longrightarrow> f \<in> set flags"
  by (auto simp: flag_named_def findFlagLong_def findFlagShort_def find_Some_iff Let_def split: if_splits option.splits)

lemma applyFlagToken_typed:
  assumes "applyFlagToken tok nx flags v = (n, Inr v')" "\<forall>f \<in> set flags. flag_typed ty f" "values_typed ty v"
  shows "values_typed ty v'"
proof -
  obtain f s where "flag_named flags tok = Inr f" "flagApplyString f v s = Inr v'"
    using assms(1) by (auto simp: applyFlagToken_def split: sum.splits if_splits option.splits)
  then show ?thesis using flag_named_known assms(2,3) flagApplyString_typed by blast
qed

definition state_typed :: "(accessor \<Rightarrow> 'v set) \<Rightarrow> ('v, 'h) command \<Rightarrow> ('v, 'h) parse_state \<Rightarrow> bool" where
  "state_typed ty root st \<longleftrightarrow> in_tree root (ps_cmd st) \<and> (\<forall>f \<in> set (ps_known st). flag_typed ty f) \<and> values_typed ty (ps_values st)"

lemma take_word_cases:
  assumes "take_word tok st = Inr st'"
  obtains (descend) sub where "\<not> ps_started st" "findSub (ps_cmd st) tok = Some sub" "sub \<in> set (subs_of (ps_cmd st))"
      "st' = st\<lparr>ps_cmd := sub, ps_path := ps_path st @ [sub], ps_known := ps_known st @ flags_of sub\<rparr>"
  | (positional) "ps_started st \<or> findSub (ps_cmd st) tok = None"
      "st' = st\<lparr>ps_started := True, ps_locked := ps_locked st \<or> commandHasVariadic (ps_cmd st), ps_positional := ps_positional st @ [tok]\<rparr>"
proof (cases "if ps_started st then None else findSub (ps_cmd st) tok")
  case None
  then show ?thesis using assms positional by (auto simp: take_word_def split: if_splits)
next
  case (Some sub)
  then have "sub \<in> set (subs_of (ps_cmd st))" by (auto simp: findSub_def find_Some_iff split: if_splits)
  then show ?thesis using Some assms descend by (auto simp: take_word_def split: if_splits)
qed

lemma take_word_typed:
  assumes "tree_typed ty root" "state_typed ty root st" "take_word tok st = Inr st'"
  shows "state_typed ty root st'"
  using assms(3)
proof (cases rule: take_word_cases)
  case (descend sub)
  then have "in_tree root sub" using assms(2) by (auto simp: state_typed_def intro: in_tree_sub)
  then show ?thesis using assms(1,2) descend by (auto simp: state_typed_def tree_typed_def)
qed (use assms(2) in \<open>simp add: state_typed_def\<close>)

text \<open>Induction over the parser's steps.\<close>

definition builtin :: "string \<Rightarrow> ('v, 'h) parse_state \<Rightarrow> bool" where
  "builtin tok st \<longleftrightarrow> tok = ''--'' \<or> tok = ''--help'' \<or> tok = ''-h'' \<or> tok = ''--version'' \<and> c_Version (ps_cmd st) \<noteq> []"

definition peek :: "string list \<Rightarrow> string option" where
  "peek rest = (case rest of [] \<Rightarrow> None | n # _ \<Rightarrow> Some n)"

lemma parse_loop_flag:
  "\<not> builtin tok st \<Longrightarrow> \<not> ps_locked st \<Longrightarrow> isFlagToken tok \<Longrightarrow>
     parse_loop (tok # rest) st =
       (case applyFlagToken tok (peek rest) (ps_known st) (ps_values st) of
          (n, Inl e) \<Rightarrow> (Parse_failed e, st) | (n, Inr vs) \<Rightarrow> parse_loop (drop n rest) (st\<lparr>ps_values := vs\<rparr>))"
  by (auto simp: builtin_def peek_def)

lemma parse_loop_word:
  "\<not> builtin tok st \<Longrightarrow> ps_locked st \<or> \<not> isFlagToken tok \<Longrightarrow>
     parse_loop (tok # rest) st = (case take_word tok st of Inl e \<Rightarrow> (Parse_failed e, st) | Inr st' \<Rightarrow> parse_loop rest st')"
  by (auto simp: builtin_def)

lemma parse_loop_steps [consumes 0, case_names Nil Builtin Flag Flag_failed Word Word_failed]:
  assumes "\<And>st. P [] st"
    and "\<And>tok rest st. builtin tok st \<Longrightarrow> P (tok # rest) st"
    and "\<And>tok rest st n v. \<not> builtin tok st \<Longrightarrow> \<not> ps_locked st \<Longrightarrow> isFlagToken tok \<Longrightarrow>
      applyFlagToken tok (peek rest) (ps_known st) (ps_values st) = (n, Inr v) \<Longrightarrow>
      parse_loop (tok # rest) st = parse_loop (drop n rest) (st\<lparr>ps_values := v\<rparr>) \<Longrightarrow>
      P (drop n rest) (st\<lparr>ps_values := v\<rparr>) \<Longrightarrow> P (tok # rest) st"
    and "\<And>tok rest st e. parse_loop (tok # rest) st = (Parse_failed e, st) \<Longrightarrow> P (tok # rest) st"
    and "\<And>tok rest st st'. \<not> builtin tok st \<Longrightarrow> ps_locked st \<or> \<not> isFlagToken tok \<Longrightarrow> take_word tok st = Inr st' \<Longrightarrow>
      parse_loop (tok # rest) st = parse_loop rest st' \<Longrightarrow> P rest st' \<Longrightarrow> P (tok # rest) st"
  shows "P toks st"
proof (induction toks arbitrary: st rule: measure_induct_rule [of length])
  case (less toks)
  show ?case
  proof (cases toks)
    case (Cons tok rest)
    have len: "length (drop n rest) < length toks" "length rest < length toks" for n using Cons by auto
    consider "builtin tok st" | "\<not> builtin tok st" "\<not> ps_locked st" "isFlagToken tok" | "\<not> builtin tok st" "ps_locked st \<or> \<not> isFlagToken tok"
      by blast
    then show ?thesis
    proof cases
      case 2
      obtain n r where a: "applyFlagToken tok (peek rest) (ps_known st) (ps_values st) = (n, r)" by (rule prod.exhaust)
      note l = parse_loop_flag [OF 2, of rest, unfolded a]
      show ?thesis
      proof (cases r)
        case (Inr v)
        show ?thesis unfolding Cons by (rule assms(3) [OF 2]) (use a l Inr less.IH [OF len(1)] in auto)
      qed (use l assms(4) Cons in auto)
    next
      case 3
      note l = parse_loop_word [OF 3, of rest]
      show ?thesis
      proof (cases "take_word tok st")
        case (Inr st')
        show ?thesis unfolding Cons by (rule assms(5) [OF 3 Inr]) (use l Inr less.IH [OF len(2)] in auto)
      qed (use l assms(4) Cons in auto)
    qed (use assms(2) Cons in auto)
  qed (use assms(1) in auto)
qed

lemma parse_loop_builtin: "builtin tok st \<Longrightarrow> ps_cmd (snd (parse_loop (tok # rest) st)) = ps_cmd st \<and>
    ps_known (snd (parse_loop (tok # rest) st)) = ps_known st \<and> ps_values (snd (parse_loop (tok # rest) st)) = ps_values st"
  by (auto simp: builtin_def)

lemma parse_loop_typed:
  assumes "tree_typed ty root"
  shows "state_typed ty root st \<Longrightarrow> state_typed ty root (snd (parse_loop toks st))"
proof (induction toks st rule: parse_loop_steps)
  case (Builtin tok rest st)
  then show ?case using parse_loop_builtin [of tok st rest] by (simp add: state_typed_def)
next
  case (Flag tok rest st n v)
  then have "values_typed ty v" using applyFlagToken_typed unfolding state_typed_def by blast
  then have "state_typed ty root (st\<lparr>ps_values := v\<rparr>)" using Flag.prems by (simp add: state_typed_def)
  then show ?case using Flag.IH unfolding Flag.hyps(5) by blast
next
  case (Word tok rest st st')
  then show ?case using take_word_typed [OF assms] by (simp only:)
qed simp_all

lemma apply_envs_typed:
  "\<forall>f \<in> set fs. flag_typed ty f \<Longrightarrow> values_typed ty v \<Longrightarrow> values_typed ty (snd (apply_envs env fs v))"
proof (induction env fs v rule: apply_envs.induct)
  case (2 env f fs v)
  show ?case
  proof (cases "flagApplyEnv env f v")
    case (Inr v')
    then have "values_typed ty v'" using "2.prems" flagApplyString_typed [of ty f v]
      by (auto simp: flagApplyEnv_def split: if_splits option.splits)
    then show ?thesis using "2.IH" [OF Inr] "2.prems" Inr by simp
  qed (use "2.prems" in simp)
qed simp

lemma bind_variadic_typed: "arg_typed ty a \<Longrightarrow> values_typed ty v \<Longrightarrow> values_typed ty (snd (bind_variadic a ss v))"
proof (induction a ss v rule: bind_variadic.induct)
  case (2 a s ss v)
  show ?case
  proof (cases "argApplyString a v s")
    case (Inr v')
    then show ?thesis using "2.IH" [OF Inr] "2.prems" argApplyString_typed [OF "2.prems" Inr] by simp
  qed (use "2.prems" in simp)
qed simp

lemma bindPositionals_typed:
  "\<forall>a \<in> set as. arg_typed ty a \<Longrightarrow> values_typed ty v \<Longrightarrow> values_typed ty (snd (bindPositionals as ss v))"
proof (induction as ss v rule: bindPositionals.induct)
  case (3 a as ss v)
  have a: "arg_typed ty a" "\<forall>a \<in> set as. arg_typed ty a" using "3.prems" by auto
  show ?case
  proof (cases "ar_variadic a")
    case True
    then show ?thesis using bind_variadic_typed [OF a(1) "3.prems"(2), of ss] by (auto split: option.splits prod.splits)
  next
    case False
    show ?thesis
    proof (cases ss)
      case Nil
      then show ?thesis using "3.IH"(1) [OF False Nil] False a "3.prems" by auto
    next
      case (Cons s ss')
      show ?thesis
      proof (cases "argApplyString a v s")
        case (Inr v')
        then show ?thesis using "3.IH"(2) [OF False Cons Inr a(2) argApplyString_typed [OF a(1) "3.prems"(2) Inr]] False Cons by simp
      qed (use False Cons "3.prems" in simp)
    qed
  qed
qed auto


lemma parse_finish_typed:
  assumes "tree_typed ty root" "state_typed ty root st"
  shows "values_typed ty (snd (parse_finish env st))"
proof -
  have f: "\<forall>f \<in> set (ps_known st). flag_typed ty f" and v: "values_typed ty (ps_values st)"
    and a: "\<forall>a \<in> set (args_of (ps_cmd st)). arg_typed ty a"
    using assms by (auto simp: state_typed_def tree_typed_def)
  define r where "r = (if c_injected (ps_cmd st) then (None, ps_values st)
        else let (e, v) = apply_envs env (ps_known st) (ps_values st) in
          (case e of Some x \<Rightarrow> Some x | None \<Rightarrow> first_error (map (check_flag v) (ps_known st)), v))"
  have "values_typed ty (snd r)" using v apply_envs_typed [OF f v, of env] by (auto simp: r_def Let_def split: prod.splits)
  then show ?thesis
    using bindPositionals_typed [OF a, of "snd r" "ps_positional st"]
    unfolding parse_finish_def r_def [symmetric] by (auto simp: Let_def split: prod.splits option.splits)
qed

text \<open>C32: Type safety of the accessors. If every declared flag and argument parses and appends into the type it is
  declared at, then whatever the tokens and the environment, also on errors, every value recorded under an
  accessor has the accessor's type, so the type assertions of \<open>Get\<close>, \<open>Lookup\<close> and the validators cannot fail.\<close>

theorem cli_values_typed:
  assumes "tree_typed ty root" "parseArgs root toks env = (res, known, e)" "pr_values res k = Some x"
  shows "x \<in> ty k"
proof -
  have s: "state_typed ty root (parse_start root)"
    using assms(1) in_tree_root [of root] by (auto simp: state_typed_def parse_start_def values_typed_def tree_typed_def)
  obtain stop st where l: "parse_loop toks (parse_start root) = (stop, st)" by (rule prod.exhaust)
  have st: "state_typed ty root st" using parse_loop_typed [OF assms(1) s, of toks] l by simp
  have "pr_values res = Map.empty \<or> pr_values res = ps_values st \<or> pr_values res = snd (parse_finish env st)"
    using assms(2) l by (auto simp: parseArgs_def result_of_def parse_start_def Let_def split: option.splits parse_stop.splits prod.splits)
  then have "values_typed ty (pr_values res)"
    using st parse_finish_typed [OF assms(1) st, of env] by (auto simp: state_typed_def values_typed_def)
  then show ?thesis using assms(3) by (auto simp: values_typed_def)
qed

lemma map_sum_Inr: "map_sum f g r = Inr x \<Longrightarrow> (\<And>y. r = Inr y \<Longrightarrow> x = g y \<Longrightarrow> P) \<Longrightarrow> P"
  by (cases r) auto

text \<open>The declared constructors are typed.\<close>

lemma constructors_typed:
  "ty (KFlag i) = range VString \<Longrightarrow> flag_typed ty (StringFlag i n)"
  "ty (KFlag i) = range VInt \<Longrightarrow> flag_typed ty (IntFlag i n)"
  "ty (KFlag i) = range VBool \<Longrightarrow> flag_typed ty (BoolFlag i n)"
  "ty (KFlag i) = range VStrings \<Longrightarrow> flag_typed ty (StringSliceFlag i n)"
  "ty (KFlag i) = range VInts \<Longrightarrow> flag_typed ty (IntSliceFlag i n)"
  "ty (KArg i) = range VString \<Longrightarrow> arg_typed ty (StringArg i n)"
  "ty (KArg i) = range VStrings \<Longrightarrow> arg_typed ty (StringSliceArg i n)"
  by (auto simp: flag_typed_def arg_typed_def StringFlag_def IntFlag_def BoolFlag_def StringSliceFlag_def IntSliceFlag_def
      CustomFlag_def StringArg_def StringSliceArg_def elim!: map_sum_Inr)

lemma flag_typed_update [simp]:
  "flag_typed ty (f\<lparr>fl_short := r\<rparr>) = flag_typed ty f" "flag_typed ty (f\<lparr>fl_env := s\<rparr>) = flag_typed ty f"
  "flag_typed ty (f\<lparr>fl_required := b\<rparr>) = flag_typed ty f" "flag_typed ty (f\<lparr>fl_validate := c\<rparr>) = flag_typed ty f"
  "arg_typed ty (a\<lparr>ar_required := b\<rparr>) = arg_typed ty a" "arg_typed ty (a\<lparr>ar_variadic := b\<rparr>) = arg_typed ty a"
  by (simp_all add: flag_typed_def arg_typed_def)

definition sample_types :: "accessor \<Rightarrow> cli_val set" where
  "sample_types k = (case k of KFlag 0 \<Rightarrow> range VBool | KFlag (Suc 0) \<Rightarrow> range VInt | _ \<Rightarrow> range VStrings)"

lemma cli_sample_tree: "in_tree cli_sample c \<Longrightarrow> c = cli_sample \<or> c = cli_deploy"
  by (induction rule: in_tree.induct) (auto simp: cli_deploy_def cli_sample_def subs_of_def)

lemma cli_sample_typed: "tree_typed sample_types cli_sample"
proof -
  have "(\<forall>f \<in> set (flags_of c). flag_typed sample_types f) \<and> (\<forall>a \<in> set (args_of c). arg_typed sample_types a)"
    if "c = cli_sample \<or> c = cli_deploy" for c
    using that
    by (auto simp: cli_deploy_def cli_sample_def subs_of_def flags_of_def args_of_def sample_types_def intro!: constructors_typed)
  then show ?thesis using cli_sample_tree unfolding tree_typed_def by blast
qed

theorem cli_values_typed_witness:
  "pr_values (fst (parseArgs cli_sample [''d'', ''--count'', ''12''] Map.empty)) (KFlag 1) = Some (VInt 12) \<and>
   VInt 12 \<in> sample_types (KFlag 1)"
proof -
  have v: "pr_values (fst (parseArgs cli_sample [''d'', ''--count'', ''12''] Map.empty)) (KFlag 1) = Some (VInt 12)"
    by code_simp
  then show ?thesis using cli_values_typed [OF cli_sample_typed _ v] by (metis prod.collapse)
qed

section \<open>The environment fills what the command line left open\<close>

lemma flagApplyEnv_other:
  "flagApplyEnv env f v = Inr v' \<Longrightarrow> k \<noteq> KFlag (fl_id f) \<Longrightarrow> v' k = v k"
  by (auto simp: flagApplyEnv_def flagApplyString_def split: if_splits option.splits sum.splits)

definition env_value :: "(string \<rightharpoonup> string) \<Rightarrow> 'v flag \<Rightarrow> 'v option" where
  "env_value env f = (if fl_env f = [] then None else case env (fl_env f) of None \<Rightarrow> None
     | Some s \<Rightarrow> (case fl_parse f s of Inl e \<Rightarrow> None | Inr x \<Rightarrow> Some x))"

lemma flagApplyEnv_own:
  "flagApplyEnv env f v = Inr v' \<Longrightarrow>
     v' (KFlag (fl_id f)) = (case v (KFlag (fl_id f)) of Some x \<Rightarrow> Some x | None \<Rightarrow> env_value env f)"
  by (auto simp: flagApplyEnv_def flagApplyString_def env_value_def hasValue_def split: if_splits option.splits sum.splits)

lemma apply_envs_other: "apply_envs env fs v = (None, v') \<Longrightarrow> k \<notin> (KFlag \<circ> fl_id) ` set fs \<Longrightarrow> v' k = v k"
proof (induction env fs v rule: apply_envs.induct)
  case (2 env f fs v)
  then obtain v1 where "flagApplyEnv env f v = Inr v1" "apply_envs env fs v1 = (None, v')" by (auto split: sum.splits)
  then show ?case using "2.IH" [of v1] flagApplyEnv_other [of env f v v1 k] "2.prems"(2) by auto
qed simp

lemma apply_envs_own:
  "apply_envs env fs v = (None, v') \<Longrightarrow> distinct (map fl_id fs) \<Longrightarrow> f \<in> set fs \<Longrightarrow>
     v' (KFlag (fl_id f)) = (case v (KFlag (fl_id f)) of Some x \<Rightarrow> Some x | None \<Rightarrow> env_value env f)"
proof (induction env fs v rule: apply_envs.induct)
  case (2 env g fs v)
  then obtain v1 where v1: "flagApplyEnv env g v = Inr v1" "apply_envs env fs v1 = (None, v')" by (auto split: sum.splits)
  show ?case
  proof (cases "f = g")
    case True
    then have "KFlag (fl_id f) \<notin> (KFlag \<circ> fl_id) ` set fs" using "2.prems"(2) by auto
    then show ?thesis using apply_envs_other [OF v1(2)] flagApplyEnv_own [OF v1(1)] True by auto
  next
    case False
    then have f: "f \<in> set fs" using "2.prems"(3) by simp
    then have "fl_id f \<noteq> fl_id g" using "2.prems"(2) by (metis distinct.simps(2) image_eqI list.simps(9) set_map)
    with f show ?thesis using "2.IH" [OF v1(1,2)] "2.prems"(2) flagApplyEnv_other [OF v1(1), of "KFlag (fl_id f)"] by simp
  qed
qed simp

lemma argApplyString_flag: "argApplyString a v s = Inr v' \<Longrightarrow> v' (KFlag i) = v (KFlag i)"
  by (auto simp: argApplyString_def split: sum.splits)

lemma bind_variadic_flag: "snd (bind_variadic a ss v) (KFlag i) = v (KFlag i)"
  by (induction a ss v rule: bind_variadic.induct) (auto split: sum.splits dest: argApplyString_flag)

lemma bindPositionals_flag: "snd (bindPositionals as ss v) (KFlag i) = v (KFlag i)"
proof (induction as ss v rule: bindPositionals.induct)
  case (3 a as ss v)
  show ?case
    using bind_variadic_flag [of a ss v i] "3.IH"
    by (auto split: prod.splits option.splits list.splits sum.splits dest: argApplyString_flag)
qed auto


lemma take_word_valid:
  assumes "state_valid st" "take_word tok st = Inr st'"
  shows "state_valid st'"
  using assms(2)
proof (cases rule: take_word_cases)
  case (descend sub)
  obtain inh where v: "ps_known st = inh @ flags_of (ps_cmd st)" "validateArgsDecl (ps_cmd st) inh = None" "known_ok inh"
    using assms(1) by (auto simp: state_valid_def)
  show ?thesis using validate_sub [OF v(2) descend(3)] validate_known [OF v(2,3)] v(1) descend(4) by (auto simp: state_valid_def)
qed (use assms(1) in \<open>simp add: state_valid_def\<close>)

lemma parse_loop_valid: "state_valid st \<Longrightarrow> state_valid (snd (parse_loop toks st))"
proof (induction toks st rule: parse_loop_steps)
  case (Builtin tok rest st)
  then show ?case using parse_loop_builtin [of tok st rest] by (simp add: state_valid_def)
next
  case (Flag tok rest st n v)
  then have "state_valid (st\<lparr>ps_values := v\<rparr>)" by (simp add: state_valid_def)
  then show ?case using Flag.IH unfolding Flag.hyps(5) by blast
next
  case (Word tok rest st st')
  have "state_valid st'" by (rule take_word_valid [OF Word.prems Word.hyps(3)])
  then show ?case unfolding Word.hyps(4) by (rule Word.IH)
qed simp_all

lemma parse_finish_env:
  assumes "parse_finish env st = (None, v)" "\<not> c_injected (ps_cmd st)"
  obtains v1 where "apply_envs env (ps_known st) (ps_values st) = (None, v1)" "\<forall>f \<in> set (ps_known st). check_flag v1 f = None"
    "\<And>i. v (KFlag i) = v1 (KFlag i)"
proof -
  obtain e v1 where a: "apply_envs env (ps_known st) (ps_values st) = (e, v1)" by (rule prod.exhaust)
  have e: "e = None" "first_error (map (check_flag v1) (ps_known st)) = None"
    using assms a by (auto simp: parse_finish_def split: if_splits option.splits)
  have "v = snd (bindPositionals (args_of (ps_cmd st)) (ps_positional st) v1)"
    using assms a e by (auto simp: parse_finish_def split: if_splits option.splits prod.splits)
  then have "\<And>i. v (KFlag i) = v1 (KFlag i)" using bindPositionals_flag by metis
  with a e show ?thesis by (intro that [of v1]) (auto simp: first_error_None)
qed

text \<open>Where a flag's value comes from. After a successful parse that is neither a help nor a version request nor a
  completion command, the value of every flag in scope is the one the tokens gave it; if they gave none, the
  parsed value of its environment variable, if that is set; and a required flag has a value or a default.\<close>

theorem cli_env_precedence:
  assumes "parseArgs root toks env = (res, known, None)" "\<not> pr_help res" "\<not> pr_version res" "\<not> c_injected (pr_cmd res)"
    and "\<forall>f \<in> set known. \<forall>g \<in> set known. fl_id f = fl_id g \<longrightarrow> f = g" and "f \<in> set known"
  shows "pr_values res (KFlag (fl_id f)) =
      (case ps_values (snd (parse_loop toks (parse_start root))) (KFlag (fl_id f)) of Some x \<Rightarrow> Some x | None \<Rightarrow> env_value env f) \<and>
    (pr_values res (KFlag (fl_id f)) \<noteq> None \<or> fl_default f \<noteq> None \<or> \<not> fl_required f)"
proof -
  have valid: "validateArgsDecl root [] = None" using assms(1) by (auto simp: parseArgs_def split: option.splits)
  obtain stop st where l: "parse_loop toks (parse_start root) = (stop, st)" by (rule prod.exhaust)
  obtain v where v: "parse_finish env st = (None, v)" "res = result_of (st\<lparr>ps_values := v\<rparr>)" "known = ps_known st"
    using assms(1-3) l valid by (auto simp: parseArgs_def result_of_def split: parse_stop.splits prod.splits)
  have "\<not> c_injected (ps_cmd st)" using assms(4) v(2) by (simp add: result_of_def)
  from parse_finish_env [OF v(1) this] obtain v1 where
    v1: "apply_envs env (ps_known st) (ps_values st) = (None, v1)" "\<forall>f \<in> set (ps_known st). check_flag v1 f = None"
    "\<And>i. v (KFlag i) = v1 (KFlag i)" by blast
  have "known_ok known" using parse_loop_valid [OF state_valid_start [OF valid], of toks] l v(3) state_valid_known by auto
  then have "distinct (map fl_id known)" using assms(5) by (auto simp: known_ok_def distinct_map inj_on_def)
  then have "v1 (KFlag (fl_id f)) = (case ps_values st (KFlag (fl_id f)) of Some x \<Rightarrow> Some x | None \<Rightarrow> env_value env f)"
    using apply_envs_own [OF v1(1)] assms(6) v(3) by simp
  moreover have "v1 (KFlag (fl_id f)) \<noteq> None \<or> fl_default f \<noteq> None \<or> \<not> fl_required f"
    using v1(2) assms(6) v(3) by (auto simp: check_flag_def hasValue_def split: if_splits)
  ultimately show ?thesis using v1(3) v(2) l by (simp add: result_of_def)
qed

lemma cli_env_sample:
  "parseArgs cli_sample [''d''] [''COUNT'' \<mapsto> ''5''] = (fst (parseArgs cli_sample [''d''] [''COUNT'' \<mapsto> ''5'']), flags_of cli_sample @ flags_of cli_deploy, None)"
proof -
  have "snd (snd (parseArgs cli_sample [''d''] [''COUNT'' \<mapsto> ''5''])) = None" by code_simp
  moreover have "fst (snd (parseArgs cli_sample [''d''] [''COUNT'' \<mapsto> ''5''])) = flags_of cli_sample @ flags_of cli_deploy"
    using cli_sample_valid
    by (simp add: parseArgs_def parse_start_def isFlagToken_def take_word_def findSub_def cli_deploy_def)
       (simp add: cli_sample_def subs_of_def split: prod.splits)
  ultimately show ?thesis by (metis prod.collapse)
qed

theorem cli_env_precedence_witness:
  "pr_values (fst (parseArgs cli_sample [''d''] [''COUNT'' \<mapsto> ''5''])) (KFlag 1) = Some (VInt 5)"
proof -
  let ?f = "hd (flags_of cli_deploy)"
  have i: "\<forall>f \<in> set (flags_of cli_sample @ flags_of cli_deploy). \<forall>g \<in> set (flags_of cli_sample @ flags_of cli_deploy). fl_id f = fl_id g \<longrightarrow> f = g"
    and m: "?f \<in> set (flags_of cli_sample @ flags_of cli_deploy)" "fl_id ?f = 1"
    by (simp_all add: cli_deploy_def cli_sample_def subs_of_def flags_of_def BoolFlag_def IntFlag_def StringSliceFlag_def CustomFlag_def)
  have "\<not> pr_help (fst (parseArgs cli_sample [''d''] [''COUNT'' \<mapsto> ''5'']))"
    "\<not> pr_version (fst (parseArgs cli_sample [''d''] [''COUNT'' \<mapsto> ''5'']))"
    "\<not> c_injected (pr_cmd (fst (parseArgs cli_sample [''d''] [''COUNT'' \<mapsto> ''5''])))" by code_simp+
  from cli_env_precedence [OF cli_env_sample this i m(1)]
  have "pr_values (fst (parseArgs cli_sample [''d''] [''COUNT'' \<mapsto> ''5''])) (KFlag 1) =
    (case ps_values (snd (parse_loop [''d''] (parse_start cli_sample))) (KFlag 1) of Some x \<Rightarrow> Some x | None \<Rightarrow> env_value [''COUNT'' \<mapsto> ''5''] ?f)"
    unfolding m(2) by blast
  moreover have "ps_values (snd (parse_loop [''d''] (parse_start cli_sample))) (KFlag 1) = None" by code_simp
  moreover have "env_value [''COUNT'' \<mapsto> ''5''] ?f = Some (VInt 5)" by code_simp
  ultimately show ?thesis by simp
qed


section \<open>Completion follows the parser\<close>

lemma rune_len_cases:
  "rune_len (c # r) = 1 \<or> rune_len (c # r) = 2 \<and> 194 \<le> (of_char c :: nat) \<and> (of_char c :: nat) \<le> 223 \<or>
   rune_len (c # r) = 3 \<and> 224 \<le> (of_char c :: nat) \<and> (of_char c :: nat) \<le> 239 \<and> ((of_char c :: nat) = 224 \<longrightarrow> cont 160 191 (r ! 0)) \<or>
   rune_len (c # r) = 4 \<and> 240 \<le> (of_char c :: nat) \<and> (of_char c :: nat) \<le> 244 \<and> ((of_char c :: nat) = 240 \<longrightarrow> cont 144 191 (r ! 0))"
  unfolding rune_len_def Let_def list.case by (simp only: split: if_split) auto

lemma mod_range: "n * q \<le> m \<Longrightarrow> m < n * Suc q \<Longrightarrow> m mod n = m - n * q" for m n q :: nat
  using div_nat_eqI [of n q m] by (simp add: minus_mult_div_eq_mod [symmetric])

lemma rune_multi:
  assumes "s \<noteq> []" "rune_at s < 128"
  shows "rune_len s = 1"
proof -
  obtain c r where s: "s = c # r" using assms(1) by (cases s) auto
  let ?h = "of_char c :: nat" and ?b = "\<lambda>i. of_char (s ! i) mod 64 :: nat"
  consider "rune_len s = 1" | "rune_len s = 2" "194 \<le> ?h" "?h \<le> 223"
    | "rune_len s = 3" "224 \<le> ?h" "?h \<le> 239" "?h = 224 \<longrightarrow> cont 160 191 (r ! 0)"
    | "rune_len s = 4" "240 \<le> ?h" "?h \<le> 244" "?h = 240 \<longrightarrow> cont 144 191 (r ! 0)"
    using rune_len_cases [of c r] unfolding s by blast
  then show ?thesis
  proof cases
    case 2
    have "2 \<le> ?h mod 32" using mod_range [of 32 6 ?h] 2(2,3) by simp
    then show ?thesis using assms(2) 2(1) by (simp add: rune_at_def Let_def s numeral_2_eq_2 split: if_splits)
  next
    case 3
    have "1 \<le> ?h mod 16 \<or> ?h = 224" using mod_range [of 16 14 ?h] 3(2,3) by fastforce
    moreover have "32 \<le> ?b 1" if "?h = 224"
    proof -
      have "160 \<le> (of_char (s ! 1) :: nat) \<and> (of_char (s ! 1) :: nat) \<le> 191" using 3(4) that by (simp add: cont_def s)
      moreover from this have "?b 1 = of_char (s ! 1) - 64 * 2" by (intro mod_range) auto
      ultimately show ?thesis by linarith
    qed
    ultimately have "128 \<le> (?h mod 16) * 4096 + ?b 1 * 64" by fastforce
    then show ?thesis using assms(2) 3(1) by (simp add: rune_at_def Let_def s numeral_3_eq_3)
  next
    case 4
    have "1 \<le> ?h mod 8 \<or> ?h = 240" using mod_range [of 8 30 ?h] 4(2,3) by fastforce
    moreover have "16 \<le> ?b 1" if "?h = 240"
    proof -
      have "144 \<le> (of_char (s ! 1) :: nat) \<and> (of_char (s ! 1) :: nat) \<le> 191" using 4(4) that by (simp add: cont_def s)
      moreover from this have "?b 1 = of_char (s ! 1) - 64 * 2" by (intro mod_range) auto
      ultimately show ?thesis by linarith
    qed
    ultimately have "128 \<le> (?h mod 8) * 262144 + ?b 1 * 4096" by fastforce
    moreover have "rune_len s = Suc (Suc (Suc (Suc 0)))" using 4(1) by simp
    ultimately show ?thesis using assms(2) by (simp add: rune_at_def Let_def s)
  qed
qed

lemma rune_single:
  assumes "n \<noteq> []" "length (runes n) \<le> 1" "hd (runes n) < 128"
  shows "length n = 1"
proof -
  have r: "runes n = rune_at n # runes (drop (rune_len n) n)" using assms(1) by (simp add: runes.simps)
  then have "runes (drop (rune_len n) n) = []" using assms(2) by simp
  then have "drop (rune_len n) n = []" by (subst (asm) runes.simps) (simp split: if_splits)
  moreover have "rune_len n = 1" using rune_multi [OF assms(1)] assms(3) r by simp
  ultimately show ?thesis using assms(1) by (cases n) auto
qed

definition completable :: "'v flag \<Rightarrow> bool" where
  "completable f \<longleftrightarrow> (fl_name f = [] \<or> hd (fl_name f) \<noteq> CHR ''-'') \<and> fl_short f < 128"

lemma lookupFlagToken_named:
  assumes n: "flag_named known tok = Inr f" and t: "isFlagToken tok" "CHR ''='' \<notin> set tok" and c: "completable f"
  shows "lookupFlagToken known tok = Some f"
proof -
  obtain rest where tok: "tok = CHR ''-'' # rest" "rest \<noteq> []"
    using t(1) by (cases tok; cases "tl tok") (auto simp: isFlagToken_def)
  have eq: "CHR ''='' \<notin> set rest" using t(2) tok by simp
  then have tw: "takeWhile (\<lambda>c. c \<noteq> CHR ''='') (dropWhile P rest) = dropWhile P rest" for P
    by (auto simp: takeWhile_eq_all_conv dest: set_dropWhileD)
  show ?thesis
  proof (cases "isLong tok")
    case True
    then obtain name where rest: "rest = CHR ''-'' # name" using tok by (cases rest) (auto simp: isLong_def)
    have name: "name \<noteq> []" using t(1) tok rest by (auto simp: isFlagToken_def)
    have f: "findFlagLong known name = Some f"
      using n True eq by (auto simp: flag_named_def flag_parts_def tok rest cut_def split: option.splits)
    then have "fl_name f = name" by (auto simp: findFlagLong_def find_Some_iff)
    then have "dropWhile (\<lambda>c. c = CHR ''-'') tok = name" using c name by (cases name) (auto simp: completable_def tok rest)
    moreover have "takeWhile (\<lambda>c. c \<noteq> CHR ''='') name = name" using eq rest by (auto simp: takeWhile_eq_all_conv)
    ultimately show ?thesis using True f by (simp only: lookupFlagToken_def Let_def if_True)
  next
    case False
    then have nd: "hd rest \<noteq> CHR ''-''" using tok by (cases rest) (auto simp: isLong_def)
    have p: "fst (flag_parts tok) = rest" using False eq by (simp add: flag_parts_def tok cut_def)
    have f: "findFlagShort known (hd (runes rest)) = Some f" "length (runes rest) \<le> 1"
      using n False tok(2) by (auto simp: flag_named_def p Let_def split: if_splits option.splits)
    then have "fl_short f = hd (runes rest)" by (auto simp: findFlagShort_def find_Some_iff)
    then have "length rest = 1" using rune_single [OF tok(2) f(2)] c by (simp add: completable_def)
    moreover have "dropWhile (\<lambda>c. c = CHR ''-'') tok = rest" using nd tok by (cases rest) auto
    ultimately show ?thesis using False f(1) tw [of "\<lambda>c. c = CHR ''-''"] nd tok by (cases rest) (auto simp: lookupFlagToken_def)
  qed
qed

text \<open>How many tokens the walk skips after a flag token the parser accepts.\<close>

lemma applyFlagToken_walk:
  assumes "applyFlagToken tok nx known v = (n, Inr v')" "isFlagToken tok" "\<forall>f \<in> set known. completable f" "wk_known w = known"
  shows "n = 0 \<and> walk_flag tok w = None \<or> n = 1 \<and> nx \<noteq> None \<and> walk_flag tok w \<noteq> None"
proof -
  obtain f where f: "flag_named known tok = Inr f" using assms(1) by (auto simp: applyFlagToken_def split: sum.splits)
  have c: "completable f" using flag_named_known [OF f] assms(3) by blast
  have body: "snd (flag_parts tok) = None \<longleftrightarrow> CHR ''='' \<notin> set tok"
  proof -
    obtain rest where tok: "tok = CHR ''-'' # rest" using assms(2) by (cases tok) (auto simp: isFlagToken_def)
    show ?thesis
      by (cases rest) (auto simp: flag_parts_def tok cut_def isLong_def)
  qed
  show ?thesis
  proof (cases "CHR ''='' \<in> set tok")
    case True
    then show ?thesis using assms(1) f body by (auto simp: applyFlagToken_def walk_flag_def split: if_splits option.splits)
  next
    case False
    then have "walk_flag tok w = (if fl_isBool f then None else Some f)"
      using lookupFlagToken_named [OF f assms(2) False c] assms(4) by (simp add: walk_flag_def)
    then show ?thesis using assms(1) f body False by (auto simp: applyFlagToken_def split: if_splits option.splits)
  qed
qed


lemma walk_loop_sep: "walk_loop (''--'' # rest) w = walk_loop rest (w\<lparr>wk_started := True, wk_locked := True\<rparr>)"
  by (cases rest) auto

lemma walk_loop_flag:
  "tok \<noteq> ''--'' \<Longrightarrow> \<not> wk_locked w \<Longrightarrow> isFlagToken tok \<Longrightarrow>
     walk_loop (tok # rest) w = (case walk_flag tok w of None \<Rightarrow> walk_loop rest w
       | Some f \<Rightarrow> (case rest of [] \<Rightarrow> w\<lparr>wk_pending := Some f\<rparr> | n # r \<Rightarrow> walk_loop r w))"
  by (cases rest) (auto split: option.splits)

lemma walk_loop_word:
  "tok \<noteq> ''--'' \<Longrightarrow> wk_locked w \<or> \<not> isFlagToken tok \<Longrightarrow> walk_loop (tok # rest) w = walk_loop rest (walk_word tok w)"
  by (cases rest) auto

abbreviation no_separators :: "string list \<Rightarrow> string list" where
  "no_separators \<equiv> filter (\<lambda>t. t \<noteq> ''--'')"

lemma walk_locked:
  "wk_started w \<Longrightarrow> wk_locked w \<Longrightarrow> walk_loop ts w = w\<lparr>wk_count := wk_count w + length (no_separators ts)\<rparr>"
proof (induction ts arbitrary: w)
  case (Cons t ts)
  show ?case
  proof (cases "t = ''--''")
    case True
    have "w\<lparr>wk_started := True, wk_locked := True\<rparr> = w" using Cons.prems by simp
    then show ?thesis using Cons True by (simp add: walk_loop_sep)
  next
    case False
    have "walk_loop (t # ts) w = walk_loop ts (walk_word t w)" using Cons.prems False by (intro walk_loop_word) auto
    also have "walk_word t w = w\<lparr>wk_count := wk_count w + 1\<rparr>" using Cons.prems by (cases w) (simp add: walk_word_def)
    finally show ?thesis using Cons.IH [of "w\<lparr>wk_count := wk_count w + 1\<rparr>"] Cons.prems False by simp
  qed
qed simp

definition walk_matches :: "('v, 'h) parse_state \<Rightarrow> ('v, 'h) path_walk \<Rightarrow> bool" where
  "walk_matches st w \<longleftrightarrow> wk_cmd w = ps_cmd st \<and> wk_known w = ps_known st \<and> wk_count w = length (no_separators (ps_positional st)) \<and> wk_pending w = None"

definition walk_rel :: "('v, 'h) parse_state \<Rightarrow> ('v, 'h) path_walk \<Rightarrow> bool" where
  "walk_rel st w \<longleftrightarrow> walk_matches st w \<and> wk_started w = ps_started st \<and> wk_locked w = ps_locked st"

lemma take_word_walk: "take_word tok st = Inr st' \<Longrightarrow> tok \<noteq> ''--'' \<Longrightarrow> walk_rel st w \<Longrightarrow> walk_rel st' (walk_word tok w)"
  by (erule take_word_cases) (auto simp: walk_rel_def walk_matches_def walk_word_def)

definition tree_completable :: "('v, 'h) command \<Rightarrow> bool" where
  "tree_completable root \<longleftrightarrow> (\<forall>c. in_tree root c \<longrightarrow> (\<forall>f \<in> set (flags_of c). completable f))"

lemma parse_loop_walk:
  assumes "tree_completable root"
  shows "parse_loop toks st = (Tokens_done, st') \<Longrightarrow> walk_rel st w \<Longrightarrow> in_tree root (ps_cmd st) \<Longrightarrow>
    \<forall>f \<in> set (ps_known st). completable f \<Longrightarrow> walk_matches st' (walk_loop toks w)"
proof (induction toks st arbitrary: w rule: parse_loop_steps)
  case (Nil st)
  then show ?case by (auto simp: walk_rel_def)
next
  case (Builtin tok rest st)
  then have t: "tok = ''--''" "st' = st\<lparr>ps_positional := ps_positional st @ rest\<rparr>" by (auto simp: builtin_def split: if_splits)
  have "walk_loop (tok # rest) w = w\<lparr>wk_started := True, wk_locked := True, wk_count := wk_count w + length (no_separators rest)\<rparr>"
    using walk_locked [of "w\<lparr>wk_started := True, wk_locked := True\<rparr>" rest] by (simp add: t(1) walk_loop_sep)
  then show ?case using Builtin.prems(2) by (simp add: t(2) walk_rel_def walk_matches_def)
next
  case (Flag tok rest st n v)
  let ?st = "st\<lparr>ps_values := v\<rparr>"
  have p: "parse_loop (drop n rest) ?st = (Tokens_done, st')" using Flag.prems(1) Flag.hyps(5) by simp
  have w: "walk_rel ?st w" "wk_known w = ps_known st" "\<not> wk_locked w"
    using Flag.prems(2) Flag.hyps(2) by (auto simp: walk_rel_def walk_matches_def)
  have ih: "walk_matches st' (walk_loop (drop n rest) w)" by (rule Flag.IH [OF p w(1)]) (use Flag.prems in auto)
  have "tok \<noteq> ''--''" using Flag.hyps(1) by (simp add: builtin_def)
  note l = walk_loop_flag [OF this w(3) Flag.hyps(3), of rest]
  from applyFlagToken_walk [OF Flag.hyps(4,3) Flag.prems(4) w(2)] show ?case
    using ih l by (cases rest) (auto simp: peek_def)
next
  case (Word tok rest st st2)
  have p: "parse_loop rest st2 = (Tokens_done, st')" using Word.prems(1) Word.hyps(4) by simp
  have sep: "tok \<noteq> ''--''" using Word.hyps(1) by (simp add: builtin_def)
  moreover have "wk_locked w \<or> \<not> isFlagToken tok" using Word.hyps(2) Word.prems(2) by (simp add: walk_rel_def)
  ultimately have l: "walk_loop (tok # rest) w = walk_loop rest (walk_word tok w)" by (rule walk_loop_word)
  have "in_tree root (ps_cmd st2) \<and> (\<forall>f \<in> set (ps_known st2). completable f)"
    using Word.hyps(3)
  proof (cases rule: take_word_cases)
    case (descend sub)
    then have "in_tree root sub" using Word.prems(3) by (auto intro: in_tree_sub)
    then show ?thesis using descend(4) Word.prems(4) assms by (auto simp: tree_completable_def)
  qed (use Word.prems in auto)
  then show ?case unfolding l using Word.IH [OF p take_word_walk [OF Word.hyps(3) sep Word.prems(2)]] by blast
qed simp

text \<open>C33: Completion follows the parser, up to separators among the operands. Conditions: the parser accepts the words as
  the start of an invocation, no flag name in the tree begins with a dash and every short flag is ASCII. Then the walk of
  shell completion ends at the same command with the same flags in scope and waits for no flag value, and the positionals
  it counts are those of the parser without the words \<open>--\<close> among them: with at most one separator, which is no
  positional, the walk is at the positional the parser would bind next; every further \<open>--\<close> is a positional for the
  parser that the walk does not count.\<close>

theorem cli_completion_mirrors_parser:
  assumes "parse_loop toks (parse_start root) = (Tokens_done, st)" "tree_completable root"
  shows "wk_cmd (walkPath root toks) = ps_cmd st \<and> wk_known (walkPath root toks) = ps_known st \<and> wk_pending (walkPath root toks) = None \<and>
    wk_count (walkPath root toks) = length (filter (\<lambda>t. t \<noteq> ''--'') (ps_positional st))"
proof -
  have "walk_matches st (walkPath root toks)"
    unfolding walkPath_def
    by (rule parse_loop_walk [OF assms(2,1)])
    (use assms in_tree_root [of root] in \<open>auto simp: walk_rel_def walk_matches_def parse_start_def tree_completable_def\<close>)
  then show ?thesis by (simp add: walk_matches_def)
qed

lemma cli_sample_completable: "tree_completable cli_sample"
proof -
  have "\<forall>f \<in> set (flags_of c). completable f" if "c = cli_sample \<or> c = cli_deploy" for c
    using that by (auto simp: cli_deploy_def cli_sample_def subs_of_def flags_of_def completable_def BoolFlag_def IntFlag_def
        StringSliceFlag_def CustomFlag_def)
  then show ?thesis using cli_sample_tree unfolding tree_completable_def by blast
qed

theorem cli_completion_mirrors_parser_witness:
  "wk_count (walkPath cli_sample [''-v'', ''d'', ''--count'', ''3'', ''h1'', ''--'', ''h2'']) = 2 \<and>
   c_Name (wk_cmd (walkPath cli_sample [''-v'', ''d'', ''--count'', ''3'', ''h1'', ''--'', ''h2''])) = ''deploy''"
proof -
  let ?t = "[''-v'', ''d'', ''--count'', ''3'', ''h1'', ''--'', ''h2'']"
  have "fst (parse_loop ?t (parse_start cli_sample)) = Tokens_done" by code_simp
  then have p: "parse_loop ?t (parse_start cli_sample) = (Tokens_done, snd (parse_loop ?t (parse_start cli_sample)))" by (metis prod.collapse)
  have q: "ps_positional (snd (parse_loop ?t (parse_start cli_sample))) = [''h1'', ''h2'']"
    "c_Name (ps_cmd (snd (parse_loop ?t (parse_start cli_sample)))) = ''deploy''" by code_simp+
  from cli_completion_mirrors_parser [OF p cli_sample_completable] q show ?thesis by simp
qed


section \<open>Running\<close>

text \<open>Middleware wraps in declaration order, the root's outermost.\<close>

lemma composeHandler_order:
  "c_Run (pr_cmd res) = Some run \<Longrightarrow> \<not> c_injected (pr_cmd res) \<Longrightarrow>
     composeHandler res = Some (foldr (\<lambda>m h. m h) (concat (map c_Use (pr_path res))) run)"
proof -
  have "fold (\<lambda>c h. fold (\<lambda>m h. m h) (rev (c_Use c)) h) (rev cs) run = foldr (\<lambda>m h. m h) (concat (map c_Use cs)) run" for cs
    by (induction cs) (auto simp: foldr_conv_fold)
  then show "c_Run (pr_cmd res) = Some run \<Longrightarrow> \<not> c_injected (pr_cmd res) \<Longrightarrow> ?thesis" by (simp add: composeHandler_def)
qed

text \<open>The leaves of an error; an error that wraps nothing is one of them.\<close>

fun error_leaves :: "go_error \<Rightarrow> leaf_error option list" where
  "error_leaves (Leaf l) = [Some l]"
| "error_leaves (Wraps None) = [None]"
| "error_leaves (Wraps (Some e)) = error_leaves e"
| "error_leaves (Joins []) = [None]"
| "error_leaves (Joins (e # es)) = concat (map error_leaves (e # es))"

lemma onlyCanceled_leaves: "onlyCanceled e \<longleftrightarrow> (\<forall>l \<in> set (error_leaves e). l = Some Canceled)"
  by (induction e rule: error_leaves.induct) (auto simp: list_all_iff)

lemma errorsIs_leaves: "errorsIs t e \<longleftrightarrow> Some t \<in> set (error_leaves e)"
  by (induction t e rule: errorsIs.induct) (auto simp: list_ex_iff, (case_tac es; fastforce)+)

lemma check_flags_sentinel: "check_flags cmd l s fs = Inl e \<Longrightarrow> sentinel e = None"
  by (induction cmd l s fs rule: check_flags.induct) (auto split: if_splits)

lemma check_args_sentinel: "check_args cmd b as = Some e \<Longrightarrow> sentinel e = None"
  by (induction cmd b as rule: check_args.induct) (auto split: if_splits)

lemma check_names_sentinel: "check_names cmd seen ns = Inl e \<Longrightarrow> sentinel e = None"
  by (induction cmd seen ns rule: check_names.induct) (auto split: if_splits)

lemma check_subs_sentinel: "check_subs cmd seen ss = Some e \<Longrightarrow> sentinel e = None"
  by (induction cmd seen ss rule: check_subs.induct) (auto simp del: check_names.simps split: sum.splits dest: check_names_sentinel)

lemma first_error_Some: "first_error es = Some e \<Longrightarrow> Some e \<in> set es"
  by (induction es) (auto simp: first_error_def split: if_splits)

lemma validate_sentinel: "validateArgsDecl c inh = Some e \<Longrightarrow> sentinel e = None"
proof (induction c inh rule: validateArgsDecl.induct)
  case (1 c inh)
  show ?case
  proof (cases "check_own c inh")
    case None
    then have "Some e \<in> set (map (\<lambda>s. validateArgsDecl s (inh @ flags_of c)) (subs_of c))"
      using "1.prems" by (intro first_error_Some) (simp add: validateArgsDecl.simps [of c])
    then obtain s where "s \<in> set (subs_of c)" "validateArgsDecl s (inh @ flags_of c) = Some e" by (auto simp: eq_commute)
    then show ?thesis using "1.IH" [OF None] by blast
  next
    case (Some e')
    then have "check_own c inh = Some e" using "1.prems" by (simp add: validateArgsDecl.simps [of c])
    then show ?thesis
      by (auto simp: check_own_def split: sum.splits if_splits option.splits
          dest: check_flags_sentinel check_args_sentinel check_subs_sentinel)
  qed
qed

lemma with_sub_simps [simp]:
  "c_Subcommands (with_sub s c) = c_Subcommands c @ [Some s]" "subs_of (with_sub s c) = subs_of c @ [s]"
  by (cases c; simp add: with_sub_def subs_of_def map_filter_def)+

text \<open>An alias that takes the application down. If a subcommand of the root has the alias \<open>completion\<close> and none has
  that name, the completion command is injected next to it, the declarations no longer pass, and every
  invocation, help included, exits with status 1.\<close>

theorem cli_alias_blocks_exec:
  assumes "s \<in> set (subs_of c)" "''completion'' \<in> set (c_Aliases s)" "\<not> hasSub c ''completion''"
  shows "Exec run (withInjectedCompletion i h1 j h2 c) args env = 1"
proof -
  let ?r = "withInjectedCompletion i h1 j h2 c"
  have "\<exists>tl. subs_of ?r = subs_of c @ completionCmd i h1 # tl"
    using assms(3) by (simp add: withInjectedCompletion_def Let_def)
  then obtain tl where subs: "subs_of ?r = subs_of c @ completionCmd i h1 # tl" by blast
  have "validateArgsDecl ?r [] \<noteq> None"
  proof
    assume "validateArgsDecl ?r [] = None"
    then have "distinct (concat (map all_names (subs_of ?r)))" by (rule validate_names)
    then have "set (concat (map all_names (subs_of c))) \<inter> set (all_names (completionCmd i h1)) = {}" by (auto simp: subs)
    moreover have "''completion'' \<in> set (concat (map all_names (subs_of c)))" using assms(1,2) by (auto simp: all_names_def)
    ultimately show False by (auto simp: all_names_def completionCmd_def)
  qed
  then obtain e where e: "validateArgsDecl ?r [] = Some e" by blast
  then have "sentinel e = None" by (rule validate_sentinel)
  then show ?thesis using e by (simp add: Exec_def parseArgs_def parse_go_error_def DefaultOnError_def)
qed

theorem cli_alias_blocks_exec_witness:
  "Exec (\<lambda>(h :: nat) res. None) (withInjectedCompletion 0 1 1 2
     (Command ''app'' [] [] [] [] [Some (Command ''comp'' [] [''completion''] [] [] [] [] (Some 3) False False)] [] None False False))
     [''--help''] Map.empty = 1"
  by (rule cli_alias_blocks_exec [of "Command ''comp'' [] [''completion''] [] [] [] [] (Some 3) False False"])
    (simp_all add: subs_of_def hasSub_def)

end
