(* ===== verification/AuthStore.thy ===== *)
theory AuthStore
  imports Prelude
begin

text \<open>
  Package \<open>auth\<close>: the identity store (\<open>auth/store/store.go\<close>, \<open>store_memory.go\<close>), the password verifier and its
  own store (\<open>auth/password/password.go\<close>, \<open>store_memory.go\<close>), claims in a request and the route guards
  (\<open>auth/claims.go\<close>, \<open>context.go\<close>, \<open>guard.go\<close>).

  \<^item> A credential is a heap object: the maps by identity and by email hold the same pointer, and
    \<open>UpdateHash\<close> writes through it. Pointers are numbers, \<open>am_heap\<close> is what they point to.
  \<^item> \<open>nrm\<close> is \<open>strings.ToLower\<close> after \<open>strings.TrimSpace\<close>, an argument.
  \<^item> A \<open>NumericDate\<close> is only copied here; it is its bit pattern.
  \<^item> The hasher is an argument: comparison, derivation, and whether a hash is out of date. The semaphore
    and the context decide whether a call gets to run, which is an argument too.
\<close>

section \<open>Claims\<close>

type_synonym numeric_date = "64 word"

record claim_set =
  cs_Issuer :: string
  cs_Subject :: string
  cs_Audience :: "string list"
  cs_Expiry :: "numeric_date option"
  cs_NotBefore :: "numeric_date option"
  cs_IssuedAt :: "numeric_date option"
  cs_ID :: string
  cs_Scope :: string
  cs_ClientID :: string
  cs_Roles :: "string list"
  cs_Groups :: "string list"
  cs_Entitlements :: "string list"

definition no_claims :: claim_set where
  "no_claims = \<lparr>cs_Issuer = [], cs_Subject = [], cs_Audience = [], cs_Expiry = None, cs_NotBefore = None, cs_IssuedAt = None, cs_ID = [],
     cs_Scope = [], cs_ClientID = [], cs_Roles = [], cs_Groups = [], cs_Entitlements = []\<rparr>"

text \<open>\<open>strings.Fields\<close> on ASCII white space.\<close>

definition is_space :: "char \<Rightarrow> bool" where
  "is_space c \<longleftrightarrow> c = CHR '' '' \<or> 9 \<le> (of_char c :: nat) \<and> (of_char c :: nat) \<le> 13"

function fields :: "string \<Rightarrow> string list" where
  "fields s = (let t = dropWhile is_space s in
     if t = [] then [] else takeWhile (\<lambda>c. \<not> is_space c) t # fields (dropWhile (\<lambda>c. \<not> is_space c) t))"
  by pat_completeness auto
termination
proof (relation "measure length")
  fix s t :: string
  assume t: "t = dropWhile is_space s" "t \<noteq> []"
  then have "\<not> is_space (hd t)" using hd_dropWhile by metis
  then have "length (dropWhile (\<lambda>c. \<not> is_space c) t) < length t"
    using t(2) by (cases t) (auto simp: le_imp_less_Suc length_dropWhile_le)
  also have "\<dots> \<le> length s" unfolding t(1) by (rule length_dropWhile_le)
  finally show "(dropWhile (\<lambda>c. \<not> is_space c) t, s) \<in> measure length" by simp
qed simp

declare fields.simps [simp del]

definition Scopes :: "claim_set \<Rightarrow> string list" where
  "Scopes c = fields (cs_Scope c)"

section \<open>Guards\<close>

text \<open>The context of a request carries claims or not.\<close>

definition IsAuthenticated :: "claim_set option \<Rightarrow> bool" where
  "IsAuthenticated ctx = (case ctx of None \<Rightarrow> False | Some c \<Rightarrow> cs_Subject c \<noteq> [])"

definition HasScope :: "claim_set option \<Rightarrow> string \<Rightarrow> bool" where
  "HasScope ctx s = (case ctx of None \<Rightarrow> False | Some c \<Rightarrow> s \<in> set (Scopes c))"

definition HasRole :: "claim_set option \<Rightarrow> string \<Rightarrow> bool" where
  "HasRole ctx r = (case ctx of None \<Rightarrow> False | Some c \<Rightarrow> r \<in> set (cs_Roles c))"

datatype guard_outcome = Next | Unauthenticated | Forbidden

definition guard_require :: "(claim_set option \<Rightarrow> bool) \<Rightarrow> claim_set option \<Rightarrow> guard_outcome" where
  "guard_require granted ctx =
    (if \<not> IsAuthenticated ctx then Unauthenticated else if \<not> granted ctx then Forbidden else Next)"

definition guard_Authenticated :: "claim_set option \<Rightarrow> guard_outcome" where
  "guard_Authenticated = guard_require (\<lambda>_. True)"

definition guard_Role :: "string \<Rightarrow> claim_set option \<Rightarrow> guard_outcome" where
  "guard_Role r = guard_require (\<lambda>ctx. HasRole ctx r)"

definition guard_Scope :: "string \<Rightarrow> claim_set option \<Rightarrow> guard_outcome" where
  "guard_Scope s = guard_require (\<lambda>ctx. HasScope ctx s)"

section \<open>Identities and credentials\<close>

datatype auth_error = IdNotFound | IdExists | EmailTaken | InvalidInput | PwNotFound | PwHashChanged

datatype status = StatusActive | StatusDisabled | StatusOther string

record identity_claims =
  ic_Roles :: "string list"
  ic_Groups :: "string list"
  ic_Entitlements :: "string list"

record identity =
  id_ID :: string
  id_Status :: status
  id_Claims :: identity_claims
  id_CreatedAt :: int
  id_UpdatedAt :: int

record mem_identity =
  mi_status :: status
  mi_claims :: identity_claims
  mi_createdAt :: int
  mi_updatedAt :: int

record mem_credential =
  mc_identityID :: string
  mc_email :: string
  mc_hash :: string

record credential =
  cr_Hash :: string
  cr_Claims :: claim_set

record auth_mem =
  am_identities :: "string \<rightharpoonup> mem_identity"
  am_byID :: "string \<rightharpoonup> nat"
  am_byEmail :: "string \<rightharpoonup> nat"
  am_heap :: "nat \<rightharpoonup> mem_credential"
  am_next :: nat

definition MaxIdentityIDLen :: nat where "MaxIdentityIDLen = 191"
definition MaxEmailLen :: nat where "MaxEmailLen = 254"

definition ValidIdentityID :: "string \<Rightarrow> bool" where
  "ValidIdentityID i \<longleftrightarrow> i \<noteq> [] \<and> length i \<le> MaxIdentityIDLen"

definition NormalizeEmail :: "(string \<Rightarrow> string) \<Rightarrow> string \<Rightarrow> string option" where
  "NormalizeEmail nrm email = (let e = nrm email in if e \<noteq> [] \<and> length e \<le> MaxEmailLen then Some e else None)"

definition NewAuthStore :: auth_mem where
  "NewAuthStore = \<lparr>am_identities = Map.empty, am_byID = Map.empty, am_byEmail = Map.empty, am_heap = Map.empty, am_next = 0\<rparr>"

definition identity_of :: "string \<Rightarrow> mem_identity \<Rightarrow> identity" where
  "identity_of i m = \<lparr>id_ID = i, id_Status = mi_status m, id_Claims = mi_claims m, id_CreatedAt = mi_createdAt m, id_UpdatedAt = mi_updatedAt m\<rparr>"

definition CreateIdentity :: "int \<Rightarrow> string \<Rightarrow> identity_claims \<Rightarrow> auth_mem \<Rightarrow> (auth_error + identity) \<times> auth_mem" where
  "CreateIdentity now i claims s =
    (if \<not> ValidIdentityID i then (Inl InvalidInput, s)
     else if am_identities s i \<noteq> None then (Inl IdExists, s)
     else let ident = \<lparr>mi_status = StatusActive, mi_claims = claims, mi_createdAt = now, mi_updatedAt = now\<rparr>
       in (Inr (identity_of i ident), s\<lparr>am_identities := (am_identities s)(i \<mapsto> ident)\<rparr>))"

definition GetIdentity :: "string \<Rightarrow> auth_mem \<Rightarrow> auth_error + identity" where
  "GetIdentity i s =
    (if \<not> ValidIdentityID i then Inl InvalidInput
     else case am_identities s i of None \<Rightarrow> Inl IdNotFound | Some ident \<Rightarrow> Inr (identity_of i ident))"

definition SetIdentityStatus :: "int \<Rightarrow> string \<Rightarrow> status \<Rightarrow> auth_mem \<Rightarrow> auth_error option \<times> auth_mem" where
  "SetIdentityStatus now i st s =
    (if \<not> ValidIdentityID i then (Some InvalidInput, s)
     else if st \<noteq> StatusActive \<and> st \<noteq> StatusDisabled then (Some InvalidInput, s)
     else case am_identities s i of
       None \<Rightarrow> (Some IdNotFound, s)
     | Some ident \<Rightarrow> (None, s\<lparr>am_identities := (am_identities s)(i \<mapsto> ident\<lparr>mi_status := st, mi_updatedAt := now\<rparr>)\<rparr>))"

definition SetIdentityClaims :: "int \<Rightarrow> string \<Rightarrow> identity_claims \<Rightarrow> auth_mem \<Rightarrow> auth_error option \<times> auth_mem" where
  "SetIdentityClaims now i claims s =
    (if \<not> ValidIdentityID i then (Some InvalidInput, s)
     else case am_identities s i of
       None \<Rightarrow> (Some IdNotFound, s)
     | Some ident \<Rightarrow> (None, s\<lparr>am_identities := (am_identities s)(i \<mapsto> ident\<lparr>mi_claims := claims, mi_updatedAt := now\<rparr>)\<rparr>))"

text \<open>Reading through a pointer of one of the maps; the maps hold no dangling pointer.\<close>

definition deref :: "auth_mem \<Rightarrow> nat option \<Rightarrow> mem_credential option" where
  "deref s p = Option.bind p (am_heap s)"

definition DeleteIdentity :: "string \<Rightarrow> auth_mem \<Rightarrow> auth_error option \<times> auth_mem" where
  "DeleteIdentity i s =
    (if \<not> ValidIdentityID i then (Some InvalidInput, s)
     else let s1 = s\<lparr>am_identities := (am_identities s)(i := None)\<rparr> in
       case deref s (am_byID s i) of
         None \<Rightarrow> (None, s1)
       | Some cred \<Rightarrow> (None, s1\<lparr>am_byEmail := (am_byEmail s)(mc_email cred := None), am_byID := (am_byID s)(i := None)\<rparr>))"

text \<open>Allocating a credential and entering it into both maps.\<close>

definition put_cred :: "string \<Rightarrow> string \<Rightarrow> string \<Rightarrow> auth_mem \<Rightarrow> auth_mem" where
  "put_cred i email hash s =
    s\<lparr>am_heap := (am_heap s)(am_next s \<mapsto> \<lparr>mc_identityID = i, mc_email = email, mc_hash = hash\<rparr>), am_next := am_next s + 1,
      am_byID := (am_byID s)(i \<mapsto> am_next s), am_byEmail := (am_byEmail s)(email \<mapsto> am_next s)\<rparr>"

definition other_owner :: "auth_mem \<Rightarrow> string \<Rightarrow> string \<Rightarrow> bool" where
  "other_owner s email i = (case deref s (am_byEmail s email) of None \<Rightarrow> False | Some owner \<Rightarrow> mc_identityID owner \<noteq> i)"

definition CreatePassword :: "(string \<Rightarrow> string) \<Rightarrow> string \<Rightarrow> string \<Rightarrow> string \<Rightarrow> auth_mem \<Rightarrow> auth_error option \<times> auth_mem" where
  "CreatePassword nrm i email hash s =
    (if \<not> ValidIdentityID i then (Some InvalidInput, s)
     else case NormalizeEmail nrm email of
       None \<Rightarrow> (Some InvalidInput, s)
     | Some e \<Rightarrow>
         if am_identities s i = None then (Some IdNotFound, s)
         else if other_owner s e i then (Some EmailTaken, s)
         else if am_byID s i \<noteq> None then (Some IdExists, s)
         else (None, put_cred i e hash s))"

definition SetPassword :: "(string \<Rightarrow> string) \<Rightarrow> string \<Rightarrow> string \<Rightarrow> string \<Rightarrow> auth_mem \<Rightarrow> auth_error option \<times> auth_mem" where
  "SetPassword nrm i email hash s =
    (if \<not> ValidIdentityID i then (Some InvalidInput, s)
     else case NormalizeEmail nrm email of
       None \<Rightarrow> (Some InvalidInput, s)
     | Some e \<Rightarrow>
         if am_identities s i = None then (Some IdNotFound, s)
         else if other_owner s e i then (Some EmailTaken, s)
         else let s1 = (case deref s (am_byID s i) of None \<Rightarrow> s | Some old \<Rightarrow> s\<lparr>am_byEmail := (am_byEmail s)(mc_email old := None)\<rparr>)
           in (None, put_cred i e hash s1))"

definition activeCredential :: "(string \<Rightarrow> string) \<Rightarrow> string \<Rightarrow> auth_mem \<Rightarrow> (nat \<times> mem_credential \<times> mem_identity) option" where
  "activeCredential nrm email s =
    (case NormalizeEmail nrm email of
       None \<Rightarrow> None
     | Some e \<Rightarrow>
         (case am_byEmail s e of
            None \<Rightarrow> None
          | Some p \<Rightarrow>
              (case am_heap s p of
                 None \<Rightarrow> None
               | Some cred \<Rightarrow>
                   (case am_identities s (mc_identityID cred) of
                      None \<Rightarrow> None
                    | Some ident \<Rightarrow> if mi_status ident \<noteq> StatusActive then None else Some (p, cred, ident)))))"

definition credential_of :: "mem_credential \<Rightarrow> mem_identity \<Rightarrow> credential" where
  "credential_of cred ident = \<lparr>cr_Hash = mc_hash cred, cr_Claims = no_claims\<lparr>cs_Subject := mc_identityID cred,
     cs_Roles := ic_Roles (mi_claims ident), cs_Groups := ic_Groups (mi_claims ident), cs_Entitlements := ic_Entitlements (mi_claims ident)\<rparr>\<rparr>"

definition auth_Lookup :: "(string \<Rightarrow> string) \<Rightarrow> string \<Rightarrow> auth_mem \<Rightarrow> auth_error + credential" where
  "auth_Lookup nrm email s =
    (case activeCredential nrm email s of None \<Rightarrow> Inl PwNotFound | Some (p, cred, ident) \<Rightarrow> Inr (credential_of cred ident))"

definition auth_UpdateHash :: "(string \<Rightarrow> string) \<Rightarrow> string \<Rightarrow> string \<Rightarrow> string \<Rightarrow> auth_mem \<Rightarrow> auth_error option \<times> auth_mem" where
  "auth_UpdateHash nrm email oldHash newHash s =
    (case activeCredential nrm email s of
       None \<Rightarrow> (Some PwNotFound, s)
     | Some (p, cred, ident) \<Rightarrow>
         if mc_hash cred \<noteq> oldHash then (Some PwHashChanged, s)
         else (None, s\<lparr>am_heap := (am_heap s)(p \<mapsto> cred\<lparr>mc_hash := newHash\<rparr>)\<rparr>))"


section \<open>The fixed-account store of package password\<close>

type_synonym pw_mem = "string \<rightharpoonup> credential"

definition pw_Put :: "(string \<Rightarrow> string) \<Rightarrow> string \<Rightarrow> credential \<Rightarrow> pw_mem \<Rightarrow> pw_mem" where
  "pw_Put nrm email cred s = s(nrm email \<mapsto> cred)"

definition pw_Delete :: "(string \<Rightarrow> string) \<Rightarrow> string \<Rightarrow> pw_mem \<Rightarrow> pw_mem" where
  "pw_Delete nrm email s = s(nrm email := None)"

definition pw_Lookup :: "(string \<Rightarrow> string) \<Rightarrow> string \<Rightarrow> pw_mem \<Rightarrow> auth_error + credential" where
  "pw_Lookup nrm email s = (case s (nrm email) of None \<Rightarrow> Inl PwNotFound | Some cred \<Rightarrow> Inr cred)"

definition pw_UpdateHash :: "(string \<Rightarrow> string) \<Rightarrow> string \<Rightarrow> string \<Rightarrow> string \<Rightarrow> pw_mem \<Rightarrow> auth_error option \<times> pw_mem" where
  "pw_UpdateHash nrm email oldHash newHash s =
    (case s (nrm email) of
       None \<Rightarrow> (Some PwNotFound, s)
     | Some cred \<Rightarrow>
         if cr_Hash cred \<noteq> oldHash then (Some PwHashChanged, s) else (None, s(nrm email \<mapsto> cred\<lparr>cr_Hash := newHash\<rparr>)))"

section \<open>The verifier\<close>

datatype compare_result = Match | Mismatch | Compare_failed string

record hasher =
  hs_Compare :: "string \<Rightarrow> string \<Rightarrow> compare_result"
  hs_Hash :: "string \<Rightarrow> string option"
  hs_NeedsRehash :: "string \<Rightarrow> bool"

definition MaxPasswordLen :: nat where "MaxPasswordLen = 512"

datatype login_error = InvalidCredentials | Login_canceled | Store_failed auth_error | Hash_failed string

text \<open>\<open>maybeRehash\<close> on a store that is a \<open>Rehasher\<close>; every failure is only logged.\<close>

definition maybeRehash :: "hasher \<Rightarrow> (string \<Rightarrow> string \<Rightarrow> string \<Rightarrow> 's \<Rightarrow> auth_error option \<times> 's) \<Rightarrow>
    string \<Rightarrow> string \<Rightarrow> string \<Rightarrow> 's \<Rightarrow> 's" where
  "maybeRehash h update email verifiedHash password s =
    (if \<not> hs_NeedsRehash h verifiedHash then s
     else case hs_Hash h password of
       None \<Rightarrow> s
     | Some newHash \<Rightarrow> snd (update email verifiedHash newHash s))"

text \<open>\<open>Authenticate\<close>: the result, the hashes compared, and the store. \<open>others\<close> is what other callers do to the
  store between the lookup and the write of a new hash; \<open>acquired\<close> is whether the semaphore was taken before the
  context ended.\<close>

definition Authenticate :: "hasher \<Rightarrow> string \<Rightarrow> (string \<Rightarrow> 's \<Rightarrow> auth_error + credential) \<Rightarrow>
    (string \<Rightarrow> string \<Rightarrow> string \<Rightarrow> 's \<Rightarrow> auth_error option \<times> 's) \<Rightarrow> bool \<Rightarrow> ('s \<Rightarrow> 's) \<Rightarrow> string \<Rightarrow> string \<Rightarrow> 's \<Rightarrow>
    (login_error + claim_set) \<times> string list \<times> 's" where
  "Authenticate h decoy lookup update acquired others email password s =
    (if email = [] \<or> length email > MaxEmailLen \<or> password = [] \<or> length password > MaxPasswordLen
     then (Inl InvalidCredentials, [], others s)
     else if \<not> acquired then (Inl Login_canceled, [], others s)
     else case lookup email s of
       Inl e \<Rightarrow> if e = PwNotFound then (Inl InvalidCredentials, [decoy], others s) else (Inl (Store_failed e), [], others s)
     | Inr cred \<Rightarrow>
         (case hs_Compare h (cr_Hash cred) password of
            Mismatch \<Rightarrow> (Inl InvalidCredentials, [cr_Hash cred], others s)
          | Compare_failed e \<Rightarrow> (Inl (Hash_failed e), [cr_Hash cred], others s)
          | Match \<Rightarrow> (Inr (cr_Claims cred), [cr_Hash cred], maybeRehash h update email (cr_Hash cred) password (others s))))"

text \<open>What a verifier relies on: a store where \<open>update\<close> is a compare-and-swap of the hash \<open>lookup\<close> reports.\<close>

locale credential_store =
  fixes valid :: "'s \<Rightarrow> bool"
    and lookup :: "string \<Rightarrow> 's \<Rightarrow> auth_error + credential"
    and update :: "string \<Rightarrow> string \<Rightarrow> string \<Rightarrow> 's \<Rightarrow> auth_error option \<times> 's"
  assumes swap: "valid s \<Longrightarrow> lookup e s = Inr c \<Longrightarrow> cr_Hash c = old \<Longrightarrow>
      fst (update e old new s) = None \<and> valid (snd (update e old new s)) \<and> lookup e (snd (update e old new s)) = Inr (c\<lparr>cr_Hash := new\<rparr>)"
    and changed: "lookup e s = Inr c \<Longrightarrow> cr_Hash c \<noteq> old \<Longrightarrow> update e old new s = (Some PwHashChanged, s)"
    and missing: "lookup e s = Inl x \<Longrightarrow> update e old new s = (Some x, s)"
begin

lemma rehash_cases:
  assumes "valid s"
  shows "maybeRehash h update e old pw s = s \<or>
    (\<exists>c new. lookup e s = Inr c \<and> cr_Hash c = old \<and> hs_NeedsRehash h old \<and> hs_Hash h pw = Some new \<and>
      valid (maybeRehash h update e old pw s) \<and> lookup e (maybeRehash h update e old pw s) = Inr (c\<lparr>cr_Hash := new\<rparr>))"
proof (cases "hs_NeedsRehash h old \<and> hs_Hash h pw \<noteq> None")
  case True
  then obtain new where new: "hs_NeedsRehash h old" "hs_Hash h pw = Some new" by blast
  then have m: "maybeRehash h update e old pw s = snd (update e old new s)" by (simp add: maybeRehash_def)
  show ?thesis
  proof (cases "lookup e s")
    case (Inl x)
    then show ?thesis using missing [OF Inl] m by simp
  next
    case (Inr c)
    then show ?thesis
      using changed [OF Inr] swap [OF assms Inr] new m by (cases "cr_Hash c = old") (auto simp del: split_paired_Ex)
  qed
qed (auto simp: maybeRehash_def)

text \<open>A login never undoes a change of the hash made while it ran.\<close>

lemma login_keeps_change:
  assumes "valid (others s)" "lookup email s = Inr c" "\<And>c'. lookup email (others s) = Inr c' \<Longrightarrow> cr_Hash c' \<noteq> cr_Hash c"
  shows "snd (snd (Authenticate h decoy lookup update acq others email pw s)) = others s"
  using rehash_cases [OF assms(1), of h email "cr_Hash c" pw] assms(2,3)
  by (auto simp: Authenticate_def split: compare_result.splits)

lemma login_success:
  assumes "fst (Authenticate h decoy lookup update acq others email pw s) = Inr claims"
  shows "\<exists>c. lookup email s = Inr c \<and> hs_Compare h (cr_Hash c) pw = Match \<and> claims = cr_Claims c"
  using assms by (auto simp: Authenticate_def split: if_splits sum.splits compare_result.splits)

text \<open>After a login in a store nobody else writes to, the same password still logs in.\<close>

lemma login_again:
  assumes v: "valid s" and ok: "fst (Authenticate h decoy lookup update acq (\<lambda>s. s) email pw s) = Inr claims"
    and hash: "\<And>new. hs_Hash h pw = Some new \<Longrightarrow> hs_Compare h new pw = Match"
  shows "fst (Authenticate h decoy lookup update True others email pw (snd (snd (Authenticate h decoy lookup update acq (\<lambda>s. s) email pw s)))) = Inr claims"
proof -
  obtain c where c: "lookup email s = Inr c" "hs_Compare h (cr_Hash c) pw = Match" "claims = cr_Claims c"
    using login_success [OF ok] by blast
  have g: "\<not> (email = [] \<or> length email > MaxEmailLen \<or> pw = [] \<or> length pw > MaxPasswordLen)" "acq"
    using ok by (auto simp: Authenticate_def split: if_splits)
  let ?s = "maybeRehash h update email (cr_Hash c) pw s"
  have s: "snd (snd (Authenticate h decoy lookup update acq (\<lambda>s. s) email pw s)) = ?s" using g c by (simp add: Authenticate_def)
  have "\<exists>c'. lookup email ?s = Inr c' \<and> hs_Compare h (cr_Hash c') pw = Match \<and> cr_Claims c' = claims"
    using rehash_cases [OF v, of h email "cr_Hash c" pw] c hash by auto
  then show ?thesis unfolding s using g(1) by (auto simp: Authenticate_def)
qed

end

interpretation pws: credential_store "\<lambda>_. True" "pw_Lookup nrm" "pw_UpdateHash nrm" for nrm
  by unfold_locales (auto simp: pw_Lookup_def pw_UpdateHash_def split: option.splits if_splits)


section \<open>The invariant of the identity store\<close>

text \<open>The two maps agree: each credential is entered under its identity and its email, and its identity
  exists.\<close>

definition auth_inv :: "auth_mem \<Rightarrow> bool" where
  "auth_inv s \<longleftrightarrow>
    (\<forall>i p. am_byID s i = Some p \<longrightarrow>
      (\<exists>c. am_heap s p = Some c \<and> mc_identityID c = i \<and> am_byEmail s (mc_email c) = Some p \<and> am_identities s i \<noteq> None)) \<and>
    (\<forall>e p. am_byEmail s e = Some p \<longrightarrow> (\<exists>c. am_heap s p = Some c \<and> mc_email c = e \<and> am_byID s (mc_identityID c) = Some p)) \<and>
    (\<forall>p. am_heap s p \<noteq> None \<longrightarrow> p < am_next s)"

lemma auth_inv_byID:
  "auth_inv s \<Longrightarrow> am_byID s i = Some p \<Longrightarrow>
     (\<And>c. am_heap s p = Some c \<Longrightarrow> mc_identityID c = i \<Longrightarrow> am_byEmail s (mc_email c) = Some p \<Longrightarrow> am_identities s i \<noteq> None \<Longrightarrow> P) \<Longrightarrow> P"
  unfolding auth_inv_def by blast

lemma auth_inv_byEmail:
  "auth_inv s \<Longrightarrow> am_byEmail s e = Some p \<Longrightarrow>
     (\<And>c. am_heap s p = Some c \<Longrightarrow> mc_email c = e \<Longrightarrow> am_byID s (mc_identityID c) = Some p \<Longrightarrow> P) \<Longrightarrow> P"
  unfolding auth_inv_def by blast

lemma deref_byID: "auth_inv s \<Longrightarrow> deref s (am_byID s k) = None \<longleftrightarrow> am_byID s k = None"
  by (auto simp: deref_def auth_inv_def split: bind_splits) (metis option.distinct(1))

lemma deref_byEmail: "auth_inv s \<Longrightarrow> deref s (am_byEmail s e) = None \<longleftrightarrow> am_byEmail s e = None"
  by (auto simp: deref_def auth_inv_def split: bind_splits) (metis option.distinct(1))

lemma auth_inv_new: "auth_inv NewAuthStore"
  by (simp add: auth_inv_def NewAuthStore_def)

lemma auth_inv_identities:
  "auth_inv s \<Longrightarrow> (\<forall>j. am_identities s j \<noteq> None \<longrightarrow> ids j \<noteq> None) \<Longrightarrow> auth_inv (s\<lparr>am_identities := ids\<rparr>)"
  by (auto simp: auth_inv_def) metis+

lemma auth_inv_hash:
  assumes i: "auth_inv s" and c: "am_heap s p = Some c"
  shows "auth_inv (s\<lparr>am_heap := (am_heap s)(p \<mapsto> c\<lparr>mc_hash := h\<rparr>)\<rparr>)"
proof -
  let ?s = "s\<lparr>am_heap := (am_heap s)(p \<mapsto> c\<lparr>mc_hash := h\<rparr>)\<rparr>"
  have heap: "\<exists>d'. am_heap ?s q = Some d' \<and> mc_identityID d' = mc_identityID d \<and> mc_email d' = mc_email d" if "am_heap s q = Some d" for q d
    using that c by (cases "q = p") auto
  show ?thesis
    unfolding auth_inv_def
  proof (intro conjI allI impI)
    fix j q assume "am_byID ?s j = Some q"
    then have "am_byID s j = Some q" by simp
    then obtain d where d: "am_heap s q = Some d" "mc_identityID d = j" "am_byEmail s (mc_email d) = Some q" "am_identities s j \<noteq> None"
      using auth_inv_byID [OF i] by metis
    from heap [OF d(1)] d(2-) show "\<exists>c. am_heap ?s q = Some c \<and> mc_identityID c = j \<and> am_byEmail ?s (mc_email c) = Some q \<and> am_identities ?s j \<noteq> None"
      by auto
  next
    fix e q assume "am_byEmail ?s e = Some q"
    then have "am_byEmail s e = Some q" by simp
    then obtain d where d: "am_heap s q = Some d" "mc_email d = e" "am_byID s (mc_identityID d) = Some q"
      using auth_inv_byEmail [OF i] by metis
    from heap [OF d(1)] d(2-) show "\<exists>c. am_heap ?s q = Some c \<and> mc_email c = e \<and> am_byID ?s (mc_identityID c) = Some q" by auto
  next
    fix q assume "am_heap ?s q \<noteq> None"
    then show "q < am_next ?s" using i c by (auto simp: auth_inv_def split: if_splits)
  qed
qed

lemma auth_inv_drop:
  assumes i: "auth_inv s" and k: "am_byID s k = Some p" and c: "am_heap s p = Some c"
  shows "auth_inv (s\<lparr>am_byEmail := (am_byEmail s)(mc_email c := None), am_byID := (am_byID s)(k := None)\<rparr>)"
proof -
  let ?s = "s\<lparr>am_byEmail := (am_byEmail s)(mc_email c := None), am_byID := (am_byID s)(k := None)\<rparr>"
  have ck: "mc_identityID c = k" "am_byEmail s (mc_email c) = Some p" using auth_inv_byID [OF i k] c by auto
  show ?thesis
    unfolding auth_inv_def
  proof (intro conjI allI impI)
    fix j q assume "am_byID ?s j = Some q"
    then have j: "j \<noteq> k" "am_byID s j = Some q" by (auto split: if_splits)
    then obtain d where d: "am_heap s q = Some d" "mc_identityID d = j" "am_byEmail s (mc_email d) = Some q" "am_identities s j \<noteq> None"
      using auth_inv_byID [OF i j(2)] by metis
    have "mc_email d \<noteq> mc_email c" using c ck d j(1) by auto
    then show "\<exists>c. am_heap ?s q = Some c \<and> mc_identityID c = j \<and> am_byEmail ?s (mc_email c) = Some q \<and> am_identities ?s j \<noteq> None"
      using d j(1) by auto
  next
    fix e q assume "am_byEmail ?s e = Some q"
    then have e: "e \<noteq> mc_email c" "am_byEmail s e = Some q" by (auto split: if_splits)
    then obtain d where d: "am_heap s q = Some d" "mc_email d = e" "am_byID s (mc_identityID d) = Some q"
      using auth_inv_byEmail [OF i e(2)] by metis
    have "mc_identityID d \<noteq> k" using d c k e(1) by auto
    then show "\<exists>c. am_heap ?s q = Some c \<and> mc_email c = e \<and> am_byID ?s (mc_identityID c) = Some q" using d by auto
  next
    fix q assume "am_heap ?s q \<noteq> None"
    then show "q < am_next ?s" using i by (auto simp: auth_inv_def)
  qed
qed

lemma auth_inv_forget: "auth_inv s \<Longrightarrow> am_byID s k = None \<Longrightarrow> auth_inv (s\<lparr>am_identities := (am_identities s)(k := None)\<rparr>)"
  by (auto simp: auth_inv_def)

lemma auth_inv_delete:
  assumes i: "auth_inv s"
  shows "auth_inv (snd (DeleteIdentity k s))"
proof (cases "deref s (am_byID s k)")
  case None
  then have "am_byID s k = None" using deref_byID [OF i] by auto
  then show ?thesis using auth_inv_forget [OF i] i None by (simp add: DeleteIdentity_def Let_def)
next
  case (Some c)
  then obtain p where p: "am_byID s k = Some p" "am_heap s p = Some c" by (auto simp: deref_def bind_eq_Some_conv)
  show ?thesis using auth_inv_forget [OF auth_inv_drop [OF i p], of k] i Some by (cases s) (simp add: DeleteIdentity_def Let_def)
qed

text \<open>Entering a fresh credential keeps the agreement when neither map has another entry for it.\<close>

lemma auth_inv_put:
  assumes i: "auth_inv (s\<lparr>am_byID := (am_byID s)(k := None)\<rparr>)" and e: "am_byEmail s email = None" and k: "am_identities s k \<noteq> None"
  shows "auth_inv (put_cred k email hash s)"
proof -
  let ?r = "s\<lparr>am_byID := (am_byID s)(k := None)\<rparr>" and ?s = "put_cred k email hash s" and ?n = "am_next s"
  have fresh: "am_heap s p = Some c \<Longrightarrow> p \<noteq> ?n" for p c using i by (auto simp: auth_inv_def)
  show ?thesis
    unfolding auth_inv_def
  proof (intro conjI allI impI)
    fix j q assume j: "am_byID ?s j = Some q"
    show "\<exists>c. am_heap ?s q = Some c \<and> mc_identityID c = j \<and> am_byEmail ?s (mc_email c) = Some q \<and> am_identities ?s j \<noteq> None"
    proof (cases "j = k")
      case True
      then show ?thesis using j k by (auto simp: put_cred_def)
    next
      case False
      then have "am_byID ?r j = Some q" using j by (simp add: put_cred_def)
      then obtain d where d: "am_heap ?r q = Some d" "mc_identityID d = j" "am_byEmail ?r (mc_email d) = Some q" "am_identities ?r j \<noteq> None"
        using auth_inv_byID [OF i] by metis
      then have "mc_email d \<noteq> email" "q \<noteq> ?n" using e fresh by auto
      then show ?thesis using d by (auto simp: put_cred_def)
    qed
  next
    fix x q assume x: "am_byEmail ?s x = Some q"
    show "\<exists>c. am_heap ?s q = Some c \<and> mc_email c = x \<and> am_byID ?s (mc_identityID c) = Some q"
    proof (cases "x = email")
      case True
      then show ?thesis using x by (auto simp: put_cred_def)
    next
      case False
      then have "am_byEmail ?r x = Some q" using x by (simp add: put_cred_def)
      then obtain d where d: "am_heap ?r q = Some d" "mc_email d = x" "am_byID ?r (mc_identityID d) = Some q"
        using auth_inv_byEmail [OF i] by metis
      then have "mc_identityID d \<noteq> k" "q \<noteq> ?n" using fresh by (auto split: if_splits)
      then show ?thesis using d by (auto simp: put_cred_def)
    qed
  next
    fix q assume "am_heap ?s q \<noteq> None"
    then show "q < am_next ?s" using i by (auto simp: auth_inv_def put_cred_def less_Suc_eq split: if_splits)
  qed
qed


section \<open>Accounts, the abstract store\<close>

record account =
  ac_status :: status
  ac_claims :: identity_claims
  ac_createdAt :: int
  ac_updatedAt :: int
  ac_cred :: "(string \<times> string) option"

type_synonym accounts = "string \<rightharpoonup> account"

definition account_of :: "mem_identity \<Rightarrow> (string \<times> string) option \<Rightarrow> account" where
  "account_of m c = \<lparr>ac_status = mi_status m, ac_claims = mi_claims m, ac_createdAt = mi_createdAt m, ac_updatedAt = mi_updatedAt m, ac_cred = c\<rparr>"

definition cred_of :: "auth_mem \<Rightarrow> string \<Rightarrow> (string \<times> string) option" where
  "cred_of s i = map_option (\<lambda>c. (mc_email c, mc_hash c)) (deref s (am_byID s i))"

definition auth_abs :: "auth_mem \<Rightarrow> accounts" where
  "auth_abs s i = map_option (\<lambda>m. account_of m (cred_of s i)) (am_identities s i)"

datatype auth_call =
    Call_Create string identity_claims | Call_Get string | Call_SetStatus string status | Call_SetClaims string identity_claims
  | Call_Delete string | Call_CreatePassword string string string | Call_SetPassword string string string
  | Call_Lookup string | Call_UpdateHash string string string

datatype auth_reply = R_ok | R_err auth_error | R_identity identity | R_credential credential

definition reply_of :: "auth_error option \<times> auth_mem \<Rightarrow> auth_reply \<times> auth_mem" where
  "reply_of r = (case fst r of None \<Rightarrow> R_ok | Some e \<Rightarrow> R_err e, snd r)"

fun auth_exec :: "(string \<Rightarrow> string) \<Rightarrow> int \<Rightarrow> auth_call \<Rightarrow> auth_mem \<Rightarrow> auth_reply \<times> auth_mem" where
  "auth_exec nrm now (Call_Create i cl) s = (case CreateIdentity now i cl s of (Inl e, s') \<Rightarrow> (R_err e, s') | (Inr x, s') \<Rightarrow> (R_identity x, s'))"
| "auth_exec nrm now (Call_Get i) s = (case GetIdentity i s of Inl e \<Rightarrow> R_err e | Inr x \<Rightarrow> R_identity x, s)"
| "auth_exec nrm now (Call_SetStatus i st) s = reply_of (SetIdentityStatus now i st s)"
| "auth_exec nrm now (Call_SetClaims i cl) s = reply_of (SetIdentityClaims now i cl s)"
| "auth_exec nrm now (Call_Delete i) s = reply_of (DeleteIdentity i s)"
| "auth_exec nrm now (Call_CreatePassword i e h) s = reply_of (CreatePassword nrm i e h s)"
| "auth_exec nrm now (Call_SetPassword i e h) s = reply_of (SetPassword nrm i e h s)"
| "auth_exec nrm now (Call_Lookup e) s = (case auth_Lookup nrm e s of Inl x \<Rightarrow> R_err x | Inr c \<Rightarrow> R_credential c, s)"
| "auth_exec nrm now (Call_UpdateHash e old new) s = reply_of (auth_UpdateHash nrm e old new s)"

text \<open>What each call may answer and do to the accounts.\<close>

definition owns :: "accounts \<Rightarrow> string \<Rightarrow> string \<Rightarrow> string \<Rightarrow> account \<Rightarrow> bool" where
  "owns A i e h a \<longleftrightarrow> A i = Some a \<and> ac_cred a = Some (e, h)"

definition taken :: "accounts \<Rightarrow> string \<Rightarrow> string \<Rightarrow> bool" where
  "taken A e i \<longleftrightarrow> (\<exists>j h a. j \<noteq> i \<and> owns A j e h a)"

definition login_cred :: "string \<Rightarrow> string \<Rightarrow> account \<Rightarrow> credential" where
  "login_cred i h a = \<lparr>cr_Hash = h, cr_Claims = no_claims\<lparr>cs_Subject := i, cs_Roles := ic_Roles (ac_claims a),
     cs_Groups := ic_Groups (ac_claims a), cs_Entitlements := ic_Entitlements (ac_claims a)\<rparr>\<rparr>"

definition active_owner :: "(string \<Rightarrow> string) \<Rightarrow> accounts \<Rightarrow> string \<Rightarrow> string \<Rightarrow> string \<Rightarrow> string \<Rightarrow> account \<Rightarrow> bool" where
  "active_owner nrm A email i e h a \<longleftrightarrow> NormalizeEmail nrm email = Some e \<and> owns A i e h a \<and> ac_status a = StatusActive"

definition account_view :: "string \<Rightarrow> account \<Rightarrow> identity" where
  "account_view i a = \<lparr>id_ID = i, id_Status = ac_status a, id_Claims = ac_claims a, id_CreatedAt = ac_createdAt a, id_UpdatedAt = ac_updatedAt a\<rparr>"

definition sp_update :: "string \<Rightarrow> bool \<Rightarrow> (account \<Rightarrow> account) \<Rightarrow> accounts \<Rightarrow> auth_reply \<Rightarrow> accounts \<Rightarrow> bool" where
  "sp_update i ok f A r A' \<longleftrightarrow>
    (if \<not> ValidIdentityID i \<or> \<not> ok then r = R_err InvalidInput \<and> A' = A
     else case A i of None \<Rightarrow> r = R_err IdNotFound \<and> A' = A | Some a \<Rightarrow> r = R_ok \<and> A' = A(i \<mapsto> f a))"

definition sp_password :: "(string \<Rightarrow> string) \<Rightarrow> bool \<Rightarrow> string \<Rightarrow> string \<Rightarrow> string \<Rightarrow> accounts \<Rightarrow> auth_reply \<Rightarrow> accounts \<Rightarrow> bool" where
  "sp_password nrm replace i email h A r A' \<longleftrightarrow>
    (case NormalizeEmail nrm email of
       None \<Rightarrow> r = R_err InvalidInput \<and> A' = A
     | Some e \<Rightarrow>
         if \<not> ValidIdentityID i then r = R_err InvalidInput \<and> A' = A
         else case A i of
           None \<Rightarrow> r = R_err IdNotFound \<and> A' = A
         | Some a \<Rightarrow>
             if taken A e i then r = R_err EmailTaken \<and> A' = A
             else if \<not> replace \<and> ac_cred a \<noteq> None then r = R_err IdExists \<and> A' = A
             else r = R_ok \<and> A' = A(i \<mapsto> a\<lparr>ac_cred := Some (e, h)\<rparr>))"

fun auth_spec :: "(string \<Rightarrow> string) \<Rightarrow> int \<Rightarrow> auth_call \<Rightarrow> accounts \<Rightarrow> auth_reply \<Rightarrow> accounts \<Rightarrow> bool" where
  "auth_spec nrm now (Call_Create i cl) A r A' \<longleftrightarrow>
    (if \<not> ValidIdentityID i then r = R_err InvalidInput \<and> A' = A
     else if A i \<noteq> None then r = R_err IdExists \<and> A' = A
     else let a = \<lparr>ac_status = StatusActive, ac_claims = cl, ac_createdAt = now, ac_updatedAt = now, ac_cred = None\<rparr>
       in r = R_identity (account_view i a) \<and> A' = A(i \<mapsto> a))"
| "auth_spec nrm now (Call_Get i) A r A' \<longleftrightarrow> A' = A \<and>
    (if \<not> ValidIdentityID i then r = R_err InvalidInput
     else case A i of None \<Rightarrow> r = R_err IdNotFound | Some a \<Rightarrow> r = R_identity (account_view i a))"
| "auth_spec nrm now (Call_SetStatus i st) A r A' \<longleftrightarrow>
    sp_update i (st = StatusActive \<or> st = StatusDisabled) (\<lambda>a. a\<lparr>ac_status := st, ac_updatedAt := now\<rparr>) A r A'"
| "auth_spec nrm now (Call_SetClaims i cl) A r A' \<longleftrightarrow> sp_update i True (\<lambda>a. a\<lparr>ac_claims := cl, ac_updatedAt := now\<rparr>) A r A'"
| "auth_spec nrm now (Call_Delete i) A r A' \<longleftrightarrow>
    (if \<not> ValidIdentityID i then r = R_err InvalidInput \<and> A' = A else r = R_ok \<and> A' = A(i := None))"
| "auth_spec nrm now (Call_CreatePassword i e h) A r A' \<longleftrightarrow> sp_password nrm False i e h A r A'"
| "auth_spec nrm now (Call_SetPassword i e h) A r A' \<longleftrightarrow> sp_password nrm True i e h A r A'"
| "auth_spec nrm now (Call_Lookup email) A r A' \<longleftrightarrow> A' = A \<and>
    ((\<exists>i e h a. active_owner nrm A email i e h a \<and> r = R_credential (login_cred i h a)) \<or>
     (\<nexists>i e h a. active_owner nrm A email i e h a) \<and> r = R_err PwNotFound)"
| "auth_spec nrm now (Call_UpdateHash email old new) A r A' \<longleftrightarrow>
    (\<exists>i e h a. active_owner nrm A email i e h a \<and>
       (if h \<noteq> old then r = R_err PwHashChanged \<and> A' = A else r = R_ok \<and> A' = A(i \<mapsto> a\<lparr>ac_cred := Some (e, new)\<rparr>))) \<or>
    (\<nexists>i e h a. active_owner nrm A email i e h a) \<and> r = R_err PwNotFound \<and> A' = A"


section \<open>The store refines the accounts\<close>

lemma owns_abs:
  "owns (auth_abs s) i e h a \<longleftrightarrow>
    (\<exists>m p c. am_identities s i = Some m \<and> am_byID s i = Some p \<and> am_heap s p = Some c \<and> mc_email c = e \<and> mc_hash c = h \<and>
      a = account_of m (Some (e, h)))"
  by (auto simp: owns_def auth_abs_def account_of_def cred_of_def deref_def bind_eq_Some_conv)

lemma owns_email: "auth_inv s \<Longrightarrow> owns (auth_abs s) i e h a \<Longrightarrow> \<exists>p c. am_byEmail s e = Some p \<and> am_heap s p = Some c \<and> mc_identityID c = i \<and> mc_hash c = h"
  unfolding owns_abs using auth_inv_byID [of s i] by (metis option.inject)

lemma email_owns:
  assumes i: "auth_inv s" and e: "am_byEmail s e = Some p" and c: "am_heap s p = Some c"
  shows "\<exists>m. am_identities s (mc_identityID c) = Some m \<and> owns (auth_abs s) (mc_identityID c) e (mc_hash c) (account_of m (Some (e, mc_hash c)))"
proof -
  have c2: "mc_email c = e" "am_byID s (mc_identityID c) = Some p" using auth_inv_byEmail [OF i e] c by auto
  then obtain m where "am_identities s (mc_identityID c) = Some m" using auth_inv_byID [OF i c2(2)] by auto
  then show ?thesis using c c2 by (auto simp: owns_abs)
qed

lemma other_owner_taken: "auth_inv s \<Longrightarrow> other_owner s e i \<longleftrightarrow> taken (auth_abs s) e i"
proof
  assume i: "auth_inv s" and "other_owner s e i"
  then obtain p c where "am_byEmail s e = Some p" "am_heap s p = Some c" "mc_identityID c \<noteq> i"
    by (auto simp: other_owner_def deref_def bind_eq_Some_conv split: option.splits)
  then show "taken (auth_abs s) e i" using email_owns [OF i] unfolding taken_def by blast
next
  assume i: "auth_inv s" and "taken (auth_abs s) e i"
  then obtain j h a where "j \<noteq> i" "owns (auth_abs s) j e h a" by (auto simp: taken_def)
  then show "other_owner s e i" using owns_email [OF i] by (fastforce simp: other_owner_def deref_def)
qed

lemma activeCredential_owner:
  assumes i: "auth_inv s"
  shows "activeCredential nrm email s = Some (p, c, m) \<Longrightarrow> am_heap s p = Some c \<and> am_identities s (mc_identityID c) = Some m \<and>
      am_byID s (mc_identityID c) = Some p \<and>
      active_owner nrm (auth_abs s) email (mc_identityID c) (mc_email c) (mc_hash c) (account_of m (Some (mc_email c, mc_hash c)))"
    and "activeCredential nrm email s = None \<Longrightarrow> \<not> active_owner nrm (auth_abs s) email k e h a"
proof -
  assume "activeCredential nrm email s = Some (p, c, m)"
  then obtain e where e: "NormalizeEmail nrm email = Some e" "am_byEmail s e = Some p" "am_heap s p = Some c"
    "am_identities s (mc_identityID c) = Some m" "mi_status m = StatusActive"
    by (auto simp: activeCredential_def split: option.splits if_splits)
  have "mc_email c = e" "am_byID s (mc_identityID c) = Some p" using auth_inv_byEmail [OF i e(2)] e(3) by auto
  then show "am_heap s p = Some c \<and> am_identities s (mc_identityID c) = Some m \<and> am_byID s (mc_identityID c) = Some p \<and>
      active_owner nrm (auth_abs s) email (mc_identityID c) (mc_email c) (mc_hash c) (account_of m (Some (mc_email c, mc_hash c)))"
    using e email_owns [OF i e(2,3)] by (auto simp: active_owner_def account_of_def)
next
  assume n: "activeCredential nrm email s = None"
  show "\<not> active_owner nrm (auth_abs s) email k e h a"
  proof
    assume "active_owner nrm (auth_abs s) email k e h a"
    then have o: "NormalizeEmail nrm email = Some e" "owns (auth_abs s) k e h a" "ac_status a = StatusActive" by (auto simp: active_owner_def)
    obtain p c where "am_byEmail s e = Some p" "am_heap s p = Some c" "mc_identityID c = k" using owns_email [OF i o(2)] by blast
    moreover obtain m where "am_identities s k = Some m" "mi_status m = StatusActive" using o(2,3) by (auto simp: owns_abs account_of_def)
    ultimately show False using n o(1) by (auto simp: activeCredential_def)
  qed
qed

lemma abs_put:
  assumes "\<And>p. am_heap s p \<noteq> None \<Longrightarrow> p < am_next s" "am_identities s i = Some m"
    and "\<And>j q. am_byID s j = Some q \<Longrightarrow> am_heap s q \<noteq> None"
  shows "auth_abs (put_cred i e h s) = (auth_abs s)(i \<mapsto> account_of m (Some (e, h)))"
proof
  fix j
  show "auth_abs (put_cred i e h s) j = ((auth_abs s)(i \<mapsto> account_of m (Some (e, h)))) j"
  proof (cases "j = i")
    case True
    then show ?thesis using assms(2) by (simp add: auth_abs_def put_cred_def cred_of_def deref_def)
  next
    case False
    have "am_byID s j \<noteq> Some (am_next s)" using assms(1,3) by fastforce
    then have "cred_of (put_cred i e h s) j = cred_of s j" using False
      by (cases "am_byID s j") (auto simp: put_cred_def cred_of_def deref_def)
    then show ?thesis using False by (simp add: auth_abs_def put_cred_def)
  qed
qed

lemma inv_heap: "auth_inv s \<Longrightarrow> am_heap s p \<noteq> None \<Longrightarrow> p < am_next s" "auth_inv s \<Longrightarrow> am_byID s j = Some q \<Longrightarrow> am_heap s q \<noteq> None"
  by (auto simp: auth_inv_def) blast

lemma abs_hash:
  assumes "am_byID s i = Some p" "am_heap s p = Some c" "am_identities s i = Some m" "\<And>j. am_byID s j = Some p \<Longrightarrow> j = i"
  shows "auth_abs (s\<lparr>am_heap := (am_heap s)(p \<mapsto> c\<lparr>mc_hash := h\<rparr>)\<rparr>) = (auth_abs s)(i \<mapsto> account_of m (Some (mc_email c, h)))"
proof
  fix j
  show "auth_abs (s\<lparr>am_heap := (am_heap s)(p \<mapsto> c\<lparr>mc_hash := h\<rparr>)\<rparr>) j = ((auth_abs s)(i \<mapsto> account_of m (Some (mc_email c, h)))) j"
  proof (cases "j = i")
    case True
    then show ?thesis using assms(1-3) by (simp add: auth_abs_def cred_of_def deref_def)
  next
    case False
    then have "am_byID s j \<noteq> Some p" using assms(4) by blast
    then show ?thesis using False by (cases "am_byID s j") (simp_all add: auth_abs_def cred_of_def deref_def)
  qed
qed


lemma abs_frame:
  "am_byID s' = am_byID s \<Longrightarrow> am_heap s' = am_heap s \<Longrightarrow> cred_of s' = cred_of s"
  by (rule ext) (simp add: cred_of_def deref_def)

lemma put_step:
  assumes i: "auth_inv s" and m: "am_identities s k = Some m" and e: "\<not> other_owner s e k"
  defines "s1 \<equiv> (case deref s (am_byID s k) of None \<Rightarrow> s | Some old \<Rightarrow> s\<lparr>am_byEmail := (am_byEmail s)(mc_email old := None)\<rparr>)"
  shows "auth_inv (put_cred k e h s1) \<and> auth_abs (put_cred k e h s1) = (auth_abs s)(k \<mapsto> account_of m (Some (e, h)))"
proof
  have own: "mc_identityID c = k \<and> am_byID s k = Some p" if "am_byEmail s e = Some p" "am_heap s p = Some c" for p c
    using e that auth_inv_byEmail [OF i that(1)] by (auto simp: other_owner_def deref_def)
  have r: "auth_inv (s1\<lparr>am_byID := (am_byID s1)(k := None)\<rparr>) \<and> am_byEmail s1 e = None"
  proof (cases "deref s (am_byID s k)")
    case None
    then have n: "am_byID s k = None" using deref_byID [OF i] by blast
    have "am_byEmail s e = None" using own n auth_inv_byEmail [OF i] by (metis not_None_eq)
    moreover have "(am_byID s)(k := None) = am_byID s" using n by auto
    ultimately show ?thesis using i None by (simp add: s1_def)
  next
    case (Some c)
    then obtain p where p: "am_byID s k = Some p" "am_heap s p = Some c" by (auto simp: deref_def bind_eq_Some_conv)
    have "am_byEmail s e = None \<or> e = mc_email c" using own p auth_inv_byEmail [OF i] by (metis not_None_eq option.inject)
    then show ?thesis using auth_inv_drop [OF i p] Some by (auto simp: s1_def)
  qed
  moreover have "am_identities s1 k = Some m" using m by (auto simp: s1_def split: option.splits)
  ultimately show "auth_inv (put_cred k e h s1)" by (intro auth_inv_put) auto
  have f: "am_heap s1 = am_heap s" "am_next s1 = am_next s" "am_byID s1 = am_byID s" "am_identities s1 = am_identities s"
    by (auto simp: s1_def split: option.splits)
  have "auth_abs s1 = auth_abs s" using f abs_frame [of s1 s] by (simp add: auth_abs_def fun_eq_iff)
  moreover have "auth_abs (put_cred k e h s1) = (auth_abs s1)(k \<mapsto> account_of m (Some (e, h)))"
    using inv_heap [OF i] m by (intro abs_put) (simp_all add: f)
  ultimately show "auth_abs (put_cred k e h s1) = (auth_abs s)(k \<mapsto> account_of m (Some (e, h)))" by simp
qed

lemma SetPassword_refines:
  assumes "auth_inv s" "reply_of (SetPassword nrm i email h s) = (r, s')"
  shows "auth_inv s' \<and> sp_password nrm True i email h (auth_abs s) r (auth_abs s')"
proof (cases "NormalizeEmail nrm email")
  case None
  then show ?thesis using assms by (auto simp: SetPassword_def reply_of_def sp_password_def)
next
  case (Some e)
  show ?thesis
  proof (cases "ValidIdentityID i \<and> am_identities s i \<noteq> None \<and> \<not> other_owner s e i")
    case True
    then obtain m where m: "am_identities s i = Some m" by blast
    from put_step [OF assms(1) m, of e h] show ?thesis
      using assms True Some m by (auto simp: SetPassword_def reply_of_def sp_password_def Let_def other_owner_taken auth_abs_def account_of_def)
  next
    case False
    then show ?thesis
      using assms Some by (auto simp: SetPassword_def reply_of_def sp_password_def other_owner_taken auth_abs_def split: if_splits)
  qed
qed

lemma CreatePassword_refines:
  assumes "auth_inv s" "reply_of (CreatePassword nrm i email h s) = (r, s')"
  shows "auth_inv s' \<and> sp_password nrm False i email h (auth_abs s) r (auth_abs s')"
proof (cases "NormalizeEmail nrm email")
  case None
  then show ?thesis using assms by (auto simp: CreatePassword_def reply_of_def sp_password_def)
next
  case (Some e)
  have c: "am_byID s i \<noteq> None \<longleftrightarrow> cred_of s i \<noteq> None" using deref_byID [OF assms(1)] by (simp add: cred_of_def)
  show ?thesis
  proof (cases "ValidIdentityID i \<and> am_identities s i \<noteq> None \<and> \<not> other_owner s e i \<and> am_byID s i = None")
    case True
    then obtain m where m: "am_identities s i = Some m" by blast
    have "deref s (am_byID s i) = None" using True by (simp add: deref_def)
    with put_step [OF assms(1) m, of e h] show ?thesis
      using assms True Some m c by (auto simp: CreatePassword_def reply_of_def sp_password_def Let_def other_owner_taken auth_abs_def account_of_def)
  next
    case False
    then show ?thesis
      using assms Some c by (auto simp: CreatePassword_def reply_of_def sp_password_def other_owner_taken auth_abs_def account_of_def split: if_splits)
  qed
qed


lemma identities_refine:
  assumes "auth_inv s" "am_identities s i = Some m"
  shows "auth_inv (s\<lparr>am_identities := (am_identities s)(i \<mapsto> m')\<rparr>)"
    "auth_abs (s\<lparr>am_identities := (am_identities s)(i \<mapsto> m')\<rparr>) = (auth_abs s)(i \<mapsto> account_of m' (cred_of s i))"
  using assms by (auto intro: auth_inv_identities simp: auth_abs_def cred_of_def deref_def fun_eq_iff)

lemma UpdateHash_step:
  assumes i: "auth_inv s" and a: "activeCredential nrm email s = Some (p, c, m)"
  shows "auth_inv (s\<lparr>am_heap := (am_heap s)(p \<mapsto> c\<lparr>mc_hash := h\<rparr>)\<rparr>)"
    "auth_abs (s\<lparr>am_heap := (am_heap s)(p \<mapsto> c\<lparr>mc_hash := h\<rparr>)\<rparr>) = (auth_abs s)(mc_identityID c \<mapsto> account_of m (Some (mc_email c, h)))"
proof -
  have o: "am_heap s p = Some c" "am_identities s (mc_identityID c) = Some m" "am_byID s (mc_identityID c) = Some p"
    using activeCredential_owner(1) [OF i a] by auto
  show "auth_inv (s\<lparr>am_heap := (am_heap s)(p \<mapsto> c\<lparr>mc_hash := h\<rparr>)\<rparr>)" by (rule auth_inv_hash [OF i o(1)])
  have "j = mc_identityID c" if "am_byID s j = Some p" for j using auth_inv_byID [OF i that] o(1) by auto
  then show "auth_abs (s\<lparr>am_heap := (am_heap s)(p \<mapsto> c\<lparr>mc_hash := h\<rparr>)\<rparr>) = (auth_abs s)(mc_identityID c \<mapsto> account_of m (Some (mc_email c, h)))"
    by (rule abs_hash [OF o(3,1,2)])
qed

lemma login_cred_eq: "credential_of c m = login_cred (mc_identityID c) (mc_hash c) (account_of m x)"
  by (simp add: credential_of_def login_cred_def account_of_def)

lemma UpdateHash_refines:
  assumes i: "auth_inv s" and r: "reply_of (auth_UpdateHash nrm email old new s) = (r, s')"
  shows "auth_inv s' \<and> auth_spec nrm now (Call_UpdateHash email old new) (auth_abs s) r (auth_abs s')"
proof (cases "activeCredential nrm email s")
  case None
  then show ?thesis using r i activeCredential_owner(2) [OF i None] by (simp add: auth_UpdateHash_def reply_of_def)
next
  case (Some x)
  obtain p c m where x: "x = (p, c, m)" by (rule prod_cases3)
  note a = Some [unfolded x]
  let ?a = "account_of m (Some (mc_email c, mc_hash c))"
  have o: "active_owner nrm (auth_abs s) email (mc_identityID c) (mc_email c) (mc_hash c) ?a" using activeCredential_owner(1) [OF i a] by blast
  have u: "?a\<lparr>ac_cred := Some (mc_email c, new)\<rparr> = account_of m (Some (mc_email c, new))" by (simp add: account_of_def)
  show ?thesis
  proof (cases "mc_hash c = old")
    case True
    then have "r = R_ok" "s' = s\<lparr>am_heap := (am_heap s)(p \<mapsto> c\<lparr>mc_hash := new\<rparr>)\<rparr>" using r a by (auto simp: auth_UpdateHash_def reply_of_def)
    then show ?thesis using UpdateHash_step [OF i a, of new] o True u by (simp del: split_paired_Ex) metis
  next
    case False
    then have "r = R_err PwHashChanged" "s' = s" using r a by (auto simp: auth_UpdateHash_def reply_of_def)
    then show ?thesis using i o False by (simp del: split_paired_Ex) metis
  qed
qed

lemma Lookup_refines:
  assumes i: "auth_inv s"
  shows "auth_spec nrm now (Call_Lookup email) (auth_abs s) (case auth_Lookup nrm email s of Inl x \<Rightarrow> R_err x | Inr c \<Rightarrow> R_credential c) (auth_abs s)"
proof (cases "activeCredential nrm email s")
  case None
  then show ?thesis using activeCredential_owner(2) [OF i None] by (simp add: auth_Lookup_def)
next
  case (Some x)
  obtain p c m where x: "x = (p, c, m)" by (rule prod_cases3)
  have "active_owner nrm (auth_abs s) email (mc_identityID c) (mc_email c) (mc_hash c) (account_of m (Some (mc_email c, mc_hash c)))"
    using activeCredential_owner(1) [OF i Some [unfolded x]] by blast
  moreover have "auth_Lookup nrm email s = Inr (login_cred (mc_identityID c) (mc_hash c) (account_of m (Some (mc_email c, mc_hash c))))"
    using Some x by (simp add: auth_Lookup_def login_cred_eq)
  ultimately show ?thesis by (auto simp del: split_paired_Ex)
qed

lemma Delete_abs:
  assumes "auth_inv s" "ValidIdentityID i"
  shows "auth_abs (snd (DeleteIdentity i s)) = (auth_abs s)(i := None)"
proof
  fix j
  have "cred_of (snd (DeleteIdentity i s)) j = cred_of s j" if "j \<noteq> i"
    using that assms(2) by (auto simp: DeleteIdentity_def Let_def cred_of_def deref_def split: option.splits)
  moreover have "am_identities (snd (DeleteIdentity i s)) = (am_identities s)(i := None)"
    using assms(2) by (simp add: DeleteIdentity_def Let_def split: option.splits)
  ultimately show "auth_abs (snd (DeleteIdentity i s)) j = ((auth_abs s)(i := None)) j" by (simp add: auth_abs_def)
qed

lemma auth_step:
  assumes i: "auth_inv s" and e: "auth_exec nrm now call s = (r, s')"
  shows "auth_inv s' \<and> auth_spec nrm now call (auth_abs s) r (auth_abs s')"
proof (cases call)
  case (Call_Create k cl)
  have c: "cred_of s k = None" if "am_identities s k = None"
    using that auth_inv_byID [OF i, of k] by (cases "am_byID s k") (auto simp: cred_of_def deref_def)
  have n: "auth_inv (s\<lparr>am_identities := (am_identities s)(k \<mapsto> m)\<rparr>)" for m by (rule auth_inv_identities [OF i]) auto
  have a: "auth_abs (s\<lparr>am_identities := (am_identities s)(k \<mapsto> m)\<rparr>) = (auth_abs s)(k \<mapsto> account_of m (cred_of s k))" for m
    by (auto simp: auth_abs_def cred_of_def deref_def fun_eq_iff)
  show ?thesis using i e n a c unfolding Call_Create
    by (auto simp: CreateIdentity_def Let_def auth_abs_def account_view_def identity_of_def account_of_def split: if_splits)
next
  case (Call_Get k)
  then show ?thesis using i e
    by (auto simp: GetIdentity_def auth_abs_def account_view_def identity_of_def account_of_def split: option.splits)
next
  case (Call_SetStatus k st)
  then show ?thesis using i e identities_refine [OF i, of k]
    by (auto simp: SetIdentityStatus_def reply_of_def sp_update_def auth_abs_def account_of_def split: if_splits option.splits)
next
  case (Call_SetClaims k cl)
  then show ?thesis using i e identities_refine [OF i, of k]
    by (auto simp: SetIdentityClaims_def reply_of_def sp_update_def auth_abs_def account_of_def split: if_splits option.splits)
next
  case (Call_Delete k)
  then have s: "s' = snd (DeleteIdentity k s)" "r = (case fst (DeleteIdentity k s) of None \<Rightarrow> R_ok | Some e \<Rightarrow> R_err e)"
    using e by (auto simp: reply_of_def)
  show ?thesis
  proof (cases "ValidIdentityID k")
    case True
    then have "r = R_ok" using s(2) by (simp add: DeleteIdentity_def Let_def split: option.splits)
    then show ?thesis using Delete_abs [OF i True] auth_inv_delete [OF i, of k] True s(1) Call_Delete by simp
  next
    case False
    then show ?thesis using i s Call_Delete by (simp add: DeleteIdentity_def)
  qed
next
  case (Call_CreatePassword k em h)
  then show ?thesis using CreatePassword_refines [OF i] e by simp
next
  case (Call_SetPassword k em h)
  then show ?thesis using SetPassword_refines [OF i] e by simp
next
  case (Call_Lookup em)
  then show ?thesis using Lookup_refines [OF i, of nrm now em] e i by (auto simp del: auth_spec.simps)
next
  case (Call_UpdateHash em old new)
  then show ?thesis using UpdateHash_refines [OF i, of nrm em old new r s' now] e by (simp del: auth_spec.simps)
qed


interpretation ams: credential_store auth_inv "auth_Lookup nrm" "auth_UpdateHash nrm" for nrm
proof unfold_locales
  fix s e c old new
  assume i: "auth_inv s" and l: "auth_Lookup nrm e s = Inr c" and h: "cr_Hash c = old"
  obtain p d m where a: "activeCredential nrm e s = Some (p, d, m)" "c = credential_of d m"
    using l by (auto simp: auth_Lookup_def split: option.splits)
  let ?s = "s\<lparr>am_heap := (am_heap s)(p \<mapsto> d\<lparr>mc_hash := new\<rparr>)\<rparr>"
  have u: "auth_UpdateHash nrm e old new s = (None, ?s)" using a h by (simp add: auth_UpdateHash_def credential_of_def)
  have "activeCredential nrm e ?s = Some (p, d\<lparr>mc_hash := new\<rparr>, m)"
    using a(1) by (auto simp: activeCredential_def split: option.splits if_splits)
  then have "auth_Lookup nrm e ?s = Inr (c\<lparr>cr_Hash := new\<rparr>)" using a(2) by (simp add: auth_Lookup_def credential_of_def)
  then show "fst (auth_UpdateHash nrm e old new s) = None \<and> auth_inv (snd (auth_UpdateHash nrm e old new s)) \<and>
      auth_Lookup nrm e (snd (auth_UpdateHash nrm e old new s)) = Inr (c\<lparr>cr_Hash := new\<rparr>)"
    using UpdateHash_step(1) [OF i a(1)] u by simp
qed (auto simp: auth_Lookup_def auth_UpdateHash_def credential_of_def split: option.splits)

section \<open>Properties\<close>

fun auth_run :: "(string \<Rightarrow> string) \<Rightarrow> (int \<times> auth_call) list \<Rightarrow> auth_mem \<Rightarrow> auth_reply list \<times> auth_mem" where
  "auth_run nrm [] s = ([], s)"
| "auth_run nrm ((now, call) # calls) s =
    (let (r, s1) = auth_exec nrm now call s; (rs, s2) = auth_run nrm calls s1 in (r # rs, s2))"

fun spec_run :: "(string \<Rightarrow> string) \<Rightarrow> (int \<times> auth_call) list \<Rightarrow> accounts \<Rightarrow> auth_reply list \<Rightarrow> accounts \<Rightarrow> bool" where
  "spec_run nrm [] A rs A' \<longleftrightarrow> rs = [] \<and> A' = A"
| "spec_run nrm ((now, call) # calls) A [] A' \<longleftrightarrow> False"
| "spec_run nrm ((now, call) # calls) A (r # rs) A' \<longleftrightarrow> (\<exists>A1. auth_spec nrm now call A r A1 \<and> spec_run nrm calls A1 rs A')"

lemma auth_run_refines:
  "auth_inv s \<Longrightarrow> auth_run nrm calls s = (rs, s') \<Longrightarrow> auth_inv s' \<and> spec_run nrm calls (auth_abs s) rs (auth_abs s')"
proof (induction calls arbitrary: s rs s')
  case (Cons c calls)
  obtain now call where c: "c = (now, call)" by (cases c)
  obtain r s1 where e: "auth_exec nrm now call s = (r, s1)" by (rule prod.exhaust)
  obtain rs1 s2 where r: "auth_run nrm calls s1 = (rs1, s2)" by (rule prod.exhaust)
  have step: "auth_inv s1" "auth_spec nrm now call (auth_abs s) r (auth_abs s1)" using auth_step [OF Cons.prems(1) e] by auto
  have "rs = r # rs1" "s' = s2" using Cons.prems(2) by (auto simp: c e r)
  then show ?case using Cons.IH [OF step(1) r] step(2) c by auto
qed simp

lemma auth_abs_new: "auth_abs NewAuthStore = Map.empty"
  by (simp add: auth_abs_def NewAuthStore_def fun_eq_iff)

text \<open>C22: The in-process identity store is a map of accounts. Every run of calls from the empty store answers as the
  specification allows: an account has a status, claims and at most one credential; an email belongs to at most
  one account; conflicts are reported in the order not found, email taken, already exists; a lookup returns the
  credential of the active owner of the normalised email, and the hash is swapped only when it is the expected
  one.\<close>

theorem auth_store_refines:
  assumes "auth_run nrm calls NewAuthStore = (rs, s)"
  shows "spec_run nrm calls Map.empty rs (auth_abs s)"
  using auth_run_refines [OF auth_inv_new assms] by (simp add: auth_abs_new)

definition auth_sample :: "(int \<times> auth_call) list" where
  "auth_sample =
    [(1, Call_Create ''u1'' \<lparr>ic_Roles = [''admin''], ic_Groups = [], ic_Entitlements = []\<rparr>), (2, Call_CreatePassword ''u1'' ''a@x'' ''h1''),
     (3, Call_Create ''u2'' \<lparr>ic_Roles = [], ic_Groups = [], ic_Entitlements = []\<rparr>), (4, Call_SetPassword ''u2'' ''a@x'' ''h2''),
     (5, Call_SetPassword ''u1'' ''b@x'' ''h3''), (6, Call_UpdateHash ''b@x'' ''h3'' ''h4''), (7, Call_SetStatus ''u1'' StatusDisabled),
     (8, Call_Lookup ''b@x'')]"

theorem auth_store_refines_witness:
  "spec_run (\<lambda>e. e) auth_sample Map.empty (fst (auth_run (\<lambda>e. e) auth_sample NewAuthStore)) (auth_abs (snd (auth_run (\<lambda>e. e) auth_sample NewAuthStore))) \<and>
   map (\<lambda>r. r = R_ok) (fst (auth_run (\<lambda>e. e) auth_sample NewAuthStore)) = [False, True, False, False, True, True, True, False] \<and>
   fst (auth_run (\<lambda>e. e) auth_sample NewAuthStore) ! 3 = R_err EmailTaken"
proof -
  have "map (\<lambda>r. r = R_ok) (fst (auth_run (\<lambda>e. e) auth_sample NewAuthStore)) = [False, True, False, False, True, True, True, False]" by code_simp
  moreover have "fst (auth_run (\<lambda>e. e) auth_sample NewAuthStore) ! 3 = R_err EmailTaken" by code_simp
  ultimately show ?thesis using auth_store_refines by (metis prod.collapse)
qed

text \<open>No email has two owners: in every reachable state two identities whose credentials carry the same email are
  one identity, and the email index leads to it.\<close>

theorem auth_email_unique:
  assumes "auth_run nrm calls NewAuthStore = (rs, s)" "owns (auth_abs s) i e h a" "owns (auth_abs s) j e h' a'"
  shows "i = j \<and> h = h' \<and> map_option (\<lambda>c. (mc_identityID c, mc_hash c)) (deref s (am_byEmail s e)) = Some (i, h)"
proof -
  have inv: "auth_inv s" using auth_run_refines [OF auth_inv_new assms(1)] by blast
  from owns_email [OF inv assms(2)] owns_email [OF inv assms(3)] show ?thesis by (auto simp: deref_def)
qed

theorem auth_email_unique_witness:
  "map_option (\<lambda>c. (mc_identityID c, mc_hash c)) (deref (snd (auth_run (\<lambda>e. e) auth_sample NewAuthStore))
     (am_byEmail (snd (auth_run (\<lambda>e. e) auth_sample NewAuthStore)) ''b@x'')) = Some (''u1'', ''h4'')"
proof -
  let ?s = "snd (auth_run (\<lambda>e. e) auth_sample NewAuthStore)"
  have "map_option ac_cred (auth_abs ?s ''u1'') = Some (Some (''b@x'', ''h4''))" by code_simp
  then obtain a where "owns (auth_abs ?s) ''u1'' ''b@x'' ''h4'' a" by (auto simp: owns_def)
  then show ?thesis using auth_email_unique [of "\<lambda>e. e" auth_sample _ ?s "''u1''" "''b@x''" "''h4''" a] by (metis prod.collapse)
qed


text \<open>Calls of others keep the invariant, so the laws of the store apply after them.\<close>

lemma auth_reachable: "auth_run nrm calls NewAuthStore = (rs, s) \<Longrightarrow> auth_inv s \<and> auth_inv (snd (auth_run nrm later s))"
  using auth_run_refines [OF auth_inv_new] auth_run_refines [of s nrm later] by (metis prod.collapse)

text \<open>C26: A login never undoes a password change. Whatever calls other clients make between the lookup and the
  write of a rehashed password, the store after the login is the one those calls left, or the hash the login
  verified was still current, and then the account logs in with a hash of the password just verified and
  unchanged claims.\<close>

theorem auth_rehash_cas:
  assumes "auth_run nrm calls NewAuthStore = (rs, s)" "auth_Lookup nrm email s = Inr c"
    and "snd (snd (Authenticate h decoy (auth_Lookup nrm) (auth_UpdateHash nrm) acq (\<lambda>s. snd (auth_run nrm later s)) email pw s)) = s'"
  shows "s' = snd (auth_run nrm later s) \<or>
    (\<exists>c' new. auth_Lookup nrm email (snd (auth_run nrm later s)) = Inr c' \<and> cr_Hash c' = cr_Hash c \<and>
       hs_Compare h (cr_Hash c) pw = Match \<and> hs_Hash h pw = Some new \<and> auth_Lookup nrm email s' = Inr (c'\<lparr>cr_Hash := new\<rparr>))"
  using ams.rehash_cases [of "snd (auth_run nrm later s)" h nrm email "cr_Hash c" pw] auth_reachable [OF assms(1), of later] assms(2,3)
  by (auto simp: Authenticate_def split: if_splits compare_result.splits simp del: split_paired_Ex)

definition sample_hasher :: hasher where
  "sample_hasher = \<lparr>hs_Compare = (\<lambda>h pw. if h = ''old-'' @ pw \<or> h = ''new-'' @ pw then Match else Mismatch),
     hs_Hash = (\<lambda>pw. Some (''new-'' @ pw)), hs_NeedsRehash = (\<lambda>h. take 4 h = ''old-'')\<rparr>"

definition login_calls :: "(int \<times> auth_call) list" where
  "login_calls = [(1, Call_Create ''u1'' \<lparr>ic_Roles = [''admin''], ic_Groups = [], ic_Entitlements = []\<rparr>), (2, Call_CreatePassword ''u1'' ''a@x'' ''old-pw'')]"

theorem auth_rehash_cas_witness:
  "map_option cr_Hash (case auth_Lookup (\<lambda>e. e) ''a@x'' (snd (snd (Authenticate sample_hasher ''decoy'' (auth_Lookup (\<lambda>e. e)) (auth_UpdateHash (\<lambda>e. e)) True
     (\<lambda>s. snd (auth_run (\<lambda>e. e) [] s)) ''a@x'' ''pw'' (snd (auth_run (\<lambda>e. e) login_calls NewAuthStore))))) of Inl _ \<Rightarrow> None | Inr c \<Rightarrow> Some c) = Some ''new-pw''"
proof -
  let ?s = "snd (auth_run (\<lambda>e. e) login_calls NewAuthStore)"
  let ?s' = "snd (snd (Authenticate sample_hasher ''decoy'' (auth_Lookup (\<lambda>e. e)) (auth_UpdateHash (\<lambda>e. e)) True (\<lambda>s. snd (auth_run (\<lambda>e. e) [] s)) ''a@x'' ''pw'' ?s))"
  have l: "map_option cr_Hash (case auth_Lookup (\<lambda>e. e) ''a@x'' ?s of Inl _ \<Rightarrow> None | Inr c \<Rightarrow> Some c) = Some ''old-pw''" by code_simp
  then obtain c where c: "auth_Lookup (\<lambda>e. e) ''a@x'' ?s = Inr c" "cr_Hash c = ''old-pw''" by (auto split: sum.splits)
  have "map_option cr_Hash (case auth_Lookup (\<lambda>e. e) ''a@x'' ?s' of Inl _ \<Rightarrow> None | Inr c \<Rightarrow> Some c) \<noteq> Some ''old-pw''" by code_simp
  then have ne: "?s' \<noteq> snd (auth_run (\<lambda>e. e) [] ?s)" using l by auto
  have h: "hs_Hash sample_hasher ''pw'' = Some ''new-pw''" by code_simp
  have r: "auth_run (\<lambda>e. e) login_calls NewAuthStore = (fst (auth_run (\<lambda>e. e) login_calls NewAuthStore), ?s)" by (rule prod.collapse [symmetric])
  obtain c' where "auth_Lookup (\<lambda>e. e) ''a@x'' ?s' = Inr (c'\<lparr>cr_Hash := ''new-pw''\<rparr>)"
    using auth_rehash_cas [OF r c(1) refl, of sample_hasher "''decoy''" True "[]" "''pw''"] ne h by (elim disjE exE conjE) auto
  then show ?thesis by simp
qed

end
