(* ===== verification/GoPath.thy ===== *)
theory GoPath
  imports GoText
begin

text \<open>
  What the components use of \<open>strings.Split\<close>, \<open>strings.Join\<close>, \<open>path.Clean\<close>, \<open>strconv.ParseUint\<close> and the
  standard alphabet of \<open>encoding/base64\<close>.
\<close>

section \<open>Splitting and joining\<close>

text \<open>\<open>strings.Split(s, sep)\<close> for a separator of one byte: always at least one part.\<close>

fun splitOn :: "char \<Rightarrow> string \<Rightarrow> string list" where
  "splitOn sep [] = [[]]"
| "splitOn sep (c # cs) =
    (if c = sep then [] # splitOn sep cs else (c # hd (splitOn sep cs)) # tl (splitOn sep cs))"

fun joinWith :: "char \<Rightarrow> string list \<Rightarrow> string" where
  "joinWith sep [] = []"
| "joinWith sep [p] = p"
| "joinWith sep (p # q # ps) = p @ sep # joinWith sep (q # ps)"

lemma splitOn_nonempty [simp]: "splitOn sep s \<noteq> []"
  by (cases s) auto

lemma splitOn_no_sep: "sep \<notin> set s \<Longrightarrow> splitOn sep s = [s]"
  by (induction s) auto

lemma splitOn_append: "sep \<notin> set a \<Longrightarrow> splitOn sep (a @ sep # b) = a # splitOn sep b"
  by (induction a) auto

lemma splitOn_parts: "p \<in> set (splitOn sep s) \<Longrightarrow> sep \<notin> set p"
proof (induction s arbitrary: p)
  case (Cons c cs)
  obtain q qs where q: "splitOn sep cs = q # qs" by (cases "splitOn sep cs") auto
  show ?case using Cons.IH Cons.prems by (cases "c = sep") (auto simp: q)
qed auto

lemma joinWith_Cons: "ps \<noteq> [] \<Longrightarrow> joinWith sep (p # ps) = p @ sep # joinWith sep ps"
  by (cases ps) auto

lemma join_split: "joinWith sep (splitOn sep s) = s"
proof (induction s)
  case (Cons c cs)
  obtain q qs where q: "splitOn sep cs = q # qs" by (cases "splitOn sep cs") auto
  show ?case using Cons.IH by (cases qs) (auto simp: q)
qed auto

lemma split_join: "ps \<noteq> [] \<Longrightarrow> \<forall>p \<in> set ps. sep \<notin> set p \<Longrightarrow> splitOn sep (joinWith sep ps) = ps"
proof (induction ps)
  case (Cons p ps)
  then show ?case by (cases "ps = []") (auto simp: joinWith_Cons splitOn_append splitOn_no_sep)
qed simp

section \<open>Paths\<close>

text \<open>\<open>path.Clean\<close>: a stack of segments; \<open>..\<close> pops one, stays in front of a relative path and vanishes at the
  root.\<close>

fun clean_segs :: "bool \<Rightarrow> string list \<Rightarrow> string list \<Rightarrow> string list" where
  "clean_segs rooted st [] = rev st"
| "clean_segs rooted st (seg # segs) =
    (if seg = [] \<or> seg = ''.'' then clean_segs rooted st segs
     else if seg = ''..'' then
       (case st of
          [] \<Rightarrow> clean_segs rooted (if rooted then [] else [seg]) segs
        | upper # below \<Rightarrow> if upper = ''..'' then clean_segs rooted (seg # st) segs else clean_segs rooted below segs)
     else clean_segs rooted (seg # st) segs)"

definition path_Clean :: "string \<Rightarrow> string" where
  "path_Clean p =
    (let rooted = (case p of c # _ \<Rightarrow> c = CHR ''/'' | [] \<Rightarrow> False);
         out = (if rooted then ''/'' else '''') @ joinWith (CHR ''/'') (clean_segs rooted [] (splitOn (CHR ''/'') p))
     in if out = [] then ''.'' else out)"

lemma clean_segs_plain: "\<forall>s \<in> set segs. s \<noteq> [] \<and> s \<noteq> ''.'' \<and> s \<noteq> ''..'' \<Longrightarrow> clean_segs r st segs = rev st @ segs"
  by (induction segs arbitrary: st) auto

lemma path_Clean_plain:
  assumes "p \<noteq> []" "\<forall>s \<in> set (splitOn (CHR ''/'') p). s \<noteq> [] \<and> s \<noteq> ''.'' \<and> s \<noteq> ''..''"
  shows "path_Clean p = p"
proof -
  have "hd p \<noteq> CHR ''/''"
  proof
    assume "hd p = CHR ''/''"
    then have "[] \<in> set (splitOn (CHR ''/'') p)" using assms(1) by (cases p) auto
    then show False using assms(2) by blast
  qed
  then have r: "(case p of c # _ \<Rightarrow> c = CHR ''/'' | [] \<Rightarrow> False) = False" using assms(1) by (cases p) auto
  have "joinWith (CHR ''/'') (clean_segs False [] (splitOn (CHR ''/'') p)) = p"
    using clean_segs_plain [OF assms(2), of False "[]"] by (simp add: join_split)
  then show ?thesis using assms(1) unfolding path_Clean_def r by simp
qed

section \<open>Unsigned decimals\<close>

text \<open>\<open>strconv.ParseUint(s, 10, 32)\<close>: digits only, in range.\<close>

definition parseUint32 :: "string \<Rightarrow> nat option" where
  "parseUint32 s = (if s = [] then None else case parse_digits 0 s of None \<Rightarrow> None | Some n \<Rightarrow> if n < 2 ^ 32 then Some n else None)"

lemma parseUint32_digits: "n < 2 ^ 32 \<Longrightarrow> parseUint32 (nat_digits n) = Some n"
  by (simp add: parseUint32_def nat_digits_nonempty parse_nat_digits)

section \<open>Base64, unpadded standard alphabet\<close>

text \<open>The standard alphabet has \<open>+\<close> and \<open>/\<close> where the URL alphabet has \<open>-\<close> and \<open>_\<close>.\<close>

definition to_std :: "char \<Rightarrow> char" where
  "to_std c = (if c = CHR ''-'' then CHR ''+'' else if c = CHR ''_'' then CHR ''/'' else c)"

definition of_std :: "char \<Rightarrow> char" where
  "of_std c = (if c = CHR ''+'' then CHR ''-'' else if c = CHR ''/'' then CHR ''_'' else c)"

definition std_encode :: "string \<Rightarrow> string" where
  "std_encode s = map to_std (b64_encode s)"

definition std_decode :: "string \<Rightarrow> string option" where
  "std_decode s = (if CHR ''-'' \<in> set s \<or> CHR ''_'' \<in> set s then None else b64_decode (map of_std s))"

lemma b64_char_not_std: "n < 64 \<Longrightarrow> b64_char n \<noteq> CHR ''+'' \<and> b64_char n \<noteq> CHR ''/'' \<and> b64_char n \<noteq> CHR ''$''"
proof -
  have "\<forall>n \<in> set [0..<64]. b64_char n \<noteq> CHR ''+'' \<and> b64_char n \<noteq> CHR ''/'' \<and> b64_char n \<noteq> CHR ''$''" by code_simp
  then show "n < 64 \<Longrightarrow> ?thesis" by simp
qed

lemma b64_encode_not_std: "c \<in> set (b64_encode s) \<Longrightarrow> c \<noteq> CHR ''+'' \<and> c \<noteq> CHR ''/'' \<and> c \<noteq> CHR ''$''"
  using b64_vals_less b64_char_not_std by (fastforce simp: b64_encode_vals)

lemma std_round_trip: "std_decode (std_encode s) = Some s"
proof -
  have "map of_std (std_encode s) = b64_encode s"
    using b64_encode_not_std [of _ s] by (auto simp: std_encode_def of_std_def to_std_def intro!: map_idI)
  moreover have "CHR ''-'' \<notin> set (std_encode s) \<and> CHR ''_'' \<notin> set (std_encode s)"
    by (auto simp: std_encode_def to_std_def split: if_splits)
  ultimately show ?thesis by (simp add: std_decode_def b64_round_trip)
qed

lemma std_encode_no_dollar: "CHR ''$'' \<notin> set (std_encode s)"
  using b64_encode_not_std [of _ s] by (auto simp: std_encode_def to_std_def split: if_splits)

lemma length_b64_encode: "length (b64_encode s) = (length s * 4 + 2) div 3"
  by (induction s rule: b64_encode.induct) (simp_all add: Let_def)

end
