(* ===== verification/PasswordHash.thy ===== *)
theory PasswordHash
  imports GoPath AuthStore
begin

text \<open>
  \<open>auth/password/hasher.go\<close>: the Argon2id hasher and its PHC strings, and the construction of a verifier from
  \<open>auth/password/password.go\<close>.

  \<^item> \<open>kdf\<close> is \<open>argon2.IDKey\<close>: password, salt, time, memory, lanes and key length to the key. The salt is an
    argument. Its documented contract, a key of the requested length, is a hypothesis where it matters.
  \<^item> Unsigned integers are natural numbers below the bound of their type; nothing here leaves it.
\<close>

section \<open>Profiles\<close>

definition defaultTime :: nat where "defaultTime = 2"
definition defaultMemoryKiB :: nat where "defaultMemoryKiB = 19456"
definition defaultLanes :: nat where "defaultLanes = 1"
definition saltLen :: nat where "saltLen = 16"
definition keyLen :: nat where "keyLen = 32"
definition minTime :: nat where "minTime = 1"
definition maxTime :: nat where "maxTime = 16"
definition minMemoryKiB :: nat where "minMemoryKiB = 8192"
definition maxMemoryKiB :: nat where "maxMemoryKiB = 131072"
definition minLanes :: nat where "minLanes = 1"
definition maxLanes :: nat where "maxLanes = 16"
definition minSaltLen :: nat where "minSaltLen = 8"
definition maxSaltLen :: nat where "maxSaltLen = 64"
definition minKeyLen :: nat where "minKeyLen = 16"
definition maxKeyLen :: nat where "maxKeyLen = 64"
definition phcVersion :: nat where "phcVersion = 19"

definition maxEncodedLen :: nat where
  "maxEncodedLen = length ''$argon2id$v=19$m=131072,t=16,p=16$'' + 2 * ((maxSaltLen * 8 + 5) div 6) + 1 + 16"

lemmas hash_consts = defaultTime_def defaultMemoryKiB_def defaultLanes_def saltLen_def keyLen_def minTime_def maxTime_def minMemoryKiB_def
  maxMemoryKiB_def minLanes_def maxLanes_def minSaltLen_def maxSaltLen_def minKeyLen_def maxKeyLen_def phcVersion_def MaxPasswordLen_def

record argon2id =
  a2_Time :: nat
  a2_MemoryKiB :: nat
  a2_Parallelism :: nat

record profile =
  pf_time :: nat
  pf_memory :: nat
  pf_lanes :: nat

datatype hash_error = Err_profile | Err_input_length | ErrInvalidHash | ErrMismatch | Err_other string

definition resolve_profile :: "argon2id \<Rightarrow> hash_error + profile" where
  "resolve_profile a =
    (let p = \<lparr>pf_time = (if a2_Time a = 0 then defaultTime else a2_Time a),
              pf_memory = (if a2_MemoryKiB a = 0 then defaultMemoryKiB else a2_MemoryKiB a),
              pf_lanes = (if a2_Parallelism a = 0 then defaultLanes else a2_Parallelism a)\<rparr>
     in if pf_time p < minTime \<or> pf_time p > maxTime then Inl Err_profile
        else if pf_memory p < minMemoryKiB \<or> pf_memory p > maxMemoryKiB then Inl Err_profile
        else if pf_lanes p < minLanes \<or> pf_lanes p > maxLanes then Inl Err_profile
        else Inr p)"

section \<open>PHC strings\<close>

definition phc_format :: "profile \<Rightarrow> string \<Rightarrow> string \<Rightarrow> string" where
  "phc_format p salt key = ''$argon2id$v='' @ nat_digits phcVersion @ ''$m='' @ nat_digits (pf_memory p) @ '',t='' @ nat_digits (pf_time p) @
     '',p='' @ nat_digits (pf_lanes p) @ ''$'' @ std_encode salt @ ''$'' @ std_encode key"

definition numField :: "string \<Rightarrow> char \<Rightarrow> nat option" where
  "numField s name = (case s of c # d # ds \<Rightarrow> if c = name \<and> d = CHR ''='' then parseUint32 ds else None | _ \<Rightarrow> None)"

definition DecodedLen :: "nat \<Rightarrow> nat" where
  "DecodedLen n = n * 6 div 8"

definition decodeBounded :: "string \<Rightarrow> nat \<Rightarrow> nat \<Rightarrow> string option" where
  "decodeBounded s minLen maxLen =
    (if DecodedLen (length s) < minLen \<or> DecodedLen (length s) > maxLen then None
     else case std_decode s of
       None \<Rightarrow> None
     | Some out \<Rightarrow> if length out < minLen \<or> length out > maxLen then None else Some out)"

text \<open>The cost segment of \<open>decode\<close>.\<close>

definition decode_costs :: "string \<Rightarrow> profile option" where
  "decode_costs f3 =
    (case splitOn (CHR '','') f3 of
       [c0, c1, c2] \<Rightarrow>
         (case numField c0 CHR ''m'' of
            None \<Rightarrow> None
          | Some memory \<Rightarrow>
              (case numField c1 CHR ''t'' of
                 None \<Rightarrow> None
               | Some time \<Rightarrow>
                   (case numField c2 CHR ''p'' of
                      None \<Rightarrow> None
                    | Some lanes \<Rightarrow>
                        if memory < minMemoryKiB \<or> memory > maxMemoryKiB then None
                        else if time < minTime \<or> time > maxTime then None
                        else if lanes < minLanes \<or> lanes > maxLanes then None
                        else Some \<lparr>pf_time = time, pf_memory = memory, pf_lanes = lanes\<rparr>)))
     | _ \<Rightarrow> None)"

definition phc_decode :: "string \<Rightarrow> (profile \<times> string \<times> string) option" where
  "phc_decode encoded =
    (if length encoded > maxEncodedLen then None
     else case splitOn (CHR ''$'') encoded of
       [f0, f1, f2, f3, f4, f5] \<Rightarrow>
         if f0 \<noteq> [] then None
         else if f1 \<noteq> ''argon2id'' then None
         else (case numField f2 CHR ''v'' of
           None \<Rightarrow> None
         | Some v \<Rightarrow>
             if v \<noteq> phcVersion then None
             else (case decode_costs f3 of
               None \<Rightarrow> None
             | Some p \<Rightarrow>
                 (case decodeBounded f4 minSaltLen maxSaltLen of
                    None \<Rightarrow> None
                  | Some salt \<Rightarrow>
                      (case decodeBounded f5 minKeyLen maxKeyLen of None \<Rightarrow> None | Some key \<Rightarrow> Some (p, salt, key)))))
     | _ \<Rightarrow> None)"

section \<open>The hasher\<close>

type_synonym kdf = "string \<Rightarrow> string \<Rightarrow> nat \<Rightarrow> nat \<Rightarrow> nat \<Rightarrow> nat \<Rightarrow> string"

definition a2_Hash :: "kdf \<Rightarrow> string \<Rightarrow> argon2id \<Rightarrow> string \<Rightarrow> hash_error + string" where
  "a2_Hash kdf salt a password =
    (case resolve_profile a of
       Inl e \<Rightarrow> Inl e
     | Inr p \<Rightarrow>
         if length password > MaxPasswordLen then Inl Err_input_length
         else Inr (phc_format p salt (kdf password salt (pf_time p) (pf_memory p) (pf_lanes p) keyLen)))"

definition a2_Compare :: "kdf \<Rightarrow> argon2id \<Rightarrow> string \<Rightarrow> string \<Rightarrow> hash_error option" where
  "a2_Compare kdf a encoded password =
    (case resolve_profile a of
       Inl e \<Rightarrow> Some e
     | Inr _ \<Rightarrow>
         if length password > MaxPasswordLen then Some Err_input_length
         else (case phc_decode encoded of
           None \<Rightarrow> Some ErrInvalidHash
         | Some (stored, salt, key) \<Rightarrow>
             if kdf password salt (pf_time stored) (pf_memory stored) (pf_lanes stored) (length key) \<noteq> key then Some ErrMismatch else None))"

definition a2_NeedsRehash :: "argon2id \<Rightarrow> string \<Rightarrow> bool" where
  "a2_NeedsRehash a encoded =
    (case resolve_profile a of
       Inl _ \<Rightarrow> True
     | Inr p \<Rightarrow>
         (case phc_decode encoded of
            None \<Rightarrow> True
          | Some (stored, salt, key) \<Rightarrow> stored \<noteq> p \<or> length salt \<noteq> saltLen \<or> length key \<noteq> keyLen))"

text \<open>\<open>selfCheck\<close>, on a hasher given by its two operations; two salts are drawn.\<close>

definition selfCheck :: "(string \<Rightarrow> hash_error + string) \<Rightarrow> (string \<Rightarrow> string \<Rightarrow> hash_error option) \<Rightarrow> hash_error option" where
  "selfCheck hash compare =
    (case hash ''self-check probe'' of
       Inl e \<Rightarrow> Some e
     | Inr encoded \<Rightarrow>
         (case compare encoded ''self-check probe'' of
            Some e \<Rightarrow> Some e
          | None \<Rightarrow> if compare encoded (''self-check probe'' @ ''x'') \<noteq> Some ErrMismatch then Some (Err_other ''wrong password'') else None))"

section \<open>The verifier\<close>

record verifier =
  vf_Hash :: "string \<Rightarrow> string \<Rightarrow> hash_error + string"
  vf_Compare :: "string \<Rightarrow> string \<Rightarrow> hash_error option"
  vf_NeedsRehash :: "string \<Rightarrow> bool"
  vf_sem :: int
  vf_decoy :: string

definition defaultMaxConcurrent :: int where "defaultMaxConcurrent = 4"

text \<open>A hasher by its operations; \<open>Hash\<close> takes the salt it draws.\<close>

record hash_ops =
  ho_Hash :: "string \<Rightarrow> string \<Rightarrow> hash_error + string"
  ho_Compare :: "string \<Rightarrow> string \<Rightarrow> hash_error option"
  ho_NeedsRehash :: "string \<Rightarrow> bool"

definition argon2_ops :: "kdf \<Rightarrow> argon2id \<Rightarrow> hash_ops" where
  "argon2_ops kdf a = \<lparr>ho_Hash = (\<lambda>salt. a2_Hash kdf salt a), ho_Compare = a2_Compare kdf a, ho_NeedsRehash = a2_NeedsRehash a\<rparr>"

text \<open>\<open>New\<close>: whether a store is given, the limit, the hasher or none, the two salts drawn, and the hex digits of the
  random probe.\<close>

definition password_New :: "kdf \<Rightarrow> bool \<Rightarrow> int \<Rightarrow> hash_ops option \<Rightarrow> string \<Rightarrow> string \<Rightarrow> string \<Rightarrow> hash_error + verifier" where
  "password_New kdf hasStore maxConcurrent hasher salt1 salt2 probe =
    (if \<not> hasStore then Inl (Err_other ''Config.Store is required'')
     else if maxConcurrent < 0 then Inl (Err_other ''MaxConcurrent is negative'')
     else let h = (case hasher of None \<Rightarrow> argon2_ops kdf \<lparr>a2_Time = 0, a2_MemoryKiB = 0, a2_Parallelism = 0\<rparr> | Some h \<Rightarrow> h) in
       case selfCheck (ho_Hash h salt1) (ho_Compare h) of
         Some e \<Rightarrow> Inl e
       | None \<Rightarrow>
           (case ho_Hash h salt2 probe of
              Inl e \<Rightarrow> Inl e
            | Inr decoy \<Rightarrow> Inr \<lparr>vf_Hash = ho_Hash h, vf_Compare = ho_Compare h, vf_NeedsRehash = ho_NeedsRehash h,
                vf_sem = (if maxConcurrent = 0 then defaultMaxConcurrent else maxConcurrent), vf_decoy = decoy\<rparr>))"

definition verifier_Hash :: "verifier \<Rightarrow> bool \<Rightarrow> string \<Rightarrow> string \<Rightarrow> hash_error + string" where
  "verifier_Hash v acquired salt password =
    (if password = [] \<or> length password > MaxPasswordLen then Inl Err_input_length
     else if \<not> acquired then Inl (Err_other ''canceled'')
     else vf_Hash v salt password)"

text \<open>A verifier's hasher as \<open>Authenticate\<close> sees it.\<close>

definition verifier_hasher :: "verifier \<Rightarrow> string \<Rightarrow> hasher" where
  "verifier_hasher v salt = \<lparr>hs_Compare = (\<lambda>encoded pw. case vf_Compare v encoded pw of None \<Rightarrow> Match
       | Some e \<Rightarrow> if e = ErrMismatch then Mismatch else Compare_failed ''hash''),
     hs_Hash = (\<lambda>pw. case vf_Hash v salt pw of Inl _ \<Rightarrow> None | Inr h \<Rightarrow> Some h),
     hs_NeedsRehash = vf_NeedsRehash v\<rparr>"

section \<open>Round trip\<close>

lemma nat_digits_set: "c \<in> set (nat_digits n) \<Longrightarrow> c \<noteq> CHR ''$'' \<and> c \<noteq> CHR '',''"
proof -
  have "\<forall>d \<in> set [0..<10]. digit_char d \<noteq> CHR ''$'' \<and> digit_char d \<noteq> CHR '',''" by code_simp
  then show "c \<in> set (nat_digits n) \<Longrightarrow> ?thesis" using nat_digits_chars [of c n] by auto
qed

lemma length_nat_digits: "n < 10 ^ k \<Longrightarrow> 0 < k \<Longrightarrow> length (nat_digits n) \<le> k"
proof (induction k arbitrary: n)
  case (Suc k)
  show ?case
  proof (cases "n < 10")
    case True
    then show ?thesis by (subst nat_digits.simps) simp
  next
    case False
    then have "0 < k" "n div 10 < 10 ^ k" using Suc.prems(1) by (cases k; simp)+
    then show ?thesis using Suc.IH [of "n div 10"] False by (subst nat_digits.simps) simp
  qed
qed simp

lemma numField_digits: "n < 2 ^ 32 \<Longrightarrow> numField (c # CHR ''='' # nat_digits n) c = Some n"
  by (simp add: numField_def parseUint32_digits)

lemma length_std_encode: "length (std_encode s) = (length s * 4 + 2) div 3"
  by (simp add: std_encode_def length_b64_encode)

lemma decodeBounded_encode: "minLen \<le> length s \<Longrightarrow> length s \<le> maxLen \<Longrightarrow> decodeBounded (std_encode s) minLen maxLen = Some s"
proof -
  have "DecodedLen (length (std_encode s)) = length s" by (simp add: DecodedLen_def length_std_encode)
  then show "minLen \<le> length s \<Longrightarrow> length s \<le> maxLen \<Longrightarrow> ?thesis" by (simp add: decodeBounded_def std_round_trip)
qed

definition profile_ok :: "profile \<Rightarrow> bool" where
  "profile_ok p \<longleftrightarrow> minTime \<le> pf_time p \<and> pf_time p \<le> maxTime \<and> minMemoryKiB \<le> pf_memory p \<and> pf_memory p \<le> maxMemoryKiB \<and>
     minLanes \<le> pf_lanes p \<and> pf_lanes p \<le> maxLanes"

lemma resolve_ok: "resolve_profile a = Inr p \<Longrightarrow> profile_ok p"
  by (auto simp: resolve_profile_def profile_ok_def Let_def split: if_splits)

lemma decode_format:
  assumes p: "profile_ok p" and s: "minSaltLen \<le> length salt" "length salt \<le> maxSaltLen" and k: "minKeyLen \<le> length key" "length key \<le> maxKeyLen"
  shows "phc_decode (phc_format p salt key) = Some (p, salt, key)"
proof -
  let ?v = "CHR ''v'' # CHR ''='' # nat_digits phcVersion"
  let ?m = "CHR ''m'' # CHR ''='' # nat_digits (pf_memory p)" and ?t = "CHR ''t'' # CHR ''='' # nat_digits (pf_time p)"
    and ?l = "CHR ''p'' # CHR ''='' # nat_digits (pf_lanes p)"
  have f: "phc_format p salt key = joinWith (CHR ''$'') [[], ''argon2id'', ?v, joinWith (CHR '','') [?m, ?t, ?l], std_encode salt, std_encode key]"
    by (simp add: phc_format_def)
  have nd: "CHR ''$'' \<notin> set (nat_digits n)" "CHR '','' \<notin> set (nat_digits n)" for n using nat_digits_set by blast+
  have s1: "splitOn (CHR ''$'') (phc_format p salt key) = [[], ''argon2id'', ?v, joinWith (CHR '','') [?m, ?t, ?l], std_encode salt, std_encode key]"
    unfolding f by (rule split_join) (auto simp: nd std_encode_no_dollar)
  have s2: "splitOn (CHR '','') (joinWith (CHR '','') [?m, ?t, ?l]) = [?m, ?t, ?l]" by (rule split_join) (auto simp: nd)
  have b: "phcVersion < 2 ^ 32" "pf_memory p < 2 ^ 32" "pf_time p < 2 ^ 32" "pf_lanes p < 2 ^ 32"
    using p by (auto simp: profile_ok_def hash_consts)
  have "length (nat_digits (pf_memory p)) \<le> 6" "length (nat_digits (pf_time p)) \<le> 2" "length (nat_digits (pf_lanes p)) \<le> 2"
    "length (nat_digits phcVersion) \<le> 2"
    using p by (auto simp: profile_ok_def hash_consts intro!: length_nat_digits)
  moreover have "length (std_encode salt) \<le> 86" "length (std_encode key) \<le> 86" using s k by (simp_all add: length_std_encode hash_consts)
  ultimately have "length (phc_format p salt key) \<le> maxEncodedLen"
    unfolding phc_format_def maxEncodedLen_def by (simp add: hash_consts)
  then show ?thesis
    unfolding phc_decode_def s1 using p b s k
    by (simp add: decode_costs_def s2 numField_digits decodeBounded_encode profile_ok_def del: joinWith.simps)
qed

lemma decodeBounded_length: "decodeBounded s a b = Some out \<Longrightarrow> a \<le> length out \<and> length out \<le> b"
  by (auto simp: decodeBounded_def split: if_splits option.splits)

lemma decode_costs_ok: "decode_costs s = Some p \<Longrightarrow> profile_ok p"
  by (auto simp: decode_costs_def profile_ok_def split: if_splits option.splits list.splits)

lemma phc_decode_bounds:
  "phc_decode e = Some (p, salt, key) \<Longrightarrow>
    profile_ok p \<and> minSaltLen \<le> length salt \<and> length salt \<le> maxSaltLen \<and> minKeyLen \<le> length key \<and> length key \<le> maxKeyLen"
  by (auto simp: phc_decode_def split: if_splits option.splits list.splits dest: decodeBounded_length decode_costs_ok)

section \<open>Properties\<close>

text \<open>C35: A hash of a password verifies it. With a profile in bounds, a password of at most 512 bytes and a key
  derivation that yields keys of the requested length, \<open>Hash\<close> succeeds; \<open>Compare\<close> with the result accepts a
  password exactly when it derives the same key and reports a mismatch otherwise; and \<open>NeedsRehash\<close> holds under
  another profile exactly when that profile is out of bounds or resolves to other costs.\<close>

theorem pw_hash_roundtrip:
  assumes "resolve_profile a = Inr p" "length password \<le> MaxPasswordLen" "length salt = saltLen"
    and kdf: "\<And>pw t m l n. length (kdf pw salt t m l n) = n"
  shows "\<exists>encoded. a2_Hash kdf salt a password = Inr encoded \<and> length encoded \<le> maxEncodedLen \<and>
    (\<forall>pw. length pw \<le> MaxPasswordLen \<longrightarrow> a2_Compare kdf a encoded pw =
      (if kdf pw salt (pf_time p) (pf_memory p) (pf_lanes p) keyLen = kdf password salt (pf_time p) (pf_memory p) (pf_lanes p) keyLen then None else Some ErrMismatch)) \<and>
    (\<forall>b. a2_NeedsRehash b encoded \<longleftrightarrow> resolve_profile b \<noteq> Inr p)"
proof -
  let ?key = "kdf password salt (pf_time p) (pf_memory p) (pf_lanes p) keyLen"
  let ?e = "phc_format p salt ?key"
  have d: "phc_decode ?e = Some (p, salt, ?key)"
    by (rule decode_format [OF resolve_ok [OF assms(1)]]) (simp_all add: assms(3) kdf hash_consts)
  then have "length ?e \<le> maxEncodedLen" by (auto simp: phc_decode_def split: if_splits)
  moreover have "a2_Compare kdf a ?e pw = (if kdf pw salt (pf_time p) (pf_memory p) (pf_lanes p) keyLen = ?key then None else Some ErrMismatch)"
    if "length pw \<le> MaxPasswordLen" for pw
    using that assms(1) d by (simp add: a2_Compare_def kdf)
  moreover have "a2_NeedsRehash b ?e \<longleftrightarrow> resolve_profile b \<noteq> Inr p" for b
    by (auto simp: a2_NeedsRehash_def d kdf assms(3) split: sum.splits)
  ultimately show ?thesis using assms(1,2) by (simp add: a2_Hash_def)
qed

definition sample_kdf :: kdf where
  "sample_kdf pw salt t m l n = take n (pw @ salt @ replicate n (CHR ''.''))"

theorem pw_hash_roundtrip_witness:
  "\<exists>encoded. a2_Hash sample_kdf ''0123456789abcdef'' \<lparr>a2_Time = 0, a2_MemoryKiB = 0, a2_Parallelism = 0\<rparr> ''secret'' = Inr encoded \<and>
     a2_Compare sample_kdf \<lparr>a2_Time = 0, a2_MemoryKiB = 0, a2_Parallelism = 0\<rparr> encoded ''secret'' = None \<and>
     a2_Compare sample_kdf \<lparr>a2_Time = 0, a2_MemoryKiB = 0, a2_Parallelism = 0\<rparr> encoded ''Secret'' = Some ErrMismatch \<and>
     a2_NeedsRehash \<lparr>a2_Time = 3, a2_MemoryKiB = 0, a2_Parallelism = 0\<rparr> encoded"
proof -
  let ?a = "\<lparr>a2_Time = 0, a2_MemoryKiB = 0, a2_Parallelism = 0\<rparr>"
  have r: "resolve_profile ?a = Inr \<lparr>pf_time = 2, pf_memory = 19456, pf_lanes = 1\<rparr>" by (simp add: resolve_profile_def hash_consts)
  have l: "length ''secret'' \<le> MaxPasswordLen" "length ''Secret'' \<le> MaxPasswordLen" "length ''0123456789abcdef'' = saltLen" by (simp_all add: hash_consts)
  have n: "resolve_profile \<lparr>a2_Time = 3, a2_MemoryKiB = 0, a2_Parallelism = 0\<rparr> \<noteq> Inr \<lparr>pf_time = 2, pf_memory = 19456, pf_lanes = 1\<rparr>" by (simp add: resolve_profile_def hash_consts)
  have k: "sample_kdf ''Secret'' ''0123456789abcdef'' 2 19456 1 keyLen \<noteq> sample_kdf ''secret'' ''0123456789abcdef'' 2 19456 1 keyLen" by (simp add: sample_kdf_def hash_consts)
  have kdf: "length (sample_kdf pw ''0123456789abcdef'' t m l n) = n" for pw t m l n by (simp add: sample_kdf_def)
  from pw_hash_roundtrip [OF r l(1,3), of sample_kdf, OF kdf]
  obtain e where e: "a2_Hash sample_kdf ''0123456789abcdef'' ?a ''secret'' = Inr e"
    and c: "\<forall>pw. length pw \<le> MaxPasswordLen \<longrightarrow> a2_Compare sample_kdf ?a e pw =
      (if sample_kdf pw ''0123456789abcdef'' 2 19456 1 keyLen = sample_kdf ''secret'' ''0123456789abcdef'' 2 19456 1 keyLen then None else Some ErrMismatch)"
    and nr: "\<forall>b. a2_NeedsRehash b e \<longleftrightarrow> resolve_profile b \<noteq> Inr \<lparr>pf_time = 2, pf_memory = 19456, pf_lanes = 1\<rparr>"
    unfolding profile.simps by (elim exE conjE) (rule that)
  have "a2_Compare sample_kdf ?a e ''secret'' = None" "a2_Compare sample_kdf ?a e ''Secret'' = Some ErrMismatch"
    using c [rule_format, OF l(1)] c [rule_format, OF l(2)] k by (simp_all only: if_True if_False simp_thms)
  moreover have "a2_NeedsRehash \<lparr>a2_Time = 3, a2_MemoryKiB = 0, a2_Parallelism = 0\<rparr> e" using nr n by blast
  ultimately show ?thesis using e by blast
qed

text \<open>C36: A stored hash cannot ask for unbounded work. Whatever text is stored, \<open>decode\<close> accepts it only if it is at
  most 223 bytes long with time, memory, lanes, salt and key length within the package bounds, so these are the only
  values \<open>Compare\<close> passes to the key derivation: two derivations that agree on them compare alike.\<close>

theorem pw_decode_bounded:
  assumes "\<And>pw salt t m l n. minTime \<le> t \<Longrightarrow> t \<le> maxTime \<Longrightarrow> minMemoryKiB \<le> m \<Longrightarrow> m \<le> maxMemoryKiB \<Longrightarrow> minLanes \<le> l \<Longrightarrow> l \<le> maxLanes \<Longrightarrow>
      minKeyLen \<le> n \<Longrightarrow> n \<le> maxKeyLen \<Longrightarrow> minSaltLen \<le> length salt \<Longrightarrow> length salt \<le> maxSaltLen \<Longrightarrow> length pw \<le> MaxPasswordLen \<Longrightarrow>
      kdf pw salt t m l n = kdf' pw salt t m l n"
  shows "a2_Compare kdf a encoded password = a2_Compare kdf' a encoded password \<and>
    (maxEncodedLen < length encoded \<longrightarrow> a2_Compare kdf a encoded password \<in> {Some Err_profile, Some Err_input_length, Some ErrInvalidHash})"
proof
  show "a2_Compare kdf a encoded password = a2_Compare kdf' a encoded password"
  proof (cases "length password \<le> MaxPasswordLen \<and> phc_decode encoded \<noteq> None")
    case True
    then obtain p salt key where d: "phc_decode encoded = Some (p, salt, key)" by auto
    then have "kdf password salt (pf_time p) (pf_memory p) (pf_lanes p) (length key) = kdf' password salt (pf_time p) (pf_memory p) (pf_lanes p) (length key)"
      using phc_decode_bounds [OF d] True by (intro assms) (auto simp: profile_ok_def)
    then show ?thesis by (cases "resolve_profile a") (simp_all add: a2_Compare_def d)
  next
    case False
    then show ?thesis by (cases "phc_decode encoded"; cases "resolve_profile a") (auto simp: a2_Compare_def)
  qed
  show "maxEncodedLen < length encoded \<longrightarrow> a2_Compare kdf a encoded password \<in> {Some Err_profile, Some Err_input_length, Some ErrInvalidHash}"
    by (auto simp: a2_Compare_def phc_decode_def resolve_profile_def Let_def split: sum.splits option.splits if_splits)
qed


theorem pw_decode_bounded_witness:
  "a2_Compare sample_kdf \<lparr>a2_Time = 0, a2_MemoryKiB = 0, a2_Parallelism = 0\<rparr> (replicate 300 (CHR ''x'')) ''pw'' =
     a2_Compare (\<lambda>pw salt t m l n. if t \<le> 16 \<and> m \<le> 131072 then sample_kdf pw salt t m l n else []) \<lparr>a2_Time = 0, a2_MemoryKiB = 0, a2_Parallelism = 0\<rparr> (replicate 300 (CHR ''x'')) ''pw'' \<and>
   a2_Compare sample_kdf \<lparr>a2_Time = 0, a2_MemoryKiB = 0, a2_Parallelism = 0\<rparr> (replicate 300 (CHR ''x'')) ''pw'' \<in> {Some Err_profile, Some Err_input_length, Some ErrInvalidHash}"
proof -
  have l: "maxEncodedLen < length (replicate 300 (CHR ''x''))" by (simp add: maxEncodedLen_def hash_consts)
  let ?k = "\<lambda>pw salt t m l n. if t \<le> 16 \<and> m \<le> 131072 then sample_kdf pw salt t m l n else []"
  have "sample_kdf pw salt t m l n = ?k pw salt t m l n" if "t \<le> maxTime" "m \<le> maxMemoryKiB" for pw salt t m l n
    using that by (simp add: hash_consts)
  from pw_decode_bounded [of sample_kdf ?k "\<lparr>a2_Time = 0, a2_MemoryKiB = 0, a2_Parallelism = 0\<rparr>" "replicate 300 (CHR ''x'')" "''pw''", OF this]
  show ?thesis using l by blast
qed

section \<open>Verifiers\<close>

lemma password_New_default:
  assumes "password_New kdf True mc None salt1 salt2 probe = Inr v"
  shows "vf_Hash v = (\<lambda>salt. a2_Hash kdf salt \<lparr>a2_Time = 0, a2_MemoryKiB = 0, a2_Parallelism = 0\<rparr>) \<and>
    vf_Compare v = a2_Compare kdf \<lparr>a2_Time = 0, a2_MemoryKiB = 0, a2_Parallelism = 0\<rparr> \<and>
    vf_NeedsRehash v = a2_NeedsRehash \<lparr>a2_Time = 0, a2_MemoryKiB = 0, a2_Parallelism = 0\<rparr>"
  using assms by (auto simp: password_New_def argon2_ops_def Let_def split: if_splits option.splits sum.splits)

lemma default_profile: "resolve_profile \<lparr>a2_Time = 0, a2_MemoryKiB = 0, a2_Parallelism = 0\<rparr> =
    Inr \<lparr>pf_time = defaultTime, pf_memory = defaultMemoryKiB, pf_lanes = defaultLanes\<rparr>"
  by (simp add: resolve_profile_def hash_consts)

lemma a2_Hash_decode:
  assumes "resolve_profile a = Inr p" "length pw \<le> MaxPasswordLen" "length salt = saltLen" "\<And>pw t m l n. length (kdf pw salt t m l n) = n"
  shows "\<exists>encoded. a2_Hash kdf salt a pw = Inr encoded \<and>
    phc_decode encoded = Some (p, salt, kdf pw salt (pf_time p) (pf_memory p) (pf_lanes p) keyLen)"
  using assms decode_format [OF resolve_ok [OF assms(1)], of salt "kdf pw salt (pf_time p) (pf_memory p) (pf_lanes p) keyLen"]
  by (simp add: a2_Hash_def hash_consts)

text \<open>The default verifier is built unless the derivation confuses the two probes of the self-check.\<close>

lemma password_New_ok:
  assumes "length salt1 = saltLen" "length salt2 = saltLen" "\<And>pw salt t m l n. length (kdf pw salt t m l n) = n" "0 \<le> mc" "length probe \<le> MaxPasswordLen"
    and "kdf (''self-check probe'' @ ''x'') salt1 defaultTime defaultMemoryKiB defaultLanes keyLen \<noteq> kdf ''self-check probe'' salt1 defaultTime defaultMemoryKiB defaultLanes keyLen"
  shows "\<exists>v. password_New kdf True mc None salt1 salt2 probe = Inr v"
proof -
  let ?a = "\<lparr>a2_Time = 0, a2_MemoryKiB = 0, a2_Parallelism = 0\<rparr>"
  have l: "length ''self-check probe'' \<le> MaxPasswordLen" by (simp add: hash_consts)
  obtain e where e: "a2_Hash kdf salt1 ?a ''self-check probe'' = Inr e"
    "phc_decode e = Some (\<lparr>pf_time = defaultTime, pf_memory = defaultMemoryKiB, pf_lanes = defaultLanes\<rparr>, salt1,
       kdf ''self-check probe'' salt1 defaultTime defaultMemoryKiB defaultLanes keyLen)"
    using a2_Hash_decode [OF default_profile l assms(1), of kdf] assms(3) by auto
  have "a2_Compare kdf ?a e ''self-check probe'' = None" "a2_Compare kdf ?a e (''self-check probe'' @ ''x'') = Some ErrMismatch"
    using e(2) assms(3,6) default_profile by (simp_all add: a2_Compare_def MaxPasswordLen_def)
  then have "selfCheck (a2_Hash kdf salt1 ?a) (a2_Compare kdf ?a) = None" using e(1) by (simp add: selfCheck_def)
  moreover obtain decoy where "a2_Hash kdf salt2 ?a probe = Inr decoy"
    using a2_Hash_decode [OF default_profile assms(5,2), of kdf] assms(3) by auto
  ultimately show ?thesis using assms(4) by (simp add: password_New_def argon2_ops_def Let_def)
qed

lemma SetPassword_error_hash: "fst (SetPassword nrm i email h s) = fst (SetPassword nrm i email h' s)"
  by (cases "NormalizeEmail nrm email") (simp_all add: SetPassword_def Let_def)

lemma set_password_active:
  assumes "SetPassword nrm i email h s = (None, s1)" "am_identities s i = Some m" "mi_status m = StatusActive"
  shows "\<exists>p c. activeCredential nrm email s1 = Some (p, c, m) \<and> mc_identityID c = i \<and> mc_hash c = h"
proof -
  obtain e where e: "NormalizeEmail nrm email = Some e"
    "s1 = put_cred i e h (case deref s (am_byID s i) of None \<Rightarrow> s | Some old \<Rightarrow> s\<lparr>am_byEmail := (am_byEmail s)(mc_email old := None)\<rparr>)"
    using assms(1) by (auto simp: SetPassword_def Let_def split: if_splits option.splits)
  then show ?thesis using assms(2,3) by (cases "deref s (am_byID s i)") (auto simp: activeCredential_def put_cred_def)
qed

section \<open>Failed logins\<close>

lemma default_decoy:
  assumes "password_New kdf True mc None salt1 salt2 probe = Inr v" "length salt2 = saltLen" "\<And>pw t m l n. length (kdf pw salt2 t m l n) = n"
  shows "\<exists>key. phc_decode (vf_decoy v) = Some (\<lparr>pf_time = defaultTime, pf_memory = defaultMemoryKiB, pf_lanes = defaultLanes\<rparr>, salt2, key)"
proof -
  let ?a = "\<lparr>a2_Time = 0, a2_MemoryKiB = 0, a2_Parallelism = 0\<rparr>"
  have d: "a2_Hash kdf salt2 ?a probe = Inr (vf_decoy v)"
    using assms(1) by (auto simp: password_New_def argon2_ops_def Let_def split: if_splits option.splits sum.splits)
  then have "length probe \<le> MaxPasswordLen" by (auto simp: a2_Hash_def split: sum.splits if_splits)
  then show ?thesis using a2_Hash_decode [OF default_profile _ assms(2), of probe kdf] assms(3) d by auto
qed

definition admissible :: "string \<Rightarrow> string \<Rightarrow> bool" where
  "admissible email pw \<longleftrightarrow> email \<noteq> [] \<and> length email \<le> MaxEmailLen \<and> pw \<noteq> [] \<and> length pw \<le> MaxPasswordLen"

lemma default_Compare:
  assumes "password_New kdf True mc None salt1 salt2 probe = Inr v" "phc_decode encoded = Some (p, salt', key)" "length pw \<le> MaxPasswordLen"
  shows "hs_Compare (verifier_hasher v salt) encoded pw =
    (if kdf pw salt' (pf_time p) (pf_memory p) (pf_lanes p) (length key) = key then Match else Mismatch)"
  using password_New_default [OF assms(1)] default_profile assms(2,3) by (simp add: verifier_hasher_def a2_Compare_def)

text \<open>C34: A failed login does not tell which accounts exist. With the default hasher, once a slot is acquired, and when the
  hash stored for the email, if there is one, is well-formed, as every hash is that the hasher made: a login that does not
  succeed answers \<open>ErrInvalidCredentials\<close> and changes nothing, whether the email is unknown, its owner disabled or the
  password wrong. With an email or password that is empty or too long it compares nothing, whoever is registered; with
  admissible ones it compares exactly one hash, the stored one or else a decoy, and the decoy has the cost of the current
  profile (a stored hash has the cost it was made with).\<close>

theorem auth_no_enumeration:
  assumes "password_New kdf True mc None salt1 salt2 probe = Inr v" "length salt2 = saltLen" "\<And>pw t m l n. length (kdf pw salt2 t m l n) = n"
    and "\<And>c. auth_Lookup nrm email s = Inr c \<Longrightarrow> phc_decode (cr_Hash c) \<noteq> None"
    and "Authenticate (verifier_hasher v salt) (vf_decoy v) (auth_Lookup nrm) (auth_UpdateHash nrm) True others email pw s = (Inl e, compared, s')"
  shows "e = InvalidCredentials \<and> s' = others s \<and> length compared = (if admissible email pw then 1 else 0) \<and>
    set compared \<subseteq> {vf_decoy v} \<union> {cr_Hash c | c. auth_Lookup nrm email s = Inr c} \<and>
    (\<exists>key. phc_decode (vf_decoy v) = Some (\<lparr>pf_time = defaultTime, pf_memory = defaultMemoryKiB, pf_lanes = defaultLanes\<rparr>, salt2, key))"
proof -
  note d = default_decoy [OF assms(1-3)]
  show ?thesis
  proof (cases "admissible email pw")
    case False
    then show ?thesis using assms(5) d by (auto simp: Authenticate_def admissible_def)
  next
    case True
    then have a: "email \<noteq> []" "\<not> length email > MaxEmailLen" "pw \<noteq> []" "\<not> length pw > MaxPasswordLen" by (auto simp: admissible_def)
    show ?thesis
    proof (cases "auth_Lookup nrm email s")
      case (Inl x)
      then have "x = PwNotFound" by (auto simp: auth_Lookup_def split: option.splits)
      then show ?thesis using assms(5) d True a Inl by (auto simp: Authenticate_def)
    next
      case (Inr c)
      then obtain p salt' key where "phc_decode (cr_Hash c) = Some (p, salt', key)" using assms(4) by (metis not_None_eq prod_cases3)
      then have "hs_Compare (verifier_hasher v salt) (cr_Hash c) pw = Mismatch"
        using default_Compare [OF assms(1), of "cr_Hash c" p salt' key pw salt] assms(5) a Inr by (auto simp: Authenticate_def split: if_splits)
      then show ?thesis using assms(5) d True a Inr by (auto simp: Authenticate_def)
    qed
  qed
qed

theorem auth_no_enumeration_witness:
  "\<exists>v encoded s1. password_New sample_kdf True 0 None ''0123456789abcdef'' ''0123456789abcdef'' ''probe'' = Inr v \<and>
     verifier_Hash v True ''0123456789abcdef'' ''secret'' = Inr encoded \<and>
     SetPassword (\<lambda>e. e) ''u1'' ''a@x'' encoded (snd (auth_run (\<lambda>e. e) login_calls NewAuthStore)) = (None, s1) \<and>
     map (\<lambda>(email, pw, s). (\<lambda>(r, compared, s'). (r, length compared))
         (Authenticate (verifier_hasher v ''fedcba9876543210'') (vf_decoy v) (auth_Lookup (\<lambda>e. e)) (auth_UpdateHash (\<lambda>e. e)) True (\<lambda>s. s) email pw s))
       [(''a@x'', ''Secret'', s1), (''b@x'', ''secret'', snd (auth_run (\<lambda>e. e) login_calls NewAuthStore)), (''a@x'', [], s1)] =
     [(Inl InvalidCredentials, 1), (Inl InvalidCredentials, 1), (Inl InvalidCredentials, 0)]"
proof -
  let ?s = "snd (auth_run (\<lambda>e. e) login_calls NewAuthStore)" and ?salt = "''0123456789abcdef''"
  have k: "length (sample_kdf pw salt t m l n) = n" for pw salt t m l n by (simp add: sample_kdf_def)
  have len: "length ?salt = saltLen" "length ''probe'' \<le> MaxPasswordLen" "length ''secret'' \<le> MaxPasswordLen" "length ''Secret'' \<le> MaxPasswordLen"
    by (simp_all add: hash_consts)
  have "sample_kdf (''self-check probe'' @ ''x'') ?salt t m l keyLen \<noteq> sample_kdf ''self-check probe'' ?salt t m l keyLen" for t m l
    by (simp add: sample_kdf_def hash_consts)
  then obtain v where v: "password_New sample_kdf True 0 None ?salt ?salt ''probe'' = Inr v"
    using password_New_ok [where kdf = sample_kdf, OF len(1,1) k order_refl len(2)] by blast
  obtain e where e: "verifier_Hash v True ?salt ''secret'' = Inr e"
    "phc_decode e = Some (\<lparr>pf_time = defaultTime, pf_memory = defaultMemoryKiB, pf_lanes = defaultLanes\<rparr>, ?salt,
       sample_kdf ''secret'' ?salt defaultTime defaultMemoryKiB defaultLanes keyLen)"
    using a2_Hash_decode [where kdf = sample_kdf, OF default_profile len(3,1) k] password_New_default [OF v] len(3) by (auto simp: verifier_Hash_def)
  have "fst (SetPassword (\<lambda>e. e) ''u1'' ''a@x'' ''h'' ?s) = None" by code_simp
  then obtain s1 where s1: "SetPassword (\<lambda>e. e) ''u1'' ''a@x'' e ?s = (None, s1)" by (metis SetPassword_error_hash prod.collapse)
  have "map_option mi_status (am_identities ?s ''u1'') = Some StatusActive" by code_simp
  then obtain m where m: "am_identities ?s ''u1'' = Some m" "mi_status m = StatusActive" by auto
  obtain p c where c: "activeCredential (\<lambda>e. e) ''a@x'' s1 = Some (p, c, m)" "mc_hash c = e" using set_password_active [OF s1 m] by blast
  have l: "auth_Lookup (\<lambda>e. e) ''a@x'' s1 = Inr (credential_of c m)" "cr_Hash (credential_of c m) = e"
    using c by (simp_all add: auth_Lookup_def credential_of_def)
  have "sample_kdf ''Secret'' ?salt t m l keyLen \<noteq> sample_kdf ''secret'' ?salt t m l keyLen" for t m l by (simp add: sample_kdf_def hash_consts)
  then have mm: "hs_Compare (verifier_hasher v ''fedcba9876543210'') e ''Secret'' = Mismatch" using default_Compare [OF v e(2) len(4)] k by simp
  have u: "auth_Lookup (\<lambda>e. e) ''b@x'' ?s = Inl PwNotFound" by code_simp
  let ?A = "\<lambda>email pw s. Authenticate (verifier_hasher v ''fedcba9876543210'') (vf_decoy v) (auth_Lookup (\<lambda>e. e)) (auth_UpdateHash (\<lambda>e. e)) True (\<lambda>s. s) email pw s"
  have "\<exists>x cs s'. ?A ''a@x'' ''Secret'' s1 = (Inl x, cs, s')" "\<exists>x cs s'. ?A ''b@x'' ''secret'' ?s = (Inl x, cs, s')" "\<exists>x cs s'. ?A ''a@x'' [] s1 = (Inl x, cs, s')"
    using l mm u by (simp_all add: Authenticate_def)
  then obtain x1 c1 t1 x2 c2 t2 x3 c3 t3 where
    A: "?A ''a@x'' ''Secret'' s1 = (Inl x1, c1, t1)" "?A ''b@x'' ''secret'' ?s = (Inl x2, c2, t2)" "?A ''a@x'' [] s1 = (Inl x3, c3, t3)" by blast
  have w: "phc_decode (cr_Hash x) \<noteq> None" if "auth_Lookup (\<lambda>e. e) ''a@x'' s1 = Inr x" for x using that l e(2) by simp
  have w': "phc_decode (cr_Hash x) \<noteq> None" if "auth_Lookup (\<lambda>e. e) ''b@x'' ?s = Inr x" for x using that u by simp
  have ad: "admissible ''a@x'' ''Secret''" "admissible ''b@x'' ''secret''" "\<not> admissible ''a@x'' []" by (simp_all add: admissible_def MaxEmailLen_def MaxPasswordLen_def)
  note 1 = auth_no_enumeration [OF v len(1) k w A(1)] and 2 = auth_no_enumeration [OF v len(1) k w' A(2)] and 3 = auth_no_enumeration [OF v len(1) k w A(3)]
  show ?thesis using v e(1) s1 A 1 2 3 ad by auto
qed

end
