(* ===== verification/SessionAuth.thy ===== *)
theory SessionAuth
  imports SessionLife AuthStore
begin

text \<open>
  \<open>auth/session/sessionauth.go\<close>: logins kept in the session. \<open>Auth\<close> is a client of the session manager: it owns one
  cell for the claims, promotes the session at login and reads claims back on later requests. The manager is the one of
  theory \<open>Session\<close>; a request's context carries its session state or none.
\<close>

section \<open>Definitions\<close>

definition cellName :: string where
  "cellName = ''github.com/gofabrik/fabrik/auth/session''"

text \<open>The cell of type \<open>stored\<close>, with the codec of \<open>encoding/json\<close> as arguments.\<close>

definition sa_handle :: "(claim_set \<Rightarrow> sess_err + cellRaw) \<Rightarrow> (cellRaw \<Rightarrow> sess_err + claim_set) \<Rightarrow> claim_set handle" where
  "sa_handle enc dec = \<lparr>h_key = cellName, h_enc = enc, h_dec = dec, h_zero = no_claims\<rparr>"

definition sa_New :: "sess_manager option option \<Rightarrow> (sess_err + string) \<times> sess_manager option option" where
  "sa_New m = sess_Use m cellName \<lparr>ct_name = ''stored'', ct_struct = True\<rparr>"

datatype sa_error = Sa_no_subject | Sa_promote sess_err | Sa_store sess_err | Sa_session sess_err | Sa_subject string string

definition sa_snapshot :: "claim_set \<Rightarrow> claim_set" where
  "sa_snapshot c = c\<lparr>cs_Expiry := None, cs_NotBefore := None\<rparr>"

definition sa_Login :: "('s, 'x) sess_env_scheme \<Rightarrow> claim_set handle \<Rightarrow> claim_set option \<Rightarrow> sess_state option \<Rightarrow> 's \<Rightarrow>
    sa_error option \<times> sess_state option \<times> 's" where
  "sa_Login ev h c ctx w =
    (case c of
       None \<Rightarrow> (Some Sa_no_subject, ctx, w)
     | Some claims \<Rightarrow>
         if cs_Subject claims = [] then (Some Sa_no_subject, ctx, w)
         else case in_request ''Promote'' (Promote ev (cs_Subject claims)) ctx w of
           (Inl e, ctx1, w1) \<Rightarrow> (Some (Sa_promote e), ctx1, w1)
         | (Inr _, ctx1, w1) \<Rightarrow>
             (case h_Save ev h (sa_snapshot claims) ctx1 w1 of
                (Inl e, ctx2, w2) \<Rightarrow> (case in_request ''Destroy'' (Destroy ev) ctx2 w2 of (_, ctx3, w3) \<Rightarrow> (Some (Sa_store e), ctx3, w3))
              | (Inr _, ctx2, w2) \<Rightarrow> (None, ctx2, w2)))"

definition sa_Logout :: "('s, 'x) sess_env_scheme \<Rightarrow> sess_state option \<Rightarrow> 's \<Rightarrow> sa_error option \<times> sess_state option \<times> 's" where
  "sa_Logout ev ctx w =
    (case in_request ''Destroy'' (Destroy ev) ctx w of
       (Inl e, ctx1, w1) \<Rightarrow> (if errIs e \<noteq> Some ErrNoSession then Some (Sa_session e) else None, ctx1, w1)
     | (Inr _, ctx1, w1) \<Rightarrow> (None, ctx1, w1))"

definition sa_Authenticate :: "('s, 'x) sess_env_scheme \<Rightarrow> claim_set handle \<Rightarrow> sess_state option \<Rightarrow> 's \<Rightarrow>
    (sa_error + claim_set option) \<times> sess_state option \<times> 's" where
  "sa_Authenticate ev h ctx w =
    (case h_Get ev h ctx w of
       (Inl e, ctx1, w1) \<Rightarrow> (if errIs e = Some ErrNoSession then Inr None else Inl (Sa_session e), ctx1, w1)
     | (Inr v, ctx1, w1) \<Rightarrow>
         if cs_Subject v = [] then (Inr None, ctx1, w1)
         else (case in_request ''UserID'' (sess_UserID ev) ctx1 w1 of
           (Inl e, ctx2, w2) \<Rightarrow> (Inl (Sa_session e), ctx2, w2)
         | (Inr uid, ctx2, w2) \<Rightarrow>
             if uid \<noteq> cs_Subject v then (Inl (Sa_subject uid (cs_Subject v)), ctx2, w2) else (Inr (Some v), ctx2, w2)))"

text \<open>\<open>Middleware\<close>: the claims the next handler sees. A failed read is logged and leaves the request anonymous.\<close>

definition sa_Middleware :: "('s, 'x) sess_env_scheme \<Rightarrow> claim_set handle \<Rightarrow> claim_set option \<Rightarrow> sess_state option \<Rightarrow> 's \<Rightarrow>
    claim_set option \<times> sess_state option \<times> 's" where
  "sa_Middleware ev h claims ctx w =
    (case claims of
       Some c \<Rightarrow> (Some c, ctx, w)
     | None \<Rightarrow>
         (case sa_Authenticate ev h ctx w of
            (Inl e, ctx1, w1) \<Rightarrow> (None, ctx1, w1)
          | (Inr None, ctx1, w1) \<Rightarrow> (None, ctx1, w1)
          | (Inr (Some c), ctx1, w1) \<Rightarrow> (Some c, ctx1, w1)))"

section \<open>A failed login leaves no identity\<close>

lemma Promote_ok:
  assumes "Promote ev u st w = (Inr x, st1, w1)"
  shows "st_loaded st1 \<and> \<not> st_responseStarted st1"
  using assms
  by (auto simp: Promote_def ensureLoaded_def Let_def split: if_splits option.splits prod.splits sum.splits)

lemma Save_failed_state:
  assumes "h_Save ev h v (Some st) w = (Inl e, ctx, w1)" "st_loaded st" "\<not> st_responseStarted st"
  obtains st1 where "ctx = Some st1" "w1 = w" "st_loaded st1" "\<not> st_responseStarted st1"
proof -
  have "\<exists>st1. ctx = Some st1 \<and> w1 = w \<and> st_loaded st1 \<and> \<not> st_responseStarted st1"
    using assms
    by (auto simp: h_Save_def in_request_def stateFromCtx_def checkStageable_def cellSave_def ensureLoaded_def decodeIfExists_def decodeCells_def Let_def
        split: sum.splits option.splits prod.splits if_splits)
  then show ?thesis using that by blast
qed

lemma destroyed_anonymous:
  assumes "h_zero h = no_claims" "st_loaded st"
  shows "sa_Authenticate ev h (Some (destroyState st)) w = (Inr None, Some ((destroyState st)\<lparr>st_cellsDecoded := True\<rparr>), w) \<and>
    fst (sess_UserID ev (destroyState st) w) = Inr []"
  using assms
  by (simp add: sa_Authenticate_def h_Get_def in_request_def stateFromCtx_def cellGet_def ensureLoaded_def destroyState_def Let_def
      staged_map_def decodeCells_def no_claims_def sess_UserID_def)

text \<open>C37: A login that cannot store its claims leaves the request without an identity. When \<open>Login\<close> fails after the
  session was promoted, the session is marked destroyed: the rest of the request reads no user and no claims, and
  nothing of the promotion is left to be committed.\<close>

theorem sa_failed_login_anonymous:
  assumes "sa_Login ev (sa_handle enc dec) c ctx w = (Some (Sa_store e), ctx1, w1)"
  shows "\<exists>st. ctx1 = Some st \<and> fst (sess_UserID ev st w1) = Inr [] \<and> \<not> pendingMint st \<and> \<not> st_exists st \<and>
    fst (sa_Authenticate ev (sa_handle enc dec) ctx1 w1) = Inr None"
proof -
  let ?h = "sa_handle enc dec"
  obtain claims where c: "c = Some claims" "cs_Subject claims \<noteq> []" using assms by (auto simp: sa_Login_def split: option.splits if_splits)
  obtain st0 where s0: "ctx = Some st0"
    using assms c by (cases ctx) (auto simp: sa_Login_def in_request_def stateFromCtx_def)
  obtain r st1 w2 where p: "Promote ev (cs_Subject claims) st0 w = (r, st1, w2)" by (rule prod_cases3)
  obtain x where r: "r = Inr x" using assms c s0 p by (cases r) (auto simp: sa_Login_def in_request_def stateFromCtx_def)
  have st1: "st_loaded st1" "\<not> st_responseStarted st1" using Promote_ok [OF p [unfolded r]] by auto
  obtain r2 ctx2 w3 where s: "h_Save ev ?h (sa_snapshot claims) (Some st1) w2 = (r2, ctx2, w3)" by (rule prod_cases3)
  obtain e2 where r2: "r2 = Inl e2"
    using assms c s0 p r s by (cases r2) (auto simp: sa_Login_def in_request_def stateFromCtx_def)
  obtain st2 where st2: "ctx2 = Some st2" "w3 = w2" "st_loaded st2" "\<not> st_responseStarted st2"
    using Save_failed_state [OF s [unfolded r2] st1] by blast
  have "ctx1 = Some (destroyState st2)" "w1 = w2"
    using assms c s0 p r s r2 st2 by (auto simp: sa_Login_def in_request_def stateFromCtx_def Destroy_def ensureLoaded_def)
  moreover have "\<not> pendingMint (destroyState st2)" "\<not> st_exists (destroyState st2)"
    by (simp_all add: pendingMint_def destroyState_def staged_map_def Let_def)
  ultimately show ?thesis using destroyed_anonymous [of ?h st2 ev w2] st2(3) by (auto simp: sa_handle_def)
qed


section \<open>Login rotates the session\<close>

lemma quiet_load:
  assumes "sw_turns w = []" "map_of (sm_records (sw_mem w)) sid = Some r" "\<not> sm_expired (sw_now w) r"
  shows "ev_Load (mem_env mar unm) sid w = (Inr r, w)"
  using assms by (simp add: mem_do_def next_turn_def sm_Load_def)

lemma quiet_missing:
  assumes "sw_turns w = []" "map_of (sm_records (sw_mem w)) sid = None"
  shows "ev_Load (mem_env mar unm) sid w = (Inl (wrapErr [] ErrNotFound), w)"
  using assms by (simp add: mem_do_def next_turn_def sm_Load_def)

text \<open>A request with a loadable session reads its cell and its user.\<close>

lemma authenticate_loaded:
  assumes "sid \<noteq> []" "ev_Load ev sid w = (Inr r, w)" "rc_Payload r \<noteq> []" "ev_unmarshal ev (rc_Payload r) = Inr cs"
    and "map_of cs cellName = Some raw" "dec raw = Inr v" "cs_Subject v \<noteq> []"
  shows "fst (sa_Authenticate ev (sa_handle enc dec) (Some (newState sid)) w) =
    (if rc_UserID r = cs_Subject v then Inr (Some v) else Inl (Sa_subject (rc_UserID r) (cs_Subject v)))"
  using assms
  by (simp add: sa_Authenticate_def h_Get_def in_request_def stateFromCtx_def cellGet_def ensureLoaded_def newState_def staged_map_def
      decodeCells_def decodeEnvelope_def h_decode_def sess_UserID_def sa_handle_def Let_def)

lemma authenticate_missing:
  assumes "ev_Load ev sid w = (Inl e, w)" "errIs e = Some ErrNotFound"
  shows "fst (sa_Authenticate ev (sa_handle enc dec) (Some (newState sid)) w) = Inr None"
  using assms
  by (simp add: sa_Authenticate_def h_Get_def in_request_def stateFromCtx_def cellGet_def ensureLoaded_def newState_def staged_map_def
      decodeCells_def sa_handle_def no_claims_def Let_def)

definition stored_cells :: "(payload \<Rightarrow> sess_err + cells) \<Rightarrow> sess_record \<Rightarrow> cells \<Rightarrow> bool" where
  "stored_cells unm r cells \<longleftrightarrow> (if rc_Payload r = [] then cells = [] else unm (rc_Payload r) = Inr cells)"

lemma login_existing:
  assumes "sid0 \<noteq> []" "ev_Load (mem_env mar unm) sid0 w = (Inr r0, w1)" "stored_cells unm r0 cells" "cs_Subject c \<noteq> []" "enc (sa_snapshot c) = Inr raw"
  shows "\<exists>st. sa_Login (mem_env mar unm) (sa_handle enc dec) (Some c) (Some (newState sid0)) w = (None, Some st, w1) \<and>
    st_exists st \<and> st_renew st \<and> st_promote st \<and> st_promotedID st = cs_Subject c \<and> st_record st = r0 \<and> \<not> st_destroyed st \<and>
    st_cellsDecoded st \<and> st_envErr st = None \<and> mergedView st = goput cellName raw cells"
  using assms
  by (auto simp: sa_Login_def in_request_def stateFromCtx_def Promote_def ensureLoaded_def newState_def Let_def h_Save_def checkStageable_def h_encode_def
      sa_handle_def cellSave_def decodeIfExists_def decodeCells_def decodeEnvelope_def stored_cells_def stage_def mergedView_def staged_map_def mem_env_def
      split: if_splits)

text \<open>The three store calls of a login and its commit, the load, the insertion and the revocation of the old row, with
  nothing from elsewhere in between; the last fails with \<open>derr\<close>, if that is an error. After them the store is quiet.\<close>

definition login_turns :: "sess_err option \<Rightarrow> sess_world \<Rightarrow> sess_turn list" where
  "login_turns derr w = [([], None, sw_now w), ([], None, sw_now w), ([], derr, sw_now w)]"

lemma turn_load:
  assumes "sw_turns w = ([], None, sw_now w) # ts" "map_of (sm_records (sw_mem w)) sid = Some r" "\<not> sm_expired (sw_now w) r"
  shows "ev_Load (mem_env mar unm) sid w = (Inr r, w\<lparr>sw_turns := ts\<rparr>)"
  using assms by (simp add: mem_do_def next_turn_def sm_Load_def)

lemma turn_insertFresh:
  assumes "sw_turns w = ([], None, sw_now w) # ts" "sw_sids w = Inr sid # rest" "sid \<noteq> []" "map_of (sm_records (sw_mem w)) sid = None"
  shows "\<exists>s. insertFresh (mem_env mar unm) k r w = (Inr (r\<lparr>rc_SID := sid, rc_Version := 1\<rparr>), w\<lparr>sw_turns := ts, sw_sids := rest, sw_mem := s\<rparr>) \<and>
    map_of (sm_records s) = (map_of (sm_records (sw_mem w)))(sid \<mapsto> r\<lparr>rc_SID := sid, rc_Version := 1\<rparr>)"
proof -
  let ?r = "r\<lparr>rc_SID := sid, rc_Version := 0\<rparr>"
  have "sm_Save None ?r (sw_mem w) = (Inr (r\<lparr>rc_SID := sid, rc_Version := 1\<rparr>), snd (sm_Save_put None ?r (sw_mem w)))"
    using assms(3,4) sm_Save_put_pair [of None ?r "sw_mem w"] by (simp add: sm_Save_allowed save_allowed_def)
  then have "insertFresh (mem_env mar unm) k r w = (Inr (r\<lparr>rc_SID := sid, rc_Version := 1\<rparr>),
      w\<lparr>sw_turns := ts, sw_sids := rest, sw_mem := snd (sm_Save_put None ?r (sw_mem w))\<rparr>)"
    using assms(1-3) by (simp add: insertFresh.simps mintSID_def mem_newSID_def mem_do_def next_turn_def)
  moreover have "map_of (sm_records (snd (sm_Save_put None ?r (sw_mem w)))) = (map_of (sm_records (sw_mem w)))(sid \<mapsto> r\<lparr>rc_SID := sid, rc_Version := 1\<rparr>)"
    by simp
  ultimately show ?thesis by blast
qed

text \<open>What a request reads depends on the store only through the record under its identifier.\<close>

lemma authenticate_record:
  assumes "sw_turns w = []" "sw_turns w' = []" "sw_now w = sw_now w'"
    and "map_of (sm_records (sw_mem w)) sid = map_of (sm_records (sw_mem w')) sid"
  shows "fst (sa_Authenticate (mem_env mar unm) (sa_handle enc dec) (Some (newState sid)) w) =
    fst (sa_Authenticate (mem_env mar unm) (sa_handle enc dec) (Some (newState sid)) w')"
proof -
  have l: "fst (ev_Load (mem_env mar unm) sid w) = fst (ev_Load (mem_env mar unm) sid w')"
    using assms by (simp add: mem_do_def next_turn_def sm_Load_def split: option.splits)
  show ?thesis
  proof (cases "sid = []")
    case True
    then show ?thesis
      by (simp add: sa_Authenticate_def h_Get_def in_request_def stateFromCtx_def cellGet_def ensureLoaded_def newState_def staged_map_def
          decodeCells_def sa_handle_def no_claims_def Let_def)
  next
    case False
    obtain r v where 1: "ev_Load (mem_env mar unm) sid w = (r, v)" by (rule prod.exhaust)
    obtain v' where 2: "ev_Load (mem_env mar unm) sid w' = (r, v')" using l 1 by (cases "ev_Load (mem_env mar unm) sid w'") simp
    show ?thesis using 1 2 False
      by (cases r) (auto simp: sa_Authenticate_def h_Get_def in_request_def stateFromCtx_def cellGet_def ensureLoaded_def newState_def staged_map_def
          decodeCells_def decodeEnvelope_def h_decode_def sess_UserID_def Let_def mem_env_def split: sum.splits option.splits prod.splits if_splits)
  qed
qed

text \<open>C23: Logging in changes the session's identity and its identifier at once. Conditions: a visitor with a live session
  logs in, no other request touches the store meanwhile, the generated identifier is new, the codecs round-trip, and the
  load and the insertion of the login succeed; revoking the old row may succeed or fail. Then the commit sends a token with
  the fresh identifier, and a later request with it, before it expires, is authenticated with exactly the claims of the
  login without their own lifetime. If the revocation succeeded, a request that still presents the identifier from before
  the login is anonymous, so an identifier planted before the login is worth nothing after it. If it failed, which does
  not fail the login, such a request is answered as it would have been without the login, until the old session expires:
  it never gets the new identity.\<close>

theorem sa_login_rotates:
  assumes "sw_turns w = []" "sw_sids w = Inr sid # rest" "sid \<noteq> []" "map_of (sm_records (sw_mem w)) sid = None"
    and "sid0 \<noteq> []" "map_of (sm_records (sw_mem w)) sid0 = Some r0" "rc_SID r0 = sid0" "\<not> sm_expired (sw_now w) r0" "stored_cells unm r0 cells"
    and "cs_Subject c \<noteq> []" "enc (sa_snapshot c) = Inr raw" "dec raw = Inr (sa_snapshot c)"
    and "mar (goput cellName raw cells) = Inr p" "p \<noteq> []" "unm p = Inr cs" "map_of cs cellName = Some raw"
  shows "\<exists>st w1 opts st2 w2.
    sa_Login (mem_env mar unm) (sa_handle enc dec) (Some c) (Some (newState sid0)) (w\<lparr>sw_turns := login_turns derr w\<rparr>) = (None, Some st, w1) \<and>
    commit (mem_env mar unm) m st w1 = (Inr (Some (TokWrite sid opts)), st2, w2) \<and>
    (\<forall>t < tw_Expiry opts. fst (sa_Authenticate (mem_env mar unm) (sa_handle enc dec) (Some (newState sid)) (w2\<lparr>sw_now := t\<rparr>)) = Inr (Some (sa_snapshot c))) \<and>
    (\<forall>t. fst (sa_Authenticate (mem_env mar unm) (sa_handle enc dec) (Some (newState sid0)) (w2\<lparr>sw_now := t\<rparr>)) =
      (if derr = None then Inr None
       else fst (sa_Authenticate (mem_env mar unm) (sa_handle enc dec) (Some (newState sid0)) (w\<lparr>sw_now := t\<rparr>))))"
proof -
  let ?ev = "mem_env mar unm"
  let ?turn = "\<lambda>d. ([] :: sm_call list, d :: sess_err option, sw_now w)"
  let ?w0 = "w\<lparr>sw_turns := login_turns derr w\<rparr>" and ?w1 = "w\<lparr>sw_turns := [?turn None, ?turn derr]\<rparr>"
  have "ev_Load ?ev sid0 ?w0 = (Inr r0, ?w0\<lparr>sw_turns := [?turn None, ?turn derr]\<rparr>)"
    by (rule turn_load) (use assms(6,8) in \<open>simp_all add: login_turns_def\<close>)
  then have "ev_Load ?ev sid0 ?w0 = (Inr r0, ?w1)" by simp
  then obtain st where st: "sa_Login ?ev (sa_handle enc dec) (Some c) (Some (newState sid0)) ?w0 = (None, Some st, ?w1)"
    "st_exists st" "st_renew st" "st_promote st" "st_promotedID st = cs_Subject c" "st_record st = r0" "\<not> st_destroyed st"
    "st_cellsDecoded st" "st_envErr st = None" "mergedView st = goput cellName raw cells"
    using login_existing [where mar = mar and enc = enc and dec = dec, OF assms(5) _ assms(9-11)] by blast
  let ?st = "st\<lparr>st_responseStarted := True\<rparr>"
  have mv: "mergedView ?st = goput cellName raw cells" using st(10) by (simp add: mergedView_def staged_map_def)
  define r where "r = idleExpiry ?ev m ?w1 (zeroRecord\<lparr>rc_UserID := cs_Subject c, rc_AbsoluteExpiry := rc_AbsoluteExpiry r0, rc_Payload := p\<rparr>)"
  let ?q = "r\<lparr>rc_SID := sid, rc_Version := 1\<rparr>"
  have "\<exists>s. insertFresh ?ev (retries m) r ?w1 = (Inr ?q, ?w1\<lparr>sw_turns := [?turn derr], sw_sids := rest, sw_mem := s\<rparr>) \<and>
      map_of (sm_records s) = (map_of (sm_records (sw_mem ?w1)))(sid \<mapsto> ?q)"
    by (rule turn_insertFresh) (use assms(2-4) in simp_all)
  then obtain s where ins: "insertFresh ?ev (retries m) r ?w1 = (Inr ?q, w\<lparr>sw_turns := [?turn derr], sw_sids := rest, sw_mem := s\<rparr>)"
    and s: "map_of (sm_records s) = (map_of (sm_records (sw_mem w)))(sid \<mapsto> ?q)" by auto
  let ?w2 = "w\<lparr>sw_sids := rest, sw_mem := if derr = None then deleteLocked sid0 s else s\<rparr>"
  have del: "snd (ev_Delete ?ev sid0 (w\<lparr>sw_turns := [?turn derr], sw_sids := rest, sw_mem := s\<rparr>)) = ?w2"
    using assms(1) by (cases derr) (simp_all add: mem_do_def next_turn_def sm_Delete_def)
  have rot: "\<exists>st2. rotateAtCommit ?ev m ?st ?w1 = (None, st2, ?w2) \<and> st_record st2 = ?q"
    using st mv ins del assms(7,13) unfolding r_def
    by (simp add: rotateAtCommit_def decodeCells_def encodeEnvelope_def mem_env_def [of mar unm] case_prod_unfold)
  then have c: "\<exists>st2 n. commit ?ev m st ?w1 = (Inr (Some (TokWrite sid \<lparr>tw_Expiry = tokenExpiry ?q, tw_Now = n\<rparr>)), st2, ?w2)"
    using st by (auto simp: commit_def commit_store_def)
  have q: "rc_UserID r = cs_Subject c" "rc_Payload r = p" by (simp_all add: r_def idleExpiry_def)
  have "sid \<noteq> sid0" using assms(4,6) by auto
  have "fst (sa_Authenticate ?ev (sa_handle enc dec) (Some (newState sid)) (?w2\<lparr>sw_now := t\<rparr>)) = Inr (Some (sa_snapshot c))" if "t < tokenExpiry ?q" for t
  proof -
    have "ev_Load ?ev sid (?w2\<lparr>sw_now := t\<rparr>) = (Inr ?q, ?w2\<lparr>sw_now := t\<rparr>)"
      by (rule quiet_load) (use assms(1) s \<open>sid \<noteq> sid0\<close> tokenExpiry_live [OF that] in auto)
    then show ?thesis using assms(3,10,12,14-16) q
      by (subst authenticate_loaded [where raw = raw and cs = cs and v = "sa_snapshot c" and r = ?q]) (auto simp: mem_env_def sa_snapshot_def)
  qed
  moreover have "fst (sa_Authenticate ?ev (sa_handle enc dec) (Some (newState sid0)) (?w2\<lparr>sw_now := t\<rparr>)) =
      (if derr = None then Inr None else fst (sa_Authenticate ?ev (sa_handle enc dec) (Some (newState sid0)) (w\<lparr>sw_now := t\<rparr>)))" for t
  proof (cases derr)
    case None
    then have "fst (sa_Authenticate ?ev (sa_handle enc dec) (Some (newState sid0)) (?w2\<lparr>sw_now := t\<rparr>)) = Inr None"
      by (intro authenticate_missing [OF quiet_missing]) (use assms(1) in \<open>auto simp: wrapErr_def\<close>)
    then show ?thesis using None by simp
  next
    case (Some e)
    then have "fst (sa_Authenticate ?ev (sa_handle enc dec) (Some (newState sid0)) (?w2\<lparr>sw_now := t\<rparr>)) =
        fst (sa_Authenticate ?ev (sa_handle enc dec) (Some (newState sid0)) (w\<lparr>sw_now := t\<rparr>))"
      by (intro authenticate_record) (use assms(1) s \<open>sid \<noteq> sid0\<close> in auto)
    then show ?thesis using Some by simp
  qed
  ultimately show ?thesis using st(1) c by auto
qed


section \<open>Concrete logins\<close>

definition toy_enc :: "claim_set \<Rightarrow> sess_err + cellRaw" where
  "toy_enc c = (if cs_Groups c = [] then Inr (cs_Subject c) else Inl (newErr ''json''))"

definition toy_dec :: "cellRaw \<Rightarrow> sess_err + claim_set" where
  "toy_dec raw = Inr (no_claims\<lparr>cs_Subject := raw\<rparr>)"

definition toy_login :: "claim_set \<Rightarrow> sa_error option \<times> sess_state option \<times> sess_world" where
  "toy_login c = sa_Login toy_env (sa_handle toy_enc toy_dec) (Some c) (Some (newState ''s1'')) (toy_quiet (sw_mem toy_world))"

definition toy_claims :: claim_set where
  "toy_claims = no_claims\<lparr>cs_Subject := ''u1'', cs_Expiry := Some 5\<rparr>"

theorem sa_failed_login_anonymous_witness:
  "fst (toy_login (toy_claims\<lparr>cs_Groups := [''g'']\<rparr>)) = Some (Sa_store (newErr ''session: cell github.com/gofabrik/fabrik/auth/session: encode: json'')) \<and>
   fst (sa_Authenticate toy_env (sa_handle toy_enc toy_dec) (fst (snd (toy_login (toy_claims\<lparr>cs_Groups := [''g'']\<rparr>))))
     (snd (snd (toy_login (toy_claims\<lparr>cs_Groups := [''g'']\<rparr>))))) = Inr None"
proof -
  have f: "fst (toy_login (toy_claims\<lparr>cs_Groups := [''g'']\<rparr>)) = Some (Sa_store (newErr ''session: cell github.com/gofabrik/fabrik/auth/session: encode: json''))"
    by code_simp
  then have "toy_login (toy_claims\<lparr>cs_Groups := [''g'']\<rparr>) = (Some (Sa_store (newErr ''session: cell github.com/gofabrik/fabrik/auth/session: encode: json'')),
      fst (snd (toy_login (toy_claims\<lparr>cs_Groups := [''g'']\<rparr>))), snd (snd (toy_login (toy_claims\<lparr>cs_Groups := [''g'']\<rparr>))))"
    by (metis prod.collapse)
  from sa_failed_login_anonymous [OF this [unfolded toy_login_def]] show ?thesis using f by (auto simp: toy_login_def)
qed

theorem sa_login_rotates_witness:
  "\<exists>st w1 opts st2 w2. sa_Login toy_env (sa_handle toy_enc toy_dec) (Some toy_claims) (Some (newState ''s1''))
      ((toy_quiet (sw_mem toy_world))\<lparr>sw_turns := login_turns None (toy_quiet (sw_mem toy_world))\<rparr>) = (None, Some st, w1) \<and>
    commit toy_env toy_manager st w1 = (Inr (Some (TokWrite ''s9'' opts)), st2, w2) \<and>
    fst (sa_Authenticate toy_env (sa_handle toy_enc toy_dec) (Some (newState ''s1'')) w2) = Inr None"
proof -
  let ?w = "toy_quiet (sw_mem toy_world)"
  have 1: "sw_turns ?w = []" "sw_sids ?w = Inr ''s9'' # []" "''s9'' \<noteq> []" "''s1'' \<noteq> []" by (simp_all add: toy_quiet_def)
  have 2: "map_of (sm_records (sw_mem ?w)) ''s9'' = None" by code_simp
  have "map_of (sm_records (sw_mem ?w)) ''s1'' = Some (demo_rec\<lparr>rc_Version := 1, rc_Payload := ''a=1;''\<rparr>)" by code_simp
  moreover have "rc_SID (demo_rec\<lparr>rc_Version := 1, rc_Payload := ''a=1;''\<rparr>) = ''s1''" by code_simp
  moreover have "\<not> sm_expired (sw_now ?w) (demo_rec\<lparr>rc_Version := 1, rc_Payload := ''a=1;''\<rparr>)" by code_simp
  moreover have "stored_cells toy_unmarshal (demo_rec\<lparr>rc_Version := 1, rc_Payload := ''a=1;''\<rparr>) [(''a'', ''1'')]" by code_simp
  moreover have "cs_Subject toy_claims \<noteq> []" "toy_enc (sa_snapshot toy_claims) = Inr ''u1''" "toy_dec ''u1'' = Inr (sa_snapshot toy_claims)"
    by (simp_all add: toy_claims_def toy_enc_def toy_dec_def sa_snapshot_def no_claims_def)
  moreover have "toy_marshal (goput cellName ''u1'' [(''a'', ''1'')]) = Inr (''a=1;'' @ cellName @ ''=u1;'')" by code_simp
  moreover have "''a=1;'' @ cellName @ ''=u1;'' \<noteq> []" by simp
  moreover have "toy_unmarshal (''a=1;'' @ cellName @ ''=u1;'') = Inr [(''a'', ''1''), (cellName, ''u1'')]" by code_simp
  moreover have "map_of [(''a'', ''1''), (cellName, ''u1'')] cellName = Some ''u1''" by (simp add: cellName_def)
  ultimately have "\<exists>st w1 opts st2 w2.
    sa_Login (mem_env toy_marshal toy_unmarshal) (sa_handle toy_enc toy_dec) (Some toy_claims) (Some (newState ''s1'')) (?w\<lparr>sw_turns := login_turns None ?w\<rparr>) = (None, Some st, w1) \<and>
    commit (mem_env toy_marshal toy_unmarshal) toy_manager st w1 = (Inr (Some (TokWrite ''s9'' opts)), st2, w2) \<and>
    (\<forall>t < tw_Expiry opts. fst (sa_Authenticate (mem_env toy_marshal toy_unmarshal) (sa_handle toy_enc toy_dec) (Some (newState ''s9'')) (w2\<lparr>sw_now := t\<rparr>)) = Inr (Some (sa_snapshot toy_claims))) \<and>
    (\<forall>t. fst (sa_Authenticate (mem_env toy_marshal toy_unmarshal) (sa_handle toy_enc toy_dec) (Some (newState ''s1'')) (w2\<lparr>sw_now := t\<rparr>)) =
      (if None = (None :: sess_err option) then Inr None
       else fst (sa_Authenticate (mem_env toy_marshal toy_unmarshal) (sa_handle toy_enc toy_dec) (Some (newState ''s1'')) (?w\<lparr>sw_now := t\<rparr>))))"
    by (rule sa_login_rotates [OF 1(1-3) 2 1(4)])
  then obtain st w1 opts st2 w2 where
    "sa_Login (mem_env toy_marshal toy_unmarshal) (sa_handle toy_enc toy_dec) (Some toy_claims) (Some (newState ''s1'')) (?w\<lparr>sw_turns := login_turns None ?w\<rparr>) = (None, Some st, w1)"
    "commit (mem_env toy_marshal toy_unmarshal) toy_manager st w1 = (Inr (Some (TokWrite ''s9'' opts)), st2, w2)"
    "fst (sa_Authenticate (mem_env toy_marshal toy_unmarshal) (sa_handle toy_enc toy_dec) (Some (newState ''s1'')) (w2\<lparr>sw_now := sw_now w2\<rparr>)) = Inr None"
    unfolding if_P [OF refl] by blast
  then show ?thesis unfolding toy_env_def by auto
qed

end
