(* ===== verification/Migrations.thy ===== *)
theory Migrations
  imports GoPath "HOL-Library.Multiset"
begin

text \<open>
  Package \<open>migrations\<close> (\<open>migrations.go\<close>, \<open>driver.go\<close>) and the \<open>Apply\<close> of its drivers (\<open>postgres\<close>, \<open>mysql\<close>,
  \<open>sqlite\<close>): sources are read into streams of versions, checked against the rows already applied, and the missing
  ones are applied in order.

  \<^item> A file system is what \<open>fs.Sub\<close>, \<open>fs.ReadDir\<close> and \<open>fs.ReadFile\<close> answer for a directory; the checksum is an
    argument.
  \<^item> The \<open>Driver\<close> is a record of operations on a database state. A query delivers the rows or fails.
  \<^item> \<open>sort.Slice\<close> is used on keys without duplicates only and is \<open>sort_key\<close>.
  \<^item> Error texts are reduced to the sentinel and the key of the migration they name.
\<close>

section \<open>Sources\<close>

record migration =
  mg_Version :: int
  mg_Name :: string
  mg_Body :: string
  mg_Checksum :: string

record file_system =
  fs_Sub :: "string \<Rightarrow> bool"
  fs_ReadDir :: "string \<Rightarrow> (string \<times> bool) list option"
  fs_ReadFile :: "string \<Rightarrow> string \<Rightarrow> string option"

record mig_source =
  src_Stream :: string
  src_FS :: "file_system option"
  src_Dir :: string

record mig_stream =
  sm_name :: string
  sm_migs :: "migration list"

type_synonym applied_key = "string \<times> int"

datatype mig_error =
    NilDriver
  | InvalidSource
  | DuplicateStream string
  | InvalidFilename string
  | InvalidVersion string
  | DuplicateVersion int
  | ReadFailed string
  | Drift applied_key
  | Orphan applied_key
  | ApplyFailed applied_key string
  | DbFailed string
  | Joined mig_error mig_error

definition maxIdentBytes :: nat where
  "maxIdentBytes = 191"

definition checkIdentLen :: "string \<Rightarrow> bool" where
  "checkIdentLen s \<longleftrightarrow> length s \<le> maxIdentBytes"

definition validateCleanRel :: "string \<Rightarrow> bool" where
  "validateCleanRel p \<longleftrightarrow>
    (if p = [] then True
     else if hd p = CHR ''/'' then False
     else if last p = CHR ''/'' then False
     else if \<exists>seg \<in> set (splitOn (CHR ''/'') p). seg = [] \<or> seg = ''.'' \<or> seg = ''..'' then False
     else path_Clean p = p)"

text \<open>\<open>filenameRE\<close>: digits, an underscore, a non-empty name of letters, digits, underscores and dashes, the
  extension. Digits end at the underscore, so the match is unique.\<close>

definition is_digit :: "char \<Rightarrow> bool" where
  "is_digit c \<longleftrightarrow> CHR ''0'' \<le> c \<and> c \<le> CHR ''9''"

definition name_byte :: "char \<Rightarrow> bool" where
  "name_byte c \<longleftrightarrow> CHR ''A'' \<le> c \<and> c \<le> CHR ''Z'' \<or> CHR ''a'' \<le> c \<and> c \<le> CHR ''z'' \<or> is_digit c \<or> c = CHR ''_'' \<or> c = CHR ''-''"

definition hasSuffix :: "string \<Rightarrow> string \<Rightarrow> bool" where
  "hasSuffix s suf \<longleftrightarrow> length suf \<le> length s \<and> drop (length s - length suf) s = suf"

definition filenameRE :: "string \<Rightarrow> (string \<times> string) option" where
  "filenameRE s =
    (let ds = takeWhile is_digit s; rest = dropWhile is_digit s;
         nm = take (length rest - 5) (drop 1 rest)
     in if ds \<noteq> [] \<and> rest \<noteq> [] \<and> hd rest = CHR ''_'' \<and> hasSuffix (drop 1 rest) ''.sql'' \<and> nm \<noteq> [] \<and> list_all name_byte nm
        then Some (ds, nm) else None)"

text \<open>The loop of \<open>loadMigrations\<close>; \<open>seen\<close> are the versions so far.\<close>

fun load_entries :: "(string \<Rightarrow> string) \<Rightarrow> file_system \<Rightarrow> string \<Rightarrow> int list \<Rightarrow> (string \<times> bool) list \<Rightarrow> mig_error + migration list" where
  "load_entries sha fsys dir seen [] = Inr []"
| "load_entries sha fsys dir seen ((nm, isDir) # entries) =
    (if isDir then Inl InvalidSource
     else if \<not> hasSuffix nm ''.sql'' then load_entries sha fsys dir seen entries
     else case filenameRE nm of
       None \<Rightarrow> Inl (InvalidFilename nm)
     | Some (digits, name) \<Rightarrow>
         if \<not> checkIdentLen name then Inl (InvalidFilename nm)
         else (case parseInt digits of
           None \<Rightarrow> Inl (InvalidVersion nm)
         | Some version \<Rightarrow>
             if version \<in> set seen then Inl (DuplicateVersion version)
             else (case fs_ReadFile fsys dir nm of
               None \<Rightarrow> Inl (ReadFailed nm)
             | Some body \<Rightarrow>
                 (case load_entries sha fsys dir (version # seen) entries of
                    Inl e \<Rightarrow> Inl e
                  | Inr migs \<Rightarrow> Inr (\<lparr>mg_Version = version, mg_Name = name, mg_Body = body, mg_Checksum = sha body\<rparr> # migs)))))"

definition loadMigrations :: "(string \<Rightarrow> string) \<Rightarrow> file_system \<Rightarrow> string \<Rightarrow> string \<Rightarrow> mig_error + migration list" where
  "loadMigrations sha fsys dir stream =
    (case fs_ReadDir fsys dir of
       None \<Rightarrow> Inl (ReadFailed stream)
     | Some entries \<Rightarrow>
         (case load_entries sha fsys dir [] entries of
            Inl e \<Rightarrow> Inl e
          | Inr migs \<Rightarrow> Inr (sort_key mg_Version migs)))"

text \<open>The loop of \<open>loadStreams\<close>. A source with an empty \<open>Dir\<close> is read at its root.\<close>

fun load_sources :: "(string \<Rightarrow> string) \<Rightarrow> string list \<Rightarrow> mig_source list \<Rightarrow> mig_error + mig_stream list" where
  "load_sources sha seen [] = Inr []"
| "load_sources sha seen (src # sources) =
    (case src_FS src of
       None \<Rightarrow> Inl InvalidSource
     | Some fsys \<Rightarrow>
         if \<not> validateCleanRel (src_Dir src) then Inl InvalidSource
         else if \<not> validateCleanRel (src_Stream src) then Inl InvalidSource
         else if \<not> checkIdentLen (src_Stream src) then Inl InvalidSource
         else if src_Stream src \<in> set seen then Inl (DuplicateStream (src_Stream src))
         else if src_Dir src \<noteq> [] \<and> \<not> fs_Sub fsys (src_Dir src) then Inl InvalidSource
         else (case loadMigrations sha fsys (src_Dir src) (src_Stream src) of
           Inl e \<Rightarrow> Inl e
         | Inr migs \<Rightarrow>
             (case load_sources sha (src_Stream src # seen) sources of
                Inl e \<Rightarrow> Inl e
              | Inr streams \<Rightarrow> Inr (\<lparr>sm_name = src_Stream src, sm_migs = migs\<rparr> # streams))))"

definition loadStreams :: "(string \<Rightarrow> string) \<Rightarrow> mig_source list \<Rightarrow> mig_error + mig_stream list" where
  "loadStreams sha sources =
    (if sources = [] then Inl InvalidSource
     else case load_sources sha [] sources of Inl e \<Rightarrow> Inl e | Inr streams \<Rightarrow> Inr (sort_key sm_name streams))"

definition mig_Check :: "(string \<Rightarrow> string) \<Rightarrow> mig_source list \<Rightarrow> mig_error option" where
  "mig_Check sha sources = (case loadStreams sha sources of Inl e \<Rightarrow> Some e | Inr _ \<Rightarrow> None)"

section \<open>The driver\<close>

record applied_row =
  ar_name :: string
  ar_checksum :: string
  ar_appliedAt :: time

text \<open>\<open>Driver\<close> and \<open>Session\<close>: each operation answers an error text or succeeds, and changes the database.\<close>

record 's mig_driver =
  md_OpenSession :: "'s \<Rightarrow> string option \<times> 's"
  md_ExecSchema :: "'s \<Rightarrow> string option \<times> 's"
  md_QueryApplied :: "'s \<Rightarrow> string + (applied_key \<times> applied_row) list"
  md_Apply :: "string \<Rightarrow> migration \<Rightarrow> 's \<Rightarrow> string option \<times> 's"
  md_Close :: "'s \<Rightarrow> string option \<times> 's"
  md_TableExists :: "'s \<Rightarrow> string + bool"

definition loadApplied :: "'s mig_driver \<Rightarrow> 's \<Rightarrow> mig_error + (applied_key, applied_row) gomap" where
  "loadApplied drv s =
    (case md_QueryApplied drv s of Inl e \<Rightarrow> Inl (DbFailed e) | Inr rows \<Rightarrow> Inr (fold (\<lambda>(k, r). goput k r) rows []))"

definition sortedKeys :: "(applied_key, applied_row) gomap \<Rightarrow> applied_key list" where
  "sortedKeys applied = sort (gokeys applied)"

section \<open>Migrate\<close>

definition in_source :: "mig_stream list \<Rightarrow> (applied_key, migration) gomap" where
  "in_source streams = fold (\<lambda>st. fold (\<lambda>m. goput (sm_name st, mg_Version m) m) (sm_migs st)) streams []"

text \<open>The check of the applied rows, in the order of the keys.\<close>

fun check_applied :: "(applied_key, migration) gomap \<Rightarrow> (applied_key, applied_row) gomap \<Rightarrow> applied_key list \<Rightarrow> mig_error option" where
  "check_applied src applied [] = None"
| "check_applied src applied (k # ks) =
    (case map_of applied k of
       None \<Rightarrow> check_applied src applied ks
     | Some r \<Rightarrow>
         (case map_of src k of
            None \<Rightarrow> Some (Orphan k)
          | Some m \<Rightarrow> if ar_checksum r \<noteq> mg_Checksum m then Some (Drift k) else check_applied src applied ks))"

fun apply_migs :: "'s mig_driver \<Rightarrow> (applied_key, applied_row) gomap \<Rightarrow> string \<Rightarrow> migration list \<Rightarrow> 's \<Rightarrow> mig_error option \<times> 's" where
  "apply_migs drv applied nm [] s = (None, s)"
| "apply_migs drv applied nm (m # migs) s =
    (if map_of applied (nm, mg_Version m) \<noteq> None then apply_migs drv applied nm migs s
     else case md_Apply drv nm m s of
       (Some e, s1) \<Rightarrow> (Some (ApplyFailed (nm, mg_Version m) e), s1)
     | (None, s1) \<Rightarrow> apply_migs drv applied nm migs s1)"

fun apply_streams :: "'s mig_driver \<Rightarrow> (applied_key, applied_row) gomap \<Rightarrow> mig_stream list \<Rightarrow> 's \<Rightarrow> mig_error option \<times> 's" where
  "apply_streams drv applied [] s = (None, s)"
| "apply_streams drv applied (st # sts) s =
    (case apply_migs drv applied (sm_name st) (sm_migs st) s of
       (Some e, s1) \<Rightarrow> (Some e, s1)
     | (None, s1) \<Rightarrow> apply_streams drv applied sts s1)"

text \<open>What \<open>Migrate\<close> does between opening and closing the session.\<close>

definition migrate_session :: "'s mig_driver \<Rightarrow> mig_stream list \<Rightarrow> 's \<Rightarrow> mig_error option \<times> 's" where
  "migrate_session drv streams s =
    (case md_ExecSchema drv s of
       (Some e, s1) \<Rightarrow> (Some (DbFailed e), s1)
     | (None, s1) \<Rightarrow>
         (case loadApplied drv s1 of
            Inl e \<Rightarrow> (Some e, s1)
          | Inr applied \<Rightarrow>
              (case check_applied (in_source streams) applied (sortedKeys applied) of
                 Some e \<Rightarrow> (Some e, s1)
               | None \<Rightarrow> apply_streams drv applied streams s1)))"

definition close_session :: "'s mig_driver \<Rightarrow> mig_error option \<Rightarrow> 's \<Rightarrow> mig_error option \<times> 's" where
  "close_session drv rerr s =
    (case md_Close drv s of
       (None, s1) \<Rightarrow> (rerr, s1)
     | (Some c, s1) \<Rightarrow> (Some (case rerr of None \<Rightarrow> DbFailed c | Some e \<Rightarrow> Joined e (DbFailed c)), s1))"

definition Migrate :: "(string \<Rightarrow> string) \<Rightarrow> 's mig_driver option \<Rightarrow> mig_source list \<Rightarrow> 's \<Rightarrow> mig_error option \<times> 's" where
  "Migrate sha drv sources s =
    (case drv of
       None \<Rightarrow> (Some NilDriver, s)
     | Some d \<Rightarrow>
         (case loadStreams sha sources of
            Inl e \<Rightarrow> (Some e, s)
          | Inr streams \<Rightarrow>
              (case md_OpenSession d s of
                 (Some e, s1) \<Rightarrow> (Some (DbFailed e), s1)
               | (None, s1) \<Rightarrow> (let (rerr, s2) = migrate_session d streams s1 in close_session d rerr s2))))"

section \<open>Status\<close>

datatype mig_state = StatePending | StateApplied | StateDrifted | StateOrphan

record migration_status =
  ms_Stream :: string
  ms_Version :: int
  ms_Name :: string
  ms_Checksum :: string
  ms_FileChecksum :: string
  ms_AppliedAt :: time
  ms_State :: mig_state

definition status_of :: "(applied_key, applied_row) gomap \<Rightarrow> string \<Rightarrow> migration \<Rightarrow> migration_status" where
  "status_of applied nm m =
    (case map_of applied (nm, mg_Version m) of
       None \<Rightarrow> \<lparr>ms_Stream = nm, ms_Version = mg_Version m, ms_Name = mg_Name m, ms_Checksum = [], ms_FileChecksum = mg_Checksum m,
           ms_AppliedAt = zeroTime, ms_State = StatePending\<rparr>
     | Some r \<Rightarrow> \<lparr>ms_Stream = nm, ms_Version = mg_Version m, ms_Name = mg_Name m, ms_Checksum = ar_checksum r, ms_FileChecksum = mg_Checksum m,
           ms_AppliedAt = ar_appliedAt r, ms_State = (if ar_checksum r \<noteq> mg_Checksum m then StateDrifted else StateApplied)\<rparr>)"

definition orphan_status :: "applied_key \<Rightarrow> applied_row \<Rightarrow> migration_status" where
  "orphan_status k r = \<lparr>ms_Stream = fst k, ms_Version = snd k, ms_Name = ar_name r, ms_Checksum = ar_checksum r, ms_FileChecksum = [],
     ms_AppliedAt = ar_appliedAt r, ms_State = StateOrphan\<rparr>"

definition status_key :: "migration_status \<Rightarrow> applied_key" where
  "status_key e = (ms_Stream e, ms_Version e)"

definition Status :: "(string \<Rightarrow> string) \<Rightarrow> 's mig_driver option \<Rightarrow> mig_source list \<Rightarrow> 's \<Rightarrow> mig_error + migration_status list" where
  "Status sha drv sources s =
    (case drv of
       None \<Rightarrow> Inl NilDriver
     | Some d \<Rightarrow>
         (case loadStreams sha sources of
            Inl e \<Rightarrow> Inl e
          | Inr streams \<Rightarrow>
              (case md_TableExists d s of
                 Inl e \<Rightarrow> Inl (DbFailed e)
               | Inr exists \<Rightarrow>
                   (case (if exists then loadApplied d s else Inr []) of
                      Inl e \<Rightarrow> Inl e
                    | Inr applied \<Rightarrow>
                        (let keys = [(sm_name st, mg_Version m). st \<leftarrow> streams, m \<leftarrow> sm_migs st]
                         in Inr (sort_key status_key
                              ([status_of applied (sm_name st) m. st \<leftarrow> streams, m \<leftarrow> sm_migs st] @
                               [orphan_status k r. (k, r) \<leftarrow> applied, k \<notin> set keys])))))))"

section \<open>The drivers\<close>

text \<open>A connection of \<open>database/sql\<close>: the statements the drivers send. After \<open>Commit\<close> was called, failed or not, the
  deferred \<open>Rollback\<close> of \<open>sql.Tx\<close> sends nothing.\<close>

record 's sql_conn =
  sc_Begin :: "'s \<Rightarrow> string option \<times> 's"
  sc_Body :: "string \<Rightarrow> 's \<Rightarrow> string option \<times> 's"
  sc_Insert :: "applied_key \<Rightarrow> applied_row \<Rightarrow> 's \<Rightarrow> string option \<times> 's"
  sc_Commit :: "'s \<Rightarrow> string option \<times> 's"
  sc_Rollback :: "'s \<Rightarrow> string option \<times> 's"

definition row_of :: "migration \<Rightarrow> time \<Rightarrow> applied_row" where
  "row_of m now = \<lparr>ar_name = mg_Name m, ar_checksum = mg_Checksum m, ar_appliedAt = now\<rparr>"

definition postgres_Apply :: "'s sql_conn \<Rightarrow> time \<Rightarrow> string \<Rightarrow> migration \<Rightarrow> 's \<Rightarrow> string option \<times> 's" where
  "postgres_Apply c now stream m s =
    (case sc_Begin c s of
       (Some e, s1) \<Rightarrow> (Some e, s1)
     | (None, s1) \<Rightarrow>
         (case sc_Body c (mg_Body m) s1 of
            (Some e, s2) \<Rightarrow> (Some e, snd (sc_Rollback c s2))
          | (None, s2) \<Rightarrow>
              (case sc_Insert c (stream, mg_Version m) (row_of m now) s2 of
                 (Some e, s3) \<Rightarrow> (Some e, snd (sc_Rollback c s3))
               | (None, s3) \<Rightarrow> sc_Commit c s3)))"

definition mysql_Apply :: "'s sql_conn \<Rightarrow> time \<Rightarrow> string \<Rightarrow> migration \<Rightarrow> 's \<Rightarrow> string option \<times> 's" where
  "mysql_Apply = postgres_Apply"

text \<open>The SQLite session remembers a failed rollback.\<close>

definition sqlite_rollback :: "'s sql_conn \<Rightarrow> 's \<times> bool \<Rightarrow> 's \<times> bool" where
  "sqlite_rollback c st = (let (s, tainted) = st; (e, s1) = sc_Rollback c s in (s1, tainted \<or> e \<noteq> None))"

definition sqlite_Apply :: "'s sql_conn \<Rightarrow> time \<Rightarrow> string \<Rightarrow> migration \<Rightarrow> 's \<times> bool \<Rightarrow> string option \<times> 's \<times> bool" where
  "sqlite_Apply c now stream m st =
    (let (s, tainted) = st in
     case sc_Begin c s of
       (Some e, s1) \<Rightarrow> (Some e, s1, tainted)
     | (None, s1) \<Rightarrow>
         (case sc_Body c (mg_Body m) s1 of
            (Some e, s2) \<Rightarrow> (Some e, sqlite_rollback c (s2, tainted))
          | (None, s2) \<Rightarrow>
              (case sc_Insert c (stream, mg_Version m) (row_of m now) s2 of
                 (Some e, s3) \<Rightarrow> (Some e, sqlite_rollback c (s3, tainted))
               | (None, s3) \<Rightarrow>
                   (case sc_Commit c s3 of
                      (Some e, s4) \<Rightarrow> (Some e, sqlite_rollback c (s4, tainted))
                    | (None, s4) \<Rightarrow> (None, s4, tainted)))))"

section \<open>What is assumed of a database\<close>

type_synonym row_map = "applied_key \<rightharpoonup> applied_row"

text \<open>\<open>rows\<close> are the committed rows of \<open>schema_migrations\<close>, \<open>work\<close> what the open transaction sees. Only the insert
  writes the table. A server that commits on its own (MySQL after DDL) may commit the insert at once, and a failed
  commit may or may not have happened.\<close>

definition tx_database :: "'s sql_conn \<Rightarrow> ('s \<Rightarrow> row_map) \<Rightarrow> ('s \<Rightarrow> row_map) \<Rightarrow> bool" where
  "tx_database c rows work \<longleftrightarrow>
    (\<forall>s e s'. sc_Begin c s = (e, s') \<longrightarrow> rows s' = rows s \<and> (e = None \<longrightarrow> work s' = rows s)) \<and>
    (\<forall>b s e s'. sc_Body c b s = (e, s') \<longrightarrow> rows s' = rows s \<and> (e = None \<longrightarrow> work s' = work s)) \<and>
    (\<forall>k r s e s'. sc_Insert c k r s = (e, s') \<longrightarrow>
      (if e = None then work s' = (work s)(k \<mapsto> r) \<and> (rows s' = rows s \<or> rows s' = work s') else rows s' = rows s)) \<and>
    (\<forall>s e s'. sc_Commit c s = (e, s') \<longrightarrow> rows s' = work s \<or> e \<noteq> None \<and> rows s' = rows s) \<and>
    (\<forall>s. rows (snd (sc_Rollback c s)) = rows s)"

text \<open>What \<open>Migrate\<close> relies on of an \<open>Apply\<close>: success records the migration, failure records it or not.\<close>

definition records :: "(string \<Rightarrow> migration \<Rightarrow> 's \<Rightarrow> string option \<times> 's) \<Rightarrow> ('s \<Rightarrow> row_map) \<Rightarrow> bool" where
  "records apply rows \<longleftrightarrow>
    (\<forall>nm m s e s'. apply nm m s = (e, s') \<longrightarrow>
      (\<exists>t. rows s' = (rows s)((nm, mg_Version m) \<mapsto> row_of m t)) \<or> e \<noteq> None \<and> rows s' = rows s)"

definition driver_ok :: "'s mig_driver \<Rightarrow> ('s \<Rightarrow> row_map) \<Rightarrow> bool" where
  "driver_ok d rows \<longleftrightarrow>
    (\<forall>s. rows (snd (md_OpenSession d s)) = rows s \<and> rows (snd (md_ExecSchema d s)) = rows s \<and> rows (snd (md_Close d s)) = rows s) \<and>
    (\<forall>s rs. md_QueryApplied d s = Inr rs \<longrightarrow> distinct (map fst rs) \<and> map_of rs = rows s) \<and>
    (\<forall>s. md_TableExists d s = Inr False \<longrightarrow> rows s = Map.empty) \<and>
    records (md_Apply d) rows"

lemma tx_database_steps:
  assumes "tx_database c rows work"
  shows "sc_Begin c s = (e, s') \<Longrightarrow> rows s' = rows s" "sc_Begin c s = (None, s') \<Longrightarrow> work s' = rows s"
    and "sc_Body c b s = (e, s') \<Longrightarrow> rows s' = rows s" "sc_Body c b s = (None, s') \<Longrightarrow> work s' = work s"
    and "sc_Insert c k r s = (None, s') \<Longrightarrow> work s' = (work s)(k \<mapsto> r)"
    and "sc_Insert c k r s = (None, s') \<Longrightarrow> rows s' = rows s \<or> rows s' = (work s)(k \<mapsto> r)"
    and "sc_Insert c k r s = (Some x, s') \<Longrightarrow> rows s' = rows s"
    and "sc_Commit c s = (None, s') \<Longrightarrow> rows s' = work s" "sc_Commit c s = (Some x, s') \<Longrightarrow> rows s' = work s \<or> rows s' = rows s"
    and "rows (snd (sc_Rollback c s)) = rows s"
proof -
  have b: "sc_Begin c s = (e, s') \<Longrightarrow> rows s' = rows s \<and> (e = None \<longrightarrow> work s' = rows s)"
    and x: "sc_Body c b s = (e, s') \<Longrightarrow> rows s' = rows s \<and> (e = None \<longrightarrow> work s' = work s)"
    and i: "sc_Insert c k r s = (e, s') \<Longrightarrow>
      (if e = None then work s' = (work s)(k \<mapsto> r) \<and> (rows s' = rows s \<or> rows s' = work s') else rows s' = rows s)"
    and m: "sc_Commit c s = (e, s') \<Longrightarrow> rows s' = work s \<or> e \<noteq> None \<and> rows s' = rows s"
    and r: "rows (snd (sc_Rollback c s)) = rows s" for s e s'
    using assms unfolding tx_database_def by blast+
  show "sc_Begin c s = (e, s') \<Longrightarrow> rows s' = rows s" "sc_Begin c s = (None, s') \<Longrightarrow> work s' = rows s" using b by auto
  show "sc_Body c b s = (e, s') \<Longrightarrow> rows s' = rows s" "sc_Body c b s = (None, s') \<Longrightarrow> work s' = work s" using x by auto
  show "sc_Insert c k r s = (None, s') \<Longrightarrow> work s' = (work s)(k \<mapsto> r)"
    "sc_Insert c k r s = (None, s') \<Longrightarrow> rows s' = rows s \<or> rows s' = (work s)(k \<mapsto> r)"
    "sc_Insert c k r s = (Some x, s') \<Longrightarrow> rows s' = rows s" using i [of s None s'] i [of s "Some x" s'] by auto
  show "sc_Commit c s = (None, s') \<Longrightarrow> rows s' = work s" "sc_Commit c s = (Some x, s') \<Longrightarrow> rows s' = work s \<or> rows s' = rows s" using m by auto
  show "rows (snd (sc_Rollback c s)) = rows s" by (rule r)
qed

lemma postgres_records:
  assumes d: "tx_database c rows work"
  shows "records (postgres_Apply c now) rows"
  unfolding records_def
proof (intro allI impI)
  fix nm m s e s'
  assume a: "postgres_Apply c now nm m s = (e, s')"
  let ?r = "(rows s)((nm, mg_Version m) \<mapsto> row_of m now)"
  have "rows s' = ?r \<or> e \<noteq> None \<and> rows s' = rows s"
  proof -
    obtain e1 s1 where b: "sc_Begin c s = (e1, s1)" by (rule prod.exhaust)
    obtain e2 s2 where x: "sc_Body c (mg_Body m) s1 = (e2, s2)" by (rule prod.exhaust)
    obtain e3 s3 where i: "sc_Insert c (nm, mg_Version m) (row_of m now) s2 = (e3, s3)" by (rule prod.exhaust)
    note step = tx_database_steps [OF d]
    have r: "rows s1 = rows s" "rows s2 = rows s" using step(1) [OF b] step(3) [OF x] by auto
    show ?thesis
    proof (cases e1)
      case (Some y)
      then show ?thesis using a b r by (auto simp: postgres_Apply_def)
    next
      case 1: None
      show ?thesis
      proof (cases e2)
        case (Some y)
        then show ?thesis using a b x r 1 step(10) by (auto simp: postgres_Apply_def)
      next
        case 2: None
        have w: "work s2 = rows s" using step(2) b 1 step(4) x 2 by auto
        show ?thesis
        proof (cases e3)
          case (Some y)
          then show ?thesis using a b x i r 1 2 step(7) [of "(nm, mg_Version m)" "row_of m now" s2 y s3] step(10) by (auto simp: postgres_Apply_def)
        next
          case None
          have i': "sc_Insert c (nm, mg_Version m) (row_of m now) s2 = (None, s3)" using i None by simp
          have w3: "work s3 = ?r" "rows s3 = rows s \<or> rows s3 = ?r" using step(5) [OF i'] step(6) [OF i'] w r by auto
          have cm: "sc_Commit c s3 = (e, s')" using a b x i' 1 2 by (simp add: postgres_Apply_def)
          then show ?thesis using step(8) [of s3 s'] step(9) [of s3 _ s'] w3 by (cases e) auto
        qed
      qed
    qed
  qed
  then show "(\<exists>t. rows s' = (rows s)((nm, mg_Version m) \<mapsto> row_of m t)) \<or> e \<noteq> None \<and> rows s' = rows s" by blast
qed

lemma sqlite_postgres:
  assumes d: "tx_database c rows work"
  shows "fst (sqlite_Apply c now nm m (s, tn)) = fst (postgres_Apply c now nm m s) \<and>
    rows (fst (snd (sqlite_Apply c now nm m (s, tn)))) = rows (snd (postgres_Apply c now nm m s))"
  using tx_database_steps(10) [OF d]
  by (auto simp: sqlite_Apply_def postgres_Apply_def sqlite_rollback_def Let_def split: option.splits prod.splits) (metis snd_conv)+

lemma sqlite_records:
  assumes d: "tx_database c rows work"
  shows "records (sqlite_Apply c now) (\<lambda>st. rows (fst st))"
  using postgres_records [OF d, of now] sqlite_postgres [OF d, of now] unfolding records_def
  by (metis prod.collapse fst_conv snd_conv)


section \<open>Streams are read in order\<close>

definition mig_key :: "string \<times> migration \<Rightarrow> applied_key" where
  "mig_key x = (fst x, mg_Version (snd x))"

definition all_migs :: "mig_stream list \<Rightarrow> (string \<times> migration) list" where
  "all_migs streams = [(sm_name st, m). st \<leftarrow> streams, m \<leftarrow> sm_migs st]"

lemma load_entries_versions:
  "load_entries sha fsys dir seen entries = Inr migs \<Longrightarrow> distinct (map mg_Version migs) \<and> set (map mg_Version migs) \<inter> set seen = {}"
proof (induction sha fsys dir seen entries arbitrary: migs rule: load_entries.induct)
  case (2 sha fsys dir seen nm isDir entries)
  show ?case
  proof (cases "hasSuffix nm ''.sql''")
    case True
    then obtain ds name version body rest where r: "filenameRE nm = Some (ds, name)" "checkIdentLen name" "parseInt ds = Some version"
      "version \<notin> set seen" "fs_ReadFile fsys dir nm = Some body" "load_entries sha fsys dir (version # seen) entries = Inr rest" "\<not> isDir"
      "migs = \<lparr>mg_Version = version, mg_Name = name, mg_Body = body, mg_Checksum = sha body\<rparr> # rest"
      using "2.prems" by (auto split: if_splits option.splits sum.splits)
    then show ?thesis using "2.IH"(2) [OF r(7) _ r(1) refl _ r(3,4,5,6)] True by auto
  next
    case False
    then show ?thesis using "2.IH"(1) "2.prems" by (auto split: if_splits)
  qed
qed simp

lemma sorted_wrt_key: "sorted_wrt (<) (map f xs) \<longleftrightarrow> sorted (map f xs) \<and> distinct (map f xs)" for f :: "'a \<Rightarrow> 'b :: linorder"
  by (rule strict_sorted_iff)

lemma sort_key_strict: "distinct (map f xs) \<Longrightarrow> sorted_wrt (<) (map f (sort_key f xs))" for f :: "'a \<Rightarrow> 'b :: linorder"
  by (simp add: sorted_wrt_key distinct_map)

lemma loadMigrations_sorted: "loadMigrations sha fsys dir nm = Inr migs \<Longrightarrow> sorted_wrt (<) (map mg_Version migs)"
  using load_entries_versions [of sha fsys dir "[]"]
  by (auto simp: loadMigrations_def sorted_wrt_key distinct_map split: option.splits sum.splits)

lemma load_sources_streams:
  "load_sources sha seen sources = Inr streams \<Longrightarrow> distinct (map sm_name streams) \<and> set (map sm_name streams) \<inter> set seen = {} \<and>
     (\<forall>st \<in> set streams. sorted_wrt (<) (map mg_Version (sm_migs st)))"
proof (induction sha seen sources arbitrary: streams rule: load_sources.induct)
  case (2 sha seen src sources)
  then obtain fsys migs rest where r: "src_FS src = Some fsys" "validateCleanRel (src_Dir src)" "validateCleanRel (src_Stream src)"
    "checkIdentLen (src_Stream src)" "src_Stream src \<notin> set seen" "\<not> (src_Dir src \<noteq> [] \<and> \<not> fs_Sub fsys (src_Dir src))"
    "loadMigrations sha fsys (src_Dir src) (src_Stream src) = Inr migs" "load_sources sha (src_Stream src # seen) sources = Inr rest"
    "streams = \<lparr>sm_name = src_Stream src, sm_migs = migs\<rparr> # rest"
    by (auto split: if_splits option.splits sum.splits)
  have "distinct (map sm_name rest) \<and> set (map sm_name rest) \<inter> set (src_Stream src # seen) = {} \<and>
     (\<forall>st \<in> set rest. sorted_wrt (<) (map mg_Version (sm_migs st)))"
    using "2.IH" [OF r(1) _ _ _ _ r(6,7,8)] r(2-5) by blast
  then show ?case using r(5,9) loadMigrations_sorted [OF r(7)] by auto
qed simp

lemma all_migs_Cons: "all_migs (st # sts) = map (\<lambda>m. (sm_name st, m)) (sm_migs st) @ all_migs sts"
  by (simp add: all_migs_def)

lemma all_migs_sorted:
  assumes "sorted_wrt (<) (map sm_name streams)" "\<forall>st \<in> set streams. sorted_wrt (<) (map mg_Version (sm_migs st))"
  shows "sorted_wrt (<) (map mig_key (all_migs streams))"
  using assms
proof (induction streams)
  case (Cons st sts)
  have one: "sorted_wrt (<) (map mig_key (map (\<lambda>m. (sm_name st, m)) (sm_migs st)))"
    using Cons.prems(2) by (auto simp: sorted_wrt_map mig_key_def less_prod_def elim: sorted_wrt_mono_rel [rotated])
  have "x < y" if "x \<in> set (map mig_key (map (\<lambda>m. (sm_name st, m)) (sm_migs st)))" "y \<in> set (map mig_key (all_migs sts))" for x y
    using that Cons.prems(1) by (auto simp: all_migs_def mig_key_def less_prod_def)
  with one show ?case using Cons by (simp add: all_migs_Cons sorted_wrt_append)
qed (simp add: all_migs_def)

lemma loadStreams_sorted:
  assumes "loadStreams sha sources = Inr streams"
  shows "sorted_wrt (<) (map mig_key (all_migs streams))"
proof -
  obtain sts where s: "load_sources sha [] sources = Inr sts" "streams = sort_key sm_name sts"
    using assms by (auto simp: loadStreams_def split: if_splits sum.splits)
  have "sorted_wrt (<) (map sm_name streams)" "\<forall>st \<in> set streams. sorted_wrt (<) (map mg_Version (sm_migs st))"
    using load_sources_streams [OF s(1)] s(2) by (auto simp: sorted_wrt_key distinct_map)
  then show ?thesis by (rule all_migs_sorted)
qed

section \<open>The loops as one list\<close>

lemma fold_in_source: "fold (\<lambda>st. fold (\<lambda>m. goput (sm_name st, mg_Version m) m) (sm_migs st)) streams acc =
    fold (\<lambda>x. goput (mig_key x) (snd x)) (all_migs streams) acc"
proof (induction streams arbitrary: acc)
  case (Cons st sts)
  then show ?case by (simp add: all_migs_Cons fold_map mig_key_def o_def)
qed (simp add: all_migs_def)

lemma map_of_fold_goput:
  "distinct (map f xs) \<Longrightarrow> map_of (fold (\<lambda>x. goput (f x) (g x)) xs acc) k =
    (case find (\<lambda>x. f x = k) xs of Some x \<Rightarrow> Some (g x) | None \<Rightarrow> map_of acc k)"
proof (induction xs arbitrary: acc)
  case (Cons x xs)
  have "find (\<lambda>y. f y = k) xs = None" if "f x = k" using that Cons.prems unfolding find_None_iff by (metis distinct.simps(2) image_eqI list.set_map list.simps(9))
  then show ?case using Cons by (auto split: option.splits)
qed simp

lemma in_source_iff:
  assumes "distinct (map mig_key (all_migs streams))"
  shows "map_of (in_source streams) k = Some m \<longleftrightarrow> (fst k, m) \<in> set (all_migs streams) \<and> snd k = mg_Version m"
proof -
  have f: "find (\<lambda>x. mig_key x = k) (all_migs streams) = Some x \<longleftrightarrow> x \<in> set (all_migs streams) \<and> mig_key x = k" for x
    using assms by (auto simp: find_Some_iff distinct_map inj_on_def in_set_conv_nth nth_eq_iff_index_eq distinct_conv_nth)
  have "map_of (in_source streams) k = map_option snd (find (\<lambda>x. mig_key x = k) (all_migs streams))"
    unfolding in_source_def fold_in_source map_of_fold_goput [OF assms] by (cases "find (\<lambda>x. mig_key x = k) (all_migs streams)") auto
  then have "map_of (in_source streams) k = Some m \<longleftrightarrow> (\<exists>x. x \<in> set (all_migs streams) \<and> mig_key x = k \<and> snd x = m)"
    using f by (simp del: split_paired_Ex)
  then show ?thesis by (cases k) (auto simp: mig_key_def)
qed


text \<open>Applying one list of migrations.\<close>

fun apply_all :: "'s mig_driver \<Rightarrow> (string \<times> migration) list \<Rightarrow> 's \<Rightarrow> mig_error option \<times> 's" where
  "apply_all d [] s = (None, s)"
| "apply_all d ((nm, m) # ms) s =
    (case md_Apply d nm m s of (Some e, s1) \<Rightarrow> (Some (ApplyFailed (nm, mg_Version m) e), s1) | (None, s1) \<Rightarrow> apply_all d ms s1)"

definition pending :: "mig_stream list \<Rightarrow> row_map \<Rightarrow> (string \<times> migration) list" where
  "pending streams R = filter (\<lambda>x. R (mig_key x) = None) (all_migs streams)"

lemma apply_all_append:
  "apply_all d (xs @ ys) s = (case apply_all d xs s of (Some e, s1) \<Rightarrow> (Some e, s1) | (None, s1) \<Rightarrow> apply_all d ys s1)"
  by (induction xs arbitrary: s) (auto split: prod.splits option.splits)

lemma apply_migs_all:
  "apply_migs d applied nm migs s = apply_all d (filter (\<lambda>x. map_of applied (mig_key x) = None) (map (\<lambda>m. (nm, m)) migs)) s"
  by (induction migs arbitrary: s) (auto simp: mig_key_def split: prod.splits option.splits)

lemma apply_streams_all: "apply_streams d applied streams s = apply_all d (pending streams (map_of applied)) s"
  by (induction streams arbitrary: s)
    (auto simp: pending_def all_migs_Cons apply_migs_all apply_all_append all_migs_def [of "[]"] split: prod.splits option.splits)

section \<open>What is recorded\<close>

fun recorded :: "row_map \<Rightarrow> (string \<times> migration) list \<Rightarrow> row_map \<Rightarrow> bool" where
  "recorded R [] R' \<longleftrightarrow> R' = R"
| "recorded R (x # xs) R' \<longleftrightarrow> (\<exists>t. recorded (R(mig_key x \<mapsto> row_of (snd x) t)) xs R')"

lemma recorded_other: "recorded R xs R' \<Longrightarrow> k \<notin> set (map mig_key xs) \<Longrightarrow> R' k = R k"
  by (induction xs arbitrary: R) fastforce+

lemma recorded_row:
  assumes "recorded R xs R'" "distinct (map mig_key xs)" "x \<in> set xs"
  shows "\<exists>t. R' (mig_key x) = Some (row_of (snd x) t)"
  using assms
proof (induction xs arbitrary: R)
  case (Cons y ys)
  obtain t where t: "recorded (R(mig_key y \<mapsto> row_of (snd y) t)) ys R'" using Cons.prems(1) by auto
  show ?case
  proof (cases "x = y")
    case True
    have "mig_key y \<notin> set (map mig_key ys)" using Cons.prems(2) by simp
    then have "R' (mig_key y) = Some (row_of (snd y) t)" using recorded_other [OF t] by simp
    then show ?thesis using True by blast
  next
    case False
    then show ?thesis using Cons.IH [OF t] Cons.prems by simp
  qed
qed simp

lemma apply_all_prefix:
  assumes "records (md_Apply d) rows" "apply_all d xs s = (err, s')"
  shows "\<exists>n \<le> length xs. recorded (rows s) (take n xs) (rows s') \<and> (err = None \<longrightarrow> n = length xs)"
  using assms(2)
proof (induction xs arbitrary: s)
  case (Cons x xs)
  obtain nm m where x: "x = (nm, m)" by (rule prod.exhaust)
  obtain e s1 where a: "md_Apply d nm m s = (e, s1)" by (rule prod.exhaust)
  then consider (rec) t where "rows s1 = (rows s)(mig_key x \<mapsto> row_of (snd x) t)" | (same) "e \<noteq> None" "rows s1 = rows s"
    using assms(1) unfolding records_def by (metis x mig_key_def fst_conv snd_conv)
  then show ?case
  proof cases
    case rec
    show ?thesis
    proof (cases e)
      case None
      then have "apply_all d xs s1 = (err, s')" using Cons.prems x a by simp
      then obtain n where n: "n \<le> length xs" "recorded (rows s1) (take n xs) (rows s')" "err = None \<longrightarrow> n = length xs"
        using Cons.IH by blast
      have "recorded (rows s) (take (Suc n) (x # xs)) (rows s')" using n(2) rec by (auto simp: rec)
      then show ?thesis using n(1,3) by (intro exI [of _ "Suc n"]) auto
    next
      case (Some y)
      then have "s' = s1" "err \<noteq> None" using Cons.prems x a by auto
      moreover have "recorded (rows s) (take 1 (x # xs)) (rows s1)" using rec by (auto simp del: fun_upd_apply)
      ultimately show ?thesis by (intro exI [of _ 1]) auto
    qed
  next
    case same
    then have "s' = s1" "err \<noteq> None" using Cons.prems x a by auto
    then show ?thesis using same by (intro exI [of _ 0]) auto
  qed
qed auto


lemma loadApplied_rows:
  assumes "driver_ok d rows" "loadApplied d s = Inr applied"
  shows "gomap_wf applied \<and> map_of applied = rows s"
proof -
  obtain rs where q: "md_QueryApplied d s = Inr rs" "applied = fold (\<lambda>(k, r). goput k r) rs []"
    using assms(2) by (auto simp: loadApplied_def split: sum.splits)
  have d: "distinct (map fst rs)" "map_of rs = rows s" using assms(1) q(1) by (auto simp: driver_ok_def)
  have f: "fold (\<lambda>(k, r). goput k r) rs acc = fold (\<lambda>x. goput (fst x) (snd x)) rs acc" for acc by (simp add: case_prod_beta')
  have "map_of applied k = map_of rs k" for k
  proof (cases "find (\<lambda>x. fst x = k) rs")
    case None
    then have "map_of rs k = None" unfolding find_None_iff map_of_eq_None_iff by (metis imageE)
    then show ?thesis unfolding q(2) f map_of_fold_goput [OF d(1)] None by simp
  next
    case (Some x)
    then have "x \<in> set rs" "fst x = k" by (auto simp: find_Some_iff)
    then have "map_of rs k = Some (snd x)" using d(1) by (metis map_of_is_SomeI prod.collapse)
    then show ?thesis unfolding q(2) f map_of_fold_goput [OF d(1)] Some by simp
  qed
  moreover have "gomap_wf (fold (\<lambda>(k, r). goput k r) rs acc)" if "gomap_wf acc" for acc
    using that by (induction rs arbitrary: acc) (auto intro: distinct_update)
  ultimately show ?thesis using d(2) q(2) by (auto simp: fun_eq_iff)
qed

lemma check_applied_None:
  "check_applied src applied ks = None \<longleftrightarrow>
    (\<forall>k \<in> set ks. \<forall>r. map_of applied k = Some r \<longrightarrow> (\<exists>m. map_of src k = Some m \<and> mg_Checksum m = ar_checksum r))"
  by (induction ks) (auto split: option.splits)

text \<open>The rows of a state disagree with the sources at a key.\<close>

definition mismatch :: "mig_stream list \<Rightarrow> row_map \<Rightarrow> applied_key \<Rightarrow> mig_error option" where
  "mismatch streams R k =
    (case R k of
       None \<Rightarrow> None
     | Some r \<Rightarrow> if (fst k, snd k) \<notin> set (map mig_key (all_migs streams)) then Some (Orphan k)
         else if (\<exists>m. (fst k, m) \<in> set (all_migs streams) \<and> snd k = mg_Version m \<and> mg_Checksum m = ar_checksum r) then None else Some (Drift k))"

lemma mismatch_in_source:
  assumes "distinct (map mig_key (all_migs streams))"
  shows "mismatch streams R k = (case R k of None \<Rightarrow> None | Some r \<Rightarrow>
     (case map_of (in_source streams) k of None \<Rightarrow> Some (Orphan k) | Some m \<Rightarrow> if ar_checksum r \<noteq> mg_Checksum m then Some (Drift k) else None))"
proof (cases "R k")
  case (Some r)
  show ?thesis
  proof (cases "map_of (in_source streams) k")
    case None
    then have "\<not> ((fst k, m) \<in> set (all_migs streams) \<and> snd k = mg_Version m)" for m using in_source_iff [OF assms, of k m] by simp
    then have "k \<notin> set (map mig_key (all_migs streams))" by (fastforce simp: mig_key_def)
    then show ?thesis using None Some by (simp add: mismatch_def)
  next
    case (Some m)
    have m: "(fst k, m') \<in> set (all_migs streams) \<and> snd k = mg_Version m' \<longleftrightarrow> m' = m" for m'
      using in_source_iff [OF assms, of k m'] Some by auto
    then have "k \<in> set (map mig_key (all_migs streams))" by (cases k) (force simp: mig_key_def image_iff)
    moreover have "(\<exists>m'. (fst k, m') \<in> set (all_migs streams) \<and> snd k = mg_Version m' \<and> mg_Checksum m' = ar_checksum r) \<longleftrightarrow> mg_Checksum m = ar_checksum r"
      using m by metis
    ultimately show ?thesis using Some \<open>R k = Some r\<close> by (auto simp: mismatch_def simp del: in_set_conv_nth)
  qed
qed (simp add: mismatch_def)

lemma check_applied_first:
  assumes "distinct (map mig_key (all_migs streams))" "sorted ks" "check_applied (in_source streams) applied ks = Some e"
  shows "\<exists>k \<in> set ks. mismatch streams (map_of applied) k = Some e \<and> (\<forall>j \<in> set ks. j < k \<longrightarrow> mismatch streams (map_of applied) j = None)"
  using assms(2,3)
proof (induction ks)
  case (Cons k ks)
  show ?case
  proof (cases "mismatch streams (map_of applied) k")
    case None
    then have "check_applied (in_source streams) applied ks = Some e"
      using Cons.prems(2) by (auto simp: mismatch_in_source [OF assms(1)] split: option.splits if_splits)
    then show ?thesis using Cons None by auto
  next
    case (Some e')
    then have "e' = e" using Cons.prems(2) by (auto simp: mismatch_in_source [OF assms(1)] split: option.splits if_splits)
    then show ?thesis using Some Cons.prems(1) by auto
  qed
qed simp

lemma check_applied_ok:
  assumes "distinct (map mig_key (all_migs streams))"
  shows "check_applied (in_source streams) applied (sortedKeys applied) = None \<longleftrightarrow> (\<forall>k. mismatch streams (map_of applied) k = None)"
proof -
  have "mismatch streams (map_of applied) k = None" if "k \<notin> set (gokeys applied)" for k
    using that by (simp add: mismatch_def map_of_eq_None_iff [symmetric])
  moreover have "mismatch streams (map_of applied) k = None \<longleftrightarrow>
     (\<forall>r. map_of applied k = Some r \<longrightarrow> (\<exists>m. map_of (in_source streams) k = Some m \<and> mg_Checksum m = ar_checksum r))" for k
    by (auto simp: mismatch_in_source [OF assms] split: option.splits)
  ultimately show ?thesis unfolding check_applied_None sortedKeys_def by (metis set_sort)
qed


text \<open>A session in which everything before the applications worked.\<close>

lemma migrate_session_cases:
  assumes ok: "driver_ok d rows" and D: "distinct (map mig_key (all_migs streams))" and m: "migrate_session d streams s = (err, s')"
  shows "(\<exists>e. err = Some e) \<and> rows s' = rows s \<and> (\<forall>f. migrate_session (d\<lparr>md_Apply := f\<rparr>) streams s = (err, s')) \<or>
    (\<forall>k. mismatch streams (rows s) k = None) \<and> (\<exists>s1. rows s1 = rows s \<and> apply_all d (pending streams (rows s)) s1 = (err, s') \<and>
      (\<forall>f. migrate_session (d\<lparr>md_Apply := f\<rparr>) streams s = apply_all (d\<lparr>md_Apply := f\<rparr>) (pending streams (rows s)) s1))"
proof -
  obtain e1 s1 where e: "md_ExecSchema d s = (e1, s1)" by (rule prod.exhaust)
  have r: "rows s1 = rows s" using ok e by (metis driver_ok_def snd_conv)
  have la: "loadApplied (d\<lparr>md_Apply := f\<rparr>) s1 = loadApplied d s1" for f by (simp add: loadApplied_def)
  show ?thesis
  proof (cases "e1 = None \<and> (\<exists>applied. loadApplied d s1 = Inr applied \<and> check_applied (in_source streams) applied (sortedKeys applied) = None)")
    case True
    then obtain applied where a: "e1 = None" "loadApplied d s1 = Inr applied" "check_applied (in_source streams) applied (sortedKeys applied) = None"
      by blast
    have "map_of applied = rows s" using loadApplied_rows [OF ok a(2)] r by simp
    then show ?thesis using a e m r check_applied_ok [OF D, of applied] la
      by (intro disjI2 conjI exI [of _ s1]) (auto simp: migrate_session_def apply_streams_all)
  next
    case False
    obtain e2 where g: "migrate_session (d\<lparr>md_Apply := f\<rparr>) streams s = (Some e2, s1)" for f
      using False e la by (cases e1; cases "loadApplied d s1"; fastforce simp: migrate_session_def split: option.splits)
    have "migrate_session d streams s = migrate_session (d\<lparr>md_Apply := md_Apply d\<rparr>) streams s" by simp
    then have "err = Some e2" "s' = s1" using m unfolding g by auto
    then show ?thesis using r g by blast
  qed
qed

lemma close_session_rows: "driver_ok d rows \<Longrightarrow> rows (snd (close_session d rerr s)) = rows s"
  unfolding close_session_def driver_ok_def by (metis (no_types, lifting) old.prod.case option.case_eq_if prod.collapse snd_conv)

lemma close_session_error: "fst (close_session d rerr s) = None \<Longrightarrow> rerr = None"
  by (auto simp: close_session_def split: prod.splits option.splits)

lemma close_session_Apply: "close_session (d\<lparr>md_Apply := f\<rparr>) = close_session d"
  by (intro ext) (simp add: close_session_def)

lemma Migrate_unfold:
  assumes ok: "driver_ok d rows" and l: "loadStreams sha sources = Inr streams" and m: "Migrate sha (Some d) sources s = (err, s')"
  obtains (unopened) "\<exists>e. err = Some e" "rows s' = rows s" "\<forall>f. Migrate sha (Some (d\<lparr>md_Apply := f\<rparr>)) sources s = (err, s')"
  | (opened) s1 rerr s2 where "md_OpenSession d s = (None, s1)" "rows s1 = rows s" "migrate_session d streams s1 = (rerr, s2)"
      "(err, s') = close_session d rerr s2" "rows s' = rows s2"
proof -
  obtain e1 s1 where e: "md_OpenSession d s = (e1, s1)" by (rule prod.exhaust)
  have r: "rows s1 = rows s" using ok e by (metis driver_ok_def snd_conv)
  obtain rerr s2 where ms: "migrate_session d streams s1 = (rerr, s2)" by (rule prod.exhaust)
  show ?thesis
  proof (cases e1)
    case None
    then have c: "(err, s') = close_session d rerr s2" using m l e ms by (simp add: Migrate_def)
    then show ?thesis using opened [OF _ r ms c] close_session_rows [OF ok, of rerr s2] e None by (metis snd_conv)
  next
    case (Some x)
    then have "err = Some (DbFailed x)" "s' = s1" using m l e by (auto simp: Migrate_def)
    then show ?thesis using unopened l e r Some by (simp add: Migrate_def)
  qed
qed


section \<open>Properties\<close>

text \<open>C24: Migrations are applied in the order of stream and version and never out of it. Whatever the outcome of
  \<open>Migrate\<close>, the table of applied rows is the old one with a first part of the missing migrations added, each with
  the name and checksum of its file; after success it is all of them.\<close>

theorem mig_applies_prefix:
  assumes "driver_ok d rows" "loadStreams sha sources = Inr streams" "Migrate sha (Some d) sources s = (err, s')"
  shows "sorted_wrt (<) (map mig_key (pending streams (rows s))) \<and>
    (\<exists>n \<le> length (pending streams (rows s)). recorded (rows s) (take n (pending streams (rows s))) (rows s') \<and>
      (err = None \<longrightarrow> n = length (pending streams (rows s))))"
proof
  have srt: "sorted_wrt (<) (map mig_key (all_migs streams))" by (rule loadStreams_sorted [OF assms(2)])
  then show "sorted_wrt (<) (map mig_key (pending streams (rows s)))"
    by (auto simp: pending_def sorted_wrt_map intro: sorted_wrt_filter)
  have D: "distinct (map mig_key (all_migs streams))" using srt strict_sorted_iff by blast
  show "\<exists>n \<le> length (pending streams (rows s)). recorded (rows s) (take n (pending streams (rows s))) (rows s') \<and>
      (err = None \<longrightarrow> n = length (pending streams (rows s)))"
    using assms
  proof (cases rule: Migrate_unfold)
    case (opened s1 rerr s2)
    have c: "err = None \<Longrightarrow> rerr = None" using opened(4) close_session_error [of d rerr s2] by (metis fst_conv)
    consider (stopped) "rerr \<noteq> None" "rows s2 = rows s1" | (applied) s3 where "rows s3 = rows s1" "apply_all d (pending streams (rows s1)) s3 = (rerr, s2)"
      using migrate_session_cases [OF assms(1) D opened(3)] by blast
    then show ?thesis
    proof cases
      case stopped
      then show ?thesis using opened c by (intro exI [of _ 0]) auto
    next
      case applied
      then show ?thesis
        using apply_all_prefix [of d rows "pending streams (rows s1)" s3 rerr s2] assms(1) opened(2,5) c unfolding driver_ok_def by metis
    qed
  qed (auto intro: exI [of _ 0])
qed

text \<open>C25: After a successful \<open>Migrate\<close> the database holds exactly the migrations of the sources, every row with the
  checksum of its file and every older row untouched, and running it again applies nothing.\<close>

theorem mig_success_exact:
  assumes "driver_ok d rows" "loadStreams sha sources = Inr streams" "Migrate sha (Some d) sources s = (None, s')"
  shows "dom (rows s') = set (map mig_key (all_migs streams)) \<and>
    (\<forall>x \<in> set (all_migs streams). \<exists>r. rows s' (mig_key x) = Some r \<and> ar_checksum r = mg_Checksum (snd x)) \<and>
    (\<forall>k r. rows s k = Some r \<longrightarrow> rows s' k = Some r) \<and>
    (\<forall>f. Migrate sha (Some (d\<lparr>md_Apply := f\<rparr>)) sources s' = Migrate sha (Some d) sources s')"
proof -
  have D: "distinct (map mig_key (all_migs streams))" using loadStreams_sorted [OF assms(2)] strict_sorted_iff by blast
  let ?p = "pending streams (rows s)"
  have "recorded (rows s) ?p (rows s') \<and> (\<forall>k. mismatch streams (rows s) k = None)"
    using assms
  proof (cases rule: Migrate_unfold)
    case (opened s1 rerr s2)
    have c: "rerr = None" using opened(4) close_session_error [of d rerr s2] by (metis fst_conv)
    then obtain s3 where s3: "\<forall>k. mismatch streams (rows s1) k = None" "rows s3 = rows s1" "apply_all d (pending streams (rows s1)) s3 = (None, s2)"
      using migrate_session_cases [OF assms(1) D opened(3)] by auto
    then show ?thesis using apply_all_prefix [of d rows "pending streams (rows s1)" s3 None s2] assms(1) opened(2,5) unfolding driver_ok_def by auto
  qed auto
  then have rec: "recorded (rows s) ?p (rows s')" and mm: "mismatch streams (rows s) k = None" for k by blast+
  have Dp: "distinct (map mig_key ?p)" using D by (simp add: pending_def distinct_map_filter)
  have old: "rows s' k = Some r" if "rows s k = Some r" for k r
    using recorded_other [OF rec, of k] that by (fastforce simp: pending_def)
  have row: "\<exists>r. rows s' (mig_key x) = Some r \<and> ar_checksum r = mg_Checksum (snd x)" if x: "x \<in> set (all_migs streams)" for x
  proof (cases "rows s (mig_key x)")
    case None
    then show ?thesis using recorded_row [OF rec Dp, of x] x by (auto simp: pending_def row_of_def)
  next
    case (Some r)
    have "map_of (in_source streams) (mig_key x) = Some (snd x)" using x by (simp add: in_source_iff [OF D] mig_key_def)
    then show ?thesis using mm [of "mig_key x"] Some old [OF Some] by (auto simp: mismatch_in_source [OF D] split: if_splits)
  qed
  have keys: "k \<in> set (map mig_key (all_migs streams))" if "rows s' k = Some r" for k r
  proof (cases "rows s k")
    case None
    then have "k \<in> set (map mig_key ?p)" using recorded_other [OF rec, of k] that by fastforce
    then show ?thesis by (auto simp: pending_def)
  next
    case (Some q)
    then show ?thesis using mm [of k] by (auto simp: mismatch_def split: if_splits)
  qed
  have none: "pending streams (rows s') = []" using row by (auto simp: pending_def filter_empty_conv)
  have "Migrate sha (Some (d\<lparr>md_Apply := f\<rparr>)) sources s' = Migrate sha (Some d) sources s'" for f
  proof -
    obtain err s'' where m: "Migrate sha (Some d) sources s' = (err, s'')" by (rule prod.exhaust)
    from assms(1,2) m show ?thesis
    proof (cases rule: Migrate_unfold)
      case (opened s1 rerr s2)
      have "migrate_session (d\<lparr>md_Apply := f\<rparr>) streams s1 = (rerr, s2)"
        using migrate_session_cases [OF assms(1) D opened(3)] opened(2) none by auto
      then show ?thesis using opened(1,3,4) assms(2) by (simp add: Migrate_def close_session_Apply)
    qed (simp add: m)
  qed
  moreover have "dom (rows s') = set (map mig_key (all_migs streams))"
  proof
    show "dom (rows s') \<subseteq> set (map mig_key (all_migs streams))" using keys by blast
    show "set (map mig_key (all_migs streams)) \<subseteq> dom (rows s')" using row by fastforce
  qed
  ultimately show ?thesis using old row by blast
qed


text \<open>C38: A database that disagrees with the sources is left alone. When some applied row has no file or a file with
  another checksum, and the session can be opened, prepared, read and closed, \<open>Migrate\<close> reports the first such row in
  key order as orphan or drifted, and no migration is applied.\<close>

theorem mig_refuses_mismatch:
  assumes "driver_ok d rows" "loadStreams sha sources = Inr streams" "mismatch streams (rows s) k \<noteq> None"
    and "md_OpenSession d s = (None, s1)" "md_ExecSchema d s1 = (None, s2)" "md_QueryApplied d s2 = Inr rs" "md_Close d s2 = (None, s3)"
  shows "\<exists>j e. (\<forall>f. Migrate sha (Some (d\<lparr>md_Apply := f\<rparr>)) sources s = (Some e, s3)) \<and> mismatch streams (rows s) j = Some e \<and>
    (\<forall>i < j. mismatch streams (rows s) i = None) \<and> rows s3 = rows s"
proof -
  have D: "distinct (map mig_key (all_migs streams))" using loadStreams_sorted [OF assms(2)] strict_sorted_iff by blast
  have r: "rows s1 = rows s" "rows s2 = rows s" "rows s3 = rows s" using assms(1,4,5,7) unfolding driver_ok_def by (metis snd_conv)+
  obtain applied where a: "loadApplied d s2 = Inr applied" using assms(6) by (simp add: loadApplied_def)
  have m: "map_of applied = rows s" using loadApplied_rows [OF assms(1) a] r by simp
  obtain e where e: "check_applied (in_source streams) applied (sortedKeys applied) = Some e"
    using check_applied_ok [OF D, of applied] assms(3) unfolding m by (metis not_None_eq)
  have keys: "set (sortedKeys applied) = dom (rows s)" by (simp add: sortedKeys_def m [symmetric] dom_map_of_conv_image_fst)
  have "sorted (sortedKeys applied)" by (simp add: sortedKeys_def)
  from check_applied_first [OF D this e] obtain j where j: "mismatch streams (rows s) j = Some e"
    "\<forall>i \<in> dom (rows s). i < j \<longrightarrow> mismatch streams (rows s) i = None" unfolding keys m by blast
  have "mismatch streams (rows s) i = None" if "i \<notin> dom (rows s)" for i using that by (simp add: mismatch_def domIff)
  then have "\<forall>i < j. mismatch streams (rows s) i = None" using j(2) by blast
  moreover have "Migrate sha (Some (d\<lparr>md_Apply := f\<rparr>)) sources s = (Some e, s3)" for f
    using assms(2,4,5,7) a e by (simp add: Migrate_def migrate_session_def close_session_def loadApplied_def)
  ultimately show ?thesis using j(1) r(3) by blast
qed

lemma distinct_status_keys:
  assumes "distinct (map mig_key (all_migs streams))" "gomap_wf applied"
  shows "distinct (map status_key ([status_of applied (sm_name st) m. st \<leftarrow> streams, m \<leftarrow> sm_migs st] @
    [orphan_status k r. (k, r) \<leftarrow> applied, k \<notin> set [(sm_name st, mg_Version m). st \<leftarrow> streams, m \<leftarrow> sm_migs st]]))"
proof -
  have k: "[(sm_name st, mg_Version m). st \<leftarrow> streams, m \<leftarrow> sm_migs st] = map mig_key (all_migs streams)"
    by (simp add: all_migs_def map_concat o_def mig_key_def)
  have s: "status_key (status_of applied nm m) = (nm, mg_Version m)" for nm m by (simp add: status_of_def status_key_def split: option.splits)
  have "map status_key [status_of applied (sm_name st) m. st \<leftarrow> streams, m \<leftarrow> sm_migs st] = map mig_key (all_migs streams)"
    by (simp add: all_migs_def map_concat o_def mig_key_def s)
  moreover have "map status_key [orphan_status k r. (k, r) \<leftarrow> applied, k \<notin> K] = filter (\<lambda>k. k \<notin> K) (gokeys applied)" for K
    by (induction applied) (auto simp: orphan_status_def status_key_def)
  ultimately show ?thesis using assms unfolding k by (auto simp: distinct_map_filter)
qed

text \<open>\<open>Status\<close> is exact: the entries are in strictly increasing order of stream and version, there is one for every
  migration of the sources and every applied row, and its state is pending, applied, drifted or orphan as the file and
  the row say.\<close>

theorem mig_status_exact:
  assumes "driver_ok d rows" "loadStreams sha sources = Inr streams" "Status sha (Some d) sources s = Inr out"
  shows "sorted_wrt (<) (map status_key out) \<and>
    set out = (\<lambda>x. case rows s (mig_key x) of
        None \<Rightarrow> \<lparr>ms_Stream = fst x, ms_Version = mg_Version (snd x), ms_Name = mg_Name (snd x), ms_Checksum = [],
          ms_FileChecksum = mg_Checksum (snd x), ms_AppliedAt = zeroTime, ms_State = StatePending\<rparr>
      | Some r \<Rightarrow> \<lparr>ms_Stream = fst x, ms_Version = mg_Version (snd x), ms_Name = mg_Name (snd x), ms_Checksum = ar_checksum r,
          ms_FileChecksum = mg_Checksum (snd x), ms_AppliedAt = ar_appliedAt r,
          ms_State = (if mismatch streams (rows s) (mig_key x) = None then StateApplied else StateDrifted)\<rparr>) ` set (all_migs streams) \<union>
      {e. \<exists>k r. rows s k = Some r \<and> mismatch streams (rows s) k = Some (Orphan k) \<and>
        e = \<lparr>ms_Stream = fst k, ms_Version = snd k, ms_Name = ar_name r, ms_Checksum = ar_checksum r, ms_FileChecksum = [],
          ms_AppliedAt = ar_appliedAt r, ms_State = StateOrphan\<rparr>}"
proof -
  have D: "distinct (map mig_key (all_migs streams))" using loadStreams_sorted [OF assms(2)] strict_sorted_iff by blast
  obtain ex applied where a: "md_TableExists d s = Inr ex" "(if ex then loadApplied d s else Inr []) = Inr applied"
    "out = sort_key status_key ([status_of applied (sm_name st) m. st \<leftarrow> streams, m \<leftarrow> sm_migs st] @
      [orphan_status k r. (k, r) \<leftarrow> applied, k \<notin> set [(sm_name st, mg_Version m). st \<leftarrow> streams, m \<leftarrow> sm_migs st]])"
    using assms(2,3) by (auto simp: Status_def Let_def split: sum.splits)
  have ap: "gomap_wf applied \<and> map_of applied = rows s"
    using a(1,2) loadApplied_rows [OF assms(1), of s applied] assms(1) by (auto simp: driver_ok_def split: if_splits)
  have keys: "set [(sm_name st, mg_Version m). st \<leftarrow> streams, m \<leftarrow> sm_migs st] = set (map mig_key (all_migs streams))"
    by (force simp: all_migs_def mig_key_def)
  have one: "status_of applied (fst x) (snd x) = (case rows s (mig_key x) of
        None \<Rightarrow> \<lparr>ms_Stream = fst x, ms_Version = mg_Version (snd x), ms_Name = mg_Name (snd x), ms_Checksum = [],
          ms_FileChecksum = mg_Checksum (snd x), ms_AppliedAt = zeroTime, ms_State = StatePending\<rparr>
      | Some r \<Rightarrow> \<lparr>ms_Stream = fst x, ms_Version = mg_Version (snd x), ms_Name = mg_Name (snd x), ms_Checksum = ar_checksum r,
          ms_FileChecksum = mg_Checksum (snd x), ms_AppliedAt = ar_appliedAt r,
          ms_State = (if mismatch streams (rows s) (mig_key x) = None then StateApplied else StateDrifted)\<rparr>)" if "x \<in> set (all_migs streams)" for x
  proof -
    have "map_of (in_source streams) (mig_key x) = Some (snd x)" using that by (simp add: in_source_iff [OF D] mig_key_def)
    then show ?thesis using ap by (auto simp: status_of_def mig_key_def mismatch_in_source [OF D] split: option.splits)
  qed
  have orph: "mismatch streams (rows s) k = Some (Orphan k) \<longleftrightarrow> k \<notin> set (map mig_key (all_migs streams))" if "rows s k = Some r" for k r
    using that by (auto simp: mismatch_def)
  have "set out = (\<lambda>x. status_of applied (fst x) (snd x)) ` set (all_migs streams) \<union>
      {e. \<exists>k r. rows s k = Some r \<and> k \<notin> set (map mig_key (all_migs streams)) \<and> e = orphan_status k r}"
    unfolding a(3) set_sort set_append keys
  proof (rule arg_cong2 [where f = "(\<union>)"])
    show "set [status_of applied (sm_name st) m. st \<leftarrow> streams, m \<leftarrow> sm_migs st] = (\<lambda>x. status_of applied (fst x) (snd x)) ` set (all_migs streams)"
      by (force simp: all_migs_def)
    have "set applied = {(k, r). rows s k = Some r}" using ap map_of_in_set [of applied] by auto
    then show "set [orphan_status k r. (k, r) \<leftarrow> applied, k \<notin> set (map mig_key (all_migs streams))] =
        {e. \<exists>k r. rows s k = Some r \<and> k \<notin> set (map mig_key (all_migs streams)) \<and> e = orphan_status k r}"
      by auto
  qed
  moreover have "{e. \<exists>k r. rows s k = Some r \<and> k \<notin> set (map mig_key (all_migs streams)) \<and> e = orphan_status k r} =
      {e. \<exists>k r. rows s k = Some r \<and> mismatch streams (rows s) k = Some (Orphan k) \<and> e = orphan_status k r}"
    by (intro Collect_cong ex_cong1) (use orph in \<open>blast\<close>)
  ultimately have "set out = (\<lambda>x. status_of applied (fst x) (snd x)) ` set (all_migs streams) \<union>
      {e. \<exists>k r. rows s k = Some r \<and> mismatch streams (rows s) k = Some (Orphan k) \<and> e = orphan_status k r}"
    by (rule trans [OF _ arg_cong [where f = "(\<union>) _"]])
  moreover have "sorted_wrt (<) (map status_key out)"
    unfolding a(3) by (rule sort_key_strict [OF distinct_status_keys [OF D]]) (simp add: ap)
  ultimately show ?thesis using one by (simp only: orphan_status_def cong: image_cong)
qed


section \<open>A database for the witnesses\<close>

text \<open>A state is the committed and the working rows; a body \<open>BAD\<close> fails.\<close>

type_synonym sample_state = "(applied_key, applied_row) gomap \<times> (applied_key, applied_row) gomap"

definition sample_conn :: "sample_state sql_conn" where
  "sample_conn = \<lparr>sc_Begin = (\<lambda>(R, W). (None, R, R)), sc_Body = (\<lambda>b s. (if b = ''BAD'' then Some ''syntax'' else None, s)),
     sc_Insert = (\<lambda>k r (R, W). (None, R, goput k r W)), sc_Commit = (\<lambda>(R, W). (None, W, W)), sc_Rollback = (\<lambda>(R, W). (None, R, R))\<rparr>"

definition sample_rows :: "sample_state \<Rightarrow> row_map" where
  "sample_rows s = map_of (fst s)"

definition sample_driver :: "sample_state mig_driver" where
  "sample_driver = \<lparr>md_OpenSession = (\<lambda>s. (None, s)), md_ExecSchema = (\<lambda>s. (None, s)), md_QueryApplied = (\<lambda>s. Inr (AList.clearjunk (fst s))),
     md_Apply = postgres_Apply sample_conn 5, md_Close = (\<lambda>s. (None, s)), md_TableExists = (\<lambda>s. Inr True)\<rparr>"

lemma sample_tx: "tx_database sample_conn sample_rows (\<lambda>s. map_of (snd s))"
  by (auto simp: tx_database_def sample_conn_def sample_rows_def split: if_splits)

lemma sample_ok: "driver_ok sample_driver sample_rows"
  using postgres_records [OF sample_tx, of 5]
  by (simp add: driver_ok_def sample_driver_def sample_rows_def distinct_clearjunk map_of_clearjunk)

definition sample_files :: "(string \<times> string) list \<Rightarrow> file_system" where
  "sample_files files = \<lparr>fs_Sub = (\<lambda>_. True), fs_ReadDir = (\<lambda>_. Some (map (\<lambda>(nm, b). (nm, False)) files)), fs_ReadFile = (\<lambda>_. map_of files)\<rparr>"

definition sample_sources :: "string \<Rightarrow> mig_source list" where
  "sample_sources body =
    [\<lparr>src_Stream = ''jobs'', src_FS = Some (sample_files [(''10_late.sql'', body), (''2_more.sql'', ''B''), (''README'', ''-'')]), src_Dir = ''sql''\<rparr>,
     \<lparr>src_Stream = [], src_FS = Some (sample_files [(''0001_base.sql'', ''A'')]), src_Dir = []\<rparr>]"

definition sample_streams :: "string \<Rightarrow> mig_stream list" where
  "sample_streams body =
    [\<lparr>sm_name = [], sm_migs = [\<lparr>mg_Version = 1, mg_Name = ''base'', mg_Body = ''A'', mg_Checksum = ''A''\<rparr>]\<rparr>,
     \<lparr>sm_name = ''jobs'', sm_migs = [\<lparr>mg_Version = 2, mg_Name = ''more'', mg_Body = ''B'', mg_Checksum = ''B''\<rparr>,
       \<lparr>mg_Version = 10, mg_Name = ''late'', mg_Body = body, mg_Checksum = body\<rparr>]\<rparr>]"

lemma sample_load: "loadStreams (\<lambda>b. b) (sample_sources ''C'') = Inr (sample_streams ''C'')"
    "loadStreams (\<lambda>b. b) (sample_sources ''BAD'') = Inr (sample_streams ''BAD'')"
  by code_simp+

theorem mig_applies_prefix_witness:
  "sorted_wrt (<) (map mig_key (pending (sample_streams ''BAD'') (sample_rows ([], [])))) \<and>
   (\<exists>n \<le> length (pending (sample_streams ''BAD'') (sample_rows ([], []))).
      recorded (sample_rows ([], [])) (take n (pending (sample_streams ''BAD'') (sample_rows ([], []))))
        (sample_rows (snd (Migrate (\<lambda>b. b) (Some sample_driver) (sample_sources ''BAD'') ([], []))))) \<and>
   fst (Migrate (\<lambda>b. b) (Some sample_driver) (sample_sources ''BAD'') ([], [])) = Some (ApplyFailed (''jobs'', 10) ''syntax'')"
proof -
  have "fst (Migrate (\<lambda>b. b) (Some sample_driver) (sample_sources ''BAD'') ([], [])) = Some (ApplyFailed (''jobs'', 10) ''syntax'')" by code_simp
  then show ?thesis using mig_applies_prefix [OF sample_ok sample_load(2), of "([], [])", OF prod.collapse [symmetric]] by blast
qed

theorem mig_success_exact_witness:
  "dom (sample_rows (snd (Migrate (\<lambda>b. b) (Some sample_driver) (sample_sources ''C'') ([], [])))) = {([], 1), (''jobs'', 2), (''jobs'', 10)}"
proof -
  have "fst (Migrate (\<lambda>b. b) (Some sample_driver) (sample_sources ''C'') ([], [])) = None" by code_simp
  then have "Migrate (\<lambda>b. b) (Some sample_driver) (sample_sources ''C'') ([], []) =
      (None, snd (Migrate (\<lambda>b. b) (Some sample_driver) (sample_sources ''C'') ([], [])))" by (metis prod.collapse)
  from mig_success_exact [OF sample_ok sample_load(1) this] show ?thesis
    by (auto simp: all_migs_def mig_key_def sample_streams_def)
qed

definition sample_drifted :: sample_state where
  "sample_drifted = ([((''jobs'', 2), row_of \<lparr>mg_Version = 2, mg_Name = ''more'', mg_Body = ''X'', mg_Checksum = ''X''\<rparr> 1),
     ((''old'', 7), row_of \<lparr>mg_Version = 7, mg_Name = ''gone'', mg_Body = ''Y'', mg_Checksum = ''Y''\<rparr> 2)], [])"

theorem mig_refuses_mismatch_witness:
  "\<exists>j e. Migrate (\<lambda>b. b) (Some (sample_driver\<lparr>md_Apply := (\<lambda>_ _ s. (None, s))\<rparr>)) (sample_sources ''C'') sample_drifted = (Some e, sample_drifted) \<and>
     mismatch (sample_streams ''C'') (sample_rows sample_drifted) j = Some e \<and> e = Drift (''jobs'', 2)"
proof -
  have m: "mismatch (sample_streams ''C'') (sample_rows sample_drifted) (''old'', 7) \<noteq> None"
    by (simp add: mismatch_def sample_streams_def sample_rows_def sample_drifted_def all_migs_def mig_key_def)
  have "fst (Migrate (\<lambda>b. b) (Some (sample_driver\<lparr>md_Apply := (\<lambda>_ _ s. (None, s))\<rparr>)) (sample_sources ''C'') sample_drifted) = Some (Drift (''jobs'', 2))" by code_simp
  moreover have "md_OpenSession sample_driver s = (None, s)" "md_ExecSchema sample_driver s = (None, s)"
    "md_QueryApplied sample_driver s = Inr (AList.clearjunk (fst s))" "md_Close sample_driver s = (None, s)" for s
    by (simp_all add: sample_driver_def)
  ultimately show ?thesis using mig_refuses_mismatch [OF sample_ok sample_load(1) m, of sample_drifted sample_drifted _ sample_drifted] by fastforce
qed

theorem mig_status_exact_witness:
  "case Status (\<lambda>b. b) (Some sample_driver) (sample_sources ''C'') sample_drifted of
     Inl _ \<Rightarrow> False
   | Inr out \<Rightarrow> sorted_wrt (<) (map status_key out) \<and> map ms_State out = [StatePending, StateDrifted, StatePending, StateOrphan]"
proof -
  have "case Status (\<lambda>b. b) (Some sample_driver) (sample_sources ''C'') sample_drifted of
     Inl _ \<Rightarrow> False | Inr out \<Rightarrow> map ms_State out = [StatePending, StateDrifted, StatePending, StateOrphan]" by code_simp
  then show ?thesis using mig_status_exact [OF sample_ok sample_load(1), of sample_drifted] by (auto split: sum.splits)
qed


section \<open>Files and versions\<close>

lemma hasSuffix_iff: "hasSuffix s suf \<longleftrightarrow> (\<exists>p. s = p @ suf)"
proof
  assume "hasSuffix s suf"
  then have "s = take (length s - length suf) s @ suf" unfolding hasSuffix_def by (metis append_take_drop_id)
  then show "\<exists>p. s = p @ suf" by blast
qed (auto simp: hasSuffix_def)

lemma filenameRE_iff:
  "filenameRE f = Some (ds, n) \<longleftrightarrow>
    f = ds @ ''_'' @ n @ ''.sql'' \<and> ds \<noteq> [] \<and> list_all is_digit ds \<and> n \<noteq> [] \<and> list_all name_byte n"
proof
  assume a: "filenameRE f = Some (ds, n)"
  let ?r = "dropWhile is_digit f"
  have d: "ds = takeWhile is_digit f" "ds \<noteq> []" "?r \<noteq> []" "hd ?r = CHR ''_''" "hasSuffix (drop 1 ?r) ''.sql''"
    "n = take (length ?r - 5) (drop 1 ?r)" "n \<noteq> []" "list_all name_byte n"
    using a by (auto simp: filenameRE_def Let_def split: if_splits)
  obtain p where p: "drop 1 ?r = p @ ''.sql''" using d(5) hasSuffix_iff by blast
  then have "?r = CHR ''_'' # p @ ''.sql''" using d(3,4) by (metis One_nat_def drop0 drop_Suc hd_Cons_tl)
  moreover from this have "n = p" using d(6) by simp
  ultimately have "f = ds @ ''_'' @ n @ ''.sql''" using d(1) by (metis append_Cons append_Nil takeWhile_dropWhile_id)
  moreover have "list_all is_digit ds" using d(1) by (auto simp: list_all_iff dest: set_takeWhileD)
  ultimately show "f = ds @ ''_'' @ n @ ''.sql'' \<and> ds \<noteq> [] \<and> list_all is_digit ds \<and> n \<noteq> [] \<and> list_all name_byte n" using d by blast
next
  assume a: "f = ds @ ''_'' @ n @ ''.sql'' \<and> ds \<noteq> [] \<and> list_all is_digit ds \<and> n \<noteq> [] \<and> list_all name_byte n"
  have u: "\<not> is_digit (CHR ''_'')" by code_simp
  have "takeWhile is_digit f = ds" "dropWhile is_digit f = ''_'' @ n @ ''.sql''"
    using a u by (auto simp: list_all_iff takeWhile_append dropWhile_append)
  then show "filenameRE f = Some (ds, n)" using a by (auto simp: filenameRE_def Let_def hasSuffix_iff)
qed

definition file_migration :: "(string \<Rightarrow> string) \<Rightarrow> file_system \<Rightarrow> string \<Rightarrow> string \<Rightarrow> migration \<Rightarrow> bool" where
  "file_migration sha fsys dir f m \<longleftrightarrow>
    (\<exists>ds. f = ds @ ''_'' @ mg_Name m @ ''.sql'' \<and> list_all is_digit ds \<and> list_all name_byte (mg_Name m) \<and> parseInt ds = Some (mg_Version m)) \<and>
    0 < length (mg_Name m) \<and> length (mg_Name m) \<le> maxIdentBytes \<and> fs_ReadFile fsys dir f = Some (mg_Body m) \<and> mg_Checksum m = sha (mg_Body m)"

lemma load_entries_files:
  "load_entries sha fsys dir seen entries = Inr migs \<Longrightarrow>
    list_all2 (file_migration sha fsys dir) (filter (\<lambda>f. hasSuffix f ''.sql'') (map fst entries)) migs \<and> (\<forall>e \<in> set entries. \<not> snd e)"
proof (induction sha fsys dir seen entries arbitrary: migs rule: load_entries.induct)
  case (2 sha fsys dir seen nm isDir entries)
  show ?case
  proof (cases "hasSuffix nm ''.sql''")
    case True
    then obtain ds name version body rest where r: "filenameRE nm = Some (ds, name)" "checkIdentLen name" "parseInt ds = Some version"
      "version \<notin> set seen" "fs_ReadFile fsys dir nm = Some body" "load_entries sha fsys dir (version # seen) entries = Inr rest" "\<not> isDir"
      "migs = \<lparr>mg_Version = version, mg_Name = name, mg_Body = body, mg_Checksum = sha body\<rparr> # rest"
      using "2.prems" by (auto split: if_splits option.splits sum.splits)
    have "file_migration sha fsys dir nm \<lparr>mg_Version = version, mg_Name = name, mg_Body = body, mg_Checksum = sha body\<rparr>"
      using r(1-5) by (auto simp: file_migration_def filenameRE_iff checkIdentLen_def)
    then show ?thesis using "2.IH"(2) [OF r(7) _ r(1) refl _ r(3,4,5,6)] True r by auto
  next
    case False
    then show ?thesis using "2.IH"(1) "2.prems" by (auto split: if_splits)
  qed
qed simp

text \<open>A stream is its files. When \<open>loadMigrations\<close> succeeds the directory holds no subdirectory, every file that
  ends in \<open>.sql\<close> is a number, an underscore, a name and the extension and makes exactly one migration with that
  version, name, body and checksum, other files make none, and the versions are strictly increasing.\<close>

theorem mig_load_exact:
  assumes "loadMigrations sha fsys dir nm = Inr migs"
  shows "\<exists>entries. fs_ReadDir fsys dir = Some entries \<and> (\<forall>e \<in> set entries. \<not> snd e) \<and> sorted_wrt (<) (map mg_Version migs) \<and>
    (\<exists>ms. mset ms = mset migs \<and> list_all2 (file_migration sha fsys dir) (filter (\<lambda>f. hasSuffix f ''.sql'') (map fst entries)) ms)"
proof -
  obtain entries ms where e: "fs_ReadDir fsys dir = Some entries" "load_entries sha fsys dir [] entries = Inr ms" "migs = sort_key mg_Version ms"
    using assms by (auto simp: loadMigrations_def split: option.splits sum.splits)
  then show ?thesis using load_entries_files [OF e(2)] loadMigrations_sorted [OF assms] by (metis mset_sort)
qed

theorem mig_load_exact_witness:
  "\<exists>migs. loadMigrations (\<lambda>b. b) (sample_files [(''10_late.sql'', ''C''), (''2_more.sql'', ''B''), (''README'', ''-'')]) [] ''jobs'' = Inr migs \<and>
     length migs = 2 \<and> sorted_wrt (<) (map mg_Version migs)"
proof -
  let ?l = "loadMigrations (\<lambda>b. b) (sample_files [(''10_late.sql'', ''C''), (''2_more.sql'', ''B''), (''README'', ''-'')]) [] ''jobs''"
  have "case ?l of Inl _ \<Rightarrow> False | Inr migs \<Rightarrow> length migs = 2" by code_simp
  then obtain migs where "?l = Inr migs" "length migs = 2" by (auto split: sum.splits)
  with mig_load_exact [OF this(1)] show ?thesis by blast
qed

text \<open>The drivers keep what \<open>Migrate\<close> relies on. On a database where a commit is all or nothing, where a body does
  not write the bookkeeping table and an insert may be committed at once, an \<open>Apply\<close> of each driver that succeeds
  has recorded its migration, and one that fails has recorded it or nothing.\<close>

theorem mig_drivers_record:
  assumes "tx_database c rows work"
  shows "records (postgres_Apply c now) rows \<and> records (mysql_Apply c now) rows \<and> records (sqlite_Apply c now) (\<lambda>st. rows (fst st))"
  using postgres_records [OF assms] sqlite_records [OF assms] by (simp add: mysql_Apply_def)

theorem mig_drivers_record_witness:
  "records (sqlite_Apply sample_conn 3) (\<lambda>st. sample_rows (fst st)) \<and>
   sqlite_Apply sample_conn 3 ''jobs'' \<lparr>mg_Version = 1, mg_Name = ''a'', mg_Body = ''BAD'', mg_Checksum = ''s''\<rparr> (([], []), False) = (Some ''syntax'', ([], []), False)"
  using mig_drivers_record [OF sample_tx, of 3] by (simp add: sqlite_Apply_def sample_conn_def sqlite_rollback_def)

end
