(* ===== verification/GenArgs.thy ===== *)
theory GenArgs
  imports GoText
begin

text \<open>
  \<open>gen/args.go\<close>: the arguments of a directive comment. \<open>lexArgs\<close> splits the text into tokens and remembers where
  each byte came from; \<open>ParseArgs\<close> sorts them into positional arguments and options by the directive's description.

  \<^item> A negative offset in the code is \<open>None\<close>.
  \<^item> A diagnostic keeps the offset it points at (none for the directive itself), what was wrong and the help text.
\<close>

section \<open>The lexer\<close>

record arg =
  ag_Text :: string
  ag_Col :: nat

record lex_token =
  tk_Text :: string
  tk_Col :: nat
  tk_srcCols :: "nat list"

fun lex_loop :: "nat \<Rightarrow> string \<Rightarrow> string \<Rightarrow> nat list \<Rightarrow> nat option \<Rightarrow> nat option \<Rightarrow> lex_token list \<times> nat option" where
  "lex_loop i [] cur cols start openQuote =
    (case start of None \<Rightarrow> [] | Some s \<Rightarrow> [\<lparr>tk_Text = cur, tk_Col = s, tk_srcCols = cols\<rparr>], openQuote)"
| "lex_loop i (b # rest) cur cols start openQuote =
    (if b = CHR 0x5C \<and> openQuote \<noteq> None \<and> rest \<noteq> [] \<and> (hd rest = CHR 0x22 \<or> hd rest = CHR 0x5C) then
       lex_loop (i + 2) (tl rest) (cur @ [hd rest]) (cols @ [i + 1]) start openQuote
     else if b = CHR 0x22 then
       lex_loop (i + 1) rest cur cols (if start = None then Some i else start) (if openQuote = None then Some i else None)
     else if (b = CHR '' '' \<or> b = CHR 0x09) \<and> openQuote = None then
       (case start of
          None \<Rightarrow> lex_loop (i + 1) rest cur cols start openQuote
        | Some s \<Rightarrow>
            (let (out, oq) = lex_loop (i + 1) rest [] [] None openQuote
             in (\<lparr>tk_Text = cur, tk_Col = s, tk_srcCols = cols\<rparr> # out, oq)))
     else lex_loop (i + 1) rest (cur @ [b]) (cols @ [i]) (if start = None then Some i else start) openQuote)"

definition lexArgs :: "string \<Rightarrow> lex_token list \<times> nat option" where
  "lexArgs s = lex_loop 0 s [] [] None None"

section \<open>Options\<close>

definition ident_char :: "char \<Rightarrow> bool" where
  "ident_char b \<longleftrightarrow> CHR ''a'' \<le> b \<and> b \<le> CHR ''z'' \<or> CHR ''A'' \<le> b \<and> b \<le> CHR ''Z'' \<or> CHR ''0'' \<le> b \<and> b \<le> CHR ''9'' \<or> b = CHR ''_''"

definition isIdentChars :: "string \<Rightarrow> bool" where
  "isIdentChars s \<longleftrightarrow> list_all ident_char s \<and> s \<noteq> []"

definition isIdent :: "string \<Rightarrow> bool" where
  "isIdent s \<longleftrightarrow> isIdentChars s \<and> (hd s < CHR ''0'' \<or> hd s > CHR ''9'')"

text \<open>\<open>IndexByte(text, '=')\<close> is the length of the part before the first \<open>=\<close>.\<close>

definition cutOption :: "lex_token \<Rightarrow> (string \<times> arg) option" where
  "cutOption tok =
    (let key = takeWhile (\<lambda>b. b \<noteq> CHR ''='') (tk_Text tok); i = length key in
     if i = length (tk_Text tok) \<or> i = 0 \<or> \<not> isIdentChars key then None
     else let col = (if i + 1 < length (tk_Text tok) then tk_srcCols tok ! (i + 1) else tk_srcCols tok ! i + 1)
       in Some (key, \<lparr>ag_Text = drop (i + 1) (tk_Text tok), ag_Col = col\<rparr>))"

record annotation =
  an_Name :: string
  an_Args :: string

definition directive_name :: "annotation \<Rightarrow> string" where
  "directive_name a = ''//fabrik:'' @ an_Name a"

text \<open>The fields of the description that \<open>ParseArgs\<close> reads; the others are documentation and completion hints.\<close>

record pos_spec =
  ps_Name :: string
  ps_Optional :: bool

record attr_spec =
  as_Key :: string
  as_Required :: bool

record meta =
  mt_Example :: string
  mt_Pos :: "pos_spec list"
  mt_Attrs :: "attr_spec list"

record args =
  as_Pos :: "arg list"
  as_Attr :: "(string, arg) gomap"

datatype arg_problem =
    UnterminatedQuote
  | InvalidKey string
  | UnknownOption string
  | DuplicateOption string
  | PositionalAfterOptions string
  | TakesNoArguments string
  | UnexpectedArgument string
  | RequiresPositional string
  | RequiresAfter string string string
  | RequiresOption string

record arg_diag =
  ad_At :: "nat option"
  ad_Problem :: arg_problem
  ad_Help :: string

fun join_with :: "string \<Rightarrow> string list \<Rightarrow> string" where
  "join_with sep [] = []"
| "join_with sep [p] = p"
| "join_with sep (p # q # ps) = p @ sep @ join_with sep (q # ps)"

definition requiredPos :: "meta \<Rightarrow> nat" where
  "requiredPos m = length (takeWhile (\<lambda>p. \<not> ps_Optional p) (mt_Pos m))"

definition posNames :: "meta \<Rightarrow> string" where
  "posNames m = join_with '' and '' (map ps_Name (mt_Pos m))"

definition knownOptionsHelp :: "meta \<Rightarrow> string" where
  "knownOptionsHelp m =
    (if mt_Attrs m = [] then ''this directive takes no options''
     else ''known options: '' @ join_with '', '' (map (\<lambda>s. as_Key s @ ''='') (mt_Attrs m)))"

definition exampleHelp :: "meta \<Rightarrow> string" where
  "exampleHelp m = (if mt_Example m = [] then [] else ''example: '' @ mt_Example m)"

section \<open>ParseArgs\<close>

text \<open>One token; \<open>inOptions\<close> is whether an option has been seen.\<close>

definition parse_token :: "annotation \<Rightarrow> meta \<Rightarrow> lex_token \<Rightarrow> bool \<times> args \<times> arg_diag list \<Rightarrow> bool \<times> args \<times> arg_diag list" where
  "parse_token a m tok st =
    (let (inOptions, out, ds) = st;
         err = (\<lambda>p h. ds @ [\<lparr>ad_At = Some (tk_Col tok), ad_Problem = p, ad_Help = h\<rparr>])
     in case cutOption tok of
       Some (key, val) \<Rightarrow>
         if \<not> isIdent key then (True, out, err (InvalidKey key) (knownOptionsHelp m))
         else if key \<notin> set (map as_Key (mt_Attrs m)) then (True, out, err (UnknownOption key) (knownOptionsHelp m))
         else if map_of (as_Attr out) key \<noteq> None then (True, out, err (DuplicateOption key) [])
         else (True, out\<lparr>as_Attr := goput key val (as_Attr out)\<rparr>, ds)
     | None \<Rightarrow>
         if inOptions then (inOptions, out, err (PositionalAfterOptions (tk_Text tok)) ''options (key=value) must come last'')
         else if length (as_Pos out) \<ge> length (mt_Pos m) then
           (inOptions, out, if mt_Pos m = [] then err (TakesNoArguments (tk_Text tok)) (exampleHelp m)
              else err (UnexpectedArgument (tk_Text tok)) (directive_name a @ '' takes only '' @ posNames m))
         else (inOptions, out\<lparr>as_Pos := as_Pos out @ [\<lparr>ag_Text = tk_Text tok, ag_Col = tk_Col tok\<rparr>]\<rparr>, ds))"

definition missing_pos :: "meta \<Rightarrow> args \<Rightarrow> arg_diag list" where
  "missing_pos m out =
    (if length (as_Pos out) < requiredPos m
     then [\<lparr>ad_At = None, ad_Problem = (if as_Pos out = [] then RequiresPositional (posNames m)
             else RequiresAfter (ps_Name (mt_Pos m ! length (as_Pos out))) (ps_Name (mt_Pos m ! (length (as_Pos out) - 1))) (ag_Text (last (as_Pos out)))),
             ad_Help = exampleHelp m\<rparr>]
     else [])"

definition missing_attrs :: "meta \<Rightarrow> args \<Rightarrow> arg_diag list" where
  "missing_attrs m out =
    map (\<lambda>s. \<lparr>ad_At = None, ad_Problem = RequiresOption (as_Key s), ad_Help = exampleHelp m\<rparr>)
      (filter (\<lambda>s. as_Required s \<and> map_of (as_Attr out) (as_Key s) = None) (mt_Attrs m))"

definition ParseArgs :: "annotation \<Rightarrow> meta \<Rightarrow> args \<times> arg_diag list" where
  "ParseArgs a m =
    (let (toks, openQuote) = lexArgs (an_Args a);
         ds0 = (case openQuote of None \<Rightarrow> [] | Some q \<Rightarrow>
           [\<lparr>ad_At = Some q, ad_Problem = UnterminatedQuote, ad_Help = ''close the quoted value, or write '' @ [CHR 0x5C, CHR 0x22] @ '' for a quote inside it''\<rparr>]);
         (inOptions, out, ds1) = fold (parse_token a m) toks (False, \<lparr>as_Pos = [], as_Attr = []\<rparr>, ds0)
     in (out, ds1 @ missing_pos m out @ missing_attrs m out))"

section \<open>Quoting\<close>

text \<open>What to write for a token: quoted, with quotes and backslashes escaped.\<close>

fun escape :: "string \<Rightarrow> string" where
  "escape [] = []"
| "escape (c # cs) = (if c = CHR 0x22 \<or> c = CHR 0x5C then [CHR 0x5C, c] else [c]) @ escape cs"

definition quote :: "string \<Rightarrow> string" where
  "quote t = CHR 0x22 # escape t @ [CHR 0x22]"

section \<open>Lexing what was quoted\<close>

lemma lex_escape:
  "\<exists>c. length c = length t \<and> lex_loop i (escape t @ CHR 0x22 # rest) cur cols (Some s) (Some q) =
     lex_loop (i + length (escape t)) (CHR 0x22 # rest) (cur @ t) (cols @ c) (Some s) (Some q)"
proof (induction t arbitrary: i cur cols)
  case (Cons a t)
  show ?case
  proof (cases "a = CHR 0x22 \<or> a = CHR 0x5C")
    case True
    then have e: "escape (a # t) = CHR 0x5C # a # escape t" by simp
    obtain c where c: "length c = length t" "lex_loop (i + 2) (escape t @ CHR 0x22 # rest) (cur @ [a]) (cols @ [i + 1]) (Some s) (Some q) =
        lex_loop (i + 2 + length (escape t)) (CHR 0x22 # rest) ((cur @ [a]) @ t) ((cols @ [i + 1]) @ c) (Some s) (Some q)"
      using Cons.IH by blast
    have "lex_loop i (escape (a # t) @ CHR 0x22 # rest) cur cols (Some s) (Some q) =
        lex_loop (i + 2) (escape t @ CHR 0x22 # rest) (cur @ [a]) (cols @ [i + 1]) (Some s) (Some q)"
      unfolding e append_Cons by (subst lex_loop.simps) (use True in simp)
    then show ?thesis using c e by (intro exI [of _ "(i + 1) # c"]) (simp add: add.assoc)
  next
    case False
    then have e: "escape (a # t) = a # escape t" by simp
    obtain c where c: "length c = length t" "lex_loop (i + 1) (escape t @ CHR 0x22 # rest) (cur @ [a]) (cols @ [i]) (Some s) (Some q) =
        lex_loop (i + 1 + length (escape t)) (CHR 0x22 # rest) ((cur @ [a]) @ t) ((cols @ [i]) @ c) (Some s) (Some q)"
      using Cons.IH by blast
    have "lex_loop i (escape (a # t) @ CHR 0x22 # rest) cur cols (Some s) (Some q) =
        lex_loop (i + 1) (escape t @ CHR 0x22 # rest) (cur @ [a]) (cols @ [i]) (Some s) (Some q)"
      unfolding e append_Cons by (subst lex_loop.simps) (use False in simp)
    then show ?thesis using c e by (intro exI [of _ "i # c"]) (simp add: add.assoc)
  qed
qed simp

lemma lex_quoted:
  "\<exists>c i'. length c = length t \<and> lex_loop i (quote t @ rest) cur cols start None =
     lex_loop i' rest (cur @ t) (cols @ c) (Some (case start of None \<Rightarrow> i | Some s \<Rightarrow> s)) None"
proof -
  let ?s = "case start of None \<Rightarrow> i | Some s \<Rightarrow> s"
  obtain c where c: "length c = length t" "lex_loop (i + 1) (escape t @ CHR 0x22 # rest) cur cols (Some ?s) (Some i) =
      lex_loop (i + 1 + length (escape t)) (CHR 0x22 # rest) (cur @ t) (cols @ c) (Some ?s) (Some i)"
    using lex_escape [of t "i + 1" rest cur cols ?s i] by blast
  have "lex_loop i (quote t @ rest) cur cols start None = lex_loop (i + 1) (escape t @ CHR 0x22 # rest) cur cols (Some ?s) (Some i)"
    by (cases start) (simp_all add: quote_def)
  also note c(2)
  also have "lex_loop (i + 1 + length (escape t)) (CHR 0x22 # rest) (cur @ t) (cols @ c) (Some ?s) (Some i) =
      lex_loop (i + 1 + length (escape t) + 1) rest (cur @ t) (cols @ c) (Some ?s) None"
    by simp
  finally show ?thesis using c(1) by blast
qed

lemma ident_char_plain: "ident_char c \<or> c = CHR ''='' \<Longrightarrow> c \<noteq> CHR 0x22 \<and> c \<noteq> CHR '' '' \<and> c \<noteq> CHR 0x09"
  by (auto simp: ident_char_def less_eq_char_def)

lemma lex_plain:
  assumes "\<forall>c \<in> set k. ident_char c \<or> c = CHR ''=''" "k \<noteq> []"
  shows "\<exists>c. length c = length k \<and> lex_loop i (k @ rest) cur cols start None =
     lex_loop (i + length k) rest (cur @ k) (cols @ c) (Some (case start of None \<Rightarrow> i | Some s \<Rightarrow> s)) None"
  using assms
proof (induction k arbitrary: i cur cols start)
  case (Cons a k)
  have a: "a \<noteq> CHR 0x22" "a \<noteq> CHR '' ''" "a \<noteq> CHR 0x09" using Cons.prems(1) ident_char_plain by auto
  have s: "lex_loop i ((a # k) @ rest) cur cols start None = lex_loop (i + 1) (k @ rest) (cur @ [a]) (cols @ [i]) (Some (case start of None \<Rightarrow> i | Some s \<Rightarrow> s)) None"
    using a by (cases start) simp_all
  show ?case
  proof (cases "k = []")
    case True
    then show ?thesis using s by (intro exI [of _ "[i]"]) simp
  next
    case False
    then obtain c where "length c = length k" "lex_loop (i + 1) (k @ rest) (cur @ [a]) (cols @ [i]) (Some (case start of None \<Rightarrow> i | Some s \<Rightarrow> s)) None =
        lex_loop (i + 1 + length k) rest ((cur @ [a]) @ k) ((cols @ [i]) @ c) (Some (case start of None \<Rightarrow> i | Some s \<Rightarrow> s)) None"
      using Cons.IH [of "i + 1" "cur @ [a]" "cols @ [i]" "Some (case start of None \<Rightarrow> i | Some s \<Rightarrow> s)"] Cons.prems(1) by auto
    then show ?thesis using s by (intro exI [of _ "i # c"]) simp
  qed
qed simp

text \<open>A written token: a quoted value, or an option with a quoted value.\<close>

datatype written = Value string | Option string string

fun write_token :: "written \<Rightarrow> string" where
  "write_token (Value t) = quote t"
| "write_token (Option k v) = k @ ''='' @ quote v"

fun token_text :: "written \<Rightarrow> string" where
  "token_text (Value t) = t"
| "token_text (Option k v) = k @ ''='' @ v"

definition write_args :: "written list \<Rightarrow> string" where
  "write_args ws = join_with '' '' (map write_token ws)"

lemma lex_written:
  assumes "case w of Value t \<Rightarrow> True | Option k v \<Rightarrow> isIdentChars k"
  shows "\<exists>c i' s. length c = length (token_text w) \<and> lex_loop i (write_token w @ rest) [] [] None None = lex_loop i' rest (token_text w) c (Some s) None"
proof (cases w)
  case (Value t)
  then show ?thesis using lex_quoted [of t i rest "[]" "[]" None] by fastforce
next
  case (Option k v)
  then have k: "\<forall>c \<in> set (k @ ''=''). ident_char c \<or> c = CHR ''=''" "k @ ''='' \<noteq> []" using assms by (auto simp: isIdentChars_def list_all_iff)
  obtain c where c: "length c = length (k @ ''='')"
    "lex_loop i ((k @ ''='') @ quote v @ rest) [] [] None None = lex_loop (i + length (k @ ''='')) (quote v @ rest) (k @ ''='') c (Some i) None"
    using lex_plain [OF k, of i "quote v @ rest" "[]" "[]" None] by auto
  obtain c' i' where "length c' = length v" "lex_loop (i + length (k @ ''='')) (quote v @ rest) (k @ ''='') c (Some i) None =
      lex_loop i' rest ((k @ ''='') @ v) (c @ c') (Some i) None"
    using lex_quoted [of v "i + length (k @ ''='')" rest "k @ ''=''" c "Some i"] by auto
  then show ?thesis using c Option by (intro exI [of _ "c @ c'"]) auto
qed

lemma lex_write_args:
  assumes "\<forall>w \<in> set ws. case w of Value t \<Rightarrow> True | Option k v \<Rightarrow> isIdentChars k"
  shows "\<exists>toks. lex_loop i (write_args ws) [] [] None None = (toks, None) \<and> map tk_Text toks = map token_text ws \<and>
    (\<forall>tok \<in> set toks. length (tk_srcCols tok) = length (tk_Text tok))"
  using assms
proof (induction ws arbitrary: i rule: induct_list012)
  case (2 w)
  obtain c i' s where "length c = length (token_text w)" "lex_loop i (write_token w @ []) [] [] None None = lex_loop i' [] (token_text w) c (Some s) None"
    using lex_written [of w i "[]"] 2 by auto
  then show ?case by (simp add: write_args_def)
next
  case (3 w w' ws)
  obtain c i' s where w: "length c = length (token_text w)"
    "lex_loop i (write_token w @ CHR '' '' # write_args (w' # ws)) [] [] None None = lex_loop i' (CHR '' '' # write_args (w' # ws)) (token_text w) c (Some s) None"
    using lex_written [of w i "CHR '' '' # write_args (w' # ws)"] "3.prems" by auto
  obtain toks where t: "lex_loop (i' + 1) (write_args (w' # ws)) [] [] None None = (toks, None)" "map tk_Text toks = map token_text (w' # ws)"
    "\<forall>tok \<in> set toks. length (tk_srcCols tok) = length (tk_Text tok)"
    using "3.IH"(2) [of "i' + 1"] "3.prems" by auto
  have "write_args (w # w' # ws) = write_token w @ CHR '' '' # write_args (w' # ws)" by (simp add: write_args_def)
  moreover have "lex_loop i' (CHR '' '' # write_args (w' # ws)) (token_text w) c (Some s) None = (\<lparr>tk_Text = token_text w, tk_Col = s, tk_srcCols = c\<rparr> # toks, None)"
    using t(1) by simp
  ultimately show ?case using w t by auto
qed (simp add: write_args_def)


section \<open>Parsing what was written\<close>

definition option_text :: "string \<Rightarrow> bool" where
  "option_text t \<longleftrightarrow> CHR ''='' \<in> set t \<and> isIdentChars (takeWhile (\<lambda>b. b \<noteq> CHR ''='') t)"

lemma takeWhile_full: "length (takeWhile P xs) = length xs \<longleftrightarrow> (\<forall>x \<in> set xs. P x)"
  by (induction xs) auto

lemma cutOption_None: "cutOption tok = None \<longleftrightarrow> \<not> option_text (tk_Text tok)"
  by (auto simp: cutOption_def option_text_def Let_def takeWhile_full isIdentChars_def)

lemma cutOption_Some:
  assumes "tk_Text tok = k @ ''='' @ v" "isIdentChars k"
  shows "\<exists>col. cutOption tok = Some (k, \<lparr>ag_Text = v, ag_Col = col\<rparr>)"
proof -
  have "CHR ''='' \<notin> set k" using assms(2) by (auto simp: isIdentChars_def list_all_iff ident_char_def less_eq_char_def)
  then have "takeWhile (\<lambda>b. b \<noteq> CHR ''='') (k @ ''='' @ v) = k" by (subst takeWhile_append2) auto
  then show ?thesis using assms by (auto simp: cutOption_def Let_def isIdentChars_def)
qed

lemma fold_positional:
  assumes "map tk_Text toks = pv" "\<forall>p \<in> set pv. \<not> option_text p" "length (as_Pos out) + length pv \<le> length (mt_Pos m)"
  shows "\<exists>out'. fold (parse_token a m) toks (False, out, ds) = (False, out', ds) \<and> map ag_Text (as_Pos out') = map ag_Text (as_Pos out) @ pv \<and> as_Attr out' = as_Attr out"
  using assms
proof (induction toks arbitrary: pv out)
  case (Cons tok toks)
  then obtain p pv' where p: "pv = p # pv'" "tk_Text tok = p" "map tk_Text toks = pv'" by auto
  let ?o = "out\<lparr>as_Pos := as_Pos out @ [\<lparr>ag_Text = tk_Text tok, ag_Col = tk_Col tok\<rparr>]\<rparr>"
  have "cutOption tok = None" using Cons.prems(2) p by (simp add: cutOption_None)
  then have "parse_token a m tok (False, out, ds) = (False, ?o, ds)"
    using Cons.prems(3) p(1) by (simp add: parse_token_def)
  moreover have "length (as_Pos ?o) + length pv' \<le> length (mt_Pos m)" using Cons.prems(3) p(1) by simp
  moreover have "\<forall>q \<in> set pv'. \<not> option_text q" using Cons.prems(2) p(1) by simp
  ultimately show ?case using Cons.IH [OF p(3), of ?o] p by auto
qed auto

lemma fold_options:
  assumes "map tk_Text toks = map (\<lambda>(k, v). k @ ''='' @ v) opts" "distinct (map fst opts)" "\<forall>k \<in> fst ` set opts. isIdent k \<and> k \<in> as_Key ` set (mt_Attrs m)"
    and "\<forall>k \<in> fst ` set opts. map_of (as_Attr out) k = None"
  shows "\<exists>io out'. fold (parse_token a m) toks (io0, out, ds) = (io, out', ds) \<and> as_Pos out' = as_Pos out \<and>
    (\<forall>k. map_option ag_Text (map_of (as_Attr out') k) = (case map_of opts k of Some v \<Rightarrow> Some v | None \<Rightarrow> map_option ag_Text (map_of (as_Attr out) k)))"
  using assms
proof (induction toks arbitrary: opts out io0)
  case (Cons tok toks)
  then obtain k v opts' where o: "opts = (k, v) # opts'" "tk_Text tok = k @ ''='' @ v" "map tk_Text toks = map (\<lambda>(k, v). k @ ''='' @ v) opts'"
    by (cases opts) auto
  have k: "isIdent k" "k \<in> as_Key ` set (mt_Attrs m)" "map_of (as_Attr out) k = None" using Cons.prems(3,4) o(1) by auto
  obtain col where c: "cutOption tok = Some (k, \<lparr>ag_Text = v, ag_Col = col\<rparr>)" using cutOption_Some [OF o(2)] k(1) by (auto simp: isIdent_def)
  let ?o = "out\<lparr>as_Attr := goput k \<lparr>ag_Text = v, ag_Col = col\<rparr> (as_Attr out)\<rparr>"
  have s: "parse_token a m tok (io0, out, ds) = (True, ?o, ds)" using c k by (auto simp: parse_token_def)
  have d: "distinct (map fst opts')" "k \<notin> fst ` set opts'" using Cons.prems(2) o(1) by auto
  have "\<forall>k \<in> fst ` set opts'. isIdent k \<and> k \<in> as_Key ` set (mt_Attrs m)" using Cons.prems(3) o(1) by auto
  moreover have "\<forall>k' \<in> fst ` set opts'. map_of (as_Attr ?o) k' = None" using Cons.prems(4) o(1) d(2) by (auto split: if_splits)
  ultimately obtain io out' where f: "fold (parse_token a m) toks (True, ?o, ds) = (io, out', ds)" "as_Pos out' = as_Pos ?o"
    "\<forall>k'. map_option ag_Text (map_of (as_Attr out') k') = (case map_of opts' k' of Some v \<Rightarrow> Some v | None \<Rightarrow> map_option ag_Text (map_of (as_Attr ?o) k'))"
    using Cons.IH [OF o(3) d(1), of ?o True] by blast
  have "map_of opts' k = None" using d(2) by (simp add: map_of_eq_None_iff)
  then have "map_option ag_Text (map_of (as_Attr out') k') = (case map_of opts k' of Some v \<Rightarrow> Some v | None \<Rightarrow> map_option ag_Text (map_of (as_Attr out) k'))" for k'
    using f(3) [rule_format, of k'] o(1) by (cases "k' = k") (auto split: option.splits)
  then show ?case using s f(1,2) by auto
qed auto

section \<open>Properties\<close>

text \<open>C39: Directive arguments round trip. Conditions: no positional value has the form of an option, an identifier followed by
  \<open>=\<close> (quoting does not protect it: \<open>"a=b"\<close> is parsed as the option \<open>a\<close>); there are as many positionals as the directive
  takes; the options are known, each is given once and the required ones are given. Then positional values and options
  written in quotes, with quotes and backslashes escaped, are parsed back without diagnostics: the positional texts in
  order and the value of every option, whatever else the bytes of the values are.\<close>

theorem args_roundtrip:
  assumes "\<forall>p \<in> set pv. \<not> option_text p" "requiredPos m \<le> length pv" "length pv \<le> length (mt_Pos m)"
    and "distinct (map fst opts)" "\<forall>k \<in> fst ` set opts. isIdent k \<and> k \<in> as_Key ` set (mt_Attrs m)"
    and "\<forall>s \<in> set (mt_Attrs m). as_Required s \<longrightarrow> as_Key s \<in> fst ` set opts"
  shows "\<exists>out. ParseArgs \<lparr>an_Name = n, an_Args = write_args (map Value pv @ map (\<lambda>(k, v). Option k v) opts)\<rparr> m = (out, []) \<and>
    map ag_Text (as_Pos out) = pv \<and> (\<forall>k. map_option ag_Text (map_of (as_Attr out) k) = map_of opts k)"
proof -
  let ?a = "\<lparr>an_Name = n, an_Args = write_args (map Value pv @ map (\<lambda>(k, v). Option k v) opts)\<rparr>"
  let ?ws = "map Value pv @ map (\<lambda>(k, v). Option k v) opts"
  have "\<forall>w \<in> set ?ws. case w of Value t \<Rightarrow> True | Option k v \<Rightarrow> isIdentChars k" using assms(5) by (fastforce simp: isIdent_def)
  from lex_write_args [OF this, of 0] obtain toks where t: "lexArgs (write_args ?ws) = (toks, None)" "map tk_Text toks = map token_text ?ws"
    unfolding lexArgs_def by blast
  define t1 t2 where "t1 = take (length pv) toks" "t2 = drop (length pv) toks"
  have t12: "toks = t1 @ t2" "map tk_Text t1 = pv" "map tk_Text t2 = map (\<lambda>(k, v). k @ ''='' @ v) opts"
    using t(2) by (simp_all add: t1_t2_def take_map [symmetric] drop_map [symmetric] o_def case_prod_beta')
  let ?e = "\<lparr>as_Pos = [], as_Attr = []\<rparr>"
  obtain o1 where o1: "fold (parse_token ?a m) t1 (False, ?e, []) = (False, o1, [])" "map ag_Text (as_Pos o1) = pv" "as_Attr o1 = []"
    using fold_positional [OF t12(2) assms(1), of ?e m ?a "[]"] assms(3) by auto
  have "\<forall>k \<in> fst ` set opts. map_of (as_Attr o1) k = None" using o1(3) by simp
  from fold_options [OF t12(3) assms(4,5) this, of ?a False "[]"] obtain io o2 where
    o2: "fold (parse_token ?a m) t2 (False, o1, []) = (io, o2, [])" "as_Pos o2 = as_Pos o1"
    "\<forall>k. map_option ag_Text (map_of (as_Attr o2) k) = (case map_of opts k of Some v \<Rightarrow> Some v | None \<Rightarrow> map_option ag_Text (map_of (as_Attr o1) k))"
    by blast
  have len: "length (as_Pos o2) = length pv" using o1(2) o2(2) by (metis length_map)
  have at: "map_option ag_Text (map_of (as_Attr o2) k) = map_of opts k" for k using o2(3) o1(3) by (auto split: option.splits)
  have "map_of (as_Attr o2) (as_Key s) \<noteq> None" if "s \<in> set (mt_Attrs m)" "as_Required s" for s
  proof -
    have "map_of opts (as_Key s) \<noteq> None" using assms(6) that by (simp add: map_of_eq_None_iff)
    then show ?thesis using at [of "as_Key s"] by auto
  qed
  then have "missing_pos m o2 = []" "missing_attrs m o2 = []" using assms(2) len by (auto simp: missing_pos_def missing_attrs_def filter_empty_conv)
  then show ?thesis using t(1) t12(1) o1 o2 at by (intro exI [of _ o2]) (simp add: ParseArgs_def Let_def)
qed

definition sample_meta :: meta where
  "sample_meta = \<lparr>mt_Example = ''//fabrik:http GET /'', mt_Pos = [\<lparr>ps_Name = ''METHOD'', ps_Optional = False\<rparr>, \<lparr>ps_Name = ''PATTERN'', ps_Optional = True\<rparr>],
     mt_Attrs = [\<lparr>as_Key = ''name'', as_Required = True\<rparr>, \<lparr>as_Key = ''use'', as_Required = False\<rparr>]\<rparr>"

theorem args_roundtrip_witness:
  "\<exists>out. ParseArgs \<lparr>an_Name = ''http'', an_Args = write_args [Value ''GET'', Value ''/a b'', Option ''name'' (''x='' @ [CHR 0x22, CHR 0x5C])]\<rparr> sample_meta = (out, []) \<and>
     map ag_Text (as_Pos out) = [''GET'', ''/a b''] \<and> map_option ag_Text (map_of (as_Attr out) ''name'') = Some (''x='' @ [CHR 0x22, CHR 0x5C])"
proof -
  have "\<forall>p \<in> set [''GET'', ''/a b'']. \<not> option_text p" by code_simp
  moreover have "requiredPos sample_meta \<le> length [''GET'', ''/a b'']" "length [''GET'', ''/a b''] \<le> length (mt_Pos sample_meta)" by code_simp+
  moreover have "distinct (map fst [(''name'', ''x='' @ [CHR 0x22, CHR 0x5C])])" by simp
  moreover have "\<forall>k \<in> fst ` set [(''name'', ''x='' @ [CHR 0x22, CHR 0x5C])]. isIdent k \<and> k \<in> as_Key ` set (mt_Attrs sample_meta)" by code_simp
  moreover have "\<forall>s \<in> set (mt_Attrs sample_meta). as_Required s \<longrightarrow> as_Key s \<in> fst ` set [(''name'', ''x='' @ [CHR 0x22, CHR 0x5C])]" by code_simp
  ultimately have "\<exists>out. ParseArgs \<lparr>an_Name = ''http'', an_Args = write_args (map Value [''GET'', ''/a b''] @ map (\<lambda>(k, v). Option k v) [(''name'', ''x='' @ [CHR 0x22, CHR 0x5C])])\<rparr> sample_meta = (out, []) \<and>
      map ag_Text (as_Pos out) = [''GET'', ''/a b''] \<and> (\<forall>k. map_option ag_Text (map_of (as_Attr out) k) = map_of [(''name'', ''x='' @ [CHR 0x22, CHR 0x5C])] k)"
    by (rule args_roundtrip)
  then obtain out where o: "ParseArgs \<lparr>an_Name = ''http'', an_Args = write_args (map Value [''GET'', ''/a b''] @ map (\<lambda>(k, v). Option k v) [(''name'', ''x='' @ [CHR 0x22, CHR 0x5C])])\<rparr> sample_meta = (out, [])"
      "map ag_Text (as_Pos out) = [''GET'', ''/a b'']" and a: "\<forall>k. map_option ag_Text (map_of (as_Attr out) k) = map_of [(''name'', ''x='' @ [CHR 0x22, CHR 0x5C])] k"
    by (elim exE conjE) (rule that)
  show ?thesis using o spec [OF a, of "''name''"] by (intro exI [of _ out]) simp
qed

text \<open>The bytes of a token, and that they are bytes of the text at their columns.\<close>

definition token_at :: "string \<Rightarrow> lex_token \<Rightarrow> bool" where
  "token_at s tok \<longleftrightarrow> length (tk_srcCols tok) = length (tk_Text tok) \<and> (\<forall>j < length (tk_Text tok). tk_srcCols tok ! j < length s \<and>
     s ! (tk_srcCols tok ! j) = tk_Text tok ! j) \<and> sorted_wrt (<) (tk_srcCols tok) \<and> (\<forall>c \<in> set (tk_srcCols tok). tk_Col tok \<le> c) \<and> tk_Col tok < length s"

definition lex_state :: "string \<Rightarrow> nat \<Rightarrow> string \<Rightarrow> nat list \<Rightarrow> nat option \<Rightarrow> nat option \<Rightarrow> bool" where
  "lex_state S i cur cols start oq \<longleftrightarrow> length cols = length cur \<and> (\<forall>j < length cur. cols ! j < i \<and> S ! (cols ! j) = cur ! j) \<and> sorted_wrt (<) cols \<and>
     (case start of None \<Rightarrow> cols = [] \<and> oq = None | Some s \<Rightarrow> s < i \<and> (\<forall>c \<in> set cols. s \<le> c)) \<and> (\<forall>q. oq = Some q \<longrightarrow> q < i)"

lemma lex_state_end: "lex_state S i cur cols (Some s) oq \<Longrightarrow> i \<le> length S \<Longrightarrow> token_at S \<lparr>tk_Text = cur, tk_Col = s, tk_srcCols = cols\<rparr>"
  by (fastforce simp: lex_state_def token_at_def)

lemma lex_state_add:
  assumes "lex_state S i cur cols start oq" "i \<le> p" "p < i'" "b = S ! p" "start = None \<longrightarrow> p = i"
  shows "lex_state S i' (cur @ [b]) (cols @ [p]) (if start = None then Some i else start) oq"
proof -
  have l: "length cols = length cur" and c: "\<And>j. j < length cur \<Longrightarrow> cols ! j < i \<and> S ! (cols ! j) = cur ! j" and srt: "sorted_wrt (<) cols"
    and q: "\<And>q. oq = Some q \<Longrightarrow> q < i" using assms(1) by (auto simp: lex_state_def)
  have lt: "x < i" if "x \<in> set cols" for x using that c l by (auto simp: in_set_conv_nth)
  have "(cols @ [p]) ! j < i' \<and> S ! ((cols @ [p]) ! j) = (cur @ [b]) ! j" if "j < length (cur @ [b])" for j
    using that c [of j] l assms(2-4) by (cases "j < length cur") (auto simp: nth_append less_Suc_eq)
  moreover have "sorted_wrt (<) (cols @ [p])" using srt lt assms(2) by (fastforce simp: sorted_wrt_append intro: less_le_trans)
  moreover have "case (if start = None then Some i else start) of None \<Rightarrow> cols @ [p] = [] \<and> oq = None | Some s \<Rightarrow> s < i' \<and> (\<forall>c \<in> set (cols @ [p]). s \<le> c)"
    using assms(1,2,3,5) by (auto simp: lex_state_def split: option.splits)
  ultimately show ?thesis using l q assms(2,3) by (fastforce simp: lex_state_def)
qed

lemma lex_loop_tokens:
  "lex_state S i cur cols start oq \<Longrightarrow> drop i S = s \<Longrightarrow> i \<le> length S \<Longrightarrow> lex_loop i s cur cols start oq = (toks, oq') \<Longrightarrow>
     (\<forall>tok \<in> set toks. token_at S tok) \<and> (\<forall>q. oq' = Some q \<longrightarrow> q < length S)"
proof (induction i s cur cols start oq arbitrary: toks oq' rule: lex_loop.induct)
  case (1 i cur cols start oq)
  then show ?case using lex_state_end [OF _ "1.prems"(3)] by (auto simp: lex_state_def split: option.splits)
next
  case (2 i b rest cur cols start oq)
  have b: "S ! i = b" "drop (i + 1) S = rest" "i < length S"
    using "2.prems"(2,3) by (auto simp: nth_via_drop drop_Suc tl_drop [symmetric]) (metis drop_eq_Nil list.distinct(1) not_le_imp_less)
  consider (esc) "b = CHR 0x5C \<and> oq \<noteq> None \<and> rest \<noteq> [] \<and> (hd rest = CHR 0x22 \<or> hd rest = CHR 0x5C)"
    | (quote) "\<not> (b = CHR 0x5C \<and> oq \<noteq> None \<and> rest \<noteq> [] \<and> (hd rest = CHR 0x22 \<or> hd rest = CHR 0x5C))" "b = CHR 0x22"
    | (sep) "\<not> (b = CHR 0x5C \<and> oq \<noteq> None \<and> rest \<noteq> [] \<and> (hd rest = CHR 0x22 \<or> hd rest = CHR 0x5C))" "b \<noteq> CHR 0x22" "(b = CHR '' '' \<or> b = CHR 0x09) \<and> oq = None"
    | (char) "\<not> (b = CHR 0x5C \<and> oq \<noteq> None \<and> rest \<noteq> [] \<and> (hd rest = CHR 0x22 \<or> hd rest = CHR 0x5C))" "b \<noteq> CHR 0x22" "\<not> ((b = CHR '' '' \<or> b = CHR 0x09) \<and> oq = None)"
    by blast
  then show ?case
  proof cases
    case esc
    then obtain s0 where s0: "start = Some s0" using "2.prems"(1) by (auto simp: lex_state_def split: option.splits)
    have r: "S ! (i + 1) = hd rest" "drop (i + 2) S = tl rest" "i + 2 \<le> length S"
      using esc b by (auto simp: hd_drop_conv_nth [symmetric] tl_drop drop_Suc [symmetric])
    have "lex_state S (i + 2) (cur @ [hd rest]) (cols @ [i + 1]) start oq"
      using lex_state_add [OF "2.prems"(1), of "i + 1" "i + 2" "hd rest"] r(1) s0 by simp
    then show ?thesis using "2.IH"(1) [OF esc _ r(2,3)] "2.prems"(4) esc by simp
  next
    case quote
    have "lex_state S (i + 1) cur cols (if start = None then Some i else start) (if oq = None then Some i else None)"
      using "2.prems"(1) by (fastforce simp: lex_state_def split: option.splits)
    then show ?thesis using "2.IH"(2) [OF quote(1,2) _ b(2)] b(3) "2.prems"(4) quote by simp
  next
    case sep
    show ?thesis
    proof (cases start)
      case None
      have "lex_state S (i + 1) cur cols start oq" using "2.prems"(1) None sep(3) by (fastforce simp: lex_state_def)
      then show ?thesis using "2.IH"(3) [OF sep(1,2,3) None _ b(2)] b(3) "2.prems"(4) sep None by simp
    next
      case (Some s0)
      obtain out q where o: "lex_loop (i + 1) rest [] [] None oq = (out, q)" by (rule prod.exhaust)
      have "lex_state S (i + 1) [] [] None oq" using sep(3) by (simp add: lex_state_def)
      then have "(\<forall>tok \<in> set out. token_at S tok) \<and> (\<forall>q'. q = Some q' \<longrightarrow> q' < length S)"
        using "2.IH"(4) [OF sep(1,2,3) Some _ b(2) _ o] b(3) by simp
      moreover have "toks = \<lparr>tk_Text = cur, tk_Col = s0, tk_srcCols = cols\<rparr> # out" "oq' = q" using "2.prems"(4) sep Some o by auto
      ultimately show ?thesis using lex_state_end [of S i cur cols s0 oq] "2.prems"(1) Some b(3) by auto
    qed
  next
    case char
    have "lex_state S (i + 1) (cur @ [b]) (cols @ [i]) (if start = None then Some i else start) oq"
      by (rule lex_state_add [OF "2.prems"(1)]) (use b in auto)
    moreover have "lex_loop (i + 1) rest (cur @ [b]) (cols @ [i]) (if start = None then Some i else start) oq = (toks, oq')"
      using "2.prems"(4) by (simp only: lex_loop.simps(2) if_not_P [OF char(1)] if_not_P [OF char(2)] if_not_P [OF char(3)])
    ultimately show ?thesis using "2.IH"(5) [OF char _ b(2)] b(3) by simp
  qed
qed

text \<open>The lexer's source map is right for every input. Each byte of each token is the byte of the text at the column
  recorded for it, columns are strictly increasing and start at or after the token's own column, and all columns, that of
  an unterminated quote included, lie inside the text. So the offset of an option's value is always there to be looked up.\<close>

theorem args_lex_columns:
  assumes "lexArgs s = (toks, openQuote)"
  shows "(\<forall>tok \<in> set toks. token_at s tok) \<and> (\<forall>q. openQuote = Some q \<longrightarrow> q < length s)"
  by (rule lex_loop_tokens [of s 0 "[]" "[]" None None s]) (use assms in \<open>auto simp: lex_state_def lexArgs_def\<close>)

theorem args_lex_columns_witness:
  "list_all (token_at (''a '' @ [CHR 0x22] @ ''b c'' @ [CHR 0x22] @ ''d'')) (fst (lexArgs (''a '' @ [CHR 0x22] @ ''b c'' @ [CHR 0x22] @ ''d'')))"
  unfolding list_all_iff using args_lex_columns [OF prod.collapse [symmetric]] by blast

end
