(* ===== verification/GenGraph.thy ===== *)
theory GenGraph
  imports GenArgs
begin

text \<open>
  \<open>gen/node.go\<close> and \<open>gen/graph.go\<close>: the statements the generator collects, the variables each declares, and the
  variables each refers to.

  \<^item> The expressions of a statement are Go source text. \<open>go/parser\<close> is the parameter \<open>parse\<close>: it gives the syntax tree
    of an expression, or nothing when the text does not parse. The walk over the tree is the code's.
  \<^item> A missing child of a tree (\<open>nil\<close>) is \<open>NilA\<close>; nodes the walk ignores are \<open>OtherA\<close>. The innermost frame of the
    scope stack is the head of the list.
\<close>

section \<open>Free identifiers\<close>

datatype gast =
    NilA
  | OtherA
  | Ident string
  | SelectorExpr gast string
  | CompositeLit gast "gast list"
  | FuncLit "gast list" "gast list" "gast list"
  | CallExpr gast "gast list"
  | IndexExpr gast gast
  | IndexListExpr gast "gast list"
  | StarExpr gast
  | UnaryExpr gast
  | BinaryExpr gast gast
  | ParenExpr gast
  | TypeAssertExpr gast gast
  | SliceExpr gast gast gast gast
  | KeyValueExpr gast gast
  | ArrayType gast gast
  | MapType gast gast
  | ChanType gast
  | FuncType "gast list" "gast list"
  | StructType "gast list"
  | InterfaceType "gast list"
  | Ellipsis gast
  | FieldA "string list" gast
  | BlockStmt "gast list"
  | AssignStmt bool "gast list" "gast list"
  | DeclStmt bool "gast list"
  | ValueSpec "string list" gast "gast list"
  | TypeSpec string gast
  | ExprStmt gast
  | ReturnStmt "gast list"
  | IfStmt gast gast gast gast
  | ForStmt gast gast gast gast
  | RangeStmt bool gast gast gast gast
  | SwitchStmt gast gast gast
  | TypeSwitchStmt gast gast "gast list"
  | SelectStmt gast
  | CaseClause "gast list" "gast list"
  | CommClause gast "gast list"
  | SendStmt gast gast
  | IncDecStmt gast
  | GoStmt gast
  | DeferStmt gast
  | LabeledStmt gast

type_synonym frames = "string list list"

definition bind :: "string \<Rightarrow> frames \<Rightarrow> frames" where
  "bind name fs = (if name = [] \<or> name = ''_'' \<or> fs = [] then fs else (name # hd fs) # tl fs)"

definition bound :: "frames \<Rightarrow> string \<Rightarrow> bool" where
  "bound fs name \<longleftrightarrow> (\<exists>f \<in> set fs. name \<in> set f)"

fun thread :: "('a \<Rightarrow> frames \<Rightarrow> frames \<times> string list) \<Rightarrow> 'a list \<Rightarrow> frames \<Rightarrow> frames \<times> string list" where
  "thread w [] fs = (fs, [])"
| "thread w (x # xs) fs = (let (fs1, a) = w x fs; (fs2, b) = thread w xs fs1 in (fs2, a @ b))"

lemma thread_cong [fundef_cong]:
  "xs = ys \<Longrightarrow> fs = gs \<Longrightarrow> (\<And>x f. x \<in> set ys \<Longrightarrow> w x f = w' x f) \<Longrightarrow> thread w xs fs = thread w' ys gs"
proof (induction xs arbitrary: ys fs gs)
  case (Cons x xs)
  then show ?case by (cases ys) (simp_all add: case_prod_beta' Let_def)
qed simp

definition elt_parts :: "bool \<Rightarrow> gast \<Rightarrow> gast list" where
  "elt_parts exprKeys e = (case e of KeyValueExpr k v \<Rightarrow> (if (case k of Ident x \<Rightarrow> True | _ \<Rightarrow> False) \<and> \<not> exprKeys then [v] else [k, v]) | _ \<Rightarrow> [e])"

definition field_type :: "gast \<Rightarrow> gast" where
  "field_type f = (case f of FieldA ns t \<Rightarrow> t | _ \<Rightarrow> NilA)"

definition field_names :: "gast \<Rightarrow> string list" where
  "field_names f = (case f of FieldA ns t \<Rightarrow> ns | _ \<Rightarrow> [])"

definition guard_name :: "gast \<Rightarrow> string" where
  "guard_name a = (case a of AssignStmt d lhs rhs \<Rightarrow> (case lhs of Ident x # _ \<Rightarrow> x | _ \<Rightarrow> []) | _ \<Rightarrow> [])"

definition guard_exprs :: "gast \<Rightarrow> gast list" where
  "guard_exprs a = (case a of AssignStmt d lhs rhs \<Rightarrow> rhs | ExprStmt x \<Rightarrow> [x] | _ \<Rightarrow> [])"

lemma elt_parts_size: "x \<in> set (elt_parts b e) \<Longrightarrow> size x \<le> size e"
  by (auto simp: elt_parts_def split: gast.splits if_splits)

lemma elt_parts_list: "x \<in> set (elt_parts b e) \<Longrightarrow> e \<in> set es \<Longrightarrow> size x \<le> size_list size es"
  using elt_parts_size size_list_estimation' by (meson le_trans order_refl)

lemma field_type_size: "size (field_type f) \<le> size f"
  by (cases f) (simp_all add: field_type_def)

lemma field_type_list: "f \<in> set fs \<Longrightarrow> size (field_type f) \<le> size_list size fs"
  using field_type_size size_list_estimation' by (meson le_trans order_refl)

lemma guard_exprs_size: "x \<in> set (guard_exprs a) \<Longrightarrow> size x \<le> size a"
  by (cases a) (auto simp: guard_exprs_def dest: size_list_estimation' [where f = size, OF _ order_refl])

lemma gast_member: "(x::gast) \<in> set xs \<Longrightarrow> size x \<le> size_list size xs"
  by (rule size_list_estimation' [OF _ order_refl])

lemma clause_member:
  assumes "CaseClause es body \<in> set cs" "x \<in> set es \<or> x \<in> set body"
  shows "size x \<le> size_list size cs"
proof -
  have "size x \<le> size (CaseClause es body)" using assms(2) by (auto dest: gast_member)
  then show ?thesis using gast_member [OF assms(1)] by linarith
qed

lemma clause_parts:
  "CaseClause es body \<in> set cs \<Longrightarrow> x \<in> set es \<Longrightarrow> size x \<le> size_list size cs"
  "CaseClause es body \<in> set cs \<Longrightarrow> x \<in> set body \<Longrightarrow> size x \<le> size_list size cs"
  by (auto intro: clause_member)

function walk :: "gast \<Rightarrow> frames \<Rightarrow> frames \<times> string list" where
  "walk (Ident x) fs = (fs, if bound fs x then [] else [x])"
| "walk (SelectorExpr x s) fs = walk x fs"
| "walk (CompositeLit t elts) fs =
    (let exprKeys = (case t of MapType k v \<Rightarrow> True | ArrayType n e \<Rightarrow> True | _ \<Rightarrow> False)
     in thread walk (t # concat (map (elt_parts exprKeys) elts)) fs)"
| "walk (FuncLit params results body) fs =
    (let (f1, a) = thread walk (map field_type (params @ results)) fs;
         (f2, b) = thread walk body (fold bind (concat (map field_names (params @ results))) ([] # f1))
     in (tl f2, a @ b))"
| "walk (CallExpr f as) fs = thread walk (f # as) fs"
| "walk (IndexExpr x i) fs = thread walk [x, i] fs"
| "walk (IndexListExpr x is) fs = thread walk (x # is) fs"
| "walk (StarExpr x) fs = walk x fs"
| "walk (UnaryExpr x) fs = walk x fs"
| "walk (BinaryExpr x y) fs = thread walk [x, y] fs"
| "walk (ParenExpr x) fs = walk x fs"
| "walk (TypeAssertExpr x t) fs = thread walk [x, t] fs"
| "walk (SliceExpr x l h m) fs = thread walk [x, l, h, m] fs"
| "walk (KeyValueExpr k v) fs = thread walk [k, v] fs"
| "walk (ArrayType n e) fs = thread walk [n, e] fs"
| "walk (MapType k v) fs = thread walk [k, v] fs"
| "walk (ChanType v) fs = walk v fs"
| "walk (FuncType params results) fs = thread walk (map field_type (params @ results)) fs"
| "walk (StructType ms) fs = thread walk (map field_type ms) fs"
| "walk (InterfaceType ms) fs = thread walk (map field_type ms) fs"
| "walk (Ellipsis e) fs = walk e fs"
| "walk (BlockStmt ss) fs = (let (f, a) = thread walk ss ([] # fs) in (tl f, a))"
| "walk (AssignStmt define lhs rhs) fs =
    (let (f1, a) = thread walk rhs fs;
         (f2, b) = thread (\<lambda>l f. case l of Ident x \<Rightarrow> if define then (bind x f, []) else walk l f | _ \<Rightarrow> walk l f) lhs f1
     in (f2, a @ b))"
| "walk (DeclStmt isVar specs) fs = thread walk specs fs"
| "walk (ValueSpec names t values) fs =
    (let (f, a) = thread walk (t # values) fs in (fold bind names f, a))"
| "walk (TypeSpec name t) fs = walk t (bind name fs)"
| "walk (ExprStmt x) fs = walk x fs"
| "walk (ReturnStmt rs) fs = thread walk rs fs"
| "walk (IfStmt ini cond body els) fs = (let (f, a) = thread walk [ini, cond, body, els] ([] # fs) in (tl f, a))"
| "walk (ForStmt ini cond post body) fs = (let (f, a) = thread walk [ini, cond, post, body] ([] # fs) in (tl f, a))"
| "walk (RangeStmt define key val x body) fs =
    (let (f1, a) = walk x ([] # fs);
         (f2, b) = thread (\<lambda>l f. case l of Ident y \<Rightarrow> if define then (bind y f, []) else walk l f | _ \<Rightarrow> walk l f) [key, val] f1;
         (f3, c) = walk body f2
     in (tl f3, a @ b @ c))"
| "walk (SwitchStmt ini tag body) fs = (let (f, a) = thread walk [ini, tag, body] ([] # fs) in (tl f, a))"
| "walk (TypeSwitchStmt ini assign clauses) fs =
    (let (f1, a) = thread walk (ini # guard_exprs assign) ([] # fs);
         (f2, b) = thread (\<lambda>cc f. case cc of
             CaseClause es body \<Rightarrow>
               (let (g1, p) = thread walk es ([] # f); (g2, q) = thread walk body (bind (guard_name assign) g1) in (tl g2, p @ q))
           | _ \<Rightarrow> (f, [])) clauses f1
     in (tl f2, a @ b))"
| "walk (SelectStmt body) fs = walk body fs"
| "walk (CaseClause es body) fs = (let (f, a) = thread walk (es @ body) ([] # fs) in (tl f, a))"
| "walk (CommClause comm body) fs = (let (f, a) = thread walk (comm # body) ([] # fs) in (tl f, a))"
| "walk (SendStmt c v) fs = thread walk [c, v] fs"
| "walk (IncDecStmt x) fs = walk x fs"
| "walk (GoStmt x) fs = walk x fs"
| "walk (DeferStmt x) fs = walk x fs"
| "walk (LabeledStmt s) fs = walk s fs"
| "walk (FieldA ns t) fs = (fs, [])"
| "walk NilA fs = (fs, [])"
| "walk OtherA fs = (fs, [])"
  by pat_completeness auto

termination
  by (relation "measure (size \<circ> fst)")
    (auto simp: less_Suc_eq_le dest: gast_member elt_parts_list field_type_list guard_exprs_size intro: trans_le_add1 clause_parts)


definition freeIdents :: "(string \<Rightarrow> gast option) \<Rightarrow> string \<Rightarrow> string list" where
  "freeIdents parse src = (case parse src of None \<Rightarrow> [] | Some e \<Rightarrow> snd (walk e []))"

section \<open>Statements\<close>

record position =
  ps_Filename :: string
  ps_Offset :: int
  ps_Line :: int
  ps_Column :: int

definition pos_IsValid :: "position \<Rightarrow> bool" where
  "pos_IsValid p \<longleftrightarrow> ps_Line p > 0"

definition noPos :: position where
  "noPos = \<lparr>ps_Filename = [], ps_Offset = 0, ps_Line = 0, ps_Column = 0\<rparr>"

record gen_origin =
  or_Directive :: string
  or_Pos :: position

type_synonym phase = int

definition PhaseConfig :: phase where
  "PhaseConfig = 0"

definition PhaseSetup :: phase where
  "PhaseSetup = 1"

definition PhaseWire :: phase where
  "PhaseWire = 2"

definition PhaseMiddleware :: phase where
  "PhaseMiddleware = 3"

definition PhaseRegister :: phase where
  "PhaseRegister = 4"

lemmas phase_defs = PhaseConfig_def PhaseSetup_def PhaseWire_def PhaseMiddleware_def PhaseRegister_def

definition phaseLabels :: "(phase \<times> string) list" where
  "phaseLabels =
    [(PhaseConfig, ''Config''), (PhaseSetup, ''Wire hooks: config exists, providers do not''), (PhaseWire, ''Providers''),
     (PhaseMiddleware, ''Middleware''), (PhaseRegister, ''Register'')]"

record nbase =
  nb_Origin :: gen_origin
  nb_Phase :: phase
  nb_Label :: string
  nb_Uses :: "string list"
  nb_Batch :: string
  nb_Seq :: int
  nb_Group :: string

datatype err_style = ErrNone | ErrReturn | ErrInline

text \<open>A call; its \<open>Type\<close> and \<open>BindingName\<close> are read by the graph export only.\<close>

record gcall =
  cl_Base :: nbase
  cl_Var :: string
  cl_Fn :: string
  cl_Args :: "string list"
  cl_Err :: err_style
  cl_Cleanup :: string
  cl_ErrsPkg :: string

datatype route_kind = RouteMethod | RouteHandle | RouteHandleFunc

datatype gnode =
    Raw nbase (raw_Lines: "string list") (raw_Defines: "string list") (raw_Check: bool)
  | Assign nbase (as_Var: string) (as_Expr: string)
  | Call gcall
  | ConfigLoad nbase (cf_Var: string) (cf_Pkg: string) (cf_Type: string) (cf_Prefix: string) (cf_Options: "string list")
  | StructLit nbase (sl_Var: string) (sl_Type: string) (sl_Fields: "(string \<times> string) list")
  | Select nbase (se_Var: string) (se_Iface: string) (se_KeyExpr: string) (se_FmtPkg: string) (se_Cases: "(string \<times> gnode list \<times> gcall) list")
  | Route nbase (rt_Router: string) (rt_Kind: route_kind) (rt_Method: string) (rt_Pattern: string) (rt_Handler: string) (rt_Chain: "string list")

primrec node_base :: "gnode \<Rightarrow> nbase" where
  "node_base (Raw b _ _ _) = b"
| "node_base (Assign b _ _) = b"
| "node_base (Call c) = cl_Base c"
| "node_base (ConfigLoad b _ _ _ _ _) = b"
| "node_base (StructLit b _ _ _) = b"
| "node_base (Select b _ _ _ _ _) = b"
| "node_base (Route b _ _ _ _ _ _) = b"

abbreviation node_Phase :: "gnode \<Rightarrow> phase" where
  "node_Phase n \<equiv> nb_Phase (node_base n)"

abbreviation node_Pos :: "gnode \<Rightarrow> position" where
  "node_Pos n \<equiv> or_Pos (nb_Origin (node_base n))"

fun node_defines :: "gnode \<Rightarrow> string list" where
  "node_defines (Raw b ls ds c) = ds"
| "node_defines (Assign b v e) = [v]"
| "node_defines (Call c) =
    (if cl_Var c \<noteq> [] \<and> cl_Err c \<noteq> ErrInline then (if cl_Cleanup c \<noteq> [] then [cl_Var c, cl_Cleanup c] else [cl_Var c]) else [])"
| "node_defines (ConfigLoad b v p t pre os) = [v]"
| "node_defines (StructLit b v t fls) = [v]"
| "node_defines (Select b v i k f cs) = [v]"
| "node_defines (Route b r k m p h ch) = []"

fun exprFields :: "gnode \<Rightarrow> string list" where
  "exprFields (Raw b ls ds c) = []"
| "exprFields (Assign b v e) = [e]"
| "exprFields (Call c) = cl_Fn c # cl_Args c"
| "exprFields (ConfigLoad b v p t pre os) = (if pre \<noteq> [] then pre # os else os)"
| "exprFields (StructLit b v t fls) = map snd fls"
| "exprFields (Select b v i k f cs) = [k]"
| "exprFields (Route b r k m p h ch) = r # h # ch"

text \<open>The children of a Select, in the order the code visits them.\<close>

definition select_children :: "gnode \<Rightarrow> gnode list" where
  "select_children n = (case n of Select b v i k f cs \<Rightarrow> concat (map (\<lambda>(val, body, res). body @ [Call res]) cs) | _ \<Rightarrow> [])"

lemma select_children_size: "c \<in> set (select_children n) \<Longrightarrow> size c < size n"
proof (cases n)
  case (Select b v i k f cs)
  assume c: "c \<in> set (select_children n)"
  then obtain val body res where m: "(val, body, res) \<in> set cs" and "c \<in> set body \<or> c = Call res"
    using Select by (auto simp: select_children_def)
  then have "size c \<le> size_prod (\<lambda>_. 0) (size_prod (size_list size) (\<lambda>_. 0)) (val, body, res)"
    using size_list_estimation' [of c body "size c" size] by auto
  also have "\<dots> \<le> size_list (size_prod (\<lambda>_. 0) (size_prod (size_list size) (\<lambda>_. 0))) cs"
    by (rule size_list_estimation' [OF m order_refl])
  finally show "size c < size n" using Select by simp
qed (auto simp: select_children_def)

text \<open>The node and everything nested in it, parents first.\<close>

function nested :: "gnode \<Rightarrow> gnode list" where
  "nested n = n # concat (map nested (select_children n))"
  by pat_completeness auto
termination by (relation "measure size") (auto simp: select_children_size)

declare nested.simps [simp del]

definition own_vars :: "gnode \<Rightarrow> string list" where
  "own_vars n = concat (map node_defines (nested n))"

definition collect :: "(string \<Rightarrow> gast option) \<Rightarrow> gnode \<Rightarrow> string list" where
  "collect parse n = concat (map (\<lambda>m. concat (map (freeIdents parse) (exprFields m)) @ nb_Uses (node_base m)) (nested n))"

definition add_name :: "string set \<Rightarrow> string \<Rightarrow> string list \<Rightarrow> string list" where
  "add_name vars name out = (if name \<in> vars \<and> name \<notin> set out then out @ [name] else out)"

definition uses :: "(string \<Rightarrow> gast option) \<Rightarrow> gnode \<Rightarrow> string set \<Rightarrow> string list" where
  "uses parse n vars =
    fold (add_name vars) (nb_Uses (node_base n) @ filter (\<lambda>x. x \<notin> set (own_vars n)) (collect parse n)) []"

lemma set_fold_add_name: "set (fold (add_name vars) xs out) = set out \<union> (set xs \<inter> vars)"
  by (induction xs arbitrary: out) (auto simp: add_name_def)

lemma set_uses: "set (uses parse n vars) = (set (nb_Uses (node_base n)) \<union> (set (collect parse n) - set (own_vars n))) \<inter> vars"
  by (auto simp: uses_def set_fold_add_name)

end
