(* ===== verification/GenLayout.thy ===== *)
theory GenLayout
  imports GenGraph GoPath "HOL-Library.Multiset"
begin

text \<open>
  \<open>gen/render.go\<close>, the part that decides the order of the generated statements: \<open>newLayoutCtx\<close> indexes who uses what,
  \<open>affinity\<close> scores how well two statements go together, and \<open>layout\<close> emits a section so that every statement follows
  what it depends on, grouping affine ones into blocks.

  \<^item> A statement is a pointer to a node: \<open>nodeIx\<close> is a map from pointers. The blocks under construction are kept as
    indices into the section.
  \<^item> \<open>featureRoots\<close> memoizes in \<open>lc.roots\<close>, and on a cycle the partial map of a node in progress is what its successors
    read; the table is passed along in call order. Its recursion descends only into nodes without an entry, so its depth
    is at most the number of nodes, and the fuel given is that number plus one.
\<close>

section \<open>Order of anchors\<close>

record nref =
  rf_ptr :: nat
  rf_node :: gnode

record phase_node =
  pn_n :: nref
  pn_emit :: nat

abbreviation pn_node :: "phase_node \<Rightarrow> gnode" where
  "pn_node p \<equiv> rf_node (pn_n p)"

definition anchorLess :: "phase_node \<Rightarrow> phase_node \<Rightarrow> bool" where
  "anchorLess a b =
    (let ap = node_Pos (pn_node a); bp = node_Pos (pn_node b) in
     if pos_IsValid ap \<noteq> pos_IsValid bp then pos_IsValid ap
     else if ps_Filename ap \<noteq> ps_Filename bp then ps_Filename ap < ps_Filename bp
     else if ps_Line ap \<noteq> ps_Line bp then ps_Line ap < ps_Line bp
     else if ps_Column ap \<noteq> ps_Column bp then ps_Column ap < ps_Column bp
     else pn_emit a < pn_emit b)"

section \<open>Affinity\<close>

definition hubFanout :: nat where
  "hubFanout = 3"

definition layoutBlockMax :: nat where
  "layoutBlockMax = 10"

definition affThreshold :: nat where
  "affThreshold = 40"

definition affGroup :: nat where
  "affGroup = 100"

definition affBatch :: nat where
  "affBatch = 90"

definition affExclusive :: nat where
  "affExclusive = 80"

definition affSmallFan :: nat where
  "affSmallFan = 60"

definition affSharedCons :: nat where
  "affSharedCons = 55"

definition affDirective :: nat where
  "affDirective = 50"

definition affNearby :: nat where
  "affNearby = 40"

definition affSameFile :: nat where
  "affSameFile = 30"

definition affSamePkg :: nat where
  "affSamePkg = 25"

definition affHub :: nat where
  "affHub = 15"

record layout_ctx =
  lc_consumers :: "string \<Rightarrow> nat list"
  lc_nodeIx :: "nat \<Rightarrow> nat option"
  lc_next :: "nat list list"

type_synonym roots = "nat \<Rightarrow> nat set option"

definition lc_fanout :: "layout_ctx \<Rightarrow> string \<Rightarrow> nat" where
  "lc_fanout lc v = length (lc_consumers lc v)"

definition dedup :: "'a list \<Rightarrow> 'a list" where
  "dedup xs = fold (\<lambda>x out. if x \<in> set out then out else out @ [x]) xs []"

definition newLayoutCtx :: "(string \<Rightarrow> gast option) \<Rightarrow> nref list \<Rightarrow> layout_ctx" where
  "newLayoutCtx parse universe =
    (let n = length universe;
         vars = set (concat (map (node_defines \<circ> rf_node) universe));
         cons = (\<lambda>v. filter (\<lambda>i. v \<in> set (uses parse (rf_node (universe ! i)) vars)) [0..<n]);
         ix = (\<lambda>p. find (\<lambda>i. rf_ptr (universe ! i) = p) [0..<n])
     in \<lparr>lc_consumers = cons, lc_nodeIx = ix,
         lc_next = map (\<lambda>i. if ix (rf_ptr (universe ! i)) \<noteq> Some i then []
           else dedup (concat (map (\<lambda>d. if length (cons d) > hubFanout then [] else cons d) (node_defines (rf_node (universe ! i)))))) [0..<n]\<rparr>)"

fun featureRoots :: "nat \<Rightarrow> nat list list \<Rightarrow> nat \<Rightarrow> roots \<Rightarrow> roots" where
  "featureRoots 0 nx i R = R"
| "featureRoots (Suc fuel) nx i R =
    (if R i \<noteq> None then R
     else if nx ! i = [] then R(i \<mapsto> {i})
     else let R' = fold (\<lambda>c R. let R1 = featureRoots fuel nx c R in R1(i \<mapsto> the (R1 i) \<union> the (R1 c))) (nx ! i) (R(i \<mapsto> {}))
       in if R' i = Some {} then R'(i \<mapsto> {i}) else R')"

definition rootsOf :: "layout_ctx \<Rightarrow> nat \<Rightarrow> roots \<Rightarrow> roots" where
  "rootsOf lc i R = featureRoots (Suc (length (lc_next lc))) (lc_next lc) i R"

definition producerConsumer :: "layout_ctx \<Rightarrow> nref \<Rightarrow> nref \<Rightarrow> nat" where
  "producerConsumer lc producer consumer =
    (case lc_nodeIx lc (rf_ptr consumer) of
       None \<Rightarrow> 0
     | Some ci \<Rightarrow>
         fold max (map (\<lambda>d. if lc_fanout lc d = 1 then affExclusive else if lc_fanout lc d \<le> hubFanout then affSmallFan else affHub)
           (filter (\<lambda>d. ci \<in> set (lc_consumers lc d)) (node_defines (rf_node producer)))) 0)"

definition sharedConsumer :: "layout_ctx \<Rightarrow> nref \<Rightarrow> nref \<Rightarrow> roots \<Rightarrow> nat \<times> roots" where
  "sharedConsumer lc a b R =
    (case (lc_nodeIx lc (rf_ptr a), lc_nodeIx lc (rf_ptr b)) of
       (Some ai, Some bi) \<Rightarrow>
         if lc_next lc ! ai = [] \<and> lc_next lc ! bi = [] then (0, R)
         else let R1 = rootsOf lc ai R; R2 = rootsOf lc bi R1; ar = the (R1 ai); br = the (R2 bi)
           in (if \<exists>r \<in> br. r \<noteq> ai \<and> r \<noteq> bi \<and> r \<in> ar then affSharedCons else 0, R2)
     | _ \<Rightarrow> (0, R))"

definition filepath_Dir :: "string \<Rightarrow> string" where
  "filepath_Dir p = path_Clean (rev (dropWhile (\<lambda>c. c \<noteq> CHR ''/'') (rev p)))"

definition same_occurrence :: "nbase \<Rightarrow> nbase \<Rightarrow> bool" where
  "same_occurrence ab bb \<longleftrightarrow> pos_IsValid (or_Pos (nb_Origin ab)) \<and> or_Directive (nb_Origin ab) \<noteq> [] \<and>
     or_Directive (nb_Origin ab) = or_Directive (nb_Origin bb) \<and> or_Pos (nb_Origin ab) = or_Pos (nb_Origin bb)"

definition source_score :: "position \<Rightarrow> position \<Rightarrow> nat" where
  "source_score ap bp =
    (if ps_Filename ap = ps_Filename bp then (if \<bar>ps_Line ap - ps_Line bp\<bar> \<le> 10 then affNearby else affSameFile)
     else if filepath_Dir (ps_Filename ap) = filepath_Dir (ps_Filename bp) then affSamePkg
     else 0)"

definition affinity :: "layout_ctx \<Rightarrow> nref \<Rightarrow> nref \<Rightarrow> roots \<Rightarrow> nat \<times> roots" where
  "affinity lc a b R =
    (let ab = node_base (rf_node a); bb = node_base (rf_node b) in
     if nb_Group ab \<noteq> [] \<and> nb_Group ab = nb_Group bb then (affGroup, R)
     else if nb_Batch ab \<noteq> [] \<and> nb_Batch ab = nb_Batch bb then (affBatch, R)
     else
       let best = max (producerConsumer lc a b) (producerConsumer lc b a);
           (best, R) = (if best < affSharedCons then (let (s, R') = sharedConsumer lc a b R in (max s best, R')) else (best, R));
           best = (if best < affDirective \<and> same_occurrence ab bb then affDirective else best);
           ap = or_Pos (nb_Origin ab); bp = or_Pos (nb_Origin bb);
           best = (if best < affNearby \<and> pos_IsValid ap \<and> pos_IsValid bp then max best (source_score ap bp) else best)
       in (best, R))"

section \<open>Dependencies within a section\<close>

definition layout_owner :: "gnode list \<Rightarrow> (string, nat) gomap" where
  "layout_owner nodes = fold (\<lambda>i m. fold (\<lambda>d m. goput d i m) (node_defines (nodes ! i)) m) [0..<length nodes] []"

definition use_deps :: "(string \<Rightarrow> gast option) \<Rightarrow> gnode list \<Rightarrow> nat \<Rightarrow> nat list" where
  "use_deps parse nodes i =
    (let owner = layout_owner nodes
     in filter (\<lambda>j. j \<noteq> i) (map (\<lambda>u. the (map_of owner u)) (uses parse (nodes ! i) (set (gokeys owner)))))"

abbreviation pn_batch :: "phase_node list \<Rightarrow> nat \<Rightarrow> string" where
  "pn_batch nodes i \<equiv> nb_Batch (node_base (pn_node (nodes ! i)))"

definition batch_ids :: "phase_node list \<Rightarrow> string \<Rightarrow> nat list" where
  "batch_ids nodes b = sort_key (\<lambda>i. nb_Seq (node_base (pn_node (nodes ! i)))) (filter (\<lambda>i. pn_batch nodes i = b) [0..<length nodes])"

definition batch_deps :: "phase_node list \<Rightarrow> nat \<Rightarrow> nat list" where
  "batch_deps nodes i =
    (if pn_batch nodes i = [] then []
     else let ids = batch_ids nodes (pn_batch nodes i) in map (\<lambda>k. ids ! (k - 1)) (filter (\<lambda>k. ids ! k = i) [1..<length ids]))"

definition layout_deps :: "(string \<Rightarrow> gast option) \<Rightarrow> phase_node list \<Rightarrow> nat list list" where
  "layout_deps parse nodes = map (\<lambda>i. use_deps parse (map pn_node nodes) i @ batch_deps nodes i) [0..<length nodes]"

section \<open>Layout\<close>

record lay_state =
  ly_emitted :: "bool list"
  ly_blocks :: "nat list list"
  ly_block :: "nat list"
  ly_roots :: roots

definition lay_ready :: "nat list list \<Rightarrow> bool list \<Rightarrow> nat list" where
  "lay_ready deps emitted =
    (let ready = filter (\<lambda>i. \<not> emitted ! i \<and> (\<forall>j \<in> set (deps ! i). emitted ! j)) [0..<length emitted]
     in if ready = [] then take 1 (filter (\<lambda>i. \<not> emitted ! i) [0..<length emitted]) else ready)"

definition block_affinity :: "layout_ctx \<Rightarrow> phase_node list \<Rightarrow> nat list \<Rightarrow> nat \<Rightarrow> roots \<Rightarrow> nat \<times> roots" where
  "block_affinity lc nodes block i R =
    fold (\<lambda>j (aff, R). let (a, R') = affinity lc (pn_n (nodes ! i)) (pn_n (nodes ! j)) R in (max aff a, R')) block (0, R)"

definition pick_affine :: "layout_ctx \<Rightarrow> phase_node list \<Rightarrow> nat list \<Rightarrow> nat list \<Rightarrow> roots \<Rightarrow> nat option \<times> roots" where
  "pick_affine lc nodes block ready R =
    (let (pick, best, R') = fold (\<lambda>i (pick, best, R).
        let (aff, R') = block_affinity lc nodes block i R in
        if aff < affThreshold then (pick, best, R')
        else case pick of
            None \<Rightarrow> (Some i, aff, R')
          | Some p \<Rightarrow> if aff > best \<or> aff = best \<and> anchorLess (nodes ! i) (nodes ! p) then (Some i, aff, R') else (pick, best, R'))
        ready (None, 0, R)
     in (pick, R'))"

definition pick_anchor :: "phase_node list \<Rightarrow> nat list \<Rightarrow> nat" where
  "pick_anchor nodes ready = fold (\<lambda>i p. if anchorLess (nodes ! i) (nodes ! p) then i else p) (tl ready) (hd ready)"

definition layout_step :: "layout_ctx \<Rightarrow> phase_node list \<Rightarrow> nat list list \<Rightarrow> lay_state \<Rightarrow> lay_state" where
  "layout_step lc nodes deps s =
    (let ready = lay_ready deps (ly_emitted s);
         (pick, R) = (if ly_block s \<noteq> [] \<and> length (ly_block s) < layoutBlockMax
           then pick_affine lc nodes (ly_block s) ready (ly_roots s) else (None, ly_roots s))
     in case pick of
          Some p \<Rightarrow> \<lparr>ly_emitted = (ly_emitted s)[p := True], ly_blocks = ly_blocks s, ly_block = ly_block s @ [p], ly_roots = R\<rparr>
        | None \<Rightarrow>
            let p = pick_anchor nodes ready
            in \<lparr>ly_emitted = (ly_emitted s)[p := True], ly_blocks = (if ly_block s \<noteq> [] then ly_blocks s @ [ly_block s] else ly_blocks s),
                ly_block = [p], ly_roots = R\<rparr>)"

fun layout_loop :: "nat \<Rightarrow> layout_ctx \<Rightarrow> phase_node list \<Rightarrow> nat list list \<Rightarrow> lay_state \<Rightarrow> lay_state" where
  "layout_loop 0 lc nodes deps s = s"
| "layout_loop (Suc remaining) lc nodes deps s = layout_loop remaining lc nodes deps (layout_step lc nodes deps s)"

definition layout_ix :: "(string \<Rightarrow> gast option) \<Rightarrow> layout_ctx \<Rightarrow> phase_node list \<Rightarrow> roots \<Rightarrow> nat list list \<times> roots" where
  "layout_ix parse lc nodes R =
    (let s = layout_loop (length nodes) lc nodes (layout_deps parse nodes)
           \<lparr>ly_emitted = replicate (length nodes) False, ly_blocks = [], ly_block = [], ly_roots = R\<rparr>
     in (if ly_block s \<noteq> [] then ly_blocks s @ [ly_block s] else ly_blocks s, ly_roots s))"

definition layout :: "(string \<Rightarrow> gast option) \<Rightarrow> layout_ctx \<Rightarrow> phase_node list \<Rightarrow> roots \<Rightarrow> phase_node list list \<times> roots" where
  "layout parse lc nodes R = (let (bs, R') = layout_ix parse lc nodes R in (map (map (\<lambda>i. nodes ! i)) bs, R'))"


section \<open>Layout emits every node once, dependencies first\<close>

definition dep_rel :: "nat list list \<Rightarrow> (nat \<times> nat) set" where
  "dep_rel deps = {(j, i). i < length deps \<and> j \<in> set (deps ! i)}"

definition topo :: "nat list list \<Rightarrow> nat list \<Rightarrow> bool" where
  "topo deps order \<longleftrightarrow> (\<forall>k < length order. set (deps ! (order ! k)) \<subseteq> set (take k order))"

abbreviation lay_order :: "lay_state \<Rightarrow> nat list" where
  "lay_order s \<equiv> concat (ly_blocks s) @ ly_block s"

definition lay_inv :: "nat list list \<Rightarrow> lay_state \<Rightarrow> bool" where
  "lay_inv deps s \<longleftrightarrow> length (ly_emitted s) = length deps \<and> distinct (lay_order s) \<and> set (lay_order s) \<subseteq> {..<length deps} \<and>
     (\<forall>i < length deps. ly_emitted s ! i \<longleftrightarrow> i \<in> set (lay_order s)) \<and>
     (\<forall>b \<in> set (ly_blocks s). b \<noteq> [] \<and> length b \<le> layoutBlockMax) \<and> length (ly_block s) \<le> layoutBlockMax \<and>
     (acyclic (dep_rel deps) \<longrightarrow> topo deps (lay_order s))"

lemma topo_snoc: "topo deps (order @ [p]) \<longleftrightarrow> topo deps order \<and> set (deps ! p) \<subseteq> set order"
  by (auto simp: topo_def nth_append less_Suc_eq all_conj_distrib split: if_splits)

lemma acyclic_source:
  assumes "acyclic (dep_rel deps)" "\<forall>i < length deps. \<forall>j \<in> set (deps ! i). j < length deps" "i < length deps" "\<not> emitted ! i"
  shows "\<exists>i < length deps. \<not> emitted ! i \<and> (\<forall>j \<in> set (deps ! i). emitted ! j)"
proof -
  have "dep_rel deps \<subseteq> {..<length deps} \<times> {..<length deps}" using assms(2) by (auto simp: dep_rel_def)
  then have "finite (dep_rel deps)" by (rule finite_subset) simp
  then have "wf (dep_rel deps)" using assms(1) by (rule finite_acyclic_wf)
  moreover have "i \<in> {i. i < length deps \<and> \<not> emitted ! i}" using assms(3,4) by simp
  ultimately obtain m where m: "m \<in> {i. i < length deps \<and> \<not> emitted ! i}" "\<And>j. (j, m) \<in> dep_rel deps \<Longrightarrow> j \<notin> {i. i < length deps \<and> \<not> emitted ! i}"
    by (rule wfE_min) (rule that)
  then show ?thesis using assms(2) by (auto simp: dep_rel_def)
qed

lemma ready_nonempty: "i < length emitted \<Longrightarrow> \<not> emitted ! i \<Longrightarrow> lay_ready deps emitted \<noteq> []"
proof -
  assume "i < length emitted" "\<not> emitted ! i"
  then have "filter (\<lambda>i. \<not> emitted ! i) [0..<length emitted] \<noteq> []" by (auto simp: filter_empty_conv)
  then show ?thesis by (cases "filter (\<lambda>i. \<not> emitted ! i) [0..<length emitted]") (auto simp: lay_ready_def Let_def)
qed

lemma ready_pending: "p \<in> set (lay_ready deps emitted) \<Longrightarrow> p < length emitted \<and> \<not> emitted ! p"
  by (auto simp: lay_ready_def Let_def split: if_splits dest: in_set_takeD)

lemma ready_deps:
  assumes "acyclic (dep_rel deps)" "\<forall>i < length deps. \<forall>j \<in> set (deps ! i). j < length deps" "length emitted = length deps"
    and "p \<in> set (lay_ready deps emitted)"
  shows "\<forall>j \<in> set (deps ! p). emitted ! j"
proof -
  have "filter (\<lambda>i. \<not> emitted ! i \<and> (\<forall>j \<in> set (deps ! i). emitted ! j)) [0..<length emitted] \<noteq> []"
    using acyclic_source [OF assms(1,2), of p emitted] ready_pending [OF assms(4)] assms(3) by (auto simp: filter_empty_conv)
  then show ?thesis using assms(4) by (auto simp: lay_ready_def Let_def split: if_splits)
qed

lemma pick_anchor_ready: "ready \<noteq> [] \<Longrightarrow> pick_anchor nodes ready \<in> set ready"
proof -
  have "fold (\<lambda>i p. if anchorLess (nodes ! i) (nodes ! p) then i else p) xs p \<in> insert p (set xs)" for xs p
    by (induction xs arbitrary: p) auto
  from this [of "tl ready" "hd ready"] show "ready \<noteq> [] \<Longrightarrow> pick_anchor nodes ready \<in> set ready"
    unfolding pick_anchor_def by (cases ready) simp_all
qed

lemma pick_affine_ready: "pick_affine lc nodes block ready R = (Some p, R') \<Longrightarrow> p \<in> set ready"
proof -
  let ?f = "\<lambda>i (pick, best, R). let (aff, R') = block_affinity lc nodes block i R in
        if aff < affThreshold then (pick, best, R')
        else case pick of
            None \<Rightarrow> (Some i, aff, R')
          | Some p \<Rightarrow> if aff > best \<or> aff = best \<and> anchorLess (nodes ! i) (nodes ! p) then (Some i, aff, R') else (pick, best, R')"
  have "fold ?f xs (pk, b, R) = (Some p, b', R') \<Longrightarrow> p \<in> set xs \<or> pk = Some p" for xs pk b R p b' R'
  proof (induction xs arbitrary: pk b R)
    case (Cons x xs)
    obtain aff R1 where a: "block_affinity lc nodes block x R = (aff, R1)" by (rule prod.exhaust)
    have "\<exists>pk1 b1. ?f x (pk, b, R) = (pk1, b1, R1) \<and> (pk1 = pk \<or> pk1 = Some x)"
      using a by (cases pk) simp_all
    then obtain pk1 b1 where f: "?f x (pk, b, R) = (pk1, b1, R1)" "pk1 = pk \<or> pk1 = Some x" by blast
    then have "fold ?f xs (pk1, b1, R1) = (Some p, b', R')" using Cons.prems by simp
    then show ?case using Cons.IH f(2) by auto
  qed simp
  from this [of ready None 0 R p] show "pick_affine lc nodes block ready R = (Some p, R') \<Longrightarrow> p \<in> set ready"
    by (auto simp: pick_affine_def Let_def split: prod.splits)
qed


lemma layout_step_pick:
  assumes "i < length (ly_emitted s)" "\<not> ly_emitted s ! i"
  shows "\<exists>p \<in> set (lay_ready deps (ly_emitted s)). ly_emitted (layout_step lc nodes deps s) = (ly_emitted s)[p := True] \<and>
    lay_order (layout_step lc nodes deps s) = lay_order s @ [p] \<and>
    (ly_blocks (layout_step lc nodes deps s) = ly_blocks s \<and> ly_block (layout_step lc nodes deps s) = ly_block s @ [p] \<and> length (ly_block s) < layoutBlockMax \<or>
     ly_blocks (layout_step lc nodes deps s) = (if ly_block s \<noteq> [] then ly_blocks s @ [ly_block s] else ly_blocks s) \<and> ly_block (layout_step lc nodes deps s) = [p])"
proof -
  let ?ready = "lay_ready deps (ly_emitted s)"
  obtain pick R where pk: "(if ly_block s \<noteq> [] \<and> length (ly_block s) < layoutBlockMax
      then pick_affine lc nodes (ly_block s) ?ready (ly_roots s) else (None, ly_roots s)) = (pick, R)" by (rule prod.exhaust)
  show ?thesis
  proof (cases pick)
    case None
    have "pick_anchor nodes ?ready \<in> set ?ready" using ready_nonempty [OF assms] by (rule pick_anchor_ready)
    then show ?thesis using pk None by (auto simp: layout_step_def Let_def)
  next
    case (Some p)
    then have "p \<in> set ?ready" "length (ly_block s) < layoutBlockMax" using pk pick_affine_ready by (auto split: if_splits)
    then show ?thesis using pk Some by (auto simp: layout_step_def Let_def)
  qed
qed

lemma layout_step_inv:
  assumes "lay_inv deps s" "length (lay_order s) < length deps" "\<forall>i < length deps. \<forall>j \<in> set (deps ! i). j < length deps"
  shows "lay_inv deps (layout_step lc nodes deps s) \<and> length (lay_order (layout_step lc nodes deps s)) = Suc (length (lay_order s))"
proof -
  let ?s = "layout_step lc nodes deps s"
  have len: "length (ly_emitted s) = length deps" and em: "\<forall>i < length deps. ly_emitted s ! i \<longleftrightarrow> i \<in> set (lay_order s)"
    and sub: "set (lay_order s) \<subseteq> {..<length deps}" using assms(1) by (auto simp: lay_inv_def)
  have "card (set (lay_order s)) < card {..<length deps}"
    using assms(2) card_length [of "lay_order s"] by (simp del: set_append length_append)
  then obtain i where "i < length deps" "i \<notin> set (lay_order s)"
    using sub card_mono [of "set (lay_order s)" "{..<length deps}"] by (metis finite_set leD lessThan_iff subsetI)
  then have "i < length (ly_emitted s)" "\<not> ly_emitted s ! i" using len em by auto
  from layout_step_pick [OF this, of deps lc nodes] obtain p where p: "p \<in> set (lay_ready deps (ly_emitted s))"
      "ly_emitted ?s = (ly_emitted s)[p := True]" "lay_order ?s = lay_order s @ [p]"
    and b: "ly_blocks ?s = ly_blocks s \<and> ly_block ?s = ly_block s @ [p] \<and> length (ly_block s) < layoutBlockMax \<or>
      ly_blocks ?s = (if ly_block s \<noteq> [] then ly_blocks s @ [ly_block s] else ly_blocks s) \<and> ly_block ?s = [p]"
    by blast
  have pn: "p < length deps" "p \<notin> set (lay_order s)" using ready_pending [OF p(1)] len em by auto
  have "topo deps (lay_order s @ [p])" if "acyclic (dep_rel deps)"
  proof -
    have "set (deps ! p) \<subseteq> set (lay_order s)"
      using ready_deps [OF that assms(3) len p(1)] assms(3) pn(1) em by blast
    moreover have "topo deps (lay_order s)" using assms(1) that by (simp add: lay_inv_def)
    ultimately show ?thesis unfolding topo_snoc by blast
  qed
  moreover have "\<forall>b \<in> set (ly_blocks ?s). b \<noteq> [] \<and> length b \<le> layoutBlockMax" "length (ly_block ?s) \<le> layoutBlockMax"
    using b assms(1) by (auto simp: lay_inv_def layoutBlockMax_def split: if_splits)
  moreover have "\<forall>i < length deps. ly_emitted ?s ! i \<longleftrightarrow> i \<in> set (lay_order s @ [p])" using em len p(2) pn(1) by (auto simp: nth_list_update)
  ultimately show ?thesis using assms(1) pn sub len p(2) unfolding lay_inv_def p(3) by (auto simp: lay_inv_def)
qed

lemma layout_loop_inv:
  assumes "lay_inv deps s" "length (lay_order s) + r \<le> length deps" "\<forall>i < length deps. \<forall>j \<in> set (deps ! i). j < length deps"
  shows "lay_inv deps (layout_loop r lc nodes deps s) \<and> length (lay_order (layout_loop r lc nodes deps s)) = length (lay_order s) + r"
  using assms(1,2)
proof (induction r arbitrary: s)
  case (Suc r)
  have "lay_inv deps (layout_step lc nodes deps s) \<and> length (lay_order (layout_step lc nodes deps s)) = Suc (length (lay_order s))"
    using layout_step_inv [OF Suc.prems(1) _ assms(3)] Suc.prems(2) by simp
  then show ?case using Suc.IH [of "layout_step lc nodes deps s"] Suc.prems(2) by simp
qed simp

lemma layout_owner_bound: "map_of (layout_owner nodes) v = Some j \<Longrightarrow> j < length nodes \<and> v \<in> set (node_defines (nodes ! j))"
proof -
  have inner: "map_of (fold (\<lambda>d m. goput d i m) ds m) v = (if v \<in> set ds then Some i else map_of m v)" for ds i and m :: "(string, nat) gomap"
    by (induction ds arbitrary: m) auto
  have "map_of (fold (\<lambda>i m. fold (\<lambda>d m. goput d i m) (node_defines (nodes ! i)) m) xs m) v = Some j \<Longrightarrow>
      j \<in> set xs \<and> v \<in> set (node_defines (nodes ! j)) \<or> map_of m v = Some j" for xs m
  proof (induction xs arbitrary: m)
    case (Cons x xs)
    then show ?case using Cons.IH [of "fold (\<lambda>d m. goput d x m) (node_defines (nodes ! x)) m"] inner [of x "node_defines (nodes ! x)" m]
      by (auto split: if_splits)
  qed simp
  from this [of "[0..<length nodes]" "[]"] show "map_of (layout_owner nodes) v = Some j \<Longrightarrow> ?thesis" by (auto simp: layout_owner_def)
qed

lemma layout_owner_dom: "map_of (layout_owner nodes) v \<noteq> None \<longleftrightarrow> (\<exists>i < length nodes. v \<in> set (node_defines (nodes ! i)))"
proof -
  have inner: "map_of (fold (\<lambda>d m. goput d i m) ds m) v \<noteq> None \<longleftrightarrow> v \<in> set ds \<or> map_of m v \<noteq> None" for ds i and m :: "(string, nat) gomap"
    by (induction ds arbitrary: m) auto
  have "map_of (fold (\<lambda>i m. fold (\<lambda>d m. goput d i m) (node_defines (nodes ! i)) m) xs m) v \<noteq> None \<longleftrightarrow>
      (\<exists>i \<in> set xs. v \<in> set (node_defines (nodes ! i))) \<or> map_of m v \<noteq> None" for xs m
    by (induction xs arbitrary: m) (simp_all only: fold_simps inner list.set ball_simps bex_simps id_apply o_apply, blast+)
  from this [of "[0..<length nodes]" "[]"] show ?thesis by (simp add: layout_owner_def atLeast0LessThan lessThan_def Bex_def)
qed

lemma use_deps_iff:
  "j \<in> set (use_deps parse nodes i) \<longleftrightarrow> j \<noteq> i \<and> (\<exists>u \<in> set (uses parse (nodes ! i) (set (gokeys (layout_owner nodes)))). map_of (layout_owner nodes) u = Some j)"
proof -
  have "u \<in> set (uses parse n (set (gokeys (layout_owner nodes)))) \<Longrightarrow> map_of (layout_owner nodes) u \<noteq> None" for u n
    by (auto simp: set_uses map_of_eq_None_iff)
  then have "the (map_of (layout_owner nodes) u) = j \<longleftrightarrow> map_of (layout_owner nodes) u = Some j"
    if "u \<in> set (uses parse n (set (gokeys (layout_owner nodes))))" for u n using that by fastforce
  then show ?thesis by (auto simp: use_deps_def Let_def)
qed

lemma use_deps_bound: "j \<in> set (use_deps parse nodes i) \<Longrightarrow> j < length nodes"
  by (auto simp: use_deps_iff dest: layout_owner_bound)

lemma batch_ids_bound: "k < length (batch_ids nodes b) \<Longrightarrow> batch_ids nodes b ! k < length nodes"
  using nth_mem [of k "batch_ids nodes b"] by (auto simp: batch_ids_def)

lemma layout_deps_bound: "\<forall>i < length (layout_deps parse nodes). \<forall>j \<in> set (layout_deps parse nodes ! i). j < length (layout_deps parse nodes)"
  by (auto simp: layout_deps_def batch_deps_def Let_def split: if_splits dest: use_deps_bound intro!: batch_ids_bound)

lemma layout_result:
  assumes "layout_ix parse lc nodes R = (bs, R')"
  shows "distinct (concat bs)" "set (concat bs) = {..<length nodes}" "\<forall>b \<in> set bs. b \<noteq> [] \<and> length b \<le> layoutBlockMax"
    and "acyclic (dep_rel (layout_deps parse nodes)) \<Longrightarrow> topo (layout_deps parse nodes) (concat bs)"
proof -
  let ?deps = "layout_deps parse nodes"
  let ?ini = "\<lparr>ly_emitted = replicate (length nodes) False, ly_blocks = [], ly_block = [], ly_roots = R\<rparr>"
  let ?s = "layout_loop (length nodes) lc nodes ?deps ?ini"
  have n: "length ?deps = length nodes" by (simp add: layout_deps_def)
  have "lay_inv ?deps ?ini" by (simp add: lay_inv_def n topo_def)
  from layout_loop_inv [OF this _ layout_deps_bound, of "length nodes" lc nodes]
  have inv: "lay_inv ?deps ?s" "length (lay_order ?s) = length nodes" using n by auto
  have bs: "bs = (if ly_block ?s \<noteq> [] then ly_blocks ?s @ [ly_block ?s] else ly_blocks ?s)" using assms by (simp add: layout_ix_def Let_def)
  then have o: "concat bs = lay_order ?s" by simp
  show "distinct (concat bs)" using inv(1) o by (simp add: lay_inv_def)
  have "card (set (lay_order ?s)) = length nodes" using inv distinct_card [of "lay_order ?s"] by (simp add: lay_inv_def del: set_append)
  then show "set (concat bs) = {..<length nodes}"
    using inv(1) card_subset_eq [of "{..<length nodes}" "set (lay_order ?s)"] unfolding o by (simp add: lay_inv_def n del: set_append)
  show "\<forall>b \<in> set bs. b \<noteq> [] \<and> length b \<le> layoutBlockMax" using inv(1) bs by (auto simp: lay_inv_def)
  show "topo ?deps (concat bs)" if "acyclic (dep_rel ?deps)" using inv(1) that o by (simp add: lay_inv_def)
qed

section \<open>Sections in phase order\<close>

definition phase_nodes :: "nref list \<Rightarrow> phase \<Rightarrow> phase_node list" where
  "phase_nodes allNodes ph =
    map (\<lambda>i. \<lparr>pn_n = allNodes ! i, pn_emit = i\<rparr>) (filter (\<lambda>i. node_Phase (rf_node (allNodes ! i)) = ph) [0..<length allNodes])"

fun emit_phases :: "(string \<Rightarrow> gast option) \<Rightarrow> layout_ctx \<Rightarrow> nref list \<Rightarrow> phase list \<Rightarrow> roots \<Rightarrow> (phase \<times> phase_node list list) list" where
  "emit_phases parse lc allNodes [] R = []"
| "emit_phases parse lc allNodes (ph # phs) R =
    (let nodes = phase_nodes allNodes ph in
     if nodes = [] then emit_phases parse lc allNodes phs R
     else let (clusters, R') = layout parse lc nodes R in (ph, clusters) # emit_phases parse lc allNodes phs R')"

text \<open>\<open>emitPhaseNodes\<close> without the text: the sections it writes, each with its blocks.\<close>

definition emitPhaseNodes :: "(string \<Rightarrow> gast option) \<Rightarrow> nref list \<Rightarrow> phase list \<Rightarrow> (phase \<times> phase_node list list) list" where
  "emitPhaseNodes parse allNodes phases =
    emit_phases parse (newLayoutCtx parse allNodes) allNodes (filter (\<lambda>p. p \<in> set phases) (map fst phaseLabels)) (\<lambda>_. None)"

definition emitted_nodes :: "(phase \<times> phase_node list list) list \<Rightarrow> gnode list" where
  "emitted_nodes secs = map pn_node (concat (concat (map snd secs)))"

definition layout_order :: "gnode list \<Rightarrow> (string \<Rightarrow> gast option) \<Rightarrow> gnode list \<Rightarrow> bool" where
  "layout_order nodes parse out \<longleftrightarrow> (\<exists>order. distinct order \<and> set order = {..<length nodes} \<and> out = map (\<lambda>i. nodes ! i) order \<and>
     (\<forall>k < length order. set (use_deps parse nodes (order ! k)) \<subseteq> set (take k order)))"

lemma layout_without_batches:
  assumes "\<forall>p \<in> set nodes. nb_Batch (node_base (pn_node p)) = []" "layout parse lc nodes R = (bs, R')"
    and "acyclic {(j, i). i < length nodes \<and> j \<in> set (use_deps parse (map pn_node nodes) i)}"
  shows "layout_order (map pn_node nodes) parse (map pn_node (concat bs))"
proof -
  obtain ix where ix: "layout_ix parse lc nodes R = (ix, R')" "bs = map (map (\<lambda>i. nodes ! i)) ix"
    using assms(2) by (auto simp: layout_def split: prod.splits)
  have d: "layout_deps parse nodes ! i = use_deps parse (map pn_node nodes) i" if "i < length nodes" for i
    using that assms(1) by (simp add: layout_deps_def batch_deps_def)
  have "dep_rel (layout_deps parse nodes) = {(j, i). i < length nodes \<and> j \<in> set (use_deps parse (map pn_node nodes) i)}"
    using d by (auto simp: dep_rel_def layout_deps_def)
  then have t: "topo (layout_deps parse nodes) (concat ix)" using layout_result(4) [OF ix(1)] assms(3) by simp
  note s = layout_result(2) [OF ix(1)]
  have "concat ix ! k < length nodes" if "k < length (concat ix)" for k using s nth_mem [OF that] by blast
  then have "\<forall>k < length (concat ix). set (use_deps parse (map pn_node nodes) (concat ix ! k)) \<subseteq> set (take k (concat ix))"
    using t d by (auto simp: topo_def)
  moreover have "i < length nodes" if "i \<in> set (concat ix)" for i using that s by blast
  then have "map pn_node (concat bs) = map (\<lambda>i. map pn_node nodes ! i) (concat ix)"
    unfolding ix(2) map_concat by (auto simp: o_def intro!: arg_cong [of _ _ concat] map_cong nth_map [symmetric])
  ultimately show ?thesis unfolding layout_order_def using layout_result(1) [OF ix(1)] s by (intro exI [of _ "concat ix"]) simp
qed

section \<open>The fuel of featureRoots is enough\<close>

abbreviation unset :: "nat \<Rightarrow> roots \<Rightarrow> nat set" where
  "unset n R \<equiv> {i. i < n \<and> R i = None}"

definition merge_root :: "nat \<Rightarrow> nat list list \<Rightarrow> nat \<Rightarrow> nat \<Rightarrow> roots \<Rightarrow> roots" where
  "merge_root fuel nx i c R = (let R1 = featureRoots fuel nx c R in R1(i \<mapsto> the (R1 i) \<union> the (R1 c)))"

lemma featureRoots_Suc:
  "featureRoots (Suc fuel) nx i R =
    (if R i \<noteq> None then R else if nx ! i = [] then R(i \<mapsto> {i})
     else let R' = fold (merge_root fuel nx i) (nx ! i) (R(i \<mapsto> {})) in if R' i = Some {} then R'(i \<mapsto> {i}) else R')"
  by (simp add: merge_root_def [abs_def])

declare featureRoots.simps(2) [simp del]

lemma featureRoots_unset: "unset n (featureRoots fuel nx i R) \<subseteq> unset n R"
proof (induction fuel arbitrary: i R)
  case (Suc fuel)
  have "unset n (fold (merge_root fuel nx i) cs R) \<subseteq> unset n R" for cs R
  proof (induction cs arbitrary: R)
    case (Cons c cs)
    have "unset n (merge_root fuel nx i c R) \<subseteq> unset n R" using Suc [of c R] by (auto simp: merge_root_def Let_def split: if_splits)
    then show ?case using Cons [of "merge_root fuel nx i c R"] by simp
  qed simp
  from this [of "nx ! i" "R(i \<mapsto> {})"] show ?case by (auto simp: featureRoots_Suc Let_def split: if_splits)
qed simp

lemma featureRoots_more:
  assumes "\<forall>i < length nx. \<forall>c \<in> set (nx ! i). c < length nx"
  shows "i < length nx \<Longrightarrow> card (unset (length nx) R) < fuel \<Longrightarrow> featureRoots (Suc fuel) nx i R = featureRoots fuel nx i R"
proof (induction fuel arbitrary: i R)
  case (Suc fuel)
  let ?n = "length nx"
  have step: "fold (merge_root (Suc fuel) nx i) cs R = fold (merge_root fuel nx i) cs R"
    if "\<forall>c \<in> set cs. c < ?n" "card (unset ?n R) < fuel" for cs R
    using that
  proof (induction cs arbitrary: R)
    case (Cons c cs)
    have "merge_root (Suc fuel) nx i c R = merge_root fuel nx i c R" using Suc.IH [of c R] Cons.prems by (simp add: merge_root_def)
    moreover have "unset ?n (merge_root fuel nx i c R) \<subseteq> unset ?n R"
      using featureRoots_unset [of ?n fuel nx c R] by (auto simp: merge_root_def Let_def split: if_splits)
    then have "card (unset ?n (merge_root fuel nx i c R)) \<le> card (unset ?n R)" by (intro card_mono) auto
    ultimately show ?case using Cons.IH [of "merge_root fuel nx i c R"] Cons.prems by simp
  qed simp
  show ?case
  proof (cases "R i")
    case None
    then have "unset ?n (R(i \<mapsto> {})) \<subset> unset ?n R" using Suc.prems(1) by auto
    then have "card (unset ?n (R(i \<mapsto> {}))) < card (unset ?n R)" by (intro psubset_card_mono) auto
    then have "fold (merge_root (Suc fuel) nx i) (nx ! i) (R(i \<mapsto> {})) = fold (merge_root fuel nx i) (nx ! i) (R(i \<mapsto> {}))"
      using Suc.prems assms by (intro step) auto
    then show ?thesis by (simp add: featureRoots_Suc)
  qed (simp add: featureRoots_Suc)
qed simp

lemma lc_next_bound: "\<forall>i < length (lc_next (newLayoutCtx parse universe)). \<forall>c \<in> set (lc_next (newLayoutCtx parse universe) ! i). c < length (lc_next (newLayoutCtx parse universe))"
proof -
  have "set (fold (\<lambda>x out. if x \<in> set out then out else out @ [x]) xs out) \<subseteq> set xs \<union> set out" for xs out :: "'a list"
  proof (induction xs arbitrary: out)
    case (Cons a xs)
    show ?case using Cons.IH [of out] Cons.IH [of "out @ [a]"] by auto
  qed simp
  from this [of _ "[]"] have "set (dedup xs) \<subseteq> set xs" for xs :: "'a list" by (simp add: dedup_def)
  then show ?thesis by (fastforce simp: newLayoutCtx_def Let_def split: if_splits)
qed

lemma rootsOf_enough:
  assumes "lc = newLayoutCtx parse universe" "i < length universe"
  shows "featureRoots (Suc (length universe) + k) (lc_next lc) i R = rootsOf lc i R"
proof -
  have n: "length (lc_next lc) = length universe" by (simp add: assms(1) newLayoutCtx_def Let_def)
  have "card (unset (length universe) R) \<le> card {..<length universe}" by (intro card_mono) auto
  then have "card (unset (length (lc_next lc)) R) < Suc (length universe) + k" for k using n by simp
  then show ?thesis using featureRoots_more [of "lc_next lc" i R] lc_next_bound [of parse universe] assms n
    by (induction k) (simp_all add: rootsOf_def)
qed

end
