(* ===== verification/GenValidate.thy ===== *)
theory GenValidate
  imports GenLayout MwOrder
begin

text \<open>
  \<open>gen/validate.go\<close>: the checks on the statements of one flow before they are written, and what they are for: the
  written program declares every generated variable before it is used.

  \<^item> \<open>parseLines\<close> is \<open>go/parser\<close> on the lines of a raw statement: the statements of the function body around them.
  \<^item> The search for a cycle is the depth-first search of \<open>MwOrder\<close>, over the same three colors, with the successors of
    a node in increasing order.
  \<^item> A diagnostic is a position and what was found there.
\<close>

section \<open>Diagnostics\<close>

datatype gen_problem =
    DefinedTwice string position
  | UnknownUses string
  | PhaseDiffers phase phase
  | DefinedTwiceInCase string
  | ResultPhaseDiffers phase phase
  | RawNeverDefines string
  | RawNeverUses string
  | DependencyCycle string "(string \<times> position \<times> bool) list"

type_synonym gen_diag = "position \<times> gen_problem"

definition nodePos :: "position \<Rightarrow> gnode \<Rightarrow> position" where
  "nodePos fallback n = (if pos_IsValid (node_Pos n) then node_Pos n else fallback)"

section \<open>Raw statements\<close>

fun declared_by :: "gast \<Rightarrow> string list" where
  "declared_by (AssignStmt define lhs rhs) = (if define then concat (map (\<lambda>l. case l of Ident x \<Rightarrow> [x] | _ \<Rightarrow> []) lhs) else [])"
| "declared_by (DeclStmt isVar specs) = (if isVar then concat (map (\<lambda>s. case s of ValueSpec ns t vs \<Rightarrow> ns | _ \<Rightarrow> []) specs) else [])"
| "declared_by _ = []"

definition validateRawMetadata :: "(string list \<Rightarrow> gast list option) \<Rightarrow> gnode \<Rightarrow> position \<Rightarrow> (string \<Rightarrow> bool) \<Rightarrow> gen_diag list" where
  "validateRawMetadata parseLines r pos known =
    (case parseLines (raw_Lines r) of
       None \<Rightarrow> []
     | Some body \<Rightarrow>
         (let declared = set (concat (map declared_by body)); free = set (snd (thread walk body [[]]))
          in map (\<lambda>d. (pos, RawNeverDefines d)) (filter (\<lambda>d. d \<notin> declared) (raw_Defines r)) @
             map (\<lambda>u. (pos, RawNeverUses u)) (filter (\<lambda>u. known u \<and> u \<notin> free) (nb_Uses (node_base r)))))"

section \<open>One statement\<close>

definition uses_known :: "position \<Rightarrow> (string \<Rightarrow> bool) \<Rightarrow> nbase \<Rightarrow> gen_diag list" where
  "uses_known pos known b = map (\<lambda>u. (pos, UnknownUses u)) (filter (\<lambda>u. \<not> known u) (nb_Uses b))"

fun case_dups :: "position \<Rightarrow> string list \<Rightarrow> string list \<Rightarrow> gen_diag list" where
  "case_dups pos seen [] = []"
| "case_dups pos seen (d # ds) = (if d \<in> set seen then [(pos, DefinedTwiceInCase d)] else []) @ case_dups pos (d # seen) ds"

definition case_defs :: "gnode list \<Rightarrow> nat \<Rightarrow> string list" where
  "case_defs body k = concat (map node_defines (take k body))"

definition node_cases :: "gnode \<Rightarrow> (string \<times> gnode list \<times> gcall) list" where
  "node_cases n = (case n of Select b v i k f cs \<Rightarrow> cs | _ \<Rightarrow> [])"

definition check_own :: "(string list \<Rightarrow> gast list option) \<Rightarrow> position \<Rightarrow> (string \<Rightarrow> bool) \<Rightarrow> phase \<Rightarrow> bool \<Rightarrow> gnode \<Rightarrow> gen_diag list" where
  "check_own pl fb known parentPhase inSelect n =
    uses_known (nodePos fb n) known (node_base n) @
    (if inSelect \<and> node_Phase n \<noteq> parentPhase then [(nodePos fb n, PhaseDiffers (node_Phase n) parentPhase)] else []) @
    (case n of Raw b ls ds c \<Rightarrow> validateRawMetadata pl n (nodePos fb n) known | _ \<Rightarrow> [])"

definition check_result :: "position \<Rightarrow> (string \<Rightarrow> bool) \<Rightarrow> phase \<Rightarrow> gcall \<Rightarrow> gen_diag list" where
  "check_result fb known phase res =
    uses_known (nodePos fb (Call res)) known (cl_Base res) @
    (if nb_Phase (cl_Base res) \<noteq> phase then [(nodePos fb (Call res), ResultPhaseDiffers (nb_Phase (cl_Base res)) phase)] else [])"

lemma node_cases_child: "(val, body, res) \<in> set (node_cases n) \<Longrightarrow> m \<in> set body \<Longrightarrow> m \<in> set (select_children n)"
  by (cases n) (auto simp: node_cases_def select_children_def intro!: bexI [where x = "(val, body, res)"])

text \<open>The body of a case sees what the case has defined so far, its own definitions included.\<close>

function checkNode :: "(string list \<Rightarrow> gast list option) \<Rightarrow> position \<Rightarrow> (string \<Rightarrow> bool) \<Rightarrow> phase \<Rightarrow> bool \<Rightarrow> gnode \<Rightarrow> gen_diag list" where
  "checkNode pl fb known parentPhase inSelect n =
    check_own pl fb known parentPhase inSelect n @
    concat (map (\<lambda>(val, body, res).
      concat (map (\<lambda>j. case_dups (nodePos fb (body ! j)) (case_defs body j) (node_defines (body ! j)) @
          checkNode pl fb (\<lambda>x. x \<in> set (case_defs body (Suc j)) \<or> known x) (node_Phase n) True (body ! j)) [0..<length body]) @
      check_result fb (\<lambda>x. x \<in> set (case_defs body (length body)) \<or> known x) (node_Phase n) res) (node_cases n))"
  by pat_completeness simp_all
termination
proof (relation "measure (\<lambda>(pl, fb, known, p, i, n). size n)", goal_cases)
  case (2 pl fb known parentPhase inSelect n c val r body res j)
  then have "(val, body, res) \<in> set (node_cases n)" "body ! j \<in> set body" by auto
  then show ?case using select_children_size [OF node_cases_child] by simp
qed simp

declare checkNode.simps [simp del]

lemma checkNode_leaf:
  "checkNode pl fb known pp is (Raw b1 ls ds ch) = check_own pl fb known pp is (Raw b1 ls ds ch)"
  "checkNode pl fb known pp is (Assign b2 v e) = check_own pl fb known pp is (Assign b2 v e)"
  "checkNode pl fb known pp is (Call c) = check_own pl fb known pp is (Call c)"
  "checkNode pl fb known pp is (ConfigLoad b3 v3 pk ty pre opts) = check_own pl fb known pp is (ConfigLoad b3 v3 pk ty pre opts)"
  "checkNode pl fb known pp is (StructLit b4 v4 t4 fls) = check_own pl fb known pp is (StructLit b4 v4 t4 fls)"
  "checkNode pl fb known pp is (Route b5 r k m p h cc) = check_own pl fb known pp is (Route b5 r k m p h cc)"
  by (simp_all add: checkNode.simps [of _ _ _ _ _ "Raw b1 ls ds ch"] checkNode.simps [of _ _ _ _ _ "Assign b2 v e"] checkNode.simps [of _ _ _ _ _ "Call c"]
      checkNode.simps [of _ _ _ _ _ "ConfigLoad b3 v3 pk ty pre opts"] checkNode.simps [of _ _ _ _ _ "StructLit b4 v4 t4 fls"]
      checkNode.simps [of _ _ _ _ _ "Route b5 r k m p h cc"] node_cases_def)

lemma checkNode_select:
  "checkNode pl fb known pp is (Select b v i k f cs) =
    check_own pl fb known pp is (Select b v i k f cs) @
    concat (map (\<lambda>(val, body, res).
      concat (map (\<lambda>j. case_dups (nodePos fb (body ! j)) (case_defs body j) (node_defines (body ! j)) @
          checkNode pl fb (\<lambda>x. x \<in> set (case_defs body (Suc j)) \<or> known x) (nb_Phase b) True (body ! j)) [0..<length body]) @
      check_result fb (\<lambda>x. x \<in> set (case_defs body (length body)) \<or> known x) (nb_Phase b) res) cs)"
  by (subst checkNode.simps) (simp add: node_cases_def)

lemmas checkNode_code [code] = checkNode_leaf checkNode_select

section \<open>One flow\<close>

fun walkDefines :: "(nref \<Rightarrow> position) \<Rightarrow> nref list \<Rightarrow> (string, position) gomap \<Rightarrow> (string, position) gomap \<times> gen_diag list" where
  "walkDefines fb [] defined = (defined, [])"
| "walkDefines fb (n # ns) defined =
    (let pos = nodePos (fb n) (rf_node n);
         (defined1, ds) = fold (\<lambda>d (m, out). case map_of m d of
             Some first \<Rightarrow> (m, out @ [(pos, DefinedTwice d first)])
           | None \<Rightarrow> (goput d pos m, out)) (node_defines (rf_node n)) (defined, []);
         (defined2, ds2) = walkDefines fb ns defined1
     in (defined2, ds @ ds2))"

definition phase_cycle :: "(string \<Rightarrow> gast option) \<Rightarrow> gnode list \<Rightarrow> nat list option" where
  "phase_cycle parse ph =
    (let succ = (\<lambda>i. map (\<lambda>j. (i, j)) (sort (use_deps parse ph i))) in
     case dfs_roots (length ph) succ snd [0..<length ph] (\<lambda>_. White) of
       Some (Some (path, e), _) \<Rightarrow> Some (dropWhile (\<lambda>i. i \<noteq> snd e) (map fst path @ [fst e]) @ [snd e])
     | _ \<Rightarrow> None)"

definition declared_uses :: "gnode \<Rightarrow> string set" where
  "declared_uses n = set (concat (map (\<lambda>m. nb_Uses (node_base m)) (nested n)))"

definition via_uses :: "(string \<Rightarrow> gast option) \<Rightarrow> gnode list \<Rightarrow> nat \<Rightarrow> nat \<Rightarrow> bool" where
  "via_uses parse ph i j \<longleftrightarrow> (\<exists>u \<in> set (uses parse (ph ! i) (set (gokeys (layout_owner ph)))). map_of (layout_owner ph) u = Some j \<and> u \<in> declared_uses (ph ! i))"

definition cycle_diag :: "(string \<Rightarrow> gast option) \<Rightarrow> (nref \<Rightarrow> position) \<Rightarrow> nref list \<Rightarrow> string \<Rightarrow> nat list \<Rightarrow> gen_diag" where
  "cycle_diag parse fb ph label cycle =
    (let pos = (\<lambda>i. nodePos (fb (ph ! i)) (rf_node (ph ! i))) in
     (pos (hd cycle), DependencyCycle label (map (\<lambda>k. (or_Directive (nb_Origin (node_base (rf_node (ph ! (cycle ! k))))), pos (cycle ! k),
        k + 1 < length cycle \<and> via_uses parse (map rf_node ph) (cycle ! k) (cycle ! (k + 1)))) [0..<length cycle])))"

definition flow_phase :: "nref list \<Rightarrow> phase \<Rightarrow> nref list" where
  "flow_phase nodes ph = filter (\<lambda>n. node_Phase (rf_node n) = ph) nodes"

definition validatePhaseCycles :: "(string \<Rightarrow> gast option) \<Rightarrow> (nref \<Rightarrow> position) \<Rightarrow> nref list \<Rightarrow> gen_diag list" where
  "validatePhaseCycles parse fb nodes =
    concat (map (\<lambda>(p, label).
      let ph = flow_phase nodes p in
      if length ph < 2 then []
      else case phase_cycle parse (map rf_node ph) of None \<Rightarrow> [] | Some cycle \<Rightarrow> [cycle_diag parse fb ph label cycle]) phaseLabels)"

definition validateFlowWith :: "(string \<Rightarrow> gast option) \<Rightarrow> (string list \<Rightarrow> gast list option) \<Rightarrow> string \<Rightarrow> (nref \<Rightarrow> position) \<Rightarrow> nref list \<Rightarrow> gen_diag list" where
  "validateFlowWith parse pl ctxVar fb nodes =
    (let (defined, ds) = walkDefines fb nodes [];
         known = (\<lambda>name. map_of defined name \<noteq> None \<or> name = ctxVar \<or> name = ''ctx'')
     in ds @ concat (map (\<lambda>n. checkNode pl (fb n) known 0 False (rf_node n)) nodes) @ validatePhaseCycles parse fb nodes)"

section \<open>The cycle check is exact\<close>

definition use_rel :: "(string \<Rightarrow> gast option) \<Rightarrow> gnode list \<Rightarrow> (nat \<times> nat) set" where
  "use_rel parse ph = {(j, i). i < length ph \<and> j \<in> set (use_deps parse ph i)}"

definition use_cycle :: "(string \<Rightarrow> gast option) \<Rightarrow> gnode list \<Rightarrow> nat list \<Rightarrow> bool" where
  "use_cycle parse ph c \<longleftrightarrow> 2 \<le> length c \<and> hd c = last c \<and> set c \<subseteq> {..<length ph} \<and> successively (\<lambda>i j. j \<in> set (use_deps parse ph i)) c"

abbreviation use_succ :: "(string \<Rightarrow> gast option) \<Rightarrow> gnode list \<Rightarrow> nat \<Rightarrow> (nat \<times> nat) list" where
  "use_succ parse ph \<equiv> \<lambda>i. map (\<lambda>j. (i, j)) (sort (use_deps parse ph i))"

lemma phase_cycle_None:
  assumes "phase_cycle parse ph = None"
  shows "acyclic (use_rel parse ph)"
proof -
  have "dfs_roots (length ph) (use_succ parse ph) snd [0..<length ph] (\<lambda>_. White) \<noteq> None"
    by (rule dfs_enough_roots [where V = "{..<length ph}"]) (auto dest: use_deps_bound)
  then obtain col where "dfs_roots (length ph) (use_succ parse ph) snd [0..<length ph] (\<lambda>_. White) = Some (None, col)"
    using assms by (auto simp: phase_cycle_def Let_def split: option.splits)
  then have "acyclic {(v, snd e) | v e. v \<in> set [0..<length ph] \<and> e \<in> set (use_succ parse ph v)}" by (rule dfs_acyclic)
  moreover have "{(v, snd e) | v e. v \<in> set [0..<length ph] \<and> e \<in> set (use_succ parse ph v)} = (use_rel parse ph)\<inverse>"
    by (auto simp: use_rel_def)
  ultimately show ?thesis by (simp add: acyclic_converse)
qed

lemma walk_nodes:
  "dfs_walk (use_succ parse ph) fst snd (q @ [e]) \<Longrightarrow> successively (\<lambda>i j. j \<in> set (use_deps parse ph i)) (map fst (q @ [e]) @ [snd e])"
proof (induction q)
  case Nil
  then show ?case by (cases e) (auto simp: dfs_walk_def)
next
  case (Cons d q)
  have "dfs_walk (use_succ parse ph) fst snd (q @ [e])" using Cons.prems by (cases q) (auto simp: dfs_walk_def)
  moreover have "d \<in> set (use_succ parse ph (fst d))" "snd d = hd (map fst (q @ [e]))" using Cons.prems by (cases q; auto simp: dfs_walk_def)+
  then have "hd (map fst (q @ [e])) \<in> set (use_deps parse ph (fst d))" by (auto simp del: map_append) (metis snd_conv)
  ultimately show ?case using Cons.IH by (cases q) auto
qed

lemma successively_preceded: "successively P xs \<Longrightarrow> x \<in> set (tl xs) \<Longrightarrow> \<exists>y \<in> set xs. P y x"
proof (induction xs rule: induct_list012)
  case (3 a b xs)
  then show ?case by auto
qed auto

lemma phase_cycle_Some:
  assumes "phase_cycle parse ph = Some c"
  shows "use_cycle parse ph c"
proof -
  obtain p e col where d: "dfs_roots (length ph) (use_succ parse ph) snd [0..<length ph] (\<lambda>_. White) = Some (Some (p, e), col)"
    and c: "c = dropWhile (\<lambda>i. i \<noteq> snd e) (map fst (p @ [e])) @ [snd e]"
    using assms by (auto simp: phase_cycle_def Let_def split: option.splits)
  let ?ns = "map fst (p @ [e])" and ?P = "\<lambda>i. i \<noteq> snd e"
  have cl: "dfs_closes (use_succ parse ph) fst snd p e" by (rule dfs_sound_roots [OF d _ dfs_inv_start]) auto
  then have w: "successively (\<lambda>i j. j \<in> set (use_deps parse ph i)) (?ns @ [snd e])" by (intro walk_nodes) (simp add: dfs_closes_def)
  have ne: "dropWhile ?P ?ns \<noteq> []" using cl unfolding dropWhile_eq_Nil_conv by (force simp: dfs_closes_def)
  have "?ns @ [snd e] = takeWhile ?P ?ns @ c" unfolding c by simp
  then have s: "successively (\<lambda>i j. j \<in> set (use_deps parse ph i)) c" using w by (simp only: successively_append_iff)
  have "hd c = snd e" using ne hd_dropWhile [OF ne] unfolding c by simp
  moreover have "2 \<le> length c" using ne unfolding c by (cases "dropWhile ?P ?ns") auto
  moreover have "set c \<subseteq> {..<length ph}"
  proof
    fix i
    assume "i \<in> set c"
    then have "i \<in> set (tl c) \<or> i = snd e" using \<open>hd c = snd e\<close> by (cases c) auto
    moreover have "snd e \<in> set (tl c)" using ne unfolding c by (cases "dropWhile ?P ?ns") auto
    ultimately show "i \<in> {..<length ph}" using successively_preceded [OF s] use_deps_bound by fastforce
  qed
  ultimately show ?thesis using s c by (simp add: use_cycle_def)
qed

lemma validatePhaseCycles_acyclic:
  assumes "validatePhaseCycles parse fb nodes = []" "p \<in> fst ` set phaseLabels"
  shows "acyclic (use_rel parse (map rf_node (flow_phase nodes p)))"
proof (cases "length (flow_phase nodes p) < 2")
  case True
  have "use_deps parse (map rf_node (flow_phase nodes p)) i = []" if "i < length (flow_phase nodes p)" for i
  proof -
    have "j = i" if "j < length (flow_phase nodes p)" for j using that \<open>i < length (flow_phase nodes p)\<close> True by linarith
    then have "\<forall>j. j \<notin> set (use_deps parse (map rf_node (flow_phase nodes p)) i)" using use_deps_bound by (fastforce simp: use_deps_iff dest: layout_owner_bound)
    then show ?thesis by (metis ex_in_conv set_empty)
  qed
  then have "use_rel parse (map rf_node (flow_phase nodes p)) = {}" by (auto simp: use_rel_def)
  then show ?thesis by (simp add: acyclic_def)
next
  case False
  then have "phase_cycle parse (map rf_node (flow_phase nodes p)) = None"
    using assms by (auto simp: validatePhaseCycles_def Let_def split: option.splits)
  then show ?thesis by (rule phase_cycle_None)
qed

lemma define_fold:
  assumes "fold (\<lambda>d (m, out). case map_of m d of Some first \<Rightarrow> (m, out @ [(pos, DefinedTwice d first)]) | None \<Rightarrow> (goput d pos m, out)) ds (m, out) = (m', [])"
  shows "out = [] \<and> distinct ds \<and> set ds \<inter> dom (map_of m) = {} \<and> dom (map_of m') = set ds \<union> dom (map_of m)"
  using assms
proof (induction ds arbitrary: m out)
  case (Cons d ds)
  show ?case
  proof (cases "map_of m d")
    case None
    then show ?thesis using Cons.IH [of "goput d pos m" out] Cons.prems by (auto simp: dom_def split: if_splits)
  next
    case (Some q)
    then show ?thesis using Cons.IH [of m "out @ [(pos, DefinedTwice d q)]"] Cons.prems by simp
  qed
qed auto

lemma walkDefines_distinct:
  "walkDefines fb ns m = (m', []) \<Longrightarrow> distinct (concat (map (node_defines \<circ> rf_node) ns)) \<and> set (concat (map (node_defines \<circ> rf_node) ns)) \<inter> dom (map_of m) = {}"
proof (induction ns arbitrary: m)
  case (Cons n ns)
  obtain m1 ds where f: "fold (\<lambda>d (m, out). case map_of m d of Some first \<Rightarrow> (m, out @ [(nodePos (fb n) (rf_node n), DefinedTwice d first)])
      | None \<Rightarrow> (goput d (nodePos (fb n) (rf_node n)) m, out)) (node_defines (rf_node n)) (m, []) = (m1, ds)" by (rule prod.exhaust)
  obtain m2 ds2 where w: "walkDefines fb ns m1 = (m2, ds2)" by (rule prod.exhaust)
  have e: "ds = []" "ds2 = []" "m2 = m'" using Cons.prems f w by (auto simp: Let_def)
  show ?case using define_fold [OF f [unfolded e(1)]] Cons.IH [OF w [unfolded e(2,3)]] by auto
qed simp

section \<open>Every variable is declared before it is used\<close>

lemma phase_nodes_flow: "map pn_n (phase_nodes nodes p) = flow_phase nodes p"
proof -
  have "map (\<lambda>i. xs ! i) (filter (\<lambda>i. P (xs ! i)) [0..<length xs]) = filter P xs" for P and xs :: "'a list"
    using filter_map [of P "\<lambda>i. xs ! i" "[0..<length xs]"] by (simp add: map_nth o_def)
  then show ?thesis by (simp add: phase_nodes_def flow_phase_def o_def)
qed

lemma emit_sections:
  assumes "\<forall>n \<in> set nodes. nb_Batch (node_base (rf_node n)) = []" "\<forall>p \<in> set phs. acyclic (use_rel parse (map rf_node (flow_phase nodes p)))"
    and "distinct phs"
  shows "\<exists>sec. emitted_nodes (emit_phases parse lc nodes phs R) = concat (map sec phs) \<and>
    (\<forall>p \<in> set phs. layout_order (map rf_node (flow_phase nodes p)) parse (sec p))"
  using assms(2,3)
proof (induction phs arbitrary: R)
  case (Cons p phs)
  have fp: "map pn_node (phase_nodes nodes p) = map rf_node (flow_phase nodes p)" by (simp flip: phase_nodes_flow)
  obtain cl R' where l: "layout parse lc (phase_nodes nodes p) R = (cl, R')" by (rule prod.exhaust)
  let ?R = "if phase_nodes nodes p = [] then R else R'"
  obtain sec where s: "emitted_nodes (emit_phases parse lc nodes phs ?R) = concat (map sec phs)"
    "\<forall>p \<in> set phs. layout_order (map rf_node (flow_phase nodes p)) parse (sec p)" using Cons.IH [of ?R] Cons.prems by auto
  have b: "\<forall>q \<in> set (phase_nodes nodes p). nb_Batch (node_base (pn_node q)) = []"
    using assms(1) by (auto simp: phase_nodes_def)
  have o: "layout_order (map rf_node (flow_phase nodes p)) parse (map pn_node (concat cl))"
    using layout_without_batches [OF b l] Cons.prems unfolding fp use_rel_def by (simp flip: phase_nodes_flow)
  have "emitted_nodes (emit_phases parse lc nodes (p # phs) R) = map pn_node (concat cl) @ concat (map sec phs)"
  proof (cases "phase_nodes nodes p = []")
    case True
    then have "cl = []" using l by (simp add: layout_def layout_ix_def)
    then show ?thesis using True s(1) by simp
  next
    case False
    then show ?thesis using l s(1) by (simp add: emitted_nodes_def)
  qed
  also have "\<dots> = concat (map (sec(p := map pn_node (concat cl))) (p # phs))" using Cons.prems(2) by (auto intro!: arg_cong [of _ _ concat])
  finally have "emitted_nodes (emit_phases parse lc nodes (p # phs) R) = concat (map (sec(p := map pn_node (concat cl))) (p # phs))" .
  moreover have "\<forall>q \<in> set (p # phs). layout_order (map rf_node (flow_phase nodes q)) parse ((sec(p := map pn_node (concat cl))) q)"
    using s(2) o by simp
  ultimately show ?case by blast
qed (simp add: emitted_nodes_def)

lemma concat_split:
  "concat (map f xs) = pre @ y # post \<Longrightarrow> \<exists>as a bs s1 s2. xs = as @ a # bs \<and> f a = s1 @ y # s2 \<and> pre = concat (map f as) @ s1"
proof (induction xs arbitrary: pre)
  case (Cons x xs)
  then have e: "f x @ concat (map f xs) = pre @ y # post" by simp
  consider us where "f x = pre @ y # us" | us where "pre = f x @ us" "concat (map f xs) = us @ y # post"
    using e by (auto simp: append_eq_append_conv2 append_eq_Cons_conv)
  then show ?case
  proof cases
    case (1 us)
    then show ?thesis by (intro exI [of _ "[]"] exI [of _ x] exI [of _ xs] exI [of _ pre] exI [of _ us]) simp
  next
    case (2 pre')
    note p = 2
    from Cons.IH [OF p(2)] obtain as a bs s1 s2 where "xs = as @ a # bs" "f a = s1 @ y # s2" "pre' = concat (map f as) @ s1" by blast
    then show ?thesis using p(1) by (intro exI [of _ "x # as"] exI [of _ a] exI [of _ bs] exI [of _ s1] exI [of _ s2]) simp
  qed
qed simp

lemma layout_order_mset: "layout_order nodes parse out \<Longrightarrow> mset out = mset nodes"
proof -
  assume "layout_order nodes parse out"
  then obtain ord where o: "distinct ord" "set ord = {..<length nodes}" "out = map (\<lambda>i. nodes ! i) ord" by (auto simp: layout_order_def)
  have "mset ord = mset [0..<length nodes]" using mset_set_set [OF o(1)] o(2) by (simp add: atLeast0LessThan)
  then have "mset out = mset (map (\<lambda>i. nodes ! i) [0..<length nodes])" by (simp only: o(3) mset_map)
  then show ?thesis by (simp add: map_nth)
qed

lemma layout_order_before:
  assumes "layout_order nodes parse (s1 @ n # s2)" "u \<in> set (uses parse n V)" "u \<notin> set (node_defines n)"
    and "m \<in> set nodes" "u \<in> set (node_defines m)"
  shows "\<exists>m' \<in> set s1. u \<in> set (node_defines m')"
proof -
  obtain ord where o: "set ord = {..<length nodes}" "s1 @ n # s2 = map (\<lambda>i. nodes ! i) ord"
    and d: "\<forall>k < length ord. set (use_deps parse nodes (ord ! k)) \<subseteq> set (take k ord)" using assms(1) by (auto simp: layout_order_def)
  let ?k = "length s1"
  have k: "?k < length ord" using arg_cong [OF o(2), of length] by simp
  have n: "n = nodes ! (ord ! ?k)" using arg_cong [OF o(2), of "\<lambda>xs. xs ! ?k"] k by simp
  have s1: "s1 = map (\<lambda>i. nodes ! i) (take ?k ord)" using arg_cong [OF o(2), of "take ?k"] by (simp add: take_map)
  obtain j where j: "map_of (layout_owner nodes) u = Some j" using layout_owner_dom [of nodes u] assms(4,5) by (auto simp: in_set_conv_nth)
  have b: "u \<in> set (node_defines (nodes ! j))" using layout_owner_bound [OF j] by simp
  then have "j \<noteq> ord ! ?k" using assms(3) n by auto
  moreover have "u \<in> set (uses parse n (set (gokeys (layout_owner nodes))))"
    using assms(2) j by (auto simp: set_uses dest: map_of_SomeD intro: rev_image_eqI)
  ultimately have "j \<in> set (use_deps parse nodes (ord ! ?k))" using j n by (auto simp: use_deps_iff)
  then have "j \<in> set (take ?k ord)" using d k by blast
  then have "nodes ! j \<in> set s1" by (subst s1) simp
  then show ?thesis using b by blast
qed

lemma partition_mset:
  "distinct ps \<Longrightarrow> \<forall>x \<in> set xs. f x \<in> set ps \<Longrightarrow> mset (concat (map (\<lambda>p. filter (\<lambda>x. f x = p) xs) ps)) = mset xs"
proof (induction ps arbitrary: xs)
  case (Cons p ps)
  let ?ys = "filter (\<lambda>x. f x \<noteq> p) xs"
  have "map (\<lambda>q. filter (\<lambda>x. f x = q) xs) ps = map (\<lambda>q. filter (\<lambda>x. f x = q) ?ys) ps" using Cons.prems(1) by (auto intro!: filter_cong)
  moreover have "mset (concat (map (\<lambda>q. filter (\<lambda>x. f x = q) ?ys) ps)) = mset ?ys" using Cons.prems by (intro Cons.IH) auto
  ultimately have "mset (concat (map (\<lambda>q. filter (\<lambda>x. f x = q) xs) ps)) = mset ?ys" by (simp only:)
  then have "mset (concat (map (\<lambda>q. filter (\<lambda>x. f x = q) xs) (p # ps))) = filter_mset (\<lambda>x. f x = p) (mset xs) + filter_mset (\<lambda>x. \<not> f x = p) (mset xs)"
    by simp
  then show ?case by (simp only: multiset_partition [symmetric])
qed simp

lemma mset_concat_map: "mset xs = mset ys \<Longrightarrow> mset (concat (map f xs)) = mset (concat (map f ys))"
proof -
  have "mset (concat (map f zs)) = \<Sum>\<^sub># (image_mset (mset \<circ> f) (mset zs))" for zs by (induction zs) auto
  then show "mset xs = mset ys \<Longrightarrow> ?thesis" by simp
qed

lemma sections_mset:
  assumes "\<forall>p \<in> set phs. layout_order (map rf_node (flow_phase nodes p)) parse (sec p)" "distinct phs"
    and "\<forall>n \<in> set nodes. node_Phase (rf_node n) \<in> set phs"
  shows "mset (concat (map sec phs)) = mset (map rf_node nodes)"
proof -
  have "map mset (map sec phs) = map (\<lambda>p. mset (map rf_node (flow_phase nodes p))) phs"
    using assms(1) layout_order_mset by (fastforce simp del: mset_map)
  then have "mset (concat (map sec phs)) = mset (concat (map (\<lambda>p. map rf_node (flow_phase nodes p)) phs))"
    unfolding mset_concat by (simp only: map_map o_def)
  also have "concat (map (\<lambda>p. map rf_node (flow_phase nodes p)) phs) = map rf_node (concat (map (flow_phase nodes) phs))"
    by (simp add: map_concat o_def)
  also have "mset \<dots> = mset (map rf_node nodes)"
    using partition_mset [of phs nodes "\<lambda>n. node_Phase (rf_node n)"] assms(2,3) by (simp add: flow_phase_def [abs_def])
  finally show ?thesis .
qed

lemma sections_declare:
  assumes sec: "\<forall>p \<in> set phs. layout_order (map rf_node (flow_phase nodes p)) parse (sec p)" and "sorted_wrt (<) phs"
    and o: "concat (map sec phs) = pre @ n # post" and u: "v \<in> set (uses parse n V)" "v \<notin> set (node_defines n)"
    and m: "m \<in> set nodes" "v \<in> set (node_defines (rf_node m))" "node_Phase (rf_node m) \<in> set phs" "node_Phase (rf_node m) \<le> node_Phase n"
  shows "v \<in> set (concat (map node_defines pre))"
proof -
  from concat_split [OF o] obtain as a bs s1 s2 where s: "phs = as @ a # bs" "sec a = s1 @ n # s2" "pre = concat (map sec as) @ s1" by blast
  have ms: "set (sec p) = rf_node ` set (flow_phase nodes p)" if "p \<in> set phs" for p
    using layout_order_mset [of "map rf_node (flow_phase nodes p)" parse "sec p"] sec that by (metis mset_eq_setD set_map)
  have "n \<in> set (sec a)" using s(2) by simp
  then have na: "node_Phase n = a" using ms [of a] s(1) by (auto simp: flow_phase_def)
  have "\<exists>m' \<in> set pre. v \<in> set (node_defines m')"
  proof (cases "node_Phase (rf_node m) = a")
    case True
    then have "rf_node m \<in> set (map rf_node (flow_phase nodes a))" using m(1) by (auto simp: flow_phase_def)
    moreover have "layout_order (map rf_node (flow_phase nodes a)) parse (s1 @ n # s2)" using sec s(1,2) by auto
    ultimately show ?thesis using layout_order_before [OF _ u _ m(2)] s(3) by fastforce
  next
    case False
    then have "node_Phase (rf_node m) \<in> set as" using m(3,4) na s(1) assms(2) by (auto simp: sorted_wrt_append)
    moreover have "rf_node m \<in> set (sec (node_Phase (rf_node m)))" using ms [OF m(3)] m(1) by (auto simp: flow_phase_def)
    ultimately show ?thesis using m(2) s(3) by auto
  qed
  then show ?thesis by auto
qed

text \<open>C11: The written program declares before it uses. When the checks of a flow report nothing, no batch imposes an order
  of its own and no statement refers to a variable of a later section, the sections hold every statement of the flow once,
  every generated variable is declared once, and whatever a statement refers to and does not declare itself is declared by
  a statement above it.\<close>

theorem gen_declared_before_use:
  assumes "validateFlowWith parse pl ctxVar fb nodes = []" "\<forall>n \<in> set nodes. nb_Batch (node_base (rf_node n)) = []"
    and "\<forall>n \<in> set nodes. node_Phase (rf_node n) \<in> fst ` set phaseLabels"
    and "\<forall>n \<in> set nodes. \<forall>m \<in> set nodes. \<forall>v \<in> set (node_defines (rf_node m)) \<inter> set (uses parse (rf_node n) (set (node_defines (rf_node m)))).
      node_Phase (rf_node m) \<le> node_Phase (rf_node n)"
    and out_def: "out = emitted_nodes (emitPhaseNodes parse nodes (map fst phaseLabels))"
  shows "mset out = mset (map rf_node nodes) \<and> distinct (concat (map node_defines out)) \<and>
    (\<forall>pre n post v. out = pre @ n # post \<longrightarrow> v \<in> set (uses parse n (set (concat (map node_defines out)))) \<longrightarrow> v \<notin> set (node_defines n) \<longrightarrow>
       v \<in> set (concat (map node_defines pre)))"
proof -
  let ?phs = "map fst phaseLabels"
  have labels: "filter (\<lambda>p. p \<in> set ?phs) ?phs = ?phs" "distinct ?phs" "sorted_wrt (<) ?phs" by (simp_all add: phaseLabels_def phase_defs)
  have v: "validatePhaseCycles parse fb nodes = []" "\<exists>m'. walkDefines fb nodes [] = (m', [])"
    using assms(1) by (auto simp: validateFlowWith_def Let_def split: prod.splits)
  have "\<forall>p \<in> set ?phs. acyclic (use_rel parse (map rf_node (flow_phase nodes p)))" using validatePhaseCycles_acyclic [OF v(1)] by simp
  from emit_sections [OF assms(2) this labels(2)] obtain sec where out: "out = concat (map sec ?phs)"
    and sec: "\<forall>p \<in> set ?phs. layout_order (map rf_node (flow_phase nodes p)) parse (sec p)"
    unfolding out_def emitPhaseNodes_def labels(1) by blast
  have ph: "\<forall>n \<in> set nodes. node_Phase (rf_node n) \<in> set ?phs" using assms(3) by simp
  have ms: "mset out = mset (map rf_node nodes)" unfolding out by (rule sections_mset [OF sec labels(2) ph])
  moreover have "distinct (concat (map node_defines out))"
    using v(2) walkDefines_distinct mset_eq_imp_distinct_iff [OF mset_concat_map [OF ms]] by fastforce
  moreover have "v \<in> set (concat (map node_defines pre))"
    if o: "out = pre @ n # post" and u: "v \<in> set (uses parse n (set (concat (map node_defines out))))" and nd: "v \<notin> set (node_defines n)" for pre n post v
  proof -
    have s: "set out = rf_node ` set nodes" using ms by (metis mset_eq_setD set_map)
    have "v \<in> set (concat (map node_defines out))" using u by (simp add: set_uses)
    then obtain m where m: "m \<in> set nodes" "v \<in> set (node_defines (rf_node m))" using s by auto
    obtain n0 where n0: "n0 \<in> set nodes" "n = rf_node n0" using o s by auto
    have "v \<in> set (node_defines (rf_node m)) \<inter> set (uses parse (rf_node n0) (set (node_defines (rf_node m))))"
      using u m(2) n0(2) by (simp add: set_uses)
    then have "node_Phase (rf_node m) \<le> node_Phase n" using assms(4) n0 m(1) by blast
    then show ?thesis using sections_declare [OF sec labels(3) o [unfolded out] u nd m] ph m(1) by blast
  qed
  ultimately show ?thesis by blast
qed

definition sample_base :: "phase \<Rightarrow> string \<Rightarrow> int \<Rightarrow> nbase" where
  "sample_base p batch seq = \<lparr>nb_Origin = \<lparr>or_Directive = ''provider'', or_Pos = noPos\<rparr>, nb_Phase = p, nb_Label = [], nb_Uses = [], nb_Batch = batch, nb_Seq = seq, nb_Group = []\<rparr>"

definition sample_flow :: "nref list" where
  "sample_flow =
    [\<lparr>rf_ptr = 0, rf_node = Assign (sample_base PhaseWire [] 0) ''store'' ''db''\<rparr>,
     \<lparr>rf_ptr = 1, rf_node = Assign (sample_base PhaseWire [] 0) ''db'' ''cfg''\<rparr>,
     \<lparr>rf_ptr = 2, rf_node = ConfigLoad (sample_base PhaseConfig [] 0) ''cfg'' ''config'' ''Config'' [] [''opts'']\<rparr>]"

definition sample_parse :: "string \<Rightarrow> gast option" where
  "sample_parse s = Some (Ident s)"

theorem gen_declared_before_use_witness:
  "map (concat \<circ> map node_defines) [emitted_nodes (emitPhaseNodes sample_parse sample_flow (map fst phaseLabels))] = [[''cfg'', ''db'', ''store'']] \<and>
   distinct (concat (map node_defines (emitted_nodes (emitPhaseNodes sample_parse sample_flow (map fst phaseLabels)))))"
proof -
  have "validateFlowWith sample_parse (\<lambda>_. None) ''ctx'' (\<lambda>_. noPos) sample_flow = []" by code_simp
  moreover have "\<forall>n \<in> set sample_flow. nb_Batch (node_base (rf_node n)) = []" by code_simp
  moreover have "\<forall>n \<in> set sample_flow. node_Phase (rf_node n) \<in> fst ` set phaseLabels" by code_simp
  moreover have "\<forall>n \<in> set sample_flow. \<forall>m \<in> set sample_flow. \<forall>v \<in> set (node_defines (rf_node m)) \<inter> set (uses sample_parse (rf_node n) (set (node_defines (rf_node m)))).
      node_Phase (rf_node m) \<le> node_Phase (rf_node n)" by code_simp
  ultimately have "distinct (concat (map node_defines (emitted_nodes (emitPhaseNodes sample_parse sample_flow (map fst phaseLabels)))))"
    using gen_declared_before_use [OF _ _ _ _ refl] by blast
  moreover have "map (concat \<circ> map node_defines) [emitted_nodes (emitPhaseNodes sample_parse sample_flow (map fst phaseLabels))] = [[''cfg'', ''db'', ''store'']]"
    by code_simp
  ultimately show ?thesis by blast
qed

text \<open>The batch of two statements where the first refers to what the second declares.\<close>

definition batch_flow :: "nref list" where
  "batch_flow =
    [\<lparr>rf_ptr = 0, rf_node = Assign (sample_base PhaseWire ''b'' 1) ''x'' ''y''\<rparr>,
     \<lparr>rf_ptr = 1, rf_node = Assign (sample_base PhaseWire ''b'' 2) ''y'' ''z''\<rparr>]"

text \<open>A cycle between a batch and the data flow is not reported. The checks look at data flow only; for this batch they
  report nothing, and the section is written with the use of \<open>y\<close> above its declaration.\<close>

theorem gen_batch_cycle_unreported:
  "validateFlowWith sample_parse (\<lambda>_. None) ''ctx'' (\<lambda>_. noPos) batch_flow = [] \<and>
   emitted_nodes (emitPhaseNodes sample_parse batch_flow (map fst phaseLabels)) = map rf_node batch_flow \<and>
   uses sample_parse (rf_node (hd batch_flow)) {''x'', ''y''} = [''y''] \<and> node_defines (rf_node (last batch_flow)) = [''y'']"
  by (intro conjI) code_simp+

lemma use_cycle_cyclic:
  assumes "use_cycle parse ph c"
  shows "\<not> acyclic (use_rel parse ph)"
proof -
  have "successively (\<lambda>i j. j \<in> set (use_deps parse ph i)) xs \<Longrightarrow> set xs \<subseteq> {..<length ph} \<Longrightarrow> 2 \<le> length xs \<Longrightarrow> (last xs, hd xs) \<in> (use_rel parse ph)\<^sup>+" for xs
  proof (induction xs rule: induct_list012)
    case (3 a b xs)
    have "(b, a) \<in> use_rel parse ph" using "3.prems" by (auto simp: use_rel_def)
    then show ?case using "3.IH"(2) "3.prems" by (cases xs) (auto intro: trancl_into_trancl)
  qed auto
  from this [of c] show ?thesis using assms by (auto simp: use_cycle_def acyclic_def)
qed

text \<open>C40: The cycle check is exact. It reports nothing exactly when, in every section of the flow, the statements do not
  depend on each other in a circle, and every report lists the statements of a real circle of dependencies.\<close>

theorem gen_phase_cycles_exact:
  "(validatePhaseCycles parse fb nodes = [] \<longleftrightarrow> list_all (\<lambda>(p, label). acyclic (use_rel parse (map rf_node (flow_phase nodes p)))) phaseLabels) \<and>
   list_all (\<lambda>(pos, problem). \<exists>p label c. (p, label) \<in> set phaseLabels \<and> use_cycle parse (map rf_node (flow_phase nodes p)) c \<and>
     (pos, problem) = cycle_diag parse fb (flow_phase nodes p) label c) (validatePhaseCycles parse fb nodes)"
proof -
  let ?V = "validatePhaseCycles parse fb nodes"
  have d: "\<exists>p label c. (p, label) \<in> set phaseLabels \<and> use_cycle parse (map rf_node (flow_phase nodes p)) c \<and>
      x = cycle_diag parse fb (flow_phase nodes p) label c" if mem: "x \<in> set ?V" for x
  proof -
    obtain p label c where "(p, label) \<in> set phaseLabels" "phase_cycle parse (map rf_node (flow_phase nodes p)) = Some c"
      "x = cycle_diag parse fb (flow_phase nodes p) label c"
      using mem by (auto simp: validatePhaseCycles_def Let_def split: if_splits option.splits) (rule that, assumption, erule sym, assumption)
    then show ?thesis using phase_cycle_Some by blast
  qed
  have "\<exists>p label. (p, label) \<in> set phaseLabels \<and> \<not> acyclic (use_rel parse (map rf_node (flow_phase nodes p)))" if "?V \<noteq> []"
    using that d [of "hd ?V"] use_cycle_cyclic by fastforce
  then have "?V = [] \<longleftrightarrow> list_all (\<lambda>(p, label). acyclic (use_rel parse (map rf_node (flow_phase nodes p)))) phaseLabels"
    using validatePhaseCycles_acyclic [of parse fb nodes] by (fastforce simp: list_all_iff)
  then show ?thesis using d by (auto simp: list_all_iff)
qed

end
