(* ===== verification/GenWire.thy ===== *)
theory GenWire
  imports GenGraph
begin

text \<open>
  \<open>gen/gen.go\<close>, \<open>scope.go\<close>, \<open>usage.go\<close>, \<open>resolve.go\<close>: how the generator resolves dependencies. A directive registers
  bindings, most of them lazy: a closure that emits the construction of a value when the value is first asked for, and asks
  for what it needs itself. \<open>Instance\<close> and \<open>InstancePath\<close> answer from what is bound or run the closure (\<open>materialize\<close>).

  \<^item> A closure is a program that calls the generator: a value of \<open>prog\<close>, each constructor one call with what follows for
    every answer. It ends by returning an expression with diagnostics, or in a panic. Running it takes a bound on the
    depth of nested materializations; \<open>None\<close> is running out of it. The calls are those that closures in the repository
    make: \<open>Instance\<close>, \<open>InstancePath\<close>, \<open>HasBinding\<close>, \<open>HasBindingPath\<close>, \<open>BindingNames\<close>, \<open>InValidationScope\<close>,
    \<open>SingletonDemanded\<close>, \<open>Context\<close>, \<open>Var\<close>, \<open>Import\<close>, \<open>Bind\<close>, \<open>BindPath\<close>, \<open>BindLazyAt\<close>, \<open>BindLazyPathAt\<close>, \<open>Node\<close>,
    \<open>OnceValue\<close>, \<open>SingletonIn\<close>, \<open>SingletonAttribution\<close>, \<open>BeginBatch\<close>, and reading and writing captured variables.
  \<^item> A closure that a closure registers is named by a number; \<open>g_code\<close> gives its key, position and program. So closures
    may register each other, and themselves, without bound.
  \<^item> What a closure defers (the restore of \<open>SingletonAttribution\<close>, the end of a batch, the reset of a captured variable) is
    done when the part of the program after it ends, by a panic too: the constructor \<open>Bracket\<close>. Every call of
    \<open>SingletonAttribution\<close> and \<open>BeginBatch\<close> in the repository is followed by such a \<open>defer\<close>.
  \<^item> A type is its printed form, which identifies it; \<open>g_display\<close> is the shorter form used in messages.
  \<^item> The active demands and positions are stacks with the top first. \<open>g_runs\<close> records which closures were started and is
    read by no operation. Types noted for signatures and the order of bound expressions, which only the rendering of
    shared functions and of the graph reads, are left out, as is the panic on a registration after \<open>Render\<close>.
\<close>

section \<open>State\<close>

datatype severity = SevError | SevWarning

datatype wire_problem =
    ProviderCycle "string list"
  | NoProvider string string "string list"
  | OnlyNamed string "string list"
  | LazyPanicked string string
  | DuplicateBind string string string string
  | DuplicateLazyBind string string string string
  | DuplicatePathBind string string string
  | OtherProblem string

record wire_diag =
  wd_Severity :: severity
  wd_Pos :: position
  wd_Problem :: wire_problem
  wd_First :: "position option"

definition wire_error :: "position \<Rightarrow> wire_problem \<Rightarrow> wire_diag" where
  "wire_error pos p = \<lparr>wd_Severity = SevError, wd_Pos = pos, wd_Problem = p, wd_First = None\<rparr>"

definition HasFatal :: "wire_diag list \<Rightarrow> bool" where
  "HasFatal ds \<longleftrightarrow> (\<exists>d \<in> set ds. wd_Severity d = SevError)"

datatype bracket = Attribution string | Batch string | ResetVar string string

datatype prog =
    Ret string "wire_diag list"
  | Panic string
  | AskInstance string string "string \<Rightarrow> wire_diag list \<Rightarrow> bool \<Rightarrow> prog"
  | AskPath string "string \<Rightarrow> wire_diag list \<Rightarrow> bool \<Rightarrow> prog"
  | AskBinding string string "bool \<Rightarrow> prog"
  | AskBindingPath string "bool \<Rightarrow> prog"
  | AskOnce string "string option \<Rightarrow> prog"
  | AskContext "string \<Rightarrow> prog"
  | NewVar string "string \<Rightarrow> prog"
  | NewImport string string "string \<Rightarrow> prog"
  | DoBind string string string prog
  | DoBindPath string string prog
  | EmitNode gnode prog
  | PutOnce string string prog
  | NewSingleton phase string string string "string \<Rightarrow> prog"
  | AskNames string "string list \<Rightarrow> prog"
  | AskValidation "bool \<Rightarrow> prog"
  | AskDemanded string "bool \<Rightarrow> prog"
  | GetVar string "string \<Rightarrow> prog"
  | PutVar string string prog
  | Register nat prog
  | Bracket bracket prog "string \<Rightarrow> wire_diag list \<Rightarrow> prog"

record lazy_bind =
  lb_build :: prog
  lb_owner :: string
  lb_pos :: position

text \<open>A lazy binding is registered under one key, which stands for its address.\<close>

datatype lazy_id = LazyType string string | LazyPath string

record lazy_reg =
  lr_id :: lazy_id
  lr_pos :: position
  lr_build :: prog

datatype demand_key = DemandType string string | DemandPath string | DemandCallback string nat | DemandSingleton string

record store_node =
  sn_n :: gnode
  sn_demand :: "demand_key option"
  sn_flow :: string
  sn_pos :: position

record wscope =
  sc_fn :: string
  sc_idents :: "string list"
  sc_reserved :: "string list"
  sc_binds :: "(string \<times> string, string) gomap"
  sc_origins :: "(string \<times> string, string) gomap"
  sc_pathExprs :: "(string, string) gomap"
  sc_singletons :: "(string, string) gomap"
  sc_onceVals :: "(string, string) gomap"
  sc_nodes :: "gnode list"
  sc_running :: "lazy_id set"
  sc_imports :: "(string, string) gomap"
  sc_ctxVar :: string
  sc_validation :: bool

record wgen =
  g_display :: "string \<Rightarrow> string"
  g_code :: "nat \<Rightarrow> lazy_reg option"
  g_vars :: "string \<Rightarrow> string"
  g_imports :: "(string, string) gomap"
  g_idents :: "string list"
  g_aliasIdents :: "string list"
  g_binds :: "(string \<times> string, string) gomap"
  g_origins :: "(string \<times> string, string) gomap"
  g_lazy :: "(string \<times> string, lazy_bind) gomap"
  g_lazyByPath :: "(string, lazy_bind) gomap"
  g_pathExprs :: "(string, string) gomap"
  g_singletons :: "(string, string) gomap"
  g_onceVals :: "(string, string) gomap"
  g_batchID :: string
  g_batchSeq :: int
  g_running :: "lazy_id set"
  g_diagnosed :: "(lazy_id, string) gomap"
  g_ctxVar :: string
  g_current :: string
  g_materializing :: "string list"
  g_scope :: "wscope option"
  g_bindConflicts :: "wire_diag list"
  g_conflictSeen :: "wire_diag list"
  g_demands :: "(demand_key \<times> string) set"
  g_demandEdges :: "(demand_key \<times> demand_key) set"
  g_nodes :: "store_node list"
  g_active :: "demand_key list"
  g_flow :: string
  g_noFlow :: bool
  g_posStack :: "position list"
  g_runs :: "lazy_id list"

definition InValidationScope :: "wgen \<Rightarrow> bool" where
  "InValidationScope g \<longleftrightarrow> (case g_scope g of None \<Rightarrow> False | Some sc \<Rightarrow> sc_validation sc)"

section \<open>Identifiers and imports\<close>

text \<open>The first of \<open>base\<close>, \<open>base2\<close>, \<open>base3\<close>, \<open>\<dots>\<close> that is not taken. One of the first candidates, one more than there are
  taken names, is free.\<close>

definition candidate :: "string \<Rightarrow> nat \<Rightarrow> string" where
  "candidate base n = (if n = 0 then base else base @ nat_digits (n + 1))"

definition fresh :: "string list \<Rightarrow> string \<Rightarrow> string" where
  "fresh taken base = hd (filter (\<lambda>c. c \<notin> set taken) (map (candidate base) [0..<Suc (length taken)]))"

lemma nat_digits_inj: "nat_digits m = nat_digits n \<Longrightarrow> m = n"
  by (drule arg_cong [where f = "parse_digits 0"]) (simp only: parse_nat_digits option.inject)

lemma candidate_inj: "inj (candidate base)"
  by (auto simp: inj_def candidate_def nat_digits_nonempty dest: nat_digits_inj split: if_splits)

lemma fresh_exact: "\<exists>n. fresh taken base = candidate base n \<and> candidate base n \<notin> set taken \<and> (\<forall>m < n. candidate base m \<in> set taken)"
proof -
  let ?N = "Suc (length taken)"
  have "card (candidate base ` {0..<?N}) = ?N" using inj_on_subset [OF candidate_inj] by (simp add: card_image)
  moreover have "card (set taken) < ?N" using card_length [of taken] by simp
  ultimately have "\<not> candidate base ` {0..<?N} \<subseteq> set taken" using card_mono [OF finite_set, of "candidate base ` {0..<?N}" taken] by linarith
  then obtain k where k: "k < ?N" "candidate base k \<notin> set taken" by (meson atLeastLessThan_iff image_subsetI)
  define n where "n = (LEAST n. candidate base n \<notin> set taken)"
  have n: "candidate base n \<notin> set taken" "n \<le> k" using k LeastI [of "\<lambda>n. candidate base n \<notin> set taken" k] Least_le [of "\<lambda>n. candidate base n \<notin> set taken" k]
    by (auto simp: n_def)
  have l: "candidate base m \<in> set taken" if "m < n" for m using not_less_Least [of m "\<lambda>n. candidate base n \<notin> set taken"] that by (simp add: n_def)
  have "[0..<?N] = [0..<n] @ n # [Suc n..<?N]" using k(1) n(2) upt_add_eq_append [of 0 n "?N - n"] by (simp add: upt_conv_Cons)
  then have "fresh taken base = candidate base n" using n(1) l by (simp add: fresh_def filter_map o_def)
  then show ?thesis using n l by blast
qed

definition takeIdent :: "string \<Rightarrow> wgen \<Rightarrow> string \<times> wgen" where
  "takeIdent base g = (let name = fresh (g_idents g) base in (name, g\<lparr>g_idents := name # g_idents g\<rparr>))"

definition genVar :: "string \<Rightarrow> wgen \<Rightarrow> string \<times> wgen" where
  "genVar base g =
    (case g_scope g of
       Some sc \<Rightarrow> (let name = fresh (sc_idents sc @ sc_reserved sc) base in (name, g\<lparr>g_scope := Some (sc\<lparr>sc_idents := name # sc_idents sc\<rparr>)\<rparr>))
     | None \<Rightarrow> takeIdent base g)"

definition importAs :: "string \<Rightarrow> string \<Rightarrow> wgen \<Rightarrow> string \<times> wgen" where
  "importAs path base g =
    (case map_of (g_imports g) path of
       Some a \<Rightarrow> (a, g)
     | None \<Rightarrow>
         (case g_scope g of
            Some sc \<Rightarrow>
              if sc_validation sc then
                (case map_of (sc_imports sc) path of
                   Some a \<Rightarrow> (a, g)
                 | None \<Rightarrow> (base, g\<lparr>g_scope := Some (sc\<lparr>sc_imports := goput path base (sc_imports sc)\<rparr>)\<rparr>))
              else let alias = fresh (g_idents g @ sc_idents sc) base
                in (alias, g\<lparr>g_idents := alias # g_idents g, g_imports := goput path alias (g_imports g), g_aliasIdents := alias # g_aliasIdents g,
                  g_scope := Some (sc\<lparr>sc_idents := alias # sc_idents sc\<rparr>)\<rparr>)
          | None \<Rightarrow>
              let alias = fresh (g_idents g) base
              in (alias, g\<lparr>g_idents := alias # g_idents g, g_imports := goput path alias (g_imports g), g_aliasIdents := alias # g_aliasIdents g\<rparr>)))"

definition gen_Context :: "wgen \<Rightarrow> string \<times> wgen" where
  "gen_Context g =
    (case g_scope g of
       Some sc \<Rightarrow> (sc_ctxVar sc, g)
     | None \<Rightarrow>
         if g_ctxVar g = [] then
           (let (pkg, g1) = importAs ''context'' ''context'' g; (v, g2) = takeIdent ''ctx'' g1 in (v, g2\<lparr>g_ctxVar := v\<rparr>))
         else (g_ctxVar g, g))"

section \<open>Demands\<close>

definition flowID :: "wgen \<Rightarrow> string" where
  "flowID g =
    (case g_scope g of
       Some sc \<Rightarrow> if sc_validation sc then [] else sc_fn sc
     | None \<Rightarrow> if g_flow g \<noteq> [] then g_flow g else if g_noFlow g then [] else ''default'')"

definition recordDemand :: "demand_key \<Rightarrow> wgen \<Rightarrow> wgen" where
  "recordDemand k g =
    (let g1 = (case g_active g of
           parent # _ \<Rightarrow> if parent \<noteq> k then g\<lparr>g_demandEdges := insert (parent, k) (g_demandEdges g)\<rparr> else g
         | [] \<Rightarrow> g)
     in if flowID g = [] then g1 else g1\<lparr>g_demands := insert (k, flowID g) (g_demands g)\<rparr>)"

text \<open>Emission fills in the directive, the place in the open batch and, in a \<open>Select\<close>, the phases its parts inherit.\<close>

primrec map_base :: "(nbase \<Rightarrow> nbase) \<Rightarrow> gnode \<Rightarrow> gnode" where
  "map_base f (Raw b ls ds c) = Raw (f b) ls ds c"
| "map_base f (Assign b v e) = Assign (f b) v e"
| "map_base f (Call c) = Call (c\<lparr>cl_Base := f (cl_Base c)\<rparr>)"
| "map_base f (ConfigLoad b v p t pre os) = ConfigLoad (f b) v p t pre os"
| "map_base f (StructLit b v t fls) = StructLit (f b) v t fls"
| "map_base f (Select b v i k e cs) = Select (f b) v i k e cs"
| "map_base f (Route b r k m p h ch) = Route (f b) r k m p h ch"

lemma map_base_size [simp]: "size (map_base f n) = size n"
  by (cases n) simp_all

lemma node_base_map [simp]: "node_base (map_base f n) = f (node_base n)"
  by (cases n) simp_all

definition inherit_phase :: "phase \<Rightarrow> nbase \<Rightarrow> nbase" where
  "inherit_phase p b = (if nb_Phase b = 0 then b\<lparr>nb_Phase := p\<rparr> else b)"

function stampSelectPhases :: "gnode \<Rightarrow> gnode" where
  "stampSelectPhases (Select b v i k e cs) =
    Select b v i k e (map (\<lambda>(val, body, res).
      (val, map (\<lambda>c. stampSelectPhases (map_base (inherit_phase (nb_Phase b)) c)) body, res\<lparr>cl_Base := inherit_phase (nb_Phase b) (cl_Base res)\<rparr>)) cs)"
| "stampSelectPhases (Raw b ls ds c) = Raw b ls ds c"
| "stampSelectPhases (Assign b v x) = Assign b v x"
| "stampSelectPhases (Call cl) = Call cl"
| "stampSelectPhases (ConfigLoad b v p t pre os) = ConfigLoad b v p t pre os"
| "stampSelectPhases (StructLit b v t fls) = StructLit b v t fls"
| "stampSelectPhases (Route b r kd m p h ch) = Route b r kd m p h ch"
  by pat_completeness auto

termination
proof (relation "measure size")
  fix b v i k e and cs :: "(string \<times> gnode list \<times> gcall) list" and x val y body res c
  assume "x \<in> set cs" "(val, y) = x" "(body, res) = y" "c \<in> set body"
  then have "c \<in> set (select_children (Select b v i k e cs))" by (auto simp: select_children_def)
  then show "(map_base (inherit_phase (nb_Phase b)) c, Select b v i k e cs) \<in> measure size" using select_children_size [of c "Select b v i k e cs"] by simp
qed simp

definition stamp_base :: "wgen \<Rightarrow> nbase \<Rightarrow> nbase" where
  "stamp_base g b =
    (let b1 = (if or_Directive (nb_Origin b) = [] then b\<lparr>nb_Origin := (nb_Origin b)\<lparr>or_Directive := g_current g\<rparr>\<rparr> else b)
     in if g_batchID g \<noteq> [] \<and> nb_Batch b1 = [] then b1\<lparr>nb_Batch := g_batchID g, nb_Seq := g_batchSeq g + 1\<rparr> else b1)"

definition emit_node :: "gnode \<Rightarrow> wgen \<Rightarrow> wgen" where
  "emit_node n g =
    (let n1 = stampSelectPhases (map_base (stamp_base g) n);
         g1 = (if g_batchID g \<noteq> [] \<and> nb_Batch (node_base n) = [] then g\<lparr>g_batchSeq := g_batchSeq g + 1\<rparr> else g);
         sn = \<lparr>sn_n = n1, sn_demand = (case g_active g of [] \<Rightarrow> None | k # _ \<Rightarrow> Some k), sn_flow = g_flow g,
           sn_pos = (case g_posStack g of [] \<Rightarrow> noPos | p # _ \<Rightarrow> p)\<rparr>
     in case g_scope g of
          Some sc \<Rightarrow>
            if sc_validation sc then g1\<lparr>g_scope := Some (sc\<lparr>sc_nodes := sc_nodes sc @ [n1]\<rparr>)\<rparr>
            else g1\<lparr>g_nodes := g_nodes g @ [sn]\<rparr>
        | None \<Rightarrow> g1\<lparr>g_nodes := g_nodes g @ [sn]\<rparr>)"

text \<open>\<open>BeginBatch\<close> returns what its closing function restores.\<close>

definition BeginBatch :: "string \<Rightarrow> wgen \<Rightarrow> (string \<times> int) \<times> wgen" where
  "BeginBatch bid g = ((g_batchID g, g_batchSeq g), g\<lparr>g_batchID := bid, g_batchSeq := 0\<rparr>)"

definition end_batch :: "string \<times> int \<Rightarrow> wgen \<Rightarrow> wgen" where
  "end_batch prev g = g\<lparr>g_batchID := fst prev, g_batchSeq := snd prev\<rparr>"

text \<open>\<open>OnceValue\<close> is a look into its cache and, after the closure, an entry.\<close>

definition once_get :: "string \<Rightarrow> wgen \<Rightarrow> string option" where
  "once_get key g = map_of (case g_scope g of Some sc \<Rightarrow> sc_onceVals sc | None \<Rightarrow> g_onceVals g) key"

definition once_put :: "string \<Rightarrow> string \<Rightarrow> wgen \<Rightarrow> wgen" where
  "once_put key v g =
    (case g_scope g of
       Some sc \<Rightarrow> g\<lparr>g_scope := Some (sc\<lparr>sc_onceVals := goput key v (sc_onceVals sc)\<rparr>)\<rparr>
     | None \<Rightarrow> g\<lparr>g_onceVals := goput key v (g_onceVals g)\<rparr>)"

definition singleton_put :: "string \<Rightarrow> string \<Rightarrow> wgen \<Rightarrow> wgen" where
  "singleton_put key v g =
    (case g_scope g of
       Some sc \<Rightarrow> g\<lparr>g_scope := Some (sc\<lparr>sc_singletons := goput key v (sc_singletons sc)\<rparr>)\<rparr>
     | None \<Rightarrow> g\<lparr>g_singletons := goput key v (g_singletons g)\<rparr>)"

definition phase_base :: "phase \<Rightarrow> nbase" where
  "phase_base p = \<lparr>nb_Origin = \<lparr>or_Directive = [], or_Pos = noPos\<rparr>, nb_Phase = p, nb_Label = [], nb_Uses = [], nb_Batch = [], nb_Seq = 0, nb_Group = []\<rparr>"

definition SingletonIn :: "phase \<Rightarrow> string \<Rightarrow> string \<Rightarrow> string \<Rightarrow> wgen \<Rightarrow> string \<times> wgen" where
  "SingletonIn phase key varName ctor g =
    (let dk = DemandSingleton key; g1 = recordDemand dk g; g2 = g1\<lparr>g_active := dk # g_active g1\<rparr>;
         (v, g3) =
           (case map_of (case g_scope g of Some sc \<Rightarrow> sc_singletons sc | None \<Rightarrow> g_singletons g) key of
              Some v \<Rightarrow> (v, g2)
            | None \<Rightarrow> (let (v, h) = genVar varName g2 in (v, emit_node (Assign (phase_base phase) v ctor) (singleton_put key v h))))
     in (v, g3\<lparr>g_active := tl (g_active g3)\<rparr>))"

section \<open>Bindings\<close>

text \<open>The help of a conflict names the first declaration, when that has a position. Two conflicts are the same when
  position, message and help are.\<close>

definition recordBindConflict :: "position \<Rightarrow> wire_problem \<Rightarrow> position \<Rightarrow> wgen \<Rightarrow> wgen" where
  "recordBindConflict pos p first g =
    (let d = (wire_error pos p)\<lparr>wd_First := if pos_IsValid first then Some first else None\<rparr>
     in if d \<in> set (g_conflictSeen g) then g
        else g\<lparr>g_conflictSeen := d # g_conflictSeen g, g_bindConflicts := g_bindConflicts g @ [d]\<rparr>)"

definition BindConflicts :: "wgen \<Rightarrow> wire_diag list \<times> wgen" where
  "BindConflicts g = (g_bindConflicts g, g\<lparr>g_bindConflicts := []\<rparr>)"

definition Bind :: "string \<Rightarrow> string \<Rightarrow> string \<Rightarrow> wgen \<Rightarrow> wgen" where
  "Bind t name expr g =
    (let binds = (case g_scope g of Some sc \<Rightarrow> sc_binds sc | None \<Rightarrow> g_binds g);
         origins = (case g_scope g of Some sc \<Rightarrow> sc_origins sc | None \<Rightarrow> g_origins g)
     in if map_of binds (t, name) \<noteq> None then
          recordBindConflict noPos (DuplicateBind t name (g_current g)
            (case map_of origins (t, name) of Some w \<Rightarrow> w | None \<Rightarrow> [])) noPos g
        else case g_scope g of
            Some sc \<Rightarrow> g\<lparr>g_scope := Some (sc\<lparr>sc_binds := goput (t, name) expr (sc_binds sc), sc_origins := goput (t, name) (g_current g) (sc_origins sc)\<rparr>)\<rparr>
          | None \<Rightarrow> g\<lparr>g_binds := goput (t, name) expr (g_binds g), g_origins := goput (t, name) (g_current g) (g_origins g)\<rparr>)"

definition BindPath :: "string \<Rightarrow> string \<Rightarrow> wgen \<Rightarrow> wgen" where
  "BindPath path expr g =
    (case g_scope g of
       Some sc \<Rightarrow> g\<lparr>g_scope := Some (sc\<lparr>sc_pathExprs := goput path expr (sc_pathExprs sc)\<rparr>)\<rparr>
     | None \<Rightarrow> g\<lparr>g_pathExprs := goput path expr (g_pathExprs g)\<rparr>)"

definition BindLazyAt :: "string \<Rightarrow> string \<Rightarrow> position \<Rightarrow> prog \<Rightarrow> wgen \<Rightarrow> wgen" where
  "BindLazyAt t name pos build g =
    (case map_of (g_lazy g) (t, name) of
       Some first \<Rightarrow> recordBindConflict pos (DuplicateLazyBind t name (g_current g) (lb_owner first)) (lb_pos first) g
     | None \<Rightarrow> g\<lparr>g_lazy := goput (t, name) \<lparr>lb_build = build, lb_owner = g_current g, lb_pos = pos\<rparr> (g_lazy g)\<rparr>)"

definition BindLazyPathAt :: "string \<Rightarrow> position \<Rightarrow> prog \<Rightarrow> wgen \<Rightarrow> wgen" where
  "BindLazyPathAt path pos build g =
    (case map_of (g_lazyByPath g) path of
       Some first \<Rightarrow> recordBindConflict pos (DuplicatePathBind path (g_current g) (lb_owner first)) (lb_pos first) g
     | None \<Rightarrow> g\<lparr>g_lazyByPath := goput path \<lparr>lb_build = build, lb_owner = g_current g, lb_pos = pos\<rparr> (g_lazyByPath g)\<rparr>)"

definition typeBound :: "string \<Rightarrow> string \<Rightarrow> wgen \<Rightarrow> bool" where
  "typeBound t name g \<longleftrightarrow> map_of (case g_scope g of Some sc \<Rightarrow> sc_binds sc | None \<Rightarrow> g_binds g) (t, name) \<noteq> None"

definition HasBinding :: "string \<Rightarrow> string \<Rightarrow> wgen \<Rightarrow> bool" where
  "HasBinding t name g \<longleftrightarrow> typeBound t name g \<or>
     name = [] \<and> (map_of (case g_scope g of Some sc \<Rightarrow> sc_pathExprs sc | None \<Rightarrow> g_pathExprs g) t \<noteq> None \<or> map_of (g_lazyByPath g) t \<noteq> None) \<or>
     map_of (g_lazy g) (t, name) \<noteq> None"

definition HasBindingPath :: "string \<Rightarrow> wgen \<Rightarrow> bool" where
  "HasBindingPath path g \<longleftrightarrow>
     map_of (case g_scope g of Some sc \<Rightarrow> sc_pathExprs sc | None \<Rightarrow> g_pathExprs g) path \<noteq> None \<or> map_of (g_lazyByPath g) path \<noteq> None"

definition BindingNames :: "string \<Rightarrow> wgen \<Rightarrow> string list" where
  "BindingNames t g =
    (let names_of = (\<lambda>ks. map snd (filter (\<lambda>k. fst k = t) ks));
         bound = (case g_scope g of Some sc \<Rightarrow> map fst (sc_binds sc) | None \<Rightarrow> map fst (g_binds g));
         paths = (case g_scope g of Some sc \<Rightarrow> sc_pathExprs sc | None \<Rightarrow> g_pathExprs g)
     in sort (remdups (names_of bound @ (if map_of paths t \<noteq> None \<or> map_of (g_lazyByPath g) t \<noteq> None then [[]] else []) @
          names_of (map fst (g_lazy g)))))"

definition SingletonDemanded :: "string \<Rightarrow> wgen \<Rightarrow> bool" where
  "SingletonDemanded key g \<longleftrightarrow>
     DemandSingleton key \<in> fst ` g_demands g \<and> (flowID g = [] \<or> (DemandSingleton key, flowID g) \<in> g_demands g)"

definition register :: "nat \<Rightarrow> wgen \<Rightarrow> wgen" where
  "register c g =
    (case g_code g c of
       None \<Rightarrow> g
     | Some r \<Rightarrow>
         (case lr_id r of
            LazyType t name \<Rightarrow> BindLazyAt t name (lr_pos r) (lr_build r) g
          | LazyPath path \<Rightarrow> BindLazyPathAt path (lr_pos r) (lr_build r) g))"

section \<open>What closures defer\<close>

definition SingletonAttribution :: "string \<Rightarrow> wgen \<Rightarrow> wgen" where
  "SingletonAttribution key g = (let g1 = recordDemand (DemandSingleton key) g in g1\<lparr>g_active := DemandSingleton key # g_active g1\<rparr>)"

definition open_bracket :: "bracket \<Rightarrow> wgen \<Rightarrow> wgen" where
  "open_bracket b g = (case b of Attribution key \<Rightarrow> SingletonAttribution key g | Batch bid \<Rightarrow> snd (BeginBatch bid g) | ResetVar x v \<Rightarrow> g)"

text \<open>\<open>g\<close> is the state in which the bracket was opened.\<close>

definition close_bracket :: "bracket \<Rightarrow> wgen \<Rightarrow> wgen \<Rightarrow> wgen" where
  "close_bracket b g h =
    (case b of
       Attribution key \<Rightarrow> h\<lparr>g_active := tl (g_active h)\<rparr>
     | Batch bid \<Rightarrow> end_batch (fst (BeginBatch bid g)) h
     | ResetVar x v \<Rightarrow> h\<lparr>g_vars := (g_vars h)(x := v)\<rparr>)"

section \<open>Materialization\<close>

datatype outcome = Returned string "wire_diag list" | Panicked string

type_synonym runner = "prog \<Rightarrow> wgen \<Rightarrow> (outcome \<times> wgen) option"

type_synonym answer = "string \<times> wire_diag list \<times> bool"

definition lazyRunning :: "lazy_id \<Rightarrow> wgen \<Rightarrow> bool" where
  "lazyRunning i g \<longleftrightarrow> i \<in> (case g_scope g of Some sc \<Rightarrow> sc_running sc | None \<Rightarrow> g_running g)"

definition setLazyRunning :: "lazy_id \<Rightarrow> bool \<Rightarrow> wgen \<Rightarrow> wgen" where
  "setLazyRunning i v g =
    (let upd = (\<lambda>S. if v then insert i S else S - {i}) in
     case g_scope g of
       Some sc \<Rightarrow> g\<lparr>g_scope := Some (sc\<lparr>sc_running := upd (sc_running sc)\<rparr>)\<rparr>
     | None \<Rightarrow> g\<lparr>g_running := upd (g_running g)\<rparr>)"

definition cycleDiag :: "string \<Rightarrow> wgen \<Rightarrow> wire_diag" where
  "cycleDiag key g =
    (let tail = dropWhile (\<lambda>k. k \<noteq> key) (g_materializing g); chain = (if tail = [] then g_materializing g else tail)
     in wire_error noPos (ProviderCycle (chain @ [key])))"

text \<open>What both kinds of materialization do around a closure: mark it as running, push the frames of the stacks, run it,
  and take them off again whatever happened. \<open>after\<close> is what is done with its result before the frames come off.\<close>

definition enter_build :: "lazy_id \<Rightarrow> string \<Rightarrow> lazy_bind \<Rightarrow> demand_key \<Rightarrow> wgen \<Rightarrow> wgen" where
  "enter_build i key lb dk g =
    (let g1 = setLazyRunning i True g
     in g1\<lparr>g_materializing := g_materializing g1 @ [key], g_current := lb_owner lb, g_active := dk # g_active g1,
           g_posStack := (if pos_IsValid (lb_pos lb) then lb_pos lb # g_posStack g1 else g_posStack g1), g_runs := g_runs g1 @ [i]\<rparr>)"

definition leave_build :: "lazy_id \<Rightarrow> string \<Rightarrow> lazy_bind \<Rightarrow> wgen \<Rightarrow> wgen" where
  "leave_build i prev lb g =
    setLazyRunning i False
      (g\<lparr>g_posStack := (if pos_IsValid (lb_pos lb) then tl (g_posStack g) else g_posStack g), g_active := tl (g_active g), g_current := prev,
         g_materializing := butlast (g_materializing g)\<rparr>)"

definition mark_diagnosed :: "lazy_id \<Rightarrow> string \<Rightarrow> wgen \<Rightarrow> wgen" where
  "mark_diagnosed i expr g = (if InValidationScope g then g else g\<lparr>g_diagnosed := goput i expr (g_diagnosed g)\<rparr>)"

definition run_build :: "runner \<Rightarrow> lazy_id \<Rightarrow> string \<Rightarrow> lazy_bind \<Rightarrow> demand_key \<Rightarrow> (string \<Rightarrow> wire_diag list \<Rightarrow> wgen \<Rightarrow> wgen) \<Rightarrow> wgen \<Rightarrow> (answer \<times> wgen) option" where
  "run_build run i key lb dk after g =
    (case run (lb_build lb) (enter_build i key lb dk g) of
       None \<Rightarrow> None
     | Some (Returned expr ds, g1) \<Rightarrow>
         (let g2 = (if HasFatal ds then mark_diagnosed i expr g1 else g1)
          in Some ((expr, ds, True), leave_build i (g_current g) lb (after expr ds g2)))
     | Some (Panicked msg, g1) \<Rightarrow>
         Some (([], [wire_error noPos (LazyPanicked (lb_owner lb) msg)], False), leave_build i (g_current g) lb (mark_diagnosed i [] g1)))"

definition bind_unless :: "string \<Rightarrow> string \<Rightarrow> string \<Rightarrow> wgen \<Rightarrow> wgen" where
  "bind_unless t name expr g = (if typeBound t name g then g else Bind t name expr g)"

definition materialize :: "runner \<Rightarrow> string \<Rightarrow> string \<Rightarrow> lazy_id \<Rightarrow> lazy_bind \<Rightarrow> demand_key \<Rightarrow> wgen \<Rightarrow> (answer \<times> wgen) option" where
  "materialize run t name i lb dk g =
    (case map_of (g_diagnosed g) i of
       Some dexpr \<Rightarrow> Some ((dexpr, [], True), bind_unless t name dexpr g)
     | None \<Rightarrow>
         (let chainKey = g_display g t @ (if name \<noteq> [] then '' ('' @ name @ '')'' else []) in
          if lazyRunning i g then Some (([], [cycleDiag chainKey g], False), g)
          else run_build run i chainKey lb dk (\<lambda>expr ds. bind_unless t name expr) (recordDemand dk g)))"

definition materializePath :: "runner \<Rightarrow> string \<Rightarrow> wgen \<Rightarrow> (answer \<times> wgen) option" where
  "materializePath run path g =
    (case map_of (g_lazyByPath g) path of
       None \<Rightarrow> Some (([], [], False), g)
     | Some lb \<Rightarrow>
         (let g1 = recordDemand (DemandPath path) g in
          case map_of (g_diagnosed g1) (LazyPath path) of
            Some dexpr \<Rightarrow> Some ((dexpr, [], True), g1)
          | None \<Rightarrow>
              if lazyRunning (LazyPath path) g1 then Some (([], [cycleDiag path g1], False), g1)
              else run_build run (LazyPath path) path lb (DemandPath path) (\<lambda>expr ds g. if ds = [] then BindPath path expr g else g) g1))"

definition instance_path_first :: "runner \<Rightarrow> string \<Rightarrow> lazy_bind \<Rightarrow> wgen \<Rightarrow> (answer \<times> wgen) option" where
  "instance_path_first run t lb g =
    (case materialize run t [] (LazyPath t) lb (DemandPath t) g of
       None \<Rightarrow> None
     | Some ((expr, ds, ok), g1) \<Rightarrow> Some ((expr, ds, ok), if ok \<and> ds = [] then BindPath t expr g1 else g1))"

definition instance_lazy :: "runner \<Rightarrow> string \<Rightarrow> string \<Rightarrow> wgen \<Rightarrow> (answer \<times> wgen) option" where
  "instance_lazy run t name g =
    (case map_of (g_lazy g) (t, name) of
       Some lb \<Rightarrow> materialize run t name (LazyType t name) lb (DemandType t name) g
     | None \<Rightarrow> Some (([], [], False), g))"

definition bound_demand :: "string \<Rightarrow> string \<Rightarrow> wgen \<Rightarrow> wgen" where
  "bound_demand t name g =
    (let g1 = (if map_of (g_lazy g) (t, name) \<noteq> None then recordDemand (DemandType t name) g else g)
     in if name = [] \<and> map_of (g_lazyByPath g) t \<noteq> None then recordDemand (DemandPath t) g1 else g1)"

definition Instance :: "runner \<Rightarrow> string \<Rightarrow> string \<Rightarrow> wgen \<Rightarrow> (answer \<times> wgen) option" where
  "Instance run t name g =
    (case g_scope g of
       Some sc \<Rightarrow>
         (case map_of (sc_binds sc) (t, name) of
            Some expr \<Rightarrow> Some ((expr, [], True), g)
          | None \<Rightarrow>
              (case (if name = [] then map_of (sc_pathExprs sc) t else None) of
                 Some expr \<Rightarrow> Some ((expr, [], True), Bind t name expr g)
               | None \<Rightarrow>
                   (case (if name = [] then map_of (g_lazyByPath g) t else None) of
                      Some lb \<Rightarrow> instance_path_first run t lb g
                    | None \<Rightarrow> instance_lazy run t name g)))
     | None \<Rightarrow>
         (case map_of (g_binds g) (t, name) of
            Some expr \<Rightarrow> Some ((expr, [], True), bound_demand t name g)
          | None \<Rightarrow>
              (case (if name = [] then map_of (g_pathExprs g) t else None) of
                 Some expr \<Rightarrow> Some ((expr, [], True), Bind t name expr (recordDemand (DemandPath t) g))
               | None \<Rightarrow>
                   (case (if name = [] then map_of (g_lazyByPath g) t else None) of
                      Some lb \<Rightarrow> instance_path_first run t lb g
                    | None \<Rightarrow> instance_lazy run t name g))))"

definition InstancePath :: "runner \<Rightarrow> string \<Rightarrow> wgen \<Rightarrow> (answer \<times> wgen) option" where
  "InstancePath run path g =
    (case g_scope g of
       Some sc \<Rightarrow> (case map_of (sc_pathExprs sc) path of Some expr \<Rightarrow> Some ((expr, [], True), g) | None \<Rightarrow> materializePath run path g)
     | None \<Rightarrow>
         (case map_of (g_pathExprs g) path of
            Some expr \<Rightarrow> Some ((expr, [], True), recordDemand (DemandPath path) g)
          | None \<Rightarrow> materializePath run path g))"

section \<open>Running closures\<close>

primrec run_with :: "runner \<Rightarrow> prog \<Rightarrow> wgen \<Rightarrow> (outcome \<times> wgen) option" where
  "run_with run (Ret expr ds) = (\<lambda>g. Some (Returned expr ds, g))"
| "run_with run (Panic msg) = (\<lambda>g. Some (Panicked msg, g))"
| "run_with run (AskInstance t name k) = (\<lambda>g. case Instance run t name g of None \<Rightarrow> None | Some ((expr, ds, ok), g1) \<Rightarrow> run_with run (k expr ds ok) g1)"
| "run_with run (AskPath path k) = (\<lambda>g. case InstancePath run path g of None \<Rightarrow> None | Some ((expr, ds, ok), g1) \<Rightarrow> run_with run (k expr ds ok) g1)"
| "run_with run (AskBinding t name k) = (\<lambda>g. run_with run (k (HasBinding t name g)) g)"
| "run_with run (AskContext k) = (\<lambda>g. let (v, g1) = gen_Context g in run_with run (k v) g1)"
| "run_with run (NewVar base k) = (\<lambda>g. let (v, g1) = genVar base g in run_with run (k v) g1)"
| "run_with run (NewImport path base k) = (\<lambda>g. let (a, g1) = importAs path base g in run_with run (k a) g1)"
| "run_with run (DoBind t name expr k) = (\<lambda>g. run_with run k (Bind t name expr g))"
| "run_with run (DoBindPath path expr k) = (\<lambda>g. run_with run k (BindPath path expr g))"
| "run_with run (EmitNode n k) = (\<lambda>g. run_with run k (emit_node n g))"
| "run_with run (AskBindingPath path k) = (\<lambda>g. run_with run (k (HasBindingPath path g)) g)"
| "run_with run (AskOnce key k) = (\<lambda>g. run_with run (k (once_get key g)) g)"
| "run_with run (PutOnce key v k) = (\<lambda>g. run_with run k (once_put key v g))"
| "run_with run (NewSingleton p key base ctor k) = (\<lambda>g. let (v, g1) = SingletonIn p key base ctor g in run_with run (k v) g1)"
| "run_with run (AskNames t k) = (\<lambda>g. run_with run (k (BindingNames t g)) g)"
| "run_with run (AskValidation k) = (\<lambda>g. run_with run (k (InValidationScope g)) g)"
| "run_with run (AskDemanded key k) = (\<lambda>g. run_with run (k (SingletonDemanded key g)) g)"
| "run_with run (GetVar x k) = (\<lambda>g. run_with run (k (g_vars g x)) g)"
| "run_with run (PutVar x v k) = (\<lambda>g. run_with run k (g\<lparr>g_vars := (g_vars g)(x := v)\<rparr>))"
| "run_with run (Register c k) = (\<lambda>g. run_with run k (register c g))"
| "run_with run (Bracket b body k) =
    (\<lambda>g. case run_with run body (open_bracket b g) of
           None \<Rightarrow> None
         | Some (Returned expr ds, g1) \<Rightarrow> run_with run (k expr ds) (close_bracket b g g1)
         | Some (Panicked msg, g1) \<Rightarrow> Some (Panicked msg, close_bracket b g g1))"

primrec exec :: "nat \<Rightarrow> runner" where
  "exec 0 = (\<lambda>p g. None)"
| "exec (Suc n) = run_with (exec n)"

section \<open>What running closures leaves as it was\<close>

definition running_ids :: "wgen \<Rightarrow> lazy_id set" where
  "running_ids g = (case g_scope g of Some sc \<Rightarrow> sc_running sc | None \<Rightarrow> g_running g)"

definition ids_of :: "(string \<times> string, lazy_bind) gomap \<Rightarrow> (string, lazy_bind) gomap \<Rightarrow> lazy_id set" where
  "ids_of lz pl = (\<lambda>k. LazyType (fst k) (snd k)) ` dom (map_of lz) \<union> LazyPath ` dom (map_of pl)"

text \<open>Registrations stay, and are added only under the keys of closures that can be registered.\<close>

definition kept :: "wgen \<Rightarrow> wgen \<Rightarrow> bool" where
  "kept g g' \<longleftrightarrow> map_of (g_lazy g) \<subseteq>\<^sub>m map_of (g_lazy g') \<and> map_of (g_lazyByPath g) \<subseteq>\<^sub>m map_of (g_lazyByPath g') \<and>
     ids_of (g_lazy g') (g_lazyByPath g') \<subseteq> ids_of (g_lazy g) (g_lazyByPath g) \<union> lr_id ` ran (g_code g) \<and> g_code g' = g_code g \<and>
     running_ids g' = running_ids g \<and> g_materializing g' = g_materializing g \<and>
     g_current g' = g_current g \<and> g_active g' = g_active g \<and> g_posStack g' = g_posStack g \<and> g_flow g' = g_flow g \<and> g_noFlow g' = g_noFlow g \<and>
     g_display g' = g_display g \<and> (g_scope g' = None \<longleftrightarrow> g_scope g = None) \<and> (InValidationScope g' \<longleftrightarrow> InValidationScope g)"

named_theorems wire_ops

lemmas wire_op_defs [wire_ops] = recordDemand_def recordBindConflict_def Bind_def BindPath_def emit_node_def takeIdent_def genVar_def importAs_def gen_Context_def
  bound_demand_def bind_unless_def mark_diagnosed_def Let_def

lemma kept_refl: "kept g g"
  by (simp add: kept_def)

lemma kept_trans: "kept a b \<Longrightarrow> kept b c \<Longrightarrow> kept a c"
proof -
  assume a: "kept a b" "kept b c"
  have "map_of (g_lazy a) \<subseteq>\<^sub>m map_of (g_lazy c)" "map_of (g_lazyByPath a) \<subseteq>\<^sub>m map_of (g_lazyByPath c)"
    using a unfolding kept_def by (meson map_le_trans)+
  moreover have "ids_of (g_lazy c) (g_lazyByPath c) \<subseteq> ids_of (g_lazy b) (g_lazyByPath b) \<union> lr_id ` ran (g_code b)" "g_code b = g_code a"
    "ids_of (g_lazy b) (g_lazyByPath b) \<subseteq> ids_of (g_lazy a) (g_lazyByPath a) \<union> lr_id ` ran (g_code a)" using a by (simp_all add: kept_def)
  then have "ids_of (g_lazy c) (g_lazyByPath c) \<subseteq> ids_of (g_lazy a) (g_lazyByPath a) \<union> lr_id ` ran (g_code a)" by auto
  ultimately show ?thesis using a by (simp add: kept_def)
qed

lemma kept_recordDemand: "kept g (recordDemand k g)"
  by (auto simp: kept_def wire_ops running_ids_def InValidationScope_def split: list.splits option.splits)

lemma kept_Bind: "kept g (Bind t name expr g)"
  by (auto simp: kept_def wire_ops running_ids_def InValidationScope_def split: option.splits)

lemma kept_BindPath: "kept g (BindPath path expr g)"
  by (auto simp: kept_def wire_ops running_ids_def InValidationScope_def split: option.splits)

lemma kept_emit: "kept g (emit_node n g)"
  by (auto simp: kept_def wire_ops running_ids_def InValidationScope_def split: option.splits)

lemma kept_takeIdent: "takeIdent base g = (v, g') \<Longrightarrow> kept g g'"
  by (auto simp: kept_def wire_ops running_ids_def InValidationScope_def split: option.splits)

lemma kept_genVar: "genVar base g = (v, g') \<Longrightarrow> kept g g'"
  by (auto simp: kept_def wire_ops running_ids_def InValidationScope_def split: option.splits)

lemma kept_importAs: "importAs path base g = (v, g') \<Longrightarrow> kept g g'"
  by (auto simp: kept_def wire_ops running_ids_def InValidationScope_def split: option.splits if_splits)

lemma kept_Context: "gen_Context g = (v, g') \<Longrightarrow> kept g g'"
proof -
  assume c: "gen_Context g = (v, g')"
  obtain a g1 where 1: "importAs ''context'' ''context'' g = (a, g1)" by (rule prod.exhaust)
  obtain w g2 where 2: "takeIdent ''ctx'' g1 = (w, g2)" by (rule prod.exhaust)
  have "kept g2 (g2\<lparr>g_ctxVar := w\<rparr>)" by (simp add: kept_def running_ids_def InValidationScope_def split: option.split)
  then have "kept g (g2\<lparr>g_ctxVar := w\<rparr>)" by (rule kept_trans [OF kept_trans [OF kept_importAs [OF 1] kept_takeIdent [OF 2]]])
  then show ?thesis using c 1 2 by (auto simp: gen_Context_def kept_refl split: option.splits if_splits)
qed

lemma kept_once_put: "kept g (once_put key v g)"
  by (auto simp: kept_def once_put_def running_ids_def InValidationScope_def split: option.splits)

lemma kept_singleton_put: "kept g (singleton_put key v g)"
  by (auto simp: kept_def singleton_put_def running_ids_def InValidationScope_def split: option.splits)

lemma kept_batch: "kept g (end_batch prev g)" "BeginBatch bid g = (prev, g') \<Longrightarrow> kept g g'"
  by (auto simp: kept_def end_batch_def BeginBatch_def running_ids_def InValidationScope_def split: option.splits)

lemma active_update [simp]: "running_ids (g\<lparr>g_active := a\<rparr>) = running_ids g" "InValidationScope (g\<lparr>g_active := a\<rparr>) = InValidationScope g"
  by (simp_all add: running_ids_def InValidationScope_def split: option.split)

lemma kept_Singleton:
  assumes "SingletonIn p key base ctor g = (v, g')"
  shows "kept g g'"
proof -
  let ?d = "recordDemand (DemandSingleton key) g"
  let ?p = "?d\<lparr>g_active := DemandSingleton key # g_active ?d\<rparr>"
  obtain h where h: "kept ?p h" and g': "g' = h\<lparr>g_active := tl (g_active h)\<rparr>"
  proof (cases "map_of (case g_scope g of Some sc \<Rightarrow> sc_singletons sc | None \<Rightarrow> g_singletons g) key")
    case None
    obtain w k where k: "genVar base ?p = (w, k)" by (rule prod.exhaust)
    have "kept ?p (emit_node (Assign (phase_base p) w ctor) (singleton_put key w k))"
      by (rule kept_trans [OF kept_genVar [OF k] kept_trans [OF kept_singleton_put kept_emit]])
    then show ?thesis using that assms None k by (auto simp: SingletonIn_def Let_def)
  next
    case (Some w)
    then show ?thesis using that [OF kept_refl] assms by (auto simp: SingletonIn_def Let_def)
  qed
  have "kept ?d g'" using h unfolding kept_def g' by simp
  then show ?thesis using kept_recordDemand kept_trans by blast
qed

lemma kept_vars: "kept g (g\<lparr>g_vars := f\<rparr>)"
  by (simp add: kept_def running_ids_def InValidationScope_def split: option.split)

lemma kept_conflict: "kept g (recordBindConflict pos p first g)"
  by (simp add: kept_def recordBindConflict_def running_ids_def InValidationScope_def Let_def split: option.split)

lemma kept_BindLazyAt:
  assumes "LazyType t name \<in> lr_id ` ran (g_code g)"
  shows "kept g (BindLazyAt t name pos build g)"
proof (cases "map_of (g_lazy g) (t, name)")
  case None
  then show ?thesis using assms
    by (auto simp: kept_def BindLazyAt_def ids_of_def map_le_def running_ids_def InValidationScope_def split: if_splits option.splits)
qed (simp add: BindLazyAt_def kept_conflict)

lemma kept_BindLazyPathAt:
  assumes "LazyPath path \<in> lr_id ` ran (g_code g)"
  shows "kept g (BindLazyPathAt path pos build g)"
proof (cases "map_of (g_lazyByPath g) path")
  case None
  then show ?thesis using assms
    by (auto simp: kept_def BindLazyPathAt_def ids_of_def map_le_def running_ids_def InValidationScope_def split: if_splits option.splits)
qed (simp add: BindLazyPathAt_def kept_conflict)

lemma kept_register: "kept g (register c g)"
proof (cases "g_code g c")
  case (Some r)
  then have "lr_id r \<in> lr_id ` ran (g_code g)" by (auto intro: ranI)
  then show ?thesis using Some by (cases "lr_id r") (simp_all add: register_def kept_BindLazyAt kept_BindLazyPathAt)
qed (simp add: register_def kept_refl)

lemma kept_bracket:
  assumes "kept (open_bracket b g) h"
  shows "kept g (close_bracket b g h)"
proof (cases b)
  case (Attribution key)
  let ?d = "recordDemand (DemandSingleton key) g"
  have "kept ?d (close_bracket b g h)" using assms unfolding kept_def Attribution
    by (simp add: open_bracket_def close_bracket_def SingletonAttribution_def Let_def)
  then show ?thesis using kept_recordDemand kept_trans by blast
next
  case (Batch bid)
  then show ?thesis using assms kept_batch(2) [of bid g] kept_batch(1) kept_trans
    by (auto simp: open_bracket_def close_bracket_def BeginBatch_def)
next
  case (ResetVar x v)
  then show ?thesis using assms kept_vars kept_trans by (auto simp: open_bracket_def close_bracket_def)
qed

lemma recordDemand_lazy: "g_lazy (recordDemand k g) = g_lazy g" "g_lazyByPath (recordDemand k g) = g_lazyByPath g"
  by (simp_all add: recordDemand_def Let_def split: list.split)

lemma recordDemand_running: "lazyRunning i (recordDemand k g) = lazyRunning i g"
  using kept_recordDemand [of g k] by (simp add: lazyRunning_def kept_def running_ids_def)

lemma kept_mark: "kept g (mark_diagnosed i expr g)"
  by (auto simp: kept_def wire_ops running_ids_def InValidationScope_def split: option.splits)

lemma enter_fields:
  "g_code (enter_build i key lb dk g) = g_code g" "g_lazy (enter_build i key lb dk g) = g_lazy g" "g_lazyByPath (enter_build i key lb dk g) = g_lazyByPath g"
  "running_ids (enter_build i key lb dk g) = insert i (running_ids g)" "g_materializing (enter_build i key lb dk g) = g_materializing g @ [key]"
  "g_active (enter_build i key lb dk g) = dk # g_active g" "g_flow (enter_build i key lb dk g) = g_flow g" "g_noFlow (enter_build i key lb dk g) = g_noFlow g"
  "g_posStack (enter_build i key lb dk g) = (if pos_IsValid (lb_pos lb) then lb_pos lb # g_posStack g else g_posStack g)"
  "g_display (enter_build i key lb dk g) = g_display g" "g_scope (enter_build i key lb dk g) = None \<longleftrightarrow> g_scope g = None"
  "InValidationScope (enter_build i key lb dk g) = InValidationScope g" "g_diagnosed (enter_build i key lb dk g) = g_diagnosed g"
  "g_runs (enter_build i key lb dk g) = g_runs g @ [i]" "g_binds (enter_build i key lb dk g) = g_binds g" "g_nodes (enter_build i key lb dk g) = g_nodes g"
  "g_pathExprs (enter_build i key lb dk g) = g_pathExprs g"
  by (simp_all add: enter_build_def setLazyRunning_def running_ids_def InValidationScope_def Let_def split: option.split)

lemma leave_fields:
  "g_code (leave_build i prev lb g) = g_code g" "g_lazy (leave_build i prev lb g) = g_lazy g" "g_lazyByPath (leave_build i prev lb g) = g_lazyByPath g"
  "running_ids (leave_build i prev lb g) = running_ids g - {i}" "g_materializing (leave_build i prev lb g) = butlast (g_materializing g)"
  "g_active (leave_build i prev lb g) = tl (g_active g)" "g_flow (leave_build i prev lb g) = g_flow g" "g_noFlow (leave_build i prev lb g) = g_noFlow g"
  "g_posStack (leave_build i prev lb g) = (if pos_IsValid (lb_pos lb) then tl (g_posStack g) else g_posStack g)"
  "g_display (leave_build i prev lb g) = g_display g" "g_scope (leave_build i prev lb g) = None \<longleftrightarrow> g_scope g = None"
  "InValidationScope (leave_build i prev lb g) = InValidationScope g" "g_current (leave_build i prev lb g) = prev" "g_diagnosed (leave_build i prev lb g) = g_diagnosed g"
  "g_runs (leave_build i prev lb g) = g_runs g" "g_binds (leave_build i prev lb g) = g_binds g" "g_nodes (leave_build i prev lb g) = g_nodes g"
  "g_pathExprs (leave_build i prev lb g) = g_pathExprs g"
  by (simp_all add: leave_build_def setLazyRunning_def running_ids_def InValidationScope_def Let_def split: option.split)

lemma kept_leave:
  assumes "kept (enter_build i key lb dk g) g'" "\<not> lazyRunning i g"
  shows "kept g (leave_build i (g_current g) lb g')"
proof -
  have "i \<notin> running_ids g" using assms(2) by (simp add: lazyRunning_def running_ids_def)
  then show ?thesis using assms(1) by (simp add: kept_def enter_fields leave_fields)
qed

text \<open>A relation between states that every primitive operation respects, and that survives a build when it holds from
  after its frames were pushed to before they come off, is respected by whatever closures do.\<close>

definition preserves :: "(wgen \<Rightarrow> wgen \<Rightarrow> bool) \<Rightarrow> runner \<Rightarrow> bool" where
  "preserves R run \<longleftrightarrow> (\<forall>p g r g'. run p g = Some (r, g') \<longrightarrow> R g g')"

locale wire_stable =
  fixes R :: "wgen \<Rightarrow> wgen \<Rightarrow> bool"
  assumes R_refl: "R g g"
    and R_trans: "R a b \<Longrightarrow> R b c \<Longrightarrow> R a c"
    and R_recordDemand: "R g (recordDemand k g)"
    and R_Bind: "R g (Bind t name expr g)"
    and R_BindPath: "R g (BindPath path expr g)"
    and R_emit: "R g (emit_node n g)"
    and R_genVar: "genVar base g = (v, g') \<Longrightarrow> R g g'"
    and R_importAs: "importAs path base g = (v, g') \<Longrightarrow> R g g'"
    and R_Context: "gen_Context g = (v, g') \<Longrightarrow> R g g'"
    and R_once_put: "R g (once_put key v g)"
    and R_Singleton: "SingletonIn p key base ctor g = (v, g') \<Longrightarrow> R g g'"
    and R_vars: "R g (g\<lparr>g_vars := f\<rparr>)"
    and R_register: "R g (register num g)"
    and R_bracket: "R (open_bracket br g) h \<Longrightarrow> R g (close_bracket br g h)"
    and R_mark: "R g (mark_diagnosed i expr g)"
    and R_leave: "R (enter_build i key lb dk g) h \<Longrightarrow> \<not> lazyRunning i g \<Longrightarrow> R g (leave_build i (g_current g) lb h)"
begin

lemma R_bound_demand: "R g (bound_demand t name g)"
  by (auto simp: bound_demand_def Let_def intro: R_refl R_recordDemand R_trans)

lemma R_bind_unless: "R g (bind_unless t name expr g)"
  by (simp add: bind_unless_def R_refl R_Bind)

lemma preserves_run_build:
  assumes "preserves R run" "\<And>expr ds h. R h (after expr ds h)" "\<not> lazyRunning i g" "run_build run i key lb dk after g = Some (a, g')"
  shows "R g g'"
proof -
  obtain r g1 where r: "run (lb_build lb) (enter_build i key lb dk g) = Some (r, g1)" using assms(4) by (auto simp: run_build_def split: option.splits)
  then have k: "R (enter_build i key lb dk g) g1" using assms(1) by (simp add: preserves_def)
  show ?thesis
  proof (cases r)
    case (Returned expr ds)
    then have "g' = leave_build i (g_current g) lb (after expr ds (if HasFatal ds then mark_diagnosed i expr g1 else g1))"
      using assms(4) r by (simp add: run_build_def Let_def)
    then show ?thesis using R_leave [OF _ assms(3)] R_trans [OF k] assms(2) R_mark R_trans by (metis (full_types))
  next
    case (Panicked msg)
    then have "g' = leave_build i (g_current g) lb (mark_diagnosed i [] g1)" using assms(4) r by (simp add: run_build_def)
    then show ?thesis using R_leave [OF R_trans [OF k R_mark] assms(3)] by simp
  qed
qed

lemma preserves_materialize: "preserves R run \<Longrightarrow> materialize run t name i lb dk g = Some (a, g') \<Longrightarrow> R g g'"
proof -
  assume k: "preserves R run" and m: "materialize run t name i lb dk g = Some (a, g')"
  show ?thesis
  proof (cases "map_of (g_diagnosed g) i")
    case None
    show ?thesis
    proof (cases "lazyRunning i g")
      case True
      then show ?thesis using m None by (auto simp: materialize_def Let_def R_refl)
    next
      case False
      have "\<not> lazyRunning i (recordDemand dk g)" using False by (simp add: recordDemand_running)
      then have "R (recordDemand dk g) g'"
        using m None False by (intro preserves_run_build [OF k R_bind_unless]) (auto simp: materialize_def Let_def)
      then show ?thesis using R_recordDemand R_trans by blast
    qed
  next
    case (Some d)
    then show ?thesis using m by (auto simp: materialize_def R_bind_unless)
  qed
qed

lemma preserves_materializePath: "preserves R run \<Longrightarrow> materializePath run path g = Some (a, g') \<Longrightarrow> R g g'"
proof -
  assume k: "preserves R run" and m: "materializePath run path g = Some (a, g')"
  let ?g = "recordDemand (DemandPath path) g"
  have kb: "R h (if ds = [] then BindPath path expr h else h)" for expr ds h by (simp add: R_BindPath R_refl)
  have rb: "R ?g g'" if "\<not> lazyRunning (LazyPath path) ?g" "run_build run (LazyPath path) path lb (DemandPath path) (\<lambda>expr ds g. if ds = [] then BindPath path expr g else g) ?g = Some (a, g')" for lb
    by (rule preserves_run_build [OF k kb that])
  have "R ?g g' \<or> g' = g"
    using m rb by (auto simp: materializePath_def Let_def R_refl split: option.splits if_splits)
  then show ?thesis using R_recordDemand R_trans R_refl by blast
qed

lemma preserves_Instance: "preserves R run \<Longrightarrow> Instance run t name g = Some (a, g') \<Longrightarrow> R g g'"
  by (auto simp: Instance_def instance_path_first_def instance_lazy_def R_refl split: option.splits if_splits prod.splits
      intro: R_bound_demand R_Bind R_recordDemand R_BindPath R_trans dest!: preserves_materialize)

lemma preserves_InstancePath: "preserves R run \<Longrightarrow> InstancePath run path g = Some (a, g') \<Longrightarrow> R g g'"
  by (auto simp: InstancePath_def R_refl split: option.splits intro: R_recordDemand preserves_materializePath)

lemma preserves_run_with: "preserves R run \<Longrightarrow> run_with run p g = Some (r, g') \<Longrightarrow> R g g'"
proof (induction p arbitrary: g r g')
  case (AskInstance t name k)
  from AskInstance.prems(2) obtain expr ds ok g1 where i: "Instance run t name g = Some ((expr, ds, ok), g1)" "run_with run (k expr ds ok) g1 = Some (r, g')"
    by (auto split: option.splits)
  show ?case by (rule R_trans [OF preserves_Instance [OF AskInstance.prems(1) i(1)] AskInstance.IH [OF rangeI rangeI rangeI AskInstance.prems(1) i(2)]])
next
  case (AskPath path k)
  from AskPath.prems(2) obtain expr ds ok g1 where i: "InstancePath run path g = Some ((expr, ds, ok), g1)" "run_with run (k expr ds ok) g1 = Some (r, g')"
    by (auto split: option.splits)
  show ?case by (rule R_trans [OF preserves_InstancePath [OF AskPath.prems(1) i(1)] AskPath.IH [OF rangeI rangeI rangeI AskPath.prems(1) i(2)]])
next
  case (AskContext k)
  then show ?case using R_Context R_trans by (fastforce split: prod.splits simp: Let_def)
next
  case (NewVar base k)
  then show ?case using R_genVar R_trans by (fastforce split: prod.splits simp: Let_def)
next
  case (NewImport path base k)
  then show ?case using R_importAs R_trans by (fastforce split: prod.splits simp: Let_def)
next
  case (DoBind t name expr k)
  then show ?case using R_Bind R_trans by fastforce
next
  case (DoBindPath path expr k)
  then show ?case using R_BindPath R_trans by fastforce
next
  case (EmitNode n k)
  then show ?case using R_emit R_trans by fastforce
next
  case (PutOnce key v k)
  then show ?case using R_once_put R_trans by fastforce
next
  case (NewSingleton p key base ctor k)
  then show ?case using R_Singleton R_trans by (fastforce split: prod.splits simp: Let_def)
next
  case (PutVar x v k)
  then show ?case using R_vars R_trans by fastforce
next
  case (Register c k)
  then show ?case using R_register R_trans by fastforce
next
  case (Bracket b body k)
  obtain q g1 where q: "run_with run body (open_bracket b g) = Some (q, g1)" using Bracket.prems(2) by (auto split: option.splits)
  then have R: "R g (close_bracket b g g1)" using Bracket.IH(1) [OF Bracket.prems(1)] R_bracket by blast
  show ?case
  proof (cases q)
    case (Returned expr ds)
    then have "run_with run (k expr ds) (close_bracket b g g1) = Some (r, g')" using q Bracket.prems(2) by simp
    then show ?thesis using Bracket.IH(2) [OF rangeI rangeI Bracket.prems(1)] R R_trans by blast
  next
    case (Panicked msg)
    then show ?thesis using q Bracket.prems(2) R by simp
  qed
qed (auto simp: R_refl, blast+)

lemma preserves_exec: "preserves R (exec n)"
proof (induction n)
  case (Suc n)
  then show ?case using preserves_run_with by (simp add: preserves_def)
qed (simp add: preserves_def)

end

interpretation kp: wire_stable kept
  by unfold_locales (fact kept_refl kept_trans kept_recordDemand kept_Bind kept_BindPath kept_emit kept_genVar kept_importAs kept_Context kept_once_put
    kept_Singleton kept_vars kept_register kept_bracket kept_mark kept_leave)+

abbreviation keeps :: "runner \<Rightarrow> bool" where
  "keeps \<equiv> preserves kept"

lemmas keeps_Instance = kp.preserves_Instance
lemmas keeps_InstancePath = kp.preserves_InstancePath
lemmas keeps_exec = kp.preserves_exec

section \<open>Resolution ends\<close>

definition lazy_ids :: "wgen \<Rightarrow> lazy_id set" where
  "lazy_ids g = ids_of (g_lazy g) (g_lazyByPath g)"

text \<open>What can still be started: the bindings that are registered or that a closure can register, less those running.\<close>

definition idle :: "wgen \<Rightarrow> lazy_id set" where
  "idle g = (lazy_ids g \<union> lr_id ` ran (g_code g)) - running_ids g"

definition below :: "nat \<Rightarrow> wgen \<Rightarrow> bool" where
  "below m g \<longleftrightarrow> finite (idle g) \<and> card (idle g) < m"

lemma lazy_ids_finite: "finite (lazy_ids g)" and lazy_ids_card: "card (lazy_ids g) \<le> length (g_lazy g) + length (g_lazyByPath g)"
proof -
  let ?A = "(\<lambda>k. LazyType (fst (fst k)) (snd (fst k))) ` set (g_lazy g)" and ?B = "(\<lambda>k. LazyPath (fst k)) ` set (g_lazyByPath g)"
  have sub: "lazy_ids g \<subseteq> ?A \<union> ?B" by (force simp: lazy_ids_def ids_of_def dest: map_of_SomeD)
  then show "finite (lazy_ids g)" by (rule finite_subset) simp
  have "card (lazy_ids g) \<le> card (?A \<union> ?B)" using sub by (intro card_mono) auto
  also have "\<dots> \<le> card ?A + card ?B" by (rule card_Un_le)
  also have "\<dots> \<le> card (set (g_lazy g)) + card (set (g_lazyByPath g))" by (intro add_mono card_image_le) auto
  also have "\<dots> \<le> length (g_lazy g) + length (g_lazyByPath g)" by (intro add_mono card_length)
  finally show "card (lazy_ids g) \<le> length (g_lazy g) + length (g_lazyByPath g)" .
qed

lemma ids_of_mono: "map_of lz \<subseteq>\<^sub>m map_of lz' \<Longrightarrow> map_of pl \<subseteq>\<^sub>m map_of pl' \<Longrightarrow> ids_of lz pl \<subseteq> ids_of lz' pl'"
proof -
  assume "map_of lz \<subseteq>\<^sub>m map_of lz'" "map_of pl \<subseteq>\<^sub>m map_of pl'"
  then show ?thesis unfolding ids_of_def by (intro Un_mono image_mono) (simp_all add: map_le_implies_dom_le)
qed

lemma idle_kept:
  assumes "kept g g'"
  shows "idle g' = idle g"
proof -
  have k: "lazy_ids g' \<subseteq> lazy_ids g \<union> lr_id ` ran (g_code g)" "g_code g' = g_code g" "running_ids g' = running_ids g"
    using assms by (simp_all add: kept_def lazy_ids_def)
  have "lazy_ids g \<subseteq> lazy_ids g'" using assms ids_of_mono by (simp add: kept_def lazy_ids_def)
  then show ?thesis using k(1) unfolding idle_def k(2,3) by blast
qed

lemma below_kept: "kept g g' \<Longrightarrow> below m g' = below m g"
  by (simp add: below_def idle_kept)

definition serves :: "nat \<Rightarrow> runner \<Rightarrow> runner \<Rightarrow> bool" where
  "serves m run run' \<longleftrightarrow> keeps run \<and> (\<forall>p g. below m g \<longrightarrow> run p g \<noteq> None \<and> run' p g = run p g)"

lemma serves_run_build:
  assumes "serves m run run'" "below (Suc m) g" "i \<in> lazy_ids g" "\<not> lazyRunning i g"
  shows "run_build run i key lb dk after g \<noteq> None \<and> run_build run' i key lb dk after g = run_build run i key lb dk after g"
proof -
  have e: "idle (enter_build i key lb dk g) = idle g - {i}" by (auto simp: idle_def lazy_ids_def enter_fields)
  have "i \<in> idle g" using assms(3,4) by (simp add: idle_def lazyRunning_def running_ids_def)
  moreover have "finite (idle g)" using assms(2) by (simp add: below_def)
  ultimately have "card (idle (enter_build i key lb dk g)) < card (idle g)" unfolding e by (intro card_Diff1_less)
  then have "below m (enter_build i key lb dk g)" using assms(2) unfolding below_def e by simp
  then have "run (lb_build lb) (enter_build i key lb dk g) \<noteq> None" "run' (lb_build lb) (enter_build i key lb dk g) = run (lb_build lb) (enter_build i key lb dk g)"
    using assms(1,2) by (auto simp: serves_def)
  then show ?thesis by (auto simp: run_build_def Let_def split: option.splits outcome.splits)
qed

lemma serves_materialize:
  assumes "serves m run run'" "below (Suc m) g" "i \<in> lazy_ids g"
  shows "materialize run t name i lb dk g \<noteq> None \<and> materialize run' t name i lb dk g = materialize run t name i lb dk g"
proof -
  have "lazy_ids (recordDemand dk g) = lazy_ids g" "below (Suc m) (recordDemand dk g) = below (Suc m) g"
    using below_kept [OF kept_recordDemand [of g dk]] by (simp_all add: lazy_ids_def recordDemand_lazy)
  then have "run_build run i key lb dk after (recordDemand dk g) \<noteq> None \<and>
      run_build run' i key lb dk after (recordDemand dk g) = run_build run i key lb dk after (recordDemand dk g)" if "\<not> lazyRunning i g" for key after
    using serves_run_build [OF assms(1), of "recordDemand dk g" i] assms(2,3) that by (simp add: recordDemand_running)
  then show ?thesis by (cases "map_of (g_diagnosed g) i"; cases "lazyRunning i g") (simp_all add: materialize_def Let_def)
qed

lemma serves_Instance:
  assumes "serves m run run'" "below (Suc m) g"
  shows "Instance run t name g \<noteq> None \<and> Instance run' t name g = Instance run t name g"
proof -
  have "LazyPath t \<in> lazy_ids g" if "map_of (g_lazyByPath g) t = Some lb" for lb using that by (auto simp: lazy_ids_def ids_of_def)
  then have p: "instance_path_first run t lb g \<noteq> None \<and> instance_path_first run' t lb g = instance_path_first run t lb g" if "map_of (g_lazyByPath g) t = Some lb" for lb
    using serves_materialize [OF assms, of "LazyPath t"] that by (auto simp: instance_path_first_def split: option.splits)
  have "LazyType t name \<in> lazy_ids g" if "map_of (g_lazy g) (t, name) = Some lb" for lb using that by (force simp: lazy_ids_def ids_of_def)
  then have "instance_lazy run t name g \<noteq> None \<and> instance_lazy run' t name g = instance_lazy run t name g"
    using serves_materialize [OF assms, of "LazyType t name"] by (auto simp: instance_lazy_def split: option.splits)
  then show ?thesis using p by (auto simp: Instance_def split: option.splits if_splits)
qed

lemma serves_InstancePath:
  assumes "serves m run run'" "below (Suc m) g"
  shows "InstancePath run path g \<noteq> None \<and> InstancePath run' path g = InstancePath run path g"
proof -
  let ?g = "recordDemand (DemandPath path) g"
  have "below (Suc m) ?g = below (Suc m) g" using kept_recordDemand by (rule below_kept)
  moreover have "LazyPath path \<in> lazy_ids ?g" if "map_of (g_lazyByPath g) path = Some lb" for lb
    using that by (auto simp: lazy_ids_def ids_of_def recordDemand_lazy)
  ultimately have "materializePath run path g \<noteq> None \<and> materializePath run' path g = materializePath run path g"
    using serves_run_build [OF assms(1), of ?g "LazyPath path"] assms(2) by (auto simp: materializePath_def Let_def split: option.splits)
  then show ?thesis by (auto simp: InstancePath_def split: option.splits)
qed

lemma below_open: "below m (open_bracket b g) = below m g"
proof (cases b)
  case (Attribution key)
  let ?d = "recordDemand (DemandSingleton key) g"
  have "idle (open_bracket b g) = idle ?d" by (simp add: Attribution open_bracket_def SingletonAttribution_def Let_def idle_def lazy_ids_def)
  then show ?thesis using below_kept [OF kept_recordDemand] by (simp add: below_def)
next
  case (Batch bid)
  then show ?thesis using below_kept [OF kept_batch(2) [of bid g]] by (simp add: open_bracket_def BeginBatch_def)
qed (simp add: open_bracket_def)

lemma serves_run_with: "serves m run run' \<Longrightarrow> below (Suc m) g \<Longrightarrow> run_with run p g \<noteq> None \<and> run_with run' p g = run_with run p g"
proof (induction p arbitrary: g)
  case (AskInstance t name k)
  note s = serves_Instance [OF AskInstance.prems, of t name]
  then obtain expr ds ok g1 where i: "Instance run t name g = Some ((expr, ds, ok), g1)" by (metis not_None_eq prod.exhaust)
  then have "kept g g1" using AskInstance.prems(1) keeps_Instance by (auto simp: serves_def)
  then have "below (Suc m) g1" using AskInstance.prems(2) below_kept [of g g1] by simp
  then show ?case using AskInstance.IH [OF rangeI rangeI rangeI AskInstance.prems(1)] s i by simp
next
  case (AskPath path k)
  note s = serves_InstancePath [OF AskPath.prems, of path]
  then obtain expr ds ok g1 where i: "InstancePath run path g = Some ((expr, ds, ok), g1)" by (metis not_None_eq prod.exhaust)
  then have "kept g g1" using AskPath.prems(1) keeps_InstancePath by (auto simp: serves_def)
  then have "below (Suc m) g1" using AskPath.prems(2) below_kept [of g g1] by simp
  then show ?case using AskPath.IH [OF rangeI rangeI rangeI AskPath.prems(1)] s i by simp
next
  case (AskContext k)
  obtain v g1 where v: "gen_Context g = (v, g1)" by (rule prod.exhaust)
  then show ?case using AskContext.IH [OF rangeI AskContext.prems(1), of g1] AskContext.prems(2) below_kept [OF kept_Context [OF v]] by simp
next
  case (NewVar base k)
  obtain v g1 where v: "genVar base g = (v, g1)" by (rule prod.exhaust)
  then show ?case using NewVar.IH [OF rangeI NewVar.prems(1), of g1] NewVar.prems(2) below_kept [OF kept_genVar [OF v]] by simp
next
  case (NewImport path base k)
  obtain v g1 where v: "importAs path base g = (v, g1)" by (rule prod.exhaust)
  then show ?case using NewImport.IH [OF rangeI NewImport.prems(1), of g1] NewImport.prems(2) below_kept [OF kept_importAs [OF v]] by simp
next
  case (DoBind t name expr k)
  then show ?case using below_kept [OF kept_Bind] by simp
next
  case (DoBindPath path expr k)
  then show ?case using below_kept [OF kept_BindPath] by simp
next
  case (PutOnce key v k)
  then show ?case using below_kept [OF kept_once_put] by simp
next
  case (NewSingleton p key base ctor k)
  obtain v g1 where v: "SingletonIn p key base ctor g = (v, g1)" by (rule prod.exhaust)
  then show ?case using NewSingleton.IH [OF rangeI NewSingleton.prems(1), of g1] NewSingleton.prems(2) below_kept [OF kept_Singleton [OF v]] by simp
next
  case (PutVar x v k)
  then show ?case using below_kept [OF kept_vars] by simp
next
  case (Register c k)
  then show ?case using below_kept [OF kept_register] by simp
next
  case (Bracket b body k)
  have "below (Suc m) (open_bracket b g)" using Bracket.prems(2) by (simp add: below_open)
  note s = Bracket.IH(1) [OF Bracket.prems(1) this]
  then obtain q g1 where q: "run_with run body (open_bracket b g) = Some (q, g1)" by (metis not_None_eq prod.exhaust)
  have "keeps run" using Bracket.prems(1) by (simp add: serves_def)
  then have "kept g (close_bracket b g g1)" using kept_bracket [OF kp.preserves_run_with [OF _ q]] by blast
  then have "below (Suc m) (close_bracket b g g1)" using Bracket.prems(2) below_kept by blast
  then show ?case using Bracket.IH(2) [OF rangeI rangeI Bracket.prems(1)] s q by (cases q) simp_all
next
  case (EmitNode n k)
  then show ?case using below_kept [OF kept_emit] by simp
qed auto

lemma serves_exec: "serves n (exec n) (exec (Suc n))"
proof (induction n)
  case (Suc n)
  then show ?case using serves_run_with [OF Suc] keeps_exec [of "Suc n"] by (auto simp: serves_def)
qed (use keeps_exec [of 0] in \<open>simp add: serves_def below_def\<close>)

lemma exec_enough: "below n g \<Longrightarrow> exec (n + k) p g = exec n p g \<and> exec n p g \<noteq> None"
proof (induction k)
  case (Suc k)
  have "below (n + k) g" using Suc.prems by (simp add: below_def)
  then have "exec (Suc (n + k)) p g = exec (n + k) p g" using serves_exec [of "n + k"] unfolding serves_def by blast
  then show ?case using Suc by simp
next
  case 0
  then show ?case using serves_exec [of n] by (simp add: serves_def)
qed

text \<open>The number of bindings that are registered or that closures can register.\<close>

definition lazy_count :: "wgen \<Rightarrow> nat" where
  "lazy_count g = length (g_lazy g) + length (g_lazyByPath g) + card (lr_id ` ran (g_code g))"

lemma lazy_bound:
  assumes "finite (lr_id ` ran (g_code g))" "lazy_count g \<le> n"
  shows "below (Suc n) g"
proof -
  have f: "finite (lazy_ids g \<union> lr_id ` ran (g_code g))" using assms(1) lazy_ids_finite by simp
  have "card (idle g) \<le> card (lazy_ids g \<union> lr_id ` ran (g_code g))" using f by (intro card_mono) (auto simp: idle_def)
  also have "\<dots> \<le> card (lazy_ids g) + card (lr_id ` ran (g_code g))" by (rule card_Un_le)
  also have "\<dots> \<le> lazy_count g" using lazy_ids_card [of g] by (simp add: lazy_count_def)
  finally show ?thesis using assms(2) f by (simp add: below_def idle_def)
qed

lemma Instance_enough: "below (Suc n) g \<Longrightarrow> Instance (exec (n + k)) t name g = Instance (exec n) t name g \<and> Instance (exec n) t name g \<noteq> None"
proof (induction k)
  case (Suc k)
  have "below (Suc (n + k)) g" using Suc.prems by (simp add: below_def)
  then show ?case using serves_Instance [OF serves_exec, of "n + k" g t name] Suc by simp
next
  case 0
  then show ?case using serves_Instance [OF serves_exec, of n g t name] by simp
qed

text \<open>C15: Resolution always ends and leaves no trace on the stacks. Closures may make every call the header lists, register
  further bindings and themselves again, attribute to a singleton and open batches included; the keys they can register
  under are finitely many, as the types of a program are. In the default flow and in a scope, asking for an instance
  gives an answer as soon as the depth is the number of lazy bindings registered and of keys closures can register, the
  same answer for every greater depth. Afterwards the same bindings are running as before, the stacks of keys, demands and
  positions and the current directive are what they were, and every registration is still there; new ones are only of
  closures that can be registered.\<close>

theorem gen_resolution_ends:
  assumes "finite (lr_id ` ran (g_code g))" "lazy_count g \<le> n"
  shows "\<exists>expr ds ok g'. Instance (exec n) t name g = Some ((expr, ds, ok), g') \<and> Instance (exec (n + k)) t name g = Some ((expr, ds, ok), g') \<and> kept g g'"
proof -
  note e = Instance_enough [OF lazy_bound [OF assms], of k t name]
  then obtain expr ds ok g' where a: "Instance (exec n) t name g = Some ((expr, ds, ok), g')" by (metis not_None_eq prod.exhaust)
  then show ?thesis using e keeps_Instance [OF keeps_exec a] by auto
qed

section \<open>A typed binding is built at most once\<close>

definition settled_types :: "wgen \<Rightarrow> bool" where
  "settled_types g \<longleftrightarrow> (\<forall>t name. LazyType t name \<in> set (g_runs g) \<longrightarrow>
     map_of (g_binds g) (t, name) \<noteq> None \<or> map_of (g_diagnosed g) (LazyType t name) \<noteq> None \<or> LazyType t name \<in> g_running g)"

definition type_runs :: "wgen \<Rightarrow> lazy_id list" where
  "type_runs g = filter (\<lambda>i. case i of LazyType t name \<Rightarrow> True | LazyPath p \<Rightarrow> False) (g_runs g)"

definition once_inv :: "wgen \<Rightarrow> bool" where
  "once_inv g \<longleftrightarrow> g_scope g = None \<and> settled_types g \<and> distinct (type_runs g)"

text \<open>Neither bindings nor diagnosed closures are ever forgotten.\<close>

definition grows :: "wgen \<Rightarrow> wgen \<Rightarrow> bool" where
  "grows g g' \<longleftrightarrow> dom (map_of (g_binds g)) \<subseteq> dom (map_of (g_binds g')) \<and> dom (map_of (g_diagnosed g)) \<subseteq> dom (map_of (g_diagnosed g')) \<and>
     g_running g' = g_running g \<and> g_runs g' = g_runs g \<and> (g_scope g' = None \<longleftrightarrow> g_scope g = None)"

lemma grows_trans: "grows a b \<Longrightarrow> grows b c \<Longrightarrow> grows a c"
  unfolding grows_def by (elim conjE) (intro conjI; (erule (1) subset_trans | simp))

lemma grows_refl: "grows g g"
  by (simp add: grows_def)

lemma grows_once: "grows g g' \<Longrightarrow> once_inv g \<Longrightarrow> once_inv g'"
proof -
  assume g: "grows g g'" and o: "once_inv g"
  have b: "map_of (g_binds g) k \<noteq> None \<Longrightarrow> map_of (g_binds g') k \<noteq> None" "map_of (g_diagnosed g) i \<noteq> None \<Longrightarrow> map_of (g_diagnosed g') i \<noteq> None" for k i
    using g by (auto simp: grows_def)
  have e: "g_running g' = g_running g" "g_runs g' = g_runs g" "g_scope g' = None \<longleftrightarrow> g_scope g = None" using g by (auto simp: grows_def)
  have "settled_types g'" using o b unfolding once_inv_def settled_types_def e by meson
  then show ?thesis using o unfolding once_inv_def type_runs_def e by simp
qed

lemma grows_ops:
  "grows g (recordDemand k g)" "grows g (bound_demand t name g)" "grows g (mark_diagnosed i expr g)" "grows g (emit_node n g)"
  by (auto simp: grows_def wire_ops split: list.splits option.splits)

lemma grows_binds:
  assumes "g_scope g = None"
  shows "grows g (Bind t name expr g)" "grows g (BindPath path expr g)" "grows g (bind_unless t name expr g)"
  using assms by (auto simp: grows_def wire_ops split: option.splits)

lemma grows_puts:
  "grows g (once_put key v g)" "grows g (singleton_put key v g)" "grows g (end_batch prev g)" "BeginBatch bid g = (prev, g') \<Longrightarrow> grows g g'"
  by (auto simp: grows_def once_put_def singleton_put_def end_batch_def BeginBatch_def split: option.splits)

lemma grows_steps:
  "grows g (g\<lparr>g_vars := f\<rparr>)" "grows g (register c g)" "grows g (open_bracket b g)" "grows h (close_bracket b g h)"
proof -
  show "grows g (register c g)"
    by (auto simp: grows_def register_def BindLazyAt_def BindLazyPathAt_def recordBindConflict_def Let_def split: option.split lazy_id.split)
  show "grows g (open_bracket b g)" using grows_ops(1)
    by (cases b) (auto simp: grows_def open_bracket_def SingletonAttribution_def BeginBatch_def Let_def)
qed (auto simp: grows_def close_bracket_def end_batch_def split: bracket.split)

lemma grows_names:
  "takeIdent base g = (v, g') \<Longrightarrow> g_scope g = None \<Longrightarrow> grows g g'"
  "genVar base g = (v, g') \<Longrightarrow> g_scope g = None \<Longrightarrow> grows g g'"
  "importAs path base g = (v, g') \<Longrightarrow> g_scope g = None \<Longrightarrow> grows g g'"
  by (auto simp: grows_def wire_ops split: option.splits)

lemma grows_Context: "gen_Context g = (v, g') \<Longrightarrow> g_scope g = None \<Longrightarrow> grows g g'"
proof (cases "g_ctxVar g = []")
  case True
  assume g: "gen_Context g = (v, g')" "g_scope g = None"
  obtain a g1 where 1: "importAs ''context'' ''context'' g = (a, g1)" by (rule prod.exhaust)
  obtain w g2 where 2: "takeIdent ''ctx'' g1 = (w, g2)" by (rule prod.exhaust)
  have "grows g g1" using 1 g(2) by (rule grows_names(3))
  moreover have "grows g1 g2" using 2 \<open>grows g g1\<close> g(2) by (intro grows_names(1)) (auto simp: grows_def)
  moreover have "g' = g2\<lparr>g_ctxVar := v\<rparr>" using g True 1 2 by (auto simp: gen_Context_def)
  ultimately have "grows g g2" "g' = g2\<lparr>g_ctxVar := v\<rparr>" using grows_trans by blast+
  then show ?thesis by (simp add: grows_def)
qed (auto simp: gen_Context_def grows_def split: option.splits)

lemma grows_Singleton:
  assumes "SingletonIn p key base ctor g = (v, g')" "g_scope g = None"
  shows "grows g g'"
proof -
  let ?d = "recordDemand (DemandSingleton key) g"
  let ?p = "?d\<lparr>g_active := DemandSingleton key # g_active ?d\<rparr>"
  have d: "grows g ?d" by (rule grows_ops(1))
  then have s: "g_scope ?p = None" using assms(2) by (simp add: grows_def)
  obtain h where h: "grows ?p h" and g': "g' = h\<lparr>g_active := tl (g_active h)\<rparr>"
  proof (cases "map_of (g_singletons g) key")
    case None
    obtain w k where k: "genVar base ?p = (w, k)" by (rule prod.exhaust)
    have "grows ?p (emit_node (Assign (phase_base p) w ctor) (singleton_put key w k))"
      by (rule grows_trans [OF grows_names(2) [OF k s] grows_trans [OF grows_puts(2) grows_ops(4)]])
    then show ?thesis using that assms None k by (auto simp: SingletonIn_def Let_def)
  next
    case (Some w)
    then show ?thesis using that [OF grows_refl] assms by (auto simp: SingletonIn_def Let_def)
  qed
  have "grows ?d g'" using h unfolding grows_def g' by simp
  then show ?thesis using d grows_trans by blast
qed

definition once_runner :: "runner \<Rightarrow> bool" where
  "once_runner run \<longleftrightarrow> (\<forall>p g r g'. run p g = Some (r, g') \<longrightarrow> once_inv g \<longrightarrow> once_inv g')"

lemma once_enter:
  assumes "once_inv g" "\<not> lazyRunning i g" "\<And>t name. i = LazyType t name \<Longrightarrow> map_of (g_binds g) (t, name) = None \<and> map_of (g_diagnosed g) i = None"
  shows "once_inv (enter_build i key lb dk g)"
proof -
  have s: "g_scope g = None" using assms(1) by (simp add: once_inv_def)
  have "LazyType t name \<notin> set (g_runs g)" if "i = LazyType t name" for t name
    using assms that s unfolding once_inv_def settled_types_def lazyRunning_def by (auto simp del: not_None_eq)
  moreover have "g_running (enter_build i key lb dk g) = insert i (g_running g)" using s by (simp add: enter_build_def setLazyRunning_def Let_def)
  ultimately show ?thesis using assms(1) unfolding once_inv_def settled_types_def type_runs_def enter_fields
    by (cases i) (auto simp: enter_fields)
qed

lemma once_leave:
  assumes "once_inv g" "\<And>t name. i = LazyType t name \<Longrightarrow> map_of (g_binds g) (t, name) \<noteq> None \<or> map_of (g_diagnosed g) i \<noteq> None"
  shows "once_inv (leave_build i prev lb g)"
proof -
  have s: "g_scope g = None" using assms(1) by (simp add: once_inv_def)
  then have "g_running (leave_build i prev lb g) = g_running g - {i}" by (simp add: leave_build_def setLazyRunning_def)
  then show ?thesis using assms unfolding once_inv_def settled_types_def type_runs_def leave_fields by (auto simp del: not_None_eq)
qed

lemma once_run_build:
  assumes "once_runner run" "once_inv g" "\<not> lazyRunning i g" "run_build run i key lb dk after g = Some (a, g')"
    and "\<And>t name. i = LazyType t name \<Longrightarrow> map_of (g_binds g) (t, name) = None \<and> map_of (g_diagnosed g) i = None"
    and "\<And>expr ds h. g_scope h = None \<Longrightarrow> grows h (after expr ds h)"
    and "\<And>t name expr ds h. i = LazyType t name \<Longrightarrow> g_scope h = None \<Longrightarrow> map_of (g_binds (after expr ds h)) (t, name) \<noteq> None"
  shows "once_inv g'"
proof -
  obtain r g1 where r: "run (lb_build lb) (enter_build i key lb dk g) = Some (r, g1)" using assms(4) by (auto simp: run_build_def split: option.splits)
  then have o: "once_inv g1" using assms(1) once_enter [OF assms(2,3,5)] by (auto simp: once_runner_def)
  show ?thesis
  proof (cases r)
    case (Returned expr ds)
    let ?g2 = "if HasFatal ds then mark_diagnosed i expr g1 else g1"
    have "once_inv ?g2" using o grows_once [OF grows_ops(3)] by simp
    then have "once_inv (after expr ds ?g2)" "g_scope ?g2 = None" using grows_once [OF assms(6)] by (auto simp: once_inv_def)
    then have "once_inv (leave_build i (g_current g) lb (after expr ds ?g2))" using assms(7) by (intro once_leave) auto
    then show ?thesis using assms(4) r Returned by (simp add: run_build_def Let_def)
  next
    case (Panicked msg)
    have "once_inv (mark_diagnosed i [] g1)" using o grows_once [OF grows_ops(3)] by blast
    moreover have "map_of (g_diagnosed (mark_diagnosed i [] g1)) i \<noteq> None" using o by (simp add: mark_diagnosed_def InValidationScope_def once_inv_def)
    ultimately have "once_inv (leave_build i (g_current g) lb (mark_diagnosed i [] g1))" by (intro once_leave) auto
    then show ?thesis using assms(4) r Panicked by (simp add: run_build_def)
  qed
qed

lemma bind_unless_bound: "g_scope h = None \<Longrightarrow> map_of (g_binds (bind_unless t name expr h)) (t, name) \<noteq> None"
  by (auto simp: bind_unless_def typeBound_def Bind_def Let_def)

lemma once_materialize:
  assumes "once_runner run" "once_inv g" "materialize run t name i lb dk g = Some (a, g')"
    and "\<And>t' name'. i = LazyType t' name' \<Longrightarrow> t' = t \<and> name' = name \<and> map_of (g_binds g) (t, name) = None"
  shows "once_inv g'"
proof (cases "map_of (g_diagnosed g) i")
  case None
  have d: "once_inv (recordDemand dk g)" "g_binds (recordDemand dk g) = g_binds g" "g_diagnosed (recordDemand dk g) = g_diagnosed g"
    using grows_once [OF grows_ops(1) assms(2)] by (auto simp: recordDemand_def Let_def split: list.splits)
  show ?thesis
  proof (cases "lazyRunning i g")
    case True
    then show ?thesis using assms(2,3) None by (auto simp: materialize_def Let_def)
  next
    case False
    let ?key = "g_display g t @ (if name \<noteq> [] then '' ('' @ name @ '')'' else [])"
    have "run_build run i ?key lb dk (\<lambda>expr ds. bind_unless t name expr) (recordDemand dk g) = Some (a, g')"
      using assms(3) None False by (simp add: materialize_def Let_def)
    then show ?thesis
      by (rule once_run_build [OF assms(1) d(1), rotated]) (use False None assms(4) d in \<open>auto simp: recordDemand_running grows_binds bind_unless_bound simp del: not_None_eq\<close>)
  qed
next
  case (Some d)
  then show ?thesis using assms(2,3) grows_once [OF grows_binds(3)] by (auto simp: materialize_def once_inv_def)
qed

lemma once_materializePath:
  assumes "once_runner run" "once_inv g" "materializePath run path g = Some (a, g')"
  shows "once_inv g'"
proof -
  let ?g = "recordDemand (DemandPath path) g"
  have o: "once_inv ?g" using grows_once [OF grows_ops(1) assms(2)] .
  have kb: "grows h (if ds = [] then BindPath path expr h else h)" if "g_scope h = None" for h expr and ds :: "wire_diag list"
    using grows_binds(2) [OF that] by (simp add: grows_refl)
  have rb: "once_inv g'" if "\<not> lazyRunning (LazyPath path) ?g"
      "run_build run (LazyPath path) path lb (DemandPath path) (\<lambda>expr ds g. if ds = [] then BindPath path expr g else g) ?g = Some (a, g')" for lb
    by (rule once_run_build [OF assms(1) o that]) (auto simp: kb)
  show ?thesis using assms(2,3) o rb by (auto simp: materializePath_def Let_def split: option.splits if_splits)
qed

lemma once_Instance:
  assumes "once_runner run" "once_inv g" "Instance run t name g = Some (a, g')"
  shows "once_inv g'"
proof -
  have s: "g_scope g = None" using assms(2) by (simp add: once_inv_def)
  have l: "once_inv g'" if "instance_lazy run t name g = Some (a, g')" "map_of (g_binds g) (t, name) = None"
    using that assms(2) once_materialize [OF assms(1,2), of t name "LazyType t name" _ "DemandType t name" a g'] by (auto simp: instance_lazy_def split: option.splits)
  have p: "once_inv g'" if i: "instance_path_first run t lb g = Some (a, g')" for lb
  proof -
    obtain expr ds ok g1 where m: "materialize run t [] (LazyPath t) lb (DemandPath t) g = Some ((expr, ds, ok), g1)"
      and g': "g' = (if ok \<and> ds = [] then BindPath t expr g1 else g1)" using i by (auto simp: instance_path_first_def split: option.splits)
    have "once_inv g1" by (rule once_materialize [OF assms(1,2) m]) simp
    then show ?thesis using g' grows_once [OF grows_binds(2)] by (auto simp: once_inv_def)
  qed
  have b: "once_inv (Bind t name expr (recordDemand (DemandPath t) g))" for expr
    using grows_once [OF grows_ops(1) assms(2)] grows_once [OF grows_binds(1)] by (auto simp: once_inv_def)
  show ?thesis
  proof (cases "map_of (g_binds g) (t, name)")
    case (Some expr)
    then have "g' = bound_demand t name g" using assms(3) s by (simp add: Instance_def)
    then show ?thesis using grows_once [OF grows_ops(2) assms(2)] by simp
  next
    case bn: None
    show ?thesis
    proof (cases "if name = [] then map_of (g_pathExprs g) t else None")
      case (Some expr)
      then show ?thesis using assms(3) s bn b [of expr] by (simp add: Instance_def)
    next
      case pn: None
      show ?thesis
      proof (cases "if name = [] then map_of (g_lazyByPath g) t else None")
        case (Some lb)
        then show ?thesis using assms(3) s bn pn p [of lb] by (simp add: Instance_def split: if_splits)
      next
        case None
        then show ?thesis using assms(3) s bn pn l by (simp add: Instance_def split: if_splits)
      qed
    qed
  qed
qed

lemma once_InstancePath: "once_runner run \<Longrightarrow> once_inv g \<Longrightarrow> InstancePath run path g = Some (a, g') \<Longrightarrow> once_inv g'"
proof -
  assume a: "once_runner run" "once_inv g" "InstancePath run path g = Some (a, g')"
  then have s: "g_scope g = None" by (simp add: once_inv_def)
  show ?thesis
  proof (cases "map_of (g_pathExprs g) path")
    case None
    then show ?thesis using a s once_materializePath [OF a(1,2)] by (simp add: InstancePath_def)
  next
    case (Some expr)
    then have "g' = recordDemand (DemandPath path) g" using a s by (simp add: InstancePath_def)
    then show ?thesis using grows_once [OF grows_ops(1) a(2)] by simp
  qed
qed

lemma once_run_with: "once_runner run \<Longrightarrow> once_inv g \<Longrightarrow> run_with run p g = Some (r, g') \<Longrightarrow> once_inv g'"
proof (induction p arbitrary: g r g')
  case (AskInstance t name k)
  from AskInstance.prems(3) obtain expr ds ok g1 where "Instance run t name g = Some ((expr, ds, ok), g1)" "run_with run (k expr ds ok) g1 = Some (r, g')"
    by (auto split: option.splits)
  then show ?case using AskInstance.IH [OF rangeI rangeI rangeI AskInstance.prems(1)] once_Instance [OF AskInstance.prems(1,2)] by blast
next
  case (AskPath path k)
  from AskPath.prems(3) obtain expr ds ok g1 where "InstancePath run path g = Some ((expr, ds, ok), g1)" "run_with run (k expr ds ok) g1 = Some (r, g')"
    by (auto split: option.splits)
  then show ?case using AskPath.IH [OF rangeI rangeI rangeI AskPath.prems(1)] once_InstancePath [OF AskPath.prems(1,2)] by blast
next
  case (AskContext k)
  obtain v g1 where v: "gen_Context g = (v, g1)" by (rule prod.exhaust)
  then have "once_inv g1" using AskContext.prems(2) grows_once [OF grows_Context [OF v]] by (simp add: once_inv_def)
  then show ?case using AskContext.IH [OF rangeI AskContext.prems(1)] AskContext.prems(3) v by simp
next
  case (NewVar base k)
  obtain v g1 where v: "genVar base g = (v, g1)" by (rule prod.exhaust)
  then have "once_inv g1" using NewVar.prems(2) grows_once [OF grows_names(2) [OF v]] by (simp add: once_inv_def)
  then show ?case using NewVar.IH [OF rangeI NewVar.prems(1)] NewVar.prems(3) v by simp
next
  case (NewImport path base k)
  obtain v g1 where v: "importAs path base g = (v, g1)" by (rule prod.exhaust)
  then have "once_inv g1" using NewImport.prems(2) grows_once [OF grows_names(3) [OF v]] by (simp add: once_inv_def)
  then show ?case using NewImport.IH [OF rangeI NewImport.prems(1)] NewImport.prems(3) v by simp
next
  case (DoBind t name expr k)
  have "once_inv (Bind t name expr g)" using grows_once [OF grows_binds(1)] DoBind.prems(2) by (auto simp: once_inv_def)
  then show ?case using DoBind.IH [OF DoBind.prems(1)] DoBind.prems(3) by simp
next
  case (DoBindPath path expr k)
  have "once_inv (BindPath path expr g)" using grows_once [OF grows_binds(2)] DoBindPath.prems(2) by (auto simp: once_inv_def)
  then show ?case using DoBindPath.IH [OF DoBindPath.prems(1)] DoBindPath.prems(3) by simp
next
  case (PutOnce key v k)
  have "once_inv (once_put key v g)" using grows_once [OF grows_puts(1)] PutOnce.prems(2) by (auto simp: once_inv_def)
  then show ?case using PutOnce.IH [OF PutOnce.prems(1)] PutOnce.prems(3) by simp
next
  case (NewSingleton p key base ctor k)
  obtain v g1 where v: "SingletonIn p key base ctor g = (v, g1)" by (rule prod.exhaust)
  then have "once_inv g1" using NewSingleton.prems(2) grows_once [OF grows_Singleton [OF v]] by (simp add: once_inv_def)
  then show ?case using NewSingleton.IH [OF rangeI NewSingleton.prems(1)] NewSingleton.prems(3) v by simp
next
  case (PutVar x v k)
  have "once_inv (g\<lparr>g_vars := (g_vars g)(x := v)\<rparr>)" using grows_once [OF grows_steps(1)] PutVar.prems(2) by (auto simp: once_inv_def)
  then show ?case using PutVar.IH [OF PutVar.prems(1)] PutVar.prems(3) by simp
next
  case (Register c k)
  have "once_inv (register c g)" using grows_once [OF grows_steps(2)] Register.prems(2) by (auto simp: once_inv_def)
  then show ?case using Register.IH [OF Register.prems(1)] Register.prems(3) by simp
next
  case (Bracket b body k)
  obtain q g1 where q: "run_with run body (open_bracket b g) = Some (q, g1)" using Bracket.prems(3) by (auto split: option.splits)
  have "once_inv (open_bracket b g)" using grows_once [OF grows_steps(3) Bracket.prems(2)] .
  then have "once_inv g1" using Bracket.IH(1) [OF Bracket.prems(1) _ q] by blast
  then have c: "once_inv (close_bracket b g g1)" by (rule grows_once [OF grows_steps(4)])
  then show ?case using Bracket.IH(2) [OF rangeI rangeI Bracket.prems(1) c] Bracket.prems(3) q by (cases q) auto
next
  case (EmitNode n k)
  have "once_inv (emit_node n g)" using grows_once [OF grows_ops(4)] EmitNode.prems(2) by (auto simp: once_inv_def)
  then show ?case using EmitNode.IH [OF EmitNode.prems(1)] EmitNode.prems(3) by simp
qed (auto, blast+)

lemma once_exec: "once_runner (exec n)"
proof (induction n)
  case (Suc n)
  show ?case unfolding once_runner_def by (intro allI impI) (use once_run_with [OF Suc] in simp)
qed (simp add: once_runner_def)

text \<open>Two typed bindings that need each other, a third that panics, a path binding whose closure warns, and a binding whose
  closure, under the attribution of a singleton and in a batch, registers another, which asks for the first and registers
  itself again.\<close>

definition wire_empty :: wgen where
  "wire_empty = \<lparr>g_display = (\<lambda>t. t), g_code = Map.empty, g_vars = (\<lambda>x. []), g_imports = [], g_idents = [], g_aliasIdents = [], g_binds = [], g_origins = [], g_lazy = [], g_lazyByPath = [],
     g_pathExprs = [], g_singletons = [], g_onceVals = [], g_batchID = [], g_batchSeq = 0, g_running = {}, g_diagnosed = [], g_ctxVar = [], g_current = [], g_materializing = [], g_scope = None, g_bindConflicts = [],
     g_conflictSeen = [], g_demands = {}, g_demandEdges = {}, g_nodes = [], g_active = [], g_flow = [], g_noFlow = False, g_posStack = [], g_runs = []\<rparr>"

definition lazy_ask :: "string \<Rightarrow> string \<Rightarrow> lazy_bind" where
  "lazy_ask needs expr = \<lparr>lb_build = AskInstance needs [] (\<lambda>e ds ok. Ret expr ds), lb_owner = ''provider'', lb_pos = noPos\<rparr>"

definition wire_ensure :: prog where
  "wire_ensure = Bracket (Attribution ''host'') (Bracket (Batch ''b'') (Register 0 (AskInstance ''f.F'' [] (\<lambda>e ds ok. Ret e ds)))
     (\<lambda>e ds. Ret e ds)) (\<lambda>e ds. Ret e ds)"

definition wire_example :: wgen where
  "wire_example = wire_empty\<lparr>g_lazy := [((''a.A'', []), lazy_ask ''b.B'' ''a''), ((''b.B'', []), lazy_ask ''a.A'' ''b''),
       ((''c.C'', []), \<lparr>lb_build = Panic ''boom'', lb_owner = ''provider'', lb_pos = noPos\<rparr>),
       ((''e.E'', []), \<lparr>lb_build = wire_ensure, lb_owner = ''provider'', lb_pos = noPos\<rparr>)],
     g_lazyByPath := [(''d.D'', \<lparr>lb_build = Ret ''d'' [\<lparr>wd_Severity = SevWarning, wd_Pos = noPos, wd_Problem = OtherProblem ''old'', wd_First = None\<rparr>],
       lb_owner = ''provider'', lb_pos = noPos\<rparr>)],
     g_code := [0 \<mapsto> \<lparr>lr_id = LazyType ''f.F'' [], lr_pos = noPos, lr_build = Register 0 (AskInstance ''e.E'' [] (\<lambda>e ds ok. Ret ''f'' ds))\<rparr>]\<rparr>"

lemma wire_example_fields [simp]:
  "g_scope wire_example = None" "g_runs wire_example = []" "finite (lr_id ` ran (g_code wire_example))" "lazy_count wire_example = 6"
  by (simp_all add: wire_example_def wire_empty_def lazy_count_def)

theorem gen_resolution_ends_witness:
  "\<exists>expr ds ok g'. Instance (exec 6) ''e.E'' [] wire_example = Some ((expr, ds, ok), g') \<and>
     Instance (exec 9) ''e.E'' [] wire_example = Some ((expr, ds, ok), g') \<and> kept wire_example g'"
  using gen_resolution_ends [of wire_example 6 "''e.E''" "[]" 3] by simp

end
