(* ===== verification/GenFlows.thy ===== *)
theory GenFlows
  imports GenWire
begin

text \<open>
  \<open>gen/fragment.go\<close>, \<open>scope.go\<close>, \<open>usage.go\<close>, \<open>inject.go\<close>: the passes over the registered command scopes.
  \<open>WalkFlows\<close> resolves the roots of every scope against one shared state, \<open>RunValidationPass\<close> resolves what no scope
  reached in a scope of its own, and \<open>propagateDemandUsage\<close> completes the record of which flow needs which demand.

  \<^item> A callback of a scope is a closure whose expression nobody reads.
  \<^item> A pass that panics is given up by its caller with everything it did; its result is the message alone (\<open>Inl\<close>).
  \<^item> The packages that the printed form of a type mentions come from \<open>go/types\<close> and are a parameter, \<open>pkgs\<close>.
\<close>

section \<open>Scopes\<close>

record flow_scope =
  fs_fn :: string
  fs_pos :: position
  fs_roots :: "(string \<times> string) list"
  fs_rootExprs :: "string list"

record wflows =
  wf_gen :: wgen
  wf_scopes :: "flow_scope list"
  wf_prologues :: "prog list"
  wf_epilogues :: "prog list"
  wf_callbackSeen :: "(nat \<times> wire_diag) list"

definition AddScope :: "string \<Rightarrow> position \<Rightarrow> (string \<times> string) list \<Rightarrow> wflows \<Rightarrow> wflows" where
  "AddScope fn pos roots w =
    (let g1 = (if wf_scopes w = [] then
           let (v, h) = gen_Context (wf_gen w) in h\<lparr>g_idents := ''unwind'' # ''err'' # ''cleanup'' # g_idents h\<rparr>
         else wf_gen w)
     in w\<lparr>wf_gen := g1, wf_scopes := wf_scopes w @ [\<lparr>fs_fn = fn, fs_pos = pos, fs_roots = roots, fs_rootExprs = []\<rparr>]\<rparr>)"

definition ScopePrologue :: "prog \<Rightarrow> wflows \<Rightarrow> wflows" where
  "ScopePrologue fn w = w\<lparr>wf_prologues := wf_prologues w @ [fn]\<rparr>"

definition ScopeEpilogue :: "prog \<Rightarrow> wflows \<Rightarrow> wflows" where
  "ScopeEpilogue fn w = w\<lparr>wf_epilogues := wf_epilogues w @ [fn]\<rparr>"




section \<open>Missing bindings\<close>

definition TypeExpr_imports :: "(string \<Rightarrow> (string \<times> string) list) \<Rightarrow> string \<Rightarrow> wgen \<Rightarrow> wgen" where
  "TypeExpr_imports pkgs t g = fold (\<lambda>(path, base) h. snd (importAs path base h)) (pkgs t) g"

definition MissingBinding :: "(string \<Rightarrow> (string \<times> string) list) \<Rightarrow> string \<Rightarrow> string \<Rightarrow> wgen \<Rightarrow> wire_problem \<times> wgen" where
  "MissingBinding pkgs t name g =
    (let names = BindingNames t g
     in (if name = [] \<and> names \<noteq> [] \<and> hd names \<noteq> [] then OnlyNamed t names else NoProvider t name names, TypeExpr_imports pkgs t g))"

section \<open>The walk over the flows\<close>

definition push_demand :: "demand_key \<Rightarrow> wgen \<Rightarrow> wgen" where
  "push_demand k g = g\<lparr>g_active := k # g_active g\<rparr>"

definition pop_demand :: "wgen \<Rightarrow> wgen" where
  "pop_demand g = g\<lparr>g_active := tl (g_active g)\<rparr>"

fun walk_prologues :: "nat \<Rightarrow> bool \<Rightarrow> nat \<Rightarrow> prog list \<Rightarrow> wgen \<Rightarrow> ((string + unit) \<times> wgen) option" where
  "walk_prologues n run_them i [] g = Some (Inr (), g)"
| "walk_prologues n run_them i (fn # fns) g =
    (let k = DemandCallback ''prologue'' i; g1 = recordDemand k g in
     if run_them then
       (case exec n fn (push_demand k g1) of
          None \<Rightarrow> None
        | Some (Panicked msg, g2) \<Rightarrow> Some (Inl msg, g2)
        | Some (Returned expr ds, g2) \<Rightarrow> walk_prologues n run_them (Suc i) fns (pop_demand g2))
     else walk_prologues n run_them (Suc i) fns g1)"

fun walk_roots :: "(string \<Rightarrow> (string \<times> string) list) \<Rightarrow> nat \<Rightarrow> position \<Rightarrow> (string \<times> string) list \<Rightarrow> wgen \<Rightarrow> ((string list \<times> wire_diag list) \<times> wgen) option" where
  "walk_roots pkgs n pos [] g = Some (([], []), g)"
| "walk_roots pkgs n pos ((t, name) # rs) g =
    (case Instance (exec n) t name g of
       None \<Rightarrow> None
     | Some ((expr, rds, ok), g1) \<Rightarrow>
         (let (mds, g2) = (if \<not> ok \<and> rds = [] then let (p, h) = MissingBinding pkgs t name g1 in ([wire_error pos p], h) else ([], g1))
          in case walk_roots pkgs n pos rs g2 of
               None \<Rightarrow> None
             | Some ((exprs, ds), g3) \<Rightarrow> Some ((expr # exprs, rds @ mds @ ds), g3)))"

definition epilogue_demands :: "nat \<Rightarrow> wgen \<Rightarrow> wgen" where
  "epilogue_demands m g = fold (\<lambda>i. recordDemand (DemandCallback ''epilogue'' i)) [0..<m] g"

fun walk_scopes :: "(string \<Rightarrow> (string \<times> string) list) \<Rightarrow> nat \<Rightarrow> prog list \<Rightarrow> nat \<Rightarrow> bool \<Rightarrow> flow_scope list \<Rightarrow> wgen \<Rightarrow>
    ((string + flow_scope list \<times> wire_diag list) \<times> wgen) option" where
  "walk_scopes pkgs n pros m first_one [] g = Some (Inr ([], []), g)"
| "walk_scopes pkgs n pros m first_one (s # ss) g =
    (case walk_prologues n first_one 0 pros (g\<lparr>g_flow := fs_fn s\<rparr>) of
       None \<Rightarrow> None
     | Some (Inl msg, g1) \<Rightarrow> Some (Inl msg, g1)
     | Some (Inr _, g1) \<Rightarrow>
         (case walk_roots pkgs n (fs_pos s) (fs_roots s) g1 of
            None \<Rightarrow> None
          | Some ((exprs, ds), g2) \<Rightarrow>
              (case walk_scopes pkgs n pros m False ss (epilogue_demands m g2) of
                 None \<Rightarrow> None
               | Some (Inl msg, g3) \<Rightarrow> Some (Inl msg, g3)
               | Some (Inr (ss', ds'), g3) \<Rightarrow> Some (Inr (s\<lparr>fs_rootExprs := fs_rootExprs s @ exprs\<rparr> # ss', ds @ ds'), g3))))"

fun reportCallbackDiags :: "nat \<Rightarrow> wire_diag list \<Rightarrow> (nat \<times> wire_diag) list \<Rightarrow> wire_diag list \<times> (nat \<times> wire_diag) list" where
  "reportCallbackDiags ord [] seen = ([], seen)"
| "reportCallbackDiags ord (d # ds) seen =
    (if (ord, d) \<in> set seen then reportCallbackDiags ord ds seen
     else let (out, seen') = reportCallbackDiags ord ds ((ord, d) # seen) in (d # out, seen'))"

fun run_epilogues :: "nat \<Rightarrow> nat \<Rightarrow> prog list \<Rightarrow> (nat \<times> wire_diag) list \<Rightarrow> wgen \<Rightarrow> ((string + wire_diag list \<times> (nat \<times> wire_diag) list) \<times> wgen) option" where
  "run_epilogues n i [] seen g = Some (Inr ([], seen), g)"
| "run_epilogues n i (fn # fns) seen g =
    (case exec n fn g of
       None \<Rightarrow> None
     | Some (Panicked msg, g1) \<Rightarrow> Some (Inl msg, g1)
     | Some (Returned expr ds, g1) \<Rightarrow>
         (let (out, seen1) = reportCallbackDiags i ds seen in
          case run_epilogues n (Suc i) fns seen1 g1 of
            None \<Rightarrow> None
          | Some (Inl msg, g2) \<Rightarrow> Some (Inl msg, g2)
          | Some (Inr (ds', seen2), g2) \<Rightarrow> Some (Inr (out @ ds', seen2), g2)))"

definition WalkFlows :: "(string \<Rightarrow> (string \<times> string) list) \<Rightarrow> nat \<Rightarrow> wflows \<Rightarrow> (string + wire_diag list \<times> wflows) option" where
  "WalkFlows pkgs n w =
    (case walk_scopes pkgs n (wf_prologues w) (length (wf_epilogues w)) True (wf_scopes w) (wf_gen w) of
       None \<Rightarrow> None
     | Some (Inl msg, g1) \<Rightarrow> Some (Inl msg)
     | Some (Inr (ss, ds), g1) \<Rightarrow>
         (case run_epilogues n 0 (wf_epilogues w) (wf_callbackSeen w) (g1\<lparr>g_flow := [], g_noFlow := True\<rparr>) of
            None \<Rightarrow> None
          | Some (Inl msg, g2) \<Rightarrow> Some (Inl msg)
          | Some (Inr (eds, seen), g2) \<Rightarrow> Some (Inr (ds @ eds, w\<lparr>wf_gen := g2\<lparr>g_noFlow := False\<rparr>, wf_scopes := ss, wf_callbackSeen := seen\<rparr>))))"

section \<open>The validation pass\<close>







section \<open>The walk ends, and builds no typed binding twice\<close>

definition steady :: "wgen \<Rightarrow> wgen \<Rightarrow> bool" where
  "steady g g' \<longleftrightarrow> idle g' = idle g \<and> (once_inv g \<longrightarrow> once_inv g')"

lemma steady_refl [simp]: "steady g g"
  by (simp add: steady_def)

lemma steady_trans: "steady a b \<Longrightarrow> steady b c \<Longrightarrow> steady a c"
  by (simp add: steady_def)

lemma steady_update [simp]:
  "steady g (g\<lparr>g_active := a\<rparr>)" "steady g (g\<lparr>g_flow := f\<rparr>)" "steady g (g\<lparr>g_noFlow := b\<rparr>)"
  by (simp_all add: steady_def idle_def lazy_ids_def running_ids_def once_inv_def settled_types_def type_runs_def split: option.split)

lemma steady_grows: "kept g g' \<Longrightarrow> (g_scope g = None \<Longrightarrow> grows g g') \<Longrightarrow> steady g g'"
proof -
  assume k: "kept g g'" and w: "g_scope g = None \<Longrightarrow> grows g g'"
  have "once_inv g'" if "once_inv g" using grows_once [OF w that] that by (simp add: once_inv_def)
  then show ?thesis using idle_kept [OF k] by (simp add: steady_def)
qed

lemma steady_recordDemand [simp]: "steady g (recordDemand k g)"
  by (rule steady_grows [OF kept_recordDemand grows_ops(1)])

lemma steady_importAs: "importAs path base g = (v, g') \<Longrightarrow> steady g g'"
  by (rule steady_grows [OF kept_importAs grows_names(3)])

lemma steady_TypeExpr: "steady g (TypeExpr_imports pkgs t g)"
proof -
  have "steady g (fold (\<lambda>(path, base) h. snd (importAs path base h)) ps g)" for ps
  proof (induction ps arbitrary: g)
    case (Cons p ps)
    obtain path base where p: "p = (path, base)" by (rule prod.exhaust)
    obtain v h where h: "importAs path base g = (v, h)" by (rule prod.exhaust)
    show ?case using steady_trans [OF steady_importAs [OF h] Cons.IH] p h by simp
  qed simp
  then show ?thesis by (simp add: TypeExpr_imports_def)
qed

lemma steady_epilogues: "steady g (epilogue_demands m g)"
proof -
  have "steady g (fold (\<lambda>i. recordDemand (DemandCallback ''epilogue'' i)) is g)" for "is"
    by (induction "is" arbitrary: g) (auto intro: steady_trans steady_recordDemand)
  then show ?thesis by (simp add: epilogue_demands_def)
qed

lemma exec_steady:
  assumes "below n g"
  shows "\<exists>r g'. exec n p g = Some (r, g') \<and> steady g g'"
proof -
  obtain r g' where e: "exec n p g = Some (r, g')" using exec_enough [OF assms, of 0 p] by (metis not_None_eq prod.exhaust add_0_right)
  have "kept g g'" using keeps_exec e by (simp add: preserves_def)
  moreover have "once_inv g \<longrightarrow> once_inv g'" using once_exec e by (simp add: once_runner_def)
  ultimately show ?thesis using e idle_kept by (simp add: steady_def)
qed

lemma Instance_steady:
  assumes "below n g"
  shows "\<exists>expr ds ok g'. Instance (exec n) t name g = Some ((expr, ds, ok), g') \<and> steady g g'"
proof -
  have "below (Suc n) g" using assms by (simp add: below_def)
  then obtain expr ds ok g' where e: "Instance (exec n) t name g = Some ((expr, ds, ok), g')"
    using Instance_enough [of n g 0 t name] by (metis not_None_eq prod.exhaust)
  have "idle g' = idle g" by (rule idle_kept [OF keeps_Instance [OF keeps_exec e]])
  then show ?thesis using e once_Instance [OF once_exec _ e] by (simp add: steady_def)
qed

lemma steady_idle: "steady g g' \<Longrightarrow> below n g \<Longrightarrow> below n g'"
  by (simp add: steady_def below_def)

lemma prologues_steady: "below n g \<Longrightarrow> \<exists>r g'. walk_prologues n b i fns g = Some (r, g') \<and> steady g g'"
proof (induction n b i fns g rule: walk_prologues.induct)
  case (2 n b i fn fns g)
  let ?k = "DemandCallback ''prologue'' i"
  let ?g = "recordDemand ?k g"
  have d: "steady g ?g" "steady g (push_demand ?k ?g)" unfolding push_demand_def by (rule steady_recordDemand steady_trans [OF steady_recordDemand steady_update(1)])+
  show ?case
  proof (cases b)
    case True
    obtain r g2 where e: "exec n fn (push_demand ?k ?g) = Some (r, g2)" "steady (push_demand ?k ?g) g2"
      using exec_steady [OF steady_idle [OF d(2) "2.prems"]] by blast
    then have s: "steady g g2" "steady g (pop_demand g2)" using d(2) by (auto simp: pop_demand_def intro: steady_trans steady_update(1))
    show ?thesis
    proof (cases r)
      case (Returned expr ds)
      obtain r' g' where "walk_prologues n b (Suc i) fns (pop_demand g2) = Some (r', g')" "steady (pop_demand g2) g'"
        using "2.IH"(1) [OF refl refl True e(1) refl Returned steady_idle [OF s(2) "2.prems"]] by blast
      then show ?thesis using True e(1) Returned steady_trans [OF s(2)] by (simp add: Let_def)
    next
      case (Panicked msg)
      then show ?thesis using True e(1) s(1) by (simp add: Let_def)
    qed
  next
    case False
    obtain r' g' where "walk_prologues n b (Suc i) fns ?g = Some (r', g')" "steady ?g g'"
      using "2.IH"(2) [OF refl refl False steady_idle [OF d(1) "2.prems"]] by blast
    then show ?thesis using False steady_trans [OF d(1)] by (simp add: Let_def)
  qed
qed simp


lemma roots_steady:
  "below n g \<Longrightarrow> \<exists>exprs ds g'. walk_roots pkgs n pos rs g = Some ((exprs, ds), g') \<and> length exprs = length rs \<and> steady g g'"
proof (induction rs arbitrary: g)
  case (Cons r rs)
  obtain t name where r: "r = (t, name)" by (rule prod.exhaust)
  obtain expr rds ok g1 where i: "Instance (exec n) t name g = Some ((expr, rds, ok), g1)" "steady g g1" using Instance_steady [OF Cons.prems] by blast
  define mg where "mg = (if \<not> ok \<and> rds = [] then let (p, h) = MissingBinding pkgs t name g1 in ([wire_error pos p], h) else ([], g1))"
  obtain mds g2 where m: "mg = (mds, g2)" by (rule prod.exhaust)
  have "steady g1 g2" using m by (auto simp: mg_def MissingBinding_def Let_def steady_TypeExpr split: if_splits)
  then have s: "steady g g2" using i(2) steady_trans by blast
  obtain exprs ds g3 where "walk_roots pkgs n pos rs g2 = Some ((exprs, ds), g3)" "length exprs = length rs" "steady g2 g3"
    using Cons.IH [OF steady_idle [OF s Cons.prems]] by blast
  then show ?case using r i(1) m steady_trans [OF s] by (simp add: mg_def)
qed simp

definition filled :: "flow_scope list \<Rightarrow> flow_scope list \<Rightarrow> bool" where
  "filled ss ss' \<longleftrightarrow> list_all2 (\<lambda>s s'. \<exists>exprs. length exprs = length (fs_roots s) \<and> s' = s\<lparr>fs_rootExprs := fs_rootExprs s @ exprs\<rparr>) ss ss'"

lemma scopes_steady:
  "below n g \<Longrightarrow> \<exists>r g'. walk_scopes pkgs n pros m b ss g = Some (r, g') \<and> steady g g' \<and>
     (case r of Inl msg \<Rightarrow> True | Inr (ss', ds) \<Rightarrow> filled ss ss')"
proof (induction ss arbitrary: b g)
  case (Cons s ss)
  have c: "below n (g\<lparr>g_flow := fs_fn s\<rparr>)" by (rule steady_idle [OF steady_update(2) Cons.prems])
  obtain r1 g1 where p: "walk_prologues n b 0 pros (g\<lparr>g_flow := fs_fn s\<rparr>) = Some (r1, g1)" "steady (g\<lparr>g_flow := fs_fn s\<rparr>) g1"
    using prologues_steady [OF c] by blast
  then have s1: "steady g g1" using steady_trans [OF steady_update(2)] by blast
  show ?case
  proof (cases r1)
    case (Inr u)
    obtain exprs ds g2 where q: "walk_roots pkgs n (fs_pos s) (fs_roots s) g1 = Some ((exprs, ds), g2)" "length exprs = length (fs_roots s)" "steady g1 g2"
      using roots_steady [OF steady_idle [OF s1 Cons.prems]] by blast
    have s2: "steady g (epilogue_demands m g2)" by (rule steady_trans [OF s1 steady_trans [OF q(3) steady_epilogues]])
    obtain r3 g3 where w: "walk_scopes pkgs n pros m False ss (epilogue_demands m g2) = Some (r3, g3)" "steady (epilogue_demands m g2) g3"
        "case r3 of Inl msg \<Rightarrow> True | Inr (ss', ds) \<Rightarrow> filled ss ss'"
      using Cons.IH [OF steady_idle [OF s2 Cons.prems]] by blast
    then show ?thesis using p(1) Inr q(1,2) steady_trans [OF s2 w(2)] by (auto simp: filled_def split: sum.splits)
  qed (use p(1) s1 in simp)
qed (simp add: filled_def)

lemma epilogues_steady: "below n g \<Longrightarrow> \<exists>r g'. run_epilogues n i fns seen g = Some (r, g') \<and> steady g g'"
proof (induction fns arbitrary: i seen g)
  case (Cons fn fns)
  obtain r g1 where e: "exec n fn g = Some (r, g1)" "steady g g1" using exec_steady [OF Cons.prems] by blast
  show ?case
  proof (cases r)
    case (Returned expr ds)
    obtain out seen1 where o: "reportCallbackDiags i ds seen = (out, seen1)" by (rule prod.exhaust)
    obtain r2 g2 where "run_epilogues n (Suc i) fns seen1 g1 = Some (r2, g2)" "steady g1 g2" using Cons.IH [OF steady_idle [OF e(2) Cons.prems]] by blast
    then show ?thesis using e Returned o steady_trans [OF e(2)] by (cases r2) auto
  qed (use e in simp)
qed simp

text \<open>C12: The walk over the flows ends and builds no typed binding twice. Whatever closures and callbacks do, registering further
  bindings included, given a depth beyond the number of lazy bindings registered and of keys closures can register,
  the walk returns. Unless a callback panics, every scope has got one expression for
  each of its roots, in their order, and over all flows together the closure of a typed binding was run at most once.\<close>

theorem gen_walk_once:
  assumes "g_scope (wf_gen w) = None" "g_runs (wf_gen w) = []" "finite (lr_id ` ran (g_code (wf_gen w)))" "lazy_count (wf_gen w) < n"
  shows "\<exists>r. WalkFlows pkgs n w = Some r \<and> (case r of Inl msg \<Rightarrow> True | Inr (ds, w') \<Rightarrow> filled (wf_scopes w) (wf_scopes w') \<and> distinct (type_runs (wf_gen w')))"
proof -
  have c: "below n (wf_gen w)" using lazy_bound [OF assms(3), of "n - 1"] assms(4) by simp
  obtain r1 g1 where w: "walk_scopes pkgs n (wf_prologues w) (length (wf_epilogues w)) True (wf_scopes w) (wf_gen w) = Some (r1, g1)" "steady (wf_gen w) g1"
      "case r1 of Inl msg \<Rightarrow> True | Inr (ss', ds) \<Rightarrow> filled (wf_scopes w) ss'"
    using scopes_steady [OF c] by blast
  let ?g = "g1\<lparr>g_flow := [], g_noFlow := True\<rparr>"
  have s: "steady (wf_gen w) ?g" by (rule steady_trans [OF w(2) steady_trans [OF steady_update(2) steady_update(3)]])
  obtain r2 g2 where e: "run_epilogues n 0 (wf_epilogues w) (wf_callbackSeen w) ?g = Some (r2, g2)" "steady ?g g2"
    using epilogues_steady [OF steady_idle [OF s c]] by blast
  have "once_inv (wf_gen w)" using assms(1,2) by (simp add: once_inv_def settled_types_def type_runs_def)
  then have "once_inv (g2\<lparr>g_noFlow := False\<rparr>)" using steady_trans [OF s steady_trans [OF e(2) steady_update(3)]] by (simp add: steady_def)
  then have "distinct (type_runs (g2\<lparr>g_noFlow := False\<rparr>))" by (simp add: once_inv_def)
  then show ?thesis using w(1,3) e(1) by (cases r1; cases r2) (auto simp: WalkFlows_def)
qed


section \<open>Validation leaves the shared state alone\<close>

































section \<open>Which flow needs which demand\<close>

text \<open>The maps of edges are ranged over in an order that Go does not fix: \<open>order i\<close> is the order of the edges in pass \<open>i\<close>.\<close>

definition propagate_edge :: "demand_key \<times> demand_key \<Rightarrow> (demand_key \<times> string) set \<Rightarrow> (demand_key \<times> string) set" where
  "propagate_edge e D = D \<union> (\<lambda>(k, f). (snd e, f)) ` Set.filter (\<lambda>(k, f). k = fst e) D"

definition propagate_pass :: "(demand_key \<times> demand_key) list \<Rightarrow> (demand_key \<times> string) set \<Rightarrow> (demand_key \<times> string) set" where
  "propagate_pass es D = fold propagate_edge es D"

fun propagate_loop :: "nat \<Rightarrow> (nat \<Rightarrow> (demand_key \<times> demand_key) list) \<Rightarrow> nat \<Rightarrow> (demand_key \<times> string) set \<Rightarrow> (demand_key \<times> string) set option" where
  "propagate_loop 0 order i D = None"
| "propagate_loop (Suc n) order i D = (let D' = propagate_pass (order i) D in if D' = D then Some D' else propagate_loop n order (Suc i) D')"

definition propagateDemandUsage :: "nat \<Rightarrow> (nat \<Rightarrow> (demand_key \<times> demand_key) list) \<Rightarrow> wgen \<Rightarrow> wgen option" where
  "propagateDemandUsage fuel order g = map_option (\<lambda>D. g\<lparr>g_demands := D\<rparr>) (propagate_loop fuel order 0 (g_demands g))"

definition usage_closure :: "(demand_key \<times> demand_key) set \<Rightarrow> (demand_key \<times> string) set \<Rightarrow> (demand_key \<times> string) set" where
  "usage_closure E D = {(k, f). \<exists>p. (p, k) \<in> E\<^sup>* \<and> (p, f) \<in> D}"

lemma propagate_edge_iff: "(k, f) \<in> propagate_edge e D \<longleftrightarrow> (k, f) \<in> D \<or> k = snd e \<and> (fst e, f) \<in> D"
  by (force simp: propagate_edge_def)

lemma pass_mono: "D \<subseteq> propagate_pass es D"
proof (induction es arbitrary: D)
  case (Cons e es)
  have "D \<subseteq> propagate_edge e D" by (simp add: propagate_edge_def)
  then show ?case using Cons.IH [of "propagate_edge e D"] by (simp add: propagate_pass_def)
qed (simp add: propagate_pass_def)

lemma pass_within: "set es \<subseteq> E \<Longrightarrow> D \<subseteq> usage_closure E D0 \<Longrightarrow> propagate_pass es D \<subseteq> usage_closure E D0"
proof (induction es arbitrary: D)
  case (Cons e es)
  have "propagate_edge e D \<subseteq> usage_closure E D0"
  proof
    fix x assume "x \<in> propagate_edge e D"
    then obtain k f where x: "x = (k, f)" and "(k, f) \<in> D \<or> k = snd e \<and> (fst e, f) \<in> D" using propagate_edge_iff by (metis surj_pair)
    then consider "x \<in> D" | "k = snd e" "(fst e, f) \<in> D" by auto
    then show "x \<in> usage_closure E D0"
    proof cases
      case 2
      then obtain p where "(p, fst e) \<in> E\<^sup>*" "(p, f) \<in> D0" using Cons.prems(2) by (auto simp: usage_closure_def)
      moreover have "(fst e, snd e) \<in> E" using Cons.prems(1) by simp
      ultimately have "(p, k) \<in> E\<^sup>*" using 2(1) by (simp add: rtrancl_into_rtrancl)
      then show ?thesis using \<open>(p, f) \<in> D0\<close> x by (auto simp: usage_closure_def)
    qed (use Cons.prems(2) in blast)
  qed
  then show ?case using Cons by (simp add: propagate_pass_def)
qed (simp add: propagate_pass_def)

lemma pass_fixed:
  assumes "propagate_pass es D = D" "(p, k) \<in> set es" "(p, f) \<in> D"
  shows "(k, f) \<in> D"
proof -
  obtain xs ys where es: "es = xs @ (p, k) # ys" using assms(2) by (meson split_list)
  have "(p, f) \<in> propagate_pass xs D" using assms(3) pass_mono by blast
  then have "(k, f) \<in> propagate_edge (p, k) (propagate_pass xs D)" by (simp add: propagate_edge_iff)
  then have "(k, f) \<in> propagate_pass ys (propagate_edge (p, k) (propagate_pass xs D))" using pass_mono by blast
  then show ?thesis using assms(1) es by (simp add: propagate_pass_def)
qed

lemma closed_usage:
  assumes "\<And>p k f. (p, k) \<in> E \<Longrightarrow> (p, f) \<in> D \<Longrightarrow> (k, f) \<in> D" "D0 \<subseteq> D"
  shows "usage_closure E D0 \<subseteq> D"
proof
  fix x assume "x \<in> usage_closure E D0"
  then obtain p k f where x: "x = (k, f)" and r: "(p, k) \<in> E\<^sup>*" and d: "(p, f) \<in> D0" by (auto simp: usage_closure_def)
  have "(k, f) \<in> D" using r by (induction rule: rtrancl_induct) (use d assms in auto)
  then show "x \<in> D" using x by simp
qed

lemma propagate_ends:
  "finite (usage_closure E D0) \<Longrightarrow> (\<And>i. set (order i) = E) \<Longrightarrow> D0 \<subseteq> D \<Longrightarrow> D \<subseteq> usage_closure E D0 \<Longrightarrow> card (usage_closure E D0) - card D < n \<Longrightarrow>
     propagate_loop n order i D = Some (usage_closure E D0)"
proof (induction n order i D rule: propagate_loop.induct)
  case (2 n order i D)
  let ?C = "usage_closure E D0" and ?D = "propagate_pass (order i) D"
  have in_C: "?D \<subseteq> ?C" using "2.prems" by (intro pass_within) auto
  show ?case
  proof (cases "?D = D")
    case True
    have "?C \<subseteq> D" using pass_fixed [OF True] "2.prems"(2,3) by (intro closed_usage) auto
    then show ?thesis using True "2.prems"(4) by (simp add: Let_def)
  next
    case False
    then have "D \<subset> ?D" using pass_mono by blast
    then have "card D < card ?D" "card ?D \<le> card ?C" using in_C "2.prems"(1) finite_subset by (auto intro!: psubset_card_mono card_mono)
    then have "card ?C - card ?D < n" using "2.prems"(5) by linarith
    then show ?thesis using "2.IH" [OF refl False "2.prems"(1,2) _ in_C] \<open>D \<subset> ?D\<close> "2.prems"(3) False by (auto simp: Let_def)
  qed
qed simp

lemma usage_closure_bound:
  assumes "finite D" "finite E"
  shows "finite (usage_closure E D)" "card (usage_closure E D) \<le> card (fst ` D \<union> snd ` E) * card (snd ` D)"
proof -
  have s: "usage_closure E D \<subseteq> (fst ` D \<union> snd ` E) \<times> snd ` D"
  proof
    fix x assume "x \<in> usage_closure E D"
    then obtain p k f where x: "x = (k, f)" and r: "(p, k) \<in> E\<^sup>*" and d: "(p, f) \<in> D" by (auto simp: usage_closure_def)
    have "k \<in> fst ` D \<union> snd ` E" using r d by (cases rule: rtranclE) (auto intro: rev_image_eqI)
    then show "x \<in> (fst ` D \<union> snd ` E) \<times> snd ` D" using x d by (auto intro: rev_image_eqI)
  qed
  have f: "finite ((fst ` D \<union> snd ` E) \<times> snd ` D)" using assms by simp
  show "finite (usage_closure E D)" by (rule finite_subset [OF s f])
  show "card (usage_closure E D) \<le> card (fst ` D \<union> snd ` E) * card (snd ` D)" using card_mono [OF f s] by (simp add: card_cartesian_product)
qed

text \<open>C14: Usage is exact. Whatever order Go ranges over the maps in, differently in every pass, the loop ends after at most
  as many passes as there are pairs of a demand and a flow, plus one, and then a demand is needed by exactly the flows
  that reach it: those recorded for it or for a demand from which it is reached through recorded edges.\<close>

theorem gen_usage_exact:
  assumes "finite (g_demands g)" "finite (g_demandEdges g)" "\<And>i. set (order i) = g_demandEdges g"
    and "card (fst ` g_demands g \<union> snd ` g_demandEdges g) * card (snd ` g_demands g) < fuel"
  shows "propagateDemandUsage fuel order g = Some (g\<lparr>g_demands := {(k, f). \<exists>p. (p, k) \<in> (g_demandEdges g)\<^sup>* \<and> (p, f) \<in> g_demands g}\<rparr>)"
proof -
  let ?C = "usage_closure (g_demandEdges g) (g_demands g)"
  have sub: "g_demands g \<subseteq> ?C" by (auto simp: usage_closure_def)
  have "card ?C < fuel" using usage_closure_bound(2) [OF assms(1,2)] assms(4) by linarith
  then have "propagate_loop fuel order 0 (g_demands g) = Some ?C"
    using usage_closure_bound(1) [OF assms(1,2)] assms(3) sub by (intro propagate_ends) auto
  then show ?thesis by (simp add: propagateDemandUsage_def usage_closure_def)
qed


section \<open>An example\<close>

definition flows_example :: wflows where
  "flows_example = \<lparr>wf_gen = wire_example, wf_scopes = [\<lparr>fs_fn = ''buildServe'', fs_pos = noPos, fs_roots = [(''a.A'', []), (''c.C'', [])], fs_rootExprs = []\<rparr>,
       \<lparr>fs_fn = ''buildWork'', fs_pos = noPos, fs_roots = [(''b.B'', []), (''x.X'', ''main'')], fs_rootExprs = []\<rparr>],
     wf_prologues = [NewVar ''opts'' (\<lambda>v. Ret v [])], wf_epilogues = [AskPath ''d.D'' (\<lambda>e ds ok. Ret e ds)], wf_callbackSeen = []\<rparr>"

theorem gen_walk_once_witness:
  "\<exists>r. WalkFlows (\<lambda>t. []) 7 flows_example = Some r \<and>
     (case r of Inl msg \<Rightarrow> True | Inr (ds, w') \<Rightarrow> filled (wf_scopes flows_example) (wf_scopes w') \<and> distinct (type_runs (wf_gen w')))"
  using gen_walk_once [of flows_example 7 "\<lambda>t. []"] wire_example_fields by (simp add: flows_example_def)


definition usage_example :: wgen where
  "usage_example = wire_empty\<lparr>g_demands := {(DemandType ''a.A'' [], ''buildServe''), (DemandPath ''b.B'', ''buildWork'')},
     g_demandEdges := {(DemandType ''a.A'' [], DemandPath ''b.B''), (DemandPath ''b.B'', DemandSingleton ''mux'')}\<rparr>"

lemma usage_example_fields [simp]:
  "g_demands usage_example = {(DemandType ''a.A'' [], ''buildServe''), (DemandPath ''b.B'', ''buildWork'')}"
  "g_demandEdges usage_example = {(DemandType ''a.A'' [], DemandPath ''b.B''), (DemandPath ''b.B'', DemandSingleton ''mux'')}"
  by (simp_all add: usage_example_def)

theorem gen_usage_exact_witness:
  "propagateDemandUsage 9 (\<lambda>i. [(DemandPath ''b.B'', DemandSingleton ''mux''), (DemandType ''a.A'' [], DemandPath ''b.B'')]) usage_example =
     Some (usage_example\<lparr>g_demands := {(k, f). \<exists>p. (p, k) \<in> (g_demandEdges usage_example)\<^sup>* \<and> (p, f) \<in> g_demands usage_example}\<rparr>)"
  by (rule gen_usage_exact) (auto simp: insert_commute card_insert_if)


definition warn_example :: wflows where
  "warn_example = \<lparr>wf_gen = wire_empty\<lparr>g_lazyByPath := [(''d.D'', \<lparr>lb_build = EmitNode (Raw (phase_base PhaseWire) [''setup()''] [] False)
       (Ret ''d'' [\<lparr>wd_Severity = SevWarning, wd_Pos = noPos, wd_Problem = OtherProblem ''old'', wd_First = None\<rparr>]), lb_owner = ''provider'', lb_pos = noPos\<rparr>)]\<rparr>,
     wf_scopes = [], wf_prologues = [], wf_epilogues = [AskPath ''d.D'' (\<lambda>e ds ok. Ret e ds), AskPath ''d.D'' (\<lambda>e ds ok. Ret e ds)], wf_callbackSeen = []\<rparr>"

text \<open>A path binding can be built more than once. One whose closure returns a warning is not kept by \<open>materializePath\<close>, which
  stores an expression only when there are no diagnostics at all: asked for by two callbacks of one walk, its closure
  runs twice, emits its statement twice and returns its warning twice.\<close>

theorem gen_path_warning_rebuilt:
  "case WalkFlows (\<lambda>t. []) 5 warn_example of
     Some (Inr (ds, w)) \<Rightarrow> g_runs (wf_gen w) = [LazyPath ''d.D'', LazyPath ''d.D''] \<and> length (g_nodes (wf_gen w)) = 2 \<and> length ds = 2
   | _ \<Rightarrow> False"
  by (simp add: warn_example_def wire_empty_def WalkFlows_def InstancePath_def materializePath_def run_build_def enter_build_def leave_build_def
      setLazyRunning_def lazyRunning_def recordDemand_def flowID_def HasFatal_def numeral_eq_Suc Let_def emit_node_def phase_base_def stamp_base_def)

end
