(* ===== verification/GenPlan.thy ===== *)
theory GenPlan
  imports GenLayout GenFlows
begin

text \<open>
  \<open>gen/fragment.go\<close>: planning. The statements of the shared store are partitioned into regions, connected statements that
  the same flows need; each region becomes a function that these flows share. Every flow then is an order of regions and
  single statements.

  \<^item> Regions are numbered in the order of their creation, and the number stands for the address; a dissolved region keeps
    its number and has no members.
  \<^item> Units of a flow are numbered by their place in the list \<open>units\<close>.
  \<^item> \<open>parse\<close> is \<open>go/parser\<close>, as in the theory of statements.
\<close>

section \<open>Usage of nodes and regions\<close>

definition demandFlows :: "(demand_key \<times> string) set \<Rightarrow> demand_key \<Rightarrow> string list" where
  "demandFlows D k = sorted_list_of_set (snd ` Set.filter (\<lambda>(k', f). k' = k) D)"

definition nodeUsage :: "(demand_key \<times> string) set \<Rightarrow> store_node \<Rightarrow> string list" where
  "nodeUsage D sn =
    (case sn_demand sn of
       Some k \<Rightarrow> demandFlows D k
     | None \<Rightarrow> if sn_flow sn \<noteq> [] then [sn_flow sn] else [''default''])"

record region =
  rg_usage :: "string list"
  rg_members :: "nat list"
  rg_primaryExpr :: string
  rg_primaryVar :: string

definition rg_runs :: "region \<Rightarrow> string \<Rightarrow> bool" where
  "rg_runs r flow \<longleftrightarrow> flow \<in> set (rg_usage r)"

record plan_state =
  ps_nodes :: "gnode list"
  ps_flowsOf :: "string list list"
  ps_isConfig :: "bool list"
  ps_definedBy :: "(string, nat) gomap"
  ps_allVars :: "string list"
  ps_regions :: "region list"
  ps_memberOf :: "nat list list"

definition isConfigLoad :: "gnode \<Rightarrow> bool" where
  "isConfigLoad n = (case n of ConfigLoad b v p t pre os \<Rightarrow> True | _ \<Rightarrow> False)"

definition plan_init :: "(demand_key \<times> string) set \<Rightarrow> store_node list \<Rightarrow> plan_state" where
  "plan_init D sns =
    (let ns = map sn_n sns in
     \<lparr>ps_nodes = ns, ps_flowsOf = map (nodeUsage D) sns, ps_isConfig = map isConfigLoad ns,
      ps_definedBy = fold (\<lambda>i. fold (\<lambda>d. goput d i) (node_defines (ns ! i))) [0..<length ns] [],
      ps_allVars = concat (map node_defines ns), ps_regions = [], ps_memberOf = replicate (length ns) []\<rparr>)"

definition homeFor :: "plan_state \<Rightarrow> nat \<Rightarrow> string \<Rightarrow> nat option" where
  "homeFor ps i flow = find (\<lambda>r. rg_runs (ps_regions ps ! r) flow) (ps_memberOf ps ! i)"

section \<open>The order of a flow\<close>

record flow_unit =
  un_reg :: "nat option"
  un_nodes :: "nat list"
  un_first :: nat

definition place :: "(nat \<Rightarrow> nat option) \<Rightarrow> nat \<Rightarrow> flow_unit list \<Rightarrow> flow_unit list" where
  "place home i us =
    (case home i of
       None \<Rightarrow> us @ [\<lparr>un_reg = None, un_nodes = [i], un_first = i\<rparr>]
     | Some r \<Rightarrow>
         if list_ex (\<lambda>u. un_reg u = Some r) us
         then map (\<lambda>u. if un_reg u = Some r then u\<lparr>un_nodes := un_nodes u @ [i]\<rparr> else u) us
         else us @ [\<lparr>un_reg = Some r, un_nodes = [i], un_first = i\<rparr>])"

definition flow_nodes :: "plan_state \<Rightarrow> string \<Rightarrow> nat list" where
  "flow_nodes ps flow = filter (\<lambda>i. flow \<in> set (ps_flowsOf ps ! i)) [0..<length (ps_nodes ps)]"

definition flow_units :: "plan_state \<Rightarrow> string \<Rightarrow> flow_unit list" where
  "flow_units ps flow = sort_key un_first (fold (place (\<lambda>i. homeFor ps i flow)) (flow_nodes ps flow) [])"

definition un_hook :: "plan_state \<Rightarrow> flow_unit \<Rightarrow> bool" where
  "un_hook ps u \<longleftrightarrow> list_ex (\<lambda>i. node_Phase (ps_nodes ps ! i) = PhaseSetup) (un_nodes u)"

definition un_prov :: "plan_state \<Rightarrow> flow_unit \<Rightarrow> bool" where
  "un_prov ps u \<longleftrightarrow> list_ex (\<lambda>i. node_Phase (ps_nodes ps ! i) \<in> {PhaseWire, PhaseMiddleware, PhaseRegister}) (un_nodes u)"

text \<open>The unit a statement belongs to in a flow: the one that holds it, or the one of the region it is a member of.\<close>

definition unit_of :: "plan_state \<Rightarrow> string \<Rightarrow> flow_unit list \<Rightarrow> nat \<Rightarrow> nat option" where
  "unit_of ps flow us j =
    (case find (\<lambda>v. j \<in> set (un_nodes (us ! v))) [0..<length us] of
       Some v \<Rightarrow> Some v
     | None \<Rightarrow>
         (case homeFor ps j flow of
            Some r \<Rightarrow> find (\<lambda>v. un_reg (us ! v) = Some r) [0..<length us]
          | None \<Rightarrow> None))"

definition unit_deps :: "(string \<Rightarrow> gast option) \<Rightarrow> plan_state \<Rightarrow> string \<Rightarrow> flow_unit list \<Rightarrow> nat \<Rightarrow> nat list" where
  "unit_deps parse ps flow us u =
    filter (\<lambda>v. v \<noteq> u)
      (List.map_filter (unit_of ps flow us)
        (List.map_filter (map_of (ps_definedBy ps))
          (concat (map (\<lambda>i. uses parse (ps_nodes ps ! i) (set (ps_allVars ps))) (un_nodes (us ! u))))))"

definition order_next :: "nat list list \<Rightarrow> bool list \<Rightarrow> bool list \<Rightarrow> nat list \<Rightarrow> nat option" where
  "order_next deps hook prov emitted =
    (let hooksLeft = length (filter (\<lambda>u. hook ! u \<and> u \<notin> set emitted) [0..<length deps])
     in find (\<lambda>u. u \<notin> set emitted \<and> list_all (\<lambda>d. d \<in> set emitted) (deps ! u) \<and> \<not> (prov ! u \<and> \<not> hook ! u \<and> hooksLeft > 0)) [0..<length deps])"

fun order_loop :: "nat \<Rightarrow> nat list list \<Rightarrow> bool list \<Rightarrow> bool list \<Rightarrow> nat list \<Rightarrow> nat list" where
  "order_loop 0 deps hook prov emitted = emitted"
| "order_loop (Suc remaining) deps hook prov emitted =
    (case order_next deps hook prov emitted of
       None \<Rightarrow> emitted
     | Some u \<Rightarrow> order_loop remaining deps hook prov (emitted @ [u]))"

definition flow_order :: "(string \<Rightarrow> gast option) \<Rightarrow> plan_state \<Rightarrow> string \<Rightarrow> nat list" where
  "flow_order parse ps flow =
    (let us = flow_units ps flow
     in order_loop (length us) (map (unit_deps parse ps flow us) [0..<length us]) (map (un_hook ps) us) (map (un_prov ps) us) [])"

datatype plan_step = RegionStep nat | NodeStep nat

definition unit_step :: "flow_unit \<Rightarrow> plan_step" where
  "unit_step u = (case un_reg u of Some r \<Rightarrow> RegionStep r | None \<Rightarrow> NodeStep (hd (un_nodes u)))"

definition orderFlow :: "(string \<Rightarrow> gast option) \<Rightarrow> plan_state \<Rightarrow> string \<Rightarrow> plan_step list \<times> nat option" where
  "orderFlow parse ps flow =
    (let us = flow_units ps flow; order = flow_order parse ps flow
     in (map (\<lambda>u. unit_step (us ! u)) order,
         case find (\<lambda>u. u \<notin> set order \<and> un_reg (us ! u) \<noteq> None) [0..<length us] of Some u \<Rightarrow> un_reg (us ! u) | None \<Rightarrow> None))"


section \<open>The scheduler\<close>

text \<open>What a unit waits for: its dependencies, and every hook when it constructs something and is no hook itself.\<close>

definition order_waits :: "nat list list \<Rightarrow> bool list \<Rightarrow> bool list \<Rightarrow> nat list list" where
  "order_waits deps hook prov =
    map (\<lambda>u. deps ! u @ (if prov ! u \<and> \<not> hook ! u then filter (\<lambda>v. hook ! v) [0..<length deps] else [])) [0..<length deps]"

lemma order_waits_length [simp]: "length (order_waits deps hook prov) = length deps"
  by (simp add: order_waits_def)

lemma order_next_eq:
  "order_next deps hook prov emitted = find (\<lambda>u. u \<notin> set emitted \<and> set (order_waits deps hook prov ! u) \<subseteq> set emitted) [0..<length deps]"
proof -
  let ?left = "length (filter (\<lambda>u. hook ! u \<and> u \<notin> set emitted) [0..<length deps])"
  have h: "?left > 0 \<longleftrightarrow> (\<exists>v < length deps. hook ! v \<and> v \<notin> set emitted)" by (auto simp: filter_empty_conv)
  show ?thesis unfolding order_next_def Let_def
    by (rule find_cong [OF refl]) (auto simp: h order_waits_def list_all_iff simp del: length_greater_0_conv)
qed

lemma order_next_some:
  assumes "order_next deps hook prov emitted = Some u"
  shows "u < length deps" "u \<notin> set emitted" "set (order_waits deps hook prov ! u) \<subseteq> set emitted"
  using assms by (auto simp: order_next_eq find_Some_iff)

lemma order_loop_inv:
  assumes "distinct emitted" "set emitted \<subseteq> {..<length deps}" "topo (order_waits deps hook prov) emitted"
  shows "distinct (order_loop n deps hook prov emitted) \<and> set (order_loop n deps hook prov emitted) \<subseteq> {..<length deps} \<and>
    topo (order_waits deps hook prov) (order_loop n deps hook prov emitted)"
  using assms
proof (induction n deps hook prov emitted rule: order_loop.induct)
  case (2 n deps hook prov emitted)
  show ?case
  proof (cases "order_next deps hook prov emitted")
    case (Some u)
    note u = order_next_some [OF Some]
    have "distinct (emitted @ [u])" "set (emitted @ [u]) \<subseteq> {..<length deps}" "topo (order_waits deps hook prov) (emitted @ [u])"
      using u "2.prems" by (auto simp: topo_snoc)
    then show ?thesis using "2.IH" [OF Some] Some by simp
  qed (use "2.prems" in simp)
qed simp

lemma order_next_exists:
  assumes "acyclic (dep_rel (order_waits deps hook prov))" "\<forall>u < length deps. \<forall>v \<in> set (deps ! u). v < length deps" "set emitted \<subset> {..<length deps}"
  shows "order_next deps hook prov emitted \<noteq> None"
proof -
  obtain i where i: "i < length deps" "i \<notin> set emitted" using assms(3) by auto
  let ?done = "map (\<lambda>u. u \<in> set emitted) [0..<length deps]"
  have b: "\<forall>u < length (order_waits deps hook prov). \<forall>v \<in> set (order_waits deps hook prov ! u). v < length (order_waits deps hook prov)"
    using assms(2) by (auto simp: order_waits_def split: if_splits)
  obtain u where u: "u < length deps" "\<not> ?done ! u" "\<forall>v \<in> set (order_waits deps hook prov ! u). ?done ! v"
    using acyclic_source [OF assms(1) b, of i ?done] i by auto
  have "v \<in> set emitted" if "v \<in> set (order_waits deps hook prov ! u)" for v using u(3) that b u(1) by auto
  then show ?thesis using u(1,2) by (auto simp: order_next_eq find_None_iff)
qed

lemma order_loop_complete:
  assumes "acyclic (dep_rel (order_waits deps hook prov))" "\<forall>u < length deps. \<forall>v \<in> set (deps ! u). v < length deps"
    and "distinct emitted" "set emitted \<subseteq> {..<length deps}" "length emitted + n = length deps"
  shows "set (order_loop n deps hook prov emitted) = {..<length deps}"
  using assms
proof (induction n deps hook prov emitted rule: order_loop.induct)
  case (1 deps hook prov emitted)
  then show ?case using card_subset_eq [of "{..<length deps}" "set emitted"] by (simp add: distinct_card)
next
  case (2 n deps hook prov emitted)
  have "card (set emitted) < card {..<length deps}" using "2.prems"(3,5) distinct_card [of emitted] by simp
  then have "set emitted \<subset> {..<length deps}" using "2.prems"(4) by (metis less_irrefl psubsetI)
  from order_next_exists [OF "2.prems"(1,2) this] obtain u where u: "order_next deps hook prov emitted = Some u" by blast
  then show ?case using "2.IH" [OF u "2.prems"(1,2)] order_next_some [OF u] "2.prems" by simp
qed

lemma topo_acyclic:
  assumes "topo deps order" "distinct order" "set order = {..<length deps}"
  shows "acyclic (dep_rel deps)"
proof -
  define pos where "pos v = (THE k. k < length order \<and> order ! k = v)" for v
  have pos: "pos (order ! k) = k" if "k < length order" for k unfolding pos_def
    using that assms(2) by (intro the_equality) (auto simp: nth_eq_iff_index_eq)
  have "dep_rel deps \<subseteq> measure pos"
  proof
    fix x assume "x \<in> dep_rel deps"
    then obtain j i where x: "x = (j, i)" "i < length deps" "j \<in> set (deps ! i)" by (auto simp: dep_rel_def)
    obtain k where k: "k < length order" "order ! k = i" using x(2) assms(3) by (metis in_set_conv_nth lessThan_iff)
    have "j \<in> set (take k order)" using assms(1) k x(3) by (auto simp: topo_def)
    then obtain m where "m < k" "order ! m = j" using k(1) by (auto simp: in_set_conv_nth)
    then have "pos j < pos i" using pos k by (metis less_trans)
    then show "x \<in> measure pos" using x(1) by simp
  qed
  then show ?thesis using wf_measure wf_subset wf_acyclic by blast
qed


section \<open>Units partition the statements of a flow\<close>

definition unit_ok :: "(nat \<Rightarrow> nat option) \<Rightarrow> nat list \<Rightarrow> flow_unit \<Rightarrow> bool" where
  "unit_ok home ns u \<longleftrightarrow> un_nodes u \<noteq> [] \<and>
     (case un_reg u of
        None \<Rightarrow> un_nodes u = [hd (un_nodes u)] \<and> home (hd (un_nodes u)) = None
      | Some r \<Rightarrow> un_nodes u = filter (\<lambda>i. home i = Some r) ns)"

definition placed :: "(nat \<Rightarrow> nat option) \<Rightarrow> nat list \<Rightarrow> flow_unit list \<Rightarrow> bool" where
  "placed home ns us \<longleftrightarrow> (\<forall>u \<in> set us. unit_ok home ns u) \<and> distinct (concat (map un_nodes us)) \<and> set (concat (map un_nodes us)) = set ns"

lemma placed_unit:
  assumes "placed home ns us" "v \<in> set us" "un_reg v = Some r"
  shows "un_nodes v = filter (\<lambda>i. home i = Some r) ns" "un_nodes v \<noteq> []"
proof -
  have "unit_ok home ns v" using assms(1,2) by (simp add: placed_def)
  then have "un_nodes v \<noteq> [] \<and> un_nodes v = filter (\<lambda>i. home i = Some r) ns" unfolding unit_ok_def assms(3) option.case .
  then show "un_nodes v = filter (\<lambda>i. home i = Some r) ns" "un_nodes v \<noteq> []" by blast+
qed

lemma placed_home:
  assumes "placed home ns us" "i \<in> set ns" "home i = Some r"
  shows "\<exists>u \<in> set us. un_reg u = Some r"
proof -
  obtain u where u: "u \<in> set us" "i \<in> set (un_nodes u)" using assms(1,2) by (auto simp: placed_def)
  then have ok: "unit_ok home ns u" using assms(1) by (simp add: placed_def)
  show ?thesis
  proof (cases "un_reg u")
    case None
    then have "un_nodes u = [hd (un_nodes u)]" "home (hd (un_nodes u)) = None" using ok by (simp_all only: unit_ok_def option.case)
    then show ?thesis using u(2) assms(3) by (metis empty_iff empty_set option.distinct(1) set_ConsD)
  next
    case (Some r')
    have "i \<in> set (filter (\<lambda>i. home i = Some r') ns)" using placed_unit(1) [OF assms(1) u(1) Some] u(2) by metis
    then show ?thesis using Some u(1) assms(3) by auto
  qed
qed

lemma placed_region:
  assumes "placed home ns us" "us = xs @ u # ys" "un_reg u = Some r" "v \<in> set xs \<union> set ys"
  shows "un_reg v \<noteq> Some r"
proof
  assume "un_reg v = Some r"
  moreover have "v \<in> set us" "u \<in> set us" using assms(2,4) by auto
  ultimately have n: "un_nodes v = un_nodes u" "un_nodes u \<noteq> []" using placed_unit [OF assms(1)] assms(3) by metis+
  then obtain x where x: "x \<in> set (un_nodes u)" by (meson ex_in_conv set_empty)
  have "distinct (concat (map un_nodes xs) @ un_nodes u @ concat (map un_nodes ys))" using assms(1,2) by (simp add: placed_def)
  moreover have "x \<in> set (un_nodes v)" using x n(1) by simp
  then have "x \<in> set (concat (map un_nodes xs)) \<union> set (concat (map un_nodes ys))" using assms(4) by auto
  ultimately show False using x by (simp only: distinct_append set_append) blast
qed

lemma placed_step:
  assumes "placed home ns us" "i \<notin> set ns"
  shows "placed home (ns @ [i]) (place home i us)"
proof (cases "home i")
  case None
  then have "unit_ok home (ns @ [i]) u" if "u \<in> set us" for u using assms(1) that by (auto simp: placed_def unit_ok_def split: option.splits)
  then show ?thesis using None assms by (auto simp: placed_def place_def unit_ok_def)
next
  case (Some r)
  have old: "unit_ok home (ns @ [i]) u" if "u \<in> set us" "un_reg u \<noteq> Some r" for u
    using assms(1) that Some by (auto simp: placed_def unit_ok_def split: option.splits)
  show ?thesis
  proof (cases "list_ex (\<lambda>u. un_reg u = Some r) us")
    case True
    then obtain xs u ys where us: "us = xs @ u # ys" "un_reg u = Some r" by (auto simp: list_ex_iff dest!: split_list)
    note other = placed_region [OF assms(1) us]
    then have keep: "map (\<lambda>u. if un_reg u = Some r then u\<lparr>un_nodes := un_nodes u @ [i]\<rparr> else u) zs = zs" if "set zs \<subseteq> set xs \<union> set ys" for zs
      using that by (intro map_idI) auto
    have p: "place home i us = xs @ u\<lparr>un_nodes := un_nodes u @ [i]\<rparr> # ys" using Some True us keep [of xs] keep [of ys] by (simp add: place_def)
    have "unit_ok home (ns @ [i]) (u\<lparr>un_nodes := un_nodes u @ [i]\<rparr>)" using assms(1) us Some by (auto simp: placed_def unit_ok_def)
    then have "unit_ok home (ns @ [i]) v" if "v \<in> set (place home i us)" for v using that p old other us(1) by auto
    moreover have "distinct (concat (map un_nodes (place home i us)))" "set (concat (map un_nodes (place home i us))) = set (ns @ [i])"
      using assms us(1) unfolding p by (auto simp: placed_def)
    ultimately show ?thesis by (simp add: placed_def)
  next
    case False
    then have "filter (\<lambda>i. home i = Some r) ns = []" using placed_home [OF assms(1)] by (auto simp: filter_empty_conv list_ex_iff)
    then show ?thesis using False Some assms old by (auto simp: placed_def place_def unit_ok_def list_ex_iff)
  qed
qed

lemma placed_fold: "distinct ns \<Longrightarrow> placed home ns (fold (place home) ns [])"
proof (induction ns rule: rev_induct)
  case (snoc i ns)
  then show ?case using placed_step [of home ns "fold (place home) ns []" i] by simp
qed (simp add: placed_def)

lemma mset_concat_units: "mset (concat (map f us)) = sum_mset (image_mset (\<lambda>u. mset (f u)) (mset us))"
  by (induction us) auto

lemma placed_units: "placed (\<lambda>i. homeFor ps i flow) (flow_nodes ps flow) (flow_units ps flow)"
proof -
  let ?us = "fold (place (\<lambda>i. homeFor ps i flow)) (flow_nodes ps flow) []"
  have p: "placed (\<lambda>i. homeFor ps i flow) (flow_nodes ps flow) ?us" by (rule placed_fold) (simp add: flow_nodes_def)
  have "mset (flow_units ps flow) = mset ?us" by (simp add: flow_units_def)
  then have m: "set (flow_units ps flow) = set ?us" "mset (concat (map un_nodes (flow_units ps flow))) = mset (concat (map un_nodes ?us))"
    by (metis mset_eq_setD, metis mset_concat_units)
  then show ?thesis using p mset_eq_setD [OF m(2)] mset_eq_imp_distinct_iff [OF m(2)] by (simp add: placed_def)
qed


section \<open>The planned order is right\<close>

text \<open>The statements a step stands for in a flow. The function generated for a region holds all its members; a region step
  is counted here as the flow's statements that have the region as their home, since a member that another flow alone
  reaches is no statement of this one.\<close>

definition step_nodes :: "plan_state \<Rightarrow> string \<Rightarrow> plan_step \<Rightarrow> nat list" where
  "step_nodes ps flow s = (case s of NodeStep i \<Rightarrow> [i] | RegionStep r \<Rightarrow> filter (\<lambda>i. homeFor ps i flow = Some r) (flow_nodes ps flow))"

definition planned_nodes :: "plan_state \<Rightarrow> string \<Rightarrow> plan_step list \<Rightarrow> nat list" where
  "planned_nodes ps flow steps = concat (map (step_nodes ps flow) steps)"

definition node_uses :: "(string \<Rightarrow> gast option) \<Rightarrow> plan_state \<Rightarrow> nat \<Rightarrow> nat \<Rightarrow> bool" where
  "node_uses parse ps i j \<longleftrightarrow> (\<exists>x \<in> set (uses parse (ps_nodes ps ! i) (set (ps_allVars ps))). map_of (ps_definedBy ps) x = Some j)"

definition flow_waits :: "(string \<Rightarrow> gast option) \<Rightarrow> plan_state \<Rightarrow> string \<Rightarrow> nat list list" where
  "flow_waits parse ps flow =
    (let us = flow_units ps flow in order_waits (map (unit_deps parse ps flow us) [0..<length us]) (map (un_hook ps) us) (map (un_prov ps) us))"

lemma step_nodes_unit: "u \<in> set (flow_units ps flow) \<Longrightarrow> step_nodes ps flow (unit_step u) = un_nodes u"
proof -
  assume u: "u \<in> set (flow_units ps flow)"
  then have ok: "unit_ok (\<lambda>i. homeFor ps i flow) (flow_nodes ps flow) u" using placed_units [of ps flow] by (simp add: placed_def)
  show ?thesis
  proof (cases "un_reg u")
    case None
    then have "un_nodes u = [hd (un_nodes u)]" using ok by (simp only: unit_ok_def option.case)
    then show ?thesis using None by (simp add: step_nodes_def unit_step_def)
  next
    case (Some r)
    then show ?thesis using placed_unit(1) [OF placed_units u Some] by (simp add: step_nodes_def unit_step_def)
  qed
qed

lemma units_disjoint:
  assumes "a < length (flow_units ps flow)" "b < length (flow_units ps flow)" "x \<in> set (un_nodes (flow_units ps flow ! a))" "x \<in> set (un_nodes (flow_units ps flow ! b))"
  shows "a = b"
proof -
  have d: "distinct (concat (map un_nodes us)) \<Longrightarrow> a < b \<Longrightarrow> b < length us \<Longrightarrow> x \<in> set (un_nodes (us ! a)) \<Longrightarrow> x \<notin> set (un_nodes (us ! b))" for us a b
  proof -
    assume u: "distinct (concat (map un_nodes us))" "a < b" "b < length us" "x \<in> set (un_nodes (us ! a))"
    have "distinct (concat (map un_nodes (take b us)) @ un_nodes (us ! b) @ concat (map un_nodes (drop (Suc b) us)))"
      using u(1) id_take_nth_drop [OF u(3)] by (metis concat.simps(2) concat_append list.map(2) map_append)
    moreover have "us ! a \<in> set (take b us)" using u(2,3) by (auto simp: in_set_conv_nth)
    ultimately show ?thesis using u(4) by auto
  qed
  have "distinct (concat (map un_nodes (flow_units ps flow)))" using placed_units by (simp add: placed_def)
  then show ?thesis using d [of "flow_units ps flow" a b] d [of "flow_units ps flow" b a] assms by (metis linorder_neqE_nat)
qed

lemma unit_of_node:
  assumes "v < length (flow_units ps flow)" "j \<in> set (un_nodes (flow_units ps flow ! v))"
  shows "unit_of ps flow (flow_units ps flow) j = Some v"
proof -
  let ?f = "find (\<lambda>v. j \<in> set (un_nodes (flow_units ps flow ! v))) [0..<length (flow_units ps flow)]"
  have "?f \<noteq> None" using assms by (auto simp: find_None_iff)
  then obtain w where w: "?f = Some w" by blast
  then have "w < length (flow_units ps flow)" "j \<in> set (un_nodes (flow_units ps flow ! w))" by (auto simp: find_Some_iff)
  then have "w = v" using units_disjoint assms by blast
  then show ?thesis using w by (simp add: unit_of_def)
qed

lemma node_has_unit: "j \<in> set (flow_nodes ps flow) \<Longrightarrow> \<exists>v < length (flow_units ps flow). j \<in> set (un_nodes (flow_units ps flow ! v))"
proof -
  assume "j \<in> set (flow_nodes ps flow)"
  then have "j \<in> set (concat (map un_nodes (flow_units ps flow)))" using placed_units [of ps flow] by (simp add: placed_def)
  then obtain u where "u \<in> set (flow_units ps flow)" "j \<in> set (un_nodes u)" by auto
  then show ?thesis by (metis in_set_conv_nth)
qed

lemma unit_deps_use:
  assumes "u < length us" "i \<in> set (un_nodes (us ! u))" "node_uses parse ps i j" "unit_of ps flow us j = Some v" "v \<noteq> u"
  shows "v \<in> set (unit_deps parse ps flow us u)"
proof -
  obtain x where x: "x \<in> set (uses parse (ps_nodes ps ! i) (set (ps_allVars ps)))" "map_of (ps_definedBy ps) x = Some j" using assms(3) by (auto simp: node_uses_def)
  then have "j \<in> set (List.map_filter (map_of (ps_definedBy ps)) (concat (map (\<lambda>i. uses parse (ps_nodes ps ! i) (set (ps_allVars ps))) (un_nodes (us ! u)))))"
    using assms(2) by (force simp: List.map_filter_def)
  then have "v \<in> set (List.map_filter (unit_of ps flow us) (List.map_filter (map_of (ps_definedBy ps))
      (concat (map (\<lambda>i. uses parse (ps_nodes ps ! i) (set (ps_allVars ps))) (un_nodes (us ! u))))))"
    using assms(4) by (force simp: List.map_filter_def)
  then show ?thesis using assms(5) by (simp add: unit_deps_def)
qed

lemma unit_of_bound: "unit_of ps flow us j = Some v \<Longrightarrow> v < length us"
  by (auto simp: unit_of_def find_Some_iff split: option.splits)

lemma unit_deps_bound: "v \<in> set (unit_deps parse ps flow us u) \<Longrightarrow> v < length us"
  by (auto simp: unit_deps_def List.map_filter_def dest: unit_of_bound)


lemma flow_order_facts:
  shows "distinct (flow_order parse ps flow)" "set (flow_order parse ps flow) \<subseteq> {..<length (flow_units ps flow)}"
    and "topo (flow_waits parse ps flow) (flow_order parse ps flow)"
    and "set (flow_order parse ps flow) = {..<length (flow_units ps flow)} \<longleftrightarrow> acyclic (dep_rel (flow_waits parse ps flow))"
proof -
  let ?us = "flow_units ps flow"
  let ?deps = "map (unit_deps parse ps flow ?us) [0..<length ?us]" and ?hook = "map (un_hook ps) ?us" and ?prov = "map (un_prov ps) ?us"
  have inv: "distinct (flow_order parse ps flow) \<and> set (flow_order parse ps flow) \<subseteq> {..<length ?us} \<and> topo (flow_waits parse ps flow) (flow_order parse ps flow)"
    using order_loop_inv [of "[]" ?deps ?hook ?prov "length ?us"] by (simp add: flow_order_def flow_waits_def Let_def topo_def)
  then show i: "distinct (flow_order parse ps flow)" "set (flow_order parse ps flow) \<subseteq> {..<length ?us}" "topo (flow_waits parse ps flow) (flow_order parse ps flow)"
    by blast+
  have "\<forall>u < length ?deps. \<forall>v \<in> set (?deps ! u). v < length ?deps" using unit_deps_bound by auto
  then have "acyclic (dep_rel (flow_waits parse ps flow)) \<Longrightarrow> set (flow_order parse ps flow) = {..<length ?us}"
    using order_loop_complete [of ?deps ?hook ?prov "[]" "length ?us"] by (simp add: flow_order_def flow_waits_def Let_def)
  moreover have "length (flow_waits parse ps flow) = length ?us" by (simp add: flow_waits_def Let_def)
  ultimately show "set (flow_order parse ps flow) = {..<length ?us} \<longleftrightarrow> acyclic (dep_rel (flow_waits parse ps flow))"
    using topo_acyclic [OF i(3,1)] by auto
qed

lemma steps_nodes:
  assumes "set order \<subseteq> {..<length (flow_units ps flow)}"
  shows "planned_nodes ps flow (map (\<lambda>u. unit_step (flow_units ps flow ! u)) order) = concat (map (\<lambda>u. un_nodes (flow_units ps flow ! u)) order)"
  unfolding planned_nodes_def using assms by (induction order) (simp_all add: step_nodes_unit)

lemma units_concat_distinct:
  assumes "distinct order" "set order \<subseteq> {..<length (flow_units ps flow)}"
  shows "distinct (concat (map (\<lambda>u. un_nodes (flow_units ps flow ! u)) order))"
  using assms
proof (induction order)
  case (Cons u order)
  have "distinct (un_nodes v)" if "v \<in> set (flow_units ps flow)" for v
    using placed_units [of ps flow] that by (auto simp: placed_def dest!: split_list)
  then have "distinct (un_nodes (flow_units ps flow ! u))" using Cons.prems(2) by simp
  moreover have "set (un_nodes (flow_units ps flow ! u)) \<inter> set (un_nodes (flow_units ps flow ! v)) = {}" if "v \<in> set order" for v
    using units_disjoint [of u ps flow v] that Cons.prems by auto
  ultimately show ?case using Cons by auto
qed simp

lemma unit_nodes_flow: "u < length (flow_units ps flow) \<Longrightarrow> set (un_nodes (flow_units ps flow ! u)) \<subseteq> set (flow_nodes ps flow)"
  using placed_units [of ps flow] by (auto simp: placed_def)

lemma all_units_iff:
  assumes "set order \<subseteq> {..<length (flow_units ps flow)}"
  shows "set (concat (map (\<lambda>u. un_nodes (flow_units ps flow ! u)) order)) = set (flow_nodes ps flow) \<longleftrightarrow> set order = {..<length (flow_units ps flow)}"
proof
  assume e: "set (concat (map (\<lambda>u. un_nodes (flow_units ps flow ! u)) order)) = set (flow_nodes ps flow)"
  have "u \<in> set order" if u: "u < length (flow_units ps flow)" for u
  proof -
    have "unit_ok (\<lambda>i. homeFor ps i flow) (flow_nodes ps flow) (flow_units ps flow ! u)" using placed_units [of ps flow] u by (simp add: placed_def)
    then obtain i where i: "i \<in> set (un_nodes (flow_units ps flow ! u))" unfolding unit_ok_def by (meson ex_in_conv set_empty)
    then obtain v where "v \<in> set order" "i \<in> set (un_nodes (flow_units ps flow ! v))" using unit_nodes_flow [OF u] e by auto
    then show ?thesis using units_disjoint [OF u _ i] assms by auto
  qed
  then show "set order = {..<length (flow_units ps flow)}" using assms by auto
next
  assume "set order = {..<length (flow_units ps flow)}"
  then show "set (concat (map (\<lambda>u. un_nodes (flow_units ps flow ! u)) order)) = set (flow_nodes ps flow)"
    using unit_nodes_flow node_has_unit by fastforce
qed


lemma order_unit:
  assumes "k < length (flow_order parse ps flow)"
  defines "u \<equiv> flow_order parse ps flow ! k"
  shows "u < length (flow_units ps flow)" "set (flow_waits parse ps flow ! u) \<subseteq> set (take k (flow_order parse ps flow))"
proof -
  show "u < length (flow_units ps flow)" using flow_order_facts(2) [of parse ps flow] nth_mem [OF assms(1)] by (auto simp: u_def)
  show "set (flow_waits parse ps flow ! u) \<subseteq> set (take k (flow_order parse ps flow))" using flow_order_facts(3) assms(1) by (simp add: topo_def u_def)
qed

lemma waits_use:
  assumes "u < length (flow_units ps flow)" "i \<in> set (un_nodes (flow_units ps flow ! u))" "node_uses parse ps i j"
    and "v < length (flow_units ps flow)" "j \<in> set (un_nodes (flow_units ps flow ! v))" "v \<noteq> u"
  shows "v \<in> set (flow_waits parse ps flow ! u)"
  using unit_deps_use [OF assms(1-3) unit_of_node [OF assms(4,5)] assms(6)] assms(1) by (simp add: flow_waits_def order_waits_def Let_def)

lemma waits_hook:
  assumes "u < length (flow_units ps flow)" "un_prov ps (flow_units ps flow ! u)" "\<not> un_hook ps (flow_units ps flow ! u)"
    and "v < length (flow_units ps flow)" "un_hook ps (flow_units ps flow ! v)"
  shows "v \<in> set (flow_waits parse ps flow ! u)"
  using assms by (simp add: flow_waits_def order_waits_def Let_def)

lemma taken_nodes:
  assumes "v \<in> set (take k (flow_order parse ps flow))" "j \<in> set (un_nodes (flow_units ps flow ! v))"
  shows "j \<in> set (planned_nodes ps flow (take k (map (\<lambda>u. unit_step (flow_units ps flow ! u)) (flow_order parse ps flow))))"
proof -
  have "set (take k (flow_order parse ps flow)) \<subseteq> {..<length (flow_units ps flow)}" using flow_order_facts(2) [of parse ps flow] by (auto dest: in_set_takeD)
  then show ?thesis using assms by (auto simp: take_map steps_nodes)
qed

lemma orderFlow_broken:
  assumes "orderFlow parse ps flow = (steps, Some r)"
  shows "\<exists>i \<in> set (flow_nodes ps flow). homeFor ps i flow = Some r"
proof -
  obtain u where u: "u < length (flow_units ps flow)" "un_reg (flow_units ps flow ! u) = Some r"
    using assms by (auto simp: orderFlow_def Let_def find_Some_iff split: option.splits)
  have "filter (\<lambda>i. homeFor ps i flow = Some r) (flow_nodes ps flow) \<noteq> []"
    using placed_unit [OF placed_units nth_mem [OF u(1)] u(2)] by metis
  then show ?thesis by (auto simp: filter_empty_conv)
qed

text \<open>C16: The planned order of a flow is right. Whatever regions were formed, the steps run statements of the flow only and
  none twice; a statement that another one uses is run before it or in the same step; and no single statement that
  constructs, adds middleware or registers is run before every hook of the flow has been.\<close>

theorem gen_plan_order_sound:
  assumes "orderFlow parse ps flow = (steps, broken)"
  shows "distinct (planned_nodes ps flow steps) \<and> set (planned_nodes ps flow steps) \<subseteq> set (flow_nodes ps flow) \<and>
    (\<forall>k < length steps. \<forall>i \<in> set (step_nodes ps flow (steps ! k)). \<forall>j \<in> set (flow_nodes ps flow).
       node_uses parse ps i j \<longrightarrow> j \<in> set (planned_nodes ps flow (take (Suc k) steps))) \<and>
    (\<forall>k < length steps. \<forall>i. steps ! k = NodeStep i \<and> node_Phase (ps_nodes ps ! i) \<in> {PhaseWire, PhaseMiddleware, PhaseRegister} \<longrightarrow>
       (\<forall>h \<in> set (flow_nodes ps flow). node_Phase (ps_nodes ps ! h) = PhaseSetup \<longrightarrow> h \<in> set (planned_nodes ps flow (take k steps))))"
proof (intro conjI allI ballI impI)
  let ?us = "flow_units ps flow" and ?order = "flow_order parse ps flow"
  have steps: "steps = map (\<lambda>u. unit_step (?us ! u)) ?order" using assms by (simp add: orderFlow_def Let_def)
  note o = flow_order_facts(1,2) [of parse ps flow]
  show "distinct (planned_nodes ps flow steps)" using units_concat_distinct [OF o] steps_nodes [OF o(2)] steps by simp
  show "set (planned_nodes ps flow steps) \<subseteq> set (flow_nodes ps flow)" using unit_nodes_flow o(2) steps_nodes [OF o(2)] steps by fastforce
  {
    fix k i j assume k: "k < length steps" and i: "i \<in> set (step_nodes ps flow (steps ! k))" and j: "j \<in> set (flow_nodes ps flow)" "node_uses parse ps i j"
    then have k': "k < length ?order" by (simp add: steps)
    note u = order_unit [OF k']
    have i': "i \<in> set (un_nodes (?us ! (?order ! k)))" using i k' u(1) by (simp add: steps step_nodes_unit)
    obtain v where v: "v < length ?us" "j \<in> set (un_nodes (?us ! v))" using node_has_unit [OF j(1)] by blast
    have "v \<in> set (take (Suc k) ?order)"
      using waits_use [OF u(1) i' j(2) v] u(2) k' by (cases "v = ?order ! k") (auto simp: take_Suc_conv_app_nth)
    then show "j \<in> set (planned_nodes ps flow (take (Suc k) steps))" using taken_nodes [OF _ v(2)] by (simp only: steps)
  }
  fix k i h assume k: "k < length steps" and i: "steps ! k = NodeStep i \<and> node_Phase (ps_nodes ps ! i) \<in> {PhaseWire, PhaseMiddleware, PhaseRegister}"
    and h: "h \<in> set (flow_nodes ps flow)" "node_Phase (ps_nodes ps ! h) = PhaseSetup"
  then have k': "k < length ?order" by (simp add: steps)
  note u = order_unit [OF k']
  have "un_nodes (?us ! (?order ! k)) = step_nodes ps flow (steps ! k)" using k' u(1) by (simp add: steps step_nodes_unit)
  then have "un_nodes (?us ! (?order ! k)) = [i]" using i by (simp add: step_nodes_def)
  then have p: "un_prov ps (?us ! (?order ! k))" "\<not> un_hook ps (?us ! (?order ! k))" using i by (auto simp: un_prov_def un_hook_def phase_defs)
  obtain v where v: "v < length ?us" "h \<in> set (un_nodes (?us ! v))" using node_has_unit [OF h(1)] by blast
  then have "un_hook ps (?us ! v)" using h(2) by (auto simp: un_hook_def list_ex_iff)
  then have "v \<in> set (take k ?order)" using waits_hook [OF u(1) p v(1)] u(2) by blast
  then show "h \<in> set (planned_nodes ps flow (take k steps))" using taken_nodes [OF _ v(2)] by (simp only: steps)
qed

text \<open>C18: The scheduler of a flow is complete. It runs every statement of the flow exactly when the waiting relation between
  its units has no circle. When it is stuck it names a region that was not run, if one is left; otherwise only single
  statements are left.\<close>

theorem gen_plan_order_exact:
  assumes "orderFlow parse ps flow = (steps, broken)"
  shows "(set (planned_nodes ps flow steps) = set (flow_nodes ps flow) \<longleftrightarrow> acyclic (dep_rel (flow_waits parse ps flow))) \<and>
    (\<forall>r. broken = Some r \<longrightarrow> (\<exists>i \<in> set (flow_nodes ps flow). homeFor ps i flow = Some r) \<and>
       (\<forall>i \<in> set (flow_nodes ps flow). homeFor ps i flow = Some r \<longrightarrow> i \<notin> set (planned_nodes ps flow steps))) \<and>
    (broken = None \<longrightarrow> (\<forall>i \<in> set (flow_nodes ps flow). i \<notin> set (planned_nodes ps flow steps) \<longrightarrow> homeFor ps i flow = None))"
proof (intro conjI allI impI)
  let ?us = "flow_units ps flow" and ?order = "flow_order parse ps flow" and ?home = "\<lambda>i. homeFor ps i flow"
  let ?left = "find (\<lambda>u. u \<notin> set ?order \<and> un_reg (?us ! u) \<noteq> None) [0..<length ?us]"
  have steps: "steps = map (\<lambda>u. unit_step (?us ! u)) ?order" and b: "broken = (case ?left of Some u \<Rightarrow> un_reg (?us ! u) | None \<Rightarrow> None)"
    using assms by (simp_all add: orderFlow_def Let_def)
  note o = flow_order_facts(2) [of parse ps flow]
  have n: "planned_nodes ps flow steps = concat (map (\<lambda>u. un_nodes (?us ! u)) ?order)" using steps_nodes [OF o] steps by simp
  show "set (planned_nodes ps flow steps) = set (flow_nodes ps flow) \<longleftrightarrow> acyclic (dep_rel (flow_waits parse ps flow))"
    unfolding n all_units_iff [OF o] by (rule flow_order_facts(4))
  have unit_home: "un_nodes (?us ! u) = filter (\<lambda>i. ?home i = Some r) (flow_nodes ps flow) \<and> un_nodes (?us ! u) \<noteq> []"
    if "u < length ?us" "un_reg (?us ! u) = Some r" for u r
    using placed_unit [OF placed_units _ that(2)] that(1) nth_mem by blast
  {
    fix r assume "broken = Some r"
    then obtain u where u: "u < length ?us" "u \<notin> set ?order" "un_reg (?us ! u) = Some r" using b by (auto simp: find_Some_iff split: option.splits)
    note uh = unit_home [OF u(1,3)]
    have i: "i \<in> set (un_nodes (?us ! u)) \<longleftrightarrow> i \<in> set (flow_nodes ps flow) \<and> ?home i = Some r" for i unfolding conjunct1 [OF uh] by auto
    have "filter (\<lambda>i. ?home i = Some r) (flow_nodes ps flow) \<noteq> []" using uh by metis
    then show "\<exists>i \<in> set (flow_nodes ps flow). ?home i = Some r" by (auto simp: filter_empty_conv)
    show "\<forall>i \<in> set (flow_nodes ps flow). ?home i = Some r \<longrightarrow> i \<notin> set (planned_nodes ps flow steps)"
      using units_disjoint [OF u(1)] i u(2) o by (auto simp: n)
  }
  assume "broken = None"
  then have none: "un_reg (?us ! u) = None" if "u < length ?us" "u \<notin> set ?order" for u
    using b that by (auto simp: find_Some_iff find_None_iff split: option.splits)
  show "\<forall>i \<in> set (flow_nodes ps flow). i \<notin> set (planned_nodes ps flow steps) \<longrightarrow> ?home i = None"
  proof (intro ballI impI)
    fix i assume i: "i \<in> set (flow_nodes ps flow)" "i \<notin> set (planned_nodes ps flow steps)"
    obtain v where v: "v < length ?us" "i \<in> set (un_nodes (?us ! v))" using node_has_unit [OF i(1)] by blast
    then have "v \<notin> set ?order" using i(2) by (auto simp: n)
    then have "un_reg (?us ! v) = None" using none v(1) by blast
    moreover have "unit_ok ?home (flow_nodes ps flow) (?us ! v)" using placed_units [of ps flow] v(1) by (simp add: placed_def)
    ultimately have "un_nodes (?us ! v) = [hd (un_nodes (?us ! v))] \<and> ?home (hd (un_nodes (?us ! v))) = None" by (simp only: unit_ok_def option.case)
    then show "?home i = None" using v(2) by (metis empty_iff empty_set set_ConsD)
  qed
qed

end
