(* ===== verification/GenRegions.thy ===== *)
theory GenRegions
  imports GenPlan GoPath
begin

text \<open>
  \<open>gen/fragment.go\<close>, continued: how regions are formed (\<open>formComponents\<close>, a union-find over the statements) and given
  up again (\<open>dissolve\<close>, and the loop of \<open>planRegions\<close> that dissolves what cannot be scheduled).
\<close>

section \<open>Union-find\<close>

text \<open>\<open>find\<close> halves the path it walks. On a list whose pointers run in a circle it would not end, hence the option.\<close>

partial_function (option) uf_find :: "nat list \<Rightarrow> nat \<Rightarrow> (nat \<times> nat list) option" where
  "uf_find p x =
    (if p ! x = x then Some (x, p)
     else let p' = p[x := p ! (p ! x)] in uf_find p' (p' ! x))"

definition uf_union :: "nat list \<Rightarrow> nat \<Rightarrow> nat \<Rightarrow> nat list option" where
  "uf_union p i j =
    (case uf_find p i of
       None \<Rightarrow> None
     | Some (ri, p1) \<Rightarrow> (case uf_find p1 j of None \<Rightarrow> None | Some (rj, p2) \<Rightarrow> Some (p2[ri := rj])))"

fun uf_unions :: "(nat \<times> nat) list \<Rightarrow> nat list \<Rightarrow> nat list option" where
  "uf_unions [] p = Some p"
| "uf_unions ((i, j) # es) p = (case uf_union p i j of None \<Rightarrow> None | Some p' \<Rightarrow> uf_unions es p')"

fun uf_finds :: "nat list \<Rightarrow> nat list \<Rightarrow> (nat \<times> nat) list option" where
  "uf_finds [] p = Some []"
| "uf_finds (i # ns) p =
    (case uf_find p i of None \<Rightarrow> None | Some (r, p') \<Rightarrow> (case uf_finds ns p' of None \<Rightarrow> None | Some rs \<Rightarrow> Some ((i, r) # rs)))"

inductive dep :: "nat list \<Rightarrow> nat \<Rightarrow> nat \<Rightarrow> nat \<Rightarrow> bool" where
  dep_root: "p ! x = x \<Longrightarrow> dep p x x 0"
| dep_step: "p ! x \<noteq> x \<Longrightarrow> dep p (p ! x) r d \<Longrightarrow> dep p x r (Suc d)"

inductive_cases dep_zeroE: "dep p x r 0"
inductive_cases dep_SucE: "dep p x r (Suc d)"

lemma dep_next: "dep p x r d \<Longrightarrow> p ! x \<noteq> x \<Longrightarrow> \<exists>e. d = Suc e \<and> dep p (p ! x) r e"
  by (cases rule: dep.cases) auto

lemma dep_unique: "dep p x r d \<Longrightarrow> dep p x r' d' \<Longrightarrow> r = r' \<and> d = d'"
proof (induction arbitrary: r' d' rule: dep.induct)
  case (dep_root p x)
  from dep_root(2,1) show ?case by (cases rule: dep.cases) auto
next
  case (dep_step p x r d)
  from dep_step.prems dep_step.hyps(1) dep_step.IH show ?case by (cases rule: dep.cases) auto
qed

definition rep :: "nat list \<Rightarrow> nat \<Rightarrow> nat \<Rightarrow> bool" where
  "rep p x r \<longleftrightarrow> (\<exists>d. dep p x r d)"

lemma rep_unique: "rep p x r \<Longrightarrow> rep p x r' \<Longrightarrow> r = r'"
  unfolding rep_def using dep_unique by blast

lemma rep_root: "rep p x r \<Longrightarrow> p ! r = r"
proof -
  have "dep p x r d \<Longrightarrow> p ! r = r" for d by (induction rule: dep.induct) auto
  then show "rep p x r \<Longrightarrow> p ! r = r" by (auto simp: rep_def)
qed

definition uf_ok :: "nat list \<Rightarrow> bool" where
  "uf_ok p \<longleftrightarrow> (\<forall>x < length p. p ! x < length p \<and> (\<exists>r < length p. rep p x r))"

lemma dep_halved:
  assumes "dep p x r d" "p ! x \<noteq> x" "x < length p" "dep p y s e"
  defines "p' \<equiv> p[x := p ! (p ! x)]"
  shows "\<exists>e' \<le> e. dep p' y s e'"
  using assms(4)
proof (induction e arbitrary: y rule: nat_induct)
  case 0
  then have "p ! y = y" "s = y" by (auto elim: dep_zeroE)
  moreover have "y \<noteq> x" using calculation(1) assms(2) by blast
  ultimately have "p' ! y = y" by (simp add: p'_def)
  then have "dep p' y s 0" using dep_root [of p' y] \<open>s = y\<close> by simp
  then show ?case by blast
next
  case (Suc e)
  then have y: "p ! y \<noteq> y" "dep p (p ! y) s e" by (auto elim: dep_SucE)
  then obtain e' where e': "e' \<le> e" "dep p' (p ! y) s e'" using Suc.IH by blast
  show ?case
  proof (cases "y = x")
    case False
    then have "p' ! y = p ! y" by (simp add: p'_def)
    then have "dep p' y s (Suc e')" using dep_step [of p' y s e'] y(1) e'(2) by simp
    then show ?thesis using e'(1) by auto
  next
    case True
    let ?z = "p ! x"
    have px: "p' ! x = p ! ?z" using assms(3) by (simp add: p'_def)
    show ?thesis
    proof (cases "p ! ?z = ?z")
      case root: True
      then have "dep p' x s (Suc e')" using dep_step [of p' x s e'] px e'(2) True y(1) by simp
      then show ?thesis using e'(1) True by auto
    next
      case False
      have z: "p' ! ?z = p ! ?z" using assms(2) by (simp add: p'_def)
      then obtain e2 where e2: "e' = Suc e2" "dep p' (p ! ?z) s e2" using dep_next [of p' ?z s e'] e'(2) True False by auto
      have "p ! ?z \<noteq> x"
      proof
        assume c: "p ! ?z = x"
        obtain d1 where d1: "d = Suc d1" "dep p ?z r d1" using dep_next [OF assms(1,2)] by blast
        obtain d2 where d2: "d1 = Suc d2" "dep p (p ! ?z) r d2" using dep_next [OF d1(2) False] by blast
        have "d = d2" using dep_unique [OF assms(1)] d2(2) c by simp
        then show False using d1(1) d2(1) by simp
      qed
      then have "dep p' x s (Suc e2)" using dep_step [of p' x s e2] px e2(2) by simp
      then show ?thesis using e'(1) e2(1) True by (auto intro!: exI [of _ "Suc e2"])
    qed
  qed
qed


text \<open>Halving changes nothing that \<open>find\<close> can tell.\<close>

definition same_reps :: "nat list \<Rightarrow> nat list \<Rightarrow> bool" where
  "same_reps p p' \<longleftrightarrow> length p' = length p \<and> uf_ok p' \<and> (\<forall>x < length p. \<forall>r. rep p' x r \<longleftrightarrow> rep p x r)"

lemma same_reps_refl: "uf_ok p \<Longrightarrow> same_reps p p"
  by (simp add: same_reps_def)

lemma same_reps_trans: "same_reps a b \<Longrightarrow> same_reps b c \<Longrightarrow> same_reps a c"
  by (simp add: same_reps_def)

lemma same_reps_halved:
  assumes "uf_ok p" "x < length p" "p ! x \<noteq> x"
  shows "same_reps p (p[x := p ! (p ! x)])"
proof -
  let ?p = "p[x := p ! (p ! x)]"
  obtain r d where d: "dep p x r d" using assms(1,2) by (auto simp: uf_ok_def rep_def)
  have keep: "rep ?p y s" if "rep p y s" for y s using that dep_halved [OF d assms(3,2)] unfolding rep_def by meson
  have iff: "rep ?p y s \<longleftrightarrow> rep p y s" if y: "y < length p" for y s
  proof
    assume s: "rep ?p y s"
    obtain s' where s': "rep p y s'" using assms(1) y by (auto simp: uf_ok_def)
    then show "rep p y s" using rep_unique [OF s keep [OF s']] by simp
  qed (rule keep)
  have "?p ! y < length ?p" if "y < length ?p" for y using assms(1,2) that by (auto simp: uf_ok_def nth_list_update)
  then have "uf_ok ?p" using assms(1) iff by (auto simp: uf_ok_def)
  then show ?thesis using iff by (simp add: same_reps_def)
qed

lemma uf_find_correct:
  assumes "uf_ok p" "x < length p"
  shows "\<exists>r p'. uf_find p x = Some (r, p') \<and> rep p x r \<and> r < length p \<and> same_reps p p'"
proof -
  obtain r d where "dep p x r d" using assms by (auto simp: uf_ok_def rep_def)
  then show ?thesis using assms
  proof (induction d arbitrary: p x rule: less_induct)
    case (less d)
    show ?case
    proof (cases "p ! x = x")
      case True
      then have "rep p x x" using dep_root rep_def by blast
      then show ?thesis using True less.prems(2,3) same_reps_refl by (subst uf_find.simps) auto
    next
      case False
      let ?p = "p[x := p ! (p ! x)]"
      note h = same_reps_halved [OF less.prems(2,3) False]
      have px: "?p ! x = p ! (p ! x)" using less.prems(3) by simp
      obtain e where e: "d = Suc e" "dep p (p ! x) r e" using dep_next [OF less.prems(1) False] by blast
      have "\<exists>f \<le> e. dep p (p ! (p ! x)) r f"
      proof (cases "p ! (p ! x) = p ! x")
        case False
        then show ?thesis using dep_next [OF e(2) False] by (metis le_SucI le_refl)
      qed (use e(2) in auto)
      then obtain f where "f \<le> e" "dep p (?p ! x) r f" using px by auto
      then obtain f' where f': "f' \<le> f" "dep ?p (?p ! x) r f'" "f' < d" using dep_halved [OF less.prems(1) False less.prems(3)] e(1) by fastforce
      have b: "uf_ok ?p" "?p ! x < length ?p" using h less.prems(3) by (auto simp: same_reps_def uf_ok_def)
      obtain r' p' where i: "uf_find ?p (?p ! x) = Some (r', p')" "rep ?p (?p ! x) r'" "r' < length ?p" "same_reps ?p p'"
        using less.IH [OF f'(3,2) b] by blast
      have "r' = r" using rep_unique [OF i(2)] f'(2) by (auto simp: rep_def)
      moreover have "rep p x r" using less.prems(1) by (auto simp: rep_def)
      moreover have "uf_find p x = Some (r', p')" using i(1) False by (subst uf_find.simps) (simp add: Let_def)
      ultimately show ?thesis using i(3) same_reps_trans [OF h i(4)] by auto
    qed
  qed
qed

definition same_set :: "nat list \<Rightarrow> nat \<Rightarrow> nat \<Rightarrow> bool" where
  "same_set p x y \<longleftrightarrow> (\<exists>r. rep p x r \<and> rep p y r)"

lemma rep_union:
  assumes "p ! a = a" "p ! b = b" "a < length p" "rep p x r"
  shows "rep (p[a := b]) x (if r = a then b else r)"
proof -
  obtain d where "dep p x r d" using assms(4) by (auto simp: rep_def)
  then show ?thesis using assms(1-3)
  proof (induction rule: dep.induct)
    case (dep_root p x)
    show ?case
    proof (cases "x = a")
      case True
      let ?q = "p[a := b]"
      have "?q ! b = b" using dep_root by (cases "a = b") auto
      then have "dep ?q b b 0" by (rule dep.dep_root)
      moreover have "?q ! a = b" using dep_root by simp
      ultimately have "rep ?q a b" using dep.dep_step [of ?q a b 0] by (cases "a = b") (auto simp: rep_def)
      then show ?thesis using True by simp
    next
      case False
      then have "dep (p[a := b]) x x 0" using dep_root by (intro dep.dep_root) simp
      then show ?thesis using False by (auto simp: rep_def)
    qed
  next
    case (dep_step p x r d)
    then have "x \<noteq> a" by auto
    then have "p[a := b] ! x = p ! x" by simp
    moreover obtain e where "dep (p[a := b]) (p ! x) (if r = a then b else r) e" using dep_step by (auto simp only: rep_def)
    ultimately have "dep (p[a := b]) x (if r = a then b else r) (Suc e)" using dep.dep_step [of "p[a := b]" x] dep_step.hyps(1) by simp
    then show ?case unfolding rep_def by blast
  qed
qed


lemma uf_union_correct:
  assumes "uf_ok p" "i < length p" "j < length p"
  shows "\<exists>p'. uf_union p i j = Some p' \<and> length p' = length p \<and> uf_ok p' \<and>
    (\<forall>x < length p. \<forall>y < length p. same_set p' x y \<longleftrightarrow> same_set p x y \<or> same_set p x i \<and> same_set p j y \<or> same_set p x j \<and> same_set p i y)"
proof -
  obtain ri p1 where 1: "uf_find p i = Some (ri, p1)" "rep p i ri" "ri < length p" "same_reps p p1" using uf_find_correct [OF assms(1,2)] by blast
  have ok1: "uf_ok p1" "j < length p1" using 1(4) assms(3) by (auto simp: same_reps_def)
  obtain rj p2 where 2: "uf_find p1 j = Some (rj, p2)" "rep p1 j rj" "rj < length p1" "same_reps p1 p2" using uf_find_correct [OF ok1] by blast
  have s: "same_reps p p2" by (rule same_reps_trans [OF 1(4) 2(4)])
  then have len: "length p2 = length p" and ok2: "uf_ok p2" and r: "\<And>x r. x < length p \<Longrightarrow> rep p2 x r \<longleftrightarrow> rep p x r" by (auto simp: same_reps_def)
  have rj: "rep p j rj" using 2(2) 1(4) assms(3) by (simp add: same_reps_def)
  have roots: "p2 ! ri = ri" "p2 ! rj = rj" using rep_root r 1(2) rj assms(2,3) by blast+
  let ?p = "p2[ri := rj]" and ?f = "\<lambda>r. if r = ri then rj else r"
  have new: "rep ?p x (?f a)" if "x < length p" "rep p x a" for x a using rep_union [OF roots] 1(3) len r that by simp
  have tot: "\<exists>a < length p. rep p x a" if "x < length p" for x using assms(1) that by (auto simp: uf_ok_def)
  have lj: "rj < length p" using 2(3) 1(4) by (simp add: same_reps_def)
  have bnd: "?p ! x < length ?p" if "x < length ?p" for x using ok2 that lj len by (cases "x = ri") (auto simp: uf_ok_def)
  have "\<exists>a < length ?p. rep ?p x a" if x: "x < length ?p" for x
  proof -
    obtain a where "a < length p" "rep p x a" using tot [of x] x len by auto
    then show ?thesis using new [of x a] x len lj by (intro exI [of _ "?f a"]) auto
  qed
  then have ok: "uf_ok ?p" using bnd by (simp add: uf_ok_def)
  have iff: "same_set ?p x y \<longleftrightarrow> same_set p x y \<or> same_set p x i \<and> same_set p j y \<or> same_set p x j \<and> same_set p i y" if xy: "x < length p" "y < length p" for x y
  proof -
    obtain a b where ab: "rep p x a" "rep p y b" using tot xy by blast
    have c: "same_set q z w \<longleftrightarrow> c = d" if "rep q z c" "rep q w d" for q z w c d
      using that rep_unique unfolding same_set_def by metis
    show ?thesis unfolding c [OF new [OF xy(1) ab(1)] new [OF xy(2) ab(2)]] c [OF ab] c [OF ab(1) 1(2)] c [OF rj ab(2)] c [OF ab(1) rj] c [OF 1(2) ab(2)] by auto
  qed
  show ?thesis using 1(1) 2(1) ok iff len by (auto simp: uf_union_def)
qed

definition linked :: "(nat \<times> nat) set \<Rightarrow> (nat \<times> nat) set" where
  "linked E = (E \<union> E\<inverse>)\<^sup>*"

lemma linked_sym: "(x, y) \<in> linked E \<Longrightarrow> (y, x) \<in> linked E"
  unfolding linked_def by (meson symD sym_rtrancl sym_Un_converse)

lemma linked_trans: "(x, y) \<in> linked E \<Longrightarrow> (y, z) \<in> linked E \<Longrightarrow> (x, z) \<in> linked E"
  unfolding linked_def by (rule rtrancl_trans)

lemma linked_refl [simp]: "(x, x) \<in> linked E"
  by (simp add: linked_def)

lemma linked_edge: "(x, y) \<in> E \<Longrightarrow> (x, y) \<in> linked E"
  unfolding linked_def by blast

lemma linked_mono: "(x, y) \<in> linked E \<Longrightarrow> E \<subseteq> F \<Longrightarrow> (x, y) \<in> linked F"
  unfolding linked_def by (erule rtrancl_mono [THEN subsetD, rotated]) auto

lemma linked_insert:
  "(x, y) \<in> linked (insert (i, j) E) \<longleftrightarrow> (x, y) \<in> linked E \<or> (x, i) \<in> linked E \<and> (j, y) \<in> linked E \<or> (x, j) \<in> linked E \<and> (i, y) \<in> linked E"
    (is "?l \<longleftrightarrow> ?r y")
proof
  assume ?l
  then have "(x, y) \<in> (insert (i, j) E \<union> (insert (i, j) E)\<inverse>)\<^sup>*" by (simp add: linked_def)
  then show "?r y"
  proof (induction rule: rtrancl_induct)
    case (step z w)
    consider "(z, w) \<in> linked E" | "z = i" "w = j" | "z = j" "w = i" using step.hyps(2) linked_edge linked_sym by fastforce
    then show ?case
    proof cases
      case 1
      then show ?thesis using step.IH linked_trans by blast
    next
      case 2
      then show ?thesis using step.IH linked_trans linked_sym linked_refl by blast
    next
      case 3
      then show ?thesis using step.IH linked_trans linked_sym linked_refl by blast
    qed
  qed simp
next
  have m: "(a, b) \<in> linked E \<Longrightarrow> (a, b) \<in> linked (insert (i, j) E)" for a b using linked_mono by blast
  have e: "(i, j) \<in> linked (insert (i, j) E)" by (rule linked_edge) simp
  assume "?r y"
  then show ?l using m e linked_sym [OF e] linked_trans by meson
qed

lemma uf_unions_correct:
  assumes "uf_ok p" "length p = n" "\<And>x y. x < n \<Longrightarrow> y < n \<Longrightarrow> same_set p x y \<longleftrightarrow> (x, y) \<in> linked E" "\<forall>(i, j) \<in> set es. i < n \<and> j < n"
  shows "\<exists>p'. uf_unions es p = Some p' \<and> length p' = n \<and> uf_ok p' \<and> (\<forall>x < n. \<forall>y < n. same_set p' x y \<longleftrightarrow> (x, y) \<in> linked (set es \<union> E))"
  using assms
proof (induction es arbitrary: p E)
  case (Cons e es)
  obtain i j where e: "e = (i, j)" by (rule prod.exhaust)
  have ij: "i < length p" "j < length p" using Cons.prems(2,4) e by auto
  obtain p1 where p1: "uf_union p i j = Some p1" "length p1 = length p" "uf_ok p1"
      "\<forall>x < length p. \<forall>y < length p. same_set p1 x y \<longleftrightarrow> same_set p x y \<or> same_set p x i \<and> same_set p j y \<or> same_set p x j \<and> same_set p i y"
    using uf_union_correct [OF Cons.prems(1) ij] by blast
  have l: "same_set p1 x y \<longleftrightarrow> (x, y) \<in> linked (insert (i, j) E)" if "x < n" "y < n" for x y
    using p1(4) Cons.prems(2,3) ij that by (simp add: linked_insert)
  have "\<exists>p'. uf_unions es p1 = Some p' \<and> length p' = n \<and> uf_ok p' \<and> (\<forall>x < n. \<forall>y < n. same_set p' x y \<longleftrightarrow> (x, y) \<in> linked (set es \<union> insert (i, j) E))"
    using Cons.IH [OF p1(3) _ l] p1(2) Cons.prems(2,4) by simp
  then show ?case using p1(1) e by simp
qed auto


lemma uf_finds_correct: "uf_ok p \<Longrightarrow> \<forall>i \<in> set ns. i < length p \<Longrightarrow> \<exists>rs. uf_finds ns p = Some rs \<and> map fst rs = ns \<and> (\<forall>(i, r) \<in> set rs. rep p i r)"
proof (induction ns arbitrary: p)
  case (Cons i ns)
  then have i: "i < length p" by simp
  obtain r p' where f: "uf_find p i = Some (r, p')" "rep p i r" "same_reps p p'" using uf_find_correct [OF Cons.prems(1) i] by blast
  then have "uf_ok p'" "\<forall>i \<in> set ns. i < length p'" using Cons.prems(2) by (auto simp: same_reps_def)
  then obtain rs where rs: "uf_finds ns p' = Some rs" "map fst rs = ns" "\<forall>(i, r) \<in> set rs. rep p' i r" using Cons.IH by blast
  have "rep p k s" if "(k, s) \<in> set rs" for k s
  proof -
    have "k \<in> set ns" using that rs(2) by force
    then show ?thesis using that rs(3) f(3) Cons.prems(2) by (auto simp: same_reps_def)
  qed
  then show ?case using f rs by auto
qed simp

section \<open>Components\<close>

text \<open>The classes of a list of numbers under a key, in the order of their least members.\<close>

lemma dedup_snoc: "dedup (xs @ [x]) = (if x \<in> set xs then dedup xs else dedup xs @ [x])"
proof -
  have "set (fold (\<lambda>x out. if x \<in> set out then out else out @ [x]) xs out) = set out \<union> set xs" for out :: "'a list"
    by (induction xs arbitrary: out) auto
  then show ?thesis by (simp add: dedup_def)
qed

lemma dedup_leaders:
  fixes ns :: "nat list"
  assumes "sorted_wrt (<) ns"
  shows "dedup (map f ns) = map f (filter (\<lambda>l. \<forall>k \<in> set ns. k < l \<longrightarrow> f k \<noteq> f l) ns)"
  using assms
proof (induction ns rule: rev_induct)
  case (snoc x ns)
  have lt: "k < x" if "k \<in> set ns" for k using snoc.prems that by (simp add: sorted_wrt_append)
  have "filter (\<lambda>l. \<forall>k \<in> set (ns @ [x]). k < l \<longrightarrow> f k \<noteq> f l) ns = filter (\<lambda>l. \<forall>k \<in> set ns. k < l \<longrightarrow> f k \<noteq> f l) ns"
    using lt by (intro filter_cong) (auto dest: less_asym)
  moreover have "(\<forall>k \<in> set (ns @ [x]). k < x \<longrightarrow> f k \<noteq> f x) \<longleftrightarrow> f x \<notin> set (map f ns)" using lt by (auto simp: image_iff)
  ultimately show ?case using snoc by (simp add: dedup_snoc sorted_wrt_append)
qed (simp add: dedup_def)

definition components :: "(nat \<times> nat) set \<Rightarrow> nat list \<Rightarrow> nat list list" where
  "components E ns = map (\<lambda>l. filter (\<lambda>i. (l, i) \<in> linked E) ns) (filter (\<lambda>l. \<forall>k \<in> set ns. k < l \<longrightarrow> (k, l) \<notin> linked E) ns)"

definition group_members :: "(nat \<times> nat) list \<Rightarrow> nat list list" where
  "group_members rs = map (\<lambda>r. sort (map fst (filter (\<lambda>x. snd x = r) rs))) (dedup (map snd rs))"

lemma group_components:
  assumes "sorted_wrt (<) ns" "map fst rs = ns" "\<And>i r k s. (i, r) \<in> set rs \<Longrightarrow> (k, s) \<in> set rs \<Longrightarrow> r = s \<longleftrightarrow> (i, k) \<in> linked E"
  shows "group_members rs = components E ns"
proof -
  have d: "distinct (map fst rs)" using assms(1,2) strict_sorted_iff by blast
  define f where "f i = (case map_of rs i of Some r \<Rightarrow> r | None \<Rightarrow> 0)" for i
  have rs: "snd x = f (fst x)" if "x \<in> set rs" for x using map_of_is_SomeI [OF d, of "fst x" "snd x"] that by (simp add: f_def)
  have key: "f i = f k \<longleftrightarrow> (i, k) \<in> linked E" if ik: "i \<in> set ns" "k \<in> set ns" for i k
  proof -
    obtain x y where "x \<in> set rs" "fst x = i" "y \<in> set rs" "fst y = k" using ik assms(2) by auto
    then show ?thesis using assms(3) [of i "snd x" k "snd y"] rs by (metis prod.collapse)
  qed
  have snds: "map snd rs = map f ns" using rs assms(2) by (auto simp flip: assms(2))
  have mem: "map fst (filter (\<lambda>x. snd x = r) rs) = filter (\<lambda>i. f i = r) ns" for r
  proof -
    have "filter (\<lambda>x. snd x = r) rs = filter (\<lambda>x. f (fst x) = r) rs" using rs by (intro filter_cong) auto
    then show ?thesis using assms(2) by (simp add: filter_map o_def flip: assms(2))
  qed
  have srt: "sort (filter P ns) = filter P ns" for P using assms(1) by (simp add: sorted_wrt_filter strict_sorted_imp_sorted sorted_sort_id)
  have "group_members rs = map (\<lambda>l. filter (\<lambda>i. f i = f l) ns) (filter (\<lambda>l. \<forall>k \<in> set ns. k < l \<longrightarrow> f k \<noteq> f l) ns)"
    by (simp add: group_members_def snds mem srt dedup_leaders [OF assms(1)])
  also have "\<dots> = components E ns" unfolding components_def
    by (rule map_cong) (auto simp: key intro!: filter_cong dest: linked_sym)
  finally show ?thesis .
qed


section \<open>Forming regions\<close>

definition usageKey :: "string list \<Rightarrow> string" where
  "usageKey flows = joinWith (CHR ''+'') flows"

definition node_key :: "plan_state \<Rightarrow> nat \<Rightarrow> string" where
  "node_key ps i = usageKey (ps_flowsOf ps ! i)"

definition isIdentifierExpr :: "string \<Rightarrow> bool" where
  "isIdentifierExpr s \<longleftrightarrow> s \<noteq> [] \<and> list_all (\<lambda>i. let b = of_char (s ! i) :: nat in
     97 \<le> b \<and> b \<le> 122 \<or> 65 \<le> b \<and> b \<le> 90 \<or> b = 95 \<or> i > 0 \<and> 48 \<le> b \<and> b \<le> 57) [0..<length s]"

text \<open>The statements that \<open>formComponents\<close> joins: a use with its definition, and what a compound root shared by several
  flows refers to.\<close>

definition def_links :: "(string \<Rightarrow> gast option) \<Rightarrow> plan_state \<Rightarrow> (nat \<times> nat) list" where
  "def_links parse ps =
    concat (map (\<lambda>i. if ps_isConfig ps ! i then []
       else map (\<lambda>j. (i, j)) (filter (\<lambda>j. \<not> ps_isConfig ps ! j \<and> node_key ps j = node_key ps i)
         (List.map_filter (map_of (ps_definedBy ps)) (uses parse (ps_nodes ps ! i) (set (ps_allVars ps)))))) [0..<length (ps_nodes ps)])"

definition root_flows :: "flow_scope list \<Rightarrow> (string, string list) gomap" where
  "root_flows scopes =
    fold (\<lambda>s. fold (\<lambda>e m. if e = [] \<or> isIdentifierExpr e then m
       else goput e ((case map_of m e of Some fs \<Rightarrow> fs | None \<Rightarrow> []) @ [fs_fn s]) m) (fs_rootExprs s)) scopes []"

definition root_links :: "(string \<Rightarrow> gast option) \<Rightarrow> plan_state \<Rightarrow> string \<times> string list \<Rightarrow> (nat \<times> nat) list" where
  "root_links parse ps ef =
    (if length (snd ef) < 2 then []
     else let js = filter (\<lambda>j. \<not> ps_isConfig ps ! j \<and> node_key ps j = usageKey (sort (snd ef)))
                (List.map_filter (map_of (ps_definedBy ps)) (freeIdents parse (fst ef)))
          in map (\<lambda>j. (hd js, j)) (tl js))"

definition all_links :: "(string \<Rightarrow> gast option) \<Rightarrow> plan_state \<Rightarrow> (string \<times> string list) list \<Rightarrow> (nat \<times> nat) list" where
  "all_links parse ps efs = def_links parse ps @ concat (map (root_links parse ps) efs)"

definition plain_nodes :: "plan_state \<Rightarrow> nat list" where
  "plain_nodes ps = filter (\<lambda>i. \<not> ps_isConfig ps ! i) [0..<length (ps_nodes ps)]"

text \<open>\<open>ranged\<close> is the order in which Go ranges over the map of shared roots.\<close>

definition formComponents :: "(string \<Rightarrow> gast option) \<Rightarrow> ((string \<times> string list) list \<Rightarrow> (string \<times> string list) list) \<Rightarrow> flow_scope list \<Rightarrow> plan_state \<Rightarrow> plan_state option" where
  "formComponents parse ranged scopes ps =
    (case uf_unions (all_links parse ps (ranged (root_flows scopes))) [0..<length (ps_nodes ps)] of
       None \<Rightarrow> None
     | Some p \<Rightarrow>
         (case uf_finds (plain_nodes ps) p of
            None \<Rightarrow> None
          | Some rs \<Rightarrow>
              (let ms = group_members rs
               in Some (ps\<lparr>ps_regions := map (\<lambda>m. \<lparr>rg_usage = ps_flowsOf ps ! hd m, rg_members = m, rg_primaryExpr = [], rg_primaryVar = []\<rparr>) ms,
                    ps_memberOf := map (\<lambda>i. filter (\<lambda>r. i \<in> set (ms ! r)) [0..<length ms]) [0..<length (ps_nodes ps)]\<rparr>))))"

lemma uf_start: "uf_ok [0..<n]" "x < n \<Longrightarrow> y < n \<Longrightarrow> same_set [0..<n] x y \<longleftrightarrow> (x, y) \<in> linked {}"
proof -
  have r: "rep [0..<n] x x" if "x < n" for x using dep_root [of "[0..<n]" x] that by (auto simp: rep_def)
  then show "uf_ok [0..<n]" by (auto simp: uf_ok_def)
  show "x < n \<Longrightarrow> y < n \<Longrightarrow> same_set [0..<n] x y \<longleftrightarrow> (x, y) \<in> linked {}" using r rep_unique unfolding same_set_def linked_def by (metis Id_O_R Un_empty_left converse_empty pair_in_Id_conv rtrancl_empty)
qed

definition plan_wf :: "plan_state \<Rightarrow> bool" where
  "plan_wf ps \<longleftrightarrow> (\<forall>x j. map_of (ps_definedBy ps) x = Some j \<longrightarrow> j < length (ps_nodes ps))"

lemma plan_init_wf: "plan_wf (plan_init D sns)"
proof -
  define below where "below m n \<longleftrightarrow> (\<forall>x j. map_of m x = Some j \<longrightarrow> j < n)" for m :: "(string, nat) gomap" and n :: nat
  have "below (goput d i m) n" if "below m n" "i < n" for d i n m using that by (auto simp: below_def split: if_splits)
  then have inner: "below (fold (\<lambda>d. goput d i) ds m) n" if "below m n" "i < n" for ds i n m using that by (induction ds arbitrary: m) simp_all
  have outer: "below (fold (\<lambda>i. fold (\<lambda>d. goput d i) (f i)) is m) n" if "below m n" "\<forall>i \<in> set is. i < n" for "is" f n m
    using that inner by (induction "is" arbitrary: m) simp_all
  have "below (fold (\<lambda>i. fold (\<lambda>d. goput d i) (node_defines (map sn_n sns ! i))) [0..<length sns] []) (length sns)"
    by (rule outer) (simp_all add: below_def)
  moreover have "ps_definedBy (plan_init D sns) = fold (\<lambda>i. fold (\<lambda>d. goput d i) (node_defines (map sn_n sns ! i))) [0..<length sns] []"
      "length (ps_nodes (plan_init D sns)) = length sns" by (simp_all add: plan_init_def Let_def)
  ultimately show ?thesis unfolding plan_wf_def below_def by (simp only:)
qed

lemma all_links_plain:
  assumes "plan_wf ps" "(i, j) \<in> set (all_links parse ps efs)"
  shows "i \<in> set (plain_nodes ps) \<and> j \<in> set (plain_nodes ps) \<and> node_key ps i = node_key ps j"
proof -
  have mem: "j < length (ps_nodes ps)" if "j \<in> set (List.map_filter (map_of (ps_definedBy ps)) xs)" for j xs
    using that assms(1) by (auto simp: List.map_filter_def plan_wf_def)
  consider "(i, j) \<in> set (def_links parse ps)" | ef where "(i, j) \<in> set (root_links parse ps ef)" using assms(2) by (auto simp: all_links_def)
  then show ?thesis
  proof cases
    case 1
    then show ?thesis using mem by (auto simp: def_links_def plain_nodes_def split: if_splits)
  next
    case (2 ef)
    define js where "js = filter (\<lambda>j. \<not> ps_isConfig ps ! j \<and> node_key ps j = usageKey (sort (snd ef))) (List.map_filter (map_of (ps_definedBy ps)) (freeIdents parse (fst ef)))"
    have "i = hd js" "j \<in> set (tl js)" using 2 by (auto simp: root_links_def js_def Let_def split: if_splits)
    then have "i \<in> set js" "j \<in> set js" by (cases js; auto)+
    then show ?thesis using mem by (auto simp: js_def plain_nodes_def)
  qed
qed

lemma linked_key:
  assumes "plan_wf ps" "(i, j) \<in> linked (set (all_links parse ps efs))"
  shows "node_key ps i = node_key ps j"
  using assms(2) unfolding linked_def by (induction rule: rtrancl_induct) (use all_links_plain [OF assms(1)] in auto)


text \<open>C17: Regions are the connected components. For the statements of any store and any order in which Go ranges over the
  map of shared roots, the union-find ends, and the regions formed are the classes of statements, configuration loads
  aside, that are connected by a use, or by a root that several flows share, among statements with the same usage; they
  stand in the order of their first statements with their members in order. All members of a region have its usage.\<close>

theorem gen_components_exact:
  assumes "ps = plan_init D sns" "set (ranged (root_flows scopes)) = set (root_flows scopes)"
  shows "\<exists>ps'. formComponents parse ranged scopes ps = Some ps' \<and>
    map rg_members (ps_regions ps') = components (set (all_links parse ps (root_flows scopes))) (plain_nodes ps) \<and>
    (\<forall>r \<in> set (ps_regions ps'). \<forall>i \<in> set (rg_members r). node_key ps i = usageKey (rg_usage r))"
proof -
  let ?es = "all_links parse ps (ranged (root_flows scopes))" and ?n = "length (ps_nodes ps)" and ?E = "set (all_links parse ps (root_flows scopes))"
  have wf: "plan_wf ps" using assms(1) plan_init_wf by simp
  have E: "set ?es = ?E" using assms(2) by (simp add: all_links_def)
  have b: "\<forall>(i, j) \<in> set ?es. i < ?n \<and> j < ?n" using all_links_plain [OF wf] by (fastforce simp: plain_nodes_def)
  obtain p where p: "uf_unions ?es [0..<?n] = Some p" "length p = ?n" "uf_ok p" "\<forall>x < ?n. \<forall>y < ?n. same_set p x y \<longleftrightarrow> (x, y) \<in> linked ?E"
    using uf_unions_correct [OF uf_start(1) _ uf_start(2) b] E by auto
  have pl: "\<forall>i \<in> set (plain_nodes ps). i < length p" using p(2) by (auto simp: plain_nodes_def)
  obtain rs where rs: "uf_finds (plain_nodes ps) p = Some rs" "map fst rs = plain_nodes ps" "\<forall>(i, r) \<in> set rs. rep p i r"
    using uf_finds_correct [OF p(3) pl] by blast
  have key: "r = s \<longleftrightarrow> (i, k) \<in> linked ?E" if "(i, r) \<in> set rs" "(k, s) \<in> set rs" for i r k s
  proof -
    have "i \<in> set (map fst rs)" "k \<in> set (map fst rs)" using that by force+
    then have "i < ?n" "k < ?n" using rs(2) pl p(2) by auto
    then have "same_set p i k \<longleftrightarrow> (i, k) \<in> linked ?E" using p(4) by simp
    moreover have "rep p i r" "rep p k s" using rs(3) that by auto
    ultimately show ?thesis using rep_unique unfolding same_set_def by metis
  qed
  have "sorted_wrt (<) (plain_nodes ps)" by (simp add: plain_nodes_def sorted_wrt_filter)
  then have g: "group_members rs = components ?E (plain_nodes ps)" using rs(2) key by (rule group_components)
  have u: "node_key ps i = usageKey (ps_flowsOf ps ! hd m)" if m: "m \<in> set (components ?E (plain_nodes ps))" "i \<in> set m" for m i
  proof -
    obtain l where l: "m = filter (\<lambda>i. (l, i) \<in> linked ?E) (plain_nodes ps)" using m(1) by (auto simp: components_def)
    have "hd m \<in> set m" using m(2) by (cases m) auto
    then have "(l, i) \<in> linked ?E" "(l, hd m) \<in> linked ?E" using m(2) l by auto
    then show ?thesis using linked_key [OF wf] by (metis node_key_def)
  qed
  then show ?thesis using p(1) rs(1) g by (auto simp: formComponents_def Let_def o_def)
qed


section \<open>Dissolving regions\<close>

definition dissolve :: "nat \<Rightarrow> plan_state \<times> flow_scope list \<Rightarrow> plan_state \<times> flow_scope list" where
  "dissolve r st =
    (let (ps, scopes) = st; reg = ps_regions ps ! r;
         members = map (\<lambda>i. if i \<in> set (rg_members reg) then filter (\<lambda>q. q \<noteq> r) (ps_memberOf ps ! i) else ps_memberOf ps ! i) [0..<length (ps_memberOf ps)];
         scopes1 = (if rg_primaryVar reg \<noteq> []
           then map (\<lambda>s. s\<lparr>fs_rootExprs := map (\<lambda>e. if e = rg_primaryVar reg then rg_primaryExpr reg else e) (fs_rootExprs s)\<rparr>) scopes else scopes)
     in (ps\<lparr>ps_memberOf := members, ps_regions := (ps_regions ps)[r := reg\<lparr>rg_members := [], rg_primaryExpr := [], rg_primaryVar := []\<rparr>]\<rparr>, scopes1))"

fun findUnschedulable :: "(string \<Rightarrow> gast option) \<Rightarrow> plan_state \<Rightarrow> flow_scope list \<Rightarrow> nat option" where
  "findUnschedulable parse ps [] = None"
| "findUnschedulable parse ps (s # ss) = (case snd (orderFlow parse ps (fs_fn s)) of Some r \<Rightarrow> Some r | None \<Rightarrow> findUnschedulable parse ps ss)"

fun dissolve_loop :: "nat \<Rightarrow> (string \<Rightarrow> gast option) \<Rightarrow> plan_state \<times> flow_scope list \<Rightarrow> nat list \<Rightarrow> ((plan_state \<times> flow_scope list) \<times> nat list) option" where
  "dissolve_loop 0 parse st regions = None"
| "dissolve_loop (Suc n) parse st regions =
    (case findUnschedulable parse (fst st) (snd st) of
       None \<Rightarrow> Some (st, regions)
     | Some r \<Rightarrow> dissolve_loop n parse (dissolve r st) (filter (\<lambda>q. q \<noteq> r) regions))"

text \<open>Members and owners of a plan agree, and the live regions are those with members.\<close>

definition plan_inv :: "plan_state \<Rightarrow> nat list \<Rightarrow> bool" where
  "plan_inv ps regions \<longleftrightarrow> length (ps_memberOf ps) = length (ps_nodes ps) \<and>
     (\<forall>i < length (ps_nodes ps). \<forall>r. r \<in> set (ps_memberOf ps ! i) \<longleftrightarrow> r < length (ps_regions ps) \<and> i \<in> set (rg_members (ps_regions ps ! r))) \<and>
     regions = filter (\<lambda>r. rg_members (ps_regions ps ! r) \<noteq> []) [0..<length (ps_regions ps)] \<and>
     (\<forall>r < length (ps_regions ps). set (rg_members (ps_regions ps ! r)) \<subseteq> {..<length (ps_nodes ps)})"

lemma unschedulable_home:
  "findUnschedulable parse ps scopes = Some r \<Longrightarrow> \<exists>i < length (ps_nodes ps). \<exists>flow. homeFor ps i flow = Some r"
proof (induction scopes)
  case (Cons s ss)
  show ?case
  proof (cases "snd (orderFlow parse ps (fs_fn s))")
    case (Some q)
    then have "orderFlow parse ps (fs_fn s) = (fst (orderFlow parse ps (fs_fn s)), Some q)" by (simp add: prod_eq_iff)
    note broken_unit = orderFlow_broken [OF this]
    then show ?thesis using Cons.prems Some by (auto simp: flow_nodes_def)
  qed (use Cons in simp)
qed simp

lemma dissolve_inv:
  assumes "plan_inv ps regions" "r \<in> set regions"
  shows "plan_inv (fst (dissolve r (ps, scopes))) (filter (\<lambda>q. q \<noteq> r) regions)"
proof -
  obtain ps' scopes' where d: "dissolve r (ps, scopes) = (ps', scopes')" by (rule prod.exhaust)
  have r: "r < length (ps_regions ps)" using assms by (auto simp: plan_inv_def)
  have f: "ps_nodes ps' = ps_nodes ps" "length (ps_regions ps') = length (ps_regions ps)" "length (ps_memberOf ps') = length (ps_memberOf ps)"
    using d by (auto simp: dissolve_def Let_def)
  have m: "rg_members (ps_regions ps' ! q) = (if q = r then [] else rg_members (ps_regions ps ! q))" if "q < length (ps_regions ps)" for q
    using d r that by (auto simp: dissolve_def Let_def nth_list_update)
  have o: "set (ps_memberOf ps' ! i) = set (ps_memberOf ps ! i) - {r}" if i: "i < length (ps_nodes ps)" for i
  proof -
    have "r \<in> set (ps_memberOf ps ! i) \<longleftrightarrow> i \<in> set (rg_members (ps_regions ps ! r))" using assms(1) i r by (simp add: plan_inv_def)
    moreover have "i < length (ps_memberOf ps)" using assms(1) i by (simp add: plan_inv_def)
    ultimately show ?thesis using d by (auto simp: dissolve_def Let_def)
  qed
  have "filter (\<lambda>q. q \<noteq> r) regions = filter (\<lambda>q. rg_members (ps_regions ps' ! q) \<noteq> []) [0..<length (ps_regions ps')]"
    using assms(1) m f by (auto simp: plan_inv_def intro!: filter_cong split: if_splits)
  moreover have "\<forall>i < length (ps_nodes ps). \<forall>q. q \<in> set (ps_memberOf ps' ! i) \<longleftrightarrow> q < length (ps_regions ps') \<and> i \<in> set (rg_members (ps_regions ps' ! q))"
    using assms(1) o m f by (auto simp: plan_inv_def split: if_splits)
  moreover have "\<forall>q < length (ps_regions ps'). set (rg_members (ps_regions ps' ! q)) \<subseteq> {..<length (ps_nodes ps')}" using assms(1) m f by (auto simp: plan_inv_def)
  ultimately show ?thesis using d f assms(1) by (simp add: plan_inv_def)
qed

lemma unschedulable_live:
  assumes "plan_inv ps regions" "findUnschedulable parse ps scopes = Some r"
  shows "r \<in> set regions"
proof -
  obtain i flow where i: "i < length (ps_nodes ps)" "homeFor ps i flow = Some r" using unschedulable_home [OF assms(2)] by blast
  then have "r \<in> set (ps_memberOf ps ! i)" by (auto simp: homeFor_def find_Some_iff)
  then have "r < length (ps_regions ps)" "i \<in> set (rg_members (ps_regions ps ! r))" using assms(1) i(1) by (auto simp: plan_inv_def)
  then show ?thesis using assms(1) by (auto simp: plan_inv_def)
qed

lemma unschedulable_none: "findUnschedulable parse ps scopes = None \<longleftrightarrow> (\<forall>s \<in> set scopes. snd (orderFlow parse ps (fs_fn s)) = None)"
  by (induction scopes) (auto split: option.splits)

text \<open>The dissolving of regions ends. For any regions whose members and owners agree, the loop makes at most one round
  for each region; then no flow is stuck at a region, members and owners still agree, and the regions kept are those
  that have members.\<close>

theorem gen_dissolve_ends:
  assumes "plan_inv ps regions" "length regions < n"
  shows "\<exists>ps' scopes' regions'. dissolve_loop n parse (ps, scopes) regions = Some ((ps', scopes'), regions') \<and>
    (\<forall>s \<in> set scopes'. snd (orderFlow parse ps' (fs_fn s)) = None) \<and> plan_inv ps' regions' \<and> set regions' \<subseteq> set regions"
  using assms
proof (induction n arbitrary: ps scopes regions)
  case (Suc n)
  show ?case
  proof (cases "findUnschedulable parse ps scopes")
    case None
    then have "\<forall>s \<in> set scopes. snd (orderFlow parse ps (fs_fn s)) = None" by (simp add: unschedulable_none)
    moreover have "dissolve_loop (Suc n) parse (ps, scopes) regions = Some ((ps, scopes), regions)" using None by simp
    ultimately show ?thesis using Suc.prems(1) by blast
  next
    case (Some r)
    note live = unschedulable_live [OF Suc.prems(1) Some]
    obtain ps1 scopes1 where d: "dissolve r (ps, scopes) = (ps1, scopes1)" by (rule prod.exhaust)
    have inv: "plan_inv ps1 (filter (\<lambda>q. q \<noteq> r) regions)" using dissolve_inv [OF Suc.prems(1) live, of scopes] d by simp
    have "length (filter (\<lambda>q. q \<noteq> r) regions) < length regions" using live by (auto intro: length_filter_less)
    then have "length (filter (\<lambda>q. q \<noteq> r) regions) < n" using Suc.prems(2) by linarith
    then obtain ps' scopes' regions' where "dissolve_loop n parse (ps1, scopes1) (filter (\<lambda>q. q \<noteq> r) regions) = Some ((ps', scopes'), regions')"
        "\<forall>s \<in> set scopes'. snd (orderFlow parse ps' (fs_fn s)) = None" "plan_inv ps' regions'" "set regions' \<subseteq> set (filter (\<lambda>q. q \<noteq> r) regions)"
      using Suc.IH [OF inv] by meson
    then show ?thesis using Some d by auto
  qed
qed simp


lemma uf_finds_fst: "uf_finds ns p = Some rs \<Longrightarrow> map fst rs = ns"
  by (induction ns arbitrary: p rs) (auto split: option.splits)

text \<open>The regions that are formed first are such regions.\<close>

lemma formComponents_inv:
  assumes "formComponents parse ranged scopes ps = Some ps'"
  shows "plan_inv ps' [0..<length (ps_regions ps')]"
proof -
  obtain p rs where rs: "uf_finds (plain_nodes ps) p = Some rs" and ps': "ps' = ps\<lparr>ps_regions := map (\<lambda>m. \<lparr>rg_usage = ps_flowsOf ps ! hd m, rg_members = m, rg_primaryExpr = [], rg_primaryVar = []\<rparr>) (group_members rs),
      ps_memberOf := map (\<lambda>i. filter (\<lambda>r. i \<in> set (group_members rs ! r)) [0..<length (group_members rs)]) [0..<length (ps_nodes ps)]\<rparr>"
    using assms by (auto simp: formComponents_def Let_def split: option.splits)
  have sub: "set m \<subseteq> {..<length (ps_nodes ps)}" if "m \<in> set (group_members rs)" for m
  proof -
    have "set m \<subseteq> set (map fst rs)" using that by (auto simp: group_members_def)
    then show ?thesis unfolding uf_finds_fst [OF rs] by (auto simp: plain_nodes_def)
  qed
  have "set (fold (\<lambda>x out. if x \<in> set out then out else out @ [x]) xs out) \<subseteq> set out \<union> set xs" for xs out :: "nat list"
  proof (induction xs arbitrary: out)
    case (Cons x xs)
    then show ?case using Cons.IH [of out] Cons.IH [of "out @ [x]"] by auto
  qed simp
  from this [of _ "[]"] have ds: "set (dedup xs) \<subseteq> set xs" for xs :: "nat list" by (simp add: dedup_def)
  have ne: "m \<noteq> []" if m: "m \<in> set (group_members rs)" for m  proof -
    obtain r where r: "r \<in> set (dedup (map snd rs))" "m = sort (map fst (filter (\<lambda>x. snd x = r) rs))" using m by (auto simp: group_members_def)
    then obtain x where "x \<in> set rs" "snd x = r" using ds [of "map snd rs"] by auto
    then have "fst x \<in> set m" using r(2) by auto
    then show ?thesis by auto
  qed
  have "filter (\<lambda>r. rg_members (ps_regions ps' ! r) \<noteq> []) [0..<length (ps_regions ps')] = [0..<length (ps_regions ps')]"
    using ne ps' by (auto simp: filter_id_conv)
  moreover have "\<forall>r < length (ps_regions ps'). set (rg_members (ps_regions ps' ! r)) \<subseteq> {..<length (ps_nodes ps')}" using sub ps' by auto
  moreover have "length (ps_memberOf ps') = length (ps_nodes ps')" "\<forall>i < length (ps_nodes ps'). \<forall>r. r \<in> set (ps_memberOf ps' ! i) \<longleftrightarrow> r < length (ps_regions ps') \<and> i \<in> set (rg_members (ps_regions ps' ! r))"
    using ps' by auto
  ultimately show ?thesis by (simp add: plan_inv_def)
qed

section \<open>An example\<close>

text \<open>Two commands share a database handle and what is built on it; a hook reads the configuration.\<close>

definition plan_parse :: "string \<Rightarrow> gast option" where
  "plan_parse s = Some (Ident s)"

definition plan_nodes :: "store_node list" where
  "plan_nodes =
    [\<lparr>sn_n = ConfigLoad (phase_base PhaseConfig) ''cfg'' ''config'' ''Config'' [] [], sn_demand = Some (DemandType ''Config'' []), sn_flow = ''serve'', sn_pos = noPos\<rparr>,
     \<lparr>sn_n = Assign (phase_base PhaseWire) ''store'' ''db'', sn_demand = Some (DemandType ''Store'' []), sn_flow = ''serve'', sn_pos = noPos\<rparr>,
     \<lparr>sn_n = Assign (phase_base PhaseWire) ''db'' ''cfg'', sn_demand = Some (DemandType ''DB'' []), sn_flow = ''serve'', sn_pos = noPos\<rparr>,
     \<lparr>sn_n = Assign (phase_base PhaseSetup) ''logger'' ''cfg'', sn_demand = None, sn_flow = ''serve'', sn_pos = noPos\<rparr>]"

definition plan_demands :: "(demand_key \<times> string) set" where
  "plan_demands = {(DemandType ''Config'' [], ''serve''), (DemandType ''Config'' [], ''work''), (DemandType ''Store'' [], ''serve''),
     (DemandType ''Store'' [], ''work''), (DemandType ''DB'' [], ''serve''), (DemandType ''DB'' [], ''work'')}"

definition plan_scopes :: "flow_scope list" where
  "plan_scopes = [\<lparr>fs_fn = ''serve'', fs_pos = noPos, fs_roots = [], fs_rootExprs = [''store'']\<rparr>, \<lparr>fs_fn = ''work'', fs_pos = noPos, fs_roots = [], fs_rootExprs = [''store'']\<rparr>]"

definition plan_example :: plan_state where
  "plan_example = (plan_init plan_demands plan_nodes)\<lparr>ps_regions := [\<lparr>rg_usage = [''serve'', ''work''], rg_members = [1, 2], rg_primaryExpr = [], rg_primaryVar = []\<rparr>],
     ps_memberOf := [[], [0], [0], []]\<rparr>"

theorem gen_components_exact_witness:
  "\<exists>ps'. formComponents plan_parse rev plan_scopes (plan_init plan_demands plan_nodes) = Some ps' \<and>
     map rg_members (ps_regions ps') = components (set (all_links plan_parse (plan_init plan_demands plan_nodes) (root_flows plan_scopes))) (plain_nodes (plan_init plan_demands plan_nodes))"
  using gen_components_exact [OF refl, of rev plan_scopes plan_parse plan_demands plan_nodes] by auto

lemma plan_example_units: "flow_units plan_example ''serve'' =
    [\<lparr>un_reg = None, un_nodes = [0], un_first = 0\<rparr>, \<lparr>un_reg = Some 0, un_nodes = [1, 2], un_first = 1\<rparr>, \<lparr>un_reg = None, un_nodes = [3], un_first = 3\<rparr>]"
  by code_simp

lemma plan_example_deps: "map (unit_deps plan_parse plan_example ''serve'' (flow_units plan_example ''serve'')) [0..<3] = [[], [0], [0]]"
  unfolding plan_example_units by code_simp

lemma plan_example_flags: "map (un_hook plan_example) (flow_units plan_example ''serve'') = [False, False, True]"
    "map (un_prov plan_example) (flow_units plan_example ''serve'') = [False, True, False]"
  unfolding plan_example_units by code_simp+

lemma plan_example_flow: "flow_order plan_parse plan_example ''serve'' = [0, 2, 1]"
proof -
  have "length (flow_units plan_example ''serve'') = 3" by (simp add: plan_example_units)
  moreover have "order_loop 3 [[], [0], [0]] [False, False, True] [False, True, False] [] = [0, 2, 1]" by code_simp
  ultimately show ?thesis by (simp add: flow_order_def Let_def plan_example_deps plan_example_flags)
qed

lemma plan_example_order: "orderFlow plan_parse plan_example ''serve'' = ([NodeStep 0, NodeStep 3, RegionStep 0], None)"
  by (simp add: orderFlow_def Let_def plan_example_flow plan_example_units unit_step_def upt_rec)

theorem gen_plan_order_sound_witness:
  "orderFlow plan_parse plan_example ''serve'' = ([NodeStep 0, NodeStep 3, RegionStep 0], None) \<and>
   distinct (planned_nodes plan_example ''serve'' [NodeStep 0, NodeStep 3, RegionStep 0])"
  using gen_plan_order_sound [OF plan_example_order] plan_example_order by blast

theorem gen_plan_order_exact_witness:
  "set (planned_nodes plan_example ''serve'' [NodeStep 0, NodeStep 3, RegionStep 0]) = {0, 1, 2, 3} \<and>
   acyclic (dep_rel (flow_waits plan_parse plan_example ''serve''))"
proof -
  have "set (planned_nodes plan_example ''serve'' [NodeStep 0, NodeStep 3, RegionStep 0]) = {0, 1, 2, 3}" "set (flow_nodes plan_example ''serve'') = {0, 1, 2, 3}"
    by code_simp+
  then show ?thesis using conjunct1 [OF gen_plan_order_exact [OF plan_example_order]] by simp
qed


lemma plan_example_inv: "plan_inv plan_example [0]"
  unfolding plan_inv_def
  by (auto simp: plan_example_def plan_init_def plan_nodes_def Let_def less_Suc_eq numeral_eq_Suc)

theorem gen_dissolve_ends_witness:
  "\<exists>ps' scopes' regions'. dissolve_loop 2 plan_parse (plan_example, plan_scopes) [0] = Some ((ps', scopes'), regions') \<and> plan_inv ps' regions'"
  using gen_dissolve_ends [OF plan_example_inv, of 2 plan_parse plan_scopes] by auto

end
