(* ===== verification/Spec2Isabelle.thy ===== *)
theory Spec2Isabelle
  imports Prelude GoText Paging RateLimit Cache CacheLoad
    JobStore JobLife JobGuarantees JobWorker JobEngine JobManager JobSchedule
    SessionStore SessionToken Session SessionCommit SessionLife SessionHTTP
    MwOrder CliParse CliGuarantees AuthStore PasswordHash SessionAuth GoPath Migrations
    GenArgs GenGraph GenLayout GenValidate GenWire GenFlows GenPlan GenRegions
begin

text \<open>
  Verification of fabrik, a Go toolkit for web applications: its run-time packages, each a library
  with an in-process implementation of a store contract.

  \<^bold>\<open>The program's parts.\<close> An application puts together independent packages. \<open>ratelimit\<close> admits or
  denies requests per key; \<open>cache\<close> keeps values with an expiry and loads them once; \<open>jobs\<close> queues,
  runs, retries and schedules background work; \<open>session\<close> keeps typed data per visitor; \<open>auth\<close> keeps
  identities and passwords and puts logins into the session; \<open>migrations\<close> brings a database up to date; \<open>cli\<close>
  parses command lines; \<open>paging\<close> computes page numbers. Each stateful package has a \<open>Store\<close> interface, an in-process store
  (\<open>store_memory.go\<close>), SQL stores, and a manager above the interface that relies on its
  compare-and-swap or lease laws. Of these packages only \<open>auth/session\<close> calls another one, the session
  manager; each meets its clients through HTTP middleware or plain calls.

  \<^bold>\<open>Which theory models what\<close> (files under \<open>src/\<close>).
  \<^item> \<open>Prelude\<close>: 64-bit integers, instants and durations, Go maps as association lists.
    \<open>GoText\<close>: what is used of \<open>strconv\<close>, \<open>strings\<close> and \<open>encoding/base64\<close>.
  \<^item> \<open>Paging\<close>: \<open>paging/paging.go\<close>, every method of \<open>Page\<close>.
  \<^item> \<open>RateLimit\<close>: \<open>ratelimit/ratelimit.go\<close> (limits, the GCRA admission loop with interference between
    its read and its write, reservations), \<open>store_memory.go\<close> and \<open>middleware.go\<close>.
  \<^item> \<open>Cache\<close>: \<open>cache/store_memory.go\<close> (the LRU store) and \<open>cache/cache.go\<close> (typed views).
    \<open>CacheLoad\<close>: \<open>cache/load.go\<close>, the deduplication of loads as a step relation over goroutines.
  \<^item> \<open>JobStore\<close>: \<open>jobs/jobs.go\<close>, \<open>store.go\<close>, \<open>inspect.go\<close>, \<open>store_memory.go\<close>, every method of the store.
    \<open>JobLife\<close> and \<open>JobGuarantees\<close>: its invariant and what it promises over arbitrary runs.
  \<^item> \<open>JobWorker\<close>: \<open>jobs/backoff.go\<close> and \<open>worker.go\<close>: configuration, claim requests, the run of a claimed
    job, drain and completion. \<open>JobEngine\<close>: workers, sweeper and operators over one store, interleaved.
  \<^item> \<open>JobManager\<close>: \<open>jobs/manager.go\<close>, \<open>ops.go\<close>: registration, \<open>Enqueue\<close>, \<open>Publish\<close>. \<open>JobSchedule\<close>:
    \<open>schedule.go\<close>, \<open>cron.go\<close>: specs, catch-up plans, reconciliation and the scheduler tick.
  \<^item> \<open>SessionStore\<close>: \<open>session/store.go\<close>, \<open>store_memory.go\<close>. \<open>SessionToken\<close>: \<open>sid.go\<close>, \<open>cookie.go\<close>,
    \<open>bearer.go\<close> and the redaction of \<open>commit.go\<close>. \<open>Session\<close>: \<open>config.go\<close>, \<open>manager.go\<close>, \<open>envelope.go\<close>,
    \<open>bucket.go\<close>, \<open>commit.go\<close>, \<open>handle.go\<close>, \<open>app.go\<close>. \<open>SessionCommit\<close> and \<open>SessionLife\<close>: what the manager
    guarantees. \<open>SessionHTTP\<close>: \<open>middleware.go\<close>.
  \<^item> \<open>MwOrder\<close>: \<open>router/directive/ordering.go\<close> and the registration, chain resolution and validation of
    \<open>router/directive/middleware.go\<close>: the order of the global middleware of a generated application.
  \<^item> \<open>CliParse\<close>: \<open>cli/flag.go\<close>, \<open>arg.go\<close>, \<open>parse.go\<close>, \<open>exec.go\<close>, \<open>complete.go\<close>: declarations, the parser,
    execution and completion. \<open>CliGuarantees\<close>: what they promise.
  \<^item> \<open>AuthStore\<close>: \<open>auth/claims.go\<close>, \<open>context.go\<close>, \<open>guard.go\<close>, \<open>auth/store/store.go\<close>, \<open>store_memory.go\<close>,
    \<open>auth/password/password.go\<close>, \<open>store_memory.go\<close>. \<open>PasswordHash\<close>: \<open>auth/password/hasher.go\<close> and the
    construction of a verifier. \<open>SessionAuth\<close>: \<open>auth/session/sessionauth.go\<close> on the session manager.
  \<^item> \<open>GoPath\<close>: \<open>strings.Split\<close>, \<open>path.Clean\<close>, unsigned decimals, standard base64. \<open>Migrations\<close>:
    \<open>migrations/migrations.go\<close>, \<open>driver.go\<close> and \<open>Apply\<close> of the three drivers.
  \<^item> The generator, package \<open>gen\<close>, turns annotated Go into the program that wires an application. \<open>GenArgs\<close>:
    \<open>gen/args.go\<close>, directive arguments. \<open>GenGraph\<close>: \<open>node.go\<close> and \<open>graph.go\<close>, the collected statements and the
    variables they declare and use. \<open>GenLayout\<close>: \<open>render.go\<close>, the order and grouping of statements.
    \<open>GenValidate\<close>: \<open>validate.go\<close>, the checks of a flow. \<open>GenWire\<close>: the bindings of \<open>gen.go\<close> with \<open>resolve.go\<close> and
    \<open>Node\<close>: registration, lookup and construction on demand by closures, which are programs over the generator's calls.
    \<open>GenFlows\<close>: \<open>scope.go\<close>, \<open>usage.go\<close> and \<open>WalkFlows\<close>: the passes over the scopes of commands and the usage of demands.
    \<open>GenPlan\<close> and \<open>GenRegions\<close>: the planning of \<open>fragment.go\<close>, which statements flows share and in which order a flow runs them.

  \<^bold>\<open>How code becomes definitions.\<close> A struct is a record with the source's field names, an enum a
  datatype; a method is a function that returns its results and the new state. A method that holds a
  mutex from start to end is one step. Errors are values. Where the code gives control away between two
  steps (a read and the conditional write after it, a closure, a blocked goroutine), the model takes what
  others do there as an argument (interference functions in \<open>RateLimit\<close>, scripts of calls in
  \<open>SessionCommit\<close>) or as other steps of a relation (\<open>CacheLoad\<close>, \<open>JobEngine\<close>), and the theorems quantify
  over it. Clock readings, contexts, random bytes, generated ids, JSON codecs and cron expressions are
  arguments; what a theorem needs of them is among its hypotheses.

  \<^bold>\<open>What is proved.\<close>
  \<^item> Contracts, as locales interpreted on the in-process stores: \<open>cache_contract\<close> (an LRU map),
    \<open>claim_provider\<close> and \<open>insert_provider\<close> (the jobs store), \<open>session_store\<close> (compare-and-swap on versions),
    \<open>credential_store\<close> (compare-and-swap of a password hash, by both stores of \<open>auth\<close>).
  \<^item> Rate limits: over any window at most the burst plus the rate is admitted; \<open>RetryAfter\<close> is exact; an
    admission under interference is one atomic step; validation rules overflow out.
  \<^item> Cache: the store refines a bounded LRU map; a delete wins over every load that started before it; at
    most one load per key runs; a loaded value is served until it expires.
  \<^item> Jobs: leases are exclusive, cancellation wins, terminal states stay, a sweep recovers every expired
    lease, the attempt counter stays within its budget, unique keys are unique, claims and listings are exact, a tick
    fires once and leaves nothing due, reconciliation makes the stored schedules the declared ones.
  \<^item> Sessions: the cells of a request refine a map, the stored one; commits and updates are atomic under any interference,
    so no write is lost; revoked sessions stay revoked; the user index is exact; rotation keeps the absolute
    expiry; logout deletes first; identifiers do not leak through errors; the commit runs exactly once,
    before what goes through the committing writer (\<open>Unwrap\<close> goes past it); a saved value is read back by the next request.
  \<^item> Middleware order: when validation reports no error the stack is a permutation of the globals that
    respects every constraint; when some order does, the resolver reports none. The searches report a cycle
    exactly when there is one, and Kahn's counters are those of the reference choice.
  \<^item> Command lines: a printed invocation parses back; values have the declared types; tokens win over the
    environment; completion walks like the parser, up to repeated separators; the suggestion is at the least edit distance.
  \<^item> Identities: the store refines a map of accounts with unique emails; a rehash at login never undoes a
    password change; failures do not tell which accounts exist; hashes verify their password and ask for bounded
    work only; a password that was set logs in (the theorem of this theory); a login rotates the session, also when the
    old row cannot be deleted, and a login that fails half-way leaves no identity.
  \<^item> Migrations: applied in order, always a first part of what is missing; exact after success and then idempotent;
    refused on drift or orphans; status and file names exact; the drivers' \<open>Apply\<close> records what it reports.
  \<^item> The generator: written arguments parse back, and the source map of the lexer is right; when a flow passes its
    checks, the written program holds each statement once and declares every variable above its uses; the cycle check
    is exact. Resolution of dependencies ends whatever the closures do, cycles, panics and further registrations
    included; the walk over all flows builds a typed binding at most once; validation leaves no trace in the generated
    program and only adds to registrations, demand edges and conflicts; the flows that
    need a demand are exactly those that reach it, in every order of Go's maps; regions are the connected components of
    statements with the same usage; the order of a flow respects data flow and hooks, and is complete unless units wait
    in a circle; dissolving regions ends. The locale \<open>wire_stable\<close> carries a relation on states from
    the primitive operations to whatever closures do, and is interpreted on the two relations used.
  \<^item> Where the code does not do what it says, a theorem shows what it does: a job run that lost its lease
    completes the next one, a job that runs more often than its budget, a worker configuration that fails at run time, a cron whose name is too long,
    a backoff that wraps, a claim without queues, a rotation that revives a revoked session, a final status
    lost after an informational one, a subcommand alias that blocks every invocation, a batch written in an order
    that contradicts its data flow, a path binding with a warning that is built twice.

  \<^bold>\<open>Bounds and fuel.\<close> Retry loops recurse on the retries left (\<open>MaxRetries\<close>, by default 3); the
  completion of a job makes at most five calls; catch-up plans stop at \<open>CatchUpAllMax\<close> = 1000 fires, as in
  the code. Depth-first searches take the number of nodes as depth, rounds of cycle removal the number of
  declarations, and both are proved enough; so is the fuel of \<open>featureRoots\<close>. Closures run at a depth of nested
  constructions: the number of lazy bindings registered and of keys under which closures can register more is enough,
  and one more for callbacks. The usage loop takes as many passes as there are pairs of demand and flow, plus one. The admission loop may run forever under contention: it takes the rounds to come as a list and
  yields nothing when they end, and it is proved to return at the first uncontended round. Session versions
  are 64-bit words; theorems that need them not to wrap assume fewer than \<open>2 ^ 64\<close> calls.

  \<^bold>\<open>Not modelled.\<close> The SQL stores (SQL run by a server), the \<open>fabrik\<close> command with its directive
  engine, the Go source text that \<open>gen\<close> writes and its JSON graph, \<open>go/parser\<close> and \<open>go/types\<close> (parameters), the rest of \<open>router\<close>, \<open>web\<close>, \<open>forms\<close>, \<open>config\<close>, \<open>query\<close>, \<open>mail\<close>,
  \<open>assets\<close>, \<open>storage\<close>, \<open>httpserver\<close> (I/O and reflection), the help texts of \<open>cli\<close>, the key derivation of Argon2,
  the JSON forms of claims, the release tools, tests and examples; logging, timers and context cancellation as
  scheduling. To follow: the SQL writer of \<open>query\<close>, \<open>flash\<close>, \<open>validation\<close> and the dependency graph of \<open>assets\<close>.
\<close>

section \<open>Logging in with a stored password\<close>

text \<open>C27: Setting a password and logging in with it work together. With the default hasher, for an active identity of any
  store reached from the empty one, once \<open>Verifier.Hash\<close> and \<open>SetPassword\<close> have succeeded, a login with the same email
  and password returns the claims of that identity, compares one hash and leaves the store as others left it; a
  password that derives another key is refused with \<open>ErrInvalidCredentials\<close>.\<close>

theorem auth_password_login:
  assumes "auth_run nrm calls NewAuthStore = (rs, s)" "password_New kdf True mc None salt1 salt2 probe = Inr v"
    and "verifier_Hash v True salt pw = Inr encoded" "length salt = saltLen" "\<And>pw t m l n. length (kdf pw salt t m l n) = n"
    and "SetPassword nrm i email encoded s = (None, s1)" "am_identities s i = Some m" "mi_status m = StatusActive"
    and "email \<noteq> []" "length email \<le> MaxEmailLen" "pw' \<noteq> []" "length pw' \<le> MaxPasswordLen"
  shows "\<exists>claims. cs_Subject claims = i \<and> cs_Roles claims = ic_Roles (mi_claims m) \<and>
    Authenticate (verifier_hasher v salt') (vf_decoy v) (auth_Lookup nrm) (auth_UpdateHash nrm) True others email pw' s1 =
      (if kdf pw' salt defaultTime defaultMemoryKiB defaultLanes keyLen = kdf pw salt defaultTime defaultMemoryKiB defaultLanes keyLen
       then Inr claims else Inl InvalidCredentials, [encoded], others s1)"
proof -
  let ?a = "\<lparr>a2_Time = 0, a2_MemoryKiB = 0, a2_Parallelism = 0\<rparr>" and ?p = "\<lparr>pf_time = defaultTime, pf_memory = defaultMemoryKiB, pf_lanes = defaultLanes\<rparr>"
  note v = password_New_default [OF assms(2)]
  have h: "a2_Hash kdf salt ?a pw = Inr encoded" "length pw \<le> MaxPasswordLen"
    using assms(3) v by (auto simp: verifier_Hash_def split: if_splits)
  have d: "phc_decode encoded = Some (?p, salt, kdf pw salt defaultTime defaultMemoryKiB defaultLanes keyLen)"
    using h default_profile decode_format [OF resolve_ok [OF default_profile], of salt "kdf pw salt defaultTime defaultMemoryKiB defaultLanes keyLen"] assms(4,5)
    by (simp add: a2_Hash_def hash_consts)
  obtain q c where c: "activeCredential nrm email s1 = Some (q, c, m)" "mc_identityID c = i" "mc_hash c = encoded"
    using set_password_active [OF assms(6-8)] by blast
  have l: "auth_Lookup nrm email s1 = Inr (credential_of c m)" using c(1) by (simp add: auth_Lookup_def)
  have cmp: "hs_Compare (verifier_hasher v salt') encoded pw' =
      (if kdf pw' salt defaultTime defaultMemoryKiB defaultLanes keyLen = kdf pw salt defaultTime defaultMemoryKiB defaultLanes keyLen then Match else Mismatch)"
    using v assms(5,12) d default_profile by (simp add: verifier_hasher_def a2_Compare_def)
  have n: "\<not> hs_NeedsRehash (verifier_hasher v salt') encoded"
    using v d default_profile assms(4,5) by (simp add: verifier_hasher_def a2_NeedsRehash_def)
  show ?thesis
    by (rule exI [of _ "cr_Claims (credential_of c m)"]) (use assms(9-12) l c cmp n in \<open>auto simp: Authenticate_def maybeRehash_def credential_of_def\<close>)
qed

theorem auth_password_login_witness:
  "\<exists>v encoded s1 claims. password_New sample_kdf True 0 None ''0123456789abcdef'' ''0123456789abcdef'' ''probe'' = Inr v \<and>
     verifier_Hash v True ''0123456789abcdef'' ''secret'' = Inr encoded \<and>
     SetPassword (\<lambda>e. e) ''u1'' ''a@x'' encoded (snd (auth_run (\<lambda>e. e) login_calls NewAuthStore)) = (None, s1) \<and> cs_Subject claims = ''u1'' \<and>
     Authenticate (verifier_hasher v ''fedcba9876543210'') (vf_decoy v) (auth_Lookup (\<lambda>e. e)) (auth_UpdateHash (\<lambda>e. e)) True (\<lambda>s. s) ''a@x'' ''secret'' s1 =
       (Inr claims, [encoded], s1)"
proof -
  let ?s = "snd (auth_run (\<lambda>e. e) login_calls NewAuthStore)"
  have k: "length (sample_kdf pw salt t m l n) = n" for pw salt t m l n by (simp add: sample_kdf_def)
  have len: "length ''0123456789abcdef'' = saltLen" "length ''probe'' \<le> MaxPasswordLen" "length ''secret'' \<le> MaxPasswordLen" "length ''a@x'' \<le> MaxEmailLen"
    by (simp_all add: hash_consts MaxEmailLen_def)
  have "sample_kdf (''self-check probe'' @ ''x'') ''0123456789abcdef'' t m l keyLen \<noteq> sample_kdf ''self-check probe'' ''0123456789abcdef'' t m l keyLen" for t m l
    by (simp add: sample_kdf_def hash_consts)
  then obtain v where v: "password_New sample_kdf True 0 None ''0123456789abcdef'' ''0123456789abcdef'' ''probe'' = Inr v"
    using password_New_ok [where kdf = sample_kdf, OF len(1,1) k order_refl len(2)] by blast
  obtain e where e: "verifier_Hash v True ''0123456789abcdef'' ''secret'' = Inr e"
    using a2_Hash_decode [where kdf = sample_kdf, OF default_profile len(3,1) k] password_New_default [OF v] len(3) by (auto simp: verifier_Hash_def)
  have "fst (SetPassword (\<lambda>e. e) ''u1'' ''a@x'' ''h'' ?s) = None" by code_simp
  then obtain s1 where s1: "SetPassword (\<lambda>e. e) ''u1'' ''a@x'' e ?s = (None, s1)" by (metis SetPassword_error_hash prod.collapse)
  have "map_option mi_status (am_identities ?s ''u1'') = Some StatusActive" by code_simp
  then obtain m where m: "am_identities ?s ''u1'' = Some m" "mi_status m = StatusActive" by auto
  from auth_password_login [OF prod.collapse [symmetric] v e len(1) k s1 m _ len(4) _ len(3), of "''fedcba9876543210''" "\<lambda>s. s"]
  show ?thesis using v e s1 by auto
qed

end
